(* ===== verification/Prelude.thy ===== *)
theory Prelude
  imports Main "HOL-Library.Word" "HOL-Library.Monad_Syntax"
begin

text \<open>
  Shared vocabulary of the development: the Rust integer types, the checked slice
  operations on byte vectors, big-endian byte strings, and the predicates with which the
  component theories state what a computation that may panic or fail returns.

  Conventions.
  \<^item> \<open>U256\<close>, \<open>u64\<close>, \<open>u8\<close>, addresses and hashes are machine words; \<open>usize\<close> lengths and offsets
    are \<open>nat\<close>; the signed gas counters (\<open>i64\<close>) are \<open>int\<close> reduced by \<open>i64\<close>.
  \<^item> A computation that may panic has an \<open>option\<close> result, and \<open>None\<close> is the panic
    (a failed \<open>unwrap\<close>, an out-of-range index, a write past the capacity of the stack).
  \<^item> A Rust \<open>Result\<close> is a sum: \<open>Inl\<close> carries the error, \<open>Inr\<close> the value.
\<close>

named_theorems returns_rules "rules that push the predicate returns through a computation"
named_theorems step_rules "what every instruction returns under its stack requirements"
named_theorems vcg "introduction rules that verify the atomic operations of an instruction"

section \<open>Rust's integer types\<close>

type_synonym byte = "8 word"
type_synonym u64 = "64 word"
type_synonym u128 = "128 word"
type_synonym u256 = "256 word"
type_synonym u512 = "512 word"
type_synonym h256 = "256 word"
type_synonym address = "160 word"

text \<open>Two's complement wrap-around of \<open>i64\<close> arithmetic (the release profile).\<close>

definition i64 :: "int \<Rightarrow> int" where
  "i64 x = (x + 2 ^ 63) mod 2 ^ 64 - 2 ^ 63"

lemma i64_id: "- (2 ^ 63) \<le> x \<Longrightarrow> x < 2 ^ 63 \<Longrightarrow> i64 x = x"
  unfolding i64_def by (subst mod_pos_pos_trivial) auto

lemma i64_range: "- (2 ^ 63) \<le> i64 x \<and> i64 x < 2 ^ 63"
proof -
  have "0 \<le> (x + 2 ^ 63) mod 2 ^ 64" "(x + 2 ^ 63) mod 2 ^ 64 < (2 :: int) ^ 64"
    by simp_all
  then show ?thesis unfolding i64_def by simp
qed

text \<open>Rust's \<open>/\<close> on signed integers truncates towards zero.\<close>

definition i64_div :: "int \<Rightarrow> int \<Rightarrow> int" where
  "i64_div a b = sgn a * sgn b * (\<bar>a\<bar> div \<bar>b\<bar>)"

lemma i64_div_nonneg [simp]: "0 \<le> a \<Longrightarrow> 0 < b \<Longrightarrow> i64_div a b = a div b"
  by (cases "a = 0") (simp_all add: i64_div_def)

text \<open>\<open>U256::as_usize\<close> and \<open>as_u8\<close>/\<open>as_u64\<close> keep the low bits.\<close>

definition as_usize :: "u256 \<Rightarrow> nat" where
  "as_usize w = unat w mod 2 ^ 64"

lemma as_usize_le: "as_usize w \<le> unat w"
  by (simp add: as_usize_def)

lemma as_usize_small: "unat w < 2 ^ 64 \<Longrightarrow> as_usize w = unat w"
  by (simp add: as_usize_def)

lemma unat_of_nat_le: "unat (of_nat n :: 'a::len word) \<le> n"
  by (simp add: unat_of_nat)

section \<open>Byte vectors\<close>

text \<open>\<open>v[a..b]\<close>: panics unless \<open>a \<le> b \<le> v.len()\<close>.\<close>

definition slice_range :: "'a list \<Rightarrow> nat \<Rightarrow> nat \<Rightarrow> 'a list option" where
  "slice_range v a b = (if a \<le> b \<and> b \<le> length v then Some (take (b - a) (drop a v)) else None)"

text \<open>\<open>v[a..b].copy_from_slice(src)\<close>: panics when the range is bad or the lengths differ.\<close>

definition copy_into :: "'a list \<Rightarrow> nat \<Rightarrow> nat \<Rightarrow> 'a list \<Rightarrow> 'a list option" where
  "copy_into v a b src =
     (if a \<le> b \<and> b \<le> length v \<and> length src = b - a
      then Some (take a v @ src @ drop b v) else None)"

text \<open>\<open>v[a..b].fill(x)\<close>.\<close>

definition fill_range :: "'a list \<Rightarrow> nat \<Rightarrow> nat \<Rightarrow> 'a \<Rightarrow> 'a list option" where
  "fill_range v a b x =
     (if a \<le> b \<and> b \<le> length v then Some (take a v @ replicate (b - a) x @ drop b v) else None)"

text \<open>\<open>Vec::resize\<close>: truncates or pads.\<close>

definition resize :: "'a list \<Rightarrow> nat \<Rightarrow> 'a \<Rightarrow> 'a list" where
  "resize v n x = take n v @ replicate (n - length v) x"

text \<open>\<open>v[i]\<close>.\<close>

definition index_at :: "'a list \<Rightarrow> nat \<Rightarrow> 'a option" where
  "index_at v i = (if i < length v then Some (v ! i) else None)"

lemma length_resize [simp]: "length (resize v n x) = n"
  by (simp add: resize_def)

lemma resize_prefix: "length v \<le> n \<Longrightarrow> resize v n x = v @ replicate (n - length v) x"
  by (simp add: resize_def)

lemma slice_full_length: "slice_range v a b = Some w \<Longrightarrow> length w = b - a"
  by (auto simp: slice_range_def split: if_splits)

section \<open>Big-endian byte strings\<close>

definition from_be_bytes :: "byte list \<Rightarrow> u256" where
  "from_be_bytes bs = fold (\<lambda>b acc. acc * 256 + ucast b) bs 0"

definition to_be_bytes :: "u256 \<Rightarrow> byte list" where
  "to_be_bytes w = map (\<lambda>i. ucast (drop_bit (8 * (31 - i)) w)) [0..<32]"

lemma length_to_be_bytes [simp]: "length (to_be_bytes w) = 32"
  by (simp add: to_be_bytes_def)

lemma u256_bit_ge: "256 \<le> j \<Longrightarrow> \<not> bit (w :: u256) j"
  using bit_imp_le_length [of w j] by auto

lemma ucast_byte: "ucast (ucast u :: byte) = take_bit 8 (u :: u256)"
  by (rule bit_word_eqI) (auto simp: bit_simps)

lemma be_bytes_prefix:
  "n \<le> 32 \<Longrightarrow> fold (\<lambda>b acc. acc * 256 + ucast b) (map (\<lambda>i. ucast (drop_bit (8 * (31 - i)) w) :: byte) [0..<n]) 0
     = drop_bit (8 * (32 - n)) (w :: u256)"
proof (induction n)
  case 0
  have "drop_bit 256 w = 0" by (rule bit_word_eqI) (simp add: bit_drop_bit_eq u256_bit_ge)
  then show ?case by simp
next
  case (Suc n)
  define u where "u = drop_bit (8 * (31 - n)) w"
  have "8 * (32 - n) = 8 + 8 * (31 - n)" using Suc.prems by simp
  then have "drop_bit (8 * (32 - n)) w = drop_bit 8 u" by (simp only: u_def drop_bit_drop_bit)
  moreover have "drop_bit 8 u * 256 + ucast (ucast u :: byte) = u"
    using bits_ident [of 8 u] by (simp add: push_bit_eq_mult ucast_byte)
  ultimately show ?case using Suc by (simp add: u_def)
qed

lemma be_bytes_roundtrip [simp]: "from_be_bytes (to_be_bytes w) = w"
  using be_bytes_prefix [of 32 w] by (simp only: from_be_bytes_def to_be_bytes_def) simp

lemma from_be_bytes_zeros: "from_be_bytes (replicate n 0 @ bs) = from_be_bytes bs"
proof -
  have "fold (\<lambda>b acc. acc * 256 + ucast b) (replicate n (0 :: byte)) 0 = (0 :: u256)"
    by (induction n) simp_all
  then show ?thesis by (simp add: from_be_bytes_def)
qed

section \<open>What a computation returns\<close>

text \<open>
  \<open>returns Q m\<close>: the computation does not panic and its result satisfies \<open>Q\<close>.
  \<open>ok_with Q\<close> lifts a postcondition of the successful case over a \<open>Result\<close>; \<open>ok_host I Q\<close> does
  so for results paired with the host state, whose invariant \<open>I\<close> holds on both branches.
\<close>

definition returns :: "('a \<Rightarrow> bool) \<Rightarrow> 'a option \<Rightarrow> bool" where
  "returns Q m = (case m of None \<Rightarrow> False | Some a \<Rightarrow> Q a)"

definition ok_with :: "('a \<Rightarrow> bool) \<Rightarrow> 'e + 'a \<Rightarrow> bool" where
  "ok_with Q r = (case r of Inl _ \<Rightarrow> True | Inr a \<Rightarrow> Q a)"

definition ok_host :: "('h \<Rightarrow> bool) \<Rightarrow> ('a \<Rightarrow> 'h \<Rightarrow> bool) \<Rightarrow> ('e + 'a) \<times> 'h \<Rightarrow> bool" where
  "ok_host I Q r = (I (snd r) \<and> ok_with (\<lambda>a. Q a (snd r)) (fst r))"

lemma returns_Some [simp, returns_rules]: "returns Q (Some a) = Q a"
  by (simp add: returns_def)

lemma returns_None [simp, returns_rules]: "returns Q None = False"
  by (simp add: returns_def)

lemma returns_bind [simp, returns_rules]:
  "returns Q (Option.bind m f) = returns (\<lambda>a. returns Q (f a)) m"
  by (cases m) simp_all

lemma returns_Let [simp]: "returns Q (Let a f) = returns Q (f a)"
  by (simp add: Let_def)

lemma returns_if: "returns Q (if b then m else n) = ((b \<longrightarrow> returns Q m) \<and> (\<not> b \<longrightarrow> returns Q n))"
  by simp

lemma returns_mono [elim]: "returns P m \<Longrightarrow> (\<And>a. P a \<Longrightarrow> Q a) \<Longrightarrow> returns Q m"
  by (auto simp: returns_def split: option.splits)

lemma returns_ex: "returns Q m = (\<exists>a. m = Some a \<and> Q a)"
  by (auto simp: returns_def split: option.splits)

lemma returnsD: "returns Q m \<Longrightarrow> m = Some a \<Longrightarrow> Q a"
  by (simp add: returns_def)

lemma returns_conj:
  "returns P m \<Longrightarrow> returns Q m \<Longrightarrow> returns (\<lambda>a. P a \<and> Q a) m"
  by (auto simp: returns_def split: option.splits)

lemma ok_with_simps [simp]: "ok_with Q (Inl e) = True" "ok_with Q (Inr a) = Q a"
  by (simp_all add: ok_with_def)

lemma ok_with_mono: "ok_with P r \<Longrightarrow> (\<And>a. P a \<Longrightarrow> Q a) \<Longrightarrow> ok_with Q r"
  by (cases r) simp_all

lemma ok_host_simps [simp]:
  "ok_host I Q (Inl e, h) = I h" "ok_host I Q (Inr a, h) = (I h \<and> Q a h)"
  by (simp_all add: ok_host_def)

lemma ok_host_mono:
  "ok_host I P r \<Longrightarrow> (\<And>a h. I h \<Longrightarrow> P a h \<Longrightarrow> Q a h) \<Longrightarrow> ok_host I Q r"
  by (cases r; cases "fst r") (auto simp: ok_host_def)

lemma returns_slice_range [simp]:
  "returns Q (slice_range v a b) = (a \<le> b \<and> b \<le> length v \<and> Q (take (b - a) (drop a v)))"
  by (auto simp: slice_range_def)

lemma returns_copy_into [simp]:
  "returns Q (copy_into v a b src) =
     (a \<le> b \<and> b \<le> length v \<and> length src = b - a \<and> Q (take a v @ src @ drop b v))"
  by (auto simp: copy_into_def)

lemma returns_fill_range [simp]:
  "returns Q (fill_range v a b x) =
     (a \<le> b \<and> b \<le> length v \<and> Q (take a v @ replicate (b - a) x @ drop b v))"
  by (auto simp: fill_range_def)

lemma returns_index_at [simp]: "returns Q (index_at v i) = (i < length v \<and> Q (v ! i))"
  by (simp add: index_at_def)

text \<open>The \<open>?\<close> operator: an error result ends the enclosing function.\<close>

definition try_then :: "'e + 'a \<Rightarrow> ('a \<Rightarrow> ('e + 'b) option) \<Rightarrow> ('e + 'b) option" where
  "try_then r f = (case r of Inl e \<Rightarrow> Some (Inl e) | Inr a \<Rightarrow> f a)"

definition try_host ::
  "('e + 'a) \<times> 'h \<Rightarrow> ('a \<Rightarrow> 'h \<Rightarrow> (('e + 'b) \<times> 'h) option) \<Rightarrow> (('e + 'b) \<times> 'h) option" where
  "try_host r f = (case r of (Inl e, h) \<Rightarrow> Some (Inl e, h) | (Inr a, h) \<Rightarrow> f a h)"

lemma try_then_simps [simp]: "try_then (Inl e) f = Some (Inl e)" "try_then (Inr a) f = f a"
  by (simp_all add: try_then_def)

lemma try_host_simps [simp]:
  "try_host (Inl e, h) f = Some (Inl e, h)" "try_host (Inr a, h) f = f a h"
  by (simp_all add: try_host_def)

text \<open>\<open>Result::map_err\<close>.\<close>

definition map_err :: "('e \<Rightarrow> 'f) \<Rightarrow> 'e + 'a \<Rightarrow> 'f + 'a" where
  "map_err f r = (case r of Inl e \<Rightarrow> Inl (f e) | Inr a \<Rightarrow> Inr a)"

lemma map_err_simps [simp]: "map_err f (Inl e) = Inl (f e)" "map_err f (Inr a) = Inr a"
  by (simp_all add: map_err_def)

lemma ok_with_map_err [simp]: "ok_with Q (map_err f r) = ok_with Q r"
  by (cases r) simp_all

lemma returns_try_then:
  "ok_with P r \<Longrightarrow> (\<And>a. P a \<Longrightarrow> returns (ok_with Q) (f a)) \<Longrightarrow> returns (ok_with Q) (try_then r f)"
  by (cases r) simp_all

lemma returns_try_host:
  "ok_host I P r \<Longrightarrow> (\<And>a h. I h \<Longrightarrow> P a h \<Longrightarrow> returns (ok_host I Q) (f a h))
   \<Longrightarrow> returns (ok_host I Q) (try_host r f)"
  by (cases r; cases "fst r") auto

lemma unat_u64: "unat (n :: u64) < 2 ^ 64"
  using unsigned_less [of n] by simp

lemma u64_eqI: "unat n = k \<Longrightarrow> (n :: u64) = of_nat k"
  by auto

lemma u64_of_nat: "n < 2 ^ 64 \<Longrightarrow> unat (of_nat n :: u64) = n"
  by (simp add: unat_of_nat take_bit_nat_eq_self_iff)

end
