(* ===== verification/EvmStack.thy ===== *)
theory EvmStack
  imports Prelude
begin

text \<open>
  The EVM operand stack, \<open>Stack(ArrayVec<U256, STACK_SIZE>)\<close> of
  \<open>src/execution/evm/state.rs\<close>. The vector is kept as the code keeps it, bottom first, and the
  top is its last element. \<open>push\<close> is \<open>push_unchecked\<close>: pushing onto a full vector is undefined
  behaviour, which the model reports as \<open>None\<close>, like the panics of \<open>pop\<close> and indexing.

  The locale \<open>lifo_stack\<close> is the interface the instructions use: a stack with a top-first
  view. The lemmas on one-, two- and three-operand instructions are proved once inside it.
\<close>

type_synonym stack = "u256 list"

definition STACK_SIZE :: nat where
  "STACK_SIZE = 1024"

definition stack_len :: "stack \<Rightarrow> nat" where
  "stack_len s = length s"

definition stack_push :: "u256 \<Rightarrow> stack \<Rightarrow> stack option" where
  "stack_push v s = (if length s < STACK_SIZE then Some (s @ [v]) else None)"

definition stack_pop :: "stack \<Rightarrow> (u256 \<times> stack) option" where
  "stack_pop s = (if s = [] then None else Some (last s, butlast s))"

text \<open>\<open>get_pos\<close>: the subtraction underflows, and the index panics, when \<open>pos\<close> is too deep.\<close>

definition get_pos :: "stack \<Rightarrow> nat \<Rightarrow> nat option" where
  "get_pos s pos = (if pos < length s then Some (length s - 1 - pos) else None)"

definition stack_get :: "stack \<Rightarrow> nat \<Rightarrow> u256 option" where
  "stack_get s pos = do { i \<leftarrow> get_pos s pos; index_at s i }"

text \<open>\<open>*stack.get_mut(pos) = v\<close>.\<close>

definition stack_set :: "stack \<Rightarrow> nat \<Rightarrow> u256 \<Rightarrow> stack option" where
  "stack_set s pos v = do { i \<leftarrow> get_pos s pos; Some (s[i := v]) }"

definition swap_top :: "stack \<Rightarrow> nat \<Rightarrow> stack option" where
  "swap_top s pos = do {
     let top = length s - 1;
     i \<leftarrow> get_pos s pos;
     a \<leftarrow> index_at s top;
     b \<leftarrow> index_at s i;
     Some (s[top := b, i := a]) }"

lemma stack_push_eq [simp]: "length s < STACK_SIZE \<Longrightarrow> stack_push v s = Some (s @ [v])"
  by (simp add: stack_push_def)

lemma stack_pop_snoc [simp]: "stack_pop (s @ [v]) = Some (v, s)"
  by (simp add: stack_pop_def)

lemma rev_nth_get_pos: "pos < length s \<Longrightarrow> rev s ! pos = s ! (length s - 1 - pos)"
  by (simp add: rev_nth)

lemma stack_get_view: "stack_get s pos = (if pos < length s then Some (rev s ! pos) else None)"
  by (auto simp: stack_get_def get_pos_def index_at_def rev_nth)

lemma rev_list_update: "i < length s \<Longrightarrow> rev (s[length s - 1 - i := v]) = (rev s)[i := v]"
  by (rule nth_equalityI) (auto simp: rev_nth nth_list_update)

lemma rev_list_update_top: "s \<noteq> [] \<Longrightarrow> rev (s[length s - Suc 0 := v]) = (rev s)[0 := v]"
  using rev_list_update [of 0 s v] by simp

section \<open>The stack interface\<close>

locale lifo_stack =
  fixes push :: "u256 \<Rightarrow> 's \<Rightarrow> 's option"
    and pop :: "'s \<Rightarrow> (u256 \<times> 's) option"
    and get :: "'s \<Rightarrow> nat \<Rightarrow> u256 option"
    and set_at :: "'s \<Rightarrow> nat \<Rightarrow> u256 \<Rightarrow> 's option"
    and swap :: "'s \<Rightarrow> nat \<Rightarrow> 's option"
    and view :: "'s \<Rightarrow> u256 list"
    and capacity :: nat
  assumes push_law: "length (view s) < capacity \<Longrightarrow> returns (\<lambda>s'. view s' = v # view s) (push v s)"
    and pop_law: "view s = v # vs \<Longrightarrow> returns (\<lambda>(x, s'). x = v \<and> view s' = vs) (pop s)"
    and get_law: "pos < length (view s) \<Longrightarrow> get s pos = Some (view s ! pos)"
    and set_law: "pos < length (view s) \<Longrightarrow> returns (\<lambda>s'. view s' = (view s)[pos := v]) (set_at s pos v)"
    and swap_law: "pos < length (view s) \<Longrightarrow>
      returns (\<lambda>s'. view s' = (view s)[0 := view s ! pos, pos := view s ! 0]) (swap s pos)"
begin

lemma popE:
  assumes "view s = v # vs"
  obtains s' where "pop s = Some (v, s')" "view s' = vs"
  using pop_law [OF assms] by (auto simp: returns_ex)

lemma pushE:
  assumes "length (view s) < capacity"
  obtains s' where "push v s = Some s'" "view s' = v # view s"
  using push_law [OF assms] by (auto simp: returns_ex)

lemma setE:
  assumes "pos < length (view s)"
  obtains s' where "set_at s pos v = Some s'" "view s' = (view s)[pos := v]"
  using set_law [OF assms] by (auto simp: returns_ex)

text \<open>An operand read, then overwritten in place.\<close>

lemma unary_top:
  assumes "view s = a # vs"
  shows "returns (\<lambda>s'. view s' = f a # vs) (do { x \<leftarrow> get s 0; set_at s 0 (f x) })"
proof -
  have "get s 0 = Some a" using get_law [of 0 s] assms by simp
  then show ?thesis using set_law [of 0 s "f a"] assms by simp
qed

text \<open>Two operands popped, one result pushed.\<close>

lemma binary_push:
  assumes "view s = a # b # vs" and "length (view s) \<le> capacity"
  shows "returns (\<lambda>s'. view s' = f a b # vs)
    (do { (x, s1) \<leftarrow> pop s; (y, s2) \<leftarrow> pop s1; push (f x y) s2 })"
proof -
  obtain s1 where 1: "pop s = Some (a, s1)" "view s1 = b # vs" using assms(1) by (rule popE)
  obtain s2 where 2: "pop s1 = Some (b, s2)" "view s2 = vs" using 1(2) by (rule popE)
  show ?thesis using push_law [of s2 "f a b"] 1 2 assms by simp
qed

text \<open>One operand popped, the next overwritten with the result.\<close>

lemma binary_top:
  assumes "view s = a # b # vs"
  shows "returns (\<lambda>s'. view s' = f a b # vs)
    (do { (x, s1) \<leftarrow> pop s; y \<leftarrow> get s1 0; set_at s1 0 (f x y) })"
proof -
  obtain s1 where 1: "pop s = Some (a, s1)" "view s1 = b # vs" using assms by (rule popE)
  have "get s1 0 = Some b" using get_law [of 0 s1] 1(2) by simp
  then show ?thesis using set_law [of 0 s1 "f a b"] 1 by simp
qed

text \<open>Three operands popped, one result pushed.\<close>

lemma ternary_push:
  assumes "view s = a # b # c # vs" and "length (view s) \<le> capacity"
  shows "returns (\<lambda>s'. view s' = f a b c # vs)
    (do { (x, s1) \<leftarrow> pop s; (y, s2) \<leftarrow> pop s1; (z, s3) \<leftarrow> pop s2; push (f x y z) s3 })"
proof -
  obtain s1 where 1: "pop s = Some (a, s1)" "view s1 = b # c # vs" using assms(1) by (rule popE)
  obtain s2 where 2: "pop s1 = Some (b, s2)" "view s2 = c # vs" using 1(2) by (rule popE)
  obtain s3 where 3: "pop s2 = Some (c, s3)" "view s3 = vs" using 2(2) by (rule popE)
  show ?thesis using push_law [of s3 "f a b c"] 1 2 3 assms by simp
qed

end

interpretation evm_stack: lifo_stack stack_push stack_pop stack_get stack_set swap_top rev STACK_SIZE
proof unfold_locales
  fix s :: stack and v :: u256 and vs :: "u256 list" and pos :: nat
  show "length (rev s) < STACK_SIZE \<Longrightarrow> returns (\<lambda>s'. rev s' = v # rev s) (stack_push v s)"
    by simp
  show "rev s = v # vs \<Longrightarrow> returns (\<lambda>(x, s'). x = v \<and> rev s' = vs) (stack_pop s)"
    by (cases s rule: rev_cases) simp_all
  show "pos < length (rev s) \<Longrightarrow> stack_get s pos = Some (rev s ! pos)"
    by (simp add: stack_get_view)
  show "pos < length (rev s) \<Longrightarrow> returns (\<lambda>s'. rev s' = (rev s)[pos := v]) (stack_set s pos v)"
    using rev_list_update [of pos s v] by (simp add: stack_set_def get_pos_def)
  show "pos < length (rev s) \<Longrightarrow>
      returns (\<lambda>s'. rev s' = (rev s)[0 := rev s ! pos, pos := rev s ! 0]) (swap_top s pos)"
  proof -
    assume pos: "pos < length (rev s)"
    then have ne: "s \<noteq> []" by auto
    have len: "length (s[length s - 1 := x]) = length s" for x by simp
    show "returns (\<lambda>s'. rev s' = (rev s)[0 := rev s ! pos, pos := rev s ! 0]) (swap_top s pos)"
      using pos ne rev_list_update [of pos "s[length s - 1 := s ! (length s - 1 - pos)]" "last s"]
      by (simp add: swap_top_def get_pos_def rev_nth rev_list_update_top last_conv_nth)
  qed
qed

section \<open>Lengths\<close>

text \<open>How much an instruction changes the height is all the interpreter's safety needs.\<close>

lemma returns_stack_pop [simp]: "s \<noteq> [] \<Longrightarrow> returns Q (stack_pop s) = Q (last s, butlast s)"
  by (simp add: stack_pop_def)

lemma returns_stack_push [simp]: "length s < STACK_SIZE \<Longrightarrow> returns Q (stack_push v s) = Q (s @ [v])"
  by simp

lemma returns_stack_get [simp]: "pos < length s \<Longrightarrow> returns Q (stack_get s pos) = Q (rev s ! pos)"
  by (simp add: stack_get_view)

lemma returns_stack_set [simp]:
  "pos < length s \<Longrightarrow> returns Q (stack_set s pos v) = Q (s[length s - 1 - pos := v])"
  by (simp add: stack_set_def get_pos_def)

lemma returns_swap_top: "pos < length s \<Longrightarrow> returns (\<lambda>s'. length s' = length s) (swap_top s pos)"
  by (auto simp: swap_top_def get_pos_def)

end
