(* ===== verification/Revision.thy ===== *)
theory Revision
  imports Prelude
begin

text \<open>
  The protocol revisions (\<open>src/models/revision.rs\<close>). The Rust enum derives \<open>Ord\<close> from its
  discriminants; the class instance below gives the model the same linear order.
\<close>

datatype Revision =
    Frontier | Homestead | Tangerine | Spurious | Byzantium | Constantinople
  | Petersburg | Istanbul | Berlin | London | Shanghai

text \<open>The discriminant, \<open>revision as usize\<close>.\<close>

primrec revision_index :: "Revision \<Rightarrow> nat" where
  "revision_index Frontier = 0"
| "revision_index Homestead = 1"
| "revision_index Tangerine = 2"
| "revision_index Spurious = 3"
| "revision_index Byzantium = 4"
| "revision_index Constantinople = 5"
| "revision_index Petersburg = 6"
| "revision_index Istanbul = 7"
| "revision_index Berlin = 8"
| "revision_index London = 9"
| "revision_index Shanghai = 10"

definition revision_iter :: "Revision list" where
  "revision_iter = [Frontier, Homestead, Tangerine, Spurious, Byzantium, Constantinople,
     Petersburg, Istanbul, Berlin, London, Shanghai]"

definition revision_latest :: Revision where
  "revision_latest = Shanghai"

definition revision_len :: nat where
  "revision_len = revision_index revision_latest + 1"

lemma revision_index_inject: "revision_index a = revision_index b \<Longrightarrow> a = b"
  by (cases a; cases b) simp_all

instantiation Revision :: linorder
begin

definition less_eq_Revision :: "Revision \<Rightarrow> Revision \<Rightarrow> bool" where
  "less_eq_Revision a b \<longleftrightarrow> revision_index a \<le> revision_index b"

definition less_Revision :: "Revision \<Rightarrow> Revision \<Rightarrow> bool" where
  "less_Revision a b \<longleftrightarrow> revision_index a < revision_index b"

instance
proof
  fix x y z :: Revision
  show "(x < y) = (x \<le> y \<and> \<not> y \<le> x)"
    by (auto simp: less_eq_Revision_def less_Revision_def)
  show "x \<le> x" by (simp add: less_eq_Revision_def)
  show "x \<le> y \<Longrightarrow> y \<le> z \<Longrightarrow> x \<le> z" by (simp add: less_eq_Revision_def)
  show "x \<le> y \<Longrightarrow> y \<le> x \<Longrightarrow> x = y"
    by (simp add: less_eq_Revision_def revision_index_inject)
  show "x \<le> y \<or> y \<le> x" by (auto simp: less_eq_Revision_def)
qed

end

lemmas revision_order = less_eq_Revision_def less_Revision_def

text \<open>The iterator lists every revision once, in discriminant order, and \<open>len\<close> counts them.\<close>

lemma revision_iter_complete:
  "distinct revision_iter \<and> set revision_iter = UNIV \<and> length revision_iter = revision_len"
proof -
  have "r \<in> set revision_iter" for r by (cases r) (simp_all add: revision_iter_def)
  then have "set revision_iter = UNIV" by blast
  then show ?thesis by (simp add: revision_iter_def revision_len_def revision_latest_def)
qed

lemma revision_le_latest: "r \<le> revision_latest"
  by (cases r) (simp_all add: revision_order revision_latest_def)

end
