(* ===== verification/EvmTypes.thy ===== *)
theory EvmTypes
  imports EvmStack Revision
begin

text \<open>
  The data of the EVM: status codes, messages and outputs (\<open>src/execution/evm/common.rs\<close>),
  memory and execution state (\<open>state.rs\<close>), and the \<open>Host\<close> trait with the types it exchanges
  (\<open>host.rs\<close>). Third-party functions the instructions call (Keccak-256 and the signed-integer
  crate \<open>i256\<close>) are the fields of the record \<open>lib\<close>, a parameter of every definition that
  uses them.
\<close>

section \<open>Status codes, messages, outputs\<close>

datatype StatusCode =
    Success | Failure | Revert | OutOfGas | InvalidInstruction | UndefinedInstruction
  | StackOverflow | StackUnderflow | BadJumpDestination | InvalidMemoryAccess
  | CallDepthExceeded | StaticModeViolation | PrecompileFailure | ContractValidationFailure
  | ArgumentOutOfRange | InsufficientBalance | InternalError string

datatype CallKind = Call | DelegateCall | CallCode | Create | Create2 u256

record InterpreterMessage =
  msg_kind :: CallKind
  msg_is_static :: bool
  msg_depth :: int
  msg_gas :: int
  msg_recipient :: address
  msg_sender :: address
  msg_input_data :: "byte list"
  msg_value :: u256
  msg_code_address :: address

record CreateMessage =
  cm_salt :: "u256 option"
  cm_gas :: int
  cm_depth :: int
  cm_initcode :: "byte list"
  cm_sender :: address
  cm_endowment :: u256

definition create_to_interpreter :: "CreateMessage \<Rightarrow> InterpreterMessage" where
  "create_to_interpreter m = \<lparr>
     msg_kind = (case cm_salt m of Some salt \<Rightarrow> Create2 salt | None \<Rightarrow> Create),
     msg_is_static = False, msg_depth = cm_depth m, msg_gas = cm_gas m,
     msg_recipient = 0, msg_sender = cm_sender m, msg_input_data = cm_initcode m,
     msg_value = cm_endowment m, msg_code_address = 0\<rparr>"

record Output =
  out_status_code :: StatusCode
  out_gas_left :: int
  out_output_data :: "byte list"
  out_create_address :: "address option"

record SuccessfulOutput =
  so_reverted :: bool
  so_gas_left :: int
  so_output_data :: "byte list"

definition successful_to_output :: "SuccessfulOutput \<Rightarrow> Output" where
  "successful_to_output o' = \<lparr>
     out_status_code = (if so_reverted o' then Revert else Success),
     out_gas_left = so_gas_left o', out_output_data = so_output_data o',
     out_create_address = None\<rparr>"

text \<open>\<open>H256(v.to_be_bytes()).into()\<close> keeps the last twenty bytes.\<close>

definition u256_to_address :: "u256 \<Rightarrow> address" where
  "u256_to_address v = ucast v"

definition address_to_u256 :: "address \<Rightarrow> u256" where
  "address_to_u256 v = ucast v"

text \<open>At most 32 bytes, padded on the left; a longer slice underflows the pad and panics.\<close>

definition u256_from_slice :: "byte list \<Rightarrow> u256 option" where
  "u256_from_slice v =
     (if length v = 0 then Some 0
      else if length v \<le> 32 then Some (from_be_bytes (replicate (32 - length v) 0 @ v))
      else None)"

lemma address_roundtrip [simp]: "u256_to_address (address_to_u256 a) = a"
  unfolding u256_to_address_def address_to_u256_def by (rule bit_word_eqI) (simp add: bit_simps)

section \<open>Memory and execution state\<close>

type_synonym memory = "byte list"

text \<open>\<open>Memory::grow\<close>: the capacity bookkeeping (\<open>reserve\<close>) has no visible effect.\<close>

definition memory_grow :: "memory \<Rightarrow> nat \<Rightarrow> memory" where
  "memory_grow m n = resize m n 0"

record ExecutionState =
  gas_left :: int
  stack :: stack
  memory :: memory
  message :: InterpreterMessage
  return_data :: "byte list"
  output_data :: "byte list"

definition ExecutionState_new :: "InterpreterMessage \<Rightarrow> ExecutionState" where
  "ExecutionState_new m = \<lparr>gas_left = msg_gas m, stack = [], memory = [], message = m,
     return_data = [], output_data = []\<rparr>"

text \<open>\<open>state.stack.pop()\<close> and \<open>state.stack.push(v)\<close>.\<close>

definition state_pop :: "ExecutionState \<Rightarrow> (u256 \<times> ExecutionState) option" where
  "state_pop state = do { (v, st) \<leftarrow> stack_pop (stack state); Some (v, state\<lparr>stack := st\<rparr>) }"

definition state_push :: "u256 \<Rightarrow> ExecutionState \<Rightarrow> ExecutionState option" where
  "state_push v state = do { st \<leftarrow> stack_push v (stack state); Some (state\<lparr>stack := st\<rparr>) }"

text \<open>
  The pattern \<open>state.gas_left -= c; if state.gas_left < 0 { return Err(OutOfGas) }\<close>, which
  every charging instruction repeats.
\<close>

definition charge :: "int \<Rightarrow> ExecutionState \<Rightarrow> StatusCode + ExecutionState" where
  "charge c state =
     (let state' = state\<lparr>gas_left := i64 (gas_left state - c)\<rparr>
      in if gas_left state' < 0 then Inl OutOfGas else Inr state')"

section \<open>The host interface\<close>

datatype AccessStatus = Cold | Warm

datatype StorageStatus = Unchanged | Modified | ModifiedAgain | Added | Deleted

record TxContext =
  tx_gas_price :: u256
  tx_origin :: address
  block_coinbase :: address
  block_number :: u64
  block_timestamp :: u64
  block_gas_limit :: u64
  block_difficulty :: u256
  chain_id :: u256
  block_base_fee :: u256

datatype HostCall = CallMsg InterpreterMessage | CreateMsg CreateMessage

definition call_to_interpreter :: "HostCall \<Rightarrow> InterpreterMessage" where
  "call_to_interpreter c = (case c of CallMsg m \<Rightarrow> m | CreateMsg m \<Rightarrow> create_to_interpreter m)"

text \<open>
  The trait \<open>Host\<close>: a record of operations on a host state, each of which may panic.
  \<open>copy_code\<close> receives the buffer and gives back the buffer with the number of bytes written.
\<close>

record 'h Host =
  account_exists :: "'h \<Rightarrow> address \<Rightarrow> (bool \<times> 'h) option"
  get_storage :: "'h \<Rightarrow> address \<Rightarrow> u256 \<Rightarrow> (u256 \<times> 'h) option"
  set_storage :: "'h \<Rightarrow> address \<Rightarrow> u256 \<Rightarrow> u256 \<Rightarrow> (StorageStatus \<times> 'h) option"
  get_balance :: "'h \<Rightarrow> address \<Rightarrow> (u256 \<times> 'h) option"
  get_code_size :: "'h \<Rightarrow> address \<Rightarrow> (u256 \<times> 'h) option"
  get_code_hash :: "'h \<Rightarrow> address \<Rightarrow> (u256 \<times> 'h) option"
  copy_code :: "'h \<Rightarrow> address \<Rightarrow> nat \<Rightarrow> byte list \<Rightarrow> ((nat \<times> byte list) \<times> 'h) option"
  selfdestruct :: "'h \<Rightarrow> address \<Rightarrow> address \<Rightarrow> 'h option"
  call :: "'h \<Rightarrow> HostCall \<Rightarrow> (Output \<times> 'h) option"
  get_tx_context :: "'h \<Rightarrow> (TxContext \<times> 'h) option"
  get_block_hash :: "'h \<Rightarrow> u64 \<Rightarrow> (u256 \<times> 'h) option"
  emit_log :: "'h \<Rightarrow> address \<Rightarrow> byte list \<Rightarrow> u256 list \<Rightarrow> 'h option"
  access_account :: "'h \<Rightarrow> address \<Rightarrow> (AccessStatus \<times> 'h) option"
  access_storage :: "'h \<Rightarrow> address \<Rightarrow> u256 \<Rightarrow> (AccessStatus \<times> 'h) option"

section \<open>Third-party functions\<close>

text \<open>
  \<open>i256::I256\<close> is a sign and a magnitude; the conversions, the division, the remainder and
  the comparison are the crate's. \<open>keccak256\<close> is the \<open>sha3\<close> crate's digest, as the 256-bit
  number its 32 bytes spell.
\<close>

datatype sign = Plus | Minus | NoSign

type_synonym i256 = "sign \<times> u256"

record lib =
  keccak256 :: "byte list \<Rightarrow> h256"
  i256_from :: "u256 \<Rightarrow> i256"
  i256_into :: "i256 \<Rightarrow> u256"
  i256_zero :: i256
  i256_div :: "i256 \<Rightarrow> i256 \<Rightarrow> i256"
  i256_rem :: "i256 \<Rightarrow> i256 \<Rightarrow> i256"
  i256_lt :: "i256 \<Rightarrow> i256 \<Rightarrow> bool"

section \<open>The invariant of a running frame\<close>

text \<open>
  Memory is grown in 32-byte words and never past two maximal buffers, the operand stack
  respects its capacity, the gas counter is a non-negative \<open>i64\<close>, and byte vectors have lengths
  that Rust can allocate (at most \<open>isize::MAX\<close>).
\<close>

definition MEMORY_LIMIT :: nat where
  "MEMORY_LIMIT = 2 ^ 33"

definition state_ok :: "ExecutionState \<Rightarrow> bool" where
  "state_ok s \<longleftrightarrow> 0 \<le> gas_left s \<and> gas_left s < 2 ^ 63 \<and> length (stack s) \<le> STACK_SIZE
     \<and> 32 dvd length (memory s) \<and> length (memory s) \<le> MEMORY_LIMIT
     \<and> 0 \<le> msg_depth (message s) \<and> msg_depth (message s) \<le> 1024
     \<and> length (msg_input_data (message s)) < 2 ^ 63 \<and> length (return_data s) < 2 ^ 63
     \<and> length (output_data s) < 2 ^ 63"

lemma charge_ok:
  assumes "0 \<le> c" "c \<le> 2 ^ 63" "0 \<le> gas_left s" "gas_left s < 2 ^ 63"
  shows "charge c s =
    (if gas_left s < c then Inl OutOfGas else Inr (s\<lparr>gas_left := gas_left s - c\<rparr>))"
proof -
  have "i64 (gas_left s - c) = gas_left s - c" using assms by (intro i64_id) linarith+
  then show ?thesis by (simp add: charge_def)
qed

lemma charge_spec:
  assumes "0 \<le> c" "c \<le> 2 ^ 63" "state_ok s"
  shows "ok_with (\<lambda>s'. s' = s\<lparr>gas_left := gas_left s - c\<rparr> \<and> c \<le> gas_left s \<and> state_ok s') (charge c s)"
  using assms by (auto simp: charge_ok state_ok_def)

text \<open>
  \<open>runs k s r\<close>: an instruction started in \<open>s\<close> does not panic, and when it succeeds it keeps the
  invariant and the message, does not add gas and changes the height of the stack by \<open>k\<close>.
\<close>

definition frame_ok :: "int \<Rightarrow> ExecutionState \<Rightarrow> ExecutionState \<Rightarrow> bool" where
  "frame_ok k s s' \<longleftrightarrow> state_ok s' \<and> gas_left s' \<le> gas_left s \<and> message s' = message s
     \<and> int (length (stack s')) = int (length (stack s)) + k"

definition runs :: "int \<Rightarrow> ExecutionState \<Rightarrow> (StatusCode + ExecutionState) option \<Rightarrow> bool" where
  "runs k s m = returns (ok_with (frame_ok k s)) m"

definition runs_host :: "('h \<Rightarrow> bool) \<Rightarrow> int \<Rightarrow> ExecutionState
    \<Rightarrow> ((StatusCode + ExecutionState) \<times> 'h) option \<Rightarrow> bool" where
  "runs_host I k s m = returns (ok_host I (\<lambda>s' _. frame_ok k s s')) m"

lemma frame_ok_trans: "frame_ok j s s' \<Longrightarrow> frame_ok k s' s'' \<Longrightarrow> frame_ok (j + k) s s''"
  by (auto simp: frame_ok_def)

lemma frame_ok_refl: "state_ok s \<Longrightarrow> frame_ok 0 s s"
  by (simp add: frame_ok_def)

text \<open>
  The atomic operations, as introduction rules: \<open>auto\<close> splits an instruction into its operations
  with them, and each leaves behind the equations that link the state after it to the one before.
\<close>

lemma vcg_pop [vcg]:
  assumes "state_ok s" "1 \<le> length (stack s)"
    and "\<And>v s'. \<lbrakk>state_ok s'; message s' = message s; return_data s' = return_data s;
      memory s' = memory s; gas_left s' = gas_left s; length (stack s) = Suc (length (stack s'))\<rbrakk>
      \<Longrightarrow> R (v, s')"
  shows "returns R (state_pop s)"
proof -
  have "stack s \<noteq> []" using assms(2) by auto
  moreover have "R (last (stack s), s\<lparr>stack := butlast (stack s)\<rparr>)"
    using assms(1,2) by (intro assms(3)) (auto simp: state_ok_def)
  ultimately show ?thesis by (simp add: state_pop_def)
qed

lemma vcg_push [vcg]:
  assumes "state_ok s" "length (stack s) < STACK_SIZE"
    and "\<And>s'. \<lbrakk>state_ok s'; message s' = message s; return_data s' = return_data s;
      memory s' = memory s; gas_left s' = gas_left s; length (stack s') = Suc (length (stack s))\<rbrakk>
      \<Longrightarrow> R s'"
  shows "returns R (state_push v s)"
proof -
  have "R (s\<lparr>stack := stack s @ [v]\<rparr>)"
    using assms(1,2) by (intro assms(3)) (simp_all add: state_ok_def)
  then show ?thesis using assms(2) by (simp add: state_push_def)
qed

text \<open>Charges that cannot wrap the gas counter around.\<close>

definition small_cost :: "int \<Rightarrow> bool" where
  "small_cost c \<longleftrightarrow> 0 \<le> c \<and> c \<le> 2 ^ 62"

lemma small_cost_numeral [simp]: "small_cost 0" "small_cost 1"
    "small_cost (numeral n) = (numeral n \<le> (2 :: int) ^ 62)"
  by (simp_all add: small_cost_def)

lemma vcg_charge [vcg]:
  assumes "state_ok s" "small_cost c" "R (Inl OutOfGas)"
    and "\<And>s'. \<lbrakk>state_ok s'; message s' = message s; return_data s' = return_data s;
      memory s' = memory s; stack s' = stack s; gas_left s' + c \<le> gas_left s; gas_left s' \<le> gas_left s\<rbrakk>
      \<Longrightarrow> returns R (f s')"
  shows "returns R (try_then (charge c s) f)"
proof (cases "gas_left s < c")
  case False
  have "returns R (f (s\<lparr>gas_left := gas_left s - c\<rparr>))"
    using assms(1,2) False by (intro assms(4)) (simp_all add: state_ok_def small_cost_def)
  then show ?thesis using assms(1,2) False by (simp add: charge_ok state_ok_def small_cost_def)
qed (use assms in \<open>simp add: charge_ok state_ok_def small_cost_def\<close>)

lemma state_ok_memory: "state_ok s \<Longrightarrow> length m = length (memory s) \<Longrightarrow> state_ok (s\<lparr>memory := m\<rparr>)"
  by (simp add: state_ok_def)

lemma state_ok_output: "state_ok s \<Longrightarrow> length d < 2 ^ 63 \<Longrightarrow> state_ok (s\<lparr>output_data := d\<rparr>)"
  by (simp add: state_ok_def)

lemma state_ok_gas: "state_ok s \<Longrightarrow> 0 \<le> gas_left s" "state_ok s \<Longrightarrow> gas_left s < 2 ^ 63"
  by (simp_all add: state_ok_def)

lemma state_ok_height: "state_ok s \<Longrightarrow> length (stack s) \<le> STACK_SIZE"
  by (simp add: state_ok_def)

section \<open>A sample frame\<close>

text \<open>
  A message, a frame on a given stack and a library, on which the properties of the development are
  evaluated. The digest of the sample library is a stand-in that no property depends on.
\<close>

definition sample_message :: InterpreterMessage where
  "sample_message = \<lparr>msg_kind = Call, msg_is_static = False, msg_depth = 0, msg_gas = 100000,
     msg_recipient = 10, msg_sender = 20, msg_input_data = [1, 2, 3], msg_value = 0, msg_code_address = 10\<rparr>"

definition sample_state :: "stack \<Rightarrow> ExecutionState" where
  "sample_state st = (ExecutionState_new sample_message)\<lparr>stack := st\<rparr>"

definition sample_lib :: lib where
  "sample_lib = \<lparr>keccak256 = from_be_bytes,
     i256_from = (\<lambda>w. if w = 0 then (NoSign, 0) else if bit w 255 then (Minus, - w) else (Plus, w)),
     i256_into = (\<lambda>(sg, m). if sg = Minus then - m else m), i256_zero = (NoSign, 0),
     i256_div = (\<lambda>a b. (fst a, snd a div snd b)), i256_rem = (\<lambda>a b. (fst a, snd a mod snd b)),
     i256_lt = (\<lambda>a b. snd a < snd b)\<rparr>"

lemma sample_state_ok: "length st \<le> STACK_SIZE \<Longrightarrow> state_ok (sample_state st)"
  by (simp add: sample_state_def sample_message_def state_ok_def ExecutionState_new_def MEMORY_LIMIT_def)

end
