(* ===== verification/Opcode.thy ===== *)
theory Opcode
  imports EvmTypes
begin

text \<open>
  The opcodes (\<open>src/execution/evm/opcode.rs\<close>) and the static tables over them: stack
  properties and gas costs per revision (\<open>instructions/properties.rs\<close>) and the instruction
  table the interpreter reads (\<open>instructions/instruction_table.rs\<close>).

  The Rust type is a newtype over \<open>u8\<close> with named constants; the model has one constructor per
  constant, in groups that follow the sections of the interpreter's \<open>match\<close>, the families
  \<open>PUSH1..PUSH32\<close>, \<open>DUP1..DUP16\<close>, \<open>SWAP1..SWAP16\<close> and \<open>LOG0..LOG4\<close> indexed by their number, and
  \<open>UNDEFINED\<close> for every other byte.
\<close>

section \<open>Opcodes\<close>

datatype ArithOp =
    OP_ADD | OP_MUL | OP_SUB | OP_DIV | OP_SDIV | OP_MOD
  | OP_SMOD | OP_ADDMOD | OP_MULMOD | OP_EXP | OP_SIGNEXTEND

datatype LogicOp =
    OP_LT | OP_GT | OP_SLT | OP_SGT | OP_EQ | OP_ISZERO
  | OP_AND | OP_OR | OP_XOR | OP_NOT | OP_BYTE | OP_SHL
  | OP_SHR | OP_SAR

datatype EnvOp =
    OP_KECCAK256 | OP_ADDRESS | OP_BALANCE | OP_CALLER | OP_CALLVALUE | OP_CALLDATALOAD
  | OP_CALLDATASIZE | OP_CALLDATACOPY | OP_CODESIZE | OP_CODECOPY | OP_EXTCODESIZE | OP_EXTCODECOPY
  | OP_RETURNDATASIZE | OP_RETURNDATACOPY | OP_EXTCODEHASH

datatype BlockOp =
    OP_BLOCKHASH | OP_ORIGIN | OP_COINBASE | OP_GASPRICE | OP_TIMESTAMP | OP_NUMBER
  | OP_DIFFICULTY | OP_GASLIMIT | OP_CHAINID | OP_BASEFEE | OP_SELFBALANCE

datatype FlowOp =
    OP_POP | OP_MLOAD | OP_MSTORE | OP_MSTORE8 | OP_SLOAD | OP_SSTORE
  | OP_JUMP | OP_JUMPI | OP_PC | OP_MSIZE | OP_GAS | OP_JUMPDEST

datatype SystemOp =
    OP_STOP | OP_CREATE | OP_CALL | OP_CALLCODE | OP_RETURN | OP_DELEGATECALL
  | OP_CREATE2 | OP_STATICCALL | OP_REVERT | OP_INVALID | OP_SELFDESTRUCT

datatype OpCode =
    Arith ArithOp | Logic LogicOp | Env EnvOp | Block BlockOp | Flow FlowOp | System SystemOp
  | PUSH nat | DUP nat | SWAP nat | LOG nat | UNDEFINED nat

text \<open>The byte of an opcode, \<open>OpCode::to_u8\<close>.\<close>

primrec arith_to_u8 :: "ArithOp \<Rightarrow> nat" where
  "arith_to_u8 OP_ADD = 1"
| "arith_to_u8 OP_MUL = 2"
| "arith_to_u8 OP_SUB = 3"
| "arith_to_u8 OP_DIV = 4"
| "arith_to_u8 OP_SDIV = 5"
| "arith_to_u8 OP_MOD = 6"
| "arith_to_u8 OP_SMOD = 7"
| "arith_to_u8 OP_ADDMOD = 8"
| "arith_to_u8 OP_MULMOD = 9"
| "arith_to_u8 OP_EXP = 10"
| "arith_to_u8 OP_SIGNEXTEND = 11"

primrec logic_to_u8 :: "LogicOp \<Rightarrow> nat" where
  "logic_to_u8 OP_LT = 16"
| "logic_to_u8 OP_GT = 17"
| "logic_to_u8 OP_SLT = 18"
| "logic_to_u8 OP_SGT = 19"
| "logic_to_u8 OP_EQ = 20"
| "logic_to_u8 OP_ISZERO = 21"
| "logic_to_u8 OP_AND = 22"
| "logic_to_u8 OP_OR = 23"
| "logic_to_u8 OP_XOR = 24"
| "logic_to_u8 OP_NOT = 25"
| "logic_to_u8 OP_BYTE = 26"
| "logic_to_u8 OP_SHL = 27"
| "logic_to_u8 OP_SHR = 28"
| "logic_to_u8 OP_SAR = 29"

primrec env_to_u8 :: "EnvOp \<Rightarrow> nat" where
  "env_to_u8 OP_KECCAK256 = 32"
| "env_to_u8 OP_ADDRESS = 48"
| "env_to_u8 OP_BALANCE = 49"
| "env_to_u8 OP_CALLER = 51"
| "env_to_u8 OP_CALLVALUE = 52"
| "env_to_u8 OP_CALLDATALOAD = 53"
| "env_to_u8 OP_CALLDATASIZE = 54"
| "env_to_u8 OP_CALLDATACOPY = 55"
| "env_to_u8 OP_CODESIZE = 56"
| "env_to_u8 OP_CODECOPY = 57"
| "env_to_u8 OP_EXTCODESIZE = 59"
| "env_to_u8 OP_EXTCODECOPY = 60"
| "env_to_u8 OP_RETURNDATASIZE = 61"
| "env_to_u8 OP_RETURNDATACOPY = 62"
| "env_to_u8 OP_EXTCODEHASH = 63"

primrec block_to_u8 :: "BlockOp \<Rightarrow> nat" where
  "block_to_u8 OP_BLOCKHASH = 64"
| "block_to_u8 OP_ORIGIN = 50"
| "block_to_u8 OP_COINBASE = 65"
| "block_to_u8 OP_GASPRICE = 58"
| "block_to_u8 OP_TIMESTAMP = 66"
| "block_to_u8 OP_NUMBER = 67"
| "block_to_u8 OP_DIFFICULTY = 68"
| "block_to_u8 OP_GASLIMIT = 69"
| "block_to_u8 OP_CHAINID = 70"
| "block_to_u8 OP_BASEFEE = 72"
| "block_to_u8 OP_SELFBALANCE = 71"

primrec flow_to_u8 :: "FlowOp \<Rightarrow> nat" where
  "flow_to_u8 OP_POP = 80"
| "flow_to_u8 OP_MLOAD = 81"
| "flow_to_u8 OP_MSTORE = 82"
| "flow_to_u8 OP_MSTORE8 = 83"
| "flow_to_u8 OP_SLOAD = 84"
| "flow_to_u8 OP_SSTORE = 85"
| "flow_to_u8 OP_JUMP = 86"
| "flow_to_u8 OP_JUMPI = 87"
| "flow_to_u8 OP_PC = 88"
| "flow_to_u8 OP_MSIZE = 89"
| "flow_to_u8 OP_GAS = 90"
| "flow_to_u8 OP_JUMPDEST = 91"

primrec system_to_u8 :: "SystemOp \<Rightarrow> nat" where
  "system_to_u8 OP_STOP = 0"
| "system_to_u8 OP_CREATE = 240"
| "system_to_u8 OP_CALL = 241"
| "system_to_u8 OP_CALLCODE = 242"
| "system_to_u8 OP_RETURN = 243"
| "system_to_u8 OP_DELEGATECALL = 244"
| "system_to_u8 OP_CREATE2 = 245"
| "system_to_u8 OP_STATICCALL = 250"
| "system_to_u8 OP_REVERT = 253"
| "system_to_u8 OP_INVALID = 254"
| "system_to_u8 OP_SELFDESTRUCT = 255"

primrec to_u8 :: "OpCode \<Rightarrow> nat" where
  "to_u8 (Arith op) = arith_to_u8 op"
| "to_u8 (Logic op) = logic_to_u8 op"
| "to_u8 (Env op) = env_to_u8 op"
| "to_u8 (Block op) = block_to_u8 op"
| "to_u8 (Flow op) = flow_to_u8 op"
| "to_u8 (System op) = system_to_u8 op"
| "to_u8 (PUSH n) = 96 + n - 1"
| "to_u8 (DUP n) = 128 + n - 1"
| "to_u8 (SWAP n) = 144 + n - 1"
| "to_u8 (LOG n) = 160 + n"
| "to_u8 (UNDEFINED n) = n"

text \<open>The constants that are not part of a numbered family.\<close>

definition single_opcodes :: "OpCode list" where
  "single_opcodes =
     map Arith [OP_ADD, OP_MUL, OP_SUB, OP_DIV, OP_SDIV, OP_MOD, OP_SMOD,
       OP_ADDMOD, OP_MULMOD, OP_EXP, OP_SIGNEXTEND] @
     map Logic [OP_LT, OP_GT, OP_SLT, OP_SGT, OP_EQ, OP_ISZERO, OP_AND,
       OP_OR, OP_XOR, OP_NOT, OP_BYTE, OP_SHL, OP_SHR, OP_SAR] @
     map Env [OP_KECCAK256, OP_ADDRESS, OP_BALANCE, OP_CALLER, OP_CALLVALUE, OP_CALLDATALOAD, OP_CALLDATASIZE,
       OP_CALLDATACOPY, OP_CODESIZE, OP_CODECOPY, OP_EXTCODESIZE, OP_EXTCODECOPY, OP_RETURNDATASIZE, OP_RETURNDATACOPY,
       OP_EXTCODEHASH] @
     map Block [OP_BLOCKHASH, OP_ORIGIN, OP_COINBASE, OP_GASPRICE, OP_TIMESTAMP, OP_NUMBER, OP_DIFFICULTY,
       OP_GASLIMIT, OP_CHAINID, OP_BASEFEE, OP_SELFBALANCE] @
     map Flow [OP_POP, OP_MLOAD, OP_MSTORE, OP_MSTORE8, OP_SLOAD, OP_SSTORE, OP_JUMP,
       OP_JUMPI, OP_PC, OP_MSIZE, OP_GAS, OP_JUMPDEST] @
     map System [OP_STOP, OP_CREATE, OP_CALL, OP_CALLCODE, OP_RETURN, OP_DELEGATECALL, OP_CREATE2,
       OP_STATICCALL, OP_REVERT, OP_INVALID, OP_SELFDESTRUCT]"

text \<open>\<open>OpCode(b)\<close>, the opcode a code byte stands for.\<close>

definition opcode_of_byte :: "nat \<Rightarrow> OpCode" where
  "opcode_of_byte b =
     (if 96 \<le> b \<and> b \<le> 127 then PUSH (b - 96 + 1)
      else if 128 \<le> b \<and> b \<le> 143 then DUP (b - 128 + 1)
      else if 144 \<le> b \<and> b \<le> 159 then SWAP (b - 144 + 1)
      else if 160 \<le> b \<and> b \<le> 164 then LOG (b - 160)
      else case List.find (\<lambda>op. to_u8 op = b) single_opcodes of
             Some op \<Rightarrow> op | None \<Rightarrow> UNDEFINED b)"

section \<open>Stack properties\<close>

record Properties =
  stack_height_required :: nat
  stack_height_change :: int

definition Properties_new :: "nat \<Rightarrow> int \<Rightarrow> Properties" where
  "Properties_new r c = \<lparr>stack_height_required = r, stack_height_change = c\<rparr>"

primrec arith_properties :: "ArithOp \<Rightarrow> Properties" where
  "arith_properties OP_ADD = Properties_new 2 (-1)"
| "arith_properties OP_MUL = Properties_new 2 (-1)"
| "arith_properties OP_SUB = Properties_new 2 (-1)"
| "arith_properties OP_DIV = Properties_new 2 (-1)"
| "arith_properties OP_SDIV = Properties_new 2 (-1)"
| "arith_properties OP_MOD = Properties_new 2 (-1)"
| "arith_properties OP_SMOD = Properties_new 2 (-1)"
| "arith_properties OP_ADDMOD = Properties_new 3 (-2)"
| "arith_properties OP_MULMOD = Properties_new 3 (-2)"
| "arith_properties OP_EXP = Properties_new 2 (-1)"
| "arith_properties OP_SIGNEXTEND = Properties_new 2 (-1)"

primrec logic_properties :: "LogicOp \<Rightarrow> Properties" where
  "logic_properties OP_LT = Properties_new 2 (-1)"
| "logic_properties OP_GT = Properties_new 2 (-1)"
| "logic_properties OP_SLT = Properties_new 2 (-1)"
| "logic_properties OP_SGT = Properties_new 2 (-1)"
| "logic_properties OP_EQ = Properties_new 2 (-1)"
| "logic_properties OP_ISZERO = Properties_new 1 0"
| "logic_properties OP_AND = Properties_new 2 (-1)"
| "logic_properties OP_OR = Properties_new 2 (-1)"
| "logic_properties OP_XOR = Properties_new 2 (-1)"
| "logic_properties OP_NOT = Properties_new 1 0"
| "logic_properties OP_BYTE = Properties_new 2 (-1)"
| "logic_properties OP_SHL = Properties_new 2 (-1)"
| "logic_properties OP_SHR = Properties_new 2 (-1)"
| "logic_properties OP_SAR = Properties_new 2 (-1)"

primrec env_properties :: "EnvOp \<Rightarrow> Properties" where
  "env_properties OP_KECCAK256 = Properties_new 2 (-1)"
| "env_properties OP_ADDRESS = Properties_new 0 1"
| "env_properties OP_BALANCE = Properties_new 1 0"
| "env_properties OP_CALLER = Properties_new 0 1"
| "env_properties OP_CALLVALUE = Properties_new 0 1"
| "env_properties OP_CALLDATALOAD = Properties_new 1 0"
| "env_properties OP_CALLDATASIZE = Properties_new 0 1"
| "env_properties OP_CALLDATACOPY = Properties_new 3 (-3)"
| "env_properties OP_CODESIZE = Properties_new 0 1"
| "env_properties OP_CODECOPY = Properties_new 3 (-3)"
| "env_properties OP_EXTCODESIZE = Properties_new 1 0"
| "env_properties OP_EXTCODECOPY = Properties_new 4 (-4)"
| "env_properties OP_RETURNDATASIZE = Properties_new 0 1"
| "env_properties OP_RETURNDATACOPY = Properties_new 3 (-3)"
| "env_properties OP_EXTCODEHASH = Properties_new 1 0"

primrec block_properties :: "BlockOp \<Rightarrow> Properties" where
  "block_properties OP_BLOCKHASH = Properties_new 1 0"
| "block_properties OP_ORIGIN = Properties_new 0 1"
| "block_properties OP_COINBASE = Properties_new 0 1"
| "block_properties OP_GASPRICE = Properties_new 0 1"
| "block_properties OP_TIMESTAMP = Properties_new 0 1"
| "block_properties OP_NUMBER = Properties_new 0 1"
| "block_properties OP_DIFFICULTY = Properties_new 0 1"
| "block_properties OP_GASLIMIT = Properties_new 0 1"
| "block_properties OP_CHAINID = Properties_new 0 1"
| "block_properties OP_BASEFEE = Properties_new 0 1"
| "block_properties OP_SELFBALANCE = Properties_new 0 1"

primrec flow_properties :: "FlowOp \<Rightarrow> Properties" where
  "flow_properties OP_POP = Properties_new 1 (-1)"
| "flow_properties OP_MLOAD = Properties_new 1 0"
| "flow_properties OP_MSTORE = Properties_new 2 (-2)"
| "flow_properties OP_MSTORE8 = Properties_new 2 (-2)"
| "flow_properties OP_SLOAD = Properties_new 1 0"
| "flow_properties OP_SSTORE = Properties_new 2 (-2)"
| "flow_properties OP_JUMP = Properties_new 1 (-1)"
| "flow_properties OP_JUMPI = Properties_new 2 (-2)"
| "flow_properties OP_PC = Properties_new 0 1"
| "flow_properties OP_MSIZE = Properties_new 0 1"
| "flow_properties OP_GAS = Properties_new 0 1"
| "flow_properties OP_JUMPDEST = Properties_new 0 0"

primrec system_properties :: "SystemOp \<Rightarrow> Properties" where
  "system_properties OP_STOP = Properties_new 0 0"
| "system_properties OP_CREATE = Properties_new 3 (-2)"
| "system_properties OP_CALL = Properties_new 7 (-6)"
| "system_properties OP_CALLCODE = Properties_new 7 (-6)"
| "system_properties OP_RETURN = Properties_new 2 (-2)"
| "system_properties OP_DELEGATECALL = Properties_new 6 (-5)"
| "system_properties OP_CREATE2 = Properties_new 4 (-3)"
| "system_properties OP_STATICCALL = Properties_new 6 (-5)"
| "system_properties OP_REVERT = Properties_new 2 (-2)"
| "system_properties OP_INVALID = Properties_new 0 0"
| "system_properties OP_SELFDESTRUCT = Properties_new 1 (-1)"

primrec PROPERTIES :: "OpCode \<Rightarrow> Properties option" where
  "PROPERTIES (Arith op) = Some (arith_properties op)"
| "PROPERTIES (Logic op) = Some (logic_properties op)"
| "PROPERTIES (Env op) = Some (env_properties op)"
| "PROPERTIES (Block op) = Some (block_properties op)"
| "PROPERTIES (Flow op) = Some (flow_properties op)"
| "PROPERTIES (System op) = Some (system_properties op)"
| "PROPERTIES (PUSH n) = Some (Properties_new 0 1)"
| "PROPERTIES (DUP n) = Some (Properties_new n 1)"
| "PROPERTIES (SWAP n) = Some (Properties_new (n + 1) 0)"
| "PROPERTIES (LOG n) = Some (Properties_new (n + 2) (- int (n + 2)))"
| "PROPERTIES (UNDEFINED n) = None"

section \<open>Gas costs\<close>

definition COLD_SLOAD_COST :: int where "COLD_SLOAD_COST = 2100"

definition COLD_ACCOUNT_ACCESS_COST :: int where "COLD_ACCOUNT_ACCESS_COST = 2600"

definition WARM_STORAGE_READ_COST :: int where "WARM_STORAGE_READ_COST = 100"

definition ADDITIONAL_COLD_ACCOUNT_ACCESS_COST :: int where
  "ADDITIONAL_COLD_ACCOUNT_ACCESS_COST = COLD_ACCOUNT_ACCESS_COST - WARM_STORAGE_READ_COST"

primrec frontier_arith_costs :: "ArithOp \<Rightarrow> int option" where
  "frontier_arith_costs OP_ADD = Some 3"
| "frontier_arith_costs OP_MUL = Some 5"
| "frontier_arith_costs OP_SUB = Some 3"
| "frontier_arith_costs OP_DIV = Some 5"
| "frontier_arith_costs OP_SDIV = Some 5"
| "frontier_arith_costs OP_MOD = Some 5"
| "frontier_arith_costs OP_SMOD = Some 5"
| "frontier_arith_costs OP_ADDMOD = Some 8"
| "frontier_arith_costs OP_MULMOD = Some 8"
| "frontier_arith_costs OP_EXP = Some 10"
| "frontier_arith_costs OP_SIGNEXTEND = Some 5"

primrec frontier_logic_costs :: "LogicOp \<Rightarrow> int option" where
  "frontier_logic_costs OP_LT = Some 3"
| "frontier_logic_costs OP_GT = Some 3"
| "frontier_logic_costs OP_SLT = Some 3"
| "frontier_logic_costs OP_SGT = Some 3"
| "frontier_logic_costs OP_EQ = Some 3"
| "frontier_logic_costs OP_ISZERO = Some 3"
| "frontier_logic_costs OP_AND = Some 3"
| "frontier_logic_costs OP_OR = Some 3"
| "frontier_logic_costs OP_XOR = Some 3"
| "frontier_logic_costs OP_NOT = Some 3"
| "frontier_logic_costs OP_BYTE = Some 3"
| "frontier_logic_costs OP_SHL = None"
| "frontier_logic_costs OP_SHR = None"
| "frontier_logic_costs OP_SAR = None"

primrec frontier_env_costs :: "EnvOp \<Rightarrow> int option" where
  "frontier_env_costs OP_KECCAK256 = Some 30"
| "frontier_env_costs OP_ADDRESS = Some 2"
| "frontier_env_costs OP_BALANCE = Some 20"
| "frontier_env_costs OP_CALLER = Some 2"
| "frontier_env_costs OP_CALLVALUE = Some 2"
| "frontier_env_costs OP_CALLDATALOAD = Some 3"
| "frontier_env_costs OP_CALLDATASIZE = Some 2"
| "frontier_env_costs OP_CALLDATACOPY = Some 3"
| "frontier_env_costs OP_CODESIZE = Some 2"
| "frontier_env_costs OP_CODECOPY = Some 3"
| "frontier_env_costs OP_EXTCODESIZE = Some 20"
| "frontier_env_costs OP_EXTCODECOPY = Some 20"
| "frontier_env_costs OP_RETURNDATASIZE = None"
| "frontier_env_costs OP_RETURNDATACOPY = None"
| "frontier_env_costs OP_EXTCODEHASH = None"

primrec frontier_block_costs :: "BlockOp \<Rightarrow> int option" where
  "frontier_block_costs OP_BLOCKHASH = Some 20"
| "frontier_block_costs OP_ORIGIN = Some 2"
| "frontier_block_costs OP_COINBASE = Some 2"
| "frontier_block_costs OP_GASPRICE = Some 2"
| "frontier_block_costs OP_TIMESTAMP = Some 2"
| "frontier_block_costs OP_NUMBER = Some 2"
| "frontier_block_costs OP_DIFFICULTY = Some 2"
| "frontier_block_costs OP_GASLIMIT = Some 2"
| "frontier_block_costs OP_CHAINID = None"
| "frontier_block_costs OP_BASEFEE = None"
| "frontier_block_costs OP_SELFBALANCE = None"

primrec frontier_flow_costs :: "FlowOp \<Rightarrow> int option" where
  "frontier_flow_costs OP_POP = Some 2"
| "frontier_flow_costs OP_MLOAD = Some 3"
| "frontier_flow_costs OP_MSTORE = Some 3"
| "frontier_flow_costs OP_MSTORE8 = Some 3"
| "frontier_flow_costs OP_SLOAD = Some 50"
| "frontier_flow_costs OP_SSTORE = Some 0"
| "frontier_flow_costs OP_JUMP = Some 8"
| "frontier_flow_costs OP_JUMPI = Some 10"
| "frontier_flow_costs OP_PC = Some 2"
| "frontier_flow_costs OP_MSIZE = Some 2"
| "frontier_flow_costs OP_GAS = Some 2"
| "frontier_flow_costs OP_JUMPDEST = Some 1"

primrec frontier_system_costs :: "SystemOp \<Rightarrow> int option" where
  "frontier_system_costs OP_STOP = Some 0"
| "frontier_system_costs OP_CREATE = Some 32000"
| "frontier_system_costs OP_CALL = Some 40"
| "frontier_system_costs OP_CALLCODE = Some 40"
| "frontier_system_costs OP_RETURN = Some 0"
| "frontier_system_costs OP_DELEGATECALL = None"
| "frontier_system_costs OP_CREATE2 = None"
| "frontier_system_costs OP_STATICCALL = None"
| "frontier_system_costs OP_REVERT = None"
| "frontier_system_costs OP_INVALID = Some 0"
| "frontier_system_costs OP_SELFDESTRUCT = Some 0"

primrec FRONTIER_GAS_COSTS :: "OpCode \<Rightarrow> int option" where
  "FRONTIER_GAS_COSTS (Arith op) = frontier_arith_costs op"
| "FRONTIER_GAS_COSTS (Logic op) = frontier_logic_costs op"
| "FRONTIER_GAS_COSTS (Env op) = frontier_env_costs op"
| "FRONTIER_GAS_COSTS (Block op) = frontier_block_costs op"
| "FRONTIER_GAS_COSTS (Flow op) = frontier_flow_costs op"
| "FRONTIER_GAS_COSTS (System op) = frontier_system_costs op"
| "FRONTIER_GAS_COSTS (PUSH n) = Some 3"
| "FRONTIER_GAS_COSTS (DUP n) = Some 3"
| "FRONTIER_GAS_COSTS (SWAP n) = Some 3"
| "FRONTIER_GAS_COSTS (LOG n) = Some ((1 + int n) * 375)"
| "FRONTIER_GAS_COSTS (UNDEFINED n) = None"

definition HOMESTEAD_GAS_COSTS :: "OpCode \<Rightarrow> int option" where
  "HOMESTEAD_GAS_COSTS = FRONTIER_GAS_COSTS(
     System OP_DELEGATECALL := Some 40)"

definition TANGERINE_GAS_COSTS :: "OpCode \<Rightarrow> int option" where
  "TANGERINE_GAS_COSTS = HOMESTEAD_GAS_COSTS(
     Env OP_BALANCE := Some 400,
     Env OP_EXTCODESIZE := Some 700,
     Env OP_EXTCODECOPY := Some 700,
     Flow OP_SLOAD := Some 200,
     System OP_CALL := Some 700,
     System OP_CALLCODE := Some 700,
     System OP_DELEGATECALL := Some 700,
     System OP_SELFDESTRUCT := Some 5000)"

definition SPURIOUS_GAS_COSTS :: "OpCode \<Rightarrow> int option" where
  "SPURIOUS_GAS_COSTS = TANGERINE_GAS_COSTS"

definition BYZANTIUM_GAS_COSTS :: "OpCode \<Rightarrow> int option" where
  "BYZANTIUM_GAS_COSTS = SPURIOUS_GAS_COSTS(
     Env OP_RETURNDATASIZE := Some 2,
     Env OP_RETURNDATACOPY := Some 3,
     System OP_STATICCALL := Some 700,
     System OP_REVERT := Some 0)"

definition CONSTANTINOPLE_GAS_COSTS :: "OpCode \<Rightarrow> int option" where
  "CONSTANTINOPLE_GAS_COSTS = BYZANTIUM_GAS_COSTS(
     Logic OP_SHL := Some 3,
     Logic OP_SHR := Some 3,
     Logic OP_SAR := Some 3,
     Env OP_EXTCODEHASH := Some 400,
     System OP_CREATE2 := Some 32000)"

definition PETERSBURG_GAS_COSTS :: "OpCode \<Rightarrow> int option" where
  "PETERSBURG_GAS_COSTS = CONSTANTINOPLE_GAS_COSTS"

definition ISTANBUL_GAS_COSTS :: "OpCode \<Rightarrow> int option" where
  "ISTANBUL_GAS_COSTS = PETERSBURG_GAS_COSTS(
     Env OP_BALANCE := Some 700,
     Block OP_CHAINID := Some 2,
     Env OP_EXTCODEHASH := Some 700,
     Block OP_SELFBALANCE := Some 5,
     Flow OP_SLOAD := Some 800)"

definition BERLIN_GAS_COSTS :: "OpCode \<Rightarrow> int option" where
  "BERLIN_GAS_COSTS = ISTANBUL_GAS_COSTS(
     Env OP_EXTCODESIZE := Some WARM_STORAGE_READ_COST,
     Env OP_EXTCODECOPY := Some WARM_STORAGE_READ_COST,
     Env OP_EXTCODEHASH := Some WARM_STORAGE_READ_COST,
     Env OP_BALANCE := Some WARM_STORAGE_READ_COST,
     System OP_CALL := Some WARM_STORAGE_READ_COST,
     System OP_CALLCODE := Some WARM_STORAGE_READ_COST,
     System OP_DELEGATECALL := Some WARM_STORAGE_READ_COST,
     System OP_STATICCALL := Some WARM_STORAGE_READ_COST,
     Flow OP_SLOAD := Some WARM_STORAGE_READ_COST)"

definition LONDON_GAS_COSTS :: "OpCode \<Rightarrow> int option" where
  "LONDON_GAS_COSTS = BERLIN_GAS_COSTS(
     Block OP_BASEFEE := Some 2)"

definition SHANGHAI_GAS_COSTS :: "OpCode \<Rightarrow> int option" where
  "SHANGHAI_GAS_COSTS = LONDON_GAS_COSTS"

primrec gas_costs :: "Revision \<Rightarrow> OpCode \<Rightarrow> int option" where
  "gas_costs Frontier = FRONTIER_GAS_COSTS"
| "gas_costs Homestead = HOMESTEAD_GAS_COSTS"
| "gas_costs Tangerine = TANGERINE_GAS_COSTS"
| "gas_costs Spurious = SPURIOUS_GAS_COSTS"
| "gas_costs Byzantium = BYZANTIUM_GAS_COSTS"
| "gas_costs Constantinople = CONSTANTINOPLE_GAS_COSTS"
| "gas_costs Petersburg = PETERSBURG_GAS_COSTS"
| "gas_costs Istanbul = ISTANBUL_GAS_COSTS"
| "gas_costs Berlin = BERLIN_GAS_COSTS"
| "gas_costs London = LONDON_GAS_COSTS"
| "gas_costs Shanghai = SHANGHAI_GAS_COSTS"

lemmas gas_cost_tables = HOMESTEAD_GAS_COSTS_def TANGERINE_GAS_COSTS_def SPURIOUS_GAS_COSTS_def
  BYZANTIUM_GAS_COSTS_def CONSTANTINOPLE_GAS_COSTS_def PETERSBURG_GAS_COSTS_def
  ISTANBUL_GAS_COSTS_def BERLIN_GAS_COSTS_def LONDON_GAS_COSTS_def SHANGHAI_GAS_COSTS_def

lemmas access_costs = COLD_SLOAD_COST_def COLD_ACCOUNT_ACCESS_COST_def WARM_STORAGE_READ_COST_def
  ADDITIONAL_COLD_ACCOUNT_ACCESS_COST_def

section \<open>The instruction table\<close>

record InstructionTableEntry =
  gas_cost :: int
  entry_height_required :: nat
  can_overflow_stack :: bool

text \<open>
  One entry of \<open>INSTRUCTION_TABLES[revision]\<close>. Building the table unwraps \<open>PROPERTIES[opcode]\<close>
  for every opcode with a cost, so the outer \<open>None\<close> is that panic.
\<close>

definition instruction_table :: "Revision \<Rightarrow> OpCode \<Rightarrow> InstructionTableEntry option option" where
  "instruction_table revision op =
     (case gas_costs revision op of
        None \<Rightarrow> Some None
      | Some cost \<Rightarrow> do {
          p \<leftarrow> PROPERTIES op;
          Some (Some \<lparr>gas_cost = cost, entry_height_required = stack_height_required p,
                      can_overflow_stack = stack_height_change p > 0\<rparr>) })"

section \<open>Facts about the tables\<close>

text \<open>The opcodes that are the reading of some byte.\<close>

primrec valid_opcode :: "OpCode \<Rightarrow> bool" where
  "valid_opcode (Arith op) = True"
| "valid_opcode (Logic op) = True"
| "valid_opcode (Env op) = True"
| "valid_opcode (Block op) = True"
| "valid_opcode (Flow op) = True"
| "valid_opcode (System op) = True"
| "valid_opcode (PUSH n) = (1 \<le> n \<and> n \<le> 32)"
| "valid_opcode (DUP n) = (1 \<le> n \<and> n \<le> 16)"
| "valid_opcode (SWAP n) = (1 \<le> n \<and> n \<le> 16)"
| "valid_opcode (LOG n) = (n \<le> 4)"
| "valid_opcode (UNDEFINED n) = (n < 256 \<and> opcode_of_byte n = UNDEFINED n)"

lemma find_SomeD: "List.find P xs = Some x \<Longrightarrow> P x \<and> x \<in> set xs"
  by (induction xs) (auto split: if_splits)

lemma find_distinct:
  "distinct (map f xs) \<Longrightarrow> x \<in> set xs \<Longrightarrow> List.find (\<lambda>y. f y = f x) xs = Some x"
proof (induction xs)
  case (Cons y ys)
  show ?case
  proof (cases "y = x")
    case False
    with Cons.prems have "x \<in> set ys" by simp
    with Cons.prems have "f y \<noteq> f x" by (metis distinct.simps(2) imageI list.map(2) set_map)
    with Cons False show ?thesis by simp
  qed simp
qed simp

lemma single_opcodes_single: "op \<in> set single_opcodes \<Longrightarrow>
    (\<exists>x. op = Arith x) \<or> (\<exists>x. op = Logic x) \<or> (\<exists>x. op = Env x) \<or> (\<exists>x. op = Block x)
    \<or> (\<exists>x. op = Flow x) \<or> (\<exists>x. op = System x)"
  by (auto simp: single_opcodes_def)

lemma single_opcodes_complete [simp]:
  "Arith a \<in> set single_opcodes" "Logic l \<in> set single_opcodes" "Env e \<in> set single_opcodes"
  "Block b \<in> set single_opcodes" "Flow f \<in> set single_opcodes" "System s \<in> set single_opcodes"
proof -
  show "Arith a \<in> set single_opcodes" by (cases a) (simp_all add: single_opcodes_def)
  show "Logic l \<in> set single_opcodes" by (cases l) (simp_all add: single_opcodes_def)
  show "Env e \<in> set single_opcodes" by (cases e) (simp_all add: single_opcodes_def)
  show "Block b \<in> set single_opcodes" by (cases b) (simp_all add: single_opcodes_def)
  show "Flow f \<in> set single_opcodes" by (cases f) (simp_all add: single_opcodes_def)
  show "System s \<in> set single_opcodes" by (cases s) (simp_all add: single_opcodes_def)
qed

lemma single_opcodes_distinct: "distinct (map to_u8 single_opcodes)"
  by (simp add: single_opcodes_def)

lemma single_opcodes_range: "op \<in> set single_opcodes \<Longrightarrow>
    to_u8 op < 256 \<and> (to_u8 op < 96 \<or> 164 < to_u8 op)"
  by (auto simp: single_opcodes_def)

lemma to_u8_opcode_of_byte: "to_u8 (opcode_of_byte b) = b"
  by (auto simp: opcode_of_byte_def split: option.splits dest: find_SomeD)

lemma opcode_of_byte_to_u8:
  assumes "valid_opcode op" shows "opcode_of_byte (to_u8 op) = op"
proof (cases "op \<in> set single_opcodes")
  case True
  then have "List.find (\<lambda>op'. to_u8 op' = to_u8 op) single_opcodes = Some op"
    by (intro find_distinct [OF single_opcodes_distinct])
  moreover have "\<not> (96 \<le> to_u8 op \<and> to_u8 op \<le> 164)" using single_opcodes_range [OF True] by auto
  ultimately show ?thesis by (auto simp: opcode_of_byte_def)
next
  case False
  with assms show ?thesis by (cases op) (auto simp: opcode_of_byte_def)
qed

lemma valid_opcode_of_byte: assumes "b < 256" shows "valid_opcode (opcode_of_byte b)"
proof (cases "opcode_of_byte b")
  case (UNDEFINED n)
  then have "n = b" using to_u8_opcode_of_byte [of b] by simp
  with UNDEFINED assms show ?thesis by simp
qed (auto simp: opcode_of_byte_def split: if_splits option.splits
       dest!: find_SomeD single_opcodes_single)

text \<open>
  What the interpreter needs of a cost table: every priced opcode has stack properties, so
  building the instruction table never unwraps \<open>None\<close>, and the costs fit the \<open>u16\<close> of the source.
\<close>

definition cost_table_ok :: "(OpCode \<Rightarrow> int option) \<Rightarrow> bool" where
  "cost_table_ok t \<longleftrightarrow> (\<forall>op c. t op = Some c \<longrightarrow>
     PROPERTIES op \<noteq> None \<and> 0 \<le> c \<and> (valid_opcode op \<longrightarrow> c < 2 ^ 16))"

lemma cost_table_ok_upd:
  "cost_table_ok t \<Longrightarrow> PROPERTIES op \<noteq> None \<Longrightarrow> 0 \<le> c \<Longrightarrow> c < 2 ^ 16 \<Longrightarrow> cost_table_ok (t(op := Some c))"
  by (auto simp: cost_table_ok_def)

lemma frontier_group_costs:
  "frontier_arith_costs a = Some c \<Longrightarrow> 0 < c \<and> c < 2 ^ 16"
  "frontier_logic_costs l = Some c \<Longrightarrow> 0 < c \<and> c < 2 ^ 16"
  "frontier_env_costs e = Some c \<Longrightarrow> 0 < c \<and> c < 2 ^ 16"
  "frontier_block_costs b = Some c \<Longrightarrow> 0 < c \<and> c < 2 ^ 16"
  "frontier_flow_costs f = Some c \<Longrightarrow> (f = OP_SSTORE \<or> 0 < c) \<and> 0 \<le> c \<and> c < 2 ^ 16"
  "frontier_system_costs s = Some c \<Longrightarrow>
     (s \<in> {OP_STOP, OP_RETURN, OP_INVALID, OP_SELFDESTRUCT} \<or> 0 < c) \<and> 0 \<le> c \<and> c < 2 ^ 16"
  subgoal by (cases a) auto
  subgoal by (cases l) auto
  subgoal by (cases e) auto
  subgoal by (cases b) auto
  subgoal by (cases f) auto
  subgoal by (cases s) auto
  done

lemma cost_table_frontier: "cost_table_ok FRONTIER_GAS_COSTS"
  unfolding cost_table_ok_def
proof (intro allI impI)
  fix op c assume "FRONTIER_GAS_COSTS op = Some c"
  then show "PROPERTIES op \<noteq> None \<and> 0 \<le> c \<and> (valid_opcode op \<longrightarrow> c < 2 ^ 16)"
    by (cases op) (auto dest: frontier_group_costs)
qed

lemma cost_table_ok_all: "cost_table_ok (gas_costs r)"
proof -
  have H: "cost_table_ok HOMESTEAD_GAS_COSTS"
    unfolding HOMESTEAD_GAS_COSTS_def by (intro cost_table_ok_upd cost_table_frontier) simp_all
  have T: "cost_table_ok TANGERINE_GAS_COSTS"
    unfolding TANGERINE_GAS_COSTS_def by (intro cost_table_ok_upd H) simp_all
  then have B: "cost_table_ok BYZANTIUM_GAS_COSTS"
    unfolding BYZANTIUM_GAS_COSTS_def SPURIOUS_GAS_COSTS_def by (intro cost_table_ok_upd) simp_all
  then have C: "cost_table_ok CONSTANTINOPLE_GAS_COSTS"
    unfolding CONSTANTINOPLE_GAS_COSTS_def by (intro cost_table_ok_upd) simp_all
  then have I: "cost_table_ok ISTANBUL_GAS_COSTS"
    unfolding ISTANBUL_GAS_COSTS_def PETERSBURG_GAS_COSTS_def by (intro cost_table_ok_upd) simp_all
  then have Be: "cost_table_ok BERLIN_GAS_COSTS"
    unfolding BERLIN_GAS_COSTS_def WARM_STORAGE_READ_COST_def
    by (intro cost_table_ok_upd) simp_all
  then have L: "cost_table_ok LONDON_GAS_COSTS"
    unfolding LONDON_GAS_COSTS_def by (intro cost_table_ok_upd) simp_all
  show ?thesis
    using cost_table_frontier H T B C I Be L
    by (cases r) (simp_all add: SPURIOUS_GAS_COSTS_def PETERSBURG_GAS_COSTS_def SHANGHAI_GAS_COSTS_def)
qed

lemma properties_bounds:
  assumes "PROPERTIES op = Some p" "valid_opcode op"
  shows "stack_height_required p \<le> 17 \<and> stack_height_change p \<le> 1
    \<and> 0 \<le> int (stack_height_required p) + stack_height_change p"
proof (cases op)
  case (Arith x) with assms show ?thesis by (cases x) (auto simp: Properties_new_def)
next
  case (Logic x) with assms show ?thesis by (cases x) (auto simp: Properties_new_def)
next
  case (Env x) with assms show ?thesis by (cases x) (auto simp: Properties_new_def)
next
  case (Block x) with assms show ?thesis by (cases x) (auto simp: Properties_new_def)
next
  case (Flow x) with assms show ?thesis by (cases x) (auto simp: Properties_new_def)
next
  case (System x) with assms show ?thesis by (cases x) (auto simp: Properties_new_def)
qed (use assms in \<open>auto simp: Properties_new_def\<close>)

text \<open>Opcodes that end the frame or charge their whole price themselves may have base cost 0.\<close>

definition free_opcodes :: "OpCode set" where
  "free_opcodes = {Flow OP_SSTORE, System OP_STOP, System OP_RETURN, System OP_REVERT,
     System OP_INVALID, System OP_SELFDESTRUCT}"

definition positive_costs :: "(OpCode \<Rightarrow> int option) \<Rightarrow> bool" where
  "positive_costs t \<longleftrightarrow> (\<forall>op c. t op = Some c \<longrightarrow> op \<in> free_opcodes \<or> 0 < c)"

lemma positive_costs_upd:
  "positive_costs t \<Longrightarrow> op \<in> free_opcodes \<or> 0 < c \<Longrightarrow> positive_costs (t(op := Some c))"
  by (auto simp: positive_costs_def)

lemma positive_costs_frontier: "positive_costs FRONTIER_GAS_COSTS"
  unfolding positive_costs_def
proof (intro allI impI)
  fix op c assume "FRONTIER_GAS_COSTS op = Some c"
  then show "op \<in> free_opcodes \<or> 0 < c"
    by (cases op) (auto simp: free_opcodes_def dest: frontier_group_costs)
qed

lemma positive_costs_all: "positive_costs (gas_costs r)"
  by (cases r) (simp_all add: gas_cost_tables access_costs positive_costs_frontier
      positive_costs_upd free_opcodes_def)

lemma instruction_table_total: "instruction_table r op \<noteq> None"
  using cost_table_ok_all [of r]
  by (fastforce simp: instruction_table_def cost_table_ok_def split: option.splits)

lemma instruction_table_entry:
  assumes "instruction_table r op = Some (Some e)"
  obtains p where "PROPERTIES op = Some p" "gas_costs r op = Some (gas_cost e)"
    "entry_height_required e = stack_height_required p"
    "can_overflow_stack e \<longleftrightarrow> stack_height_change p > 0"
  using assms by (auto simp: instruction_table_def split: option.splits bind_splits)

section \<open>Properties\<close>

text \<open>Opcodes and bytes are in bijection: reading a byte and writing it back is the identity, and
  every opcode the datatype can name is read back from its byte.\<close>

theorem opcode_byte_bijection:
  assumes "b < 256" "valid_opcode op"
  shows "to_u8 (opcode_of_byte b) = b \<and> valid_opcode (opcode_of_byte b) \<and> opcode_of_byte (to_u8 op) = op"
  using assms by (simp add: to_u8_opcode_of_byte valid_opcode_of_byte opcode_of_byte_to_u8)

theorem opcode_byte_bijection_witness:
  "to_u8 (opcode_of_byte 97) = 97 \<and> opcode_of_byte (to_u8 (PUSH 32)) = PUSH 32"
  using opcode_byte_bijection [of 97 "PUSH 32"] by simp

text \<open>Building the instruction tables never unwraps a missing entry, in any revision. Every entry
  costs a positive \<open>u16\<close> amount, unless the instruction ends the frame or charges its whole price
  itself, needs at most 17 operands, and an instruction that the table does not guard against
  overflow leaves the stack no higher than it found it.\<close>

theorem instruction_table_sound:
  "instruction_table r op \<noteq> None \<and>
   (\<forall>e. instruction_table r op = Some (Some e) \<and> valid_opcode op \<longrightarrow>
      (op \<in> free_opcodes \<or> 0 < gas_cost e) \<and> 0 \<le> gas_cost e \<and> gas_cost e < 2 ^ 16
      \<and> entry_height_required e \<le> 17
      \<and> (\<exists>p. PROPERTIES op = Some p \<and> stack_height_change p \<le> (if can_overflow_stack e then 1 else 0)
           \<and> 0 \<le> int (entry_height_required e) + stack_height_change p))"
proof (intro conjI allI impI instruction_table_total)
  fix e assume "instruction_table r op = Some (Some e) \<and> valid_opcode op"
  then obtain p where e: "PROPERTIES op = Some p" "gas_costs r op = Some (gas_cost e)"
      "entry_height_required e = stack_height_required p" "can_overflow_stack e \<longleftrightarrow> stack_height_change p > 0"
      and v: "valid_opcode op"
    using instruction_table_entry by blast
  note b = properties_bounds [OF e(1) v]
  show "op \<in> free_opcodes \<or> 0 < gas_cost e" using positive_costs_all [of r] e(2) by (simp add: positive_costs_def)
  show "0 \<le> gas_cost e" "gas_cost e < 2 ^ 16" using cost_table_ok_all [of r] e(2) v by (auto simp: cost_table_ok_def)
  show "entry_height_required e \<le> 17" using b e(3) by simp
  show "\<exists>p. PROPERTIES op = Some p \<and> stack_height_change p \<le> (if can_overflow_stack e then 1 else 0)
      \<and> 0 \<le> int (entry_height_required e) + stack_height_change p"
    using b e by auto
qed

theorem instruction_table_sound_witness:
  "instruction_table London (Arith OP_ADD) \<noteq> None \<and>
   (\<exists>p. PROPERTIES (Arith OP_ADD) = Some p \<and> stack_height_change p \<le> 0)"
proof -
  obtain e where e: "instruction_table London (Arith OP_ADD) = Some (Some e)" "\<not> can_overflow_stack e"
    by (simp add: instruction_table_def gas_cost_tables Properties_new_def)
  then show ?thesis using instruction_table_sound [of London "Arith OP_ADD"] by auto
qed

end
