(* ===== verification/InstrCompute.thy ===== *)
theory InstrCompute
  imports Opcode
begin

unbundle bit_operations_syntax

text \<open>
  The instructions that only touch the operand stack and the gas counter:
  \<open>instructions/arithmetic.rs\<close>, \<open>boolean.rs\<close>, \<open>bitwise.rs\<close> and \<open>stack_manip.rs\<close>.
  Each definition pops and pushes in the order of the source; the theorems give what each
  one leaves on the stack.
\<close>

section \<open>Arithmetic\<close>

definition op_add :: "stack \<Rightarrow> stack option" where
  "op_add st = do { (a, st) \<leftarrow> stack_pop st; (b, st) \<leftarrow> stack_pop st; stack_push (a + b) st }"

definition op_mul :: "stack \<Rightarrow> stack option" where
  "op_mul st = do { (a, st) \<leftarrow> stack_pop st; (b, st) \<leftarrow> stack_pop st; stack_push (a * b) st }"

definition op_sub :: "stack \<Rightarrow> stack option" where
  "op_sub st = do { (a, st) \<leftarrow> stack_pop st; (b, st) \<leftarrow> stack_pop st; stack_push (a - b) st }"

definition op_div :: "stack \<Rightarrow> stack option" where
  "op_div st = do { (a, st) \<leftarrow> stack_pop st; b \<leftarrow> stack_get st 0;
     stack_set st 0 (if b = 0 then 0 else a div b) }"

definition op_sdiv :: "lib \<Rightarrow> stack \<Rightarrow> stack option" where
  "op_sdiv L st = do { (x, st) \<leftarrow> stack_pop st; let a = i256_from L x;
     (y, st) \<leftarrow> stack_pop st; let b = i256_from L y;
     stack_push (i256_into L (i256_div L a b)) st }"

definition op_mod :: "stack \<Rightarrow> stack option" where
  "op_mod st = do { (a, st) \<leftarrow> stack_pop st; b \<leftarrow> stack_get st 0;
     stack_set st 0 (if b = 0 then 0 else a mod b) }"

definition op_smod :: "lib \<Rightarrow> stack \<Rightarrow> stack option" where
  "op_smod L st = do { (a, st) \<leftarrow> stack_pop st; b \<leftarrow> stack_get st 0;
     stack_set st 0 (if b = 0 then 0 else i256_into L (i256_rem L (i256_from L a) (i256_from L b))) }"

text \<open>
  The sum and the product are taken in 512 bits; \<open>U256::try_from(...).unwrap()\<close> panics if the
  remainder does not fit 256 bits.
\<close>

definition u512_to_u256 :: "u512 \<Rightarrow> u256 option" where
  "u512_to_u256 v = (if unat v < 2 ^ 256 then Some (ucast v) else None)"

definition op_addmod :: "stack \<Rightarrow> stack option" where
  "op_addmod st = do { (a, st) \<leftarrow> stack_pop st; (b, st) \<leftarrow> stack_pop st; (c, st) \<leftarrow> stack_pop st;
     v \<leftarrow> (if c = 0 then Some 0 else u512_to_u256 ((ucast a + ucast b) mod ucast c));
     stack_push v st }"

definition op_mulmod :: "stack \<Rightarrow> stack option" where
  "op_mulmod st = do { (a, st) \<leftarrow> stack_pop st; (b, st) \<leftarrow> stack_pop st; (c, st) \<leftarrow> stack_pop st;
     v \<leftarrow> (if c = 0 then Some 0 else u512_to_u256 ((ucast a * ucast b) mod ucast c));
     stack_push v st }"

text \<open>\<open>u128::leading_zeros\<close>.\<close>

definition leading_zeros :: "u128 \<Rightarrow> nat" where
  "leading_zeros v = length (takeWhile (\<lambda>i. \<not> bit v i) (rev [0..<128]))"

definition u256_high :: "u256 \<Rightarrow> u128" where
  "u256_high v = ucast (drop_bit 128 v)"

definition u256_low :: "u256 \<Rightarrow> u128" where
  "u256_low v = ucast v"

text \<open>The \<open>for\<close> loop over the two halves, with its early returns.\<close>

fun log2floor_loop :: "u128 list \<Rightarrow> nat \<Rightarrow> nat" where
  "log2floor_loop [] l = l"
| "log2floor_loop (v # vs) l =
     (if v = 0 then log2floor_loop vs (l - 128)
      else let l = l - leading_zeros v in if l = 0 then l else l - 1)"

definition log2floor :: "u256 \<Rightarrow> nat" where
  "log2floor v = log2floor_loop [u256_high v, u256_low v] 256"

text \<open>The square-and-multiply loop of \<open>EXP\<close>.\<close>

function exp_loop :: "u256 \<Rightarrow> u256 \<Rightarrow> u256 \<Rightarrow> u256" where
  "exp_loop base pw v =
     (if pw > 0 then
        exp_loop (base * base) (drop_bit 1 pw) (if pw AND 1 \<noteq> 0 then v * base else v)
      else v)"
  by pat_completeness auto
termination
proof (relation "measure (\<lambda>(_, pw, _). unat pw)")
  fix base pw v :: u256 assume "pw > 0"
  then have "0 < unat pw" by (simp add: word_gt_0 unat_gt_0)
  then have "unat (drop_bit 1 pw) < unat pw"
    by (simp add: drop_bit_eq_div unat_div)
  then show "((base * base, drop_bit 1 pw, if pw AND 1 \<noteq> 0 then v * base else v),
      base, pw, v) \<in> measure (\<lambda>(_, pw, _). unat pw)"
    by simp
qed simp

declare exp_loop.simps [simp del]

definition op_exp :: "Revision \<Rightarrow> ExecutionState \<Rightarrow> (StatusCode + ExecutionState) option" where
  "op_exp r state = do {
     (base, st) \<leftarrow> stack_pop (stack state);
     (pw, st) \<leftarrow> stack_pop st;
     let state = state\<lparr>stack := st\<rparr>;
     try_then
       (if pw > 0
        then charge ((if r \<ge> Spurious then 50 else 10) * (int (log2floor pw) div 8 + 1)) state
        else Inr state)
       (\<lambda>state. do {
          st \<leftarrow> stack_push (exp_loop base pw 1) (stack state);
          Some (Inr (state\<lparr>stack := st\<rparr>)) }) }"

definition op_signextend :: "stack \<Rightarrow> stack option" where
  "op_signextend st = do {
     (a, st) \<leftarrow> stack_pop st;
     b \<leftarrow> stack_get st 0;
     if a < 32 then do {
       let bit_index = 8 * unat a + 7;
       let word = (if bit_index > 127 then u256_high b else u256_low b);
       let b7 = (word AND push_bit (bit_index mod 128) 1 \<noteq> 0);
       let mask = push_bit bit_index 1 - (1 :: u256);
       stack_set st 0 (if b7 then b OR NOT mask else b AND mask) }
     else Some st }"

section \<open>Comparison and Boolean logic\<close>

definition op_lt :: "stack \<Rightarrow> stack option" where
  "op_lt st = do { (a, st) \<leftarrow> stack_pop st; b \<leftarrow> stack_get st 0;
     stack_set st 0 (if a < b then 1 else 0) }"

definition op_gt :: "stack \<Rightarrow> stack option" where
  "op_gt st = do { (a, st) \<leftarrow> stack_pop st; b \<leftarrow> stack_get st 0;
     stack_set st 0 (if a > b then 1 else 0) }"

definition op_slt :: "lib \<Rightarrow> stack \<Rightarrow> stack option" where
  "op_slt L st = do { (a, st) \<leftarrow> stack_pop st; (b, st) \<leftarrow> stack_pop st;
     stack_push (if i256_lt L (i256_from L a) (i256_from L b) then 1 else 0) st }"

definition op_sgt :: "lib \<Rightarrow> stack \<Rightarrow> stack option" where
  "op_sgt L st = do { (a, st) \<leftarrow> stack_pop st; (b, st) \<leftarrow> stack_pop st;
     stack_push (if i256_lt L (i256_from L b) (i256_from L a) then 1 else 0) st }"

definition op_eq :: "stack \<Rightarrow> stack option" where
  "op_eq st = do { (a, st) \<leftarrow> stack_pop st; b \<leftarrow> stack_get st 0;
     stack_set st 0 (if a = b then 1 else 0) }"

definition op_iszero :: "stack \<Rightarrow> stack option" where
  "op_iszero st = do { a \<leftarrow> stack_get st 0; stack_set st 0 (if a = 0 then 1 else 0) }"

definition op_and :: "stack \<Rightarrow> stack option" where
  "op_and st = do { (a, st) \<leftarrow> stack_pop st; b \<leftarrow> stack_get st 0; stack_set st 0 (a AND b) }"

definition op_or :: "stack \<Rightarrow> stack option" where
  "op_or st = do { (a, st) \<leftarrow> stack_pop st; b \<leftarrow> stack_get st 0; stack_set st 0 (a OR b) }"

definition op_xor :: "stack \<Rightarrow> stack option" where
  "op_xor st = do { (a, st) \<leftarrow> stack_pop st; b \<leftarrow> stack_get st 0; stack_set st 0 (a XOR b) }"

definition op_not :: "stack \<Rightarrow> stack option" where
  "op_not st = do { v \<leftarrow> stack_get st 0; stack_set st 0 (NOT v) }"

section \<open>Bytes and shifts\<close>

text \<open>One round of the loop over bit numbers in \<open>BYTE\<close>; rounds from 8 on do nothing.\<close>

definition byte_round :: "u256 \<Rightarrow> u256 \<Rightarrow> nat \<Rightarrow> u256 \<Rightarrow> u256" where
  "byte_round a b i acc =
     (if i < 8 \<and> a < 32 then
        let t = 255 - (7 - i + 8 * unat a);
            bit_mask = push_bit t 1;
            v = drop_bit t (b AND bit_mask)
        in acc + push_bit i v
      else acc)"

definition op_byte :: "stack \<Rightarrow> stack option" where
  "op_byte st = do { (a, st) \<leftarrow> stack_pop st; (b, st) \<leftarrow> stack_pop st;
     stack_push (fold (byte_round a b) [0..<256] 0) st }"

definition op_shl :: "stack \<Rightarrow> stack option" where
  "op_shl st = do { (shift, st) \<leftarrow> stack_pop st; v \<leftarrow> stack_get st 0;
     stack_set st 0 (if v = 0 \<or> shift \<ge> 256 then 0 else push_bit (unat shift mod 256) v) }"

definition op_shr :: "stack \<Rightarrow> stack option" where
  "op_shr st = do { (shift, st) \<leftarrow> stack_pop st; v \<leftarrow> stack_get st 0;
     stack_set st 0 (if v = 0 \<or> shift \<ge> 256 then 0 else drop_bit (unat shift mod 256) v) }"

definition op_sar :: "lib \<Rightarrow> stack \<Rightarrow> stack option" where
  "op_sar L st = do {
     (shift, st) \<leftarrow> stack_pop st;
     (w, st) \<leftarrow> stack_pop st;
     let v = i256_from L w;
     let ret = (if v = i256_zero L \<or> shift \<ge> 256 then
                  (case fst v of Minus \<Rightarrow> i256_into L (Minus, 1) | _ \<Rightarrow> 0)
                else
                  (let s = unat shift mod 256 in
                   case fst v of
                     Minus \<Rightarrow> i256_into L (Minus, drop_bit s (snd v - 1) + 1)
                   | _ \<Rightarrow> drop_bit s (snd v)));
     stack_push ret st }"

section \<open>Stack manipulation\<close>

text \<open>\<open>push::<LEN>\<close> reads the immediate after the opcode; \<open>code[..LEN]\<close> panics when it is short.\<close>

definition op_push :: "nat \<Rightarrow> stack \<Rightarrow> byte list \<Rightarrow> (nat \<times> stack) option" where
  "op_push n st code = do { bs \<leftarrow> slice_range code 0 n; v \<leftarrow> u256_from_slice bs;
     st \<leftarrow> stack_push v st; Some (n, st) }"

definition op_push1 :: "stack \<Rightarrow> byte \<Rightarrow> stack option" where
  "op_push1 st v = stack_push (ucast v) st"

definition op_push32 :: "stack \<Rightarrow> byte list \<Rightarrow> stack option" where
  "op_push32 st code = do { bs \<leftarrow> slice_range code 0 32; stack_push (from_be_bytes bs) st }"

definition op_dup :: "nat \<Rightarrow> stack \<Rightarrow> stack option" where
  "op_dup n st = do { v \<leftarrow> stack_get st (n - 1); stack_push v st }"

definition op_swap :: "nat \<Rightarrow> stack \<Rightarrow> stack option" where
  "op_swap n st = swap_top st n"

definition op_pop :: "stack \<Rightarrow> stack option" where
  "op_pop st = do { (_, st) \<leftarrow> stack_pop st; Some st }"

section \<open>What the instructions leave on the stack\<close>

lemma unat_ucast_u512 [simp]: "unat (ucast (a :: u256) :: u512) = unat a"
  by (simp add: unsigned_ucast_eq take_bit_nat_eq_self_iff order.strict_trans [OF unsigned_less])

lemma u256_lt: "unat (a :: u256) < 2 ^ 256"
  using unsigned_less [where 'a = nat, of a] by simp

lemma u512_to_u256_small: "unat v < 2 ^ 256 \<Longrightarrow> returns (\<lambda>w. unat w = unat v) (u512_to_u256 v)"
  by (simp add: u512_to_u256_def unsigned_ucast_eq take_bit_nat_eq_self_iff)

lemma addmod_fits:
  fixes a b c :: u256
  shows "unat ((ucast a + ucast b) mod ucast c :: u512) = (unat a + unat b) mod unat c"
proof -
  have "unat a + unat b < 2 ^ 512" using u256_lt [of a] u256_lt [of b] by simp
  then have "unat (ucast a + ucast b :: u512) = unat a + unat b"
    by (simp add: unat_word_ariths)
  then show ?thesis by (simp add: unat_mod)
qed

lemma mulmod_fits:
  fixes a b c :: u256
  shows "unat ((ucast a * ucast b) mod ucast c :: u512) = (unat a * unat b) mod unat c"
proof -
  have "unat a * unat b < 2 ^ 256 * 2 ^ 256"
    using u256_lt [of a] u256_lt [of b] by (intro mult_strict_mono) simp_all
  then have "unat (ucast a * ucast b :: u512) = unat a * unat b"
    by (simp add: unat_word_ariths)
  then show ?thesis by (simp add: unat_mod)
qed

lemma mod_lt_u256: "c \<noteq> 0 \<Longrightarrow> n mod unat (c :: u256) < 2 ^ 256"
  by (rule order.strict_trans [OF mod_less_divisor u256_lt]) (simp add: unat_gt_0)

lemma stack_view3: "rev st = a # b # c # vs \<Longrightarrow> st = rev vs @ [c] @ [b] @ [a]"
  by (metis append_Cons append_Nil append_assoc rev.simps(2) rev_rev_ident)

lemma stack_view2: "rev st = a # b # vs \<Longrightarrow> st = (rev vs @ [b]) @ [a]"
  by (metis rev.simps(2) rev_rev_ident)

lemma op_addmod_view:
  assumes "rev st = a # b # c # vs" "length st \<le> STACK_SIZE"
  shows "returns (\<lambda>st'. tl (rev st') = vs \<and>
    unat (hd (rev st')) = (if c = 0 then 0 else (unat a + unat b) mod unat c)) (op_addmod st)"
proof -
  have st: "st = ((rev vs @ [c]) @ [b]) @ [a]" using stack_view3 [OF assms(1)] by simp
  have len: "length (rev vs) < STACK_SIZE" using assms(2) st by simp
  show ?thesis
    using len mod_lt_u256 [of c "unat a + unat b"]
    by (auto simp: op_addmod_def st u512_to_u256_def addmod_fits unsigned_ucast_eq
        take_bit_nat_eq_self_iff simp del: append_assoc)
qed

lemma op_mulmod_view:
  assumes "rev st = a # b # c # vs" "length st \<le> STACK_SIZE"
  shows "returns (\<lambda>st'. tl (rev st') = vs \<and>
    unat (hd (rev st')) = (if c = 0 then 0 else (unat a * unat b) mod unat c)) (op_mulmod st)"
proof -
  have st: "st = ((rev vs @ [c]) @ [b]) @ [a]" using stack_view3 [OF assms(1)] by simp
  have len: "length (rev vs) < STACK_SIZE" using assms(2) st by simp
  show ?thesis
    using len mod_lt_u256 [of c "unat a * unat b"]
    by (auto simp: op_mulmod_def st u512_to_u256_def mulmod_fits unsigned_ucast_eq
        take_bit_nat_eq_self_iff simp del: append_assoc)
qed

text \<open>Square-and-multiply is exponentiation modulo \<open>2 ^ 256\<close>.\<close>

lemma exp_loop_power: "exp_loop b p v = v * b ^ unat p"
proof (induction b p v rule: exp_loop.induct)
  case (1 b p v)
  show ?case
  proof (cases "p > 0")
    case True
    let ?h = "unat p div 2"
    have h: "unat (drop_bit 1 p) = ?h" by (simp add: drop_bit_eq_div unat_div)
    have "odd (unat p) = bit (unat p) 0" by (simp add: bit_0)
    also have "\<dots> = bit p 0" by (simp add: bit_simps)
    also have "\<dots> = (p AND 1 \<noteq> 0)" by (simp add: bit_0 and_one_eq odd_iff_mod_2_eq_one)
    finally have odd: "(p AND 1 \<noteq> 0) = odd (unat p)" ..
    have sq: "(b * b) ^ ?h = b ^ (2 * ?h)" by (simp only: power_mult power2_eq_square)
    have "b ^ unat p = (b * b) ^ ?h * (if odd (unat p) then b else 1)"
    proof (cases "odd (unat p)")
      case True
      then have "unat p = 2 * ?h + 1" by simp
      then have "b ^ unat p = b ^ (2 * ?h) * b" by (metis power_add power_one_right)
      then show ?thesis using True by (simp only: sq if_True not_False_eq_True)
    next
      case False
      then have "unat p = 2 * ?h" by simp
      then have "b ^ unat p = b ^ (2 * ?h)" by metis
      then show ?thesis using False by (simp only: sq if_False mult_1_right)
    qed
    with 1 True h odd show ?thesis by (subst exp_loop.simps) (simp add: ac_simps)
  next
    case False
    then show ?thesis by (subst exp_loop.simps) (simp add: word_gt_0)
  qed
qed


text \<open>Sign extension, byte extraction, shifts.\<close>

lemma bit_and_single: "k < LENGTH('a) \<Longrightarrow> (w AND push_bit k 1 \<noteq> 0) = bit (w :: 'a::len word) k"
  by (simp add: bit_iff_and_push_bit_not_eq_0)

lemma signextend_bit: "n < 256 \<Longrightarrow>
    ((if n > 127 then u256_high b else u256_low b) AND push_bit (n mod 128) 1 \<noteq> 0) = bit b n"
proof (cases "n > 127")
  case True
  assume "n < 256"
  with True have "n mod 128 = n - 128" "n - 128 < 128" by (simp_all add: mod_if)
  with True show ?thesis
    by (simp add: bit_and_single u256_high_def bit_simps del: push_bit_of_1)
next
  case False
  then show ?thesis by (simp add: bit_and_single u256_low_def bit_simps del: push_bit_of_1)
qed

lemma signextend_mask:
  fixes b :: u256
  assumes "n < 256"
  shows "(if bit b n then b OR NOT (push_bit n 1 - 1) else b AND (push_bit n 1 - 1)) = signed_take_bit n b"
proof -
  have m: "push_bit n 1 - 1 = (mask n :: u256)" by (simp add: mask_eq_exp_minus_1 push_bit_eq_mult)
  show ?thesis unfolding m using assms
    by (intro bit_word_eqI) (auto simp: bit_simps min_def not_less dest: le_antisym)
qed

lemma stack_get_top [simp]: "stack_get (s @ [b]) 0 = Some b"
  by (simp add: stack_get_view)

lemma stack_set_top [simp]: "stack_set (s @ [b]) 0 v = Some (s @ [v])"
  by (simp add: stack_set_def get_pos_def list_update_append)

lemma op_signextend_view:
  assumes "rev st = a # b # vs"
  shows "returns (\<lambda>st'. rev st' = (if a < 32 then signed_take_bit (8 * unat a + 7) b else b) # vs)
    (op_signextend st)"
proof -
  have st: "st = (rev vs @ [b]) @ [a]" using stack_view2 [OF assms] .
  show ?thesis
  proof (cases "a < 32")
    case True
    then have n: "8 * unat a + 7 < 256" by (simp add: word_less_nat_alt)
    have "op_signextend st = stack_set (rev vs @ [b]) 0 (signed_take_bit (8 * unat a + 7) b)"
      unfolding op_signextend_def st using True
      by (simp only: stack_pop_snoc stack_get_top bind.bind_lunit prod.case Let_def if_True
          signextend_bit [OF n] signextend_mask [OF n])
    then show ?thesis using True by simp
  next
    case False
    then show ?thesis by (simp add: op_signextend_def st stack_get_view del: append_assoc)
  qed
qed

lemma byte_round_ge: "8 \<le> i \<Longrightarrow> byte_round a b i acc = acc"
  by (simp add: byte_round_def)

lemma byte_round_small:
  assumes "i < 8" "a < 32"
  shows "byte_round a b i acc = acc + push_bit i (of_bool (bit (drop_bit (8 * (31 - unat a)) b) i))"
proof -
  have a: "unat a < 32" using assms(2) by (simp add: word_less_nat_alt)
  have t: "255 - (7 - i + 8 * unat a) = 8 * (31 - unat a) + i" (is "_ = ?t") using a assms(1) by arith
  have lt: "?t < 256" using a assms(1) by arith
  have "drop_bit ?t (b AND push_bit ?t 1) = of_bool (bit b ?t)"
    using lt by (intro bit_word_eqI) (auto simp: bit_simps)
  then have "byte_round a b i acc = acc + push_bit i (of_bool (bit b ?t))"
    unfolding byte_round_def Let_def t using assms by (simp only: simp_thms if_True)
  then show ?thesis by (simp add: bit_simps)
qed

lemma byte_loop:
  assumes "a < 32"
  shows "fold (byte_round a b) [0..<256] 0 = take_bit 8 (drop_bit (8 * (31 - unat a)) b)"
proof -
  let ?w = "drop_bit (8 * (31 - unat a)) b"
  have tail: "fold (byte_round a b) [8..<n] acc = acc" for n acc
    by (induction n) (auto simp: byte_round_ge)
  have head: "n \<le> 8 \<Longrightarrow> fold (byte_round a b) [0..<n] 0
      = (\<Sum>k = 0..<n. push_bit k (of_bool (bit ?w k)))" for n
    by (induction n) (simp_all add: byte_round_small assms)
  have "[0..<256] = [0..<8] @ [8..<256]" using upt_add_eq_append [of 0 8 248] by simp
  then show ?thesis using head [of 8] by (simp add: tail take_bit_sum del: upt_rec_numeral)
qed

lemma byte_loop_out: "\<not> a < 32 \<Longrightarrow> fold (byte_round a b) [0..<n] acc = acc"
  by (induction n) (simp_all add: byte_round_def)

lemma op_byte_view:
  assumes "rev st = a # b # vs" "length st \<le> STACK_SIZE"
  shows "returns (\<lambda>st'. rev st' =
    (if a < 32 then take_bit 8 (drop_bit (8 * (31 - unat a)) b) else 0) # vs) (op_byte st)"
proof -
  have "fold (byte_round a b) [0..<256] 0
      = (if a < 32 then take_bit 8 (drop_bit (8 * (31 - unat a)) b) else 0)"
    by (auto simp: byte_loop byte_loop_out simp del: upt_rec_numeral)
  then show ?thesis
    using evm_stack.binary_push [OF assms(1), of "\<lambda>a b. fold (byte_round a b) [0..<256] 0"] assms(2)
    by (simp add: op_byte_def)
qed


lemma op_shl_view:
  assumes "rev st = n # v # vs"
  shows "returns (\<lambda>st'. rev st' = push_bit (unat n) v # vs) (op_shl st)"
proof -
  have "(if v = 0 \<or> n \<ge> 256 then 0 else push_bit (unat n mod 256) v) = push_bit (unat n) v"
    by (auto simp: word_le_nat_alt word_less_nat_alt not_le)
  then show ?thesis
    using evm_stack.binary_top [OF assms, of "\<lambda>n v. if v = 0 \<or> n \<ge> 256 then 0 else push_bit (unat n mod 256) v"]
    by (simp add: op_shl_def)
qed

lemma op_shr_view:
  assumes "rev st = n # v # vs"
  shows "returns (\<lambda>st'. rev st' = drop_bit (unat n) v # vs) (op_shr st)"
proof -
  have "(if v = 0 \<or> n \<ge> 256 then 0 else drop_bit (unat n mod 256) v) = drop_bit (unat n) v"
    by (auto simp: word_le_nat_alt word_less_nat_alt not_le)
  then show ?thesis
    using evm_stack.binary_top [OF assms, of "\<lambda>n v. if v = 0 \<or> n \<ge> 256 then 0 else drop_bit (unat n mod 256) v"]
    by (simp add: op_shr_def)
qed

text \<open>
  What the \<open>i256\<close> crate documents: a value is converted to the sign and the magnitude of its
  two's complement reading, and back.
\<close>

definition i256_conversions :: "lib \<Rightarrow> bool" where
  "i256_conversions L \<longleftrightarrow> i256_zero L = (NoSign, 0)
     \<and> (\<forall>w. i256_from L w = (if w = 0 then (NoSign, 0) else if bit w 255 then (Minus, - w) else (Plus, w)))
     \<and> (\<forall>m. i256_into L (Minus, m) = - m \<and> i256_into L (Plus, m) = m \<and> i256_into L (NoSign, m) = m)"

lemma sar_negative:
  fixes w :: u256
  assumes "bit w 255"
  shows "- (drop_bit n (- w - 1) + 1) = signed_drop_bit n w"
proof -
  have "- (drop_bit n (- w - 1) + 1) = NOT (drop_bit n (NOT w))"
    by (simp add: not_eq_complement)
  also have "\<dots> = signed_drop_bit n w"
    using assms by (intro bit_word_eqI) (auto simp: bit_simps)
  finally show ?thesis .
qed

lemma sar_nonnegative:
  fixes w :: u256
  assumes "\<not> bit w 255"
  shows "drop_bit n w = signed_drop_bit n w"
proof (rule bit_word_eqI)
  fix k assume "k < LENGTH(256)"
  show "bit (drop_bit n w) k = bit (signed_drop_bit n w) k"
  proof (cases "256 - n \<le> k")
    case True
    then have "\<not> bit w (n + k)" by (intro u256_bit_ge) arith
    then show ?thesis using assms True \<open>k < LENGTH(256)\<close>
      by (simp add: bit_drop_bit_eq bit_signed_drop_bit_iff)
  next
    case False
    then show ?thesis by (simp add: bit_drop_bit_eq bit_signed_drop_bit_iff)
  qed
qed

lemma signed_drop_bit_large:
  fixes w :: u256
  assumes "256 \<le> n" shows "signed_drop_bit n w = (if bit w 255 then - 1 else 0)"
proof (rule bit_word_eqI)
  fix k assume "k < LENGTH(256)"
  then show "bit (signed_drop_bit n w) k = bit (if bit w 255 then - 1 else 0 :: u256) k"
    using assms by (simp add: bit_signed_drop_bit_iff)
qed

lemma op_sar_view:
  assumes L: "i256_conversions L" and st: "rev st = n # w # vs" "length st \<le> STACK_SIZE"
  shows "returns (\<lambda>st'. rev st' = signed_drop_bit (unat n) w # vs) (op_sar L st)"
proof -
  define f where "f n w = (let v = i256_from L w in
      if v = i256_zero L \<or> n \<ge> 256 then (case fst v of Minus \<Rightarrow> i256_into L (Minus, 1) | _ \<Rightarrow> 0)
      else (let s = unat n mod 256 in case fst v of
              Minus \<Rightarrow> i256_into L (Minus, drop_bit s (snd v - 1) + 1) | _ \<Rightarrow> drop_bit s (snd v)))"
    for n w :: u256
  have big: "n \<ge> 256 \<Longrightarrow> 256 \<le> unat n" and small: "\<not> n \<ge> 256 \<Longrightarrow> unat n mod 256 = unat n"
    by (auto simp: word_le_nat_alt)
  have "f n w = signed_drop_bit (unat n) w"
    using L sar_negative [of w "unat n"] sar_nonnegative [of w "unat n"] big small
    by (auto simp: f_def i256_conversions_def Let_def signed_drop_bit_large)
  moreover have "returns (\<lambda>st'. rev st' = f n w # vs) (op_sar L st)"
    using evm_stack.binary_push [OF st(1), of f] st(2) by (simp add: op_sar_def f_def Let_def)
  ultimately show ?thesis by simp
qed

text \<open>\<open>log2floor\<close> is the position of the highest set bit, and \<open>0\<close> for \<open>0\<close>.\<close>

lemma leading_zeros_upto:
  assumes "\<forall>i\<ge>n. \<not> P i" "\<exists>i. P i"
  shows "let z = length (takeWhile (\<lambda>i. \<not> P i) (rev [0..<n]))
    in z < n \<and> P (n - 1 - z) \<and> (\<forall>i\<ge>n - z. \<not> P i)"
  using assms
proof (induction n)
  case (Suc n)
  show ?case
  proof (cases "P n")
    case False
    then have "\<forall>i\<ge>n. \<not> P i" using Suc.prems(1) by (metis Suc_leI le_neq_implies_less)
    define z where "z = length (takeWhile (\<lambda>i. \<not> P i) (rev [0..<n]))"
    have "z < n \<and> P (n - 1 - z) \<and> (\<forall>i\<ge>n - z. \<not> P i)"
      using Suc.IH [OF \<open>\<forall>i\<ge>n. \<not> P i\<close> Suc.prems(2)] unfolding Let_def z_def .
    moreover have "length (takeWhile (\<lambda>i. \<not> P i) (rev [0..<Suc n])) = Suc z"
      using False by (simp add: z_def)
    ultimately show ?thesis by (simp only: Let_def) auto
  next
    case True
    then show ?thesis using Suc.prems by (simp add: Let_def)
  qed
qed auto

lemma highest_bit_bounds:
  fixes v :: "'a::len word"
  assumes "bit v m" "\<forall>i\<ge>Suc m. \<not> bit v i"
  shows "2 ^ m \<le> unat v" "unat v < 2 ^ Suc m"
proof -
  have "bit (unat v) m" using assms(1) by (simp add: bit_simps)
  then have "unat v div 2 ^ m \<noteq> 0" by (metis bit_iff_odd even_zero)
  then show "2 ^ m \<le> unat v" by (metis div_less not_le)
  have "take_bit (Suc m) v = v"
    using assms(2) by (intro bit_word_eqI) (auto simp: bit_take_bit_iff not_le [symmetric])
  then have "take_bit (Suc m) (unat v) = unat v" by (metis unsigned_take_bit_eq)
  then show "unat v < 2 ^ Suc m" by (simp only: take_bit_nat_eq_self_iff)
qed

lemma leading_zeros_bounds:
  assumes "v \<noteq> 0"
  shows "leading_zeros v < 128" "2 ^ (127 - leading_zeros v) \<le> unat v"
    "unat v < 2 ^ (128 - leading_zeros v)"
proof -
  have "\<exists>i. bit v i" using assms by (metis bit_0_eq bit_word_eqI bot_apply bot_bool_def)
  moreover have "\<forall>i\<ge>128. \<not> bit v i" using bit_imp_le_length [of v] by fastforce
  ultimately have z: "leading_zeros v < 128 \<and> bit v (128 - 1 - leading_zeros v)
      \<and> (\<forall>i\<ge>128 - leading_zeros v. \<not> bit v i)"
    using leading_zeros_upto [of 128 "bit v"] unfolding leading_zeros_def Let_def by blast
  have s: "Suc (127 - leading_zeros v) = 128 - leading_zeros v" using z by arith
  show "leading_zeros v < 128" using z by simp
  show "2 ^ (127 - leading_zeros v) \<le> unat v" "unat v < 2 ^ (128 - leading_zeros v)"
    using highest_bit_bounds [of v "127 - leading_zeros v"] z s by simp_all
qed

lemma unat_u256_high: "unat (u256_high v) = unat v div 2 ^ 128"
proof -
  have "unat v div 2 ^ 128 < 2 ^ 128"
    using u256_lt [of v] by (simp add: less_mult_imp_div_less)
  then show ?thesis
    by (simp add: u256_high_def unsigned_ucast_eq drop_bit_eq_div unat_div take_bit_nat_eq_self_iff)
qed

lemma unat_u256_low: "unat (u256_low v) = unat v mod 2 ^ 128"
  by (simp add: u256_low_def unsigned_ucast_eq take_bit_eq_mod)

lemma log2floor_bounds:
  assumes "v \<noteq> 0"
  shows "2 ^ log2floor v \<le> unat v \<and> unat v < 2 ^ Suc (log2floor v)"
proof (cases "u256_high v = 0")
  case False
  define z where "z = leading_zeros (u256_high v)"
  have z: "z < 128" "2 ^ (127 - z) \<le> unat v div 2 ^ 128" "unat v div 2 ^ 128 < 2 ^ (128 - z)"
    using leading_zeros_bounds [OF False] by (simp_all only: z_def unat_u256_high)
  have s: "255 - z = 127 - z + 128" "Suc (255 - z) = 128 - z + 128" using z(1) by arith+
  have "log2floor v = 255 - z" using False z(1) by (simp add: log2floor_def z_def Let_def)
  moreover have "(2::nat) ^ (255 - z) = 2 ^ (127 - z) * 2 ^ 128" unfolding s(1) by (rule power_add)
  moreover have "(2::nat) ^ Suc (255 - z) = 2 ^ (128 - z) * 2 ^ 128" unfolding s(2) by (rule power_add)
  ultimately show ?thesis using z(2,3)
    by (simp only: less_eq_div_iff_mult_less_eq div_less_iff_less_mult zero_less_power zero_less_numeral)
next
  case True
  then have small: "unat v div 2 ^ 128 = 0" using unat_u256_high [of v] by simp
  then have low: "unat (u256_low v) = unat v" by (simp add: unat_u256_low div_eq_0_iff)
  have "u256_low v \<noteq> 0" using low assms by (metis unat_eq_zero)
  note z = leading_zeros_bounds [OF this]
  have "log2floor v = 127 - leading_zeros (u256_low v)"
    using True \<open>u256_low v \<noteq> 0\<close> z(1) by (simp add: log2floor_def Let_def)
  moreover have "Suc (127 - leading_zeros (u256_low v)) = 128 - leading_zeros (u256_low v)"
    using z(1) by simp
  ultimately show ?thesis using z(2,3) by (simp only: low)
qed

lemma log2floor_lt: "log2floor v < 256"
proof (cases "v = 0")
  case True
  then show ?thesis by (simp add: log2floor_def u256_high_def u256_low_def)
next
  case False
  then have "2 ^ log2floor v < (2::nat) ^ 256"
    using log2floor_bounds u256_lt [of v] by (metis le_less_trans)
  then show ?thesis by (rule power_less_imp_less_exp [rotated]) simp
qed

text \<open>
  \<open>EXP\<close>: the charge is per byte of the exponent, and the result is the power modulo \<open>2 ^ 256\<close>.
\<close>

definition exp_byte_cost :: "Revision \<Rightarrow> int" where
  "exp_byte_cost r = (if r \<ge> Spurious then 50 else 10)"

lemma op_exp_view:
  assumes st: "rev (stack s) = a # p # vs" and ok: "state_ok s"
  shows "op_exp r s =
    (let cost = (if p = 0 then 0 else exp_byte_cost r * (int (log2floor p) div 8 + 1))
     in Some (if gas_left s < cost then Inl OutOfGas
        else Inr (s\<lparr>gas_left := gas_left s - cost, stack := rev vs @ [a ^ unat p]\<rparr>)))"
proof -
  have eq: "stack s = (rev vs @ [p]) @ [a]" using stack_view2 [OF st] .
  have len: "length vs < STACK_SIZE" using ok eq by (simp add: state_ok_def)
  have b: "0 \<le> exp_byte_cost r * (int (log2floor p) div 8 + 1)"
      "exp_byte_cost r * (int (log2floor p) div 8 + 1) \<le> 2 ^ 63"
    using log2floor_lt [of p] by (auto simp: exp_byte_cost_def)
  show ?thesis
    using len b ok
    by (auto simp: op_exp_def eq exp_byte_cost_def [symmetric] charge_ok state_ok_def
        exp_loop_power Let_def word_gt_0 simp del: append_assoc)
qed

section \<open>How the instructions change the height of the stack\<close>

text \<open>\<open>moves k st m\<close>: the instruction does not panic and changes the height by \<open>k\<close>.\<close>

definition moves :: "int \<Rightarrow> stack \<Rightarrow> stack option \<Rightarrow> bool" where
  "moves k st m = returns (\<lambda>st'. int (length st') = int (length st) + k) m"

lemma butlast_ne [simp]: "2 \<le> length st \<Longrightarrow> butlast st \<noteq> []"
  by (cases st rule: rev_cases) auto

lemma length_ne: "1 \<le> length st \<Longrightarrow> st \<noteq> []" "2 \<le> length st \<Longrightarrow> st \<noteq> []" "3 \<le> length st \<Longrightarrow> st \<noteq> []"
  by auto

lemma moves_unary:
  assumes "1 \<le> length st" shows "moves 0 st (do { x \<leftarrow> stack_get st 0; stack_set st 0 (f x) })"
  using assms by (cases st rule: rev_cases) (simp_all add: moves_def)

lemma moves_binary_push:
  assumes "2 \<le> length st" "length st \<le> STACK_SIZE"
  shows "moves (- 1) st (do { (x, s1) \<leftarrow> stack_pop st; (y, s2) \<leftarrow> stack_pop s1; stack_push (f x y) s2 })"
  using assms by (simp add: moves_def length_ne)

lemma moves_binary_top:
  assumes "2 \<le> length st"
  shows "moves (- 1) st (do { (x, s1) \<leftarrow> stack_pop st; y \<leftarrow> stack_get s1 0; stack_set s1 0 (f x y) })"
  using assms by (simp add: moves_def length_ne)

lemma moves_binary_push_ops [step_rules]:
  assumes "2 \<le> length st" "length st \<le> STACK_SIZE"
  shows "moves (- 1) st (op_add st)" "moves (- 1) st (op_mul st)" "moves (- 1) st (op_sub st)"
    "moves (- 1) st (op_sdiv L st)" "moves (- 1) st (op_slt L st)" "moves (- 1) st (op_sgt L st)"
    "moves (- 1) st (op_byte st)" "moves (- 1) st (op_sar L st)"
  using assms
  unfolding op_add_def op_mul_def op_sub_def op_sdiv_def op_slt_def op_sgt_def op_byte_def op_sar_def Let_def
  by (rule moves_binary_push)+

lemma moves_binary_top_ops [step_rules]:
  assumes "2 \<le> length st"
  shows "moves (- 1) st (op_div st)" "moves (- 1) st (op_mod st)" "moves (- 1) st (op_smod L st)"
    "moves (- 1) st (op_lt st)" "moves (- 1) st (op_gt st)" "moves (- 1) st (op_eq st)"
    "moves (- 1) st (op_and st)" "moves (- 1) st (op_or st)" "moves (- 1) st (op_xor st)"
    "moves (- 1) st (op_shl st)" "moves (- 1) st (op_shr st)"
  using assms
  unfolding op_div_def op_mod_def op_smod_def op_lt_def op_gt_def op_eq_def op_and_def op_or_def
    op_xor_def op_shl_def op_shr_def
  by (rule moves_binary_top)+

lemma moves_unary_ops [step_rules]:
  assumes "1 \<le> length st"
  shows "moves 0 st (op_iszero st)" "moves 0 st (op_not st)"
  using assms unfolding op_iszero_def op_not_def by (rule moves_unary)+

lemma top_two: "2 \<le> length st \<Longrightarrow> \<exists>a b vs. rev st = a # b # vs"
  by (cases "rev st" rule: remdups_adj.cases) (auto dest: arg_cong [where f = length])

lemma top_three: "3 \<le> length st \<Longrightarrow> \<exists>a b c vs. rev st = a # b # c # vs"
  by (metis (no_types, lifting) One_nat_def Suc_le_length_iff eval_nat_numeral(3) length_rev numeral_2_eq_2)

lemma moves_view: "returns (\<lambda>st'. rev st' = w # vs) m \<Longrightarrow> rev st = a # b # vs \<Longrightarrow> moves (- 1) st m"
  unfolding moves_def using arg_cong [of "rev st" "a # b # vs" length]
  by (auto elim!: returns_mono dest!: arg_cong [where f = length])

lemma moves_signextend [step_rules]: "2 \<le> length st \<Longrightarrow> moves (- 1) st (op_signextend st)"
  by (metis moves_view op_signextend_view top_two)

lemma mod_fits_u256:
  fixes a b c :: u256
  assumes "c \<noteq> 0"
  shows "unat ((ucast a + ucast b) mod ucast c :: u512) < 2 ^ 256"
    "unat ((ucast a * ucast b) mod ucast c :: u512) < 2 ^ 256"
  using mod_lt_u256 [OF assms] by (simp_all only: addmod_fits mulmod_fits)

lemma moves_modular [step_rules]:
  assumes "3 \<le> length st" "length st \<le> STACK_SIZE"
  shows "moves (- 2) st (op_addmod st)" "moves (- 2) st (op_mulmod st)"
proof -
  obtain a b c vs where "rev st = a # b # c # vs" using top_three [OF assms(1)] by blast
  then have st: "st = ((rev vs @ [c]) @ [b]) @ [a]" using stack_view3 by simp
  have len: "length vs < STACK_SIZE" using assms(2) st by simp
  show "moves (- 2) st (op_addmod st)" "moves (- 2) st (op_mulmod st)"
    unfolding st moves_def op_addmod_def op_mulmod_def using len mod_fits_u256 [of c]
    by (simp_all add: u512_to_u256_def del: append_assoc)
qed

lemma moves_pop [step_rules]: "1 \<le> length st \<Longrightarrow> moves (- 1) st (op_pop st)"
  by (cases st rule: rev_cases) (simp_all add: moves_def op_pop_def)

lemma moves_dup [step_rules]: "1 \<le> n \<Longrightarrow> n \<le> length st \<Longrightarrow> length st < STACK_SIZE \<Longrightarrow> moves 1 st (op_dup n st)"
  by (auto simp: moves_def op_dup_def)

lemma moves_swap [step_rules]: "n < length st \<Longrightarrow> moves 0 st (op_swap n st)"
  using returns_swap_top [of n st] by (simp add: moves_def op_swap_def)

lemma moves_push1 [step_rules]: "length st < STACK_SIZE \<Longrightarrow> moves 1 st (op_push1 st v)"
  by (simp add: moves_def op_push1_def)

lemma moves_push32 [step_rules]:
  "length st < STACK_SIZE \<Longrightarrow> 32 \<le> length code \<Longrightarrow> moves 1 st (op_push32 st code)"
  by (simp add: moves_def op_push32_def)

text \<open>\<open>PUSH\<close> reads its immediate as a big-endian number.\<close>

lemma op_push_view:
  assumes "n \<le> 32" "n \<le> length code" "length st < STACK_SIZE"
  shows "op_push n st code = Some (n, st @ [from_be_bytes (take n code)])"
  using assms by (auto simp: op_push_def slice_range_def u256_from_slice_def from_be_bytes_zeros)
    (simp_all add: from_be_bytes_def)

lemma op_push32_view:
  "32 \<le> length code \<Longrightarrow> length st < STACK_SIZE
   \<Longrightarrow> op_push32 st code = Some (st @ [from_be_bytes (take 32 code)])"
  by (simp add: op_push32_def slice_range_def)

lemma op_push1_view:
  "length st < STACK_SIZE \<Longrightarrow> op_push1 st v = Some (st @ [from_be_bytes [v]])"
  by (simp add: op_push1_def from_be_bytes_def)

section \<open>Properties\<close>

text \<open>\<open>ADDMOD\<close> and \<open>MULMOD\<close> replace their three operands by the sum or the product reduced modulo the
  third one. The sum and the product are not truncated to 256 bits first, and a zero modulus gives
  zero. Neither conversion of the 512-bit remainder can panic.\<close>

theorem modular_arithmetic_exact:
  assumes "rev st = a # b # c # vs" "length st \<le> STACK_SIZE"
  shows "returns (\<lambda>st'. tl (rev st') = vs \<and>
        unat (hd (rev st')) = (if c = 0 then 0 else (unat a + unat b) mod unat c)) (op_addmod st)
    \<and> returns (\<lambda>st'. tl (rev st') = vs \<and>
        unat (hd (rev st')) = (if c = 0 then 0 else (unat a * unat b) mod unat c)) (op_mulmod st)"
  using op_addmod_view [OF assms] op_mulmod_view [OF assms] by simp

theorem modular_arithmetic_exact_witness:
  "returns (\<lambda>st'. tl (rev st') = [] \<and> unat (hd (rev st')) = (unat (- 1 :: u256) + unat (- 1 :: u256)) mod 5)
     (op_addmod [5, - 1, - 1])
   \<and> returns (\<lambda>st'. tl (rev st') = [] \<and> unat (hd (rev st')) = unat (- 1 :: u256) * unat (- 1 :: u256) mod 5)
     (op_mulmod [5, - 1, - 1])"
  using modular_arithmetic_exact [of "[5, - 1, - 1]" "- 1" "- 1" 5 "[]"]
  by (simp add: STACK_SIZE_def)

lemma exp_bytes:
  assumes "unat p < 256 ^ n" "n = 0 \<or> 256 ^ (n - 1) \<le> unat (p :: u256)"
  shows "int n = (if p = 0 then 0 else int (log2floor p) div 8 + 1)"
proof (cases "p = 0")
  case False
  then have n: "0 < n" "256 ^ (n - 1) \<le> unat p" using assms by (auto simp: unat_eq_zero intro: gr0I)
  have b: "(2 :: nat) ^ log2floor p \<le> unat p" "unat p < 2 ^ Suc (log2floor p)" using log2floor_bounds [OF False] by auto
  have e: "(256 :: nat) ^ k = 2 ^ (8 * k)" for k by (simp add: power_mult)
  have "(2 :: nat) ^ log2floor p < 2 ^ (8 * n)" "(2 :: nat) ^ (8 * (n - 1)) < 2 ^ Suc (log2floor p)"
    using b assms(1) n(2) unfolding e by linarith+
  then have "log2floor p < 8 * n" "8 * (n - 1) < Suc (log2floor p)"
    by (simp_all del: power_Suc)
  then have "log2floor p div 8 + 1 = n" using n(1) by linarith
  then show ?thesis using False by auto
qed (use assms in \<open>auto intro: ccontr\<close>)

text \<open>\<open>EXP\<close> charges 10 or, since Spurious Dragon, 50 gas for each of the \<open>n\<close> bytes of the exponent,
  fails with \<open>OutOfGas\<close> exactly when the frame has less, and otherwise pushes the power modulo
  \<open>2 ^ 256\<close> that the square-and-multiply loop computes.\<close>

theorem exp_power_and_cost:
  assumes "rev (stack s) = a # p # vs" "state_ok s"
    and "unat p < 256 ^ n" "n = 0 \<or> 256 ^ (n - 1) \<le> unat p"
  shows "op_exp r s = Some (if gas_left s < exp_byte_cost r * int n then Inl OutOfGas
    else Inr (s\<lparr>gas_left := gas_left s - exp_byte_cost r * int n, stack := rev vs @ [a ^ unat p]\<rparr>))"
  using op_exp_view [OF assms(1,2), of r] exp_bytes [OF assms(3,4)] by (auto simp: Let_def)

theorem exp_power_and_cost_witness:
  "op_exp London (sample_state [10, 2]) = Some (Inr ((sample_state [])\<lparr>gas_left := 99950, stack := [1024]\<rparr>))"
proof -
  have "rev (stack (sample_state [10, 2])) = [2, 10]" "state_ok (sample_state [10, 2])"
    by (simp_all add: sample_state_ok STACK_SIZE_def) (simp add: sample_state_def)
  from exp_power_and_cost [OF this, of 1 London] show ?thesis
    by (simp add: exp_byte_cost_def sample_state_def sample_message_def ExecutionState_new_def less_eq_Revision_def)
qed

text \<open>\<open>SHL\<close>, \<open>SHR\<close> and \<open>SAR\<close> are the logical shifts and the arithmetic shift of 256-bit words for every
  shift amount, those of 256 and more included. \<open>SAR\<close> goes through the sign and magnitude of the
  \<open>i256\<close> crate, whose conversions are a hypothesis.\<close>

theorem shifts_exact:
  assumes "i256_conversions L" "rev st = n # w # vs" "length st \<le> STACK_SIZE"
  shows "returns (\<lambda>st'. rev st' = push_bit (unat n) w # vs) (op_shl st)
    \<and> returns (\<lambda>st'. rev st' = drop_bit (unat n) w # vs) (op_shr st)
    \<and> returns (\<lambda>st'. rev st' = signed_drop_bit (unat n) w # vs) (op_sar L st)"
  by (intro conjI op_shl_view op_shr_view op_sar_view assms)

lemma sample_i256: "i256_conversions sample_lib"
  by (simp add: i256_conversions_def sample_lib_def)

theorem shifts_exact_witness:
  "returns (\<lambda>st'. rev st' = [signed_drop_bit 4 (- 256)]) (op_sar sample_lib [- 256, 4])
   \<and> returns (\<lambda>st'. rev st' = [push_bit 4 3]) (op_shl [3, 4])"
  using shifts_exact [OF sample_i256, of "[- 256, 4]" 4 "- 256" "[]"] shifts_exact [OF sample_i256, of "[3, 4]" 4 3 "[]"]
  by (simp add: STACK_SIZE_def)

text \<open>\<open>BYTE\<close>, a loop over the bits of the word, selects byte \<open>a\<close> counted from the most significant one and
  gives zero out of range. \<open>SIGNEXTEND\<close> extends the sign of the lowest \<open>a + 1\<close> bytes and leaves the
  word alone when \<open>a\<close> is 31 or more.\<close>

theorem byte_and_signextend:
  assumes "rev st = a # b # vs" "length st \<le> STACK_SIZE"
  shows "returns (\<lambda>st'. rev st' = (if a < 32 then take_bit 8 (drop_bit (8 * (31 - unat a)) b) else 0) # vs) (op_byte st)
    \<and> returns (\<lambda>st'. rev st' = (if a < 32 then signed_take_bit (8 * unat a + 7) b else b) # vs) (op_signextend st)"
  using op_byte_view [OF assms] op_signextend_view [OF assms(1)] by simp

theorem byte_and_signextend_witness:
  "returns (\<lambda>st'. rev st' = [- 1]) (op_signextend [255, 0]) \<and> returns (\<lambda>st'. rev st' = [255]) (op_byte [255, 31])"
  using byte_and_signextend [of "[255, 0]" 0 255 "[]"] byte_and_signextend [of "[255, 31]" 31 255 "[]"]
  by (simp add: STACK_SIZE_def)

end
