(* ===== verification/InstrMemory.thy ===== *)
theory InstrMemory
  imports InstrCompute
begin

unbundle bit_operations_syntax

text \<open>
  The instructions on the linear memory, the call data and the return data:
  \<open>instructions/memory.rs\<close> and \<open>instructions/control.rs\<close> (\<open>RETURN\<close>, \<open>CALLDATALOAD\<close>,
  \<open>CALLDATASIZE\<close>; the jumps are with the interpreter). The host-dependent \<open>extcodecopy!\<close> and
  \<open>extcodehash!\<close> are in the theory of the external instructions.

  Every access goes through \<open>get_memory_region\<close>, which charges for growth before the memory is
  resized. The theorems show that after it the region is inside the memory, so that the slice
  operations that follow cannot panic, and what each instruction reads and writes.
\<close>

section \<open>Regions and growth\<close>

definition MAX_BUFFER_SIZE :: u256 where
  "MAX_BUFFER_SIZE = 2 ^ 32 - 1"

definition WORD_SIZE :: int where
  "WORD_SIZE = 32"

definition num_words :: "nat \<Rightarrow> int" where
  "num_words size_in_bytes = i64_div (i64 (i64 (int size_in_bytes) + (WORD_SIZE - 1))) WORD_SIZE"

record MemoryRegion =
  mr_offset :: nat
  mr_size :: nat

definition grow_memory :: "ExecutionState \<Rightarrow> nat \<Rightarrow> unit + ExecutionState" where
  "grow_memory state new_size =
     (let new_words = num_words new_size;
          current_words = int (length (memory state) div 32);
          new_cost = i64 (3 * new_words + i64_div (i64 (new_words * new_words)) 512);
          current_cost = i64 (3 * current_words + i64_div (i64 (current_words * current_words)) 512);
          cost = i64 (new_cost - current_cost);
          state = state\<lparr>gas_left := i64 (gas_left state - cost)\<rparr>
      in if gas_left state < 0 then Inl ()
         else Inr (state\<lparr>memory := memory_grow (memory state) (nat (i64 (new_words * WORD_SIZE)))\<rparr>))"

definition get_memory_region_u64 ::
  "ExecutionState \<Rightarrow> u256 \<Rightarrow> nat \<Rightarrow> unit + (MemoryRegion \<times> ExecutionState)" where
  "get_memory_region_u64 state offset sz =
     (if offset > MAX_BUFFER_SIZE then Inl ()
      else
        let new_size = as_usize offset + sz;
            current_size = length (memory state);
            region = \<lparr>mr_offset = as_usize offset, mr_size = sz\<rparr>
        in if new_size > current_size
           then (case grow_memory state new_size of Inl e \<Rightarrow> Inl e | Inr state \<Rightarrow> Inr (region, state))
           else Inr (region, state))"

text \<open>\<open>NonZeroUsize::new(n).unwrap()\<close>.\<close>

definition NonZeroUsize_new :: "nat \<Rightarrow> nat option" where
  "NonZeroUsize_new n = (if n = 0 then None else Some n)"

definition get_memory_region ::
  "ExecutionState \<Rightarrow> u256 \<Rightarrow> u256 \<Rightarrow> (unit + (MemoryRegion option \<times> ExecutionState)) option" where
  "get_memory_region state offset sz =
     (if sz = 0 then Some (Inr (None, state))
      else if sz > MAX_BUFFER_SIZE then Some (Inl ())
      else do {
        n \<leftarrow> NonZeroUsize_new (as_usize sz);
        Some (case get_memory_region_u64 state offset n of
                Inl e \<Rightarrow> Inl e
              | Inr (region, state) \<Rightarrow> Inr (Some region, state)) })"

definition region_end :: "MemoryRegion \<Rightarrow> nat" where
  "region_end region = mr_offset region + mr_size region"

section \<open>Loads and stores\<close>

definition mload :: "ExecutionState \<Rightarrow> (StatusCode + ExecutionState) option" where
  "mload state = do {
     (index, state) \<leftarrow> state_pop state;
     try_then (map_err (\<lambda>_. OutOfGas) (get_memory_region_u64 state index 32)) (\<lambda>(region, state). do {
       bs \<leftarrow> slice_range (memory state) (mr_offset region) (region_end region);
       v \<leftarrow> u256_from_slice bs;
       state \<leftarrow> state_push v state;
       Some (Inr state) }) }"

definition mstore :: "ExecutionState \<Rightarrow> (StatusCode + ExecutionState) option" where
  "mstore state = do {
     (index, state) \<leftarrow> state_pop state;
     (v, state) \<leftarrow> state_pop state;
     try_then (map_err (\<lambda>_. OutOfGas) (get_memory_region_u64 state index 32)) (\<lambda>(region, state). do {
       m \<leftarrow> copy_into (memory state) (mr_offset region) (mr_offset region + 32) (to_be_bytes v);
       Some (Inr (state\<lparr>memory := m\<rparr>)) }) }"

definition mstore8 :: "ExecutionState \<Rightarrow> (StatusCode + ExecutionState) option" where
  "mstore8 state = do {
     (index, state) \<leftarrow> state_pop state;
     (v, state) \<leftarrow> state_pop state;
     try_then (map_err (\<lambda>_. OutOfGas) (get_memory_region_u64 state index 1)) (\<lambda>(region, state). do {
       let b = (ucast ((ucast (u256_low v) :: 32 word) AND 255) :: byte);
       (if mr_offset region < length (memory state)
        then Some (Inr (state\<lparr>memory := (memory state)[mr_offset region := b]\<rparr>)) else None) }) }"

definition msize :: "ExecutionState \<Rightarrow> ExecutionState option" where
  "msize state = state_push (of_nat (length (memory state))) state"

section \<open>Copies into memory\<close>

text \<open>The tail the copy instructions share: the copied bytes, then zeros up to the region's end.\<close>

definition copy_and_fill :: "MemoryRegion \<Rightarrow> nat \<Rightarrow> byte list \<Rightarrow> nat \<Rightarrow> memory \<Rightarrow> memory option" where
  "copy_and_fill region copy_size data src m = do {
     m \<leftarrow> (if copy_size > 0 then do {
             bs \<leftarrow> slice_range data src (src + copy_size);
             copy_into m (mr_offset region) (mr_offset region + copy_size) bs }
           else Some m);
     if mr_size region > copy_size
     then fill_range m (mr_offset region + copy_size) (region_end region) 0 else Some m }"

definition calldatacopy :: "ExecutionState \<Rightarrow> (StatusCode + ExecutionState) option" where
  "calldatacopy state = do {
     (mem_index, state) \<leftarrow> state_pop state;
     (input_index, state) \<leftarrow> state_pop state;
     (sz, state) \<leftarrow> state_pop state;
     r \<leftarrow> get_memory_region state mem_index sz;
     try_then (map_err (\<lambda>_. OutOfGas) r) (\<lambda>(region, state).
       case region of
         None \<Rightarrow> Some (Inr state)
       | Some region \<Rightarrow>
           try_then (charge (num_words (mr_size region) * 3) state) (\<lambda>state. do {
             let input = msg_input_data (message state);
             let input_len = (of_nat (length input) :: u256);
             let src = min input_len input_index;
             let copy_size = as_usize (min sz (input_len - src));
             let src = as_usize src;
             m \<leftarrow> copy_and_fill region copy_size input src (memory state);
             Some (Inr (state\<lparr>memory := m\<rparr>)) })) }"

definition op_keccak256 :: "lib \<Rightarrow> ExecutionState \<Rightarrow> (StatusCode + ExecutionState) option" where
  "op_keccak256 L state = do {
     (index, state) \<leftarrow> state_pop state;
     (sz, state) \<leftarrow> state_pop state;
     r \<leftarrow> get_memory_region state index sz;
     try_then (map_err (\<lambda>_. OutOfGas) r) (\<lambda>(region, state).
       case region of
         None \<Rightarrow> do { state \<leftarrow> state_push (keccak256 L []) state; Some (Inr state) }
       | Some region \<Rightarrow>
           try_then (charge (num_words (mr_size region) * 6) state) (\<lambda>state. do {
             data \<leftarrow> slice_range (memory state) (mr_offset region) (region_end region);
             state \<leftarrow> state_push (keccak256 L data) state;
             Some (Inr state) })) }"

definition codesize :: "ExecutionState \<Rightarrow> byte list \<Rightarrow> ExecutionState option" where
  "codesize state code = state_push (of_nat (length code)) state"

definition codecopy :: "ExecutionState \<Rightarrow> byte list \<Rightarrow> (StatusCode + ExecutionState) option" where
  "codecopy state code = do {
     (mem_index, state) \<leftarrow> state_pop state;
     (input_index, state) \<leftarrow> state_pop state;
     (sz, state) \<leftarrow> state_pop state;
     r \<leftarrow> get_memory_region state mem_index sz;
     try_then (map_err (\<lambda>_. OutOfGas) r) (\<lambda>(region, state).
       case region of
         None \<Rightarrow> Some (Inr state)
       | Some region \<Rightarrow> do {
           let src = as_usize (min (of_nat (length code)) input_index);
           let copy_size = min (mr_size region) (length code - src);
           try_then (charge (num_words (mr_size region) * 3) state) (\<lambda>state. do {
             m \<leftarrow> copy_and_fill region copy_size code src (memory state);
             Some (Inr (state\<lparr>memory := m\<rparr>)) }) }) }"

definition returndatasize :: "ExecutionState \<Rightarrow> ExecutionState option" where
  "returndatasize state = state_push (of_nat (length (return_data state))) state"

definition returndatacopy :: "ExecutionState \<Rightarrow> (StatusCode + ExecutionState) option" where
  "returndatacopy state = do {
     (mem_index, state) \<leftarrow> state_pop state;
     (input_index, state) \<leftarrow> state_pop state;
     (sz, state) \<leftarrow> state_pop state;
     r \<leftarrow> get_memory_region state mem_index sz;
     try_then (map_err (\<lambda>_. OutOfGas) r) (\<lambda>(region, state).
       if input_index > of_nat (length (return_data state)) then Some (Inl InvalidMemoryAccess)
       else
         let src = as_usize input_index;
             n = (case region of Some r \<Rightarrow> mr_size r | None \<Rightarrow> 0)
         in if src + n > length (return_data state) then Some (Inl InvalidMemoryAccess)
            else (case region of
                    None \<Rightarrow> Some (Inr state)
                  | Some region \<Rightarrow>
                      try_then (charge (num_words (mr_size region) * 3) state) (\<lambda>state. do {
                        data \<leftarrow> slice_range (return_data state) src (src + mr_size region);
                        m \<leftarrow> copy_into (memory state) (mr_offset region) (region_end region) data;
                        Some (Inr (state\<lparr>memory := m\<rparr>)) }))) }"

section \<open>Control\<close>

definition ret :: "ExecutionState \<Rightarrow> (StatusCode + ExecutionState) option" where
  "ret state = do {
     offset \<leftarrow> stack_get (stack state) 0;
     sz \<leftarrow> stack_get (stack state) 1;
     r \<leftarrow> get_memory_region state offset sz;
     try_then (map_err (\<lambda>_. OutOfGas) r) (\<lambda>(region, state).
       case region of
         None \<Rightarrow> Some (Inr state)
       | Some region \<Rightarrow> do {
           data \<leftarrow> slice_range (memory state) (mr_offset region) (region_end region);
           Some (Inr (state\<lparr>output_data := data\<rparr>)) }) }"

definition calldataload :: "ExecutionState \<Rightarrow> ExecutionState option" where
  "calldataload state = do {
     (index, state) \<leftarrow> state_pop state;
     let input = msg_input_data (message state);
     v \<leftarrow> (if index > of_nat (length input) then Some 0
           else do {
             let index_usize = as_usize index;
             let stop = min (index_usize + 32) (length input);
             bs \<leftarrow> slice_range input index_usize stop;
             data \<leftarrow> copy_into (replicate 32 0) 0 (stop - index_usize) bs;
             Some (from_be_bytes data) });
     state_push v state }"

definition calldatasize :: "ExecutionState \<Rightarrow> ExecutionState option" where
  "calldatasize state = state_push (of_nat (length (msg_input_data (message state)))) state"

section \<open>Growth is paid for and makes room\<close>

text \<open>The price of a memory of \<open>w\<close> words, as the yellow paper has it.\<close>

definition memory_cost :: "nat \<Rightarrow> int" where
  "memory_cost w = 3 * int w + int (w * w div 512)"

lemma memory_cost_mono: "v \<le> w \<Longrightarrow> memory_cost v \<le> memory_cost w"
  unfolding memory_cost_def by (simp add: add_mono div_le_mono mult_le_mono)

lemma memory_cost_bound: "w \<le> 2 ^ 28 \<Longrightarrow> 0 \<le> memory_cost w \<and> memory_cost w \<le> 2 ^ 50"
proof
  assume "w \<le> 2 ^ 28"
  then have "memory_cost w \<le> memory_cost (2 ^ 28)" by (rule memory_cost_mono)
  also have "\<dots> \<le> 2 ^ 50" by (simp add: memory_cost_def)
  finally show "memory_cost w \<le> 2 ^ 50" .
qed (simp add: memory_cost_def)

lemma num_words_eq: "n < 2 ^ 62 \<Longrightarrow> num_words n = int ((n + 31) div 32)"
proof -
  assume "n < 2 ^ 62"
  then have n: "int n < 2 ^ 62" using of_nat_less_iff [of n "2 ^ 62"] by (metis of_nat_numeral of_nat_power)
  then have "i64 (int n) = int n" by (intro i64_id) simp_all
  moreover have "i64 (int n + 31) = int n + 31" using n by (intro i64_id) simp_all
  ultimately show ?thesis by (simp add: num_words_def WORD_SIZE_def zdiv_int)
qed

lemma i64_memory_cost:
  assumes "w \<le> 2 ^ 28"
  shows "i64 (3 * int w + i64_div (i64 (int w * int w)) 512) = memory_cost w"
proof -
  have "w * w \<le> 2 ^ 28 * 2 ^ 28" using assms by (intro mult_le_mono)
  then have "int (w * w) \<le> int (2 ^ 28 * 2 ^ 28)" by (simp only: of_nat_le_iff)
  then have sq: "int w * int w \<le> 2 ^ 56" by simp
  have "i64 (int w * int w) = int w * int w" using sq by (intro i64_id) (simp_all add: order.trans [of _ 0])
  then have "3 * int w + i64_div (i64 (int w * int w)) 512 = memory_cost w"
    by (simp add: memory_cost_def zdiv_int)
  moreover have "i64 (memory_cost w) = memory_cost w"
    using memory_cost_bound [OF assms] by (intro i64_id) simp_all
  ultimately show ?thesis by simp
qed

lemma words_bounds:
  assumes "n \<le> MEMORY_LIMIT"
  shows "(n + 31) div 32 \<le> 2 ^ 28" "n div 32 \<le> 2 ^ 28" "n < 2 ^ 62"
    "n \<le> 32 * ((n + 31) div 32)" "32 * ((n + 31) div 32) \<le> MEMORY_LIMIT"
  using assms unfolding MEMORY_LIMIT_def by simp_all

lemma grow_memory_eq:
  assumes ok: "state_ok s" and n: "length (memory s) < n" "n \<le> MEMORY_LIMIT"
  shows "grow_memory s n =
    (let w = (n + 31) div 32; c = memory_cost w - memory_cost (length (memory s) div 32)
     in if gas_left s < c then Inl ()
        else Inr (s\<lparr>gas_left := gas_left s - c,
                   memory := memory s @ replicate (32 * w - length (memory s)) 0\<rparr>))"
proof -
  define w where "w = (n + 31) div 32"
  define v where "v = length (memory s) div 32"
  have b: "w \<le> 2 ^ 28" "v \<le> 2 ^ 28" "n < 2 ^ 62" "length (memory s) \<le> 32 * w"
    using words_bounds [OF n(2)] words_bounds [of "length (memory s)"] n ok
    by (simp_all add: w_def v_def state_ok_def)
  have "v \<le> w" using n(1) unfolding v_def w_def by (intro div_le_mono) simp
  then have c: "0 \<le> memory_cost w - memory_cost v" "memory_cost w - memory_cost v \<le> 2 ^ 50"
    using memory_cost_mono memory_cost_bound [OF b(1)] memory_cost_bound [OF b(2)] by simp_all
  have i: "i64 (memory_cost w - memory_cost v) = memory_cost w - memory_cost v"
    using c by (intro i64_id) simp_all
  have g: "i64 (gas_left s - (memory_cost w - memory_cost v)) = gas_left s - (memory_cost w - memory_cost v)"
    using c state_ok_gas [OF ok] by (intro i64_id) simp_all
  have z: "i64 (int w * 32) = int (32 * w)" using b(1) by (subst i64_id) simp_all
  show ?thesis
    unfolding grow_memory_def num_words_eq [OF b(3)] w_def [symmetric] v_def [symmetric]
      i64_memory_cost [OF b(1)] i64_memory_cost [OF b(2)] Let_def WORD_SIZE_def z
    using b(4) by (simp add: i g memory_grow_def resize_prefix)
qed

text \<open>\<open>grown s s'\<close>: gas was spent and zero bytes were appended to the memory, nothing else.\<close>

definition grown :: "ExecutionState \<Rightarrow> ExecutionState \<Rightarrow> bool" where
  "grown s s' \<longleftrightarrow> (\<exists>g k. s' = s\<lparr>gas_left := g, memory := memory s @ replicate k 0\<rparr> \<and> g \<le> gas_left s)
     \<and> state_ok s'"

lemma grown_refl [simp]: "grown s s = state_ok s"
proof -
  have "s = s\<lparr>gas_left := gas_left s, memory := memory s @ replicate 0 0\<rparr>" by simp
  then show ?thesis unfolding grown_def by (metis order_refl)
qed

lemma grown_simps:
  assumes "grown s s'"
  shows "state_ok s'" "gas_left s' \<le> gas_left s" "stack s' = stack s" "message s' = message s"
    "return_data s' = return_data s" "output_data s' = output_data s"
    "length (memory s) \<le> length (memory s')"
    "memory s' = memory s @ replicate (length (memory s') - length (memory s)) 0"
  using assms by (auto simp: grown_def)

text \<open>The region is the one asked for and lies inside the memory.\<close>

definition region_in :: "nat \<Rightarrow> nat \<Rightarrow> MemoryRegion \<Rightarrow> ExecutionState \<Rightarrow> bool" where
  "region_in offset sz r s \<longleftrightarrow> mr_offset r = offset \<and> mr_size r = sz \<and> sz < 2 ^ 32
     \<and> offset + sz \<le> length (memory s)"

lemma region_in_simps:
  assumes "region_in off sz r s"
  shows "mr_offset r = off" "mr_size r = sz" "region_end r = off + sz" "off + sz \<le> length (memory s)"
    "sz < 2 ^ 32"
  using assms by (simp_all add: region_in_def region_end_def)

lemma buffer_bound: "\<not> offset > MAX_BUFFER_SIZE \<Longrightarrow> unat offset < 2 ^ 32"
  by (simp add: MAX_BUFFER_SIZE_def word_le_nat_alt not_less)

lemma get_memory_region_u64_spec:
  assumes ok: "state_ok s" and sz: "sz < 2 ^ 32"
  shows "ok_with (\<lambda>(r, s'). region_in (unat offset) sz r s' \<and> grown s s')
    (get_memory_region_u64 s offset sz)"
proof (cases "offset > MAX_BUFFER_SIZE")
  case False
  define n where "n = unat offset + sz"
  have o: "unat offset < 2 ^ 32" using False by (rule buffer_bound)
  then have n: "n \<le> MEMORY_LIMIT" using sz by (simp add: n_def MEMORY_LIMIT_def)
  have u: "as_usize offset = unat offset" using o by (intro as_usize_small) simp
  define w where "w = (n + 31) div 32"
  define c where "c = memory_cost w - memory_cost (length (memory s) div 32)"
  show ?thesis
  proof (cases "length (memory s) < n")
    case True
    have "length (memory s) div 32 \<le> w" using True unfolding w_def by (intro div_le_mono) simp
    then have c: "0 \<le> c" using memory_cost_mono by (simp add: c_def)
    have w: "n \<le> 32 * w" "32 * w \<le> MEMORY_LIMIT" using words_bounds [OF n] by (simp_all add: w_def)
    define s1 where "s1 = s\<lparr>gas_left := gas_left s - c,
      memory := memory s @ replicate (32 * w - length (memory s)) 0\<rparr>"
    have eq: "grow_memory s n = (if gas_left s < c then Inl () else Inr s1)"
      using grow_memory_eq [OF ok True n] by (simp only: Let_def w_def c_def s1_def)
    have len: "length (memory s1) = 32 * w" using w(1) True by (simp add: s1_def)
    have "grown s s1" if "\<not> gas_left s < c"
    proof -
      have "state_ok s1" using ok c w len that by (simp add: state_ok_def s1_def)
      moreover have "gas_left s - c \<le> gas_left s" using c by simp
      ultimately show ?thesis unfolding grown_def s1_def by blast
    qed
    then show ?thesis using False True o sz w(1) len
      by (simp add: get_memory_region_u64_def u n_def [symmetric] eq region_in_def Let_def)
  next
    case False
    then show ?thesis using \<open>\<not> offset > MAX_BUFFER_SIZE\<close> o sz ok
      by (simp add: get_memory_region_u64_def u n_def region_in_def Let_def)
  qed
qed (simp add: get_memory_region_u64_def)

definition opt_region_in :: "nat \<Rightarrow> nat \<Rightarrow> MemoryRegion option \<Rightarrow> ExecutionState \<Rightarrow> bool" where
  "opt_region_in offset sz r s = (case r of None \<Rightarrow> sz = 0 | Some r \<Rightarrow> 0 < sz \<and> region_in offset sz r s)"

lemma get_memory_region_spec:
  assumes ok: "state_ok s"
  shows "returns (ok_with (\<lambda>(r, s'). opt_region_in (unat offset) (unat sz) r s' \<and> grown s s'))
    (get_memory_region s offset sz)"
proof (cases "sz = 0 \<or> sz > MAX_BUFFER_SIZE")
  case True
  then show ?thesis using ok by (auto simp: get_memory_region_def opt_region_in_def)
next
  case False
  then have b: "unat sz < 2 ^ 32" "0 < unat sz" using buffer_bound [of sz] by (auto simp: unat_gt_0)
  then have u: "as_usize sz = unat sz" by (intro as_usize_small) simp
  show ?thesis using get_memory_region_u64_spec [OF ok b(1), of offset] False b(2)
    by (cases "get_memory_region_u64 s offset (unat sz)")
      (auto simp: get_memory_region_def NonZeroUsize_new_def u opt_region_in_def)
qed


lemma vcg_region_u64 [vcg]:
  assumes "state_ok s" "sz < 2 ^ 32" "R (Inl OutOfGas)"
    and "\<And>r s'. \<lbrakk>state_ok s'; message s' = message s; return_data s' = return_data s;
      stack s' = stack s; gas_left s' \<le> gas_left s; region_in (unat offset) sz r s'\<rbrakk>
      \<Longrightarrow> returns R (f (r, s'))"
  shows "returns R (try_then (map_err (\<lambda>_. OutOfGas) (get_memory_region_u64 s offset sz)) f)"
  using get_memory_region_u64_spec [OF assms(1,2), of offset] assms(3,4)
  by (cases "get_memory_region_u64 s offset sz") (auto simp: grown_simps)

lemma vcg_region [vcg]:
  assumes "state_ok s" "R (Inl ())"
    and "\<And>r s'. \<lbrakk>state_ok s'; message s' = message s; return_data s' = return_data s;
      stack s' = stack s; gas_left s' \<le> gas_left s; length (memory s) \<le> length (memory s');
      opt_region_in (unat offset) (unat sz) r s'\<rbrakk>
      \<Longrightarrow> R (Inr (r, s'))"
  shows "returns R (get_memory_region s offset sz)"
proof (rule returns_mono [OF get_memory_region_spec [OF assms(1), of offset sz]])
  fix a :: "unit + (MemoryRegion option \<times> ExecutionState)"
  assume "ok_with (\<lambda>(r, s'). opt_region_in (unat offset) (unat sz) r s' \<and> grown s s') a"
  then show "R a" using assms(2,3) by (cases a) (auto simp: grown_simps(1-7))
qed

section \<open>The instructions run\<close>

text \<open>
  Under the stack requirements of the table no instruction panics, and those that succeed keep
  the invariant of the frame.
\<close>

lemma u256_from_slice_32: "length bs \<le> 32 \<Longrightarrow> u256_from_slice bs = Some (from_be_bytes bs)"
  by (auto simp: u256_from_slice_def from_be_bytes_zeros) (simp add: from_be_bytes_def)

lemma num_words_range [simp]: "n < 2 ^ 32 \<Longrightarrow> 0 \<le> num_words n" "n < 2 ^ 32 \<Longrightarrow> num_words n \<le> 2 ^ 27"
  by (simp_all add: num_words_eq)

lemma num_words_cost [simp]: "n < 2 ^ 32 \<Longrightarrow> small_cost (num_words n * 3)"
    "n < 2 ^ 32 \<Longrightarrow> small_cost (num_words n * 6)" "n < 2 ^ 32 \<Longrightarrow> small_cost (int n * 8)"
  using num_words_range [of n] by (simp_all add: small_cost_def)

lemmas frame_simps = runs_def frame_ok_def state_ok_memory region_in_def
  region_end_def opt_region_in_def

lemma runs_sizes [step_rules]:
  assumes "state_ok s" "length (stack s) < STACK_SIZE"
  shows "returns (frame_ok 1 s) (msize s)" "returns (frame_ok 1 s) (codesize s code)"
    "returns (frame_ok 1 s) (returndatasize s)" "returns (frame_ok 1 s) (calldatasize s)"
  using assms unfolding msize_def codesize_def returndatasize_def calldatasize_def
  by (auto intro!: vcg simp: frame_simps)

lemma runs_mload [step_rules]: "state_ok s \<Longrightarrow> 1 \<le> length (stack s) \<Longrightarrow> runs 0 s (mload s)"
  using state_ok_height [of s]
  by (auto intro!: vcg simp: mload_def frame_simps u256_from_slice_32)

lemma runs_mstore [step_rules]: "state_ok s \<Longrightarrow> 2 \<le> length (stack s) \<Longrightarrow> runs (- 2) s (mstore s)"
  by (auto intro!: vcg simp: mstore_def frame_simps)

lemma runs_mstore8 [step_rules]: "state_ok s \<Longrightarrow> 2 \<le> length (stack s) \<Longrightarrow> runs (- 2) s (mstore8 s)"
  by (auto intro!: vcg simp: mstore8_def frame_simps)

lemma runs_keccak256 [step_rules]: "state_ok s \<Longrightarrow> 2 \<le> length (stack s) \<Longrightarrow> runs (- 1) s (op_keccak256 L s)"
  using state_ok_height [of s]
  by (auto intro!: vcg simp: op_keccak256_def frame_simps split: option.splits)

text \<open>
  \<open>padded_slice data i n\<close>: \<open>n\<close> bytes of \<open>data\<close> from position \<open>i\<close>, with zeros past its end. This is
  what \<open>CALLDATACOPY\<close> and \<open>CODECOPY\<close> must write, and \<open>CALLDATALOAD\<close> must read.
\<close>

definition padded_slice :: "byte list \<Rightarrow> nat \<Rightarrow> nat \<Rightarrow> byte list" where
  "padded_slice data i n = take n (drop i data) @ replicate (n - (length data - i)) 0"

definition write_at :: "memory \<Rightarrow> nat \<Rightarrow> byte list \<Rightarrow> memory" where
  "write_at m off data = take off m @ data @ drop (off + length data) m"

lemma length_padded_slice [simp]: "length (padded_slice data i n) = n"
  by (simp add: padded_slice_def)

lemma padded_slice_clamp [simp]: "padded_slice data (min (length data) i) n = padded_slice data i n"
  by (simp add: padded_slice_def min_def)

lemma length_write_at [simp]: "off + length data \<le> length m \<Longrightarrow> length (write_at m off data) = length m"
  by (simp add: write_at_def)

lemma vcg_copy_and_fill [vcg]:
  assumes "region_end r \<le> length m" "src \<le> length data" "c = min (mr_size r) (length data - src)"
    and "R (write_at m (mr_offset r) (padded_slice data src (mr_size r)))"
  shows "returns R (copy_and_fill r c data src m)"
proof -
  have "copy_and_fill r c data src m = Some (write_at m (mr_offset r) (padded_slice data src (mr_size r)))"
    using assms(1-3)
    by (auto simp: copy_and_fill_def copy_into_def fill_range_def slice_range_def region_end_def
        add.commute padded_slice_def write_at_def min_def)
  then show ?thesis using assms(4) by simp
qed

text \<open>Clamping an offset to the length of the source.\<close>

lemma unat_min: "unat (min a b :: 'a::len word) = min (unat a) (unat b)"
  by (simp add: min_def word_le_nat_alt)

lemma unat_of_nat_len: "n < 2 ^ 63 \<Longrightarrow> unat (of_nat n :: u256) = n"
  by (simp add: unat_of_nat)

lemma as_usize_clamp: "n < 2 ^ 63 \<Longrightarrow> as_usize (min (of_nat n) i) = min n (unat i)"
  by (simp add: as_usize_def unat_min unat_of_nat_len)

lemma as_usize_copy_size:
  assumes "n < 2 ^ 63"
  shows "as_usize (min sz (of_nat n - min (of_nat n) i)) = min (unat sz) (n - min n (unat i))"
proof -
  have "unat (of_nat n - min (of_nat n) i :: u256) = n - min n (unat i)"
    using assms by (subst unat_sub) (simp_all add: unat_min unat_of_nat_len)
  then show ?thesis using assms by (simp add: as_usize_def unat_min)
qed

lemma state_ok_lengths:
  assumes "state_ok s"
  shows "length (msg_input_data (message s)) < 2 ^ 63" "length (return_data s) < 2 ^ 63"
  using assms by (simp_all add: state_ok_def)

lemmas clamp_simps = as_usize_clamp as_usize_copy_size unat_of_nat_len word_less_nat_alt
  word_le_nat_alt as_usize_small

lemma clamp_bounds:
  "a + min k (n - a) \<le> n" if "a \<le> n" for a k n :: nat
  using that by arith

lemma runs_codecopy [step_rules]:
  "state_ok s \<Longrightarrow> 3 \<le> length (stack s) \<Longrightarrow> length code < 2 ^ 63 \<Longrightarrow> runs (- 3) s (codecopy s code)"
  by (auto intro!: vcg simp: codecopy_def frame_simps clamp_simps clamp_bounds split: option.splits)

lemma runs_calldatacopy [step_rules]:
  "state_ok s \<Longrightarrow> 3 \<le> length (stack s) \<Longrightarrow> runs (- 3) s (calldatacopy s)"
  using state_ok_lengths [of s]
  by (auto intro!: vcg simp: calldatacopy_def frame_simps clamp_simps clamp_bounds split: option.splits)

lemma runs_returndatacopy [step_rules]:
  "state_ok s \<Longrightarrow> 3 \<le> length (stack s) \<Longrightarrow> runs (- 3) s (returndatacopy s)"
  using state_ok_lengths [of s]
  by (auto intro!: vcg simp: returndatacopy_def frame_simps clamp_simps Let_def split: option.splits)

lemma runs_ret [step_rules]:
  "state_ok s \<Longrightarrow> 2 \<le> length (stack s) \<Longrightarrow> runs 0 s (ret s)"
  using length_ne(2) [of "stack s"]
  by (auto intro!: vcg state_ok_output simp: ret_def frame_simps split: option.splits)

lemma runs_calldataload [step_rules]:
  "state_ok s \<Longrightarrow> 1 \<le> length (stack s) \<Longrightarrow> returns (frame_ok 0 s) (calldataload s)"
  using state_ok_height [of s] state_ok_lengths [of s]
  by (auto intro!: vcg simp: calldataload_def frame_simps clamp_simps)

section \<open>What the instructions read and write\<close>

lemma state_pop_snoc: "stack s = st @ [v] \<Longrightarrow> state_pop s = Some (v, s\<lparr>stack := st\<rparr>)"
  by (simp add: state_pop_def)

lemma region_inside:
  assumes "unat offset + sz \<le> length (memory s)" "unat offset < 2 ^ 32"
  shows "get_memory_region_u64 s offset sz = Inr (\<lparr>mr_offset = unat offset, mr_size = sz\<rparr>, s)"
proof -
  have "\<not> offset > MAX_BUFFER_SIZE" using assms(2) by (simp add: MAX_BUFFER_SIZE_def word_less_nat_alt)
  then show ?thesis using assms by (simp add: get_memory_region_u64_def as_usize_small Let_def)
qed

text \<open>A load of a word that lies inside the memory costs nothing and pushes its big-endian value.\<close>

lemma mload_inside:
  assumes "stack s = st @ [index]" "length st < STACK_SIZE"
    "unat index + 32 \<le> length (memory s)" "unat index < 2 ^ 32"
  shows "mload s = Some (Inr (s\<lparr>stack := st @ [from_be_bytes (take 32 (drop (unat index) (memory s)))]\<rparr>))"
  using assms region_inside [of index 32 "s\<lparr>stack := st\<rparr>"]
  by (simp add: mload_def state_pop_snoc region_end_def slice_range_def u256_from_slice_32 state_push_def)

lemma mstore_effect:
  assumes ok: "state_ok s" and st: "stack s = st @ [v] @ [index]"
  shows "returns (ok_with (\<lambda>s'. stack s' = st \<and> unat index < 2 ^ 32 \<and> unat index + 32 \<le> length (memory s')
      \<and> state_ok s' \<and> take 32 (drop (unat index) (memory s')) = to_be_bytes v
      \<and> (\<forall>i < length (memory s). i < unat index \<or> unat index + 32 \<le> i \<longrightarrow> memory s' ! i = memory s ! i)))
    (mstore s)"
proof -
  define s2 where "s2 = s\<lparr>stack := st\<rparr>"
  have s2: "state_ok s2" using ok by (simp add: s2_def state_ok_def st)
  show ?thesis
  proof (cases "get_memory_region_u64 s2 index 32")
    case (Inl e)
    then show ?thesis by (simp add: mstore_def state_pop_snoc st s2_def)
  next
    case (Inr x)
    obtain r s' where x: "x = (r, s')" by (cases x)
    have g: "region_in (unat index) 32 r s'" "grown s2 s'"
      using get_memory_region_u64_spec [OF s2, of 32 index] Inr x by simp_all
    have "unat index < 2 ^ 32"
      using Inr buffer_bound [of index] by (cases "index > MAX_BUFFER_SIZE") (simp_all add: get_memory_region_u64_def)
    moreover have "memory s' ! i = memory s ! i" if "i < length (memory s)" for i
      using grown_simps(8) [OF g(2)] that by (simp add: s2_def nth_append split: if_splits) (metis nth_append)
    ultimately show ?thesis using g Inr x grown_simps [OF g(2)]
      by (auto simp: mstore_def state_pop_snoc st s2_def region_in_def copy_into_def
          state_ok_memory nth_append)
  qed
qed

lemma vcg_region_grown:
  assumes "state_ok s" "R (Inl ())"
    and "\<And>r s' k. \<lbrakk>state_ok s'; message s' = message s; return_data s' = return_data s;
      stack s' = stack s; memory s' = memory s @ replicate k 0;
      opt_region_in (unat offset) (unat sz) r s'\<rbrakk> \<Longrightarrow> R (Inr (r, s'))"
  shows "returns R (get_memory_region s offset sz)"
proof (rule returns_mono [OF get_memory_region_spec [OF assms(1), of offset sz]])
  fix a :: "unit + (MemoryRegion option \<times> ExecutionState)"
  assume "ok_with (\<lambda>(r, s'). opt_region_in (unat offset) (unat sz) r s' \<and> grown s s') a"
  then show "R a"
  proof (cases a)
    case (Inr p)
    moreover obtain r s' where "p = (r, s')" by (cases p)
    ultimately have "opt_region_in (unat offset) (unat sz) r s'" "grown s s'" "a = Inr (r, s')"
      using \<open>ok_with _ a\<close> by simp_all
    then show ?thesis using grown_simps [of s s'] assms(3) by blast
  qed (use assms(2) in simp)
qed

text \<open>
  The effect of a copy: the operands are gone, and the memory, grown as needed, holds the given
  bytes at the destination and is otherwise unchanged.
\<close>

definition copied :: "ExecutionState \<Rightarrow> stack \<Rightarrow> nat \<Rightarrow> byte list \<Rightarrow> ExecutionState \<Rightarrow> bool" where
  "copied s st off data s' \<longleftrightarrow> stack s' = st \<and> length (memory s) \<le> length (memory s')
     \<and> off + length data \<le> length (memory s')
     \<and> memory s' = write_at (memory s @ replicate (length (memory s') - length (memory s)) 0) off data"

lemmas effect_simps = state_pop_snoc clamp_simps opt_region_in_def region_in_def region_end_def
  copied_def

lemma pops_ok: "state_ok s \<Longrightarrow> stack s = st @ xs \<Longrightarrow> state_ok (s\<lparr>stack := st\<rparr>)"
  by (simp add: state_ok_def)

lemma returns_copy_write:
  "returns Q (copy_into v a b src) = (a \<le> b \<and> b \<le> length v \<and> length src = b - a \<and> Q (write_at v a src))"
  by (auto simp: write_at_def)

lemma calldatacopy_effect:
  assumes "state_ok s" "stack s = st @ [n] @ [i] @ [d]" "n \<noteq> 0"
  shows "returns (ok_with (copied s st (unat d)
      (padded_slice (msg_input_data (message s)) (unat i) (unat n)))) (calldatacopy s)"
  using assms state_ok_lengths(1) [OF assms(1)] unat_gt_0 [of n]
  by (auto intro!: vcg_region_grown pops_ok [OF assms(1,2)] vcg_charge vcg_copy_and_fill
      simp: calldatacopy_def effect_simps split: option.splits)

lemma codecopy_effect:
  assumes "state_ok s" "stack s = st @ [n] @ [i] @ [d]" "n \<noteq> 0" "length code < 2 ^ 63"
  shows "returns (ok_with (copied s st (unat d) (padded_slice code (unat i) (unat n)))) (codecopy s code)"
  using assms unat_gt_0 [of n]
  by (auto intro!: vcg_region_grown pops_ok [OF assms(1,2)] vcg_charge vcg_copy_and_fill
      simp: codecopy_def effect_simps split: option.splits)

text \<open>\<open>RETURNDATACOPY\<close> does not pad: a range past the end of the return data is an error.\<close>

lemma returndatacopy_effect:
  assumes "state_ok s" "stack s = st @ [n] @ [i] @ [d]" "n \<noteq> 0"
  shows "returns (\<lambda>r. case r of Inl e \<Rightarrow> e = OutOfGas \<or>
        e = InvalidMemoryAccess \<and> length (return_data s) < unat i + unat n
      | Inr s' \<Rightarrow> unat i + unat n \<le> length (return_data s) \<and>
          copied s st (unat d) (take (unat n) (drop (unat i) (return_data s))) s') (returndatacopy s)"
  using assms state_ok_lengths(2) [OF assms(1)] unat_gt_0 [of n]
  by (auto intro!: vcg_region_grown pops_ok [OF assms(1,2)] vcg_charge
      simp: returndatacopy_def effect_simps Let_def returns_copy_write split: option.splits simp del: returns_copy_into)

lemma padded_slice_word:
  "i \<le> length d \<Longrightarrow> take (min (i + 32) (length d) - i) (drop i d)
     @ replicate (32 + i - min (i + 32) (length d)) 0 = padded_slice d i 32"
  by (auto simp: min_def padded_slice_def)

lemma padded_slice_past: "length d < i \<Longrightarrow> from_be_bytes (padded_slice d i n) = 0"
  using from_be_bytes_zeros [of n "[]"] by (simp add: padded_slice_def) (simp add: from_be_bytes_def)

lemma calldataload_effect:
  assumes "state_ok s" "stack s = st @ [i]"
  shows "calldataload s =
    Some (s\<lparr>stack := st @ [from_be_bytes (padded_slice (msg_input_data (message s)) (unat i) 32)]\<rparr>)"
  using assms state_ok_lengths(1) [OF assms(1)] state_ok_height [OF assms(1)]
  by (auto simp: calldataload_def effect_simps state_push_def slice_range_def copy_into_def
      padded_slice_word padded_slice_past Let_def)

section \<open>Properties\<close>

text \<open>Growing the memory to cover \<open>n\<close> bytes rounds \<open>n\<close> up to words, charges the difference of the
  quadratic memory cost between the new and the old number of words, fails exactly when the frame
  has less gas than that, and appends zeros. The \<open>i64\<close> arithmetic of the source does not wrap below
  the limit.\<close>

theorem memory_growth_cost:
  assumes "state_ok s" "length (memory s) < n" "n \<le> MEMORY_LIMIT"
  shows "grow_memory s n =
    (let w = (n + 31) div 32; c = memory_cost w - memory_cost (length (memory s) div 32)
     in if gas_left s < c then Inl ()
        else Inr (s\<lparr>gas_left := gas_left s - c,
                   memory := memory s @ replicate (32 * w - length (memory s)) 0\<rparr>))"
  using assms by (rule grow_memory_eq)

theorem memory_growth_cost_witness:
  "grow_memory (sample_state []) 33
     = Inr ((sample_state [])\<lparr>gas_left := 99994, memory := replicate 64 0\<rparr>)"
  using memory_growth_cost [of "sample_state []" 33]
  by (simp add: sample_state_ok STACK_SIZE_def MEMORY_LIMIT_def memory_cost_def)
    (simp add: sample_state_def sample_message_def ExecutionState_new_def)

text \<open>A word stored by \<open>MSTORE\<close> is what \<open>MLOAD\<close> at the same offset reads back, at no further memory
  charge, and the bytes outside the 32 written ones are unchanged.\<close>

theorem mstore_mload_roundtrip:
  assumes "state_ok s" "stack s = st @ [v] @ [index]" "mstore s = Some (Inr s')"
  shows "mload (s'\<lparr>stack := st @ [index]\<rparr>) = Some (Inr (s'\<lparr>stack := st @ [v]\<rparr>))
    \<and> (\<forall>i < length (memory s). i < unat index \<or> unat index + 32 \<le> i \<longrightarrow> memory s' ! i = memory s ! i)"
proof -
  have "length st < STACK_SIZE" using assms(1,2) by (simp add: state_ok_def)
  then show ?thesis
    using mstore_effect [OF assms(1,2)] assms(3) mload_inside [of "s'\<lparr>stack := st @ [index]\<rparr>" st index]
    by simp
qed

theorem mstore_mload_roundtrip_witness:
  "\<exists>s'. mstore ((sample_state [7, 0])\<lparr>memory := replicate 32 0\<rparr>) = Some (Inr s')
     \<and> mload (s'\<lparr>stack := [0]\<rparr>) = Some (Inr (s'\<lparr>stack := [7]\<rparr>))"
proof -
  define s where "s = (sample_state [7, 0])\<lparr>memory := replicate 32 0\<rparr>"
  have s: "state_ok s" "stack s = [] @ [7] @ [0]" "length (memory s) = 32"
    using sample_state_ok [of "[7, 0]"] by (simp_all add: s_def state_ok_def STACK_SIZE_def MEMORY_LIMIT_def)
      (simp add: sample_state_def)
  have "\<exists>s'. mstore s = Some (Inr s')"
    using s by (simp add: mstore_def state_pop_def stack_pop_def region_inside try_then_def map_err_def copy_into_def region_end_def)
  then show ?thesis using mstore_mload_roundtrip [OF s(1,2)] unfolding s_def by auto
qed

text \<open>The three copy instructions write, at the destination, the source bytes from the given offset
  on, padded with zeros past the end of the call data or the code, and leave the rest of the
  (grown) memory alone. \<open>RETURNDATACOPY\<close> does not pad: it fails when the range passes the end of
  the return data.\<close>

theorem copy_instructions:
  assumes "state_ok s" "stack s = st @ [n] @ [i] @ [d]" "n \<noteq> 0" "length c < 2 ^ 63"
  shows "returns (ok_with (copied s st (unat d)
        (padded_slice (msg_input_data (message s)) (unat i) (unat n)))) (calldatacopy s)
    \<and> returns (ok_with (copied s st (unat d) (padded_slice c (unat i) (unat n)))) (codecopy s c)
    \<and> returns (\<lambda>r. case r of Inl e \<Rightarrow> e = OutOfGas \<or>
        e = InvalidMemoryAccess \<and> length (return_data s) < unat i + unat n
      | Inr s' \<Rightarrow> unat i + unat n \<le> length (return_data s) \<and>
          copied s st (unat d) (take (unat n) (drop (unat i) (return_data s))) s') (returndatacopy s)"
  by (intro conjI calldatacopy_effect codecopy_effect returndatacopy_effect assms)

theorem copy_instructions_witness:
  "returns (ok_with (copied (sample_state [4, 1, 0]) [] 0 (padded_slice [1, 2, 3] 1 4)))
     (calldatacopy (sample_state [4, 1, 0]))"
proof -
  have "state_ok (sample_state [4, 1, 0])" "stack (sample_state [4, 1, 0]) = [] @ [4] @ [1] @ [0]"
    by (simp_all add: sample_state_ok STACK_SIZE_def) (simp add: sample_state_def)
  from copy_instructions [OF this, of "[]"] show ?thesis
    by (simp add: sample_state_def ExecutionState_new_def sample_message_def)
qed

text \<open>\<open>CALLDATALOAD\<close> reads 32 bytes of the call data from any 256-bit offset, as a big-endian word,
  and reads zeros past the end.\<close>

theorem calldataload_reads:
  assumes "state_ok s" "stack s = st @ [i]"
  shows "calldataload s =
    Some (s\<lparr>stack := st @ [from_be_bytes (padded_slice (msg_input_data (message s)) (unat i) 32)]\<rparr>)"
  using assms by (rule calldataload_effect)

theorem calldataload_reads_witness:
  "calldataload (sample_state [0])
     = Some ((sample_state [])\<lparr>stack := [from_be_bytes (1 # 2 # 3 # replicate 29 0)]\<rparr>)"
  using calldataload_reads [of "sample_state [0]" "[]" 0]
  by (simp add: sample_state_ok STACK_SIZE_def) (simp add: sample_state_def ExecutionState_new_def
      sample_message_def padded_slice_def)

end
