(* ===== verification/InstrExternal.thy ===== *)
theory InstrExternal
  imports InstrMemory
begin

text \<open>
  The instructions that talk to the host: \<open>instructions/external.rs\<close> and the macros
  \<open>extcodecopy!\<close> and \<open>extcodehash!\<close> of \<open>instructions/memory.rs\<close>.

  A host instruction returns the host state on both branches, because effects on the host that
  precede an error are visible to the caller of the interpreter. The locale \<open>host_contract\<close>
  states what the interpreter relies on of a \<open>Host\<close>; the safety of the instructions is proved
  inside it, and the implementation of the trait in \<open>evmglue.rs\<close> interprets it.
\<close>

type_synonym 'h instr = "ExecutionState \<Rightarrow> 'h \<Rightarrow> ((StatusCode + ExecutionState) \<times> 'h) option"

section \<open>Instructions\<close>

definition op_address :: "ExecutionState \<Rightarrow> ExecutionState option" where
  "op_address state = state_push (address_to_u256 (msg_recipient (message state))) state"

definition op_caller :: "ExecutionState \<Rightarrow> ExecutionState option" where
  "op_caller state = state_push (address_to_u256 (msg_sender (message state))) state"

definition op_callvalue :: "ExecutionState \<Rightarrow> ExecutionState option" where
  "op_callvalue state = state_push (msg_value (message state)) state"

text \<open>
  From Berlin on the first access to an account is charged: the block
  \<open>if rev >= Berlin { if host.access_account(a) == Cold { gas_left -= c; ... } }\<close>
  that the macros repeat.
\<close>

definition charge_cold_account ::
  "'h Host \<Rightarrow> Revision \<Rightarrow> address \<Rightarrow> int \<Rightarrow> 'h instr" where
  "charge_cold_account H revision addr c state h =
     (if revision \<ge> Berlin then do {
        (access, h) \<leftarrow> access_account H h addr;
        Some (if access = Cold then charge c state else Inr state, h) }
      else Some (Inr state, h))"

definition op_balance :: "'h Host \<Rightarrow> Revision \<Rightarrow> 'h instr" where
  "op_balance H revision state h = do {
     (a, state) \<leftarrow> state_pop state;
     let addr = u256_to_address a;
     r \<leftarrow> charge_cold_account H revision addr ADDITIONAL_COLD_ACCOUNT_ACCESS_COST state h;
     try_host r (\<lambda>state h. do {
       (v, h) \<leftarrow> get_balance H h addr;
       state \<leftarrow> state_push v state;
       Some (Inr state, h) }) }"

definition op_extcodesize :: "'h Host \<Rightarrow> Revision \<Rightarrow> 'h instr" where
  "op_extcodesize H revision state h = do {
     (a, state) \<leftarrow> state_pop state;
     let addr = u256_to_address a;
     r \<leftarrow> charge_cold_account H revision addr ADDITIONAL_COLD_ACCOUNT_ACCESS_COST state h;
     try_host r (\<lambda>state h. do {
       (v, h) \<leftarrow> get_code_size H h addr;
       state \<leftarrow> state_push v state;
       Some (Inr state, h) }) }"

definition op_extcodehash :: "'h Host \<Rightarrow> Revision \<Rightarrow> 'h instr" where
  "op_extcodehash H revision state h = do {
     (a, state) \<leftarrow> state_pop state;
     let addr = u256_to_address a;
     r \<leftarrow> charge_cold_account H revision addr ADDITIONAL_COLD_ACCOUNT_ACCESS_COST state h;
     try_host r (\<lambda>state h. do {
       (v, h) \<leftarrow> get_code_hash H h addr;
       state \<leftarrow> state_push v state;
       Some (Inr state, h) }) }"

definition push_txcontext :: "'h Host \<Rightarrow> (TxContext \<Rightarrow> u256) \<Rightarrow> 'h instr" where
  "push_txcontext H accessor state h = do {
     (tx, h) \<leftarrow> get_tx_context H h;
     state \<leftarrow> state_push (accessor tx) state;
     Some (Inr state, h) }"

definition origin_accessor :: "TxContext \<Rightarrow> u256" where
  "origin_accessor tx = address_to_u256 (tx_origin tx)"

definition coinbase_accessor :: "TxContext \<Rightarrow> u256" where
  "coinbase_accessor tx = address_to_u256 (block_coinbase tx)"

definition gasprice_accessor :: "TxContext \<Rightarrow> u256" where
  "gasprice_accessor tx = tx_gas_price tx"

definition timestamp_accessor :: "TxContext \<Rightarrow> u256" where
  "timestamp_accessor tx = ucast (block_timestamp tx)"

definition number_accessor :: "TxContext \<Rightarrow> u256" where
  "number_accessor tx = ucast (block_number tx)"

definition gaslimit_accessor :: "TxContext \<Rightarrow> u256" where
  "gaslimit_accessor tx = ucast (block_gas_limit tx)"

definition difficulty_accessor :: "TxContext \<Rightarrow> u256" where
  "difficulty_accessor tx = block_difficulty tx"

definition chainid_accessor :: "TxContext \<Rightarrow> u256" where
  "chainid_accessor tx = chain_id tx"

definition basefee_accessor :: "TxContext \<Rightarrow> u256" where
  "basefee_accessor tx = block_base_fee tx"

definition op_selfbalance :: "'h Host \<Rightarrow> 'h instr" where
  "op_selfbalance H state h = do {
     (v, h) \<leftarrow> get_balance H h (msg_recipient (message state));
     state \<leftarrow> state_push v state;
     Some (Inr state, h) }"

definition op_blockhash :: "'h Host \<Rightarrow> 'h instr" where
  "op_blockhash H state h = do {
     (number, state) \<leftarrow> state_pop state;
     (tx, h) \<leftarrow> get_tx_context H h;
     let upper_bound = block_number tx;
     let lower_bound = (if upper_bound < 256 then 0 else upper_bound - 256);
     (header, h) \<leftarrow>
       (if number \<le> 2 ^ 64 - 1 then do {
          let n = (ucast number :: u64);
          if lower_bound \<le> n \<and> n < upper_bound then get_block_hash H h n else Some (0, h) }
        else Some (0, h));
     state \<leftarrow> state_push header state;
     Some (Inr state, h) }"

text \<open>The \<open>for\<close> loop that pops the topics into an \<open>ArrayVec\<close> of capacity 4.\<close>

fun pop_topics :: "nat \<Rightarrow> u256 list \<Rightarrow> ExecutionState \<Rightarrow> (u256 list \<times> ExecutionState) option" where
  "pop_topics 0 topics state = Some (topics, state)"
| "pop_topics (Suc n) topics state = do {
     (t, state) \<leftarrow> state_pop state;
     if length topics < 4 then pop_topics n (topics @ [t]) state else None }"

definition do_log :: "'h Host \<Rightarrow> nat \<Rightarrow> 'h instr" where
  "do_log H num_topics state h =
     (if msg_is_static (message state) then Some (Inl StaticModeViolation, h)
      else do {
        (offset, state) \<leftarrow> state_pop state;
        (sz, state) \<leftarrow> state_pop state;
        r \<leftarrow> get_memory_region state offset sz;
        try_host (map_err (\<lambda>_. OutOfGas) r, h) (\<lambda>(region, state) h.
          try_host
            (case region of None \<Rightarrow> Inr state | Some region \<Rightarrow> charge (int (mr_size region) * 8) state, h)
            (\<lambda>state h. do {
               (topics, state) \<leftarrow> pop_topics num_topics [] state;
               data \<leftarrow> (case region of
                         Some region \<Rightarrow> slice_range (memory state) (mr_offset region) (region_end region)
                       | None \<Rightarrow> Some []);
               h \<leftarrow> emit_log H h (msg_recipient (message state)) data topics;
               Some (Inr state, h) })) })"

definition op_sload :: "'h Host \<Rightarrow> Revision \<Rightarrow> 'h instr" where
  "op_sload H revision state h = do {
     (location, state) \<leftarrow> state_pop state;
     r \<leftarrow> (if revision \<ge> Berlin then do {
              (access, h) \<leftarrow> access_storage H h (msg_recipient (message state)) location;
              Some (if access = Cold then charge (COLD_SLOAD_COST - WARM_STORAGE_READ_COST) state
                    else Inr state, h) }
            else Some (Inr state, h));
     try_host r (\<lambda>state h. do {
       (v, h) \<leftarrow> get_storage H h (msg_recipient (message state)) location;
       state \<leftarrow> state_push v state;
       Some (Inr state, h) }) }"

text \<open>The cost of a store by its effect; \<open>cost\<close> is the surcharge of a cold slot.\<close>

definition sstore_cost :: "Revision \<Rightarrow> StorageStatus \<Rightarrow> int \<Rightarrow> int" where
  "sstore_cost revision status cost = (case status of
       Unchanged \<Rightarrow> (if revision \<ge> Berlin then cost + WARM_STORAGE_READ_COST
                    else if revision = Istanbul then 800
                    else if revision = Constantinople then 200 else 5000)
     | ModifiedAgain \<Rightarrow> (if revision \<ge> Berlin then cost + WARM_STORAGE_READ_COST
                    else if revision = Istanbul then 800
                    else if revision = Constantinople then 200 else 5000)
     | Modified \<Rightarrow> (if revision \<ge> Berlin then cost + 5000 - COLD_SLOAD_COST else 5000)
     | Deleted \<Rightarrow> (if revision \<ge> Berlin then cost + 5000 - COLD_SLOAD_COST else 5000)
     | Added \<Rightarrow> cost + 20000)"

definition op_sstore :: "'h Host \<Rightarrow> Revision \<Rightarrow> 'h instr" where
  "op_sstore H revision state h =
     (if msg_is_static (message state) then Some (Inl StaticModeViolation, h)
      else if revision \<ge> Istanbul \<and> gas_left state \<le> 2300 then Some (Inl OutOfGas, h)
      else do {
        (location, state) \<leftarrow> state_pop state;
        (v, state) \<leftarrow> state_pop state;
        let recipient = msg_recipient (message state);
        (cost, h) \<leftarrow> (if revision \<ge> Berlin then do {
                       (access, h) \<leftarrow> access_storage H h recipient location;
                       Some (if access = Cold then COLD_SLOAD_COST else 0, h) }
                     else Some (0, h));
        (status, h) \<leftarrow> set_storage H h recipient location v;
        Some (charge (sstore_cost revision status cost) state, h) })"

definition op_selfdestruct :: "'h Host \<Rightarrow> Revision \<Rightarrow> 'h instr" where
  "op_selfdestruct H revision state h =
     (if msg_is_static (message state) then Some (Inl StaticModeViolation, h)
      else do {
        (a, state) \<leftarrow> state_pop state;
        let beneficiary = u256_to_address a;
        r \<leftarrow> charge_cold_account H revision beneficiary COLD_ACCOUNT_ACCESS_COST state h;
        try_host r (\<lambda>state h. do {
          let recipient = msg_recipient (message state);
          r \<leftarrow> (if revision \<ge> Tangerine then do {
                   (pays, h) \<leftarrow> (if revision = Tangerine then Some (True, h)
                                else do { (b, h) \<leftarrow> get_balance H h recipient; Some (b \<noteq> 0, h) });
                   if pays then do {
                     (ex, h) \<leftarrow> account_exists H h beneficiary;
                     Some (if \<not> ex then charge 25000 state else Inr state, h) }
                   else Some (Inr state, h) }
                 else Some (Inr state, h));
          try_host r (\<lambda>state h. do {
            h \<leftarrow> selfdestruct H h recipient beneficiary;
            Some (Inr state, h) }) }) })"

definition op_extcodecopy :: "'h Host \<Rightarrow> Revision \<Rightarrow> 'h instr" where
  "op_extcodecopy H revision state h = do {
     (a, state) \<leftarrow> state_pop state;
     let addr = u256_to_address a;
     (mem_index, state) \<leftarrow> state_pop state;
     (input_index, state) \<leftarrow> state_pop state;
     (sz, state) \<leftarrow> state_pop state;
     r \<leftarrow> get_memory_region state mem_index sz;
     try_host (map_err (\<lambda>_. OutOfGas) r, h) (\<lambda>(region, state) h.
       try_host
         (case region of None \<Rightarrow> Inr state | Some region \<Rightarrow> charge (num_words (mr_size region) * 3) state, h)
         (\<lambda>state h. do {
            r \<leftarrow> charge_cold_account H revision addr ADDITIONAL_COLD_ACCOUNT_ACCESS_COST state h;
            try_host r (\<lambda>state h.
              case region of
                None \<Rightarrow> Some (Inr state, h)
              | Some region \<Rightarrow> do {
                  let src = as_usize (min MAX_BUFFER_SIZE input_index);
                  ((copied, code), h) \<leftarrow> copy_code H h addr src (replicate (mr_size region) 0);
                  let code = take copied code;
                  m \<leftarrow> copy_into (memory state) (mr_offset region) (mr_offset region + length code) code;
                  m \<leftarrow> (if mr_size region > length code
                        then fill_range m (mr_offset region + length code) (region_end region) 0 else Some m);
                  Some (Inr (state\<lparr>memory := m\<rparr>), h) }) })) }"

section \<open>Charges on the way to the host\<close>

lemma charge_cases:
  assumes "state_ok s" "small_cost c"
  obtains "charge c s = Inl OutOfGas"
  | s' where "charge c s = Inr s'" "state_ok s'" "message s' = message s" "return_data s' = return_data s"
      "memory s' = memory s" "stack s' = stack s" "gas_left s' + c \<le> gas_left s" "gas_left s' \<le> gas_left s"
proof (cases "gas_left s < c")
  case False
  then show ?thesis using assms that(2) [of "s\<lparr>gas_left := gas_left s - c\<rparr>"]
    by (simp add: charge_ok state_ok_def small_cost_def)
qed (use assms that(1) in \<open>simp add: charge_ok state_ok_def small_cost_def\<close>)

lemma small_access_costs [simp]: "small_cost ADDITIONAL_COLD_ACCOUNT_ACCESS_COST"
    "small_cost COLD_ACCOUNT_ACCESS_COST" "small_cost (COLD_SLOAD_COST - WARM_STORAGE_READ_COST)"
  by (simp_all add: access_costs small_cost_def)

lemma vcg_charge_host [vcg]:
  assumes "state_ok s" "small_cost c" "R (Inl OutOfGas, h)"
    and "\<And>s'. \<lbrakk>state_ok s'; message s' = message s; return_data s' = return_data s;
      memory s' = memory s; stack s' = stack s; gas_left s' + c \<le> gas_left s; gas_left s' \<le> gas_left s\<rbrakk>
      \<Longrightarrow> returns R (f s' h)"
  shows "returns R (try_host (charge c s, h) f)"
  using assms(1,2) by (cases rule: charge_cases) (use assms(3,4) in simp_all)

lemma vcg_charge_result [vcg]:
  assumes "state_ok s" "small_cost c" "I h"
    and "\<And>s'. \<lbrakk>state_ok s'; message s' = message s; return_data s' = return_data s;
      memory s' = memory s; stack s' = stack s; gas_left s' + c \<le> gas_left s; gas_left s' \<le> gas_left s\<rbrakk>
      \<Longrightarrow> Q s' h"
  shows "ok_host I Q (charge c s, h)"
  using assms(1,2) by (cases rule: charge_cases) (use assms(3,4) in simp_all)

lemma sstore_cost_range:
  assumes "cost = 0 \<or> cost = COLD_SLOAD_COST"
  shows "0 < sstore_cost r st cost" "small_cost (sstore_cost r st cost)"
  using assms by (auto simp: sstore_cost_def access_costs small_cost_def split: StorageStatus.splits)

lemmas sstore_cost_simps [simp] = sstore_cost_range [OF disjI1 [OF refl]]
  sstore_cost_range [OF disjI2 [OF refl]]

lemma sstore_paid: "g + sstore_cost r st 0 \<le> g' \<Longrightarrow> g < g'"
    "g + sstore_cost r st COLD_SLOAD_COST \<le> g' \<Longrightarrow> g < g'"
  using sstore_cost_simps(1) [of r st] sstore_cost_simps(3) [of r st] by linarith+

lemma vcg_pop_topics [vcg]:
  assumes "state_ok s" "n \<le> length (stack s)" "length topics + n \<le> 4"
    and "\<And>ts s'. \<lbrakk>state_ok s'; message s' = message s; return_data s' = return_data s;
      memory s' = memory s; gas_left s' = gas_left s; length (stack s) = length (stack s') + n\<rbrakk>
      \<Longrightarrow> R (ts, s')"
  shows "returns R (pop_topics n topics s)"
  using assms
proof (induction n arbitrary: topics s)
  case (Suc n)
  then show ?case by (auto intro!: vcg_pop Suc.IH)
qed simp

lemma log_cost [simp]: "unat (n :: u256) < 2 ^ 32 \<Longrightarrow> small_cost (uint n * 8)"
  using num_words_cost(3) [of "unat n"] by simp

section \<open>What the interpreter relies on of a host\<close>

lemma blockhash_window:
  assumes "m < 256 \<or> m - 256 \<le> n" shows "unat m - unat (n :: u64) \<le> 256"
proof (cases "m < 256")
  case False
  then have "unat (m - 256) = unat m - 256" by (subst unat_sub) (simp_all add: not_less)
  then show ?thesis using assms False by (simp add: word_le_nat_alt)
qed (simp add: word_less_nat_alt)

text \<open>
  A message the interpreter sends: its gas is a non-negative \<open>i64\<close> and its depth is legal.
  \<open>D\<close> is the least depth the host must answer at.
\<close>

definition message_ok :: "int \<Rightarrow> InterpreterMessage \<Rightarrow> bool" where
  "message_ok D m \<longleftrightarrow> 0 \<le> msg_gas m \<and> msg_gas m < 2 ^ 63 \<and> D \<le> msg_depth m \<and> 0 \<le> msg_depth m
     \<and> msg_depth m \<le> 1024 \<and> length (msg_input_data m) < 2 ^ 63"

text \<open>
  What a call gives back: no more gas than was sent, an output Rust can allocate, and an address
  when a creation succeeded.
\<close>

definition answer_ok :: "HostCall \<Rightarrow> Output \<Rightarrow> bool" where
  "answer_ok c out \<longleftrightarrow> 0 \<le> out_gas_left out \<and> out_gas_left out \<le> msg_gas (call_to_interpreter c)
     \<and> length (out_output_data out) < 2 ^ 63
     \<and> (case c of CreateMsg _ \<Rightarrow> out_status_code out = Success \<longrightarrow> out_create_address out \<noteq> None
        | CallMsg _ \<Rightarrow> True)"

text \<open>
  The contract. \<open>N\<close> is the number of the block: a block hash is only asked for the 256 blocks before
  it. \<open>S\<close> says that only static frames run on the host: then nothing is promised of the operations
  that write, and no creation and no call that is not static is made.
\<close>

definition static_call :: "HostCall \<Rightarrow> bool" where
  "static_call c = (case c of CallMsg m \<Rightarrow> msg_is_static m | CreateMsg _ \<Rightarrow> False)"

locale host_contract =
  fixes H :: "'h Host" and I :: "'h \<Rightarrow> bool" and D :: int and N :: u64 and S :: bool
  assumes account_exists_ok: "I h \<Longrightarrow> returns (\<lambda>(_, h'). I h') (account_exists H h a)"
    and get_storage_ok: "I h \<Longrightarrow> returns (\<lambda>(_, h'). I h') (get_storage H h a k)"
    and set_storage_ok: "\<not> S \<Longrightarrow> I h \<Longrightarrow> returns (\<lambda>(_, h'). I h') (set_storage H h a k v)"
    and get_balance_ok: "I h \<Longrightarrow> returns (\<lambda>(_, h'). I h') (get_balance H h a)"
    and get_code_size_ok: "I h \<Longrightarrow> returns (\<lambda>(_, h'). I h') (get_code_size H h a)"
    and get_code_hash_ok: "I h \<Longrightarrow> returns (\<lambda>(_, h'). I h') (get_code_hash H h a)"
    and copy_code_ok: "I h \<Longrightarrow> returns (\<lambda>((n, buf'), h'). n \<le> length buf \<and> length buf' = length buf \<and> I h')
      (copy_code H h a off buf)"
    and selfdestruct_ok: "\<not> S \<Longrightarrow> I h \<Longrightarrow> returns I (selfdestruct H h a b)"
    and call_ok: "I h \<Longrightarrow> message_ok D (call_to_interpreter c) \<Longrightarrow> (S \<longrightarrow> static_call c)
      \<Longrightarrow> returns (\<lambda>(out, h'). I h' \<and> answer_ok c out) (call H h c)"
    and get_tx_context_ok: "I h \<Longrightarrow> returns (\<lambda>(tx, h'). block_number tx = N \<and> I h') (get_tx_context H h)"
    and get_block_hash_ok: "I h \<Longrightarrow> n < N \<Longrightarrow> unat N - unat n \<le> 256 \<Longrightarrow> returns (\<lambda>(_, h'). I h') (get_block_hash H h n)"
    and emit_log_ok: "\<not> S \<Longrightarrow> I h \<Longrightarrow> returns I (emit_log H h a data topics)"
    and access_account_ok: "I h \<Longrightarrow> returns (\<lambda>(_, h'). I h') (access_account H h a)"
    and access_storage_ok: "I h \<Longrightarrow> returns (\<lambda>(_, h'). I h') (access_storage H h a k)"
begin

lemma host_read:
  assumes "returns (\<lambda>(_, h'). I h') m" "\<And>v h'. I h' \<Longrightarrow> R (v, h')"
  shows "returns R m"
  by (rule returns_mono [OF assms(1)]) (use assms(2) in auto)

lemmas host_vcg [vcg] = host_read [OF account_exists_ok] host_read [OF get_storage_ok]
  host_read [OF set_storage_ok] host_read [OF get_balance_ok] host_read [OF get_code_size_ok]
  host_read [OF get_code_hash_ok] host_read [OF get_block_hash_ok]
  host_read [OF access_account_ok] host_read [OF access_storage_ok]

lemma vcg_tx_context [vcg]:
  assumes "I h" "\<And>tx h'. I h' \<Longrightarrow> block_number tx = N \<Longrightarrow> R (tx, h')"
  shows "returns R (get_tx_context H h)"
  by (rule returns_mono [OF get_tx_context_ok [OF assms(1)]]) (use assms(2) in auto)

lemma vcg_selfdestruct [vcg]: "\<not> S \<Longrightarrow> I h \<Longrightarrow> (\<And>h'. I h' \<Longrightarrow> R h') \<Longrightarrow> returns R (selfdestruct H h a b)"
  using selfdestruct_ok by (rule returns_mono)

lemma vcg_emit_log [vcg]: "\<not> S \<Longrightarrow> I h \<Longrightarrow> (\<And>h'. I h' \<Longrightarrow> R h') \<Longrightarrow> returns R (emit_log H h a data topics)"
  using emit_log_ok by (rule returns_mono)

lemma vcg_copy_code [vcg]:
  assumes "I h" "\<And>n buf' h'. I h' \<Longrightarrow> n \<le> length buf \<Longrightarrow> length buf' = length buf \<Longrightarrow> R ((n, buf'), h')"
  shows "returns R (copy_code H h a off buf)"
  by (rule returns_mono [OF copy_code_ok [OF assms(1)]]) (use assms(2) in auto)

lemma vcg_call:
  assumes "I h" "message_ok D (call_to_interpreter c)" "S \<longrightarrow> static_call c"
    "\<And>out h'. I h' \<Longrightarrow> answer_ok c out \<Longrightarrow> R (out, h')"
  shows "returns R (call H h c)"
  by (rule returns_mono [OF call_ok [OF assms(1-3)]]) (use assms(4) in auto)

lemma vcg_cold_account [vcg]:
  assumes "state_ok s" "I h" "small_cost c" "\<And>h'. I h' \<Longrightarrow> R (Inl OutOfGas, h')"
    and "\<And>s' h'. \<lbrakk>I h'; state_ok s'; message s' = message s; return_data s' = return_data s;
      memory s' = memory s; stack s' = stack s; gas_left s' \<le> gas_left s\<rbrakk> \<Longrightarrow> R (Inr s', h')"
  shows "returns R (charge_cold_account H revision a c s h)"
  using assms(1,3)
proof (cases rule: charge_cases)
  case 1
  then show ?thesis unfolding charge_cold_account_def using assms by (auto intro!: vcg)
next
  case (2 s')
  then show ?thesis unfolding charge_cold_account_def using assms(1,2) assms(5)
    by (auto intro!: vcg assms(5))
qed

lemmas host_simps = runs_host_def frame_ok_def state_ok_memory region_in_def region_end_def
  opt_region_in_def

lemma runs_balance: "state_ok s \<Longrightarrow> I h \<Longrightarrow> 1 \<le> length (stack s) \<Longrightarrow> runs_host I 0 s (op_balance H r s h)"
  using state_ok_height [of s] by (auto intro!: vcg simp: op_balance_def host_simps)

lemma runs_extcodesize: "state_ok s \<Longrightarrow> I h \<Longrightarrow> 1 \<le> length (stack s) \<Longrightarrow> runs_host I 0 s (op_extcodesize H r s h)"
  using state_ok_height [of s] by (auto intro!: vcg simp: op_extcodesize_def host_simps)

lemma runs_extcodehash: "state_ok s \<Longrightarrow> I h \<Longrightarrow> 1 \<le> length (stack s) \<Longrightarrow> runs_host I 0 s (op_extcodehash H r s h)"
  using state_ok_height [of s] by (auto intro!: vcg simp: op_extcodehash_def host_simps)

lemma runs_txcontext: "state_ok s \<Longrightarrow> I h \<Longrightarrow> length (stack s) < STACK_SIZE \<Longrightarrow> runs_host I 1 s (push_txcontext H acc s h)"
  by (auto intro!: vcg simp: push_txcontext_def host_simps)

lemma runs_selfbalance: "state_ok s \<Longrightarrow> I h \<Longrightarrow> length (stack s) < STACK_SIZE \<Longrightarrow> runs_host I 1 s (op_selfbalance H s h)"
  by (auto intro!: vcg simp: op_selfbalance_def host_simps)

lemma runs_blockhash: "state_ok s \<Longrightarrow> I h \<Longrightarrow> 1 \<le> length (stack s) \<Longrightarrow> runs_host I 0 s (op_blockhash H s h)"
  using state_ok_height [of s] by (auto intro!: vcg blockhash_window simp: op_blockhash_def host_simps Let_def)

lemma runs_sload: "state_ok s \<Longrightarrow> I h \<Longrightarrow> 1 \<le> length (stack s) \<Longrightarrow> runs_host I 0 s (op_sload H r s h)"
  using state_ok_height [of s] by (auto intro!: vcg simp: op_sload_def host_simps)

lemma runs_sstore: "state_ok s \<Longrightarrow> I h \<Longrightarrow> (S \<longrightarrow> msg_is_static (message s)) \<Longrightarrow> 2 \<le> length (stack s) \<Longrightarrow> runs_host I (- 2) s (op_sstore H r s h)"
  by (auto intro!: vcg simp: op_sstore_def host_simps)

lemma runs_selfdestruct: "state_ok s \<Longrightarrow> I h \<Longrightarrow> (S \<longrightarrow> msg_is_static (message s)) \<Longrightarrow> 1 \<le> length (stack s) \<Longrightarrow> runs_host I (- 1) s (op_selfdestruct H r s h)"
  by (auto intro!: vcg simp: op_selfdestruct_def host_simps Let_def)

lemma runs_extcodecopy: "state_ok s \<Longrightarrow> I h \<Longrightarrow> 4 \<le> length (stack s) \<Longrightarrow> runs_host I (- 4) s (op_extcodecopy H r s h)"
  by (auto intro!: vcg simp: op_extcodecopy_def host_simps split: option.splits)

lemma runs_log: "state_ok s \<Longrightarrow> I h \<Longrightarrow> (S \<longrightarrow> msg_is_static (message s)) \<Longrightarrow> n \<le> 4 \<Longrightarrow> n + 2 \<le> length (stack s) \<Longrightarrow> runs_host I (- int n - 2) s (do_log H n s h)"
  by (auto intro!: vcg simp: do_log_def host_simps split: option.splits)

text \<open>\<open>SSTORE\<close> has no base cost in the table; it always charges something itself.\<close>

lemma sstore_pays: "state_ok s \<Longrightarrow> I h \<Longrightarrow> (S \<longrightarrow> msg_is_static (message s)) \<Longrightarrow> 2 \<le> length (stack s) \<Longrightarrow>
    returns (ok_host I (\<lambda>s' _. gas_left s' < gas_left s)) (op_sstore H r s h)"
  by (auto intro!: vcg simp: op_sstore_def host_simps dest!: sstore_paid)

end

end
