(* ===== verification/InstrCall.thy ===== *)
theory InstrCall
  imports InstrExternal
begin

text \<open>
  The instructions that start another frame: the macros \<open>do_call!\<close> (\<open>CALL\<close>, \<open>CALLCODE\<close>,
  \<open>DELEGATECALL\<close>, \<open>STATICCALL\<close>) and \<open>do_create!\<close> (\<open>CREATE\<close>, \<open>CREATE2\<close>) of
  \<open>instructions/call.rs\<close>. \<open>do_call\<close> is cut into its surcharge, the gas it passes on and the call
  itself. The theorems bound the gas a frame can lose or gain in a call.
\<close>

section \<open>Calls\<close>

text \<open>The extra cost of a value transfer and of a new account; \<open>CALL\<close> alone is checked for static mode.\<close>

definition call_surcharge ::
  "'h Host \<Rightarrow> Revision \<Rightarrow> CallKind \<Rightarrow> bool \<Rightarrow> address \<Rightarrow> ExecutionState \<Rightarrow> 'h
   \<Rightarrow> ((StatusCode + int) \<times> 'h) option" where
  "call_surcharge H revision kind has_value dst state h = do {
     let cost = (if has_value then 9000 else 0);
     if kind = Call then
       (if has_value \<and> msg_is_static (message state) then Some (Inl StaticModeViolation, h)
        else if has_value \<or> revision < Spurious then do {
          (ex, h) \<leftarrow> account_exists H h dst;
          Some (Inr (if \<not> ex then cost + 25000 else cost), h) }
        else Some (Inr cost, h))
     else Some (Inr cost, h) }"

text \<open>The gas passed on: the operand, at most all but one 64th from Tangerine on.\<close>

definition call_gas :: "Revision \<Rightarrow> u256 \<Rightarrow> ExecutionState \<Rightarrow> StatusCode + int" where
  "call_gas revision gas state =
     (let max_gas = 2 ^ 63 - 1;
          g = (if gas < of_int max_gas then i64 (int (as_usize gas)) else max_gas)
      in if revision \<ge> Tangerine
         then Inr (min g (i64 (gas_left state - i64_div (gas_left state) 64)))
         else if g > gas_left state then Inl OutOfGas else Inr g)"

text \<open>What the caller does with the result: status word, output copied, unused gas back.\<close>

definition call_finish ::
  "int \<Rightarrow> Output \<Rightarrow> MemoryRegion option \<Rightarrow> ExecutionState \<Rightarrow> ExecutionState option" where
  "call_finish sent result output_region state = do {
     let state = state\<lparr>return_data := out_output_data result\<rparr>;
     st \<leftarrow> stack_set (stack state) 0 (if out_status_code result = Success then 1 else 0);
     m \<leftarrow> (case output_region of
             Some region \<Rightarrow>
               (let copy_size = min (mr_size region) (length (out_output_data result))
                in if copy_size > 0 then do {
                     bs \<leftarrow> slice_range (out_output_data result) 0 copy_size;
                     copy_into (memory state) (mr_offset region) (mr_offset region + copy_size) bs }
                   else Some (memory state))
           | None \<Rightarrow> Some (memory state));
     let gas_used = i64 (sent - out_gas_left result);
     Some (state\<lparr>stack := st, memory := m, gas_left := i64 (gas_left state - gas_used)\<rparr>) }"

text \<open>The frame may call: not too deep, and the balance covers the value. Reads the host.\<close>

definition may_transfer :: "'h Host \<Rightarrow> u256 \<Rightarrow> ExecutionState \<Rightarrow> 'h \<Rightarrow> (bool \<times> 'h) option" where
  "may_transfer H v state h =
     (if msg_depth (message state) < 1024 then
        (if v \<noteq> 0 then do {
           (b, h) \<leftarrow> get_balance H h (msg_recipient (message state));
           Some (\<not> b < v, h) }
         else Some (True, h))
      else Some (False, h))"

definition perform_call ::
  "'h Host \<Rightarrow> InterpreterMessage \<Rightarrow> u256 \<Rightarrow> MemoryRegion option \<Rightarrow> 'h instr" where
  "perform_call H msg v output_region state h = do {
     let state = state\<lparr>return_data := []\<rparr>;
     (go, h) \<leftarrow> may_transfer H v state h;
     if go then do {
       (result, h) \<leftarrow> call H h (CallMsg msg);
       state \<leftarrow> call_finish (msg_gas msg) result output_region state;
       Some (Inr state, h) }
     else Some (Inr state, h) }"

text \<open>The message is built once the memory is grown, then priced and sent.\<close>

definition call_with ::
  "'h Host \<Rightarrow> Revision \<Rightarrow> CallKind \<Rightarrow> bool \<Rightarrow> u256 \<Rightarrow> address \<Rightarrow> u256
   \<Rightarrow> MemoryRegion option \<Rightarrow> MemoryRegion option \<Rightarrow> 'h instr" where
  "call_with H revision kind is_static gas dst v input_region output_region state h = do {
     input_data \<leftarrow> (case input_region of
         Some region \<Rightarrow> slice_range (memory state) (mr_offset region) (region_end region)
       | None \<Rightarrow> Some []);
     let has_value = (v \<noteq> 0);
     let this = message state;
     let msg = \<lparr>msg_kind = kind, msg_is_static = is_static \<or> msg_is_static this,
                msg_depth = msg_depth this + 1, msg_gas = 2 ^ 63 - 1,
                msg_recipient = (if kind = Call then dst else msg_recipient this),
                msg_sender = (if kind = DelegateCall then msg_sender this else msg_recipient this),
                msg_input_data = input_data,
                msg_value = (if kind = DelegateCall then msg_value this else v),
                msg_code_address = dst\<rparr>;
     r \<leftarrow> call_surcharge H revision kind has_value dst state h;
     try_host r (\<lambda>cost h.
       try_host (charge cost state, h) (\<lambda>state h.
         try_host (call_gas revision gas state, h) (\<lambda>g h.
           if has_value
           then perform_call H (msg\<lparr>msg_gas := i64 (g + 2300)\<rparr>) v output_region
                  (state\<lparr>gas_left := i64 (gas_left state + 2300)\<rparr>) h
           else perform_call H (msg\<lparr>msg_gas := g\<rparr>) v output_region state h))) }"

definition do_call :: "'h Host \<Rightarrow> Revision \<Rightarrow> CallKind \<Rightarrow> bool \<Rightarrow> 'h instr" where
  "do_call H revision kind is_static state h = do {
     (gas, state) \<leftarrow> state_pop state;
     (d, state) \<leftarrow> state_pop state;
     let dst = u256_to_address d;
     (v, state) \<leftarrow> (if is_static \<or> kind = DelegateCall then Some (0, state) else state_pop state);
     (input_offset, state) \<leftarrow> state_pop state;
     (input_size, state) \<leftarrow> state_pop state;
     (output_offset, state) \<leftarrow> state_pop state;
     (output_size, state) \<leftarrow> state_pop state;
     state \<leftarrow> state_push 0 state;
     r \<leftarrow> charge_cold_account H revision dst ADDITIONAL_COLD_ACCOUNT_ACCESS_COST state h;
     try_host r (\<lambda>state h. do {
       r \<leftarrow> get_memory_region state input_offset input_size;
       try_host (map_err (\<lambda>_. OutOfGas) r, h) (\<lambda>(input_region, state) h. do {
         r \<leftarrow> get_memory_region state output_offset output_size;
         try_host (map_err (\<lambda>_. OutOfGas) r, h) (\<lambda>(output_region, state) h.
           call_with H revision kind is_static gas dst v input_region output_region state h) }) }) }"

section \<open>Creations\<close>

definition create_finish :: "int \<Rightarrow> Output \<Rightarrow> ExecutionState \<Rightarrow> ExecutionState option" where
  "create_finish sent result state = do {
     let state = state\<lparr>gas_left := i64 (gas_left state - i64 (sent - out_gas_left result)),
                      return_data := out_output_data result\<rparr>;
     if out_status_code result = Success then do {
       a \<leftarrow> out_create_address result;
       st \<leftarrow> stack_set (stack state) 0 (address_to_u256 a);
       Some (state\<lparr>stack := st\<rparr>) }
     else Some state }"

definition create_gas :: "Revision \<Rightarrow> ExecutionState \<Rightarrow> int" where
  "create_gas revision state =
     (if revision \<ge> Tangerine then i64 (gas_left state - i64_div (gas_left state) 64) else gas_left state)"

definition perform_create ::
  "'h Host \<Rightarrow> Revision \<Rightarrow> u256 option \<Rightarrow> u256 \<Rightarrow> u256 \<Rightarrow> u256 \<Rightarrow> 'h instr" where
  "perform_create H revision salt endowment init_code_offset init_code_size state h = do {
     (go, h) \<leftarrow> may_transfer H endowment state h;
     if go then do {
       initcode \<leftarrow> (if init_code_size \<noteq> 0
          then slice_range (memory state) (as_usize init_code_offset)
                 (as_usize init_code_offset + as_usize init_code_size)
          else Some []);
       let msg = \<lparr>cm_salt = salt, cm_gas = create_gas revision state,
                  cm_depth = msg_depth (message state) + 1, cm_initcode = initcode,
                  cm_sender = msg_recipient (message state), cm_endowment = endowment\<rparr>;
       (result, h) \<leftarrow> call H h (CreateMsg msg);
       state \<leftarrow> create_finish (cm_gas msg) result state;
       Some (Inr state, h) }
     else Some (Inr state, h) }"

definition do_create :: "'h Host \<Rightarrow> Revision \<Rightarrow> bool \<Rightarrow> 'h instr" where
  "do_create H revision create2 state h =
     (if msg_is_static (message state) then Some (Inl StaticModeViolation, h)
      else do {
        (endowment, state) \<leftarrow> state_pop state;
        (init_code_offset, state) \<leftarrow> state_pop state;
        (init_code_size, state) \<leftarrow> state_pop state;
        r \<leftarrow> get_memory_region state init_code_offset init_code_size;
        try_host (map_err (\<lambda>_. OutOfGas) r, h) (\<lambda>(region, state) h. do {
          (salt, r) \<leftarrow> (if create2 then do {
              (salt, state) \<leftarrow> state_pop state;
              Some (Some salt, (case region of
                  Some region \<Rightarrow> charge (num_words (mr_size region) * 6) state
                | None \<Rightarrow> Inr state)) }
            else Some (None, Inr state));
          try_host (r, h) (\<lambda>state h. do {
            state \<leftarrow> state_push 0 state;
            let state = state\<lparr>return_data := []\<rparr>;
            perform_create H revision salt endowment init_code_offset init_code_size state h }) }) })"

section \<open>Gas across calls\<close>

lemma i64_nat: "n < 2 ^ 63 \<Longrightarrow> i64 (int n) = int n"
  by (rule i64_id) simp_all

lemma gas_all_but:
  assumes "state_ok s"
  shows "0 \<le> i64 (gas_left s - i64_div (gas_left s) 64)"
    "i64 (gas_left s - i64_div (gas_left s) 64) \<le> gas_left s"
proof -
  note b = state_ok_gas [OF assms]
  have q: "i64_div (gas_left s) 64 = gas_left s div 64" "gas_left s div 64 \<le> gas_left s" "0 \<le> gas_left s div 64"
    using b by (simp_all add: zdiv_mono2 [of _ 1 64, simplified])
  have "i64 (gas_left s - gas_left s div 64) = gas_left s - gas_left s div 64"
    using b q by (intro i64_id) linarith+
  then show "0 \<le> i64 (gas_left s - i64_div (gas_left s) 64)"
    "i64 (gas_left s - i64_div (gas_left s) 64) \<le> gas_left s" using q by simp_all
qed

lemma call_gas_range:
  assumes "state_ok s" "call_gas revision gas s = Inr g"
  shows "0 \<le> g" "g \<le> gas_left s"
proof -
  have "0 \<le> i64 (int (as_usize gas))" if "gas < of_int (2 ^ 63 - 1)"
  proof -
    have "unat gas < 2 ^ 63" using that by (simp add: word_less_nat_alt)
    then have "as_usize gas = unat gas" "i64 (int (unat gas)) = int (unat gas)"
      by (simp_all only: as_usize_small i64_nat) (simp add: as_usize_def)
    then show ?thesis by (metis of_nat_0_le_iff)
  qed
  then show "0 \<le> g" "g \<le> gas_left s"
    using assms(2) gas_all_but [OF assms(1)] state_ok_gas [OF assms(1)] by (auto simp: call_gas_def Let_def split: if_splits)
qed

lemma vcg_call_gas [vcg]:
  assumes "state_ok s" "R (Inl OutOfGas, h)" "\<And>g. 0 \<le> g \<Longrightarrow> g \<le> gas_left s \<Longrightarrow> returns R (f g h)"
  shows "returns R (try_host (call_gas revision gas s, h) f)"
proof (cases "call_gas revision gas s")
  case (Inl e)
  then have "e = OutOfGas" by (auto simp: call_gas_def Let_def split: if_splits)
  then show ?thesis using Inl assms(2) by simp
next
  case (Inr g)
  then show ?thesis using call_gas_range [OF assms(1)] assms(3) by simp
qed

lemma state_ok_after_call:
  assumes "state_ok s" "0 \<le> g" "g \<le> gas_left s" "length st = length (stack s)"
    "length m = length (memory s)" "length d < 2 ^ 63"
  shows "state_ok (s\<lparr>gas_left := g, stack := st, memory := m, return_data := d\<rparr>)"
  using assms by (simp add: state_ok_def)

text \<open>The caller gets back what the callee did not use.\<close>

lemma gas_after_call:
  assumes "state_ok s" "0 \<le> sent" "sent \<le> gas_left s" "0 \<le> back" "back \<le> sent"
  shows "i64 (gas_left s - i64 (sent - back)) = gas_left s - (sent - back)"
proof -
  have "i64 (sent - back) = sent - back" using assms state_ok_gas [OF assms(1)] by (intro i64_id) simp_all
  then show ?thesis using assms state_ok_gas [OF assms(1)] by (subst i64_id) simp_all
qed

lemma min_le: "a + b \<le> n \<Longrightarrow> a + min b c \<le> (n :: nat)"
  by (simp add: min_def)

lemma vcg_call_finish:
  assumes s: "state_ok s" "1 \<le> length (stack s)" and g: "0 \<le> sent" "sent \<le> gas_left s"
    and a: "0 \<le> out_gas_left out" "out_gas_left out \<le> sent" "length (out_output_data out) < 2 ^ 63"
    and r: "\<And>x. region = Some x \<Longrightarrow> region_end x \<le> length (memory s)"
    and R: "\<And>s'. \<lbrakk>state_ok s'; gas_left s' \<le> gas_left s; message s' = message s;
      length (stack s') = length (stack s)\<rbrakk> \<Longrightarrow> R s'"
  shows "returns R (call_finish sent out region s)"
proof -
  have "R (s\<lparr>return_data := data, stack := (stack s)[p := w], memory := m,
      gas_left := i64 (gas_left s - i64 (sent - out_gas_left out))\<rparr>)"
    if "length m = length (memory s)" "length data < 2 ^ 63" for p w m data
    using s g a that by (intro R) (simp_all add: gas_after_call, simp_all add: state_ok_def)
  note fin = this this [OF refl, simplified]
  show ?thesis unfolding call_finish_def using length_ne(1) [OF s(2)] r
    using a(3) by (auto intro!: fin simp: Let_def region_end_def min_le split: option.splits)
qed

lemma vcg_create_finish:
  assumes s: "state_ok s" "1 \<le> length (stack s)" and g: "0 \<le> sent" "sent \<le> gas_left s"
    and a: "0 \<le> out_gas_left out" "out_gas_left out \<le> sent" "length (out_output_data out) < 2 ^ 63"
      "out_status_code out = Success \<Longrightarrow> out_create_address out \<noteq> None"
    and R: "\<And>s'. \<lbrakk>state_ok s'; gas_left s' \<le> gas_left s; message s' = message s;
      length (stack s') = length (stack s)\<rbrakk> \<Longrightarrow> R s'"
  shows "returns R (create_finish sent out s)"
proof -
  have fin: "R (s\<lparr>gas_left := i64 (gas_left s - i64 (sent - out_gas_left out)),
      return_data := out_output_data out, stack := st\<rparr>)" if "length st = length (stack s)" for st
    using s g a that by (intro R) (simp_all add: gas_after_call, simp_all add: state_ok_def)
  then show ?thesis unfolding create_finish_def using length_ne(1) [OF s(2)] a(4) fin [OF refl] by (auto simp: Let_def)
qed

context host_contract
begin

lemma vcg_surcharge [vcg]:
  assumes "I h" "\<And>h'. I h' \<Longrightarrow> R (Inl StaticModeViolation, h')"
    and "\<And>c h'. I h' \<Longrightarrow> small_cost c \<Longrightarrow> (has_value \<Longrightarrow> 9000 \<le> c) \<Longrightarrow> R (Inr c, h')"
  shows "returns R (call_surcharge H revision kind has_value dst s h)"
  using assms unfolding call_surcharge_def Let_def by (auto intro!: vcg)

lemma vcg_may_transfer [vcg]:
  assumes "I h" "\<And>h'. I h' \<Longrightarrow> R (False, h')"
    "\<And>h'. I h' \<Longrightarrow> msg_depth (message s) < 1024 \<Longrightarrow> R (True, h')"
  shows "returns R (may_transfer H v s h)"
proof -
  have "R (b, h')" if "I h'" "msg_depth (message s) < 1024" for b h' using assms(2,3) that by (cases b) auto
  then show ?thesis using assms(1,2) unfolding may_transfer_def by (auto intro!: vcg)
qed

lemma vcg_perform_call [vcg]:
  assumes s: "state_ok s" "I h" "1 \<le> length (stack s)" and g: "0 \<le> msg_gas msg" "msg_gas msg \<le> gas_left s"
    and d: "msg_depth msg = msg_depth (message s) + 1" "D \<le> msg_depth (message s) + 1"
    and i: "length (msg_input_data msg) < 2 ^ 63" "S \<longrightarrow> msg_is_static msg"
    and r: "\<And>x. region = Some x \<Longrightarrow> region_end x \<le> length (memory s)"
    and R: "\<And>s' h'. \<lbrakk>I h'; state_ok s'; gas_left s' \<le> gas_left s; message s' = message s;
      length (stack s') = length (stack s)\<rbrakk> \<Longrightarrow> R (Inr s', h')"
  shows "returns R (perform_call H msg v region s h)"
proof -
  have m: "message_ok D msg" if "msg_depth (message s) < 1024"
    using s g d i that state_ok_gas [OF s(1)] by (auto simp: message_ok_def state_ok_def)
  have idle: "state_ok (s\<lparr>return_data := []\<rparr>)" using s(1) by (simp add: state_ok_def)
  show ?thesis
    unfolding perform_call_def using s m idle g r
    by (auto intro!: vcg vcg_call vcg_call_finish R simp: call_to_interpreter_def answer_ok_def static_call_def i(2))
qed

lemma vcg_perform_create [vcg]:
  assumes s: "state_ok s" "I h" "1 \<le> length (stack s)" "\<not> S" and d: "D \<le> msg_depth (message s) + 1"
    and r: "sz \<noteq> 0 \<Longrightarrow> unat off + unat sz \<le> length (memory s)"
    and R: "\<And>s' h'. \<lbrakk>I h'; state_ok s'; gas_left s' \<le> gas_left s; message s' = message s;
      length (stack s') = length (stack s)\<rbrakk> \<Longrightarrow> R (Inr s', h')"
  shows "returns R (perform_create H revision salt endowment off sz s h)"
proof -
  have g: "0 \<le> create_gas revision s" "create_gas revision s \<le> gas_left s"
    unfolding create_gas_def using gas_all_but [OF s(1)] state_ok_gas [OF s(1)] by auto
  have L: "length (memory s) < 2 ^ 63" using s(1) by (simp add: state_ok_def MEMORY_LIMIT_def)
  have u: "as_usize off = unat off" "as_usize sz = unat sz" if "sz \<noteq> 0"
    using r [OF that] L by (simp_all add: as_usize_def)
  have m: "message_ok D (create_to_interpreter (CreateMessage.make salt (create_gas revision s)
      (msg_depth (message s) + 1) code a endowment))"
    if "msg_depth (message s) < 1024" "length code < 2 ^ 63" for code a
    using s g d that state_ok_gas [OF s(1)]
    by (auto simp: message_ok_def state_ok_def create_to_interpreter_def CreateMessage.defs)
  show ?thesis
    unfolding perform_create_def using s r u L m g
    by (auto intro!: vcg vcg_call vcg_create_finish R
        simp: call_to_interpreter_def answer_ok_def create_to_interpreter_def CreateMessage.defs)
qed


lemma i64_small: "0 \<le> x \<Longrightarrow> x < 2 ^ 63 \<Longrightarrow> i64 x = x"
  by (rule i64_id) simp_all

lemma state_ok_set_gas: "state_ok s \<Longrightarrow> 0 \<le> g \<Longrightarrow> g < 2 ^ 63 \<Longrightarrow> state_ok (s\<lparr>gas_left := g\<rparr>)"
  by (simp add: state_ok_def)

lemma vcg_if: "(b \<Longrightarrow> returns Q m) \<Longrightarrow> (\<not> b \<Longrightarrow> returns Q n) \<Longrightarrow> returns Q (if b then m else n)"
  by simp

lemma vcg_call_with [vcg]:
  assumes s: "state_ok s" "I h" "D \<le> msg_depth (message s) + 1" "1 \<le> length (stack s)"
      "S \<longrightarrow> msg_is_static (message s)"
    and r: "\<And>x. ri = Some x \<Longrightarrow> region_end x \<le> length (memory s)"
      "\<And>x. ro = Some x \<Longrightarrow> region_end x \<le> length (memory s)"
    and R: "\<And>e h'. I h' \<Longrightarrow> R (Inl e, h')"
      "\<And>s' h'. \<lbrakk>I h'; state_ok s'; gas_left s' \<le> gas_left s; message s' = message s;
        length (stack s') = length (stack s)\<rbrakk> \<Longrightarrow> R (Inr s', h')"
  shows "returns R (call_with H revision kind is_static gas dst v ri ro s h)"
proof -
  have L: "length (memory s) < 2 ^ 63" using s(1) by (simp add: state_ok_def MEMORY_LIMIT_def)
  show ?thesis unfolding call_with_def using s r R L state_ok_gas [OF s(1)]
    by (auto intro!: vcg vcg_if R state_ok_set_gas simp: region_end_def i64_small split: option.splits split del: if_split)
qed

lemma state_ok_set_return: "state_ok s \<Longrightarrow> length d < 2 ^ 63 \<Longrightarrow> state_ok (s\<lparr>return_data := d\<rparr>)"
  by (simp add: state_ok_def)

lemma runs_create:
  assumes "state_ok s" "I h" "D \<le> msg_depth (message s) + 1" "S \<longrightarrow> msg_is_static (message s)"
    and "(if create2 then 4 else 3) \<le> length (stack s)"
  shows "runs_host I (if create2 then - 3 else - 2) s (do_create H revision create2 s h)"
  using assms state_ok_height [OF assms(1)] unfolding do_create_def
  by (auto intro!: vcg state_ok_set_return simp: host_simps unat_eq_zero split: option.splits)

lemma runs_call:
  assumes "state_ok s" "I h" "D \<le> msg_depth (message s) + 1" "S \<longrightarrow> msg_is_static (message s)"
    and "7 - of_bool (is_static \<or> kind = DelegateCall) \<le> length (stack s)"
  shows "runs_host I (- 6 + of_bool (is_static \<or> kind = DelegateCall)) s (do_call H revision kind is_static s h)"
proof (cases "is_static \<or> kind = DelegateCall")
  case True
  then show ?thesis
  using assms state_ok_height [OF assms(1)] unfolding do_call_def
  by (auto intro!: vcg simp: host_simps)
next
  case False
  then show ?thesis
  using assms state_ok_height [OF assms(1)] unfolding do_call_def
  by (auto intro!: vcg simp: host_simps)
qed

end

section \<open>Properties\<close>

text \<open>From Tangerine Whistle on, \<open>call_gas\<close> cannot fail: it passes on the requested gas, capped at all
  but one 64th of what the frame has left. Before, a request for more gas than is left is
  \<open>OutOfGas\<close> and every other request is granted in full (up to \<open>i64::MAX\<close>).\<close>

theorem call_gas_all_but_one_64th:
  assumes "state_ok s"
  shows "call_gas revision gas s =
    (if revision \<ge> Tangerine then Inr (min (uint gas) (gas_left s - gas_left s div 64))
     else if min (uint gas) (2 ^ 63 - 1) > gas_left s then Inl OutOfGas else Inr (min (uint gas) (2 ^ 63 - 1)))"
proof -
  have g: "0 \<le> gas_left s" "gas_left s < 2 ^ 63" using assms by (simp_all add: state_ok_def)
  then have "i64_div (gas_left s) 64 = gas_left s div 64" by (auto simp: i64_div_def sgn_if)
  moreover have "i64 (gas_left s - gas_left s div 64) = gas_left s - gas_left s div 64"
    using g by (intro i64_id) linarith+
  ultimately have d: "i64 (gas_left s - i64_div (gas_left s) 64) = gas_left s - gas_left s div 64" by simp
  define w where "w = (if gas < of_int (2 ^ 63 - 1) then i64 (int (as_usize gas)) else 2 ^ 63 - 1)"
  have lt: "gas < of_int (2 ^ 63 - 1) \<longleftrightarrow> uint gas < 2 ^ 63 - 1" by (simp add: word_less_def)
  have "i64 (int (as_usize gas)) = uint gas" if "uint gas < 2 ^ 63 - 1"
  proof -
    have "int (unat gas) < 2 ^ 64" using that by simp
    then have "unat gas < 2 ^ 64" by (metis of_nat_less_iff of_nat_numeral of_nat_power)
    then have "int (as_usize gas) = uint gas" by (simp only: as_usize_small) simp
    then show ?thesis using that by (simp add: i64_id)
  qed
  then have w: "w = min (uint gas) (2 ^ 63 - 1)" unfolding w_def lt by auto
  have "0 \<le> gas_left s div 64" using g by simp
  moreover have "gas_left s div 64 = 0 \<Longrightarrow> gas_left s < 2 ^ 63 - 1" by simp
  ultimately have "min w (gas_left s - gas_left s div 64) = min (uint gas) (gas_left s - gas_left s div 64)"
    using w g by linarith
  then show ?thesis unfolding call_gas_def Let_def w_def [symmetric] d using w by auto
qed

theorem call_gas_all_but_one_64th_witness:
  "call_gas London 1000000 (sample_state []) = Inr 98438"
  using call_gas_all_but_one_64th [of "sample_state []" London 1000000]
  by (simp add: sample_state_ok STACK_SIZE_def less_eq_Revision_def)
    (simp add: sample_state_def sample_message_def ExecutionState_new_def)

end
