(* ===== verification/Interpreter.thy ===== *)
theory Interpreter
  imports InstrCall
begin

text \<open>
  The interpreter, \<open>src/execution/evm/interpreter.rs\<close>: code analysis, the per-instruction
  requirements, the dispatch on the opcode and the main loop.

  The dispatch is cut along the groups of opcodes. One iteration of the loop is the function
  \<open>step\<close>; it says how the loop goes on with a value of type \<open>control\<close>. The loop itself,
  \<open>execute_message\<close>, is a partial function: \<open>None\<close> stands for a panic and for divergence alike,
  and the safety theorem excludes both. The tracer's callbacks do not change the state and are
  left out.
\<close>

section \<open>Code analysis\<close>

definition to_opcode :: "byte \<Rightarrow> OpCode" where
  "to_opcode b = opcode_of_byte (unat b)"

type_synonym JumpdestMap = "bool list"

definition jumpdest_contains :: "JumpdestMap \<Rightarrow> u256 \<Rightarrow> bool" where
  "jumpdest_contains m dst = (if dst < of_nat (length m) then m ! as_usize dst else False)"

record AnalyzedCode =
  jumpdest_map :: JumpdestMap
  code :: "byte list"
  padded_code :: "byte list"

text \<open>The number of bytes an instruction takes.\<close>

definition instr_len :: "OpCode \<Rightarrow> nat" where
  "instr_len op = (case op of PUSH n \<Rightarrow> to_u8 op - to_u8 (PUSH 1) + 2 | _ \<Rightarrow> 1)"

lemma instr_len_pos: "0 < instr_len op"
  by (simp add: instr_len_def split: OpCode.splits)

function analyze_loop :: "byte list \<Rightarrow> nat \<Rightarrow> JumpdestMap \<Rightarrow> JumpdestMap \<times> nat" where
  "analyze_loop c i m =
     (if i < length c then
        let opcode = to_opcode (c ! i);
            m = (if opcode = Flow OP_JUMPDEST then m[i := True] else m)
        in analyze_loop c (i + instr_len opcode) m
      else (m, i))"
  by pat_completeness auto
termination
  by (relation "measure (\<lambda>(c, i, m). length c - i)") (use instr_len_pos in \<open>auto intro!: diff_less_mono2\<close>)

declare analyze_loop.simps [simp del]

definition analyze :: "byte list \<Rightarrow> AnalyzedCode" where
  "analyze c =
     (let (m, i) = analyze_loop c 0 (replicate (length c) False);
          padded = resize c (i + 1) 0
      in \<lparr>jumpdest_map = m, code = take (length c) padded, padded_code = padded\<rparr>)"

section \<open>Requirements\<close>

definition check_requirements ::
  "(OpCode \<Rightarrow> InstructionTableEntry option option) \<Rightarrow> ExecutionState \<Rightarrow> OpCode
   \<Rightarrow> (StatusCode + ExecutionState) option" where
  "check_requirements table state op = do {
     entry \<leftarrow> table op;
     case entry of
       None \<Rightarrow> Some (Inl UndefinedInstruction)
     | Some metrics \<Rightarrow>
         try_then (charge (gas_cost metrics) state) (\<lambda>state.
           let stack_size = stack_len (stack state)
           in if stack_size = STACK_SIZE
              then (if can_overflow_stack metrics then Some (Inl StackOverflow) else Some (Inr state))
              else if stack_size < entry_height_required metrics then Some (Inl StackUnderflow)
              else Some (Inr state)) }"

section \<open>Dispatch\<close>

definition on_stack :: "(stack \<Rightarrow> stack option) \<Rightarrow> ExecutionState \<Rightarrow> (StatusCode + ExecutionState) option" where
  "on_stack f state = do { st \<leftarrow> f (stack state); Some (Inr (state\<lparr>stack := st\<rparr>)) }"

definition infallible :: "ExecutionState option \<Rightarrow> (StatusCode + ExecutionState) option" where
  "infallible m = map_option Inr m"

definition no_host :: "(StatusCode + ExecutionState) option \<Rightarrow> 'h \<Rightarrow> ((StatusCode + ExecutionState) \<times> 'h) option" where
  "no_host m h = do { r \<leftarrow> m; Some (r, h) }"

definition exec_arith ::
  "lib \<Rightarrow> Revision \<Rightarrow> ArithOp \<Rightarrow> ExecutionState \<Rightarrow> (StatusCode + ExecutionState) option" where
  "exec_arith L revision op state = (case op of
       OP_ADD \<Rightarrow> on_stack op_add state
     | OP_MUL \<Rightarrow> on_stack op_mul state
     | OP_SUB \<Rightarrow> on_stack op_sub state
     | OP_DIV \<Rightarrow> on_stack op_div state
     | OP_SDIV \<Rightarrow> on_stack (op_sdiv L) state
     | OP_MOD \<Rightarrow> on_stack op_mod state
     | OP_SMOD \<Rightarrow> on_stack (op_smod L) state
     | OP_ADDMOD \<Rightarrow> on_stack op_addmod state
     | OP_MULMOD \<Rightarrow> on_stack op_mulmod state
     | OP_EXP \<Rightarrow> op_exp revision state
     | OP_SIGNEXTEND \<Rightarrow> on_stack op_signextend state)"

definition exec_logic :: "lib \<Rightarrow> LogicOp \<Rightarrow> ExecutionState \<Rightarrow> (StatusCode + ExecutionState) option" where
  "exec_logic L op state = (case op of
       OP_LT \<Rightarrow> on_stack op_lt state
     | OP_GT \<Rightarrow> on_stack op_gt state
     | OP_SLT \<Rightarrow> on_stack (op_slt L) state
     | OP_SGT \<Rightarrow> on_stack (op_sgt L) state
     | OP_EQ \<Rightarrow> on_stack op_eq state
     | OP_ISZERO \<Rightarrow> on_stack op_iszero state
     | OP_AND \<Rightarrow> on_stack op_and state
     | OP_OR \<Rightarrow> on_stack op_or state
     | OP_XOR \<Rightarrow> on_stack op_xor state
     | OP_NOT \<Rightarrow> on_stack op_not state
     | OP_BYTE \<Rightarrow> on_stack op_byte state
     | OP_SHL \<Rightarrow> on_stack op_shl state
     | OP_SHR \<Rightarrow> on_stack op_shr state
     | OP_SAR \<Rightarrow> on_stack (op_sar L) state)"

definition exec_env ::
  "'h Host \<Rightarrow> lib \<Rightarrow> Revision \<Rightarrow> AnalyzedCode \<Rightarrow> EnvOp \<Rightarrow> 'h instr" where
  "exec_env H L revision s op state h = (case op of
       OP_KECCAK256 \<Rightarrow> no_host (op_keccak256 L state) h
     | OP_ADDRESS \<Rightarrow> no_host (infallible (op_address state)) h
     | OP_BALANCE \<Rightarrow> op_balance H revision state h
     | OP_CALLER \<Rightarrow> no_host (infallible (op_caller state)) h
     | OP_CALLVALUE \<Rightarrow> no_host (infallible (op_callvalue state)) h
     | OP_CALLDATALOAD \<Rightarrow> no_host (infallible (calldataload state)) h
     | OP_CALLDATASIZE \<Rightarrow> no_host (infallible (calldatasize state)) h
     | OP_CALLDATACOPY \<Rightarrow> no_host (calldatacopy state) h
     | OP_CODESIZE \<Rightarrow> no_host (infallible (codesize state (code s))) h
     | OP_CODECOPY \<Rightarrow> no_host (codecopy state (code s)) h
     | OP_EXTCODESIZE \<Rightarrow> op_extcodesize H revision state h
     | OP_EXTCODECOPY \<Rightarrow> op_extcodecopy H revision state h
     | OP_RETURNDATASIZE \<Rightarrow> no_host (infallible (returndatasize state)) h
     | OP_RETURNDATACOPY \<Rightarrow> no_host (returndatacopy state) h
     | OP_EXTCODEHASH \<Rightarrow> op_extcodehash H revision state h)"

definition exec_block :: "'h Host \<Rightarrow> BlockOp \<Rightarrow> 'h instr" where
  "exec_block H op state h = (case op of
       OP_BLOCKHASH \<Rightarrow> op_blockhash H state h
     | OP_ORIGIN \<Rightarrow> push_txcontext H origin_accessor state h
     | OP_COINBASE \<Rightarrow> push_txcontext H coinbase_accessor state h
     | OP_GASPRICE \<Rightarrow> push_txcontext H gasprice_accessor state h
     | OP_TIMESTAMP \<Rightarrow> push_txcontext H timestamp_accessor state h
     | OP_NUMBER \<Rightarrow> push_txcontext H number_accessor state h
     | OP_DIFFICULTY \<Rightarrow> push_txcontext H difficulty_accessor state h
     | OP_GASLIMIT \<Rightarrow> push_txcontext H gaslimit_accessor state h
     | OP_CHAINID \<Rightarrow> push_txcontext H chainid_accessor state h
     | OP_BASEFEE \<Rightarrow> push_txcontext H basefee_accessor state h
     | OP_SELFBALANCE \<Rightarrow> op_selfbalance H state h)"

text \<open>How the loop goes on: with the program counter of the next instruction, or not.\<close>

datatype control = Next nat ExecutionState | Break bool ExecutionState

definition then_next ::
  "nat \<Rightarrow> ((StatusCode + ExecutionState) \<times> 'h) option \<Rightarrow> ((StatusCode + control) \<times> 'h) option" where
  "then_next pc m = do { r \<leftarrow> m; try_host r (\<lambda>state h. Some (Inr (Next pc state), h)) }"

definition then_break ::
  "bool \<Rightarrow> ((StatusCode + ExecutionState) \<times> 'h) option \<Rightarrow> ((StatusCode + control) \<times> 'h) option" where
  "then_break reverted m = do { r \<leftarrow> m; try_host r (\<lambda>state h. Some (Inr (Break reverted state), h)) }"

definition op_jump :: "JumpdestMap \<Rightarrow> ExecutionState \<Rightarrow> (StatusCode + (nat \<times> ExecutionState)) option" where
  "op_jump m state = do {
     (dst, state) \<leftarrow> state_pop state;
     Some (if \<not> jumpdest_contains m dst then Inl BadJumpDestination else Inr (as_usize dst, state)) }"

definition exec_flow ::
  "'h Host \<Rightarrow> Revision \<Rightarrow> AnalyzedCode \<Rightarrow> nat \<Rightarrow> FlowOp \<Rightarrow> ExecutionState \<Rightarrow> 'h
   \<Rightarrow> ((StatusCode + control) \<times> 'h) option" where
  "exec_flow H revision s pc op state h = (case op of
       OP_POP \<Rightarrow> then_next (pc + 1) (no_host (on_stack op_pop state) h)
     | OP_MLOAD \<Rightarrow> then_next (pc + 1) (no_host (mload state) h)
     | OP_MSTORE \<Rightarrow> then_next (pc + 1) (no_host (mstore state) h)
     | OP_MSTORE8 \<Rightarrow> then_next (pc + 1) (no_host (mstore8 state) h)
     | OP_SLOAD \<Rightarrow> then_next (pc + 1) (op_sload H revision state h)
     | OP_SSTORE \<Rightarrow> then_next (pc + 1) (op_sstore H revision state h)
     | OP_JUMP \<Rightarrow> do {
         r \<leftarrow> op_jump (jumpdest_map s) state;
         try_host (r, h) (\<lambda>(dst, state) h. Some (Inr (Next dst state), h)) }
     | OP_JUMPI \<Rightarrow> do {
         cond \<leftarrow> stack_get (stack state) 1;
         if cond \<noteq> 0 then do {
           r \<leftarrow> op_jump (jumpdest_map s) state;
           try_host (r, h) (\<lambda>(dst, state) h. do {
             (_, state) \<leftarrow> state_pop state;
             Some (Inr (Next dst state), h) }) }
         else do {
           (_, state) \<leftarrow> state_pop state;
           (_, state) \<leftarrow> state_pop state;
           Some (Inr (Next (pc + 1) state), h) } }
     | OP_PC \<Rightarrow> then_next (pc + 1) (no_host (infallible (state_push (of_nat pc) state)) h)
     | OP_MSIZE \<Rightarrow> then_next (pc + 1) (no_host (infallible (msize state)) h)
     | OP_GAS \<Rightarrow> (if gas_left state < 0 then None
         else then_next (pc + 1) (no_host (infallible (state_push (of_int (gas_left state)) state)) h))
     | OP_JUMPDEST \<Rightarrow> Some (Inr (Next (pc + 1) state), h))"

definition exec_push :: "AnalyzedCode \<Rightarrow> nat \<Rightarrow> nat \<Rightarrow> ExecutionState \<Rightarrow> control option" where
  "exec_push s pc n state =
     (if n = 1 then do {
        v \<leftarrow> index_at (padded_code s) (pc + 1);
        st \<leftarrow> op_push1 (stack state) v;
        Some (Next (pc + 1 + 1) (state\<lparr>stack := st\<rparr>)) }
      else if n = 32 then do {
        bs \<leftarrow> slice_range (padded_code s) (pc + 1) (length (padded_code s));
        st \<leftarrow> op_push32 (stack state) bs;
        Some (Next (pc + 32 + 1) (state\<lparr>stack := st\<rparr>)) }
      else do {
        bs \<leftarrow> slice_range (padded_code s) (pc + 1) (length (padded_code s));
        (k, st) \<leftarrow> op_push n (stack state) bs;
        Some (Next (pc + k + 1) (state\<lparr>stack := st\<rparr>)) })"

definition exec_system ::
  "'h Host \<Rightarrow> Revision \<Rightarrow> nat \<Rightarrow> SystemOp \<Rightarrow> ExecutionState \<Rightarrow> 'h
   \<Rightarrow> ((StatusCode + control) \<times> 'h) option" where
  "exec_system H revision pc op state h = (case op of
       OP_STOP \<Rightarrow> Some (Inr (Break False state), h)
     | OP_CREATE \<Rightarrow> then_next (pc + 1) (do_create H revision False state h)
     | OP_CREATE2 \<Rightarrow> then_next (pc + 1) (do_create H revision True state h)
     | OP_CALL \<Rightarrow> then_next (pc + 1) (do_call H revision Call False state h)
     | OP_CALLCODE \<Rightarrow> then_next (pc + 1) (do_call H revision CallCode False state h)
     | OP_DELEGATECALL \<Rightarrow> then_next (pc + 1) (do_call H revision DelegateCall False state h)
     | OP_STATICCALL \<Rightarrow> then_next (pc + 1) (do_call H revision Call True state h)
     | OP_RETURN \<Rightarrow> then_break False (no_host (ret state) h)
     | OP_REVERT \<Rightarrow> then_break True (no_host (ret state) h)
     | OP_INVALID \<Rightarrow> Some (Inl InvalidInstruction, h)
     | OP_SELFDESTRUCT \<Rightarrow> then_break False (op_selfdestruct H revision state h))"

definition exec_op ::
  "'h Host \<Rightarrow> lib \<Rightarrow> Revision \<Rightarrow> AnalyzedCode \<Rightarrow> nat \<Rightarrow> OpCode \<Rightarrow> ExecutionState \<Rightarrow> 'h
   \<Rightarrow> ((StatusCode + control) \<times> 'h) option" where
  "exec_op H L revision s pc op state h = (case op of
       Arith op \<Rightarrow> then_next (pc + 1) (no_host (exec_arith L revision op state) h)
     | Logic op \<Rightarrow> then_next (pc + 1) (no_host (exec_logic L op state) h)
     | Env op \<Rightarrow> then_next (pc + 1) (exec_env H L revision s op state h)
     | Block op \<Rightarrow> then_next (pc + 1) (exec_block H op state h)
     | Flow op \<Rightarrow> exec_flow H revision s pc op state h
     | System op \<Rightarrow> exec_system H revision pc op state h
     | PUSH n \<Rightarrow> do { c \<leftarrow> exec_push s pc n state; Some (Inr c, h) }
     | DUP n \<Rightarrow> then_next (pc + 1) (no_host (on_stack (op_dup n) state) h)
     | SWAP n \<Rightarrow> then_next (pc + 1) (no_host (on_stack (op_swap n) state) h)
     | LOG n \<Rightarrow> then_next (pc + 1) (do_log H n state h)
     | UNDEFINED _ \<Rightarrow> None)"

section \<open>The main loop\<close>

definition step ::
  "'h Host \<Rightarrow> lib \<Rightarrow> Revision \<Rightarrow> AnalyzedCode \<Rightarrow> nat \<Rightarrow> ExecutionState \<Rightarrow> 'h
   \<Rightarrow> ((StatusCode + control) \<times> 'h) option" where
  "step H L revision s pc state h = do {
     b \<leftarrow> index_at (padded_code s) pc;
     let op = to_opcode b;
     metrics \<leftarrow> instruction_table revision op;
     case metrics of
       None \<Rightarrow> Some (Inl UndefinedInstruction, h)
     | Some _ \<Rightarrow> do {
         r \<leftarrow> check_requirements (instruction_table revision) state op;
         try_host (r, h) (\<lambda>state h. exec_op H L revision s pc op state h) } }"

partial_function (option) execute_message ::
  "'h Host \<Rightarrow> lib \<Rightarrow> Revision \<Rightarrow> AnalyzedCode \<Rightarrow> nat \<Rightarrow> ExecutionState \<Rightarrow> 'h
   \<Rightarrow> ((StatusCode + SuccessfulOutput) \<times> 'h) option" where
  "execute_message H L revision s pc state h =
     Option.bind (step H L revision s pc state h) (\<lambda>(r, h).
       case r of
         Inl e \<Rightarrow> Some (Inl e, h)
       | Inr (Next pc state) \<Rightarrow> execute_message H L revision s pc state h
       | Inr (Break reverted state) \<Rightarrow>
           Some (Inr \<lparr>so_reverted = reverted, so_gas_left = gas_left state,
                      so_output_data = output_data state\<rparr>, h))"

definition execute ::
  "'h Host \<Rightarrow> lib \<Rightarrow> AnalyzedCode \<Rightarrow> InterpreterMessage \<Rightarrow> Revision \<Rightarrow> 'h \<Rightarrow> (Output \<times> 'h) option" where
  "execute H L s msg revision h = do {
     (r, h) \<leftarrow> execute_message H L revision s 0 (ExecutionState_new msg) h;
     Some (case r of
             Inr output \<Rightarrow> successful_to_output output
           | Inl status_code \<Rightarrow> \<lparr>out_status_code = status_code, out_gas_left = 0,
                                out_output_data = [], out_create_address = None\<rparr>, h) }"

end
