(* ===== verification/InterpreterSafety.thy ===== *)
theory InterpreterSafety
  imports Interpreter
begin

text \<open>
  The interpreter never panics and always stops.

  First the analysis: the instruction starts of a code are the positions reachable from \<open>0\<close> by
  whole instructions; the jump table marks exactly the starts that hold \<open>JUMPDEST\<close>, and the padding
  reaches past the last instruction, so that the program counter and the immediates of \<open>PUSH\<close>
  stay inside the padded code. Then one iteration of the loop: under the invariant of the frame
  and the host contract it returns, keeps the invariant and spends gas. The loop ends because
  the gas runs out.
\<close>

section \<open>Instruction starts\<close>

inductive starts :: "byte list \<Rightarrow> nat \<Rightarrow> nat \<Rightarrow> bool" for c where
  here: "starts c i i"
| next_instr: "starts c i j \<Longrightarrow> j < length c \<Longrightarrow> starts c i (j + instr_len (to_opcode (c ! j)))"

inductive_cases starts_elim: "starts c i j"

lemma starts_ge: "starts c i j \<Longrightarrow> i \<le> j"
  by (induction rule: starts.induct) auto

lemma starts_trans: "starts c j k \<Longrightarrow> starts c i j \<Longrightarrow> starts c i k"
  by (induction rule: starts.induct) (auto intro: starts.intros)

lemma starts_step:
  "i < length c \<Longrightarrow> starts c i j = (j = i \<or> starts c (i + instr_len (to_opcode (c ! i))) j)"
proof
  assume "starts c i j" and "i < length c"
  then show "j = i \<or> starts c (i + instr_len (to_opcode (c ! i))) j"
    by (induction rule: starts.induct) (auto intro: starts.intros)
next
  assume "i < length c" "j = i \<or> starts c (i + instr_len (to_opcode (c ! i))) j"
  then show "starts c i j" by (auto intro: starts.intros starts_trans)
qed

lemma starts_end: "length c \<le> i \<Longrightarrow> starts c i j = (j = i)"
proof
  assume "starts c i j" and "length c \<le> i"
  then show "j = i" by (induction rule: starts.induct) auto
qed (auto intro: starts.intros)

text \<open>Where the loop of \<open>analyze\<close> stops, and what it marks on the way.\<close>

lemma analyze_loop_end:
  "analyze_loop c i m = (m', e) \<Longrightarrow> length c \<le> e \<and> starts c i e \<and> (\<forall>j. starts c i j \<longrightarrow> j \<le> e)"
proof (induction c i m rule: analyze_loop.induct)
  case (1 c i m)
  show ?case
  proof (cases "i < length c")
    case True
    have "length c \<le> e \<and> starts c (i + instr_len (to_opcode (c ! i))) e
        \<and> (\<forall>j. starts c (i + instr_len (to_opcode (c ! i))) j \<longrightarrow> j \<le> e)"
      using 1 True by (subst (asm) (2) analyze_loop.simps) (simp add: Let_def)
    then show ?thesis using True starts_ge [of c "i + instr_len (to_opcode (c ! i))" e]
      by (auto simp: starts_step)
  next
    case False
    then show ?thesis using "1.prems" by (simp add: analyze_loop.simps starts_end)
  qed
qed

lemma analyze_loop_map:
  "analyze_loop c i m = (m', e) \<Longrightarrow> length m = length c \<Longrightarrow> length m' = length c \<and>
     (\<forall>j < length c. m' ! j = (m ! j \<or> starts c i j \<and> to_opcode (c ! j) = Flow OP_JUMPDEST))"
proof (induction c i m rule: analyze_loop.induct)
  case (1 c i m)
  show ?case
  proof (cases "i < length c")
    case True
    define m1 where "m1 = (if to_opcode (c ! i) = Flow OP_JUMPDEST then m[i := True] else m)"
    have "analyze_loop c (i + instr_len (to_opcode (c ! i))) m1 = (m', e)"
      using "1.prems"(1) True by (subst (asm) analyze_loop.simps) (simp add: Let_def m1_def)
    then have "length m' = length c \<and> (\<forall>j < length c. m' ! j = (m1 ! j
        \<or> starts c (i + instr_len (to_opcode (c ! i))) j \<and> to_opcode (c ! j) = Flow OP_JUMPDEST))"
      using "1.IH" [OF True refl m1_def] "1.prems"(2) by (simp add: m1_def)
    then show ?thesis using True "1.prems"(2) by (auto simp: starts_step m1_def nth_list_update)
  next
    case False
    then show ?thesis using "1.prems" by (auto simp: analyze_loop.simps starts_end)
  qed
qed

lemma analyze_padding:
  obtains e where "length c \<le> e" "\<forall>j. starts c 0 j \<longrightarrow> j \<le> e"
    "padded_code (analyze c) = c @ replicate (e + 1 - length c) 0"
proof -
  obtain m e where me: "analyze_loop c 0 (replicate (length c) False) = (m, e)" by fastforce
  note E = analyze_loop_end [OF me]
  have "padded_code (analyze c) = c @ replicate (e + 1 - length c) 0"
    using E by (simp add: analyze_def me resize_prefix)
  with E that show ?thesis by metis
qed

lemma analyze_code [simp]: "code (analyze c) = c"
proof -
  obtain m e where me: "analyze_loop c 0 (replicate (length c) False) = (m, e)" by fastforce
  then show ?thesis using analyze_loop_end [OF me] by (simp add: analyze_def me resize_prefix)
qed

lemma analyze_map:
  "length (jumpdest_map (analyze c)) = length c"
  "j < length c \<Longrightarrow> jumpdest_map (analyze c) ! j = (starts c 0 j \<and> to_opcode (c ! j) = Flow OP_JUMPDEST)"
proof -
  obtain m e where me: "analyze_loop c 0 (replicate (length c) False) = (m, e)" by fastforce
  note M = analyze_loop_map [OF me]
  have "jumpdest_map (analyze c) = m" by (simp add: analyze_def me Let_def)
  then show "length (jumpdest_map (analyze c)) = length c"
    "j < length c \<Longrightarrow> jumpdest_map (analyze c) ! j = (starts c 0 j \<and> to_opcode (c ! j) = Flow OP_JUMPDEST)"
    using M by simp_all
qed

text \<open>A program counter at an instruction start is inside the padded code, immediates included.\<close>

lemma padded_instruction:
  assumes "starts c 0 pc"
  shows "pc < length (padded_code (analyze c))"
    and "pc < length c \<Longrightarrow> padded_code (analyze c) ! pc = c ! pc
      \<and> pc + instr_len (to_opcode (c ! pc)) < length (padded_code (analyze c))"
    and "\<not> pc < length c \<Longrightarrow> padded_code (analyze c) ! pc = 0"
proof -
  obtain e where e: "length c \<le> e" "\<forall>j. starts c 0 j \<longrightarrow> j \<le> e"
    "padded_code (analyze c) = c @ replicate (e + 1 - length c) 0"
    by (rule analyze_padding)
  have "pc \<le> e" using e(2) assms by blast
  then show "pc < length (padded_code (analyze c))" "\<not> pc < length c \<Longrightarrow> padded_code (analyze c) ! pc = 0"
    using e(1) by (simp_all add: e(3) nth_append)
  show "padded_code (analyze c) ! pc = c ! pc
      \<and> pc + instr_len (to_opcode (c ! pc)) < length (padded_code (analyze c))" if "pc < length c"
    using e(2) [rule_format, OF next_instr [OF assms that]] that e(1) by (simp add: e(3) nth_append)
qed

lemma jumpdest_contains_iff:
  assumes "length c < 2 ^ 63"
  shows "jumpdest_contains (jumpdest_map (analyze c)) dst \<longleftrightarrow> unat dst < length c
    \<and> starts c 0 (unat dst) \<and> to_opcode (c ! unat dst) = Flow OP_JUMPDEST"
proof -
  have "as_usize dst = unat dst" if "unat dst < length c" using that assms by (intro as_usize_small) simp
  then show ?thesis using assms
    by (auto simp: analyze_map jumpdest_contains_def word_less_nat_alt unat_of_nat_len)
qed
section \<open>The instructions do what their table entries say\<close>

text \<open>
  Each lemma takes the requirement of the table entry and gives its height change, so the checks
  made before an instruction are enough for it.
\<close>

lemma on_stack_runs:
  assumes "moves k (stack s) (f (stack s))" "state_ok s" "int (length (stack s)) + k \<le> int STACK_SIZE"
  shows "runs k s (on_stack f s)"
  using assms by (auto simp: on_stack_def runs_def moves_def frame_ok_def state_ok_def elim!: returns_mono)

lemma runs_exp: "state_ok s \<Longrightarrow> 2 \<le> length (stack s) \<Longrightarrow> runs (- 1) s (op_exp r s)"
proof -
  assume ok: "state_ok s" and len: "2 \<le> length (stack s)"
  obtain a p vs where st: "rev (stack s) = a # p # vs" using top_two [OF len] by blast
  have "0 \<le> (if p = 0 then 0 else exp_byte_cost r * (int (log2floor p) div 8 + 1))"
    by (simp add: exp_byte_cost_def)
  then show ?thesis using ok arg_cong [OF st, of length]
    by (simp add: op_exp_view [OF st ok] runs_def frame_ok_def state_ok_def Let_def)
qed

lemma runs_infallible: "returns (frame_ok k s) m \<Longrightarrow> runs k s (infallible m)"
  by (cases m) (simp_all add: infallible_def runs_def)

lemma runs_no_host: "runs k s m \<Longrightarrow> I h \<Longrightarrow> runs_host I k s (no_host m h)"
  by (auto simp: no_host_def runs_host_def runs_def ok_host_def elim!: returns_mono)

lemma runs_pushes:
  assumes "state_ok s" "length (stack s) < STACK_SIZE"
  shows "returns (frame_ok 1 s) (op_address s)" "returns (frame_ok 1 s) (op_caller s)"
    "returns (frame_ok 1 s) (op_callvalue s)" "returns (frame_ok 1 s) (state_push v s)"
  using assms unfolding op_address_def op_caller_def op_callvalue_def
  by (auto intro!: vcg simp: frame_ok_def)

lemma exec_arith_runs:
  assumes "state_ok s" "stack_height_required (arith_properties op) \<le> length (stack s)"
  shows "runs (stack_height_change (arith_properties op)) s (exec_arith L r op s)"
  using assms state_ok_height [OF assms(1)]
  by (cases op) (simp_all add: exec_arith_def Properties_new_def on_stack_runs step_rules runs_exp)

lemma exec_logic_runs:
  assumes "state_ok s" "stack_height_required (logic_properties op) \<le> length (stack s)"
  shows "runs (stack_height_change (logic_properties op)) s (exec_logic L op s)"
  using assms state_ok_height [OF assms(1)]
  by (cases op) (simp_all add: exec_logic_def Properties_new_def on_stack_runs step_rules)

definition can_push :: "Properties \<Rightarrow> ExecutionState \<Rightarrow> bool" where
  "can_push p s \<longleftrightarrow> stack_height_required p \<le> length (stack s)
     \<and> (0 < stack_height_change p \<longrightarrow> length (stack s) < STACK_SIZE)"

context host_contract
begin

lemma exec_env_runs:
  assumes "state_ok s" "I h" "can_push (env_properties op) s" "length (code c) < 2 ^ 63"
  shows "runs_host I (stack_height_change (env_properties op)) s (exec_env H L r c op s h)"
  using assms
  by (cases op) (simp_all add: exec_env_def can_push_def Properties_new_def runs_no_host runs_infallible
      step_rules runs_pushes runs_balance runs_extcodesize runs_extcodecopy runs_extcodehash)

lemma exec_block_runs:
  assumes "state_ok s" "I h" "can_push (block_properties op) s"
  shows "runs_host I (stack_height_change (block_properties op)) s (exec_block H op s h)"
  using assms
  by (cases op) (simp_all add: exec_block_def can_push_def Properties_new_def
      runs_txcontext runs_blockhash runs_selfbalance)

end
section \<open>One iteration\<close>

text \<open>
  What an instruction leaves for the loop: at the next instruction start with no more gas,
  with strictly less if the instruction has no base cost; or at the end of the frame.
\<close>

primrec control_ok :: "bool \<Rightarrow> byte list \<Rightarrow> ExecutionState \<Rightarrow> control \<Rightarrow> bool" where
  "control_ok strict c s (Next pc s') \<longleftrightarrow> starts c 0 pc \<and> state_ok s' \<and> message s' = message s
     \<and> gas_left s' \<le> gas_left s \<and> (strict \<longrightarrow> gas_left s' < gas_left s)"
| "control_ok strict c s (Break r s') \<longleftrightarrow> state_ok s' \<and> gas_left s' \<le> gas_left s"

abbreviation control_host ::
  "('h \<Rightarrow> bool) \<Rightarrow> bool \<Rightarrow> byte list \<Rightarrow> ExecutionState \<Rightarrow> ((StatusCode + control) \<times> 'h) option \<Rightarrow> bool" where
  "control_host I strict c s \<equiv> returns (ok_host I (\<lambda>ctl _. control_ok strict c s ctl))"

lemma then_next_ok:
  assumes "runs_host I k s m" "starts c 0 pc"
  shows "control_host I False c s (then_next pc m)"
  using assms unfolding then_next_def runs_host_def
  by (auto simp: frame_ok_def ok_host_def ok_with_def try_host_def elim!: returns_mono split: sum.splits)

lemma then_next_strict:
  assumes "runs_host I k s m" "returns (ok_host I (\<lambda>s' _. gas_left s' < gas_left s)) m" "starts c 0 pc"
  shows "control_host I True c s (then_next pc m)"
  using returns_conj [OF assms(1,2) [unfolded runs_host_def]] assms(3) unfolding then_next_def
  by (auto simp: frame_ok_def ok_host_def ok_with_def try_host_def elim!: returns_mono split: sum.splits)

lemma then_break_ok:
  assumes "runs_host I k s m"
  shows "control_host I strict c s (then_break r m)"
  using assms unfolding then_break_def runs_host_def
  by (auto simp: frame_ok_def ok_host_def ok_with_def try_host_def elim!: returns_mono split: sum.splits)

lemma exec_push_ok:
  assumes "state_ok s" "length (stack s) < STACK_SIZE" "1 \<le> n" "n \<le> 32"
    "starts c 0 pc" "pc < length c" "to_opcode (c ! pc) = PUSH n"
  shows "returns (control_ok False c s) (exec_push (analyze c) pc n s)"
proof -
  have l: "instr_len (PUSH n) = n + 1" using assms(3) by (simp add: instr_len_def)
  then have nxt: "starts c 0 (pc + (n + 1))" using next_instr [OF assms(5,6)] assms(7) by simp
  have len: "pc + (n + 1) < length (padded_code (analyze c))"
    using padded_instruction(2) [OF assms(5,6)] l assms(7) by simp
  have ok: "state_ok (s\<lparr>stack := stack s @ [v]\<rparr>)" for v
    using assms(1,2) by (simp add: state_ok_def)
  show ?thesis
    unfolding exec_push_def using nxt len assms(2-4) ok
    by (auto simp: op_push1_def op_push32_def op_push_view add.commute add.left_commute)
qed

lemma op_jump_ok:
  assumes "state_ok s" "1 \<le> length (stack s)" "length c < 2 ^ 63"
    and "R (Inl BadJumpDestination)"
    and "\<And>dst s'. \<lbrakk>state_ok s'; message s' = message s; gas_left s' = gas_left s;
      length (stack s) = Suc (length (stack s')); starts c 0 dst; dst < length c;
      to_opcode (c ! dst) = Flow OP_JUMPDEST\<rbrakk> \<Longrightarrow> R (Inr (dst, s'))"
  shows "returns R (op_jump (jumpdest_map (analyze c)) s)"
proof -
  have "as_usize d = unat d" if "unat d < length c" for d :: u256
    using that assms(3) by (intro as_usize_small) simp
  then show ?thesis unfolding op_jump_def using assms
    by (auto intro!: vcg simp: jumpdest_contains_iff)
qed

lemmas next_local = then_next_ok [OF runs_no_host]

lemmas next_rules = next_local [OF runs_mload] next_local [OF runs_mstore] next_local [OF runs_mstore8]
  next_local [OF on_stack_runs [where k = "- 1"]]
  next_local [OF runs_infallible [OF runs_sizes(1)]] next_local [OF runs_infallible [OF runs_pushes(4)]]

context host_contract
begin

lemma exec_flow_ok:
  assumes s: "state_ok s" "I h" "can_push (flow_properties op) s" "S \<longrightarrow> msg_is_static (message s)"
    and c: "length c < 2 ^ 63" "starts c 0 (pc + 1)"
  shows "control_host I (op = OP_SSTORE) c s (exec_flow H r (analyze c) pc op s h)"
proof (cases op)
  case OP_JUMP
  then show ?thesis using s c
    by (auto intro!: op_jump_ok simp: exec_flow_def can_push_def Properties_new_def)
next
  case OP_JUMPI
  then show ?thesis using s c length_ne(2) [of "stack s"]
    by (auto intro!: op_jump_ok vcg simp: exec_flow_def can_push_def Properties_new_def)
next
  case OP_SSTORE
  then show ?thesis using s c
    by (simp add: exec_flow_def can_push_def Properties_new_def then_next_strict [OF runs_sstore sstore_pays])
qed (use s c state_ok_gas [OF s(1)] state_ok_height [OF s(1)] in
    \<open>simp_all add: exec_flow_def can_push_def Properties_new_def next_rules then_next_ok [OF runs_sload]
      moves_pop\<close>)

lemma exec_system_ok:
  assumes s: "state_ok s" "I h" "can_push (system_properties op) s" "D \<le> msg_depth (message s) + 1"
      "S \<longrightarrow> msg_is_static (message s)"
    and c: "starts c 0 (pc + 1)"
  shows "control_host I (System op \<in> free_opcodes) c s (exec_system H r pc op s h)"
  using s c state_ok_height [OF s(1)]
  by (cases op) (simp_all add: exec_system_def can_push_def Properties_new_def free_opcodes_def
      then_next_ok [OF runs_create] then_next_ok [OF runs_call] then_break_ok [OF runs_no_host [OF runs_ret]]
      then_break_ok [OF runs_selfdestruct])

lemma exec_op_ok:
  assumes s: "state_ok s" "I h" "PROPERTIES op = Some p" "can_push p s" "D \<le> msg_depth (message s) + 1"
      "S \<longrightarrow> msg_is_static (message s)"
    and c: "length c < 2 ^ 63" "starts c 0 pc" "pc < length c" "op = to_opcode (c ! pc)"
  shows "control_host I (op \<in> free_opcodes) c s (exec_op H L r (analyze c) pc op s h)"
proof -
  have nxt: "starts c 0 (pc + 1)" if "instr_len op = 1" using next_instr [OF c(2,3)] c(4) that by simp
  have valid: "valid_opcode op" unfolding c(4) to_opcode_def
    using unsigned_less [where 'a = nat, of "c ! pc"] by (intro valid_opcode_of_byte) simp
  note len = state_ok_height [OF s(1)]
  show ?thesis
  proof (cases op)
    case (Arith x)
    then show ?thesis using s nxt
      by (simp add: exec_op_def free_opcodes_def instr_len_def can_push_def next_local [OF exec_arith_runs])
  next
    case (Logic x)
    then show ?thesis using s nxt
      by (simp add: exec_op_def free_opcodes_def instr_len_def can_push_def next_local [OF exec_logic_runs])
  next
    case (Env x)
    then show ?thesis using s nxt c(1)
      by (simp add: exec_op_def free_opcodes_def instr_len_def then_next_ok [OF exec_env_runs])
  next
    case (Block x)
    then show ?thesis using s nxt
      by (simp add: exec_op_def free_opcodes_def instr_len_def then_next_ok [OF exec_block_runs])
  next
    case (Flow x)
    then show ?thesis using s nxt c(1) exec_flow_ok [of s h x c pc r]
      by (simp add: exec_op_def free_opcodes_def instr_len_def)
  next
    case (System x)
    then show ?thesis using s nxt exec_system_ok [of s h x c pc r]
      by (simp add: exec_op_def instr_len_def)
  next
    case (PUSH n)
    then have "returns (control_ok False c s) (exec_push (analyze c) pc n s)"
      using s c valid by (intro exec_push_ok) (auto simp: can_push_def Properties_new_def)
    then show ?thesis using s(2) PUSH by (auto simp: exec_op_def free_opcodes_def elim!: returns_mono)
  next
    case (DUP n)
    then show ?thesis using s nxt valid len
      by (auto simp: exec_op_def free_opcodes_def instr_len_def can_push_def Properties_new_def
          next_local [OF on_stack_runs [where f = "op_dup n" and k = 1]] moves_dup)
  next
    case (SWAP n)
    then show ?thesis using s nxt valid len
      by (auto simp: exec_op_def free_opcodes_def instr_len_def can_push_def Properties_new_def
          next_local [OF on_stack_runs [where f = "op_swap n" and k = 0]] moves_swap)
  next
    case (LOG n)
    then show ?thesis using s nxt valid
      by (auto simp: exec_op_def free_opcodes_def instr_len_def can_push_def Properties_new_def
          then_next_ok [OF runs_log])
  next
    case (UNDEFINED n)
    then show ?thesis using s(3) by simp
  qed
qed

text \<open>The requirements leave exactly what the instruction needs.\<close>

lemma check_requirements_ok:
  assumes "state_ok s" "valid_opcode op"
  shows "returns (ok_with (\<lambda>s'. \<exists>p e. instruction_table r op = Some (Some e) \<and> PROPERTIES op = Some p
      \<and> can_push p s' \<and> state_ok s' \<and> message s' = message s \<and> stack s' = stack s
      \<and> gas_left s' + gas_cost e \<le> gas_left s \<and> gas_left s' \<le> gas_left s))
    (check_requirements (instruction_table r) s op)"
proof -
  obtain entry where t: "instruction_table r op = Some entry" using instruction_table_total by blast
  show ?thesis
  proof (cases entry)
    case None
    then show ?thesis by (simp add: check_requirements_def t)
  next
    case (Some e)
    obtain p where p: "PROPERTIES op = Some p" "gas_costs r op = Some (gas_cost e)"
      "entry_height_required e = stack_height_required p" "can_overflow_stack e \<longleftrightarrow> stack_height_change p > 0"
      using t Some by (metis instruction_table_entry)
    have b: "stack_height_required p \<le> 17" using properties_bounds [OF p(1) assms(2)] by simp
    have g: "small_cost (gas_cost e)"
      using cost_table_ok_all [of r] p(2) assms(2) by (force simp: cost_table_ok_def small_cost_def)
    show ?thesis unfolding check_requirements_def t Some using assms(1) g b p state_ok_height [OF assms(1)]
      by (auto intro!: vcg_charge simp: can_push_def stack_len_def Let_def STACK_SIZE_def)
  qed
qed

lemma control_ok_strict:
  assumes "control_ok strict c s1 ctl" "message s1 = message s" "gas_left s1 \<le> gas_left s"
    "strict \<or> gas_left s1 < gas_left s"
  shows "control_ok True c s ctl"
  using assms by (cases ctl) auto

lemma step_ok:
  assumes s: "state_ok s" "I h" "D \<le> msg_depth (message s) + 1" "S \<longrightarrow> msg_is_static (message s)" and c: "length c < 2 ^ 63" "starts c 0 pc"
  shows "control_host I True c s (step H L r (analyze c) pc s h)"
proof -
  define b where "b = padded_code (analyze c) ! pc"
  define op where "op = to_opcode b"
  have valid: "valid_opcode op" unfolding op_def to_opcode_def
    using unsigned_less [where 'a = nat, of b] by (intro valid_opcode_of_byte) simp
  have exec: "control_host I (op \<in> free_opcodes) c s1 (exec_op H L r (analyze c) pc op s1 h)"
    if s1: "state_ok s1" "PROPERTIES op = Some p" "can_push p s1" "message s1 = message s" for s1 p
  proof (cases "pc < length c")
    case True
    then have "op = to_opcode (c ! pc)" using padded_instruction(2) [OF c(2)] by (simp add: op_def b_def)
    then show ?thesis using exec_op_ok [OF s1(1) s(2) s1(2,3)] s(3,4) s1(4) c True by simp
  next
    case False
    then have "op = System OP_STOP"
      using padded_instruction(3) [OF c(2)]
      by (simp add: op_def b_def to_opcode_def opcode_of_byte_def single_opcodes_def)
    then show ?thesis using s1(1) s(2) by (simp add: exec_op_def exec_system_def)
  qed
  obtain entry where t: "instruction_table r op = Some entry" using instruction_table_total by blast
  show ?thesis
  proof (cases entry)
    case None
    then show ?thesis using padded_instruction(1) [OF c(2)] s(2)
      by (simp add: step_def b_def [symmetric] op_def [symmetric] t)
  next
    case (Some e)
    have "control_host I True c s (try_host (res, h) (\<lambda>state h. exec_op H L r (analyze c) pc op state h))"
      if "ok_with (\<lambda>s'. \<exists>p e. instruction_table r op = Some (Some e) \<and> PROPERTIES op = Some p
        \<and> can_push p s' \<and> state_ok s' \<and> message s' = message s \<and> stack s' = stack s
        \<and> gas_left s' + gas_cost e \<le> gas_left s \<and> gas_left s' \<le> gas_left s) res" for res
    proof (cases res)
      case (Inr s1)
      with that t Some obtain p where s1: "PROPERTIES op = Some p" "can_push p s1" "state_ok s1"
        "message s1 = message s" "gas_left s1 + gas_cost e \<le> gas_left s" "gas_left s1 \<le> gas_left s" by auto
      have "op \<in> free_opcodes \<or> 0 < gas_cost e"
        using positive_costs_all [of r] t Some instruction_table_entry [of r op e]
        by (auto simp: positive_costs_def)
      then have "op \<in> free_opcodes \<or> gas_left s1 < gas_left s" using s1(5) by linarith
      then have "control_ok (op \<in> free_opcodes) c s1 ctl \<Longrightarrow> control_ok True c s ctl" for ctl
        using control_ok_strict s1(4,6) by blast
      then show ?thesis using exec [OF s1(3,1,2,4)] Inr
        by (auto elim!: returns_mono ok_host_mono)
    qed (use s(2) in simp)
    then show ?thesis using padded_instruction(1) [OF c(2)] check_requirements_ok [OF s(1) valid, of r] Some
      by (auto simp: step_def b_def [symmetric] op_def [symmetric] t elim!: returns_mono)
  qed
qed

text \<open>The loop returns: by induction on the gas that is left.\<close>

lemma execute_message_ok:
  assumes "state_ok s" "I h" "D \<le> msg_depth (message s) + 1" "S \<longrightarrow> msg_is_static (message s)"
    "length c < 2 ^ 63" "starts c 0 pc"
  shows "returns (ok_host I (\<lambda>o' _. 0 \<le> so_gas_left o' \<and> so_gas_left o' \<le> gas_left s
      \<and> length (so_output_data o') < 2 ^ 63))
    (execute_message H L r (analyze c) pc s h)"
  using assms
proof (induction "nat (gas_left s)" arbitrary: s h pc rule: less_induct)
  case less
  have "control_host I True c s (step H L r (analyze c) pc s h)" using less.prems by (intro step_ok)
  then obtain res h' where st: "step H L r (analyze c) pc s h = Some (res, h')" and I: "I h'"
    and ok: "ok_with (control_ok True c s) res"
    by (auto simp: returns_ex ok_host_def)
  show ?case
  proof (cases res)
    case (Inl e)
    then show ?thesis using I by (subst execute_message.simps) (simp add: st)
  next
    case (Inr ctl)
    show ?thesis
    proof (cases ctl)
      case (Next pc' s')
      then have n: "starts c 0 pc'" "state_ok s'" "message s' = message s" "gas_left s' < gas_left s"
        using ok Inr by simp_all
      then have "nat (gas_left s') < nat (gas_left s)" using state_ok_gas [of s'] by simp
      then have "returns (ok_host I (\<lambda>o' _. 0 \<le> so_gas_left o' \<and> so_gas_left o' \<le> gas_left s'
          \<and> length (so_output_data o') < 2 ^ 63)) (execute_message H L r (analyze c) pc' s' h')"
        using less.hyps [of s' h' pc'] n I less.prems by simp
      then show ?thesis using n(4) Inr Next
        by (subst execute_message.simps) (auto simp: st elim!: returns_mono ok_host_mono)
    next
      case (Break b s')
      then show ?thesis using ok Inr I state_ok_gas [of s']
        by (subst execute_message.simps) (auto simp: st state_ok_def)
    qed
  qed
qed

lemma execute_ok:
  assumes "I h" "length c < 2 ^ 63" "message_ok D msg \<or> message_ok (D - 1) msg" "S \<longrightarrow> msg_is_static msg"
  shows "returns (\<lambda>(out, h'). I h' \<and> 0 \<le> out_gas_left out \<and> out_gas_left out \<le> msg_gas msg
      \<and> length (out_output_data out) < 2 ^ 63) (execute H L (analyze c) msg r h)"
proof -
  have s: "state_ok (ExecutionState_new msg)" "gas_left (ExecutionState_new msg) = msg_gas msg"
    "D \<le> msg_depth (message (ExecutionState_new msg)) + 1"
    "S \<longrightarrow> msg_is_static (message (ExecutionState_new msg))"
    using assms(3,4) by (auto simp: ExecutionState_new_def state_ok_def message_ok_def)
  note execute_message_ok [OF s(1) assms(1) s(3,4) assms(2) starts.here, of L r]
  then show ?thesis unfolding execute_def using s(2) assms(3)
    by (auto simp: successful_to_output_def message_ok_def ok_host_def ok_with_def elim!: returns_mono
        split: sum.splits)
qed

end

section \<open>Instruction starts from the bytes\<close>

text \<open>
  Where the instructions of a code start, from its bytes alone: \<open>0x60\<close> to \<open>0x7f\<close> push the one to 32
  bytes that follow, and every other byte is an instruction by itself.
\<close>

definition instruction_size :: "byte \<Rightarrow> nat" where
  "instruction_size b = (if 0x60 \<le> b \<and> b \<le> 0x7f then 1 + (unat b - 0x5f) else 1)"

inductive instruction_at :: "byte list \<Rightarrow> nat \<Rightarrow> bool" for c where
  first: "instruction_at c 0"
| after: "instruction_at c i \<Longrightarrow> i < length c \<Longrightarrow> instruction_at c (i + instruction_size (c ! i))"

lemma instr_len_size: "instr_len (to_opcode b) = instruction_size b"
proof (cases "96 \<le> unat b \<and> unat b \<le> 127")
  case True
  then show ?thesis
    by (simp add: instr_len_def to_opcode_def opcode_of_byte_def instruction_size_def word_le_nat_alt)
      auto
next
  case False
  then have "to_opcode b \<noteq> PUSH n" for n
    by (auto simp: to_opcode_def opcode_of_byte_def split: option.split dest!: find_SomeD single_opcodes_single)
  then show ?thesis using False
    by (auto simp: instr_len_def instruction_size_def word_le_nat_alt split: OpCode.split)
qed

lemma jumpdest_byte: "to_opcode b = Flow OP_JUMPDEST \<longleftrightarrow> b = 0x5b"
proof
  assume "to_opcode b = Flow OP_JUMPDEST"
  then have "unat b = 91" using to_u8_opcode_of_byte [of "unat b"] by (simp add: to_opcode_def)
  then show "b = 0x5b" by (simp add: word_unat_eq_iff)
qed (simp add: to_opcode_def opcode_of_byte_def single_opcodes_def)

lemma instruction_at_starts: "instruction_at c i = starts c 0 i"
proof
  show "starts c 0 i" if "instruction_at c i" using that
    by induction (auto simp flip: instr_len_size intro: starts.intros)
  show "instruction_at c i" if "starts c 0 i" using that
    by (induction "0 :: nat" i rule: starts.induct) (auto simp: instr_len_size intro: instruction_at.intros)
qed

section \<open>Properties\<close>

text \<open>C31: The jump table of analyzed code accepts exactly the destinations inside the code that hold the
  byte \<open>0x5b\<close> (\<open>JUMPDEST\<close>) and are reached from the start by walking over whole instructions, where \<open>0x60\<close>
  to \<open>0x7f\<close> (\<open>PUSH1\<close> to \<open>PUSH32\<close>) are followed by the one to 32 bytes they push: a \<open>0x5b\<close> byte among those is
  not a destination.\<close>

theorem jump_table_exact:
  assumes "length c < 2 ^ 63"
  shows "jumpdest_contains (jumpdest_map (analyze c)) dst \<longleftrightarrow>
    unat dst < length c \<and> c ! unat dst = 0x5b \<and> instruction_at c (unat dst)"
  using jumpdest_contains_iff [OF assms] by (auto simp: jumpdest_byte instruction_at_starts)

theorem jump_table_exact_witness:
  "\<not> jumpdest_contains (jumpdest_map (analyze (0x7f # replicate 32 0x5b @ [0x5b]))) 32
   \<and> jumpdest_contains (jumpdest_map (analyze (0x7f # replicate 32 0x5b @ [0x5b]))) 33"
proof -
  define c :: "byte list" where "c = 0x7f # replicate 32 0x5b @ [0x5b]"
  have l: "length c = 34" and z: "instruction_size (c ! 0) = 33" by (simp_all add: c_def instruction_size_def)
  have at: "i = 0 \<or> 33 \<le> i" if "instruction_at c i" for i using that by induction (auto simp: z)
  have "instruction_at c (0 + instruction_size (c ! 0))" using l by (intro instruction_at.intros) simp
  then have "instruction_at c 33" by (simp add: z)
  moreover have "\<not> instruction_at c 32" using at [of 32] by auto
  moreover have "c ! 33 = 0x5b" by (simp add: c_def nth_append)
  ultimately show ?thesis using jump_table_exact [of c 32] jump_table_exact [of c 33] l by (simp flip: c_def)
qed

text \<open>The padding of analyzed code is enough: wherever an instruction starts, its opcode and all its
  immediate bytes, and the byte after them, lie inside the padded code, and the end of the code
  reads as \<open>STOP\<close>. The code itself is kept.\<close>

theorem padded_code_covers_instructions:
  assumes "starts c 0 pc"
  shows "code (analyze c) = c \<and> pc < length (padded_code (analyze c))
    \<and> (pc < length c \<longrightarrow> padded_code (analyze c) ! pc = c ! pc
        \<and> pc + instr_len (to_opcode (c ! pc)) < length (padded_code (analyze c)))
    \<and> (length c \<le> pc \<longrightarrow> padded_code (analyze c) ! pc = 0)"
  using padded_instruction [OF assms] by auto

theorem padded_code_covers_instructions_witness:
  "0 + 33 < length (padded_code (analyze [0x7f]))"
proof -
  have "to_opcode 0x7f = PUSH 32" by (simp add: to_opcode_def opcode_of_byte_def single_opcodes_def)
  then show ?thesis using padded_code_covers_instructions [of "[0x7f]" 0]
    by (simp add: starts.intros instr_len_def)
qed

end
