(* ===== verification/IntraBlockState.thy ===== *)
theory IntraBlockState
  imports EvmTypes
begin

text \<open>
  The journaled state of a block, \<open>src/state/intra_block_state.rs\<close>, with the reversible changes of
  \<open>src/state/delta.rs\<close>, the objects of \<open>src/state/object.rs\<close> and the part of the trait \<open>State\<close>
  (\<open>src/state/interface.rs\<close>) that it reads.

  The database is a record of read functions, a parameter of every operation that consults it;
  the model is for a store whose reads succeed, as those of \<open>InMemoryState\<close> do. Hash maps are
  maps and hash sets are sets. The \<open>unwrap\<close>s of the source are kept: an operation whose result is
  an \<open>option\<close> gives \<open>None\<close> where the source would panic. The counter of incarnations is a natural
  number (it counts creations within one block and cannot reach \<open>2 ^ 64\<close>).

  The main result is that \<open>revert_to_snapshot\<close> undoes every sequence of operations: what it
  restores is everything the readers can see, although the caches of database reads stay.
\<close>

section \<open>Data\<close>

definition EMPTY_HASH :: h256 where
  "EMPTY_HASH = 0xc5d2460186f7233c927e7db2dcc703c0e500b653ca82273b7bfad8045d85a470"

record Account =
  acc_nonce :: u64
  acc_balance :: u256
  acc_code_hash :: h256

definition Account_default :: Account where
  "Account_default = \<lparr>acc_nonce = 0, acc_balance = 0, acc_code_hash = EMPTY_HASH\<rparr>"

record Object =
  obj_initial :: "Account option"
  obj_current :: "Account option"

record CommittedValue =
  cv_initial :: u256
  cv_original :: u256

record Storage =
  st_committed :: "u256 \<rightharpoonup> CommittedValue"
  st_current :: "u256 \<rightharpoonup> u256"

definition Storage_default :: Storage where
  "Storage_default = \<lparr>st_committed = Map.empty, st_current = Map.empty\<rparr>"

record Log =
  log_address :: address
  log_topics :: "h256 list"
  log_data :: "byte list"

datatype Delta =
    DCreate address
  | DUpdate address Object
  | DUpdateBalance address u256
  | DIncarnation address
  | DSelfdestruct address
  | DTouch address
  | DStorageChange address u256 u256
  | DStorageWipe address Storage
  | DStorageCreate address
  | DStorageAccess address u256
  | DAccountAccess address

text \<open>The reads of the trait \<open>State\<close>. Of a header only the parent hash is used.\<close>

record Database =
  read_account :: "address \<Rightarrow> Account option"
  read_code :: "h256 \<Rightarrow> byte list"
  read_storage :: "address \<Rightarrow> u256 \<Rightarrow> u256"
  read_header_parent :: "u64 \<Rightarrow> h256 \<Rightarrow> h256 option"

record Snapshot =
  snap_journal_size :: nat
  snap_log_size :: nat
  snap_refund :: u64

record IntraBlockState =
  objects :: "address \<rightharpoonup> Object"
  storage :: "address \<rightharpoonup> Storage"
  incarnations :: "address \<rightharpoonup> nat"
  existing_code :: "h256 \<rightharpoonup> byte list"
  new_code :: "h256 \<rightharpoonup> byte list"
  journal :: "Delta list"
  self_destructs :: "address set"
  logs :: "Log list"
  touched :: "address set"
  refund :: u64
  accessed_addresses :: "address set"
  accessed_storage_keys :: "address \<rightharpoonup> u256 set"

definition IntraBlockState_new :: IntraBlockState where
  "IntraBlockState_new = \<lparr>objects = Map.empty, storage = Map.empty, incarnations = Map.empty,
     existing_code = Map.empty, new_code = Map.empty, journal = [], self_destructs = {}, logs = [],
     touched = {}, refund = 0, accessed_addresses = {}, accessed_storage_keys = Map.empty\<rparr>"

text \<open>\<open>map.entry(k).or_default()\<close>: the value, and the map in which it is present.\<close>

definition or_default :: "('k \<rightharpoonup> 'v) \<Rightarrow> 'k \<Rightarrow> 'v \<Rightarrow> 'v" where
  "or_default m k d = (case m k of Some v \<Rightarrow> v | None \<Rightarrow> d)"

definition push_delta :: "Delta \<Rightarrow> IntraBlockState \<Rightarrow> IntraBlockState" where
  "push_delta d s = s\<lparr>journal := journal s @ [d]\<rparr>"

definition put_object :: "IntraBlockState \<Rightarrow> address \<Rightarrow> Object \<Rightarrow> IntraBlockState" where
  "put_object s a obj = s\<lparr>objects := (objects s)(a \<mapsto> obj)\<rparr>"

section \<open>Objects\<close>

definition get_object :: "Database \<Rightarrow> IntraBlockState \<Rightarrow> address \<Rightarrow> Object option \<times> IntraBlockState" where
  "get_object db s a =
     (case objects s a of
        Some obj \<Rightarrow> (Some obj, s)
      | None \<Rightarrow>
          (case read_account db a of
             Some account \<Rightarrow>
               (let obj = \<lparr>obj_initial = Some account, obj_current = Some account\<rparr>
                in (Some obj, put_object s a obj))
           | None \<Rightarrow> (None, s)))"

definition ensure_object :: "Database \<Rightarrow> IntraBlockState \<Rightarrow> address \<Rightarrow> IntraBlockState" where
  "ensure_object db s a =
     (case get_object db s a of
        (Some obj, s) \<Rightarrow>
          (if obj_current obj = None
           then put_object (push_delta (DUpdate a obj) s) a (obj\<lparr>obj_current := Some Account_default\<rparr>)
           else s)
      | (None, s) \<Rightarrow>
          put_object (push_delta (DCreate a) s) a
            \<lparr>obj_initial = None, obj_current = Some Account_default\<rparr>)"

definition get_or_create_object ::
  "Database \<Rightarrow> IntraBlockState \<Rightarrow> address \<Rightarrow> (Object \<times> IntraBlockState) option" where
  "get_or_create_object db s a = do {
     let s = ensure_object db s a;
     obj \<leftarrow> objects s a;
     Some (obj, s) }"

definition exists :: "Database \<Rightarrow> IntraBlockState \<Rightarrow> address \<Rightarrow> bool \<times> IntraBlockState" where
  "exists db s a =
     (case get_object db s a of
        (Some obj, s) \<Rightarrow> (obj_current obj \<noteq> None, s)
      | (None, s) \<Rightarrow> (False, s))"

definition is_dead :: "Database \<Rightarrow> IntraBlockState \<Rightarrow> address \<Rightarrow> bool \<times> IntraBlockState" where
  "is_dead db s a =
     (case get_object db s a of
        (Some obj, s) \<Rightarrow>
          (case obj_current obj of
             Some c \<Rightarrow> (acc_code_hash c = EMPTY_HASH \<and> acc_nonce c = 0 \<and> acc_balance c = 0, s)
           | None \<Rightarrow> (True, s))
      | (None, s) \<Rightarrow> (True, s))"

definition create_contract :: "Database \<Rightarrow> IntraBlockState \<Rightarrow> address \<Rightarrow> IntraBlockState" where
  "create_contract db s a =
     (let (prev, s) = get_object db s a;
          initial = (case prev of Some p \<Rightarrow> obj_initial p | None \<Rightarrow> None);
          cur = (case prev of
                   Some p \<Rightarrow> (case obj_current p of
                                Some pc \<Rightarrow> Account_default\<lparr>acc_balance := acc_balance pc\<rparr>
                              | None \<Rightarrow> Account_default)
                 | None \<Rightarrow> Account_default);
          s = push_delta (case prev of Some p \<Rightarrow> DUpdate a p | None \<Rightarrow> DCreate a) s;
          s = s\<lparr>incarnations := (incarnations s)(a \<mapsto> or_default (incarnations s) a 0 + 1)\<rparr>;
          s = push_delta (DIncarnation a) s;
          s = put_object s a \<lparr>obj_initial = initial, obj_current = Some cur\<rparr>
      in (case storage s a of
            Some removed \<Rightarrow>
              push_delta (DStorageWipe a removed) (s\<lparr>storage := (storage s)(a := None)\<rparr>)
          | None \<Rightarrow> push_delta (DStorageCreate a) s))"

definition destruct :: "Database \<Rightarrow> IntraBlockState \<Rightarrow> address \<Rightarrow> IntraBlockState" where
  "destruct db s a =
     (let s = s\<lparr>incarnations := (incarnations s)(a \<mapsto> or_default (incarnations s) a 0 + 1),
                storage := (storage s)(a := None)\<rparr>
      in (case get_object db s a of
            (Some obj, s) \<Rightarrow> put_object s a (obj\<lparr>obj_current := None\<rparr>)
          | (None, s) \<Rightarrow> s))"

definition record_selfdestruct :: "IntraBlockState \<Rightarrow> address \<Rightarrow> IntraBlockState" where
  "record_selfdestruct s a =
     (if a \<notin> self_destructs s
      then push_delta (DSelfdestruct a) (s\<lparr>self_destructs := insert a (self_destructs s)\<rparr>)
      else s)"

text \<open>
  The two loops over a hash set copy its elements into a vector first; the order is not
  specified, and the model takes the increasing one.
\<close>

definition destruct_selfdestructs :: "Database \<Rightarrow> IntraBlockState \<Rightarrow> IntraBlockState" where
  "destruct_selfdestructs db s =
     fold (\<lambda>a s. destruct db s a) (sorted_list_of_set (self_destructs s)) s"

definition destruct_touched_dead :: "Database \<Rightarrow> IntraBlockState \<Rightarrow> IntraBlockState" where
  "destruct_touched_dead db s =
     fold (\<lambda>a s. case is_dead db s a of (dead, s) \<Rightarrow> if dead then destruct db s a else s)
       (sorted_list_of_set (touched s)) s"

definition number_of_self_destructs :: "IntraBlockState \<Rightarrow> nat" where
  "number_of_self_destructs s = card (self_destructs s)"

section \<open>Balances, nonces, code\<close>

definition ibs_get_balance :: "Database \<Rightarrow> IntraBlockState \<Rightarrow> address \<Rightarrow> u256 \<times> IntraBlockState" where
  "ibs_get_balance db s a =
     (case get_object db s a of
        (obj, s) \<Rightarrow> (case Option.bind obj obj_current of Some c \<Rightarrow> acc_balance c | None \<Rightarrow> 0, s))"

definition RIPEMD_ADDRESS :: address where
  "RIPEMD_ADDRESS = 3"

definition touch :: "IntraBlockState \<Rightarrow> address \<Rightarrow> IntraBlockState" where
  "touch s a =
     (let inserted = (a \<notin> touched s);
          s = s\<lparr>touched := insert a (touched s)\<rparr>
      in if inserted \<and> a \<noteq> RIPEMD_ADDRESS then push_delta (DTouch a) s else s)"

text \<open>The body shared by the three operations on a balance.\<close>

definition update_balance ::
  "(u256 \<Rightarrow> u256) \<Rightarrow> Database \<Rightarrow> IntraBlockState \<Rightarrow> address \<Rightarrow> IntraBlockState option" where
  "update_balance f db s a = do {
     (obj, s) \<leftarrow> get_or_create_object db s a;
     c \<leftarrow> obj_current obj;
     let s = push_delta (DUpdateBalance a (acc_balance c)) s;
     let s = put_object s a (obj\<lparr>obj_current := Some (c\<lparr>acc_balance := f (acc_balance c)\<rparr>)\<rparr>);
     Some (touch s a) }"

definition set_balance :: "Database \<Rightarrow> IntraBlockState \<Rightarrow> address \<Rightarrow> u256 \<Rightarrow> IntraBlockState option" where
  "set_balance db s a v = update_balance (\<lambda>_. v) db s a"

definition add_to_balance :: "Database \<Rightarrow> IntraBlockState \<Rightarrow> address \<Rightarrow> u256 \<Rightarrow> IntraBlockState option" where
  "add_to_balance db s a addend = update_balance (\<lambda>b. b + addend) db s a"

definition subtract_from_balance ::
  "Database \<Rightarrow> IntraBlockState \<Rightarrow> address \<Rightarrow> u256 \<Rightarrow> IntraBlockState option" where
  "subtract_from_balance db s a subtrahend = update_balance (\<lambda>b. b - subtrahend) db s a"

definition get_nonce :: "Database \<Rightarrow> IntraBlockState \<Rightarrow> address \<Rightarrow> u64 \<times> IntraBlockState" where
  "get_nonce db s a =
     (case get_object db s a of
        (obj, s) \<Rightarrow> (case Option.bind obj obj_current of Some c \<Rightarrow> acc_nonce c | None \<Rightarrow> 0, s))"

definition set_nonce :: "Database \<Rightarrow> IntraBlockState \<Rightarrow> address \<Rightarrow> u64 \<Rightarrow> IntraBlockState option" where
  "set_nonce db s a nonce = do {
     (obj, s) \<leftarrow> get_or_create_object db s a;
     let s = push_delta (DUpdate a obj) s;
     c \<leftarrow> obj_current obj;
     Some (put_object s a (obj\<lparr>obj_current := Some (c\<lparr>acc_nonce := nonce\<rparr>)\<rparr>)) }"

definition get_code :: "Database \<Rightarrow> IntraBlockState \<Rightarrow> address \<Rightarrow> byte list option \<times> IntraBlockState" where
  "get_code db s a =
     (case get_object db s a of
        (obj, s) \<Rightarrow>
          (case Option.bind obj obj_current of
             Some c \<Rightarrow>
               (let code_hash = acc_code_hash c
                in if code_hash \<noteq> EMPTY_HASH then
                     (case new_code s code_hash of
                        Some bs \<Rightarrow> (Some bs, s)
                      | None \<Rightarrow>
                          (case existing_code s code_hash of
                             Some bs \<Rightarrow> (Some bs, s)
                           | None \<Rightarrow>
                               (let bs = read_code db code_hash
                                in (Some bs, s\<lparr>existing_code := (existing_code s)(code_hash \<mapsto> bs)\<rparr>))))
                   else (None, s))
           | None \<Rightarrow> (None, s)))"

definition ibs_get_code_hash :: "Database \<Rightarrow> IntraBlockState \<Rightarrow> address \<Rightarrow> h256 \<times> IntraBlockState" where
  "ibs_get_code_hash db s a =
     (case get_object db s a of
        (obj, s) \<Rightarrow> (case Option.bind obj obj_current of Some c \<Rightarrow> acc_code_hash c | None \<Rightarrow> EMPTY_HASH, s))"

definition set_code ::
  "lib \<Rightarrow> Database \<Rightarrow> IntraBlockState \<Rightarrow> address \<Rightarrow> byte list \<Rightarrow> IntraBlockState option" where
  "set_code L db s a bs = do {
     (obj, s) \<leftarrow> get_or_create_object db s a;
     let s = push_delta (DUpdate a obj) s;
     c \<leftarrow> obj_current obj;
     let h = keccak256 L bs;
     let s = put_object s a (obj\<lparr>obj_current := Some (c\<lparr>acc_code_hash := h\<rparr>)\<rparr>);
     Some (s\<lparr>new_code := (new_code s)(h \<mapsto> or_default (new_code s) h bs)\<rparr>) }"

section \<open>Accesses and storage\<close>

definition ibs_access_account :: "IntraBlockState \<Rightarrow> address \<Rightarrow> AccessStatus \<times> IntraBlockState" where
  "ibs_access_account s a =
     (if a \<notin> accessed_addresses s
      then (Cold, push_delta (DAccountAccess a) (s\<lparr>accessed_addresses := insert a (accessed_addresses s)\<rparr>))
      else (Warm, s))"

definition ibs_access_storage :: "IntraBlockState \<Rightarrow> address \<Rightarrow> u256 \<Rightarrow> AccessStatus \<times> IntraBlockState" where
  "ibs_access_storage s a key =
     (let keys = or_default (accessed_storage_keys s) a {};
          s' = s\<lparr>accessed_storage_keys := (accessed_storage_keys s)(a \<mapsto> insert key keys)\<rparr>
      in if key \<notin> keys then (Cold, push_delta (DStorageAccess a key) s') else (Warm, s'))"

definition ibs_get_storage ::
  "Database \<Rightarrow> IntraBlockState \<Rightarrow> address \<Rightarrow> u256 \<Rightarrow> bool \<Rightarrow> u256 \<times> IntraBlockState" where
  "ibs_get_storage db s a key original =
     (case get_object db s a of
        (Some obj, s) \<Rightarrow>
          (if obj_current obj \<noteq> None then
             (let st = or_default (storage s) a Storage_default;
                  s = s\<lparr>storage := (storage s)(a \<mapsto> st)\<rparr>
              in case (if original then None else st_current st key) of
                   Some v \<Rightarrow> (v, s)
                 | None \<Rightarrow>
                     (case st_committed st key of
                        Some v \<Rightarrow> (cv_original v, s)
                      | None \<Rightarrow>
                          (if obj_initial obj = None \<or> incarnations s a \<noteq> None then (0, s)
                           else
                             let val = read_storage db a key;
                                 st = st\<lparr>st_committed := (st_committed st)
                                           (key \<mapsto> \<lparr>cv_initial = val, cv_original = val\<rparr>)\<rparr>
                             in (val, s\<lparr>storage := (storage s)(a \<mapsto> st)\<rparr>))))
           else (0, s))
      | (None, s) \<Rightarrow> (0, s))"

definition get_current_storage :: "Database \<Rightarrow> IntraBlockState \<Rightarrow> address \<Rightarrow> u256 \<Rightarrow> u256 \<times> IntraBlockState" where
  "get_current_storage db s a key = ibs_get_storage db s a key False"

definition get_original_storage :: "Database \<Rightarrow> IntraBlockState \<Rightarrow> address \<Rightarrow> u256 \<Rightarrow> u256 \<times> IntraBlockState" where
  "get_original_storage db s a key = ibs_get_storage db s a key True"

definition put_current :: "IntraBlockState \<Rightarrow> address \<Rightarrow> u256 \<Rightarrow> u256 \<Rightarrow> IntraBlockState" where
  "put_current s a key v =
     (let st = or_default (storage s) a Storage_default
      in s\<lparr>storage := (storage s)(a \<mapsto> st\<lparr>st_current := (st_current st)(key \<mapsto> v)\<rparr>)\<rparr>)"

definition ibs_set_storage :: "Database \<Rightarrow> IntraBlockState \<Rightarrow> address \<Rightarrow> u256 \<Rightarrow> u256 \<Rightarrow> IntraBlockState" where
  "ibs_set_storage db s a key v =
     (let (previous, s) = get_current_storage db s a key
      in if previous = v then s
         else push_delta (DStorageChange a key previous) (put_current s a key v))"

section \<open>Snapshots and the ends of transactions\<close>

definition revert_delta :: "Delta \<Rightarrow> IntraBlockState \<Rightarrow> IntraBlockState option" where
  "revert_delta d s = (case d of
       DCreate a \<Rightarrow> Some (s\<lparr>objects := (objects s)(a := None)\<rparr>)
     | DUpdate a previous \<Rightarrow> Some (s\<lparr>objects := (objects s)(a \<mapsto> previous)\<rparr>)
     | DUpdateBalance a previous \<Rightarrow> do {
         obj \<leftarrow> objects s a;
         c \<leftarrow> obj_current obj;
         Some (s\<lparr>objects := (objects s)(a \<mapsto> obj\<lparr>obj_current := Some (c\<lparr>acc_balance := previous\<rparr>)\<rparr>)\<rparr>) }
     | DIncarnation a \<Rightarrow> do {
         n \<leftarrow> incarnations s a;
         Some (s\<lparr>incarnations := (incarnations s)(a := if n - 1 = 0 then None else Some (n - 1))\<rparr>) }
     | DSelfdestruct a \<Rightarrow> Some (s\<lparr>self_destructs := self_destructs s - {a}\<rparr>)
     | DTouch a \<Rightarrow> Some (s\<lparr>touched := touched s - {a}\<rparr>)
     | DStorageChange a key previous \<Rightarrow> Some (put_current s a key previous)
     | DStorageWipe a st \<Rightarrow> Some (s\<lparr>storage := (storage s)(a \<mapsto> st)\<rparr>)
     | DStorageCreate a \<Rightarrow> Some (s\<lparr>storage := (storage s)(a := None)\<rparr>)
     | DStorageAccess a key \<Rightarrow>
         Some (s\<lparr>accessed_storage_keys :=
           (accessed_storage_keys s)(a \<mapsto> or_default (accessed_storage_keys s) a {} - {key})\<rparr>)
     | DAccountAccess a \<Rightarrow> Some (s\<lparr>accessed_addresses := accessed_addresses s - {a}\<rparr>))"

definition take_snapshot :: "IntraBlockState \<Rightarrow> Snapshot" where
  "take_snapshot s = \<lparr>snap_journal_size = length (journal s), snap_log_size = length (logs s),
     snap_refund = refund s\<rparr>"

text \<open>The loop of \<open>revert_to_snapshot\<close>: \<open>n\<close> times, pop the last delta and revert it.\<close>

fun revert_last :: "nat \<Rightarrow> IntraBlockState \<Rightarrow> IntraBlockState option" where
  "revert_last 0 s = Some s"
| "revert_last (Suc n) s =
     (if journal s = [] then None
      else do {
        s \<leftarrow> revert_delta (last (journal s)) (s\<lparr>journal := butlast (journal s)\<rparr>);
        revert_last n s })"

definition revert_to_snapshot :: "IntraBlockState \<Rightarrow> Snapshot \<Rightarrow> IntraBlockState option" where
  "revert_to_snapshot s snap =
     (if length (journal s) < snap_journal_size snap then None
      else do {
        s \<leftarrow> revert_last (length (journal s) - snap_journal_size snap) s;
        Some (s\<lparr>logs := take (snap_log_size snap) (logs s), refund := snap_refund snap\<rparr>) })"

definition finalize_storage :: "Storage \<Rightarrow> Storage" where
  "finalize_storage st = \<lparr>
     st_committed = (\<lambda>key. case st_current st key of
         Some v \<Rightarrow> Some ((or_default (st_committed st) key \<lparr>cv_initial = 0, cv_original = 0\<rparr>)
                       \<lparr>cv_original := v\<rparr>)
       | None \<Rightarrow> st_committed st key),
     st_current = Map.empty\<rparr>"

definition finalize_transaction :: "IntraBlockState \<Rightarrow> IntraBlockState" where
  "finalize_transaction s = s\<lparr>storage := (\<lambda>a. map_option finalize_storage (storage s a))\<rparr>"

definition clear_journal_and_substate :: "IntraBlockState \<Rightarrow> IntraBlockState" where
  "clear_journal_and_substate s = s\<lparr>journal := [], self_destructs := {}, logs := [], touched := {},
     refund := 0, accessed_addresses := {}, accessed_storage_keys := Map.empty\<rparr>"

definition add_log :: "IntraBlockState \<Rightarrow> Log \<Rightarrow> IntraBlockState" where
  "add_log s l = s\<lparr>logs := logs s @ [l]\<rparr>"

definition add_refund :: "IntraBlockState \<Rightarrow> u64 \<Rightarrow> IntraBlockState" where
  "add_refund s addend = s\<lparr>refund := refund s + addend\<rparr>"

definition subtract_refund :: "IntraBlockState \<Rightarrow> u64 \<Rightarrow> IntraBlockState" where
  "subtract_refund s subtrahend = s\<lparr>refund := refund s - subtrahend\<rparr>"

section \<open>What the readers see\<close>

text \<open>
  The account behind an address, and the two storage values of a slot: the one the transaction
  has written so far and the one it started from. A cached read does not change them.
\<close>

definition account_view :: "Database \<Rightarrow> IntraBlockState \<Rightarrow> address \<Rightarrow> Account option" where
  "account_view db s a = (case objects s a of Some obj \<Rightarrow> obj_current obj | None \<Rightarrow> read_account db a)"

definition original_view :: "Database \<Rightarrow> IntraBlockState \<Rightarrow> address \<Rightarrow> u256 \<Rightarrow> u256" where
  "original_view db s a k =
     (case st_committed (or_default (storage s) a Storage_default) k of
        Some v \<Rightarrow> cv_original v
      | None \<Rightarrow> if read_account db a = None \<or> incarnations s a \<noteq> None then 0 else read_storage db a k)"

definition current_view :: "Database \<Rightarrow> IntraBlockState \<Rightarrow> address \<Rightarrow> u256 \<Rightarrow> u256" where
  "current_view db s a k =
     (case st_current (or_default (storage s) a Storage_default) k of
        Some v \<Rightarrow> v
      | None \<Rightarrow> original_view db s a k)"

text \<open>The invariant: the initial value of every object is the database's.\<close>

definition ibs_ok :: "Database \<Rightarrow> IntraBlockState \<Rightarrow> bool" where
  "ibs_ok db s \<longleftrightarrow> (\<forall>a obj. objects s a = Some obj \<longrightarrow> obj_initial obj = read_account db a)
     \<and> (\<forall>a n. incarnations s a = Some n \<longrightarrow> 0 < n)"

definition cached :: "Database \<Rightarrow> address \<Rightarrow> Object \<Rightarrow> bool" where
  "cached db a obj \<longleftrightarrow> obj_initial obj = read_account db a \<and> obj_current obj = read_account db a
     \<and> read_account db a \<noteq> None"

definition keys_view :: "IntraBlockState \<Rightarrow> address \<Rightarrow> u256 set" where
  "keys_view s a = or_default (accessed_storage_keys s) a {}"

text \<open>
  \<open>restored db s t\<close>: \<open>t\<close> shows its readers what \<open>s\<close> shows them, and may have cached more. The
  touched mark of the RIPEMD precompile is exempt: the source keeps it across reverts on purpose.
\<close>

definition restored :: "Database \<Rightarrow> IntraBlockState \<Rightarrow> IntraBlockState \<Rightarrow> bool" where
  "restored db s t \<longleftrightarrow>
     (\<forall>a. objects t a = objects s a \<or> objects s a = None \<and> (\<exists>obj. objects t a = Some obj \<and> cached db a obj))
     \<and> incarnations t = incarnations s
     \<and> (\<forall>a k. account_view db s a \<noteq> None \<longrightarrow> current_view db t a k = current_view db s a k
              \<and> original_view db t a k = original_view db s a k)
     \<and> self_destructs t = self_destructs s
     \<and> touched t - {RIPEMD_ADDRESS} = touched s - {RIPEMD_ADDRESS}
     \<and> accessed_addresses t = accessed_addresses s
     \<and> keys_view t = keys_view s"

lemma restored_refl [simp]: "restored db s s"
  by (simp add: restored_def)

lemma restored_account: "restored db s t \<Longrightarrow> account_view db t a = account_view db s a"
  by (auto simp: restored_def account_view_def cached_def split: option.splits) (metis option.sel option.simps(3))+

lemma restored_trans: assumes "restored db s t" "restored db t u" shows "restored db s u"
proof -
  have "objects u a = objects s a \<or> objects s a = None \<and> (\<exists>obj. objects u a = Some obj \<and> cached db a obj)" for a
    using assms unfolding restored_def by (metis option.simps(3))
  then show ?thesis using assms restored_account [OF assms(1)] unfolding restored_def by metis
qed

lemma restored_ok: "ibs_ok db s \<Longrightarrow> restored db s t \<Longrightarrow> ibs_ok db t"
  unfolding ibs_ok_def restored_def cached_def by (metis option.inject)

section \<open>Undoing deltas\<close>

fun revert_deltas :: "Delta list \<Rightarrow> IntraBlockState \<Rightarrow> IntraBlockState option" where
  "revert_deltas [] s = Some s"
| "revert_deltas (d # ds) s = do { s \<leftarrow> revert_delta d s; revert_deltas ds s }"

lemma revert_deltas_append: "revert_deltas (ds @ es) s = Option.bind (revert_deltas ds s) (revert_deltas es)"
  by (induction ds arbitrary: s) (auto split: bind_splits simp: bind_assoc)

text \<open>Reverting a delta does not read or write the journal, the log and the refund counter.\<close>

lemma put_current_journal: "put_current (s\<lparr>journal := j\<rparr>) a k v = (put_current s a k v)\<lparr>journal := j\<rparr>"
  by (simp add: put_current_def Let_def)

lemma revert_delta_journal:
  "revert_delta d (s\<lparr>journal := j\<rparr>) = map_option (\<lambda>s. s\<lparr>journal := j\<rparr>) (revert_delta d s)"
  by (cases d) (auto simp: revert_delta_def put_current_journal split: bind_splits)

lemma revert_delta_frame:
  "revert_delta d s = Some t \<Longrightarrow> journal t = journal s \<and> logs t = logs s \<and> refund t = refund s"
  by (auto simp: revert_delta_def put_current_def Let_def split: Delta.splits bind_splits)

lemma revert_deltas_journal:
  "revert_deltas ds (s\<lparr>journal := j\<rparr>) = map_option (\<lambda>s. s\<lparr>journal := j\<rparr>) (revert_deltas ds s)"
  by (induction ds arbitrary: s) (auto simp: revert_delta_journal split: bind_splits option.splits)

lemma revert_deltas_frame:
  "revert_deltas ds s = Some t \<Longrightarrow> journal t = journal s \<and> logs t = logs s \<and> refund t = refund s"
  by (induction ds arbitrary: s) (auto split: bind_splits dest: revert_delta_frame)

lemma revert_last_eq:
  "revert_last (length ds) (s\<lparr>journal := j @ ds\<rparr>) = map_option (\<lambda>s. s\<lparr>journal := j\<rparr>) (revert_deltas (rev ds) s)"
proof (induction ds arbitrary: s rule: rev_induct)
  case (snoc d ds)
  have "revert_last (length (ds @ [d])) (s\<lparr>journal := j @ ds @ [d]\<rparr>)
      = Option.bind (revert_delta d (s\<lparr>journal := j @ ds\<rparr>)) (revert_last (length ds))"
    by (simp add: butlast_append)
  then show ?case using snoc by (auto simp: revert_delta_journal split: bind_splits option.splits)
qed simp

text \<open>
  \<open>undoable db s s'\<close>: the operations between \<open>s\<close> and \<open>s'\<close> pushed deltas whose reversal, from any
  state that shows what \<open>s'\<close> shows, leads to one that shows what \<open>s\<close> shows.
\<close>

definition undoable :: "Database \<Rightarrow> IntraBlockState \<Rightarrow> IntraBlockState \<Rightarrow> bool" where
  "undoable db s s' \<longleftrightarrow> (\<exists>ds ls. journal s' = journal s @ ds \<and> logs s' = logs s @ ls
     \<and> (\<forall>t'. restored db s' t' \<longrightarrow> (\<exists>t. revert_deltas (rev ds) t' = Some t \<and> restored db s t)))"

lemma undoable_refl [simp]: "undoable db s s"
  unfolding undoable_def by (intro exI [of _ "[]"]) simp

lemma undoable_trans: assumes "undoable db s s1" "undoable db s1 s2" shows "undoable db s s2"
proof -
  obtain ds ls where 1: "journal s1 = journal s @ ds" "logs s1 = logs s @ ls"
    "\<And>t'. restored db s1 t' \<Longrightarrow> \<exists>t. revert_deltas (rev ds) t' = Some t \<and> restored db s t"
    using assms(1) unfolding undoable_def by blast
  obtain es ms where 2: "journal s2 = journal s1 @ es" "logs s2 = logs s1 @ ms"
    "\<And>t'. restored db s2 t' \<Longrightarrow> \<exists>t. revert_deltas (rev es) t' = Some t \<and> restored db s1 t"
    using assms(2) unfolding undoable_def by blast
  have "\<exists>t. revert_deltas (rev (ds @ es)) t' = Some t \<and> restored db s t" if "restored db s2 t'" for t'
    using 1(3) 2(3) [OF that] by (auto simp: revert_deltas_append)
  then show ?thesis unfolding undoable_def using 1(1,2) 2(1,2) by (intro exI [of _ "ds @ es"] exI [of _ "ls @ ms"]) simp
qed

text \<open>The views do not depend on the other fields.\<close>

lemma original_view_frame [simp]:
  "original_view db (s\<lparr>journal := j\<rparr>) = original_view db s" "original_view db (s\<lparr>logs := l\<rparr>) = original_view db s"
  "original_view db (s\<lparr>refund := r\<rparr>) = original_view db s" "original_view db (s\<lparr>objects := os\<rparr>) = original_view db s"
  "original_view db (s\<lparr>touched := ts\<rparr>) = original_view db s" "original_view db (s\<lparr>self_destructs := ts\<rparr>) = original_view db s"
  "original_view db (s\<lparr>new_code := c\<rparr>) = original_view db s" "original_view db (s\<lparr>existing_code := c\<rparr>) = original_view db s"
  "original_view db (s\<lparr>accessed_addresses := ts\<rparr>) = original_view db s"
  "original_view db (s\<lparr>accessed_storage_keys := ks\<rparr>) = original_view db s"
  by (auto simp: original_view_def fun_eq_iff)

lemma current_view_frame [simp]:
  "current_view db (s\<lparr>journal := j\<rparr>) = current_view db s" "current_view db (s\<lparr>logs := l\<rparr>) = current_view db s"
  "current_view db (s\<lparr>refund := r\<rparr>) = current_view db s" "current_view db (s\<lparr>objects := os\<rparr>) = current_view db s"
  "current_view db (s\<lparr>touched := ts\<rparr>) = current_view db s" "current_view db (s\<lparr>self_destructs := ts\<rparr>) = current_view db s"
  "current_view db (s\<lparr>new_code := c\<rparr>) = current_view db s" "current_view db (s\<lparr>existing_code := c\<rparr>) = current_view db s"
  "current_view db (s\<lparr>accessed_addresses := ts\<rparr>) = current_view db s"
  "current_view db (s\<lparr>accessed_storage_keys := ks\<rparr>) = current_view db s"
  by (intro ext; simp add: current_view_def split: option.split)+

lemma account_view_frame [simp]:
  "account_view db (s\<lparr>journal := j\<rparr>) = account_view db s" "account_view db (s\<lparr>logs := l\<rparr>) = account_view db s"
  "account_view db (s\<lparr>refund := r\<rparr>) = account_view db s" "account_view db (s\<lparr>storage := st\<rparr>) = account_view db s"
  "account_view db (s\<lparr>touched := ts\<rparr>) = account_view db s" "account_view db (s\<lparr>self_destructs := ts\<rparr>) = account_view db s"
  "account_view db (s\<lparr>new_code := c\<rparr>) = account_view db s" "account_view db (s\<lparr>existing_code := c\<rparr>) = account_view db s"
  "account_view db (s\<lparr>accessed_addresses := ts\<rparr>) = account_view db s"
  "account_view db (s\<lparr>accessed_storage_keys := ks\<rparr>) = account_view db s"
  "account_view db (s\<lparr>incarnations := is\<rparr>) = account_view db s"
  by (auto simp: account_view_def fun_eq_iff)

lemma keys_view_frame [simp]:
  "keys_view (s\<lparr>journal := j\<rparr>) = keys_view s" "keys_view (s\<lparr>logs := l\<rparr>) = keys_view s"
  "keys_view (s\<lparr>refund := r\<rparr>) = keys_view s" "keys_view (s\<lparr>objects := os\<rparr>) = keys_view s"
  "keys_view (s\<lparr>storage := st\<rparr>) = keys_view s" "keys_view (s\<lparr>incarnations := is\<rparr>) = keys_view s"
  "keys_view (s\<lparr>touched := ts\<rparr>) = keys_view s" "keys_view (s\<lparr>self_destructs := ts\<rparr>) = keys_view s"
  "keys_view (s\<lparr>new_code := c\<rparr>) = keys_view s" "keys_view (s\<lparr>existing_code := c\<rparr>) = keys_view s"
  "keys_view (s\<lparr>accessed_addresses := as\<rparr>) = keys_view s"
  by (auto simp: keys_view_def fun_eq_iff)

text \<open>A snapshot taken in \<open>s\<close> and reverted to after undoable operations.\<close>

lemma revert_to_snapshot_restores:
  assumes "undoable db s s'"
  shows "returns (\<lambda>t. restored db s t \<and> journal t = journal s \<and> logs t = logs s \<and> refund t = refund s)
    (revert_to_snapshot s' (take_snapshot s))"
proof -
  obtain ds ls where d: "journal s' = journal s @ ds" "logs s' = logs s @ ls"
    "\<And>t'. restored db s' t' \<Longrightarrow> \<exists>t. revert_deltas (rev ds) t' = Some t \<and> restored db s t"
    using assms unfolding undoable_def by blast
  obtain t where t: "revert_deltas (rev ds) s' = Some t" "restored db s t" using d(3) by (metis restored_refl)
  have s': "s' = s'\<lparr>journal := journal s @ ds\<rparr>" by (simp flip: d(1))
  have "revert_last (length ds) s' = Some (t\<lparr>journal := journal s\<rparr>)"
    by (subst s', subst revert_last_eq) (simp add: t(1))
  moreover have "restored db s (t\<lparr>journal := journal s, logs := l, refund := r\<rparr>)" for l r
    using t(2) by (simp add: restored_def)
  ultimately show ?thesis using d(1,2) revert_deltas_frame [OF t(1)]
    by (simp add: revert_to_snapshot_def take_snapshot_def)
qed

lemma undoable_restored:
  assumes "undoable db s s1" "restored db s1 t1" "journal t1 = journal s1" "logs t1 = logs s1"
  shows "undoable db s t1"
  using assms restored_trans unfolding undoable_def by metis

lemma undoable_cached: "restored db s s' \<Longrightarrow> journal s' = journal s \<Longrightarrow> logs s' = logs s \<Longrightarrow> undoable db s s'"
  by (rule undoable_restored [OF undoable_refl])

lemma undoable_delta:
  assumes "journal s' = journal s @ [d]" "logs s' = logs s"
    "\<And>t'. restored db s' t' \<Longrightarrow> returns (restored db s) (revert_delta d t')"
  shows "undoable db s s'"
proof -
  have "\<exists>t. revert_deltas (rev [d]) t' = Some t \<and> restored db s t" if "restored db s' t'" for t'
    using assms(3) [OF that] by (auto simp: returns_ex)
  then show ?thesis unfolding undoable_def using assms(1,2) by (intro exI [of _ "[d]"] exI [of _ "[]"]) simp
qed

section \<open>Every operation can be undone\<close>

text \<open>Changes of an object that stays alive.\<close>

lemma put_object_push [simp]: "put_object (push_delta d s) a obj = push_delta d (put_object s a obj)"
  by (simp add: put_object_def push_delta_def)

lemma put_object_views [simp]:
  "current_view db (put_object s a obj) = current_view db s" "original_view db (put_object s a obj) = original_view db s"
  "keys_view (put_object s a obj) = keys_view s"
  "account_view db (put_object s a obj) = (account_view db s)(a := obj_current obj)"
  "incarnations (put_object s a obj) = incarnations s" "self_destructs (put_object s a obj) = self_destructs s"
  "touched (put_object s a obj) = touched s" "accessed_addresses (put_object s a obj) = accessed_addresses s"
  "journal (put_object s a obj) = journal s" "logs (put_object s a obj) = logs s"
  "objects (put_object s a obj) = (objects s)(a \<mapsto> obj)" "storage (put_object s a obj) = storage s"
  "refund (put_object s a obj) = refund s" "new_code (put_object s a obj) = new_code s"
  "existing_code (put_object s a obj) = existing_code s"
  by (auto simp: put_object_def account_view_def fun_eq_iff)

lemma push_delta_views [simp]:
  "current_view db (push_delta d s) = current_view db s" "original_view db (push_delta d s) = original_view db s"
  "keys_view (push_delta d s) = keys_view s" "account_view db (push_delta d s) = account_view db s"
  "incarnations (push_delta d s) = incarnations s" "self_destructs (push_delta d s) = self_destructs s"
  "touched (push_delta d s) = touched s" "accessed_addresses (push_delta d s) = accessed_addresses s"
  "accessed_storage_keys (push_delta d s) = accessed_storage_keys s"
  "journal (push_delta d s) = journal s @ [d]" "logs (push_delta d s) = logs s"
  "objects (push_delta d s) = objects s" "storage (push_delta d s) = storage s"
  "new_code (push_delta d s) = new_code s" "existing_code (push_delta d s) = existing_code s"
  "refund (push_delta d s) = refund s"
  by (auto simp: push_delta_def)

lemma ibs_ok_frame [simp]:
  "ibs_ok db (push_delta d s) = ibs_ok db s" "ibs_ok db (s\<lparr>new_code := c\<rparr>) = ibs_ok db s"
  "ibs_ok db (s\<lparr>existing_code := c\<rparr>) = ibs_ok db s" "ibs_ok db (s\<lparr>storage := st\<rparr>) = ibs_ok db s"
  "ibs_ok db (s\<lparr>touched := ts\<rparr>) = ibs_ok db s" "ibs_ok db (s\<lparr>self_destructs := ts\<rparr>) = ibs_ok db s"
  "ibs_ok db (s\<lparr>accessed_addresses := ts\<rparr>) = ibs_ok db s" "ibs_ok db (s\<lparr>accessed_storage_keys := ks\<rparr>) = ibs_ok db s"
  "ibs_ok db (s\<lparr>logs := l\<rparr>) = ibs_ok db s" "ibs_ok db (s\<lparr>refund := r\<rparr>) = ibs_ok db s"
  "ibs_ok db (touch s a) = ibs_ok db s"
  by (simp_all add: ibs_ok_def touch_def Let_def)

lemma ibs_ok_put_object:
  "ibs_ok db s \<Longrightarrow> obj_initial obj = read_account db a \<Longrightarrow> ibs_ok db (put_object s a obj)"
  by (simp add: ibs_ok_def)

lemma ibs_ok_initial: "ibs_ok db s \<Longrightarrow> objects s a = Some obj \<Longrightarrow> obj_initial obj = read_account db a"
  by (simp add: ibs_ok_def)

lemma get_object_cases:
  obtains (found) obj where "get_object db s a = (Some obj, s)" "objects s a = Some obj"
  | (loaded) acc where "objects s a = None" "read_account db a = Some acc"
      "get_object db s a = (Some \<lparr>obj_initial = Some acc, obj_current = Some acc\<rparr>,
         put_object s a \<lparr>obj_initial = Some acc, obj_current = Some acc\<rparr>)"
  | (absent) "get_object db s a = (None, s)" "objects s a = None" "read_account db a = None"
  by (cases "objects s a"; cases "read_account db a") (auto simp: get_object_def Let_def)

lemma get_object_restored: "restored db s (snd (get_object db s a))"
  by (cases rule: get_object_cases [of db s a]) (auto simp: restored_def cached_def)

lemma get_object_frame:
  "journal (snd (get_object db s a)) = journal s" "logs (snd (get_object db s a)) = logs s"
  "storage (snd (get_object db s a)) = storage s" "incarnations (snd (get_object db s a)) = incarnations s"
  "refund (snd (get_object db s a)) = refund s"
  "new_code (snd (get_object db s a)) = new_code s" "existing_code (snd (get_object db s a)) = existing_code s"
  by (cases rule: get_object_cases [of db s a]; simp)+

lemma get_object_ok: "ibs_ok db s \<Longrightarrow> ibs_ok db (snd (get_object db s a))"
  using restored_ok get_object_restored by blast

lemma get_object_value:
  "get_object db s a = (obj, s') \<Longrightarrow> objects s' a = obj \<and> Option.bind obj obj_current = account_view db s a
     \<and> (obj = None \<longrightarrow> read_account db a = None)"
  by (cases rule: get_object_cases [of db s a]) (auto simp: account_view_def split: option.splits)

lemma get_object_undoable: "undoable db s (snd (get_object db s a))"
  by (intro undoable_cached get_object_restored) (simp_all add: get_object_frame)

lemma put_object_undo:
  assumes "restored db (put_object s a obj') t'" "obj_current obj' \<noteq> None" "objects s a = Some obj"
  shows "restored db s (t'\<lparr>objects := (objects t')(a \<mapsto> obj)\<rparr>)"
  using assms unfolding restored_def by (auto split: if_splits)

lemma update_undoable:
  assumes "objects s a = Some obj" "obj_current obj' \<noteq> None"
  shows "undoable db s (push_delta (DUpdate a obj) (put_object s a obj'))"
proof (rule undoable_delta)
  fix t' assume "restored db (push_delta (DUpdate a obj) (put_object s a obj')) t'"
  then have "restored db (put_object s a obj') t'" by (simp add: restored_def)
  from put_object_undo [OF this assms(2,1)] show "returns (restored db s) (revert_delta (DUpdate a obj) t')"
    by (simp add: revert_delta_def)
qed simp_all

lemma create_undoable:
  assumes "objects s a = None" "read_account db a = None"
  shows "undoable db s (push_delta (DCreate a) (put_object s a obj'))"
proof (rule undoable_delta)
  fix t' assume r: "restored db (push_delta (DCreate a) (put_object s a obj')) t'"
  have "account_view db s a = None" using assms by (simp add: account_view_def)
  then have "restored db s (t'\<lparr>objects := (objects t')(a := None)\<rparr>)"
    using r assms(1) unfolding restored_def by (auto split: if_splits) (metis option.distinct(1))+
  then show "returns (restored db s) (revert_delta (DCreate a) t')" by (simp add: revert_delta_def)
qed simp_all

lemma balance_undoable:
  assumes "objects s a = Some obj" "obj_current obj = Some c"
  shows "undoable db s (push_delta (DUpdateBalance a (acc_balance c))
    (put_object s a (obj\<lparr>obj_current := Some (c\<lparr>acc_balance := v\<rparr>)\<rparr>)))" (is "undoable db s (push_delta ?d (put_object s a ?o))")
proof (rule undoable_delta)
  fix t' assume "restored db (push_delta ?d (put_object s a ?o)) t'"
  then have r: "restored db (put_object s a ?o) t'" by (simp add: restored_def)
  then have "objects t' a = Some ?o" by (auto simp: restored_def split: if_splits)
  moreover have "obj\<lparr>obj_current := Some c\<rparr> = obj" using assms(2) by simp
  ultimately show "returns (restored db s) (revert_delta ?d t')"
    using put_object_undo [OF r _ assms(1)] by (simp add: revert_delta_def)
qed simp_all

lemma restored_ignores [simp]:
  "restored db (push_delta d s) t = restored db s t" "restored db s (push_delta d t) = restored db s t"
  "restored db s (t\<lparr>new_code := c\<rparr>) = restored db s t" "restored db s (t\<lparr>existing_code := c\<rparr>) = restored db s t"
  "restored db s (t\<lparr>refund := r\<rparr>) = restored db s t" "restored db s (t\<lparr>logs := l\<rparr>) = restored db s t"
  by (simp_all add: restored_def)

lemma ensure_object_cases:
  obtains (unchanged) obj c where "ensure_object db s a = snd (get_object db s a)"
      "objects (snd (get_object db s a)) a = Some obj" "obj_current obj = Some c"
  | (revived) obj where "ensure_object db s a = push_delta (DUpdate a obj)
        (put_object (snd (get_object db s a)) a (obj\<lparr>obj_current := Some Account_default\<rparr>))"
      "objects (snd (get_object db s a)) a = Some obj" "obj_current obj = None"
  | (created) "ensure_object db s a = push_delta (DCreate a)
        (put_object s a \<lparr>obj_initial = None, obj_current = Some Account_default\<rparr>)"
      "objects s a = None" "read_account db a = None"
  by (cases rule: get_object_cases [of db s a]; cases "obj_current (the (objects s a))")
    (auto simp: ensure_object_def)

lemma ensure_object_undoable: "undoable db s (ensure_object db s a)"
proof (cases rule: ensure_object_cases [of db s a])
  case (revived obj)
  then show ?thesis using update_undoable undoable_trans [OF get_object_undoable]
    by (metis Object.select_convs(2) Object.surjective Object.update_convs(2) option.simps(3))
qed (simp_all add: get_object_undoable create_undoable)

lemma ensure_object_live: "\<exists>obj c. objects (ensure_object db s a) a = Some obj \<and> obj_current obj = Some c"
  by (cases rule: ensure_object_cases [of db s a]) auto

lemma ensure_object_ok: "ibs_ok db s \<Longrightarrow> ibs_ok db (ensure_object db s a)"
  using get_object_ok [of db s a]
  by (cases rule: ensure_object_cases [of db s a]) (auto intro!: ibs_ok_put_object simp: ibs_ok_initial)

lemma get_or_create_object_spec:
  obtains s1 obj c where "get_or_create_object db s a = Some (obj, s1)" "s1 = ensure_object db s a"
    "objects s1 a = Some obj" "obj_current obj = Some c"
  using ensure_object_live [of db s a] by (auto simp: get_or_create_object_def)

lemma touch_undoable: "undoable db s (touch s a)"
proof (cases "a \<in> touched s \<or> a = RIPEMD_ADDRESS")
  case True
  then have "restored db s (touch s a)" "journal (touch s a) = journal s" "logs (touch s a) = logs s"
    by (auto simp: touch_def restored_def Let_def)
  then show ?thesis by (rule undoable_cached)
next
  case False
  then show ?thesis
    by (intro undoable_delta [of _ _ "DTouch a"])
      (auto simp: touch_def revert_delta_def Let_def, auto simp: restored_def)
qed

lemma touch_frame [simp]: "objects (touch s a) = objects s" "incarnations (touch s a) = incarnations s"
  by (simp_all add: touch_def push_delta_def Let_def)

lemma update_balance_spec:
  "returns (\<lambda>s'. undoable db s s' \<and> (ibs_ok db s \<longrightarrow> ibs_ok db s')) (update_balance f db s a)"
proof (cases rule: get_or_create_object_spec [of db s a])
  case (1 s1 obj c)
  define s2 where "s2 = push_delta (DUpdateBalance a (acc_balance c))
    (put_object s1 a (obj\<lparr>obj_current := Some (c\<lparr>acc_balance := f (acc_balance c)\<rparr>)\<rparr>))"
  have "update_balance f db s a = Some (touch s2 a)"
    using 1 by (simp add: update_balance_def s2_def)
  moreover have "undoable db s (touch s2 a)"
    using undoable_trans [OF undoable_trans [OF ensure_object_undoable [of db s a] balance_undoable [OF 1(3,4) [unfolded 1(2)]]]
      touch_undoable, of "f (acc_balance c)" a] 1(2) by (simp add: s2_def)
  moreover have "ibs_ok db s \<longrightarrow> ibs_ok db (touch s2 a)"
    using ensure_object_ok [of db s a] 1 by (auto intro!: ibs_ok_put_object dest: ibs_ok_initial simp: s2_def)
  ultimately show ?thesis by simp
qed

lemma set_nonce_spec:
  "returns (\<lambda>s'. undoable db s s' \<and> (ibs_ok db s \<longrightarrow> ibs_ok db s')) (set_nonce db s a n)"
proof (cases rule: get_or_create_object_spec [of db s a])
  case (1 s1 obj c)
  define s2 where "s2 = push_delta (DUpdate a obj)
    (put_object s1 a (obj\<lparr>obj_current := Some (c\<lparr>acc_nonce := n\<rparr>)\<rparr>))"
  have "set_nonce db s a n = Some s2"
    using 1 by (simp add: set_nonce_def s2_def)
  moreover have "undoable db s s2" unfolding s2_def 1(2)
    by (rule undoable_trans [OF ensure_object_undoable update_undoable]) (use 1 in simp_all)
  moreover have "ibs_ok db s \<longrightarrow> ibs_ok db s2"
    using ensure_object_ok [of db s a] 1 by (auto intro!: ibs_ok_put_object dest: ibs_ok_initial simp: s2_def)
  ultimately show ?thesis by simp
qed

lemma set_code_spec:
  "returns (\<lambda>s'. undoable db s s' \<and> (ibs_ok db s \<longrightarrow> ibs_ok db s')) (set_code L db s a bs)"
proof (cases rule: get_or_create_object_spec [of db s a])
  case (1 s1 obj c)
  define h where "h = keccak256 L bs"
  define s2 where "s2 = push_delta (DUpdate a obj)
    (put_object s1 a (obj\<lparr>obj_current := Some (c\<lparr>acc_code_hash := h\<rparr>)\<rparr>))"
  define s3 where "s3 = s2\<lparr>new_code := (new_code s2)(h \<mapsto> or_default (new_code s2) h bs)\<rparr>"
  have "set_code L db s a bs = Some s3"
    using 1 by (simp add: set_code_def s3_def s2_def h_def Let_def)
  moreover have "undoable db s s2" unfolding s2_def 1(2)
    by (rule undoable_trans [OF ensure_object_undoable update_undoable]) (use 1 in simp_all)
  then have "undoable db s s3" by (rule undoable_restored) (simp_all add: s3_def)
  moreover have "ibs_ok db s \<longrightarrow> ibs_ok db s3"
    using ensure_object_ok [of db s a] 1 by (auto intro!: ibs_ok_put_object dest: ibs_ok_initial simp: s3_def s2_def)
  ultimately show ?thesis by simp
qed

lemma record_selfdestruct_undoable: "undoable db s (record_selfdestruct s a)"
proof (cases "a \<in> self_destructs s")
  case False
  then show ?thesis
    by (intro undoable_delta [of _ _ "DSelfdestruct a"])
      (auto simp: record_selfdestruct_def revert_delta_def, auto simp: restored_def)
qed (simp add: record_selfdestruct_def)

lemma access_account_undoable: "undoable db s (snd (ibs_access_account s a))"
proof (cases "a \<in> accessed_addresses s")
  case False
  then show ?thesis
    by (intro undoable_delta [of _ _ "DAccountAccess a"])
      (auto simp: ibs_access_account_def revert_delta_def, auto simp: restored_def)
qed (simp add: ibs_access_account_def)

lemma keys_view_put: "keys_view (s\<lparr>accessed_storage_keys := (accessed_storage_keys s)(a \<mapsto> ks)\<rparr>) = (keys_view s)(a := ks)"
  by (auto simp: keys_view_def or_default_def fun_eq_iff)

lemma access_storage_undoable: "undoable db s (snd (ibs_access_storage s a k))"
proof (cases "k \<in> keys_view s a")
  case True
  then have "restored db s (snd (ibs_access_storage s a k))"
    by (auto simp: ibs_access_storage_def restored_def keys_view_put keys_view_def [symmetric] insert_absorb)
  then show ?thesis using True
    by (intro undoable_cached) (auto simp: ibs_access_storage_def keys_view_def)
next
  case False
  then show ?thesis
    by (intro undoable_delta [of _ _ "DStorageAccess a k"])
      (auto simp: ibs_access_storage_def revert_delta_def keys_view_def [symmetric] Let_def,
       auto simp: restored_def keys_view_put)
qed

text \<open>Storage reads fill caches, and give the views.\<close>

lemma storage_view_cong:
  assumes "\<And>a. or_default (storage t) a Storage_default = or_default (storage s) a Storage_default"
    "incarnations t = incarnations s"
  shows "current_view db t = current_view db s" "original_view db t = original_view db s"
  using assms by (auto simp: current_view_def original_view_def fun_eq_iff split: option.splits)

lemma or_default_upd: "or_default (m(k \<mapsto> v)) k' d = (if k' = k then v else or_default m k' d)"
  by (simp add: or_default_def)

lemma commit_read_views:
  assumes "st_committed (or_default (storage s) a Storage_default) k = None"
    "read_account db a \<noteq> None" "incarnations s a = None"
  defines "st \<equiv> or_default (storage s) a Storage_default"
  defines "t \<equiv> s\<lparr>storage := (storage s)(a \<mapsto> st\<lparr>st_committed := (st_committed st)
      (k \<mapsto> \<lparr>cv_initial = read_storage db a k, cv_original = read_storage db a k\<rparr>)\<rparr>)\<rparr>"
  shows "current_view db t = current_view db s" "original_view db t = original_view db s"
proof -
  show o: "original_view db t = original_view db s"
    using assms(1-3) by (auto simp: original_view_def t_def st_def or_default_upd fun_eq_iff)
  show "current_view db t = current_view db s"
    unfolding current_view_def o by (auto simp: t_def st_def or_default_upd fun_eq_iff)
qed

lemma restored_storage:
  "current_view db (s\<lparr>storage := x\<rparr>) = current_view db s \<Longrightarrow>
   original_view db (s\<lparr>storage := x\<rparr>) = original_view db s \<Longrightarrow> restored db s (s\<lparr>storage := x\<rparr>)"
  by (simp add: restored_def)

definition read_spec ::
  "Database \<Rightarrow> IntraBlockState \<Rightarrow> address \<Rightarrow> u256 \<Rightarrow> bool \<Rightarrow> u256 \<times> IntraBlockState \<Rightarrow> bool" where
  "read_spec db s a k original r \<longleftrightarrow> fst r = (if account_view db s a = None then 0
      else if original then original_view db s a k else current_view db s a k)
    \<and> restored db s (snd r) \<and> journal (snd r) = journal s \<and> logs (snd r) = logs s"

lemma ibs_get_storage_spec:
  assumes ok: "ibs_ok db s"
  shows "read_spec db s a k original (ibs_get_storage db s a k original)"
proof -
  obtain obj s1 where g: "get_object db s a = (obj, s1)" by fastforce
  have r: "restored db s s1" and f: "journal s1 = journal s" "logs s1 = logs s"
      "storage s1 = storage s" "incarnations s1 = incarnations s"
    using get_object_restored [of db s a] get_object_frame [of db s a] by (simp_all add: g)
  note v = get_object_value [OF g]
  have views: "current_view db s1 = current_view db s" "original_view db s1 = original_view db s"
    using f by (auto intro: storage_view_cong)
  show ?thesis
  proof (cases "account_view db s a")
    case None
    then show ?thesis using v r f by (cases obj) (auto simp: ibs_get_storage_def g read_spec_def)
  next
    case (Some c)
    then obtain ob where ob: "obj = Some ob" "obj_current ob = Some c" using v by (cases obj) auto
    have init: "obj_initial ob = read_account db a"
      using restored_ok [OF ok r] v ob(1) by (auto simp: ibs_ok_def)
    define st where "st = or_default (storage s) a Storage_default"
    define s2 where "s2 = s1\<lparr>storage := (storage s)(a \<mapsto> st)\<rparr>"
    have v2: "current_view db s2 = current_view db s1" "original_view db s2 = original_view db s1"
      by (intro storage_view_cong; simp add: s2_def st_def f or_default_upd)+
    have s2i: "incarnations s2 = incarnations s" by (simp add: s2_def f)
    from v2 have r2: "restored db s s2"
      using restored_trans [OF r restored_storage] by (simp add: s2_def)
    show ?thesis
    proof (cases "\<not> (original = False \<and> st_current st k \<noteq> None) \<and> st_committed st k = None
        \<and> obj_initial ob \<noteq> None \<and> incarnations s a = None")
      case False
      then have "ibs_get_storage db s a k original
          = (if original then original_view db s a k else current_view db s a k, s2)"
        using ob init f(4) s2i
        by (auto simp: ibs_get_storage_def g f st_def [symmetric] s2_def [symmetric] original_view_def
            current_view_def Let_def split: option.splits)
      then show ?thesis using r2 f Some by (simp add: read_spec_def s2_def)
    next
      case True
      define s3 where "s3 = s1\<lparr>storage := (storage s)(a \<mapsto> st\<lparr>st_committed := (st_committed st)
          (k \<mapsto> \<lparr>cv_initial = read_storage db a k, cv_original = read_storage db a k\<rparr>)\<rparr>)\<rparr>"
      have "ibs_get_storage db s a k original = (read_storage db a k, s3)"
        using ob True
        by (auto simp: ibs_get_storage_def g f st_def [symmetric] s3_def Let_def split: option.splits)
      moreover have "current_view db s3 = current_view db s1" "original_view db s3 = original_view db s1"
        using commit_read_views [of s1 a k db] True init by (simp_all add: s3_def st_def f)
      then have "restored db s s3" using restored_trans [OF r restored_storage] by (simp add: s3_def)
      moreover have "original_view db s a k = read_storage db a k"
          "original = False \<Longrightarrow> current_view db s a k = read_storage db a k"
        using True init by (auto simp: original_view_def current_view_def st_def)
      ultimately show ?thesis using f Some by (simp add: read_spec_def s3_def)
    qed
  qed
qed

lemma put_current_current:
  "current_view db (put_current s a k v) = (\<lambda>b l. if b = a \<and> l = k then v else current_view db s b l)"
  by (auto simp: current_view_def original_view_def put_current_def or_default_upd Let_def fun_eq_iff
      split: option.splits)

lemma put_current_original: "original_view db (put_current s a k v) = original_view db s"
  by (auto simp: original_view_def put_current_def or_default_upd Let_def fun_eq_iff)

lemma put_current_frame [simp]:
  "objects (put_current s a k v) = objects s" "incarnations (put_current s a k v) = incarnations s"
  "account_view db (put_current s a k v) = account_view db s" "keys_view (put_current s a k v) = keys_view s"
  "self_destructs (put_current s a k v) = self_destructs s" "touched (put_current s a k v) = touched s"
  "accessed_addresses (put_current s a k v) = accessed_addresses s"
  "journal (put_current s a k v) = journal s" "logs (put_current s a k v) = logs s"
  "ibs_ok db (put_current s a k v) = ibs_ok db s"
  by (simp_all add: put_current_def Let_def)

lemma set_storage_undoable:
  assumes "ibs_ok db s"
  shows "undoable db s (ibs_set_storage db s a k v)"
proof -
  obtain previous s1 where g: "get_current_storage db s a k = (previous, s1)" by fastforce
  then have rs: "read_spec db s a k False (previous, s1)"
    using ibs_get_storage_spec [OF assms, of a k False] by (simp add: get_current_storage_def)
  have u1: "undoable db s s1" using rs by (intro undoable_cached) (simp_all add: read_spec_def)
  show ?thesis
  proof (cases "previous = v")
    case False
    have "undoable db s1 (push_delta (DStorageChange a k previous) (put_current s1 a k v))"
    proof (rule undoable_delta)
      fix t' assume "restored db (push_delta (DStorageChange a k previous) (put_current s1 a k v)) t'"
      then have r: "restored db (put_current s1 a k v) t'" by simp
      have "current_view db s1 a k = previous" if "account_view db s1 a \<noteq> None"
        using rs that restored_account [of db s s1 a] by (auto simp: read_spec_def restored_def)
      then have "restored db s1 (put_current t' a k previous)"
        using r unfolding restored_def by (auto simp: put_current_current put_current_original)
      then show "returns (restored db s1) (revert_delta (DStorageChange a k previous) t')"
        by (simp add: revert_delta_def)
    qed simp_all
    then show ?thesis using u1 False undoable_trans by (simp add: ibs_set_storage_def g)
  qed (use u1 in \<open>simp add: ibs_set_storage_def g\<close>)
qed

lemma set_storage_ok: "ibs_ok db s \<Longrightarrow> ibs_ok db (ibs_set_storage db s a k v)"
  using ibs_get_storage_spec [of db s a k False] restored_ok
  by (auto simp: ibs_set_storage_def get_current_storage_def read_spec_def Let_def split: prod.splits)

text \<open>
  Contract creation changes three things at once; its three deltas are undone together, and only
  after the last one is the old storage visible again.
\<close>

lemma storage_views_local:
  assumes "storage t b = storage s b" "incarnations t b = incarnations s b"
  shows "current_view db t b k = current_view db s b k" "original_view db t b k = original_view db s b k"
  using assms by (auto simp: current_view_def original_view_def or_default_def split: option.splits)

definition creation_deltas :: "IntraBlockState \<Rightarrow> address \<Rightarrow> Delta list" where
  "creation_deltas s a =
     [case objects s a of Some p \<Rightarrow> DUpdate a p | None \<Rightarrow> DCreate a, DIncarnation a,
      case storage s a of Some st \<Rightarrow> DStorageWipe a st | None \<Rightarrow> DStorageCreate a]"

definition created_object :: "IntraBlockState \<Rightarrow> address \<Rightarrow> Object" where
  "created_object s a = \<lparr>
     obj_initial = (case objects s a of Some p \<Rightarrow> obj_initial p | None \<Rightarrow> None),
     obj_current = Some (case Option.bind (objects s a) obj_current of
         Some pc \<Rightarrow> Account_default\<lparr>acc_balance := acc_balance pc\<rparr> | None \<Rightarrow> Account_default)\<rparr>"

lemma create_contract_fields:
  defines "s1 \<equiv> \<lambda>db s a. snd (get_object db s a)"
  shows "objects (create_contract db s a) = (objects (s1 db s a))(a \<mapsto> created_object (s1 db s a) a)"
    "storage (create_contract db s a) = (storage s)(a := None)"
    "incarnations (create_contract db s a) = (incarnations s)(a \<mapsto> or_default (incarnations s) a 0 + 1)"
    "journal (create_contract db s a) = journal s @ creation_deltas (s1 db s a) a"
    "logs (create_contract db s a) = logs s" "self_destructs (create_contract db s a) = self_destructs s"
    "touched (create_contract db s a) = touched s" "accessed_addresses (create_contract db s a) = accessed_addresses s"
    "keys_view (create_contract db s a) = keys_view s" "refund (create_contract db s a) = refund s"
proof -
  obtain prev t where g: "get_object db s a = (prev, t)" by fastforce
  have v: "objects t a = prev" using get_object_value [OF g] by simp
  have f: "storage t = storage s" "incarnations t = incarnations s" "journal t = journal s" "logs t = logs s"
    "refund t = refund s" "self_destructs t = self_destructs s" "touched t = touched s"
    "accessed_addresses t = accessed_addresses s" "keys_view t = keys_view s"
    using g by (auto simp: get_object_def Let_def split: option.splits)
  have "create_contract db s a = (case storage s a of
      Some removed \<Rightarrow> push_delta (DStorageWipe a removed) ((put_object (push_delta (DIncarnation a)
          (push_delta (case prev of Some p \<Rightarrow> DUpdate a p | None \<Rightarrow> DCreate a) t
            \<lparr>incarnations := (incarnations s)(a \<mapsto> or_default (incarnations s) a 0 + 1)\<rparr>)) a
            (created_object t a))\<lparr>storage := (storage s)(a := None)\<rparr>)
    | None \<Rightarrow> push_delta (DStorageCreate a) (put_object (push_delta (DIncarnation a)
          (push_delta (case prev of Some p \<Rightarrow> DUpdate a p | None \<Rightarrow> DCreate a) t
            \<lparr>incarnations := (incarnations s)(a \<mapsto> or_default (incarnations s) a 0 + 1)\<rparr>)) a
            (created_object t a)))"
    by (auto simp: create_contract_def g created_object_def v f Let_def split: option.splits)
  note c = this
  show "objects (create_contract db s a) = (objects (s1 db s a))(a \<mapsto> created_object (s1 db s a) a)"
    "storage (create_contract db s a) = (storage s)(a := None)"
    "incarnations (create_contract db s a) = (incarnations s)(a \<mapsto> or_default (incarnations s) a 0 + 1)"
    "journal (create_contract db s a) = journal s @ creation_deltas (s1 db s a) a"
    "logs (create_contract db s a) = logs s" "self_destructs (create_contract db s a) = self_destructs s"
    "touched (create_contract db s a) = touched s" "accessed_addresses (create_contract db s a) = accessed_addresses s"
    "keys_view (create_contract db s a) = keys_view s" "refund (create_contract db s a) = refund s"
    by (auto simp: c s1_def g f v creation_deltas_def fun_eq_iff split: option.splits)
qed

lemma creation_deltas_undo:
  assumes "incarnations t' a = Some (or_default (incarnations s) a 0 + 1)" "incarnations s a \<noteq> Some 0"
  shows "revert_deltas (rev (creation_deltas s a)) t' = Some (t'\<lparr>
      storage := (storage t')(a := storage s a), incarnations := (incarnations t')(a := incarnations s a),
      objects := (objects t')(a := objects s a)\<rparr>)"
proof -
  have "(if or_default (incarnations s) a 0 = 0 then None else Some (or_default (incarnations s) a 0)) = incarnations s a"
    using assms(2) by (auto simp: or_default_def split: option.splits)
  then show ?thesis using assms(1)
    by (auto simp: creation_deltas_def revert_delta_def split: option.splits)
qed

lemma create_contract_undoable:
  assumes ok: "ibs_ok db s"
  shows "undoable db s (create_contract db s a)"
proof -
  define s1 where "s1 = snd (get_object db s a)"
  define s' where "s' = create_contract db s a"
  note c = create_contract_fields [of db s a, folded s1_def s'_def]
  have f: "storage s1 = storage s" "incarnations s1 = incarnations s" "journal s1 = journal s" "logs s1 = logs s"
    by (simp_all add: s1_def get_object_frame)
  have g: "self_destructs s1 = self_destructs s" "touched s1 = touched s"
    "accessed_addresses s1 = accessed_addresses s" "keys_view s1 = keys_view s"
    unfolding s1_def by (auto simp: get_object_def Let_def split: option.splits)
  have "\<exists>t. revert_deltas (rev (creation_deltas s1 a)) t' = Some t \<and> restored db s1 t" if r: "restored db s' t'" for t'
  proof -
    define t where "t = t'\<lparr>storage := (storage t')(a := storage s1 a),
      incarnations := (incarnations t')(a := incarnations s1 a), objects := (objects t')(a := objects s1 a)\<rparr>"
    have i: "incarnations t' = (incarnations s)(a \<mapsto> or_default (incarnations s) a 0 + 1)"
      using r by (simp add: restored_def c)
    have "incarnations s1 a \<noteq> Some 0" using ok f(2) by (auto simp: ibs_ok_def)
    then have t: "revert_deltas (rev (creation_deltas s1 a)) t' = Some t"
      unfolding t_def using i f(2) by (intro creation_deltas_undo) simp_all
    have "current_view db t b k = current_view db s1 b k \<and> original_view db t b k = original_view db s1 b k"
      if live: "account_view db s1 b \<noteq> None" for b k
    proof (cases "b = a")
      case True
      then show ?thesis using storage_views_local [of t a s1] by (simp add: t_def)
    next
      case False
      then have "account_view db s' b = account_view db s1 b" by (simp add: account_view_def c)
      then have "current_view db t' b k = current_view db s' b k" "original_view db t' b k = original_view db s' b k"
        using r live by (auto simp: restored_def)
      moreover have "current_view db s' b k = current_view db s1 b k" "original_view db s' b k = original_view db s1 b k"
        using False by (auto intro!: storage_views_local simp: c f)
      moreover have "current_view db t b k = current_view db t' b k" "original_view db t b k = original_view db t' b k"
        using False by (auto intro!: storage_views_local simp: t_def)
      ultimately show ?thesis by simp
    qed
    moreover have "objects t b = objects s1 b \<or> objects s1 b = None \<and> (\<exists>obj. objects t b = Some obj \<and> cached db b obj)" for b
      using r unfolding restored_def c t_def by (cases "b = a") (simp_all, metis fun_upd_other)
    moreover have "incarnations t = incarnations s1" using i by (auto simp: t_def f)
    ultimately have "restored db s1 t"
      using r unfolding restored_def by (simp add: t_def c g)
    with t show ?thesis by blast
  qed
  then have "undoable db s1 s'"
    unfolding undoable_def using c(4,5) f(3,4) by (intro exI [of _ "creation_deltas s1 a"] exI [of _ "[]"]) simp
  then show ?thesis using undoable_trans [OF get_object_undoable] by (simp add: s1_def s'_def)
qed

lemma create_contract_ok:
  assumes "ibs_ok db s" shows "ibs_ok db (create_contract db s a)"
proof -
  have ok: "ibs_ok db (snd (get_object db s a))" using get_object_ok assms .
  have "obj_initial (created_object (snd (get_object db s a)) a) = read_account db a"
    using ok get_object_value [of db s a "fst (get_object db s a)" "snd (get_object db s a)"]
    by (auto simp: created_object_def ibs_ok_initial split: option.splits)
  then have "ibs_ok db (put_object (snd (get_object db s a)) a (created_object (snd (get_object db s a)) a))"
    by (intro ibs_ok_put_object ok)
  then show ?thesis using assms
    by (simp add: ibs_ok_def create_contract_fields or_default_def split: option.splits)
qed

section \<open>The read operations\<close>

lemma reads_undoable:
  "undoable db s (snd (exists db s a))" "undoable db s (snd (is_dead db s a))"
  "undoable db s (snd (ibs_get_balance db s a))" "undoable db s (snd (get_nonce db s a))"
  "undoable db s (snd (ibs_get_code_hash db s a))" "undoable db s (snd (get_code db s a))"
proof -
  obtain obj s1 where g: "get_object db s a = (obj, s1)" by fastforce
  have u: "undoable db s s1" using get_object_undoable [of db s a] by (simp add: g)
  then show "undoable db s (snd (exists db s a))" "undoable db s (snd (is_dead db s a))"
    "undoable db s (snd (ibs_get_balance db s a))" "undoable db s (snd (get_nonce db s a))"
    "undoable db s (snd (ibs_get_code_hash db s a))"
    by (auto simp: exists_def is_dead_def ibs_get_balance_def get_nonce_def ibs_get_code_hash_def g split: option.splits)
  have "undoable db s (s1\<lparr>existing_code := c\<rparr>)" for c
    using u by (rule undoable_restored) simp_all
  with u show "undoable db s (snd (get_code db s a))"
    by (auto simp: get_code_def g Let_def split: option.splits)
qed

lemma reads_ok:
  assumes "ibs_ok db s"
  shows "ibs_ok db (snd (exists db s a))" "ibs_ok db (snd (is_dead db s a))"
    "ibs_ok db (snd (ibs_get_balance db s a))" "ibs_ok db (snd (get_nonce db s a))"
    "ibs_ok db (snd (ibs_get_code_hash db s a))" "ibs_ok db (snd (get_code db s a))"
proof -
  obtain obj s1 where g: "get_object db s a = (obj, s1)" by fastforce
  have "ibs_ok db s1" using get_object_ok [OF assms, of a] by (simp add: g)
  then show "ibs_ok db (snd (exists db s a))" "ibs_ok db (snd (is_dead db s a))"
    "ibs_ok db (snd (ibs_get_balance db s a))" "ibs_ok db (snd (get_nonce db s a))"
    "ibs_ok db (snd (ibs_get_code_hash db s a))" "ibs_ok db (snd (get_code db s a))"
    by (auto simp: exists_def is_dead_def ibs_get_balance_def get_nonce_def ibs_get_code_hash_def get_code_def g
        Let_def split: option.splits)
qed

text \<open>What they return is determined by the account view.\<close>

definition dead_account :: "Account option \<Rightarrow> bool" where
  "dead_account acc = (case acc of None \<Rightarrow> True
     | Some c \<Rightarrow> acc_code_hash c = EMPTY_HASH \<and> acc_nonce c = 0 \<and> acc_balance c = 0)"

lemma reads_value:
  "fst (exists db s a) = (account_view db s a \<noteq> None)"
  "fst (is_dead db s a) = dead_account (account_view db s a)"
  "fst (ibs_get_balance db s a) = (case account_view db s a of Some c \<Rightarrow> acc_balance c | None \<Rightarrow> 0)"
  "fst (get_nonce db s a) = (case account_view db s a of Some c \<Rightarrow> acc_nonce c | None \<Rightarrow> 0)"
  "fst (ibs_get_code_hash db s a) = (case account_view db s a of Some c \<Rightarrow> acc_code_hash c | None \<Rightarrow> EMPTY_HASH)"
proof -
  obtain obj s1 where g: "get_object db s a = (obj, s1)" by fastforce
  note v = get_object_value [OF g]
  show "fst (exists db s a) = (account_view db s a \<noteq> None)"
    "fst (is_dead db s a) = dead_account (account_view db s a)"
    "fst (ibs_get_balance db s a) = (case account_view db s a of Some c \<Rightarrow> acc_balance c | None \<Rightarrow> 0)"
    "fst (get_nonce db s a) = (case account_view db s a of Some c \<Rightarrow> acc_nonce c | None \<Rightarrow> 0)"
    "fst (ibs_get_code_hash db s a) = (case account_view db s a of Some c \<Rightarrow> acc_code_hash c | None \<Rightarrow> EMPTY_HASH)"
    using v by (auto 4 4 simp: exists_def is_dead_def ibs_get_balance_def get_nonce_def ibs_get_code_hash_def g
        dead_account_def split: option.splits dest: sym)
qed

lemma add_log_undoable: "undoable db s (add_log s l)"
  unfolding undoable_def add_log_def
  by (intro exI [of _ "[]"] exI [of _ "[l]"]) (simp add: restored_def)

lemma refund_undoable: "undoable db s (add_refund s n)" "undoable db s (subtract_refund s n)"
  by (intro undoable_cached; simp add: add_refund_def subtract_refund_def)+

section \<open>The end of a transaction\<close>

text \<open>Finalizing makes the written values the original ones and changes nothing else.\<close>

lemma finalize_views:
  "original_view db (finalize_transaction s) = current_view db s"
  "current_view db (finalize_transaction s) = current_view db s"
proof -
  have o: "or_default (storage (finalize_transaction s)) a Storage_default
      = finalize_storage (or_default (storage s) a Storage_default)" for a
    by (auto simp: finalize_transaction_def or_default_def finalize_storage_def Storage_default_def split: option.splits)
  have i: "incarnations (finalize_transaction s) = incarnations s" by (simp add: finalize_transaction_def)
  show 1: "original_view db (finalize_transaction s) = current_view db s"
    by (auto simp: original_view_def current_view_def o i finalize_storage_def fun_eq_iff split: option.splits)
  show "current_view db (finalize_transaction s) = current_view db s"
    by (simp add: current_view_def [of db "finalize_transaction s"] 1 o finalize_storage_def fun_eq_iff)
qed

lemma finalize_account: "account_view db (finalize_transaction s) = account_view db s"
  by (simp add: finalize_transaction_def)

text \<open>Destruction leaves no account and no storage behind, and touches nothing else.\<close>

lemma destruct_views:
  shows "account_view db (destruct db s a) = (account_view db s)(a := None)"
    "current_view db (destruct db s a) = (current_view db s)(a := \<lambda>_. 0)"
    "original_view db (destruct db s a) = (original_view db s)(a := \<lambda>_. 0)"
    "self_destructs (destruct db s a) = self_destructs s" "touched (destruct db s a) = touched s"
proof -
  define s0 where "s0 = s\<lparr>incarnations := (incarnations s)(a \<mapsto> or_default (incarnations s) a 0 + 1),
                storage := (storage s)(a := None)\<rparr>"
  have v: "current_view db s0 = (current_view db s)(a := \<lambda>_. 0)"
      "original_view db s0 = (original_view db s)(a := \<lambda>_. 0)"
    by (auto simp: s0_def current_view_def original_view_def or_default_def Storage_default_def fun_eq_iff
        split: option.splits)
  have w: "account_view db s0 = account_view db s" by (simp add: s0_def)
  have p: "self_destructs s0 = self_destructs s" "touched s0 = touched s" by (simp_all add: s0_def)
  obtain obj s1 where g: "get_object db s0 a = (obj, s1)" by fastforce
  have "storage s1 = storage s0" "incarnations s1 = incarnations s0"
    using get_object_frame [of db s0 a] by (simp_all add: g)
  then have v1: "current_view db s1 = current_view db s0" "original_view db s1 = original_view db s0"
    by (auto intro!: storage_view_cong)
  have w1: "account_view db s1 = account_view db s0"
    using restored_account [OF get_object_restored [of db s0 a]] by (auto simp: g)
  have p1: "self_destructs s1 = self_destructs s0" "touched s1 = touched s0"
    using g by (auto simp: get_object_def Let_def split: option.splits)
  have d: "destruct db s a = (case obj of Some obj \<Rightarrow> put_object s1 a (obj\<lparr>obj_current := None\<rparr>) | None \<Rightarrow> s1)"
    unfolding destruct_def s0_def [symmetric] Let_def g by (simp split: option.splits)
  have "account_view db s a = None" if "obj = None" using get_object_value [OF g] that w by simp
  then show "account_view db (destruct db s a) = (account_view db s)(a := None)"
    by (cases obj) (auto simp: d w w1)
  show "current_view db (destruct db s a) = (current_view db s)(a := \<lambda>_. 0)"
    "original_view db (destruct db s a) = (original_view db s)(a := \<lambda>_. 0)"
    "self_destructs (destruct db s a) = self_destructs s" "touched (destruct db s a) = touched s"
    by (cases obj; simp add: d v v1 p p1)+
qed

lemma destruct_all_views:
  "account_view db (fold (\<lambda>a s. destruct db s a) as s) = (\<lambda>a. if a \<in> set as then None else account_view db s a)"
  "current_view db (fold (\<lambda>a s. destruct db s a) as s) = (\<lambda>a k. if a \<in> set as then 0 else current_view db s a k)"
  by (induction as arbitrary: s) (auto simp: destruct_views fun_eq_iff)

lemma destruct_selfdestructs_views:
  assumes "finite (self_destructs s)"
  shows "account_view db (destruct_selfdestructs db s)
      = (\<lambda>a. if a \<in> self_destructs s then None else account_view db s a)"
    "current_view db (destruct_selfdestructs db s)
      = (\<lambda>a k. if a \<in> self_destructs s then 0 else current_view db s a k)"
  using assms by (simp_all add: destruct_selfdestructs_def destruct_all_views)

lemma is_dead_views:
  "account_view db (snd (is_dead db s a)) = account_view db s" "current_view db (snd (is_dead db s a)) = current_view db s"
  "touched (snd (is_dead db s a)) = touched s"
  by (cases rule: get_object_cases [of db s a];
      auto simp: is_dead_def account_view_def fun_eq_iff split: option.splits)+

lemma destruct_touched_dead_loop:
  "account_view db (fold (\<lambda>a s. case is_dead db s a of (dead, s) \<Rightarrow> if dead then destruct db s a else s) as s)
     = (\<lambda>a. if a \<in> set as \<and> dead_account (account_view db s a) then None else account_view db s a)"
proof (induction as arbitrary: s)
  case (Cons b as)
  define s1 where "s1 = (case is_dead db s b of (dead, s) \<Rightarrow> if dead then destruct db s b else s)"
  have "account_view db s1 = (if dead_account (account_view db s b) then (account_view db s)(b := None) else account_view db s)"
    using reads_value(2) [of db s b] is_dead_views(1) [of db s b]
    by (auto simp: s1_def destruct_views split: prod.splits)
  then show ?case using Cons.IH [of s1] by (auto simp: s1_def [symmetric] dead_account_def fun_eq_iff)
qed simp

lemma destruct_touched_dead_view:
  assumes "finite (touched s)"
  shows "account_view db (destruct_touched_dead db s)
    = (\<lambda>a. if a \<in> touched s \<and> dead_account (account_view db s a) then None else account_view db s a)"
  using assms by (simp add: destruct_touched_dead_def destruct_touched_dead_loop)

section \<open>The operations as a state machine, and properties\<close>

text \<open>The journaled operations as the steps of a state machine.\<close>

inductive ibs_step :: "lib \<Rightarrow> Database \<Rightarrow> IntraBlockState \<Rightarrow> IntraBlockState \<Rightarrow> bool" for L db where
  step_create_contract: "ibs_step L db s (create_contract db s a)"
| step_record_selfdestruct: "ibs_step L db s (record_selfdestruct s a)"
| step_set_balance: "set_balance db s a v = Some s' \<Longrightarrow> ibs_step L db s s'"
| step_add_to_balance: "add_to_balance db s a v = Some s' \<Longrightarrow> ibs_step L db s s'"
| step_subtract_from_balance: "subtract_from_balance db s a v = Some s' \<Longrightarrow> ibs_step L db s s'"
| step_touch: "ibs_step L db s (touch s a)"
| step_set_nonce: "set_nonce db s a n = Some s' \<Longrightarrow> ibs_step L db s s'"
| step_set_code: "set_code L db s a bs = Some s' \<Longrightarrow> ibs_step L db s s'"
| step_access_account: "ibs_step L db s (snd (ibs_access_account s a))"
| step_access_storage: "ibs_step L db s (snd (ibs_access_storage s a k))"
| step_get_storage: "ibs_step L db s (snd (ibs_get_storage db s a k original))"
| step_set_storage: "ibs_step L db s (ibs_set_storage db s a k v)"
| step_exists: "ibs_step L db s (snd (exists db s a))"
| step_is_dead: "ibs_step L db s (snd (is_dead db s a))"
| step_get_balance: "ibs_step L db s (snd (ibs_get_balance db s a))"
| step_get_nonce: "ibs_step L db s (snd (get_nonce db s a))"
| step_get_code: "ibs_step L db s (snd (get_code db s a))"
| step_get_code_hash: "ibs_step L db s (snd (ibs_get_code_hash db s a))"
| step_add_log: "ibs_step L db s (add_log s l)"
| step_add_refund: "ibs_step L db s (add_refund s n)"
| step_subtract_refund: "ibs_step L db s (subtract_refund s n)"

lemma record_selfdestruct_ok: "ibs_ok db (record_selfdestruct s a) = ibs_ok db s"
  by (simp add: record_selfdestruct_def Let_def)

lemma access_ok: "ibs_ok db (snd (ibs_access_account s a)) = ibs_ok db s"
  "ibs_ok db (snd (ibs_access_storage s a k)) = ibs_ok db s"
  by (simp_all add: ibs_access_account_def ibs_access_storage_def Let_def)

lemma get_storage_step: "ibs_ok db s \<Longrightarrow> undoable db s (snd (ibs_get_storage db s a k o'))
    \<and> ibs_ok db (snd (ibs_get_storage db s a k o'))"
  using ibs_get_storage_spec [of db s a k o'] by (auto simp: read_spec_def intro: undoable_cached restored_ok)

lemmas journaled = create_contract_undoable create_contract_ok record_selfdestruct_undoable record_selfdestruct_ok
  touch_undoable access_account_undoable access_storage_undoable access_ok get_storage_step set_storage_undoable
  set_storage_ok reads_undoable reads_ok add_log_undoable refund_undoable

lemma update_spec:
  "update_balance f db s a = Some s' \<Longrightarrow> ibs_ok db s \<Longrightarrow> undoable db s s' \<and> ibs_ok db s'"
  using update_balance_spec [of db s f a] by simp

lemma ibs_step_undoable: "ibs_step L db s s' \<Longrightarrow> ibs_ok db s \<Longrightarrow> undoable db s s' \<and> ibs_ok db s'"
proof (induction rule: ibs_step.induct)
  case (step_set_nonce s a n s') then show ?case using set_nonce_spec [of db s a n] by simp
next
  case (step_set_code s a bs s') then show ?case using set_code_spec [of db s L a bs] by simp
next
  case (step_add_log s l) then show ?case using add_log_undoable by (simp add: add_log_def)
next
  case (step_add_refund s l) then show ?case using refund_undoable by (simp add: add_refund_def)
next
  case (step_subtract_refund s l) then show ?case using refund_undoable by (simp add: subtract_refund_def)
qed (auto simp: journaled set_balance_def add_to_balance_def subtract_from_balance_def dest: update_spec)

lemma ibs_steps_undoable:
  assumes "(ibs_step L db)\<^sup>*\<^sup>* s s'" "ibs_ok db s"
  shows "undoable db s s' \<and> ibs_ok db s'"
  using assms by (induction rule: rtranclp_induct) (auto dest: ibs_step_undoable intro: undoable_trans)

text \<open>What a state shows to its readers.\<close>

definition same_reads :: "Database \<Rightarrow> IntraBlockState \<Rightarrow> IntraBlockState \<Rightarrow> bool" where
  "same_reads db s t \<longleftrightarrow> (\<forall>a.
     fst (exists db t a) = fst (exists db s a) \<and> fst (is_dead db t a) = fst (is_dead db s a)
     \<and> fst (ibs_get_balance db t a) = fst (ibs_get_balance db s a) \<and> fst (get_nonce db t a) = fst (get_nonce db s a)
     \<and> fst (ibs_get_code_hash db t a) = fst (ibs_get_code_hash db s a)
     \<and> fst (ibs_access_account t a) = fst (ibs_access_account s a)
     \<and> (\<forall>k. fst (get_current_storage db t a k) = fst (get_current_storage db s a k)
          \<and> fst (get_original_storage db t a k) = fst (get_original_storage db s a k)
          \<and> fst (ibs_access_storage t a k) = fst (ibs_access_storage s a k)))"

lemma storage_reads:
  assumes "ibs_ok db s"
  shows "fst (get_current_storage db s a k) = (if account_view db s a = None then 0 else current_view db s a k)"
    "fst (get_original_storage db s a k) = (if account_view db s a = None then 0 else original_view db s a k)"
  using ibs_get_storage_spec [OF assms, of a k]
  by (auto simp: get_current_storage_def get_original_storage_def read_spec_def)

lemma access_reads:
  "fst (ibs_access_account s a) = (if a \<in> accessed_addresses s then Warm else Cold)"
  "fst (ibs_access_storage s a k) = (if k \<in> keys_view s a then Warm else Cold)"
  by (simp_all add: ibs_access_account_def ibs_access_storage_def keys_view_def Let_def)

lemma restored_same_reads:
  assumes "ibs_ok db s" "restored db s t"
  shows "same_reads db s t"
proof -
  have "ibs_ok db t" using assms restored_ok by blast
  then show ?thesis using assms(2) restored_account [OF assms(2)]
    by (auto simp: same_reads_def reads_value storage_reads [OF assms(1)] storage_reads access_reads restored_def)
qed

text \<open>C1: Whatever sequence of operations follows a snapshot, reverting to it does not panic and gives
  back a state in which every account, balance, nonce, code hash, storage slot (current and
  original) and access status reads as it did at the snapshot, with the log, the refund counter,
  the journal and the set of self-destructed accounts of the snapshot. The invariant that caches
  agree with the database holds throughout.\<close>

theorem revert_restores_snapshot:
  assumes "ibs_ok db s" "(ibs_step L db)\<^sup>*\<^sup>* s s'"
  shows "ibs_ok db s' \<and> returns (\<lambda>t. same_reads db s t \<and> ibs_ok db t \<and> journal t = journal s \<and> logs t = logs s
      \<and> refund t = refund s \<and> self_destructs t = self_destructs s)
    (revert_to_snapshot s' (take_snapshot s))"
proof -
  have u: "undoable db s s'" "ibs_ok db s'" using ibs_steps_undoable [OF assms(2,1)] by auto
  show ?thesis using u(2) revert_to_snapshot_restores [OF u(1)]
    by (auto elim!: returns_mono simp: restored_same_reads [OF assms(1)] restored_ok [OF assms(1)])
      (auto simp: restored_def)
qed

definition sample_db :: Database where
  "sample_db = \<lparr>read_account = (\<lambda>a. if a = 10 then Some (Account_default\<lparr>acc_balance := 500\<rparr>) else None),
     read_code = (\<lambda>_. []), read_storage = (\<lambda>_ _. 0), read_header_parent = (\<lambda>_ _. None)\<rparr>"

lemma new_state_ok: "ibs_ok db IntraBlockState_new"
  by (simp add: ibs_ok_def IntraBlockState_new_def)

theorem revert_restores_snapshot_witness:
  "returns (\<lambda>t. same_reads sample_db IntraBlockState_new t)
     (revert_to_snapshot (ibs_set_storage sample_db IntraBlockState_new 10 1 7) (take_snapshot IntraBlockState_new))"
proof -
  have "(ibs_step sample_lib sample_db)\<^sup>*\<^sup>* IntraBlockState_new (ibs_set_storage sample_db IntraBlockState_new 10 1 7)"
    by (intro r_into_rtranclp step_set_storage)
  from revert_restores_snapshot [OF new_state_ok this] show ?thesis by (auto elim: returns_mono)
qed

lemma set_storage_views:
  assumes "ibs_ok db s"
  shows "account_view db (ibs_set_storage db s a k v) = account_view db s"
    "account_view db s b \<noteq> None \<Longrightarrow> current_view db (ibs_set_storage db s a k v) b l = (if b = a \<and> l = k then v else current_view db s b l)"
    "account_view db s b \<noteq> None \<Longrightarrow> original_view db (ibs_set_storage db s a k v) b l = original_view db s b l"
proof -
  obtain previous s1 where g: "get_current_storage db s a k = (previous, s1)" by fastforce
  then have rs: "read_spec db s a k False (previous, s1)"
    using ibs_get_storage_spec [OF assms, of a k False] by (simp add: get_current_storage_def)
  then have r: "restored db s s1" and p: "account_view db s a \<noteq> None \<Longrightarrow> previous = current_view db s a k"
    by (auto simp: read_spec_def)
  note e = ibs_set_storage_def [of db s a k v, unfolded g Let_def prod.case]
  show "account_view db (ibs_set_storage db s a k v) = account_view db s"
    using restored_account [OF r] by (auto simp: e fun_eq_iff)
  show "current_view db (ibs_set_storage db s a k v) b l = (if b = a \<and> l = k then v else current_view db s b l)"
      "original_view db (ibs_set_storage db s a k v) b l = original_view db s b l"
    if "account_view db s b \<noteq> None"
    using r p that by (auto simp: e restored_def put_current_current put_current_original)
qed

text \<open>Writing a storage slot of an existing account is seen by the next read of that slot and by no
  other read: other slots and accounts keep their values, and the original value that gas
  metering compares with is that of the start of the transaction.\<close>

theorem storage_write_read:
  assumes "ibs_ok db s" "fst (exists db s a)"
  shows "fst (get_current_storage db (ibs_set_storage db s a k v) b l)
      = (if b = a \<and> l = k then v else fst (get_current_storage db s b l))
    \<and> fst (get_original_storage db (ibs_set_storage db s a k v) b l) = fst (get_original_storage db s b l)"
  using assms set_storage_views [OF assms(1)] storage_reads [OF set_storage_ok [OF assms(1)]]
  by (auto simp: storage_reads [OF assms(1)] reads_value)

theorem storage_write_read_witness:
  "fst (get_current_storage sample_db (ibs_set_storage sample_db IntraBlockState_new 10 1 7) 10 1) = 7
   \<and> fst (get_original_storage sample_db (ibs_set_storage sample_db IntraBlockState_new 10 1 7) 10 1) = 0"
proof -
  have "fst (exists sample_db IntraBlockState_new 10)"
    by (simp add: reads_value account_view_def IntraBlockState_new_def sample_db_def)
  from storage_write_read [OF new_state_ok this, of 1 7 10 1] show ?thesis
    by (simp add: storage_reads new_state_ok original_view_def) (simp add: IntraBlockState_new_def sample_db_def or_default_def Storage_default_def)
qed

text \<open>Finalizing a transaction makes every written value the original value of the next one, and
  changes no current value and no account.\<close>

theorem finalize_commits:
  "original_view db (finalize_transaction s) = current_view db s
   \<and> current_view db (finalize_transaction s) = current_view db s
   \<and> account_view db (finalize_transaction s) = account_view db s"
  by (simp add: finalize_views finalize_account)

text \<open>C33: At the end of a transaction the self-destructed accounts lose their account and all their
  storage, the touched accounts that are dead (no balance, no nonce, no code) lose their account,
  and no other account changes.\<close>

theorem destruction_exact:
  assumes "finite (self_destructs s)" "finite (touched s)"
  shows "account_view db (destruct_selfdestructs db s) = (\<lambda>a. if a \<in> self_destructs s then None else account_view db s a)
    \<and> current_view db (destruct_selfdestructs db s) = (\<lambda>a k. if a \<in> self_destructs s then 0 else current_view db s a k)
    \<and> account_view db (destruct_touched_dead db s)
        = (\<lambda>a. if a \<in> touched s \<and> dead_account (account_view db s a) then None else account_view db s a)"
  by (intro conjI destruct_selfdestructs_views destruct_touched_dead_view assms)

theorem destruction_exact_witness:
  "account_view sample_db (destruct_selfdestructs sample_db (IntraBlockState_new\<lparr>self_destructs := {10}\<rparr>)) 10 = None
   \<and> account_view sample_db (destruct_touched_dead sample_db (IntraBlockState_new\<lparr>touched := {10}\<rparr>)) 10 \<noteq> None"
proof -
  have a: "account_view sample_db (IntraBlockState_new\<lparr>touched := {10}\<rparr>) 10 = Some (Account_default\<lparr>acc_balance := 500\<rparr>)"
    by (simp add: account_view_def IntraBlockState_new_def sample_db_def)
  show ?thesis
    using destruction_exact [of "IntraBlockState_new\<lparr>self_destructs := {10}\<rparr>" sample_db]
      destruction_exact [of "IntraBlockState_new\<lparr>touched := {10}\<rparr>" sample_db] a
    by (simp add: dead_account_def IntraBlockState_new_def)
qed

end
