(* ===== verification/StateEffects.thy ===== *)
theory StateEffects
  imports IntraBlockState
begin

text \<open>
  What each operation of the journaled state does to the accounts, the balances and the code it
  holds, in the form in which the EVM's host uses it. \<open>quiet\<close> relates two states between which only
  caches, access marks and touched marks may differ, \<open>advances\<close> two states between which the
  operations can be undone and no ether was made. The total supply is the sum of the balances of all
  addresses, as a natural number.
\<close>

section \<open>Supply, core and well-formed states\<close>

definition balance_of :: "Account option \<Rightarrow> nat" where
  "balance_of acc = (case acc of Some c \<Rightarrow> unat (acc_balance c) | None \<Rightarrow> 0)"

definition total_of :: "(address \<Rightarrow> Account option) \<Rightarrow> nat" where
  "total_of accounts = (\<Sum>a\<in>UNIV. balance_of (accounts a))"

definition total_supply :: "Database \<Rightarrow> IntraBlockState \<Rightarrow> nat" where
  "total_supply db s = total_of (account_view db s)"

text \<open>What a static frame must leave alone.\<close>

definition same_core :: "Database \<Rightarrow> IntraBlockState \<Rightarrow> IntraBlockState \<Rightarrow> bool" where
  "same_core db s t \<longleftrightarrow> account_view db t = account_view db s
     \<and> (\<forall>a k. account_view db s a \<noteq> None \<longrightarrow> current_view db t a k = current_view db s a k)
     \<and> logs t = logs s \<and> self_destructs t = self_destructs s \<and> refund t = refund s"

definition state_good :: "Database \<Rightarrow> IntraBlockState \<Rightarrow> bool" where
  "state_good db s \<longleftrightarrow> ibs_ok db s \<and> (\<forall>h c. new_code s h = Some c \<longrightarrow> length c < 2 ^ 63)
     \<and> (\<forall>h c. existing_code s h = Some c \<longrightarrow> length c < 2 ^ 63)"

definition quiet :: "Database \<Rightarrow> IntraBlockState \<Rightarrow> IntraBlockState \<Rightarrow> bool" where
  "quiet db s t \<longleftrightarrow> undoable db s t \<and> same_core db s t \<and> state_good db t"

definition advances :: "Database \<Rightarrow> IntraBlockState \<Rightarrow> IntraBlockState \<Rightarrow> bool" where
  "advances db s t \<longleftrightarrow> undoable db s t \<and> (total_supply db s < 2 ^ 256 \<longrightarrow> total_supply db t \<le> total_supply db s)
     \<and> state_good db t"

lemma same_core_refl [simp]: "same_core db s s"
  by (simp add: same_core_def)

lemma same_core_trans: "same_core db s t \<Longrightarrow> same_core db t u \<Longrightarrow> same_core db s u"
  by (simp add: same_core_def)

lemma same_core_supply: "same_core db s t \<Longrightarrow> total_supply db t = total_supply db s"
  by (simp add: same_core_def total_supply_def)

lemma quiet_advances: "quiet db s t \<Longrightarrow> advances db s t"
  by (auto simp: quiet_def advances_def same_core_supply)

lemma advances_refl: "state_good db s \<Longrightarrow> advances db s s"
  by (simp add: advances_def)

lemma quiet_refl: "state_good db s \<Longrightarrow> quiet db s s"
  by (simp add: quiet_def)

lemma advances_trans: "advances db s t \<Longrightarrow> advances db t u \<Longrightarrow> advances db s u"
  by (auto simp: advances_def intro: undoable_trans)

lemma quiet_trans: "quiet db s t \<Longrightarrow> quiet db t u \<Longrightarrow> quiet db s u"
  by (auto simp: quiet_def intro: undoable_trans same_core_trans)

lemma quiet_good: "quiet db s t \<Longrightarrow> state_good db t"
  by (simp add: quiet_def)

lemma advances_good: "advances db s t \<Longrightarrow> state_good db t"
  by (simp add: advances_def)

lemma restored_core:
  "restored db s t \<Longrightarrow> logs t = logs s \<Longrightarrow> refund t = refund s \<Longrightarrow> same_core db s t"
  using restored_account [of db s t] by (auto simp: same_core_def restored_def)

section \<open>Reads, accesses and touches\<close>

lemma get_object_quiet: "state_good db s \<Longrightarrow> quiet db s (snd (get_object db s a))"
  unfolding quiet_def
  by (intro conjI get_object_undoable restored_core get_object_restored)
    (simp_all add: get_object_frame state_good_def get_object_ok)

lemma existing_code_quiet:
  assumes "state_good db s" "length c < 2 ^ 63"
  shows "quiet db s (s\<lparr>existing_code := (existing_code s)(h \<mapsto> c)\<rparr>)"
  using assms by (auto simp: quiet_def same_core_def state_good_def intro: undoable_cached)

lemma reads_state:
  "snd (exists db s a) = snd (get_object db s a)" "snd (is_dead db s a) = snd (get_object db s a)"
  "snd (ibs_get_balance db s a) = snd (get_object db s a)" "snd (get_nonce db s a) = snd (get_object db s a)"
  "snd (ibs_get_code_hash db s a) = snd (get_object db s a)"
  by (auto simp: exists_def is_dead_def ibs_get_balance_def get_nonce_def ibs_get_code_hash_def
      split: prod.splits option.splits)

lemma reads_quiet:
  assumes "state_good db s"
  shows "quiet db s (snd (exists db s a))" "quiet db s (snd (is_dead db s a))"
    "quiet db s (snd (ibs_get_balance db s a))" "quiet db s (snd (get_nonce db s a))"
    "quiet db s (snd (ibs_get_code_hash db s a))"
  using get_object_quiet [OF assms] by (simp_all add: reads_state)

lemma get_code_quiet:
  assumes "state_good db s" "\<And>h. length (read_code db h) < 2 ^ 63"
  shows "quiet db s (snd (get_code db s a))
    \<and> (\<forall>c. fst (get_code db s a) = Some c \<longrightarrow> length c < 2 ^ 63)"
proof -
  obtain obj s1 where g: "get_object db s a = (obj, s1)" by fastforce
  have p: "quiet db s s1" using get_object_quiet [OF assms(1), of a] by (simp add: g)
  then have good: "state_good db s1" by (rule quiet_good)
  have q: "quiet db s (s1\<lparr>existing_code := (existing_code s1)(h \<mapsto> read_code db h)\<rparr>)" for h
    using quiet_trans [OF p existing_code_quiet [OF good assms(2)]] .
  show ?thesis using p q good assms(2)
    by (auto simp: get_code_def g Let_def state_good_def split: option.splits if_splits)
qed

lemma storage_read_frame:
  "refund (snd (ibs_get_storage db s a k o')) = refund s" "new_code (snd (ibs_get_storage db s a k o')) = new_code s"
  "existing_code (snd (ibs_get_storage db s a k o')) = existing_code s"
proof -
  obtain obj s1 where g: "get_object db s a = (obj, s1)" by fastforce
  have f: "refund s1 = refund s" "new_code s1 = new_code s" "existing_code s1 = existing_code s"
    using get_object_frame [of db s a] by (simp_all add: g)
  show "refund (snd (ibs_get_storage db s a k o')) = refund s" "new_code (snd (ibs_get_storage db s a k o')) = new_code s"
    "existing_code (snd (ibs_get_storage db s a k o')) = existing_code s"
    by (auto simp: ibs_get_storage_def g f Let_def split: option.splits)
qed

lemma storage_read_quiet:
  assumes "state_good db s"
  shows "quiet db s (snd (get_current_storage db s a k))" "quiet db s (snd (get_original_storage db s a k))"
proof -
  have ok: "ibs_ok db s" using assms by (simp add: state_good_def)
  have "quiet db s (snd (ibs_get_storage db s a k o'))" for o'
    using ibs_get_storage_spec [OF ok, of a k o'] get_storage_step [OF ok, of a k o'] assms
    by (simp add: quiet_def read_spec_def restored_core storage_read_frame state_good_def)
  then show "quiet db s (snd (get_current_storage db s a k))" "quiet db s (snd (get_original_storage db s a k))"
    by (simp_all add: get_current_storage_def get_original_storage_def)
qed

lemma marks_core:
  "same_core db s (snd (ibs_access_account s a))" "same_core db s (snd (ibs_access_storage s a k))"
  "same_core db s (touch s a)"
  by (auto simp: same_core_def ibs_access_account_def ibs_access_storage_def touch_def Let_def)

lemma marks_code:
  "new_code (snd (ibs_access_account s a)) = new_code s" "existing_code (snd (ibs_access_account s a)) = existing_code s"
  "new_code (snd (ibs_access_storage s a k)) = new_code s" "existing_code (snd (ibs_access_storage s a k)) = existing_code s"
  "new_code (touch s a) = new_code s" "existing_code (touch s a) = existing_code s"
  by (simp_all add: ibs_access_account_def ibs_access_storage_def touch_def Let_def)

lemma marks_quiet:
  assumes "state_good db s"
  shows "quiet db s (snd (ibs_access_account s a))" "quiet db s (snd (ibs_access_storage s a k))"
    "quiet db s (touch s a)"
  using assms
  by (simp_all add: quiet_def marks_core state_good_def marks_code access_ok access_account_undoable
      access_storage_undoable touch_undoable)

lemmas quiet_rules = reads_quiet storage_read_quiet marks_quiet

section \<open>Writes\<close>

text \<open>An operation on one account, and the supply when two accounts change.\<close>

definition account_or_default :: "Account option \<Rightarrow> Account" where
  "account_or_default acc = (case acc of Some c \<Rightarrow> c | None \<Rightarrow> Account_default)"

lemma balance_of_default [simp]:
  "balance_of (Some (account_or_default acc)) = balance_of acc"
  by (simp add: balance_of_def account_or_default_def Account_default_def split: option.splits)

lemma account_or_default_Some [simp]: "account_or_default (Some c) = c"
  by (simp add: account_or_default_def)

lemma live_view: "objects s a = Some obj \<Longrightarrow> obj_current obj = Some c \<Longrightarrow> account_view db s a = Some c"
  by (simp add: account_view_def)

lemma ensure_object_view:
  "account_view db (ensure_object db s a) = (account_view db s)(a \<mapsto> account_or_default (account_view db s a))"
proof -
  have v: "account_view db (snd (get_object db s a)) = account_view db s"
    using restored_account [OF get_object_restored] by blast
  show ?thesis
  proof (cases rule: ensure_object_cases [of db s a])
    case (unchanged obj c)
    then have "account_view db s a = Some c" using v live_view [OF unchanged(2,3), of db] by simp
    then show ?thesis using unchanged v by (simp add: account_or_default_def fun_upd_idem)
  next
    case (revived obj)
    then have "account_view db s a = None" using v
      by (metis account_view_def option.simps(5))
    then show ?thesis using revived v by (simp add: account_or_default_def)
  next
    case created
    then show ?thesis by (simp add: account_or_default_def account_view_def [of db s a])
  qed
qed

lemma ensure_object_frame:
  "logs (ensure_object db s a) = logs s" "refund (ensure_object db s a) = refund s"
  "new_code (ensure_object db s a) = new_code s" "existing_code (ensure_object db s a) = existing_code s"
  by (cases rule: ensure_object_cases [of db s a]; simp add: get_object_frame)+

lemma update_balance_view:
  "returns (\<lambda>s'. account_view db s' = (account_view db s)(a \<mapsto> (account_or_default (account_view db s a))
        \<lparr>acc_balance := f (acc_balance (account_or_default (account_view db s a)))\<rparr>)
      \<and> new_code s' = new_code s \<and> existing_code s' = existing_code s \<and> refund s' = refund s) (update_balance f db s a)"
proof (cases rule: get_or_create_object_spec [of db s a])
  case (1 s1 obj c)
  have "account_view db s1 a = Some c" using 1(3,4) by (rule live_view)
  then have c: "c = account_or_default (account_view db s a)" using 1(2) by (simp add: ensure_object_view)
  show ?thesis
    using 1(1,4) by (simp add: update_balance_def 1(2) ensure_object_view marks_code ensure_object_frame c
        marks_core(3) [unfolded same_core_def, THEN conjunct1] ) (simp add: touch_def Let_def ensure_object_frame)
qed

lemma set_nonce_view:
  "returns (\<lambda>s'. account_view db s' = (account_view db s)(a \<mapsto> (account_or_default (account_view db s a))\<lparr>acc_nonce := n\<rparr>)
      \<and> new_code s' = new_code s \<and> existing_code s' = existing_code s \<and> refund s' = refund s) (set_nonce db s a n)"
proof (cases rule: get_or_create_object_spec [of db s a])
  case (1 s1 obj c)
  have "account_view db s1 a = Some c" using 1(3,4) by (rule live_view)
  then have c: "c = account_or_default (account_view db s a)" using 1(2) by (simp add: ensure_object_view)
  show ?thesis using 1(1,4) by (simp add: set_nonce_def 1(2) ensure_object_view ensure_object_frame c)
qed

lemma set_code_view:
  "returns (\<lambda>s'. account_view db s' = (account_view db s)(a \<mapsto> (account_or_default (account_view db s a))\<lparr>acc_code_hash := keccak256 L bs\<rparr>)
      \<and> new_code s' = (new_code s)(keccak256 L bs \<mapsto> or_default (new_code s) (keccak256 L bs) bs)
      \<and> existing_code s' = existing_code s \<and> refund s' = refund s) (set_code L db s a bs)"
proof (cases rule: get_or_create_object_spec [of db s a])
  case (1 s1 obj c)
  have "account_view db s1 a = Some c" using 1(3,4) by (rule live_view)
  then have c: "c = account_or_default (account_view db s a)" using 1(2) by (simp add: ensure_object_view)
  show ?thesis using 1(1,4) by (simp add: set_code_def 1(2) ensure_object_view ensure_object_frame c Let_def)
qed

lemma create_contract_view:
  "account_view db (create_contract db s a) = (account_view db s)(a \<mapsto>
     Account_default\<lparr>acc_balance := acc_balance (account_or_default (account_view db s a))\<rparr>)"
proof -
  define s1 where "s1 = snd (get_object db s a)"
  have v: "account_view db s1 = account_view db s"
    unfolding s1_def using restored_account [OF get_object_restored] by blast
  have "Option.bind (objects s1 a) obj_current = account_view db s a"
    using get_object_value [of db s a "fst (get_object db s a)" s1] by (simp add: s1_def)
  then have "obj_current (created_object s1 a) = Some (Account_default
      \<lparr>acc_balance := acc_balance (account_or_default (account_view db s a))\<rparr>)"
    by (auto simp: created_object_def account_or_default_def Account_default_def split: option.splits)
  then show ?thesis using v
    by (auto simp: fun_eq_iff account_view_def create_contract_fields s1_def [symmetric])
qed

lemma total_upd: "total_of (m(a := x)) + balance_of (m a) = total_of m + balance_of x"
proof -
  have r: "total_of n = balance_of (n a) + (\<Sum>b\<in>UNIV - {a}. balance_of (n b))" for n
    unfolding total_of_def by (rule sum.remove) simp_all
  have "(\<Sum>b\<in>UNIV - {a}. balance_of ((m(a := x)) b)) = (\<Sum>b\<in>UNIV - {a}. balance_of (m b))"
    by (rule sum.cong) simp_all
  then show ?thesis using r [of m] r [of "m(a := x)"] by simp
qed

lemma total_upd_same: "balance_of x = balance_of (m a) \<Longrightarrow> total_of (m(a := x)) = total_of m"
  using total_upd [of m a x] by simp

lemma balance_le_total: "balance_of (m a) \<le> total_of m"
  unfolding total_of_def by (rule member_le_sum) simp_all

lemma balances_le_total: "a \<noteq> b \<Longrightarrow> balance_of (m a) + balance_of (m b) \<le> total_of m"
  using balance_le_total [of "m(b := None)" a] total_upd [of m b None] by (simp add: balance_of_def)

text \<open>The operations that keep every balance.\<close>

lemma returns_both: "returns P m \<Longrightarrow> returns Q m \<Longrightarrow> (\<And>a. P a \<Longrightarrow> Q a \<Longrightarrow> R a) \<Longrightarrow> returns R m"
  by (auto simp: returns_def split: option.splits)

lemma set_nonce_advances:
  assumes "state_good db s"
  shows "returns (advances db s) (set_nonce db s a n)"
proof (rule returns_both [OF set_nonce_spec set_nonce_view])
  fix t
  assume "undoable db s t \<and> (ibs_ok db s \<longrightarrow> ibs_ok db t)"
    and "account_view db t = (account_view db s)(a \<mapsto> (account_or_default (account_view db s a))\<lparr>acc_nonce := n\<rparr>)
      \<and> new_code t = new_code s \<and> existing_code t = existing_code s \<and> refund t = refund s"
  moreover have "balance_of (Some ((account_or_default acc)\<lparr>acc_nonce := n\<rparr>)) = balance_of acc" for acc
    using balance_of_default [of acc] by (simp add: balance_of_def)
  ultimately show "advances db s t" using assms
    by (simp add: advances_def total_supply_def total_upd_same state_good_def)
qed

lemma set_code_advances:
  assumes "state_good db s" "length bs < 2 ^ 63"
  shows "returns (advances db s) (set_code L db s a bs)"
proof (rule returns_both [OF set_code_spec set_code_view])
  fix t
  assume "undoable db s t \<and> (ibs_ok db s \<longrightarrow> ibs_ok db t)"
    and "account_view db t = (account_view db s)(a \<mapsto> (account_or_default (account_view db s a))\<lparr>acc_code_hash := keccak256 L bs\<rparr>)
      \<and> new_code t = (new_code s)(keccak256 L bs \<mapsto> or_default (new_code s) (keccak256 L bs) bs)
      \<and> existing_code t = existing_code s \<and> refund t = refund s"
  moreover have "balance_of (Some ((account_or_default acc)\<lparr>acc_code_hash := h\<rparr>)) = balance_of acc" for acc h
    using balance_of_default [of acc] by (simp add: balance_of_def)
  ultimately show "advances db s t" using assms
    by (auto simp: advances_def total_supply_def total_upd_same state_good_def or_default_def split: option.splits)
qed

lemma create_contract_code:
  "new_code (create_contract db s a) = new_code s" "existing_code (create_contract db s a) = existing_code s"
  using get_object_frame [of db s a]
  by (auto simp: create_contract_def Let_def split: prod.splits option.splits)

lemma create_contract_advances:
  assumes "state_good db s"
  shows "advances db s (create_contract db s a)"
proof -
  have "balance_of (Some (Account_default\<lparr>acc_balance := acc_balance (account_or_default acc)\<rparr>)) = balance_of acc" for acc
    using balance_of_default [of acc] by (simp add: balance_of_def)
  then show ?thesis using assms create_contract_undoable create_contract_ok
    by (simp add: advances_def state_good_def create_contract_code total_supply_def create_contract_view total_upd_same)
qed

lemma ibs_set_storage_code:
  "new_code (ibs_set_storage db s a k v) = new_code s" "existing_code (ibs_set_storage db s a k v) = existing_code s"
  using storage_read_frame [of db s a k False]
  by (auto simp: ibs_set_storage_def get_current_storage_def put_current_def Let_def split: prod.splits)

lemma ibs_set_storage_advances: "state_good db s \<Longrightarrow> advances db s (ibs_set_storage db s a k v)"
  by (simp add: advances_def state_good_def set_storage_undoable set_storage_ok total_supply_def set_storage_views
      ibs_set_storage_code)

lemma substate_advances:
  assumes "state_good db s"
  shows "advances db s (record_selfdestruct s a)" "advances db s (add_log s l)"
    "advances db s (add_refund s n)" "advances db s (subtract_refund s n)"
  using assms record_selfdestruct_undoable add_log_undoable refund_undoable
  by (simp_all add: advances_def state_good_def record_selfdestruct_ok total_supply_def add_log_def add_refund_def
      subtract_refund_def, simp_all add: record_selfdestruct_def)

text \<open>Setting a nonce changes nothing but the account.\<close>

definition same_rest :: "Database \<Rightarrow> IntraBlockState \<Rightarrow> IntraBlockState \<Rightarrow> bool" where
  "same_rest db s t \<longleftrightarrow> (\<forall>a k. account_view db s a \<noteq> None \<longrightarrow> current_view db t a k = current_view db s a k)
     \<and> logs t = logs s \<and> self_destructs t = self_destructs s \<and> refund t = refund s"

lemma same_core_rest: "same_core db s t \<longleftrightarrow> account_view db t = account_view db s \<and> same_rest db s t"
  by (auto simp: same_core_def same_rest_def)

lemma set_nonce_rest: "returns (same_rest db s) (set_nonce db s a n)"
proof (cases rule: get_or_create_object_spec [of db s a])
  case (1 s1 obj c)
  have g: "self_destructs (snd (get_object db s a)) = self_destructs s"
    by (cases rule: get_object_cases [of db s a]) simp_all
  have "current_view db s1 = current_view db s" unfolding 1(2)
    by (cases rule: ensure_object_cases [of db s a]) (auto simp: get_object_frame intro!: storage_view_cong)
  moreover have "self_destructs s1 = self_destructs s" unfolding 1(2)
    by (cases rule: ensure_object_cases [of db s a]) (simp_all add: g)
  ultimately show ?thesis using 1(1,4) by (simp add: set_nonce_def same_rest_def 1(2) ensure_object_frame)
qed

section \<open>Transfers\<close>

lemma update_balance_good:
  assumes "state_good db s"
  shows "returns (\<lambda>t. undoable db s t \<and> state_good db t \<and>
      account_view db t = (account_view db s)(a \<mapsto> (account_or_default (account_view db s a))
        \<lparr>acc_balance := f (acc_balance (account_or_default (account_view db s a)))\<rparr>)) (update_balance f db s a)"
  by (rule returns_both [OF update_balance_spec update_balance_view]) (use assms in \<open>simp add: state_good_def\<close>)

lemma balance_value: "unat (acc_balance (account_or_default acc)) = balance_of acc"
  using balance_of_default [of acc] by (simp add: balance_of_def)

lemma balance_read: "unat (fst (ibs_get_balance db s a)) = balance_of (account_view db s a)"
  by (simp add: reads_value balance_of_def split: option.splits)

lemma moved_total:
  fixes m :: "address \<Rightarrow> Account option" and v :: u256 and a b :: address
  defines "m1 \<equiv> m(a \<mapsto> (account_or_default (m a))\<lparr>acc_balance := acc_balance (account_or_default (m a)) - v\<rparr>)"
  defines "m2 \<equiv> m1(b \<mapsto> (account_or_default (m1 b))\<lparr>acc_balance := acc_balance (account_or_default (m1 b)) + v\<rparr>)"
  assumes "unat v \<le> balance_of (m a)" "total_of m < 2 ^ 256"
  shows "total_of m2 = total_of m"
proof -
  have le: "v \<le> acc_balance (account_or_default (m a))"
    using assms(3) by (simp add: word_le_nat_alt balance_value)
  have "unat (acc_balance (account_or_default (m a)) - v) = balance_of (m a) - unat v"
    using unat_sub [OF le] by (simp add: balance_value)
  then have 1: "balance_of (m1 a) = balance_of (m a) - unat v" by (simp add: m1_def balance_of_def)
  then have t1: "total_of m1 + unat v = total_of m" using total_upd [of m a "m1 a"] assms(3) by (simp add: m1_def)
  then have "balance_of (m1 b) + unat v < 2 ^ 256" using balance_le_total [of m1 b] assms(4) by simp
  then have "unat (acc_balance (account_or_default (m1 b)) + v) = balance_of (m1 b) + unat v"
    using unat_add_lem [of "acc_balance (account_or_default (m1 b))" v] by (simp add: balance_value)
  then have "balance_of (m2 b) = balance_of (m1 b) + unat v" by (simp add: m2_def balance_of_def)
  then show ?thesis using total_upd [of m1 b "m2 b"] t1 by (simp add: m2_def)
qed

lemma transfer_advances:
  assumes "state_good db s" "v \<le> fst (ibs_get_balance db s a)"
  shows "returns (\<lambda>s1. returns (advances db s) (add_to_balance db s1 b v)) (subtract_from_balance db s a v)"
  unfolding subtract_from_balance_def
proof (rule returns_mono [OF update_balance_good [OF assms(1)]], elim conjE)
  fix s1 assume s1: "undoable db s s1" "state_good db s1" "account_view db s1 = (account_view db s)(a \<mapsto>
      (account_or_default (account_view db s a))\<lparr>acc_balance := acc_balance (account_or_default (account_view db s a)) - v\<rparr>)"
  have v: "unat v \<le> balance_of (account_view db s a)" using assms(2) by (simp add: word_le_nat_alt flip: balance_read)
  show "returns (advances db s) (add_to_balance db s1 b v)" unfolding add_to_balance_def
    by (rule returns_mono [OF update_balance_good [OF s1(2)]])
      (use s1(1) moved_total [where m = "account_view db s" and a = a and b = b, OF v] in \<open>auto simp: advances_def total_supply_def s1(3) intro: undoable_trans\<close>)
qed

text \<open>Self-destruction moves the whole balance; when an account names itself, the balance is lost.\<close>

lemma swept_total:
  fixes m :: "address \<Rightarrow> Account option" and a b :: address
  defines "m1 \<equiv> m(b \<mapsto> (account_or_default (m b))\<lparr>acc_balance := acc_balance (account_or_default (m b)) + acc_balance (account_or_default (m a))\<rparr>)"
  defines "m2 \<equiv> m1(a \<mapsto> (account_or_default (m1 a))\<lparr>acc_balance := 0\<rparr>)"
  assumes "total_of m < 2 ^ 256"
  shows "total_of m2 \<le> total_of m"
proof (cases "a = b")
  case True
  then have "m2 = m(a := m2 a)" "balance_of (m2 a) = 0" by (simp_all add: m2_def m1_def balance_of_def)
  then show ?thesis using total_upd [of m a "m2 a"] by simp
next
  case False
  have z: "balance_of (m2 a) = 0" by (simp add: m2_def balance_of_def)
  have "balance_of (m b) + balance_of (m a) < 2 ^ 256" using balances_le_total [of a b m] False assms(3) by simp
  then have "unat (acc_balance (account_or_default (m b)) + acc_balance (account_or_default (m a))) = balance_of (m b) + balance_of (m a)"
    using unat_add_lem [of "acc_balance (account_or_default (m b))" "acc_balance (account_or_default (m a))"] by (simp add: balance_value)
  then have "balance_of (m1 b) = balance_of (m b) + balance_of (m a)" by (simp add: m1_def balance_of_def)
  then have "total_of m1 = total_of m + balance_of (m a)" using total_upd [of m b "m1 b"] by (simp add: m1_def)
  moreover have "m1 a = m a" using False by (simp add: m1_def)
  ultimately show ?thesis using total_upd [of m1 a "m2 a"] z by (simp add: m2_def)
qed

lemma sweep_advances:
  assumes "state_good db s" "unat v = balance_of (account_view db s a)"
  shows "returns (\<lambda>s1. returns (advances db s) (set_balance db s1 a 0)) (add_to_balance db s b v)"
  unfolding add_to_balance_def
proof (rule returns_mono [OF update_balance_good [OF assms(1)]], elim conjE)
  have v: "v = acc_balance (account_or_default (account_view db s a))"
    using assms(2) by (simp add: word_unat_eq_iff balance_value)
  fix s1 assume s1: "undoable db s s1" "state_good db s1" "account_view db s1 = (account_view db s)(b \<mapsto>
      (account_or_default (account_view db s b))\<lparr>acc_balance := acc_balance (account_or_default (account_view db s b)) + v\<rparr>)"
  show "returns (advances db s) (set_balance db s1 a 0)" unfolding set_balance_def
    by (rule returns_mono [OF update_balance_good [OF s1(2)]])
      (use s1(1) swept_total [where m = "account_view db s" and a = a and b = b] in
        \<open>auto simp: advances_def total_supply_def s1(3) v intro: undoable_trans\<close>)
qed

section \<open>Reverts\<close>

lemma revert_delta_code:
  "revert_delta d s = Some t \<Longrightarrow> new_code t = new_code s \<and> existing_code t = existing_code s"
  by (auto simp: revert_delta_def put_current_def Let_def split: Delta.splits bind_splits)

lemma revert_last_code:
  "revert_last n s = Some t \<Longrightarrow> new_code t = new_code s \<and> existing_code t = existing_code s"
proof (induction n arbitrary: s)
  case (Suc n)
  then obtain s1 where "revert_delta (last (journal s)) (s\<lparr>journal := butlast (journal s)\<rparr>) = Some s1" "revert_last n s1 = Some t"
    by (auto split: if_splits bind_splits)
  then show ?case using Suc.IH [of s1] revert_delta_code by fastforce
qed simp

lemma revert_quiet:
  assumes "undoable db s s'" "state_good db s" "state_good db s'"
  shows "returns (quiet db s) (revert_to_snapshot s' (take_snapshot s))"
proof (rule returns_mono)
  let ?r = "revert_to_snapshot s' (take_snapshot s)"
  have "new_code t = new_code s' \<and> existing_code t = existing_code s'" if "?r = Some t" for t
    using that revert_last_code by (auto simp: revert_to_snapshot_def split: if_splits bind_splits)
  then have "returns (\<lambda>t. new_code t = new_code s' \<and> existing_code t = existing_code s') ?r"
    using revert_to_snapshot_restores [OF assms(1)] by (auto simp: returns_ex)
  with revert_to_snapshot_restores [OF assms(1)]
  show "returns (\<lambda>t. (restored db s t \<and> journal t = journal s \<and> logs t = logs s \<and> refund t = refund s)
      \<and> new_code t = new_code s' \<and> existing_code t = existing_code s') ?r"
    by (rule returns_conj)
  fix t assume "(restored db s t \<and> journal t = journal s \<and> logs t = logs s \<and> refund t = refund s)
      \<and> new_code t = new_code s' \<and> existing_code t = existing_code s'"
  then show "quiet db s t" using assms(2,3) restored_ok [of db s t]
    by (auto simp: quiet_def state_good_def intro: undoable_cached restored_core)
qed

end
