(* ===== verification/Util.thy ===== *)
theory Util
  imports Prelude
begin

text \<open>
  Byte-vector helpers of \<open>util.rs\<close>. A vector longer than \<open>isize::MAX\<close> cannot be allocated: asking
  for one panics with a capacity overflow, which is \<open>None\<close> here.
\<close>

definition ISIZE_MAX :: nat where
  "ISIZE_MAX = 2 ^ 63 - 1"

definition static_left_pad :: "nat \<Rightarrow> byte list \<Rightarrow> byte list option" where
  "static_left_pad n unpadded =
     (if length unpadded \<le> n then Some (replicate (n - length unpadded) 0 @ unpadded) else None)"

definition pad :: "bool \<Rightarrow> byte list \<Rightarrow> nat \<Rightarrow> byte list option" where
  "pad left buffer min_size =
     (if length buffer \<ge> min_size then Some buffer
      else if min_size > ISIZE_MAX then None
      else
        let point = (if left then min_size - length buffer else 0)
        in copy_into (replicate min_size 0) point (point + length buffer) buffer)"

definition left_pad :: "byte list \<Rightarrow> nat \<Rightarrow> byte list option" where
  "left_pad buffer min_size = pad True buffer min_size"

definition right_pad :: "byte list \<Rightarrow> nat \<Rightarrow> byte list option" where
  "right_pad buffer min_size = pad False buffer min_size"

definition zeroless_view :: "byte list \<Rightarrow> byte list" where
  "zeroless_view v = drop (length (takeWhile (\<lambda>b. b = 0) v)) v"

lemma left_pad_eq:
  "n \<le> ISIZE_MAX \<Longrightarrow> left_pad b n = Some (replicate (n - length b) 0 @ b)"
  by (auto simp: left_pad_def pad_def copy_into_def Let_def)

lemma right_pad_eq:
  "n \<le> ISIZE_MAX \<Longrightarrow> right_pad b n = Some (b @ replicate (n - length b) 0)"
  by (auto simp: right_pad_def pad_def copy_into_def Let_def)

lemma right_pad_panics: "length b < n \<Longrightarrow> ISIZE_MAX < n \<Longrightarrow> right_pad b n = None"
  by (simp add: right_pad_def pad_def)

lemma zeroless_view_eq: "zeroless_view v = dropWhile (\<lambda>b. b = 0) v"
  by (simp add: zeroless_view_def dropWhile_eq_drop)

text \<open>Stripping the leading zeros loses no information: padding restores them.\<close>

lemma zeroless_roundtrip: "static_left_pad (length v) (zeroless_view v) = Some v"
proof -
  have "takeWhile (\<lambda>b. b = 0) v = replicate (length (takeWhile (\<lambda>b. b = 0) v)) 0"
    by (metis (mono_tags, lifting) replicate_length_same set_takeWhileD)
  moreover have "length v - length (zeroless_view v) = length (takeWhile (\<lambda>b. b = 0) v)"
    by (simp add: zeroless_view_def length_takeWhile_le)
  moreover have "length (zeroless_view v) \<le> length v" by (simp add: zeroless_view_def)
  ultimately show ?thesis
    by (metis static_left_pad_def takeWhile_dropWhile_id zeroless_view_eq)
qed

end
