(* ===== verification/Blake2.thy ===== *)
theory Blake2
  imports Prelude
begin

text \<open>
  The BLAKE2b compression function of \<open>crypto/blake2.rs\<close>, and the reading and writing of its words.
  The arrays \<open>[u64; 16]\<close> and \<open>[u64; 8]\<close> are lists of these lengths.
\<close>

unbundle bit_operations_syntax

definition SIGMA_rows :: "nat list list" where
  "SIGMA_rows = [
     [0, 1, 2, 3, 4, 5, 6, 7, 8, 9, 10, 11, 12, 13, 14, 15],
     [14, 10, 4, 8, 9, 15, 13, 6, 1, 12, 0, 2, 11, 7, 5, 3],
     [11, 8, 12, 0, 5, 2, 15, 13, 10, 14, 3, 6, 7, 1, 9, 4],
     [7, 9, 3, 1, 13, 12, 11, 14, 2, 6, 5, 10, 4, 0, 15, 8],
     [9, 0, 5, 7, 2, 4, 10, 15, 14, 1, 11, 12, 6, 8, 3, 13],
     [2, 12, 6, 10, 0, 11, 8, 3, 4, 13, 7, 5, 15, 14, 1, 9],
     [12, 5, 1, 15, 14, 13, 4, 10, 0, 7, 6, 3, 9, 2, 8, 11],
     [13, 11, 7, 14, 12, 1, 3, 9, 5, 0, 15, 4, 8, 6, 2, 10],
     [6, 15, 14, 9, 11, 3, 0, 8, 12, 2, 13, 7, 1, 4, 10, 5],
     [10, 2, 8, 4, 7, 6, 1, 5, 15, 11, 9, 14, 3, 12, 13, 0]]"

definition IV :: "u64 list" where
  "IV = [0x6a09e667f3bcc908, 0xbb67ae8584caa73b, 0x3c6ef372fe94f82b, 0xa54ff53a5f1d36f1,
         0x510e527fade682d1, 0x9b05688c2b3e6c1f, 0x1f83d9abfb41bd6b, 0x5be0cd19137e2179]"

definition g_mix :: "u64 list \<Rightarrow> nat \<Rightarrow> nat \<Rightarrow> nat \<Rightarrow> nat \<Rightarrow> u64 \<Rightarrow> u64 \<Rightarrow> u64 list" where
  "g_mix v a b c d x y =
     (let v = v[a := v ! a + v ! b + x];
          v = v[d := word_rotr 32 (v ! d XOR v ! a)];
          v = v[c := v ! c + v ! d];
          v = v[b := word_rotr 24 (v ! b XOR v ! c)];
          v = v[a := v ! a + v ! b + y];
          v = v[d := word_rotr 16 (v ! d XOR v ! a)];
          v = v[c := v ! c + v ! d]
      in v[b := word_rotr 63 (v ! b XOR v ! c)])"

definition compress_round :: "u64 list \<Rightarrow> nat \<Rightarrow> u64 list \<Rightarrow> u64 list" where
  "compress_round m i v =
     (let s = SIGMA_rows ! (i mod 10);
          v = g_mix v 0 4 8 12 (m ! (s ! 0)) (m ! (s ! 1));
          v = g_mix v 1 5 9 13 (m ! (s ! 2)) (m ! (s ! 3));
          v = g_mix v 2 6 10 14 (m ! (s ! 4)) (m ! (s ! 5));
          v = g_mix v 3 7 11 15 (m ! (s ! 6)) (m ! (s ! 7));
          v = g_mix v 0 5 10 15 (m ! (s ! 8)) (m ! (s ! 9));
          v = g_mix v 1 6 11 12 (m ! (s ! 10)) (m ! (s ! 11));
          v = g_mix v 2 7 8 13 (m ! (s ! 12)) (m ! (s ! 13))
      in g_mix v 3 4 9 14 (m ! (s ! 14)) (m ! (s ! 15)))"

definition compress_init :: "u64 list \<Rightarrow> u64 \<times> u64 \<Rightarrow> bool \<Rightarrow> u64 list" where
  "compress_init h t f =
     (let v = h @ IV;
          v = v[12 := v ! 12 XOR fst t];
          v = v[13 := v ! 13 XOR snd t]
      in if f then v[14 := NOT (v ! 14)] else v)"

definition compress :: "u64 list \<Rightarrow> u64 list \<Rightarrow> u64 \<times> u64 \<Rightarrow> bool \<Rightarrow> nat \<Rightarrow> u64 list" where
  "compress h m t f rounds =
     (let v = fold (compress_round m) [0..<rounds] (compress_init h t f)
      in map (\<lambda>i. h ! i XOR (v ! i XOR v ! (i + 8))) [0..<8])"

definition u64_from_le_bytes :: "byte list \<Rightarrow> u64" where
  "u64_from_le_bytes bs = ucast (from_be_bytes (rev bs))"

definition u64_to_le_bytes :: "u64 \<Rightarrow> byte list" where
  "u64_to_le_bytes w = map (\<lambda>i. ucast (drop_bit (8 * i) w)) [0..<8]"

lemma length_g_mix [simp]: "length (g_mix v a b c d x y) = length v"
  by (simp add: g_mix_def Let_def)

lemma length_compress_round [simp]: "length (compress_round m i v) = length v"
  by (simp add: compress_round_def Let_def)

lemma length_compress [simp]: "length (compress h m t f rounds) = 8"
  by (simp add: compress_def Let_def)

lemma length_u64_to_le_bytes [simp]: "length (u64_to_le_bytes w) = 8"
  by (simp add: u64_to_le_bytes_def)

text \<open>Every row of the message schedule is a permutation of the sixteen message words.\<close>

lemma sigma_row: "i < 10 \<Longrightarrow> sort (SIGMA_rows ! i) = [0..<16]"
proof -
  have "\<forall>row \<in> set SIGMA_rows. sort row = [0..<16]" by (simp add: SIGMA_rows_def upt_rec)
  moreover have "length SIGMA_rows = 10" by (simp add: SIGMA_rows_def upt_rec)
  ultimately show "i < 10 \<Longrightarrow> ?thesis" by simp
qed

text \<open>
  The mixing function is invertible, so a round loses no information about the working vector:
  \<open>g_unmix\<close> runs the eight assignments backwards.
\<close>

definition g_unmix :: "u64 list \<Rightarrow> nat \<Rightarrow> nat \<Rightarrow> nat \<Rightarrow> nat \<Rightarrow> u64 \<Rightarrow> u64 \<Rightarrow> u64 list" where
  "g_unmix v a b c d x y =
     (let v = v[b := word_rotl 63 (v ! b) XOR v ! c];
          v = v[c := v ! c - v ! d];
          v = v[d := word_rotl 16 (v ! d) XOR v ! a];
          v = v[a := v ! a - v ! b - y];
          v = v[b := word_rotl 24 (v ! b) XOR v ! c];
          v = v[c := v ! c - v ! d];
          v = v[d := word_rotl 32 (v ! d) XOR v ! a]
      in v[a := v ! a - v ! b - x])"

lemma undo_xor_rotr:
  "i \<noteq> j \<Longrightarrow> i < length v \<Longrightarrow> v' = v[i := word_rotr n (v ! i XOR v ! j)] \<Longrightarrow>
   v'[i := word_rotl n (v' ! i) XOR v' ! j] = (v :: u64 list)"
  by (simp add: xor.assoc)

lemma undo_add:
  "i \<noteq> j \<Longrightarrow> i < length v \<Longrightarrow> v' = v[i := v ! i + v ! j] \<Longrightarrow> v'[i := v' ! i - v' ! j] = (v :: u64 list)"
  "i \<noteq> j \<Longrightarrow> i < length v \<Longrightarrow> v' = v[i := v ! i + v ! j + x] \<Longrightarrow> v'[i := v' ! i - v' ! j - x] = v"
  by simp_all

lemma g_unmix_mix:
  assumes d: "distinct [a, b, c, d]" and l: "{a, b, c, d} \<subseteq> {..<length v}"
  shows "g_unmix (g_mix v a b c d x y) a b c d x y = v"
proof -
  define v1 where "v1 = v[a := v ! a + v ! b + x]"
  define v2 where "v2 = v1[d := word_rotr 32 (v1 ! d XOR v1 ! a)]"
  define v3 where "v3 = v2[c := v2 ! c + v2 ! d]"
  define v4 where "v4 = v3[b := word_rotr 24 (v3 ! b XOR v3 ! c)]"
  define v5 where "v5 = v4[a := v4 ! a + v4 ! b + y]"
  define v6 where "v6 = v5[d := word_rotr 16 (v5 ! d XOR v5 ! a)]"
  define v7 where "v7 = v6[c := v6 ! c + v6 ! d]"
  define v8 where "v8 = v7[b := word_rotr 63 (v7 ! b XOR v7 ! c)]"
  have g: "g_mix v a b c d x y = v8"
    by (simp add: g_mix_def Let_def v1_def v2_def v3_def v4_def v5_def v6_def v7_def v8_def)
  have len: "length v1 = length v" "length v2 = length v" "length v3 = length v" "length v4 = length v"
      "length v5 = length v" "length v6 = length v" "length v7 = length v"
    by (simp_all add: v1_def v2_def v3_def v4_def v5_def v6_def v7_def)
  have undo: "v8[b := word_rotl 63 (v8 ! b) XOR v8 ! c] = v7" "v7[c := v7 ! c - v7 ! d] = v6"
      "v6[d := word_rotl 16 (v6 ! d) XOR v6 ! a] = v5" "v5[a := v5 ! a - v5 ! b - y] = v4"
      "v4[b := word_rotl 24 (v4 ! b) XOR v4 ! c] = v3" "v3[c := v3 ! c - v3 ! d] = v2"
      "v2[d := word_rotl 32 (v2 ! d) XOR v2 ! a] = v1" "v1[a := v1 ! a - v1 ! b - x] = v"
    using d l
    by (intro undo_xor_rotr [OF _ _ v8_def] undo_add(1) [OF _ _ v7_def] undo_xor_rotr [OF _ _ v6_def]
        undo_add(2) [OF _ _ v5_def] undo_xor_rotr [OF _ _ v4_def] undo_add(1) [OF _ _ v3_def]
        undo_xor_rotr [OF _ _ v2_def] undo_add(2) [OF _ _ v1_def]; simp add: len)+
  show ?thesis unfolding g g_unmix_def Let_def by (simp only: undo)
qed

lemma g_mix_inject:
  assumes "g_mix v a b c d x y = g_mix w a b c d x y" "distinct [a, b, c, d]"
    "{a, b, c, d} \<subseteq> {..<length v}" "length w = length v"
  shows "v = w"
  using g_unmix_mix [of a b c d v x y] g_unmix_mix [of a b c d w x y] assms by metis

lemma g_mix_eq_iff:
  "distinct [a, b, c, d] \<Longrightarrow> {a, b, c, d} \<subseteq> {..<length v} \<Longrightarrow> length w = length v \<Longrightarrow>
   g_mix v a b c d x y = g_mix w a b c d x y \<longleftrightarrow> v = w"
  by (auto dest: g_mix_inject)

lemma compress_round_inject:
  assumes "length v = 16" "length w = 16" "compress_round m i v = compress_round m i w"
  shows "v = w"
  using assms unfolding compress_round_def Let_def by (simp add: g_mix_eq_iff)

lemma length_rounds: "length (fold (compress_round m) is v) = length v"
  by (induction "is" arbitrary: v) simp_all

section \<open>Properties\<close>

text \<open>For a fixed message block, any number of rounds maps different working vectors to different
  working vectors: every assignment of the mixing function can be undone.\<close>

theorem compress_rounds_injective:
  assumes "length v = 16" "length w = 16"
    and "fold (compress_round m) [0..<rounds] v = fold (compress_round m) [0..<rounds] w"
  shows "v = w"
  using assms
proof (induction rounds)
  case (Suc n)
  have "compress_round m n (fold (compress_round m) [0..<n] v) = compress_round m n (fold (compress_round m) [0..<n] w)"
    using Suc.prems(3) by simp
  then have "fold (compress_round m) [0..<n] v = fold (compress_round m) [0..<n] w"
    by (rule compress_round_inject [rotated 2]) (simp_all only: length_rounds Suc.prems)
  then show ?case using Suc.IH Suc.prems by blast
qed simp

theorem compress_rounds_injective_witness:
  "fold (compress_round (replicate 16 0)) [0..<12] (replicate 16 0)
     \<noteq> fold (compress_round (replicate 16 0)) [0..<12] (replicate 16 1)"
proof
  assume eq: "fold (compress_round (replicate 16 0)) [0..<12] (replicate 16 0)
     = fold (compress_round (replicate 16 0)) [0..<12] (replicate 16 1)"
  have "replicate 16 (0 :: u64) = replicate 16 1" by (rule compress_rounds_injective [OF _ _ eq]) simp_all
  then show False by simp
qed

end
