(* ===== verification/Precompiled.thy ===== *)
theory Precompiled
  imports Util Blake2 EvmTypes Revision
begin

text \<open>
  The precompiled contracts of \<open>execution/precompiled.rs\<close> and the signature check of
  \<open>crypto/mod.rs\<close>. A gas function gives \<open>Some (Some gas)\<close>, or \<open>Some None\<close> when the price does not fit
  64 bits; a run function gives \<open>Some None\<close> when the contract fails. The outer \<open>None\<close> is a panic. The
  digests, the elliptic curves and the big integers are third-party crates and parameters here.
\<close>

section \<open>The crates\<close>

type_synonym g1 = "nat \<times> nat \<times> nat"
type_synonym g2 = "(nat \<times> nat) \<times> (nat \<times> nat) \<times> (nat \<times> nat)"
type_synonym gt = "nat list"

record crypto_lib =
  sha256_digest :: "byte list \<Rightarrow> byte list"
  ripemd160_digest :: "byte list \<Rightarrow> byte list"
  secp_recover :: "byte list \<Rightarrow> byte list \<Rightarrow> bool \<Rightarrow> byte list option"
  big_from_bytes_be :: "byte list \<Rightarrow> nat"
  big_to_bytes_be :: "nat \<Rightarrow> byte list"
  big_modpow :: "nat \<Rightarrow> nat \<Rightarrow> nat \<Rightarrow> nat"
  fq_from_slice :: "byte list \<Rightarrow> nat option"
  fr_from_slice :: "byte list \<Rightarrow> nat option"
  fq_to_big_endian :: "nat \<Rightarrow> byte list"
  affine_g1_new :: "nat \<Rightarrow> nat \<Rightarrow> g1 option"
  g1_zero :: g1
  g1_add :: "g1 \<Rightarrow> g1 \<Rightarrow> g1"
  g1_mul :: "g1 \<Rightarrow> nat \<Rightarrow> g1"
  affine_g1_from_jacobian :: "g1 \<Rightarrow> (nat \<times> nat) option"
  affine_g2_new :: "nat \<times> nat \<Rightarrow> nat \<times> nat \<Rightarrow> g2 option"
  g2_zero :: g2
  pairing :: "g1 \<Rightarrow> g2 \<Rightarrow> gt"
  gt_one :: gt
  gt_mul :: "gt \<Rightarrow> gt \<Rightarrow> gt"

type_synonym gas_function = "byte list \<Rightarrow> Revision \<Rightarrow> u64 option option"
type_synonym run_function = "byte list \<Rightarrow> byte list option option"

record Contract =
  contract_gas :: gas_function
  contract_run :: run_function

definition NUM_OF_FRONTIER_CONTRACTS :: nat where "NUM_OF_FRONTIER_CONTRACTS = 4"

definition NUM_OF_BYZANTIUM_CONTRACTS :: nat where "NUM_OF_BYZANTIUM_CONTRACTS = 8"

definition NUM_OF_ISTANBUL_CONTRACTS :: nat where "NUM_OF_ISTANBUL_CONTRACTS = 9"

section \<open>Signature recovery\<close>

definition is_valid_signature :: "h256 \<Rightarrow> h256 \<Rightarrow> bool" where
  "is_valid_signature r s =
     (let UPPER = 0xfffffffffffffffffffffffffffffffebaaedce6af48a03bbfd25e8cd0364141
      in if r = 0 \<or> s = 0 then False
         else if r \<ge> UPPER \<and> s \<ge> UPPER then False
         else True)"

definition ecrecover_gas :: gas_function where
  "ecrecover_gas _ _ = Some (Some 3000)"

definition ecrecover_run_inner :: "lib \<Rightarrow> crypto_lib \<Rightarrow> run_function" where
  "ecrecover_run_inner L P input = do {
     let input = (if length input < 128 then resize input 128 0 else input);
     v_bytes \<leftarrow> slice_range input 32 64;
     r_bytes \<leftarrow> slice_range input 64 96;
     s_bytes \<leftarrow> slice_range input 96 128;
     let v = from_be_bytes v_bytes;
     if \<not> is_valid_signature (from_be_bytes r_bytes) (from_be_bytes s_bytes) then Some None
     else if v \<noteq> 28 \<and> v \<noteq> 27 then Some None
     else do {
       digest \<leftarrow> slice_range input 0 32;
       case secp_recover P digest (r_bytes @ s_bytes) (v = 28) of
         None \<Rightarrow> Some None
       | Some public \<Rightarrow> do {
           key \<leftarrow> slice_range public 1 (length public);
           let hash = to_be_bytes (keccak256 L key);
           out \<leftarrow> copy_into (replicate 32 0) 12 32 (drop 12 hash);
           Some (Some out) } } }"

definition ecrecover_run :: "lib \<Rightarrow> crypto_lib \<Rightarrow> run_function" where
  "ecrecover_run L P input = do {
     r \<leftarrow> ecrecover_run_inner L P input;
     Some (Some (case r of Some out \<Rightarrow> out | None \<Rightarrow> [])) }"

section \<open>Digests and identity\<close>

definition sha256_gas :: gas_function where
  "sha256_gas input _ = Some (Some (60 + 12 * ((of_nat (length input) + 31) div 32)))"

definition sha256_run :: "crypto_lib \<Rightarrow> run_function" where
  "sha256_run P input = Some (Some (sha256_digest P input))"

definition ripemd160_gas :: gas_function where
  "ripemd160_gas input _ = Some (Some (600 + 120 * ((of_nat (length input) + 31) div 32)))"

definition ripemd160_run :: "crypto_lib \<Rightarrow> run_function" where
  "ripemd160_run P input = do {
     b \<leftarrow> copy_into (replicate 32 0) 12 32 (ripemd160_digest P input);
     Some (Some b) }"

definition id_gas :: gas_function where
  "id_gas input _ = Some (Some (15 + 3 * ((of_nat (length input) + 31) div 32)))"

definition id_run :: run_function where
  "id_run input = Some (Some input)"

section \<open>Modular exponentiation\<close>

definition mult_complexity_eip198 :: "u256 \<Rightarrow> u256" where
  "mult_complexity_eip198 x =
     (let x_squared = x * x
      in if x \<le> 64 then x_squared
         else if x \<le> 1024 then drop_bit 2 x_squared + 96 * x - 3072
         else drop_bit 4 x_squared + 480 * x - 199680)"

definition mult_complexity_eip2565 :: "u256 \<Rightarrow> u256" where
  "mult_complexity_eip2565 max_length = (let words = drop_bit 3 (max_length + 7) in words * words)"

definition G_QUAD_DIVISOR_BYZANTIUM :: u256 where "G_QUAD_DIVISOR_BYZANTIUM = 20"

definition G_QUAD_DIVISOR_BERLIN :: u256 where "G_QUAD_DIVISOR_BERLIN = 3"

definition u256_leading_zeros :: "u256 \<Rightarrow> nat" where
  "u256_leading_zeros v = length (takeWhile (\<lambda>i. \<not> bit v i) (rev [0..<256]))"

text \<open>The first 32 bytes of the exponent, as a number.\<close>

definition expmod_exp_head :: "byte list \<Rightarrow> nat \<Rightarrow> nat \<Rightarrow> u256 option" where
  "expmod_exp_head input base_len exp_len =
     (if length input > base_len then do {
        bs \<leftarrow> slice_range input base_len (min (base_len + 32) (length input));
        exp_input \<leftarrow> right_pad bs 32;
        exp_input \<leftarrow> (if exp_len < 32 then do {
            head \<leftarrow> slice_range exp_input 0 exp_len;
            left_pad head 32 } else Some exp_input);
        bs \<leftarrow> slice_range exp_input 0 32;
        Some (from_be_bytes bs) }
      else Some 0)"

text \<open>\<open>8 * (exp_len - 32)\<close> is a \<open>usize\<close> product and wraps in a release build.\<close>

definition adjusted_exponent_len :: "nat \<Rightarrow> u256 \<Rightarrow> u256" where
  "adjusted_exponent_len exp_len exp_head =
     (let bit_len = 256 - u256_leading_zeros exp_head;
          a = (if exp_len > 32 then of_nat (8 * (exp_len - 32) mod 2 ^ 64) else 0);
          a = (if bit_len > 1 then a + of_nat (bit_len - 1) else a)
      in if a = 0 then 1 else a)"

definition expmod_gas :: gas_function where
  "expmod_gas input rv = do {
     let min_gas = (if rv < Berlin then 0 else 200);
     input \<leftarrow> right_pad input (3 * 32);
     b \<leftarrow> slice_range input 0 32;
     e \<leftarrow> slice_range input 32 64;
     m \<leftarrow> slice_range input 64 96;
     let base_len256 = from_be_bytes b;
     let exp_len256 = from_be_bytes e;
     let mod_len256 = from_be_bytes m;
     if base_len256 = 0 \<and> mod_len256 = 0 then Some (Some min_gas)
     else if unat base_len256 \<ge> 2 ^ 64 \<or> unat exp_len256 \<ge> 2 ^ 64 \<or> unat mod_len256 \<ge> 2 ^ 64 then Some None
     else do {
       let base_len = unat base_len256;
       let exp_len = unat exp_len256;
       input \<leftarrow> slice_range input (3 * 32) (length input);
       exp_head \<leftarrow> expmod_exp_head input base_len exp_len;
       let a = adjusted_exponent_len exp_len exp_head;
       let max_length = max mod_len256 base_len256;
       let gas = (if rv < Berlin
                  then mult_complexity_eip198 max_length * a div G_QUAD_DIVISOR_BYZANTIUM
                  else mult_complexity_eip2565 max_length * a div G_QUAD_DIVISOR_BERLIN);
       Some (if unat gas < 2 ^ 64 then Some (max min_gas (ucast gas)) else None) } }"

definition u64_length_at :: "byte list \<Rightarrow> nat \<Rightarrow> nat option" where
  "u64_length_at input i = do { bs \<leftarrow> slice_range input i (i + 8); Some (unat (from_be_bytes bs)) }"

definition expmod_run :: "crypto_lib \<Rightarrow> run_function" where
  "expmod_run P input = do {
     input \<leftarrow> right_pad input (3 * 32);
     base_len \<leftarrow> u64_length_at input 24;
     exponent_len \<leftarrow> u64_length_at input 56;
     modulus_len \<leftarrow> u64_length_at input 88;
     if modulus_len = 0 then Some (Some [])
     else do {
       input \<leftarrow> slice_range input 96 (length input);
       let exponent_end = (base_len + exponent_len) mod 2 ^ 64;
       let modulus_end = (exponent_end + modulus_len) mod 2 ^ 64;
       input \<leftarrow> right_pad input modulus_end;
       base_bytes \<leftarrow> slice_range input 0 base_len;
       exponent_bytes \<leftarrow> slice_range input base_len exponent_end;
       modulus_bytes \<leftarrow> slice_range input exponent_end modulus_end;
       let modulus = big_from_bytes_be P modulus_bytes;
       if modulus_len > ISIZE_MAX then None
       else if modulus = 0 then Some (Some (replicate modulus_len 0))
       else do {
         let b = big_to_bytes_be P (big_modpow P (big_from_bytes_be P base_bytes)
                   (big_from_bytes_be P exponent_bytes) modulus);
         if length b > modulus_len then None
         else do {
           out \<leftarrow> copy_into (replicate modulus_len 0) (modulus_len - length b) modulus_len b;
           Some (Some out) } } } }"

section \<open>The alt\_bn128 contracts\<close>

definition bn_add_gas :: gas_function where
  "bn_add_gas _ rv = Some (Some (if rv \<ge> Istanbul then 150 else 500))"

definition bn_mul_gas :: gas_function where
  "bn_mul_gas _ rv = Some (Some (if rv \<ge> Istanbul then 6000 else 40000))"

text \<open>\<open>read_exact\<close> on the input followed by zeros for ever.\<close>

definition read_exact :: "nat \<Rightarrow> byte list \<Rightarrow> byte list \<times> byte list" where
  "read_exact n r = (take n (r @ replicate n 0), drop n r)"

definition parse_fr_point :: "crypto_lib \<Rightarrow> byte list \<Rightarrow> nat option" where
  "parse_fr_point P r = fr_from_slice P (fst (read_exact 32 r))"

definition parse_bn_point :: "crypto_lib \<Rightarrow> byte list \<Rightarrow> (g1 \<times> byte list) option" where
  "parse_bn_point P r =
     (let (buf, r) = read_exact 32 r in do {
        x \<leftarrow> fq_from_slice P buf;
        let (buf, r) = read_exact 32 r;
        y \<leftarrow> fq_from_slice P buf;
        point \<leftarrow> (if x = 0 \<and> y = 0 then Some (g1_zero P) else affine_g1_new P x y);
        Some (point, r) })"

definition bn_point_output :: "crypto_lib \<Rightarrow> g1 \<Rightarrow> byte list" where
  "bn_point_output P point =
     (case affine_g1_from_jacobian P point of
        Some (x, y) \<Rightarrow> fq_to_big_endian P x @ fq_to_big_endian P y
      | None \<Rightarrow> replicate 64 0)"

definition bn_add_run :: "crypto_lib \<Rightarrow> run_function" where
  "bn_add_run P input = Some (do {
     (a, r) \<leftarrow> parse_bn_point P input;
     (b, r) \<leftarrow> parse_bn_point P r;
     Some (bn_point_output P (g1_add P a b)) })"

definition bn_mul_run :: "crypto_lib \<Rightarrow> run_function" where
  "bn_mul_run P input = Some (do {
     (a, r) \<leftarrow> parse_bn_point P input;
     b \<leftarrow> parse_fr_point P r;
     Some (bn_point_output P (g1_mul P a b)) })"

definition SNARKV_STRIDE :: nat where "SNARKV_STRIDE = 192"

definition snarkv_gas :: gas_function where
  "snarkv_gas input rv =
     (let k = of_nat (length input) div of_nat SNARKV_STRIDE
      in Some (Some (if rv \<ge> Istanbul then 34000 * k + 45000 else 80000 * k + 100000)))"

text \<open>The two points of a chunk of 192 bytes.\<close>

definition snarkv_points :: "crypto_lib \<Rightarrow> byte list \<Rightarrow> (g1 \<times> g2) option option" where
  "snarkv_points P c = do {
     s0 \<leftarrow> slice_range c 0 32;
     s1 \<leftarrow> slice_range c 32 64;
     s2 \<leftarrow> slice_range c 64 96;
     s3 \<leftarrow> slice_range c 96 128;
     s4 \<leftarrow> slice_range c 128 160;
     s5 \<leftarrow> slice_range c 160 192;
     Some (do {
       a_x \<leftarrow> fq_from_slice P s0;
       a_y \<leftarrow> fq_from_slice P s1;
       b_a_y \<leftarrow> fq_from_slice P s2;
       b_a_x \<leftarrow> fq_from_slice P s3;
       b_b_y \<leftarrow> fq_from_slice P s4;
       b_b_x \<leftarrow> fq_from_slice P s5;
       b \<leftarrow> (if (b_a_x, b_a_y) = (0, 0) \<and> (b_b_x, b_b_y) = (0, 0) then Some (g2_zero P)
             else affine_g2_new P (b_a_x, b_a_y) (b_b_x, b_b_y));
       a \<leftarrow> (if a_x = 0 \<and> a_y = 0 then Some (g1_zero P) else affine_g1_new P a_x a_y);
       Some (a, b) }) }"

fun snarkv_loop :: "crypto_lib \<Rightarrow> byte list \<Rightarrow> nat \<Rightarrow> gt \<Rightarrow> gt option option" where
  "snarkv_loop P input 0 m = Some (Some m)"
| "snarkv_loop P input (Suc k) m = do {
     c \<leftarrow> slice_range input 0 SNARKV_STRIDE;
     points \<leftarrow> snarkv_points P c;
     case points of
       None \<Rightarrow> Some None
     | Some (a, b) \<Rightarrow> snarkv_loop P (drop SNARKV_STRIDE input) k (gt_mul P m (pairing P a b)) }"

definition snarkv_run :: "crypto_lib \<Rightarrow> run_function" where
  "snarkv_run P input =
     (if length input mod SNARKV_STRIDE \<noteq> 0 then Some None
      else let k = length input div SNARKV_STRIDE in
        if input = [] then Some (Some (to_be_bytes 1))
        else do {
          r \<leftarrow> snarkv_loop P input k (gt_one P);
          Some (map_option (\<lambda>m. to_be_bytes (if m = gt_one P then 1 else 0)) r) })"

section \<open>The BLAKE2 compression function\<close>

definition blake2_f_gas :: gas_function where
  "blake2_f_gas input _ =
     (if length input < 4 then Some (Some 0)
      else do { bs \<leftarrow> slice_range input 0 4; Some (Some (ucast (from_be_bytes bs))) })"

definition BLAKE2_F_ARG_LEN :: nat where "BLAKE2_F_ARG_LEN = 213"

text \<open>\<open>n\<close> little-endian words from position \<open>i\<close> on.\<close>

definition words_at :: "byte list \<Rightarrow> nat \<Rightarrow> nat \<Rightarrow> u64 list" where
  "words_at input i n = map (\<lambda>ctr. u64_from_le_bytes (take 8 (drop (i + ctr * 8) input))) [0..<n]"

definition blake2_f_run :: run_function where
  "blake2_f_run input =
     (if length input \<noteq> BLAKE2_F_ARG_LEN then Some None
      else
        let rounds = unat (from_be_bytes (take 4 input));
            h = words_at input 4 8;
            m = words_at input 68 16;
            t = words_at input 196 2
        in if input ! 212 \<noteq> 1 \<and> input ! 212 \<noteq> 0 then Some None
           else
             let h = compress h m (t ! 0, t ! 1) (input ! 212 = 1) rounds
             in Some (Some (concat (map u64_to_le_bytes h))))"

definition CONTRACTS :: "lib \<Rightarrow> crypto_lib \<Rightarrow> Contract list" where
  "CONTRACTS L P = [
     \<lparr>contract_gas = ecrecover_gas, contract_run = ecrecover_run L P\<rparr>,
     \<lparr>contract_gas = sha256_gas, contract_run = sha256_run P\<rparr>,
     \<lparr>contract_gas = ripemd160_gas, contract_run = ripemd160_run P\<rparr>,
     \<lparr>contract_gas = id_gas, contract_run = id_run\<rparr>,
     \<lparr>contract_gas = expmod_gas, contract_run = expmod_run P\<rparr>,
     \<lparr>contract_gas = bn_add_gas, contract_run = bn_add_run P\<rparr>,
     \<lparr>contract_gas = bn_mul_gas, contract_run = bn_mul_run P\<rparr>,
     \<lparr>contract_gas = snarkv_gas, contract_run = snarkv_run P\<rparr>,
     \<lparr>contract_gas = blake2_f_gas, contract_run = blake2_f_run\<rparr>]"

section \<open>The contracts do not panic\<close>

text \<open>What the crates document about the lengths of their results.\<close>

definition crypto_ok :: "crypto_lib \<Rightarrow> bool" where
  "crypto_ok P \<longleftrightarrow> (\<forall>bs. length (sha256_digest P bs) = 32) \<and> (\<forall>bs. length (ripemd160_digest P bs) = 20)
     \<and> (\<forall>d s b k. secp_recover P d s b = Some k \<longrightarrow> length k = 65) \<and> (\<forall>x. length (fq_to_big_endian P x) = 32)"

text \<open>
  \<open>contract_ok c rv\<close>: on every input the gas function does not panic, and neither does the contract
  once its price is a gas amount that a frame can have; the output is one Rust can allocate.
\<close>

definition output_fits :: "nat \<Rightarrow> byte list option \<Rightarrow> bool" where
  "output_fits n r = (case r of Some out \<Rightarrow> length out \<le> n | None \<Rightarrow> True)"

lemma output_fits_simps [simp]: "output_fits n None" "output_fits n (Some out) = (length out \<le> n)"
  by (simp_all add: output_fits_def)

lemma output_fits_mono: "output_fits m r \<Longrightarrow> m \<le> n \<Longrightarrow> output_fits n r"
  by (cases r) simp_all

definition contract_ok :: "Contract \<Rightarrow> Revision \<Rightarrow> bool" where
  "contract_ok c rv \<longleftrightarrow> (\<forall>input. length input < 2 ^ 63 \<longrightarrow>
     returns (\<lambda>g. case g of Some g \<Rightarrow> unat g < 2 ^ 63 \<longrightarrow>
         returns (output_fits ISIZE_MAX) (contract_run c input)
       | None \<Rightarrow> True) (contract_gas c input rv))"

lemma ecrecover_returns:
  assumes "crypto_ok P"
  shows "returns (output_fits 64) (ecrecover_run L P input)"
proof -
  define inp where "inp = (if length input < 128 then resize input 128 0 else input)"
  have "128 \<le> length inp" by (simp add: inp_def)
  moreover have "length k = 65" if "secp_recover P d s b = Some k" for d s b k
    using assms that by (simp add: crypto_ok_def)
  ultimately have "returns (output_fits 64) (ecrecover_run_inner L P input)"
    unfolding ecrecover_run_inner_def inp_def [symmetric] Let_def
    by (auto split: option.split)
  then show ?thesis by (auto simp: ecrecover_run_def elim!: returns_mono split: option.split)
qed

lemma snarkv_loop_returns:
  assumes "length input = k * SNARKV_STRIDE"
  shows "returns (\<lambda>_. True) (snarkv_loop P input k m)"
  using assms
proof (induction k arbitrary: input m)
  case (Suc k)
  have "returns (\<lambda>_. True) (snarkv_points P c)" if "length c = 192" for c
    using that by (simp add: snarkv_points_def)
  then have "\<exists>r. snarkv_points P (take SNARKV_STRIDE input) = Some r"
    using Suc.prems by (fastforce simp: SNARKV_STRIDE_def returns_ex)
  moreover have "length (drop SNARKV_STRIDE input) = k * SNARKV_STRIDE" using Suc.prems by simp
  ultimately show ?case using Suc.IH Suc.prems by (auto simp: slice_range_def split: option.split)
qed simp

lemma snarkv_returns: "returns (output_fits 64) (snarkv_run P input)"
proof -
  have "returns (\<lambda>_. True) (snarkv_loop P input (length input div SNARKV_STRIDE) (gt_one P))"
    if "length input mod SNARKV_STRIDE = 0"
    using that by (intro snarkv_loop_returns) (simp add: minus_mod_eq_div_mult [symmetric])
  then show ?thesis by (auto simp: snarkv_run_def Let_def elim!: returns_mono simp: output_fits_def split: option.split)
qed

lemma blake2_f_returns: "returns (output_fits 64) (blake2_f_run input)"
  by (simp add: blake2_f_run_def Let_def length_concat o_def sum_list_triv)

lemma bn_point_output_length: "crypto_ok P \<Longrightarrow> length (bn_point_output P pt) = 64"
  by (auto simp: bn_point_output_def crypto_ok_def split: option.split)

lemma contract_okI:
  assumes "\<And>input. returns (\<lambda>_. True) (contract_gas c input rv)"
    "\<And>input. length input < 2 ^ 63 \<Longrightarrow> returns (output_fits ISIZE_MAX) (contract_run c input)"
  shows "contract_ok c rv"
  unfolding contract_ok_def using assms(2)
  by (intro allI impI returns_mono [OF assms(1)]) (auto split: option.split)

lemma runs_return:
  assumes "crypto_ok P"
  shows "returns (output_fits 64) (sha256_run P input)" "returns (output_fits 64) (ripemd160_run P input)"
    "returns (output_fits 64) (bn_add_run P input)" "returns (output_fits 64) (bn_mul_run P input)"
  using assms
  by (auto simp: sha256_run_def ripemd160_run_def bn_add_run_def bn_mul_run_def crypto_ok_def
      bn_point_output_length [OF assms] output_fits_def split: option.split bind_splits prod.split)

lemmas gas_functions = ecrecover_gas_def sha256_gas_def ripemd160_gas_def id_gas_def bn_add_gas_def bn_mul_gas_def
  snarkv_gas_def blake2_f_gas_def

lemma contracts_without_expmod:
  assumes "crypto_ok P" "i < 9" "i \<noteq> 4"
  shows "contract_ok (CONTRACTS L P ! i) rv"
proof (rule contract_okI)
  have i: "i \<in> {0, 1, 2, 3, 5, 6, 7, 8}" using assms(2,3) by auto
  fix input :: "byte list"
  show "returns (\<lambda>_. True) (contract_gas (CONTRACTS L P ! i) input rv)"
    using i by (auto simp: CONTRACTS_def gas_functions Let_def)
  have "output_fits 64 r \<Longrightarrow> output_fits ISIZE_MAX r" for r by (erule output_fits_mono) (simp add: ISIZE_MAX_def)
  note up = returns_mono [OF _ this]
  note up [OF ecrecover_returns [OF assms(1)]] up [OF snarkv_returns] up [OF blake2_f_returns]
    runs_return [OF assms(1), THEN up]
  moreover assume "length input < 2 ^ 63"
  then have "returns (output_fits ISIZE_MAX) (id_run input)" by (simp add: id_run_def ISIZE_MAX_def)
  ultimately show "returns (output_fits ISIZE_MAX) (contract_run (CONTRACTS L P ! i) input)"
    using i by (auto simp: CONTRACTS_def)
qed


section \<open>Modular exponentiation\<close>

text \<open>The number a big-endian byte string spells.\<close>

definition be_value :: "byte list \<Rightarrow> nat" where
  "be_value bs = fold (\<lambda>b acc. acc * 256 + unat b) bs 0"

lemma be_value_snoc [simp]: "be_value (bs @ [b]) = be_value bs * 256 + unat b"
  by (simp add: be_value_def)

lemma be_value_Nil [simp]: "be_value [] = 0"
  by (simp add: be_value_def)

lemma byte_lt: "unat (b :: byte) < 256"
  using unsigned_less [of b] by simp

lemma be_value_lt: "be_value bs < 256 ^ length bs"
proof (induction bs rule: rev_induct)
  case (snoc b bs)
  then have "be_value bs * 256 + unat b < (be_value bs + 1) * 256" using byte_lt [of b] by simp
  also have "\<dots> \<le> 256 ^ length bs * 256" using snoc by (intro mult_right_mono) simp_all
  finally show ?case by (simp add: mult.commute)
qed simp

lemma be_value_append: "be_value (xs @ ys) = be_value xs * 256 ^ length ys + be_value ys"
proof (induction ys rule: rev_induct)
  case (snoc y ys)
  then show ?case unfolding append_assoc [symmetric] be_value_snoc by (simp add: algebra_simps)
qed simp

lemma be_value_zeros: "be_value (replicate n 0 @ bs) = be_value bs"
proof -
  have "be_value (replicate n 0) = 0" by (induction n) (simp_all add: be_value_def)
  then show ?thesis by (simp add: be_value_append)
qed

lemma unat_from_be_bytes:
  assumes "length bs \<le> 32" shows "unat (from_be_bytes bs) = be_value bs"
  using assms
proof (induction bs rule: rev_induct)
  case (snoc b bs)
  have "be_value (bs @ [b]) < 256 ^ length (bs @ [b])" by (rule be_value_lt)
  also have "\<dots> \<le> 256 ^ 32" using snoc.prems by (intro power_increasing) simp_all
  finally have lt: "be_value (bs @ [b]) < 2 ^ 256" by simp
  have "from_be_bytes bs = of_nat (be_value bs)" using snoc by (simp flip: snoc.IH)
  then have "from_be_bytes (bs @ [b]) = of_nat (be_value (bs @ [b]))"
    by (simp add: from_be_bytes_def unsigned_ucast_eq)
  then have "unat (from_be_bytes (bs @ [b])) = be_value (bs @ [b]) mod 2 ^ 256"
    by (simp only: unat_of_nat take_bit_eq_mod) simp
  then show ?case using lt by simp
qed (simp add: from_be_bytes_def)


text \<open>What the big-integer crate documents.\<close>

definition bigint_ok :: "crypto_lib \<Rightarrow> bool" where
  "bigint_ok P \<longleftrightarrow> (\<forall>bs. big_from_bytes_be P bs = be_value bs) \<and> (\<forall>n. be_value (big_to_bytes_be P n) = n)
     \<and> (\<forall>n k. 0 < k \<and> n < 256 ^ k \<longrightarrow> length (big_to_bytes_be P n) \<le> k)
     \<and> (\<forall>b e m. m \<noteq> 0 \<longrightarrow> big_modpow P b e m = b ^ e mod m)"

definition expmod_spec :: "byte list \<Rightarrow> byte list \<Rightarrow> byte list \<Rightarrow> nat" where
  "expmod_spec b e m = (if be_value m = 0 then 0 else be_value b ^ be_value e mod be_value m)"

text \<open>The three lengths and the three operands in an input, with the zeros past its end.\<close>

definition padded_input :: "byte list \<Rightarrow> byte list" where
  "padded_input input = input @ replicate (96 - length input) 0"

definition length_field :: "byte list \<Rightarrow> nat \<Rightarrow> nat" where
  "length_field input i = be_value (take 8 (drop i (padded_input input)))"

definition operand :: "byte list \<Rightarrow> nat \<Rightarrow> nat \<Rightarrow> byte list" where
  "operand input off n = (let d = drop off (drop 96 (padded_input input)) in take n d @ replicate (n - length d) 0)"

lemma length_padded_input: "96 \<le> length (padded_input input)"
  by (simp add: padded_input_def)

lemma right_pad_input: "right_pad input 96 = Some (padded_input input)"
  by (simp add: right_pad_eq ISIZE_MAX_def padded_input_def)

lemma u64_length_at_field: "i \<le> 88 \<Longrightarrow> u64_length_at (padded_input input) i = Some (length_field input i)"
  using length_padded_input [of input]
  by (simp add: u64_length_at_def slice_range_def length_field_def unat_from_be_bytes)

lemma length_field_lt: "length_field input i < 2 ^ 64"
proof -
  have "be_value (take 8 (drop i (padded_input input))) < 256 ^ length (take 8 (drop i (padded_input input)))"
    by (rule be_value_lt)
  also have "\<dots> \<le> (256 :: nat) ^ 8" by (intro power_increasing) simp_all
  finally show ?thesis by (simp add: length_field_def)
qed

lemma operand_slice:
  assumes "off + n \<le> N" "N \<le> ISIZE_MAX"
  shows "take n (drop off (drop 96 (padded_input input) @ replicate (N - length (drop 96 (padded_input input))) 0))
    = operand input off n"
  using assms by (simp add: operand_def Let_def take_drop min_def) (auto simp: take_drop)

lemma expmod_run_value:
  assumes P: "bigint_ok P" and N: "length_field input 24 + length_field input 56 + length_field input 88 \<le> ISIZE_MAX"
  shows "returns (\<lambda>r. \<exists>out. r = Some out \<and> length out = length_field input 88 \<and>
      be_value out = expmod_spec (operand input 0 (length_field input 24))
        (operand input (length_field input 24) (length_field input 56))
        (operand input (length_field input 24 + length_field input 56) (length_field input 88))) (expmod_run P input)"
proof -
  define bl el ml where "bl = length_field input 24" and "el = length_field input 56" and "ml = length_field input 88"
  define d where "d = drop 96 (padded_input input)"
  define p where "p = d @ replicate (bl + el + ml - length d) 0"
  have N': "bl + el + ml \<le> ISIZE_MAX" "bl + el < 2 ^ 64" "bl + el + ml < 2 ^ 64" "ml \<le> ISIZE_MAX"
    using N by (simp_all add: bl_def el_def ml_def ISIZE_MAX_def)
  have p: "right_pad d (bl + el + ml) = Some p" using N' by (simp add: right_pad_eq p_def)
  have s: "take bl p = operand input 0 bl" "take el (drop bl p) = operand input bl el"
      "take ml (drop (bl + el) p) = operand input (bl + el) ml"
    using operand_slice [of 0 bl "bl + el + ml" input] operand_slice [of bl el "bl + el + ml" input]
      operand_slice [of "bl + el" ml "bl + el + ml" input] N'(1) by (simp_all add: p_def d_def)
  have len: "bl + el + ml \<le> length p" by (simp add: p_def)
  have d': "take (length (padded_input input) - 96) d = d" by (simp add: d_def)
  have z: "be_value (replicate n 0) = 0" for n using be_value_zeros [of n "[]"] by simp
  have P': "big_from_bytes_be P bs = be_value bs" "be_value (big_to_bytes_be P n) = n"
      "0 < k \<Longrightarrow> n < 256 ^ k \<Longrightarrow> length (big_to_bytes_be P n) \<le> k" "m \<noteq> 0 \<Longrightarrow> big_modpow P b e m = b ^ e mod m"
    for bs n k b e m using P by (simp_all add: bigint_ok_def)
  show ?thesis
  proof (cases "ml = 0")
    case True
    then show ?thesis
      by (simp add: expmod_run_def right_pad_input u64_length_at_field flip: bl_def el_def ml_def)
        (simp add: expmod_spec_def operand_def Let_def)
  next
    case False
    define base ex md where "base = operand input 0 bl" and "ex = operand input bl el" and "md = operand input (bl + el) ml"
    define v where "v = be_value base ^ be_value ex mod be_value md"
    have "be_value md < 256 ^ ml" using be_value_lt [of md] len by (simp add: md_def flip: s(3))
    moreover have "v < be_value md" if "be_value md \<noteq> 0" using that by (simp add: v_def)
    ultimately have lv: "length (big_to_bytes_be P v) \<le> ml" if "be_value md \<noteq> 0"
      using P'(3) [of ml v] False that by auto
    show ?thesis
      using False N' lv length_padded_input [of input] len
      by (simp add: expmod_run_def right_pad_input u64_length_at_field d' p s P' z be_value_zeros expmod_spec_def
          flip: bl_def el_def ml_def d_def base_def ex_def md_def v_def) (use lv in force)
  qed
qed


text \<open>The price of a modular exponentiation bounds the lengths of its operands.\<close>

lemma unat_mult_small: "unat x * unat y < 2 ^ 256 \<Longrightarrow> unat (x * y :: u256) = unat x * unat y"
  using unat_mult_lem [of x y] by simp

lemma unat_add_small: "unat x + unat y < 2 ^ 256 \<Longrightarrow> unat (x + y :: u256) = unat x + unat y"
  using unat_add_lem [of x y] by simp

lemma unat_mult_div_small:
  "unat x * unat y < 2 ^ 256 \<Longrightarrow> unat (x * y div d :: u256) = unat x * unat y div unat d"
  by (simp add: unat_div unat_mult_small)

lemma square_bound: "(w :: nat) * w < 2 ^ (2 * n) \<Longrightarrow> w < 2 ^ n"
  by (metis linorder_not_less mult_le_mono power_mult power2_eq_square mult.commute)

lemma adjusted_exponent_len_range:
  "0 < unat (adjusted_exponent_len n h)" "unat (adjusted_exponent_len n h) < 2 ^ 65"
proof -
  define a where "a = (if n > 32 then of_nat (8 * (n - 32) mod 2 ^ 64) else 0 :: u256)"
  define k where "k = 256 - u256_leading_zeros h"
  have a: "unat a < 2 ^ 64"
    using unat_of_nat_le [of "8 * (n - 32) mod 2 ^ 64", where ?'a = 256] by (auto simp: a_def intro: le_less_trans)
  have k: "unat (of_nat (k - 1) :: u256) \<le> 255"
    using unat_of_nat_le [of "k - 1", where ?'a = 256] by (simp add: k_def)
  have "unat (a + of_nat (k - 1)) < 2 ^ 65"
    using a k by (subst unat_add_small) simp_all
  then show "0 < unat (adjusted_exponent_len n h)" "unat (adjusted_exponent_len n h) < 2 ^ 65"
    using a unfolding adjusted_exponent_len_def a_def [symmetric] k_def [symmetric] Let_def
    by (auto simp: unat_gt_0)
qed

lemma eip2565_bound:
  assumes "unat x < 2 ^ 64" "0 < unat a" "unat a < 2 ^ 65" "unat (mult_complexity_eip2565 x * a div 3) < 2 ^ 63"
  shows "unat x < 2 ^ 38"
proof -
  define w where "w = (unat x + 7) div 8"
  have "unat (drop_bit 3 (x + 7)) = w"
    using assms(1) by (simp add: drop_bit_eq_div unat_div w_def unat_add_small)
  moreover have "w < 2 ^ 62" using assms(1) by (simp add: w_def)
  then have "w * w < 2 ^ 62 * 2 ^ 62" by (intro mult_strict_mono) simp_all
  ultimately have m: "unat (mult_complexity_eip2565 x) = w * w" "w * w < 2 ^ 124"
    by (simp_all add: mult_complexity_eip2565_def Let_def unat_mult_small)
  have "w * w * unat a < 2 ^ 124 * 2 ^ 65" using m(2) assms(3) by (intro mult_strict_mono) simp_all
  then have "w * w * unat a div 3 < 2 ^ 63" using assms(4) by (simp add: unat_mult_div_small m(1))
  then have "w * w * unat a < 2 ^ 66" by simp
  moreover have "w * w * 1 \<le> w * w * unat a" using assms(2) by (intro mult_left_mono) simp_all
  ultimately have "w * w < 2 ^ 66" by linarith
  then have "w * w < 2 ^ (2 * 33)" by simp
  then have "w < 2 ^ 33" by (rule square_bound)
  then show ?thesis by (simp add: w_def)
qed

lemma eip198_bound:
  assumes "unat x < 2 ^ 64" "0 < unat a" "unat a < 2 ^ 65" "unat (mult_complexity_eip198 x * a div 20) < 2 ^ 63"
  shows "unat x < 2 ^ 38"
proof (cases "unat x \<le> 1024")
  case False
  define X where "X = unat x"
  have X: "1024 < X" "X < 2 ^ 64" using False assms(1) by (simp_all add: X_def)
  have xx: "X * X < 2 ^ 64 * 2 ^ 64" using X by (intro mult_strict_mono) simp_all
  have "unat (480 * x) = 480 * X" using X by (subst unat_mult_small) (simp_all add: X_def)
  moreover have "unat (drop_bit 4 (x * x)) = X * X div 16"
    using xx by (simp add: drop_bit_eq_div unat_div unat_mult_small X_def)
  ultimately have "unat (drop_bit 4 (x * x) + 480 * x) = X * X div 16 + 480 * X"
    using xx X by (subst unat_add_small) simp_all
  moreover have "199680 \<le> X * X div 16 + 480 * X" using X by simp
  ultimately have "unat (drop_bit 4 (x * x) + 480 * x - 199680) = X * X div 16 + 480 * X - 199680"
    by (subst unat_sub) (simp_all add: word_le_nat_alt)
  then have m: "unat (mult_complexity_eip198 x) = X * X div 16 + 480 * X - 199680"
    using False by (simp add: mult_complexity_eip198_def Let_def word_le_nat_alt)
  define c where "c = X * X div 16 + 480 * X - 199680"
  have c: "c < 2 ^ 126" "X * X div 16 \<le> c" using xx X by (simp_all add: c_def)
  have "c * unat a < 2 ^ 126 * 2 ^ 65" using c(1) assms(3) by (intro mult_strict_mono) simp_all
  then have "c * unat a div 20 < 2 ^ 63" using assms(4) by (simp add: unat_mult_div_small m flip: c_def)
  then have "c * unat a < 2 ^ 68" by simp
  moreover have "c * 1 \<le> c * unat a" using assms(2) by (intro mult_left_mono) simp_all
  ultimately have "X * X div 16 < 2 ^ 68" using c(2) by linarith
  then have "X * X < 2 ^ (2 * 36)" by simp
  then have "X < 2 ^ 36" by (rule square_bound)
  then show ?thesis by (simp add: X_def)
qed simp


lemma field_eq:
  assumes "i + 32 \<le> 96"
  shows "length_field input (i + 24) = be_value (take 32 (drop i (padded_input input))) mod 2 ^ 64"
proof -
  define p where "p = take 32 (drop i (padded_input input))"
  have "length p = 32" using assms length_padded_input [of input] by (simp add: p_def)
  have "be_value p = be_value (take 24 p) * 256 ^ length (drop 24 p) + be_value (drop 24 p)"
    using be_value_append [of "take 24 p" "drop 24 p"] by (simp only: append_take_drop_id)
  moreover have "length_field input (i + 24) = be_value (drop 24 p)"
    by (simp add: length_field_def p_def drop_take add.commute)
  ultimately have "be_value p = be_value (take 24 p) * 2 ^ 64 + length_field input (i + 24)"
    using \<open>length p = 32\<close> by simp
  then show ?thesis using length_field_lt [of input "i + 24"] by (simp add: p_def)
qed

lemma field_le_word:
  "i + 32 \<le> 96 \<Longrightarrow> length_field input (i + 24) \<le> be_value (take 32 (drop i (padded_input input)))"
  by (simp add: field_eq)

lemma gas_under_max:
  assumes "unat (w :: u256) < 2 ^ 64"
  shows "unat (ucast w :: u64) = unat w" "unat (max m (ucast w :: u64)) < 2 ^ 63 \<Longrightarrow> unat w < 2 ^ 63"
proof -
  show "unat (ucast w :: u64) = unat w" using assms by (simp add: unsigned_ucast_eq take_bit_nat_eq_self)
  then show "unat (max m (ucast w :: u64)) < 2 ^ 63 \<Longrightarrow> unat w < 2 ^ 63"
    by (auto simp: max_def word_le_nat_alt split: if_splits)
qed

definition exponent_length :: "byte list \<Rightarrow> nat" where
  "exponent_length input = be_value (take 32 (drop 32 (padded_input input)))"

lemma expmod_affordable:
  assumes gas: "expmod_gas input rv = Some (Some g)" and g: "unat g < 2 ^ 63" and e: "exponent_length input < 2 ^ 61"
  shows "length_field input 24 + length_field input 56 + length_field input 88 \<le> ISIZE_MAX
    \<or> length_field input 88 = 0"
proof -
  define p where "p = padded_input input"
  define bl el ml :: u256
    where "bl = from_be_bytes (take 32 p)" and "el = from_be_bytes (take 32 (drop 32 p))" and "ml = from_be_bytes (take 32 (drop 64 p))"
  have u: "unat bl = be_value (take 32 p)" "unat el = exponent_length input" "unat ml = be_value (take 32 (drop 64 p))"
    by (simp_all add: bl_def el_def ml_def unat_from_be_bytes exponent_length_def p_def)
  have f: "length_field input 24 \<le> unat bl" "length_field input 56 \<le> unat el" "length_field input 88 \<le> unat ml"
    using field_le_word [of 0 input] field_le_word [of 32 input] field_le_word [of 64 input]
    by (simp_all add: u exponent_length_def p_def)
  show ?thesis
  proof (cases "bl = 0 \<and> ml = 0")
    case False
    have "96 \<le> length p" using length_padded_input by (simp add: p_def)
    then obtain h where l: "unat bl < 2 ^ 64" "unat ml < 2 ^ 64"
      and v: "unat (if rv < Berlin then mult_complexity_eip198 (max ml bl) * adjusted_exponent_len (unat el) h div 20
          else mult_complexity_eip2565 (max ml bl) * adjusted_exponent_len (unat el) h div 3) < 2 ^ 63"
      using gas False g unfolding expmod_gas_def Let_def
      by (auto simp: right_pad_input slice_range_def G_QUAD_DIVISOR_BYZANTIUM_def G_QUAD_DIVISOR_BERLIN_def
          gas_under_max(1) [simplified]
          split: if_splits bind_splits dest: gas_under_max(2) [simplified, rotated] simp flip: p_def bl_def el_def ml_def)
    have "unat (max ml bl) < 2 ^ 64" using l by (simp add: max_def)
    then have "unat (max ml bl) < 2 ^ 38"
      using eip198_bound [OF _ adjusted_exponent_len_range, of "max ml bl" "unat el" h]
        eip2565_bound [OF _ adjusted_exponent_len_range, of "max ml bl" "unat el" h] v by (simp split: if_splits)
    then have "unat bl < 2 ^ 38" "unat ml < 2 ^ 38" by (auto simp: max_def word_le_nat_alt split: if_splits)
    then show ?thesis using f e by (simp add: u(2) ISIZE_MAX_def)
  qed (use f in simp)
qed

lemma expmod_below_bound:
  assumes "bigint_ok P" "expmod_gas input rv = Some (Some g)" "unat g < 2 ^ 63" "exponent_length input < 2 ^ 61"
  shows "returns (output_fits ISIZE_MAX) (expmod_run P input)"
proof (cases "length_field input 88 = 0")
  case True
  then show ?thesis by (simp add: expmod_run_def right_pad_input u64_length_at_field)
next
  case False
  then have N: "length_field input 24 + length_field input 56 + length_field input 88 \<le> ISIZE_MAX"
    using expmod_affordable [OF assms(2-4)] by auto
  then show ?thesis using expmod_run_value [OF assms(1) N] by (auto elim!: returns_mono)
qed


section \<open>A sample of the crates\<close>

text \<open>Big-endian digits, and a crypto library that keeps the documented laws with trivial curves.\<close>

function nat_bytes :: "nat \<Rightarrow> byte list" where
  "nat_bytes n = (if n < 256 then [of_nat n] else nat_bytes (n div 256) @ [of_nat (n mod 256)])"
  by pat_completeness auto
termination
  by (relation "measure id") auto

declare nat_bytes.simps [simp del]

lemma be_value_nat_bytes: "be_value (nat_bytes n) = n"
proof (induction n rule: nat_bytes.induct)
  case (1 n)
  have s: "be_value [b] = unat b" for b by (simp add: be_value_def)
  show ?case
  proof (cases "n < 256")
    case True
    then show ?thesis by (subst nat_bytes.simps) (simp add: s unat_of_nat)
  next
    case False
    then have "nat_bytes n = nat_bytes (n div 256) @ [of_nat (n mod 256)]" by (subst nat_bytes.simps) simp
    moreover have "unat (of_nat (n mod 256) :: byte) = n mod 256" by (simp add: unat_of_nat)
    ultimately show ?thesis using 1 [OF False] by simp
  qed
qed

lemma length_nat_bytes: "0 < k \<Longrightarrow> n < 256 ^ k \<Longrightarrow> length (nat_bytes n) \<le> k"
proof (induction n arbitrary: k rule: nat_bytes.induct)
  case (1 n)
  show ?case
  proof (cases "n < 256")
    case True
    then show ?thesis using 1(2) by (subst nat_bytes.simps) simp
  next
    case False
    then obtain j where j: "k = Suc (Suc j)" using 1(2,3) by (cases k; cases "k - 1") auto
    then have "n div 256 < 256 ^ Suc j" using 1(3) by (simp add: less_mult_imp_div_less mult.commute)
    then have "length (nat_bytes (n div 256)) \<le> Suc j" using 1(1) [OF False] by blast
    then show ?thesis using False j by (subst nat_bytes.simps) simp
  qed
qed

definition sample_crypto :: crypto_lib where
  "sample_crypto = \<lparr>sha256_digest = (\<lambda>_. replicate 32 0), ripemd160_digest = (\<lambda>_. replicate 20 0),
     secp_recover = (\<lambda>_ _ _. None), big_from_bytes_be = be_value, big_to_bytes_be = nat_bytes,
     big_modpow = (\<lambda>b e m. b ^ e mod m), fq_from_slice = (\<lambda>bs. Some (be_value bs)),
     fr_from_slice = (\<lambda>bs. Some (be_value bs)), fq_to_big_endian = (\<lambda>_. replicate 32 0),
     affine_g1_new = (\<lambda>_ _. None), g1_zero = (0, 0, 0), g1_add = (\<lambda>a _. a), g1_mul = (\<lambda>a _. a),
     affine_g1_from_jacobian = (\<lambda>_. None), affine_g2_new = (\<lambda>_ _. None), g2_zero = ((0, 0), (0, 0), (0, 0)),
     pairing = (\<lambda>_ _. []), gt_one = [], gt_mul = (\<lambda>a _. a)\<rparr>"

lemma sample_crypto_ok: "crypto_ok sample_crypto"
  by (simp add: crypto_ok_def sample_crypto_def)

lemma sample_bigint_ok: "bigint_ok sample_crypto"
  by (simp add: bigint_ok_def sample_crypto_def be_value_nat_bytes length_nat_bytes)

text \<open>An input that declares a base of no bytes, an exponent of \<open>5 * 2 ^ 61 + 32\<close> bytes and a modulus of one.\<close>

definition oversized_exponent :: "byte list" where
  "oversized_exponent = to_be_bytes 0 @ to_be_bytes (5 * 2 ^ 61 + 32) @ to_be_bytes 1"

section \<open>Properties\<close>

text \<open>C34: The modular exponentiation contract returns, in as many bytes as the modulus has, the base
  raised to the exponent modulo the modulus, and zero for a zero modulus. Operands that the input
  is too short for read as zero bytes.\<close>

theorem expmod_computes_power:
  assumes "bigint_ok P" "length_field input 24 + length_field input 56 + length_field input 88 \<le> ISIZE_MAX"
  shows "returns (\<lambda>r. \<exists>out. r = Some out \<and> length out = length_field input 88 \<and>
      be_value out = expmod_spec (operand input 0 (length_field input 24))
        (operand input (length_field input 24) (length_field input 56))
        (operand input (length_field input 24 + length_field input 56) (length_field input 88))) (expmod_run P input)"
  using assms by (rule expmod_run_value)

theorem expmod_computes_power_witness:
  "returns (\<lambda>r. \<exists>out. r = Some out \<and> length out = 1 \<and> be_value out = 4)
     (expmod_run sample_crypto (to_be_bytes 1 @ to_be_bytes 1 @ to_be_bytes 1 @ [3, 2, 5]))"
proof -
  define i where "i = to_be_bytes 1 @ to_be_bytes 1 @ to_be_bytes 1 @ [3, 2, 5 :: byte]"
  have p: "padded_input i = i" by (simp add: padded_input_def i_def)
  have v: "be_value (to_be_bytes w) = unat w" for w using unat_from_be_bytes [of "to_be_bytes w"] by simp
  have f: "take 32 i = to_be_bytes 1" "take 32 (drop 32 i) = to_be_bytes 1" "take 32 (drop 64 i) = to_be_bytes 1"
      "drop 96 i = [3, 2, 5]"
    by (simp_all add: i_def)
  have n: "length_field i 24 = 1" "length_field i 56 = 1" "length_field i 88 = 1"
    using field_eq [of 0 i] field_eq [of 32 i] field_eq [of 64 i] by (simp_all add: p v f)
  show ?thesis
    using expmod_computes_power [OF sample_bigint_ok, of i] n unfolding i_def [symmetric]
    by (simp add: ISIZE_MAX_def operand_def p f expmod_spec_def be_value_def)
qed

text \<open>C35: An exponent length below \<open>2 ^ 61\<close> is priced right in every revision: when the price is an amount
  of gas that a frame can have, the contract does not panic, whatever lengths the input declares.\<close>

theorem affordable_expmod_returns:
  assumes "bigint_ok P" "expmod_gas input rv = Some (Some g)" "unat g < 2 ^ 63" "exponent_length input < 2 ^ 61"
  shows "returns (output_fits ISIZE_MAX) (expmod_run P input)"
  using assms by (rule expmod_below_bound)

theorem affordable_expmod_returns_witness: "returns (output_fits ISIZE_MAX) (expmod_run sample_crypto [])"
proof -
  have z: "be_value (replicate n 0) = 0" for n using be_value_zeros [of n "[]"] by simp
  have "from_be_bytes (replicate 32 0) = 0" using from_be_bytes_zeros [of 32 "[]"] by (simp add: from_be_bytes_def)
  then have "expmod_gas [] London = Some (Some 200)"
    by (simp add: expmod_gas_def right_pad_eq ISIZE_MAX_def slice_range_def less_Revision_def Let_def)
  moreover have "exponent_length [] = 0" by (simp add: exponent_length_def padded_input_def z)
  ultimately show ?thesis using affordable_expmod_returns [OF sample_bigint_ok, of "[]" London 200] by simp
qed

text \<open>None of the eight other contracts can panic, on any input and in any revision, and each
  output can be allocated.\<close>

theorem other_contracts_return:
  assumes "crypto_ok P" "i < 9" "i \<noteq> 4"
  shows "contract_ok (CONTRACTS L P ! i) rv"
  using assms by (rule contracts_without_expmod)

theorem other_contracts_return_witness: "contract_ok (CONTRACTS sample_lib sample_crypto ! 8) Istanbul"
  using other_contracts_return [OF sample_crypto_ok, of 8] by simp

end
