(* ===== verification/Models.thy ===== *)
theory Models
  imports Prelude Revision
begin

text \<open>
  Transactions and block headers (\<open>models/transaction.rs\<close>, \<open>models/header.rs\<close>) and the parts of the
  chain specification that execution reads (\<open>models/chainspec.rs\<close>). Block numbers, chain ids and
  timestamps are 64-bit words.
\<close>

section \<open>Transactions\<close>

datatype TxType = Legacy | EIP2930 | EIP1559

definition TxType_try_from :: "byte \<Rightarrow> string + TxType" where
  "TxType_try_from orig =
     (if orig = 0 then Inr Legacy else if orig = 1 then Inr EIP2930 else if orig = 2 then Inr EIP1559
      else Inl ''Invalid tx type'')"

datatype TransactionAction = ActionCall address | ActionCreate

record YParityAndChainId =
  odd_y_parity :: bool
  yp_chain_id :: "u64 option"

definition from_v :: "u64 \<Rightarrow> YParityAndChainId option" where
  "from_v v =
     (if v = 27 \<or> v = 28 then Some \<lparr>odd_y_parity = (v = 28), yp_chain_id = None\<rparr>
      else if v \<ge> 35 then
        let w = v - 35
        in Some \<lparr>odd_y_parity = (w mod 2 \<noteq> 0), yp_chain_id = Some (drop_bit 1 w)\<rparr>
      else None)"

definition to_v :: "YParityAndChainId \<Rightarrow> u64" where
  "to_v y = (case yp_chain_id y of
       Some c \<Rightarrow> c * 2 + 35 + of_bool (odd_y_parity y)
     | None \<Rightarrow> 27 + of_bool (odd_y_parity y))"

record AccessListItem =
  al_address :: address
  al_slots :: "h256 list"

datatype Message =
    LegacyMessage "u64 option" u64 u256 u64 TransactionAction u256 "byte list"
  | EIP2930Message u64 u64 u256 u64 TransactionAction u256 "byte list" "AccessListItem list"
  | EIP1559Message u64 u64 u256 u256 u64 TransactionAction u256 "byte list" "AccessListItem list"

primrec tx_type :: "Message \<Rightarrow> TxType" where
  "tx_type (LegacyMessage _ _ _ _ _ _ _) = Legacy"
| "tx_type (EIP2930Message _ _ _ _ _ _ _ _) = EIP2930"
| "tx_type (EIP1559Message _ _ _ _ _ _ _ _ _) = EIP1559"

primrec tx_chain_id :: "Message \<Rightarrow> u64 option" where
  "tx_chain_id (LegacyMessage cid _ _ _ _ _ _) = cid"
| "tx_chain_id (EIP2930Message cid _ _ _ _ _ _ _) = Some cid"
| "tx_chain_id (EIP1559Message cid _ _ _ _ _ _ _ _) = Some cid"

primrec tx_nonce :: "Message \<Rightarrow> u64" where
  "tx_nonce (LegacyMessage _ n _ _ _ _ _) = n"
| "tx_nonce (EIP2930Message _ n _ _ _ _ _ _) = n"
| "tx_nonce (EIP1559Message _ n _ _ _ _ _ _ _) = n"

primrec max_priority_fee_per_gas :: "Message \<Rightarrow> u256" where
  "max_priority_fee_per_gas (LegacyMessage _ _ gas_price _ _ _ _) = gas_price"
| "max_priority_fee_per_gas (EIP2930Message _ _ gas_price _ _ _ _ _) = gas_price"
| "max_priority_fee_per_gas (EIP1559Message _ _ prio _ _ _ _ _ _) = prio"

primrec max_fee_per_gas :: "Message \<Rightarrow> u256" where
  "max_fee_per_gas (LegacyMessage _ _ gas_price _ _ _ _) = gas_price"
| "max_fee_per_gas (EIP2930Message _ _ gas_price _ _ _ _ _) = gas_price"
| "max_fee_per_gas (EIP1559Message _ _ _ max_fee _ _ _ _ _) = max_fee"

primrec tx_gas_limit :: "Message \<Rightarrow> u64" where
  "tx_gas_limit (LegacyMessage _ _ _ g _ _ _) = g"
| "tx_gas_limit (EIP2930Message _ _ _ g _ _ _ _) = g"
| "tx_gas_limit (EIP1559Message _ _ _ _ g _ _ _ _) = g"

primrec tx_action :: "Message \<Rightarrow> TransactionAction" where
  "tx_action (LegacyMessage _ _ _ _ a _ _) = a"
| "tx_action (EIP2930Message _ _ _ _ a _ _ _) = a"
| "tx_action (EIP1559Message _ _ _ _ _ a _ _ _) = a"

primrec tx_value :: "Message \<Rightarrow> u256" where
  "tx_value (LegacyMessage _ _ _ _ _ v _) = v"
| "tx_value (EIP2930Message _ _ _ _ _ v _ _) = v"
| "tx_value (EIP1559Message _ _ _ _ _ _ v _ _) = v"

primrec tx_input :: "Message \<Rightarrow> byte list" where
  "tx_input (LegacyMessage _ _ _ _ _ _ i) = i"
| "tx_input (EIP2930Message _ _ _ _ _ _ i _) = i"
| "tx_input (EIP1559Message _ _ _ _ _ _ _ i _) = i"

primrec tx_access_list :: "Message \<Rightarrow> AccessListItem list" where
  "tx_access_list (LegacyMessage _ _ _ _ _ _ _) = []"
| "tx_access_list (EIP2930Message _ _ _ _ _ _ _ al) = al"
| "tx_access_list (EIP1559Message _ _ _ _ _ _ _ _ al) = al"

text \<open>The assertion panics on a transaction whose fee cap is below the base fee.\<close>

definition priority_fee_per_gas :: "Message \<Rightarrow> u256 \<Rightarrow> u256 option" where
  "priority_fee_per_gas m base_fee_per_gas =
     (if max_fee_per_gas m \<ge> base_fee_per_gas
      then Some (min (max_priority_fee_per_gas m) (max_fee_per_gas m - base_fee_per_gas))
      else None)"

definition effective_gas_price :: "Message \<Rightarrow> u256 \<Rightarrow> u256 option" where
  "effective_gas_price m base_fee_per_gas = do {
     p \<leftarrow> priority_fee_per_gas m base_fee_per_gas;
     Some (p + base_fee_per_gas) }"

record MessageWithSender =
  tm_message :: Message
  tm_sender :: address

section \<open>Headers\<close>

type_synonym bloom = "2048 word"

record BlockHeader =
  bh_parent_hash :: h256
  bh_ommers_hash :: h256
  bh_beneficiary :: address
  bh_state_root :: h256
  bh_transactions_root :: h256
  bh_receipts_root :: h256
  bh_logs_bloom :: bloom
  bh_difficulty :: u256
  bh_number :: u64
  bh_gas_limit :: u64
  bh_gas_used :: u64
  bh_timestamp :: u64
  bh_extra_data :: "byte list"
  bh_mix_hash :: h256
  bh_nonce :: u64
  bh_base_fee_per_gas :: "u256 option"

record PartialHeader =
  ph_parent_hash :: h256
  ph_beneficiary :: address
  ph_state_root :: h256
  ph_receipts_root :: h256
  ph_logs_bloom :: bloom
  ph_difficulty :: u256
  ph_number :: u64
  ph_gas_limit :: u64
  ph_gas_used :: u64
  ph_timestamp :: u64
  ph_extra_data :: "byte list"
  ph_mix_hash :: h256
  ph_nonce :: u64
  ph_base_fee_per_gas :: "u256 option"

definition to_partial_header :: "BlockHeader \<Rightarrow> PartialHeader" where
  "to_partial_header h = \<lparr>
     ph_parent_hash = bh_parent_hash h, ph_beneficiary = bh_beneficiary h, ph_state_root = bh_state_root h,
     ph_receipts_root = bh_receipts_root h, ph_logs_bloom = bh_logs_bloom h, ph_difficulty = bh_difficulty h,
     ph_number = bh_number h, ph_gas_limit = bh_gas_limit h, ph_gas_used = bh_gas_used h,
     ph_timestamp = bh_timestamp h, ph_extra_data = bh_extra_data h, ph_mix_hash = bh_mix_hash h,
     ph_nonce = bh_nonce h, ph_base_fee_per_gas = bh_base_fee_per_gas h\<rparr>"

section \<open>The specification of a block's execution\<close>

record Params =
  pa_chain_id :: u64
  pa_network_id :: u64
  pa_min_gas_limit :: u64

section \<open>Lemmas\<close>

lemma effective_gas_price_range:
  assumes "effective_gas_price m b = Some p"
  shows "b \<le> p" "p \<le> max_fee_per_gas m"
proof -
  define d where "d = min (max_priority_fee_per_gas m) (max_fee_per_gas m - b)"
  have c: "b \<le> max_fee_per_gas m" and p: "p = d + b"
    using assms by (auto simp: effective_gas_price_def priority_fee_per_gas_def d_def split: if_splits)
  have "unat (max_fee_per_gas m - b) = unat (max_fee_per_gas m) - unat b" using c by (rule unat_sub)
  moreover have "unat d \<le> unat (max_fee_per_gas m - b)" by (simp add: d_def flip: word_le_nat_alt)
  ultimately have "unat d + unat b \<le> unat (max_fee_per_gas m)" using c by (simp add: word_le_nat_alt)
  moreover have "unat (max_fee_per_gas m) < 2 ^ 256" using unsigned_less [of "max_fee_per_gas m"] by simp
  ultimately have "unat p = unat d + unat b" using unat_add_lem [of d b] by (simp add: p)
  then show "b \<le> p" "p \<le> max_fee_per_gas m"
    using \<open>unat d + unat b \<le> unat (max_fee_per_gas m)\<close> by (simp_all add: word_le_nat_alt)
qed

text \<open>The arithmetic of \<open>v\<close>, on natural numbers.\<close>

lemma unat_v_even:
  assumes "unat (c :: u64) * 2 + 36 < 2 ^ 64"
  shows "unat (c * 2) = unat c * 2" "unat (c * 2 + 35) = unat c * 2 + 35"
    "unat (c * 2 + 36) = unat c * 2 + 36"
proof -
  show 1: "unat (c * 2) = unat c * 2" using assms unat_mult_lem [of c 2] by simp
  show "unat (c * 2 + 35) = unat c * 2 + 35" "unat (c * 2 + 36) = unat c * 2 + 36"
    using assms unat_add_lem [of "c * 2" 35] unat_add_lem [of "c * 2" 36] by (simp_all add: 1)
qed

lemma from_to_v:
  assumes "\<And>c. yp_chain_id y = Some c \<Longrightarrow> unat c * 2 + 36 < 2 ^ 64"
  shows "from_v (to_v y) = Some y"
proof (cases "yp_chain_id y")
  case None
  then show ?thesis by (cases y) (simp add: from_v_def to_v_def)
next
  case (Some c)
  note u = unat_v_even [OF assms [OF Some]]
  define w where "w = c * 2 + of_bool (odd_y_parity y)"
  have v: "to_v y = w + 35" by (simp add: to_v_def Some w_def)
  have uv: "unat (w + 35) = unat c * 2 + 35 + of_bool (odd_y_parity y)" using u by (simp add: w_def add.assoc)
  have uw: "unat w = unat c * 2 + of_bool (odd_y_parity y)"
    using assms [OF Some] unat_add_lem [of "c * 2" 1] by (simp add: w_def u)
  have "w + 35 \<noteq> 27" "w + 35 \<noteq> 28" "35 \<le> w + 35"
    using uv by (auto simp: word_le_nat_alt word_unat_eq_iff simp del: unsigned_eq_0_iff)
  moreover have "drop_bit 1 w = c" by (simp add: word_unat_eq_iff uw drop_bit_eq_div unat_div)
  moreover have "w mod 2 \<noteq> 0 \<longleftrightarrow> odd_y_parity y"
    by (auto simp: word_unat_eq_iff unat_mod uw simp del: unsigned_eq_0_iff)
  ultimately show ?thesis unfolding v using Some by (cases y) (simp add: from_v_def)
qed

lemma to_from_v:
  assumes "from_v v = Some z"
  shows "to_v z = v"
proof -
  have "drop_bit 1 w * 2 + of_bool (w mod 2 \<noteq> 0) = w" for w :: u64
    using bits_ident [of 1 w] by (cases "even w") (simp_all add: push_bit_eq_mult take_bit_eq_mod even_iff_mod_2_eq_zero odd_iff_mod_2_eq_one)
  then have "drop_bit 1 (v - 35) * 2 + 35 + of_bool ((v - 35) mod 2 \<noteq> 0) = v"
    by (metis (no_types, lifting) add.commute add.left_commute diff_add_cancel)
  then show ?thesis using assms by (auto simp: from_v_def to_v_def Let_def split: if_splits)
qed

section \<open>Properties\<close>

text \<open>Reading the \<open>v\<close> of a signature as a parity and a chain id and writing it back gives the same \<open>v\<close>,
  and every chain id for which \<open>v\<close> does not overflow 64 bits is read back with its parity. The
  values below 27, and from 29 to 34, are rejected.\<close>

theorem signature_v_roundtrip:
  assumes "\<And>c. yp_chain_id y = Some c \<Longrightarrow> unat c * 2 + 36 < 2 ^ 64"
  shows "from_v (to_v y) = Some y \<and> (from_v v = Some z \<longrightarrow> to_v z = v)
    \<and> (from_v v = None \<longleftrightarrow> v < 27 \<or> 28 < v \<and> v < 35)"
proof (intro conjI impI)
  show "from_v (to_v y) = Some y" by (rule from_to_v [OF assms])
  show "from_v v = None \<longleftrightarrow> v < 27 \<or> 28 < v \<and> v < 35"
    by (auto simp: from_v_def Let_def word_less_nat_alt word_le_nat_alt word_unat_eq_iff simp del: unsigned_eq_0_iff)
qed (rule to_from_v)

theorem signature_v_roundtrip_witness:
  "from_v (to_v \<lparr>odd_y_parity = True, yp_chain_id = Some 1\<rparr>) = Some \<lparr>odd_y_parity = True, yp_chain_id = Some 1\<rparr>
   \<and> from_v 29 = None"
  using signature_v_roundtrip [of "\<lparr>odd_y_parity = True, yp_chain_id = Some 1\<rparr>" 29 undefined] by simp

end
