(* ===== verification/ChainSpec.thy ===== *)
theory ChainSpec
  imports Models
begin

text \<open>
  The chain specification, \<open>src/models/chainspec.rs\<close>: the parameters of a chain and of its consensus,
  and the specification of a single block that is collected from them.

  A \<open>BTreeMap\<close> keyed by block numbers is the list of its entries in the order of the keys
  (\<open>sorted_entries\<close>), a hash map is a map and a set of block numbers is a set. A \<open>Duration\<close> is its
  number of milliseconds.
\<close>

section \<open>Data\<close>

datatype ModExpVersion = ModExp198 | ModExp2565

datatype Precompile =
    EcRecover u64 u64 | Sha256 u64 u64 | Ripemd160 u64 u64 | Identity u64 u64
  | ModExp ModExpVersion | AltBn128Add u64 | AltBn128Mul u64 | AltBn128Pairing u64 u64 | Blake2F u64

datatype ChainContract = ContractCode "byte list" | ContractPrecompile Precompile

record BlockExecutionSpec =
  bs_revision :: Revision
  bs_active_transitions :: "Revision set"
  bs_params :: Params
  bs_system_contract_changes :: "address \<rightharpoonup> ChainContract"
  bs_balance_changes :: "address \<rightharpoonup> u256"

type_synonym 'a by_block = "(u64 \<times> 'a) list"

record DifficultyBomb =
  delays :: "u64 by_block"

datatype SealVerificationParams =
    CliqueParams nat u64
  | EthashParams u64 "u256 by_block" "u64 option" "u64 option" "DifficultyBomb option" bool

record ConsensusParams =
  seal_verification :: SealVerificationParams
  eip1559_block :: "u64 option"

record Upgrades =
  up_homestead :: "u64 option"
  up_tangerine :: "u64 option"
  up_spurious :: "u64 option"
  up_byzantium :: "u64 option"
  up_constantinople :: "u64 option"
  up_petersburg :: "u64 option"
  up_istanbul :: "u64 option"
  up_berlin :: "u64 option"
  up_london :: "u64 option"

datatype BlockScore = NoTurn | InTurn

datatype Seal =
    EthashSeal "byte list" u256 u64 h256
  | CliqueSeal h256 BlockScore "address list"

record Genesis =
  gen_number :: u64
  gen_author :: address
  gen_gas_limit :: u64
  gen_timestamp :: u64
  gen_seal :: Seal

record P2PParams =
  bootnodes :: "string list"
  preverified_hashes :: "h256 list"

record ChainSpec =
  cs_name :: string
  cs_consensus :: ConsensusParams
  cs_upgrades :: Upgrades
  cs_params :: Params
  cs_genesis :: Genesis
  cs_contracts :: "(address \<rightharpoonup> ChainContract) by_block"
  cs_balances :: "(address \<rightharpoonup> u256) by_block"
  cs_p2p :: P2PParams

section \<open>The specification of a block\<close>

definition fork_list :: "Upgrades \<Rightarrow> (u64 option \<times> Revision) list" where
  "fork_list u = [
     (up_london u, London), (up_berlin u, Berlin), (up_istanbul u, Istanbul), (up_petersburg u, Petersburg),
     (up_constantinople u, Constantinople), (up_byzantium u, Byzantium), (up_spurious u, Spurious),
     (up_tangerine u, Tangerine), (up_homestead u, Homestead)]"

text \<open>The loop over the forks, which breaks at the first active one.\<close>

fun fork_loop :: "u64 \<Rightarrow> (u64 option \<times> Revision) list \<Rightarrow> Revision \<Rightarrow> Revision set \<Rightarrow> Revision \<times> Revision set" where
  "fork_loop n [] revision active = (revision, active)"
| "fork_loop n ((fork, r) # fs) revision active = (case fork of
       Some fork_block \<Rightarrow>
         (if n \<ge> fork_block
          then (if revision = Frontier then r else revision, if n = fork_block then insert r active else active)
          else fork_loop n fs revision active)
     | None \<Rightarrow> fork_loop n fs revision active)"

definition collect_contracts :: "u64 \<Rightarrow> (address \<rightharpoonup> ChainContract) by_block \<Rightarrow> address \<rightharpoonup> ChainContract" where
  "collect_contracts n cs = fold (\<lambda>(bn, contracts) acc. if n \<ge> bn then acc ++ contracts else acc) cs Map.empty"

definition collect_block_spec :: "ChainSpec \<Rightarrow> u64 \<Rightarrow> BlockExecutionSpec" where
  "collect_block_spec spec n =
     (let (revision, active) = fork_loop n (fork_list (cs_upgrades spec)) Frontier {}
      in \<lparr>bs_revision = revision, bs_active_transitions = active, bs_params = cs_params spec,
          bs_system_contract_changes = collect_contracts n (cs_contracts spec),
          bs_balance_changes = (case map_of (cs_balances spec) n of Some m \<Rightarrow> m | None \<Rightarrow> Map.empty)\<rparr>)"

definition seal_gather_forks :: "SealVerificationParams \<Rightarrow> u64 set" where
  "seal_gather_forks p = (case p of
       EthashParams _ block_reward homestead_formula byzantium_formula difficulty_bomb _ \<Rightarrow>
         set (map fst block_reward) \<union> set_option homestead_formula \<union> set_option byzantium_formula
         \<union> (case difficulty_bomb of Some v \<Rightarrow> set (map fst (delays v)) | None \<Rightarrow> {})
     | CliqueParams _ _ \<Rightarrow> {})"

definition gather_forks :: "ChainSpec \<Rightarrow> u64 set" where
  "gather_forks spec =
     (let u = cs_upgrades spec
      in (\<Union>f\<in>set [up_homestead u, up_tangerine u, up_spurious u, up_byzantium u, up_constantinople u,
             up_petersburg u, up_istanbul u, up_berlin u, up_london u]. set_option f)
         \<union> set_option (eip1559_block (cs_consensus spec))
         \<union> seal_gather_forks (seal_verification (cs_consensus spec))
         \<union> set (map fst (cs_contracts spec)) \<union> set (map fst (cs_balances spec))) - {0}"

definition get_delay_to :: "DifficultyBomb \<Rightarrow> u64 \<Rightarrow> u64" where
  "get_delay_to bomb n =
     (let active = List.map_filter (\<lambda>(activation, delay_to). if n \<ge> activation then Some delay_to else None) (delays bomb)
      in if active = [] then 0 else last active)"

definition switch_is_active :: "u64 option \<Rightarrow> u64 \<Rightarrow> bool" where
  "switch_is_active switch n \<longleftrightarrow> n \<ge> (case switch of Some b \<Rightarrow> b | None \<Rightarrow> - 1)"

section \<open>Genesis seals\<close>

definition score_value :: "BlockScore \<Rightarrow> nat" where
  "score_value s = (case s of NoTurn \<Rightarrow> 1 | InTurn \<Rightarrow> 2)"

definition seal_difficulty :: "Seal \<Rightarrow> u256" where
  "seal_difficulty s = (case s of EthashSeal _ d _ _ \<Rightarrow> d | CliqueSeal _ score _ \<Rightarrow> of_nat (score_value score))"

definition seal_extra_data :: "Seal \<Rightarrow> byte list" where
  "seal_extra_data s = (case s of
       EthashSeal vanity _ _ _ \<Rightarrow> vanity
     | CliqueSeal vanity _ signers \<Rightarrow>
         to_be_bytes vanity @ concat (map (\<lambda>a. drop 12 (to_be_bytes (ucast a))) signers) @ replicate 65 0)"

definition seal_mix_hash :: "Seal \<Rightarrow> h256" where
  "seal_mix_hash s = (case s of EthashSeal _ _ _ m \<Rightarrow> m | _ \<Rightarrow> 0)"

definition seal_nonce :: "Seal \<Rightarrow> u64" where
  "seal_nonce s = (case s of EthashSeal _ _ n _ \<Rightarrow> n | _ \<Rightarrow> 0)"

section \<open>Lemmas\<close>

definition sorted_entries :: "'a by_block \<Rightarrow> bool" where
  "sorted_entries m \<longleftrightarrow> sorted (map fst m) \<and> distinct (map fst m)"

text \<open>The revisions whose fork block has been reached; Frontier is always active.\<close>

definition active_revisions :: "Upgrades \<Rightarrow> u64 \<Rightarrow> Revision set" where
  "active_revisions u n = {r. r = Frontier \<or> (\<exists>b. (Some b, r) \<in> set (fork_list u) \<and> b \<le> n)}"

lemma fork_loop_max:
  assumes "sorted (rev (map snd fs))" "Frontier \<notin> set (map snd fs)" "fork_loop n fs Frontier {} = (r, active)"
  shows "(r = Frontier \<and> (\<forall>b q. (Some b, q) \<in> set fs \<longrightarrow> n < b) \<and> active = {})
    \<or> (\<exists>b. (Some b, r) \<in> set fs \<and> b \<le> n \<and> active = (if b = n then {r} else {})
         \<and> (\<forall>c q. (Some c, q) \<in> set fs \<and> c \<le> n \<longrightarrow> q \<le> r))"
  using assms
proof (induction fs)
  case (Cons f fs)
  obtain fork q where f: "f = (fork, q)" by force
  show ?case
  proof (cases "\<exists>b. fork = Some b \<and> b \<le> n")
    case True
    then obtain b where b: "fork = Some b" "b \<le> n" by blast
    have "q' \<le> q" if "(c, q') \<in> set (f # fs)" for c q'
      using that Cons.prems(1) by (force simp: f sorted_append)
    moreover have "r = q" "active = (if b = n then {r} else {})" using Cons.prems(3) b by (auto simp: f)
    ultimately show ?thesis using b by (intro disjI2 exI [of _ b]) (auto simp: f)
  next
    case False
    then have "fork_loop n fs Frontier {} = (r, active)" using Cons.prems(3) by (auto simp: f split: option.splits if_splits)
    moreover have "sorted (rev (map snd fs))" "Frontier \<notin> set (map snd fs)"
      using Cons.prems(1,2) by (auto simp: sorted_append)
    ultimately have ih: "(r = Frontier \<and> (\<forall>b q. (Some b, q) \<in> set fs \<longrightarrow> n < b) \<and> active = {})
        \<or> (\<exists>b. (Some b, r) \<in> set fs \<and> b \<le> n \<and> active = (if b = n then {r} else {})
          \<and> (\<forall>c q. (Some c, q) \<in> set fs \<and> c \<le> n \<longrightarrow> q \<le> r))"
      using Cons.IH by blast
    have "(Some c, q') \<in> set (f # fs) \<and> c \<le> n \<longleftrightarrow> (Some c, q') \<in> set fs \<and> c \<le> n" for c q'
      using False by (auto simp: f)
    then show ?thesis using ih by (metis not_le)
  qed
qed simp

lemma collect_contracts_latest:
  "collect_contracts n cs a = (case filter (\<lambda>(b, m). b \<le> n \<and> m a \<noteq> None) cs of [] \<Rightarrow> None | es \<Rightarrow> (snd (last es)) a)"
proof -
  let ?P = "\<lambda>(b, m). b \<le> n \<and> m a \<noteq> None"
  have "fold (\<lambda>(bn, contracts) acc. if n \<ge> bn then acc ++ contracts else acc) cs acc a
      = (case filter ?P cs of [] \<Rightarrow> acc a | es \<Rightarrow> (snd (last es)) a)" for acc
  proof (induction cs arbitrary: acc)
    case (Cons c cs)
    then show ?case by (cases c; cases "filter ?P cs") (auto simp: map_add_def split: option.splits)
  qed simp
  then show ?thesis by (simp add: collect_contracts_def)
qed

lemma fork_list_sorted: "sorted (rev (map snd (fork_list u)))" "Frontier \<notin> set (map snd (fork_list u))"
  by (simp_all add: fork_list_def less_eq_Revision_def)

lemma collected_revision:
  fixes spec n
  defines "r \<equiv> bs_revision (collect_block_spec spec n)"
  shows "r \<in> active_revisions (cs_upgrades spec) n" "q \<in> active_revisions (cs_upgrades spec) n \<Longrightarrow> q \<le> r"
proof -
  obtain active where l: "fork_loop n (fork_list (cs_upgrades spec)) Frontier {} = (r, active)"
    by (cases "fork_loop n (fork_list (cs_upgrades spec)) Frontier {}") (simp add: r_def collect_block_spec_def)
  note m = fork_loop_max [OF fork_list_sorted l]
  then show "r \<in> active_revisions (cs_upgrades spec) n" by (auto simp: active_revisions_def)
  have "Frontier \<le> r" by (simp add: less_eq_Revision_def)
  then show "q \<in> active_revisions (cs_upgrades spec) n \<Longrightarrow> q \<le> r"
    using m by (fastforce simp: active_revisions_def)
qed

lemma active_revisions_mono: "n \<le> m \<Longrightarrow> active_revisions u n \<subseteq> active_revisions u m"
  by (fastforce simp: active_revisions_def)

section \<open>Properties\<close>

text \<open>The revision collected for a block is the latest one whose fork block has been reached, and
  Frontier when there is none; so the revision never goes back as the block number grows, whatever
  the order of the fork blocks in the specification. A contract that the specification changes has
  the code of the last change at or before the block.\<close>

theorem collected_revision_latest:
  assumes "n \<le> m"
  shows "bs_revision (collect_block_spec spec n) \<in> active_revisions (cs_upgrades spec) n
    \<and> (\<forall>q \<in> active_revisions (cs_upgrades spec) n. q \<le> bs_revision (collect_block_spec spec n))
    \<and> bs_revision (collect_block_spec spec n) \<le> bs_revision (collect_block_spec spec m)
    \<and> bs_system_contract_changes (collect_block_spec spec n) a
        = (case filter (\<lambda>(b, c). b \<le> n \<and> c a \<noteq> None) (cs_contracts spec) of [] \<Rightarrow> None | es \<Rightarrow> snd (last es) a)"
proof -
  have "bs_system_contract_changes (collect_block_spec spec n) = collect_contracts n (cs_contracts spec)"
    by (simp add: collect_block_spec_def split: prod.splits)
  moreover have "bs_revision (collect_block_spec spec n) \<le> bs_revision (collect_block_spec spec m)"
    using collected_revision(1) [of spec n] active_revisions_mono [OF assms] by (intro collected_revision(2)) blast
  ultimately show ?thesis using collected_revision [where spec = spec] collect_contracts_latest
    by (auto simp del: not_None_eq)
qed

definition sample_chain :: ChainSpec where
  "sample_chain = \<lparr>cs_name = ''sample'',
     cs_consensus = \<lparr>seal_verification = EthashParams 13 [(0, 5)] (Some 0) (Some 10) None False, eip1559_block = Some 20\<rparr>,
     cs_upgrades = \<lparr>up_homestead = Some 5, up_tangerine = None, up_spurious = None, up_byzantium = Some 10,
       up_constantinople = None, up_petersburg = None, up_istanbul = None, up_berlin = None, up_london = Some 20\<rparr>,
     cs_params = \<lparr>pa_chain_id = 1, pa_network_id = 1, pa_min_gas_limit = 5000\<rparr>,
     cs_genesis = \<lparr>gen_number = 0, gen_author = 0, gen_gas_limit = 5000, gen_timestamp = 0, gen_seal = EthashSeal [] 0 0 0\<rparr>,
     cs_contracts = [(10, [7 \<mapsto> ContractCode [1]]), (20, [7 \<mapsto> ContractCode [2]])], cs_balances = [],
     cs_p2p = \<lparr>bootnodes = [], preverified_hashes = []\<rparr>\<rparr>"

theorem collected_revision_latest_witness:
  "Byzantium \<le> bs_revision (collect_block_spec sample_chain 12)
   \<and> bs_revision (collect_block_spec sample_chain 12) \<le> bs_revision (collect_block_spec sample_chain 30)
   \<and> bs_system_contract_changes (collect_block_spec sample_chain 12) 7 = Some (ContractCode [1])"
proof -
  have "Byzantium \<in> active_revisions (cs_upgrades sample_chain) 12"
    by (simp add: active_revisions_def sample_chain_def fork_list_def)
  then show ?thesis using collected_revision_latest [of 12 30 sample_chain 7] by (simp add: sample_chain_def)
qed

end
