(* ===== verification/EvmGlue.thy ===== *)
theory EvmGlue
  imports InterpreterSafety StateEffects Precompiled ChainSpec
begin

text \<open>
  The EVM on the journaled state, \<open>src/execution/evmglue.rs\<close>, with the addresses of new contracts
  (\<open>execution/address.rs\<close>) and the cache of analyzed code (\<open>execution/analysis_cache.rs\<close>).

  \<open>Evm::create\<close>, \<open>Evm::call\<close> and the interpreter call each other through the trait \<open>Host\<close>. The model
  ties this knot over the depth of calls: \<open>evm_host env n\<close> is the host whose \<open>call\<close> may nest \<open>n\<close> more
  frames, and \<open>evm_host env 0\<close> gives \<open>None\<close> on any call. The interpreter makes no call at depth 1024,
  so that \<open>CALL_LIMIT = 1024\<close> nested hosts are enough, which the theorems prove.

  The LRU cache of the crate \<open>lru\<close> is a pair of functions, and the RLP encoding that the address of
  a created contract hashes is a parameter. The table of precompiled contracts is a field of the
  environment; the source's is \<open>CONTRACTS\<close>. The calls of the tracer, which observe and do not change
  the state, are left out.
\<close>

section \<open>The environment of a transaction\<close>

record 'c lru =
  lru_peek :: "'c \<Rightarrow> h256 \<Rightarrow> AnalyzedCode option"
  lru_get :: "'c \<Rightarrow> h256 \<Rightarrow> AnalyzedCode option \<times> 'c"
  lru_put :: "'c \<Rightarrow> h256 \<Rightarrow> AnalyzedCode \<Rightarrow> 'c"

record 'c Env =
  env_db :: Database
  env_lib :: lib
  env_rlp :: "address \<Rightarrow> u64 \<Rightarrow> byte list"
  env_lru :: "'c lru"
  env_contracts :: "Contract list"
  env_header :: PartialHeader
  env_spec :: BlockExecutionSpec
  env_txn :: MessageWithSender
  env_beneficiary :: address

record 'c Evm =
  evm_state :: IntraBlockState
  evm_cache :: 'c

abbreviation env_revision :: "'c Env \<Rightarrow> Revision" where
  "env_revision env \<equiv> bs_revision (env_spec env)"

text \<open>The last twenty bytes of a digest.\<close>

definition create_address :: "'c Env \<Rightarrow> address \<Rightarrow> u64 \<Rightarrow> address" where
  "create_address env caller nonce = ucast (keccak256 (env_lib env) (env_rlp env caller nonce))"

definition address_bytes :: "address \<Rightarrow> byte list" where
  "address_bytes a = drop 12 (to_be_bytes (ucast a))"

definition create2_address :: "'c Env \<Rightarrow> address \<Rightarrow> u256 \<Rightarrow> h256 \<Rightarrow> address" where
  "create2_address env caller salt code_hash =
     ucast (keccak256 (env_lib env) (0xff # address_bytes caller @ to_be_bytes salt @ to_be_bytes code_hash))"

definition number_of_precompiles :: "Revision \<Rightarrow> nat" where
  "number_of_precompiles r =
     (if r \<in> {Frontier, Homestead, Tangerine, Spurious} then NUM_OF_FRONTIER_CONTRACTS
      else if r \<in> {Byzantium, Constantinople, Petersburg} then NUM_OF_BYZANTIUM_CONTRACTS
      else NUM_OF_ISTANBUL_CONTRACTS)"

definition is_precompiled :: "Revision \<Rightarrow> address \<Rightarrow> bool" where
  "is_precompiled r contract =
     (if contract = 0 then False else contract \<le> of_nat (number_of_precompiles r))"

section \<open>Calls and creations\<close>

definition on_state :: "'c Evm \<Rightarrow> 'a \<times> IntraBlockState \<Rightarrow> 'a \<times> 'c Evm" where
  "on_state e r = (fst r, e\<lparr>evm_state := snd r\<rparr>)"

definition set_state :: "'c Evm \<Rightarrow> IntraBlockState option \<Rightarrow> 'c Evm option" where
  "set_state e m = map_option (\<lambda>s. e\<lparr>evm_state := s\<rparr>) m"

definition cached_analysis ::
  "'c Env \<Rightarrow> byte list \<Rightarrow> h256 option \<Rightarrow> 'c Evm \<Rightarrow> (AnalyzedCode \<times> 'c Evm) option" where
  "cached_analysis env bs code_hash e = (case code_hash of
       Some h \<Rightarrow>
         (case lru_get (env_lru env) (evm_cache e) h of
            (Some a, c) \<Rightarrow> Some (a, e\<lparr>evm_cache := c\<rparr>)
          | (None, c) \<Rightarrow>
              (case lru_get (env_lru env) (lru_put (env_lru env) c h (analyze bs)) h of
                 (Some a, c) \<Rightarrow> Some (a, e\<lparr>evm_cache := c\<rparr>)
               | (None, c) \<Rightarrow> None))
     | None \<Rightarrow> Some (analyze bs, e))"

definition evm_execute ::
  "'c Env \<Rightarrow> 'c Evm Host \<Rightarrow> InterpreterMessage \<Rightarrow> byte list \<Rightarrow> h256 option \<Rightarrow> 'c Evm \<Rightarrow> (Output \<times> 'c Evm) option" where
  "evm_execute env H msg bs code_hash e = do {
     (a, e) \<leftarrow> cached_analysis env bs code_hash e;
     execute H (env_lib env) a msg (env_revision env) e }"

definition initial_output :: "int \<Rightarrow> Output" where
  "initial_output gas = \<lparr>out_status_code = Success, out_gas_left = gas, out_output_data = [], out_create_address = None\<rparr>"

text \<open>What both operations do with an unsuccessful result.\<close>

definition settle :: "Snapshot \<Rightarrow> Output \<Rightarrow> 'c Evm \<Rightarrow> (Output \<times> 'c Evm) option" where
  "settle snapshot res e = do {
     e \<leftarrow> set_state e (revert_to_snapshot (evm_state e) snapshot);
     Some (if out_status_code res \<noteq> Revert then res\<lparr>out_gas_left := 0\<rparr> else res, e) }"

definition MAX_CODE_SIZE :: nat where "MAX_CODE_SIZE = 0x6000"
definition G_CODE_DEPOSIT :: u64 where "G_CODE_DEPOSIT = 200"

text \<open>The checks on the code an init code returns, and its deposit.\<close>

definition deposit_code :: "'c Env \<Rightarrow> address \<Rightarrow> Output \<Rightarrow> 'c Evm \<Rightarrow> (Output \<times> 'c Evm) option" where
  "deposit_code env contract_addr res e =
     (let code_len = length (out_output_data res);
          code_deploy_gas = of_nat code_len * G_CODE_DEPOSIT :: u64;
          r = env_revision env
      in if r \<ge> London \<and> code_len > 0 \<and> out_output_data res ! 0 = 0xEF
         then Some (res\<lparr>out_status_code := ContractValidationFailure\<rparr>, e)
         else if r \<ge> Spurious \<and> code_len > MAX_CODE_SIZE then Some (res\<lparr>out_status_code := OutOfGas\<rparr>, e)
         else if out_gas_left res \<ge> 0 \<and> of_int (out_gas_left res) \<ge> code_deploy_gas then do {
           e \<leftarrow> set_state e (set_code (env_lib env) (env_db env) (evm_state e) contract_addr (out_output_data res));
           Some (res\<lparr>out_gas_left := i64 (out_gas_left res - i64 (int (unat code_deploy_gas)))\<rparr>, e) }
         else if r \<ge> Homestead then Some (res\<lparr>out_status_code := OutOfGas\<rparr>, e)
         else Some (res, e))"

definition deploy :: "'c Env \<Rightarrow> 'c Evm Host \<Rightarrow> CreateMessage \<Rightarrow> address \<Rightarrow> 'c Evm \<Rightarrow> (Output \<times> 'c Evm) option" where
  "deploy env H msg contract_addr e = do {
     let db = env_db env;
     let snapshot = take_snapshot (evm_state e);
     let e = e\<lparr>evm_state := create_contract db (evm_state e) contract_addr\<rparr>;
     e \<leftarrow> (if env_revision env \<ge> Spurious then set_state e (set_nonce db (evm_state e) contract_addr 1) else Some e);
     e \<leftarrow> set_state e (subtract_from_balance db (evm_state e) (cm_sender msg) (cm_endowment msg));
     e \<leftarrow> set_state e (add_to_balance db (evm_state e) contract_addr (cm_endowment msg));
     (res, e) \<leftarrow> evm_execute env H
       \<lparr>msg_kind = Call, msg_is_static = False, msg_depth = cm_depth msg, msg_gas = cm_gas msg,
        msg_recipient = contract_addr, msg_sender = cm_sender msg, msg_input_data = [],
        msg_value = cm_endowment msg, msg_code_address = 0\<rparr> (cm_initcode msg) None e;
     (res, e) \<leftarrow> (if out_status_code res = Success then deposit_code env contract_addr res e else Some (res, e));
     if out_status_code res = Success then Some (res\<lparr>out_create_address := Some contract_addr\<rparr>, e)
     else settle snapshot res e }"

definition evm_create :: "'c Env \<Rightarrow> 'c Evm Host \<Rightarrow> CreateMessage \<Rightarrow> 'c Evm \<Rightarrow> (Output \<times> 'c Evm) option" where
  "evm_create env H msg e = do {
     let db = env_db env;
     let (balance, e) = on_state e (ibs_get_balance db (evm_state e) (cm_sender msg));
     if balance < cm_endowment msg
     then Some ((initial_output (cm_gas msg))\<lparr>out_status_code := InsufficientBalance\<rparr>, e)
     else do {
       let (nonce, e) = on_state e (get_nonce db (evm_state e) (cm_sender msg));
       e \<leftarrow> set_state e (set_nonce db (evm_state e) (cm_sender msg) (nonce + 1));
       let contract_addr = (case cm_salt msg of
           Some salt \<Rightarrow> create2_address env (cm_sender msg) salt (keccak256 (env_lib env) (cm_initcode msg))
         | None \<Rightarrow> create_address env (cm_sender msg) nonce);
       let (_, e) = on_state e (ibs_access_account (evm_state e) contract_addr);
       let (n, e) = on_state e (get_nonce db (evm_state e) contract_addr);
       let (taken, e) = (if n \<noteq> 0 then (True, e)
         else let (h, e) = on_state e (ibs_get_code_hash db (evm_state e) contract_addr) in (h \<noteq> EMPTY_HASH, e));
       if taken
       then Some ((initial_output 0)\<lparr>out_status_code := InvalidInstruction\<rparr>, e)
       else deploy env H msg contract_addr e } }"

definition precompiled_call :: "'c Env \<Rightarrow> InterpreterMessage \<Rightarrow> Output option" where
  "precompiled_call env msg = do {
     let num = unat (ucast (msg_code_address msg) :: byte);
     let res = initial_output (msg_gas msg);
     contract \<leftarrow> (if num = 0 then None else index_at (env_contracts env) (num - 1));
     price \<leftarrow> contract_gas contract (msg_input_data msg) (env_revision env);
     case (case price of Some g \<Rightarrow> if unat g < 2 ^ 63 then Some (int (unat g)) else None | None \<Rightarrow> None) of
       Some gas \<Rightarrow>
         if gas > msg_gas msg then Some (res\<lparr>out_status_code := OutOfGas\<rparr>)
         else do {
           output \<leftarrow> contract_run contract (msg_input_data msg);
           Some (case output of
               Some bs \<Rightarrow> res\<lparr>out_status_code := Success, out_gas_left := i64 (msg_gas msg - gas), out_output_data := bs\<rparr>
             | None \<Rightarrow> res\<lparr>out_status_code := PrecompileFailure\<rparr>) }
     | None \<Rightarrow> Some (res\<lparr>out_status_code := OutOfGas\<rparr>) }"

text \<open>The part of a call after the snapshot, and the reads before it.\<close>

definition call_transfer :: "'c Env \<Rightarrow> InterpreterMessage \<Rightarrow> 'c Evm \<Rightarrow> 'c Evm option" where
  "call_transfer env msg e =
     (if msg_kind msg = Call then
        (if msg_is_static msg then Some (e\<lparr>evm_state := touch (evm_state e) (msg_recipient msg)\<rparr>)
         else do {
           e \<leftarrow> set_state e (subtract_from_balance (env_db env) (evm_state e) (msg_sender msg) (msg_value msg));
           set_state e (add_to_balance (env_db env) (evm_state e) (msg_recipient msg) (msg_value msg)) })
      else Some e)"

definition call_body ::
  "'c Env \<Rightarrow> 'c Evm Host \<Rightarrow> InterpreterMessage \<Rightarrow> bool \<Rightarrow> byte list option \<Rightarrow> 'c Evm \<Rightarrow> (Output \<times> 'c Evm) option" where
  "call_body env H msg precompiled bs e = do {
     let snapshot = take_snapshot (evm_state e);
     e \<leftarrow> call_transfer env msg e;
     if precompiled then do {
       res \<leftarrow> precompiled_call env msg;
       if out_status_code res \<noteq> Success then settle snapshot res e else Some (res, e) }
     else do {
       let bs = (case bs of Some bs \<Rightarrow> bs | None \<Rightarrow> []);
       if bs = [] then Some (initial_output (msg_gas msg), e)
       else do {
         let (h, e) = on_state e (ibs_get_code_hash (env_db env) (evm_state e) (msg_code_address msg));
         (res, e) \<leftarrow> evm_execute env H msg bs (Some h) e;
         if out_status_code res \<noteq> Success then settle snapshot res e else Some (res, e) } } }"

definition evm_call :: "'c Env \<Rightarrow> 'c Evm Host \<Rightarrow> InterpreterMessage \<Rightarrow> 'c Evm \<Rightarrow> (Output \<times> 'c Evm) option" where
  "evm_call env H msg e =
     (let db = env_db env;
          res = initial_output (msg_gas msg);
          (poor, e) = (if msg_kind msg \<noteq> DelegateCall
            then let (b, e) = on_state e (ibs_get_balance db (evm_state e) (msg_sender msg)) in (b < msg_value msg, e)
            else (False, e))
      in if poor then Some (res\<lparr>out_status_code := InsufficientBalance\<rparr>, e)
         else
           let precompiled = is_precompiled (env_revision env) (msg_code_address msg);
               (bs, e) = (if \<not> precompiled then on_state e (get_code db (evm_state e) (msg_code_address msg))
                          else (None, e));
               (absent, e) = (if msg_value msg = 0 \<and> env_revision env \<ge> Spurious \<and> \<not> precompiled
                 then let (x, e) = on_state e (exists db (evm_state e) (msg_code_address msg)) in (\<not> x, e)
                 else (False, e))
           in if absent then Some (res, e) else call_body env H msg precompiled bs e)"

section \<open>The host\<close>

definition eh_account_exists :: "'c Env \<Rightarrow> 'c Evm \<Rightarrow> address \<Rightarrow> (bool \<times> 'c Evm) option" where
  "eh_account_exists env e a =
     (if env_revision env \<ge> Spurious
      then let (d, e) = on_state e (is_dead (env_db env) (evm_state e) a) in Some (\<not> d, e)
      else Some (on_state e (exists (env_db env) (evm_state e) a)))"

definition eh_get_storage :: "'c Env \<Rightarrow> 'c Evm \<Rightarrow> address \<Rightarrow> u256 \<Rightarrow> (u256 \<times> 'c Evm) option" where
  "eh_get_storage env e a location = Some (on_state e (get_current_storage (env_db env) (evm_state e) a location))"

definition R_SCLEAR :: u64 where "R_SCLEAR = 15000"
definition G_SSET :: u64 where "G_SSET = 20000"
definition G_SRESET :: u64 where "G_SRESET = 5000"
definition FEE_COLD_SLOAD_COST :: u64 where "FEE_COLD_SLOAD_COST = 2100"
definition ACCESS_LIST_STORAGE_KEY_COST :: u64 where "ACCESS_LIST_STORAGE_KEY_COST = 1900"
definition FEE_WARM_STORAGE_READ_COST :: u64 where "FEE_WARM_STORAGE_READ_COST = 100"
definition G_SLOAD_ISTANBUL :: u64 where "G_SLOAD_ISTANBUL = 800"
definition G_SLOAD_TANGERINE_WHISTLE :: u64 where "G_SLOAD_TANGERINE_WHISTLE = 200"

definition sload_cost :: "Revision \<Rightarrow> u64" where
  "sload_cost r = (if r \<ge> Berlin then FEE_WARM_STORAGE_READ_COST
     else if r \<ge> Istanbul then G_SLOAD_ISTANBUL else G_SLOAD_TANGERINE_WHISTLE)"

definition sstore_reset_gas :: "Revision \<Rightarrow> u64" where
  "sstore_reset_gas r = (if r \<ge> Berlin then G_SRESET - FEE_COLD_SLOAD_COST else G_SRESET)"

definition sstore_clears_refund :: "Revision \<Rightarrow> u64" where
  "sstore_clears_refund r = (if r \<ge> London then sstore_reset_gas r + ACCESS_LIST_STORAGE_KEY_COST else R_SCLEAR)"

definition eip1283 :: "Revision \<Rightarrow> bool" where
  "eip1283 r \<longleftrightarrow> r \<ge> Istanbul \<or> r = Constantinople"

text \<open>The refunds and the status of net gas metering, once the slot is written.\<close>

definition net_metering :: "Revision \<Rightarrow> u256 \<Rightarrow> u256 \<Rightarrow> u256 \<Rightarrow> IntraBlockState \<Rightarrow> StorageStatus \<times> IntraBlockState" where
  "net_metering r original_val current_val new_val s =
     (if original_val = current_val then
        (if original_val = 0 then (Added, s)
         else (Modified, if new_val = 0 then add_refund s (sstore_clears_refund r) else s))
      else
        let s = (if original_val \<noteq> 0 then
                   (let s = (if current_val = 0 then subtract_refund s (sstore_clears_refund r) else s)
                    in if new_val = 0 then add_refund s (sstore_clears_refund r) else s)
                 else s);
            s = (if original_val = new_val
                 then add_refund s (if original_val = 0 then G_SSET - sload_cost r else sstore_reset_gas r - sload_cost r)
                 else s)
        in (ModifiedAgain, s))"

definition host_set_storage ::
  "Revision \<Rightarrow> Database \<Rightarrow> IntraBlockState \<Rightarrow> address \<Rightarrow> u256 \<Rightarrow> u256 \<Rightarrow> StorageStatus \<times> IntraBlockState" where
  "host_set_storage r db s a location new_val =
     (let (current_val, s) = get_current_storage db s a location
      in if current_val = new_val then (Unchanged, s)
         else
           let s = ibs_set_storage db s a location new_val
           in if \<not> eip1283 r then
                (if current_val = 0 then (Added, s)
                 else if new_val = 0 then (Deleted, add_refund s R_SCLEAR)
                 else (Modified, s))
              else
                let (original_val, s) = get_original_storage db s a location
                in net_metering r original_val current_val new_val s)"

definition eh_set_storage :: "'c Env \<Rightarrow> 'c Evm \<Rightarrow> address \<Rightarrow> u256 \<Rightarrow> u256 \<Rightarrow> (StorageStatus \<times> 'c Evm) option" where
  "eh_set_storage env e a location new_val =
     Some (on_state e (host_set_storage (env_revision env) (env_db env) (evm_state e) a location new_val))"

definition eh_get_balance :: "'c Env \<Rightarrow> 'c Evm \<Rightarrow> address \<Rightarrow> (u256 \<times> 'c Evm) option" where
  "eh_get_balance env e a = Some (on_state e (ibs_get_balance (env_db env) (evm_state e) a))"

definition eh_get_code_size :: "'c Env \<Rightarrow> 'c Evm \<Rightarrow> address \<Rightarrow> (u256 \<times> 'c Evm) option" where
  "eh_get_code_size env e a =
     (let (bs, e) = on_state e (get_code (env_db env) (evm_state e) a)
      in Some (of_nat (case bs of Some c \<Rightarrow> length c | None \<Rightarrow> 0), e))"

definition eh_get_code_hash :: "'c Env \<Rightarrow> 'c Evm \<Rightarrow> address \<Rightarrow> (u256 \<times> 'c Evm) option" where
  "eh_get_code_hash env e a =
     (let (d, e) = on_state e (is_dead (env_db env) (evm_state e) a)
      in if d then Some (0, e) else Some (on_state e (ibs_get_code_hash (env_db env) (evm_state e) a)))"

definition eh_copy_code :: "'c Env \<Rightarrow> 'c Evm \<Rightarrow> address \<Rightarrow> nat \<Rightarrow> byte list \<Rightarrow> ((nat \<times> byte list) \<times> 'c Evm) option" where
  "eh_copy_code env e a offset buffer =
     (let (bs, e) = on_state e (get_code (env_db env) (evm_state e) a);
          c = (case bs of Some c \<Rightarrow> c | None \<Rightarrow> [])
      in if offset < length c then do {
           let copied = min (length buffer) (length c - offset);
           src \<leftarrow> slice_range c offset (offset + copied);
           buffer \<leftarrow> copy_into buffer 0 copied src;
           Some ((copied, buffer), e) }
         else Some ((0, buffer), e))"

definition eh_selfdestruct :: "'c Env \<Rightarrow> 'c Evm \<Rightarrow> address \<Rightarrow> address \<Rightarrow> 'c Evm option" where
  "eh_selfdestruct env e a beneficiary = do {
     let db = env_db env;
     let s = record_selfdestruct (evm_state e) a;
     let (balance, s) = ibs_get_balance db s a;
     s \<leftarrow> add_to_balance db s beneficiary balance;
     s \<leftarrow> set_balance db s a 0;
     Some (e\<lparr>evm_state := s\<rparr>) }"

definition eh_call :: "'c Env \<Rightarrow> 'c Evm Host \<Rightarrow> 'c Evm \<Rightarrow> HostCall \<Rightarrow> (Output \<times> 'c Evm) option" where
  "eh_call env H e c = (case c of
       CreateMsg m \<Rightarrow> do {
         (res, e) \<leftarrow> evm_create env H m e;
         Some (if out_status_code res \<noteq> Revert then res\<lparr>out_output_data := []\<rparr> else res, e) }
     | CallMsg m \<Rightarrow> evm_call env H m e)"

definition eh_get_tx_context :: "'c Env \<Rightarrow> 'c Evm \<Rightarrow> (TxContext \<times> 'c Evm) option" where
  "eh_get_tx_context env e = do {
     let header = env_header env;
     let base_fee_per_gas = (case ph_base_fee_per_gas header of Some f \<Rightarrow> f | None \<Rightarrow> 0);
     gas_price \<leftarrow> effective_gas_price (tm_message (env_txn env)) base_fee_per_gas;
     Some (\<lparr>tx_gas_price = gas_price, tx_origin = tm_sender (env_txn env), block_coinbase = env_beneficiary env,
       block_number = ph_number header, block_timestamp = ph_timestamp header, block_gas_limit = ph_gas_limit header,
       block_difficulty = ph_difficulty header, chain_id = ucast (pa_chain_id (bs_params (env_spec env))),
       block_base_fee = base_fee_per_gas\<rparr>, e) }"

text \<open>The loop over the ancestors: \<open>for i in 1..distance\<close>.\<close>

definition ancestor_hash :: "Database \<Rightarrow> u64 \<Rightarrow> h256 \<Rightarrow> nat \<Rightarrow> h256 option" where
  "ancestor_hash db base parent distance =
     fold (\<lambda>i hash. Option.bind hash (read_header_parent db (base - of_nat i))) [1..<distance] (Some parent)"

definition eh_get_block_hash :: "'c Env \<Rightarrow> 'c Evm \<Rightarrow> u64 \<Rightarrow> (u256 \<times> 'c Evm) option" where
  "eh_get_block_hash env e n = do {
     let base = ph_number (env_header env);
     let distance = base - n;
     if distance \<le> 256 then do {
       hash \<leftarrow> ancestor_hash (env_db env) base (ph_parent_hash (env_header env)) (unat distance);
       Some (hash, e) }
     else None }"

definition eh_emit_log :: "'c Evm \<Rightarrow> address \<Rightarrow> byte list \<Rightarrow> u256 list \<Rightarrow> 'c Evm option" where
  "eh_emit_log e a bs topics =
     Some (e\<lparr>evm_state := add_log (evm_state e) \<lparr>log_address = a, log_topics = topics, log_data = bs\<rparr>\<rparr>)"

definition eh_access_account :: "'c Env \<Rightarrow> 'c Evm \<Rightarrow> address \<Rightarrow> (AccessStatus \<times> 'c Evm) option" where
  "eh_access_account env e a =
     (if is_precompiled (env_revision env) a then Some (Warm, e)
      else Some (on_state e (ibs_access_account (evm_state e) a)))"

definition eh_access_storage :: "'c Evm \<Rightarrow> address \<Rightarrow> u256 \<Rightarrow> (AccessStatus \<times> 'c Evm) option" where
  "eh_access_storage e a location = Some (on_state e (ibs_access_storage (evm_state e) a location))"

definition EvmHost :: "'c Env \<Rightarrow> ('c Evm \<Rightarrow> HostCall \<Rightarrow> (Output \<times> 'c Evm) option) \<Rightarrow> 'c Evm Host" where
  "EvmHost env c = \<lparr>account_exists = eh_account_exists env, get_storage = eh_get_storage env,
     set_storage = eh_set_storage env, get_balance = eh_get_balance env, get_code_size = eh_get_code_size env,
     get_code_hash = eh_get_code_hash env, copy_code = eh_copy_code env, selfdestruct = eh_selfdestruct env,
     call = c, get_tx_context = eh_get_tx_context env, get_block_hash = eh_get_block_hash env,
     emit_log = eh_emit_log, access_account = eh_access_account env, access_storage = eh_access_storage\<rparr>"

primrec evm_host :: "'c Env \<Rightarrow> nat \<Rightarrow> 'c Evm Host" where
  "evm_host env 0 = EvmHost env (\<lambda>_ _. None)"
| "evm_host env (Suc n) = EvmHost env (eh_call env (evm_host env n))"

definition CALL_LIMIT :: nat where "CALL_LIMIT = 1024"

section \<open>A transaction's execution\<close>

record CallResult =
  cr_status_code :: StatusCode
  cr_gas_left :: int
  cr_output_data :: "byte list"

definition evmglue_execute :: "'c Env \<Rightarrow> u64 \<Rightarrow> 'c Evm \<Rightarrow> (CallResult \<times> 'c Evm) option" where
  "evmglue_execute env gas e = do {
     let txn = tm_message (env_txn env);
     let H = evm_host env CALL_LIMIT;
     let sender = tm_sender (env_txn env);
     (res, e) \<leftarrow> (case tx_action txn of
         ActionCall to \<Rightarrow> evm_call env H
           \<lparr>msg_kind = Call, msg_is_static = False, msg_depth = 0, msg_gas = i64 (int (unat gas)),
            msg_recipient = to, msg_sender = sender, msg_input_data = tx_input txn,
            msg_value = tx_value txn, msg_code_address = to\<rparr> e
       | ActionCreate \<Rightarrow> evm_create env H
           \<lparr>cm_salt = None, cm_gas = i64 (int (unat gas)), cm_depth = 0, cm_initcode = tx_input txn,
            cm_sender = sender, cm_endowment = tx_value txn\<rparr> e);
     Some (\<lparr>cr_status_code = out_status_code res, cr_gas_left = out_gas_left res,
            cr_output_data = out_output_data res\<rparr>, e) }"

end
