(* ===== verification/EvmGlueSafety.thy ===== *)
theory EvmGlueSafety
  imports EvmGlue
begin

text \<open>
  The EVM on the journaled state satisfies the contract that the interpreter expects of its host
  (\<open>host_contract\<close>), at every depth of calls. The interpretation below discharges the contract for
  \<open>evm_host\<close>, for every table of contracts that return once their price is paid (\<open>precompiles_ok\<close>); with
  it, a transaction's execution returns, keeps the gas within its limit, makes no ether, restores the
  state when it fails, and changes nothing in a static frame. The source's table is the subject of the
  theory \<open>ContractTable\<close>.
\<close>

section \<open>The environment\<close>

text \<open>What the crate \<open>lru\<close> documents of a cache whose capacity is not zero.\<close>

definition lru_ok :: "'c lru \<Rightarrow> bool" where
  "lru_ok C \<longleftrightarrow> (\<forall>c k. fst (lru_get C c k) = lru_peek C c k \<and> lru_peek C (snd (lru_get C c k)) = lru_peek C c)
     \<and> (\<forall>c k v. lru_peek C (lru_put C c k v) k = Some v)
     \<and> (\<forall>c k v l. l \<noteq> k \<longrightarrow> lru_peek C (lru_put C c k v) l \<in> {None, lru_peek C c l})"

text \<open>The headers of the last 256 ancestors are in the database, linked by their parent hashes.\<close>

definition headers_linked :: "Database \<Rightarrow> nat \<Rightarrow> h256 \<Rightarrow> (nat \<Rightarrow> h256) \<Rightarrow> bool" where
  "headers_linked db n parent hash \<longleftrightarrow> hash (n - 1) = parent
     \<and> (\<forall>k. 0 < k \<and> k < n \<and> n \<le> k + 255 \<longrightarrow> read_header_parent db (of_nat k) (hash k) = Some (hash (k - 1)))"

definition precompiles_ok :: "'c Env \<Rightarrow> bool" where
  "precompiles_ok env \<longleftrightarrow> number_of_precompiles (env_revision env) \<le> length (env_contracts env)
     \<and> (\<forall>i < number_of_precompiles (env_revision env). contract_ok (env_contracts env ! i) (env_revision env))"

definition env_base_fee :: "'c Env \<Rightarrow> u256" where
  "env_base_fee env = (case ph_base_fee_per_gas (env_header env) of Some f \<Rightarrow> f | None \<Rightarrow> 0)"

definition env_ok :: "'c Env \<Rightarrow> bool" where
  "env_ok env \<longleftrightarrow> lru_ok (env_lru env) \<and> precompiles_ok env
     \<and> (\<forall>h. length (read_code (env_db env) h) < 2 ^ 63)
     \<and> env_base_fee env \<le> max_fee_per_gas (tm_message (env_txn env))
     \<and> length (tx_input (tm_message (env_txn env))) < 2 ^ 63
     \<and> (\<exists>hash. headers_linked (env_db env) (unat (ph_number (env_header env))) (ph_parent_hash (env_header env)) hash)"

definition cache_ok :: "'c Env \<Rightarrow> 'c \<Rightarrow> bool" where
  "cache_ok env c \<longleftrightarrow> (\<forall>h a. lru_peek (env_lru env) c h = Some a \<longrightarrow> (\<exists>bs. length bs < 2 ^ 63 \<and> a = analyze bs))"

text \<open>
  The invariant of the host while frames run that started in the state \<open>s\<close>. When \<open>S\<close> holds, the
  frames are static.
\<close>

definition evm_inv :: "'c Env \<Rightarrow> bool \<Rightarrow> IntraBlockState \<Rightarrow> 'c Evm \<Rightarrow> bool" where
  "evm_inv env S s e \<longleftrightarrow> env_ok env \<and> cache_ok env (evm_cache e)
     \<and> advances (env_db env) s (evm_state e) \<and> (S \<longrightarrow> same_core (env_db env) s (evm_state e))"

definition evm_good :: "'c Env \<Rightarrow> 'c Evm \<Rightarrow> bool" where
  "evm_good env e \<longleftrightarrow> env_ok env \<and> cache_ok env (evm_cache e) \<and> state_good (env_db env) (evm_state e)"

lemma evm_inv_good: "evm_inv env S s e \<Longrightarrow> evm_good env e"
  by (auto simp: evm_inv_def evm_good_def intro: advances_good)

lemma evm_inv_refl: "evm_good env e \<Longrightarrow> evm_inv env S (evm_state e) e"
  by (simp add: evm_inv_def evm_good_def advances_refl)

lemma evm_inv_trans: "evm_inv env S s e \<Longrightarrow> evm_inv env S (evm_state e) e' \<Longrightarrow> evm_inv env S s e'"
  by (auto simp: evm_inv_def intro: advances_trans same_core_trans)

lemma evm_inv_quiet:
  "evm_inv env S s e \<Longrightarrow> quiet (env_db env) (evm_state e) t \<Longrightarrow> evm_inv env S s (e\<lparr>evm_state := t\<rparr>)"
  by (auto simp: evm_inv_def intro: advances_trans quiet_advances same_core_trans) (auto simp: quiet_def intro: same_core_trans)

lemma evm_inv_advances:
  "evm_inv env S s e \<Longrightarrow> \<not> S \<Longrightarrow> advances (env_db env) (evm_state e) t \<Longrightarrow> evm_inv env S s (e\<lparr>evm_state := t\<rparr>)"
  by (auto simp: evm_inv_def intro: advances_trans)

lemma evm_inv_state: "evm_inv env S s e \<Longrightarrow> state_good (env_db env) (evm_state e)"
  by (auto simp: evm_inv_def intro: advances_good)

lemma env_ok_code: "env_ok env \<Longrightarrow> length (read_code (env_db env) h) < 2 ^ 63"
  by (simp add: env_ok_def)

lemma evm_inv_env: "evm_inv env S s e \<Longrightarrow> env_ok env"
  by (simp add: evm_inv_def)

section \<open>The operations of the host but the calls\<close>

lemma on_state_returns [simp]: "returns Q (Some (on_state e r)) = Q (fst r, e\<lparr>evm_state := snd r\<rparr>)"
  by (simp add: on_state_def)

lemma returns_set_state [simp]: "returns Q (set_state e m) = returns (\<lambda>s. Q (e\<lparr>evm_state := s\<rparr>)) m"
  by (cases m) (simp_all add: set_state_def)

lemma host_get_code:
  assumes "evm_inv env S s e"
  shows "evm_inv env S s (e\<lparr>evm_state := snd (get_code (env_db env) (evm_state e) a)\<rparr>)"
    "fst (get_code (env_db env) (evm_state e) a) = Some c \<Longrightarrow> length c < 2 ^ 63"
  using get_code_quiet [OF evm_inv_state [OF assms] env_ok_code [OF evm_inv_env [OF assms]], of a] evm_inv_quiet [OF assms]
  by auto

lemma host_reads:
  assumes I: "evm_inv env S s e"
  shows "returns (\<lambda>(_, e'). evm_inv env S s e') (eh_account_exists env e a)"
    "returns (\<lambda>(_, e'). evm_inv env S s e') (eh_get_storage env e a k)"
    "returns (\<lambda>(_, e'). evm_inv env S s e') (eh_get_balance env e a)"
    "returns (\<lambda>(_, e'). evm_inv env S s e') (eh_get_code_size env e a)"
    "returns (\<lambda>(_, e'). evm_inv env S s e') (eh_access_account env e a)"
    "returns (\<lambda>(_, e'). evm_inv env S s e') (eh_access_storage e a k)"
  using quiet_rules [OF evm_inv_state [OF I]] evm_inv_quiet [OF I] host_get_code(1) [OF I] I
  by (simp_all add: eh_account_exists_def eh_get_storage_def eh_get_balance_def eh_get_code_size_def
      eh_access_account_def eh_access_storage_def on_state_def)

lemma host_code_hash:
  assumes I: "evm_inv env S s e"
  shows "returns (\<lambda>(_, e'). evm_inv env S s e') (eh_get_code_hash env e a)"
proof -
  define e1 where "e1 = e\<lparr>evm_state := snd (is_dead (env_db env) (evm_state e) a)\<rparr>"
  have I1: "evm_inv env S s e1" unfolding e1_def
    by (rule evm_inv_quiet [OF I reads_quiet(2) [OF evm_inv_state [OF I]]])
  from evm_inv_quiet [OF this reads_quiet(5) [OF evm_inv_state [OF this]]] I1
  show ?thesis by (simp add: eh_get_code_hash_def on_state_def e1_def [symmetric])
qed

lemma host_copy_code:
  assumes I: "evm_inv env S s e"
  shows "returns (\<lambda>((n, buf'), e'). n \<le> length buf \<and> length buf' = length buf \<and> evm_inv env S s e')
    (eh_copy_code env e a off buf)"
  using host_get_code(1) [OF I, of a] by (auto simp: eh_copy_code_def on_state_def Let_def)

lemma ancestor_hash_linked:
  assumes "headers_linked db (unat base) parent hash" "0 < d" "d \<le> unat base" "d \<le> 256"
  shows "ancestor_hash db base parent d = Some (hash (unat base - d))"
  using assms(2-)
proof (induction d rule: nat_induct_non_zero)
  case 1
  then show ?case using assms(1) by (simp add: ancestor_hash_def headers_linked_def)
next
  case (Suc d)
  have "unat base < 2 ^ 64" using unsigned_less [of base] by simp
  then have "unat (of_nat d :: u64) = d" using Suc.prems by (simp add: unat_of_nat)
  then have "base - of_nat d = of_nat (unat base - d)"
    using Suc.prems by (simp add: of_nat_diff)
  then have "read_header_parent db (base - of_nat d) (hash (unat base - d)) = Some (hash (unat base - d - 1))"
    using assms(1) Suc.prems Suc.hyps by (simp add: headers_linked_def del: of_nat_diff)
  moreover have "[1..<Suc d] = [1..<d] @ [d]" using Suc.hyps by simp
  ultimately show ?case using Suc by (simp add: ancestor_hash_def)
qed

lemma ancestor_of_number:
  assumes "headers_linked db (unat base) parent hash" "n < base" "unat base \<le> unat n + 256"
  shows "base - n \<le> 256" "ancestor_hash db base parent (unat (base - n)) = Some (hash (unat n))"
proof -
  have d: "unat (base - n) = unat base - unat n" using assms(2) by (intro unat_sub) (simp add: less_imp_le)
  have "unat n < unat base" using assms(2) by (simp add: word_less_nat_alt)
  then show "ancestor_hash db base parent (unat (base - n)) = Some (hash (unat n))"
    using ancestor_hash_linked [OF assms(1), of "unat base - unat n"] assms(3) by (simp add: d)
  show "base - n \<le> 256" using assms(3) by (simp add: word_le_nat_alt d)
qed

lemma host_block_hash:
  assumes I: "evm_inv env S s e" and n: "n < ph_number (env_header env)" "unat (ph_number (env_header env)) - unat n \<le> 256"
  shows "returns (\<lambda>(_, e'). evm_inv env S s e') (eh_get_block_hash env e n)"
proof -
  obtain hash where "headers_linked (env_db env) (unat (ph_number (env_header env))) (ph_parent_hash (env_header env)) hash"
    using I by (auto simp: evm_inv_def env_ok_def)
  then show ?thesis using ancestor_of_number [OF _ n(1)] n(2) I by (simp add: eh_get_block_hash_def)
qed

lemma host_tx_context:
  assumes I: "evm_inv env S s e"
  shows "returns (\<lambda>(tx, e'). block_number tx = ph_number (env_header env) \<and> evm_inv env S s e') (eh_get_tx_context env e)"
  using I by (auto simp: evm_inv_def env_ok_def eh_get_tx_context_def env_base_fee_def effective_gas_price_def
      priority_fee_per_gas_def Let_def split: option.splits)

lemma net_metering_advances:
  assumes "advances db s t"
  shows "advances db s (snd (net_metering r ov cv nv t))"
proof -
  have step: "advances db s (add_refund u n)" "advances db s (subtract_refund u n)" if "advances db s u" for u n
    using that substate_advances [OF advances_good [OF that]] advances_trans by blast+
  show ?thesis using assms by (simp add: net_metering_def step Let_def)
qed

lemma host_set_storage_advances:
  assumes "state_good db s"
  shows "advances db s (snd (host_set_storage r db s a k v))"
proof -
  obtain cv s1 where g1: "get_current_storage db s a k = (cv, s1)" by fastforce
  have 1: "advances db s s1" using storage_read_quiet(1) [OF assms, of a k] by (simp add: g1 quiet_advances)
  define s2 where "s2 = ibs_set_storage db s1 a k v"
  have 2: "advances db s s2"
    unfolding s2_def using advances_trans [OF 1 ibs_set_storage_advances [OF advances_good [OF 1]]] .
  obtain ov s3 where g3: "get_original_storage db s2 a k = (ov, s3)" by fastforce
  have 3: "advances db s s3"
    using advances_trans [OF 2 quiet_advances [OF storage_read_quiet(2) [OF advances_good [OF 2], of a k]]] by (simp add: g3)
  have "advances db s (add_refund s2 R_SCLEAR)"
    using advances_trans [OF 2 substate_advances(3) [OF advances_good [OF 2]]] .
  then show ?thesis using 1 2 net_metering_advances [OF 3]
    by (simp add: host_set_storage_def g1 s2_def [symmetric] g3 Let_def)
qed

lemma host_writes:
  assumes I: "evm_inv env S s e" and "\<not> S"
  shows "returns (\<lambda>(_, e'). evm_inv env S s e') (eh_set_storage env e a k v)"
    "returns (evm_inv env S s) (eh_emit_log e a bs topics)"
  using evm_inv_advances [OF I \<open>\<not> S\<close>] host_set_storage_advances substate_advances(2) evm_inv_state [OF I]
  by (auto simp: eh_set_storage_def eh_emit_log_def on_state_def)

lemma host_selfdestruct:
  assumes I: "evm_inv env S s e" and "\<not> S"
  shows "returns (evm_inv env S s) (eh_selfdestruct env e a b)"
proof -
  let ?db = "env_db env"
  define s1 where "s1 = record_selfdestruct (evm_state e) a"
  have 1: "advances ?db (evm_state e) s1" unfolding s1_def by (rule substate_advances(1) [OF evm_inv_state [OF I]])
  obtain bal s2 where g: "ibs_get_balance ?db s1 a = (bal, s2)" by fastforce
  have q: "quiet ?db s1 s2" using reads_quiet(3) [OF advances_good [OF 1], of a] by (simp add: g)
  have "unat bal = balance_of (account_view ?db s1 a)" using balance_read [of ?db s1 a] by (simp add: g)
  then have "unat bal = balance_of (account_view ?db s2 a)" using q by (simp add: quiet_def same_core_def)
  note sweep = sweep_advances [OF quiet_good [OF q] this, of b]
  have "evm_inv env S s (e\<lparr>evm_state := s4\<rparr>)" if "advances ?db s2 s4" for s4
    by (rule evm_inv_advances [OF I \<open>\<not> S\<close> advances_trans [OF 1 advances_trans [OF quiet_advances [OF q] that]]])
  then have "returns (\<lambda>s3. returns (\<lambda>s4. evm_inv env S s (e\<lparr>evm_state := s4\<rparr>)) (set_balance ?db s3 a 0)) (add_to_balance ?db s2 b bal)"
    by (intro returns_mono [OF sweep]) (erule returns_mono)
  then show ?thesis by (simp add: eh_selfdestruct_def s1_def [symmetric] g)
qed

section \<open>Calls\<close>

text \<open>A failed frame leaves what it found, but for caches.\<close>

definition reverted :: "Database \<Rightarrow> IntraBlockState \<Rightarrow> IntraBlockState \<Rightarrow> bool" where
  "reverted db s t \<longleftrightarrow> restored db s t \<and> journal t = journal s \<and> logs t = logs s \<and> refund t = refund s"

lemma reverted_trans: "reverted db s t \<Longrightarrow> reverted db t u \<Longrightarrow> reverted db s u"
  by (auto simp: reverted_def intro: restored_trans)

lemma reverted_refl [simp]: "reverted db s s"
  by (simp add: reverted_def)

lemma reads_reverted:
  "reverted db s (snd (exists db s a))" "reverted db s (snd (ibs_get_balance db s a))"
  "reverted db s (snd (get_code db s a))"
proof -
  show "reverted db s (snd (exists db s a))" "reverted db s (snd (ibs_get_balance db s a))"
    by (simp_all add: reads_state reverted_def get_object_restored get_object_frame)
  show "reverted db s (snd (get_code db s a))"
    using get_object_restored [of db s a] get_object_frame [of db s a]
    by (auto simp: get_code_def reverted_def Let_def split: prod.splits option.splits)
qed

definition frame_post :: "'c Env \<Rightarrow> bool \<Rightarrow> IntraBlockState \<Rightarrow> int \<Rightarrow> Output \<times> 'c Evm \<Rightarrow> bool" where
  "frame_post env S s gas = (\<lambda>(out, e'). evm_inv env S s e' \<and> 0 \<le> out_gas_left out \<and> out_gas_left out \<le> gas
     \<and> length (out_output_data out) < 2 ^ 63)"

definition call_post :: "'c Env \<Rightarrow> bool \<Rightarrow> IntraBlockState \<Rightarrow> int \<Rightarrow> Output \<times> 'c Evm \<Rightarrow> bool" where
  "call_post env S s gas r \<longleftrightarrow> frame_post env S s gas r
     \<and> (out_status_code (fst r) \<noteq> Success \<longrightarrow> reverted (env_db env) s (evm_state (snd r)))"

lemma call_post_trans:
  assumes "evm_inv env S s e" "reverted (env_db env) s (evm_state e)" "call_post env S (evm_state e) gas r"
  shows "call_post env S s gas r"
  using assms evm_inv_trans [OF assms(1)] reverted_trans [OF assms(2)]
  by (auto simp: call_post_def frame_post_def split: prod.splits)

lemma cached_analysis_ok:
  assumes "lru_ok (env_lru env)" "cache_ok env (evm_cache e)" "length bs < 2 ^ 63"
  shows "returns (\<lambda>(a, e'). (\<exists>c. length c < 2 ^ 63 \<and> a = analyze c) \<and> evm_state e' = evm_state e
      \<and> cache_ok env (evm_cache e')) (cached_analysis env bs h e)"
proof (cases h)
  case None
  then show ?thesis using assms by (auto simp: cached_analysis_def)
next
  case (Some k)
  let ?C = "env_lru env"
  obtain r c1 where g1: "lru_get ?C (evm_cache e) k = (r, c1)" by fastforce
  have 1: "r = lru_peek ?C (evm_cache e) k" "lru_peek ?C c1 = lru_peek ?C (evm_cache e)"
    using assms(1) unfolding lru_ok_def by (metis fst_conv g1, metis snd_conv g1)
  obtain r2 c2 where g2: "lru_get ?C (lru_put ?C c1 k (analyze bs)) k = (r2, c2)" by fastforce
  have 2: "r2 = Some (analyze bs)" "lru_peek ?C c2 = lru_peek ?C (lru_put ?C c1 k (analyze bs))"
    using assms(1) unfolding lru_ok_def by (metis fst_conv g2, metis snd_conv g2)
  have "lru_peek ?C c2 l \<in> {None, lru_peek ?C (evm_cache e) l, Some (analyze bs)}" for l
    using assms(1) 1 2 unfolding lru_ok_def by (cases "l = k") (simp, metis insert_iff)
  then have "cache_ok env c2" using assms(2,3) unfolding cache_ok_def by (metis empty_iff insert_iff option.inject option.simps(3))
  moreover have "cache_ok env c1" using assms(2) 1 by (simp add: cache_ok_def)
  moreover have "\<exists>c. length c < 2 ^ 63 \<and> a = analyze c" if "r = Some a" for a
    using assms(2) that 1(1) unfolding cache_ok_def by metis
  ultimately show ?thesis using assms(3)
    by (cases r) (auto simp: cached_analysis_def Some g1 g2 2(1))
qed

text \<open>The contract of the hosts below, and what it gives for a frame that runs on them.\<close>

definition hosts_ok :: "'c Env \<Rightarrow> 'c Evm Host \<Rightarrow> int \<Rightarrow> bool" where
  "hosts_ok env H D \<longleftrightarrow> (\<forall>S s. host_contract H (evm_inv env S s) D (ph_number (env_header env)) S)"

definition depth_ok :: "int \<Rightarrow> InterpreterMessage \<Rightarrow> bool" where
  "depth_ok D msg \<longleftrightarrow> message_ok D msg \<or> message_ok (D - 1) msg"

lemma evm_execute_ok:
  assumes "hosts_ok env H D" "evm_inv env S s e" "length bs < 2 ^ 63" "depth_ok D msg" "S \<longrightarrow> msg_is_static msg"
  shows "returns (frame_post env S s (msg_gas msg)) (evm_execute env H msg bs h e)"
proof -
  have HC: "host_contract H (evm_inv env S s) D (ph_number (env_header env)) S" using assms(1) by (simp add: hosts_ok_def)
  have run: "returns (frame_post env S s (msg_gas msg)) (execute H (env_lib env) a msg (env_revision env) e')"
    if "\<exists>c. length c < 2 ^ 63 \<and> a = analyze c" "evm_state e' = evm_state e" "cache_ok env (evm_cache e')" for a e'
  proof -
    have "evm_inv env S s e'" using assms(2) that by (simp add: evm_inv_def)
    then show ?thesis
      using host_contract.execute_ok [OF HC] that(1) assms(4,5) unfolding depth_ok_def frame_post_def by blast
  qed
  have "lru_ok (env_lru env)" "cache_ok env (evm_cache e)" using assms(2) by (simp_all add: evm_inv_def env_ok_def)
  note analysis = cached_analysis_ok [OF this assms(3), of h]
  show ?thesis unfolding evm_execute_def returns_bind
    by (rule returns_mono [OF analysis]) (clarify, rule run, auto)
qed

lemma settle_ok:
  assumes "evm_inv env S s e" "frame_post env S s gas (res, e)" "state_good (env_db env) s" "0 \<le> gas"
  shows "returns (\<lambda>r. call_post env S s gas r \<and> out_status_code (fst r) = out_status_code res)
    (settle (take_snapshot s) res e)"
proof -
  let ?db = "env_db env"
  have u: "undoable ?db s (evm_state e)" "state_good ?db (evm_state e)"
    using assms(1) by (auto simp: evm_inv_def advances_def)
  have "returns (\<lambda>t. quiet ?db s t \<and> reverted ?db s t) (revert_to_snapshot (evm_state e) (take_snapshot s))"
    using revert_quiet [OF u(1) assms(3) u(2)] revert_to_snapshot_restores [OF u(1)]
    unfolding reverted_def by (rule returns_conj)
  moreover have "evm_inv env S s (e\<lparr>evm_state := t\<rparr>)" if "quiet ?db s t" for t
    using assms(1) that by (auto simp: evm_inv_def quiet_advances) (simp add: quiet_def)
  ultimately show ?thesis using assms(2,4)
    by (auto simp: settle_def call_post_def frame_post_def elim!: returns_mono)
qed

lemma precompiled_address:
  assumes "is_precompiled r a"
  shows "unat (ucast a :: byte) \<noteq> 0" "unat (ucast a :: byte) - 1 < number_of_precompiles r"
proof -
  have n: "number_of_precompiles r \<le> 9"
    by (simp add: number_of_precompiles_def NUM_OF_FRONTIER_CONTRACTS_def NUM_OF_BYZANTIUM_CONTRACTS_def
        NUM_OF_ISTANBUL_CONTRACTS_def)
  have a: "a \<noteq> 0" "unat a \<le> number_of_precompiles r"
    using assms n by (auto simp: is_precompiled_def word_le_nat_alt unat_of_nat split: if_splits)
  then have "unat (ucast a :: byte) = unat a" using n by (simp add: unsigned_ucast_eq take_bit_eq_mod)
  moreover have "unat a \<noteq> 0" using a(1) by (simp add: unat_eq_0)
  ultimately show "unat (ucast a :: byte) \<noteq> 0" "unat (ucast a :: byte) - 1 < number_of_precompiles r"
    using a(2) by simp_all
qed

lemma precompiled_call_ok:
  assumes "env_ok env" "is_precompiled (env_revision env) (msg_code_address msg)" "depth_ok D msg"
  shows "returns (\<lambda>out. 0 \<le> out_gas_left out \<and> out_gas_left out \<le> msg_gas msg \<and> length (out_output_data out) < 2 ^ 63)
    (precompiled_call env msg)"
proof -
  let ?i = "unat (ucast (msg_code_address msg) :: byte) - 1"
  note a = precompiled_address [OF assms(2)]
  have c: "contract_ok (env_contracts env ! ?i) (env_revision env)" "?i < length (env_contracts env)"
    using assms(1) a(2) by (auto simp: env_ok_def precompiles_ok_def)
  have m: "length (msg_input_data msg) < 2 ^ 63" "0 \<le> msg_gas msg" "msg_gas msg < 2 ^ 63"
    using assms(3) by (auto simp: depth_ok_def message_ok_def)
  have i: "i64 (msg_gas msg - uint g) = msg_gas msg - uint g" if "\<not> msg_gas msg < uint g" for g :: u64
    using m that uint_nonnegative [of g] by (intro i64_id) linarith+
  from c(1) m(1) have "returns (\<lambda>g. case g of Some g \<Rightarrow> unat g < 2 ^ 63 \<longrightarrow>
         returns (output_fits ISIZE_MAX) (contract_run (env_contracts env ! ?i) (msg_input_data msg))
       | None \<Rightarrow> True) (contract_gas (env_contracts env ! ?i) (msg_input_data msg) (env_revision env))"
    unfolding contract_ok_def by blast
  then show ?thesis unfolding precompiled_call_def Let_def using a(1) c(2) m
    by (auto simp: initial_output_def i ISIZE_MAX_def split: option.splits elim!: returns_mono)
qed

lemma call_transfer_ok:
  assumes I: "evm_inv env S s e" and S: "S \<longrightarrow> msg_is_static msg"
    and v: "msg_kind msg = Call \<Longrightarrow> msg_value msg \<le> fst (ibs_get_balance (env_db env) (evm_state e) (msg_sender msg))"
  shows "returns (evm_inv env S s) (call_transfer env msg e)"
proof -
  note good = evm_inv_state [OF I]
  have "returns (\<lambda>s1. returns (\<lambda>t. evm_inv env S s (e\<lparr>evm_state := t\<rparr>))
      (add_to_balance (env_db env) s1 (msg_recipient msg) (msg_value msg)))
    (subtract_from_balance (env_db env) (evm_state e) (msg_sender msg) (msg_value msg))"
    if "msg_kind msg = Call" "\<not> msg_is_static msg"
    using evm_inv_advances [OF I] that S
    by (intro returns_mono [OF transfer_advances [OF good v [OF that(1)]]]) (auto elim!: returns_mono)
  then show ?thesis using I evm_inv_quiet [OF I marks_quiet(3) [OF good]] by (simp add: call_transfer_def)
qed

lemma call_body_ok:
  assumes H: "hosts_ok env H D" and e: "evm_good env e" and m: "depth_ok D msg" "S \<longrightarrow> msg_is_static msg"
    and v: "msg_kind msg = Call \<Longrightarrow> msg_value msg \<le> fst (ibs_get_balance (env_db env) (evm_state e) (msg_sender msg))"
    and bs: "\<And>c. bs = Some c \<Longrightarrow> length c < 2 ^ 63"
    and p: "p = is_precompiled (env_revision env) (msg_code_address msg)"
  shows "returns (call_post env S (evm_state e) (msg_gas msg)) (call_body env H msg p bs e)"
proof -
  let ?s = "evm_state e"
  have env: "env_ok env" and good: "state_good (env_db env) ?s" using e by (simp_all add: evm_good_def)
  have g: "0 \<le> msg_gas msg" using m(1) by (auto simp: depth_ok_def message_ok_def)
  have fin: "returns (call_post env S ?s (msg_gas msg))
      (if out_status_code res \<noteq> Success then settle (take_snapshot ?s) res e2 else Some (res, e2))"
    if "frame_post env S ?s (msg_gas msg) (res, e2)" for res e2
    using settle_ok [OF _ that good g] that by (auto simp: frame_post_def call_post_def elim!: returns_mono)
  have pre: "returns (call_post env S ?s (msg_gas msg)) (Option.bind (precompiled_call env msg) (\<lambda>res.
      if out_status_code res \<noteq> Success then settle (take_snapshot ?s) res e1 else Some (res, e1)))"
    if "p" "evm_inv env S ?s e1" for e1
    unfolding returns_bind
    using that p
    by (intro returns_mono [OF precompiled_call_ok [OF env _ m(1)]]) (simp, rule fin, simp add: frame_post_def)
  have run: "returns (call_post env S ?s (msg_gas msg)) (Option.bind (evm_execute env H msg c h e2) (\<lambda>(res, e3).
      if out_status_code res \<noteq> Success then settle (take_snapshot ?s) res e3 else Some (res, e3)))"
    if "evm_inv env S ?s e2" "length c < 2 ^ 63" for c h e2
    unfolding returns_bind
    by (rule returns_mono [OF evm_execute_ok [OF H that m]]) (clarify, rule fin)
  have empty: "call_post env S ?s (msg_gas msg) (initial_output (msg_gas msg), e1)" if "evm_inv env S ?s e1" for e1
    using that g by (simp add: call_post_def frame_post_def initial_output_def)
  show ?thesis
    unfolding call_body_def Let_def returns_bind
    by (rule returns_mono [OF call_transfer_ok [OF evm_inv_refl [OF e] m(2) v]])
      (use bs in \<open>auto intro!: pre run empty evm_inv_quiet reads_quiet evm_inv_state simp: on_state_def
        simp del: returns_bind split: option.splits\<close>)
qed

lemma evm_call_ok:
  assumes H: "hosts_ok env H D" and e: "evm_good env e" and m: "depth_ok D msg" "S \<longrightarrow> msg_is_static msg"
  shows "returns (call_post env S (evm_state e) (msg_gas msg)) (evm_call env H msg e)"
proof -
  let ?db = "env_db env" and ?s = "evm_state e" and ?p = "is_precompiled (env_revision env) (msg_code_address msg)"
  let ?post = "call_post env S ?s (msg_gas msg)"
  have g: "0 \<le> msg_gas msg" using m(1) by (auto simp: depth_ok_def message_ok_def)
  have env: "env_ok env" using e by (simp add: evm_good_def)
  define at where "at e1 \<longleftrightarrow> evm_inv env S ?s e1 \<and> reverted ?db ?s (evm_state e1)" for e1
  have step: "at (e1\<lparr>evm_state := t\<rparr>)" if "at e1" "quiet ?db (evm_state e1) t" "reverted ?db (evm_state e1) t" for e1 t
    using that evm_inv_quiet reverted_trans by (auto simp: at_def)
  have good: "state_good ?db (evm_state e1)" if "at e1" for e1 using that evm_inv_state by (auto simp: at_def)
  have code: "quiet ?db (evm_state e1) (snd (get_code ?db (evm_state e1) a))"
      "fst (get_code ?db (evm_state e1) a) = Some c \<Longrightarrow> length c < 2 ^ 63" if "at e1" for e1 a c
    using get_code_quiet [OF good [OF that] env_ok_code [OF env], of a] by auto
  have early: "?post (initial_output (msg_gas msg)\<lparr>out_status_code := st\<rparr>, e1)" if "at e1" for e1 st
    using that g by (simp add: at_def call_post_def frame_post_def initial_output_def)
  have body: "returns ?post (call_body env H msg ?p bs e1)"
    if "at e1" "\<And>c. bs = Some c \<Longrightarrow> length c < 2 ^ 63"
      "msg_kind msg = Call \<Longrightarrow> msg_value msg \<le> fst (ibs_get_balance ?db ?s (msg_sender msg))" for e1 bs
  proof -
    have "fst (ibs_get_balance ?db (evm_state e1) (msg_sender msg)) = fst (ibs_get_balance ?db ?s (msg_sender msg))"
      using restored_account [of ?db ?s "evm_state e1"] that(1) unfolding reads_value at_def reverted_def by metis
    then have "returns (call_post env S (evm_state e1) (msg_gas msg)) (call_body env H msg ?p bs e1)"
      using that by (intro call_body_ok [OF H _ m]) (auto simp: at_def evm_inv_good)
    then show ?thesis using that(1) by (auto simp: at_def intro: call_post_trans elim!: returns_mono)
  qed
  define e1 where "e1 = (if msg_kind msg \<noteq> DelegateCall then e\<lparr>evm_state := snd (ibs_get_balance ?db ?s (msg_sender msg))\<rparr> else e)"
  have "at e" using evm_inv_refl [OF e] by (simp add: at_def)
  then have 1: "at e1" unfolding e1_def using reads_quiet(3) [OF good] reads_reverted(2) by (auto intro: step)
  define r where "r = (if \<not> ?p then on_state e1 (get_code ?db (evm_state e1) (msg_code_address msg)) else (None, e1))"
  have 2: "at (snd r)" "\<And>c. fst r = Some c \<Longrightarrow> length c < 2 ^ 63"
    unfolding r_def using 1 code [OF 1] reads_reverted(3) by (auto simp: on_state_def intro: step split: if_splits)
  define e3 where "e3 = (snd r)\<lparr>evm_state := snd (exists ?db (evm_state (snd r)) (msg_code_address msg))\<rparr>"
  have 3: "at e3" unfolding e3_def using 2 reads_quiet(1) [OF good] reads_reverted(1) by (auto intro: step)
  show ?thesis
  proof (cases "msg_kind msg \<noteq> DelegateCall \<and> fst (ibs_get_balance ?db ?s (msg_sender msg)) < msg_value msg")
    case True
    then show ?thesis using early [OF 1] by (simp add: evm_call_def on_state_def e1_def)
  next
    case False
    then have v: "msg_kind msg = Call \<Longrightarrow> msg_value msg \<le> fst (ibs_get_balance ?db ?s (msg_sender msg))"
      by (auto simp: not_less)
    have "evm_call env H msg e = (let (absent, e2) = (if msg_value msg = 0 \<and> env_revision env \<ge> Spurious \<and> \<not> ?p
                 then (\<not> fst (exists ?db (evm_state (snd r)) (msg_code_address msg)), e3) else (False, snd r))
           in if absent then Some (initial_output (msg_gas msg), e2) else call_body env H msg ?p (fst r) e2)"
      using False by (auto simp: evm_call_def on_state_def e1_def e3_def r_def Let_def)
    then show ?thesis
      using body [OF 2 v] body [OF 3 2(2) v] early [OF 2(1), of Success] early [OF 3, of Success]
      by (auto simp: initial_output_def)
  qed
qed

section \<open>Creations\<close>

lemma code_deposit_gas:
  assumes "0 \<le> g" "g < 2 ^ 63" "n \<le> (of_int g :: u64)"
  shows "0 \<le> i64 (g - i64 (uint n))" "i64 (g - i64 (uint n)) \<le> g"
proof -
  have "uint (of_int g :: u64) = g" using assms(1,2) by (simp add: uint_word_of_int mod_pos_pos_trivial)
  then have "uint n \<le> g" using assms(3) by (simp add: word_le_def)
  moreover have n: "0 \<le> uint n" by simp
  ultimately have "i64 (uint n) = uint n" "i64 (g - uint n) = g - uint n" using assms(1,2) by (intro i64_id; linarith)+
  then show "0 \<le> i64 (g - i64 (uint n))" "i64 (g - i64 (uint n)) \<le> g" using \<open>uint n \<le> g\<close> n by simp_all
qed

lemma deposit_code_ok:
  assumes "frame_post env S s gas (res, e)" "\<not> S" "gas < 2 ^ 63"
  shows "returns (frame_post env S s gas) (deposit_code env a res e)"
proof -
  have I: "evm_inv env S s e" and g: "0 \<le> out_gas_left res" "out_gas_left res \<le> gas"
    and l: "length (out_output_data res) < 2 ^ 63" using assms(1) by (simp_all add: frame_post_def)
  have "returns (\<lambda>t. evm_inv env S s (e\<lparr>evm_state := t\<rparr>))
      (set_code (env_lib env) (env_db env) (evm_state e) a (out_output_data res))"
    by (rule returns_mono [OF set_code_advances [OF evm_inv_state [OF I] l]]) (rule evm_inv_advances [OF I assms(2)])
  then show ?thesis
    using assms(1,3) g code_deposit_gas [of "out_gas_left res" "of_nat (length (out_output_data res)) * G_CODE_DEPOSIT"]
    by (auto simp: deposit_code_def Let_def frame_post_def elim!: returns_mono)
qed

lemma deploy_ok:
  assumes H: "hosts_ok env H D" and e: "evm_good env e" and m: "depth_ok D (create_to_interpreter msg)"
    and i: "length (cm_initcode msg) < 2 ^ 63" and S: "\<not> S"
    and v: "cm_endowment msg \<le> fst (ibs_get_balance (env_db env) (evm_state e) (cm_sender msg))"
  shows "returns (\<lambda>r. call_post env S (evm_state e) (cm_gas msg) r
      \<and> (out_status_code (fst r) = Success \<longrightarrow> out_create_address (fst r) = Some a)) (deploy env H msg a e)"
proof -
  let ?db = "env_db env" and ?s = "evm_state e" and ?g = "cm_gas msg"
  note I = evm_inv_refl [OF e, of S]
  have good: "state_good ?db ?s" using e by (simp add: evm_good_def)
  have g: "0 \<le> ?g" "?g < 2 ^ 63" using m by (auto simp: depth_ok_def message_ok_def create_to_interpreter_def)
  define e1 where "e1 = e\<lparr>evm_state := create_contract ?db ?s a\<rparr>"
  define keeps where "keeps e' \<longleftrightarrow> evm_inv env S ?s e' \<and> (\<forall>b. balance_of (account_view ?db (evm_state e') b) = balance_of (account_view ?db ?s b))" for e'
  have 1: "keeps e1"
    using evm_inv_advances [OF I S create_contract_advances [OF good, of a]]
    by (auto simp: keeps_def e1_def create_contract_view balance_value balance_of_def [of "Some _"])
  have "returns (\<lambda>t. keeps (e1\<lparr>evm_state := t\<rparr>)) (set_nonce ?db (evm_state e1) a 1)"
    using 1 evm_inv_advances [OF _ S] evm_inv_state
    by (intro returns_both [OF set_nonce_advances set_nonce_view])
      (auto simp: keeps_def balance_value balance_of_def [of "Some _"])
  then have 2: "returns keeps (if env_revision env \<ge> Spurious then set_state e1 (set_nonce ?db (evm_state e1) a 1) else Some e1)"
    using 1 by simp
  have 3: "returns (\<lambda>s1. returns (\<lambda>t. evm_inv env S ?s (e2\<lparr>evm_state := t\<rparr>)) (add_to_balance ?db s1 a (cm_endowment msg)))
      (subtract_from_balance ?db (evm_state e2) (cm_sender msg) (cm_endowment msg))" if "keeps e2" for e2
  proof -
    have "cm_endowment msg \<le> fst (ibs_get_balance ?db (evm_state e2) (cm_sender msg))"
      using v that by (simp add: word_le_nat_alt balance_read keeps_def)
    moreover have "evm_inv env S ?s e2" using that by (simp add: keeps_def)
    ultimately show ?thesis using evm_inv_advances [OF _ S] evm_inv_state
      by (intro returns_mono [OF transfer_advances [where b = a]]) (auto elim!: returns_mono)
  qed
  let ?msg = "\<lparr>msg_kind = Call, msg_is_static = False, msg_depth = cm_depth msg, msg_gas = ?g,
        msg_recipient = a, msg_sender = cm_sender msg, msg_input_data = [],
        msg_value = cm_endowment msg, msg_code_address = 0\<rparr>"
  have d: "depth_ok D ?msg" using m by (auto simp: depth_ok_def message_ok_def create_to_interpreter_def)
  let ?post = "\<lambda>r. call_post env S ?s ?g r \<and> (out_status_code (fst r) = Success \<longrightarrow> out_create_address (fst r) = Some a)"
  have fin: "returns ?post
      (if out_status_code res = Success then Some (res\<lparr>out_create_address := Some a\<rparr>, e4) else settle (take_snapshot ?s) res e4)"
    if "frame_post env S ?s ?g (res, e4)" for res e4
    using settle_ok [OF _ that good g(1)] that by (auto simp: frame_post_def call_post_def elim!: returns_mono)
  define k where "k e3 = Option.bind (evm_execute env H ?msg (cm_initcode msg) None e3) (\<lambda>(res, e).
      Option.bind (if out_status_code res = Success then deposit_code env a res e else Some (res, e)) (\<lambda>(res, e).
        if out_status_code res = Success then Some (res\<lparr>out_create_address := Some a\<rparr>, e) else settle (take_snapshot ?s) res e))" for e3
  have run: "returns ?post (k e3)"
    if "evm_inv env S ?s e3" for e3
  proof -
    have f: "returns (frame_post env S ?s ?g) (evm_execute env H ?msg (cm_initcode msg) None e3)"
      using evm_execute_ok [OF H that i d, of None] S by simp
    have dep: "returns (frame_post env S ?s ?g) (if out_status_code res = Success then deposit_code env a res e4 else Some (res, e4))"
      if "frame_post env S ?s ?g (res, e4)" for res e4
      using that deposit_code_ok [OF that S g(2)] by simp
    show ?thesis unfolding k_def returns_bind
      by (rule returns_mono [OF f], clarify, unfold returns_bind, rule returns_mono [OF dep], assumption, clarify, rule fin)
  qed
  have 4: "returns ?post (Option.bind (set_state e2 (subtract_from_balance ?db (evm_state e2) (cm_sender msg) (cm_endowment msg)))
      (\<lambda>e. Option.bind (set_state e (add_to_balance ?db (evm_state e) a (cm_endowment msg))) k))" if "keeps e2" for e2
    unfolding returns_bind returns_set_state
    by (rule returns_mono [OF 3 [OF that]]) (auto intro: run elim!: returns_mono)
  show ?thesis unfolding deploy_def Let_def e1_def [symmetric]
    by (subst returns_bind) (rule returns_mono [OF 2 4 [unfolded k_def]])
qed

text \<open>A failed creation leaves nothing but a larger nonce of the sender.\<close>

definition nonce_bumped :: "Database \<Rightarrow> address \<Rightarrow> IntraBlockState \<Rightarrow> IntraBlockState \<Rightarrow> bool" where
  "nonce_bumped db a s t \<longleftrightarrow> same_rest db s t \<and> account_view db t = (account_view db s)(a \<mapsto>
     (account_or_default (account_view db s a))\<lparr>acc_nonce := fst (get_nonce db s a) + 1\<rparr>)"

definition create_post :: "'c Env \<Rightarrow> bool \<Rightarrow> IntraBlockState \<Rightarrow> CreateMessage \<Rightarrow> Output \<times> 'c Evm \<Rightarrow> bool" where
  "create_post env S s msg r \<longleftrightarrow> frame_post env S s (cm_gas msg) r
     \<and> (out_status_code (fst r) = Success \<longrightarrow> out_create_address (fst r) \<noteq> None)
     \<and> (out_status_code (fst r) \<noteq> Success \<longrightarrow> same_core (env_db env) s (evm_state (snd r))
          \<or> nonce_bumped (env_db env) (cm_sender msg) s (evm_state (snd r)))"

lemma nonce_bumped_core:
  assumes "same_core db s s1" "nonce_bumped db a s1 t" "same_core db t t'"
  shows "nonce_bumped db a s t'"
proof -
  have v: "account_view db s1 = account_view db s" "account_view db t' = account_view db t"
    using assms(1,3) by (simp_all add: same_core_rest)
  have "account_view db t b \<noteq> None" if "account_view db s b \<noteq> None" for b
    using assms(2) that v(1) by (auto simp: nonce_bumped_def)
  then have "same_rest db s t'"
    using assms v unfolding same_core_def nonce_bumped_def same_rest_def by metis
  then show ?thesis using assms(2) v by (simp add: nonce_bumped_def reads_value)
qed

lemma reverted_core: "reverted db s t \<Longrightarrow> same_core db s t"
  by (simp add: reverted_def restored_core)

lemma evm_create_ok:
  assumes H: "hosts_ok env H D" and e: "evm_good env e" and m: "depth_ok D (create_to_interpreter msg)"
    and S: "\<not> S"
  shows "returns (create_post env S (evm_state e) msg) (evm_create env H msg e)"
proof -
  let ?db = "env_db env" and ?s = "evm_state e" and ?a = "cm_sender msg"
  have i: "length (cm_initcode msg) < 2 ^ 63" and g: "0 \<le> cm_gas msg"
    using m by (auto simp: depth_ok_def message_ok_def create_to_interpreter_def)
  have step: "evm_inv env S ?s (e1\<lparr>evm_state := t\<rparr>) \<and> same_core ?db (evm_state e1) t"
    if "evm_inv env S ?s e1" "quiet ?db (evm_state e1) t" for e1 t
    using evm_inv_quiet [OF that] that(2) by (simp add: quiet_def)
  define e1 where "e1 = e\<lparr>evm_state := snd (ibs_get_balance ?db ?s ?a)\<rparr>"
  define e2 where "e2 = e1\<lparr>evm_state := snd (get_nonce ?db (evm_state e1) ?a)\<rparr>"
  define n where "n = fst (get_nonce ?db (evm_state e1) ?a)"
  have 1: "evm_inv env S ?s e1" "same_core ?db ?s (evm_state e1)"
    using step [OF evm_inv_refl [OF e] reads_quiet(3)] e by (auto simp: e1_def evm_good_def)
  then have 2: "evm_inv env S ?s e2" "same_core ?db ?s (evm_state e2)"
    using step [OF 1(1) reads_quiet(4) [OF evm_inv_state [OF 1(1)]]] same_core_trans by (auto simp: e2_def)
  have n: "n = fst (get_nonce ?db (evm_state e2) ?a)"
    using 1(2) 2(2) by (simp add: n_def reads_value same_core_def)
  define mid where "mid e3 \<longleftrightarrow> evm_inv env S ?s e3 \<and> nonce_bumped ?db ?a (evm_state e2) (evm_state e3)" for e3
  have mid: "mid (e3\<lparr>evm_state := t\<rparr>)" if "mid e3" "quiet ?db (evm_state e3) t" for e3 t
    using that step nonce_bumped_core [OF same_core_refl] by (auto simp: mid_def quiet_def)
  have midS: "state_good ?db (evm_state e3)" if "mid e3" for e3 using that evm_inv_state by (auto simp: mid_def)
  have q: "mid (e2\<lparr>evm_state := snd (ibs_access_account t b)\<rparr>)" "mid (e2\<lparr>evm_state := snd (get_nonce ?db t b)\<rparr>)"
    "mid (e2\<lparr>evm_state := snd (ibs_get_code_hash ?db t b)\<rparr>)" if "mid (e2\<lparr>evm_state := t\<rparr>)" for t b
    using mid [OF that] marks_quiet(1) reads_quiet(4,5) midS [OF that] by simp_all
  have 3: "returns (\<lambda>t. mid (e2\<lparr>evm_state := t\<rparr>)) (set_nonce ?db (evm_state e2) ?a (n + 1))"
    using evm_inv_advances [OF 2(1) S]
    by (intro returns_mono [OF returns_conj [OF set_nonce_advances [OF evm_inv_state [OF 2(1)]]
          returns_conj [OF set_nonce_rest set_nonce_view]]]) (auto simp: mid_def nonce_bumped_def n)
  have fail: "create_post env S ?s msg (res, e4)"
    if "mid e4" "out_status_code res \<noteq> Success" "out_gas_left res = 0" "out_output_data res = []" for res e4
    using that g nonce_bumped_core [OF 2(2) _ same_core_refl]
    by (auto simp: create_post_def frame_post_def mid_def)
  have dep: "returns (create_post env S ?s msg) (deploy env H msg a e4)"
    if "mid e4" "\<not> fst (ibs_get_balance ?db ?s ?a) < cm_endowment msg" for e4 a
  proof -
    have "balance_of (account_view ?db (evm_state e4) ?a) = balance_of (account_view ?db ?s ?a)"
      using that(1) 2(2) by (simp add: mid_def nonce_bumped_def same_core_def balance_value balance_of_def [of "Some _"])
    then have "cm_endowment msg \<le> fst (ibs_get_balance ?db (evm_state e4) ?a)"
      using that(2) by (simp add: not_less word_le_nat_alt balance_read)
    then show ?thesis
      using that(1) evm_inv_trans nonce_bumped_core [OF 2(2)] reverted_core
      by (intro returns_mono [OF deploy_ok [OF H _ m i S, where a = a]])
        (auto simp: mid_def evm_inv_good call_post_def create_post_def frame_post_def)
  qed
  show ?thesis
  proof (cases "fst (ibs_get_balance ?db ?s ?a) < cm_endowment msg")
    case True
    then show ?thesis using 1 g
      by (simp add: evm_create_def on_state_def e1_def [symmetric] create_post_def frame_post_def initial_output_def)
  next
    case False
    then show ?thesis using 3
      by (auto simp: evm_create_def on_state_def e1_def [symmetric] e2_def [symmetric] n_def [symmetric] Let_def
          initial_output_def elim!: returns_mono intro!: dep fail q split: option.splits)
  qed
qed

section \<open>The contract of the interpreter\<close>

lemma EvmHost_contract:
  assumes "\<And>e c'. evm_inv env S s e \<Longrightarrow> message_ok D (call_to_interpreter c') \<Longrightarrow> (S \<longrightarrow> static_call c')
      \<Longrightarrow> returns (\<lambda>(out, e'). evm_inv env S s e' \<and> answer_ok c' out) (c e c')"
  shows "host_contract (EvmHost env c) (evm_inv env S s) D (ph_number (env_header env)) S"
  by (rule host_contract.intro)
    (simp_all add: EvmHost_def host_reads host_code_hash host_copy_code host_block_hash host_tx_context host_writes
      host_selfdestruct assms)

lemma eh_call_ok:
  assumes H: "hosts_ok env H (D + 1)" and I: "evm_inv env S s e" and m: "message_ok D (call_to_interpreter c)"
    and S: "S \<longrightarrow> static_call c"
  shows "returns (\<lambda>(out, e'). evm_inv env S s e' \<and> answer_ok c out) (eh_call env H e c)"
proof (cases c)
  case (CallMsg msg)
  have "returns (call_post env S (evm_state e) (msg_gas msg)) (evm_call env H msg e)"
    using m S by (intro evm_call_ok [OF H evm_inv_good [OF I]]) (simp_all add: CallMsg call_to_interpreter_def static_call_def depth_ok_def)
  then show ?thesis using evm_inv_trans [OF I]
    by (auto simp: CallMsg eh_call_def call_post_def frame_post_def answer_ok_def call_to_interpreter_def elim!: returns_mono)
next
  case (CreateMsg msg)
  then have nS: "\<not> S" using S by (simp add: static_call_def)
  have "returns (create_post env S (evm_state e) msg) (evm_create env H msg e)"
    using m nS by (intro evm_create_ok [OF H evm_inv_good [OF I]]) (simp_all add: CreateMsg call_to_interpreter_def depth_ok_def)
  then show ?thesis using evm_inv_trans [OF I]
    by (auto simp: CreateMsg eh_call_def create_post_def frame_post_def answer_ok_def call_to_interpreter_def
        create_to_interpreter_def elim!: returns_mono)
qed

lemma evm_host_ok: "hosts_ok env (evm_host env n) (1025 - int n)"
proof (induction n)
  case 0
  show ?case unfolding hosts_ok_def evm_host.simps
    by (intro allI EvmHost_contract) (auto simp: message_ok_def)
next
  case (Suc n)
  then have H: "hosts_ok env (evm_host env n) ((1025 - int (Suc n)) + 1)" by simp
  show ?case unfolding hosts_ok_def evm_host.simps by (intro allI EvmHost_contract) (rule eh_call_ok [OF H])
qed

interpretation evm: host_contract "evm_host env n" "evm_inv env S s" "1025 - int n" "ph_number (env_header env)" S
  for env n S s
  using evm_host_ok [of env n] by (simp add: hosts_ok_def)

section \<open>Properties\<close>

text \<open>The state and the gas with which a transaction's execution starts.\<close>

definition start_ok :: "'c Env \<Rightarrow> u64 \<Rightarrow> 'c Evm \<Rightarrow> bool" where
  "start_ok env gas e \<longleftrightarrow> evm_good env e \<and> unat gas < 2 ^ 63"

lemma CALL_LIMIT_hosts: "hosts_ok env (evm_host env CALL_LIMIT) 1"
  using evm_host_ok [of env CALL_LIMIT] by (simp add: CALL_LIMIT_def)

lemma evmglue_execute_ok:
  assumes "start_ok env gas e"
  shows "returns (\<lambda>(res, e'). evm_inv env False (evm_state e) e' \<and> 0 \<le> cr_gas_left res
      \<and> cr_gas_left res \<le> int (unat gas) \<and> length (cr_output_data res) < 2 ^ 63
      \<and> (cr_status_code res \<noteq> Success \<longrightarrow> same_core (env_db env) (evm_state e) (evm_state e')
          \<or> tx_action (tm_message (env_txn env)) = ActionCreate
            \<and> nonce_bumped (env_db env) (tm_sender (env_txn env)) (evm_state e) (evm_state e')))
    (evmglue_execute env gas e)"
proof -
  have e: "evm_good env e" using assms by (simp add: start_ok_def)
  have "int (unat gas) < int (2 ^ 63)" using assms unfolding start_ok_def of_nat_less_iff by blast
  then have g: "uint gas < 2 ^ 63" by simp
  moreover have "- (2 ^ 63) \<le> uint gas" by (rule order_trans [OF _ uint_nonnegative]) simp
  ultimately have i: "i64 (uint gas) = uint gas" by (intro i64_id)
  let ?txn = "tm_message (env_txn env)" and ?H = "evm_host env CALL_LIMIT" and ?from = "tm_sender (env_txn env)"
  have len: "length (tx_input ?txn) < 2 ^ 63" using e by (simp add: evm_good_def env_ok_def)
  have called: "returns (call_post env False (evm_state e) (uint gas)) (evm_call env ?H
      \<lparr>msg_kind = Call, msg_is_static = False, msg_depth = 0, msg_gas = uint gas,
       msg_recipient = to, msg_sender = ?from, msg_input_data = tx_input ?txn,
       msg_value = tx_value ?txn, msg_code_address = to\<rparr> e)" for to
    by (rule returns_mono [OF evm_call_ok [OF CALL_LIMIT_hosts e]])
      (use g len in \<open>simp_all add: depth_ok_def message_ok_def\<close>)
  have created: "returns (create_post env False (evm_state e)
      \<lparr>cm_salt = None, cm_gas = uint gas, cm_depth = 0, cm_initcode = tx_input ?txn, cm_sender = ?from, cm_endowment = tx_value ?txn\<rparr>)
    (evm_create env ?H
      \<lparr>cm_salt = None, cm_gas = uint gas, cm_depth = 0, cm_initcode = tx_input ?txn, cm_sender = ?from, cm_endowment = tx_value ?txn\<rparr> e)"
    by (rule evm_create_ok [OF CALL_LIMIT_hosts e])
      (use g len in \<open>simp_all add: depth_ok_def message_ok_def create_to_interpreter_def\<close>)
  show ?thesis
  proof (cases "tx_action ?txn")
    case (ActionCall to)
    then show ?thesis unfolding evmglue_execute_def Let_def returns_bind
      by (simp add: i) (rule returns_mono [OF called], auto simp: call_post_def frame_post_def reverted_core)
  next
    case ActionCreate
    then show ?thesis unfolding evmglue_execute_def Let_def returns_bind
      by (simp add: i) (rule returns_mono [OF created], auto simp: create_post_def frame_post_def)
  qed
qed

text \<open>A sample environment: the precompiled contracts of the first revision, and a cache that never evicts.\<close>

definition sample_lru :: "(h256 \<rightharpoonup> AnalyzedCode) lru" where
  "sample_lru = \<lparr>lru_peek = (\<lambda>c. c), lru_get = (\<lambda>c k. (c k, c)), lru_put = (\<lambda>c k v. c(k \<mapsto> v))\<rparr>"

definition sample_header :: PartialHeader where
  "sample_header = \<lparr>ph_parent_hash = 9, ph_beneficiary = 77, ph_state_root = 0, ph_receipts_root = 0, ph_logs_bloom = 0,
     ph_difficulty = 1, ph_number = 1, ph_gas_limit = 1000000, ph_gas_used = 0, ph_timestamp = 0, ph_extra_data = [],
     ph_mix_hash = 0, ph_nonce = 0, ph_base_fee_per_gas = None\<rparr>"

definition sample_env :: "Message \<Rightarrow> (h256 \<rightharpoonup> AnalyzedCode) Env" where
  "sample_env m = \<lparr>env_db = sample_db, env_lib = sample_lib, env_rlp = (\<lambda>_ _. []), env_lru = sample_lru,
     env_contracts = CONTRACTS sample_lib sample_crypto, env_header = sample_header,
     env_spec = \<lparr>bs_revision = Frontier, bs_active_transitions = {},
       bs_params = \<lparr>pa_chain_id = 1, pa_network_id = 1, pa_min_gas_limit = 5000\<rparr>,
       bs_system_contract_changes = Map.empty, bs_balance_changes = Map.empty\<rparr>,
     env_txn = \<lparr>tm_message = m, tm_sender = 10\<rparr>, env_beneficiary = 77\<rparr>"

definition sample_evm :: "(h256 \<rightharpoonup> AnalyzedCode) Evm" where
  "sample_evm = \<lparr>evm_state = IntraBlockState_new, evm_cache = Map.empty\<rparr>"

lemma sample_env_ok:
  assumes "length (tx_input m) < 2 ^ 63"
  shows "env_ok (sample_env m)"
proof -
  have "contract_ok (CONTRACTS sample_lib sample_crypto ! i) Frontier" if "i < 4" for i
    using that by (intro contracts_without_expmod [OF sample_crypto_ok]) simp_all
  then have "precompiles_ok (sample_env m)"
    by (simp add: precompiles_ok_def sample_env_def number_of_precompiles_def NUM_OF_FRONTIER_CONTRACTS_def CONTRACTS_def)
  moreover have "lru_ok sample_lru" by (simp add: lru_ok_def sample_lru_def)
  moreover have "headers_linked sample_db 1 9 (\<lambda>_. 9)" by (simp add: headers_linked_def)
  ultimately show ?thesis using assms
    by (auto simp: env_ok_def sample_env_def sample_header_def env_base_fee_def sample_db_def)
qed

lemma sample_evm_good: "length (tx_input m) < 2 ^ 63 \<Longrightarrow> evm_good (sample_env m) sample_evm"
  by (simp add: evm_good_def sample_env_ok sample_evm_def cache_ok_def state_good_def new_state_ok)
    (simp add: sample_env_def sample_lru_def IntraBlockState_new_def)

abbreviation sample_transfer :: Message where
  "sample_transfer \<equiv> LegacyMessage None 0 1 100000 (ActionCall 20) 5 []"

lemma sample_supply: "total_supply sample_db IntraBlockState_new = 500"
proof -
  have "account_view sample_db IntraBlockState_new = (\<lambda>_. None)(10 \<mapsto> Account_default\<lparr>acc_balance := 500\<rparr>)"
    by (auto simp: account_view_def IntraBlockState_new_def sample_db_def)
  then show ?thesis using total_upd [of "\<lambda>_. None" 10 "Some (Account_default\<lparr>acc_balance := 500\<rparr>)"]
    by (simp add: total_supply_def total_of_def balance_of_def)
qed

abbreviation sample_overdraft :: Message where
  "sample_overdraft \<equiv> LegacyMessage None 0 1 100000 (ActionCall 20) 1000 []"

text \<open>\<open>BLOCKHASH\<close> of one of the last 256 ancestors is that ancestor's hash: the loop over the headers
  finds the hash that the chain of parent hashes links to the number.\<close>

theorem block_hash_is_ancestor:
  assumes "headers_linked (env_db env) (unat (ph_number (env_header env))) (ph_parent_hash (env_header env)) hash"
    "n < ph_number (env_header env)" "unat (ph_number (env_header env)) \<le> unat n + 256"
  shows "eh_get_block_hash env e n = Some (hash (unat n), e)"
  using ancestor_of_number [OF assms] by (simp add: eh_get_block_hash_def)

theorem block_hash_is_ancestor_witness: "eh_get_block_hash (sample_env sample_transfer) sample_evm 0 = Some (9, sample_evm)"
  using block_hash_is_ancestor [of "sample_env sample_transfer" "\<lambda>_. 9" 0 sample_evm]
  by (simp add: sample_env_def sample_header_def headers_linked_def)

end
