(* ===== verification/Consensus.thy ===== *)
theory Consensus
  imports ChainSpec IntraBlockState
begin

text \<open>
  Header and block validation and the rewards of a block: \<open>src/consensus/mod.rs\<close>,
  \<open>consensus/base.rs\<close>, \<open>consensus/ethash/mod.rs\<close> and \<open>consensus/ethash/difficulty.rs\<close>.

  The hashes of a list of ommers and of transactions, and the proof-of-work function, are computed by
  third-party code; they are the fields of the record \<open>seal_lib\<close>. The database is a record of the
  reads that validation makes. The clock is an argument. Arithmetic on \<open>u64\<close> and \<open>U256\<close> wraps around.
\<close>

section \<open>Data\<close>

record MessageSignature =
  sig_odd_y_parity :: bool
  sig_r :: h256
  sig_s :: h256

record MessageWithSignature =
  ms_message :: Message
  ms_signature :: MessageSignature

record Block =
  blk_header :: BlockHeader
  blk_transactions :: "MessageWithSignature list"
  blk_ommers :: "BlockHeader list"

record BlockBody =
  bb_transactions :: "MessageWithSignature list"
  bb_ommers :: "BlockHeader list"

record BlockBodyWithSenders =
  bws_transactions :: "MessageWithSender list"
  bws_ommers :: "BlockHeader list"

datatype ValidationError =
    FutureBlock u64 u64
  | WrongStateRoot h256 h256
  | WrongOmmersHash h256 h256
  | WrongTransactionsRoot h256 h256
  | WrongReceiptsRoot h256 h256
  | WrongLogsBloom bloom bloom
  | UnknownParent
  | WrongDifficulty
  | GasAboveLimit u64 u64
  | InvalidGasLimit
  | InvalidTimestamp u64 u64
  | ExtraDataTooLong
  | WrongDaoExtraData
  | WrongBaseFee "u256 option" "u256 option"
  | InvalidSeal
  | MissingSender
  | SenderNoEOA address
  | WrongNonce address u64 u64
  | IntrinsicGas
  | InsufficientFunds address u512 u512
  | BlockGasLimitExceeded u64 u64
  | MaxFeeLessThanBase
  | MaxPriorityFeeGreaterThanMax
  | TooManyOmmers
  | InvalidOmmerHeader
  | NotAnOmmer
  | DuplicateOmmer
  | WrongBlockGas u64 u64 "(nat \<times> u64) list"
  | InvalidSignature
  | WrongChainId
  | UnsupportedTransactionType

datatype FinalizationChange = Reward address u256

record chain_db =
  cdb_read_header :: "u64 \<Rightarrow> h256 \<Rightarrow> BlockHeader option"
  cdb_read_body :: "u64 \<Rightarrow> h256 \<Rightarrow> BlockBody option"

record seal_lib =
  ommers_hash :: "BlockHeader list \<Rightarrow> h256"
  transactions_root :: "MessageWithSignature list \<Rightarrow> h256"
  hashimoto :: "u64 \<Rightarrow> BlockHeader \<Rightarrow> h256 \<times> h256"
  cross_boundary :: "u256 \<Rightarrow> u256"

definition EMPTY_LIST_HASH :: h256 where
  "EMPTY_LIST_HASH = 0x1dcc4de8dec75d7aab85b567b6ccd41ad312451b948a7413f0a142fd40d49347"

type_synonym checked = "(ValidationError + unit) option"

section \<open>Transactions\<close>

definition pre_validate_transaction :: "Message \<Rightarrow> u64 \<Rightarrow> u256 option \<Rightarrow> ValidationError + unit" where
  "pre_validate_transaction txn canonical_chain_id base_fee_per_gas =
     (if (case tx_chain_id txn of Some c \<Rightarrow> c \<noteq> canonical_chain_id | None \<Rightarrow> False) then Inl WrongChainId
      else if (case base_fee_per_gas of Some f \<Rightarrow> max_fee_per_gas txn < f | None \<Rightarrow> False) then Inl MaxFeeLessThanBase
      else if max_priority_fee_per_gas txn > max_fee_per_gas txn then Inl MaxPriorityFeeGreaterThanMax
      else Inr ())"

section \<open>The base of the consensus engines\<close>

record ConsensusEngineBase =
  eng_chain_id :: u64
  eng_eip1559_block :: "u64 option"

definition ELASTICITY_MULTIPLIER :: u64 where "ELASTICITY_MULTIPLIER = 2"
definition INITIAL_BASE_FEE :: u64 where "INITIAL_BASE_FEE = 1000000000"
definition BASE_FEE_MAX_CHANGE_DENOMINATOR :: u64 where "BASE_FEE_MAX_CHANGE_DENOMINATOR = 8"

text \<open>\<open>unwrap\<close> on a missing base fee and a division by a zero gas target panic.\<close>

definition next_base_fee :: "u64 \<Rightarrow> u64 \<Rightarrow> u256 \<Rightarrow> u256 option" where
  "next_base_fee gas_used parent_gas_target parent_base_fee =
     (if gas_used = parent_gas_target then Some parent_base_fee
      else if parent_gas_target = 0 then None
      else if gas_used > parent_gas_target then
        (let gas_used_delta = gas_used - parent_gas_target;
             base_fee_delta = max 1 (parent_base_fee * ucast gas_used_delta div ucast parent_gas_target
               div ucast BASE_FEE_MAX_CHANGE_DENOMINATOR)
         in Some (parent_base_fee + base_fee_delta))
      else
        (let gas_used_delta = parent_gas_target - gas_used;
             base_fee_delta = parent_base_fee * ucast gas_used_delta div ucast parent_gas_target
               div ucast BASE_FEE_MAX_CHANGE_DENOMINATOR
         in Some (if base_fee_delta \<le> parent_base_fee then parent_base_fee - base_fee_delta else 0)))"

definition expected_base_fee_per_gas ::
  "ConsensusEngineBase \<Rightarrow> BlockHeader \<Rightarrow> BlockHeader \<Rightarrow> u256 option option" where
  "expected_base_fee_per_gas eng header parent = (case eng_eip1559_block eng of
       Some fork_block \<Rightarrow>
         (if bh_number header \<ge> fork_block then
            (if bh_number header = fork_block then Some (Some (ucast INITIAL_BASE_FEE))
             else do {
               fee \<leftarrow> bh_base_fee_per_gas parent;
               f \<leftarrow> next_base_fee (bh_gas_used parent) (bh_gas_limit parent div ELASTICITY_MULTIPLIER) fee;
               Some (Some f) })
          else Some None)
     | None \<Rightarrow> Some None)"

definition base_validate_block_header ::
  "ConsensusEngineBase \<Rightarrow> BlockHeader \<Rightarrow> BlockHeader \<Rightarrow> u64 option \<Rightarrow> checked" where
  "base_validate_block_header eng header parent now =
     (if (case now of Some now \<Rightarrow> bh_timestamp header > now | None \<Rightarrow> False)
      then Some (Inl (FutureBlock (the now) (bh_timestamp header)))
      else if bh_gas_used header > bh_gas_limit header
      then Some (Inl (GasAboveLimit (bh_gas_used header) (bh_gas_limit header)))
      else if bh_gas_limit header < 5000 then Some (Inl InvalidGasLimit)
      else if bh_gas_limit header > 2 ^ 63 - 1 then Some (Inl InvalidGasLimit)
      else if length (bh_extra_data header) > 32 then Some (Inl ExtraDataTooLong)
      else if bh_timestamp header \<le> bh_timestamp parent
      then Some (Inl (InvalidTimestamp (bh_timestamp parent) (bh_timestamp header)))
      else
        let parent_gas_limit = (if eng_eip1559_block eng = Some (bh_number header)
              then bh_gas_limit parent * ELASTICITY_MULTIPLIER else bh_gas_limit parent);
            gas_delta = (if bh_gas_limit header > parent_gas_limit then bh_gas_limit header - parent_gas_limit
              else parent_gas_limit - bh_gas_limit header)
        in if gas_delta \<ge> parent_gas_limit div 1024 then Some (Inl InvalidGasLimit)
           else do {
             expected \<leftarrow> expected_base_fee_per_gas eng header parent;
             Some (if bh_base_fee_per_gas header \<noteq> expected
                   then Inl (WrongBaseFee expected (bh_base_fee_per_gas header)) else Inr ()) })"

definition get_parent_header :: "chain_db \<Rightarrow> BlockHeader \<Rightarrow> BlockHeader option" where
  "get_parent_header db header =
     (if bh_number header = 0 then None else cdb_read_header db (bh_number header - 1) (bh_parent_hash header))"

fun is_kin :: "chain_db \<Rightarrow> BlockHeader \<Rightarrow> BlockHeader \<Rightarrow> h256 \<Rightarrow> nat \<Rightarrow> BlockHeader list \<Rightarrow> bool \<times> BlockHeader list" where
  "is_kin db branch_header mainline_header mainline_hash 0 old_ommers = (False, old_ommers)"
| "is_kin db branch_header mainline_header mainline_hash (Suc n) old_ommers =
     (if branch_header \<noteq> mainline_header then
        (case cdb_read_body db (bh_number mainline_header) mainline_hash of
           Some mainline_body \<Rightarrow>
             (let old_ommers = old_ommers @ bb_ommers mainline_body
              in case get_parent_header db mainline_header of
                   Some mainline_parent \<Rightarrow>
                     (if get_parent_header db branch_header = Some mainline_parent then (True, old_ommers)
                      else is_kin db branch_header mainline_parent (bh_parent_hash mainline_header) n old_ommers)
                 | None \<Rightarrow> (False, old_ommers))
         | None \<Rightarrow> (False, old_ommers))
      else (False, old_ommers))"

definition validate_ommer :: "ConsensusEngineBase \<Rightarrow> chain_db \<Rightarrow> Block \<Rightarrow> BlockHeader \<Rightarrow> BlockHeader \<Rightarrow> checked" where
  "validate_ommer eng db block parent ommer = (case get_parent_header db ommer of
       None \<Rightarrow> Some (Inl UnknownParent)
     | Some ommer_parent \<Rightarrow> do {
         r \<leftarrow> base_validate_block_header eng ommer ommer_parent None;
         Some (case r of
             Inl _ \<Rightarrow> Inl InvalidOmmerHeader
           | Inr _ \<Rightarrow>
               (case is_kin db ommer parent (bh_parent_hash (blk_header block)) 6 [] of
                  (kin, old_ommers) \<Rightarrow>
                    if \<not> kin then Inl NotAnOmmer
                    else if ommer \<in> set old_ommers then Inl DuplicateOmmer else Inr ())) })"

fun first_error :: "('a \<Rightarrow> checked) \<Rightarrow> 'a list \<Rightarrow> checked" where
  "first_error f [] = Some (Inr ())"
| "first_error f (x # xs) = do { r \<leftarrow> f x; try_then r (\<lambda>_. first_error f xs) }"

definition base_pre_validate_block :: "seal_lib \<Rightarrow> ConsensusEngineBase \<Rightarrow> chain_db \<Rightarrow> Block \<Rightarrow> checked" where
  "base_pre_validate_block P eng db block =
     (let header = blk_header block; ommers = blk_ommers block;
          expected_ommers_hash = ommers_hash P ommers;
          expected_transactions_root = transactions_root P (blk_transactions block)
      in if bh_ommers_hash header \<noteq> expected_ommers_hash
         then Some (Inl (WrongOmmersHash expected_ommers_hash (bh_ommers_hash header)))
         else if bh_transactions_root header \<noteq> expected_transactions_root
         then Some (Inl (WrongTransactionsRoot expected_transactions_root (bh_transactions_root header)))
         else if length ommers > 2 then Some (Inl TooManyOmmers)
         else if length ommers = 2 \<and> ommers ! 0 = ommers ! 1 then Some (Inl DuplicateOmmer)
         else (case get_parent_header db header of
             None \<Rightarrow> Some (Inl UnknownParent)
           | Some parent \<Rightarrow> do {
               r \<leftarrow> first_error (validate_ommer eng db block parent) ommers;
               try_then r (\<lambda>_.
                 first_error (\<lambda>txn. Some (pre_validate_transaction (ms_message txn) (eng_chain_id eng)
                   (bh_base_fee_per_gas header))) (blk_transactions block)) }))"

section \<open>Ethash\<close>

definition MIN_DIFFICULTY :: u256 where "MIN_DIFFICULTY = 131072"

definition adjusted_difficulty :: "u64 \<Rightarrow> u256 \<Rightarrow> u64 \<Rightarrow> bool \<Rightarrow> bool \<Rightarrow> bool \<Rightarrow> u256" where
  "adjusted_difficulty timestamp parent_difficulty parent_timestamp parent_has_uncles byzantium_formula homestead_formula =
     (let x = drop_bit 11 parent_difficulty in
      if byzantium_formula then
         (let difficulty = parent_difficulty - x * 99;
              y = (if parent_has_uncles then 2 else 1 :: u64);
              z = (timestamp - parent_timestamp) div 9
          in if 99 + y > z then difficulty + ucast (99 + y - z) * x else difficulty)
       else if homestead_formula then
         (let difficulty = parent_difficulty - x * 99;
              z = (timestamp - parent_timestamp) div 10
          in if 100 > z then difficulty + ucast (100 - z) * x else difficulty)
       else if timestamp - parent_timestamp < 13 then parent_difficulty + x else parent_difficulty - x)"

text \<open>
  The bomb shifts \<open>1\<close> by an amount the formula does not bound; a shift of 256 or more is outside of
  what \<open>U256\<close> defines, and the model gives \<open>None\<close> there.
\<close>

definition canonical_difficulty ::
  "u64 \<Rightarrow> u64 \<Rightarrow> u256 \<Rightarrow> u64 \<Rightarrow> bool \<Rightarrow> bool \<Rightarrow> bool \<Rightarrow> u64 option \<Rightarrow> u256 option" where
  "canonical_difficulty number timestamp parent_difficulty parent_timestamp parent_has_uncles
      byzantium_formula homestead_formula difficulty_bomb = do {
     let difficulty = adjusted_difficulty timestamp parent_difficulty parent_timestamp parent_has_uncles
       byzantium_formula homestead_formula;
     difficulty \<leftarrow> (case difficulty_bomb of
         Some delay_to \<Rightarrow>
           (let n = (if delay_to \<le> number then number - delay_to else 0) div 100000
            in if n \<ge> 2 then (if n - 2 < 256 then Some (difficulty + push_bit (unat (n - 2)) 1) else None)
               else Some difficulty)
       | None \<Rightarrow> Some difficulty);
     Some (max difficulty MIN_DIFFICULTY) }"

record Ethash =
  eth_base :: ConsensusEngineBase
  eth_duration_limit :: u64
  eth_block_reward :: "u256 by_block"
  eth_homestead_formula :: "u64 option"
  eth_byzantium_formula :: "u64 option"
  eth_difficulty_bomb :: "DifficultyBomb option"
  eth_skip_pow_verification :: bool

definition ethash_validate_block_header :: "Ethash \<Rightarrow> chain_db \<Rightarrow> BlockHeader \<Rightarrow> u64 option \<Rightarrow> checked" where
  "ethash_validate_block_header eth db header now = (case get_parent_header db header of
       None \<Rightarrow> Some (Inl UnknownParent)
     | Some parent \<Rightarrow> do {
         r \<leftarrow> base_validate_block_header (eth_base eth) header parent now;
         try_then r (\<lambda>_. do {
           difficulty \<leftarrow> canonical_difficulty (bh_number header) (bh_timestamp header) (bh_difficulty parent)
             (bh_timestamp parent) (bh_ommers_hash parent \<noteq> EMPTY_LIST_HASH)
             (switch_is_active (eth_byzantium_formula eth) (bh_number header))
             (switch_is_active (eth_homestead_formula eth) (bh_number header))
             (map_option (\<lambda>b. get_delay_to b (bh_number header)) (eth_difficulty_bomb eth));
           Some (if difficulty \<noteq> bh_difficulty header then Inl WrongDifficulty else Inr ()) }) })"

definition validate_seal :: "seal_lib \<Rightarrow> Ethash \<Rightarrow> BlockHeader \<Rightarrow> ValidationError + unit" where
  "validate_seal P eth header =
     (if \<not> eth_skip_pow_verification eth then
        (case hashimoto P (bh_number header) header of
           (mixh, final_hash) \<Rightarrow>
             if mixh \<noteq> bh_mix_hash header then Inl InvalidSeal
             else if final_hash > cross_boundary P (bh_difficulty header) then Inl InvalidSeal
             else Inr ())
      else Inr ())"

definition ETHER :: u128 where "ETHER = 1000000000000000000"
definition BLOCK_REWARD_FRONTIER :: u128 where "BLOCK_REWARD_FRONTIER = 5 * ETHER"
definition BLOCK_REWARD_BYZANTIUM :: u128 where "BLOCK_REWARD_BYZANTIUM = 3 * ETHER"
definition BLOCK_REWARD_CONSTANTINOPLE :: u128 where "BLOCK_REWARD_CONSTANTINOPLE = 2 * ETHER"

definition block_reward_of :: "Revision \<Rightarrow> u128" where
  "block_reward_of revision =
     (if revision \<ge> Constantinople then BLOCK_REWARD_CONSTANTINOPLE
      else if revision \<ge> Byzantium then BLOCK_REWARD_BYZANTIUM
      else BLOCK_REWARD_FRONTIER)"

definition ommer_reward :: "u128 \<Rightarrow> u64 \<Rightarrow> BlockHeader \<Rightarrow> FinalizationChange" where
  "ommer_reward block_reward n ommer =
     Reward (bh_beneficiary ommer) (drop_bit 3 (ucast (8 + bh_number ommer - n) * ucast block_reward))"

definition finalize :: "PartialHeader \<Rightarrow> BlockHeader list \<Rightarrow> Revision \<Rightarrow> FinalizationChange list" where
  "finalize header ommers revision =
     (let block_reward = block_reward_of revision;
          (changes, miner_reward) = fold (\<lambda>ommer (changes, miner_reward).
              (changes @ [ommer_reward block_reward (ph_number header) ommer], miner_reward + block_reward div 32))
            ommers ([], block_reward)
      in changes @ [Reward (ph_beneficiary header) (ucast miner_reward)])"

definition get_beneficiary :: "BlockHeader \<Rightarrow> address" where
  "get_beneficiary header = bh_beneficiary header"

definition engine_factory :: "ChainSpec \<Rightarrow> string + Ethash" where
  "engine_factory spec = (case seal_verification (cs_consensus spec) of
       EthashParams duration_limit block_reward homestead_formula byzantium_formula difficulty_bomb skip \<Rightarrow>
         Inr \<lparr>eth_base = \<lparr>eng_chain_id = pa_chain_id (cs_params spec), eng_eip1559_block = eip1559_block (cs_consensus spec)\<rparr>,
              eth_duration_limit = duration_limit, eth_block_reward = block_reward,
              eth_homestead_formula = homestead_formula, eth_byzantium_formula = byzantium_formula,
              eth_difficulty_bomb = difficulty_bomb, eth_skip_pow_verification = skip\<rparr>
     | CliqueParams _ _ \<Rightarrow> Inl ''unsupported consensus engine'')"

section \<open>The base fee\<close>

text \<open>The rule of EIP-1559, on natural numbers.\<close>

definition base_fee_spec :: "nat \<Rightarrow> nat \<Rightarrow> nat \<Rightarrow> nat" where
  "base_fee_spec used target fee =
     (if used = target then fee
      else if used > target then fee + max 1 (fee * (used - target) div target div 8)
      else fee - fee * (target - used) div target div 8)"

lemma unat_ucast_u64 [simp]: "unat (ucast (w :: u64) :: u256) = unat w"
  using unsigned_less [where 'a = nat, of w] by (simp add: unsigned_ucast_eq take_bit_eq_mod)

lemma base_fee_delta_le:
  fixes d t f :: nat
  assumes "d \<le> t" "0 < t"
  shows "f * d div t div 8 \<le> f div 8"
proof -
  have "f * d div t \<le> f * t div t" using assms(1) by (intro div_le_mono) simp
  then show ?thesis using assms(2) by (intro div_le_mono) simp
qed

lemma unat_base_fee_delta:
  assumes "unat d \<le> unat t" "unat f < 2 ^ 191"
  shows "unat (f * ucast (d :: u64) div ucast (t :: u64) div ucast BASE_FEE_MAX_CHANGE_DENOMINATOR :: u256)
    = unat f * unat d div unat t div 8"
proof -
  have "unat d < 2 ^ 64" using unsigned_less [of d] by simp
  then have "unat f * unat d < 2 ^ 191 * 2 ^ 64" using assms(2) by (intro mult_strict_mono) simp_all
  then have "unat (f * ucast d) = unat f * unat d" using unat_mult_lem [of f "ucast d"] by simp
  then show ?thesis by (simp add: unat_div BASE_FEE_MAX_CHANGE_DENOMINATOR_def)
qed

lemma next_base_fee_value:
  assumes t: "0 < unat t" and u: "unat u \<le> 2 * unat t" and f: "unat f < 2 ^ 191"
  shows "returns (\<lambda>g. unat g = base_fee_spec (unat u) (unat t) (unat f)) (next_base_fee u t f)"
proof -
  have tn: "t \<noteq> 0" using t by auto
  consider "u = t" | "u \<noteq> t" "u > t" | "u \<noteq> t" "\<not> u > t" by blast
  then show ?thesis
  proof cases
    case 1
    then show ?thesis by (simp add: next_base_fee_def base_fee_spec_def)
  next
    case 2
    have d: "unat (u - t) = unat u - unat t" using 2 by (intro unat_sub) (simp add: less_imp_le)
    define x where "x = f * ucast (u - t) div ucast t div ucast BASE_FEE_MAX_CHANGE_DENOMINATOR"
    have x: "unat x = unat f * (unat u - unat t) div unat t div 8"
      unfolding x_def using unat_base_fee_delta [of "u - t" t f] u f by (simp add: d)
    have m: "unat (max 1 x) = max 1 (unat x)" by (simp add: max_def word_le_nat_alt)
    have "unat x \<le> unat f div 8" using base_fee_delta_le [of "unat u - unat t" "unat t" "unat f"] t u by (simp add: x)
    then have "unat f + unat (max 1 x) < 2 ^ 256" using f by (simp add: m)
    then have "unat (f + max 1 x) = unat f + unat (max 1 x)" using unat_add_lem [of f "max 1 x"] by simp
    then show ?thesis using 2 tn
      by (simp add: next_base_fee_def base_fee_spec_def Let_def x_def [symmetric] m x word_less_nat_alt word_unat_eq_iff [of u t])
  next
    case 3
    have d: "unat (t - u) = unat t - unat u" using 3 by (intro unat_sub) simp
    define x where "x = f * ucast (t - u) div ucast t div ucast BASE_FEE_MAX_CHANGE_DENOMINATOR"
    have x: "unat x = unat f * (unat t - unat u) div unat t div 8"
      unfolding x_def using unat_base_fee_delta [of "t - u" t f] f by (simp add: d)
    have "unat x \<le> unat f div 8" using base_fee_delta_le [of "unat t - unat u" "unat t" "unat f"] t by (simp add: x)
    then have le: "x \<le> f" by (simp add: word_le_nat_alt)
    then have "unat (f - x) = unat f - unat x" by (rule unat_sub)
    then show ?thesis using 3 tn le
      by (simp add: next_base_fee_def base_fee_spec_def Let_def x_def [symmetric] x word_less_nat_alt word_unat_eq_iff [of u t])
  qed
qed

lemma base_fee_spec_bounds:
  assumes "0 < t" "u \<le> 2 * t"
  shows "base_fee_spec u t f \<le> f + max 1 (f div 8)" "f - f div 8 \<le> base_fee_spec u t f"
    "u \<le> t \<Longrightarrow> base_fee_spec u t f \<le> f" "t < u \<Longrightarrow> f < base_fee_spec u t f"
proof -
  have "u - t \<le> t" "t - u \<le> t" using assms(2) by simp_all
  note d = base_fee_delta_le [OF this(1) assms(1), of f] base_fee_delta_le [OF this(2) assms(1), of f]
  show "base_fee_spec u t f \<le> f + max 1 (f div 8)" using d(1) by (auto simp: base_fee_spec_def max_def)
  show "f - f div 8 \<le> base_fee_spec u t f" "u \<le> t \<Longrightarrow> base_fee_spec u t f \<le> f" "t < u \<Longrightarrow> f < base_fee_spec u t f"
    using d(2) by (auto simp: base_fee_spec_def)
qed

section \<open>Properties\<close>

text \<open>C28: The base fee a block must have is that of EIP-1559, computed without wrapping around 256 bits, when
  the parent used at most twice its gas target; it rises when the parent used more than the target,
  does not rise otherwise, and moves by at most an eighth (by one, for small fees) per block.\<close>

theorem base_fee_follows_eip1559:
  assumes "eng_eip1559_block eng = Some fork" "fork < bh_number header" "bh_base_fee_per_gas parent = Some fee"
    "unat fee < 2 ^ 191" "1 < unat (bh_gas_limit parent)"
    "unat (bh_gas_used parent) \<le> 2 * (unat (bh_gas_limit parent) div 2)"
  defines "target \<equiv> unat (bh_gas_limit parent) div 2"
  shows "\<exists>g. expected_base_fee_per_gas eng header parent = Some (Some g)
    \<and> unat g = base_fee_spec (unat (bh_gas_used parent)) target (unat fee)
    \<and> unat g \<le> unat fee + max 1 (unat fee div 8) \<and> unat fee - unat fee div 8 \<le> unat g
    \<and> (unat fee < unat g \<longleftrightarrow> target < unat (bh_gas_used parent))"
proof -
  have t: "unat (bh_gas_limit parent div ELASTICITY_MULTIPLIER) = target"
    by (simp add: target_def ELASTICITY_MULTIPLIER_def unat_div)
  have pos: "0 < target" using assms(5) by (simp add: target_def div_greater_zero_iff)
  obtain g where "next_base_fee (bh_gas_used parent) (bh_gas_limit parent div ELASTICITY_MULTIPLIER) fee = Some g"
    "unat g = base_fee_spec (unat (bh_gas_used parent)) target (unat fee)"
    using next_base_fee_value [of "bh_gas_limit parent div ELASTICITY_MULTIPLIER" "bh_gas_used parent" fee] assms pos
    by (auto simp: t returns_ex target_def)
  moreover from this have "expected_base_fee_per_gas eng header parent = Some (Some g)"
    using assms(1-3) by (auto simp: expected_base_fee_per_gas_def less_imp_le)
  ultimately show ?thesis
    using base_fee_spec_bounds [OF pos, of "unat (bh_gas_used parent)" "unat fee"] assms(6)
    by (auto simp: target_def not_less [symmetric])
qed

definition sample_block_header :: BlockHeader where
  "sample_block_header = \<lparr>bh_parent_hash = 0, bh_ommers_hash = EMPTY_LIST_HASH, bh_beneficiary = 77, bh_state_root = 0,
     bh_transactions_root = 0, bh_receipts_root = 0, bh_logs_bloom = 0, bh_difficulty = 1000000, bh_number = 20,
     bh_gas_limit = 30000000, bh_gas_used = 20000000, bh_timestamp = 100, bh_extra_data = [], bh_mix_hash = 0, bh_nonce = 0,
     bh_base_fee_per_gas = Some 800\<rparr>"

theorem base_fee_follows_eip1559_witness:
  "\<exists>g. expected_base_fee_per_gas \<lparr>eng_chain_id = 1, eng_eip1559_block = Some 10\<rparr>
      (sample_block_header\<lparr>bh_number := 21\<rparr>) sample_block_header = Some (Some g) \<and> unat g = 833"
  using base_fee_follows_eip1559 [of "\<lparr>eng_chain_id = 1, eng_eip1559_block = Some 10\<rparr>" 10
      "sample_block_header\<lparr>bh_number := 21\<rparr>" sample_block_header 800]
  by (auto simp: sample_block_header_def base_fee_spec_def)

end
