(* ===== verification/Processor.thy ===== *)
theory Processor
  imports EvmGlueSafety Consensus
begin

text \<open>
  The execution of a block, \<open>src/execution/processor.rs\<close>, with the intrinsic gas of a transaction
  (\<open>src/chain/intrinsic_gas.rs\<close>) and the bloom filter of logs (\<open>src/models/bloom.rs\<close>).

  The processor's fields that do not change while a block runs are the environment of \<open>EvmGlue\<close>
  (whose transaction is replaced for each transaction of the block) and the block's body; what
  changes is the record \<open>Processor\<close>. The root of the receipts' trie, which a third-party crate
  computes, is a parameter, and so is the write of the final state to the database.
\<close>

section \<open>Data\<close>

record Receipt =
  rc_tx_type :: TxType
  rc_success :: bool
  rc_cumulative_gas_used :: u64
  rc_bloom :: bloom
  rc_logs :: "Log list"

record 'c Processor =
  pr_evm :: "'c Evm"
  pr_cumulative_gas_used :: u64

definition processor_new :: "'c \<Rightarrow> 'c Processor" where
  "processor_new cache = \<lparr>pr_evm = \<lparr>evm_state = IntraBlockState_new, evm_cache = cache\<rparr>, pr_cumulative_gas_used = 0\<rparr>"

abbreviation pr_state :: "'c Processor \<Rightarrow> IntraBlockState" where
  "pr_state p \<equiv> evm_state (pr_evm p)"

definition with_state :: "'c Processor \<Rightarrow> IntraBlockState \<Rightarrow> 'c Processor" where
  "with_state p s = p\<lparr>pr_evm := (pr_evm p)\<lparr>evm_state := s\<rparr>\<rparr>"

definition with_txn :: "'c Env \<Rightarrow> MessageWithSender \<Rightarrow> 'c Env" where
  "with_txn env txn = env\<lparr>env_txn := txn\<rparr>"

section \<open>Intrinsic gas and log blooms\<close>

definition ACCESS_LIST_ADDRESS_COST :: u64 where "ACCESS_LIST_ADDRESS_COST = 2400"
definition G_TX_CREATE :: u64 where "G_TX_CREATE = 32000"
definition G_TX_DATA_ZERO :: u64 where "G_TX_DATA_ZERO = 4"
definition G_TX_DATA_NON_ZERO_FRONTIER :: u64 where "G_TX_DATA_NON_ZERO_FRONTIER = 68"
definition G_TX_DATA_NON_ZERO_ISTANBUL :: u64 where "G_TX_DATA_NON_ZERO_ISTANBUL = 16"
definition G_TRANSACTION :: u64 where "G_TRANSACTION = 21000"
definition R_SELF_DESTRUCT :: u64 where "R_SELF_DESTRUCT = 24000"
definition MAX_REFUND_QUOTIENT_FRONTIER :: u64 where "MAX_REFUND_QUOTIENT_FRONTIER = 2"
definition MAX_REFUND_QUOTIENT_LONDON :: u64 where "MAX_REFUND_QUOTIENT_LONDON = 5"

definition intrinsic_gas :: "Message \<Rightarrow> bool \<Rightarrow> bool \<Rightarrow> u128" where
  "intrinsic_gas txn homestead istanbul =
     (let gas = ucast G_TRANSACTION :: u128;
          gas = (if tx_action txn = ActionCreate \<and> homestead then gas + ucast G_TX_CREATE else gas);
          gas = gas + of_nat (length (tx_access_list txn)) * ucast ACCESS_LIST_ADDRESS_COST;
          gas = fold (\<lambda>e gas. gas + of_nat (length (al_slots e)) * ucast ACCESS_LIST_STORAGE_KEY_COST) (tx_access_list txn) gas
      in if tx_input txn = [] then gas
         else
           let non_zero_bytes = of_nat (length (filter (\<lambda>c. c \<noteq> 0) (tx_input txn)));
               non_zero_gas = ucast (if istanbul then G_TX_DATA_NON_ZERO_ISTANBUL else G_TX_DATA_NON_ZERO_FRONTIER);
               gas = gas + non_zero_bytes * non_zero_gas;
               zero_bytes = of_nat (length (tx_input txn)) - non_zero_bytes
           in gas + zero_bytes * ucast G_TX_DATA_ZERO)"

text \<open>Byte \<open>255 - bit / 8\<close> of the big-endian bloom, its bit \<open>bit % 8\<close>: bit number \<open>bit\<close> of the word.\<close>

definition m3_2048 :: "lib \<Rightarrow> bloom \<Rightarrow> byte list \<Rightarrow> bloom" where
  "m3_2048 L b x =
     (let h = to_be_bytes (keccak256 L x)
      in fold (\<lambda>i b. set_bit ((unat (h ! (i + 1)) + unat (h ! i) * 256) mod 2048) b) [0, 2, 4] b)"

definition logs_bloom :: "lib \<Rightarrow> Log list \<Rightarrow> bloom" where
  "logs_bloom L ls = fold (\<lambda>l b. fold (\<lambda>topic b. m3_2048 L b (to_be_bytes topic)) (log_topics l)
     (m3_2048 L b (address_bytes (log_address l)))) ls 0"

section \<open>Transactions\<close>

definition available_gas :: "'c Env \<Rightarrow> 'c Processor \<Rightarrow> u64" where
  "available_gas env p = ph_gas_limit (env_header env) - pr_cumulative_gas_used p"

text \<open>A transaction that was not pre-validated panics (\<open>expect\<close>).\<close>

definition validate_transaction ::
  "'c Env \<Rightarrow> 'c Processor \<Rightarrow> MessageWithSender \<Rightarrow> ((ValidationError + unit) \<times> 'c Processor) option" where
  "validate_transaction env p tx =
     (let db = env_db env; txn = tm_message tx; sender = tm_sender tx
      in case pre_validate_transaction txn (pa_chain_id (bs_params (env_spec env))) (ph_base_fee_per_gas (env_header env)) of
           Inl _ \<Rightarrow> None
         | Inr _ \<Rightarrow>
             (let (h, s) = ibs_get_code_hash db (pr_state p) sender; p = with_state p s
              in if h \<noteq> EMPTY_HASH then Some (Inl (SenderNoEOA sender), p)
                 else
                   let (expected_nonce, s) = get_nonce db (pr_state p) sender; p = with_state p s
                   in if expected_nonce \<noteq> tx_nonce txn
                      then Some (Inl (WrongNonce sender expected_nonce (tx_nonce txn)), p)
                      else
                        let max_gas_cost = ucast (tx_gas_limit txn) * ucast (max_fee_per_gas txn) :: u512;
                            v0 = max_gas_cost + ucast (tx_value txn);
                            (balance, s) = ibs_get_balance db (pr_state p) sender; p = with_state p s;
                            available_balance = ucast balance
                        in if available_balance < v0 then Some (Inl (InsufficientFunds sender available_balance v0), p)
                           else if available_gas env p < tx_gas_limit txn
                           then Some (Inl (BlockGasLimitExceeded (available_gas env p) (tx_gas_limit txn)), p)
                           else Some (Inr (), p)))"

definition access_entries :: "AccessListItem list \<Rightarrow> IntraBlockState \<Rightarrow> IntraBlockState" where
  "access_entries al s = fold (\<lambda>e s.
     fold (\<lambda>key s. snd (ibs_access_storage s (al_address e) key)) (al_slots e) (snd (ibs_access_account s (al_address e)))) al s"

definition max_refund_quotient :: "Revision \<Rightarrow> u64" where
  "max_refund_quotient r = (if r \<ge> London then MAX_REFUND_QUOTIENT_LONDON else MAX_REFUND_QUOTIENT_FRONTIER)"

definition refunded_gas :: "Revision \<Rightarrow> IntraBlockState \<Rightarrow> u64 \<Rightarrow> u64 \<Rightarrow> u64" where
  "refunded_gas r s gas_limit left_gas =
     (let rf = refund s;
          rf = (if r < London then rf + R_SELF_DESTRUCT * of_nat (number_of_self_destructs s) else rf);
          max_refund = (gas_limit - left_gas) div max_refund_quotient r
      in left_gas + min rf max_refund)"

definition refund_gas :: "'c Env \<Rightarrow> MessageWithSender \<Rightarrow> IntraBlockState \<Rightarrow> u64 \<Rightarrow> (u64 \<times> IntraBlockState) option" where
  "refund_gas env txn s left_gas = do {
     let left_gas = refunded_gas (env_revision env) s (tx_gas_limit (tm_message txn)) left_gas;
     price \<leftarrow> effective_gas_price (tm_message txn) (env_base_fee env);
     s \<leftarrow> add_to_balance (env_db env) s (tm_sender txn) (ucast left_gas * price);
     Some (left_gas, s) }"

text \<open>The steps before the EVM runs: the gas is bought, the nonce of a call counted, the access list warmed.\<close>

definition buy_gas :: "'c Env \<Rightarrow> MessageWithSender \<Rightarrow> IntraBlockState \<Rightarrow> IntraBlockState option" where
  "buy_gas env txn s = do {
     let db = env_db env;
     let m = tm_message txn;
     let s = clear_journal_and_substate s;
     let s = snd (ibs_access_account s (tm_sender txn));
     price \<leftarrow> effective_gas_price m (env_base_fee env);
     s \<leftarrow> subtract_from_balance db s (tm_sender txn) (ucast (tx_gas_limit m) * price);
     s \<leftarrow> (case tx_action m of
         ActionCall to \<Rightarrow> set_nonce db (snd (ibs_access_account s to)) (tm_sender txn) (tx_nonce m + 1)
       | ActionCreate \<Rightarrow> Some s);
     Some (access_entries (tx_access_list m) s) }"

definition u64_of_i64 :: "int \<Rightarrow> u64" where
  "u64_of_i64 i = of_int i"

text \<open>The steps after it: the unused gas is given back, the miner paid, dead accounts destructed.\<close>

definition settle_transaction ::
  "'c Env \<Rightarrow> MessageWithSender \<Rightarrow> CallResult \<Rightarrow> IntraBlockState \<Rightarrow> (u64 \<times> IntraBlockState) option" where
  "settle_transaction env txn res s = do {
     let db = env_db env;
     let m = tm_message txn;
     (left_gas, s) \<leftarrow> refund_gas env txn s (u64_of_i64 (cr_gas_left res));
     let gas_used = tx_gas_limit m - left_gas;
     priority_fee \<leftarrow> priority_fee_per_gas m (env_base_fee env);
     s \<leftarrow> add_to_balance db s (ph_beneficiary (env_header env)) (ucast gas_used * priority_fee);
     let s = destruct_selfdestructs db s;
     let s = (if env_revision env \<ge> Spurious then destruct_touched_dead db s else s);
     Some (gas_used, finalize_transaction s) }"

definition execute_transaction ::
  "'c Env \<Rightarrow> 'c Processor \<Rightarrow> MessageWithSender \<Rightarrow> ((ValidationError + Receipt) \<times> 'c Processor) option" where
  "execute_transaction env p txn = do {
     let m = tm_message txn;
     let r = env_revision env;
     s \<leftarrow> buy_gas env txn (pr_state p);
     let p = with_state p s;
     let g0 = intrinsic_gas m (r \<ge> Homestead) (r \<ge> Istanbul);
     if ucast (tx_gas_limit m) < g0 then Some (Inl IntrinsicGas, p)
     else do {
       let gas = ucast (ucast (tx_gas_limit m) - g0);
       (res, e) \<leftarrow> evmglue_execute (with_txn env txn) gas (pr_evm p);
       (gas_used, s) \<leftarrow> settle_transaction env txn res (evm_state e);
       let p = p\<lparr>pr_evm := e\<lparr>evm_state := s\<rparr>, pr_cumulative_gas_used := pr_cumulative_gas_used p + gas_used\<rparr>;
       Some (Inr \<lparr>rc_tx_type = tx_type m, rc_success = (cr_status_code res = Success),
                  rc_cumulative_gas_used = pr_cumulative_gas_used p, rc_bloom = logs_bloom (env_lib env) (logs s),
                  rc_logs = logs s\<rparr>, p) } }"

section \<open>Blocks\<close>

fun run_transactions ::
  "'c Env \<Rightarrow> MessageWithSender list \<Rightarrow> 'c Processor \<Rightarrow> Receipt list \<Rightarrow> ((ValidationError + Receipt list) \<times> 'c Processor) option" where
  "run_transactions env [] p receipts = Some (Inr receipts, p)"
| "run_transactions env (txn # txns) p receipts = do {
     r \<leftarrow> validate_transaction env p txn;
     try_host r (\<lambda>_ p. do {
       r \<leftarrow> execute_transaction env p txn;
       try_host r (\<lambda>receipt p. run_transactions env txns p (receipts @ [receipt])) }) }"

definition apply_change :: "Database \<Rightarrow> FinalizationChange \<Rightarrow> IntraBlockState \<Rightarrow> IntraBlockState option" where
  "apply_change db c s = (case c of Reward a amount \<Rightarrow> add_to_balance db s a amount)"

fun apply_changes :: "Database \<Rightarrow> FinalizationChange list \<Rightarrow> IntraBlockState \<Rightarrow> IntraBlockState option" where
  "apply_changes db [] s = Some s"
| "apply_changes db (c # cs) s = do { s \<leftarrow> apply_change db c s; apply_changes db cs s }"

fun set_balances :: "Database \<Rightarrow> (address \<times> u256) list \<Rightarrow> IntraBlockState \<Rightarrow> IntraBlockState option" where
  "set_balances db [] s = Some s"
| "set_balances db ((a, b) # bs) s = do { s \<leftarrow> set_balance db s a b; set_balances db bs s }"

text \<open>The balance changes are those of a hash map; the model takes its addresses in increasing order.\<close>

definition balance_list :: "(address \<rightharpoonup> u256) \<Rightarrow> (address \<times> u256) list" where
  "balance_list m = map (\<lambda>a. (a, the (m a))) (sorted_list_of_set (dom m))"

definition execute_block_no_post_validation ::
  "'c Env \<Rightarrow> BlockBodyWithSenders \<Rightarrow> 'c Processor \<Rightarrow> ((ValidationError + Receipt list) \<times> 'c Processor) option" where
  "execute_block_no_post_validation env block p = do {
     let db = env_db env;
     s \<leftarrow> set_balances db (balance_list (bs_balance_changes (env_spec env))) (pr_state p);
     r \<leftarrow> run_transactions env (bws_transactions block) (with_state p s) [];
     try_host r (\<lambda>receipts p. do {
       s \<leftarrow> apply_changes db (finalize (env_header env) (bws_ommers block) (env_revision env)) (pr_state p);
       Some (Inr receipts, with_state p s) }) }"

fun per_transaction_gas :: "nat \<Rightarrow> u64 \<Rightarrow> Receipt list \<Rightarrow> (nat \<times> u64) list" where
  "per_transaction_gas i last_gas_used [] = []"
| "per_transaction_gas i last_gas_used (r # rs) =
     (i, rc_cumulative_gas_used r - last_gas_used) # per_transaction_gas (Suc i) (rc_cumulative_gas_used r) rs"

definition execute_and_write_block ::
  "(Receipt list \<Rightarrow> h256) \<Rightarrow> (u64 \<Rightarrow> IntraBlockState \<Rightarrow> 'w) \<Rightarrow> 'c Env \<Rightarrow> BlockBodyWithSenders \<Rightarrow> 'c Processor
   \<Rightarrow> (ValidationError + Receipt list \<times> 'w) option" where
  "execute_and_write_block root_hash write_to_db env block p = do {
     (r, p) \<leftarrow> execute_block_no_post_validation env block p;
     try_then r (\<lambda>receipts.
       let header = env_header env;
           gas_used = (if receipts = [] then 0 else rc_cumulative_gas_used (last receipts));
           expected_logs_bloom = fold (\<lambda>r b. or b (rc_bloom r)) receipts 0
       in if gas_used \<noteq> ph_gas_used header
          then Some (Inl (WrongBlockGas (ph_gas_used header) gas_used (per_transaction_gas 0 0 receipts)))
          else if env_revision env \<ge> Byzantium \<and> root_hash receipts \<noteq> ph_receipts_root header
          then Some (Inl (WrongReceiptsRoot (root_hash receipts) (ph_receipts_root header)))
          else if expected_logs_bloom \<noteq> ph_logs_bloom header
          then Some (Inl (WrongLogsBloom expected_logs_bloom (ph_logs_bloom header)))
          else Some (Inr (receipts, write_to_db (ph_number header) (pr_state p)))) }"

end
