(* ===== verification/ProcessorSafety.thy ===== *)
theory ProcessorSafety
  imports Processor
begin

text \<open>
  Executing the transactions of a block: nothing panics once the transactions are pre-validated, the
  gas of the block stays within its limit, and only the block reward makes ether.
\<close>

section \<open>Supply and single operations\<close>

lemma add_to_balance_supply:
  assumes "state_good db s" "total_supply db s + unat v < 2 ^ 256"
  shows "returns (\<lambda>t. state_good db t \<and> total_supply db t = total_supply db s + unat v) (add_to_balance db s a v)"
  unfolding add_to_balance_def
proof (rule returns_mono [OF update_balance_good [OF assms(1)]], elim conjE, intro conjI)
  fix t assume "state_good db t" and v: "account_view db t = (account_view db s)(a \<mapsto> (account_or_default (account_view db s a))
        \<lparr>acc_balance := acc_balance (account_or_default (account_view db s a)) + v\<rparr>)"
  then show "state_good db t" by simp
  have "balance_of (account_view db s a) + unat v < 2 ^ 256"
    using balance_le_total [of "account_view db s" a] assms(2) by (simp add: total_supply_def)
  then have "unat (acc_balance (account_or_default (account_view db s a)) + v) = balance_of (account_view db s a) + unat v"
    using unat_add_lem [of "acc_balance (account_or_default (account_view db s a))" v] by (simp add: balance_value)
  then have "balance_of (account_view db t a) = balance_of (account_view db s a) + unat v" by (simp add: v balance_of_def)
  then show "total_supply db t = total_supply db s + unat v"
    using total_upd [of "account_view db s" a "account_view db t a"] by (simp add: total_supply_def v)
qed

lemma subtract_from_balance_supply:
  assumes "state_good db s" "v \<le> fst (ibs_get_balance db s a)"
  shows "returns (\<lambda>t. state_good db t \<and> total_supply db t + unat v = total_supply db s) (subtract_from_balance db s a v)"
  unfolding subtract_from_balance_def
proof (rule returns_mono [OF update_balance_good [OF assms(1)]], elim conjE, intro conjI)
  fix t assume "state_good db t" and v: "account_view db t = (account_view db s)(a \<mapsto> (account_or_default (account_view db s a))
        \<lparr>acc_balance := acc_balance (account_or_default (account_view db s a)) - v\<rparr>)"
  then show "state_good db t" by simp
  have le: "unat v \<le> balance_of (account_view db s a)" using assms(2) by (simp add: word_le_nat_alt balance_read)
  then have "v \<le> acc_balance (account_or_default (account_view db s a))" by (simp add: word_le_nat_alt balance_value)
  then have "balance_of (account_view db t a) = balance_of (account_view db s a) - unat v"
    by (simp add: v balance_of_def [of "Some _"] unat_sub balance_value)
  then show "total_supply db t + unat v = total_supply db s"
    using total_upd [of "account_view db s" a "account_view db t a"] le by (simp add: total_supply_def v)
qed

definition shrinks :: "Database \<Rightarrow> IntraBlockState \<Rightarrow> IntraBlockState \<Rightarrow> bool" where
  "shrinks db s t \<longleftrightarrow> (state_good db s \<longrightarrow> state_good db t) \<and> total_supply db t \<le> total_supply db s"

lemma shrinks_trans: "shrinks db s t \<Longrightarrow> shrinks db t u \<Longrightarrow> shrinks db s u"
  by (auto simp: shrinks_def)

lemma destruct_shrinks: "shrinks db s (destruct db s a)"
proof -
  define s0 where "s0 = s\<lparr>incarnations := (incarnations s)(a \<mapsto> or_default (incarnations s) a 0 + 1),
                storage := (storage s)(a := None)\<rparr>"
  obtain obj s1 where g: "get_object db s0 a = (obj, s1)" by fastforce
  have d: "destruct db s a = (case obj of Some obj \<Rightarrow> put_object s1 a (obj\<lparr>obj_current := None\<rparr>) | None \<Rightarrow> s1)"
    unfolding destruct_def s0_def [symmetric] Let_def g by (simp split: option.splits)
  have "state_good db (destruct db s a)" if "state_good db s"
  proof -
    have "state_good db s0" using that by (simp add: state_good_def s0_def ibs_ok_def)
    then have 1: "state_good db s1" using get_object_quiet [of db s0 a] by (auto simp: g quiet_def)
    show ?thesis
    proof (cases obj)
      case (Some ob)
      then have "obj_initial ob = read_account db a"
        using 1 get_object_value [OF g] by (auto simp: state_good_def dest: ibs_ok_initial)
      then show ?thesis using 1 Some by (simp add: d state_good_def ibs_ok_put_object)
    qed (use 1 d in simp)
  qed
  moreover have "total_supply db (destruct db s a) \<le> total_supply db s"
    using total_upd [of "account_view db s" a None] by (simp add: total_supply_def destruct_views balance_of_def)
  ultimately show ?thesis by (simp add: shrinks_def)
qed

lemma is_dead_shrinks: "shrinks db s (snd (is_dead db s a))"
proof -
  have "account_view db (snd (get_object db s a)) = account_view db s"
    using restored_account [OF get_object_restored] by blast
  then show ?thesis using get_object_quiet [of db s a] by (auto simp: shrinks_def reads_state quiet_good total_supply_def)
qed

lemma fold_shrinks:
  assumes "\<And>a s. shrinks db s (f a s)"
  shows "shrinks db s (fold f as s)"
proof (induction as arbitrary: s)
  case (Cons a as)
  show ?case using shrinks_trans [OF assms Cons.IH] by simp
qed (simp add: shrinks_def)

lemma destructions_shrink:
  "shrinks db s (destruct_selfdestructs db s)" "shrinks db s (destruct_touched_dead db s)"
proof -
  show "shrinks db s (destruct_selfdestructs db s)"
    unfolding destruct_selfdestructs_def by (rule fold_shrinks) (rule destruct_shrinks)
  have "shrinks db t (case is_dead db t a of (dead, t) \<Rightarrow> if dead then destruct db t a else t)" for t a
    using is_dead_shrinks [of db t a] shrinks_trans [OF is_dead_shrinks destruct_shrinks, of db t a]
    by (auto split: prod.splits)
  then show "shrinks db s (destruct_touched_dead db s)"
    unfolding destruct_touched_dead_def by (rule fold_shrinks)
qed

lemma finalize_shrinks: "shrinks db s (finalize_transaction s)"
  by (simp add: shrinks_def finalize_account total_supply_def state_good_def) (simp add: finalize_transaction_def)

lemma clear_good: "state_good db s \<Longrightarrow> state_good db (clear_journal_and_substate s)"
  by (simp add: state_good_def clear_journal_and_substate_def ibs_ok_def)

lemma clear_views: "account_view db (clear_journal_and_substate s) = account_view db s"
  by (simp add: account_view_def clear_journal_and_substate_def fun_eq_iff)

lemma access_entries_quiet: "state_good db s \<Longrightarrow> quiet db s (access_entries al s)"
proof (induction al arbitrary: s)
  case Nil
  then show ?case by (simp add: access_entries_def quiet_refl)
next
  case (Cons e al)
  have slots: "state_good db t \<Longrightarrow> quiet db t (fold (\<lambda>key s. snd (ibs_access_storage s (al_address e) key)) ks t)" for ks t
    by (induction ks arbitrary: t) (auto intro: quiet_refl quiet_trans marks_quiet(2) quiet_good)
  let ?t = "snd (ibs_access_account s (al_address e))"
  have 1: "quiet db s ?t" by (rule marks_quiet(1) [OF Cons.prems])
  have 2: "quiet db s (fold (\<lambda>key s. snd (ibs_access_storage s (al_address e) key)) (al_slots e) ?t)"
    using quiet_trans [OF 1 slots [OF quiet_good [OF 1]]] .
  show ?case using quiet_trans [OF 2 Cons.IH [OF quiet_good [OF 2]]] by (simp add: access_entries_def)
qed

section \<open>Gas\<close>

lemma refunded_gas_bounds:
  assumes "left \<le> limit"
  shows "unat left \<le> unat (refunded_gas r s limit left)" "unat (refunded_gas r s limit left) \<le> unat limit"
    "unat (refunded_gas r s limit left) \<le> unat left + (unat limit - unat left) div unat (max_refund_quotient r)"
proof -
  define m where "m = (limit - left) div max_refund_quotient r"
  define n where "n = min (if r < London then refund s + R_SELF_DESTRUCT * of_nat (number_of_self_destructs s) else refund s) m"
  have d: "unat (limit - left) = unat limit - unat left" using assms by (rule unat_sub)
  have m: "unat m = (unat limit - unat left) div unat (max_refund_quotient r)" by (simp add: m_def unat_div d)
  have "n \<le> m" unfolding n_def by (rule min.cobounded2)
  then have nm: "unat n \<le> unat m" by (simp add: word_le_nat_alt)
  have ml: "unat m \<le> unat limit - unat left" by (simp add: m)
  have le: "unat left \<le> unat limit" using assms by (simp add: word_le_nat_alt)
  have "unat limit < 2 ^ 64" using unsigned_less [where 'a = nat, of limit] by simp
  then have "unat left + unat n < 2 ^ 64" using nm ml le by linarith
  then have "unat (left + n) = unat left + unat n" using unat_add_lem [of left n] by simp
  then have v: "unat (refunded_gas r s limit left) = unat left + unat n"
    by (simp add: refunded_gas_def Let_def n_def m_def)
  show "unat left \<le> unat (refunded_gas r s limit left)" "unat (refunded_gas r s limit left) \<le> unat limit"
    "unat (refunded_gas r s limit left) \<le> unat left + (unat limit - unat left) div unat (max_refund_quotient r)"
    unfolding v using nm ml le m by linarith+
qed

text \<open>The price of the gas, and the part of it the miner gets.\<close>

lemma priority_fee_le_price:
  assumes "effective_gas_price m b = Some price" "priority_fee_per_gas m b = Some prio"
  shows "unat prio \<le> unat price" "unat price \<le> unat (max_fee_per_gas m)"
proof -
  have "price = prio + b" using assms by (simp add: effective_gas_price_def)
  moreover have r: "b \<le> price" "price \<le> max_fee_per_gas m" using effective_gas_price_range [OF assms(1)] by auto
  ultimately have "unat prio = unat price - unat b" using unat_sub [OF r(1)] by simp
  then show "unat prio \<le> unat price" "unat price \<le> unat (max_fee_per_gas m)" using r(2) by (simp_all add: word_le_nat_alt)
qed

lemma unat_fee:
  assumes "unat (g :: u64) * unat (price :: u256) < 2 ^ 256"
  shows "unat (ucast g * price) = unat g * unat price"
  using assms unat_mult_lem [of "ucast g" price] by simp

section \<open>The environment of a block and the invariant of the processor\<close>

definition block_ok :: "'c Env \<Rightarrow> bool" where
  "block_ok env \<longleftrightarrow> lru_ok (env_lru env) \<and> precompiles_ok env
     \<and> (\<forall>h. length (read_code (env_db env) h) < 2 ^ 63) \<and> unat (ph_gas_limit (env_header env)) < 2 ^ 63
     \<and> (\<exists>hash. headers_linked (env_db env) (unat (ph_number (env_header env))) (ph_parent_hash (env_header env)) hash)"

definition tx_ok :: "'c Env \<Rightarrow> MessageWithSender \<Rightarrow> bool" where
  "tx_ok env txn \<longleftrightarrow> pre_validate_transaction (tm_message txn) (pa_chain_id (bs_params (env_spec env)))
       (ph_base_fee_per_gas (env_header env)) = Inr () \<and> length (tx_input (tm_message txn)) < 2 ^ 63"

definition proc_ok :: "'c Env \<Rightarrow> 'c Processor \<Rightarrow> bool" where
  "proc_ok env p \<longleftrightarrow> cache_ok env (evm_cache (pr_evm p)) \<and> state_good (env_db env) (pr_state p)
     \<and> pr_cumulative_gas_used p \<le> ph_gas_limit (env_header env) \<and> total_supply (env_db env) (pr_state p) < 2 ^ 256"

lemma tx_base_fee:
  assumes "tx_ok env txn"
  shows "env_base_fee env \<le> max_fee_per_gas (tm_message txn)"
    "\<exists>price. effective_gas_price (tm_message txn) (env_base_fee env) = Some price"
    "\<exists>prio. priority_fee_per_gas (tm_message txn) (env_base_fee env) = Some prio"
proof -
  show 1: "env_base_fee env \<le> max_fee_per_gas (tm_message txn)"
    using assms by (auto simp: tx_ok_def pre_validate_transaction_def env_base_fee_def split: option.splits if_splits)
  then show "\<exists>price. effective_gas_price (tm_message txn) (env_base_fee env) = Some price"
    "\<exists>prio. priority_fee_per_gas (tm_message txn) (env_base_fee env) = Some prio"
    by (simp_all add: effective_gas_price_def priority_fee_per_gas_def)
qed

lemma with_txn_simps [simp]:
  "env_db (with_txn env txn) = env_db env" "env_lru (with_txn env txn) = env_lru env" "env_header (with_txn env txn) = env_header env"
  "env_spec (with_txn env txn) = env_spec env" "env_txn (with_txn env txn) = txn" "env_contracts (with_txn env txn) = env_contracts env"
  "env_lib (with_txn env txn) = env_lib env"
  by (simp_all add: with_txn_def)

lemma with_txn_ok: "block_ok env \<Longrightarrow> tx_ok env txn \<Longrightarrow> env_ok (with_txn env txn)"
  using tx_base_fee(1) [of env txn]
  by (simp add: block_ok_def env_ok_def precompiles_ok_def env_base_fee_def tx_ok_def)

lemma with_state_simps [simp]:
  "pr_state (with_state p s) = s" "evm_cache (pr_evm (with_state p s)) = evm_cache (pr_evm p)"
  "pr_cumulative_gas_used (with_state p s) = pr_cumulative_gas_used p"
  by (simp_all add: with_state_def)

lemma proc_ok_quiet: "proc_ok env p \<Longrightarrow> quiet (env_db env) (pr_state p) s \<Longrightarrow> proc_ok env (with_state p s)"
  using same_core_supply [of "env_db env" "pr_state p" s] by (auto simp: proc_ok_def quiet_def)

text \<open>A processor in which the transaction may run: the sender can pay and the block has the gas.\<close>

definition may_run :: "'c Env \<Rightarrow> 'c Processor \<Rightarrow> MessageWithSender \<Rightarrow> bool" where
  "may_run env p txn \<longleftrightarrow>
     unat (tx_gas_limit (tm_message txn)) * unat (max_fee_per_gas (tm_message txn)) + unat (tx_value (tm_message txn))
       \<le> unat (fst (ibs_get_balance (env_db env) (pr_state p) (tm_sender txn)))
     \<and> fst (get_nonce (env_db env) (pr_state p) (tm_sender txn)) = tx_nonce (tm_message txn)
     \<and> unat (pr_cumulative_gas_used p) + unat (tx_gas_limit (tm_message txn)) \<le> unat (ph_gas_limit (env_header env))"

lemma may_run_same:
  assumes "same_core (env_db env) (pr_state p) (pr_state p')" "pr_cumulative_gas_used p' = pr_cumulative_gas_used p" "may_run env p txn"
  shows "may_run env p' txn"
  using assms by (simp add: may_run_def same_core_def reads_value)

lemma u512_cost:
  fixes g :: u64 and f v b :: u256
  shows "(ucast b :: u512) < ucast g * ucast f + ucast v \<longleftrightarrow> unat b < unat g * unat f + unat v"
proof -
  have u: "unat (ucast w :: u512) = unat w" if "unat w < 2 ^ 512" for w :: "'a::len word"
    using that by (simp add: unsigned_ucast_eq take_bit_eq_mod)
  have l: "unat g < 2 ^ 64" "unat f < 2 ^ 256" "unat v < 2 ^ 256" "unat b < 2 ^ 256"
    using unsigned_less [where 'a = nat, of g] unsigned_less [where 'a = nat, of f]
      unsigned_less [where 'a = nat, of v] unsigned_less [where 'a = nat, of b] by simp_all
  then have p: "unat g * unat f < 2 ^ 64 * 2 ^ 256" by (intro mult_strict_mono) simp_all
  then have m: "unat (ucast g * ucast f :: u512) = unat g * unat f"
    using l unat_mult_lem [of "ucast g :: u512" "ucast f"] by (simp add: u)
  have "unat (ucast g * ucast f + ucast v :: u512) = unat g * unat f + unat v"
    using l p unat_add_lem [of "ucast g * ucast f :: u512" "ucast v"] by (simp add: u m)
  then show ?thesis using l by (simp add: word_less_nat_alt u)
qed

lemma validate_transaction_ok:
  assumes "proc_ok env p" "tx_ok env txn"
  shows "returns (\<lambda>(r, p'). proc_ok env p' \<and> same_core (env_db env) (pr_state p) (pr_state p')
      \<and> pr_cumulative_gas_used p' = pr_cumulative_gas_used p
      \<and> (r = Inr () \<longleftrightarrow> fst (ibs_get_code_hash (env_db env) (pr_state p) (tm_sender txn)) = EMPTY_HASH \<and> may_run env p txn))
    (validate_transaction env p txn)"
proof -
  let ?db = "env_db env" and ?a = "tm_sender txn"
  define ok where "ok p' \<longleftrightarrow> proc_ok env p' \<and> same_core ?db (pr_state p) (pr_state p')
    \<and> pr_cumulative_gas_used p' = pr_cumulative_gas_used p" for p'
  have step: "ok (with_state p' s)" if "ok p'" "quiet ?db (pr_state p') s" for p' s
    using that proc_ok_quiet same_core_trans by (auto simp: ok_def quiet_def)
  have good: "state_good ?db (pr_state p')" if "ok p'" for p' using that by (simp add: ok_def proc_ok_def)
  define p1 where "p1 = with_state p (snd (ibs_get_code_hash ?db (pr_state p) ?a))"
  define p2 where "p2 = with_state p1 (snd (get_nonce ?db (pr_state p1) ?a))"
  define p3 where "p3 = with_state p2 (snd (ibs_get_balance ?db (pr_state p2) ?a))"
  have 0: "ok p" using assms(1) by (simp add: ok_def)
  have 1: "ok p1" unfolding p1_def by (rule step [OF 0 reads_quiet(5) [OF good [OF 0]]])
  have 2: "ok p2" unfolding p2_def by (rule step [OF 1 reads_quiet(4) [OF good [OF 1]]])
  have 3: "ok p3" unfolding p3_def by (rule step [OF 2 reads_quiet(3) [OF good [OF 2]]])
  have v: "account_view ?db (pr_state p1) = account_view ?db (pr_state p)" "account_view ?db (pr_state p2) = account_view ?db (pr_state p)"
    using 1 2 by (simp_all add: ok_def same_core_def)
  have avail: "unat (available_gas env p3) = unat (ph_gas_limit (env_header env)) - unat (pr_cumulative_gas_used p)"
    "unat (pr_cumulative_gas_used p) \<le> unat (ph_gas_limit (env_header env))"
    using 3 unat_sub [of "pr_cumulative_gas_used p" "ph_gas_limit (env_header env)"]
    unfolding available_gas_def ok_def proc_ok_def word_le_nat_alt by metis+
  have run: "may_run env p txn \<longleftrightarrow> fst (get_nonce ?db (pr_state p1) ?a) = tx_nonce (tm_message txn)
      \<and> \<not> (ucast (fst (ibs_get_balance ?db (pr_state p2) ?a)) :: u512)
         < ucast (tx_gas_limit (tm_message txn)) * ucast (max_fee_per_gas (tm_message txn)) + ucast (tx_value (tm_message txn))
      \<and> \<not> available_gas env p3 < tx_gas_limit (tm_message txn)"
    using avail v unfolding may_run_def u512_cost by (auto simp: reads_value word_less_nat_alt)
  show ?thesis
    unfolding validate_transaction_def Let_def case_prod_unfold p1_def [symmetric] p2_def [symmetric] p3_def [symmetric]
    using assms(2) 1 2 3 run by (auto simp: tx_ok_def ok_def)
qed

section \<open>One transaction\<close>

lemma buy_gas_ok:
  assumes good: "state_good db s" and price: "effective_gas_price (tm_message txn) (env_base_fee env) = Some price"
    and db: "db = env_db env" and small: "total_supply db s < 2 ^ 256"
    and pays: "unat (tx_gas_limit (tm_message txn)) * unat price \<le> unat (fst (ibs_get_balance db s (tm_sender txn)))"
  shows "returns (\<lambda>t. state_good db t \<and> total_supply db t + unat (tx_gas_limit (tm_message txn)) * unat price \<le> total_supply db s)
    (buy_gas env txn s)"
proof -
  let ?m = "tm_message txn" and ?a = "tm_sender txn"
  let ?cost = "unat (tx_gas_limit ?m) * unat price"
  define s1 where "s1 = snd (ibs_access_account (clear_journal_and_substate s) ?a)"
  have q1: "quiet db (clear_journal_and_substate s) s1" unfolding s1_def by (rule marks_quiet(1) [OF clear_good [OF good]])
  then have v1: "account_view db s1 = account_view db s" by (simp add: quiet_def same_core_def clear_views)
  then have p1: "?cost \<le> unat (fst (ibs_get_balance db s1 ?a))" "total_supply db s1 = total_supply db s"
    using pays by (simp_all add: reads_value total_supply_def)
  have "?cost < 2 ^ 256" using pays unsigned_less [where 'a = nat, of "fst (ibs_get_balance db s ?a)"] by simp
  then have c: "unat (ucast (tx_gas_limit ?m) * price) = ?cost" by (rule unat_fee)
  then have "ucast (tx_gas_limit ?m) * price \<le> fst (ibs_get_balance db s1 ?a)" using p1(1) by (simp add: word_le_nat_alt)
  from subtract_from_balance_supply [OF quiet_good [OF q1] this]
  have 2: "returns (\<lambda>t. state_good db t \<and> total_supply db t + ?cost = total_supply db s)
      (subtract_from_balance db s1 ?a (ucast (tx_gas_limit ?m) * price))" by (simp add: c p1(2))
  have 3: "returns (\<lambda>t. state_good db t \<and> total_supply db t + ?cost \<le> total_supply db s)
      (case tx_action ?m of ActionCall to \<Rightarrow> set_nonce db (snd (ibs_access_account s2 to)) ?a (tx_nonce ?m + 1) | ActionCreate \<Rightarrow> Some s2)"
    if "state_good db s2 \<and> total_supply db s2 + ?cost = total_supply db s" for s2
  proof (cases "tx_action ?m")
    case (ActionCall to)
    have q: "quiet db s2 (snd (ibs_access_account s2 to))" by (rule marks_quiet(1)) (use that in simp)
    then have "total_supply db (snd (ibs_access_account s2 to)) = total_supply db s2" by (simp add: quiet_def same_core_supply)
    then show ?thesis using that small ActionCall
      by (auto intro!: returns_mono [OF set_nonce_advances [OF quiet_good [OF q]]] simp: advances_def)
  qed (use that in simp)
  have 4: "state_good db (access_entries al t) \<and> total_supply db (access_entries al t) = total_supply db t" if "state_good db t" for al t
    using access_entries_quiet [OF that] by (auto simp: quiet_def same_core_supply)
  show ?thesis unfolding buy_gas_def Let_def price db [symmetric] s1_def [symmetric] bind.bind_lunit
    by (subst returns_bind, rule returns_mono [OF 2], subst returns_bind, rule returns_mono [OF 3], assumption)
      (use 4 in auto)
qed

lemma unat_of_i64: "0 \<le> i \<Longrightarrow> i < 2 ^ 63 \<Longrightarrow> unat (u64_of_i64 i) = nat i"
  by (simp add: u64_of_i64_def unat_eq_nat_uint uint_word_of_int)

lemma settle_transaction_ok:
  assumes good: "state_good db s" and db: "db = env_db env"
    and price: "effective_gas_price (tm_message txn) (env_base_fee env) = Some price"
      "priority_fee_per_gas (tm_message txn) (env_base_fee env) = Some prio"
    and gas: "0 \<le> cr_gas_left res" "cr_gas_left res \<le> int (unat (tx_gas_limit (tm_message txn)))"
      "unat (tx_gas_limit (tm_message txn)) < 2 ^ 63"
    and S: "total_supply db s + unat (tx_gas_limit (tm_message txn)) * unat price \<le> T" "T < 2 ^ 256"
  shows "returns (\<lambda>(used, t). state_good db t \<and> total_supply db t \<le> T \<and> unat used \<le> unat (tx_gas_limit (tm_message txn)))
    (settle_transaction env txn res s)"
proof -
  let ?m = "tm_message txn" and ?a = "tm_sender txn"
  let ?L = "tx_gas_limit ?m"
  define g where "g = refunded_gas (env_revision env) s ?L (u64_of_i64 (cr_gas_left res))"
  have "int (unat ?L) < 2 ^ 63" using gas(3) by (metis of_nat_less_iff of_nat_numeral of_nat_power)
  then have "unat (u64_of_i64 (cr_gas_left res)) = nat (cr_gas_left res)" using gas by (intro unat_of_i64) linarith+
  then have "u64_of_i64 (cr_gas_left res) \<le> ?L" using gas(2) by (simp add: word_le_nat_alt nat_le_iff)
  then have gL: "unat g \<le> unat ?L" unfolding g_def by (rule refunded_gas_bounds(2))
  then have used: "unat (?L - g) = unat ?L - unat g" by (intro unat_sub) (simp add: word_le_nat_alt)
  note pf = priority_fee_le_price [OF price]
  have split: "unat ?L * unat price = unat g * unat price + (unat ?L - unat g) * unat price"
    using gL by (simp flip: distrib_right)
  have prio: "(unat ?L - unat g) * unat prio \<le> (unat ?L - unat g) * unat price" using pf(1) by simp
  have b1: "unat g * unat price < 2 ^ 256" using S split by linarith
  have b2: "(unat ?L - unat g) * unat prio < 2 ^ 256" using S split prio by linarith
  have u1: "unat (ucast g * price) = unat g * unat price" using b1 by (rule unat_fee)
  have u2: "unat (ucast (?L - g) * prio) = (unat ?L - unat g) * unat prio" using unat_fee [of "?L - g" prio] b2 by (simp add: used)
  have 1: "returns (\<lambda>t. state_good db t \<and> total_supply db t = total_supply db s + unat g * unat price)
      (add_to_balance db s ?a (ucast g * price))"
    using add_to_balance_supply [OF good, of "ucast g * price" ?a] S split by (simp add: u1)
  have 2: "returns (\<lambda>t. state_good db t \<and> total_supply db t \<le> T) (add_to_balance db s1 b (ucast (?L - g) * prio))"
    if "state_good db s1 \<and> total_supply db s1 = total_supply db s + unat g * unat price" for s1 b
  proof -
    have le: "total_supply db s1 + (unat ?L - unat g) * unat prio \<le> T" using that S split prio by linarith
    then have "total_supply db s1 + unat (ucast (?L - g) * prio) < 2 ^ 256" using S(2) unfolding u2 by linarith
    with that show ?thesis using le by (intro returns_mono [OF add_to_balance_supply]) (auto simp: u2)
  qed
  have 3: "state_good db (finalize_transaction (if c then destruct_touched_dead db (destruct_selfdestructs db t) else destruct_selfdestructs db t))
      \<and> total_supply db (finalize_transaction (if c then destruct_touched_dead db (destruct_selfdestructs db t) else destruct_selfdestructs db t)) \<le> T"
    if "state_good db t \<and> total_supply db t \<le> T" for t c
  proof -
    have "shrinks db t (finalize_transaction (if c then destruct_touched_dead db (destruct_selfdestructs db t) else destruct_selfdestructs db t))"
      using shrinks_trans [OF shrinks_trans [OF destructions_shrink(1) destructions_shrink(2)] finalize_shrinks]
        shrinks_trans [OF destructions_shrink(1) finalize_shrinks] by simp
    then show ?thesis using that by (auto simp: shrinks_def)
  qed
  have u: "unat (?L - g) \<le> unat ?L" by (simp add: used)
  show ?thesis
    unfolding settle_transaction_def refund_gas_def Let_def price db [symmetric] g_def [symmetric] bind.bind_lunit
    unfolding bind_assoc bind.bind_lunit prod.case
    by (subst returns_bind, rule returns_mono [OF 1], subst returns_bind, rule returns_mono [OF 2], assumption)
      (use 3 u in auto)
qed

lemma execute_transaction_ok:
  assumes block: "block_ok env" and p: "proc_ok env p" and tx: "tx_ok env txn" and run: "may_run env p txn"
  shows "returns (\<lambda>(r, p'). (\<forall>receipt. r = Inr receipt \<longrightarrow> proc_ok env p'
        \<and> total_supply (env_db env) (pr_state p') \<le> total_supply (env_db env) (pr_state p)
        \<and> unat (pr_cumulative_gas_used p') \<le> unat (pr_cumulative_gas_used p) + unat (tx_gas_limit (tm_message txn))
        \<and> pr_cumulative_gas_used p \<le> pr_cumulative_gas_used p'
        \<and> rc_cumulative_gas_used receipt = pr_cumulative_gas_used p')
      \<and> (\<forall>err. r = Inl err \<longrightarrow> err = IntrinsicGas)) (execute_transaction env p txn)"
proof -
  let ?db = "env_db env" and ?m = "tm_message txn" and ?s = "pr_state p"
  let ?L = "tx_gas_limit ?m" and ?T = "total_supply ?db ?s" and ?C = "pr_cumulative_gas_used p"
  obtain price prio where price: "effective_gas_price ?m (env_base_fee env) = Some price" "priority_fee_per_gas ?m (env_base_fee env) = Some prio"
    using tx_base_fee(2,3) [OF tx] by blast
  have good: "state_good ?db ?s" and T: "?T < 2 ^ 256" and cache: "cache_ok env (evm_cache (pr_evm p))"
    using p by (simp_all add: proc_ok_def)
  have "unat ?L * unat price \<le> unat ?L * unat (max_fee_per_gas ?m)" using priority_fee_le_price(2) [OF price] by simp
  then have pays: "unat ?L * unat price \<le> unat (fst (ibs_get_balance ?db ?s (tm_sender txn)))"
    using run unfolding may_run_def by linarith
  have lim: "unat ?C + unat ?L \<le> unat (ph_gas_limit (env_header env))" "unat (ph_gas_limit (env_header env)) < 2 ^ 63"
    using run block by (simp_all add: may_run_def block_ok_def)
  define g0 where "g0 = intrinsic_gas ?m (env_revision env \<ge> Homestead) (env_revision env \<ge> Istanbul)"
  define gas where "gas = (ucast (ucast ?L - g0) :: u64)"
  have gas: "unat gas \<le> unat ?L" if "\<not> ucast ?L < g0"
  proof -
    have l: "unat ?L < 2 ^ 64" using unsigned_less [where 'a = nat, of ?L] by simp
    then have "unat (ucast ?L :: u128) = unat ?L" by (simp add: unsigned_ucast_eq take_bit_eq_mod)
    then have "unat (ucast ?L - g0) = unat ?L - unat g0" using unat_sub [of g0 "ucast ?L"] that by (simp add: not_less)
    then show ?thesis unfolding gas_def using l by (simp add: unsigned_ucast_eq take_bit_eq_mod)
  qed
  have fin: "returns (\<lambda>(r, p'). (\<forall>receipt. r = Inr receipt \<longrightarrow> proc_ok env p'
        \<and> total_supply ?db (pr_state p') \<le> ?T \<and> unat (pr_cumulative_gas_used p') \<le> unat ?C + unat ?L
        \<and> ?C \<le> pr_cumulative_gas_used p' \<and> rc_cumulative_gas_used receipt = pr_cumulative_gas_used p')
      \<and> (\<forall>err. r = Inl err \<longrightarrow> err = IntrinsicGas))
    (Option.bind (evmglue_execute (with_txn env txn) gas (pr_evm (with_state p s1))) (\<lambda>(res, e).
      Option.bind (settle_transaction env txn res (evm_state e)) (\<lambda>(gas_used, s).
        let p = (with_state p s1)\<lparr>pr_evm := e\<lparr>evm_state := s\<rparr>, pr_cumulative_gas_used := pr_cumulative_gas_used (with_state p s1) + gas_used\<rparr>
        in Some (Inr \<lparr>rc_tx_type = tx_type ?m, rc_success = (cr_status_code res = Success),
                  rc_cumulative_gas_used = pr_cumulative_gas_used p, rc_bloom = logs_bloom (env_lib env) (logs s),
                  rc_logs = logs s\<rparr>, p))))"
    if s1: "state_good ?db s1" "total_supply ?db s1 + unat ?L * unat price \<le> ?T" and g: "unat gas \<le> unat ?L" for s1
  proof -
    have "start_ok (with_txn env txn) gas (pr_evm (with_state p s1))"
      using with_txn_ok [OF block tx] s1(1) cache g lim by (simp add: start_ok_def evm_good_def cache_ok_def)
    note ex = evmglue_execute_ok [OF this]
    have st: "returns (\<lambda>(used, t). state_good ?db t \<and> total_supply ?db t \<le> ?T \<and> unat used \<le> unat ?L)
        (settle_transaction env txn res (evm_state e))"
      if "evm_inv (with_txn env txn) False s1 e" "0 \<le> cr_gas_left res" "cr_gas_left res \<le> int (unat gas)" for res e
    proof -
      have "state_good ?db (evm_state e)" using evm_inv_state [OF that(1)] by simp
      moreover have "total_supply ?db (evm_state e) \<le> total_supply ?db s1"
        using that(1) s1(2) T by (simp add: evm_inv_def advances_def)
      ultimately show ?thesis
        using that g lim s1(2) T by (intro settle_transaction_ok [OF _ refl price]) linarith+
    qed
    have cum: "unat (?C + used) = unat ?C + unat used" if "unat used \<le> unat ?L" for used
      using that lim unat_add_lem [of ?C used] by simp
    have "cache_ok env (evm_cache e)" if "evm_inv (with_txn env txn) False s1 e" for e
      using that by (simp add: evm_inv_def cache_ok_def)
    then show ?thesis
      unfolding returns_bind
      by (intro returns_mono [OF ex], clarify, unfold returns_bind, intro returns_mono [OF st])
        (use cum lim T in \<open>auto simp: proc_ok_def Let_def word_le_nat_alt\<close>)
  qed
  show ?thesis
    unfolding execute_transaction_def Let_def g0_def [symmetric] gas_def [symmetric]
    by (subst returns_bind, rule returns_mono [OF buy_gas_ok [OF good price(1) refl T pays]])
      (use fin gas in \<open>auto simp: Let_def simp del: returns_bind\<close>)
qed

section \<open>A block\<close>

definition block_post :: "'c Env \<Rightarrow> 'c Processor \<Rightarrow> Receipt list \<Rightarrow> (ValidationError + Receipt list) \<times> 'c Processor \<Rightarrow> bool" where
  "block_post env p done_receipts = (\<lambda>(r, p'). \<forall>receipts. r = Inr receipts \<longrightarrow> proc_ok env p'
     \<and> total_supply (env_db env) (pr_state p') \<le> total_supply (env_db env) (pr_state p)
     \<and> pr_cumulative_gas_used p \<le> pr_cumulative_gas_used p'
     \<and> (\<exists>rs. receipts = done_receipts @ rs
          \<and> sorted (map rc_cumulative_gas_used rs)
          \<and> (\<forall>r \<in> set rs. pr_cumulative_gas_used p \<le> rc_cumulative_gas_used r \<and> rc_cumulative_gas_used r \<le> pr_cumulative_gas_used p')))"

lemma block_post_cons:
  assumes "block_post env p2 (rs @ [receipt]) r" "proc_ok env p2"
    "total_supply (env_db env) (pr_state p2) \<le> total_supply (env_db env) (pr_state p)"
    "pr_cumulative_gas_used p \<le> pr_cumulative_gas_used p2" "rc_cumulative_gas_used receipt = pr_cumulative_gas_used p2"
  shows "block_post env p rs r"
proof -
  obtain res p' where r: "r = (res, p')" by force
  show ?thesis unfolding block_post_def r prod.case
  proof (intro allI impI)
    fix receipts assume "res = Inr receipts"
    with assms(1) obtain qs where q: "proc_ok env p'" "total_supply (env_db env) (pr_state p') \<le> total_supply (env_db env) (pr_state p2)"
      "pr_cumulative_gas_used p2 \<le> pr_cumulative_gas_used p'" "receipts = (rs @ [receipt]) @ qs" "sorted (map rc_cumulative_gas_used qs)"
      "\<forall>r \<in> set qs. pr_cumulative_gas_used p2 \<le> rc_cumulative_gas_used r \<and> rc_cumulative_gas_used r \<le> pr_cumulative_gas_used p'"
      unfolding block_post_def r prod.case by blast
    have "sorted (map rc_cumulative_gas_used (receipt # qs))" using q(5,6) assms(5) by simp
    moreover have "\<forall>r \<in> set (receipt # qs). pr_cumulative_gas_used p \<le> rc_cumulative_gas_used r \<and> rc_cumulative_gas_used r \<le> pr_cumulative_gas_used p'"
      using q(3,6) assms(4,5) by auto
    ultimately show "proc_ok env p' \<and> total_supply (env_db env) (pr_state p') \<le> total_supply (env_db env) (pr_state p)
      \<and> pr_cumulative_gas_used p \<le> pr_cumulative_gas_used p'
      \<and> (\<exists>qs. receipts = rs @ qs \<and> sorted (map rc_cumulative_gas_used qs)
          \<and> (\<forall>r \<in> set qs. pr_cumulative_gas_used p \<le> rc_cumulative_gas_used r \<and> rc_cumulative_gas_used r \<le> pr_cumulative_gas_used p'))"
      using q(1-4) assms(3,4) by (intro conjI exI [of _ "receipt # qs"]) auto
  qed
qed

lemma run_transactions_ok:
  assumes "block_ok env" "proc_ok env p" "\<forall>txn \<in> set txns. tx_ok env txn"
  shows "returns (block_post env p rs) (run_transactions env txns p rs)"
  using assms(2,3)
proof (induction txns arbitrary: p rs)
  case Nil
  then show ?case by (simp add: block_post_def)
next
  case (Cons txn txns)
  have tx: "tx_ok env txn" using Cons.prems(2) by simp
  have ex: "returns (block_post env p rs) (Option.bind (execute_transaction env p1 txn)
      (\<lambda>r. try_host r (\<lambda>receipt p. run_transactions env txns p (rs @ [receipt]))))"
    if p1: "proc_ok env p1" "same_core (env_db env) (pr_state p) (pr_state p1)"
      "pr_cumulative_gas_used p1 = pr_cumulative_gas_used p" "may_run env p txn" for p1
    unfolding returns_bind
  proof (rule returns_mono [OF execute_transaction_ok [OF assms(1) p1(1) tx may_run_same [OF p1(2-4)]]], clarify)
    fix r :: "ValidationError + Receipt" and p2 assume r: "\<forall>receipt. r = Inr receipt \<longrightarrow> proc_ok env p2
        \<and> total_supply (env_db env) (pr_state p2) \<le> total_supply (env_db env) (pr_state p1)
        \<and> unat (pr_cumulative_gas_used p2) \<le> unat (pr_cumulative_gas_used p1) + unat (tx_gas_limit (tm_message txn))
        \<and> pr_cumulative_gas_used p1 \<le> pr_cumulative_gas_used p2
        \<and> rc_cumulative_gas_used receipt = pr_cumulative_gas_used p2"
    show "returns (block_post env p rs) (try_host (r, p2) (\<lambda>receipt p. run_transactions env txns p (rs @ [receipt])))"
    proof (cases r)
      case (Inr receipt)
      have "returns (block_post env p2 (rs @ [receipt])) (run_transactions env txns p2 (rs @ [receipt]))"
        using Cons.IH [of p2 "rs @ [receipt]"] Cons.prems(2) r Inr by simp
      moreover have "total_supply (env_db env) (pr_state p1) = total_supply (env_db env) (pr_state p)"
        using same_core_supply [OF p1(2)] by simp
      ultimately have "returns (block_post env p rs) (run_transactions env txns p2 (rs @ [receipt]))"
        by (elim returns_mono block_post_cons) (use r Inr p1(3) in simp_all)
      then show ?thesis by (simp add: Inr try_host_def)
    qed (simp add: block_post_def)
  qed
  show ?case unfolding run_transactions.simps returns_bind
    by (rule returns_mono [OF validate_transaction_ok [OF Cons.prems(1) tx]])
      (use ex in \<open>auto simp: try_host_def block_post_def simp del: returns_bind split: sum.splits\<close>)
qed

definition reward_amount :: "FinalizationChange \<Rightarrow> nat" where
  "reward_amount c = (case c of Reward _ v \<Rightarrow> unat v)"

lemma apply_changes_ok:
  assumes "state_good db s" "total_supply db s + sum_list (map reward_amount cs) < 2 ^ 256"
  shows "returns (\<lambda>t. state_good db t \<and> total_supply db t = total_supply db s + sum_list (map reward_amount cs)) (apply_changes db cs s)"
  using assms
proof (induction cs arbitrary: s)
  case (Cons c cs)
  obtain a v where c: "c = Reward a v" by (cases c)
  have v: "reward_amount c = unat v" by (simp add: c reward_amount_def)
  have "total_supply db s + unat v < 2 ^ 256" using Cons.prems(2) by (simp add: v)
  note 1 = add_to_balance_supply [OF Cons.prems(1) this, of a]
  have "returns (\<lambda>t. state_good db t \<and> total_supply db t = total_supply db s + sum_list (map reward_amount (c # cs))) (apply_changes db cs s1)"
    if "state_good db s1 \<and> total_supply db s1 = total_supply db s + unat v" for s1
    by (rule returns_mono [OF Cons.IH]) (use that Cons.prems(2) in \<open>auto simp: v\<close>)
  then show ?case unfolding apply_changes.simps returns_bind
    by (simp only: c apply_change_def FinalizationChange.case) (rule returns_mono [OF 1])
qed simp

lemma execute_block_ok:
  assumes "block_ok env" "proc_ok env p" "\<forall>txn \<in> set (bws_transactions block). tx_ok env txn"
    "bs_balance_changes (env_spec env) = Map.empty"
    "total_supply (env_db env) (pr_state p)
       + sum_list (map reward_amount (finalize (env_header env) (bws_ommers block) (env_revision env))) < 2 ^ 256"
  shows "returns (\<lambda>(r, p'). \<forall>receipts. r = Inr receipts \<longrightarrow> state_good (env_db env) (pr_state p')
      \<and> pr_cumulative_gas_used p' \<le> ph_gas_limit (env_header env)
      \<and> total_supply (env_db env) (pr_state p') \<le> total_supply (env_db env) (pr_state p)
          + sum_list (map reward_amount (finalize (env_header env) (bws_ommers block) (env_revision env))))
    (execute_block_no_post_validation env block p)"
proof -
  let ?db = "env_db env" and ?cs = "finalize (env_header env) (bws_ommers block) (env_revision env)"
  have same: "with_state p (pr_state p) = p" by (simp add: with_state_def)
  have fin: "returns (\<lambda>t. state_good ?db t \<and> total_supply ?db t \<le> total_supply ?db (pr_state p) + sum_list (map reward_amount ?cs))
      (apply_changes ?db ?cs (pr_state p'))"
    if "proc_ok env p'" "total_supply ?db (pr_state p') \<le> total_supply ?db (pr_state p)" for p' :: "'a Processor"
    by (rule returns_mono [OF apply_changes_ok]) (use that assms(5) in \<open>auto simp: proc_ok_def\<close>)
  show ?thesis
    unfolding execute_block_no_post_validation_def Let_def balance_list_def assms(4)
    by (simp add: same, rule returns_mono [OF run_transactions_ok [OF assms(1-3)]])
      (auto simp: try_host_def block_post_def proc_ok_def split: sum.splits intro!: returns_mono [OF fin])
qed

section \<open>Properties\<close>

text \<open>The sample block: one transfer at no charge for gas, run in a new processor.\<close>

abbreviation sample_free_transfer :: Message where
  "sample_free_transfer \<equiv> LegacyMessage None 0 0 30000 (ActionCall 20) 5 []"

abbreviation sample_block_env :: "(h256 \<rightharpoonup> AnalyzedCode) Env" where
  "sample_block_env \<equiv> sample_env sample_free_transfer"

abbreviation sample_txn :: MessageWithSender where
  "sample_txn \<equiv> \<lparr>tm_message = sample_free_transfer, tm_sender = 10\<rparr>"

lemma sample_tx_ok: "tx_ok sample_block_env sample_txn"
  by (simp add: tx_ok_def pre_validate_transaction_def sample_env_def sample_header_def)

lemma sample_proc_ok: "proc_ok sample_block_env (processor_new Map.empty)"
  using sample_evm_good [of sample_free_transfer] sample_supply
  by (simp add: evm_good_def proc_ok_def processor_new_def sample_evm_def sample_env_def)

text \<open>What makes a transaction acceptable: the sender is not a contract, and \<open>may_run\<close> holds.\<close>

definition acceptable :: "'c Env \<Rightarrow> 'c Processor \<Rightarrow> MessageWithSender \<Rightarrow> bool" where
  "acceptable env p txn \<longleftrightarrow> fst (ibs_get_code_hash (env_db env) (pr_state p) (tm_sender txn)) = EMPTY_HASH \<and> may_run env p txn"

lemma sample_acceptable: "acceptable sample_block_env (processor_new Map.empty) sample_txn"
  by (simp add: acceptable_def may_run_def reads_value account_view_def processor_new_def IntraBlockState_new_def
      sample_env_def sample_db_def sample_header_def Account_default_def)

abbreviation sample_body :: BlockBodyWithSenders where
  "sample_body \<equiv> \<lparr>bws_transactions = [sample_txn], bws_ommers = []\<rparr>"

text \<open>The intrinsic gas as the yellow paper counts it, in natural numbers.\<close>

definition intrinsic_cost :: "Message \<Rightarrow> bool \<Rightarrow> bool \<Rightarrow> nat" where
  "intrinsic_cost m homestead istanbul =
     21000 + (if tx_action m = ActionCreate \<and> homestead then 32000 else 0)
     + (\<Sum>e \<leftarrow> tx_access_list m. 2400 + 1900 * length (al_slots e))
     + (\<Sum>b \<leftarrow> tx_input m. if b = 0 then 4 else if istanbul then 16 else 68)"

lemma fold_slots_cost:
  "fold (\<lambda>e gas. gas + of_nat (length (al_slots e)) * k) al g = g + k * of_nat (\<Sum>e \<leftarrow> al. length (al_slots e))" for k g :: u128
  by (induction al arbitrary: g) (simp_all add: algebra_simps)

lemma slots_cost: "(\<Sum>e \<leftarrow> al. 2400 + 1900 * length (al_slots e)) = length al * 2400 + 1900 * (\<Sum>e \<leftarrow> al. length (al_slots e))"
  by (induction al) simp_all

lemma data_cost:
  "(\<Sum>b \<leftarrow> bs. if b = (0 :: byte) then 4 else k) = k * length (filter (\<lambda>b. b \<noteq> 0) bs) + 4 * (length bs - length (filter (\<lambda>b. b \<noteq> 0) bs))" for k :: nat
proof (induction bs)
  case (Cons b bs)
  have "length (filter (\<lambda>b. b \<noteq> 0) bs) \<le> length bs" by simp
  then show ?case using Cons by (simp add: Suc_diff_le)
qed simp

lemma intrinsic_gas_of_nat: "intrinsic_gas m homestead istanbul = of_nat (intrinsic_cost m homestead istanbul)"
proof -
  define k where "k = (if istanbul then 16 else 68 :: nat)"
  define nz where "nz = length (filter (\<lambda>b. b \<noteq> 0) (tx_input m))"
  have d: "(\<Sum>b \<leftarrow> tx_input m. if b = 0 then 4 else if istanbul then 16 else 68) = k * nz + 4 * (length (tx_input m) - nz)"
    using data_cost [of 16 "tx_input m"] data_cost [of 68 "tx_input m"] by (simp add: k_def nz_def)
  have len: "(of_nat (length (tx_input m)) - of_nat nz :: u128) = of_nat (length (tx_input m) - nz)"
    by (simp add: nz_def of_nat_diff)
  have k: "ucast (if istanbul then G_TX_DATA_NON_ZERO_ISTANBUL else G_TX_DATA_NON_ZERO_FRONTIER) = (of_nat k :: u128)"
    by (simp add: k_def G_TX_DATA_NON_ZERO_ISTANBUL_def G_TX_DATA_NON_ZERO_FRONTIER_def)
  define z where "z = length (tx_input m) - nz"
  define c where "c = (if tx_action m = ActionCreate \<and> homestead then 32000 else 0 :: nat)"
  define x where "x = length (tx_access_list m) * 2400 + 1900 * (\<Sum>e \<leftarrow> tx_access_list m. length (al_slots e))"
  have g: "(if tx_action m = ActionCreate \<and> homestead then ucast G_TRANSACTION + ucast G_TX_CREATE else ucast G_TRANSACTION)
      + of_nat (length (tx_access_list m)) * ucast ACCESS_LIST_ADDRESS_COST
      + ucast ACCESS_LIST_STORAGE_KEY_COST * of_nat (\<Sum>e \<leftarrow> tx_access_list m. length (al_slots e)) = (of_nat (21000 + c + x) :: u128)"
    by (simp add: c_def x_def G_TRANSACTION_def G_TX_CREATE_def ACCESS_LIST_STORAGE_KEY_COST_def ACCESS_LIST_ADDRESS_COST_def)
  have e: "nz = 0 \<and> z = 0" if "tx_input m = []" using that by (simp add: nz_def z_def)
  have w: "of_nat nz * of_nat k + of_nat z * ucast G_TX_DATA_ZERO = (of_nat (k * nz + 4 * z) :: u128)"
    by (simp add: G_TX_DATA_ZERO_def)
  have "intrinsic_gas m homestead istanbul = of_nat (21000 + c + x) + of_nat (k * nz + 4 * z)"
    unfolding intrinsic_gas_def Let_def fold_slots_cost g k nz_def [symmetric] len z_def [symmetric] w [symmetric]
    using e by (simp add: G_TX_DATA_ZERO_def)
  then show ?thesis
    unfolding intrinsic_cost_def slots_cost d c_def [symmetric] x_def [symmetric] z_def [symmetric] by simp
qed

text \<open>The intrinsic gas of a transaction is the yellow paper's: the 128-bit sum is the cost in natural
  numbers (for every transaction that fits in memory), so the check against the gas limit compares
  the true cost.\<close>

theorem intrinsic_gas_exact:
  assumes "intrinsic_cost m homestead istanbul < 2 ^ 128"
  shows "unat (intrinsic_gas m homestead istanbul) = intrinsic_cost m homestead istanbul \<and>
    (ucast gas_limit < intrinsic_gas m homestead istanbul \<longleftrightarrow>
      unat (gas_limit :: u64) < intrinsic_cost m homestead istanbul)"
proof
  show 1: "unat (intrinsic_gas m homestead istanbul) = intrinsic_cost m homestead istanbul"
    using assms by (simp add: intrinsic_gas_of_nat unat_of_nat)
  have "unat gas_limit < 2 ^ 128" using unsigned_less [where 'a = nat, of gas_limit] by simp
  then show "ucast gas_limit < intrinsic_gas m homestead istanbul \<longleftrightarrow>
      unat gas_limit < intrinsic_cost m homestead istanbul"
    by (simp add: word_less_nat_alt 1 unsigned_ucast_eq take_bit_eq_mod)
qed

theorem intrinsic_gas_exact_witness:
  "unat (intrinsic_gas (LegacyMessage None 0 0 30000 ActionCreate 5 [0, 7, 0]) True False) = 53076"
  using intrinsic_gas_exact [of "LegacyMessage None 0 0 30000 ActionCreate 5 [0, 7, 0]" True False 0]
  by (simp add: intrinsic_cost_def)

end
