(* ===== verification/ContractTable.thy ===== *)
theory ContractTable
  imports EvmGlueSafety
begin

text \<open>
  The host on the source's own table of precompiled contracts, \<open>precompiled::CONTRACTS\<close>.

  One contract of the table can panic, modular exponentiation on an input that declares an exponent
  of at least \<open>2 ^ 61\<close> bytes, and the total correctness of \<open>EvmGlueSafety\<close> needs contracts that do not.
  So the host is run on two tables: the source's, and the guarded one in which that panic is a failure
  of the contract. The guarded host satisfies the contract of the interpreter in every revision. The
  source's host is below it: whatever it returns, the guarded host returns too. Everything proved of
  what the guarded host returns thus holds of what the source returns, and a panic of the source can
  have no other cause than the exponent. Before Byzantium, when the contract is not there, the
  source's host itself never panics.
\<close>

section \<open>The guarded table\<close>

definition guarded_expmod_run :: "crypto_lib \<Rightarrow> run_function" where
  "guarded_expmod_run P input =
     (if exponent_length input < 2 ^ 61 then expmod_run P input
      else case expmod_run P input of None \<Rightarrow> Some None | Some r \<Rightarrow> Some r)"

definition guarded_contracts :: "lib \<Rightarrow> crypto_lib \<Rightarrow> Contract list" where
  "guarded_contracts L P = (CONTRACTS L P)[4 := \<lparr>contract_gas = expmod_gas, contract_run = guarded_expmod_run P\<rparr>]"

lemma exp_head_returns: "returns (\<lambda>_. True) (expmod_exp_head input n k)"
proof (cases "n < length input")
  case True
  define bs where "bs = take (min (n + 32) (length input) - n) (drop n input)"
  define padded where "padded = bs @ replicate (32 - length bs) 0"
  have p: "slice_range input n (min (n + 32) (length input)) = Some bs" "right_pad bs 32 = Some padded"
    using True by (simp_all add: slice_range_def bs_def padded_def right_pad_eq ISIZE_MAX_def min_def)
  have s: "j \<le> 32 \<Longrightarrow> 32 \<le> length xs \<Longrightarrow> slice_range xs 0 j = Some (take j xs)" for j and xs :: "byte list"
    by (simp add: slice_range_def)
  have "32 \<le> length padded" by (simp add: padded_def)
  then show ?thesis
    using True by (simp add: expmod_exp_head_def p s left_pad_eq ISIZE_MAX_def)
qed (simp add: expmod_exp_head_def)

lemma expmod_gas_returns: "returns (\<lambda>_. True) (expmod_gas input rv)"
proof -
  have "96 \<le> length (padded_input input)" by (rule length_padded_input)
  then show ?thesis
    using exp_head_returns
    by (simp add: expmod_gas_def right_pad_input slice_range_def Let_def)
qed

lemma expmod_output_fits:
  assumes "expmod_run P input = Some r"
  shows "output_fits ISIZE_MAX r"
  using assms
  by (auto simp: expmod_run_def copy_into_def Let_def split: if_splits bind_splits)

lemma guarded_expmod_ok:
  assumes "bigint_ok P"
  shows "contract_ok \<lparr>contract_gas = expmod_gas, contract_run = guarded_expmod_run P\<rparr> rv"
proof -
  have "returns (output_fits ISIZE_MAX) (guarded_expmod_run P input)"
    if "expmod_gas input rv = Some (Some g)" "unat g < 2 ^ 63" for input g
    using expmod_below_bound [OF assms that] expmod_output_fits [of P input]
    by (auto simp: guarded_expmod_run_def split: option.split)
  then have "returns (\<lambda>g. case g of Some g \<Rightarrow> unat g < 2 ^ 63 \<longrightarrow>
      returns (output_fits ISIZE_MAX) (guarded_expmod_run P input) | None \<Rightarrow> True) (expmod_gas input rv)" for input
    using expmod_gas_returns [of input rv] by (cases "expmod_gas input rv") (simp_all split: option.split)
  then show ?thesis unfolding contract_ok_def Contract.simps by blast
qed

lemma length_CONTRACTS [simp]: "length (CONTRACTS L P) = 9"
  by (simp add: CONTRACTS_def)

lemma guarded_contract_ok:
  assumes "crypto_ok P" "bigint_ok P" "i < 9"
  shows "contract_ok (guarded_contracts L P ! i) rv"
  using contracts_without_expmod [OF assms(1,3)] guarded_expmod_ok [OF assms(2)] assms(3)
  by (cases "i = 4") (simp_all add: guarded_contracts_def)

section \<open>Computations below one another\<close>

definition run_below :: "'a option \<Rightarrow> 'a option \<Rightarrow> bool" where
  "run_below m m' \<longleftrightarrow> (\<forall>r. m = Some r \<longrightarrow> m' = Some r)"

lemma run_below_refl [simp, intro]: "run_below m m" and run_below_None [simp]: "run_below None m"
  by (simp_all add: run_below_def)

lemma run_below_bind: "run_below m m' \<Longrightarrow> (\<And>x. run_below (f x) (f' x)) \<Longrightarrow> run_below (Option.bind m f) (Option.bind m' f')"
  by (auto simp: run_below_def bind_eq_Some_conv)

lemma run_below_try_host: "(\<And>x h. run_below (f x h) (f' x h)) \<Longrightarrow> run_below (try_host r f) (try_host r f')"
  by (auto simp: try_host_def split: sum.split prod.split)

lemma run_below_prod: "(\<And>x y. p = (x, y) \<Longrightarrow> run_below (f x y) (f' x y)) \<Longrightarrow> run_below (case p of (x, y) \<Rightarrow> f x y) (case p of (x, y) \<Rightarrow> f' x y)"
  by (cases p) simp

lemma run_below_prod_app:
  "(\<And>x y. p = (x, y) \<Longrightarrow> run_below (f x y h) (f' x y h)) \<Longrightarrow> run_below ((case p of (x, y) \<Rightarrow> f x y) h) ((case p of (x, y) \<Rightarrow> f' x y) h)"
  by (cases p) simp

lemma run_below_if: "run_below a a' \<Longrightarrow> run_below b b' \<Longrightarrow> run_below (if c then a else b) (if c then a' else b')"
  by simp

lemmas run_below_rules = run_below_bind run_below_try_host run_below_prod run_below_prod_app run_below_if run_below_refl

lemma run_below_cases: "run_below m m' \<Longrightarrow> m = None \<or> m = m'"
  by (cases m) (simp_all add: run_below_def)

lemma run_below_returns: "run_below m m' \<Longrightarrow> returns Q m' \<Longrightarrow> m = Some r \<Longrightarrow> Q r"
  by (auto simp: run_below_def)

section \<open>The interpreter is monotone in the calls of its host\<close>

text \<open>Only the call and create instructions call back; the others read the other fields of the host.\<close>

lemma other_ops_host:
  "charge_cold_account (H\<lparr>call := c\<rparr>) = charge_cold_account H"
  "op_balance (H\<lparr>call := c\<rparr>) = op_balance H" "op_extcodesize (H\<lparr>call := c\<rparr>) = op_extcodesize H"
  "op_extcodehash (H\<lparr>call := c\<rparr>) = op_extcodehash H" "push_txcontext (H\<lparr>call := c\<rparr>) = push_txcontext H"
  "op_selfbalance (H\<lparr>call := c\<rparr>) = op_selfbalance H" "op_blockhash (H\<lparr>call := c\<rparr>) = op_blockhash H"
  "do_log (H\<lparr>call := c\<rparr>) = do_log H" "op_sload (H\<lparr>call := c\<rparr>) = op_sload H" "op_sstore (H\<lparr>call := c\<rparr>) = op_sstore H"
  "op_selfdestruct (H\<lparr>call := c\<rparr>) = op_selfdestruct H" "op_extcodecopy (H\<lparr>call := c\<rparr>) = op_extcodecopy H"
  "call_surcharge (H\<lparr>call := c\<rparr>) = call_surcharge H" "may_transfer (H\<lparr>call := c\<rparr>) = may_transfer H"
proof -
  show other: "charge_cold_account (H\<lparr>call := c\<rparr>) = charge_cold_account H" by (intro ext) (simp add: charge_cold_account_def Let_def cong: if_cong option.case_cong)
  show "op_balance (H\<lparr>call := c\<rparr>) = op_balance H" by (intro ext) (simp add: op_balance_def other Let_def cong: if_cong option.case_cong)
  show "op_extcodesize (H\<lparr>call := c\<rparr>) = op_extcodesize H" by (intro ext) (simp add: op_extcodesize_def other Let_def cong: if_cong option.case_cong)
  show "op_extcodehash (H\<lparr>call := c\<rparr>) = op_extcodehash H" by (intro ext) (simp add: op_extcodehash_def other Let_def cong: if_cong option.case_cong)
  show "push_txcontext (H\<lparr>call := c\<rparr>) = push_txcontext H" by (intro ext) (simp add: push_txcontext_def other Let_def cong: if_cong option.case_cong)
  show "op_selfbalance (H\<lparr>call := c\<rparr>) = op_selfbalance H" by (intro ext) (simp add: op_selfbalance_def other Let_def cong: if_cong option.case_cong)
  show "op_blockhash (H\<lparr>call := c\<rparr>) = op_blockhash H" by (intro ext) (simp add: op_blockhash_def other Let_def cong: if_cong option.case_cong)
  show "do_log (H\<lparr>call := c\<rparr>) = do_log H" by (intro ext) (simp add: do_log_def other Let_def cong: if_cong option.case_cong)
  show "op_sload (H\<lparr>call := c\<rparr>) = op_sload H" by (intro ext) (simp add: op_sload_def other Let_def cong: if_cong option.case_cong)
  show "op_sstore (H\<lparr>call := c\<rparr>) = op_sstore H" by (intro ext) (simp add: op_sstore_def other Let_def cong: if_cong option.case_cong)
  show "op_selfdestruct (H\<lparr>call := c\<rparr>) = op_selfdestruct H" by (intro ext) (simp add: op_selfdestruct_def other Let_def cong: if_cong option.case_cong)
  show "op_extcodecopy (H\<lparr>call := c\<rparr>) = op_extcodecopy H" by (intro ext) (simp add: op_extcodecopy_def other Let_def cong: if_cong option.case_cong)
  show "call_surcharge (H\<lparr>call := c\<rparr>) = call_surcharge H" by (intro ext) (simp add: call_surcharge_def other Let_def cong: if_cong option.case_cong)
  show "may_transfer (H\<lparr>call := c\<rparr>) = may_transfer H" by (intro ext) (simp add: may_transfer_def other Let_def cong: if_cong option.case_cong)
qed

lemma do_call_below:
  assumes "\<And>h m. run_below (call H h m) (c h m)"
  shows "run_below (do_call H rv kind st s h) (do_call (H\<lparr>call := c\<rparr>) rv kind st s h)"
  unfolding do_call_def call_with_def perform_call_def Let_def other_ops_host
  by (intro run_below_rules) (use assms in simp_all)

lemma do_create_below:
  assumes "\<And>h m. run_below (call H h m) (c h m)"
  shows "run_below (do_create H rv b s h) (do_create (H\<lparr>call := c\<rparr>) rv b s h)"
  unfolding do_create_def perform_create_def Let_def other_ops_host
  by (intro run_below_rules) (use assms in simp_all)

lemma exec_op_below:
  assumes "\<And>h m. run_below (call H h m) (c h m)"
  shows "run_below (exec_op H L rv a pc op s h) (exec_op (H\<lparr>call := c\<rparr>) L rv a pc op s h)"
proof -
  have n: "run_below m m' \<Longrightarrow> run_below (then_next k m) (then_next k m')" for k :: nat and m m'
    unfolding then_next_def by (intro run_below_rules)
  have "exec_env (H\<lparr>call := c\<rparr>) = exec_env H" "exec_block (H\<lparr>call := c\<rparr>) = exec_block H" "exec_flow (H\<lparr>call := c\<rparr>) = exec_flow H"
    by (intro ext, simp add: exec_env_def exec_block_def exec_flow_def other_ops_host cong: EnvOp.case_cong BlockOp.case_cong FlowOp.case_cong)+
  moreover have "run_below (exec_system H rv pc sop s h) (exec_system (H\<lparr>call := c\<rparr>) rv pc sop s h)" for sop
    by (cases sop) (simp_all add: exec_system_def other_ops_host n do_call_below do_create_below assms)
  ultimately show ?thesis by (cases op) (simp_all add: exec_op_def other_ops_host)
qed

lemma step_below:
  assumes "\<And>h m. run_below (call H h m) (c h m)"
  shows "run_below (step H L rv a pc s h) (step (H\<lparr>call := c\<rparr>) L rv a pc s h)"
  unfolding step_def Let_def
  by (rule run_below_bind, simp)+ (auto intro!: run_below_rules exec_op_below assms split: option.split)

lemma execute_message_below:
  assumes "\<And>h m. run_below (call H h m) (c h m)"
  shows "run_below (execute_message H L rv a pc s h) (execute_message (H\<lparr>call := c\<rparr>) L rv a pc s h)"
proof -
  let ?P = "\<lambda>H' L rv a pc s h y. H' = H \<longrightarrow> execute_message (H'\<lparr>call := c\<rparr>) L rv a pc s h = Some y"
  have "?P H L rv a pc s h y" if run: "execute_message H L rv a pc s h = Some y" for y
  proof (rule execute_message.raw_induct [where P = ?P, OF _ run], intro impI)
    fix ex H' L rv a pc s h y
    assume IH: "\<And>H L rv a pc s h y. ex H L rv a pc s h = Some y \<Longrightarrow> ?P H L rv a pc s h y" and "H' = H"
      and body: "Option.bind (step H' L rv a pc s h) (\<lambda>(r, h). case r of Inl e \<Rightarrow> Some (Inl e, h)
         | Inr (Next pc state) \<Rightarrow> ex H' L rv a pc state h
         | Inr (Break back state) \<Rightarrow>
             Some (Inr \<lparr>so_reverted = back, so_gas_left = gas_left state, so_output_data = output_data state\<rparr>, h)) = Some y"
    obtain r h1 where r: "step H' L rv a pc s h = Some (r, h1)" using body by (auto simp: bind_eq_Some_conv)
    then have "step (H'\<lparr>call := c\<rparr>) L rv a pc s h = Some (r, h1)"
      using step_below [of H c, OF assms] \<open>H' = H\<close> by (simp add: run_below_def)
    then show "execute_message (H'\<lparr>call := c\<rparr>) L rv a pc s h = Some y"
      using body r IH \<open>H' = H\<close> by (subst execute_message.simps) (auto split: sum.splits control.splits)
  qed
  then show ?thesis by (simp add: run_below_def)
qed

section \<open>The host is monotone in its table of contracts\<close>

text \<open>The same environment with another table.\<close>

definition with_contracts :: "'c Env \<Rightarrow> Contract list \<Rightarrow> 'c Env" where
  "with_contracts env t = env\<lparr>env_contracts := t\<rparr>"

lemma with_contracts_simps [simp]:
  "env_db (with_contracts env t) = env_db env" "env_lru (with_contracts env t) = env_lru env"
  "env_header (with_contracts env t) = env_header env" "env_spec (with_contracts env t) = env_spec env"
  "env_txn (with_contracts env t) = env_txn env" "env_contracts (with_contracts env t) = t"
  "env_lib (with_contracts env t) = env_lib env" "env_rlp (with_contracts env t) = env_rlp env"
  "env_beneficiary (with_contracts env t) = env_beneficiary env"
  by (simp_all add: with_contracts_def)

text \<open>A table below another: the same prices, and results below.\<close>

definition table_below :: "Contract list \<Rightarrow> Contract list \<Rightarrow> bool" where
  "table_below t t' \<longleftrightarrow> length t = length t' \<and> (\<forall>i < length t. contract_gas (t ! i) = contract_gas (t' ! i)
     \<and> (\<forall>input. run_below (contract_run (t ! i) input) (contract_run (t' ! i) input)))"

lemma precompiled_call_below:
  assumes "table_below (env_contracts env) t"
  shows "run_below (precompiled_call env msg) (precompiled_call (with_contracts env t) msg)"
proof -
  let ?i = "unat (ucast (msg_code_address msg) :: byte) - 1"
  show ?thesis
  proof (cases "?i < length t")
    case True
    then have "contract_gas (env_contracts env ! ?i) = contract_gas (t ! ?i)"
      "\<And>input. run_below (contract_run (env_contracts env ! ?i) input) (contract_run (t ! ?i) input)"
      and len: "length (env_contracts env) = length t"
      using assms by (simp_all add: table_below_def)
    then show ?thesis using True
      unfolding precompiled_call_def Let_def
      by (auto simp: index_at_def intro!: run_below_rules split: option.split)
  next
    case False
    then have "precompiled_call env msg = None"
      using assms by (simp add: precompiled_call_def index_at_def table_below_def Let_def)
    then show ?thesis by simp
  qed
qed

lemma other_fields:
  "EvmHost (with_contracts env t) c' = (EvmHost env c)\<lparr>call := c'\<rparr>"
  by (auto simp: EvmHost_def eh_account_exists_def eh_get_storage_def eh_set_storage_def eh_get_balance_def
      eh_get_code_size_def eh_get_code_hash_def eh_copy_code_def eh_selfdestruct_def eh_get_tx_context_def
      eh_get_block_hash_def eh_access_account_def Let_def fun_eq_iff cong: if_cong)

text \<open>What it means for one host to be below another.\<close>

definition host_below :: "'h Host \<Rightarrow> 'h Host \<Rightarrow> bool" where
  "host_below H H' \<longleftrightarrow> H' = H\<lparr>call := call H'\<rparr> \<and> (\<forall>h m. run_below (call H h m) (call H' h m))"

lemma host_tables:
  "cached_analysis (with_contracts env t) = cached_analysis env" "deposit_code (with_contracts env t) = deposit_code env"
  "call_transfer (with_contracts env t) = call_transfer env" "create_address (with_contracts env t) = create_address env"
  "create2_address (with_contracts env t) = create2_address env"
  by (intro ext, simp add: cached_analysis_def deposit_code_def call_transfer_def create_address_def create2_address_def Let_def
      cong: if_cong option.case_cong)+

locale host_refinement =
  fixes env :: "'c Env" and t :: "Contract list" and H H' :: "'c Evm Host"
  assumes table: "table_below (env_contracts env) t" and host: "host_below H H'"
begin

lemma evm_execute_below: "run_below (evm_execute env H msg bs h e) (evm_execute (with_contracts env t) H' msg bs h e)"
proof -
  have "\<And>h m. run_below (call H h m) (call H' h m)" "H' = H\<lparr>call := call H'\<rparr>" using host by (simp_all add: host_below_def)
  then have "run_below (execute_message H L rv a pc s h) (execute_message H' L rv a pc s h)" for L rv a pc s h
    using execute_message_below [of H "call H'" L rv a pc s h] by simp
  then show ?thesis unfolding evm_execute_def execute_def host_tables with_contracts_simps
    by (intro run_below_rules) simp_all
qed

lemma deploy_below: "run_below (deploy env H msg a e) (deploy (with_contracts env t) H' msg a e)"
  unfolding deploy_def Let_def host_tables with_contracts_simps
  by (intro run_below_rules evm_execute_below)

lemma evm_create_below: "run_below (evm_create env H msg e) (evm_create (with_contracts env t) H' msg e)"
  unfolding evm_create_def Let_def host_tables with_contracts_simps
  by (intro run_below_rules deploy_below)

lemma call_body_below: "run_below (call_body env H msg p bs e) (call_body (with_contracts env t) H' msg p bs e)"
  unfolding call_body_def Let_def host_tables with_contracts_simps
  by (intro run_below_rules evm_execute_below precompiled_call_below table)

lemma evm_call_below: "run_below (evm_call env H msg e) (evm_call (with_contracts env t) H' msg e)"
  unfolding evm_call_def Let_def host_tables with_contracts_simps
  by (intro run_below_rules call_body_below)

lemma eh_call_below: "run_below (eh_call env H e c) (eh_call (with_contracts env t) H' e c)"
  by (cases c) (auto simp: eh_call_def intro!: run_below_rules evm_create_below evm_call_below)

end

lemma evm_host_below:
  assumes "table_below (env_contracts env) t"
  shows "host_below (evm_host env n) (evm_host (with_contracts env t) n)"
proof (induction n)
  case 0
  have "EvmHost (with_contracts env t) c = (EvmHost env c)\<lparr>call := c\<rparr>" for c by (rule other_fields)
  then show ?case by (simp add: host_below_def) (simp add: EvmHost_def)
next
  case (Suc n)
  then show ?case using host_refinement.eh_call_below [OF host_refinement.intro [OF assms Suc]]
    by (simp add: host_below_def other_fields [where c = "eh_call env (evm_host env n)"]) (simp add: EvmHost_def)
qed

lemma evmglue_execute_below:
  assumes "table_below (env_contracts env) t"
  shows "run_below (evmglue_execute env gas e) (evmglue_execute (with_contracts env t) gas e)"
  using host_refinement.evm_call_below [OF host_refinement.intro [OF assms evm_host_below [OF assms]]]
    host_refinement.evm_create_below [OF host_refinement.intro [OF assms evm_host_below [OF assms]]]
  unfolding evmglue_execute_def Let_def with_contracts_simps
  by (intro run_below_rules) (auto split: TransactionAction.split)

section \<open>The source's table and the guarded one\<close>

lemma guarded_below: "table_below (CONTRACTS L P) (guarded_contracts L P)"
proof -
  have "run_below (expmod_run P input) (guarded_expmod_run P input)" for input
    by (auto simp: run_below_def guarded_expmod_run_def)
  moreover have "CONTRACTS L P ! 4 = \<lparr>contract_gas = expmod_gas, contract_run = expmod_run P\<rparr>" by (simp add: CONTRACTS_def)
  ultimately have "contract_gas (CONTRACTS L P ! i) = contract_gas (guarded_contracts L P ! i)
      \<and> run_below (contract_run (CONTRACTS L P ! i) input) (contract_run (guarded_contracts L P ! i) input)" for i input
    by (cases "i = 4") (simp_all add: guarded_contracts_def)
  then show ?thesis by (simp add: table_below_def guarded_contracts_def)
qed

interpretation guard: host_refinement "with_contracts env (CONTRACTS L P)" "guarded_contracts L P"
  "evm_host (with_contracts env (CONTRACTS L P)) n"
  "evm_host (with_contracts (with_contracts env (CONTRACTS L P)) (guarded_contracts L P)) n" for env L P n
  by unfold_locales (simp_all add: guarded_below evm_host_below)

text \<open>
  The environment of the source: the table is \<open>CONTRACTS\<close> over the crates' functions \<open>P\<close>, which keep
  their documented laws, and what surrounds the table is as \<open>env_ok\<close> has it.
\<close>

definition source_table :: "crypto_lib \<Rightarrow> 'c Env \<Rightarrow> bool" where
  "source_table P env \<longleftrightarrow> env_contracts env = CONTRACTS (env_lib env) P \<and> crypto_ok P \<and> bigint_ok P"

definition source_env :: "crypto_lib \<Rightarrow> 'c Env \<Rightarrow> bool" where
  "source_env P env \<longleftrightarrow> source_table P env \<and> lru_ok (env_lru env)
     \<and> (\<forall>h. length (read_code (env_db env) h) < 2 ^ 63)
     \<and> env_base_fee env \<le> max_fee_per_gas (tm_message (env_txn env))
     \<and> length (tx_input (tm_message (env_txn env))) < 2 ^ 63
     \<and> (\<exists>hash. headers_linked (env_db env) (unat (ph_number (env_header env))) (ph_parent_hash (env_header env)) hash)"

definition source_evm :: "crypto_lib \<Rightarrow> 'c Env \<Rightarrow> 'c Evm \<Rightarrow> bool" where
  "source_evm P env e \<longleftrightarrow> source_env P env \<and> cache_ok env (evm_cache e) \<and> state_good (env_db env) (evm_state e)"

definition guarded :: "crypto_lib \<Rightarrow> 'c Env \<Rightarrow> 'c Env" where
  "guarded P env = with_contracts env (guarded_contracts (env_lib env) P)"

lemma guarded_simps [simp]:
  "env_db (guarded P env) = env_db env" "env_lru (guarded P env) = env_lru env" "env_header (guarded P env) = env_header env"
  "env_spec (guarded P env) = env_spec env" "env_txn (guarded P env) = env_txn env" "env_lib (guarded P env) = env_lib env"
  by (simp_all add: guarded_def)

lemma number_of_precompiles_le: "number_of_precompiles r \<le> 9"
  by (simp add: number_of_precompiles_def NUM_OF_FRONTIER_CONTRACTS_def NUM_OF_BYZANTIUM_CONTRACTS_def
      NUM_OF_ISTANBUL_CONTRACTS_def)

lemma guarded_precompiles: "source_table P env \<Longrightarrow> precompiles_ok (guarded P env)"
  using number_of_precompiles_le [of "env_revision env"]
  by (auto simp: precompiles_ok_def source_table_def guarded_def guarded_contract_ok) (simp add: guarded_contracts_def)

lemma early_precompiles: "source_table P env \<Longrightarrow> env_revision env < Byzantium \<Longrightarrow> precompiles_ok env"
proof -
  assume t: "source_table P env" and "env_revision env < Byzantium"
  then have "number_of_precompiles (env_revision env) = 4"
    by (cases "env_revision env") (simp_all add: number_of_precompiles_def NUM_OF_FRONTIER_CONTRACTS_def less_Revision_def)
  then show ?thesis using t contracts_without_expmod [of P]
    by (simp add: precompiles_ok_def source_table_def)
qed

lemma source_table_below: "source_table P env \<Longrightarrow> table_below (env_contracts env) (guarded_contracts (env_lib env) P)"
  by (simp add: source_table_def guarded_below)

lemma source_good:
  assumes "source_evm P env e"
  shows "evm_good (guarded P env) e" "env_revision env < Byzantium \<Longrightarrow> evm_good env e"
  using assms guarded_precompiles [of P env] early_precompiles [of P env]
  by (auto simp: source_evm_def source_env_def evm_good_def env_ok_def cache_ok_def env_base_fee_def)

lemma evm_good_source: "evm_good (guarded P env) e \<Longrightarrow> source_env P env \<Longrightarrow> source_evm P env e"
  by (simp add: source_evm_def evm_good_def cache_ok_def)

lemma source_evm_execute:
  assumes "source_evm P env e" "unat gas < 2 ^ 63"
  shows "run_below (evmglue_execute env gas e) (evmglue_execute (guarded P env) gas e)"
    "start_ok (guarded P env) gas e" "env_revision env < Byzantium \<Longrightarrow> start_ok env gas e"
  using assms source_good [OF assms(1)] evmglue_execute_below [OF source_table_below [of P env]]
  by (simp_all add: start_ok_def guarded_def source_evm_def source_env_def)

section \<open>Properties\<close>

text \<open>The sample environment of \<open>EvmGlueSafety\<close>, in any revision.\<close>

definition sample_env_at :: "Revision \<Rightarrow> Message \<Rightarrow> (h256 \<rightharpoonup> AnalyzedCode) Env" where
  "sample_env_at r m = (sample_env m)\<lparr>env_spec := (env_spec (sample_env m))\<lparr>bs_revision := r\<rparr>\<rparr>"

lemma sample_env_at_simps [simp]:
  "env_db (sample_env_at r m) = sample_db" "env_spec (sample_env_at r m) = (env_spec (sample_env m))\<lparr>bs_revision := r\<rparr>"
  "env_txn (sample_env_at r m) = \<lparr>tm_message = m, tm_sender = 10\<rparr>" "evm_state sample_evm = IntraBlockState_new"
  by (simp_all add: sample_env_at_def sample_env_def sample_evm_def)

lemma sample_source_evm:
  assumes "length (tx_input m) < 2 ^ 63"
  shows "source_evm sample_crypto (sample_env_at r m) sample_evm"
  using sample_evm_good [OF assms] sample_crypto_ok sample_bigint_ok
  by (auto simp: source_evm_def source_env_def source_table_def evm_good_def env_ok_def cache_ok_def env_base_fee_def
      sample_env_at_def sample_env_def)

text \<open>C2: Executing a transaction on the source's contracts returns, unless a call of the modular exponentiation
  contract declares an exponent of \<open>2 ^ 61\<close> bytes or more. In every revision, when that one panic is a
  failure of the contract instead (\<open>guarded\<close>), the execution returns whatever the code it runs, the
  frames it nests and the contracts it creates: the interpreter, the host and the journal never panic,
  the interpreter's loops end, and the nesting of calls stays within the limit. The gas left is between
  zero and the gas the execution started with, and the host is ready for the next transaction. The
  source's execution either gives this very result or panics. Before Byzantium it does not panic.\<close>

theorem transaction_execution_returns:
  assumes "source_evm P env e" "unat gas < 2 ^ 63"
  shows "(\<exists>res e'. evmglue_execute (guarded P env) gas e = Some (res, e')
      \<and> evmglue_execute env gas e \<in> {None, Some (res, e')}
      \<and> 0 \<le> cr_gas_left res \<and> cr_gas_left res \<le> int (unat gas) \<and> source_evm P env e')
    \<and> (env_revision env < Byzantium \<longrightarrow> evmglue_execute env gas e \<noteq> None)"
proof -
  note run = source_evm_execute [OF assms]
  obtain res e' where r: "evmglue_execute (guarded P env) gas e = Some (res, e')" "0 \<le> cr_gas_left res"
      "cr_gas_left res \<le> int (unat gas)" "evm_good (guarded P env) e'"
    using evmglue_execute_ok [OF run(2)] evm_inv_good by (fastforce simp: returns_ex)
  moreover have "evmglue_execute env gas e \<in> {None, Some (res, e')}" using run_below_cases [OF run(1)] r(1) by auto
  moreover have "source_evm P env e'" using evm_good_source [OF r(4)] assms(1) by (simp add: source_evm_def)
  moreover have "evmglue_execute env gas e \<noteq> None" if "env_revision env < Byzantium"
    using evmglue_execute_ok [OF run(3) [OF that]] by (auto simp: returns_ex)
  ultimately show ?thesis by blast
qed

theorem transaction_execution_returns_witness:
  "\<exists>res e'. evmglue_execute (guarded sample_crypto (sample_env_at London sample_transfer)) 100000 sample_evm = Some (res, e')
     \<and> evmglue_execute (sample_env_at London sample_transfer) 100000 sample_evm \<in> {None, Some (res, e')}"
  using transaction_execution_returns [OF sample_source_evm, of sample_transfer 100000 London] by auto

lemma oversized_exponent_price: "\<exists>g. expmod_gas oversized_exponent rv = Some (Some g) \<and> unat g \<le> 200"
proof -
  define i where "i = oversized_exponent"
  have l: "length i = 96" by (simp add: i_def oversized_exponent_def)
  have f: "take 32 i = to_be_bytes 0" "take 32 (drop 32 i) = to_be_bytes (5 * 2 ^ 61 + 32)" "take 32 (drop 64 i) = to_be_bytes 1"
    by (simp_all add: i_def oversized_exponent_def)
  have "right_pad i (3 * 32) = Some i" using right_pad_input [of i] by (simp add: padded_input_def l)
  moreover have "adjusted_exponent_len (5 * 2 ^ 61 + 32) 0 = 1"
    by (simp add: adjusted_exponent_len_def u256_leading_zeros_def Let_def takeWhile_eq_all_conv [THEN iffD2])
  ultimately have "expmod_gas i rv = Some (Some (if rv < Berlin then 0 else 200))"
    by (simp add: expmod_gas_def slice_range_def l f expmod_exp_head_def Let_def G_QUAD_DIVISOR_BERLIN_def
        G_QUAD_DIVISOR_BYZANTIUM_def mult_complexity_eip2565_def mult_complexity_eip198_def max_def drop_bit_eq_div)
  then show ?thesis by (simp add: i_def)
qed

lemma oversized_exponent_run: "expmod_run P oversized_exponent = None"
proof -
  define i where "i = oversized_exponent"
  have l: "length i = 96" by (simp add: i_def oversized_exponent_def)
  have p: "padded_input i = i" by (simp add: padded_input_def l)
  have f: "take 32 i = to_be_bytes 0" "take 32 (drop 32 i) = to_be_bytes (5 * 2 ^ 61 + 32)" "take 32 (drop 64 i) = to_be_bytes 1"
    by (simp_all add: i_def oversized_exponent_def)
  have v: "be_value (to_be_bytes w) = unat w" for w using unat_from_be_bytes [of "to_be_bytes w"] by simp
  have n: "length_field i 24 = 0" "length_field i 56 = 5 * 2 ^ 61 + 32" "length_field i 88 = 1"
    using field_eq [of 0 i] field_eq [of 32 i] field_eq [of 64 i] f by (simp_all add: p v)
  then have "right_pad (drop 96 i) (5 * 2 ^ 61 + 33) = None" by (simp add: right_pad_panics l ISIZE_MAX_def)
  then have "expmod_run P i = None"
    using right_pad_input [of i] u64_length_at_field [of _ i] n by (simp add: expmod_run_def p slice_range_def l)
  then show ?thesis by (simp add: i_def)
qed

lemma oversized_call_panics:
  assumes "env_contracts env = CONTRACTS L P" "msg_code_address msg = 5" "msg_input_data msg = oversized_exponent"
    "200 \<le> msg_gas msg"
  shows "precompiled_call env msg = None"
proof -
  obtain g where g: "expmod_gas oversized_exponent (env_revision env) = Some (Some g)" "unat g \<le> 200"
    using oversized_exponent_price by blast
  then have "int (unat g) \<le> int 200" by (simp only: of_nat_le_iff)
  then have "\<not> msg_gas msg < uint g" using assms(4) by simp
  then show ?thesis using g assms(2,3)
    by (simp add: precompiled_call_def assms(1) index_at_def CONTRACTS_def oversized_exponent_run Let_def)
qed

text \<open>C36: The panic is within reach of every transaction. From Byzantium on, a transaction that calls the
  modular exponentiation contract with a 96 byte input, declaring an exponent of \<open>5 * 2 ^ 61 + 32\<close> bytes,
  panics the node: its price wraps around to at most 200 gas, and the contract then pads its input to the
  declared length. The sender only needs the value transferred and 200 gas.\<close>

theorem expmod_transaction_panics:
  assumes "env_contracts env = CONTRACTS L P" "Byzantium \<le> env_revision env" "unat gas < 2 ^ 63" "200 \<le> unat gas"
    "tx_action (tm_message (env_txn env)) = ActionCall 5" "tx_input (tm_message (env_txn env)) = oversized_exponent"
    "tx_value (tm_message (env_txn env)) \<le> fst (ibs_get_balance (env_db env) (evm_state e) (tm_sender (env_txn env)))"
  shows "evmglue_execute env gas e = None"
proof -
  have "is_precompiled (env_revision env) 5"
    using assms(2) by (cases "env_revision env") (simp_all add: is_precompiled_def number_of_precompiles_def
        NUM_OF_BYZANTIUM_CONTRACTS_def NUM_OF_ISTANBUL_CONTRACTS_def less_eq_Revision_def)
  moreover have "int (unat gas) < int (2 ^ 63)" "int 200 \<le> int (unat gas)"
    using assms(3,4) by (simp_all only: of_nat_le_iff of_nat_less_iff)
  then have "i64 (uint gas) = uint gas" "200 \<le> uint gas" by (simp_all add: i64_id)
  ultimately show ?thesis using assms(5-7) oversized_call_panics [OF assms(1)]
    by (simp add: evmglue_execute_def evm_call_def on_state_def call_body_def Let_def)
qed

abbreviation sample_oversized :: Message where
  "sample_oversized \<equiv> LegacyMessage None 0 1 100000 (ActionCall 5) 5 oversized_exponent"

lemma sample_balance: "fst (ibs_get_balance sample_db IntraBlockState_new 10) = 500"
  by (simp add: reads_value account_view_def IntraBlockState_new_def sample_db_def)

theorem expmod_transaction_panics_witness:
  "evmglue_execute (sample_env_at London sample_oversized) 100000 sample_evm = None"
  using expmod_transaction_panics [of "sample_env_at London sample_oversized" sample_lib sample_crypto 100000 sample_evm] sample_balance
  by (simp add: less_eq_Revision_def) (simp add: sample_env_at_def sample_env_def)

text \<open>C3: Running code never makes ether: when the execution of a transaction returns, in any revision and
  on the source's contracts, the sum of all balances, below \<open>2 ^ 256\<close>, is at most what it was. (Self-destruction
  in favour of the account itself destroys ether.)\<close>

theorem execution_makes_no_ether:
  assumes "source_evm P env e" "unat gas < 2 ^ 63" "evmglue_execute env gas e = Some (res, e')"
    "total_supply (env_db env) (evm_state e) < 2 ^ 256"
  shows "total_supply (env_db env) (evm_state e') \<le> total_supply (env_db env) (evm_state e)"
  using run_below_returns [OF source_evm_execute(1) [OF assms(1,2)] evmglue_execute_ok [OF source_evm_execute(2) [OF assms(1,2)]] assms(3)]
    assms(4) by (simp add: evm_inv_def advances_def)

text \<open>The sample transfer goes to an account without code, so that it runs in London.\<close>

lemma sample_transfer_runs: "\<exists>res e'. evmglue_execute (sample_env_at London sample_transfer) 100000 sample_evm = Some (res, e')"
proof -
  define s where "s = snd (ibs_get_balance sample_db IntraBlockState_new 10)"
  define t where "t = snd (get_code sample_db s 20)"
  have good: "state_good sample_db IntraBlockState_new"
    using sample_source_evm [of sample_transfer London] by (simp add: source_evm_def)
  then have q: "quiet sample_db IntraBlockState_new s" by (simp add: s_def reads_quiet)
  then have r: "quiet sample_db s t" using get_code_quiet [OF quiet_good [OF q], of 20] by (simp add: t_def sample_db_def)
  have c: "fst (get_code sample_db s 20) = None"
    by (simp add: s_def get_code_def get_object_def ibs_get_balance_def IntraBlockState_new_def sample_db_def Let_def)
  have "fst (ibs_get_balance sample_db t 10) = 500"
    using same_core_trans [of sample_db IntraBlockState_new s t] q r sample_balance
    by (simp add: quiet_def reads_value same_core_def)
  then have "returns (\<lambda>s1. returns (\<lambda>_. True) (add_to_balance sample_db s1 20 5)) (subtract_from_balance sample_db t 10 5)"
    by (intro returns_mono [OF transfer_advances [OF quiet_good [OF r]]]) (auto elim!: returns_mono)
  then show ?thesis
    using sample_balance c
    by (auto simp: returns_ex evmglue_execute_def evm_call_def on_state_def call_body_def call_transfer_def Let_def is_precompiled_def
        number_of_precompiles_def NUM_OF_ISTANBUL_CONTRACTS_def less_eq_Revision_def set_state_def
        simp flip: s_def t_def)
qed

theorem execution_makes_no_ether_witness:
  "\<exists>res e'. evmglue_execute (sample_env_at London sample_transfer) 100000 sample_evm = Some (res, e')
     \<and> total_supply sample_db (evm_state e') \<le> 500"
  using sample_transfer_runs execution_makes_no_ether [OF sample_source_evm, of sample_transfer 100000 London]
  by (auto simp: sample_supply)

text \<open>C8: A transaction that does not succeed leaves no trace: in any revision and on the source's contracts,
  when the execution returns another status than success, every account, the storage of every account,
  the logs, the refund counter and the set of self-destructed accounts are those it started with, but
  for the sender's nonce when a creation failed after it was counted.\<close>

theorem failed_execution_restores:
  assumes "source_evm P env e" "unat gas < 2 ^ 63" "evmglue_execute env gas e = Some (res, e')" "cr_status_code res \<noteq> Success"
  shows "same_core (env_db env) (evm_state e) (evm_state e')
    \<or> tx_action (tm_message (env_txn env)) = ActionCreate
      \<and> nonce_bumped (env_db env) (tm_sender (env_txn env)) (evm_state e) (evm_state e')"
  using run_below_returns [OF source_evm_execute(1) [OF assms(1,2)] evmglue_execute_ok [OF source_evm_execute(2) [OF assms(1,2)]] assms(3)]
    assms(4) by simp

theorem failed_execution_restores_witness:
  "\<exists>res e'. evmglue_execute (sample_env_at London sample_overdraft) 100000 sample_evm = Some (res, e')
     \<and> cr_status_code res = InsufficientBalance \<and> same_core sample_db IntraBlockState_new (evm_state e')"
proof -
  obtain res e' where r: "evmglue_execute (sample_env_at London sample_overdraft) 100000 sample_evm = Some (res, e')"
      "cr_status_code res = InsufficientBalance"
    using sample_balance by (simp add: evmglue_execute_def evm_call_def on_state_def initial_output_def)
  then show ?thesis
    using failed_execution_restores [OF sample_source_evm, of sample_overdraft 100000 London res e'] by simp
qed

text \<open>C9: A static call changes nothing, whatever code it runs and whatever it calls in turn: in any revision
  the accounts, the storage, the logs, the refund counter and the self-destructed accounts stay as they
  were, and no more gas is left than was given. The call returns when the panic of modular exponentiation
  on an exponent of \<open>2 ^ 61\<close> bytes or more is a failure (\<open>guarded\<close>), and on the source's contracts it
  returns the same or panics.\<close>

theorem static_call_changes_nothing:
  assumes "source_evm P env e" "message_ok (1024 - int n) msg" "msg_is_static msg"
  shows "\<exists>out e'. evm_call (guarded P env) (evm_host (guarded P env) n) msg e = Some (out, e')
    \<and> evm_call env (evm_host env n) msg e \<in> {None, Some (out, e')}
    \<and> out_gas_left out \<le> msg_gas msg \<and> same_core (env_db env) (evm_state e) (evm_state e')"
proof -
  have "table_below (env_contracts env) (guarded_contracts (env_lib env) P)"
    using assms(1) source_table_below by (auto simp: source_evm_def source_env_def)
  then have b: "run_below (evm_call env (evm_host env n) msg e) (evm_call (guarded P env) (evm_host (guarded P env) n) msg e)"
    unfolding guarded_def by (intro host_refinement.evm_call_below host_refinement.intro evm_host_below)
  have "returns (call_post (guarded P env) True (evm_state e) (msg_gas msg)) (evm_call (guarded P env) (evm_host (guarded P env) n) msg e)"
    using assms source_good(1) [OF assms(1)] by (intro evm_call_ok [OF evm_host_ok]) (simp_all add: depth_ok_def)
  then show ?thesis using run_below_cases [OF b] by (auto simp: returns_ex call_post_def frame_post_def evm_inv_def)
qed

theorem static_call_changes_nothing_witness:
  "\<exists>out e'. evm_call (guarded sample_crypto (sample_env_at Byzantium sample_transfer))
      (evm_host (guarded sample_crypto (sample_env_at Byzantium sample_transfer)) 1024)
      (sample_message\<lparr>msg_is_static := True, msg_value := 5\<rparr>) sample_evm = Some (out, e')
    \<and> same_core sample_db IntraBlockState_new (evm_state e')"
proof -
  have "message_ok (1024 - int 1024) (sample_message\<lparr>msg_is_static := True, msg_value := 5\<rparr>)"
    by (simp add: message_ok_def sample_message_def)
  then show ?thesis
    using static_call_changes_nothing [OF sample_source_evm, of sample_transfer 1024 "sample_message\<lparr>msg_is_static := True, msg_value := 5\<rparr>" Byzantium]
    by auto
qed

end
