(* ===== verification/BlockSafety.thy ===== *)
theory BlockSafety
  imports ProcessorSafety ContractTable
begin

text \<open>
  Blocks on the source's own table of precompiled contracts: the processor runs below the one on the
  guarded table of \<open>ContractTable\<close>, for which \<open>ProcessorSafety\<close> proves that nothing panics. So whatever
  the source's processor returns has the properties proved there, and it can panic only where modular
  exponentiation does.
\<close>

section \<open>The processor is monotone in the table of contracts\<close>

lemma processor_tables:
  "buy_gas (with_contracts env t) = buy_gas env" "settle_transaction (with_contracts env t) = settle_transaction env"
  "validate_transaction (with_contracts env t) = validate_transaction env"
  "with_txn (with_contracts env t) txn = with_contracts (with_txn env txn) t"
  by (intro ext; simp add: buy_gas_def settle_transaction_def refund_gas_def validate_transaction_def available_gas_def
      env_base_fee_def Let_def cong: if_cong sum.case_cong)+
    (simp add: with_txn_def with_contracts_def)

lemma execute_transaction_below:
  assumes "table_below (env_contracts env) t"
  shows "run_below (execute_transaction env p txn) (execute_transaction (with_contracts env t) p txn)"
  unfolding execute_transaction_def Let_def processor_tables with_contracts_simps
  by (intro run_below_rules evmglue_execute_below) (use assms in simp)

lemma run_transactions_below:
  assumes "table_below (env_contracts env) t"
  shows "run_below (run_transactions env txns p receipts) (run_transactions (with_contracts env t) txns p receipts)"
proof (induction txns arbitrary: p receipts)
  case (Cons txn txns)
  then show ?case unfolding run_transactions.simps processor_tables
    by (intro run_below_rules execute_transaction_below assms)
qed simp

lemma execute_block_below:
  assumes "table_below (env_contracts env) t"
  shows "run_below (execute_block_no_post_validation env block p) (execute_block_no_post_validation (with_contracts env t) block p)"
  unfolding execute_block_no_post_validation_def Let_def with_contracts_simps
  by (intro run_below_rules run_transactions_below assms)

section \<open>The environment of a block on the source's table\<close>

definition source_block :: "crypto_lib \<Rightarrow> 'c Env \<Rightarrow> bool" where
  "source_block P env \<longleftrightarrow> source_table P env \<and> lru_ok (env_lru env)
     \<and> (\<forall>h. length (read_code (env_db env) h) < 2 ^ 63) \<and> unat (ph_gas_limit (env_header env)) < 2 ^ 63
     \<and> (\<exists>hash. headers_linked (env_db env) (unat (ph_number (env_header env))) (ph_parent_hash (env_header env)) hash)"

lemma source_block_ok:
  assumes "source_block P env"
  shows "block_ok (guarded P env)" "env_revision env < Byzantium \<Longrightarrow> block_ok env"
    "table_below (env_contracts env) (guarded_contracts (env_lib env) P)"
  using assms guarded_precompiles [of P env] early_precompiles [of P env] source_table_below [of P env]
  by (simp_all add: source_block_def block_ok_def)

lemma guarded_proc [simp]: "proc_ok (guarded P env) = proc_ok env" "tx_ok (guarded P env) = tx_ok env"
  "may_run (guarded P env) = may_run env"
  by (auto simp: proc_ok_def tx_ok_def may_run_def cache_ok_def available_gas_def guarded_def fun_eq_iff)

lemma guarded_processor:
  assumes "table_below (env_contracts env) (guarded_contracts (env_lib env) P)"
  shows "run_below (execute_transaction env p txn) (execute_transaction (guarded P env) p txn)"
    "run_below (run_transactions env txns p receipts) (run_transactions (guarded P env) txns p receipts)"
    "run_below (execute_block_no_post_validation env block p) (execute_block_no_post_validation (guarded P env) block p)"
  using assms unfolding guarded_def by (rule execute_transaction_below run_transactions_below execute_block_below)+

section \<open>Properties\<close>

abbreviation sample_london :: "(h256 \<rightharpoonup> AnalyzedCode) Env" where
  "sample_london \<equiv> sample_env_at London sample_free_transfer"

lemma sample_london_block: "source_block sample_crypto sample_london"
  using sample_source_evm [of sample_free_transfer London]
  by (simp add: source_evm_def source_env_def source_block_def) (simp add: sample_env_at_def sample_env_def sample_header_def)

lemma sample_london_tx: "tx_ok sample_london sample_txn"
  using sample_tx_ok by (simp add: tx_ok_def sample_env_at_def)

lemma sample_london_proc: "proc_ok sample_london (processor_new Map.empty)"
  using sample_proc_ok by (simp add: proc_ok_def cache_ok_def sample_env_at_def)

lemma sample_london_acceptable: "acceptable sample_london (processor_new Map.empty) sample_txn"
  using sample_acceptable by (simp add: acceptable_def may_run_def sample_env_at_def)

text \<open>C5: Validation accepts a pre-validated transaction exactly when its sender is not a contract, its
  nonce is the sender's, the balance covers the value and the gas limit at the maximal fee (as
  natural numbers: the 512-bit arithmetic does not wrap) and the block has the gas left. An
  accepted transaction then runs: on the guarded contracts, where modular exponentiation fails instead
  of panicking on an exponent of \<open>2 ^ 61\<close> bytes or more, execution returns whatever the code called does;
  on the source's contracts it returns the same or, from Byzantium on, panics. The only error left
  is a gas limit below the intrinsic gas, and otherwise the receipt's cumulative gas is the block's gas
  before plus at most the transaction's limit, within the limit of the block, and no ether was made.\<close>

theorem validated_transaction_runs:
  assumes "source_block P env" "proc_ok env p" "tx_ok env txn"
  shows "\<exists>v p1. validate_transaction env p txn = Some (v, p1) \<and> (v = Inr () \<longleftrightarrow> acceptable env p txn) \<and> (v = Inr () \<longrightarrow>
    (\<exists>r p2. execute_transaction (guarded P env) p1 txn = Some (r, p2)
      \<and> execute_transaction env p1 txn \<in> {None, Some (r, p2)}
      \<and> (env_revision env < Byzantium \<longrightarrow> execute_transaction env p1 txn = Some (r, p2)) \<and>
      (case r of
         Inl err \<Rightarrow> err = IntrinsicGas
       | Inr receipt \<Rightarrow> rc_cumulative_gas_used receipt = pr_cumulative_gas_used p2
           \<and> pr_cumulative_gas_used p \<le> pr_cumulative_gas_used p2
           \<and> unat (pr_cumulative_gas_used p2) \<le> unat (pr_cumulative_gas_used p) + unat (tx_gas_limit (tm_message txn))
           \<and> pr_cumulative_gas_used p2 \<le> ph_gas_limit (env_header env)
           \<and> total_supply (env_db env) (pr_state p2) \<le> total_supply (env_db env) (pr_state p))))"
proof -
  note ok = source_block_ok [OF assms(1)]
  obtain v p1 where v: "validate_transaction env p txn = Some (v, p1)" "v = Inr () \<longleftrightarrow> acceptable env p txn" and p1: "proc_ok env p1"
      "same_core (env_db env) (pr_state p) (pr_state p1)" "pr_cumulative_gas_used p1 = pr_cumulative_gas_used p"
    using validate_transaction_ok [OF assms(2,3)] by (auto simp: returns_ex acceptable_def)
  have run: "may_run env p1 txn" if "v = Inr ()" using that v(2) may_run_same [OF p1(2,3)] by (simp add: acceptable_def)
  note same_supply = same_core_supply [OF p1(2)]
  have b: "execute_transaction env p1 txn = None \<or> execute_transaction env p1 txn = execute_transaction (guarded P env) p1 txn"
    by (rule run_below_cases [OF guarded_processor(1) [OF ok(3)]])
  have early: "execute_transaction env p1 txn \<noteq> None" if "env_revision env < Byzantium" "v = Inr ()"
    using execute_transaction_ok [OF ok(2) [OF that(1)] p1(1) assms(3) run [OF that(2)]] by (auto simp: returns_ex)
  have "\<exists>r p2. execute_transaction (guarded P env) p1 txn = Some (r, p2) \<and>
      (case r of
         Inl err \<Rightarrow> err = IntrinsicGas
       | Inr receipt \<Rightarrow> rc_cumulative_gas_used receipt = pr_cumulative_gas_used p2
           \<and> pr_cumulative_gas_used p \<le> pr_cumulative_gas_used p2
           \<and> unat (pr_cumulative_gas_used p2) \<le> unat (pr_cumulative_gas_used p) + unat (tx_gas_limit (tm_message txn))
           \<and> pr_cumulative_gas_used p2 \<le> ph_gas_limit (env_header env)
           \<and> total_supply (env_db env) (pr_state p2) \<le> total_supply (env_db env) (pr_state p))" if "v = Inr ()"
    using execute_transaction_ok [OF ok(1), of p1 txn] p1 assms(3) run [OF that] same_supply
    by (auto simp: returns_ex proc_ok_def [of env] split: sum.splits)
  then show ?thesis using v b early by fastforce
qed

theorem validated_transaction_runs_witness:
  "\<exists>p1 r p2. validate_transaction sample_london (processor_new Map.empty) sample_txn = Some (Inr (), p1)
     \<and> execute_transaction (guarded sample_crypto sample_london) p1 sample_txn = Some (r, p2)
     \<and> execute_transaction sample_london p1 sample_txn \<in> {None, Some (r, p2)}"
  using validated_transaction_runs [OF sample_london_block sample_london_proc sample_london_tx] sample_london_acceptable by blast

text \<open>C6: Running the transactions of a block keeps the block's gas: on the guarded contracts it never
  panics, and on the source's it gives the same or, from Byzantium on, panics. Either a transaction is
  refused, or the receipts have growing cumulative gas, each at most the gas the processor ends with,
  which is within the limit of the block.\<close>

theorem block_gas_within_limit:
  assumes "source_block P env" "proc_ok env p" "\<forall>txn \<in> set txns. tx_ok env txn"
  shows "\<exists>r p'. run_transactions (guarded P env) txns p [] = Some (r, p')
    \<and> run_transactions env txns p [] \<in> {None, Some (r, p')}
    \<and> (env_revision env < Byzantium \<longrightarrow> run_transactions env txns p [] = Some (r, p'))
    \<and> (\<forall>receipts. r = Inr receipts \<longrightarrow> pr_cumulative_gas_used p' \<le> ph_gas_limit (env_header env)
      \<and> sorted (map rc_cumulative_gas_used receipts)
      \<and> (\<forall>receipt \<in> set receipts. rc_cumulative_gas_used receipt \<le> pr_cumulative_gas_used p'))"
proof -
  note ok = source_block_ok [OF assms(1)]
  have "returns (block_post (guarded P env) p []) (run_transactions (guarded P env) txns p [])"
    using assms(2,3) by (intro run_transactions_ok [OF ok(1)]) simp_all
  moreover have "run_transactions env txns p [] \<noteq> None" if "env_revision env < Byzantium"
    using run_transactions_ok [OF ok(2) [OF that] assms(2,3), of "[]"] by (auto simp: returns_ex)
  ultimately show ?thesis using run_below_cases [OF guarded_processor(2) [OF ok(3)], of txns p "[]"]
    by (auto simp: returns_ex block_post_def proc_ok_def)
qed

theorem block_gas_within_limit_witness:
  "\<exists>r p'. run_transactions (guarded sample_crypto sample_london) [sample_txn, sample_txn] (processor_new Map.empty) [] = Some (r, p')
     \<and> run_transactions sample_london [sample_txn, sample_txn] (processor_new Map.empty) [] \<in> {None, Some (r, p')}"
  using block_gas_within_limit [OF sample_london_block sample_london_proc, of "[sample_txn, sample_txn]"] sample_london_tx by auto

text \<open>C4: The rewards are all the ether a block makes: when the specification of the block changes no
  balances, the execution of its transactions and the consensus engine's finalization return on the
  guarded contracts, and give the same or, from Byzantium on, panic on the source's; a block that is
  not refused ends with at most the supply it started with and the rewards.\<close>

theorem block_makes_only_rewards:
  assumes "source_block P env" "proc_ok env p" "\<forall>txn \<in> set (bws_transactions block). tx_ok env txn"
    "bs_balance_changes (env_spec env) = Map.empty"
    "total_supply (env_db env) (pr_state p)
       + sum_list (map reward_amount (finalize (env_header env) (bws_ommers block) (env_revision env))) < 2 ^ 256"
  shows "\<exists>r p'. execute_block_no_post_validation (guarded P env) block p = Some (r, p')
    \<and> execute_block_no_post_validation env block p \<in> {None, Some (r, p')}
    \<and> (env_revision env < Byzantium \<longrightarrow> execute_block_no_post_validation env block p = Some (r, p'))
    \<and> (\<forall>receipts. r = Inr receipts \<longrightarrow> total_supply (env_db env) (pr_state p') \<le> total_supply (env_db env) (pr_state p)
        + sum_list (map reward_amount (finalize (env_header env) (bws_ommers block) (env_revision env))))"
proof -
  note ok = source_block_ok [OF assms(1)]
  note early = execute_block_ok [OF ok(2) assms(2-5)]
  have "execute_block_no_post_validation env block p \<noteq> None" if "env_revision env < Byzantium"
    using early [OF that] by (auto simp: returns_ex)
  then show ?thesis
    using execute_block_ok [OF ok(1), of p block] assms(2-5) run_below_cases [OF guarded_processor(3) [OF ok(3)], of block p]
    by (auto simp: returns_ex)
qed

lemma sample_london_rewards: "map reward_amount (finalize (env_header sample_london) [] London) = [2000000000000000000]"
  by (simp add: finalize_def reward_amount_def block_reward_of_def less_eq_Revision_def BLOCK_REWARD_CONSTANTINOPLE_def ETHER_def unsigned_ucast_eq take_bit_eq_mod)

theorem block_makes_only_rewards_witness:
  "\<exists>r p'. execute_block_no_post_validation (guarded sample_crypto sample_london) sample_body (processor_new Map.empty) = Some (r, p')
     \<and> execute_block_no_post_validation sample_london sample_body (processor_new Map.empty) \<in> {None, Some (r, p')}
     \<and> (\<forall>receipts. r = Inr receipts \<longrightarrow> total_supply sample_db (pr_state p') \<le> 500 + 2000000000000000000)"
proof -
  have "pr_state (processor_new (Map.empty :: h256 \<rightharpoonup> AnalyzedCode)) = IntraBlockState_new"
    "bs_balance_changes (env_spec sample_london) = Map.empty"
    by (simp_all add: sample_env_def processor_new_def)
  then show ?thesis
    using block_makes_only_rewards [OF sample_london_block sample_london_proc, of sample_body] sample_london_tx sample_london_rewards
    by (simp add: sample_supply) blast
qed

end
