(* ===== verification/StorageRefund.thy ===== *)
theory StorageRefund
  imports EvmGlue
begin

text \<open>
  The refunds of net gas metering (EIP-1283, EIP-2200 and EIP-3529), as \<open>EvmHost::set_storage\<close> of
  \<open>src/execution/evmglue.rs\<close> books them in the refund counter. The counter is a \<open>u64\<close> that the
  code both adds to and subtracts from. \<open>net_refund\<close> is what one write books, in the integers; the
  refund of the EIPs, \<open>eip_refund\<close>, is stated from the first and last values of the slots and the
  number of times they were set back, with the amounts of the EIPs, and the theorem shows that the
  counter equals it after any sequence of writes.
\<close>

section \<open>What one write books\<close>

definition net_refund :: "Revision \<Rightarrow> u256 \<Rightarrow> u256 \<Rightarrow> u256 \<Rightarrow> int" where
  "net_refund r original current new =
     (if current = new then 0
      else if original = current then (if original \<noteq> 0 \<and> new = 0 then uint (sstore_clears_refund r) else 0)
      else (if original \<noteq> 0 \<and> current = 0 then - uint (sstore_clears_refund r) else 0)
         + (if original \<noteq> 0 \<and> new = 0 then uint (sstore_clears_refund r) else 0)
         + (if original = new
            then uint (if original = 0 then G_SSET else sstore_reset_gas r) - uint (sload_cost r) else 0))"

type_synonym storage_write = "address \<times> u256 \<times> u256"

definition write_slot :: "Revision \<Rightarrow> Database \<Rightarrow> IntraBlockState \<Rightarrow> storage_write \<Rightarrow> IntraBlockState" where
  "write_slot r db s w = (case w of (a, k, v) \<Rightarrow> snd (host_set_storage r db s a k v))"

fun write_slots :: "Revision \<Rightarrow> Database \<Rightarrow> IntraBlockState \<Rightarrow> storage_write list \<Rightarrow> IntraBlockState" where
  "write_slots r db s [] = s"
| "write_slots r db s (w # ws) = write_slots r db (write_slot r db s w) ws"

text \<open>The slots that hold zero now and did not when the transaction started.\<close>

definition cleared :: "Database \<Rightarrow> IntraBlockState \<Rightarrow> (address \<times> u256) set" where
  "cleared db s = {(a, k). account_view db s a \<noteq> None \<and> original_view db s a k \<noteq> 0 \<and> current_view db s a k = 0}"

section \<open>One write\<close>

lemma refund_constants:
  "uint (sstore_clears_refund r) \<le> 15000" "0 \<le> uint (sstore_clears_refund r)"
  "uint (sload_cost r) \<le> uint (sstore_reset_gas r)" "uint (sload_cost r) \<le> uint G_SSET"
  "uint (sstore_reset_gas r) \<le> 5000" "uint G_SSET = 20000"
  by (simp_all add: sstore_clears_refund_def sload_cost_def sstore_reset_gas_def G_SSET_def R_SCLEAR_def G_SRESET_def
      FEE_COLD_SLOAD_COST_def ACCESS_LIST_STORAGE_KEY_COST_def FEE_WARM_STORAGE_READ_COST_def G_SLOAD_ISTANBUL_def
      G_SLOAD_TANGERINE_WHISTLE_def)

lemma uint_bonus:
  "uint (sstore_reset_gas r - sload_cost r) = uint (sstore_reset_gas r) - uint (sload_cost r)"
  "uint (G_SSET - sload_cost r) = uint G_SSET - uint (sload_cost r)"
  using refund_constants(3,4) [of r] by (simp_all add: uint_sub_lem flip: word_le_def)

lemma uint_refund:
  "uint (refund (add_refund s n)) = (uint (refund s) + uint n) mod 2 ^ 64"
  "uint (refund (subtract_refund s n)) = (uint (refund s) - uint n) mod 2 ^ 64"
  by (simp_all add: add_refund_def subtract_refund_def uint_word_ariths)

lemma net_metering_refund:
  assumes "current \<noteq> new" "0 \<le> uint (refund s) + net_refund r original current new"
    "uint (refund s) + net_refund r original current new < 2 ^ 64"
  shows "uint (refund (snd (net_metering r original current new s))) = uint (refund s) + net_refund r original current new"
proof -
  have u: "uint (refund s) mod 2 ^ 64 = uint (refund s)"
    by (rule mod_pos_pos_trivial) (use unsigned_less [where 'a = int, of "refund s"] in simp_all)
  have "uint (refund (snd (net_metering r original current new s))) = (uint (refund s) + net_refund r original current new) mod 2 ^ 64"
    using assms(1) u
    by (auto simp: net_metering_def net_refund_def Let_def uint_refund uint_bonus mod_simps)
      (simp_all add: algebra_simps)
  then show ?thesis using assms(2,3) by (simp add: mod_pos_pos_trivial)
qed

text \<open>What a write does to the views, and to the counter.\<close>

lemma net_metering_frame:
  "current_view db (snd (net_metering r ov cv nv s)) = current_view db s"
  "original_view db (snd (net_metering r ov cv nv s)) = original_view db s"
  "account_view db (snd (net_metering r ov cv nv s)) = account_view db s"
  "ibs_ok db (snd (net_metering r ov cv nv s)) = ibs_ok db s"
  by (simp_all add: net_metering_def add_refund_def subtract_refund_def Let_def)

lemma read_views:
  assumes "ibs_ok db s" "ibs_get_storage db s a k o' = (v, t)"
  shows "ibs_ok db t" "account_view db t = account_view db s"
    "account_view db s b \<noteq> None \<Longrightarrow> current_view db t b l = current_view db s b l"
    "account_view db s b \<noteq> None \<Longrightarrow> original_view db t b l = original_view db s b l" "refund t = refund s"
  using ibs_get_storage_spec [OF assms(1), of a k o'] storage_read_frame(1) [of db s a k o'] restored_ok [OF assms(1), of t]
    restored_account [of db s t]
  by (auto simp: assms(2) read_spec_def restored_def)

lemma set_storage_refund: "refund (ibs_set_storage db s a k v) = refund s"
  using storage_read_frame(1) [of db s a k False]
  by (auto simp: ibs_set_storage_def get_current_storage_def put_current_def Let_def split: prod.splits)

lemma write_slot_effect:
  assumes ok: "ibs_ok db s" and live: "account_view db s a \<noteq> None" and r: "eip1283 r"
    and b: "0 \<le> uint (refund s) + net_refund r (original_view db s a k) (current_view db s a k) v"
      "uint (refund s) + net_refund r (original_view db s a k) (current_view db s a k) v < 2 ^ 64"
  defines "t \<equiv> write_slot r db s (a, k, v)"
  shows "ibs_ok db t" "account_view db t = account_view db s"
    "account_view db s c \<noteq> None \<Longrightarrow> current_view db t c l = (if c = a \<and> l = k then v else current_view db s c l)"
    "account_view db s c \<noteq> None \<Longrightarrow> original_view db t c l = original_view db s c l"
    "uint (refund t) = uint (refund s) + net_refund r (original_view db s a k) (current_view db s a k) v"
proof -
  obtain cv s1 where g1: "ibs_get_storage db s a k False = (cv, s1)" by fastforce
  note r1 = read_views [OF ok g1]
  have cv: "cv = current_view db s a k" using ibs_get_storage_spec [OF ok, of a k False] live by (simp add: g1 read_spec_def)
  define s2 where "s2 = ibs_set_storage db s1 a k v"
  note w = set_storage_views [OF r1(1), where a = a and k = k and v = v, folded s2_def]
  have ok2: "ibs_ok db s2" unfolding s2_def by (rule set_storage_ok [OF r1(1)])
  obtain ov s3 where g3: "ibs_get_storage db s2 a k True = (ov, s3)" by fastforce
  note r3 = read_views [OF ok2 g3]
  have live2: "account_view db s2 a \<noteq> None" using live w(1) r1(2) by simp
  have ov: "ov = original_view db s a k"
    using ibs_get_storage_spec [OF ok2, of a k True] live2 w(3) r1(2,4) live by (simp add: g3 read_spec_def)
  have rf: "refund s3 = refund s" using r3(5) r1(5) by (simp add: s2_def set_storage_refund)
  have t: "t = (if cv = v then s1 else snd (net_metering r ov cv v s3))"
    by (simp add: t_def write_slot_def host_set_storage_def get_current_storage_def get_original_storage_def g1 g3
        s2_def [symmetric] r)
  show "ibs_ok db t" "account_view db t = account_view db s"
    using r1(1,2) r3(1,2) w(1) by (simp_all add: t net_metering_frame)
  show "current_view db t c l = (if c = a \<and> l = k then v else current_view db s c l)"
    "original_view db t c l = original_view db s c l" if "account_view db s c \<noteq> None"
    using that r1(2-4) r3(3,4) w cv by (auto simp: t net_metering_frame)
  show "uint (refund t) = uint (refund s) + net_refund r (original_view db s a k) (current_view db s a k) v"
  proof (cases "cv = v")
    case True
    then show ?thesis using r1(5) cv by (simp add: t net_refund_def)
  next
    case False
    then show ?thesis using net_metering_refund [of cv v s3 r ov] b by (simp add: t rf ov cv)
  qed
qed

lemma cleared_write:
  assumes "account_view db t = account_view db s" "account_view db s a \<noteq> None"
    "\<And>c l. account_view db s c \<noteq> None \<Longrightarrow> current_view db t c l = (if c = a \<and> l = k then v else current_view db s c l)"
    "\<And>c l. account_view db s c \<noteq> None \<Longrightarrow> original_view db t c l = original_view db s c l"
  shows "cleared db t = (if original_view db s a k \<noteq> 0 \<and> v = 0 then insert (a, k) (cleared db s) else cleared db s - {(a, k)})"
  using assms by (auto simp: cleared_def split: if_splits)

text \<open>The counter covers what the cleared slots may take back.\<close>

lemma net_refund_bounds:
  fixes s db a k v r
  defines "o' \<equiv> original_view db s a k" and "c \<equiv> current_view db s a k"
  defines "C \<equiv> if o' \<noteq> 0 \<and> v = 0 then insert (a, k) (cleared db s) else cleared db s - {(a, k)}"
  assumes "account_view db s a \<noteq> None" "uint (sstore_clears_refund r) * int (card (cleared db s)) \<le> R"
  shows "uint (sstore_clears_refund r) * int (card C) \<le> R + net_refund r o' c v" "net_refund r o' c v \<le> 40000"
proof -
  have mem: "(a, k) \<in> cleared db s \<longleftrightarrow> o' \<noteq> 0 \<and> c = 0" using assms(4) by (simp add: cleared_def o'_def c_def)
  have fin: "finite (cleared db s)" by (rule finite)
  define x where "x = uint (sstore_clears_refund r)"
  have "card C = card (cleared db s) + of_bool ((a, k) \<notin> cleared db s \<and> o' \<noteq> 0 \<and> v = 0)
      - of_bool ((a, k) \<in> cleared db s \<and> \<not> (o' \<noteq> 0 \<and> v = 0))"
    using fin by (simp add: C_def insert_absorb card_Diff_singleton_if)
  moreover have "0 < card (cleared db s)" if "(a, k) \<in> cleared db s" using that fin by (auto simp: card_gt_0_iff)
  ultimately have "int (card C) = int (card (cleared db s)) + of_bool ((a, k) \<notin> cleared db s \<and> o' \<noteq> 0 \<and> v = 0)
      - of_bool ((a, k) \<in> cleared db s \<and> \<not> (o' \<noteq> 0 \<and> v = 0))"
    by (auto simp: of_nat_diff)
  then have "x * int (card C) = x * int (card (cleared db s)) + x * of_bool ((a, k) \<notin> cleared db s \<and> o' \<noteq> 0 \<and> v = 0)
      - x * of_bool ((a, k) \<in> cleared db s \<and> \<not> (o' \<noteq> 0 \<and> v = 0))"
    by (simp only: distrib_left right_diff_distrib)
  then show "uint (sstore_clears_refund r) * int (card C) \<le> R + net_refund r o' c v"
    using assms(5) refund_constants(1-5) [of r] refund_constants(6) mem unfolding net_refund_def x_def [symmetric]
    by (auto simp: of_bool_def split: if_splits)
  define y where "y = uint (sload_cost r)"
  have "0 \<le> x" "0 \<le> y" by (simp_all add: x_def y_def)
  then show "net_refund r o' c v \<le> 40000" using refund_constants(1,5) [of r] refund_constants(6)
    unfolding net_refund_def x_def [symmetric] y_def [symmetric] by auto
qed

section \<open>The refunds of the EIPs\<close>

text \<open>
  The amounts of EIP-1283 (Constantinople), EIP-2200 (Istanbul), EIP-2929 (Berlin) and EIP-3529
  (London): what a cleared slot is worth, and what is given back when a slot is set back to the value
  it had when the transaction started.
\<close>

definition eip_clears :: "Revision \<Rightarrow> int" where
  "eip_clears r = (if r \<ge> London then 4800 else 15000)"

definition eip_restores :: "Revision \<Rightarrow> u256 \<Rightarrow> int" where
  "eip_restores r original =
     (if original = 0 then (if r \<ge> Berlin then 19900 else if r \<ge> Istanbul then 19200 else 19800)
      else (if r \<ge> Berlin then 2800 else if r \<ge> Istanbul then 4200 else 4800))"

text \<open>The slots after a list of writes, and the writes that set a slot back to its first value.\<close>

definition slots_after :: "(address \<times> u256 \<Rightarrow> u256) \<Rightarrow> storage_write list \<Rightarrow> address \<times> u256 \<Rightarrow> u256" where
  "slots_after orig ws = fold (\<lambda>(a, k, v) m. m((a, k) := v)) ws orig"

definition sets_back :: "(address \<times> u256 \<Rightarrow> u256) \<Rightarrow> storage_write list \<Rightarrow> nat \<Rightarrow> bool" where
  "sets_back orig ws i \<longleftrightarrow> (case ws ! i of (a, k, v) \<Rightarrow> v = orig (a, k) \<and> slots_after orig (take i ws) (a, k) \<noteq> v)"

definition eip_refund :: "Revision \<Rightarrow> (address \<times> u256 \<Rightarrow> u256) \<Rightarrow> storage_write list \<Rightarrow> int" where
  "eip_refund r orig ws = eip_clears r * int (card {p. orig p \<noteq> 0 \<and> slots_after orig ws p = 0})
     + (\<Sum>i < length ws. if sets_back orig ws i then eip_restores r (snd (snd (ws ! i))) else 0)"

lemma eip_amounts:
  assumes "eip1283 r"
  shows "uint (sstore_clears_refund r) = eip_clears r"
    "uint (if original = 0 then G_SSET else sstore_reset_gas r) - uint (sload_cost r) = eip_restores r original"
  using assms
  by (cases r; simp add: eip_clears_def eip_restores_def sstore_clears_refund_def sload_cost_def sstore_reset_gas_def G_SSET_def
      R_SCLEAR_def G_SRESET_def FEE_COLD_SLOAD_COST_def ACCESS_LIST_STORAGE_KEY_COST_def FEE_WARM_STORAGE_READ_COST_def
      G_SLOAD_ISTANBUL_def G_SLOAD_TANGERINE_WHISTLE_def less_eq_Revision_def eip1283_def)+

lemma slots_after_snoc: "slots_after orig (ws @ [(a, k, v)]) = (slots_after orig ws)((a, k) := v)"
  by (simp add: slots_after_def)

lemma sets_back_snoc:
  "i < length ws \<Longrightarrow> sets_back orig (ws @ [w]) i = sets_back orig ws i"
  "sets_back orig (ws @ [(a, k, v)]) (length ws) \<longleftrightarrow> v = orig (a, k) \<and> slots_after orig ws (a, k) \<noteq> v"
  by (simp_all add: sets_back_def nth_append)

text \<open>The refunds of the single writes add up to the refund of the EIPs: the clearings telescope.\<close>

lemma eip_refund_snoc:
  assumes "eip1283 r"
  shows "eip_refund r orig (ws @ [(a, k, v)])
    = eip_refund r orig ws + net_refund r (orig (a, k)) (slots_after orig ws (a, k)) v"
proof -
  define C where "C = {p. orig p \<noteq> 0 \<and> slots_after orig ws p = 0}"
  let ?p = "(a, k)"
  have mem: "?p \<in> C \<longleftrightarrow> orig ?p \<noteq> 0 \<and> slots_after orig ws ?p = 0" by (simp add: C_def)
  have set: "{p. orig p \<noteq> 0 \<and> slots_after orig (ws @ [(a, k, v)]) p = 0} = (if orig ?p \<noteq> 0 \<and> v = 0 then insert ?p C else C - {?p})"
    by (auto simp: C_def slots_after_snoc)
  have fin: "finite C" by (rule finite)
  have "0 < card C" if "?p \<in> C" using that fin by (auto simp: card_gt_0_iff)
  then have card: "int (card {p. orig p \<noteq> 0 \<and> slots_after orig (ws @ [(a, k, v)]) p = 0})
      = int (card C) + of_bool (?p \<notin> C \<and> orig ?p \<noteq> 0 \<and> v = 0) - of_bool (?p \<in> C \<and> \<not> (orig ?p \<noteq> 0 \<and> v = 0))"
    unfolding set using fin by (cases "?p \<in> C"; cases "orig ?p \<noteq> 0 \<and> v = 0") (simp_all add: insert_absorb of_nat_diff)
  let ?gain = "\<lambda>us i. if sets_back orig us i then eip_restores r (snd (snd (us ! i))) else 0"
  have "?gain (ws @ [(a, k, v)]) i = ?gain ws i" if "i < length ws" for i using that by (simp add: sets_back_snoc nth_append)
  then have "(\<Sum>i < length ws. ?gain (ws @ [(a, k, v)]) i) = (\<Sum>i < length ws. ?gain ws i)" by (intro sum.cong) auto
  then have sum: "(\<Sum>i < length (ws @ [(a, k, v)]). ?gain (ws @ [(a, k, v)]) i) = (\<Sum>i < length ws. ?gain ws i)
      + (if v = orig ?p \<and> slots_after orig ws ?p \<noteq> v then eip_restores r v else 0)"
    by (auto simp: sets_back_snoc)
  show ?thesis
    unfolding eip_refund_def sum card net_refund_def eip_amounts(1) [OF assms] C_def [symmetric]
    using mem eip_amounts(2) [OF assms, of v]
    by (auto simp: algebra_simps)
qed

lemma write_slots_append: "write_slots r db s (ws @ [w]) = write_slot r db (write_slots r db s ws) w"
  by (induction ws arbitrary: s) simp_all

text \<open>The views and the counter after a list of writes.\<close>

lemma writes_effect:
  assumes "ibs_ok db s" "eip1283 r" "refund s = 0"
    "\<forall>a k. account_view db s a \<noteq> None \<longrightarrow> current_view db s a k = original_view db s a k"
    "\<forall>(a, k, v) \<in> set ws. account_view db s a \<noteq> None" "40000 * int (length ws) < 2 ^ 64"
  defines "orig \<equiv> \<lambda>(a, k). original_view db s a k" and "t \<equiv> write_slots r db s ws"
  shows "ibs_ok db t \<and> account_view db t = account_view db s
    \<and> (\<forall>a k. account_view db s a \<noteq> None \<longrightarrow> original_view db t a k = original_view db s a k
        \<and> current_view db t a k = slots_after orig ws (a, k))
    \<and> uint (refund t) = eip_refund r orig ws
    \<and> uint (refund t) \<le> 40000 * int (length ws)
    \<and> uint (sstore_clears_refund r) * int (card (cleared db t)) \<le> uint (refund t)"
  using assms(5,6) unfolding t_def
proof (induction ws rule: rev_induct)
  case Nil
  have "cleared db s = {}" using assms(4) by (auto simp: cleared_def)
  then show ?case using assms(1,3,4) by (simp add: slots_after_def eip_refund_def orig_def)
next
  case (snoc w ws)
  obtain a k v where w: "w = (a, k, v)" using prod_cases3 by blast
  define u where "u = write_slots r db s ws"
  define n where "n = net_refund r (original_view db u a k) (current_view db u a k) v"
  have u: "ibs_ok db u" "account_view db u = account_view db s" "uint (refund u) = eip_refund r orig ws"
      "uint (refund u) \<le> 40000 * int (length ws)" "uint (sstore_clears_refund r) * int (card (cleared db u)) \<le> uint (refund u)"
      "\<And>c l. account_view db s c \<noteq> None \<Longrightarrow> original_view db u c l = original_view db s c l
        \<and> current_view db u c l = slots_after orig ws (c, l)"
    using snoc by (simp_all add: u_def)
  have live: "account_view db u a \<noteq> None" using snoc.prems(1) u(2) by (simp add: w)
  note nb = net_refund_bounds [OF live u(5), of k v, folded n_def]
  have "0 \<le> uint (sstore_clears_refund r) * int m" for m by simp
  then have b: "0 \<le> uint (refund u) + n" "uint (refund u) + n < 2 ^ 64"
    using nb u(4) snoc.prems(2) order_trans by (blast, simp)
  note e = write_slot_effect [OF u(1) live assms(2) b [unfolded n_def], folded n_def]
  have "n = net_refund r (orig (a, k)) (slots_after orig ws (a, k)) v" using u(2,6) live by (simp add: n_def orig_def)
  then have "uint (refund (write_slot r db u (a, k, v))) = eip_refund r orig (ws @ [w])"
    using e(5) u(3) by (simp add: w eip_refund_snoc [OF assms(2)])
  moreover have "uint (sstore_clears_refund r) * int (card (cleared db (write_slot r db u (a, k, v)))) \<le> uint (refund (write_slot r db u (a, k, v)))"
    using nb(1) unfolding e(5) by (subst cleared_write [of db _ u a k v]) (use e live in auto)
  ultimately show ?case
    using e u nb(2) by (auto simp: write_slots_append w u_def [symmetric] slots_after_snoc)
qed

section \<open>Properties\<close>

text \<open>C27: Under net gas metering the refund counter is exact. A transaction that starts with the counter at
  zero and no slot written makes any sequence of storage writes, each to an account that exists; then
  the 64-bit counter is the refund that the EIPs define, in the integers: their amount for every slot
  that held a value and is now zero (whatever happened to it in between), and for every write that set a
  slot back to the value it had at the start, what the first change of the slot had cost too much. No
  subtraction took the counter below zero, and every slot holds the last value written to it.\<close>

theorem refund_counter_exact:
  assumes "ibs_ok db s" "eip1283 r" "refund s = 0"
    "\<forall>a k. account_view db s a \<noteq> None \<longrightarrow> current_view db s a k = original_view db s a k"
    "\<forall>(a, k, v) \<in> set ws. account_view db s a \<noteq> None" "40000 * int (length ws) < 2 ^ 64"
  shows "uint (refund (write_slots r db s ws)) = eip_refund r (\<lambda>(a, k). original_view db s a k) ws
    \<and> (\<forall>a k. account_view db s a \<noteq> None \<longrightarrow>
        current_view db (write_slots r db s ws) a k = slots_after (\<lambda>(a, k). original_view db s a k) ws (a, k))"
  using writes_effect [OF assms] by blast

theorem refund_counter_exact_witness:
  "uint (refund (write_slots London sample_db IntraBlockState_new [(10, 1, 7), (10, 1, 0), (10, 1, 7), (10, 1, 0)])) = 39800"
proof -
  let ?db = "sample_db" and ?s = IntraBlockState_new and ?ws = "[(10, 1, 7), (10, 1, 0), (10, 1, 7), (10, 1, 0)] :: storage_write list"
  have live: "account_view ?db ?s 10 \<noteq> None" by (simp add: account_view_def IntraBlockState_new_def sample_db_def)
  have z: "original_view ?db ?s a k = 0" "current_view ?db ?s a k = 0" for a k
    by (simp_all add: current_view_def original_view_def IntraBlockState_new_def sample_db_def or_default_def Storage_default_def)
  have r: "eip1283 London" by (simp add: eip1283_def less_eq_Revision_def)
  have "refund ?s = 0" by (simp add: IntraBlockState_new_def)
  then have "uint (refund (write_slots London ?db ?s ?ws)) = eip_refund London (\<lambda>(a, k). 0) ?ws"
    using refund_counter_exact [OF new_state_ok r, where ws = ?ws and db = ?db] live by (simp add: z)
  moreover have "eip_refund London (\<lambda>(a, k). 0) ?ws = 39800"
    by (simp add: eip_refund_def sets_back_def slots_after_def eip_restores_def less_eq_Revision_def)
  ultimately show ?thesis by simp
qed

end
