(* ===== verification/ConsensusRules.thy ===== *)
theory ConsensusRules
  imports Consensus
begin

text \<open>
  What the validation of headers and blocks enforces: the difficulty formula in the integers, the
  bounds of an accepted header, the kinship of ommers and the rewards of a block.
\<close>

section \<open>Difficulty\<close>

text \<open>The formulas of the Yellow Paper, EIP-2, EIP-100 and EIP-649.\<close>

definition difficulty_adjustment :: "bool \<Rightarrow> bool \<Rightarrow> bool \<Rightarrow> int \<Rightarrow> int" where
  "difficulty_adjustment byzantium homestead uncles dt =
     (if byzantium then max ((if uncles then 2 else 1) - dt div 9) (- 99)
      else if homestead then max (1 - dt div 10) (- 99)
      else if dt < 13 then 1 else - 1)"

definition bomb_period :: "u64 \<Rightarrow> u64 option \<Rightarrow> nat" where
  "bomb_period n delay = (case delay of Some d \<Rightarrow> (unat n - unat d) div 100000 | None \<Rightarrow> 0)"

definition difficulty_spec :: "int \<Rightarrow> int \<Rightarrow> nat \<Rightarrow> int" where
  "difficulty_spec parent adjustment period =
     max 131072 (parent + parent div 2048 * adjustment + (if 2 \<le> period then 2 ^ (period - 2) else 0))"

lemma unat_scaled:
  assumes "unat (p :: u256) < 2 ^ 254" "unat (k :: u256) \<le> 101"
  shows "unat (k * drop_bit 11 p) = unat k * (unat p div 2048)"
proof -
  have d: "unat (drop_bit 11 p) = unat p div 2048" by (simp add: drop_bit_eq_div unat_div)
  have "unat k * (unat p div 2048) \<le> 101 * (unat p div 2048)" using assms(2) by (rule mult_right_mono) simp
  also have "\<dots> < 2 ^ 256" using assms(1) by simp
  finally show ?thesis using unat_mult_lem [of k "drop_bit 11 p"] by (simp add: d)
qed

lemma lowered_difficulty:
  assumes "unat (p :: u256) < 2 ^ 254"
  shows "unat (p - drop_bit 11 p * 99) = unat p - 99 * (unat p div 2048)"
    "unat (p - drop_bit 11 p) = unat p - unat p div 2048"
    "n \<le> 101 \<Longrightarrow> unat (p - drop_bit 11 p * 99 + of_nat n * drop_bit 11 p) = unat p - 99 * (unat p div 2048) + n * (unat p div 2048)"
    "unat (p + drop_bit 11 p) = unat p + unat p div 2048"
proof -
  have e: "unat (drop_bit 11 p) = unat p div 2048" by (simp add: drop_bit_eq_div unat_div)
  have s: "unat (drop_bit 11 p * 99) = 99 * (unat p div 2048)" using unat_scaled [OF assms, of 99] by (simp add: mult.commute)
  have "99 * (unat p div 2048) \<le> unat p" by simp
  then have "drop_bit 11 p * 99 \<le> p" "drop_bit 11 p \<le> p" by (simp_all add: word_le_nat_alt s e)
  then show 1: "unat (p - drop_bit 11 p * 99) = unat p - 99 * (unat p div 2048)"
    and "unat (p - drop_bit 11 p) = unat p - unat p div 2048"
    using unat_sub [of "drop_bit 11 p * 99" p] unat_sub [of "drop_bit 11 p" p] by (simp_all add: s e)
  show "unat (p + drop_bit 11 p) = unat p + unat p div 2048"
  proof -
    have "unat p + unat p div 2048 < 2 ^ 256" using assms by simp
    then show ?thesis using unat_add_lem [of p "drop_bit 11 p"] by (simp add: e)
  qed
  assume n: "n \<le> 101"
  then have un: "unat (of_nat n :: u256) = n" by (simp add: unat_of_nat)
  have t: "unat (of_nat n * drop_bit 11 p) = n * (unat p div 2048)" using unat_scaled [OF assms, of "of_nat n"] n by (simp add: un)
  have "n * (unat p div 2048) \<le> 101 * (unat p div 2048)" using n by (rule mult_right_mono) simp
  also have "\<dots> \<le> unat p" by simp
  finally have "unat p - 99 * (unat p div 2048) + n * (unat p div 2048) \<le> unat p + unat p" by linarith
  also have "\<dots> < 2 ^ 256" using assms by simp
  finally have "unat p - 99 * (unat p div 2048) + n * (unat p div 2048) < 2 ^ 256" .
  then show "unat (p - drop_bit 11 p * 99 + of_nat n * drop_bit 11 p) = unat p - 99 * (unat p div 2048) + n * (unat p div 2048)"
    using unat_add_lem [of "p - drop_bit 11 p * 99" "of_nat n * drop_bit 11 p"] by (simp add: 1 t)
qed

lemma int_lowered: "int (p - 99 * (p div 2048) + n * (p div 2048)) = int p + int p div 2048 * (int n - 99)"
proof -
  have "99 * (p div 2048) \<le> p" by simp
  then show ?thesis by (simp add: of_nat_diff zdiv_int algebra_simps)
qed

lemma adjusted_difficulty_value:
  assumes "unat p < 2 ^ 254" "pts < ts"
  shows "int (unat (adjusted_difficulty ts p pts uncles byz hom))
    = int (unat p) + int (unat p) div 2048 * difficulty_adjustment byz hom uncles (int (unat ts) - int (unat pts))"
proof -
  define dt where "dt = unat ts - unat pts"
  have d: "unat (ts - pts) = dt" unfolding dt_def using assms(2) by (intro unat_sub) (simp add: less_imp_le)
  have di: "int (unat ts) - int (unat pts) = int dt" using assms(2) by (simp add: dt_def word_less_nat_alt of_nat_diff)
  have raise: "int (unat (if z < m then p - drop_bit 11 p * 99 + ucast (m - z) * drop_bit 11 p else p - drop_bit 11 p * 99))
      = int (unat p) + int (unat p) div 2048 * max (int (unat m) - 99 - int (unat z)) (- 99)"
    if "unat m \<le> 101" for m z :: u64
  proof (cases "z < m")
    case True
    have "unat (m - z) = unat m - unat z" using True by (intro unat_sub) (simp add: less_imp_le)
    then have "(ucast (m - z) :: u256) = of_nat (unat m - unat z)" by (simp add: word_unat_eq_iff unat_of_nat) (use that in simp)
    moreover have "unat z \<le> unat m" using True by (simp add: word_less_nat_alt)
    moreover have "max (uint m - 99 - uint z) (- 99) = uint m - uint z - 99" using True by (simp add: word_less_def)
    ultimately show ?thesis
      using True lowered_difficulty(3) [OF assms(1), of "unat m - unat z"] that int_lowered [of "unat p" "unat m - unat z"]
      by (simp add: of_nat_diff)
  next
    case False
    then have "int (unat m) - 99 - int (unat z) \<le> - 99" by (simp add: not_less word_le_def)
    then show ?thesis using False lowered_difficulty(1) [OF assms(1)] int_lowered [of "unat p" 0] by (simp add: max_absorb2)
  qed
  have z: "int (unat ((ts - pts) div 9)) = int dt div 9" "int (unat ((ts - pts) div 10)) = int dt div 10"
    by (simp_all add: unat_div d zdiv_int)
  have b: "ts - pts < 13 \<longleftrightarrow> int dt < 13" by (simp add: word_less_nat_alt d)
  have f: "int (unat p - unat p div 2048) = int (unat p) - int (unat p) div 2048" by (simp add: of_nat_diff zdiv_int)
  show ?thesis unfolding di
  proof -
    consider "byz" | "\<not> byz" "hom" | "\<not> byz" "\<not> hom" by blast
    then show "int (unat (adjusted_difficulty ts p pts uncles byz hom))
      = int (unat p) + int (unat p) div 2048 * difficulty_adjustment byz hom uncles (int dt)"
    proof cases
      case 1
      then show ?thesis using raise [of "99 + (if uncles then 2 else 1)" "(ts - pts) div 9"] z
        by (simp add: adjusted_difficulty_def difficulty_adjustment_def Let_def)
    next
      case 2
      then show ?thesis using raise [of 100 "(ts - pts) div 10"] z
        by (simp add: adjusted_difficulty_def difficulty_adjustment_def Let_def)
    next
      case 3
      have "uint (p - drop_bit 11 p) = uint p - uint p div 2048"
        unfolding uint_nat lowered_difficulty(2) [OF assms(1)] by (rule f)
      moreover have "uint (p + drop_bit 11 p) = uint p + uint p div 2048"
        unfolding uint_nat lowered_difficulty(4) [OF assms(1)] by (simp add: zdiv_int)
      ultimately show ?thesis using 3 b by (simp add: adjusted_difficulty_def difficulty_adjustment_def Let_def)
    qed
  qed
qed

lemma adjusted_difficulty_bound:
  assumes "unat p < 2 ^ 254" "pts < ts"
  shows "unat (adjusted_difficulty ts p pts uncles byz hom) < 2 ^ 255"
proof -
  define dt where "dt = int (unat ts) - int (unat pts)"
  have "0 \<le> dt" using assms(2) by (simp add: dt_def word_less_def)
  then have "0 \<le> dt div 9" "0 \<le> dt div 10" by (simp_all add: pos_imp_zdiv_nonneg_iff)
  then have "difficulty_adjustment byz hom uncles (int (unat ts) - int (unat pts)) \<le> 2"
    unfolding dt_def [symmetric] by (simp add: difficulty_adjustment_def)
  then have "int (unat p) div 2048 * difficulty_adjustment byz hom uncles (int (unat ts) - int (unat pts)) \<le> int (unat p) div 2048 * 2"
    by (intro mult_left_mono) (simp_all add: pos_imp_zdiv_nonneg_iff)
  then have "int (unat (adjusted_difficulty ts p pts uncles byz hom)) \<le> int (unat p) + int (unat p) div 2048 * 2"
    unfolding adjusted_difficulty_value [OF assms] by simp
  also have "\<dots> = int (unat p + unat p div 2048 * 2)" by (simp only: of_nat_add of_nat_mult zdiv_int of_nat_numeral)
  also have "\<dots> < int (2 ^ 255)" unfolding of_nat_less_iff using assms(1) by simp
  finally show ?thesis unfolding of_nat_less_iff .
qed

lemma uint_max: "uint (max a b) = max (uint a) (uint (b :: 'a::len word))"
  by (simp add: max_def word_le_def)

lemma unat_push_1:
  assumes "k < 256"
  shows "unat (push_bit k (1 :: u256)) = 2 ^ k"
proof -
  have "(2 :: nat) ^ k < 2 ^ 256" using assms by (intro power_strict_increasing) simp_all
  then show ?thesis unfolding unsigned_push_bit_eq by (simp add: take_bit_eq_mod push_bit_eq_mult)
qed

lemma bomb_period_value:
  "unat ((if d \<le> n then n - d else 0) div 100000) = bomb_period n (Some d)"
proof (cases "d \<le> n")
  case True
  then show ?thesis using unat_sub [OF True] by (simp add: bomb_period_def unat_div)
next
  case False
  then show ?thesis by (simp add: bomb_period_def word_le_nat_alt)
qed

lemma canonical_difficulty_value:
  assumes "unat p < 2 ^ 254" "pts < ts" "bomb_period n bomb < 256"
  shows "returns (\<lambda>d. uint d = difficulty_spec (uint p) (difficulty_adjustment byz hom uncles (uint ts - uint pts)) (bomb_period n bomb))
    (canonical_difficulty n ts p pts uncles byz hom bomb)"
proof -
  define d where "d = adjusted_difficulty ts p pts uncles byz hom"
  have v: "uint d = uint p + uint p div 2048 * difficulty_adjustment byz hom uncles (uint ts - uint pts)"
    using adjusted_difficulty_value [OF assms(1,2), of uncles byz hom] by (simp add: d_def)
  have b: "unat d < 2 ^ 255" unfolding d_def by (rule adjusted_difficulty_bound [OF assms(1,2)])
  have m: "uint MIN_DIFFICULTY = 131072" by (simp add: MIN_DIFFICULTY_def)
  show ?thesis
  proof (cases bomb)
    case None
    then show ?thesis unfolding canonical_difficulty_def d_def [symmetric] Let_def
      by (simp add: uint_max v m difficulty_spec_def bomb_period_def max.commute)
  next
    case (Some delay)
    define k where "k = (if delay \<le> n then n - delay else 0) div 100000"
    have k: "unat k = bomb_period n bomb" unfolding k_def Some by (rule bomb_period_value)
    show ?thesis
    proof (cases "2 \<le> k")
      case True
      then have u: "unat (k - 2) = bomb_period n bomb - 2" using unat_sub [OF True] k by simp
      have s: "k - 2 < 256" "2 \<le> bomb_period n bomb" using u k assms(3) True by (simp_all add: word_less_nat_alt word_le_nat_alt)
      have "unat (push_bit (unat (k - 2)) (1 :: u256)) = 2 ^ (bomb_period n bomb - 2)" 
        using u assms(3) unat_push_1 [of "bomb_period n bomb - 2"] by simp
      moreover have "(2 :: nat) ^ (bomb_period n bomb - 2) < 2 ^ 255"
        using assms(3) by (intro power_strict_increasing) linarith+
      ultimately have "unat (d + push_bit (unat (k - 2)) 1) = unat d + 2 ^ (bomb_period n bomb - 2)"
        using b unat_add_lem [of d "push_bit (unat (k - 2)) 1"] by simp
      then have "uint (d + push_bit (unat (k - 2)) 1) = uint d + 2 ^ (bomb_period n bomb - 2)" by (simp add: uint_nat del: of_nat_unat)
      then show ?thesis
        unfolding canonical_difficulty_def d_def [symmetric] Let_def Some option.case k_def [symmetric]
        unfolding Some [symmetric] if_P [OF True] if_P [OF s(1)]
        by (simp only: bind.bind_lunit returns_Some uint_max m v difficulty_spec_def max.commute if_P [OF s(2)])
    next
      case False
      then have "\<not> 2 \<le> bomb_period n bomb" using k by (simp add: word_le_nat_alt)
      then show ?thesis
        unfolding canonical_difficulty_def d_def [symmetric] Let_def Some option.case k_def [symmetric]
        unfolding Some [symmetric] if_not_P [OF False]
        by (simp add: uint_max m v difficulty_spec_def max.commute)
    qed
  qed
qed

section \<open>Ommers\<close>

text \<open>
  The chain that \<open>is_kin\<close> walks: \<open>main i\<close> is the header \<open>i\<close> generations above the parent of the
  block, with its hash; bodies and headers of \<open>k\<close> generations are in the database.
\<close>

definition mainline :: "chain_db \<Rightarrow> (nat \<Rightarrow> BlockHeader) \<Rightarrow> h256 \<Rightarrow> nat \<Rightarrow> bool" where
  "mainline db main hash k \<longleftrightarrow> (\<forall>i < k. get_parent_header db (main i) = Some (main (Suc i))
     \<and> cdb_read_body db (bh_number (main i)) (if i = 0 then hash else bh_parent_hash (main (i - 1))) \<noteq> None)"

lemma mainline_Suc:
  assumes "mainline db main hash (Suc k)"
  shows "mainline db (\<lambda>i. main (Suc i)) (bh_parent_hash (main 0)) k"
  unfolding mainline_def
proof (intro allI impI)
  fix i assume "i < k"
  then have "get_parent_header db (main (Suc i)) = Some (main (Suc (Suc i)))"
      "cdb_read_body db (bh_number (main (Suc i))) (bh_parent_hash (main i)) \<noteq> None"
    using assms unfolding mainline_def by (auto dest!: spec [of _ "Suc i"])
  then show "get_parent_header db (main (Suc i)) = Some (main (Suc (Suc i)))
     \<and> cdb_read_body db (bh_number (main (Suc i))) (if i = 0 then bh_parent_hash (main 0) else bh_parent_hash (main (Suc (i - 1)))) \<noteq> None"
    by (cases i) simp_all
qed

lemma is_kin_iff:
  assumes "mainline db main hash k"
  shows "fst (is_kin db branch (main 0) hash k old) \<longleftrightarrow>
    (\<exists>i < k. get_parent_header db branch = Some (main (Suc i)) \<and> (\<forall>j \<le> i. branch \<noteq> main j))"
  using assms
proof (induction k arbitrary: main hash old)
  case (Suc k)
  have h: "get_parent_header db (main 0) = Some (main 1)" "cdb_read_body db (bh_number (main 0)) hash \<noteq> None"
    using Suc.prems by (auto simp: mainline_def dest!: spec [of _ 0])
  note ih = Suc.IH [OF mainline_Suc [OF Suc.prems]]
  have split: "(\<exists>i < Suc k. get_parent_header db branch = Some (main (Suc i)) \<and> (\<forall>j \<le> i. branch \<noteq> main j))
      \<longleftrightarrow> branch \<noteq> main 0 \<and> (get_parent_header db branch = Some (main 1)
        \<or> (\<exists>i < k. get_parent_header db branch = Some (main (Suc (Suc i))) \<and> (\<forall>j \<le> i. branch \<noteq> main (Suc j))))"
    (is "?l \<longleftrightarrow> ?r")
  proof
    assume ?l
    then obtain i where i: "i < Suc k" "get_parent_header db branch = Some (main (Suc i))" "\<forall>j \<le> i. branch \<noteq> main j" by blast
    show ?r
    proof (cases i)
      case (Suc m)
      then have "branch \<noteq> main 0" "m < k" "get_parent_header db branch = Some (main (Suc (Suc m)))"
          "\<forall>j \<le> m. branch \<noteq> main (Suc j)" using i by auto
      then show ?thesis by blast
    qed (use i in auto)
  next
    assume ?r
    then consider "branch \<noteq> main 0" "get_parent_header db branch = Some (main 1)"
      | i where "branch \<noteq> main 0" "i < k" "get_parent_header db branch = Some (main (Suc (Suc i)))" "\<forall>j \<le> i. branch \<noteq> main (Suc j)"
      by blast
    then show ?l
    proof cases
      case 2
      have "\<forall>j \<le> Suc i. branch \<noteq> main j" using 2(1,4) by (metis Suc_le_mono not0_implies_Suc)
      then show ?thesis using 2 by (intro exI [of _ "Suc i"]) simp
    qed auto
  qed
  show ?case unfolding split using h ih by (auto simp: Let_def split: option.splits)
qed simp

section \<open>Properties\<close>

text \<open>C29: The difficulty a block must have is that of the Yellow Paper with EIP-2, EIP-100 and EIP-649: the
  parent's, adjusted by at least -99 steps of a 2048th according to the time between the blocks,
  plus the bomb, and at least the minimum. The computation in 256 bits and 64 bits agrees with the
  formula in the integers.\<close>

theorem difficulty_follows_formula:
  assumes "unat p < 2 ^ 254" "pts < ts" "bomb_period n bomb < 256"
  shows "\<exists>d. canonical_difficulty n ts p pts uncles byz hom bomb = Some d
    \<and> uint d = difficulty_spec (uint p) (difficulty_adjustment byz hom uncles (uint ts - uint pts)) (bomb_period n bomb)"
  using canonical_difficulty_value [OF assms] by (auto simp: returns_ex)

theorem difficulty_follows_formula_witness:
  "\<exists>d. canonical_difficulty 13636066 1637194138 11578490198380085 1637194129 False True True (Some 9700000) = Some d
    \<and> uint d = 11578627637333557"
  using difficulty_follows_formula [of 11578490198380085 1637194129 1637194138 13636066 "Some 9700000" False True True]
  by (simp add: bomb_period_def difficulty_spec_def difficulty_adjustment_def)

text \<open>C30: An ommer is accepted as kin exactly when its parent is one of the six nearest ancestors of the
  block's parent and the ommer is none of the headers of the chain down from there.\<close>

theorem ommer_kinship:
  assumes "mainline db main hash 6"
  shows "fst (is_kin db ommer (main 0) hash 6 []) \<longleftrightarrow>
    (\<exists>i < 6. get_parent_header db ommer = Some (main (Suc i)) \<and> (\<forall>j \<le> i. ommer \<noteq> main j))"
  using assms by (rule is_kin_iff)

definition sample_main :: "nat \<Rightarrow> BlockHeader" where
  "sample_main i = sample_block_header\<lparr>bh_number := 20 - of_nat i, bh_parent_hash := of_nat (Suc i)\<rparr>"

definition sample_chain_db :: chain_db where
  "sample_chain_db = \<lparr>cdb_read_header = (\<lambda>n h. Some (sample_main (unat h))),
     cdb_read_body = (\<lambda>n h. Some \<lparr>bb_transactions = [], bb_ommers = []\<rparr>)\<rparr>"

lemma sample_mainline: "mainline sample_chain_db sample_main 0 6"
  unfolding mainline_def
proof (intro allI impI conjI)
  fix i :: nat assume "i < 6"
  moreover from this have "i \<in> {0, 1, 2, 3, 4, 5}" by auto
  ultimately have "(20 - of_nat i :: u64) \<noteq> 0" "unat (of_nat (Suc i) :: h256) = Suc i"
    by (auto simp: unat_of_nat) 
  then show "get_parent_header sample_chain_db (sample_main i) = Some (sample_main (Suc i))"
    by (simp add: get_parent_header_def sample_main_def [of i] sample_chain_db_def)
qed (simp add: sample_chain_db_def)

theorem ommer_kinship_witness:
  "fst (is_kin sample_chain_db (sample_block_header\<lparr>bh_number := 20, bh_parent_hash := 1, bh_beneficiary := 5\<rparr>)
      (sample_main 0) 0 6 [])"
proof -
  let ?o = "sample_block_header\<lparr>bh_number := 20, bh_parent_hash := 1, bh_beneficiary := 5\<rparr>"
  have "get_parent_header sample_chain_db ?o = Some (sample_main 1)" "?o \<noteq> sample_main 0"
    by (simp_all add: get_parent_header_def sample_chain_db_def sample_main_def sample_block_header_def)
  then show ?thesis unfolding ommer_kinship [OF sample_mainline] by (intro exI [of _ 0]) simp
qed

end
