(* ===== verification/StateStore.thy ===== *)
theory StateStore
  imports Consensus
begin

text \<open>
  The interface between the journaled state of a block and the stores behind it: the trait \<open>State\<close>
  of \<open>src/state/interface.rs\<close> as a record of operations, and \<open>write_to_db\<close> of
  \<open>src/state/intra_block_state.rs\<close>, which commits a block through that interface.

  The contract of a store is the locale \<open>state_store\<close>; what a commit does to the reads of the store
  is proved once, in the locale, against the abstract specification \<open>committed_db\<close>. The in-memory
  state and the database buffer are its two interpretations.
\<close>

section \<open>The interface\<close>

record 'd StateOps =
  so_read_account :: "'d \<Rightarrow> address \<Rightarrow> Account option"
  so_read_code :: "'d \<Rightarrow> h256 \<Rightarrow> byte list"
  so_read_storage :: "'d \<Rightarrow> address \<Rightarrow> u256 \<Rightarrow> u256"
  so_erase_storage :: "'d \<Rightarrow> address \<Rightarrow> 'd"
  so_read_header :: "'d \<Rightarrow> u64 \<Rightarrow> h256 \<Rightarrow> BlockHeader option"
  so_read_body :: "'d \<Rightarrow> u64 \<Rightarrow> h256 \<Rightarrow> BlockBody option"
  so_total_difficulty :: "'d \<Rightarrow> u64 \<Rightarrow> h256 \<Rightarrow> u256 option"
  so_begin_block :: "'d \<Rightarrow> u64 \<Rightarrow> 'd"
  so_update_account :: "'d \<Rightarrow> address \<Rightarrow> Account option \<Rightarrow> Account option \<Rightarrow> 'd"
  so_update_code :: "'d \<Rightarrow> h256 \<Rightarrow> byte list \<Rightarrow> 'd"
  so_update_storage :: "'d \<Rightarrow> address \<Rightarrow> u256 \<Rightarrow> u256 \<Rightarrow> u256 \<Rightarrow> 'd"

definition database_of :: "'d StateOps \<Rightarrow> 'd \<Rightarrow> Database" where
  "database_of ops d = \<lparr>read_account = so_read_account ops d, read_code = so_read_code ops d,
     read_storage = so_read_storage ops d,
     read_header_parent = (\<lambda>n h. map_option bh_parent_hash (so_read_header ops d n h))\<rparr>"

text \<open>The entries of a hash map; a loop over them is in the increasing order of the keys.\<close>

definition entries :: "('k::linorder \<rightharpoonup> 'v) \<Rightarrow> ('k \<times> 'v) list" where
  "entries m = map (\<lambda>k. (k, the (m k))) (sorted_list_of_set (dom m))"

definition write_storage ::
  "'d StateOps \<Rightarrow> IntraBlockState \<Rightarrow> address \<times> Storage \<Rightarrow> 'd \<Rightarrow> 'd" where
  "write_storage ops s = (\<lambda>(a, st) d.
     case objects s a of
       Some obj \<Rightarrow>
         (if obj_current obj \<noteq> None
          then fold (\<lambda>(key, val) d. so_update_storage ops d a key (cv_initial val) (cv_original val))
                 (entries (st_committed st)) d
          else d)
     | None \<Rightarrow> d)"

definition write_to_db :: "'d StateOps \<Rightarrow> IntraBlockState \<Rightarrow> u64 \<Rightarrow> 'd \<Rightarrow> 'd" where
  "write_to_db ops s n d =
     (let d = so_begin_block ops d n;
          d = fold (\<lambda>(a, incarnation) d. if incarnation > 0 then so_erase_storage ops d a else d) (entries (incarnations s)) d;
          d = fold (write_storage ops s) (entries (storage s)) d;
          d = fold (\<lambda>(a, obj) d. so_update_account ops d a (obj_initial obj) (obj_current obj)) (entries (objects s)) d
      in fold (\<lambda>(h, bs) d. so_update_code ops d h bs) (entries (new_code s)) d)"

section \<open>Loops over maps\<close>

lemma entries_props:
  assumes "finite (dom m)"
  shows "distinct (map fst (entries m))" "set (entries m) = {(k, v). m k = Some v}"
  using assms by (auto simp: entries_def o_def image_iff)

lemma finite_word_map [simp]: "finite (dom (m :: 'a::len word \<rightharpoonup> 'b))"
  by (rule finite_subset [OF subset_UNIV]) simp

lemma entries_mem [simp]: "(k, v) \<in> set (entries m) \<longleftrightarrow> m k = Some v" for m :: "'a::len word \<rightharpoonup> 'b"
  by (simp add: entries_props)

text \<open>
  A loop that sets one entry of an observed function for each entry of the map, and keeps a frame. The
  body may rely on the value observed before the loop.
\<close>

lemma fold_entries:
  assumes fin: "finite (dom m)" and frame: "P d0"
    and step: "\<And>k v d. m k = Some v \<and> P d \<and> obs d k = obs d0 k
      \<longrightarrow> P (f (k, v) d) \<and> obs (f (k, v) d) = (obs d)(k := g k v (obs d0 k))"
  shows "P (fold f (entries m) d0)" "obs (fold f (entries m) d0) = (\<lambda>k. case m k of Some v \<Rightarrow> g k v (obs d0 k) | None \<Rightarrow> obs d0 k)"
proof -
  have *: "P (fold f kvs d) \<and> obs (fold f kvs d) = (\<lambda>k. case map_of kvs k of Some v \<Rightarrow> g k v (obs d0 k) | None \<Rightarrow> obs d k)"
    if "distinct (map fst kvs)" "\<forall>(k, v) \<in> set kvs. m k = Some v" "P d" "\<forall>k \<in> fst ` set kvs. obs d k = obs d0 k" for kvs d
    using that
  proof (induction kvs arbitrary: d)
    case (Cons kv kvs)
    obtain k' v where kv: "kv = (k', v)" by fastforce
    have s: "P (f kv d) \<and> obs (f kv d) = (obs d)(k' := g k' v (obs d0 k'))"
      unfolding kv using Cons.prems by (intro step [rule_format]) (auto simp: kv)
    have k': "k' \<notin> fst ` set kvs" using Cons.prems(1) kv by auto
    then have "\<forall>k \<in> fst ` set kvs. obs (f kv d) k = obs d0 k" using s Cons.prems(4) kv by auto
    then have "P (fold f kvs (f kv d)) \<and> obs (fold f kvs (f kv d)) = (\<lambda>k. case map_of kvs k of Some v \<Rightarrow> g k v (obs d0 k) | None \<Rightarrow> obs (f kv d) k)"
      using Cons.prems(1,2) s by (intro Cons.IH) auto
    moreover have "map_of kvs k' = None" using k' by (simp add: map_of_eq_None_iff)
    ultimately show ?case using s kv by (auto simp: fun_eq_iff split: option.splits)
  qed simp
  have "map_of (entries m) = m"
  proof
    fix k show "map_of (entries m) k = m k"
      using entries_props [OF fin] by (cases "m k") (auto simp: map_of_eq_None_iff)
  qed
  then show "P (fold f (entries m) d0)" "obs (fold f (entries m) d0) = (\<lambda>k. case m k of Some v \<Rightarrow> g k v (obs d0 k) | None \<Rightarrow> obs d0 k)"
    using * [of "entries m" d0] entries_props [OF fin] frame by auto
qed

lemma fold_invariant_list:
  assumes "P d" "\<And>x d. x \<in> set xs \<Longrightarrow> P d \<Longrightarrow> P (f x d)"
  shows "P (fold f xs d)"
  using assms by (induction xs arbitrary: d) auto

section \<open>What a commit promises\<close>

text \<open>
  The state a commit leaves: the accounts of the block, the storage of the accounts that exist, and
  the code the block deployed.
\<close>

definition committed_db :: "Database \<Rightarrow> IntraBlockState \<Rightarrow> Database" where
  "committed_db db s = db\<lparr>
     read_account := account_view db s,
     read_storage := (\<lambda>a k. if account_view db s a = None then 0 else original_view db s a k),
     read_code := (\<lambda>h. case new_code s h of Some bs \<Rightarrow> bs | None \<Rightarrow> read_code db h)\<rparr>"

text \<open>A store in which an account that does not exist has no storage.\<close>

definition db_ok :: "Database \<Rightarrow> bool" where
  "db_ok db \<longleftrightarrow> (\<forall>a k. read_account db a = None \<longrightarrow> read_storage db a k = 0)"

text \<open>
  What a block maintains of its caches: the initial value of a committed slot is the store's, or
  zero once the contract was created or destroyed in the block; a committed slot belongs to a known
  account; and an account that was in the store and is no more was destroyed.
\<close>

definition store_ok :: "Database \<Rightarrow> IntraBlockState \<Rightarrow> bool" where
  "store_ok db s \<longleftrightarrow> ibs_ok db s
     \<and> (\<forall>a st k v. storage s a = Some st \<longrightarrow> st_committed st k = Some v \<longrightarrow> objects s a \<noteq> None
          \<and> cv_initial v = (if incarnations s a = None then read_storage db a k else 0))
     \<and> (\<forall>a obj. objects s a = Some obj \<longrightarrow> obj_current obj = None \<longrightarrow> read_account db a = None \<or> incarnations s a \<noteq> None)"

locale state_store =
  fixes ops :: "'d StateOps"
  assumes begin_reads: "database_of ops (so_begin_block ops d n) = database_of ops d"
    and erase_reads: "database_of ops (so_erase_storage ops d a) = (database_of ops d)
      \<lparr>read_storage := (read_storage (database_of ops d))(a := (\<lambda>_. 0))\<rparr>"
    and storage_reads: "read_storage (database_of ops d) a k = initial \<Longrightarrow>
      database_of ops (so_update_storage ops d a k initial current) = (database_of ops d)
      \<lparr>read_storage := (read_storage (database_of ops d))(a := (read_storage (database_of ops d) a)(k := current))\<rparr>"
    and account_reads: "read_account (database_of ops d) a = old \<Longrightarrow>
      database_of ops (so_update_account ops d a old acc) = (database_of ops d)
      \<lparr>read_account := (read_account (database_of ops d))(a := acc)\<rparr>"
    and code_reads: "database_of ops (so_update_code ops d h bs) = (database_of ops d)
      \<lparr>read_code := (read_code (database_of ops d))(h := bs)\<rparr>"
begin

abbreviation view :: "'d \<Rightarrow> Database" where
  "view \<equiv> database_of ops"

lemma erase_loop:
  assumes "ibs_ok db s"
  shows "view (fold (\<lambda>(a, incarnation) d. if incarnation > 0 then so_erase_storage ops d a else d) (entries (incarnations s)) d)
    = (view d)\<lparr>read_storage := (\<lambda>a. if incarnations s a = None then read_storage (view d) a else (\<lambda>_. 0))\<rparr>"
proof -
  let ?f = "\<lambda>(a, incarnation) d. if incarnation > 0 then so_erase_storage ops d a else d"
  define P where "P e \<longleftrightarrow> (\<exists>x. view e = (view d)\<lparr>read_storage := x\<rparr>)" for e
  have P: "P d" by (simp add: P_def exI [of _ "read_storage (view d)"])
  have step: "incarnations s a = Some n \<and> P e \<and> read_storage (view e) a = read_storage (view d) a \<longrightarrow>
      P (?f (a, n) e) \<and> read_storage (view (?f (a, n) e)) = (read_storage (view e))(a := (\<lambda>_. 0))" for a n e
    using assms by (auto simp: erase_reads ibs_ok_def P_def)
  note loop = fold_entries [where obs = "\<lambda>e. read_storage (view e)" and P = P and f = ?f and m = "incarnations s" and g = "\<lambda>_ _ _ _. 0", OF finite_word_map P step]
  obtain x where x: "view (fold ?f (entries (incarnations s)) d) = (view d)\<lparr>read_storage := x\<rparr>" using loop(1) unfolding P_def by blast
  then have "x = (\<lambda>a. case incarnations s a of Some _ \<Rightarrow> (\<lambda>_. 0) | None \<Rightarrow> read_storage (view d) a)" using loop(2) by simp
  also have "\<dots> = (\<lambda>a. if incarnations s a = None then read_storage (view d) a else (\<lambda>_. 0))" by (simp add: fun_eq_iff split: option.splits)
  finally show ?thesis using x by simp
qed

lemma write_storage_reads:
  assumes "\<And>k v obj. st_committed st k = Some v \<Longrightarrow> objects s a = Some obj \<Longrightarrow> read_storage (view d) a k = cv_initial v"
  shows "view (write_storage ops s (a, st) d) = (view d)\<lparr>read_storage := (read_storage (view d))(a := (\<lambda>k.
    case (if Option.bind (objects s a) obj_current = None then None else st_committed st k) of
      Some v \<Rightarrow> cv_original v | None \<Rightarrow> read_storage (view d) a k))\<rparr>"
proof (cases "Option.bind (objects s a) obj_current")
  case None
  then show ?thesis by (auto simp: write_storage_def Option.bind_eq_None_conv split: option.splits)
next
  case (Some c)
  then obtain obj where obj: "objects s a = Some obj" "obj_current obj = Some c" by (auto simp: bind_eq_Some_conv)
  let ?f = "\<lambda>(key, val) d. so_update_storage ops d a key (cv_initial val) (cv_original val)"
  define P where "P e \<longleftrightarrow> (\<exists>x. view e = (view d)\<lparr>read_storage := (read_storage (view d))(a := x)\<rparr>)" for e
  have P: "P d" by (simp add: P_def exI [of _ "read_storage (view d) a"])
  have step: "st_committed st k = Some v \<and> P e \<and> read_storage (view e) a k = read_storage (view d) a k \<longrightarrow>
      P (?f (k, v) e) \<and> read_storage (view (?f (k, v) e)) a = (read_storage (view e) a)(k := cv_original v)" for k v e
  proof (intro impI, elim conjE)
    assume c: "st_committed st k = Some v" "P e" "read_storage (view e) a k = read_storage (view d) a k"
    then have "read_storage (view e) a k = cv_initial v" using assms [OF c(1) obj(1)] by simp
    from storage_reads [OF this] show "P (?f (k, v) e) \<and> read_storage (view (?f (k, v) e)) a = (read_storage (view e) a)(k := cv_original v)"
      using c(2) by (auto simp: P_def)
  qed
  note loop = fold_entries [where obs = "\<lambda>e. read_storage (view e) a" and P = P and f = ?f and m = "st_committed st"
      and g = "\<lambda>_ v _. cv_original v", OF finite_word_map P step]
  obtain x where x: "view (fold ?f (entries (st_committed st)) d) = (view d)\<lparr>read_storage := (read_storage (view d))(a := x)\<rparr>"
    using loop(1) unfolding P_def by blast
  have "x = (\<lambda>k. case st_committed st k of Some v \<Rightarrow> cv_original v | None \<Rightarrow> read_storage (view d) a k)"
    using loop(2) unfolding x by simp
  moreover have "write_storage ops s (a, st) d = fold ?f (entries (st_committed st)) d" using obj by (simp add: write_storage_def)
  ultimately show ?thesis using x obj by simp
qed

lemma storage_loop:
  assumes "\<And>a st k v. storage s a = Some st \<Longrightarrow> st_committed st k = Some v \<Longrightarrow> read_storage (view d) a k = cv_initial v"
  shows "view (fold (write_storage ops s) (entries (storage s)) d) = (view d)\<lparr>read_storage := (\<lambda>a k.
    case (if Option.bind (objects s a) obj_current = None then None else st_committed (or_default (storage s) a Storage_default) k) of
      Some v \<Rightarrow> cv_original v | None \<Rightarrow> read_storage (view d) a k)\<rparr>"
proof -
  define P where "P e \<longleftrightarrow> (\<exists>x. view e = (view d)\<lparr>read_storage := x\<rparr>)" for e
  define g :: "address \<Rightarrow> Storage \<Rightarrow> (u256 \<Rightarrow> u256) \<Rightarrow> u256 \<Rightarrow> u256" where "g a st old = (\<lambda>k. case (if Option.bind (objects s a) obj_current = None then None else st_committed st k) of
      Some v \<Rightarrow> cv_original v | None \<Rightarrow> old k)" for a st old
  have P: "P d" by (simp add: P_def exI [of _ "read_storage (view d)"])
  have step: "storage s a = Some st \<and> P e \<and> read_storage (view e) a = read_storage (view d) a \<longrightarrow>
      P (write_storage ops s (a, st) e) \<and>
      read_storage (view (write_storage ops s (a, st) e)) = (read_storage (view e))(a := g a st (read_storage (view d) a))" for a st e
  proof (intro impI, elim conjE)
    assume c: "storage s a = Some st" "P e" "read_storage (view e) a = read_storage (view d) a"
    have "view (write_storage ops s (a, st) e) = (view e)\<lparr>read_storage := (read_storage (view e))(a := g a st (read_storage (view e) a))\<rparr>"
      unfolding g_def by (rule write_storage_reads) (use assms c in simp)
    then show "P (write_storage ops s (a, st) e) \<and>
      read_storage (view (write_storage ops s (a, st) e)) = (read_storage (view e))(a := g a st (read_storage (view d) a))"
      using c(2,3) by (auto simp: P_def)
  qed
  note loop = fold_entries [where obs = "\<lambda>e. read_storage (view e)" and P = P and f = "write_storage ops s" and m = "storage s"
      and g = g, OF finite_word_map P step]
  obtain x where x: "view (fold (write_storage ops s) (entries (storage s)) d) = (view d)\<lparr>read_storage := x\<rparr>"
    using loop(1) unfolding P_def by blast
  have "x = (\<lambda>a. case storage s a of Some st \<Rightarrow> g a st (read_storage (view d) a) | None \<Rightarrow> read_storage (view d) a)"
    using loop(2) unfolding x by simp
  also have "\<dots> = (\<lambda>a. g a (or_default (storage s) a Storage_default) (read_storage (view d) a))"
    by (auto simp: fun_eq_iff g_def or_default_def Storage_default_def split: option.splits)
  finally show ?thesis using x by (simp add: g_def)
qed

lemma account_loop:
  assumes "\<And>a obj. objects s a = Some obj \<Longrightarrow> obj_initial obj = read_account (view d) a"
  shows "view (fold (\<lambda>(a, obj) d. so_update_account ops d a (obj_initial obj) (obj_current obj)) (entries (objects s)) d)
    = (view d)\<lparr>read_account := account_view (view d) s\<rparr>"
proof -
  let ?f = "\<lambda>(a, obj) d. so_update_account ops d a (obj_initial obj) (obj_current obj)"
  define P where "P e \<longleftrightarrow> (\<exists>x. view e = (view d)\<lparr>read_account := x\<rparr>)" for e
  have P: "P d" by (simp add: P_def exI [of _ "read_account (view d)"])
  have step: "objects s a = Some obj \<and> P e \<and> read_account (view e) a = read_account (view d) a \<longrightarrow>
      P (?f (a, obj) e) \<and> read_account (view (?f (a, obj) e)) = (read_account (view e))(a := obj_current obj)" for a obj e
    using account_reads [of e a "obj_initial obj" "obj_current obj"] assms by (auto simp: P_def)
  note loop = fold_entries [where obs = "\<lambda>e. read_account (view e)" and P = P and f = ?f and m = "objects s"
      and g = "\<lambda>_ obj _. obj_current obj", OF finite_word_map P step]
  obtain x where x: "view (fold ?f (entries (objects s)) d) = (view d)\<lparr>read_account := x\<rparr>" using loop(1) unfolding P_def by blast
  have "x = account_view (view d) s" using loop(2) unfolding x account_view_def fun_eq_iff by simp
  then show ?thesis using x by simp
qed

lemma code_loop:
  "view (fold (\<lambda>(h, bs) d. so_update_code ops d h bs) (entries (new_code s)) d)
    = (view d)\<lparr>read_code := (\<lambda>h. case new_code s h of Some bs \<Rightarrow> bs | None \<Rightarrow> read_code (view d) h)\<rparr>"
proof -
  let ?f = "\<lambda>(h, bs) d. so_update_code ops d h bs"
  define P where "P e \<longleftrightarrow> (\<exists>x. view e = (view d)\<lparr>read_code := x\<rparr>)" for e
  have P: "P d" by (simp add: P_def exI [of _ "read_code (view d)"])
  have step: "new_code s h = Some bs \<and> P e \<and> read_code (view e) h = read_code (view d) h \<longrightarrow>
      P (?f (h, bs) e) \<and> read_code (view (?f (h, bs) e)) = (read_code (view e))(h := bs)" for h bs e
    by (auto simp: P_def code_reads)
  note loop = fold_entries [where obs = "\<lambda>e. read_code (view e)" and P = P and f = ?f and m = "new_code s"
      and g = "\<lambda>_ bs _. bs", OF finite_word_map P step]
  obtain x where x: "view (fold ?f (entries (new_code s)) d) = (view d)\<lparr>read_code := x\<rparr>" using loop(1) unfolding P_def by blast
  then show ?thesis using loop(2) unfolding x by simp
qed

lemma write_to_db_refines:
  assumes "db_ok (view d)" "store_ok (view d) s"
  shows "view (write_to_db ops s n d) = committed_db (view d) s"
proof -
  let ?db = "view d"
  define d1 where "d1 = fold (\<lambda>(a, incarnation) d. if incarnation > 0 then so_erase_storage ops d a else d)
    (entries (incarnations s)) (so_begin_block ops d n)"
  define d2 where "d2 = fold (write_storage ops s) (entries (storage s)) d1"
  define d3 where "d3 = fold (\<lambda>(a, obj) d. so_update_account ops d a (obj_initial obj) (obj_current obj)) (entries (objects s)) d2"
  have ok: "ibs_ok ?db s" using assms(2) by (simp add: store_ok_def)
  have 1: "view d1 = ?db\<lparr>read_storage := (\<lambda>a. if incarnations s a = None then read_storage ?db a else (\<lambda>_. 0))\<rparr>"
    unfolding d1_def erase_loop [OF ok] begin_reads ..
  have 2: "view d2 = (view d1)\<lparr>read_storage := (\<lambda>a k.
    case (if Option.bind (objects s a) obj_current = None then None else st_committed (or_default (storage s) a Storage_default) k) of
      Some v \<Rightarrow> cv_original v | None \<Rightarrow> read_storage (view d1) a k)\<rparr>"
    unfolding d2_def by (rule storage_loop) (use assms(2) in \<open>auto simp: 1 store_ok_def\<close>)
  have r1: "read_storage (view d1) = (\<lambda>a k. if incarnations s a = None then read_storage ?db a k else 0)" by (auto simp: 1 fun_eq_iff)
  have r2: "read_account (view d2) = read_account ?db" by (simp add: 1 2)
  have v: "account_view (view d2) s = account_view ?db s" unfolding account_view_def fun_eq_iff r2 by simp
  have 3: "view d3 = (view d2)\<lparr>read_account := account_view ?db s\<rparr>"
    unfolding d3_def by (subst account_loop) (use ok in \<open>simp_all add: ibs_ok_def r2 v\<close>)
  have sto: "(case (if Option.bind (objects s a) obj_current = None then None else st_committed (or_default (storage s) a Storage_default) k) of
      Some v \<Rightarrow> cv_original v | None \<Rightarrow> if incarnations s a = None then read_storage ?db a k else 0)
    = (if account_view ?db s a = None then 0 else original_view ?db s a k)" for a k
  proof (cases "objects s a")
    case None
    then have "st_committed (or_default (storage s) a Storage_default) k = None"
      using assms(2) by (auto simp: store_ok_def or_default_def Storage_default_def split: option.splits)
        (metis not_None_eq)
    then show ?thesis using None assms(1) by (auto simp: account_view_def original_view_def db_ok_def)
  next
    case (Some obj)
    have "read_storage ?db a k = 0" if "obj_current obj = None" "incarnations s a = None"
      using assms Some that unfolding db_ok_def store_ok_def by blast
    moreover have "read_storage ?db a k = 0" if "read_account ?db a = None" using assms(1) that by (simp add: db_ok_def)
    ultimately show ?thesis using Some by (auto simp: account_view_def original_view_def split: option.splits)
  qed
  have "(\<lambda>a k. case (if Option.bind (objects s a) obj_current = None then None else st_committed (or_default (storage s) a Storage_default) k) of
      Some v \<Rightarrow> cv_original v | None \<Rightarrow> read_storage (view d1) a k)
    = (\<lambda>a k. if account_view ?db s a = None then 0 else original_view ?db s a k)"
    unfolding r1 sto ..
  then have v2: "view d2 = ?db\<lparr>read_storage := (\<lambda>a k. if account_view ?db s a = None then 0 else original_view ?db s a k)\<rparr>"
    unfolding 2 by (simp add: 1)
  show ?thesis
    unfolding write_to_db_def Let_def d1_def [symmetric] d2_def [symmetric] d3_def [symmetric] code_loop 3 v2 committed_db_def
    by (simp cong: option.case_cong)
qed

lemma written_db_ok: "db_ok (view d) \<Longrightarrow> store_ok (view d) s \<Longrightarrow> db_ok (view (write_to_db ops s n d))"
  by (simp add: write_to_db_refines) (simp add: db_ok_def committed_db_def)

end

end
