(* ===== verification/InMemoryState.thy ===== *)
theory InMemoryState
  imports StateStore
begin

text \<open>
  The state held in memory, \<open>src/state/in_memory_state.rs\<close>, and the initial state of the genesis block
  (\<open>src/state/genesis.rs\<close>). Hash maps are maps, the vectors indexed by block number are lists. The
  roots of the tries, which a third-party crate computes, are a parameter where they are used.

  The state implements the contract of \<open>StateStore\<close>, and unwinding a block restores the state before
  it, but for the storage of a contract that was destroyed and created again in the block.
\<close>

section \<open>Data\<close>

record InMemoryState =
  im_accounts :: "address \<rightharpoonup> Account"
  im_code :: "h256 \<rightharpoonup> byte list"
  im_storage :: "address \<rightharpoonup> (u256 \<rightharpoonup> u256)"
  im_headers :: "(h256 \<rightharpoonup> BlockHeader) list"
  im_bodies :: "(h256 \<rightharpoonup> BlockBody) list"
  im_difficulty :: "(h256 \<rightharpoonup> u256) list"
  im_canonical_hashes :: "h256 list"
  im_account_changes :: "u64 \<rightharpoonup> (address \<rightharpoonup> Account option)"
  im_storage_changes :: "u64 \<rightharpoonup> (address \<rightharpoonup> (u256 \<rightharpoonup> u256))"
  im_block_number :: u64

definition InMemoryState_new :: InMemoryState where
  "InMemoryState_new = \<lparr>im_accounts = Map.empty, im_code = Map.empty, im_storage = Map.empty, im_headers = [],
     im_bodies = [], im_difficulty = [], im_canonical_hashes = [], im_account_changes = Map.empty,
     im_storage_changes = Map.empty, im_block_number = 0\<rparr>"

definition number_of_accounts :: "InMemoryState \<Rightarrow> u64" where
  "number_of_accounts d = of_nat (card (dom (im_accounts d)))"

definition storage_size :: "InMemoryState \<Rightarrow> address \<Rightarrow> u64" where
  "storage_size d a = (case im_storage d a of Some st \<Rightarrow> of_nat (card (dom st)) | None \<Rightarrow> 0)"

section \<open>Blocks\<close>

text \<open>The subtraction wraps around: with no canonical block the result is \<open>2 ^ 64 - 1\<close>.\<close>

definition current_canonical_block :: "InMemoryState \<Rightarrow> u64" where
  "current_canonical_block d = of_nat (length (im_canonical_hashes d)) - 1"

definition get_at :: "'a list \<Rightarrow> u64 \<Rightarrow> 'a option" where
  "get_at xs n = (if unat n < length xs then Some (xs ! unat n) else None)"

definition canonical_hash :: "InMemoryState \<Rightarrow> u64 \<Rightarrow> h256 option" where
  "canonical_hash d n = get_at (im_canonical_hashes d) n"

definition grow :: "'a list \<Rightarrow> nat \<Rightarrow> 'a \<Rightarrow> 'a list" where
  "grow xs n x = (if length xs \<le> n then resize xs (n + 1) x else xs)"

definition put_at :: "('k \<rightharpoonup> 'v) list \<Rightarrow> nat \<Rightarrow> 'k \<Rightarrow> 'v \<Rightarrow> ('k \<rightharpoonup> 'v) list" where
  "put_at xs n k v = (let xs = grow xs n Map.empty in xs[n := (xs ! n)(k \<mapsto> v)])"

text \<open>The entry of the parent is created with zero when it is missing.\<close>

definition im_insert_block :: "InMemoryState \<Rightarrow> Block \<Rightarrow> h256 \<Rightarrow> InMemoryState" where
  "im_insert_block d block hash =
     (let header = blk_header block;
          n = unat (bh_number header);
          d = d\<lparr>im_headers := put_at (im_headers d) n hash header\<rparr>;
          d = d\<lparr>im_bodies := put_at (im_bodies d) n hash
                \<lparr>bb_transactions = blk_transactions block, bb_ommers = blk_ommers block\<rparr>\<rparr>;
          ds = grow (im_difficulty d) n Map.empty;
          parent = (if n = 0 then 0 else or_default (ds ! (n - 1)) (bh_parent_hash header) 0);
          ds = (if n = 0 then ds else ds[n - 1 := (ds ! (n - 1))(bh_parent_hash header \<mapsto> parent)])
      in d\<lparr>im_difficulty := ds[n := (ds ! n)(hash \<mapsto> parent + bh_difficulty header)]\<rparr>)"

text \<open>The senders of the transactions are recovered from their signatures; recovery may fail.\<close>

fun recover_senders ::
  "(MessageWithSignature \<Rightarrow> 'e + address) \<Rightarrow> MessageWithSignature list \<Rightarrow> 'e + MessageWithSender list" where
  "recover_senders recover [] = Inr []"
| "recover_senders recover (tx # txs) =
     (case recover tx of
        Inl e \<Rightarrow> Inl e
      | Inr sender \<Rightarrow> (case recover_senders recover txs of
            Inl e \<Rightarrow> Inl e
          | Inr rest \<Rightarrow> Inr (\<lparr>tm_message = ms_message tx, tm_sender = sender\<rparr> # rest)))"

definition read_body_with_senders ::
  "(MessageWithSignature \<Rightarrow> 'e + address) \<Rightarrow> InMemoryState \<Rightarrow> u64 \<Rightarrow> h256 \<Rightarrow> 'e + BlockBodyWithSenders option" where
  "read_body_with_senders recover d n hash =
     (case Option.bind (get_at (im_bodies d) n) (\<lambda>m. m hash) of
        Some body \<Rightarrow> (case recover_senders recover (bb_transactions body) of
            Inl e \<Rightarrow> Inl e
          | Inr txs \<Rightarrow> Inr (Some \<lparr>bws_transactions = txs, bws_ommers = bb_ommers body\<rparr>))
      | None \<Rightarrow> Inr None)"

definition canonize_block :: "InMemoryState \<Rightarrow> u64 \<Rightarrow> h256 \<Rightarrow> InMemoryState" where
  "canonize_block d n hash = d\<lparr>im_canonical_hashes := (grow (im_canonical_hashes d) (unat n) 0)[unat n := hash]\<rparr>"

definition decanonize_block :: "InMemoryState \<Rightarrow> u64 \<Rightarrow> InMemoryState" where
  "decanonize_block d n = d\<lparr>im_canonical_hashes := take (unat n) (im_canonical_hashes d)\<rparr>"

definition im_read_header :: "InMemoryState \<Rightarrow> u64 \<Rightarrow> h256 \<Rightarrow> BlockHeader option" where
  "im_read_header d n hash = Option.bind (get_at (im_headers d) n) (\<lambda>m. m hash)"

definition im_read_body :: "InMemoryState \<Rightarrow> u64 \<Rightarrow> h256 \<Rightarrow> BlockBody option" where
  "im_read_body d n hash = Option.bind (get_at (im_bodies d) n) (\<lambda>m. m hash)"

definition im_total_difficulty :: "InMemoryState \<Rightarrow> u64 \<Rightarrow> h256 \<Rightarrow> u256 option" where
  "im_total_difficulty d n hash = Option.bind (get_at (im_difficulty d) n) (\<lambda>m. m hash)"

section \<open>Accounts, code and storage\<close>

definition im_read_account :: "InMemoryState \<Rightarrow> address \<Rightarrow> Account option" where
  "im_read_account d a = im_accounts d a"

definition im_read_code :: "InMemoryState \<Rightarrow> h256 \<Rightarrow> byte list" where
  "im_read_code d h = or_default (im_code d) h []"

definition im_read_storage :: "InMemoryState \<Rightarrow> address \<Rightarrow> u256 \<Rightarrow> u256" where
  "im_read_storage d a k = (case im_storage d a of
       Some st \<Rightarrow> (case st k of Some v \<Rightarrow> v | None \<Rightarrow> 0)
     | None \<Rightarrow> 0)"

definition im_begin_block :: "InMemoryState \<Rightarrow> u64 \<Rightarrow> InMemoryState" where
  "im_begin_block d n = d\<lparr>im_block_number := n\<rparr>"

definition put_slot :: "(address \<rightharpoonup> (u256 \<rightharpoonup> u256)) \<Rightarrow> address \<Rightarrow> u256 \<Rightarrow> u256 \<Rightarrow> address \<rightharpoonup> (u256 \<rightharpoonup> u256)" where
  "put_slot m a k v = m(a \<mapsto> (or_default m a Map.empty)(k := if v = 0 then None else Some v))"

definition note_storage :: "InMemoryState \<Rightarrow> address \<Rightarrow> (u256 \<rightharpoonup> u256) \<Rightarrow> InMemoryState" where
  "note_storage d a vals =
     (let n = im_block_number d;
          m = or_default (im_storage_changes d) n Map.empty
      in d\<lparr>im_storage_changes := (im_storage_changes d)(n \<mapsto> m(a \<mapsto> or_default m a Map.empty ++ vals))\<rparr>)"

definition im_erase_storage :: "InMemoryState \<Rightarrow> address \<Rightarrow> InMemoryState" where
  "im_erase_storage d a =
     (let address_storage = or_default (im_storage d) a Map.empty;
          d = d\<lparr>im_storage := (im_storage d)(a := None)\<rparr>
      in if address_storage \<noteq> Map.empty then note_storage d a address_storage else d)"

definition im_update_account :: "InMemoryState \<Rightarrow> address \<Rightarrow> Account option \<Rightarrow> Account option \<Rightarrow> InMemoryState" where
  "im_update_account d a old current =
     (let n = im_block_number d
      in d\<lparr>im_account_changes := (im_account_changes d)(n \<mapsto> (or_default (im_account_changes d) n Map.empty)(a \<mapsto> old)),
           im_accounts := (im_accounts d)(a := current)\<rparr>)"

definition im_update_code :: "InMemoryState \<Rightarrow> h256 \<Rightarrow> byte list \<Rightarrow> InMemoryState" where
  "im_update_code d h bs = d\<lparr>im_code := (im_code d)(h \<mapsto> bs)\<rparr>"

definition im_update_storage :: "InMemoryState \<Rightarrow> address \<Rightarrow> u256 \<Rightarrow> u256 \<Rightarrow> u256 \<Rightarrow> InMemoryState" where
  "im_update_storage d a k old current =
     (let d = note_storage d a [k \<mapsto> old] in d\<lparr>im_storage := put_slot (im_storage d) a k current\<rparr>)"

definition unwind_accounts :: "InMemoryState \<Rightarrow> u64 \<Rightarrow> InMemoryState" where
  "unwind_accounts d n =
     fold (\<lambda>(a, account) d. d\<lparr>im_accounts := (im_accounts d)(a := account)\<rparr>)
       (entries (or_default (im_account_changes d) n Map.empty))
       (d\<lparr>im_account_changes := (im_account_changes d)(n := None)\<rparr>)"

definition unwind_storage :: "InMemoryState \<Rightarrow> u64 \<Rightarrow> InMemoryState" where
  "unwind_storage d n =
     fold (\<lambda>(a, st) d. fold (\<lambda>(k, v) d. d\<lparr>im_storage := put_slot (im_storage d) a k v\<rparr>) (entries st) d)
       (entries (or_default (im_storage_changes d) n Map.empty))
       (d\<lparr>im_storage_changes := (im_storage_changes d)(n := None)\<rparr>)"

definition unwind_state_changes :: "InMemoryState \<Rightarrow> u64 \<Rightarrow> InMemoryState" where
  "unwind_state_changes d n = unwind_storage (unwind_accounts d n) n"

definition in_memory_ops :: "InMemoryState StateOps" where
  "in_memory_ops = \<lparr>so_read_account = im_read_account, so_read_code = im_read_code, so_read_storage = im_read_storage,
     so_erase_storage = im_erase_storage, so_read_header = im_read_header, so_read_body = im_read_body,
     so_total_difficulty = im_total_difficulty, so_begin_block = im_begin_block, so_update_account = im_update_account,
     so_update_code = im_update_code, so_update_storage = im_update_storage\<rparr>"

section \<open>Genesis\<close>

text \<open>\<open>seal_difficulty\<close> and the other reads of the seal are those of \<open>ChainSpec\<close>.\<close>

definition initial_state :: "ChainSpec \<Rightarrow> InMemoryState" where
  "initial_state spec = (case map_of (cs_balances spec) 0 of
       Some balances \<Rightarrow> fold (\<lambda>(a, balance) d. im_update_account d a None (Some (Account_default\<lparr>acc_balance := balance\<rparr>)))
         (entries balances) InMemoryState_new
     | None \<Rightarrow> InMemoryState_new)"

section \<open>The contract of a store\<close>

lemmas im_defs = im_read_account_def im_read_code_def im_read_storage_def im_read_header_def im_begin_block_def note_storage_def
  im_erase_storage_def im_update_account_def im_update_code_def im_update_storage_def

lemma in_memory_ops_sel:
  "so_erase_storage in_memory_ops = im_erase_storage" "so_begin_block in_memory_ops = im_begin_block"
  "so_update_account in_memory_ops = im_update_account" "so_update_code in_memory_ops = im_update_code"
  "so_update_storage in_memory_ops = im_update_storage"
  by (simp_all add: in_memory_ops_def)

lemma im_database:
  "database_of in_memory_ops d = \<lparr>read_account = im_read_account d, read_code = im_read_code d,
     read_storage = im_read_storage d, read_header_parent = (\<lambda>n h. map_option bh_parent_hash (im_read_header d n h))\<rparr>"
  by (simp add: database_of_def in_memory_ops_def)

interpretation memory: state_store in_memory_ops
proof
  show "database_of in_memory_ops (so_begin_block in_memory_ops d n) = database_of in_memory_ops d" for d n
    by (simp add: im_database) (simp add: in_memory_ops_def im_defs fun_eq_iff)
  show "database_of in_memory_ops (so_erase_storage in_memory_ops d a) = (database_of in_memory_ops d)
      \<lparr>read_storage := (read_storage (database_of in_memory_ops d))(a := (\<lambda>_. 0))\<rparr>" for d a
    by (simp add: im_database) (simp add: in_memory_ops_def im_defs Let_def fun_eq_iff)
  show "database_of in_memory_ops (so_update_storage in_memory_ops d a k old current) = (database_of in_memory_ops d)
      \<lparr>read_storage := (read_storage (database_of in_memory_ops d))(a := (read_storage (database_of in_memory_ops d) a)(k := current))\<rparr>"
    for d a k old current
    by (simp add: im_database) (auto simp: in_memory_ops_def im_defs put_slot_def or_default_def Let_def fun_eq_iff split: option.splits)
  show "database_of in_memory_ops (so_update_account in_memory_ops d a old acc) = (database_of in_memory_ops d)
      \<lparr>read_account := (read_account (database_of in_memory_ops d))(a := acc)\<rparr>" for d a old acc
    by (simp add: im_database) (simp add: in_memory_ops_def im_defs Let_def fun_eq_iff)
  show "database_of in_memory_ops (so_update_code in_memory_ops d h bs) = (database_of in_memory_ops d)
      \<lparr>read_code := (read_code (database_of in_memory_ops d))(h := bs)\<rparr>" for d h bs
    by (simp add: im_database) (simp add: in_memory_ops_def im_defs or_default_def fun_eq_iff)
qed

section \<open>Unwinding a block\<close>

text \<open>What unwinding the current block would leave: the recorded value where there is one.\<close>

definition noted :: "InMemoryState \<Rightarrow> address \<Rightarrow> u256 \<rightharpoonup> u256" where
  "noted d a = or_default (or_default (im_storage_changes d) (im_block_number d) Map.empty) a Map.empty"

definition undo_storage :: "InMemoryState \<Rightarrow> address \<Rightarrow> u256 \<Rightarrow> u256" where
  "undo_storage d a k = (case noted d a k of Some v \<Rightarrow> v | None \<Rightarrow> im_read_storage d a k)"

definition undo_account :: "InMemoryState \<Rightarrow> address \<Rightarrow> Account option" where
  "undo_account d a = (case or_default (im_account_changes d) (im_block_number d) Map.empty a of Some old \<Rightarrow> old | None \<Rightarrow> im_accounts d a)"

lemma put_slot_reads:
  "im_read_storage (d\<lparr>im_storage := put_slot (im_storage d) a k v\<rparr>) = (im_read_storage d)(a := (im_read_storage d a)(k := v))"
  by (auto simp: im_read_storage_def put_slot_def or_default_def fun_eq_iff split: option.splits)

lemma unwind_slots:
  "im_read_storage (fold (\<lambda>(k, v) d. d\<lparr>im_storage := put_slot (im_storage d) a k v\<rparr>) (entries st) d)
    = (im_read_storage d)(a := (\<lambda>k. case st k of Some v \<Rightarrow> v | None \<Rightarrow> im_read_storage d a k))"
proof -
  let ?f = "\<lambda>(k, v) d. d\<lparr>im_storage := put_slot (im_storage d) a k v\<rparr>"
  define P where "P e \<longleftrightarrow> (\<exists>x. im_read_storage e = (im_read_storage d)(a := x))" for e
  have P: "P d" by (simp add: P_def exI [of _ "im_read_storage d a"])
  have step: "st k = Some v \<and> P e \<and> im_read_storage e a k = im_read_storage d a k \<longrightarrow>
      P (?f (k, v) e) \<and> im_read_storage (?f (k, v) e) a = (im_read_storage e a)(k := v)" for k v e
    by (auto simp: P_def put_slot_reads)
  note loop = fold_entries [where obs = "\<lambda>e. im_read_storage e a" and P = P and f = ?f and m = st and g = "\<lambda>_ v _. v", OF finite_word_map P step]
  obtain x where x: "im_read_storage (fold ?f (entries st) d) = (im_read_storage d)(a := x)" using loop(1) unfolding P_def by blast
  then show ?thesis using loop(2) unfolding x by simp
qed

lemma unwind_storage_reads:
  "im_read_storage (unwind_storage d n) a k = (case or_default (or_default (im_storage_changes d) n Map.empty) a Map.empty k of
     Some v \<Rightarrow> v | None \<Rightarrow> im_read_storage d a k)"
proof -
  let ?f = "\<lambda>(a, st) d. fold (\<lambda>(k, v) d. d\<lparr>im_storage := put_slot (im_storage d) a k v\<rparr>) (entries st) d"
  let ?d = "d\<lparr>im_storage_changes := (im_storage_changes d)(n := None)\<rparr>"
  have "im_read_storage (fold ?f (entries m) ?d) = (\<lambda>a. case m a of
      Some st \<Rightarrow> (\<lambda>k. case st k of Some v \<Rightarrow> v | None \<Rightarrow> im_read_storage ?d a k) | None \<Rightarrow> im_read_storage ?d a)" for m
    by (rule fold_entries(2) [where P = "\<lambda>_. True" and g = "\<lambda>_ st old k. case st k of Some v \<Rightarrow> v | None \<Rightarrow> old k"])
      (auto simp: unwind_slots fun_eq_iff cong: option.case_cong)
  moreover have "im_read_storage ?d = im_read_storage d" by (simp add: im_read_storage_def fun_eq_iff)
  ultimately show ?thesis by (simp add: unwind_storage_def or_default_def split: option.splits)
qed

lemma unwind_accounts_reads:
  "im_accounts (unwind_accounts d n) a = (case or_default (im_account_changes d) n Map.empty a of Some old \<Rightarrow> old | None \<Rightarrow> im_accounts d a)"
proof -
  let ?f = "\<lambda>(a, account) d. d\<lparr>im_accounts := (im_accounts d)(a := account)\<rparr>"
  let ?d = "d\<lparr>im_account_changes := (im_account_changes d)(n := None)\<rparr>"
  have "im_accounts (fold ?f (entries m) ?d) = (\<lambda>a. case m a of Some old \<Rightarrow> old | None \<Rightarrow> im_accounts ?d a)" for m
    by (rule fold_entries(2) [where P = "\<lambda>_. True" and g = "\<lambda>_ old _. old"]) auto
  then show ?thesis by (simp add: unwind_accounts_def cong: option.case_cong)
qed

lemma unwind_frames:
  "im_storage (unwind_accounts d n) = im_storage d" "im_storage_changes (unwind_accounts d n) = im_storage_changes d"
  "im_accounts (unwind_storage d n) = im_accounts d"
proof -
  let ?f = "\<lambda>(a, account) d. d\<lparr>im_accounts := (im_accounts d)(a := account)\<rparr>"
  have "im_storage (fold ?f xs e) = im_storage e \<and> im_storage_changes (fold ?f xs e) = im_storage_changes e" for xs and e :: InMemoryState
    by (induction xs arbitrary: e) auto
  then show "im_storage (unwind_accounts d n) = im_storage d" "im_storage_changes (unwind_accounts d n) = im_storage_changes d"
    by (simp_all add: unwind_accounts_def)
  have slots: "im_accounts (fold (\<lambda>(k, v) d. d\<lparr>im_storage := put_slot (im_storage d) a k v\<rparr>) xs e) = im_accounts e" for a xs and e :: InMemoryState
    by (induction xs arbitrary: e) auto
  have "im_accounts (fold (\<lambda>(a, st) d. fold (\<lambda>(k, v) d. d\<lparr>im_storage := put_slot (im_storage d) a k v\<rparr>) (entries st) d) ys e) = im_accounts e" for ys and e :: InMemoryState
    by (induction ys arbitrary: e) (auto simp: slots)
  then show "im_accounts (unwind_storage d n) = im_accounts d" by (simp add: unwind_storage_def)
qed

lemma unwind_reads:
  assumes "im_block_number d = n"
  shows "im_read_account (unwind_state_changes d n) = undo_account d" "im_read_storage (unwind_state_changes d n) = undo_storage d"
proof -
  have "im_read_storage (unwind_accounts d n) = im_read_storage d" by (simp add: im_read_storage_def fun_eq_iff unwind_frames)
  then show "im_read_account (unwind_state_changes d n) = undo_account d" "im_read_storage (unwind_state_changes d n) = undo_storage d"
    using assms by (simp_all add: unwind_state_changes_def im_read_account_def unwind_frames undo_account_def undo_storage_def
        noted_def unwind_accounts_reads unwind_storage_reads fun_eq_iff cong: option.case_cong)
qed

text \<open>The operations within a block keep what unwinding would leave, when they record the right value.\<close>

definition same_undo :: "InMemoryState \<Rightarrow> InMemoryState \<Rightarrow> bool" where
  "same_undo d e \<longleftrightarrow> im_block_number e = im_block_number d \<and> undo_storage e = undo_storage d \<and> undo_account e = undo_account d"

lemma update_account_undo:
  "old = undo_account d a \<Longrightarrow> same_undo d (im_update_account d a old current)"
  by (auto simp: same_undo_def undo_account_def undo_storage_def noted_def im_defs Let_def or_default_def fun_eq_iff split: option.splits)

lemma erase_storage_undo:
  assumes "noted d a = Map.empty"
  shows "same_undo d (im_erase_storage d a)" "b \<noteq> a \<Longrightarrow> noted (im_erase_storage d a) b = noted d b"
proof -
  have n: "noted (im_erase_storage d a) = (noted d)(a := or_default (im_storage d) a Map.empty)"
    using assms
    by (auto simp: noted_def im_erase_storage_def note_storage_def Let_def or_default_def fun_eq_iff map_add_def split: option.splits)
  then show "b \<noteq> a \<Longrightarrow> noted (im_erase_storage d a) b = noted d b" by simp
  have "im_read_storage (im_erase_storage d a) = (im_read_storage d)(a := (\<lambda>_. 0))"
    by (simp add: im_read_storage_def im_erase_storage_def note_storage_def Let_def fun_eq_iff)
  then have "undo_storage (im_erase_storage d a) = undo_storage d"
    using assms by (auto simp: undo_storage_def n fun_eq_iff im_read_storage_def or_default_def split: option.splits)
  then show "same_undo d (im_erase_storage d a)"
    by (simp add: same_undo_def undo_account_def im_erase_storage_def note_storage_def Let_def fun_eq_iff cong: option.case_cong)
qed

lemma same_undo_trans: "same_undo d e \<Longrightarrow> same_undo e f \<Longrightarrow> same_undo d f"
  by (simp add: same_undo_def)

lemma erase_loop_undo:
  assumes "\<And>a. noted d a = Map.empty"
  shows "same_undo d (fold (\<lambda>(a, incarnation) d. if incarnation > 0 then im_erase_storage d a else d) (entries (m :: address \<rightharpoonup> nat)) d)"
proof -
  let ?f = "\<lambda>(a, incarnation) d. if incarnation > 0 then im_erase_storage d a else d"
  have "same_undo d (fold ?f kvs e)"
    if "distinct (map fst kvs)" "same_undo d e" "\<forall>a \<in> fst ` set kvs. noted e a = Map.empty" for kvs :: "(address \<times> nat) list" and e
    using that
  proof (induction kvs arbitrary: e)
    case (Cons kv kvs)
    obtain a i where kv: "kv = (a, i)" by fastforce
    have "same_undo d (?f kv e)" "\<forall>b \<in> fst ` set kvs. noted (?f kv e) b = Map.empty"
      using Cons.prems erase_storage_undo [of e a] by (auto simp: kv intro: same_undo_trans) force
    then show ?case using Cons.IH [of "?f kv e"] Cons.prems(1) by simp
  qed simp
  from this [of "entries m" d] show ?thesis using assms entries_props(1) [of m] by (simp add: same_undo_def)
qed

text \<open>What unwinding leaves in the slots a commit writes: the initial value that the block's state has for them.\<close>

lemma update_storage_undoes:
  "undo_storage (im_update_storage d a k old current) = (undo_storage d)(a := (undo_storage d a)(k := old))"
proof -
  have "noted (im_update_storage d a k old current) = (noted d)(a := (noted d a)(k \<mapsto> old))"
    by (auto simp: noted_def im_update_storage_def note_storage_def Let_def or_default_def fun_eq_iff split: option.splits)
  moreover have "im_read_storage (im_update_storage d a k old current) = (im_read_storage d)(a := (im_read_storage d a)(k := current))"
    unfolding im_update_storage_def Let_def put_slot_reads by (simp add: im_read_storage_def note_storage_def Let_def fun_eq_iff)
  ultimately show ?thesis by (auto simp: undo_storage_def fun_eq_iff split: option.splits)
qed

lemma update_storage_keeps:
  "undo_account (im_update_storage d a k old current) = undo_account d"
  "im_block_number (im_update_storage d a k old current) = im_block_number d"
  by (simp_all add: undo_account_def im_update_storage_def note_storage_def Let_def fun_eq_iff cong: option.case_cong)

definition initial_slots :: "IntraBlockState \<Rightarrow> address \<Rightarrow> Storage \<Rightarrow> (u256 \<Rightarrow> u256) \<Rightarrow> u256 \<Rightarrow> u256" where
  "initial_slots s a st old k = (case st_committed st k of
       Some v \<Rightarrow> if Option.bind (objects s a) obj_current \<noteq> None then cv_initial v else old k
     | None \<Rightarrow> old k)"

lemma write_storage_undoes:
  fixes d :: InMemoryState
  shows "undo_storage (write_storage in_memory_ops s (a, st) d) = (undo_storage d)(a := initial_slots s a st (undo_storage d a))"
    "undo_account (write_storage in_memory_ops s (a, st) d) = undo_account d"
    "im_block_number (write_storage in_memory_ops s (a, st) d) = im_block_number d"
proof -
  let ?f = "\<lambda>(k, v) d. im_update_storage d a k (cv_initial v) (cv_original v)"
  define P where "P e \<longleftrightarrow> (\<exists>x. undo_storage e = (undo_storage d)(a := x)) \<and> undo_account e = undo_account d \<and> im_block_number e = im_block_number d" for e
  have P: "P d" by (simp add: P_def exI [of _ "undo_storage d a"])
  have step: "st_committed st k = Some v \<and> P e \<and> undo_storage e a k = undo_storage d a k \<longrightarrow>
      P (?f (k, v) e) \<and> undo_storage (?f (k, v) e) a = (undo_storage e a)(k := cv_initial v)" for k v e
    by (auto simp: P_def update_storage_undoes update_storage_keeps)
  note loop = fold_entries [where obs = "\<lambda>e. undo_storage e a" and P = P and f = ?f and m = "st_committed st" and g = "\<lambda>_ v _. cv_initial v",
      OF finite_word_map P step]
  obtain x where x: "undo_storage (fold ?f (entries (st_committed st)) d) = (undo_storage d)(a := x)" and
    kept: "undo_account (fold ?f (entries (st_committed st)) d) = undo_account d"
      "im_block_number (fold ?f (entries (st_committed st)) d) = im_block_number d"
    using loop(1) unfolding P_def by blast
  have y: "x = (\<lambda>k. case st_committed st k of Some v \<Rightarrow> cv_initial v | None \<Rightarrow> undo_storage d a k)"
    using loop(2) unfolding x by simp
  show "undo_storage (write_storage in_memory_ops s (a, st) d) = (undo_storage d)(a := initial_slots s a st (undo_storage d a))"
    "undo_account (write_storage in_memory_ops s (a, st) d) = undo_account d"
    "im_block_number (write_storage in_memory_ops s (a, st) d) = im_block_number d"
    using x [unfolded y] kept
    by (auto simp: write_storage_def in_memory_ops_sel initial_slots_def fun_eq_iff split: option.splits)
qed

lemma write_loop_undoes:
  fixes d :: InMemoryState and s :: IntraBlockState
  defines "e \<equiv> fold (write_storage in_memory_ops s) (entries (storage s)) d"
  shows "undo_storage e = (\<lambda>a. case storage s a of Some st \<Rightarrow> initial_slots s a st (undo_storage d a) | None \<Rightarrow> undo_storage d a)"
    "undo_account e = undo_account d" "im_block_number e = im_block_number d"
proof -
  define P where "P e \<longleftrightarrow> undo_account e = undo_account d \<and> im_block_number e = im_block_number d" for e
  have P: "P d" by (simp add: P_def)
  have step: "storage s a = Some st \<and> P e \<and> undo_storage e a = undo_storage d a \<longrightarrow>
      P (write_storage in_memory_ops s (a, st) e)
      \<and> undo_storage (write_storage in_memory_ops s (a, st) e) = (undo_storage e)(a := initial_slots s a st (undo_storage d a))" for a st e
    by (auto simp: P_def write_storage_undoes)
  note loop = fold_entries [where obs = undo_storage and P = P and f = "write_storage in_memory_ops s" and m = "storage s"
      and g = "\<lambda>a st old. initial_slots s a st old", OF finite_word_map P step]
  show "undo_storage e = (\<lambda>a. case storage s a of Some st \<Rightarrow> initial_slots s a st (undo_storage d a) | None \<Rightarrow> undo_storage d a)"
    using loop(2) by (simp add: e_def)
  show "undo_account e = undo_account d" "im_block_number e = im_block_number d" using loop(1) by (simp_all add: P_def e_def)
qed

text \<open>The slots that a commit writes: those of the state's accounts that are there at the end of the block.\<close>

definition committed_slot :: "IntraBlockState \<Rightarrow> address \<Rightarrow> u256 \<rightharpoonup> CommittedValue" where
  "committed_slot s a k = (if Option.bind (objects s a) obj_current \<noteq> None
     then Option.bind (storage s a) (\<lambda>st. st_committed st k) else None)"

lemma write_to_db_undoes:
  assumes "\<And>a. noted (im_begin_block d n) a = Map.empty"
    "\<And>a obj. objects s a = Some obj \<Longrightarrow> obj_initial obj = undo_account (im_begin_block d n) a"
  defines "e \<equiv> write_to_db in_memory_ops s n d"
  shows "undo_account e = undo_account (im_begin_block d n)" "im_block_number e = n"
    "undo_storage e a k = (case committed_slot s a k of Some v \<Rightarrow> cv_initial v | None \<Rightarrow> undo_storage (im_begin_block d n) a k)"
proof -
  let ?d = "im_begin_block d n"
  define d1 where "d1 = fold (\<lambda>(a, incarnation) d. if incarnation > 0 then im_erase_storage d a else d) (entries (incarnations s)) ?d"
  define d2 where "d2 = fold (write_storage in_memory_ops s) (entries (storage s)) d1"
  define d3 where "d3 = fold (\<lambda>(a, obj) d. im_update_account d a (obj_initial obj) (obj_current obj)) (entries (objects s)) d2"
  have 1: "same_undo ?d d1" unfolding d1_def using assms(1) by (rule erase_loop_undo)
  note 2 = write_loop_undoes [of s d1, folded d2_def]
  have acc: "same_undo d2 (im_update_account e a (obj_initial obj) w)" if "objects s a = Some obj" "same_undo d2 e" for a obj w e
    using that 1 2(2) by (intro same_undo_trans [OF that(2) update_account_undo]) (simp add: assms(2) same_undo_def)
  have 3: "same_undo d2 d3" unfolding d3_def
    by (rule fold_invariant_list [where P = "same_undo d2"]) (use acc in \<open>auto simp: same_undo_def\<close>)
  have "same_undo d2 (fold (\<lambda>(h, bs) d. im_update_code d h bs) (entries (new_code s)) d3)"
    by (rule fold_invariant_list [where P = "same_undo d2", OF 3])
      (auto simp: same_undo_def undo_account_def undo_storage_def noted_def im_update_code_def im_read_storage_def fun_eq_iff cong: option.case_cong)
  moreover have "e = fold (\<lambda>(h, bs) d. im_update_code d h bs) (entries (new_code s)) d3"
    unfolding e_def write_to_db_def d1_def d2_def d3_def Let_def in_memory_ops_sel ..
  ultimately have u: "same_undo d2 e" by simp
  show "undo_account e = undo_account ?d" "im_block_number e = n"
    using u 1 2 by (simp_all add: same_undo_def) (simp add: im_begin_block_def)
  show "undo_storage e a k = (case committed_slot s a k of Some v \<Rightarrow> cv_initial v | None \<Rightarrow> undo_storage ?d a k)"
    using u 1 2(1) by (auto simp: same_undo_def initial_slots_def committed_slot_def split: option.splits)
qed

lemma unwound_slots:
  assumes "ibs_ok (database_of in_memory_ops d) s" "im_account_changes d n = None" "im_storage_changes d n = None"
  shows "im_read_account (unwind_state_changes (write_to_db in_memory_ops s n d) n) = im_read_account d
    \<and> (\<forall>a k. im_read_storage (unwind_state_changes (write_to_db in_memory_ops s n d) n) a k =
        (case committed_slot s a k of Some v \<Rightarrow> cv_initial v | None \<Rightarrow> im_read_storage d a k))"
proof -
  let ?d = "im_begin_block d n"
  have b: "noted ?d a = Map.empty" "undo_account ?d a = im_read_account d a" "undo_storage ?d a = im_read_storage d a" for a
    using assms(2,3) by (simp_all add: noted_def undo_account_def undo_storage_def im_begin_block_def or_default_def im_read_account_def
        im_read_storage_def fun_eq_iff)
  have "obj_initial obj = undo_account ?d a" if "objects s a = Some obj" for a obj
    using assms(1) that by (auto simp: b ibs_ok_def im_database)
  note u = write_to_db_undoes [where s = s, OF b(1) this]
  show ?thesis using b(2) by (simp add: unwind_reads [OF u(2)] u(1,3) b(3) fun_eq_iff [of "undo_account ?d"] split: option.split)
qed

section \<open>A contract destroyed and created again in one block\<close>

lemma created_fields:
  "\<exists>obj. objects (create_contract db s a) a = Some obj \<and> obj_current obj \<noteq> None"
  "incarnations (create_contract db s a) a \<noteq> None" "storage (create_contract db s a) a = None"
  by (auto simp: create_contract_def put_object_def push_delta_def Let_def split: prod.split option.split)

lemma written_slot:
  assumes "v \<noteq> 0"
  shows "committed_slot (finalize_transaction (ibs_set_storage db (create_contract db s a) a k v)) a k
    = Some \<lparr>cv_initial = 0, cv_original = v\<rparr>"
proof -
  obtain obj where o: "objects (create_contract db s a) a = Some obj" "obj_current obj \<noteq> None" using created_fields(1) by blast
  then show ?thesis
    using assms created_fields(2,3) [of db s a]
    by (simp add: committed_slot_def finalize_transaction_def finalize_storage_def ibs_set_storage_def get_current_storage_def
        ibs_get_storage_def get_object_def put_current_def push_delta_def or_default_def Storage_default_def Let_def)
qed

section \<open>Properties\<close>

text \<open>C10: Committing a block to the state in memory refines the abstract commit: afterwards the state reads
  exactly what the journaled state of the block showed at its end, every account, every slot of
  storage (none for accounts that are gone) and the code deployed; the state stays one in which
  accounts that do not exist have no storage.\<close>

theorem memory_commit_refines:
  assumes "db_ok (database_of in_memory_ops d)" "store_ok (database_of in_memory_ops d) s"
  shows "database_of in_memory_ops (write_to_db in_memory_ops s n d) = committed_db (database_of in_memory_ops d) s
    \<and> db_ok (database_of in_memory_ops (write_to_db in_memory_ops s n d))"
  using memory.write_to_db_refines [OF assms] memory.written_db_ok [OF assms] by simp

text \<open>The sample state has a contract at address 5 with one slot.\<close>

definition sample_memory :: InMemoryState where
  "sample_memory = InMemoryState_new\<lparr>im_accounts := [5 \<mapsto> Account_default\<lparr>acc_nonce := 1\<rparr>], im_storage := [5 \<mapsto> [1 \<mapsto> 7]]\<rparr>"

abbreviation sample_memory_db :: Database where
  "sample_memory_db \<equiv> database_of in_memory_ops sample_memory"

lemma sample_memory_reads:
  "read_account sample_memory_db = [5 \<mapsto> Account_default\<lparr>acc_nonce := 1\<rparr>]"
  "read_storage sample_memory_db a k = (if a = 5 \<and> k = 1 then 7 else 0)"
  by (simp_all add: im_database sample_memory_def InMemoryState_new_def im_read_account_def im_read_storage_def fun_eq_iff)

definition sample_write :: IntraBlockState where
  "sample_write = finalize_transaction (ibs_set_storage sample_memory_db IntraBlockState_new 5 1 9)"

lemma finalize_one:
  "finalize_transaction (s\<lparr>storage := [a \<mapsto> \<lparr>st_committed = m, st_current = [k \<mapsto> v]\<rparr>]\<rparr>)
    = s\<lparr>storage := [a \<mapsto> \<lparr>st_committed = m(k \<mapsto> (or_default m k \<lparr>cv_initial = 0, cv_original = 0\<rparr>)\<lparr>cv_original := v\<rparr>), st_current = Map.empty\<rparr>]\<rparr>"
proof -
  have "finalize_storage \<lparr>st_committed = m, st_current = [k \<mapsto> v]\<rparr>
      = \<lparr>st_committed = m(k \<mapsto> (or_default m k \<lparr>cv_initial = 0, cv_original = 0\<rparr>)\<lparr>cv_original := v\<rparr>), st_current = Map.empty\<rparr>"
    by (auto simp: finalize_storage_def fun_eq_iff)
  then show ?thesis by (auto simp: finalize_transaction_def fun_eq_iff)
qed

abbreviation sample_object :: Object where
  "sample_object \<equiv> \<lparr>obj_initial = Some (Account_default\<lparr>acc_nonce := 1\<rparr>), obj_current = Some (Account_default\<lparr>acc_nonce := 1\<rparr>)\<rparr>"

lemma sample_write_eq:
  "sample_write = IntraBlockState_new\<lparr>objects := [5 \<mapsto> sample_object],
     storage := [5 \<mapsto> \<lparr>st_committed = [1 \<mapsto> \<lparr>cv_initial = 7, cv_original = 9\<rparr>], st_current = Map.empty\<rparr>],
     journal := [DStorageChange 5 1 7]\<rparr>"
proof -
  have g: "get_object sample_memory_db IntraBlockState_new 5 = (Some sample_object, IntraBlockState_new\<lparr>objects := [5 \<mapsto> sample_object]\<rparr>)"
    by (simp add: get_object_def sample_memory_reads IntraBlockState_new_def put_object_def Let_def)
  have "get_current_storage sample_memory_db IntraBlockState_new 5 1 = (7, IntraBlockState_new\<lparr>objects := [5 \<mapsto> sample_object],
     storage := [5 \<mapsto> \<lparr>st_committed = [1 \<mapsto> \<lparr>cv_initial = 7, cv_original = 7\<rparr>], st_current = Map.empty\<rparr>]\<rparr>)"
    unfolding get_current_storage_def ibs_get_storage_def g
    by (simp add: sample_memory_reads IntraBlockState_new_def or_default_def Storage_default_def)
  then have "ibs_set_storage sample_memory_db IntraBlockState_new 5 1 9 = IntraBlockState_new\<lparr>objects := [5 \<mapsto> sample_object],
     journal := [DStorageChange 5 1 7],
     storage := [5 \<mapsto> \<lparr>st_committed = [1 \<mapsto> \<lparr>cv_initial = 7, cv_original = 7\<rparr>], st_current = [1 \<mapsto> 9]\<rparr>]\<rparr>"
    by (simp add: ibs_set_storage_def IntraBlockState_new_def push_delta_def put_current_def or_default_def)
  then show ?thesis unfolding sample_write_def by (simp only: finalize_one) (simp add: or_default_def IntraBlockState_new_def)
qed

lemma sample_memory_ok: "db_ok sample_memory_db"
  by (simp add: db_ok_def sample_memory_reads)

lemma sample_write_ok: "store_ok sample_memory_db sample_write"
  by (simp add: store_ok_def sample_write_eq ibs_ok_def sample_memory_reads IntraBlockState_new_def)

theorem memory_commit_refines_witness:
  "im_read_storage (write_to_db in_memory_ops sample_write 3 sample_memory) 5 1 = 9"
proof -
  have "read_storage (database_of in_memory_ops (write_to_db in_memory_ops sample_write 3 sample_memory)) 5 1 = 9"
    using memory_commit_refines [OF sample_memory_ok sample_write_ok, of 3]
    by (simp add: committed_db_def account_view_def original_view_def sample_write_eq or_default_def)
  then show ?thesis by (simp add: im_database)
qed



text \<open>C37: Unwinding loses the storage of a contract that the block created at an address which had storage (it
  was destroyed earlier in the same block). Whatever the state before the creation, a slot that the new
  contract sets right after it, at the end of the block, reads zero once the block is unwound, and not the value it
  had before the block.\<close>

theorem reborn_contract_loses_storage:
  assumes "ibs_ok (database_of in_memory_ops d) s" "im_account_changes d n = None" "im_storage_changes d n = None" "v \<noteq> 0"
    "t = finalize_transaction (ibs_set_storage (database_of in_memory_ops d) (create_contract (database_of in_memory_ops d) s a) a k v)"
  shows "im_read_storage (unwind_state_changes (write_to_db in_memory_ops t n d) n) a k = 0"
proof -
  have "ibs_ok (database_of in_memory_ops d) t"
    using set_storage_ok [OF create_contract_ok [OF assms(1)]] by (simp add: assms(5) ibs_ok_def finalize_transaction_def)
  note unwound_slots [OF this assms(2,3)]
  then show ?thesis by (simp add: assms(5) written_slot [OF assms(4)])
qed

theorem reborn_contract_loses_storage_witness:
  "\<exists>t. im_read_storage sample_memory 5 1 = 7
   \<and> t = finalize_transaction (ibs_set_storage sample_memory_db (create_contract sample_memory_db
          (clear_journal_and_substate (finalize_transaction (destruct sample_memory_db IntraBlockState_new 5))) 5) 5 1 9)
   \<and> im_read_storage (unwind_state_changes (write_to_db in_memory_ops t 3 sample_memory) 3) 5 1 = 0"
proof -
  let ?s = "clear_journal_and_substate (finalize_transaction (destruct sample_memory_db IntraBlockState_new 5))"
  have "ibs_ok sample_memory_db ?s"
    by (simp add: ibs_ok_def destruct_def get_object_def put_object_def sample_memory_reads IntraBlockState_new_def Let_def or_default_def
        clear_journal_and_substate_def finalize_transaction_def)
  moreover have "im_account_changes sample_memory 3 = None" "im_storage_changes sample_memory 3 = None"
    by (simp_all add: sample_memory_def InMemoryState_new_def)
  moreover have "im_read_storage sample_memory 5 1 = 7" by (simp add: im_read_storage_def sample_memory_def)
  ultimately show ?thesis using reborn_contract_loses_storage [where d = sample_memory and s = ?s and n = 3 and v = 9 and a = 5 and k = 1] by simp
qed

end
