(* ===== verification/Tables.thy ===== *)
theory Tables
  imports StateStore "HOL-Library.Product_Lexorder"
begin

text \<open>
  The tables of the database that the state is read from and written to, with the cursor operations
  that the source uses on them: \<open>src/state/database.rs\<close>, \<open>src/accessors/state.rs\<close> and
  \<open>src/state/history.rs\<close> (whose two readers do what those of the accessors do).

  A table is its contents. The duplicates of a key in a sorted table are a list in increasing order,
  and the rows of an index are a list in the increasing order of their keys: \<open>seek\<close> and
  \<open>seek_both_range\<close> find the first row at or after what they are given. A hash and a number of 256
  bits are the same word here, since the big-endian bytes of a number are ordered as the number is.
\<close>

section \<open>Tables and cursors\<close>

type_synonym 'k index_rows = "(('k \<times> u64) \<times> u64 list) list"

record Tables =
  tb_account :: "address \<rightharpoonup> Account"
  tb_storage :: "address \<Rightarrow> (u256 \<times> u256) list"
  tb_code :: "h256 \<rightharpoonup> byte list"
  tb_account_history :: "address index_rows"
  tb_storage_history :: "(address \<times> u256) index_rows"
  tb_account_change_set :: "u64 \<Rightarrow> (address \<times> Account option) list"
  tb_storage_change_set :: "u64 \<times> address \<Rightarrow> (u256 \<times> u256) list"
  tb_log :: "u64 \<times> u64 \<rightharpoonup> Log list"
  tb_header :: "u64 \<Rightarrow> h256 \<Rightarrow> BlockHeader option"
  tb_body :: "u64 \<Rightarrow> h256 \<Rightarrow> BlockBody option"
  tb_total_difficulty :: "u64 \<Rightarrow> h256 \<Rightarrow> u256 option"

definition seek :: "('k::linorder \<times> 'v) list \<Rightarrow> 'k \<Rightarrow> ('k \<times> 'v) option" where
  "seek rows k = find (\<lambda>(k', _). k \<le> k') rows"

definition seek_both_range :: "('k::linorder \<times> 'v) list \<Rightarrow> 'k \<Rightarrow> ('k \<times> 'v) option" where
  "seek_both_range dups k = seek dups k"

definition dup_upsert :: "('k::linorder \<times> 'v) list \<Rightarrow> 'k \<times> 'v \<Rightarrow> ('k \<times> 'v) list" where
  "dup_upsert dups p = (if p \<in> set dups then dups else insort_key fst p dups)"

section \<open>Storage\<close>

definition seek_storage_key :: "(u256 \<times> u256) list \<Rightarrow> u256 \<Rightarrow> u256 option" where
  "seek_storage_key dups location = (case seek_both_range dups location of
       Some (l, v) \<Rightarrow> if l = location then Some v else None
     | None \<Rightarrow> None)"

definition upsert_storage_value :: "(u256 \<times> u256) list \<Rightarrow> u256 \<Rightarrow> u256 \<Rightarrow> (u256 \<times> u256) list" where
  "upsert_storage_value dups location v =
     (let dups = (case seek_storage_key dups location of Some old \<Rightarrow> remove1 (location, old) dups | None \<Rightarrow> dups)
      in if v \<noteq> 0 then dup_upsert dups (location, v) else dups)"

section \<open>Reads, also of an earlier block\<close>

definition find_next_block :: "'k::linorder index_rows \<Rightarrow> 'k \<Rightarrow> u64 \<Rightarrow> u64 option" where
  "find_next_block rows needle n = (case seek rows (needle, n) of
       Some (index_key, change_blocks) \<Rightarrow>
         (if fst index_key = needle then find (\<lambda>b. n < b) change_blocks else None)
     | None \<Rightarrow> None)"

definition account_read :: "Tables \<Rightarrow> address \<Rightarrow> u64 option \<Rightarrow> Account option" where
  "account_read T a at = (case Option.bind at (find_next_block (tb_account_history T) a) of
       Some b \<Rightarrow> (case seek_both_range (tb_account_change_set T b) a of
           Some (a', account) \<Rightarrow> if a' = a then account else tb_account T a
         | None \<Rightarrow> tb_account T a)
     | None \<Rightarrow> tb_account T a)"

definition table_storage :: "Tables \<Rightarrow> address \<Rightarrow> u256 \<Rightarrow> u256" where
  "table_storage T a location = (case seek_storage_key (tb_storage T a) location of Some v \<Rightarrow> v | None \<Rightarrow> 0)"

definition storage_read :: "Tables \<Rightarrow> address \<Rightarrow> u256 \<Rightarrow> u64 option \<Rightarrow> u256" where
  "storage_read T a location at = (case Option.bind at (find_next_block (tb_storage_history T) (a, location)) of
       Some b \<Rightarrow> (case seek_both_range (tb_storage_change_set T (b, a)) location of
           Some (l, v) \<Rightarrow> if l = location then v else table_storage T a location
         | None \<Rightarrow> table_storage T a location)
     | None \<Rightarrow> table_storage T a location)"

section \<open>Sorted duplicates\<close>

definition dups_ok :: "('k::linorder \<times> 'v) list \<Rightarrow> bool" where
  "dups_ok dups \<longleftrightarrow> sorted (map fst dups) \<and> distinct (map fst dups)"

lemma seek_exact:
  assumes "dups_ok dups"
  shows "(case seek dups k of Some (l, v) \<Rightarrow> if l = k then Some v else None | None \<Rightarrow> None) = map_of dups k"
  using assms
proof (induction dups)
  case (Cons p dups)
  obtain l v where p: "p = (l, v)" by fastforce
  show ?case
  proof (cases "k \<le> l")
    case True
    have "map_of dups k = None" if "l \<noteq> k"
      using Cons.prems True that by (auto simp: p dups_ok_def map_of_eq_None_iff)
    then show ?thesis using True by (simp add: p seek_def)
  next
    case False
    then have "k \<noteq> l" by auto
    then show ?thesis using False Cons by (simp add: p seek_def dups_ok_def)
  qed
qed (simp add: seek_def)

lemma seek_storage_key_eq: "dups_ok dups \<Longrightarrow> seek_storage_key dups k = map_of dups k"
  using seek_exact by (simp add: seek_storage_key_def seek_both_range_def)

lemma remove1_dups:
  assumes "dups_ok dups" "map_of dups k = Some v"
  shows "dups_ok (remove1 (k, v) dups)" "map_of (remove1 (k, v) dups) = (map_of dups)(k := None)"
proof -
  show "dups_ok (remove1 (k, v) dups)"
    using assms(1) by (auto simp: dups_ok_def distinct_map sorted_map_remove1 intro: inj_on_subset)
  show "map_of (remove1 (k, v) dups) = (map_of dups)(k := None)"
    using assms unfolding dups_ok_def
  proof (induction dups)
    case (Cons p dups)
    have "map_of dups k = None" if "p = (k, v)" using Cons.prems(1) that by (auto simp: map_of_eq_None_iff)
    then show ?case using Cons by (auto simp: fun_eq_iff split: if_splits)
  qed simp
qed

lemma insort_dups:
  assumes "dups_ok dups" "map_of dups k = None"
  shows "dups_ok (insort_key fst (k, v) dups)" "map_of (insort_key fst (k, v) dups) = (map_of dups)(k \<mapsto> v)"
proof -
  have "map fst (insort_key fst (k, v) dups) = insort k (map fst dups)" by (induction dups) auto
  then show "dups_ok (insort_key fst (k, v) dups)"
    using assms by (simp add: dups_ok_def sorted_insort distinct_insort map_of_eq_None_iff)
  show "map_of (insort_key fst (k, v) dups) = (map_of dups)(k \<mapsto> v)"
    using assms(2)
  proof (induction dups)
    case (Cons p dups)
    obtain l w where p: "p = (l, w)" by fastforce
    show ?case using Cons by (auto simp: p fun_eq_iff split: if_splits)
  qed simp
qed

lemma upsert_storage_value_ok:
  assumes "dups_ok dups"
  shows "dups_ok (upsert_storage_value dups k v)"
    "map_of (upsert_storage_value dups k v) = (map_of dups)(k := if v = 0 then None else Some v)"
proof -
  define e where "e = (case seek_storage_key dups k of Some old \<Rightarrow> remove1 (k, old) dups | None \<Rightarrow> dups)"
  have e: "dups_ok e" "map_of e = (map_of dups)(k := None)"
    using assms remove1_dups [OF assms] by (auto simp: e_def seek_storage_key_eq fun_eq_iff split: option.splits)
  then have "(k, v) \<notin> set e" using weak_map_of_SomeI by fastforce
  then show "dups_ok (upsert_storage_value dups k v)"
    "map_of (upsert_storage_value dups k v) = (map_of dups)(k := if v = 0 then None else Some v)"
    using e insort_dups [of e k v] by (simp_all add: upsert_storage_value_def e_def [symmetric] dup_upsert_def)
qed

end
