(* ===== verification/Buffer.thy ===== *)
theory Buffer
  imports Tables
begin

text \<open>
  The buffer between the execution of blocks and the database, \<open>src/state/buffer.rs\<close>: an overlay of
  the accounts, storage and code that changed, over the tables of a transaction, with the change
  sets of the blocks. It implements the contract of \<open>StateStore\<close>, and writing it out leaves tables
  that read what the buffer read.

  The tables are a parameter of the operations, and the model is for writes that succeed.
\<close>

section \<open>Data\<close>

record OverlayStorage =
  ov_erased :: bool
  ov_slots :: "u256 \<rightharpoonup> u256"

definition OverlayStorage_default :: OverlayStorage where
  "OverlayStorage_default = \<lparr>ov_erased = False, ov_slots = Map.empty\<rparr>"

record Buffer =
  bf_prune_from :: u64
  bf_historical_block :: "u64 option"
  bf_accounts :: "address \<rightharpoonup> Account option"
  bf_storage :: "address \<rightharpoonup> OverlayStorage"
  bf_account_changes :: "u64 \<rightharpoonup> (address \<rightharpoonup> Account option)"
  bf_storage_changes :: "u64 \<rightharpoonup> (address \<rightharpoonup> (u256 \<rightharpoonup> u256))"
  bf_hash_to_code :: "h256 \<rightharpoonup> byte list"
  bf_logs :: "u64 \<times> u64 \<rightharpoonup> Log list"
  bf_block_number :: u64
  bf_changed_storage :: "address set"

definition Buffer_new :: "u64 \<Rightarrow> u64 option \<Rightarrow> Buffer" where
  "Buffer_new prune_from historical_block = \<lparr>bf_prune_from = prune_from, bf_historical_block = historical_block,
     bf_accounts = Map.empty, bf_storage = Map.empty, bf_account_changes = Map.empty, bf_storage_changes = Map.empty,
     bf_hash_to_code = Map.empty, bf_logs = Map.empty, bf_block_number = 0, bf_changed_storage = {}\<rparr>"

definition insert_logs :: "u64 \<Rightarrow> Log list list \<Rightarrow> Buffer \<Rightarrow> Buffer" where
  "insert_logs n logs_of_receipts b =
     b\<lparr>bf_logs := fold (\<lambda>(i, ls) m. m((n, of_nat i) \<mapsto> ls)) (enumerate 0 logs_of_receipts) (bf_logs b)\<rparr>"

section \<open>Operations of the trait\<close>

definition buffer_read_account :: "Tables \<Rightarrow> Buffer \<Rightarrow> address \<Rightarrow> Account option" where
  "buffer_read_account T b a = (case bf_accounts b a of
       Some account \<Rightarrow> account
     | None \<Rightarrow> account_read T a (bf_historical_block b))"

definition buffer_read_code :: "Tables \<Rightarrow> Buffer \<Rightarrow> h256 \<Rightarrow> byte list" where
  "buffer_read_code T b h = (case bf_hash_to_code b h of Some bs \<Rightarrow> bs | None \<Rightarrow> or_default (tb_code T) h [])"

definition buffer_read_storage :: "Tables \<Rightarrow> Buffer \<Rightarrow> address \<Rightarrow> u256 \<Rightarrow> u256" where
  "buffer_read_storage T b a location = (case bf_storage b a of
       Some ov \<Rightarrow> (case ov_slots ov location of
           Some v \<Rightarrow> v
         | None \<Rightarrow> if ov_erased ov then 0 else storage_read T a location (bf_historical_block b))
     | None \<Rightarrow> storage_read T a location (bf_historical_block b))"

definition buffer_begin_block :: "Buffer \<Rightarrow> u64 \<Rightarrow> Buffer" where
  "buffer_begin_block b n = b\<lparr>bf_block_number := n, bf_changed_storage := {}\<rparr>"

text \<open>The record of a block's storage changes for an address, which the accesses create when missing.\<close>

definition changes_of :: "Buffer \<Rightarrow> address \<Rightarrow> u256 \<rightharpoonup> u256" where
  "changes_of b a = or_default (or_default (bf_storage_changes b) (bf_block_number b) Map.empty) a Map.empty"

definition set_changes :: "Buffer \<Rightarrow> address \<Rightarrow> (u256 \<rightharpoonup> u256) \<Rightarrow> Buffer" where
  "set_changes b a m = b\<lparr>bf_storage_changes := (bf_storage_changes b)(bf_block_number b \<mapsto>
     (or_default (bf_storage_changes b) (bf_block_number b) Map.empty)(a \<mapsto> m))\<rparr>"

definition buffer_erase_storage :: "Tables \<Rightarrow> Buffer \<Rightarrow> address \<Rightarrow> Buffer" where
  "buffer_erase_storage T b a =
     (let missing = (bf_storage b a = None);
          ov = or_default (bf_storage b) a \<lparr>ov_erased = True, ov_slots = Map.empty\<rparr>;
          b = set_changes b a (changes_of b a ++ ov_slots ov);
          mark_database_as_discarded = (missing \<or> \<not> ov_erased ov);
          b = b\<lparr>bf_storage := (bf_storage b)(a \<mapsto> \<lparr>ov_erased = True, ov_slots = Map.empty\<rparr>)\<rparr>
      in if mark_database_as_discarded
         then set_changes b a (fold (\<lambda>(slot, old) m. if m slot = None then m(slot \<mapsto> old) else m) (tb_storage T a) (changes_of b a))
         else b)"

definition buffer_update_account :: "Buffer \<Rightarrow> address \<Rightarrow> Account option \<Rightarrow> Account option \<Rightarrow> Buffer" where
  "buffer_update_account b a old current =
     (let equal = (current = old);
          account_deleted = (current = None)
      in if equal \<and> \<not> account_deleted \<and> a \<notin> bf_changed_storage b then b
         else
           let n = bf_block_number b;
               b = (if n \<ge> bf_prune_from b
                    then b\<lparr>bf_account_changes := (bf_account_changes b)(n \<mapsto> (or_default (bf_account_changes b) n Map.empty)(a \<mapsto> old))\<rparr>
                    else b)
           in if equal then b else b\<lparr>bf_accounts := (bf_accounts b)(a \<mapsto> current)\<rparr>)"

definition buffer_update_code :: "Buffer \<Rightarrow> h256 \<Rightarrow> byte list \<Rightarrow> Buffer" where
  "buffer_update_code b h bs = b\<lparr>bf_hash_to_code := (bf_hash_to_code b)(h \<mapsto> bs)\<rparr>"

definition put_overlay :: "Buffer \<Rightarrow> address \<Rightarrow> u256 \<Rightarrow> u256 \<Rightarrow> Buffer" where
  "put_overlay b a location v =
     (let ov = or_default (bf_storage b) a OverlayStorage_default
      in b\<lparr>bf_storage := (bf_storage b)(a \<mapsto> ov\<lparr>ov_slots := (ov_slots ov)(location \<mapsto> v)\<rparr>)\<rparr>)"

definition buffer_update_storage :: "Buffer \<Rightarrow> address \<Rightarrow> u256 \<Rightarrow> u256 \<Rightarrow> u256 \<Rightarrow> Buffer" where
  "buffer_update_storage b a location old current =
     (if current = old then b
      else
        let b = (if bf_block_number b \<ge> bf_prune_from b
                 then set_changes (b\<lparr>bf_changed_storage := insert a (bf_changed_storage b)\<rparr>) a ((changes_of b a)(location \<mapsto> old))
                 else b)
        in put_overlay b a location current)"

definition buffer_ops :: "Tables \<Rightarrow> Buffer StateOps" where
  "buffer_ops T = \<lparr>so_read_account = buffer_read_account T, so_read_code = buffer_read_code T,
     so_read_storage = buffer_read_storage T, so_erase_storage = buffer_erase_storage T,
     so_read_header = (\<lambda>_. tb_header T), so_read_body = (\<lambda>_. tb_body T), so_total_difficulty = (\<lambda>_. tb_total_difficulty T),
     so_begin_block = buffer_begin_block, so_update_account = buffer_update_account, so_update_code = buffer_update_code,
     so_update_storage = buffer_update_storage\<rparr>"

section \<open>Writing the buffer out\<close>

definition write_account :: "address \<times> Account option \<Rightarrow> Tables \<Rightarrow> Tables" where
  "write_account = (\<lambda>(a, account) T. T\<lparr>tb_account := (tb_account T)(a := account)\<rparr>)"

definition write_overlay :: "address \<times> OverlayStorage \<Rightarrow> Tables \<Rightarrow> Tables" where
  "write_overlay = (\<lambda>(a, ov) T.
     let dups = (if ov_erased ov then [] else tb_storage T a)
     in T\<lparr>tb_storage := (tb_storage T)(a := fold (\<lambda>(k, v) dups. upsert_storage_value dups k v) (entries (ov_slots ov)) dups)\<rparr>)"

definition write_history :: "Buffer \<Rightarrow> Tables \<Rightarrow> Tables" where
  "write_history b T =
     (let T = fold (\<lambda>(n, accounts) T. T\<lparr>tb_account_change_set := (tb_account_change_set T)(n :=
                 tb_account_change_set T n @ entries accounts)\<rparr>) (entries (bf_account_changes b)) T;
          T = fold (\<lambda>(n, m) T. fold (\<lambda>(a, slots) T. T\<lparr>tb_storage_change_set := (tb_storage_change_set T)((n, a) :=
                 tb_storage_change_set T (n, a) @ entries slots)\<rparr>) (entries m) T) (entries (bf_storage_changes b)) T
      in T\<lparr>tb_log := tb_log T ++ bf_logs b\<rparr>)"

definition buffer_write_to_db :: "Buffer \<Rightarrow> Tables \<Rightarrow> Tables" where
  "buffer_write_to_db b T =
     (let T = write_history b T;
          T = fold write_account (entries (bf_accounts b)) T;
          T = fold write_overlay (entries (bf_storage b)) T
      in fold (\<lambda>(h, bs) T. T\<lparr>tb_code := (tb_code T)(h \<mapsto> bs)\<rparr>) (entries (bf_hash_to_code b)) T)"

section \<open>The contract of a store\<close>

lemmas buffer_defs = buffer_read_account_def buffer_read_code_def buffer_read_storage_def buffer_begin_block_def
  buffer_erase_storage_def buffer_update_account_def buffer_update_code_def put_overlay_def buffer_update_storage_def set_changes_def

lemma buffer_database:
  "database_of (buffer_ops T) b = \<lparr>read_account = buffer_read_account T b, read_code = buffer_read_code T b,
     read_storage = buffer_read_storage T b, read_header_parent = (\<lambda>n h. map_option bh_parent_hash (tb_header T n h))\<rparr>"
  by (simp add: database_of_def buffer_ops_def)

lemma buffer_ops_sel:
  "so_erase_storage (buffer_ops T) = buffer_erase_storage T" "so_begin_block (buffer_ops T) = buffer_begin_block"
  "so_update_account (buffer_ops T) = buffer_update_account" "so_update_code (buffer_ops T) = buffer_update_code"
  "so_update_storage (buffer_ops T) = buffer_update_storage"
  by (simp_all add: buffer_ops_def)

lemma put_overlay_reads:
  "buffer_read_storage T (put_overlay b a k v) = (buffer_read_storage T b)(a := (buffer_read_storage T b a)(k := v))"
  by (auto simp: buffer_read_storage_def put_overlay_def or_default_def OverlayStorage_default_def Let_def fun_eq_iff split: option.splits)

lemma buffer_update_storage_reads:
  assumes "buffer_read_storage T b a k = old"
  shows "buffer_read_storage T (buffer_update_storage b a k old current)
    = (buffer_read_storage T b)(a := (buffer_read_storage T b a)(k := current))"
proof (cases "current = old")
  case False
  have "buffer_read_storage T (set_changes (b\<lparr>bf_changed_storage := x\<rparr>) a m) = buffer_read_storage T b" for x m
    by (simp add: buffer_read_storage_def set_changes_def fun_eq_iff cong: option.case_cong if_cong)
  then show ?thesis using False by (simp add: buffer_update_storage_def put_overlay_reads Let_def)
qed (use assms in \<open>auto simp: buffer_update_storage_def\<close>)

interpretation buffer: state_store "buffer_ops T" for T
proof
  let ?view = "database_of (buffer_ops T)"
  show "?view (so_begin_block (buffer_ops T) b n) = ?view b" for b n
    by (simp add: buffer_database buffer_ops_sel)
      (simp add: buffer_defs fun_eq_iff cong: option.case_cong if_cong)
  show "?view (so_erase_storage (buffer_ops T) b a) = (?view b)\<lparr>read_storage := (read_storage (?view b))(a := (\<lambda>_. 0))\<rparr>" for b a
    by (simp add: buffer_database buffer_ops_sel)
      (simp add: buffer_defs Let_def fun_eq_iff cong: option.case_cong if_cong)
  show "?view (so_update_storage (buffer_ops T) b a k old current)
      = (?view b)\<lparr>read_storage := (read_storage (?view b))(a := (read_storage (?view b) a)(k := current))\<rparr>"
    if "read_storage (?view b) a k = old" for b a k old current
    using that by (simp add: buffer_database buffer_ops_sel buffer_update_storage_reads)
      (simp add: buffer_defs Let_def fun_eq_iff cong: option.case_cong if_cong)
  show "?view (so_update_account (buffer_ops T) b a old acc) = (?view b)\<lparr>read_account := (read_account (?view b))(a := acc)\<rparr>"
    if "read_account (?view b) a = old" for b a old acc
    using that by (simp add: buffer_database buffer_ops_sel)
      (auto simp: buffer_defs Let_def fun_eq_iff split: option.splits)
  show "?view (so_update_code (buffer_ops T) b h bs) = (?view b)\<lparr>read_code := (read_code (?view b))(h := bs)\<rparr>" for b h bs
    by (simp add: buffer_database buffer_ops_sel)
      (simp add: buffer_defs fun_eq_iff cong: option.case_cong if_cong)
qed

section \<open>What the tables read afterwards\<close>

lemma upsert_loop:
  assumes "dups_ok dups"
  shows "dups_ok (fold (\<lambda>(k, v) dups. upsert_storage_value dups k v) (entries m) dups)"
    "map_of (fold (\<lambda>(k, v) dups. upsert_storage_value dups k v) (entries m) dups)
      = (\<lambda>k. case m k of Some v \<Rightarrow> if v = 0 then None else Some v | None \<Rightarrow> map_of dups k)"
proof -
  let ?f = "\<lambda>(k, v) dups. upsert_storage_value dups k v"
  have step: "m k = Some v \<and> dups_ok e \<and> map_of e k = map_of dups k \<longrightarrow>
      dups_ok (?f (k, v) e) \<and> map_of (?f (k, v) e) = (map_of e)(k := if v = 0 then None else Some v)" for k v e
    by (simp add: upsert_storage_value_ok)
  note loop = fold_entries [where obs = map_of and P = dups_ok and f = ?f and m = m and g = "\<lambda>_ v _. if v = 0 then None else Some v",
      OF finite_word_map assms step]
  show "dups_ok (fold ?f (entries m) dups)"
    "map_of (fold ?f (entries m) dups) = (\<lambda>k. case m k of Some v \<Rightarrow> if v = 0 then None else Some v | None \<Rightarrow> map_of dups k)"
    by (rule loop(1)) (rule loop(2))
qed

lemma write_accounts_loop:
  "fold write_account (entries m) T = T\<lparr>tb_account := (\<lambda>a. case m a of Some account \<Rightarrow> account | None \<Rightarrow> tb_account T a)\<rparr>"
proof -
  define P where "P e \<longleftrightarrow> (\<exists>x. e = T\<lparr>tb_account := x\<rparr>)" for e
  have P: "P T" by (simp add: P_def exI [of _ "tb_account T"])
  have step: "m a = Some account \<and> P e \<and> tb_account e a = tb_account T a \<longrightarrow>
      P (write_account (a, account) e) \<and> tb_account (write_account (a, account) e) = (tb_account e)(a := account)" for a account e
    by (auto simp: P_def write_account_def)
  note loop = fold_entries [where obs = tb_account and P = P and f = write_account and m = m and g = "\<lambda>_ account _. account",
      OF finite_word_map P step]
  obtain x where x: "fold write_account (entries m) T = T\<lparr>tb_account := x\<rparr>" using loop(1) unfolding P_def by blast
  then show ?thesis using loop(2) unfolding x by simp
qed

lemma write_overlays_loop:
  "fold write_overlay (entries m) T = T\<lparr>tb_storage := (\<lambda>a. case m a of
     Some ov \<Rightarrow> fold (\<lambda>(k, v) dups. upsert_storage_value dups k v) (entries (ov_slots ov)) (if ov_erased ov then [] else tb_storage T a)
   | None \<Rightarrow> tb_storage T a)\<rparr>"
proof -
  define P where "P e \<longleftrightarrow> (\<exists>x. e = T\<lparr>tb_storage := x\<rparr>)" for e
  define g where "g a ov dups = fold (\<lambda>(k, v) dups. upsert_storage_value dups k v) (entries (ov_slots ov)) (if ov_erased ov then [] else dups)"
    for a :: address and ov :: OverlayStorage and dups
  have P: "P T" by (simp add: P_def exI [of _ "tb_storage T"])
  have step: "m a = Some ov \<and> P e \<and> tb_storage e a = tb_storage T a \<longrightarrow>
      P (write_overlay (a, ov) e) \<and> tb_storage (write_overlay (a, ov) e) = (tb_storage e)(a := g a ov (tb_storage T a))" for a ov e
    by (auto simp: P_def write_overlay_def g_def Let_def)
  note loop = fold_entries [where obs = tb_storage and P = P and f = write_overlay and m = m and g = g, OF finite_word_map P step]
  obtain x where x: "fold write_overlay (entries m) T = T\<lparr>tb_storage := x\<rparr>" using loop(1) unfolding P_def by blast
  then show ?thesis using loop(2) unfolding x by (simp add: g_def cong: option.case_cong)
qed

lemma write_code_loop:
  "fold (\<lambda>(h, bs) T. T\<lparr>tb_code := (tb_code T)(h \<mapsto> bs)\<rparr>) (entries m) T = T\<lparr>tb_code := tb_code T ++ m\<rparr>"
proof -
  let ?f = "\<lambda>(h, bs) T. T\<lparr>tb_code := (tb_code T)(h \<mapsto> bs)\<rparr>"
  define P where "P e \<longleftrightarrow> (\<exists>x. e = T\<lparr>tb_code := x\<rparr>)" for e
  have P: "P T" by (simp add: P_def exI [of _ "tb_code T"])
  have step: "m h = Some bs \<and> P e \<and> tb_code e h = tb_code T h \<longrightarrow>
      P (?f (h, bs) e) \<and> tb_code (?f (h, bs) e) = (tb_code e)(h := Some bs)" for h bs e
    by (auto simp: P_def)
  note loop = fold_entries [where obs = tb_code and P = P and f = ?f and m = m and g = "\<lambda>_ bs _. Some bs", OF finite_word_map P step]
  obtain x where x: "fold ?f (entries m) T = T\<lparr>tb_code := x\<rparr>" using loop(1) unfolding P_def by blast
  have "x = tb_code T ++ m" using loop(2) unfolding x by (simp add: map_add_def)
  then show ?thesis using x by simp
qed

lemma write_history_frame:
  "tb_account (write_history b T) = tb_account T" "tb_storage (write_history b T) = tb_storage T"
  "tb_code (write_history b T) = tb_code T" "tb_header (write_history b T) = tb_header T"
proof -
  define P where "P e \<longleftrightarrow> tb_account e = tb_account T \<and> tb_storage e = tb_storage T \<and> tb_code e = tb_code T \<and> tb_header e = tb_header T" for e :: Tables
  have P: "P T" by (simp add: P_def)
  have 1: "P (fold (\<lambda>(n, accounts) T. T\<lparr>tb_account_change_set := (tb_account_change_set T)(n :=
      tb_account_change_set T n @ entries accounts)\<rparr>) xs e)" if "P e" for xs :: "(u64 \<times> (address \<rightharpoonup> Account option)) list" and e
    by (rule fold_invariant_list [where P = P, OF that]) (auto simp: P_def)
  have 2: "P (fold (\<lambda>(a, slots) T. T\<lparr>tb_storage_change_set := (tb_storage_change_set T)((n, a) :=
      tb_storage_change_set T (n, a) @ entries slots)\<rparr>) xs e)" if "P e" for n and xs :: "(address \<times> (u256 \<rightharpoonup> u256)) list" and e
    by (rule fold_invariant_list [where P = P, OF that]) (auto simp: P_def)
  have 3: "P (fold (\<lambda>(n, m) T. fold (\<lambda>(a, slots) T. T\<lparr>tb_storage_change_set := (tb_storage_change_set T)((n, a) :=
      tb_storage_change_set T (n, a) @ entries slots)\<rparr>) (entries m) T) xs e)" if "P e"
      for xs :: "(u64 \<times> (address \<rightharpoonup> (u256 \<rightharpoonup> u256))) list" and e
    by (rule fold_invariant_list [where P = P, OF that]) (auto intro: 2)
  have "P (write_history b T)" using 3 [OF 1 [OF P]] unfolding write_history_def Let_def by (simp add: P_def)
  then show "tb_account (write_history b T) = tb_account T" "tb_storage (write_history b T) = tb_storage T"
    "tb_code (write_history b T) = tb_code T" "tb_header (write_history b T) = tb_header T"
    by (simp_all add: P_def)
qed

lemma flush_tables:
  fixes b T
  defines "T' \<equiv> buffer_write_to_db b T"
  shows "tb_account T' a = (case bf_accounts b a of Some account \<Rightarrow> account | None \<Rightarrow> tb_account T a)"
    "tb_storage T' a = (case bf_storage b a of
       Some ov \<Rightarrow> fold (\<lambda>(k, v) dups. upsert_storage_value dups k v) (entries (ov_slots ov)) (if ov_erased ov then [] else tb_storage T a)
     | None \<Rightarrow> tb_storage T a)"
    "tb_code T' = tb_code T ++ bf_hash_to_code b" "tb_header T' = tb_header T"
  unfolding T'_def buffer_write_to_db_def Let_def write_accounts_loop write_overlays_loop write_code_loop
  by (simp_all add: write_history_frame cong: option.case_cong if_cong)

lemma flush_storage:
  assumes "dups_ok (tb_storage T a)"
  shows "dups_ok (tb_storage (buffer_write_to_db b T) a)"
    "table_storage (buffer_write_to_db b T) a k = (case bf_storage b a of
       Some ov \<Rightarrow> (case ov_slots ov k of Some v \<Rightarrow> v | None \<Rightarrow> if ov_erased ov then 0 else table_storage T a k)
     | None \<Rightarrow> table_storage T a k)"
proof -
  show ok: "dups_ok (tb_storage (buffer_write_to_db b T) a)"
    unfolding flush_tables using assms upsert_loop(1) [of "[]"] upsert_loop(1) [OF assms]
    by (auto simp: dups_ok_def [of "[]"] split: option.splits)
  have e: "dups_ok []" by (simp add: dups_ok_def)
  show "table_storage (buffer_write_to_db b T) a k = (case bf_storage b a of
       Some ov \<Rightarrow> (case ov_slots ov k of Some v \<Rightarrow> v | None \<Rightarrow> if ov_erased ov then 0 else table_storage T a k)
     | None \<Rightarrow> table_storage T a k)"
    unfolding table_storage_def seek_storage_key_eq [OF ok] seek_storage_key_eq [OF assms]
    unfolding flush_tables using upsert_loop(2) [OF e] upsert_loop(2) [OF assms]
    by (auto split: option.splits)
qed

section \<open>Properties\<close>

text \<open>C11: Committing a block to the buffer refines the abstract commit, as it does for the state in memory: the
  updates that the buffer leaves out because they change nothing, and the overlay of erased storage,
  do not show in what is read afterwards.\<close>

theorem buffer_commit_refines:
  assumes "db_ok (database_of (buffer_ops T) b)" "store_ok (database_of (buffer_ops T) b) s"
  shows "database_of (buffer_ops T) (write_to_db (buffer_ops T) s n b) = committed_db (database_of (buffer_ops T) b) s"
  using buffer.write_to_db_refines [OF assms] .

definition sample_tables :: Tables where
  "sample_tables = \<lparr>tb_account = [5 \<mapsto> Account_default\<lparr>acc_nonce := 1\<rparr>], tb_storage = (\<lambda>_. [])(5 := [(1, 7), (4, 8)]), tb_code = Map.empty,
     tb_account_history = [], tb_storage_history = [], tb_account_change_set = (\<lambda>_. []), tb_storage_change_set = (\<lambda>_. []),
     tb_log = Map.empty, tb_header = (\<lambda>_ _. None), tb_body = (\<lambda>_ _. None), tb_total_difficulty = (\<lambda>_ _. None)\<rparr>"

abbreviation sample_buffer :: Buffer where
  "sample_buffer \<equiv> Buffer_new 0 None"

lemma sample_buffer_reads:
  "buffer_read_account sample_tables sample_buffer = [5 \<mapsto> Account_default\<lparr>acc_nonce := 1\<rparr>]"
  "buffer_read_storage sample_tables sample_buffer a k = (if a = 5 \<and> k = 1 then 7 else if a = 5 \<and> k = 4 then 8 else 0)"
proof -
  have ok: "dups_ok (tb_storage sample_tables a)" for a by (simp add: dups_ok_def sample_tables_def)
  show "buffer_read_account sample_tables sample_buffer = [5 \<mapsto> Account_default\<lparr>acc_nonce := 1\<rparr>]"
    by (simp add: buffer_read_account_def Buffer_new_def account_read_def sample_tables_def fun_eq_iff)
  show "buffer_read_storage sample_tables sample_buffer a k = (if a = 5 \<and> k = 1 then 7 else if a = 5 \<and> k = 4 then 8 else 0)"
    by (simp add: buffer_read_storage_def Buffer_new_def storage_read_def table_storage_def seek_storage_key_eq [OF ok])
      (simp add: sample_tables_def)
qed

text \<open>A block that destroys the contract at 5.\<close>

definition sample_destruction :: IntraBlockState where
  "sample_destruction = IntraBlockState_new\<lparr>objects := [5 \<mapsto> \<lparr>obj_initial = Some (Account_default\<lparr>acc_nonce := 1\<rparr>), obj_current = None\<rparr>],
     incarnations := [5 \<mapsto> 1]\<rparr>"

theorem buffer_commit_refines_witness:
  "buffer_read_storage sample_tables (write_to_db (buffer_ops sample_tables) sample_destruction 3 sample_buffer) 5 4 = 0
   \<and> buffer_read_account sample_tables (write_to_db (buffer_ops sample_tables) sample_destruction 3 sample_buffer) 5 = None"
proof -
  have "db_ok (database_of (buffer_ops sample_tables) sample_buffer)"
    "store_ok (database_of (buffer_ops sample_tables) sample_buffer) sample_destruction"
    by (simp_all add: db_ok_def store_ok_def ibs_ok_def buffer_database sample_buffer_reads sample_destruction_def IntraBlockState_new_def)
  from buffer_commit_refines [OF this, of 3] show ?thesis
    by (simp add: buffer_database committed_db_def account_view_def sample_destruction_def)
qed

text \<open>C12: Writing the buffer out is exact: the tables then read, with an empty buffer, every account, slot of
  storage and code as the buffer read them over the old tables, and the duplicates of the storage
  table stay in order with one value for each location.\<close>

theorem buffer_flush_refines:
  assumes "\<forall>a. dups_ok (tb_storage T a)" "bf_historical_block b = None"
  shows "database_of (buffer_ops (buffer_write_to_db b T)) (Buffer_new p None) = database_of (buffer_ops T) b
    \<and> (\<forall>a. dups_ok (tb_storage (buffer_write_to_db b T) a))"
proof -
  have "buffer_read_account (buffer_write_to_db b T) (Buffer_new p None) a = buffer_read_account T b a" for a
    by (simp add: buffer_read_account_def Buffer_new_def account_read_def flush_tables assms(2) cong: option.case_cong)
  moreover have "buffer_read_storage (buffer_write_to_db b T) (Buffer_new p None) a k = buffer_read_storage T b a k" for a k
    using assms flush_storage(2) by (simp add: buffer_read_storage_def Buffer_new_def storage_read_def cong: option.case_cong if_cong)
  moreover have "buffer_read_code (buffer_write_to_db b T) (Buffer_new p None) h = buffer_read_code T b h" for h
    by (simp add: buffer_read_code_def Buffer_new_def flush_tables or_default_def map_add_def split: option.splits)
  ultimately have "database_of (buffer_ops (buffer_write_to_db b T)) (Buffer_new p None) = database_of (buffer_ops T) b"
    by (simp add: buffer_database fun_eq_iff flush_tables)
  then show ?thesis using assms(1) flush_storage(1) by blast
qed

theorem buffer_flush_refines_witness:
  "buffer_read_storage (buffer_write_to_db (buffer_update_storage sample_buffer 5 2 0 6) sample_tables) (Buffer_new 0 None) 5 2 = 6"
proof -
  let ?b = "buffer_update_storage sample_buffer 5 2 0 6"
  have "\<forall>a. dups_ok (tb_storage sample_tables a)" by (simp add: dups_ok_def sample_tables_def)
  moreover have "bf_historical_block ?b = None" by (simp add: buffer_defs Buffer_new_def Let_def)
  ultimately have "database_of (buffer_ops (buffer_write_to_db ?b sample_tables)) (Buffer_new 0 None) = database_of (buffer_ops sample_tables) ?b"
    using buffer_flush_refines [of sample_tables ?b 0] by blast
  then show ?thesis using sample_buffer_reads(2) [of 5 2]
    by (simp add: buffer_database buffer_update_storage_reads)
qed

end
