(* ===== verification/TableCodec.thy ===== *)
theory TableCodec
  imports Tables Precompiled "HOL-Library.List_Lexorder"
begin

text \<open>
  The bytes of the keys and values of the tables: the traits \<open>TableEncode\<close> and \<open>TableDecode\<close> of
  \<open>src/kv/traits.rs\<close>, their implementations in \<open>src/kv/tables.rs\<close>, and the encoding of accounts in
  \<open>src/models/account.rs\<close>.

  An encoder gives \<open>None\<close> where an \<open>unwrap\<close> panics because the buffer is full; a decoder gives \<open>None\<close>
  for a panic and an error as the left side of its result. The database orders byte strings
  lexicographically, which is the order of lists here.
\<close>

section \<open>Errors and buffers\<close>

datatype DecodeError =
    InvalidLength nat nat
  | TooShort nat nat
  | TooLong nat nat
  | NotDivisible nat
  | BalanceTooLong
  | CannotBeEmpty
  | InvalidPairLength nat nat nat
  | CapacityError

type_synonym 'a decoded = "(DecodeError + 'a) option"

text \<open>\<open>try_extend_from_slice(..).unwrap()\<close> on an \<open>ArrayVec\<close> of the given capacity.\<close>

definition try_extend :: "nat \<Rightarrow> byte list \<Rightarrow> byte list \<Rightarrow> byte list option" where
  "try_extend cap v bs = (if length v + length bs \<le> cap then Some (v @ bs) else None)"

definition VariableVec_decode :: "nat \<Rightarrow> byte list \<Rightarrow> byte list decoded" where
  "VariableVec_decode len b = (case try_extend len [] b of
       Some out \<Rightarrow> Some (Inr out)
     | None \<Rightarrow> Some (Inl CapacityError))"

definition ADDRESS_LENGTH :: nat where "ADDRESS_LENGTH = 20"
definition KECCAK_LENGTH :: nat where "KECCAK_LENGTH = 32"
definition BLOCK_NUMBER_LENGTH :: nat where "BLOCK_NUMBER_LENGTH = 8"
definition MAX_ACCOUNT_LEN :: nat where "MAX_ACCOUNT_LEN = 1 + (1 + 32) + (1 + 32) + (1 + 8)"

lemmas table_lengths = ADDRESS_LENGTH_def KECCAK_LENGTH_def BLOCK_NUMBER_LENGTH_def MAX_ACCOUNT_LEN_def

section \<open>Numbers, addresses and hashes\<close>

definition u64_to_be_bytes :: "u64 \<Rightarrow> byte list" where
  "u64_to_be_bytes w = drop 24 (to_be_bytes (ucast w))"

definition encode_u64 :: "u64 \<Rightarrow> byte list option" where
  "encode_u64 w = Some (u64_to_be_bytes w)"

definition decode_u64 :: "byte list \<Rightarrow> u64 decoded" where
  "decode_u64 b = (if length b = 8 then Some (Inr (ucast (from_be_bytes b))) else Some (Inl (InvalidLength 8 (length b))))"

text \<open>\<open>TruncateStart\<close> wraps an object of \<open>len\<close> encoded bytes.\<close>

definition TruncateStart_encode :: "nat \<Rightarrow> ('a \<Rightarrow> byte list option) \<Rightarrow> 'a \<Rightarrow> byte list option" where
  "TruncateStart_encode len enc x = do { arr \<leftarrow> enc x; try_extend len [] (zeroless_view arr) }"

definition TruncateStart_decode :: "nat \<Rightarrow> (byte list \<Rightarrow> 'a decoded) \<Rightarrow> byte list \<Rightarrow> 'a decoded" where
  "TruncateStart_decode len dec b =
     (if length b > len then Some (Inl (TooLong len (length b)))
      else dec (replicate (len - length b) 0 @ b))"

definition encode_address :: "address \<Rightarrow> byte list option" where
  "encode_address a = Some (drop 12 (to_be_bytes (ucast a)))"

definition decode_address :: "byte list \<Rightarrow> address decoded" where
  "decode_address b =
     (if length b = ADDRESS_LENGTH then Some (Inr (ucast (from_be_bytes b)))
      else Some (Inl (InvalidLength ADDRESS_LENGTH (length b))))"

fun encode_addresses :: "address list \<Rightarrow> byte list option" where
  "encode_addresses [] = Some []"
| "encode_addresses (a # as) = do { b \<leftarrow> encode_address a; bs \<leftarrow> encode_addresses as; Some (b @ bs) }"

fun decode_addresses_loop :: "byte list \<Rightarrow> nat \<Rightarrow> nat \<Rightarrow> address list \<Rightarrow> address list decoded" where
  "decode_addresses_loop b i 0 v = Some (Inr v)"
| "decode_addresses_loop b i (Suc n) v = do {
     let off = i * ADDRESS_LENGTH;
     bs \<leftarrow> slice_range b off (off + ADDRESS_LENGTH);
     a \<leftarrow> decode_address bs;
     try_then a (\<lambda>a. decode_addresses_loop b (i + 1) n (v @ [a])) }"

definition decode_addresses :: "byte list \<Rightarrow> address list decoded" where
  "decode_addresses b =
     (if length b mod ADDRESS_LENGTH \<noteq> 0 then Some (Inl (NotDivisible ADDRESS_LENGTH))
      else decode_addresses_loop b 0 (length b div ADDRESS_LENGTH) [])"

definition encode_h256 :: "h256 \<Rightarrow> byte list option" where
  "encode_h256 h = Some (to_be_bytes h)"

definition decode_h256 :: "byte list \<Rightarrow> h256 decoded" where
  "decode_h256 b =
     (if length b = KECCAK_LENGTH then Some (Inr (from_be_bytes b))
      else Some (Inl (InvalidLength KECCAK_LENGTH (length b))))"

definition encode_u256 :: "u256 \<Rightarrow> byte list option" where
  "encode_u256 v = try_extend KECCAK_LENGTH [] (dropWhile (\<lambda>b. b = 0) (to_be_bytes v))"

definition decode_u256 :: "byte list \<Rightarrow> u256 decoded" where
  "decode_u256 b =
     (if length b > KECCAK_LENGTH then Some (Inl (TooLong KECCAK_LENGTH (length b)))
      else Some (Inr (from_be_bytes (replicate (KECCAK_LENGTH - length b) 0 @ b))))"

section \<open>Storage entries\<close>

definition encode_slot :: "h256 \<times> u256 \<Rightarrow> byte list option" where
  "encode_slot p = do {
     l \<leftarrow> encode_h256 (fst p);
     out \<leftarrow> try_extend (KECCAK_LENGTH + KECCAK_LENGTH) [] l;
     v \<leftarrow> encode_u256 (snd p);
     try_extend (KECCAK_LENGTH + KECCAK_LENGTH) out v }"

definition decode_slot :: "byte list \<Rightarrow> (h256 \<times> u256) decoded" where
  "decode_slot b =
     (if length b > KECCAK_LENGTH + KECCAK_LENGTH then Some (Inl (TooLong (KECCAK_LENGTH + KECCAK_LENGTH) (length b)))
      else if length b < KECCAK_LENGTH then Some (Inl (TooShort KECCAK_LENGTH (length b)))
      else do {
        location \<leftarrow> decode_h256 (take KECCAK_LENGTH b);
        try_then location (\<lambda>location. do {
          v \<leftarrow> decode_u256 (drop KECCAK_LENGTH b);
          try_then v (\<lambda>v. Some (Inr (location, v))) }) })"

definition decode_storage_change :: "byte list \<Rightarrow> (h256 \<times> u256) decoded" where
  "decode_storage_change b =
     (if length b < KECCAK_LENGTH then Some (Inl (TooShort KECCAK_LENGTH (length b)))
      else do {
        location \<leftarrow> decode_h256 (take KECCAK_LENGTH b);
        try_then location (\<lambda>location. do {
          v \<leftarrow> decode_u256 (drop KECCAK_LENGTH b);
          try_then v (\<lambda>v. Some (Inr (location, v))) }) })"

definition encode_storage_change :: "h256 \<times> u256 \<Rightarrow> byte list option" where
  "encode_storage_change p = do {
     l \<leftarrow> encode_h256 (fst p);
     out \<leftarrow> try_extend (KECCAK_LENGTH + KECCAK_LENGTH) [] l;
     v \<leftarrow> encode_u256 (snd p);
     try_extend (KECCAK_LENGTH + KECCAK_LENGTH) out v }"

section \<open>Composite keys\<close>

text \<open>\<open>BitmapKey<Address>\<close>: two copies into an array of fixed length.\<close>

definition encode_bitmap_key :: "address \<times> u64 \<Rightarrow> byte list option" where
  "encode_bitmap_key k = do {
     let out = replicate (ADDRESS_LENGTH + BLOCK_NUMBER_LENGTH) 0;
     a \<leftarrow> encode_address (fst k);
     out \<leftarrow> copy_into out 0 ADDRESS_LENGTH a;
     n \<leftarrow> encode_u64 (snd k);
     copy_into out ADDRESS_LENGTH (length out) n }"

definition decode_bitmap_key :: "byte list \<Rightarrow> (address \<times> u64) decoded" where
  "decode_bitmap_key b =
     (if length b \<noteq> ADDRESS_LENGTH + BLOCK_NUMBER_LENGTH
      then Some (Inl (InvalidLength (ADDRESS_LENGTH + BLOCK_NUMBER_LENGTH) (length b)))
      else do {
        bs \<leftarrow> slice_range b 0 ADDRESS_LENGTH;
        a \<leftarrow> decode_address bs;
        try_then a (\<lambda>a. do {
          bs \<leftarrow> slice_range b ADDRESS_LENGTH (length b);
          n \<leftarrow> decode_u64 bs;
          try_then n (\<lambda>n. Some (Inr (a, n))) }) })"

definition encode_slot_bitmap_key :: "(address \<times> h256) \<times> u64 \<Rightarrow> byte list option" where
  "encode_slot_bitmap_key k = do {
     let out = replicate (ADDRESS_LENGTH + KECCAK_LENGTH + BLOCK_NUMBER_LENGTH) 0;
     a \<leftarrow> encode_address (fst (fst k));
     out \<leftarrow> copy_into out 0 ADDRESS_LENGTH a;
     l \<leftarrow> encode_h256 (snd (fst k));
     out \<leftarrow> copy_into out ADDRESS_LENGTH (ADDRESS_LENGTH + KECCAK_LENGTH) l;
     n \<leftarrow> encode_u64 (snd k);
     copy_into out (ADDRESS_LENGTH + KECCAK_LENGTH) (length out) n }"

definition decode_slot_bitmap_key :: "byte list \<Rightarrow> ((address \<times> h256) \<times> u64) decoded" where
  "decode_slot_bitmap_key b =
     (if length b \<noteq> ADDRESS_LENGTH + KECCAK_LENGTH + BLOCK_NUMBER_LENGTH
      then Some (Inl (InvalidLength (ADDRESS_LENGTH + KECCAK_LENGTH + BLOCK_NUMBER_LENGTH) (length b)))
      else do {
        bs \<leftarrow> slice_range b 0 ADDRESS_LENGTH;
        a \<leftarrow> decode_address bs;
        try_then a (\<lambda>a. do {
          bs \<leftarrow> slice_range b ADDRESS_LENGTH (ADDRESS_LENGTH + KECCAK_LENGTH);
          l \<leftarrow> decode_h256 bs;
          try_then l (\<lambda>l. do {
            bs \<leftarrow> slice_range b (ADDRESS_LENGTH + KECCAK_LENGTH) (length b);
            n \<leftarrow> decode_u64 bs;
            try_then n (\<lambda>n. Some (Inr ((a, l), n))) }) }) })"

definition encode_storage_change_key :: "u64 \<times> address \<Rightarrow> byte list option" where
  "encode_storage_change_key k = do {
     let out = replicate (BLOCK_NUMBER_LENGTH + ADDRESS_LENGTH) 0;
     n \<leftarrow> encode_u64 (fst k);
     out \<leftarrow> copy_into out 0 BLOCK_NUMBER_LENGTH n;
     a \<leftarrow> encode_address (snd k);
     copy_into out BLOCK_NUMBER_LENGTH (length out) a }"

definition decode_storage_change_key :: "byte list \<Rightarrow> (u64 \<times> address) decoded" where
  "decode_storage_change_key b =
     (if length b \<noteq> BLOCK_NUMBER_LENGTH + ADDRESS_LENGTH
      then Some (Inl (InvalidLength (BLOCK_NUMBER_LENGTH + ADDRESS_LENGTH) (length b)))
      else do {
        bs \<leftarrow> slice_range b 0 BLOCK_NUMBER_LENGTH;
        n \<leftarrow> decode_u64 bs;
        try_then n (\<lambda>n. do {
          bs \<leftarrow> slice_range b BLOCK_NUMBER_LENGTH (BLOCK_NUMBER_LENGTH + ADDRESS_LENGTH);
          a \<leftarrow> decode_address bs;
          try_then a (\<lambda>a. Some (Inr (n, a))) }) })"

text \<open>A pair of objects of fixed encoded lengths; the inner results are unwrapped.\<close>

definition unwrap :: "'a decoded \<Rightarrow> 'a option" where
  "unwrap r = (case r of Some (Inr a) \<Rightarrow> Some a | _ \<Rightarrow> None)"

definition encode_pair ::
  "('a \<Rightarrow> byte list option) \<Rightarrow> ('b \<Rightarrow> byte list option) \<Rightarrow> 'a \<times> 'b \<Rightarrow> byte list option" where
  "encode_pair enc_a enc_b p = do {
     a \<leftarrow> enc_a (fst p);
     v \<leftarrow> try_extend 256 [] a;
     b \<leftarrow> enc_b (snd p);
     try_extend 256 v b }"

definition decode_pair ::
  "nat \<Rightarrow> (byte list \<Rightarrow> 'a decoded) \<Rightarrow> nat \<Rightarrow> (byte list \<Rightarrow> 'b decoded) \<Rightarrow> byte list \<Rightarrow> ('a \<times> 'b) decoded" where
  "decode_pair a_len dec_a b_len dec_b v =
     (if length v \<noteq> a_len + b_len then Some (Inl (InvalidPairLength (length v) a_len b_len))
      else do {
        bs \<leftarrow> slice_range v 0 a_len;
        a \<leftarrow> unwrap (dec_a bs);
        bs \<leftarrow> slice_range v a_len (length v);
        b \<leftarrow> unwrap (dec_b bs);
        Some (Inr (a, b)) })"

text \<open>\<open>HeaderKey = (BlockNumber, H256)\<close>.\<close>

definition encode_header_key :: "u64 \<times> h256 \<Rightarrow> byte list option" where
  "encode_header_key = encode_pair encode_u64 encode_h256"

definition decode_header_key :: "byte list \<Rightarrow> (u64 \<times> h256) decoded" where
  "decode_header_key = decode_pair BLOCK_NUMBER_LENGTH decode_u64 KECCAK_LENGTH decode_h256"

section \<open>Accounts\<close>

fun bytes_loop :: "nat \<Rightarrow> byte list \<Rightarrow> byte list \<Rightarrow> byte list option" where
  "bytes_loop i [] decoded = Some decoded"
| "bytes_loop i (b # bs) decoded = (if i < length decoded then bytes_loop (i + 1) bs (decoded[i := b]) else None)"

definition bytes_to_u64 :: "byte list \<Rightarrow> u64 option" where
  "bytes_to_u64 buf = do { decoded \<leftarrow> bytes_loop 0 (rev buf) (replicate 8 0); Some (u64_from_le_bytes decoded) }"

text \<open>\<open>AccountStorageFlags\<close>: four bits for the length of the nonce, then one for the code hash. The
  setter panics on a value that does not fit.\<close>

record AccountStorageFlags =
  fs_nonce_len :: nat
  fs_code_hash :: bool

definition set_nonce_len :: "AccountStorageFlags \<Rightarrow> nat \<Rightarrow> AccountStorageFlags option" where
  "set_nonce_len fs n = (if n < 16 then Some (fs\<lparr>fs_nonce_len := n\<rparr>) else None)"

definition flags_into_byte :: "AccountStorageFlags \<Rightarrow> byte" where
  "flags_into_byte fs = of_nat (fs_nonce_len fs) + (if fs_code_hash fs then 16 else 0)"

definition flags_from_byte :: "byte \<Rightarrow> AccountStorageFlags" where
  "flags_from_byte b = \<lparr>fs_nonce_len = unat (take_bit 4 b), fs_code_hash = bit b 4\<rparr>"

definition write_compact :: "byte list \<Rightarrow> byte list" where
  "write_compact input = dropWhile (\<lambda>v. v = 0) input"

definition encode_for_storage :: "Account \<Rightarrow> byte list option" where
  "encode_for_storage a = do {
     let field_set = \<lparr>fs_nonce_len = 0, fs_code_hash = False\<rparr>;
     buffer \<leftarrow> try_extend MAX_ACCOUNT_LEN [] [0];
     (field_set, buffer) \<leftarrow> (if acc_nonce a \<noteq> 0 then do {
         let b = write_compact (u64_to_be_bytes (acc_nonce a));
         field_set \<leftarrow> set_nonce_len field_set (length b);
         buffer \<leftarrow> try_extend MAX_ACCOUNT_LEN buffer b;
         Some (field_set, buffer) }
       else Some (field_set, buffer));
     (field_set, buffer) \<leftarrow> (if acc_code_hash a \<noteq> EMPTY_HASH then do {
         let field_set = field_set\<lparr>fs_code_hash := True\<rparr>;
         buffer \<leftarrow> try_extend MAX_ACCOUNT_LEN buffer (to_be_bytes (acc_code_hash a));
         Some (field_set, buffer) }
       else Some (field_set, buffer));
     buffer \<leftarrow> (if acc_balance a \<noteq> 0
       then try_extend MAX_ACCOUNT_LEN buffer (write_compact (to_be_bytes (acc_balance a)))
       else Some buffer);
     if buffer \<noteq> [] then Some (buffer[0 := flags_into_byte field_set]) else None }"

definition decode_for_storage :: "byte list \<Rightarrow> Account option decoded" where
  "decode_for_storage enc = (case enc of
       [] \<Rightarrow> Some (Inr None)
     | b # enc \<Rightarrow> do {
         let a = Account_default;
         let field_set = flags_from_byte b;
         let decode_length = fs_nonce_len field_set;
         (a, enc) \<leftarrow> (if decode_length > 0 then do {
             bs \<leftarrow> slice_range enc 0 decode_length;
             n \<leftarrow> bytes_to_u64 bs;
             Some (a\<lparr>acc_nonce := n\<rparr>, drop decode_length enc) }
           else Some (a, enc));
         (a, enc) \<leftarrow> (if fs_code_hash field_set then do {
             bs \<leftarrow> slice_range enc 0 KECCAK_LENGTH;
             Some (a\<lparr>acc_code_hash := from_be_bytes bs\<rparr>, drop KECCAK_LENGTH enc) }
           else Some (a, enc));
         if length enc > 32 then Some (Inl BalanceTooLong)
         else do {
           bs \<leftarrow> static_left_pad 32 enc;
           Some (Inr (Some (a\<lparr>acc_balance := from_be_bytes bs\<rparr>))) } })"

definition decode_account :: "byte list \<Rightarrow> Account decoded" where
  "decode_account b = do {
     r \<leftarrow> decode_for_storage b;
     try_then r (\<lambda>a. Some (case a of Some a \<Rightarrow> Inr a | None \<Rightarrow> Inl CannotBeEmpty)) }"

definition encode_account_change :: "address \<times> Account option \<Rightarrow> byte list option" where
  "encode_account_change p = do {
     a \<leftarrow> encode_address (fst p);
     out \<leftarrow> try_extend (ADDRESS_LENGTH + MAX_ACCOUNT_LEN) [] a;
     case snd p of
       Some account \<Rightarrow> do {
         bs \<leftarrow> encode_for_storage account;
         try_extend (ADDRESS_LENGTH + MAX_ACCOUNT_LEN) out bs }
     | None \<Rightarrow> Some out }"

definition decode_account_change :: "byte list \<Rightarrow> (address \<times> Account option) decoded" where
  "decode_account_change b =
     (if length b < ADDRESS_LENGTH then Some (Inl (TooShort ADDRESS_LENGTH (length b)))
      else do {
        bs \<leftarrow> slice_range b 0 ADDRESS_LENGTH;
        a \<leftarrow> decode_address bs;
        try_then a (\<lambda>a.
          if length b > ADDRESS_LENGTH then do {
            bs \<leftarrow> slice_range b ADDRESS_LENGTH (length b);
            account \<leftarrow> decode_account bs;
            try_then account (\<lambda>account. Some (Inr (a, Some account))) }
          else Some (Inr (a, None))) })"

section \<open>Call traces\<close>

record CallTraceSetEntry =
  ct_address :: address
  ct_from :: bool
  ct_to :: bool

definition encode_call_trace :: "CallTraceSetEntry \<Rightarrow> byte list option" where
  "encode_call_trace e = do {
     let v = replicate (ADDRESS_LENGTH + 1) 0;
     a \<leftarrow> encode_address (ct_address e);
     v \<leftarrow> copy_into v 0 ADDRESS_LENGTH a;
     let field_set = (if ct_from e then 1 else 0) + (if ct_to e then 2 else 0);
     if ADDRESS_LENGTH < length v then Some (v[ADDRESS_LENGTH := field_set]) else None }"

definition decode_call_trace :: "byte list \<Rightarrow> CallTraceSetEntry decoded" where
  "decode_call_trace b =
     (if length b \<noteq> ADDRESS_LENGTH + 1 then Some (Inl (InvalidLength (ADDRESS_LENGTH + 1) (length b)))
      else do {
        field_set \<leftarrow> index_at b ADDRESS_LENGTH;
        bs \<leftarrow> slice_range b 0 ADDRESS_LENGTH;
        a \<leftarrow> decode_address bs;
        try_then a (\<lambda>a. Some (Inr \<lparr>ct_address = a, ct_from = bit field_set 0, ct_to = bit field_set 1\<rparr>)) })"

section \<open>Big-endian bytes and their order\<close>

lemma be_zeros:
  assumes "8 * (32 - n) \<ge> LENGTH('a)" "n \<le> 32"
  shows "to_be_bytes (ucast (w :: 'a :: len word)) = replicate n 0 @ drop n (to_be_bytes (ucast w))"
proof -
  have "(ucast (drop_bit (8 * (31 - i)) (ucast w :: u256)) :: byte) = 0" if "i < n" for i
  proof (rule bit_word_eqI)
    fix j :: nat
    have "LENGTH('a) \<le> 8 * (31 - i) + j" using assms that by linarith
    then show "bit (ucast (drop_bit (8 * (31 - i)) (ucast w :: u256)) :: byte) j = bit (0 :: byte) j"
      using bit_imp_le_length [of w "8 * (31 - i) + j"] by (auto simp: bit_simps)
  qed
  then have "take n (to_be_bytes (ucast w)) = replicate n 0"
    using assms(2) by (auto intro!: nth_equalityI simp: to_be_bytes_def)
  then show ?thesis by (metis append_take_drop_id)
qed

lemma u64_be_value: "length (u64_to_be_bytes w) = 8" "from_be_bytes (u64_to_be_bytes w) = ucast w"
proof -
  show "length (u64_to_be_bytes w) = 8" by (simp add: u64_to_be_bytes_def)
  have "ucast w = from_be_bytes (replicate 24 0 @ u64_to_be_bytes w)"
    using be_zeros [of 24 w] by (simp add: u64_to_be_bytes_def flip: be_zeros)
  then show "from_be_bytes (u64_to_be_bytes w) = ucast w" by (simp add: from_be_bytes_zeros)
qed

lemma address_be_value:
  "length (drop 12 (to_be_bytes (ucast (a :: address)))) = 20"
  "from_be_bytes (drop 12 (to_be_bytes (ucast (a :: address)))) = ucast a"
proof -
  show "length (drop 12 (to_be_bytes (ucast a))) = 20" by simp
  have "ucast a = from_be_bytes (replicate 12 0 @ drop 12 (to_be_bytes (ucast a)))"
    by (simp flip: be_zeros)
  then show "from_be_bytes (drop 12 (to_be_bytes (ucast a))) = ucast a" by (simp add: from_be_bytes_zeros)
qed

lemma mixed_radix_less:
  assumes "(r :: nat) < B" "s < B"
  shows "x * B + r < y * B + s \<longleftrightarrow> x < y \<or> x = y \<and> r < s"
proof (cases x y rule: linorder_cases)
  case less
  then have "(x + 1) * B \<le> y * B" by (intro mult_right_mono) simp_all
  then show ?thesis using less assms by simp
next
  case greater
  then have "(y + 1) * B \<le> x * B" by (intro mult_right_mono) simp_all
  then show ?thesis using greater assms by simp
qed simp

lemma bytes_less_iff: "length xs = length ys \<Longrightarrow> xs < ys \<longleftrightarrow> be_value xs < be_value ys"
proof (induction xs ys rule: list_induct2)
  case (Cons x xs y ys)
  have c: "be_value (b # bs) = unat b * 256 ^ length bs + be_value bs" for b bs
    using be_value_append [of "[b]" bs] by (simp add: be_value_def)
  have "be_value xs < 256 ^ length ys" "be_value ys < 256 ^ length ys"
    using be_value_lt [of xs] be_value_lt [of ys] Cons.hyps by simp_all
  then have "unat x * 256 ^ length ys + be_value xs < unat y * 256 ^ length ys + be_value ys \<longleftrightarrow>
      unat x < unat y \<or> unat x = unat y \<and> be_value xs < be_value ys"
    by (rule mixed_radix_less)
  then show ?case using Cons by (simp add: c word_less_nat_alt word_unat_eq_iff)
qed simp

lemma to_be_bytes_less: "to_be_bytes v < to_be_bytes w \<longleftrightarrow> v < w"
  by (simp add: bytes_less_iff word_less_nat_alt flip: unat_from_be_bytes)

lemma unat_ucast_up: "LENGTH('a) \<le> 256 \<Longrightarrow> unat (ucast (w :: 'a :: len word) :: u256) = unat w"
proof -
  assume "LENGTH('a) \<le> 256"
  then have "unat w < 2 ^ 256" using unsigned_less [where 'a = nat, of w] power_increasing [of "LENGTH('a)" 256 "2 :: nat"]
    by linarith
  then show ?thesis by (simp add: unsigned_ucast_eq take_bit_nat_eq_self)
qed

lemma fixed_bytes_less:
  "u64_to_be_bytes m < u64_to_be_bytes n \<longleftrightarrow> m < n"
  "drop 12 (to_be_bytes (ucast (a :: address))) < drop 12 (to_be_bytes (ucast (b :: address))) \<longleftrightarrow> a < b"
proof -
  show "u64_to_be_bytes m < u64_to_be_bytes n \<longleftrightarrow> m < n"
    by (simp add: bytes_less_iff u64_be_value unat_ucast_up word_less_nat_alt flip: unat_from_be_bytes)
  show "drop 12 (to_be_bytes (ucast a)) < drop 12 (to_be_bytes (ucast b)) \<longleftrightarrow> a < b"
    by (simp add: bytes_less_iff address_be_value unat_ucast_up word_less_nat_alt flip: unat_from_be_bytes)
qed

lemma fixed_bytes_eq:
  "u64_to_be_bytes m = u64_to_be_bytes n \<longleftrightarrow> m = n"
  "drop 12 (to_be_bytes (ucast (a :: address))) = drop 12 (to_be_bytes (ucast (b :: address))) \<longleftrightarrow> a = b"
  "to_be_bytes v = to_be_bytes w \<longleftrightarrow> v = w"
  using fixed_bytes_less(1) [of m n] fixed_bytes_less(1) [of n m] fixed_bytes_less(2) [of a b] fixed_bytes_less(2) [of b a]
    to_be_bytes_less [of v w] to_be_bytes_less [of w v]
  by (metis neq_iff)+

lemma append_less_append:
  "length a = length c \<Longrightarrow> a @ b < c @ d \<longleftrightarrow> a < c \<or> a = c \<and> b < (d :: byte list)"
  by (induction a c rule: list_induct2) auto

lemma le_append: "length a = length c \<Longrightarrow> a \<le> c @ d \<longleftrightarrow> a \<le> (c :: byte list)"
  by (induction a c rule: list_induct2) auto

section \<open>The contracts of table objects\<close>

text \<open>
  A table object is decoded from its bytes as it was. A table key has a fixed length, and its bytes are
  ordered as the keys are; then a cursor that seeks among bytes does what \<open>seek\<close> does among keys. The
  value of a table with duplicates starts with the bytes of its subkey.
\<close>

definition encoded_rows :: "('k \<Rightarrow> byte list option) \<Rightarrow> ('k \<times> 'v) list \<Rightarrow> (byte list \<times> 'v) list" where
  "encoded_rows enc rows = map (\<lambda>(k, v). (the (enc k), v)) rows"

locale table_object =
  fixes encode :: "'a \<Rightarrow> byte list option" and decode :: "byte list \<Rightarrow> 'a decoded"
  assumes decode_encode: "returns (\<lambda>b. decode b = Some (Inr x)) (encode x)"
begin

lemma encode_returns: "\<exists>b. encode x = Some b \<and> decode b = Some (Inr x)"
  using decode_encode by (simp add: returns_ex)

lemma encode_inj: "encode x = encode y \<Longrightarrow> x = y"
  using encode_returns [of x] encode_returns [of y] by auto

end

locale table_key = table_object encode decode
  for encode :: "'k::linorder \<Rightarrow> byte list option" and decode :: "byte list \<Rightarrow> 'k decoded" +
  fixes len :: nat
  assumes encode_length: "encode k = Some b \<Longrightarrow> length b = len"
    and encode_less: "encode k = Some b \<Longrightarrow> encode l = Some c \<Longrightarrow> b < c \<longleftrightarrow> k < l"
begin

lemma encode_le: "the (encode k) \<le> the (encode l) \<longleftrightarrow> k \<le> l"
  using encode_returns [of k] encode_returns [of l] encode_less [of l _ k] by (auto simp flip: not_less)

lemma seek_encoded:
  "seek (encoded_rows encode rows) (the (encode k)) = map_option (\<lambda>(k, v). (the (encode k), v)) (seek rows k)"
  by (induction rows) (auto simp: seek_def encoded_rows_def encode_le)

lemma sorted_encoded: "sorted (map fst (encoded_rows encode rows)) \<longleftrightarrow> sorted (map fst rows)"
  by (induction rows) (auto simp: encoded_rows_def encode_le)

end

locale dup_value = table_key sub dec len
  for sub :: "'k::linorder \<Rightarrow> byte list option" and dec :: "byte list \<Rightarrow> 'k decoded" and len :: nat +
  fixes enc :: "'k \<times> 'v \<Rightarrow> byte list option"
  assumes subkey_first: "\<exists>r. enc (k, v) = Some (the (sub k) @ r)"
begin

lemma seek_dup_encoded:
  "find (\<lambda>d. the (sub k) \<le> d) (map (\<lambda>p. the (enc p)) dups) = map_option (\<lambda>p. the (enc p)) (seek_both_range dups k)"
proof (induction dups)
  case (Cons p dups)
  obtain l v where p: "p = (l, v)" by fastforce
  obtain r where r: "enc (l, v) = Some (the (sub l) @ r)" using subkey_first by blast
  have "length (the (sub l)) = length (the (sub k))"
    using encode_returns [of k] encode_returns [of l] encode_length by force
  then have "the (sub k) \<le> the (enc p) \<longleftrightarrow> k \<le> l" by (simp add: p r le_append encode_le)
  then show ?case using Cons by (simp add: p seek_both_range_def seek_def)
qed (simp add: seek_both_range_def seek_def)

lemma dups_encoded_sorted:
  assumes "dups_ok dups"
  shows "sorted (map (\<lambda>p. the (enc p)) dups)"
  using assms
proof (induction dups)
  case (Cons p dups)
  have "the (enc p) \<le> the (enc q)" if q: "q \<in> set dups" for q
  proof -
    obtain r s where r: "enc p = Some (the (sub (fst p)) @ r)" "enc q = Some (the (sub (fst q)) @ s)"
      using subkey_first [of "fst p" "snd p"] subkey_first [of "fst q" "snd q"] by auto
    have "fst p < fst q" using Cons.prems q by (force simp: dups_ok_def less_le)
    moreover have "length (the (sub (fst p))) = length (the (sub (fst q)))"
      using encode_returns [of "fst p"] encode_returns [of "fst q"] encode_length by force
    ultimately have "the (sub (fst p)) @ r < the (sub (fst q)) @ s"
      using encode_le [of "fst q" "fst p"] leD [of "fst q" "fst p"] not_le by (auto simp: append_less_append)
    then show ?thesis by (simp add: r)
  qed
  then show ?case using Cons by (auto simp: dups_ok_def)
qed simp

end

section \<open>The encodings meet them\<close>

lemma from_be_bytes_compact: "from_be_bytes (dropWhile (\<lambda>b. b = 0) bs) = from_be_bytes bs"
proof -
  have "takeWhile (\<lambda>b. b = 0) bs = replicate (length (takeWhile (\<lambda>b. b = 0) bs)) 0"
    by (metis (mono_tags, lifting) replicate_length_same set_takeWhileD)
  then show ?thesis by (metis from_be_bytes_zeros takeWhile_dropWhile_id)
qed

lemma compact_length: "length (dropWhile P bs) \<le> length bs"
  by (simp add: length_dropWhile_le)

lemma ucast_up_down:
  "ucast (ucast (n :: u64) :: u256) = n" "ucast (ucast (a :: address) :: u256) = a"
  by (rule bit_word_eqI, auto simp: bit_simps)+

lemma address_bytes_decode [simp]:
  "decode_address (drop 12 (to_be_bytes (ucast a))) = Some (Inr a)"
  by (simp add: decode_address_def address_be_value ucast_up_down table_lengths)

lemma u64_bytes_decode [simp]: "decode_u64 (u64_to_be_bytes n) = Some (Inr n)"
  by (simp add: decode_u64_def u64_be_value ucast_up_down)

lemma h256_bytes_decode [simp]: "decode_h256 (to_be_bytes h) = Some (Inr h)"
  by (simp add: decode_h256_def table_lengths)

lemma encode_u256_eq: "encode_u256 v = Some (dropWhile (\<lambda>b. b = 0) (to_be_bytes v))"
  using compact_length [of _ "to_be_bytes v"] by (simp add: encode_u256_def try_extend_def table_lengths)

lemma u256_bytes_decode [simp]: "decode_u256 (dropWhile (\<lambda>b. b = 0) (to_be_bytes v)) = Some (Inr v)"
proof -
  have "\<not> 32 < length (dropWhile (\<lambda>b. b = 0) (to_be_bytes v))"
    using compact_length [of "\<lambda>b. b = 0" "to_be_bytes v"] by simp
  then show ?thesis
    by (simp add: decode_u256_def table_lengths from_be_bytes_zeros from_be_bytes_compact)
qed

lemma encode_slot_eq:
  "encode_slot (l, v) = Some (to_be_bytes l @ dropWhile (\<lambda>b. b = 0) (to_be_bytes v))"
  "encode_storage_change (l, v) = Some (to_be_bytes l @ dropWhile (\<lambda>b. b = 0) (to_be_bytes v))"
  using compact_length [of "\<lambda>b. b = 0" "to_be_bytes v"]
  by (simp_all add: encode_slot_def encode_storage_change_def encode_h256_def encode_u256_eq try_extend_def table_lengths)

lemma encode_key_eq:
  "encode_bitmap_key (a, n) = Some (drop 12 (to_be_bytes (ucast a)) @ u64_to_be_bytes n)"
  "encode_slot_bitmap_key ((a, l), n) = Some (drop 12 (to_be_bytes (ucast a)) @ to_be_bytes l @ u64_to_be_bytes n)"
  "encode_storage_change_key (n, a) = Some (u64_to_be_bytes n @ drop 12 (to_be_bytes (ucast a)))"
  "encode_header_key (n, l) = Some (u64_to_be_bytes n @ to_be_bytes l)"
  by (simp_all add: encode_bitmap_key_def encode_slot_bitmap_key_def encode_storage_change_key_def encode_header_key_def
      encode_pair_def encode_address_def encode_u64_def encode_h256_def try_extend_def copy_into_def table_lengths
      u64_be_value drop_replicate)

interpretation u64_key: table_key encode_u64 decode_u64 BLOCK_NUMBER_LENGTH
  by unfold_locales (auto simp: encode_u64_def u64_be_value fixed_bytes_less table_lengths)

interpretation address_key: table_key encode_address decode_address ADDRESS_LENGTH
  by unfold_locales (auto simp: encode_address_def fixed_bytes_less table_lengths)

interpretation h256_key: table_key encode_h256 decode_h256 KECCAK_LENGTH
  by unfold_locales (auto simp: encode_h256_def to_be_bytes_less table_lengths)

interpretation bitmap_key: table_key encode_bitmap_key decode_bitmap_key "ADDRESS_LENGTH + BLOCK_NUMBER_LENGTH"
proof
  fix k l :: "address \<times> u64" and b c
  show "returns (\<lambda>b. decode_bitmap_key b = Some (Inr k)) (encode_bitmap_key k)"
    by (cases k) (simp add: encode_key_eq decode_bitmap_key_def slice_range_def table_lengths u64_be_value)
  show "encode_bitmap_key k = Some b \<Longrightarrow> length b = ADDRESS_LENGTH + BLOCK_NUMBER_LENGTH"
    by (cases k) (auto simp: encode_key_eq table_lengths u64_be_value)
  show "encode_bitmap_key k = Some b \<Longrightarrow> encode_bitmap_key l = Some c \<Longrightarrow> b < c \<longleftrightarrow> k < l"
    by (cases k; cases l) (auto simp: encode_key_eq append_less_append fixed_bytes_less fixed_bytes_eq less_prod_def)
qed

interpretation slot_bitmap_key: table_key encode_slot_bitmap_key decode_slot_bitmap_key
  "ADDRESS_LENGTH + KECCAK_LENGTH + BLOCK_NUMBER_LENGTH"
proof
  fix k l :: "(address \<times> h256) \<times> u64" and b c
  obtain a s n a' s' n' where k: "k = ((a, s), n)" "l = ((a', s'), n')" by (metis prod.exhaust)
  show "returns (\<lambda>b. decode_slot_bitmap_key b = Some (Inr k)) (encode_slot_bitmap_key k)"
    by (simp add: k encode_key_eq decode_slot_bitmap_key_def slice_range_def table_lengths u64_be_value)
  show "encode_slot_bitmap_key k = Some b \<Longrightarrow> length b = ADDRESS_LENGTH + KECCAK_LENGTH + BLOCK_NUMBER_LENGTH"
    by (auto simp: k encode_key_eq table_lengths u64_be_value)
  show "encode_slot_bitmap_key k = Some b \<Longrightarrow> encode_slot_bitmap_key l = Some c \<Longrightarrow> b < c \<longleftrightarrow> k < l"
    by (auto simp: k encode_key_eq append_less_append fixed_bytes_less to_be_bytes_less fixed_bytes_eq less_prod_def)
qed

interpretation storage_change_key: table_key encode_storage_change_key decode_storage_change_key
  "BLOCK_NUMBER_LENGTH + ADDRESS_LENGTH"
proof
  fix k l :: "u64 \<times> address" and b c
  show "returns (\<lambda>b. decode_storage_change_key b = Some (Inr k)) (encode_storage_change_key k)"
    by (cases k) (simp add: encode_key_eq decode_storage_change_key_def slice_range_def table_lengths u64_be_value)
  show "encode_storage_change_key k = Some b \<Longrightarrow> length b = BLOCK_NUMBER_LENGTH + ADDRESS_LENGTH"
    by (cases k) (auto simp: encode_key_eq table_lengths u64_be_value)
  show "encode_storage_change_key k = Some b \<Longrightarrow> encode_storage_change_key l = Some c \<Longrightarrow> b < c \<longleftrightarrow> k < l"
    by (cases k; cases l)
      (auto simp: encode_key_eq append_less_append u64_be_value fixed_bytes_less fixed_bytes_eq less_prod_def)
qed

interpretation header_key: table_key encode_header_key decode_header_key "BLOCK_NUMBER_LENGTH + KECCAK_LENGTH"
proof
  fix k l :: "u64 \<times> h256" and b c
  show "returns (\<lambda>b. decode_header_key b = Some (Inr k)) (encode_header_key k)"
    by (cases k) (simp add: encode_key_eq decode_header_key_def decode_pair_def slice_range_def table_lengths u64_be_value unwrap_def)
  show "encode_header_key k = Some b \<Longrightarrow> length b = BLOCK_NUMBER_LENGTH + KECCAK_LENGTH"
    by (cases k) (auto simp: encode_key_eq table_lengths u64_be_value)
  show "encode_header_key k = Some b \<Longrightarrow> encode_header_key l = Some c \<Longrightarrow> b < c \<longleftrightarrow> k < l"
    by (cases k; cases l)
      (auto simp: encode_key_eq append_less_append u64_be_value fixed_bytes_less to_be_bytes_less fixed_bytes_eq less_prod_def)
qed

interpretation u256_object: table_object encode_u256 decode_u256
  by unfold_locales (simp add: encode_u256_eq)

interpretation slot_object: table_object encode_slot decode_slot
proof
  fix p :: "h256 \<times> u256"
  obtain l v where p: "p = (l, v)" by fastforce
  have "length (dropWhile (\<lambda>b. b = 0) (to_be_bytes v)) \<le> 32" using compact_length [of "\<lambda>b. b = 0" "to_be_bytes v"] by simp
  then show "returns (\<lambda>b. decode_slot b = Some (Inr p)) (encode_slot p)"
    by (simp add: p encode_slot_eq decode_slot_def table_lengths)
qed

interpretation storage_change_object: table_object encode_storage_change decode_storage_change
proof
  fix p :: "h256 \<times> u256"
  show "returns (\<lambda>b. decode_storage_change b = Some (Inr p)) (encode_storage_change p)"
    by (cases p) (simp add: encode_slot_eq decode_storage_change_def table_lengths)
qed

interpretation slot_dup: dup_value encode_h256 decode_h256 KECCAK_LENGTH encode_slot
  by unfold_locales (simp add: encode_slot_eq encode_h256_def)

interpretation storage_change_dup: dup_value encode_h256 decode_h256 KECCAK_LENGTH encode_storage_change
  by unfold_locales (simp add: encode_slot_eq encode_h256_def)

section \<open>Accounts and call traces\<close>

lemma bytes_loop_eq:
  "i + length bs \<le> length decoded \<Longrightarrow> bytes_loop i bs decoded = Some (take i decoded @ bs @ drop (i + length bs) decoded)"
proof (induction bs arbitrary: i decoded)
  case (Cons b bs)
  then show ?case by (simp add: upd_conv_take_nth_drop take_Suc_conv_app_nth add.commute)
qed simp

lemma bytes_loop_panics: "i \<le> length decoded \<Longrightarrow> length decoded < i + length bs \<Longrightarrow> bytes_loop i bs decoded = None"
  by (induction bs arbitrary: i decoded) auto

lemma bytes_to_u64_eq:
  "bytes_to_u64 bs = (if length bs \<le> 8 then Some (ucast (from_be_bytes bs)) else None)"
  by (simp add: bytes_to_u64_def bytes_loop_eq bytes_loop_panics u64_from_le_bytes_def from_be_bytes_zeros)

lemma flags_roundtrip:
  assumes "fs_nonce_len fs < 16" shows "flags_from_byte (flags_into_byte fs) = fs"
proof -
  have "fs_nonce_len fs \<in> set [0..<16]" using assms by simp
  then show ?thesis
    by (cases fs; cases "fs_code_hash fs") (auto simp: upt_rec flags_from_byte_def flags_into_byte_def)
qed

lemma write_compact_u64:
  "length (write_compact (u64_to_be_bytes n)) \<le> 8"
  "from_be_bytes (write_compact (u64_to_be_bytes n)) = ucast n"
  "n \<noteq> 0 \<Longrightarrow> write_compact (u64_to_be_bytes n) \<noteq> []"
proof -
  show "length (write_compact (u64_to_be_bytes n)) \<le> 8"
    using compact_length [of _ "u64_to_be_bytes n"] by (simp add: write_compact_def u64_be_value)
  show v: "from_be_bytes (write_compact (u64_to_be_bytes n)) = ucast n"
    by (simp add: write_compact_def from_be_bytes_compact u64_be_value)
  have "from_be_bytes [] = 0" by (simp add: from_be_bytes_def)
  then show "n \<noteq> 0 \<Longrightarrow> write_compact (u64_to_be_bytes n) \<noteq> []"
    using v ucast_up_down(1) [of n] by (metis unsigned_0)
qed

lemma encode_for_storage_eq:
  "encode_for_storage a =
     (let nonce = (if acc_nonce a = 0 then [] else write_compact (u64_to_be_bytes (acc_nonce a)));
          hash = (if acc_code_hash a = EMPTY_HASH then [] else to_be_bytes (acc_code_hash a));
          balance = (if acc_balance a = 0 then [] else write_compact (to_be_bytes (acc_balance a)))
      in Some (flags_into_byte \<lparr>fs_nonce_len = length nonce, fs_code_hash = (acc_code_hash a \<noteq> EMPTY_HASH)\<rparr>
           # nonce @ hash @ balance))"
  using write_compact_u64(1) [of "acc_nonce a"] compact_length [of "\<lambda>v. v = 0" "to_be_bytes (acc_balance a)"]
  by (simp add: encode_for_storage_def try_extend_def set_nonce_len_def table_lengths write_compact_def Let_def)

lemma account_roundtrip:
  "returns (\<lambda>b. b \<noteq> [] \<and> length b \<le> MAX_ACCOUNT_LEN \<and> decode_for_storage b = Some (Inr (Some a))) (encode_for_storage a)"
proof -
  define nonce where "nonce = (if acc_nonce a = 0 then [] else write_compact (u64_to_be_bytes (acc_nonce a)))"
  define hash where "hash = (if acc_code_hash a = EMPTY_HASH then [] else to_be_bytes (acc_code_hash a))"
  define balance where "balance = (if acc_balance a = 0 then [] else write_compact (to_be_bytes (acc_balance a)))"
  define fs where "fs = \<lparr>fs_nonce_len = length nonce, fs_code_hash = (acc_code_hash a \<noteq> EMPTY_HASH)\<rparr>"
  have e: "encode_for_storage a = Some (flags_into_byte fs # nonce @ hash @ balance)"
    by (simp add: encode_for_storage_eq nonce_def hash_def balance_def fs_def Let_def)
  have n: "length nonce \<le> 8" "ucast (from_be_bytes nonce) = acc_nonce a" "nonce = [] \<longleftrightarrow> acc_nonce a = 0"
    using write_compact_u64 [of "acc_nonce a"] by (auto simp: nonce_def ucast_up_down from_be_bytes_def [of "[]"])
  have b: "length balance \<le> 32" "from_be_bytes (replicate k 0 @ balance) = acc_balance a" for k
    using compact_length [of "\<lambda>v. v = 0" "to_be_bytes (acc_balance a)"]
    by (auto simp: balance_def write_compact_def from_be_bytes_zeros from_be_bytes_compact from_be_bytes_def [of "[]"])
  have h: "length hash = (if acc_code_hash a = EMPTY_HASH then 0 else 32)" by (simp add: hash_def)
  have f: "flags_from_byte (flags_into_byte fs) = fs" using n(1) by (intro flags_roundtrip) (simp add: fs_def)
  have fsf: "fs_nonce_len fs = length nonce" "fs_code_hash fs \<longleftrightarrow> acc_code_hash a \<noteq> EMPTY_HASH" by (simp_all add: fs_def)
  have "decode_for_storage (flags_into_byte fs # nonce @ hash @ balance) = Some (Inr (Some a))"
    using n b h by (cases "acc_nonce a = 0"; cases "acc_code_hash a = EMPTY_HASH")
      (simp_all add: decode_for_storage_def f fsf slice_range_def bytes_to_u64_eq table_lengths Let_def
        static_left_pad_def Account_default_def hash_def)
  then show ?thesis using n b h by (simp add: e table_lengths)
qed

interpretation account_object: table_object encode_for_storage decode_account
proof
  fix a :: Account
  show "returns (\<lambda>b. decode_account b = Some (Inr a)) (encode_for_storage a)"
    by (rule returns_mono [OF account_roundtrip [of a]]) (simp add: decode_account_def)
qed

lemma encode_account_change_eq:
  "returns (\<lambda>bs. length bs \<le> MAX_ACCOUNT_LEN \<and> (bs = [] \<longleftrightarrow> account = None)
      \<and> (\<forall>c. account = Some c \<longrightarrow> decode_account bs = Some (Inr c))
      \<and> encode_account_change (a, account) = Some (drop 12 (to_be_bytes (ucast a)) @ bs))
    (case account of Some c \<Rightarrow> encode_for_storage c | None \<Rightarrow> Some [])"
proof (cases account)
  case (Some c)
  then show ?thesis
    using account_roundtrip [of c]
    by (auto simp: encode_account_change_def encode_address_def try_extend_def table_lengths decode_account_def returns_ex)
qed (simp add: encode_account_change_def encode_address_def try_extend_def table_lengths)

interpretation account_change_object: table_object encode_account_change decode_account_change
proof
  fix p :: "address \<times> Account option"
  obtain a account where p: "p = (a, account)" by fastforce
  obtain bs where bs: "bs = [] \<longleftrightarrow> account = None" "\<forall>c. account = Some c \<longrightarrow> decode_account bs = Some (Inr c)"
    "encode_account_change (a, account) = Some (drop 12 (to_be_bytes (ucast a)) @ bs)"
    using encode_account_change_eq [of account a] by (auto simp: returns_ex)
  show "returns (\<lambda>b. decode_account_change b = Some (Inr p)) (encode_account_change p)"
    using bs by (cases account) (simp_all add: p decode_account_change_def slice_range_def table_lengths)
qed

interpretation account_change_dup: dup_value encode_address decode_address ADDRESS_LENGTH encode_account_change
proof
  fix a :: address and account
  show "\<exists>r. encode_account_change (a, account) = Some (the (encode_address a) @ r)"
    using encode_account_change_eq [of account a] by (auto simp: returns_ex encode_address_def)
qed

interpretation call_trace_object: table_object encode_call_trace decode_call_trace
proof
  fix e :: CallTraceSetEntry
  show "returns (\<lambda>b. decode_call_trace b = Some (Inr e)) (encode_call_trace e)"
    by (cases "ct_from e"; cases "ct_to e")
      (simp_all add: encode_call_trace_def decode_call_trace_def encode_address_def copy_into_def slice_range_def
        index_at_def table_lengths nth_append list_update_append)
qed

lemma encode_addresses_eq:
  "encode_addresses as = Some (concat (map (\<lambda>a. drop 12 (to_be_bytes (ucast a))) as))"
  by (induction as) (simp_all add: encode_address_def)

lemma length_address_concat:
  "length (concat (map (\<lambda>a :: address. drop 12 (to_be_bytes (ucast a))) as)) = 20 * length as"
  by (induction as) simp_all

lemma decode_addresses_loop_eq:
  "length pre = i * 20 \<Longrightarrow>
   decode_addresses_loop (pre @ concat (map (\<lambda>a. drop 12 (to_be_bytes (ucast a))) as)) i (length as) v
     = Some (Inr (v @ as))"
proof (induction as arbitrary: pre i v)
  case (Cons a as)
  show ?case
    using Cons.prems Cons.IH [of "pre @ drop 12 (to_be_bytes (ucast a))" "i + 1" "v @ [a]"]
    by (simp add: slice_range_def table_lengths)
qed simp

interpretation addresses_object: table_object encode_addresses decode_addresses
proof
  fix as :: "address list"
  show "returns (\<lambda>b. decode_addresses b = Some (Inr as)) (encode_addresses as)"
    using decode_addresses_loop_eq [of "[]" 0 as "[]"]
    by (simp add: encode_addresses_eq decode_addresses_def table_lengths length_address_concat)
qed

interpretation truncated_object: table_object "TruncateStart_encode 8 encode_u64" "TruncateStart_decode 8 decode_u64"
proof
  fix n :: u64
  show "returns (\<lambda>b. TruncateStart_decode 8 decode_u64 b = Some (Inr n)) (TruncateStart_encode 8 encode_u64 n)"
    using zeroless_roundtrip [of "u64_to_be_bytes n"] compact_length [of "\<lambda>b. b = 0" "u64_to_be_bytes n"]
    by (simp add: TruncateStart_encode_def TruncateStart_decode_def encode_u64_def try_extend_def static_left_pad_def
        zeroless_view_eq u64_be_value)
qed

section \<open>Properties\<close>

text \<open>C24: The cursor operations on the encoded tables are those of the model. Seeking the bytes of a key in
  the account or storage history, and seeking the bytes of a subkey among the encoded duplicates of the storage
  and change-set tables, finds the encoding of what \<open>seek\<close> finds among the keys.\<close>

theorem encoded_seek_refines:
  "seek (encoded_rows encode_bitmap_key accounts) (the (encode_bitmap_key k))
     = map_option (\<lambda>(k, v). (the (encode_bitmap_key k), v)) (seek accounts k)
   \<and> seek (encoded_rows encode_slot_bitmap_key slots) (the (encode_slot_bitmap_key l))
     = map_option (\<lambda>(k, v). (the (encode_slot_bitmap_key k), v)) (seek slots l)
   \<and> find (\<lambda>d. the (encode_h256 s) \<le> d) (map (\<lambda>p. the (encode_slot p)) storage_dups)
     = map_option (\<lambda>p. the (encode_slot p)) (seek_both_range storage_dups s)
   \<and> find (\<lambda>d. the (encode_h256 s) \<le> d) (map (\<lambda>p. the (encode_storage_change p)) storage_dups)
     = map_option (\<lambda>p. the (encode_storage_change p)) (seek_both_range storage_dups s)
   \<and> find (\<lambda>d. the (encode_address a) \<le> d) (map (\<lambda>p. the (encode_account_change p)) account_dups)
     = map_option (\<lambda>p. the (encode_account_change p)) (seek_both_range account_dups a)"
  by (intro conjI bitmap_key.seek_encoded slot_bitmap_key.seek_encoded slot_dup.seek_dup_encoded
      storage_change_dup.seek_dup_encoded account_change_dup.seek_dup_encoded)

text \<open>C25: Eleven kinds of objects of the tables are decoded from their bytes as they were: accounts, account changes,
  storage entries, storage changes, the keys of the account history, of the storage history, of the storage changes and of
  headers, call traces, lists of senders, and block numbers without their leading zeros. The encoding of an account also fits its
  buffer. Values of type \<open>U256\<close>, headers, bodies, transactions, logs, bitmaps and chain specifications are not among them.\<close>

theorem table_objects_roundtrip:
  "returns (\<lambda>b. length b \<le> MAX_ACCOUNT_LEN \<and> decode_for_storage b = Some (Inr (Some account))) (encode_for_storage account)
   \<and> returns (\<lambda>b. decode_account_change b = Some (Inr change)) (encode_account_change change)
   \<and> returns (\<lambda>b. decode_slot b = Some (Inr slot)) (encode_slot slot)
   \<and> returns (\<lambda>b. decode_storage_change b = Some (Inr slot)) (encode_storage_change slot)
   \<and> returns (\<lambda>b. decode_bitmap_key b = Some (Inr k)) (encode_bitmap_key k)
   \<and> returns (\<lambda>b. decode_slot_bitmap_key b = Some (Inr l)) (encode_slot_bitmap_key l)
   \<and> returns (\<lambda>b. decode_storage_change_key b = Some (Inr c)) (encode_storage_change_key c)
   \<and> returns (\<lambda>b. decode_header_key b = Some (Inr h)) (encode_header_key h)
   \<and> returns (\<lambda>b. decode_call_trace b = Some (Inr e)) (encode_call_trace e)
   \<and> returns (\<lambda>b. decode_addresses b = Some (Inr senders)) (encode_addresses senders)
   \<and> returns (\<lambda>b. TruncateStart_decode 8 decode_u64 b = Some (Inr n)) (TruncateStart_encode 8 encode_u64 n)"
  by (intro conjI returns_mono [OF account_roundtrip] account_change_object.decode_encode slot_object.decode_encode
      storage_change_object.decode_encode bitmap_key.decode_encode slot_bitmap_key.decode_encode
      storage_change_key.decode_encode header_key.decode_encode call_trace_object.decode_encode
      addresses_object.decode_encode truncated_object.decode_encode) simp_all

text \<open>Decoding the bytes of an account panics exactly when the length of the nonce that the first byte claims
  is more than eight or more than what follows, or when the code hash it announces is cut off; it fails when
  more than 32 bytes are left for the balance.\<close>

theorem account_decode_panics:
  "(decode_for_storage (b # enc) = None \<longleftrightarrow>
      8 < unat (take_bit 4 b) \<or> length enc < unat (take_bit 4 b) + (if bit b 4 then 32 else 0))
   \<and> (decode_for_storage (b # enc) = Some (Inl BalanceTooLong) \<longleftrightarrow>
      unat (take_bit 4 b) \<le> 8 \<and> unat (take_bit 4 b) + (if bit b 4 then 32 else 0) + 32 < length enc)"
  by (auto simp: decode_for_storage_def flags_from_byte_def Let_def slice_range_def bytes_to_u64_eq static_left_pad_def
      table_lengths)

end
