(* ===== verification/BitmapDb.thy ===== *)
theory BitmapDb
  imports Tables
begin

text \<open>
  Indices of block numbers, \<open>src/bitmapdb/mod.rs\<close>: a set of blocks is stored under a key in chunks,
  each in a row whose block number is the largest of the chunk, or \<open>u64::MAX\<close> for the last one.

  A \<open>RoaringTreemap\<close> (crate \<open>croaring\<close>) is the increasing list of its elements, and the size it takes
  when it is serialized is a parameter.
\<close>

section \<open>Sets of block numbers\<close>

type_synonym bitmap = "u64 list"

definition bitmap_ok :: "bitmap \<Rightarrow> bool" where
  "bitmap_ok bm \<longleftrightarrow> sorted bm \<and> distinct bm"

definition bm_add :: "u64 \<Rightarrow> bitmap \<Rightarrow> bitmap" where
  "bm_add n bm = (if n \<in> set bm then bm else insort n bm)"

definition bm_remove :: "u64 \<Rightarrow> bitmap \<Rightarrow> bitmap" where
  "bm_remove n bm = remove1 n bm"

definition bm_union :: "bitmap \<Rightarrow> bitmap \<Rightarrow> bitmap" where
  "bm_union a b = fold bm_add b a"

definition bm_maximum :: "bitmap \<Rightarrow> u64 option" where
  "bm_maximum bm = (if bm = [] then None else Some (last bm))"

section \<open>Chunks\<close>

definition CHUNK_LIMIT :: nat where "CHUNK_LIMIT = 1950"

record Chunks =
  ck_bm :: bitmap
  ck_size_limit :: nat

definition Chunks_new :: "bitmap \<Rightarrow> nat \<Rightarrow> Chunks" where
  "Chunks_new bm size_limit = \<lparr>ck_bm = bm, ck_size_limit = size_limit\<rparr>"

text \<open>The loop that fills a chunk, up to the first number that makes it too big.\<close>

fun fill_chunk :: "(bitmap \<Rightarrow> nat) \<Rightarrow> nat \<Rightarrow> bitmap \<Rightarrow> u64 list \<Rightarrow> bitmap \<times> u64 option" where
  "fill_chunk sz size_limit v [] = (v, None)"
| "fill_chunk sz size_limit v (n # ns) =
     (let v = bm_add n v
      in if sz v > size_limit then (bm_remove n v, Some n) else fill_chunk sz size_limit v ns)"

definition chunks_next :: "(bitmap \<Rightarrow> nat) \<Rightarrow> Chunks \<Rightarrow> bitmap option \<times> Chunks" where
  "chunks_next sz c =
     (if ck_bm c = [] then (None, c)
      else if sz (ck_bm c) \<le> ck_size_limit c then (Some (ck_bm c), c\<lparr>ck_bm := []\<rparr>)
      else case fill_chunk sz (ck_size_limit c) [] (ck_bm c) of
          (v, Some min_n) \<Rightarrow> (Some v, c\<lparr>ck_bm := fold bm_remove (takeWhile (\<lambda>n. n < min_n) (ck_bm c)) (ck_bm c)\<rparr>)
        | (_, None) \<Rightarrow> (Some (ck_bm c), c\<lparr>ck_bm := []\<rparr>))"

text \<open>\<open>std::iter::Peekable\<close> over an iterator's step function.\<close>

definition peekable_next :: "('s \<Rightarrow> 'a option \<times> 's) \<Rightarrow> 's \<times> 'a option option \<Rightarrow> 'a option \<times> 's \<times> 'a option option" where
  "peekable_next step p = (case p of
       (s, Some x) \<Rightarrow> (x, s, None)
     | (s, None) \<Rightarrow> (let (x, s) = step s in (x, s, None)))"

definition peekable_peek :: "('s \<Rightarrow> 'a option \<times> 's) \<Rightarrow> 's \<times> 'a option option \<Rightarrow> 'a option \<times> 's \<times> 'a option option" where
  "peekable_peek step p = (case p of
       (s, Some x) \<Rightarrow> (x, s, Some x)
     | (s, None) \<Rightarrow> (let (x, s) = step s in (x, s, Some x)))"

definition with_keys :: "Chunks \<Rightarrow> Chunks \<times> bitmap option option" where
  "with_keys c = (c, None)"

definition chunks_with_keys_next ::
  "(bitmap \<Rightarrow> nat) \<Rightarrow> Chunks \<times> bitmap option option \<Rightarrow> ((u64 \<times> bitmap) option \<times> Chunks \<times> bitmap option option) option" where
  "chunks_with_keys_next sz p = (case peekable_next (chunks_next sz) p of
       (None, p) \<Rightarrow> Some (None, p)
     | (Some chunk, p) \<Rightarrow> (case peekable_peek (chunks_next sz) p of
           (None, p) \<Rightarrow> Some (Some (- 1, chunk), p)
         | (Some _, p) \<Rightarrow> do { n \<leftarrow> bm_maximum chunk; Some (Some (n, chunk), p) }))"

text \<open>A \<open>for\<close> loop takes every item; one that never ends is \<open>None\<close>.\<close>

partial_function (option) collect_chunks ::
  "(bitmap \<Rightarrow> nat) \<Rightarrow> Chunks \<times> bitmap option option \<Rightarrow> (u64 \<times> bitmap) list option" where
  "collect_chunks sz p = do {
     (x, p) \<leftarrow> chunks_with_keys_next sz p;
     case x of
       None \<Rightarrow> Some []
     | Some row \<Rightarrow> do { rows \<leftarrow> collect_chunks sz p; Some (row # rows) } }"

section \<open>Reading a range\<close>

fun get_loop :: "u64 \<Rightarrow> (('k \<times> u64) \<times> bitmap) list \<Rightarrow> bitmap option \<Rightarrow> bitmap option" where
  "get_loop to_block [] out = out"
| "get_loop to_block (((_, n), v) # rows) out =
     (let out = Some (case out of Some o' \<Rightarrow> bm_union o' v | None \<Rightarrow> v)
      in if n \<ge> to_block then out else get_loop to_block rows out)"

definition bitmap_get :: "'k::linorder index_rows \<Rightarrow> 'k \<Rightarrow> u64 \<Rightarrow> u64 \<Rightarrow> bitmap" where
  "bitmap_get rows key from_block to_block =
     (let s = takeWhile (\<lambda>((inner, _), _). inner = key) (dropWhile (\<lambda>(k, _). k < (key, from_block)) rows)
      in case get_loop to_block s None of Some out \<Rightarrow> out | None \<Rightarrow> [])"

section \<open>Set operations\<close>

lemma bm_add_set [simp]: "set (bm_add n bm) = insert n (set bm)"
  by (auto simp: bm_add_def set_insort_key)

lemma bm_add_ok: "bitmap_ok bm \<Longrightarrow> bitmap_ok (bm_add n bm)"
  by (auto simp: bm_add_def bitmap_ok_def sorted_insort distinct_insort)

lemma bm_union_ok: "bitmap_ok a \<Longrightarrow> bitmap_ok (bm_union a b)"
  unfolding bm_union_def by (induction b arbitrary: a) (auto simp: bm_add_ok)

lemma bm_union_set [simp]: "set (bm_union a b) = set a \<union> set b"
  unfolding bm_union_def by (induction b arbitrary: a) auto

lemma bm_union_Nil [simp]: "bm_union a b = [] \<longleftrightarrow> a = [] \<and> b = []"
  using bm_union_set [of a b] by (metis Un_empty set_empty)

lemma bm_add_last: "(\<And>b. b \<in> set bm \<Longrightarrow> b < n) \<Longrightarrow> bm_add n bm = bm @ [n]"
proof -
  assume lt: "\<And>b. b \<in> set bm \<Longrightarrow> b < n"
  then have "insort n bm = bm @ [n]" by (induction bm) (auto simp flip: not_less)
  then show ?thesis using lt by (auto simp: bm_add_def)
qed

lemma bm_remove_last: "n \<notin> set bm \<Longrightarrow> bm_remove n (bm @ [n]) = bm"
  by (simp add: bm_remove_def remove1_append)

lemma bitmap_ok_append:
  "bitmap_ok (a @ b) \<longleftrightarrow> bitmap_ok a \<and> bitmap_ok b \<and> (\<forall>x \<in> set a. \<forall>y \<in> set b. x < y)"
  by (fastforce simp: bitmap_ok_def sorted_append less_le)

lemma bitmap_eqI: "bitmap_ok a \<Longrightarrow> bitmap_ok b \<Longrightarrow> set a = set b \<Longrightarrow> a = b"
  by (simp add: bitmap_ok_def sorted_distinct_set_unique)

section \<open>The chunks of a set\<close>

lemma fill_chunk_some:
  assumes "fill_chunk sz l v ns = (w, Some m)" "bitmap_ok (v @ ns)"
  shows "\<exists>p q. ns = p @ m # q \<and> w = v @ p \<and> (p = [] \<or> sz w \<le> l) \<and> l < sz (v @ p @ [m])"
  using assms
proof (induction ns arbitrary: v)
  case (Cons n ns)
  have a: "bm_add n v = v @ [n]" "n \<notin> set v"
    using Cons.prems(2) by (auto simp: bitmap_ok_append intro!: bm_add_last)
  show ?case
  proof (cases "l < sz (v @ [n])")
    case True
    then have "w = v" "m = n" using Cons.prems(1) a by (auto simp: bm_remove_last)
    then show ?thesis using True by (intro exI [of _ "[]"] exI [of _ ns]) simp
  next
    case False
    have "bitmap_ok ((v @ [n]) @ ns)" using Cons.prems(2) by simp
    moreover have "fill_chunk sz l (v @ [n]) ns = (w, Some m)" using Cons.prems(1) False a by simp
    ultimately obtain p q where pq: "ns = p @ m # q" "w = (v @ [n]) @ p" "p = [] \<or> sz w \<le> l" "l < sz ((v @ [n]) @ p @ [m])"
      using Cons.IH by blast
    have "sz w \<le> l" using pq(2,3) False by auto
    then show ?thesis using pq by (intro exI [of _ "n # p"] exI [of _ q]) simp
  qed
qed simp

lemma fill_chunk_none:
  assumes "fill_chunk sz l v ns = (w, None)" "bitmap_ok (v @ ns)" "ns \<noteq> []"
  shows "w = v @ ns \<and> sz w \<le> l"
  using assms
proof (induction ns arbitrary: v)
  case (Cons n ns)
  have a: "bm_add n v = v @ [n]" using Cons.prems(2) by (auto simp: bitmap_ok_append intro!: bm_add_last)
  have n: "sz (v @ [n]) \<le> l" "fill_chunk sz l (v @ [n]) ns = (w, None)"
    using Cons.prems(1) a by (auto simp: Let_def not_less split: if_splits)
  show ?case
  proof (cases "ns = []")
    case False
    then show ?thesis using Cons.IH [of "v @ [n]"] n(2) Cons.prems(2) by auto
  qed (use n in simp)
qed simp

lemma fold_remove_prefix: "distinct (p @ q) \<Longrightarrow> fold bm_remove p (p @ q) = q"
  by (induction p) (auto simp: bm_remove_def)

lemma chunks_next_step:
  assumes "ck_bm c \<noteq> []" "bitmap_ok (ck_bm c)" "\<And>n. sz [n] \<le> ck_size_limit c"
  shows "\<exists>v r. chunks_next sz c = (Some v, c\<lparr>ck_bm := r\<rparr>) \<and> v \<noteq> [] \<and> v @ r = ck_bm c \<and> sz v \<le> ck_size_limit c"
proof (cases "sz (ck_bm c) \<le> ck_size_limit c")
  case False
  obtain v m where f: "fill_chunk sz (ck_size_limit c) [] (ck_bm c) = (v, m)" by fastforce
  show ?thesis
  proof (cases m)
    case None
    then show ?thesis using fill_chunk_none [of sz "ck_size_limit c" "[]" "ck_bm c" v] f assms False by auto
  next
    case (Some n)
    obtain p q where p: "ck_bm c = p @ n # q" "v = p" "p = [] \<or> sz p \<le> ck_size_limit c" "ck_size_limit c < sz (p @ [n])"
      using fill_chunk_some [of sz "ck_size_limit c" "[]" "ck_bm c" v n] f Some assms(2) by auto
    have ne: "p \<noteq> []" using p(4) assms(3) [of n] by auto
    have "takeWhile (\<lambda>b. b < n) (ck_bm c) = p"
      using assms(2) unfolding p(1) by (auto simp: bitmap_ok_append takeWhile_append)
    moreover have "fold bm_remove p (p @ n # q) = n # q"
      using assms(2) unfolding p(1) bitmap_ok_def by (intro fold_remove_prefix) simp
    ultimately show ?thesis using False f Some p ne assms(1) by (simp add: chunks_next_def)
  qed
qed (use assms in \<open>simp add: chunks_next_def\<close>)

text \<open>
  The rows of a set of blocks: the chunks in order, each under its largest block, the last one under
  \<open>u64::MAX\<close>. They end, as long as a single block fits in a chunk.
\<close>

definition chunk_rows :: "(u64 \<times> bitmap) list \<Rightarrow> bool" where
  "chunk_rows rows \<longleftrightarrow> (\<forall>(n, v) \<in> set rows. v \<noteq> []) \<and> (\<forall>(n, v) \<in> set (butlast rows). n = last v)
     \<and> (rows \<noteq> [] \<longrightarrow> fst (last rows) = - 1)"

lemma collect_chunks_peeked:
  assumes "bitmap_ok (ck_bm c)" "\<And>n. sz [n] \<le> ck_size_limit c" "v \<noteq> []" "sz v \<le> ck_size_limit c"
  shows "\<exists>rows. collect_chunks sz (c, Some (Some v)) = Some rows \<and> concat (map snd rows) = v @ ck_bm c \<and> rows \<noteq> []
    \<and> chunk_rows rows \<and> (\<forall>(n, w) \<in> set rows. sz w \<le> ck_size_limit c)"
  using assms
proof (induction "length (ck_bm c)" arbitrary: c v rule: less_induct)
  case less
  show ?case
  proof (cases "ck_bm c = []")
    case True
    then have "chunks_next sz c = (None, c)" by (simp add: chunks_next_def)
    then have "collect_chunks sz (c, Some (Some v)) = Some [(- 1, v)]"
      by (subst collect_chunks.simps)
        (simp add: chunks_with_keys_next_def peekable_next_def peekable_peek_def collect_chunks.simps)
    then show ?thesis using True less.prems by (simp add: chunk_rows_def)
  next
    case False
    obtain w r where w: "chunks_next sz c = (Some w, c\<lparr>ck_bm := r\<rparr>)" "w \<noteq> []" "w @ r = ck_bm c" "sz w \<le> ck_size_limit c"
      using chunks_next_step [of c sz] False less.prems by blast
    have "bitmap_ok (w @ r)" using less.prems(1) w(3) by simp
    then have "bitmap_ok r" by (simp add: bitmap_ok_append)
    moreover have "length r < length (ck_bm c)" using w(2) arg_cong [OF w(3), of length] by (cases w) simp_all
    ultimately obtain rows where rows: "collect_chunks sz (c\<lparr>ck_bm := r\<rparr>, Some (Some w)) = Some rows"
      "concat (map snd rows) = ck_bm c" "rows \<noteq> []" "chunk_rows rows" "\<forall>(n, u) \<in> set rows. sz u \<le> ck_size_limit c"
      using less.hyps [of "c\<lparr>ck_bm := r\<rparr>" w] less.prems(2) w by (auto simp: bitmap_ok_append)
    have "collect_chunks sz (c, Some (Some v)) = Some ((last v, v) # rows)"
      using w rows(1) less.prems(3)
      by (subst collect_chunks.simps)
        (simp add: chunks_with_keys_next_def peekable_next_def peekable_peek_def bm_maximum_def)
    then show ?thesis using rows less.prems by (auto simp: chunk_rows_def)
  qed
qed

lemma collect_chunks_rows:
  assumes "bitmap_ok bm" "\<And>n. sz [n] \<le> size_limit"
  shows "\<exists>rows. collect_chunks sz (with_keys (Chunks_new bm size_limit)) = Some rows \<and> concat (map snd rows) = bm
    \<and> chunk_rows rows \<and> (\<forall>(n, w) \<in> set rows. sz w \<le> size_limit)"
proof -
  let ?c = "Chunks_new bm size_limit"
  have c: "ck_bm ?c = bm" "ck_size_limit ?c = size_limit" by (simp_all add: Chunks_new_def)
  show ?thesis
  proof (cases "bm = []")
    case True
    then have "chunks_next sz ?c = (None, ?c)" by (simp add: chunks_next_def Chunks_new_def)
    then have "collect_chunks sz (with_keys ?c) = Some []"
      by (subst collect_chunks.simps) (simp add: with_keys_def chunks_with_keys_next_def peekable_next_def)
    then show ?thesis using True by (simp add: chunk_rows_def)
  next
    case False
    obtain w r where w: "chunks_next sz ?c = (Some w, ?c\<lparr>ck_bm := r\<rparr>)" "w \<noteq> []" "w @ r = bm" "sz w \<le> size_limit"
      using chunks_next_step [of ?c sz] False assms c by auto
    have "collect_chunks sz (with_keys ?c) = collect_chunks sz (?c\<lparr>ck_bm := r\<rparr>, Some (Some w))"
      using w(1) by (subst (1 2) collect_chunks.simps)
        (simp add: with_keys_def chunks_with_keys_next_def peekable_next_def)
    then show ?thesis
      using collect_chunks_peeked [of "?c\<lparr>ck_bm := r\<rparr>" sz w] w assms c by (auto simp: bitmap_ok_append)
  qed
qed

section \<open>An index\<close>

text \<open>
  The rows of an index are in the order of their keys; a chunk holds its own block number unless it
  is the last of its key, none of its blocks is above that number, and all of them are above the
  numbers of the chunks before it.
\<close>

definition index_ok :: "'k::linorder index_rows \<Rightarrow> bool" where
  "index_ok rows \<longleftrightarrow> dups_ok rows \<and> (\<forall>((k, n), bs) \<in> set rows. bitmap_ok bs \<and> (n \<noteq> - 1 \<longrightarrow> n \<in> set bs)
     \<and> (\<forall>b \<in> set bs. b \<le> n) \<and> (\<forall>((l, m), cs) \<in> set rows. l = k \<and> m < n \<longrightarrow> (\<forall>b \<in> set bs. m < b)))"

definition index_blocks :: "'k index_rows \<Rightarrow> 'k \<Rightarrow> u64 set" where
  "index_blocks rows key = {b. \<exists>n bs. ((key, n), bs) \<in> set rows \<and> b \<in> set bs}"

lemma index_blocks_simps [simp]:
  "index_blocks [] key = {}"
  "index_blocks (((k, n), bs) # rows) key = (if k = key then set bs else {}) \<union> index_blocks rows key"
  by (auto simp: index_blocks_def)

lemma index_okD:
  assumes "index_ok rows" "((k, n), bs) \<in> set rows"
  shows "bitmap_ok bs" "n \<noteq> - 1 \<Longrightarrow> n \<in> set bs" "b \<in> set bs \<Longrightarrow> b \<le> n"
    "((k, m), cs) \<in> set rows \<Longrightarrow> m < n \<Longrightarrow> b \<in> set bs \<Longrightarrow> m < b"
proof -
  have i: "bitmap_ok bs \<and> (n \<noteq> - 1 \<longrightarrow> n \<in> set bs) \<and> (\<forall>b \<in> set bs. b \<le> n)
      \<and> (\<forall>((l, m), cs) \<in> set rows. l = k \<and> m < n \<longrightarrow> (\<forall>b \<in> set bs. m < b))"
    using bspec [OF conjunct2 [OF assms(1) [unfolded index_ok_def]] assms(2)] by simp
  then show "bitmap_ok bs" "n \<noteq> - 1 \<Longrightarrow> n \<in> set bs" "b \<in> set bs \<Longrightarrow> b \<le> n" by blast+
  have "\<forall>((l, m), cs) \<in> set rows. l = k \<and> m < n \<longrightarrow> (\<forall>b \<in> set bs. m < b)" using i by blast
  from bspec [OF this, of "((k, m), cs)"]
  show "((k, m), cs) \<in> set rows \<Longrightarrow> m < n \<Longrightarrow> b \<in> set bs \<Longrightarrow> m < b" by simp
qed

lemma seek_least:
  assumes "dups_ok rows"
  shows "seek rows k = Some (l, v) \<Longrightarrow> (l, v) \<in> set rows \<and> k \<le> l \<and> (\<forall>(m, w) \<in> set rows. k \<le> m \<longrightarrow> l \<le> m)"
    "seek rows k = None \<longleftrightarrow> (\<forall>(m, w) \<in> set rows. m < k)"
proof -
  show "seek rows k = Some (l, v) \<Longrightarrow> (l, v) \<in> set rows \<and> k \<le> l \<and> (\<forall>(m, w) \<in> set rows. k \<le> m \<longrightarrow> l \<le> m)"
    using assms by (induction rows) (auto simp: seek_def dups_ok_def split: if_splits)
  show "seek rows k = None \<longleftrightarrow> (\<forall>(m, w) \<in> set rows. m < k)"
    by (induction rows) (auto simp: seek_def not_le)
qed

lemma find_above:
  assumes "bitmap_ok bs"
  shows "find (\<lambda>b. n < b) bs = (if {b \<in> set bs. n < b} = {} then None else Some (Min {b \<in> set bs. n < b}))"
  using assms
proof (induction bs)
  case (Cons b bs)
  have lt: "b < c" if "c \<in> set bs" for c using Cons.prems that by (auto simp: bitmap_ok_def less_le)
  show ?case
  proof (cases "n < b")
    case True
    have "Min {c \<in> set (b # bs). n < c} = b" using True lt by (intro Min_eqI) (auto intro: less_imp_le)
    then show ?thesis using True by auto
  next
    case False
    then have "{c \<in> set (b # bs). n < c} = {c \<in> set bs. n < c}" by auto
    then show ?thesis using Cons False by (simp add: bitmap_ok_def)
  qed
qed simp

text \<open>What \<open>find_next_block\<close> finds: the next block of the index, unless a row ends exactly at the block.\<close>

lemma find_next_block_exact:
  assumes "index_ok rows"
  shows "find_next_block rows needle n =
    (if (\<exists>bs. ((needle, n), bs) \<in> set rows) \<or> {b \<in> index_blocks rows needle. n < b} = {} then None
     else Some (Min {b \<in> index_blocks rows needle. n < b}))"
proof (cases "seek rows (needle, n)")
  case None
  have lt: "m < n" if "((needle, m), bs) \<in> set rows" for m bs
    using None that seek_least(2) [of rows "(needle, n)"] assms by (fastforce simp: index_ok_def)
  have "\<not> n < b" if "((needle, m), bs) \<in> set rows" "b \<in> set bs" for m bs b
    using lt [OF that(1)] index_okD(3) [OF assms that] by auto
  then have "{b \<in> index_blocks rows needle. n < b} = {}" by (auto simp: index_blocks_def)
  then show ?thesis using None by (simp add: find_next_block_def)
next
  case (Some r)
  obtain k m bs where r: "r = ((k, m), bs)" by (metis prod.exhaust)
  have row: "((k, m), bs) \<in> set rows" "(needle, n) \<le> (k, m)"
    and least: "\<And>l w cs. ((l, w), cs) \<in> set rows \<Longrightarrow> (needle, n) \<le> (l, w) \<Longrightarrow> (k, m) \<le> (l, w)"
    using seek_least(1) [of rows "(needle, n)" "(k, m)" bs] Some assms by (auto simp: r index_ok_def)
  show ?thesis
  proof (cases "k = needle")
    case False
    have nk: "needle < k" using row(2) False by (auto simp: le_less)
    have lt: "w < n" if "((needle, w), cs) \<in> set rows" for w cs
    proof (rule ccontr)
      assume "\<not> w < n"
      then have "(k, m) \<le> (needle, w)" using least [OF that] by simp
      then show False using nk by auto
    qed
    have "\<not> n < b" if "((needle, w), cs) \<in> set rows" "b \<in> set cs" for w cs b
      using lt [OF that(1)] index_okD(3) [OF assms that] by auto
    then have "{b \<in> index_blocks rows needle. n < b} = {}" by (auto simp: index_blocks_def)
    then show ?thesis using Some False by (simp add: find_next_block_def r)
  next
    case True
    have nm: "n \<le> m" using row(2) True by simp
    note B = index_okD [OF assms row(1)]
    show ?thesis
    proof (cases "n = m")
      case eq: True
      then have "find (\<lambda>b. n < b) bs = None" using B(3) by (metis find_None_iff leD)
      then show ?thesis using Some True eq row(1) by (auto simp: find_next_block_def r)
    next
      case neq: False
      have no: "((needle, n), cs) \<notin> set rows" for cs using least [of needle n cs] nm neq True by auto
      have later: "m \<le> w" if "((needle, w), cs) \<in> set rows" "n < b" "b \<in> set cs" for w cs b
        using least [OF that(1)] that index_okD(3) [OF assms that(1,3)] True by (auto simp: not_le)
      define A where "A = {b \<in> index_blocks rows needle. n < b}"
      define D where "D = {b \<in> set bs. n < b}"
      have sub: "D \<subseteq> A" using row(1) True by (auto simp: A_def D_def index_blocks_def)
      have low: "\<exists>d \<in> D. d \<le> b" if bA: "b \<in> A" for b
      proof -
        obtain w cs where w: "((needle, w), cs) \<in> set rows" "b \<in> set cs" "n < b"
          using bA by (auto simp: A_def index_blocks_def)
        show ?thesis
        proof (cases "w = m")
          case True
          then have "cs = bs"
            using w(1) row(1) \<open>k = needle\<close> assms eq_key_imp_eq_value [of rows "(needle, m)" cs bs]
            by (simp add: index_ok_def dups_ok_def)
          then show ?thesis using w by (auto simp: D_def)
        next
          case False
          then have mw: "m < w" using later [OF w(1,3,2)] by simp
          then have "m \<noteq> - 1" by (metis word_n1_ge leD)
          then have "m \<in> D" using B(2) nm neq by (simp add: D_def)
          moreover have "m < b" using index_okD(4) [OF assms w(1), of m bs b] row(1) mw w(2) \<open>k = needle\<close> by simp
          ultimately show ?thesis by (auto intro: less_imp_le)
        qed
      qed
      have "finite A" by (rule finite_subset [OF subset_UNIV finite])
      have "find (\<lambda>b. n < b) bs = (if D = {} then None else Some (Min D))" using find_above [OF B(1), of n] by (simp add: D_def)
      moreover have "A = {} \<longleftrightarrow> D = {}" using sub low by blast
      moreover have "Min D = Min A" if "D \<noteq> {}"
      proof (rule antisym)
        have f: "finite D" by (simp add: D_def)
        show "Min A \<le> Min D" using sub that \<open>finite A\<close> by (intro Min_antimono)
        have "Min A \<in> A" using that sub \<open>finite A\<close> by (intro Min_in) auto
        then obtain d where "d \<in> D" "d \<le> Min A" using low by blast
        then show "Min D \<le> Min A" using f by (meson Min_le order_trans)
      qed
      ultimately show ?thesis using Some True no by (auto simp: find_next_block_def r A_def [symmetric])
    qed
  qed
qed

text \<open>Reading a range gives every block of the index in it, and only blocks of the index.\<close>

abbreviation opt_set :: "bitmap option \<Rightarrow> u64 set" where
  "opt_set out \<equiv> (case out of Some bs \<Rightarrow> set bs | None \<Rightarrow> {})"

lemma get_loop_keeps: "opt_set out \<subseteq> opt_set (get_loop to_block rows out)"
  by (induction to_block rows out rule: get_loop.induct) (auto simp: Let_def split: option.splits)

lemma get_loop_subset: "opt_set (get_loop to_block rows out) \<subseteq> opt_set out \<union> (\<Union>r \<in> set rows. set (snd r))"
proof (induction to_block rows out rule: get_loop.induct)
  case (2 to_block k n v rows out)
  show ?case
  proof (cases "to_block \<le> n")
    case False
    then have "opt_set (get_loop to_block (((k, n), v) # rows) out)
        \<subseteq> opt_set (Some (case out of Some o' \<Rightarrow> bm_union o' v | None \<Rightarrow> v)) \<union> (\<Union>r \<in> set rows. set (snd r))"
      using 2 [OF refl] by simp
    then show ?thesis by (rule order_trans) (auto split: option.splits)
  qed (auto simp: Let_def split: option.splits)
qed simp

lemma get_loop_covers:
  assumes "\<And>k n v. ((k, n), v) \<in> set pre \<Longrightarrow> n < to_block"
  shows "set (snd r) \<subseteq> opt_set (get_loop to_block (pre @ r # post) out)"
  using assms
proof (induction pre arbitrary: out)
  case Nil
  obtain k n v where r: "r = ((k, n), v)" by (metis prod.exhaust)
  show ?case
    using get_loop_keeps [of "Some (case out of Some o' \<Rightarrow> bm_union o' v | None \<Rightarrow> v)" to_block post]
    by (auto simp: r Let_def split: option.splits)
next
  case (Cons p pre)
  obtain k n v where p: "p = ((k, n), v)" by (metis prod.exhaust)
  have "\<not> to_block \<le> n" using Cons.prems [of k n v] by (simp add: p)
  moreover have "set (snd r) \<subseteq> opt_set (get_loop to_block (pre @ r # post) o')" for o'
    by (rule Cons.IH) (use Cons.prems in auto)
  ultimately show ?case by (simp add: p)
qed

lemma range_rows:
  fixes rows :: "'k::linorder index_rows"
  assumes "dups_ok rows"
  shows "takeWhile (\<lambda>((inner, _), _). inner = key) (dropWhile (\<lambda>(k, _). k < (key, n)) rows)
    = filter (\<lambda>((inner, m), _). inner = key \<and> n \<le> m) rows"
proof -
  have d: "dropWhile (\<lambda>(k, _). k < (key, n)) rows = filter (\<lambda>(k, _). (key, n) \<le> k) rows"
    using assms
  proof (induction rows)
    case (Cons r rows)
    have "filter (\<lambda>(k, _). (key, n) \<le> k) rows = rows" if "\<not> fst r < (key, n)"
      using Cons.prems that by (intro filter_True) (auto simp: dups_ok_def not_less dest: order_trans)
    then show ?case using Cons by (auto simp: dups_ok_def not_less split: prod.splits)
  qed simp
  have "takeWhile (\<lambda>((inner, _), _). inner = key) rs = filter (\<lambda>((inner, _), _). inner = key) rs"
    if "dups_ok rs" "\<forall>(k, _) \<in> set rs. (key, n) \<le> k" for rs :: "(('k \<times> u64) \<times> bitmap) list"
    using that
  proof (induction rs)
    case (Cons r rs)
    obtain k m v where r: "r = ((k, m), v)" by (metis prod.exhaust)
    have "filter (\<lambda>((inner, _), _). inner = key) rs = []" if "k \<noteq> key"
    proof -
      have "key < k" using Cons.prems(2) that by (auto simp: r le_less)
      then show ?thesis using Cons.prems(1) by (fastforce simp: r dups_ok_def filter_empty_conv)
    qed
    then show ?case using Cons by (auto simp: r dups_ok_def)
  qed simp
  moreover have "dups_ok (filter (\<lambda>(k, _). (key, n) \<le> k) rows)"
    using assms by (auto simp: dups_ok_def distinct_map sorted_filter intro: inj_on_subset)
  ultimately show ?thesis unfolding d by (auto intro!: filter_cong)
qed

lemma bitmap_get_range:
  assumes "index_ok rows"
  shows "set (bitmap_get rows key from_block to_block) \<subseteq> index_blocks rows key"
    "b \<in> index_blocks rows key \<Longrightarrow> from_block \<le> b \<Longrightarrow> b \<le> to_block \<Longrightarrow> b \<in> set (bitmap_get rows key from_block to_block)"
proof -
  define s where "s = filter (\<lambda>((inner, m), _). inner = key \<and> from_block \<le> m) rows"
  have g: "set (bitmap_get rows key from_block to_block) = opt_set (get_loop to_block s None)"
    using range_rows [of rows key from_block] assms
    by (auto simp: bitmap_get_def s_def index_ok_def Let_def split: option.splits)
  show "set (bitmap_get rows key from_block to_block) \<subseteq> index_blocks rows key"
    using get_loop_subset [of to_block s None] by (fastforce simp: g s_def index_blocks_def)
  assume b: "b \<in> index_blocks rows key" "from_block \<le> b" "b \<le> to_block"
  then obtain n bs where r: "((key, n), bs) \<in> set rows" "b \<in> set bs" by (auto simp: index_blocks_def)
  have "from_block \<le> n" using index_okD(3) [OF assms r] b(2) by simp
  then have "((key, n), bs) \<in> set s" using r(1) by (simp add: s_def)
  then obtain pre post where s: "s = pre @ ((key, n), bs) # post" by (meson split_list)
  have d: "dups_ok s" using assms by (auto simp: s_def index_ok_def dups_ok_def distinct_map sorted_filter intro: inj_on_subset)
  have "m < to_block" if m: "((k, m), v) \<in> set pre" for k m v
  proof -
    have "((k, m), v) \<in> set s" using m s by simp
    then have k: "k = key" "((key, m), v) \<in> set rows" by (auto simp: s_def)
    have "(k, m) < (key, n)" using d m unfolding s by (force simp: dups_ok_def sorted_append less_le)
    then have "m < n" using k by simp
    then have "m < b" using index_okD(4) [OF assms r(1) k(2) _ r(2)] by simp
    then show ?thesis using b(3) by simp
  qed
  then show "b \<in> set (bitmap_get rows key from_block to_block)"
    using get_loop_covers [of pre to_block "((key, n), bs)" post None] r(2) unfolding g s by auto
qed

section \<open>Reads of an earlier block\<close>

text \<open>
  \<open>history_ok\<close> says that an index and the change sets record the history \<open>h\<close> of a value up to the
  block \<open>t\<close>: in every block of the index the change set holds the value before the block, and in
  every other block the value does not change.
\<close>

definition history_ok :: "u64 set \<Rightarrow> (u64 \<Rightarrow> 'v option) \<Rightarrow> (u64 \<Rightarrow> 'v) \<Rightarrow> u64 \<Rightarrow> bool" where
  "history_ok blocks change h t \<longleftrightarrow> (\<forall>b \<in> blocks. b \<le> t \<and> change b = Some (h (b - 1)))
     \<and> (\<forall>b. 0 < b \<and> b \<le> t \<and> b \<notin> blocks \<longrightarrow> h b = h (b - 1))"

definition account_history_ok :: "Tables \<Rightarrow> address \<Rightarrow> (u64 \<Rightarrow> Account option) \<Rightarrow> u64 \<Rightarrow> bool" where
  "account_history_ok T a h t \<longleftrightarrow> index_ok (tb_account_history T) \<and> (\<forall>b. dups_ok (tb_account_change_set T b))
     \<and> history_ok (index_blocks (tb_account_history T) a) (\<lambda>b. map_of (tb_account_change_set T b) a) h t
     \<and> tb_account T a = h t"

definition storage_history_ok :: "Tables \<Rightarrow> address \<Rightarrow> u256 \<Rightarrow> (u64 \<Rightarrow> u256) \<Rightarrow> u64 \<Rightarrow> bool" where
  "storage_history_ok T a k h t \<longleftrightarrow> index_ok (tb_storage_history T) \<and> (\<forall>b. dups_ok (tb_storage_change_set T (b, a)))
     \<and> history_ok (index_blocks (tb_storage_history T) (a, k)) (\<lambda>b. map_of (tb_storage_change_set T (b, a)) k) h t
     \<and> table_storage T a k = h t"

lemma word_before:
  assumes "n < (t :: u64)"
  shows "t \<noteq> 0" "unat (t - 1) = unat t - 1" "0 < unat t" "n \<le> t - 1" "b \<le> t - 1 \<longleftrightarrow> b < t"
proof -
  show t: "t \<noteq> 0" using assms by auto
  then show u: "unat (t - 1) = unat t - 1" by (rule unat_minus_one)
  show "0 < unat t" using t by (simp add: unat_gt_0)
  then show "n \<le> t - 1" "b \<le> t - 1 \<longleftrightarrow> b < t" using assms u by (auto simp: word_le_nat_alt word_less_nat_alt)
qed

lemma unchanged:
  assumes "n \<le> (t :: u64)" "\<And>m. n < m \<Longrightarrow> m \<le> t \<Longrightarrow> h m = h (m - 1)"
  shows "h t = h n"
  using assms
proof (induction "unat t" arbitrary: t)
  case (Suc k)
  show ?case
  proof (cases "n = t")
    case False
    then have "n < t" using Suc.prems(1) by simp
    note t = word_before [OF this]
    have "h (t - 1) = h n"
      using Suc.prems(2) t Suc.hyps(2) by (intro Suc.hyps(1)) (auto simp: less_imp_le)
    then show ?thesis using Suc.prems(2) [OF \<open>n < t\<close>] by simp
  qed simp
qed (simp add: word_le_nat_alt unat_eq_zero)

lemma history_read:
  assumes "history_ok blocks change h t" "n \<le> t"
  shows "{b \<in> blocks. n < b} = {} \<Longrightarrow> h t = h n"
    "{b \<in> blocks. n < b} \<noteq> {} \<Longrightarrow> change (Min {b \<in> blocks. n < b}) = Some (h n)"
proof -
  have q: "h m = h (m - 1)" if "n < m" "m \<le> t" "m \<notin> blocks" for m
  proof -
    from assms(1) have "\<forall>b. 0 < b \<and> b \<le> t \<and> b \<notin> blocks \<longrightarrow> h b = h (b - 1)" by (simp add: history_ok_def)
    from this [rule_format, of m] have "0 < m \<Longrightarrow> h m = h (m - 1)" using that by blast
    moreover have "0 < m" using word_before(1) [OF that(1)] by (simp add: word_gt_0)
    ultimately show ?thesis by blast
  qed
  show "h t = h n" if "{b \<in> blocks. n < b} = {}"
    by (rule unchanged [OF assms(2)], rule q) (use that in auto)
  assume ne: "{b \<in> blocks. n < b} \<noteq> {}"
  define m where "m = Min {b \<in> blocks. n < b}"
  have fin: "finite {b \<in> blocks. n < b}" by (rule finite_subset [OF subset_UNIV finite])
  have m: "m \<in> blocks" "n < m" using Min_in [OF fin ne] by (auto simp: m_def)
  have least: "m \<le> b" if "b \<in> blocks" "n < b" for b using that Min_le [OF fin, of b] by (simp add: m_def)
  have c: "change m = Some (h (m - 1))" "m \<le> t" using assms(1) m(1) by (auto simp: history_ok_def)
  have "h (m - 1) = h n"
  proof (rule unchanged)
    show "n \<le> m - 1" using m(2) by (rule word_before)
    fix b assume b: "n < b" "b \<le> m - 1"
    have "b < m" using b m(2) word_before(5) by blast
    then show "h b = h (b - 1)" using q [of b] b(1) least [of b] c(2) by fastforce
  qed
  then show "change (Min {b \<in> blocks. n < b}) = Some (h n)" using c(1) by (simp add: m_def)
qed

lemma read_in_history:
  assumes "index_ok rows" "history_ok (index_blocks rows key) change h t" "n \<le> t"
    "\<And>bs. ((key, n), bs) \<notin> set rows"
  shows "(case find_next_block rows key n of Some b \<Rightarrow> the (change b) | None \<Rightarrow> h t) = h n"
    "find_next_block rows key n = Some b \<Longrightarrow> change b = Some (h n)"
  using history_read [OF assms(2,3)] assms(4) unfolding find_next_block_exact [OF assms(1)] by (auto split: if_splits)

lemma seek_entry:
  assumes "dups_ok dups" "map_of dups k = Some v" shows "seek dups k = Some (k, v)"
  using seek_exact [OF assms(1), of k] assms(2) by (auto split: option.splits if_splits prod.splits)

section \<open>Properties\<close>

text \<open>C22: The rows of an index for a set of blocks end and hold it: the chunks in their order give the set back, no
  chunk is empty or above the size limit, each is stored under its largest block and the last one under the
  largest number, whenever the serialized size of a single block is within the limit.\<close>

theorem chunks_partition:
  assumes "sorted bm" "distinct bm" "\<And>n. sz [n] \<le> size_limit"
  shows "\<exists>rows. collect_chunks sz (with_keys (Chunks_new bm size_limit)) = Some rows
    \<and> concat (map snd rows) = bm
    \<and> (\<forall>(n, v) \<in> set rows. v \<noteq> [] \<and> sz v \<le> size_limit)
    \<and> (\<forall>(n, v) \<in> set (butlast rows). n = last v)
    \<and> (rows \<noteq> [] \<longrightarrow> fst (last rows) = - 1)"
proof -
  obtain rows where "collect_chunks sz (with_keys (Chunks_new bm size_limit)) = Some rows" "concat (map snd rows) = bm"
    "chunk_rows rows" "\<forall>(n, w) \<in> set rows. sz w \<le> size_limit"
    using collect_chunks_rows [of bm sz size_limit] assms by (auto simp: bitmap_ok_def)
  then show ?thesis by (intro exI [of _ rows]) (auto simp: chunk_rows_def)
qed

theorem chunks_partition_witness:
  "\<exists>rows. collect_chunks length (with_keys (Chunks_new [1, 5, 6] 2)) = Some rows \<and> concat (map snd rows) = [1, 5, 6]"
  using chunks_partition [of "[1, 5, 6]" length 2] by auto

text \<open>C20: Reading the state at an earlier block gives the account and the storage as they were after that block,
  for every history that the index and the change sets record and every block that is not the last of a
  chunk of the index.\<close>

theorem historical_read_exact:
  assumes "account_history_ok T a h t" "storage_history_ok T a k g t" "n \<le> t"
    "\<And>bs. ((a, n), bs) \<notin> set (tb_account_history T)" "\<And>bs. (((a, k), n), bs) \<notin> set (tb_storage_history T)"
  shows "account_read T a (Some n) = h n \<and> storage_read T a k (Some n) = g n"
proof
  have A: "index_ok (tb_account_history T)" "dups_ok (tb_account_change_set T b)" "tb_account T a = h t"
    "history_ok (index_blocks (tb_account_history T) a) (\<lambda>b. map_of (tb_account_change_set T b) a) h t" for b
    using assms(1) by (auto simp: account_history_ok_def)
  note r = read_in_history [OF A(1,4) assms(3,4)]
  show "account_read T a (Some n) = h n"
    using r A(3) seek_entry [OF A(2)]
    by (cases "find_next_block (tb_account_history T) a n") (simp_all add: account_read_def seek_both_range_def)
  have S: "index_ok (tb_storage_history T)" "dups_ok (tb_storage_change_set T (b, a))" "table_storage T a k = g t"
    "history_ok (index_blocks (tb_storage_history T) (a, k)) (\<lambda>b. map_of (tb_storage_change_set T (b, a)) k) g t" for b
    using assms(2) by (auto simp: storage_history_ok_def)
  note r = read_in_history [OF S(1,4) assms(3,5)]
  show "storage_read T a k (Some n) = g n"
    using r S(3) seek_entry [OF S(2)]
    by (cases "find_next_block (tb_storage_history T) (a, k) n") (simp_all add: storage_read_def seek_both_range_def)
qed

definition account_numbered :: "u64 \<Rightarrow> Account" where
  "account_numbered n = \<lparr>acc_nonce = n, acc_balance = 0, acc_code_hash = EMPTY_HASH\<rparr>"

text \<open>An account that blocks 1, 2 and 3 change, with an index in two chunks.\<close>

definition numbered_history :: "u64 \<Rightarrow> Account option" where
  "numbered_history n = (if n = 0 then None else Some (account_numbered (min n 3)))"

definition numbered_tables :: Tables where
  "numbered_tables = \<lparr>tb_account = [7 \<mapsto> account_numbered 3], tb_storage = \<lambda>_. [], tb_code = Map.empty,
     tb_account_history = [((7, 2), [1, 2]), ((7, - 1), [3])], tb_storage_history = [],
     tb_account_change_set = (\<lambda>_. [])(1 := [(7, None)], 2 := [(7, Some (account_numbered 1))], 3 := [(7, Some (account_numbered 2))]),
     tb_storage_change_set = \<lambda>_. [], tb_log = Map.empty, tb_header = \<lambda>_ _. None, tb_body = \<lambda>_ _. None,
     tb_total_difficulty = \<lambda>_ _. None\<rparr>"

lemma u64_le_3: "(b :: u64) \<le> 3 \<longleftrightarrow> b = 0 \<or> b = 1 \<or> b = 2 \<or> b = 3"
proof
  assume "b \<le> 3"
  then have "unat b \<le> 3" by (simp add: word_le_nat_alt)
  then have "unat b = 0 \<or> unat b = 1 \<or> unat b = 2 \<or> unat b = 3" by auto
  then show "b = 0 \<or> b = 1 \<or> b = 2 \<or> b = 3"
    by (simp add: word_unat_eq_iff)
qed auto

lemma numbered_history_ok: "account_history_ok numbered_tables 7 numbered_history 3"
proof -
  have "index_blocks [((7, 2), [1, 2]), ((7, - 1), [3])] (7 :: address) = {1, 2, 3}"
    by auto
  moreover have "index_ok [((7 :: address, 2), [1, 2]), ((7, - 1), [3])]"
    by (auto simp: index_ok_def dups_ok_def bitmap_ok_def)
  ultimately show ?thesis
    by (auto simp: account_history_ok_def numbered_tables_def history_ok_def dups_ok_def numbered_history_def u64_le_3)
qed

theorem historical_read_exact_witness:
  "account_read numbered_tables 7 (Some 1) = Some (account_numbered 1) \<and> storage_read numbered_tables 7 5 (Some 1) = 0"
proof -
  have "storage_history_ok numbered_tables 7 5 (\<lambda>_. 0) 3"
    by (simp add: storage_history_ok_def numbered_tables_def index_ok_def dups_ok_def history_ok_def table_storage_def
        seek_storage_key_def seek_both_range_def seek_def)
  then show ?thesis
    using historical_read_exact [OF numbered_history_ok, of 5 "\<lambda>_. 0" 1]
    by (simp add: numbered_tables_def numbered_history_def min_def word_le_nat_alt)
qed

text \<open>C40: At the last block of a chunk of the index the historical read is wrong: for every history that the
  index and the change sets record, reading an account, or a slot of storage, at a block under which a chunk
  is stored gives the present value, that after the last block, whatever changes came between.\<close>

theorem history_boundary_misread:
  assumes "account_history_ok T a h t" "storage_history_ok T a k g t"
  shows "(\<forall>bs. ((a, n), bs) \<in> set (tb_account_history T) \<longrightarrow> account_read T a (Some n) = h t)
    \<and> (\<forall>bs. (((a, k), n), bs) \<in> set (tb_storage_history T) \<longrightarrow> storage_read T a k (Some n) = g t)"
proof (intro conjI allI impI)
  fix bs assume "((a, n), bs) \<in> set (tb_account_history T)"
  then have "find_next_block (tb_account_history T) a n = None"
    using assms(1) by (auto simp: account_history_ok_def find_next_block_exact)
  then show "account_read T a (Some n) = h t" using assms(1) by (simp add: account_read_def account_history_ok_def)
next
  fix bs assume "(((a, k), n), bs) \<in> set (tb_storage_history T)"
  then have "find_next_block (tb_storage_history T) (a, k) n = None"
    using assms(2) by (auto simp: storage_history_ok_def find_next_block_exact)
  then show "storage_read T a k (Some n) = g t" using assms(2) by (simp add: storage_read_def storage_history_ok_def)
qed

theorem history_boundary_misread_witness:
  "numbered_history 2 = Some (account_numbered 2) \<and> account_read numbered_tables 7 (Some 2) = Some (account_numbered 3)"
proof -
  have "storage_history_ok numbered_tables 7 5 (\<lambda>_. 0) 3"
    by (simp add: storage_history_ok_def numbered_tables_def index_ok_def dups_ok_def history_ok_def table_storage_def
        seek_storage_key_def seek_both_range_def seek_def)
  from history_boundary_misread [OF numbered_history_ok this, of 2]
  show ?thesis by (simp add: numbered_tables_def numbered_history_def min_def word_le_nat_alt)
qed

end
