(* ===== verification/Etl.thy ===== *)
theory Etl
  imports TableCodec "HOL-Library.Multiset"
begin

text \<open>
  External sorting, \<open>src/etl/collector.rs\<close> and \<open>src/etl/data_provider.rs\<close>: entries are collected in a
  buffer, full buffers are sorted and written to temporary files, and the files are merged through a
  heap.

  An entry is a pair of byte strings, ordered as the derived \<open>Ord\<close> orders it: by key, then by value.
  A file is the bytes left to read in it; creating and writing one succeeds. Lengths are written as
  the eight bytes of a \<open>usize\<close>.
\<close>

section \<open>Files of entries\<close>

type_synonym Entry = "byte list \<times> byte list"

record DataProvider =
  dp_file :: "byte list"
  dp_len :: nat

definition write_entry :: "Entry \<Rightarrow> byte list" where
  "write_entry e = u64_to_be_bytes (of_nat (length (fst e))) @ u64_to_be_bytes (of_nat (length (snd e))) @ fst e @ snd e"

definition DataProvider_new :: "Entry list \<Rightarrow> DataProvider" where
  "DataProvider_new buffer = \<lparr>dp_file = concat (map write_entry buffer), dp_len = length buffer\<rparr>"

text \<open>\<open>Read::read_exact\<close>: an error at the end of the file.\<close>

definition read_bytes :: "nat \<Rightarrow> byte list \<Rightarrow> unit + (byte list \<times> byte list)" where
  "read_bytes n file = (if n \<le> length file then Inr (take n file, drop n file) else Inl ())"

definition to_next :: "DataProvider \<Rightarrow> (unit + (Entry \<times> DataProvider) option)" where
  "to_next p =
     (if dp_len p = 0 then Inr None
      else case read_bytes 8 (dp_file p) of Inl e \<Rightarrow> Inl e | Inr (key_length, file) \<Rightarrow>
        (case read_bytes 8 file of Inl e \<Rightarrow> Inl e | Inr (value_length, file) \<Rightarrow>
          (case read_bytes (unat (from_be_bytes key_length)) file of Inl e \<Rightarrow> Inl e | Inr (key, file) \<Rightarrow>
            (case read_bytes (unat (from_be_bytes value_length)) file of Inl e \<Rightarrow> Inl e | Inr (v, file) \<Rightarrow>
              Inr (Some ((key, v), \<lparr>dp_file = file, dp_len = dp_len p - 1\<rparr>))))))"

section \<open>The collector\<close>

record Collector =
  co_buffer_size :: nat
  co_data_providers :: "DataProvider list"
  co_buffer_capacity :: nat
  co_buffer :: "Entry list"

definition OPTIMAL_BUFFER_CAPACITY :: nat where "OPTIMAL_BUFFER_CAPACITY = 512000000"

definition Collector_new :: "nat \<Rightarrow> Collector" where
  "Collector_new buffer_capacity =
     \<lparr>co_buffer_size = 0, co_data_providers = [], co_buffer_capacity = buffer_capacity, co_buffer = []\<rparr>"

definition collector_flush :: "Collector \<Rightarrow> Collector" where
  "collector_flush c = c\<lparr>co_buffer_size := 0,
     co_data_providers := co_data_providers c @ [DataProvider_new (sort (co_buffer c))], co_buffer := []\<rparr>"

definition collector_push :: "Entry \<Rightarrow> Collector \<Rightarrow> Collector" where
  "collector_push e c =
     (let c = c\<lparr>co_buffer_size := co_buffer_size c + length (fst e) + length (snd e), co_buffer := co_buffer c @ [e]\<rparr>
      in if co_buffer_size c > co_buffer_capacity c then collector_flush c else c)"

text \<open>
  The merge. The heap is the increasing list of its items, an entry with the number of the file it
  comes from. The result is the list of entries that the iterator yields and how it ends.
\<close>

fun anchor :: "nat \<Rightarrow> DataProvider list \<Rightarrow> unit + ((Entry \<times> nat) list \<times> DataProvider list)" where
  "anchor i [] = Inr ([], [])"
| "anchor i (p # ps) = (case to_next p of
       Inl e \<Rightarrow> Inl e
     | Inr next_entry \<Rightarrow> (case anchor (i + 1) ps of
           Inl e \<Rightarrow> Inl e
         | Inr (heap, ps) \<Rightarrow> (case next_entry of
               Some (entry, p) \<Rightarrow> Inr (insort (entry, i) heap, p # ps)
             | None \<Rightarrow> Inr (heap, p # ps))))"

lemma to_next_shrinks: "to_next p = Inr (Some (e, q)) \<Longrightarrow> Suc (dp_len q) = dp_len p"
  by (auto simp: to_next_def split: if_splits sum.splits prod.splits)

lemma sum_list_shrinks:
  "i < length ps \<Longrightarrow> Suc (f q) = f (ps ! i) \<Longrightarrow> Suc (sum_list (map f (ps[i := q]))) = sum_list (map f ps)" for f :: "'a \<Rightarrow> nat"
  by (induction ps arbitrary: i) (auto split: nat.splits)

function merge_loop :: "DataProvider list \<Rightarrow> (Entry \<times> nat) list \<Rightarrow> (Entry list \<times> (unit + unit)) option" where
  "merge_loop ps [] = Some ([], Inr ())"
| "merge_loop ps ((entry, i) # heap) =
     (if i < length ps then
        (case to_next (ps ! i) of
           Inl e \<Rightarrow> Some ([entry], Inl e)
         | Inr None \<Rightarrow> map_option (\<lambda>(es, r). (entry # es, r)) (merge_loop ps heap)
         | Inr (Some (next_entry, p)) \<Rightarrow>
             map_option (\<lambda>(es, r). (entry # es, r)) (merge_loop (ps[i := p]) (insort (next_entry, i) heap)))
      else None)"
  by pat_completeness auto
termination
  by (relation "measure (\<lambda>(ps, heap). sum_list (map dp_len ps) + length heap)")
    (auto dest!: to_next_shrinks sum_list_shrinks [where f = dp_len])

definition collector_iter :: "Collector \<Rightarrow> (Entry list \<times> (unit + unit)) option" where
  "collector_iter c =
     (if co_data_providers c = [] then Some (sort (co_buffer c), Inr ())
      else
        let c = (if co_buffer_size c \<noteq> 0 then collector_flush c else c)
        in case anchor 0 (co_data_providers c) of
             Inl e \<Rightarrow> Some ([], Inl e)
           | Inr (heap, ps) \<Rightarrow> merge_loop ps heap)"

text \<open>\<open>TableCollector::load\<close>: the entries are put into a table one by one.\<close>

definition collector_load :: "(Entry \<Rightarrow> 't \<Rightarrow> 't) \<Rightarrow> Collector \<Rightarrow> 't \<Rightarrow> (unit + 't) option" where
  "collector_load put c t = do {
     (entries, r) \<leftarrow> collector_iter c;
     Some (case r of Inl e \<Rightarrow> Inl e | Inr _ \<Rightarrow> Inr (fold put entries t)) }"

section \<open>Reading back what was written\<close>

definition entry_ok :: "Entry \<Rightarrow> bool" where
  "entry_ok e \<longleftrightarrow> length (fst e) < 2 ^ 64 \<and> length (snd e) < 2 ^ 64"

definition holds_entries :: "DataProvider \<Rightarrow> Entry list \<Rightarrow> bool" where
  "holds_entries p es \<longleftrightarrow> dp_file p = concat (map write_entry es) \<and> dp_len p = length es \<and> (\<forall>e \<in> set es. entry_ok e)"

lemma read_bytes_append: "length a = n \<Longrightarrow> read_bytes n (a @ b) = Inr (a, b)"
  by (simp add: read_bytes_def)

lemma length_field_bytes:
  "n < 2 ^ 64 \<Longrightarrow> unat (from_be_bytes (u64_to_be_bytes (of_nat n))) = n"
  by (simp add: u64_be_value unat_ucast_up unat_of_nat)

lemma to_next_holds:
  "holds_entries p [] \<Longrightarrow> to_next p = Inr None"
  "holds_entries p (e # es) \<Longrightarrow> \<exists>q. to_next p = Inr (Some (e, q)) \<and> holds_entries q es"
proof -
  show "holds_entries p [] \<Longrightarrow> to_next p = Inr None" by (simp add: holds_entries_def to_next_def)
  assume p: "holds_entries p (e # es)"
  then have ok: "length (fst e) < 2 ^ 64" "length (snd e) < 2 ^ 64" by (auto simp: holds_entries_def entry_ok_def)
  have "to_next p = Inr (Some (e, \<lparr>dp_file = concat (map write_entry es), dp_len = length es\<rparr>))"
    using p length_field_bytes [OF ok(1)] length_field_bytes [OF ok(2)]
    by (simp add: holds_entries_def to_next_def write_entry_def read_bytes_append u64_be_value(1))
  then show "\<exists>q. to_next p = Inr (Some (e, q)) \<and> holds_entries q es" using p by (simp add: holds_entries_def)
qed

lemma holds_new: "\<forall>e \<in> set es. entry_ok e \<Longrightarrow> holds_entries (DataProvider_new es) es"
  by (simp add: holds_entries_def DataProvider_new_def)

section \<open>The merge sorts\<close>

text \<open>
  Every file that is not used up has an item in the heap that is not above what the file still holds:
  then the least item of the heap is the least entry of all.
\<close>

definition merge_ok :: "DataProvider list \<Rightarrow> Entry list list \<Rightarrow> (Entry \<times> nat) list \<Rightarrow> bool" where
  "merge_ok ps ss heap \<longleftrightarrow> list_all2 holds_entries ps ss \<and> (\<forall>s \<in> set ss. sorted s) \<and> sorted heap
     \<and> (\<forall>(e, i) \<in> set heap. i < length ps)
     \<and> (\<forall>i < length ss. ss ! i \<noteq> [] \<longrightarrow> (\<exists>e. (e, i) \<in> set heap \<and> (\<forall>x \<in> set (ss ! i). e \<le> x)))"

definition merge_rest :: "Entry list list \<Rightarrow> (Entry \<times> nat) list \<Rightarrow> Entry multiset" where
  "merge_rest ss heap = mset (map fst heap) + mset (concat ss)"

lemma insort_mset [simp]: "mset (map fst (insort x heap)) = add_mset (fst x) (mset (map fst heap))"
  by (induction heap) auto

lemma mset_concat_update:
  "i < length ss \<Longrightarrow> ss ! i = x # t \<Longrightarrow> add_mset x (mset (concat (ss[i := t]))) = mset (concat ss)"
  by (induction ss arbitrary: i) (auto split: nat.splits)

lemma fst_mono: "(x :: 'a::linorder \<times> 'b::linorder) \<le> y \<Longrightarrow> fst x \<le> fst y"
  by (auto simp: less_eq_prod_def)

lemma merge_least:
  assumes "merge_ok ps ss ((e, i) # heap)" "x \<in># merge_rest ss ((e, i) # heap)"
  shows "e \<le> x"
proof -
  have "\<forall>y \<in> set heap. (e, i) \<le> y" using assms(1) by (simp add: merge_ok_def)
  then have h: "e \<le> fst y" if "y \<in> set ((e, i) # heap)" for y
    using that fst_mono [of "(e, i)" y] by auto
  consider "x \<in> fst ` set ((e, i) # heap)" | "x \<in> set (concat ss)" using assms(2) by (auto simp: merge_rest_def)
  then show ?thesis
  proof cases
    case 2
    then obtain s where "s \<in> set ss" "x \<in> set s" by auto
    then obtain j where j: "j < length ss" "x \<in> set (ss ! j)" by (auto simp: in_set_conv_nth [of s])
    then have "ss ! j \<noteq> []" by auto
    then obtain f where f: "(f, j) \<in> set ((e, i) # heap)" "f \<le> x" using assms(1) j unfolding merge_ok_def by blast
    then show ?thesis using h [OF f(1)] by simp
  qed (use h in blast)
qed

lemma merge_first:
  assumes "merge_ok ps ss ((e, i) # heap)" "add_mset e (mset es) = merge_rest ss ((e, i) # heap)" "sorted es"
  shows "sorted (e # es)"
  using merge_least [OF assms(1)] assms(3) unfolding assms(2) [symmetric] by simp

lemma merge_ok_exhausted:
  assumes "merge_ok ps ss ((e, i) # heap)" "ss ! i = []"
  shows "merge_ok ps ss heap"
proof -
  have "\<exists>f. (f, j) \<in> set heap \<and> (\<forall>x \<in> set (ss ! j). f \<le> x)" if j: "j < length ss" "ss ! j \<noteq> []" for j
  proof -
    obtain f where "(f, j) \<in> set ((e, i) # heap)" "\<forall>x \<in> set (ss ! j). f \<le> x"
      using assms(1) j unfolding merge_ok_def by blast
    then show ?thesis using assms(2) j(2) by (metis prod.inject set_ConsD)
  qed
  then show ?thesis using assms(1) unfolding merge_ok_def by auto
qed

lemma merge_ok_step:
  assumes "merge_ok ps ss ((e, i) # heap)" "ss ! i = f # t" "holds_entries q t" "i < length ss"
  shows "merge_ok (ps[i := q]) (ss[i := t]) (insort (f, i) heap)"
proof -
  have sorted: "sorted (f # t)" using assms(1,2) nth_mem [OF assms(4)] by (metis merge_ok_def)
  have all: "\<forall>s \<in> set (ss[i := t]). sorted s"
    using sorted assms(1) set_update_subset_insert [of ss i t] by (auto simp: merge_ok_def)
  have rep: "\<exists>g. (g, j) \<in> set (insort (f, i) heap) \<and> (\<forall>x \<in> set (ss[i := t] ! j). g \<le> x)"
    if j: "j < length ss" "ss[i := t] ! j \<noteq> []" for j
  proof (cases "j = i")
    case True
    then show ?thesis using sorted assms(4) by (intro exI [of _ f]) (simp add: set_insort_key)
  next
    case False
    then obtain g where "(g, j) \<in> set ((e, i) # heap)" "\<forall>x \<in> set (ss ! j). g \<le> x"
      using assms(1) j unfolding merge_ok_def by (metis nth_list_update_neq)
    then show ?thesis using False by (intro exI [of _ g]) (simp add: set_insort_key)
  qed
  have "list_all2 holds_entries (ps[i := q]) (ss[i := t])"
    using assms by (intro list_all2_update_cong) (auto simp: merge_ok_def)
  moreover have "sorted (insort (f, i) heap)" using assms(1) by (simp add: merge_ok_def sorted_insort)
  moreover have "\<forall>(g, j) \<in> set (insort (f, i) heap). j < length (ps[i := q])"
    using assms(1) by (auto simp: merge_ok_def set_insort_key)
  ultimately show ?thesis using all rep unfolding merge_ok_def by simp
qed

lemma merge_loop_sorts:
  "merge_ok ps ss heap \<Longrightarrow>
     \<exists>es. merge_loop ps heap = Some (es, Inr ()) \<and> sorted es \<and> mset es = merge_rest ss heap"
proof (induction ps heap arbitrary: ss rule: merge_loop.induct)
  case (1 ps)
  then have "concat ss = []" by (auto simp: merge_ok_def in_set_conv_nth)
  then show ?case by (simp add: merge_rest_def)
next
  case (2 ps e i heap)
  note ok = 2(3)
  have i: "i < length ps" "length ss = length ps" "holds_entries (ps ! i) (ss ! i)"
    using ok by (auto simp: merge_ok_def list_all2_conv_all_nth)
  show ?case
  proof (cases "ss ! i")
    case Nil
    then have n: "to_next (ps ! i) = Inr None" using i(3) to_next_holds(1) by simp
    obtain es where es: "merge_loop ps heap = Some (es, Inr ())" "sorted es" "mset es = merge_rest ss heap"
      using 2(1) [OF i(1) n refl] merge_ok_exhausted [OF ok Nil] by blast
    have rest: "add_mset e (mset es) = merge_rest ss ((e, i) # heap)" by (simp add: es(3) merge_rest_def)
    then show ?thesis using n i(1) es(1) merge_first [OF ok rest es(2)] by simp
  next
    case (Cons f t)
    then obtain q where q: "to_next (ps ! i) = Inr (Some (f, q))" "holds_entries q t"
      using to_next_holds(2) i(3) by metis
    obtain es where es: "merge_loop (ps[i := q]) (insort (f, i) heap) = Some (es, Inr ())" "sorted es"
      "mset es = merge_rest (ss[i := t]) (insort (f, i) heap)"
      using 2(2) [OF i(1) q(1) refl refl] merge_ok_step [OF ok Cons q(2)] i by auto
    have rest: "add_mset e (mset es) = merge_rest ss ((e, i) # heap)"
      using mset_concat_update [of i ss f t] i Cons by (simp add: es(3) merge_rest_def)
    then show ?thesis using q i(1) es(1) merge_first [OF ok rest es(2)] by simp
  qed
qed

lemma anchor_heap:
  assumes "list_all2 holds_entries ps ss"
  shows "\<exists>heap qs. anchor i ps = Inr (heap, qs) \<and> list_all2 holds_entries qs (map tl ss) \<and> sorted heap
    \<and> (\<forall>(e, j) \<in> set heap. i \<le> j \<and> j < i + length ps)
    \<and> (\<forall>k < length ss. ss ! k \<noteq> [] \<longrightarrow> (hd (ss ! k), i + k) \<in> set heap)
    \<and> merge_rest (map tl ss) heap = mset (concat ss)"
  using assms
proof (induction ps ss arbitrary: i rule: list_all2_induct)
  case Nil
  then show ?case by (simp add: merge_rest_def)
next
  case (Cons p ps s ss)
  obtain heap qs where IH: "anchor (i + 1) ps = Inr (heap, qs)" "list_all2 holds_entries qs (map tl ss)" "sorted heap"
    "\<forall>(e, j) \<in> set heap. i + 1 \<le> j \<and> j < i + 1 + length ps"
    "\<forall>k < length ss. ss ! k \<noteq> [] \<longrightarrow> (hd (ss ! k), i + 1 + k) \<in> set heap"
    "merge_rest (map tl ss) heap = mset (concat ss)"
    using Cons.IH [of "i + 1"] by blast
  show ?case
  proof (cases s)
    case Nil
    then have "to_next p = Inr None" using Cons.hyps(1) to_next_holds(1) by simp
    moreover have "(hd ((s # ss) ! k), i + k) \<in> set heap" if "k < length (s # ss)" "(s # ss) ! k \<noteq> []" for k
      using that IH(5) Nil by (cases k) auto
    ultimately show ?thesis using IH Nil Cons.hyps(1) by (intro exI [of _ heap] exI [of _ "p # qs"]) (auto simp: merge_rest_def)
  next
    case (Cons f t)
    then obtain q where q: "to_next p = Inr (Some (f, q))" "holds_entries q t"
      using Cons.hyps(1) to_next_holds(2) \<open>holds_entries p s\<close> by metis
    have k: "(hd ((s # ss) ! k), i + k) \<in> set (insort (f, i) heap)" if "k < length (s # ss)" "(s # ss) ! k \<noteq> []" for k
      using that IH(5) Cons by (cases k) (auto simp: set_insort_key)
    have ids: "\<forall>(e, j) \<in> set (insort (f, i) heap). i \<le> j \<and> j < i + length (p # ps)"
      using IH(4) by (auto simp: set_insort_key)
    have rest: "merge_rest (map tl (s # ss)) (insort (f, i) heap) = mset (concat (s # ss))"
      using IH(6) Cons by (simp add: merge_rest_def)
    show ?thesis
      using q IH(1-3) Cons k ids rest by (intro exI [of _ "insort (f, i) heap"] exI [of _ "q # qs"]) (simp add: sorted_insort)
  qed
qed

lemma merge_sorts:
  assumes "list_all2 holds_entries ps ss" "\<forall>s \<in> set ss. sorted s"
  shows "(case anchor 0 ps of Inl e \<Rightarrow> Some ([], Inl e) | Inr (heap, ps) \<Rightarrow> merge_loop ps heap) = Some (sort (concat ss), Inr ())"
proof -
  obtain heap qs where a: "anchor 0 ps = Inr (heap, qs)" "list_all2 holds_entries qs (map tl ss)" "sorted heap"
    "\<forall>(e, j) \<in> set heap. j < length ps" "\<forall>k < length ss. ss ! k \<noteq> [] \<longrightarrow> (hd (ss ! k), k) \<in> set heap"
    "merge_rest (map tl ss) heap = mset (concat ss)"
    using anchor_heap [OF assms(1), of 0] by auto
  have len: "length qs = length ps" using a(2) assms(1) by (simp add: list_all2_lengthD)
  have "\<exists>e. (e, k) \<in> set heap \<and> (\<forall>x \<in> set (map tl ss ! k). e \<le> x)" if k: "k < length ss" "map tl ss ! k \<noteq> []" for k
  proof -
    have "sorted (ss ! k)" "ss ! k \<noteq> []" using assms(2) k by auto
    moreover have "(hd (ss ! k), k) \<in> set heap" using a(5) k(1) calculation(2) by blast
    ultimately show ?thesis using k(1) by (intro exI [of _ "hd (ss ! k)"]) (cases "ss ! k"; simp)
  qed
  moreover have "\<forall>s \<in> set (map tl ss). sorted s" using assms(2) by (auto intro: sorted_tl)
  ultimately have "merge_ok qs (map tl ss) heap" using a(2,3,4) len by (simp add: merge_ok_def)
  then obtain es where es: "merge_loop qs heap = Some (es, Inr ())" "sorted es" "mset es = mset (concat ss)"
    using merge_loop_sorts a(6) by metis
  have "sort (concat ss) = es" using es(2,3) by (intro properties_for_sort)
  then show ?thesis using a(1) es(1) by simp
qed

definition collector_holds :: "Collector \<Rightarrow> Entry list \<Rightarrow> bool" where
  "collector_holds c es \<longleftrightarrow> (\<exists>ss. list_all2 holds_entries (co_data_providers c) ss \<and> (\<forall>s \<in> set ss. sorted s)
     \<and> mset es = mset (concat ss) + mset (co_buffer c))
     \<and> co_buffer_size c = sum_list (map (\<lambda>e. length (fst e) + length (snd e)) (co_buffer c))
     \<and> (\<forall>e \<in> set es. entry_ok e)"

lemma flush_holds:
  assumes "collector_holds c es" shows "collector_holds (collector_flush c) es"
proof -
  obtain ss where ss: "list_all2 holds_entries (co_data_providers c) ss" "\<forall>s \<in> set ss. sorted s"
    "mset es = mset (concat ss) + mset (co_buffer c)" "\<forall>e \<in> set es. entry_ok e"
    using assms by (auto simp: collector_holds_def)
  have "set (co_buffer c) \<subseteq> set es" using ss(3) by (metis set_mset_mset set_mset_union sup_ge2)
  then have "holds_entries (DataProvider_new (sort (co_buffer c))) (sort (co_buffer c))"
    using ss(4) by (intro holds_new) auto
  then show ?thesis using ss unfolding collector_holds_def collector_flush_def
    by (intro conjI exI [of _ "ss @ [sort (co_buffer c)]"]) (auto intro: list_all2_appendI)
qed

lemma push_holds:
  assumes "collector_holds c es" "entry_ok e" shows "collector_holds (collector_push e c) (es @ [e])"
proof -
  have "collector_holds (c\<lparr>co_buffer_size := co_buffer_size c + length (fst e) + length (snd e), co_buffer := co_buffer c @ [e]\<rparr>) (es @ [e])"
    using assms by (auto simp: collector_holds_def)
  then show ?thesis using flush_holds by (simp add: collector_push_def Let_def)
qed

lemma pushes_hold:
  assumes "\<forall>e \<in> set es. entry_ok e"
  shows "collector_holds (fold collector_push es (Collector_new cap)) es"
  using assms
proof (induction es rule: rev_induct)
  case Nil
  then show ?case by (simp add: collector_holds_def Collector_new_def)
next
  case (snoc e es)
  then show ?case using push_holds by simp
qed

section \<open>Properties\<close>

lemma collector_sorted:
  assumes "\<forall>e \<in> set es. length (fst e) < 2 ^ 64 \<and> length (snd e) < 2 ^ 64 \<and> e \<noteq> ([], [])"
  shows "collector_iter (fold collector_push es (Collector_new cap)) = Some (sort es, Inr ())"
proof -
  define c where "c = fold collector_push es (Collector_new cap)"
  have h: "collector_holds c es" using assms pushes_hold [of es cap] by (auto simp: c_def entry_ok_def)
  show ?thesis
  proof (cases "co_data_providers c = []")
    case True
    then have "mset es = mset (co_buffer c)" using h by (auto simp: collector_holds_def)
    then have "sort es = sort (co_buffer c)" by (metis mset_sort properties_for_sort sorted_sort)
    then show ?thesis using True by (simp add: collector_iter_def flip: c_def)
  next
    case False
    define d where "d = (if co_buffer_size c \<noteq> 0 then collector_flush c else c)"
    have "co_buffer c = []" if z: "co_buffer_size c = 0"
    proof (rule ccontr)
      assume "co_buffer c \<noteq> []"
      then obtain e where e: "e \<in> set (co_buffer c)" by (cases "co_buffer c") auto
      have "set (co_buffer c) \<subseteq> set es"
        using h unfolding collector_holds_def by (metis set_mset_mset set_mset_union sup_ge2)
      then have "e \<noteq> ([], [])" using assms e by auto
      moreover have "length (fst e) + length (snd e) = 0"
        using h z e by (auto simp: collector_holds_def)
      ultimately show False by (cases e) simp
    qed
    then have d: "collector_holds d es" "co_buffer d = []"
      using h flush_holds by (auto simp: d_def collector_flush_def)
    then obtain ss where ss: "list_all2 holds_entries (co_data_providers d) ss" "\<forall>s \<in> set ss. sorted s" "mset es = mset (concat ss)"
      by (auto simp: collector_holds_def)
    have "sort (concat ss) = sort es" using ss(3) by (metis mset_sort properties_for_sort sorted_sort)
    then show ?thesis using merge_sorts [OF ss(1,2)] False by (simp add: collector_iter_def Let_def d_def flip: c_def)
  qed
qed

text \<open>C21: Collecting entries and iterating over them sorts: whatever the capacity of the buffer, and so however many
  files were written, the iterator ends without an error and yields the entries in their order. Entries are
  at most as long as a file can say, and none is empty.\<close>

theorem collector_sorts:
  assumes "\<forall>e \<in> set es. length (fst e) < 2 ^ 64 \<and> length (snd e) < 2 ^ 64 \<and> e \<noteq> ([], [])"
  shows "collector_iter (fold collector_push es (Collector_new cap)) = Some (sort es, Inr ())"
  using assms by (rule collector_sorted)

theorem collector_sorts_witness:
  "collector_iter (fold collector_push [([2], [9]), ([1], [8]), ([1], [7])] (Collector_new 1))
     = Some ([([1], [7]), ([1], [8]), ([2], [9])], Inr ())"
  using collector_sorts [of "[([2], [9]), ([1], [8]), ([1], [7])]" 1] by simp

end
