(* ===== verification/StageTables.thy ===== *)
theory StageTables
  imports BitmapDb Etl
begin

text \<open>
  The tables that the stages of the synchronization work on, with the cursor operations of
  \<open>src/kv/mdbx.rs\<close> that they use, and the inputs and outputs of a stage (\<open>src/stagedsync/stage.rs\<close>,
  \<open>src/stagedsync/stages.rs\<close>).

  A table is the list of its rows in the order of their keys; where a key has duplicates, its rows are in
  the order of these. The database orders bytes, and \<open>TableCodec\<close> shows that the bytes of the keys are
  ordered as the keys are.
\<close>

section \<open>Cursors\<close>

type_synonym ('k, 'v) rows = "('k \<times> 'v) list"

definition seek_exact :: "('k, 'v) rows \<Rightarrow> 'k \<Rightarrow> 'v option" where
  "seek_exact rows k = map_of rows k"

definition row_delete :: "'k \<Rightarrow> ('k, 'v) rows \<Rightarrow> ('k, 'v) rows" where
  "row_delete k rows = filter (\<lambda>r. fst r \<noteq> k) rows"

definition row_put :: "'k::linorder \<Rightarrow> 'v \<Rightarrow> ('k, 'v) rows \<Rightarrow> ('k, 'v) rows" where
  "row_put k v rows = insort_key fst (k, v) (row_delete k rows)"

definition last_row :: "('k, 'v) rows \<Rightarrow> ('k \<times> 'v) option" where
  "last_row rows = (if rows = [] then None else Some (last rows))"

text \<open>Appending fails unless the key is above every key of the table.\<close>

definition row_append :: "'k::linorder \<Rightarrow> 'v \<Rightarrow> ('k, 'v) rows \<Rightarrow> unit + ('k, 'v) rows" where
  "row_append k v rows = (case last_row rows of
       Some (l, _) \<Rightarrow> if l < k then Inr (rows @ [(k, v)]) else Inl ()
     | None \<Rightarrow> Inr [(k, v)])"

definition walk :: "('k::linorder, 'v) rows \<Rightarrow> 'k option \<Rightarrow> ('k \<times> 'v) list" where
  "walk rows start_key = (case start_key of Some k \<Rightarrow> dropWhile (\<lambda>(l, _). l < k) rows | None \<Rightarrow> rows)"

definition walk_back :: "('k, 'v) rows \<Rightarrow> ('k \<times> 'v) list" where
  "walk_back rows = rev rows"

text \<open>
  \<open>while let Some((k, _)) = cursor.last()? { if k > unwind_to { cursor.delete_current()? } else { break } }\<close>.
\<close>

function unwind_last :: "('k \<Rightarrow> bool) \<Rightarrow> ('k, 'v) rows \<Rightarrow> ('k, 'v) rows" where
  "unwind_last beyond rows =
     (case last_row rows of
        Some (k, _) \<Rightarrow> if beyond k then unwind_last beyond (butlast rows) else rows
      | None \<Rightarrow> rows)"
  by pat_completeness auto
termination
  by (relation "measure (\<lambda>(_, rows). length rows)") (auto simp: last_row_def split: if_splits)

declare unwind_last.simps [simp del]

section \<open>The tables of the stages\<close>

record BodyForStorage =
  bs_base_tx_id :: u64
  bs_tx_amount :: u64
  bs_uncles :: "BlockHeader list"

record StageDb =
  sd_account :: "(address, Account) rows"
  sd_storage :: "address \<Rightarrow> (u256, u256) rows"
  sd_account_change_set :: "(u64, address \<times> Account option) rows"
  sd_storage_change_set :: "(u64 \<times> address, u256 \<times> u256) rows"
  sd_hashed_account :: "(h256, Account) rows"
  sd_hashed_storage :: "h256 \<Rightarrow> (h256, u256) rows"
  sd_log :: "(u64 \<times> u64, Log list) rows"
  sd_call_trace_set :: "(u64, CallTraceSetEntry) rows"
  sd_call_from_index :: "address index_rows"
  sd_call_to_index :: "address index_rows"
  sd_canonical_header :: "(u64, h256) rows"
  sd_header :: "u64 \<times> h256 \<Rightarrow> BlockHeader option"
  sd_body :: "(u64 \<times> h256, BodyForStorage) rows"
  sd_total_gas :: "(u64, u64) rows"
  sd_total_tx :: "(u64, u64) rows"
  sd_header_number :: "(h256, u64) rows"
  sd_tx_sender :: "(u64 \<times> h256, address list) rows"
  sd_trie_account :: "(byte list, byte list) rows"
  sd_trie_storage :: "(byte list, byte list) rows"
  sd_sync_stage :: "string \<Rightarrow> u64 option"

section \<open>Stages\<close>

record StageInput =
  si_restarted :: bool
  si_first_started_at :: "u64 option"
  si_previous_stage :: "(string \<times> u64) option"
  si_stage_progress :: "u64 option"

record UnwindInput =
  ui_stage_progress :: u64
  ui_unwind_to :: u64

datatype ExecOutput =
    ExecUnwind u64
  | ExecProgress u64 bool

section \<open>Rows\<close>

lemma row_delete_ok:
  "dups_ok rows \<Longrightarrow> dups_ok (row_delete k rows)" "map_of (row_delete k rows) = (map_of rows)(k := None)"
proof -
  show "dups_ok rows \<Longrightarrow> dups_ok (row_delete k rows)"
    by (auto simp: dups_ok_def row_delete_def distinct_map sorted_filter intro: inj_on_subset)
  show "map_of (row_delete k rows) = (map_of rows)(k := None)"
    unfolding row_delete_def by (induction rows) (auto simp: fun_eq_iff)
qed

lemma row_put_ok:
  assumes "dups_ok rows"
  shows "dups_ok (row_put k v rows)" "map_of (row_put k v rows) = (map_of rows)(k \<mapsto> v)"
  using insort_dups [of "row_delete k rows" k v] row_delete_ok(1) [of rows k] row_delete_ok(2) [of k rows] assms by (simp_all add: row_put_def)

lemma unwind_last_sorted:
  assumes "sorted (map fst rows)" "\<And>k l. beyond k \<Longrightarrow> k \<le> l \<Longrightarrow> beyond l"
  shows "unwind_last beyond rows = filter (\<lambda>r. \<not> beyond (fst r)) rows"
  using assms(1)
proof (induction rows rule: rev_induct)
  case Nil
  then show ?case by (subst unwind_last.simps) (simp add: last_row_def)
next
  case (snoc r rows)
  have "filter (\<lambda>r. \<not> beyond (fst r)) rows = rows" if "\<not> beyond (fst r)"
    using snoc.prems that assms(2) by (auto simp: filter_id_conv sorted_append)
  then show ?case
    using snoc by (subst unwind_last.simps) (auto simp: last_row_def sorted_append split: prod.splits)
qed

lemma walk_sorted:
  "sorted (map fst rows) \<Longrightarrow> walk rows (Some k) = filter (\<lambda>r. k \<le> fst r) rows"
proof (induction rows)
  case (Cons r rows)
  have "filter (\<lambda>r. k \<le> fst r) rows = rows" if "k \<le> fst r"
    using Cons.prems that by (auto simp: filter_id_conv)
  then show ?case using Cons by (auto simp: walk_def not_less split: prod.splits)
qed (simp add: walk_def)

lemma takeWhile_back:
  assumes "sorted (map fst rows)" "\<And>k l. beyond k \<Longrightarrow> k \<le> l \<Longrightarrow> beyond l"
  shows "takeWhile (\<lambda>r. beyond (fst r)) (walk_back rows) = rev (filter (\<lambda>r. beyond (fst r)) rows)"
  using assms(1)
proof (induction rows)
  case (Cons r rows)
  show ?case
  proof (cases "\<forall>s \<in> set rows. beyond (fst s)")
    case True
    then show ?thesis by (auto simp: walk_back_def takeWhile_append)
  next
    case False
    then have "\<not> beyond (fst r)" using assms(2) Cons.prems by auto
    then show ?thesis using Cons False by (auto simp: walk_back_def takeWhile_append)
  qed
qed (simp add: walk_back_def)

end
