(* ===== verification/StageState.thy ===== *)
theory StageState
  imports StageTables Buffer
begin

text \<open>
  The stages that undo and hash the state: the unwinding of the stage \<open>Execution\<close>
  (\<open>src/stages/execution.rs\<close>) and the stage \<open>HashState\<close> (\<open>src/stages/hashstate.rs\<close>, with
  \<open>should_do_clean_promotion\<close> of \<open>src/stages/stage_util.rs\<close> and \<open>upsert_hashed_storage_value\<close> of
  \<open>src/state/database.rs\<close>).
\<close>

section \<open>Unwinding the execution\<close>

text \<open>One account change, undone. Where the account did not exist, the code deletes the row that \<open>seek\<close> finds.\<close>

definition undo_account_row :: "address \<times> Account option \<Rightarrow> (address, Account) rows \<Rightarrow> (address, Account) rows" where
  "undo_account_row c accounts = (case snd c of
       Some account \<Rightarrow> row_put (fst c) account accounts
     | None \<Rightarrow> (case seek accounts (fst c) of Some (found, _) \<Rightarrow> row_delete found accounts | None \<Rightarrow> accounts))"

function unwind_account_changes ::
  "u64 \<Rightarrow> (address, Account) rows \<times> (u64, address \<times> Account option) rows
   \<Rightarrow> (address, Account) rows \<times> (u64, address \<times> Account option) rows" where
  "unwind_account_changes unwind_to (accounts, change_set) =
     (case last_row change_set of
        Some (n, c) \<Rightarrow>
          if n \<le> unwind_to then (accounts, change_set)
          else unwind_account_changes unwind_to (undo_account_row c accounts, butlast change_set)
      | None \<Rightarrow> (accounts, change_set))"
  by pat_completeness auto
termination
  by (relation "measure (\<lambda>(_, _, cs). length cs)") (auto simp: last_row_def split: if_splits)

declare unwind_account_changes.simps [simp del]

definition undo_storage_row ::
  "(u64 \<times> address) \<times> u256 \<times> u256 \<Rightarrow> (address \<Rightarrow> (u256, u256) rows) \<Rightarrow> address \<Rightarrow> (u256, u256) rows" where
  "undo_storage_row r st = (case r of ((n, a), location, v) \<Rightarrow> st(a := upsert_storage_value (st a) location v))"

function unwind_storage_changes ::
  "u64 \<Rightarrow> (address \<Rightarrow> (u256, u256) rows) \<times> (u64 \<times> address, u256 \<times> u256) rows
   \<Rightarrow> (address \<Rightarrow> (u256, u256) rows) \<times> (u64 \<times> address, u256 \<times> u256) rows" where
  "unwind_storage_changes unwind_to (st, change_set) =
     (case last_row change_set of
        Some r \<Rightarrow>
          if fst (fst r) \<le> unwind_to then (st, change_set)
          else unwind_storage_changes unwind_to (undo_storage_row r st, butlast change_set)
      | None \<Rightarrow> (st, change_set))"
  by pat_completeness auto
termination
  by (relation "measure (\<lambda>(_, _, cs). length cs)") (auto simp: last_row_def split: if_splits)

declare unwind_storage_changes.simps [simp del]

text \<open>\<open>delete_current_duplicates\<close> removes every call trace of the last block at once.\<close>

function unwind_call_trace_set :: "u64 \<Rightarrow> (u64, 'v) rows \<Rightarrow> (u64, 'v) rows" where
  "unwind_call_trace_set unwind_to rows =
     (case last_row rows of
        Some (n, _) \<Rightarrow> if n \<le> unwind_to then rows else unwind_call_trace_set unwind_to (row_delete n rows)
      | None \<Rightarrow> rows)"
  by pat_completeness auto
termination
proof (relation "measure (\<lambda>(_, rows). length rows)")
  fix to_block n :: u64 and rows :: "(u64, 'v) rows" and r v
  assume "last_row rows = Some r" "(n, v) = r"
  then have "(n, v) \<in> set rows" by (auto simp: last_row_def split: if_splits) (metis last_in_set)
  then show "((to_block, row_delete n rows), (to_block, rows)) \<in> measure (\<lambda>(_, rows). length rows)"
    unfolding row_delete_def by (auto intro: length_filter_less)
qed simp

declare unwind_call_trace_set.simps [simp del]

definition execution_unwind :: "StageDb \<Rightarrow> UnwindInput \<Rightarrow> StageDb \<times> u64" where
  "execution_unwind d input =
     (let n = ui_unwind_to input;
          (accounts, account_changes) = unwind_account_changes n (sd_account d, sd_account_change_set d);
          (st, storage_changes) = unwind_storage_changes n (sd_storage d, sd_storage_change_set d)
      in (d\<lparr>sd_account := accounts, sd_account_change_set := account_changes,
            sd_storage := st, sd_storage_change_set := storage_changes,
            sd_log := unwind_last (\<lambda>k. fst k > n) (sd_log d),
            sd_call_trace_set := unwind_call_trace_set n (sd_call_trace_set d)\<rparr>, n))"

section \<open>What the loops do\<close>

lemma unwind_account_changes_foldr:
  assumes "sorted (map fst cs)"
  shows "unwind_account_changes n (accounts, cs)
    = (foldr (\<lambda>r. undo_account_row (snd r)) (filter (\<lambda>r. n < fst r) cs) accounts, filter (\<lambda>r. fst r \<le> n) cs)"
  using assms
proof (induction cs arbitrary: accounts rule: rev_induct)
  case Nil
  then show ?case by (subst unwind_account_changes.simps) (simp add: last_row_def)
next
  case (snoc r cs)
  show ?case
  proof (cases "fst r \<le> n")
    case True
    then have "\<forall>s \<in> set cs. fst s \<le> n" using snoc.prems by (auto simp: sorted_append)
    then have "filter (\<lambda>r. fst r \<le> n) cs = cs" "filter (\<lambda>r. n < fst r) cs = []" by (auto simp: filter_empty_conv)
    then show ?thesis using True by (subst unwind_account_changes.simps) (auto simp: last_row_def not_less dest: leD split: prod.splits)
  next
    case False
    then show ?thesis using snoc
      by (subst unwind_account_changes.simps) (auto simp: last_row_def sorted_append not_le split: prod.splits)
  qed
qed

lemma unwind_storage_changes_foldr:
  assumes "sorted (map fst cs)"
  shows "unwind_storage_changes n (st, cs)
    = (foldr undo_storage_row (filter (\<lambda>r. n < fst (fst r)) cs) st, filter (\<lambda>r. fst (fst r) \<le> n) cs)"
  using assms
proof (induction cs arbitrary: st rule: rev_induct)
  case Nil
  then show ?case by (subst unwind_storage_changes.simps) (simp add: last_row_def)
next
  case (snoc r cs)
  show ?case
  proof (cases "fst (fst r) \<le> n")
    case True
    have "fst (fst s) \<le> n" if "s \<in> set cs" for s
      using snoc.prems that True fst_mono [of "fst s" "fst r"] by (auto simp: sorted_append)
    then have "filter (\<lambda>r. fst (fst r) \<le> n) cs = cs" "filter (\<lambda>r. n < fst (fst r)) cs = []"
      by (auto simp: filter_empty_conv not_less filter_id_conv)
    then show ?thesis using True by (subst unwind_storage_changes.simps) (auto simp: last_row_def not_less dest: leD)
  next
    case False
    then show ?thesis using snoc by (subst unwind_storage_changes.simps) (auto simp: last_row_def sorted_append not_le)
  qed
qed

lemma unwind_call_trace_set_sorted:
  assumes "sorted (map fst rows)"
  shows "unwind_call_trace_set n rows = filter (\<lambda>r. fst r \<le> n) rows"
  using assms
proof (induction n rows rule: unwind_call_trace_set.induct)
  case (1 n rows)
  show ?case
  proof (cases "last_row rows")
    case None
    then show ?thesis by (subst unwind_call_trace_set.simps) (auto simp: last_row_def split: if_splits)
  next
    case (Some r)
    obtain m v where r: "r = (m, v)" by fastforce
    show ?thesis
    proof (cases "m \<le> n")
      case True
      obtain front where front: "rows = front @ [(m, v)]"
        using Some r by (auto simp: last_row_def split: if_splits) (metis append_butlast_last_id)
      then have "filter (\<lambda>r. fst r \<le> n) rows = rows" using 1(2) True by (auto simp: filter_id_conv sorted_append)
      then show ?thesis using Some True r by (subst unwind_call_trace_set.simps) simp
    next
      case False
      have s: "sorted (map fst (row_delete m rows))" using 1(2) by (simp add: row_delete_def sorted_filter)
      have "unwind_call_trace_set n rows = filter (\<lambda>r. fst r \<le> n) (row_delete m rows)"
        using 1(1) [OF Some r [symmetric] False s] Some r False by (subst unwind_call_trace_set.simps) simp
      also have "\<dots> = filter (\<lambda>r. fst r \<le> n) rows" unfolding row_delete_def filter_filter using False by (intro filter_cong) auto
      finally show ?thesis .
    qed
  qed
qed

text \<open>
  Undoing rows from the last to the first leaves, for every key, what its first row holds. For accounts this
  needs that a row without an account finds one to delete.
\<close>

definition overridden :: "('k \<times> 'v option) list \<Rightarrow> ('k \<rightharpoonup> 'v) \<Rightarrow> 'k \<rightharpoonup> 'v" where
  "overridden cs m k = (case map_of cs k of Some v \<Rightarrow> v | None \<Rightarrow> m k)"

lemma overridden_simps [simp]:
  "overridden [] m = m"
  "overridden ((k, v) # cs) m = (overridden cs m)(k := v)"
  by (auto simp: overridden_def fun_eq_iff)

fun deletes_exist :: "('k \<times> 'v option) list \<Rightarrow> ('k \<rightharpoonup> 'v) \<Rightarrow> bool" where
  "deletes_exist [] m \<longleftrightarrow> True"
| "deletes_exist ((k, v) # cs) m \<longleftrightarrow> deletes_exist cs m \<and> (v = None \<longrightarrow> overridden cs m k \<noteq> None)"

lemma undo_account_rows:
  assumes "dups_ok accounts" "deletes_exist (map snd rows) (map_of accounts)"
  shows "dups_ok (foldr (\<lambda>r. undo_account_row (snd r)) rows accounts)
    \<and> map_of (foldr (\<lambda>r. undo_account_row (snd r)) rows accounts) = overridden (map snd rows) (map_of accounts)"
  using assms(2)
proof (induction rows)
  case Nil
  then show ?case using assms(1) by simp
next
  case (Cons r rows)
  obtain n a acc where r: "r = (n, a, acc)" by (metis prod.exhaust)
  define after where "after = foldr (\<lambda>r. undo_account_row (snd r)) rows accounts"
  have IH: "dups_ok after" "map_of after = overridden (map snd rows) (map_of accounts)"
    using Cons by (auto simp: r after_def)
  have step: "foldr (\<lambda>r. undo_account_row (snd r)) (r # rows) accounts = undo_account_row (a, acc) after"
    by (simp add: r after_def)
  show ?case
  proof (cases acc)
    case None
    then obtain v where "map_of after a = Some v" using Cons.prems IH(2) by (auto simp: r)
    then have "undo_account_row (a, acc) after = row_delete a after"
      using None seek_entry [OF IH(1), of a v] by (simp add: undo_account_row_def)
    then show ?thesis
      unfolding step using IH row_delete_ok(1) [OF IH(1), of a] None by (simp add: r row_delete_ok(2))
  next
    case (Some c)
    then have "undo_account_row (a, acc) after = row_put a c after" by (simp add: undo_account_row_def)
    then show ?thesis unfolding step using IH row_put_ok [OF IH(1), of a c] Some by (simp add: r)
  qed
qed

lemma undo_storage_rows:
  assumes "\<And>a. dups_ok (st a)"
  shows "(\<forall>a. dups_ok (foldr undo_storage_row rows st a))
    \<and> (\<forall>a. map_of (foldr undo_storage_row rows st a)
       = (\<lambda>l. overridden (map (\<lambda>((n, a), l, v). ((a, l), if v = 0 then None else Some v)) rows) (\<lambda>(a, l). map_of (st a) l) (a, l)))"
proof (induction rows)
  case Nil
  then show ?case using assms by simp
next
  case (Cons r rows)
  obtain n a l v where r: "r = ((n, a), l, v)" by (metis prod.exhaust)
  define after where "after = foldr undo_storage_row rows st"
  have d: "dups_ok (after b)" for b using Cons by (simp add: after_def)
  have step: "foldr undo_storage_row (r # rows) st = after(a := upsert_storage_value (after a) l v)"
    by (simp add: r after_def undo_storage_row_def)
  show ?case
    unfolding step using Cons d upsert_storage_value_ok [OF d [of a], of l v]
    by (auto simp: r fun_eq_iff simp flip: after_def)
qed

section \<open>Change sets that record a history\<close>

text \<open>
  A list of changes in the order of their blocks, at most one for a key in a block, records the history
  \<open>h\<close>: a change holds the value before its block, and in a block without a change the value stays.
\<close>

definition change_blocks :: "(u64 \<times> 'k \<times> 'v) list \<Rightarrow> 'k \<Rightarrow> u64 set" where
  "change_blocks rows k = {b. \<exists>v. (b, k, v) \<in> set rows}"

definition change_at :: "(u64 \<times> 'k \<times> 'v) list \<Rightarrow> 'k \<Rightarrow> u64 \<Rightarrow> 'v option" where
  "change_at rows k b = map_of (map (\<lambda>(b, k, v). ((b, k), v)) rows) (b, k)"

definition records_history :: "(u64 \<times> 'k \<times> 'v option) list \<Rightarrow> (u64 \<Rightarrow> 'k \<rightharpoonup> 'v) \<Rightarrow> u64 \<Rightarrow> bool" where
  "records_history rows h t \<longleftrightarrow> sorted (map fst rows) \<and> distinct (map (\<lambda>(b, k, _). (b, k)) rows)
     \<and> (\<forall>k. history_ok (change_blocks rows k) (change_at rows k) (\<lambda>n. h n k) t)"

lemma change_simps [simp]:
  "change_blocks [] k = {}"
  "change_blocks ((b, l, v) # rows) k = (if l = k then {b} else {}) \<union> change_blocks rows k"
  "change_at ((c, l, v) # rows) k b = (if c = b \<and> l = k then Some v else change_at rows k b)"
  by (auto simp: change_blocks_def change_at_def)

lemma first_change:
  assumes "sorted (map fst rows)"
  shows "map_of (map snd (filter (\<lambda>r. n < fst r) rows)) k =
    (if {b \<in> change_blocks rows k. n < b} = {} then None else change_at rows k (Min {b \<in> change_blocks rows k. n < b}))"
  using assms
proof (induction rows)
  case (Cons r rows)
  obtain b l v where r: "r = (b, l, v)" by (metis prod.exhaust)
  define S where "S = {b \<in> change_blocks rows k. n < b}"
  have IH: "map_of (map snd (filter (\<lambda>r. n < fst r) rows)) k = (if S = {} then None else change_at rows k (Min S))"
    unfolding S_def by (rule Cons.IH) (use Cons.prems in simp)
  have fin: "finite S" by (rule finite_subset [OF subset_UNIV finite])
  show ?case
  proof (cases "n < b")
    case False
    then have S: "{c \<in> change_blocks (r # rows) k. n < c} = S" by (auto simp: r S_def)
    have "Min S \<noteq> b" if "S \<noteq> {}" using Min_in [OF fin that] False by (auto simp: S_def)
    then show ?thesis unfolding S using False IH by (auto simp: r)
  next
    case True
    show ?thesis
    proof (cases "l = k")
      case True
      have S: "{c \<in> change_blocks (r # rows) k. n < c} = insert b S" using \<open>n < b\<close> True by (auto simp: r S_def)
      have "b \<le> c" if "c \<in> S" for c using that Cons.prems by (force simp: r S_def change_blocks_def)
      then have "Min (insert b S) = b" using fin by (intro Min_eqI) auto
      then show ?thesis unfolding S using \<open>n < b\<close> True by (simp add: r)
    next
      case False
      then have "{c \<in> change_blocks (r # rows) k. n < c} = S" by (auto simp: r S_def)
      then show ?thesis using \<open>n < b\<close> False IH by (simp add: r)
    qed
  qed
qed simp

lemma overridden_history:
  assumes "records_history rows h t" "n \<le> t"
  shows "overridden (map snd (filter (\<lambda>r. n < fst r) rows)) (h t) = h n"
proof
  fix k
  have "history_ok (change_blocks rows k) (change_at rows k) (\<lambda>n. h n k) t" "sorted (map fst rows)"
    using assms(1) by (auto simp: records_history_def)
  then show "overridden (map snd (filter (\<lambda>r. n < fst r) rows)) (h t) k = h n k"
    using history_read [OF _ assms(2), of "change_blocks rows k" "change_at rows k" "\<lambda>n. h n k"]
    by (auto simp: overridden_def first_change)
qed

lemma map_of_filter_key:
  "(\<And>r. r \<in> set rows \<Longrightarrow> fst (snd r) = k \<Longrightarrow> P r) \<Longrightarrow> map_of (map snd (filter P rows)) k = map_of (map snd rows) k"
  by (induction rows) auto

lemma suffix_overridden:
  assumes "records_history rows h t" "rows = pre @ (b, k, v) # suf" "b \<le> t"
  shows "overridden (map snd suf) (h t) k = h b k"
proof -
  have rec: "sorted (map fst rows)" "distinct (map (\<lambda>(b, k, _). (b, k)) rows)"
    using assms(1) by (auto simp: records_history_def)
  have "filter (\<lambda>r. b < fst r) rows = filter (\<lambda>r. b < fst r) suf"
    using rec(1) unfolding assms(2) by (auto simp: sorted_append filter_empty_conv not_less)
  moreover have "map_of (map snd (filter (\<lambda>r. b < fst r) suf)) k = map_of (map snd suf) k"
  proof (rule map_of_filter_key)
    fix r assume r: "r \<in> set suf" "fst (snd r) = k"
    have "b \<le> fst r" using rec(1) r(1) unfolding assms(2) by (auto simp: sorted_append)
    moreover have "(b, k) \<notin> (\<lambda>(b, k, _). (b, k)) ` set suf" using rec(2) unfolding assms(2) by simp
    then have "b \<noteq> fst r" using r by (cases r) force
    ultimately show "b < fst r" by simp
  qed
  ultimately have "overridden (map snd suf) (h t) k = overridden (map snd (filter (\<lambda>r. b < fst r) rows)) (h t) k"
    by (simp add: overridden_def)
  then show ?thesis using overridden_history [OF assms(1,3)] by simp
qed

lemma history_deletes_exist:
  assumes "records_history rows h t" "rows = pre @ suf" "\<And>b k v. (b, k, v) \<in> set suf \<Longrightarrow> b \<le> t"
    "\<And>b k. (b, k, None) \<in> set suf \<Longrightarrow> h b k \<noteq> None"
  shows "deletes_exist (map snd suf) (h t)"
  using assms(2-4)
proof (induction suf arbitrary: pre)
  case (Cons r suf)
  obtain b k v where r: "r = (b, k, v)" by (metis prod.exhaust)
  have "deletes_exist (map snd suf) (h t)" using Cons.prems by (intro Cons.IH [of "pre @ [r]"]) auto
  moreover have "overridden (map snd suf) (h t) k = h b k"
    using suffix_overridden [OF assms(1), of pre b k v suf] Cons.prems(1) Cons.prems(2) [of b k v] r by simp
  ultimately show ?case using Cons.prems(3) [of b k] r by auto
qed simp

definition slot_change :: "(u64 \<times> address) \<times> u256 \<times> u256 \<Rightarrow> u64 \<times> (address \<times> u256) \<times> u256 option" where
  "slot_change r = (case r of ((n, a), l, v) \<Rightarrow> (n, (a, l), if v = 0 then None else Some v))"

text \<open>The tables hold the state after block \<open>t\<close> and record the history of accounts and slots.\<close>

definition state_recorded ::
  "StageDb \<Rightarrow> (u64 \<Rightarrow> address \<rightharpoonup> Account) \<Rightarrow> (u64 \<Rightarrow> address \<times> u256 \<rightharpoonup> u256) \<Rightarrow> u64 \<Rightarrow> bool" where
  "state_recorded d h g t \<longleftrightarrow> dups_ok (sd_account d) \<and> (\<forall>a. dups_ok (sd_storage d a))
     \<and> map_of (sd_account d) = h t \<and> (\<forall>a l. map_of (sd_storage d a) l = g t (a, l))
     \<and> records_history (sd_account_change_set d) h t
     \<and> sorted (map fst (sd_storage_change_set d)) \<and> records_history (map slot_change (sd_storage_change_set d)) g t
     \<and> sorted (map fst (sd_log d)) \<and> sorted (map fst (sd_call_trace_set d))"

lemma records_history_block: "records_history rows h t \<Longrightarrow> (b, k, v) \<in> set rows \<Longrightarrow> b \<le> t"
  by (auto simp: records_history_def history_ok_def change_blocks_def)

lemma filter_suffix: "sorted (map fst rows) \<Longrightarrow> rows = filter (\<lambda>r. fst r \<le> n) rows @ filter (\<lambda>r. n < fst r) rows"
proof (induction rows)
  case (Cons r rows)
  have "filter (\<lambda>r. fst r \<le> n) rows = []" if "n < fst r"
    using Cons.prems that by (auto simp: filter_empty_conv not_le intro: less_le_trans)
  then show ?case using Cons by (cases "n < fst r") (auto simp: not_less dest: leD)
qed simp

lemma unwound_accounts:
  assumes "state_recorded d h g t" "n \<le> t"
    "\<And>b a. (b, a, None) \<in> set (sd_account_change_set d) \<Longrightarrow> n < b \<Longrightarrow> h b a \<noteq> None"
  shows "\<exists>accounts. unwind_account_changes n (sd_account d, sd_account_change_set d)
      = (accounts, filter (\<lambda>r. fst r \<le> n) (sd_account_change_set d)) \<and> dups_ok accounts \<and> map_of accounts = h n"
proof -
  let ?cs = "sd_account_change_set d"
  have d: "dups_ok (sd_account d)" "map_of (sd_account d) = h t" "records_history ?cs h t" "sorted (map fst ?cs)"
    using assms(1) by (auto simp: state_recorded_def records_history_def)
  have "deletes_exist (map snd (filter (\<lambda>r. n < fst r) ?cs)) (h t)"
    using assms(3) records_history_block [OF d(3)]
    by (intro history_deletes_exist [OF d(3) filter_suffix [OF d(4), of n]]) auto
  then show ?thesis
    using undo_account_rows [OF d(1), of "filter (\<lambda>r. n < fst r) ?cs"] overridden_history [OF d(3) assms(2)] d(2)
    by (simp add: unwind_account_changes_foldr [OF d(4)])
qed

lemma slot_changes_after:
  "map snd (filter (\<lambda>r. n < fst r) (map slot_change rows))
     = map (\<lambda>((n, a), l, v). ((a, l), if v = 0 then None else Some v)) (filter (\<lambda>r. n < fst (fst r)) rows)"
  by (induction rows) (auto simp: slot_change_def)

lemma unwound_storage:
  assumes "state_recorded d h g t" "n \<le> t"
  shows "\<exists>st. unwind_storage_changes n (sd_storage d, sd_storage_change_set d)
      = (st, filter (\<lambda>r. fst (fst r) \<le> n) (sd_storage_change_set d)) \<and> (\<forall>a. dups_ok (st a))
      \<and> (\<forall>a l. map_of (st a) l = g n (a, l))"
proof -
  let ?cs = "sd_storage_change_set d"
  have d: "\<And>a. dups_ok (sd_storage d a)" "\<And>a l. map_of (sd_storage d a) l = g t (a, l)"
    "records_history (map slot_change ?cs) g t" "sorted (map fst ?cs)"
    using assms(1) by (auto simp: state_recorded_def)
  have "(\<lambda>(a, l). map_of (sd_storage d a) l) = g t" using d(2) by (auto simp: fun_eq_iff)
  then show ?thesis
    using undo_storage_rows [of "sd_storage d" "filter (\<lambda>r. n < fst (fst r)) ?cs"] d(1)
      overridden_history [OF d(3) assms(2)] unfolding slot_changes_after
    by (simp add: unwind_storage_changes_foldr [OF d(4)])
qed

section \<open>Properties of unwinding\<close>

lemma execution_unwound:
  assumes "state_recorded d h g t" "ui_unwind_to input \<le> t"
    "\<And>b a. (b, a, None) \<in> set (sd_account_change_set d) \<Longrightarrow> ui_unwind_to input < b \<Longrightarrow> h b a \<noteq> None"
  shows "\<exists>d'. execution_unwind d input = (d', ui_unwind_to input)
    \<and> map_of (sd_account d') = h (ui_unwind_to input)
    \<and> (\<forall>a l. map_of (sd_storage d' a) l = g (ui_unwind_to input) (a, l))
    \<and> sd_account_change_set d' = filter (\<lambda>r. fst r \<le> ui_unwind_to input) (sd_account_change_set d)
    \<and> sd_storage_change_set d' = filter (\<lambda>r. fst (fst r) \<le> ui_unwind_to input) (sd_storage_change_set d)
    \<and> sd_log d' = filter (\<lambda>r. fst (fst r) \<le> ui_unwind_to input) (sd_log d)
    \<and> sd_call_trace_set d' = filter (\<lambda>r. fst r \<le> ui_unwind_to input) (sd_call_trace_set d)"
proof -
  let ?n = "ui_unwind_to input"
  have s: "sorted (map fst (sd_log d))" "sorted (map fst (sd_call_trace_set d))"
    using assms(1) by (auto simp: state_recorded_def)
  have log: "unwind_last (\<lambda>k. ?n < fst k) (sd_log d) = filter (\<lambda>r. fst (fst r) \<le> ?n) (sd_log d)"
    by (subst unwind_last_sorted [OF s(1)]) (auto simp: not_less dest: fst_mono less_le_trans)
  show ?thesis
    using unwound_accounts [OF assms] unwound_storage [OF assms(1,2)]
    by (auto simp: execution_unwind_def Let_def log unwind_call_trace_set_sorted [OF s(2)])
qed

text \<open>Unwinding the execution stage restores the state of an earlier block: accounts and storage are as they were
  after it, and change sets, logs and call traces end there, for every history that the change sets record in
  which no block leaves an account absent that it records as absent before.\<close>

theorem execution_unwind_restores:
  assumes "state_recorded d h g t" "ui_unwind_to input \<le> t"
    "\<And>b a. (b, a, None) \<in> set (sd_account_change_set d) \<Longrightarrow> ui_unwind_to input < b \<Longrightarrow> h b a \<noteq> None"
  shows "\<exists>d'. execution_unwind d input = (d', ui_unwind_to input)
    \<and> map_of (sd_account d') = h (ui_unwind_to input)
    \<and> (\<forall>a l. map_of (sd_storage d' a) l = g (ui_unwind_to input) (a, l))
    \<and> sd_account_change_set d' = filter (\<lambda>r. fst r \<le> ui_unwind_to input) (sd_account_change_set d)
    \<and> sd_storage_change_set d' = filter (\<lambda>r. fst (fst r) \<le> ui_unwind_to input) (sd_storage_change_set d)
    \<and> sd_log d' = filter (\<lambda>r. fst (fst r) \<le> ui_unwind_to input) (sd_log d)
    \<and> sd_call_trace_set d' = filter (\<lambda>r. fst r \<le> ui_unwind_to input) (sd_call_trace_set d)"
  by (rule execution_unwound [OF assms])

text \<open>A block 1 that creates the account 9, writes its slot 5 and touches the account 7, which stays absent.\<close>

definition unwind_sample :: "(u64, address \<times> Account option) rows \<Rightarrow> StageDb" where
  "unwind_sample changes = \<lparr>sd_account = [(9, account_numbered 1)], sd_storage = (\<lambda>_. [])(9 := [(5, 3)]),
     sd_account_change_set = changes, sd_storage_change_set = [((1, 9), 5, 0)],
     sd_hashed_account = [], sd_hashed_storage = \<lambda>_. [], sd_log = [((1, 0), [])], sd_call_trace_set = [],
     sd_call_from_index = [], sd_call_to_index = [], sd_canonical_header = [], sd_header = \<lambda>_. None, sd_body = [],
     sd_total_gas = [], sd_total_tx = [], sd_header_number = [], sd_tx_sender = [], sd_trie_account = [], sd_trie_storage = [],
     sd_sync_stage = Map.empty\<rparr>"

lemma word_eq_1: "(b :: u64) \<le> 1 \<longleftrightarrow> b = 0 \<or> b = 1"
  by (auto simp: word_le_nat_alt word_unat_eq_iff)

theorem execution_unwind_restores_witness:
  "\<exists>d. execution_unwind (unwind_sample [(1, 9, None)]) \<lparr>ui_stage_progress = 1, ui_unwind_to = 0\<rparr> = (d, 0)
     \<and> map_of (sd_account d) = Map.empty \<and> map_of (sd_storage d 9) 5 = None \<and> sd_log d = []"
proof -
  define h :: "u64 \<Rightarrow> address \<rightharpoonup> Account" where "h n = (if n = 0 then Map.empty else [9 \<mapsto> account_numbered 1])" for n
  define g :: "u64 \<Rightarrow> address \<times> u256 \<rightharpoonup> u256" where "g n = (if n = 0 then Map.empty else [(9, 5) \<mapsto> 3])" for n
  have "records_history [(1, 9, None)] h 1" "records_history [(1, (9, 5), None)] g 1"
    by (auto simp: records_history_def history_ok_def h_def g_def word_eq_1)
  then have "state_recorded (unwind_sample [(1, 9, None)]) h g 1"
    by (auto simp: state_recorded_def unwind_sample_def dups_ok_def h_def g_def slot_change_def)
  then show ?thesis
    using execution_unwind_restores [of "unwind_sample [(1, 9, None)]" h g 1 "\<lparr>ui_stage_progress = 1, ui_unwind_to = 0\<rparr>"]
    by (auto simp: h_def g_def unwind_sample_def)
qed

lemma seek_next:
  assumes "dups_ok rows" "map_of rows k = None" "map_of rows l = Some v" "k < l" "\<And>x. k < x \<Longrightarrow> x < l \<Longrightarrow> map_of rows x = None"
  shows "seek rows k = Some (l, v)"
  using assms
proof (induction rows)
  case (Cons r rows)
  obtain x w where r: "r = (x, w)" by fastforce
  have d: "dups_ok rows" "\<forall>(y, _) \<in> set rows. x < y" using Cons.prems(1) by (force simp: dups_ok_def r order_less_le)+
  show ?case
  proof (cases "k \<le> x")
    case True
    then have "k < x" using Cons.prems(2) by (auto simp: r order_less_le)
    moreover have "x \<le> l" using Cons.prems(3) d(2) by (auto simp: r dest!: map_of_SomeD split: if_splits)
    ultimately have "x = l" using Cons.prems(5) [of x] by (auto simp: r order_less_le)
    then show ?thesis using True Cons.prems(3) by (simp add: r seek_def)
  next
    case False
    have "map_of rows y = None" if "k < y" "y < l" for y using Cons.prems(5) [OF that] by (simp add: r split: if_splits)
    then have "seek rows k = Some (l, v)" using Cons d(1) False by (auto simp: r split: if_splits)
    then show ?thesis using False by (simp add: r seek_def)
  qed
qed simp

text \<open>C39: Unwinding can delete an account that has nothing to do with the block. The buffer records (from the first
  block it does not prune) an update of an account that was absent and stays absent (the block creates and destroys it) as absent before; and
  undoing that record deletes, when the account is absent from the table, the account that follows it
  there, whichever it is, and changes no other.\<close>

theorem unwind_deletes_other_account:
  assumes "dups_ok (sd_account d)" "sorted (map fst (sd_account_change_set d))"
    "filter (\<lambda>r. ui_unwind_to input < fst r) (sd_account_change_set d) = [(b, a, None)]"
    "map_of (sd_account d) a = None" "map_of (sd_account d) c = Some acc" "a < c"
    "\<And>x. a < x \<Longrightarrow> x < c \<Longrightarrow> map_of (sd_account d) x = None"
  shows "(bf_prune_from B \<le> bf_block_number B \<longrightarrow> (\<exists>m. bf_account_changes (buffer_update_account B a None None) (bf_block_number B) = Some m \<and> m a = Some None))
    \<and> map_of (sd_account (fst (execution_unwind d input))) = (map_of (sd_account d))(c := None)"
proof
  have "seek (sd_account d) a = Some (c, acc)" using assms(1,4-7) by (rule seek_next)
  then show "map_of (sd_account (fst (execution_unwind d input))) = (map_of (sd_account d))(c := None)"
    by (simp add: execution_unwind_def unwind_account_changes_foldr [OF assms(2)] assms(3) undo_account_row_def row_delete_ok(2) Let_def
        split: prod.split)
qed (simp add: buffer_update_account_def Let_def or_default_def)

theorem unwind_deletes_other_account_witness:
  "map_of (sd_account (fst (execution_unwind (unwind_sample [(1, 7, None)]) \<lparr>ui_stage_progress = 1, ui_unwind_to = 0\<rparr>))) 9 = None"
  using unwind_deletes_other_account [of "unwind_sample [(1, 7, None)]" "\<lparr>ui_stage_progress = 1, ui_unwind_to = 0\<rparr>" 1 7 9 "account_numbered 1"]
  by (simp add: unwind_sample_def dups_ok_def)

end
