(* ===== verification/HashState.thy ===== *)
theory HashState
  imports StageState
begin

text \<open>
  The stage that keeps the hashed copy of the state, \<open>src/stages/hashstate.rs\<close>, with
  \<open>should_do_clean_promotion\<close> of \<open>src/stages/stage_util.rs\<close> and \<open>upsert_hashed_storage_value\<close> of
  \<open>src/state/database.rs\<close>.

  The tables it loads from a collector are written as bytes and read through the decoders of their keys
  and values.
\<close>

section \<open>Hashed keys\<close>

definition hash_address :: "lib \<Rightarrow> address \<Rightarrow> h256" where
  "hash_address L a = keccak256 L (drop 12 (to_be_bytes (ucast a)))"

definition hash_location :: "lib \<Rightarrow> u256 \<Rightarrow> h256" where
  "hash_location L l = keccak256 L (to_be_bytes l)"

section \<open>Clean promotion\<close>

datatype StageError =
    NoCumulativeIndex u64
  | FaultyCumulativeIndex u64 u64
  | CannotBeFirstStage
  | CollectorError
  | AppendError

definition should_do_clean_promotion :: "StageDb \<Rightarrow> u64 \<Rightarrow> u64 \<Rightarrow> u64 \<Rightarrow> u64 \<Rightarrow> StageError + bool" where
  "should_do_clean_promotion d genesis past_progress max_block threshold =
     (case seek_exact (sd_total_gas d) past_progress of
        None \<Rightarrow> Inl (NoCumulativeIndex past_progress)
      | Some current_gas \<Rightarrow>
          (case seek_exact (sd_total_gas d) max_block of
             None \<Rightarrow> Inl (NoCumulativeIndex max_block)
           | Some max_gas \<Rightarrow>
               if max_gas < current_gas then Inl (FaultyCumulativeIndex max_gas current_gas)
               else Inr (past_progress = genesis \<or> max_gas - current_gas > threshold)))"

text \<open>Encoded entries, and the rows of a table that they are put into.\<close>

definition encoded_entry :: "('k \<Rightarrow> byte list option) \<Rightarrow> ('v \<Rightarrow> byte list option) \<Rightarrow> 'k \<times> 'v \<Rightarrow> Entry option" where
  "encoded_entry enc_k enc_v r = do { k \<leftarrow> enc_k (fst r); v \<leftarrow> enc_v (snd r); Some (k, v) }"

fun push_all :: "('k \<Rightarrow> byte list option) \<Rightarrow> ('v \<Rightarrow> byte list option) \<Rightarrow> ('k \<times> 'v) list \<Rightarrow> Collector \<Rightarrow> Collector option" where
  "push_all enc_k enc_v [] c = Some c"
| "push_all enc_k enc_v (r # rs) c = do { e \<leftarrow> encoded_entry enc_k enc_v r; push_all enc_k enc_v rs (collector_push e c) }"

definition put_encoded :: "(byte list \<Rightarrow> 'k decoded) \<Rightarrow> (byte list \<Rightarrow> 'v decoded) \<Rightarrow> ('k \<Rightarrow> 'v \<Rightarrow> 't \<Rightarrow> 't) \<Rightarrow> Entry \<Rightarrow> 't \<Rightarrow> 't" where
  "put_encoded dec_k dec_v put e t = (case (dec_k (fst e), dec_v (snd e)) of
       (Some (Inr k), Some (Inr v)) \<Rightarrow> put k v t
     | _ \<Rightarrow> t)"

definition promote_clean_accounts :: "lib \<Rightarrow> StageDb \<Rightarrow> (StageError + StageDb) option" where
  "promote_clean_accounts L d = do {
     c \<leftarrow> push_all encode_h256 encode_for_storage
            (map (\<lambda>(a, account). (hash_address L a, account)) (walk (sd_account d) None))
            (Collector_new OPTIMAL_BUFFER_CAPACITY);
     r \<leftarrow> collector_load (put_encoded decode_h256 decode_account row_put) c [];
     Some (case r of Inl _ \<Rightarrow> Inl CollectorError | Inr rows \<Rightarrow> Inr (d\<lparr>sd_hashed_account := rows\<rparr>)) }"

text \<open>The rows of the storage table, address by address.\<close>

definition storage_rows :: "(address \<Rightarrow> (u256, u256) rows) \<Rightarrow> (address \<times> u256 \<times> u256) list" where
  "storage_rows st = concat (map (\<lambda>a. map (\<lambda>p. (a, p)) (st a)) (sorted_list_of_set {a. st a \<noteq> []}))"

definition put_dup :: "'k \<Rightarrow> 'd::linorder \<times> 'v \<Rightarrow> ('k \<Rightarrow> ('d \<times> 'v) list) \<Rightarrow> 'k \<Rightarrow> ('d \<times> 'v) list" where
  "put_dup k p t = t(k := dup_upsert (t k) p)"

definition promote_clean_storage :: "lib \<Rightarrow> StageDb \<Rightarrow> (StageError + StageDb) option" where
  "promote_clean_storage L d = do {
     c \<leftarrow> push_all encode_h256 encode_slot
            (map (\<lambda>(a, l, v). (hash_address L a, hash_location L l, v)) (storage_rows (sd_storage d)))
            (Collector_new OPTIMAL_BUFFER_CAPACITY);
     r \<leftarrow> collector_load (put_encoded decode_h256 decode_slot put_dup) c (\<lambda>_. []);
     Some (case r of Inl _ \<Rightarrow> Inl CollectorError | Inr t \<Rightarrow> Inr (d\<lparr>sd_hashed_storage := t\<rparr>)) }"

section \<open>Incremental promotion\<close>

definition promote_account :: "lib \<Rightarrow> (address, Account) rows \<Rightarrow> address \<Rightarrow> (h256, Account) rows \<Rightarrow> (h256, Account) rows" where
  "promote_account L accounts a target = (case seek_exact accounts a of
       Some account \<Rightarrow> row_put (hash_address L a) account target
     | None \<Rightarrow> if seek_exact target (hash_address L a) \<noteq> None then row_delete (hash_address L a) target else target)"

definition promote_accounts :: "lib \<Rightarrow> StageDb \<Rightarrow> u64 \<Rightarrow> StageDb" where
  "promote_accounts L d stage_progress = d\<lparr>sd_hashed_account :=
     fold (\<lambda>(_, a, _). promote_account L (sd_account d) a) (walk (sd_account_change_set d) (Some (stage_progress + 1)))
       (sd_hashed_account d)\<rparr>"

definition upsert_hashed_storage_value :: "(h256, u256) rows \<Rightarrow> h256 \<Rightarrow> u256 \<Rightarrow> (h256, u256) rows" where
  "upsert_hashed_storage_value dups hashed_location v =
     (let dups = (case seek_both_range dups hashed_location of
            Some (l, old) \<Rightarrow> if l = hashed_location then remove1 (l, old) dups else dups
          | None \<Rightarrow> dups)
      in if v \<noteq> 0 then dup_upsert dups (hashed_location, v) else dups)"

definition promote_slot ::
  "lib \<Rightarrow> (address \<Rightarrow> (u256, u256) rows) \<Rightarrow> address \<Rightarrow> u256 \<Rightarrow> (h256 \<Rightarrow> (h256, u256) rows) \<Rightarrow> h256 \<Rightarrow> (h256, u256) rows" where
  "promote_slot L st a location target =
     (let v = (case seek_both_range (st a) location of
            Some (found_location, v) \<Rightarrow> if location = found_location then v else 0
          | None \<Rightarrow> 0)
      in target(hash_address L a := upsert_hashed_storage_value (target (hash_address L a)) (hash_location L location) v))"

definition promote_storage :: "lib \<Rightarrow> StageDb \<Rightarrow> u64 \<Rightarrow> StageDb" where
  "promote_storage L d stage_progress = d\<lparr>sd_hashed_storage :=
     fold (\<lambda>((_, a), location, _). promote_slot L (sd_storage d) a location)
       (walk (sd_storage_change_set d) (Some (stage_progress + 1, 0))) (sd_hashed_storage d)\<rparr>"

section \<open>The stage\<close>

definition hash_state_execute :: "lib \<Rightarrow> u64 \<Rightarrow> StageDb \<Rightarrow> StageInput \<Rightarrow> (StageError + ExecOutput \<times> StageDb) option" where
  "hash_state_execute L threshold d input =
     (let past_progress = (case si_stage_progress input of Some p \<Rightarrow> p | None \<Rightarrow> 0)
      in case si_previous_stage input of
           None \<Rightarrow> Some (Inl CannotBeFirstStage)
         | Some (_, max_block) \<Rightarrow> do {
             try_then (should_do_clean_promotion d 0 past_progress max_block threshold) (\<lambda>clean.
               if clean then do {
                 r \<leftarrow> promote_clean_accounts L d;
                 try_then r (\<lambda>d. do {
                   r \<leftarrow> promote_clean_storage L d;
                   try_then r (\<lambda>d. Some (Inr (ExecProgress max_block True, d))) }) }
               else Some (Inr (ExecProgress max_block True, promote_storage L (promote_accounts L d past_progress) past_progress))) })"

text \<open>The loops over the change sets backwards stop at the first block to keep.\<close>

definition unhash_account :: "lib \<Rightarrow> address \<times> Account option \<Rightarrow> (h256, Account) rows \<Rightarrow> (h256, Account) rows" where
  "unhash_account L c target = (case snd c of
       Some account \<Rightarrow> row_put (hash_address L (fst c)) account target
     | None \<Rightarrow> (case seek target (hash_address L (fst c)) of Some (found, _) \<Rightarrow> row_delete found target | None \<Rightarrow> target))"

definition hash_state_unwind :: "lib \<Rightarrow> StageDb \<Rightarrow> UnwindInput \<Rightarrow> StageDb \<times> u64" where
  "hash_state_unwind L d input =
     (let n = ui_unwind_to input
      in (d\<lparr>sd_hashed_account :=
              fold (\<lambda>(_, c). unhash_account L c) (takeWhile (\<lambda>(b, _). b > n) (walk_back (sd_account_change_set d))) (sd_hashed_account d),
            sd_hashed_storage :=
              fold (\<lambda>((_, a), l, v) t. t(hash_address L a := upsert_hashed_storage_value (t (hash_address L a)) (hash_location L l) v))
                (takeWhile (\<lambda>((b, _), _). b > n) (walk_back (sd_storage_change_set d))) (sd_hashed_storage d)\<rparr>, n))"

section \<open>The hashed copy of a state\<close>

text \<open>Keccak-256 is taken to have no collisions on addresses and on locations: an idealisation, since the node only
  relies on those that its state holds.\<close>

definition collision_free :: "lib \<Rightarrow> bool" where
  "collision_free L \<longleftrightarrow> inj (hash_address L) \<and> inj (hash_location L)"

definition hashed_accounts :: "lib \<Rightarrow> (address \<rightharpoonup> Account) \<Rightarrow> (h256, Account) rows \<Rightarrow> bool" where
  "hashed_accounts L m target \<longleftrightarrow> dups_ok target \<and> (\<forall>a. map_of target (hash_address L a) = m a)
     \<and> (\<forall>k. k \<notin> range (hash_address L) \<longrightarrow> map_of target k = None)"

definition hashed_slots :: "lib \<Rightarrow> (address \<times> u256 \<rightharpoonup> u256) \<Rightarrow> (h256 \<Rightarrow> (h256, u256) rows) \<Rightarrow> bool" where
  "hashed_slots L m target \<longleftrightarrow> (\<forall>k. dups_ok (target k))
     \<and> (\<forall>a l. map_of (target (hash_address L a)) (hash_location L l) = m (a, l))
     \<and> (\<forall>k i. k \<notin> range (hash_address L) \<or> i \<notin> range (hash_location L) \<longrightarrow> map_of (target k) i = None)"

lemma dups_ok_unique:
  assumes "dups_ok xs" "dups_ok ys" "map_of xs = map_of ys" shows "xs = ys"
proof -
  have "set xs = set ys"
    using assms by (auto simp: dups_ok_def) (metis map_of_SomeD map_of_is_SomeI)+
  moreover have "inj_on fst (set xs)" using assms(1) by (simp add: dups_ok_def distinct_map)
  ultimately show ?thesis using assms(1,2) unfolding dups_ok_def by (intro map_sorted_distinct_set_unique [of fst]) auto
qed

lemma hashed_accounts_unique:
  assumes "hashed_accounts L m s" "hashed_accounts L m t" shows "s = t"
proof (rule dups_ok_unique)
  show "dups_ok s" "dups_ok t" using assms by (auto simp: hashed_accounts_def)
  show "map_of s = map_of t"
  proof
    fix k show "map_of s k = map_of t k"
      using assms unfolding hashed_accounts_def by (cases "k \<in> range (hash_address L)") auto
  qed
qed

lemma hashed_slots_unique:
  assumes "hashed_slots L m s" "hashed_slots L m t" shows "s = t"
proof
  fix k
  show "s k = t k"
  proof (rule dups_ok_unique)
    show "dups_ok (s k)" "dups_ok (t k)" using assms by (auto simp: hashed_slots_def)
    show "map_of (s k) = map_of (t k)"
    proof
      fix i show "map_of (s k) i = map_of (t k) i"
        using assms unfolding hashed_slots_def
        by (cases "k \<in> range (hash_address L) \<and> i \<in> range (hash_location L)") auto
    qed
  qed
qed

section \<open>Incremental promotion keeps the copy\<close>

lemma promote_account_ok:
  assumes "dups_ok target"
  shows "dups_ok (promote_account L accounts a target)"
    "map_of (promote_account L accounts a target) = (map_of target)(hash_address L a := map_of accounts a)"
  using assms row_put_ok [OF assms] row_delete_ok(1) [OF assms]
  by (auto simp: promote_account_def seek_exact_def row_delete_ok(2) fun_eq_iff split: option.splits)

lemma promote_accounts_fold:
  assumes "collision_free L" "dups_ok target"
  shows "dups_ok (fold (\<lambda>(_, a, _). promote_account L accounts a) rows target)
    \<and> (\<forall>a. map_of (fold (\<lambda>(_, a, _). promote_account L accounts a) rows target) (hash_address L a)
         = (if a \<in> (fst \<circ> snd) ` set rows then map_of accounts a else map_of target (hash_address L a)))
    \<and> (\<forall>k. k \<notin> range (hash_address L) \<longrightarrow>
         map_of (fold (\<lambda>(_, a, _). promote_account L accounts a) rows target) k = map_of target k)"
  using assms(2)
proof (induction rows arbitrary: target)
  case (Cons r rows)
  obtain b a v where r: "r = (b, a, v)" by (metis prod.exhaust)
  note p = promote_account_ok [OF Cons.prems, of L accounts a]
  have eq: "hash_address L c = hash_address L a \<longleftrightarrow> c = a" for c using assms(1) by (auto simp: collision_free_def inj_eq)
  show ?case using Cons.IH [OF p(1)] by (auto simp: r p(2) eq)
qed simp

lemma block_after_iff:
  assumes "n < (m :: u64)" shows "n + 1 \<le> b \<longleftrightarrow> n < b"
proof -
  have "unat n + 1 < 2 ^ 64" using assms unsigned_less [where 'a = nat, of m] by (simp add: word_less_nat_alt)
  then have "unat (n + 1) = unat n + 1" by (simp add: unat_word_ariths)
  then show ?thesis by (auto simp: word_less_nat_alt word_le_nat_alt)
qed

lemma block_after: "n < (b :: u64) \<Longrightarrow> n + 1 \<le> b"
  by (simp add: block_after_iff)

lemma walked_changes:
  fixes past :: u64
  assumes "sorted (map fst rows)" "past < b" "(b, r) \<in> set rows"
  shows "(b, r) \<in> set (walk rows (Some (past + 1)))"
proof -
  have "past + 1 \<le> b" using assms(2) by (rule block_after)
  then show ?thesis using assms(3) by (auto simp: walk_sorted [OF assms(1)])
qed

lemma unchanged_since:
  assumes "records_history rows h t" "past \<le> t" "\<And>b v. (b, k, v) \<in> set rows \<Longrightarrow> \<not> past < b"
  shows "h past k = h t k"
proof -
  have "map_of (map snd (filter (\<lambda>r. past < fst r) rows)) k = None"
    using assms(3) by (fastforce simp: map_of_eq_None_iff)
  then show ?thesis using fun_cong [OF overridden_history [OF assms(1,2)], of k] by (simp add: overridden_def)
qed

lemma promote_accounts_hashed:
  assumes "collision_free L" "state_recorded d h g t" "past \<le> t" "hashed_accounts L (h past) (sd_hashed_account d)"
  shows "hashed_accounts L (h t) (sd_hashed_account (promote_accounts L d past))"
proof -
  let ?cs = "sd_account_change_set d" and ?rows = "walk (sd_account_change_set d) (Some (past + 1))"
  have d: "map_of (sd_account d) = h t" "records_history ?cs h t" "sorted (map fst ?cs)"
    using assms(2) by (auto simp: state_recorded_def records_history_def)
  have "h past a = h t a" if "a \<notin> (fst \<circ> snd) ` set ?rows" for a
  proof (rule unchanged_since [OF d(2) assms(3)])
    fix b v assume "(b, a, v) \<in> set ?cs"
    then show "\<not> past < b" using walked_changes [OF d(3), of past b "(a, v)"] that by force
  qed
  then show ?thesis
    using promote_accounts_fold [OF assms(1), of "sd_hashed_account d" "sd_account d" ?rows] assms(4) d(1)
    unfolding hashed_accounts_def promote_accounts_def by auto
qed

lemma upsert_hashed_eq: "upsert_hashed_storage_value dups k v = upsert_storage_value dups k v"
  by (auto simp: upsert_hashed_storage_value_def upsert_storage_value_def seek_storage_key_def Let_def
      split: option.splits)

lemma promote_slot_ok:
  assumes "\<And>k. dups_ok (target k)" "dups_ok (st a)" "map_of (st a) l \<noteq> Some 0"
  shows "dups_ok (promote_slot L st a l target k)"
    "map_of (promote_slot L st a l target k) i
      = (if k = hash_address L a \<and> i = hash_location L l then map_of (st a) l else map_of (target k) i)"
proof -
  have v: "(case seek_both_range (st a) l of Some (f, v) \<Rightarrow> if l = f then v else 0 | None \<Rightarrow> 0)
      = (case map_of (st a) l of Some v \<Rightarrow> v | None \<Rightarrow> 0)"
    using seek_exact [OF assms(2), of l] by (auto simp: seek_both_range_def split: option.splits if_splits)
  note u = upsert_storage_value_ok [OF assms(1), of "hash_address L a" "hash_location L l"]
  show "dups_ok (promote_slot L st a l target k)"
    using u(1) assms(1) by (simp add: promote_slot_def upsert_hashed_eq Let_def)
  show "map_of (promote_slot L st a l target k) i
      = (if k = hash_address L a \<and> i = hash_location L l then map_of (st a) l else map_of (target k) i)"
    unfolding promote_slot_def v upsert_hashed_eq Let_def using u(2) assms(3) by (auto split: option.splits)
qed

lemma promote_storage_fold:
  assumes "collision_free L" "\<And>a. dups_ok (st a)" "\<And>a l. map_of (st a) l \<noteq> Some 0" "\<And>k. dups_ok (target k)"
  shows "(\<forall>k. dups_ok (fold (\<lambda>((_, a), l, _). promote_slot L st a l) rows target k))
    \<and> (\<forall>a l. map_of (fold (\<lambda>((_, a), l, _). promote_slot L st a l) rows target (hash_address L a)) (hash_location L l)
         = (if (a, l) \<in> (\<lambda>((_, a), l, _). (a, l)) ` set rows then map_of (st a) l
            else map_of (target (hash_address L a)) (hash_location L l)))
    \<and> (\<forall>k i. k \<notin> range (hash_address L) \<or> i \<notin> range (hash_location L) \<longrightarrow>
         map_of (fold (\<lambda>((_, a), l, _). promote_slot L st a l) rows target k) i = map_of (target k) i)"
  using assms(4)
proof (induction rows arbitrary: target)
  case (Cons r rows)
  obtain b a l v where r: "r = ((b, a), l, v)" by (metis prod.exhaust)
  note p = promote_slot_ok [OF Cons.prems assms(2) assms(3), where a = a and l = l and L = L]
  have eq: "hash_address L c = hash_address L a \<longleftrightarrow> c = a" "hash_location L i = hash_location L l \<longleftrightarrow> i = l" for c i
    using assms(1) by (auto simp: collision_free_def inj_eq)
  show ?case using Cons.IH [OF p(1)] by (auto simp: r p(2) eq)
qed simp

lemma promote_storage_hashed:
  assumes "collision_free L" "state_recorded d h g t" "past \<le> t" "hashed_slots L (g past) (sd_hashed_storage d)"
    "\<And>a l. g t (a, l) \<noteq> Some 0"
  shows "hashed_slots L (g t) (sd_hashed_storage (promote_storage L d past))"
proof -
  let ?cs = "sd_storage_change_set d" and ?rows = "walk (sd_storage_change_set d) (Some (past + 1, 0))"
  have d: "\<And>a l. map_of (sd_storage d a) l = g t (a, l)" "records_history (map slot_change ?cs) g t" "sorted (map fst ?cs)"
    "\<And>a. dups_ok (sd_storage d a)" "\<And>k. dups_ok (sd_hashed_storage d k)"
    using assms(2,4) by (auto simp: state_recorded_def hashed_slots_def)
  have "g past (a, l) = g t (a, l)" if no: "(a, l) \<notin> (\<lambda>((_, a), l, _). (a, l)) ` set ?rows" for a l
  proof (rule unchanged_since [OF d(2) assms(3)])
    fix b v assume "(b, (a, l), v) \<in> set (map slot_change ?cs)"
    then obtain w where w: "((b, a), l, w) \<in> set ?cs" by (auto simp: slot_change_def split: prod.splits)
    have "past + 1 \<le> b" if "past < b" using that by (rule block_after)
    then have "((b, a), l, w) \<in> set ?rows" if "past < b"
      using that w unfolding walk_sorted [OF d(3)] by auto
    then show "\<not> past < b" using no by force
  qed
  then show ?thesis
    using promote_storage_fold [OF assms(1) d(4) _ d(5), where rows = ?rows] assms(4,5) d(1)
    unfolding hashed_slots_def promote_storage_def by auto
qed

section \<open>Clean promotion makes the copy\<close>

text \<open>Loading a collector puts the entries into the table in some order.\<close>

definition codec_ok :: "('k \<Rightarrow> byte list option) \<Rightarrow> (byte list \<Rightarrow> 'k decoded) \<Rightarrow> ('v \<Rightarrow> byte list option)
    \<Rightarrow> (byte list \<Rightarrow> 'v decoded) \<Rightarrow> 'k \<times> 'v \<Rightarrow> bool" where
  "codec_ok enc_k dec_k enc_v dec_v r \<longleftrightarrow>
     returns (\<lambda>b. b \<noteq> [] \<and> length b < 2 ^ 64 \<and> dec_k b = Some (Inr (fst r))) (enc_k (fst r))
     \<and> returns (\<lambda>b. length b < 2 ^ 64 \<and> dec_v b = Some (Inr (snd r))) (enc_v (snd r))"

lemma push_all_eq:
  assumes "\<And>r. r \<in> set rows \<Longrightarrow> encoded_entry enc_k enc_v r = Some (f r)"
  shows "push_all enc_k enc_v rows c = Some (fold collector_push (map f rows) c)"
  using assms by (induction rows arbitrary: c) auto

lemma load_typed:
  assumes "\<And>r. r \<in> set rows \<Longrightarrow> codec_ok enc_k dec_k enc_v dec_v r"
  shows "\<exists>rs. mset rs = mset rows \<and>
    Option.bind (push_all enc_k enc_v rows (Collector_new cap)) (\<lambda>c. collector_load (put_encoded dec_k dec_v put) c t)
      = Some (Inr (fold (\<lambda>(k, v). put k v) rs t))"
proof -
  define f where "f r = (the (enc_k (fst r)), the (enc_v (snd r)))" for r
  define g where "g e = (case (dec_k (fst e), dec_v (snd e)) of (Some (Inr k), Some (Inr v)) \<Rightarrow> (k, v))" for e
  have f: "encoded_entry enc_k enc_v r = Some (f r)" "length (fst (f r)) < 2 ^ 64 \<and> length (snd (f r)) < 2 ^ 64 \<and> f r \<noteq> ([], [])"
    "dec_k (fst (f r)) = Some (Inr (fst r))" "dec_v (snd (f r)) = Some (Inr (snd r))" "g (f r) = r" if "r \<in> set rows" for r
    using assms [OF that] by (auto simp: codec_ok_def returns_ex f_def g_def encoded_entry_def)
  define rs where "rs = map g (sort (map f rows))"
  have "map g (map f rows) = rows" using f(5) by (simp add: map_idI)
  then have ms: "mset rs = mset rows" by (metis mset_map mset_sort rs_def)
  have fg: "f (g e) = e" "g e \<in> set rows" if "e \<in> set (sort (map f rows))" for e using that f(5) by auto
  have "map f rs = sort (map f rows)" unfolding rs_def map_map by (rule map_idI) (use fg in simp)
  then have it: "collector_iter (fold collector_push (map f rows) (Collector_new cap)) = Some (map f rs, Inr ())"
    using collector_sorted [of "map f rows" cap] f(2) by auto
  have sub: "set rs \<subseteq> set rows" using mset_eq_setD [OF ms] by simp
  have "fold (put_encoded dec_k dec_v put) (map f rs) t = fold (\<lambda>(k, v). put k v) rs t"
    using sub
  proof (induction rs arbitrary: t)
    case (Cons r rs)
    then show ?case using f(3,4) [of r] by (cases r) (simp add: put_encoded_def)
  qed simp
  then show ?thesis
    using ms it push_all_eq [of rows enc_k enc_v f] f(1) by (intro exI [of _ rs]) (simp add: collector_load_def)
qed

lemma row_put_all:
  assumes "dups_ok rows" "distinct (map fst rs)"
  shows "dups_ok (fold (\<lambda>(k, v). row_put k v) rs rows) \<and> map_of (fold (\<lambda>(k, v). row_put k v) rs rows) = map_of rows ++ map_of rs"
  using assms
proof (induction rs arbitrary: rows)
  case (Cons r rs)
  obtain k v where r: "r = (k, v)" by fastforce
  have "k \<notin> dom (map_of rs)" using Cons.prems(2) by (simp add: r dom_map_of_conv_image_fst)
  then show ?case
    using Cons.IH [OF row_put_ok(1) [OF Cons.prems(1), of k v]] Cons.prems(2) row_put_ok(2) [OF Cons.prems(1), of k v]
    by (auto simp: r map_add_def fun_eq_iff domIff split: option.splits)
qed simp

lemma map_of_map_inj: "inj f \<Longrightarrow> map_of (map (\<lambda>(a, v). (f a, v)) xs) (f a) = map_of xs a"
  by (induction xs) (auto simp: inj_eq)

lemma account_codec: "codec_ok encode_h256 decode_h256 encode_for_storage decode_account r"
  using account_roundtrip [of "snd r"]
  by (auto simp: codec_ok_def encode_h256_def returns_ex decode_account_def table_lengths)
    (metis length_0_conv length_to_be_bytes zero_neq_numeral)

lemma slot_codec: "codec_ok encode_h256 decode_h256 encode_slot decode_slot r"
proof -
  obtain k l v where r: "r = (k, l, v)" by (metis prod.exhaust)
  have "length (dropWhile (\<lambda>b. b = 0) (to_be_bytes v)) \<le> 32" using compact_length [of "\<lambda>b. b = 0" "to_be_bytes v"] by simp
  moreover have "to_be_bytes k \<noteq> []" by (metis length_0_conv length_to_be_bytes zero_neq_numeral)
  ultimately show ?thesis
    using slot_object.decode_encode [of "(l, v)"] by (simp add: codec_ok_def r encode_h256_def encode_slot_eq)
qed

lemma promote_clean_accounts_hashed:
  assumes "collision_free L" "dups_ok (sd_account d)"
  shows "\<exists>rows. promote_clean_accounts L d = Some (Inr (d\<lparr>sd_hashed_account := rows\<rparr>))
    \<and> hashed_accounts L (map_of (sd_account d)) rows"
proof -
  define src where "src = map (\<lambda>(a, account). (hash_address L a, account)) (sd_account d)"
  have inj: "inj (hash_address L)" using assms(1) by (simp add: collision_free_def)
  obtain rs where rs: "mset rs = mset src"
    "Option.bind (push_all encode_h256 encode_for_storage src (Collector_new OPTIMAL_BUFFER_CAPACITY))
       (\<lambda>c. collector_load (put_encoded decode_h256 decode_account row_put) c []) = Some (Inr (fold (\<lambda>(k, v). row_put k v) rs []))"
    using load_typed [where rows = src and put = row_put and t = "[]"] account_codec by blast
  have keys: "map fst src = map (hash_address L) (map fst (sd_account d))" by (auto simp: src_def)
  have dist: "distinct (map fst src)"
    unfolding keys using assms(2) inj by (simp add: dups_ok_def distinct_map inj_on_def)
  then have "distinct (map fst rs)" using rs(1) by (metis mset_map mset_eq_imp_distinct_iff)
  then have p: "dups_ok (fold (\<lambda>(k, v). row_put k v) rs [])" "map_of (fold (\<lambda>(k, v). row_put k v) rs []) = map_of rs"
    using row_put_all [of "[]" rs] by (auto simp: dups_ok_def)
  have "map_of rs = map_of src"
    using map_of_inject_set [OF \<open>distinct (map fst rs)\<close> dist] mset_eq_setD [OF rs(1)] by simp
  moreover have "map_of src (hash_address L a) = map_of (sd_account d) a" for a
    unfolding src_def by (rule map_of_map_inj [OF inj])
  moreover have "map_of src k = None" if "k \<notin> range (hash_address L)" for k
    using that by (auto simp: map_of_eq_None_iff src_def)
  ultimately have "hashed_accounts L (map_of (sd_account d)) (fold (\<lambda>(k, v). row_put k v) rs [])"
    using p by (simp add: hashed_accounts_def)
  then show ?thesis
    using rs(2) unfolding promote_clean_accounts_def
    by (auto simp: src_def [symmetric] walk_def bind_eq_Some_conv split: sum.splits)
qed

lemma put_dup_ok:
  assumes "\<And>k. dups_ok (t k)" "map_of (t k) l = None"
  shows "dups_ok (put_dup k (l, v) t j)" "map_of (put_dup k (l, v) t j) i = (if j = k \<and> i = l then Some v else map_of (t j) i)"
proof -
  have "(l, v) \<notin> set (t k)" using assms(2) by (auto simp: map_of_eq_None_iff) (metis fst_conv image_eqI)
  then show "dups_ok (put_dup k (l, v) t j)" "map_of (put_dup k (l, v) t j) i = (if j = k \<and> i = l then Some v else map_of (t j) i)"
    using assms insort_dups [OF assms(1,2), of v] by (auto simp: put_dup_def dup_upsert_def)
qed

lemma put_dup_all:
  assumes "\<And>k. dups_ok (t k)" "distinct (map (\<lambda>(k, l, _). (k, l)) rs)"
    "\<And>k l v. (k, l, v) \<in> set rs \<Longrightarrow> map_of (t k) l = None"
  shows "(\<forall>k. dups_ok (fold (\<lambda>(k, p). put_dup k p) rs t k))
    \<and> (\<forall>k l. map_of (fold (\<lambda>(k, p). put_dup k p) rs t k) l
         = (case map_of (map (\<lambda>(k, l, v). ((k, l), v)) rs) (k, l) of Some v \<Rightarrow> Some v | None \<Rightarrow> map_of (t k) l))"
  using assms
proof (induction rs arbitrary: t)
  case (Cons r rs)
  obtain k l v where r: "r = (k, l, v)" by (metis prod.exhaust)
  have n: "map_of (t k) l = None" using Cons.prems(3) [of k l v] by (simp add: r)
  note p = put_dup_ok [where t = t and k = k and l = l and v = v, OF Cons.prems(1) n]
  have kl: "(k, l) \<notin> (\<lambda>(k, l, _). (k, l)) ` set rs" "distinct (map (\<lambda>(k, l, _). (k, l)) rs)"
    using Cons.prems(2) by (auto simp: r)
  have "map_of (put_dup k (l, v) t j) i = None" if w: "(j, i, w) \<in> set rs" for j i w
  proof -
    have "(j, i) \<noteq> (k, l)" using kl(1) w by force
    then show ?thesis using Cons.prems(3) [of j i w] w by (auto simp: p(2) r)
  qed
  moreover have "map_of (map (\<lambda>(k, l, v). ((k, l), v)) rs) (k, l) = None"
    using kl(1) by (force simp: map_of_eq_None_iff)
  ultimately show ?case
    using Cons.IH [OF p(1) kl(2)] by (auto simp: r p(2) split: option.splits)
qed simp

lemma storage_rows_set: "(a, l, v) \<in> set (storage_rows st) \<longleftrightarrow> (l, v) \<in> set (st a)"
proof -
  have "finite {a. st a \<noteq> []}" by (rule finite_subset [OF subset_UNIV finite])
  then show ?thesis by (auto simp: storage_rows_def image_iff intro!: exI [of _ a])
qed

lemma storage_rows_distinct:
  assumes "\<And>a. dups_ok (st a)"
  shows "distinct (map (\<lambda>(a, l, _). (a, l)) (storage_rows st))"
proof -
  have "distinct (map (\<lambda>(a, l, _). (a, l)) (concat (map (\<lambda>a. map (\<lambda>p. (a, p)) (st a)) as)))" if "distinct as" for as
    using that
  proof (induction as)
    case (Cons a as)
    have "distinct (map (\<lambda>(a, l, _). (a, l)) (map (\<lambda>p. (a, p)) (st a)))"
      using assms [of a] by (auto simp: dups_ok_def distinct_map inj_on_def) (metis fst_conv prod.inject)
    then show ?case using Cons by auto
  qed simp
  then show ?thesis by (simp add: storage_rows_def)
qed

lemma distinct_map_inj: "inj f \<Longrightarrow> distinct (map f xs) \<longleftrightarrow> distinct xs"
  by (auto simp: distinct_map intro: inj_on_subset)

lemma promote_clean_storage_hashed:
  assumes "collision_free L" "\<And>a. dups_ok (sd_storage d a)"
  shows "\<exists>t. promote_clean_storage L d = Some (Inr (d\<lparr>sd_hashed_storage := t\<rparr>))
    \<and> hashed_slots L (\<lambda>(a, l). map_of (sd_storage d a) l) t"
proof -
  define src where "src = map (\<lambda>(a, l, v). (hash_address L a, hash_location L l, v)) (storage_rows (sd_storage d))"
  have inj: "hash_address L a = hash_address L b \<longleftrightarrow> a = b" "hash_location L l = hash_location L i \<longleftrightarrow> l = i" for a b l i
    using assms(1) by (auto simp: collision_free_def inj_eq)
  obtain rs where rs: "mset rs = mset src"
    "Option.bind (push_all encode_h256 encode_slot src (Collector_new OPTIMAL_BUFFER_CAPACITY))
       (\<lambda>c. collector_load (put_encoded decode_h256 decode_slot put_dup) c (\<lambda>_. []))
         = Some (Inr (fold (\<lambda>(k, p). put_dup k p) rs (\<lambda>_. [])))"
    using load_typed [where rows = src and put = put_dup and t = "\<lambda>_. []"] slot_codec by blast
  have "map (\<lambda>(k, l, _). (k, l)) src
      = map (\<lambda>(a, l). (hash_address L a, hash_location L l)) (map (\<lambda>(a, l, _). (a, l)) (storage_rows (sd_storage d)))"
    by (auto simp: src_def)
  moreover have "inj (\<lambda>(a, l). (hash_address L a, hash_location L l))" by (auto simp: inj_def inj)
  ultimately have "distinct (map (\<lambda>(k, l, _). (k, l)) src)"
    using storage_rows_distinct [OF assms(2)] by (simp add: distinct_map_inj del: map_map)
  moreover have "mset (map (\<lambda>(k, l, _). (k, l)) rs) = mset (map (\<lambda>(k, l, _). (k, l)) src)" using rs(1) by simp
  ultimately have dist: "distinct (map (\<lambda>(k, l, _). (k, l)) rs)" using mset_eq_imp_distinct_iff by blast
  define t where "t = fold (\<lambda>(k, p). put_dup k p) rs (\<lambda>_. [])"
  have t: "dups_ok (t k)" "map_of (t k) l = map_of (map (\<lambda>(k, l, v). ((k, l), v)) rs) (k, l)" for k l
    using put_dup_all [of "\<lambda>_. []" rs] dist by (auto simp: t_def dups_ok_def split: option.splits)
  have d: "distinct (map fst (map (\<lambda>(k, l, v). ((k, l), v)) rs))"
    using dist by (simp add: comp_def case_prod_unfold)
  have "((k, l), v) \<in> set (map (\<lambda>(k, l, v). ((k, l), v)) rs) \<longleftrightarrow> (k, l, v) \<in> set rs" for k l v by force
  then have some: "map_of (t k) l = Some v \<longleftrightarrow> (k, l, v) \<in> set src" for k l v
    unfolding t(2) map_of_eq_Some_iff [OF d] using mset_eq_setD [OF rs(1)] by blast
  have src_iff: "(hash_address L a, hash_location L l, v) \<in> set src \<longleftrightarrow> (l, v) \<in> set (sd_storage d a)" for a l v
    unfolding src_def set_map image_iff by (auto simp: inj storage_rows_set intro!: bexI [of _ "(a, l, v)"])
  have "map_of (t (hash_address L a)) (hash_location L l) = map_of (sd_storage d a) l" for a l
  proof -
    have "map_of (t (hash_address L a)) (hash_location L l) = Some v \<longleftrightarrow> map_of (sd_storage d a) l = Some v" for v
      using assms(2) [of a] unfolding some src_iff by (simp add: dups_ok_def map_of_eq_Some_iff)
    then show ?thesis by (metis not_Some_eq)
  qed
  moreover have "map_of (t k) i = None" if "k \<notin> range (hash_address L) \<or> i \<notin> range (hash_location L)" for k i
  proof -
    have "k \<in> range (hash_address L) \<and> i \<in> range (hash_location L)" if "(k, i, v) \<in> set src" for v
      using that by (auto simp: src_def)
    then show ?thesis using some [of k i] that by (cases "map_of (t k) i") auto
  qed
  ultimately have "hashed_slots L (\<lambda>(a, l). map_of (sd_storage d a) l) t" using t(1) by (simp add: hashed_slots_def)
  then show ?thesis
    using rs(2) unfolding promote_clean_storage_def t_def
    by (auto simp: src_def [symmetric] bind_eq_Some_conv split: sum.splits)
qed

lemma state_recorded_hashed [simp]:
  "state_recorded (d\<lparr>sd_hashed_account := x\<rparr>) h g t = state_recorded d h g t"
  "state_recorded (d\<lparr>sd_hashed_storage := y\<rparr>) h g t = state_recorded d h g t"
  by (simp_all add: state_recorded_def)

section \<open>Unwinding the copy\<close>

lemma unhash_accounts:
  assumes "collision_free L" "hashed_accounts L m target" "deletes_exist (map snd rows) m"
  shows "hashed_accounts L (overridden (map snd rows) m) (foldr (\<lambda>r. unhash_account L (snd r)) rows target)"
  using assms(3)
proof (induction rows)
  case Nil
  then show ?case using assms(2) by simp
next
  case (Cons r rows)
  obtain n a acc where r: "r = (n, a, acc)" by (metis prod.exhaust)
  define after where "after = foldr (\<lambda>r. unhash_account L (snd r)) rows target"
  have IH: "hashed_accounts L (overridden (map snd rows) m) after" using Cons by (simp add: r after_def)
  then have d: "dups_ok after" by (simp add: hashed_accounts_def)
  have eq: "hash_address L c = hash_address L a \<longleftrightarrow> c = a" for c using assms(1) by (auto simp: collision_free_def inj_eq)
  have "dups_ok (unhash_account L (a, acc) after)
      \<and> map_of (unhash_account L (a, acc) after) = (map_of after)(hash_address L a := acc)"
  proof (cases acc)
    case None
    then obtain v where "map_of after (hash_address L a) = Some v"
      using Cons.prems IH by (auto simp: r hashed_accounts_def)
    then have "unhash_account L (a, acc) after = row_delete (hash_address L a) after"
      using None seek_entry [OF d, of "hash_address L a" v] by (simp add: unhash_account_def)
    then show ?thesis using None row_delete_ok(1) [OF d] by (simp add: row_delete_ok(2))
  next
    case (Some c)
    then show ?thesis using row_put_ok [OF d] by (simp add: unhash_account_def)
  qed
  then show ?case using IH unfolding hashed_accounts_def by (auto simp: r eq simp flip: after_def)
qed

definition unhash_slot :: "lib \<Rightarrow> (u64 \<times> address) \<times> u256 \<times> u256 \<Rightarrow> (h256 \<Rightarrow> (h256, u256) rows) \<Rightarrow> h256 \<Rightarrow> (h256, u256) rows" where
  "unhash_slot L r t = (case r of ((_, a), l, v) \<Rightarrow>
     t(hash_address L a := upsert_hashed_storage_value (t (hash_address L a)) (hash_location L l) v))"

lemma unhash_slots:
  assumes "collision_free L" "hashed_slots L m target"
  shows "hashed_slots L (overridden (map (\<lambda>((n, a), l, v). ((a, l), if v = 0 then None else Some v)) rows) m)
    (foldr (unhash_slot L) rows target)"
proof (induction rows)
  case Nil
  then show ?case using assms(2) by simp
next
  case (Cons r rows)
  obtain n a l v where r: "r = ((n, a), l, v)" by (metis prod.exhaust)
  define after where "after = foldr (unhash_slot L) rows target"
  have d: "dups_ok (after k)" for k using Cons by (simp add: after_def hashed_slots_def)
  have step: "foldr (unhash_slot L) (r # rows) target
      = after(hash_address L a := upsert_storage_value (after (hash_address L a)) (hash_location L l) v)"
    by (simp add: r after_def unhash_slot_def upsert_hashed_eq)
  have eq: "hash_address L c = hash_address L a \<longleftrightarrow> c = a" "hash_location L i = hash_location L l \<longleftrightarrow> i = l" for c i
    using assms(1) by (auto simp: collision_free_def inj_eq)
  show ?case
    unfolding step using Cons d upsert_storage_value_ok [OF d [of "hash_address L a"], of "hash_location L l" v]
    by (auto simp: r eq hashed_slots_def simp flip: after_def)
qed

lemma hash_state_unwound:
  assumes "collision_free L" "state_recorded d h g t" "n \<le> t"
    "\<And>b a. (b, a, None) \<in> set (sd_account_change_set d) \<Longrightarrow> n < b \<Longrightarrow> h b a \<noteq> None"
    "hashed_accounts L (h t) (sd_hashed_account d)" "hashed_slots L (g t) (sd_hashed_storage d)"
  shows "\<exists>x y. hash_state_unwind L d \<lparr>ui_stage_progress = p, ui_unwind_to = n\<rparr>
      = (d\<lparr>sd_hashed_account := x, sd_hashed_storage := y\<rparr>, n) \<and> hashed_accounts L (h n) x \<and> hashed_slots L (g n) y"
proof -
  let ?ac = "sd_account_change_set d" and ?sc = "sd_storage_change_set d"
  have d: "records_history ?ac h t" "sorted (map fst ?ac)" "records_history (map slot_change ?sc) g t" "sorted (map fst ?sc)"
    using assms(2) by (auto simp: state_recorded_def records_history_def)
  define arows where "arows = filter (\<lambda>r. n < fst r) ?ac"
  define srows where "srows = filter (\<lambda>r. n < fst (fst r)) ?sc"
  have "deletes_exist (map snd arows) (h t)"
    unfolding arows_def using assms(4) records_history_block [OF d(1)]
    by (intro history_deletes_exist [OF d(1) filter_suffix [OF d(2), of n]]) auto
  then have "hashed_accounts L (h n) (foldr (\<lambda>r. unhash_account L (snd r)) arows (sd_hashed_account d))"
    using unhash_accounts [OF assms(1,5), of arows] overridden_history [OF d(1) assms(3)] by (simp add: arows_def)
  moreover have "hashed_slots L (g n) (foldr (unhash_slot L) srows (sd_hashed_storage d))"
    using unhash_slots [OF assms(1,6), of srows] overridden_history [OF d(3) assms(3)]
    unfolding slot_changes_after by (simp add: srows_def)
  moreover have "takeWhile (\<lambda>(b, _). n < b) (walk_back ?ac) = rev arows"
    using takeWhile_back [OF d(2), of "\<lambda>b. n < b"] by (simp add: arows_def case_prod_unfold)
  moreover have "takeWhile (\<lambda>((b, _), _). n < b) (walk_back ?sc) = rev srows"
    using takeWhile_back [OF d(4), of "\<lambda>k. n < fst k"] by (auto simp: srows_def case_prod_unfold dest: fst_mono less_le_trans)
  ultimately show ?thesis
    by (auto simp: hash_state_unwind_def foldr_conv_fold case_prod_unfold unhash_slot_def [abs_def])
qed

section \<open>Properties\<close>

text \<open>C17: Promoting the changes since an earlier block gives the same hashed tables as hashing the whole state anew: from
  the hashed copy of the state after that block, both give the hashed copy of the state now, for a hash without
  collisions.\<close>

theorem incremental_promotion_is_clean:
  assumes "collision_free L" "state_recorded d h g t" "past \<le> t" "\<And>a l. g t (a, l) \<noteq> Some 0"
    "hashed_accounts L (h past) (sd_hashed_account d)" "hashed_slots L (g past) (sd_hashed_storage d)"
  shows "\<exists>d' e. promote_clean_accounts L d = Some (Inr d') \<and> promote_clean_storage L d' = Some (Inr e)
    \<and> e = promote_storage L (promote_accounts L d past) past
    \<and> hashed_accounts L (h t) (sd_hashed_account e) \<and> hashed_slots L (g t) (sd_hashed_storage e)"
proof -
  have d: "dups_ok (sd_account d)" "map_of (sd_account d) = h t" "\<And>a. dups_ok (sd_storage d a)"
    "(\<lambda>(a, l). map_of (sd_storage d a) l) = g t"
    using assms(2) by (auto simp: state_recorded_def fun_eq_iff)
  obtain rows where rows: "promote_clean_accounts L d = Some (Inr (d\<lparr>sd_hashed_account := rows\<rparr>))" "hashed_accounts L (h t) rows"
    using promote_clean_accounts_hashed [OF assms(1) d(1)] d(2) by auto
  obtain st where st: "promote_clean_storage L (d\<lparr>sd_hashed_account := rows\<rparr>)
      = Some (Inr (d\<lparr>sd_hashed_account := rows, sd_hashed_storage := st\<rparr>))" "hashed_slots L (g t) st"
    using promote_clean_storage_hashed [OF assms(1), of "d\<lparr>sd_hashed_account := rows\<rparr>"] d(3,4) by auto
  define inc where "inc = promote_accounts L d past"
  have a: "hashed_accounts L (h t) (sd_hashed_account inc)"
    using promote_accounts_hashed [OF assms(1-3,5)] by (simp add: inc_def)
  have "state_recorded inc h g t" "sd_hashed_storage inc = sd_hashed_storage d"
    using assms(2) by (simp_all add: inc_def promote_accounts_def)
  then have s: "hashed_slots L (g t) (sd_hashed_storage (promote_storage L inc past))"
    using promote_storage_hashed [OF assms(1) _ assms(3)] assms(4,6) by auto
  have "rows = sd_hashed_account inc" by (rule hashed_accounts_unique [OF rows(2) a])
  moreover have "st = sd_hashed_storage (promote_storage L inc past)" by (rule hashed_slots_unique [OF st(2) s])
  ultimately have "d\<lparr>sd_hashed_account := rows, sd_hashed_storage := st\<rparr> = promote_storage L inc past"
    by (simp add: inc_def promote_accounts_def promote_storage_def)
  moreover have "sd_hashed_account (promote_storage L inc past) = sd_hashed_account inc" by (simp add: promote_storage_def)
  ultimately show ?thesis using rows(1) st(1) a s by (auto simp flip: inc_def)
qed

text \<open>The sample hash, the number that the bytes stand for, has no collisions.\<close>

lemma sample_lib_hashes: "hash_address sample_lib a = ucast a" "hash_location sample_lib l = l"
  by (simp_all add: hash_address_def hash_location_def sample_lib_def address_be_value)

lemma sample_lib_collision_free: "collision_free sample_lib"
  unfolding collision_free_def inj_def sample_lib_hashes by (metis ucast_up_down(2))

theorem incremental_promotion_is_clean_witness:
  "\<exists>d e. promote_clean_accounts sample_lib (unwind_sample [(1, 9, None)]) = Some (Inr d)
     \<and> promote_clean_storage sample_lib d = Some (Inr e)
     \<and> e = promote_storage sample_lib (promote_accounts sample_lib (unwind_sample [(1, 9, None)]) 0) 0"
proof -
  define h :: "u64 \<Rightarrow> address \<rightharpoonup> Account" where "h n = (if n = 0 then Map.empty else [9 \<mapsto> account_numbered 1])" for n
  define g :: "u64 \<Rightarrow> address \<times> u256 \<rightharpoonup> u256" where "g n = (if n = 0 then Map.empty else [(9, 5) \<mapsto> 3])" for n
  have "records_history [(1, 9, None)] h 1" "records_history [(1, (9, 5), None)] g 1"
    by (auto simp: records_history_def history_ok_def h_def g_def word_eq_1)
  then have rec: "state_recorded (unwind_sample [(1, 9, None)]) h g 1"
    by (auto simp: state_recorded_def unwind_sample_def dups_ok_def h_def g_def slot_change_def)
  have hashed: "hashed_accounts sample_lib (h 0) (sd_hashed_account (unwind_sample [(1, 9, None)]))"
    "hashed_slots sample_lib (g 0) (sd_hashed_storage (unwind_sample [(1, 9, None)]))"
    by (simp_all add: hashed_accounts_def hashed_slots_def h_def g_def dups_ok_def unwind_sample_def)
  have "0 \<le> (1 :: u64)" "\<And>a l. g 1 (a, l) \<noteq> Some 0" by (simp_all add: g_def)
  from incremental_promotion_is_clean [OF sample_lib_collision_free rec this hashed] show ?thesis by blast
qed

end
