(* ===== verification/StageIndices.thy ===== *)
theory StageIndices
  imports HashState
begin

text \<open>
  The stages that build indices: \<open>TotalGasIndex\<close>, \<open>TotalTxIndex\<close>, \<open>BlockHashes\<close> and \<open>CallTraceIndex\<close>
  (\<open>src/stages/total_gas_index.rs\<close>, \<open>total_tx_index.rs\<close>, \<open>block_hashes.rs\<close>, \<open>call_trace_index.rs\<close>).
\<close>

section \<open>Cumulative indices\<close>

definition blocks_from :: "u64 \<Rightarrow> u64 \<Rightarrow> u64 list" where
  "blocks_from start end_block = map of_nat [unat start ..< Suc (unat end_block)]"

fun cumulative_loop :: "(u64 \<Rightarrow> u64 option) \<Rightarrow> u64 list \<Rightarrow> u64 \<Rightarrow> (u64, u64) rows \<Rightarrow> (StageError + (u64, u64) rows) option" where
  "cumulative_loop amount [] acc rows = Some (Inr rows)"
| "cumulative_loop amount (b # bs) acc rows = do {
     n \<leftarrow> amount b;
     case row_append b (acc + n) rows of
       Inl _ \<Rightarrow> Some (Inl AppendError)
     | Inr rows \<Rightarrow> cumulative_loop amount bs (acc + n) rows }"

text \<open>The body of both stages: a missing previous total, canonical hash, header or body is an \<open>unwrap\<close> that panics.\<close>

definition cumulative_execute ::
  "(u64 \<Rightarrow> u64 option) \<Rightarrow> (u64, u64) rows \<Rightarrow> StageInput \<Rightarrow> (StageError + u64 \<times> (u64, u64) rows) option" where
  "cumulative_execute amount rows input =
     (let prev_progress = (case si_stage_progress input of Some p \<Rightarrow> p | None \<Rightarrow> 0);
          starting_block = prev_progress + 1
      in case si_previous_stage input of
           None \<Rightarrow> Some (Inl CannotBeFirstStage)
         | Some (_, max_block) \<Rightarrow>
             if max_block \<ge> starting_block then do {
               acc \<leftarrow> seek_exact rows prev_progress;
               r \<leftarrow> cumulative_loop amount (blocks_from starting_block max_block) acc rows;
               Some (case r of Inl e \<Rightarrow> Inl e | Inr rows \<Rightarrow> Inr (max_block, rows)) }
             else Some (Inr (max_block, rows)))"

definition block_gas_used :: "StageDb \<Rightarrow> u64 \<Rightarrow> u64 option" where
  "block_gas_used d n = do { h \<leftarrow> seek_exact (sd_canonical_header d) n; header \<leftarrow> sd_header d (n, h); Some (bh_gas_used header) }"

definition block_tx_amount :: "StageDb \<Rightarrow> u64 \<Rightarrow> u64 option" where
  "block_tx_amount d n = do { h \<leftarrow> seek_exact (sd_canonical_header d) n; body \<leftarrow> seek_exact (sd_body d) (n, h); Some (bs_tx_amount body) }"

definition total_gas_index_execute :: "StageDb \<Rightarrow> StageInput \<Rightarrow> (StageError + ExecOutput \<times> StageDb) option" where
  "total_gas_index_execute d input = do {
     r \<leftarrow> cumulative_execute (block_gas_used d) (sd_total_gas d) input;
     Some (case r of Inl e \<Rightarrow> Inl e | Inr (n, rows) \<Rightarrow> Inr (ExecProgress n True, d\<lparr>sd_total_gas := rows\<rparr>)) }"

definition total_gas_index_unwind :: "StageDb \<Rightarrow> UnwindInput \<Rightarrow> StageDb \<times> u64" where
  "total_gas_index_unwind d input =
     (d\<lparr>sd_total_gas := unwind_last (\<lambda>n. n > ui_unwind_to input) (sd_total_gas d)\<rparr>, ui_unwind_to input)"

definition total_tx_index_execute :: "StageDb \<Rightarrow> StageInput \<Rightarrow> (StageError + ExecOutput \<times> StageDb) option" where
  "total_tx_index_execute d input = do {
     r \<leftarrow> cumulative_execute (block_tx_amount d) (sd_total_tx d) input;
     Some (case r of Inl e \<Rightarrow> Inl e | Inr (n, rows) \<Rightarrow> Inr (ExecProgress n True, d\<lparr>sd_total_tx := rows\<rparr>)) }"

definition total_tx_index_unwind :: "StageDb \<Rightarrow> UnwindInput \<Rightarrow> StageDb \<times> u64" where
  "total_tx_index_unwind d input =
     (d\<lparr>sd_total_tx := unwind_last (\<lambda>n. n > ui_unwind_to input) (sd_total_tx d)\<rparr>, ui_unwind_to input)"

section \<open>Block hashes\<close>

definition block_hashes_execute :: "StageDb \<Rightarrow> StageInput \<Rightarrow> (StageError + ExecOutput \<times> StageDb) option" where
  "block_hashes_execute d input =
     (let original_highest_block = (case si_stage_progress input of Some p \<Rightarrow> p | None \<Rightarrow> 0);
          walked = walk (sd_canonical_header d) (Some (original_highest_block + 1));
          highest_block = (if walked = [] then original_highest_block else fst (last walked))
      in do {
        c \<leftarrow> push_all encode_h256 encode_u64 (map (\<lambda>(n, h). (h, n)) walked) (Collector_new OPTIMAL_BUFFER_CAPACITY);
        r \<leftarrow> collector_load (put_encoded decode_h256 decode_u64 row_put) c (sd_header_number d);
        Some (case r of
            Inl _ \<Rightarrow> Inl CollectorError
          | Inr rows \<Rightarrow> Inr (ExecProgress highest_block True, d\<lparr>sd_header_number := rows\<rparr>)) })"

text \<open>The row that \<open>seek\<close> finds is deleted, whether or not it is the one of the hash.\<close>

definition delete_found :: "h256 \<Rightarrow> (h256, 'v) rows \<Rightarrow> (h256, 'v) rows" where
  "delete_found h rows = (case seek rows h of Some (found, _) \<Rightarrow> row_delete found rows | None \<Rightarrow> rows)"

definition block_hashes_unwind :: "StageDb \<Rightarrow> UnwindInput \<Rightarrow> StageDb \<times> u64" where
  "block_hashes_unwind d input =
     (d\<lparr>sd_header_number := fold (\<lambda>(_, h). delete_found h)
          (takeWhile (\<lambda>(n, _). n > ui_unwind_to input) (walk_back (sd_canonical_header d))) (sd_header_number d)\<rparr>,
      ui_unwind_to input)"

section \<open>Cumulative indices are running totals\<close>

lemma blocks_from_simps:
  "m < s \<Longrightarrow> blocks_from s m = []"
  "s \<le> m \<Longrightarrow> blocks_from s m = s # (if s = m then [] else blocks_from (s + 1) m)"
proof -
  show "m < s \<Longrightarrow> blocks_from s m = []" by (simp add: blocks_from_def word_less_nat_alt)
  assume "s \<le> m"
  then have le: "unat s \<le> unat m" by (simp add: word_le_nat_alt)
  show "blocks_from s m = s # (if s = m then [] else blocks_from (s + 1) m)"
  proof (cases "s = m")
    case False
    then have "s < m" using \<open>s \<le> m\<close> by simp
    then have "unat s + 1 < 2 ^ 64" using unsigned_less [where 'a = nat, of m] by (simp add: word_less_nat_alt)
    then have "unat (s + 1) = Suc (unat s)" by (simp add: unat_word_ariths)
    then show ?thesis using False \<open>s < m\<close> by (simp add: blocks_from_def upt_conv_Cons word_less_nat_alt)
  qed (simp add: blocks_from_def)
qed

fun totals :: "(u64 \<Rightarrow> u64) \<Rightarrow> u64 list \<Rightarrow> u64 \<Rightarrow> (u64, u64) rows" where
  "totals f [] acc = []"
| "totals f (b # bs) acc = (b, acc + f b) # totals f bs (acc + f b)"

lemma totals_keys [simp]: "map fst (totals f bs acc) = bs"
  by (induction bs arbitrary: acc) simp_all

lemma cumulative_loop_totals:
  assumes "\<And>b. b \<in> set bs \<Longrightarrow> amount b = Some (f b)" "sorted_wrt (<) bs" "\<And>r b. r \<in> set rows \<Longrightarrow> b \<in> set bs \<Longrightarrow> fst r < b"
  shows "cumulative_loop amount bs acc rows = Some (Inr (rows @ totals f bs acc))"
  using assms
proof (induction bs arbitrary: acc rows)
  case (Cons b bs)
  have "row_append b (acc + f b) rows = Inr (rows @ [(b, acc + f b)])"
    using Cons.prems(3) [of "last rows" b] by (cases "rows = []") (auto simp: row_append_def last_row_def split: prod.splits)
  moreover have "cumulative_loop amount bs (acc + f b) (rows @ [(b, acc + f b)])
      = Some (Inr ((rows @ [(b, acc + f b)]) @ totals f bs (acc + f b)))"
    using Cons.prems by (intro Cons.IH) auto
  ultimately show ?case using Cons.prems(1) [of b] by simp
qed simp

lemma blocks_from_range: "set (blocks_from s m) = {b. s \<le> b \<and> b \<le> m}"
proof -
  have "b \<in> set (blocks_from s m)" if "s \<le> b" "b \<le> m" for b
    using that by (auto simp: blocks_from_def word_le_nat_alt image_iff less_Suc_eq_le simp del: upt_Suc intro!: bexI [of _ "unat b"])
  moreover have "s \<le> of_nat i" "of_nat i \<le> m" if "unat s \<le> i" "i \<le> unat m" for i
    using that unsigned_less [where 'a = nat, of m] by (auto simp: word_le_nat_alt unat_of_nat)
  ultimately show ?thesis by (auto simp: blocks_from_def less_Suc_eq_le)
qed

lemma blocks_from_sorted: "sorted_wrt (<) (blocks_from s m)"
proof -
  have "(of_nat i :: u64) < of_nat j" if "i < j" "j \<le> unat m" for i j
    using that unsigned_less [where 'a = nat, of m] by (simp add: word_less_nat_alt unat_of_nat)
  then show ?thesis unfolding blocks_from_def sorted_wrt_map
    by (intro sorted_wrt_mono_rel [OF _ sorted_wrt_upt]) auto
qed

lemma totals_at:
  assumes "s \<le> b" "b \<le> m"
  shows "map_of (totals f (blocks_from s m) acc) b = Some (acc + sum_list (map f (blocks_from s b)))"
  using assms(1)
proof (induction "unat b - unat s" arbitrary: s acc)
  case 0
  then have "b = s" by (auto simp: word_le_nat_alt word_unat_eq_iff)
  then show ?case using assms(2) by (simp add: blocks_from_simps(2))
next
  case (Suc k)
  then have "s \<noteq> b" by auto
  then have sb: "s < b" using Suc.prems by simp
  have "unat s + 1 < 2 ^ 64" using sb unsigned_less [where 'a = nat, of b] by (simp add: word_less_nat_alt)
  then have "unat (s + 1) = Suc (unat s)" by (simp add: unat_word_ariths)
  then have IH: "map_of (totals f (blocks_from (s + 1) m) (acc + f s)) b = Some (acc + f s + sum_list (map f (blocks_from (s + 1) b)))"
    using Suc.hyps(2) block_after [OF sb] by (intro Suc.hyps(1)) auto
  have "s \<le> m" "s \<noteq> m" using sb assms(2) by auto
  then show ?case using IH sb \<open>s \<noteq> b\<close> by (simp add: blocks_from_simps(2) add.assoc)
qed

lemma cumulative_exact:
  assumes "dups_ok rows" "rows \<noteq> []" "last rows = (prev, acc)" "prev < max_block"
    "\<And>b. prev < b \<Longrightarrow> b \<le> max_block \<Longrightarrow> amount b = Some (f b)"
    "si_stage_progress input = Some prev" "si_previous_stage input = Some (previous, max_block)"
  shows "\<exists>new. cumulative_execute amount rows input = Some (Inr (max_block, rows @ new)) \<and> dups_ok (rows @ new)
    \<and> (\<forall>b. prev < b \<and> b \<le> max_block \<longrightarrow> map_of (rows @ new) b = Some (acc + sum_list (map f (blocks_from (prev + 1) b))))
    \<and> unwind_last (\<lambda>n. n > prev) (rows @ new) = rows"
proof -
  let ?bs = "blocks_from (prev + 1) max_block" and ?new = "totals f (blocks_from (prev + 1) max_block) acc"
  have p: "prev + 1 \<le> b \<longleftrightarrow> prev < b" for b using assms(4) by (rule block_after_iff)
  obtain front where front: "rows = front @ [(prev, acc)]" using assms(2,3) by (metis append_butlast_last_id)
  have le: "fst r \<le> prev" if "r \<in> set rows" for r
    using assms(1) that unfolding front by (auto simp: dups_ok_def sorted_append)
  have bs: "prev < b" "b \<le> max_block" if "b \<in> set ?bs" for b using that p by (auto simp: blocks_from_range)
  have "seek_exact rows prev = Some acc"
    using assms(1-3) by (metis dups_ok_def last_in_set map_of_is_SomeI seek_exact_def)
  moreover have "cumulative_loop amount ?bs acc rows = Some (Inr (rows @ ?new))"
    using bs le assms(5) blocks_from_sorted by (intro cumulative_loop_totals) (blast intro: le_less_trans)+
  ultimately have ex: "cumulative_execute amount rows input = Some (Inr (max_block, rows @ ?new))"
    using assms(4,6,7) p by (simp add: cumulative_execute_def)
  have k: "set (map fst ?new) = {b. prev < b \<and> b \<le> max_block}" "sorted (map fst ?new)" "distinct (map fst ?new)"
    using blocks_from_sorted [of "prev + 1" max_block] p
    by (auto simp: blocks_from_range strict_sorted_iff)
  have "dups_ok (rows @ ?new)"
    using assms(1) k le by (fastforce simp: dups_ok_def sorted_append)
  moreover have "map_of (rows @ ?new) b = Some (acc + sum_list (map f (blocks_from (prev + 1) b)))" if "prev < b" "b \<le> max_block" for b
  proof -
    have "map_of rows b = None" using le that(1) by (fastforce simp: map_of_eq_None_iff)
    then show ?thesis using totals_at [of "prev + 1" b max_block f acc] that p by (simp add: map_add_def)
  qed
  moreover have "unwind_last (\<lambda>n. n > prev) (rows @ ?new) = rows"
  proof -
    have "prev < fst r" if "r \<in> set ?new" for r using k(1) that by (metis (lifting) image_eqI mem_Collect_eq set_map)
    then have "filter (\<lambda>r. \<not> prev < fst r) ?new = []" by (simp add: filter_empty_conv)
    moreover have "filter (\<lambda>r. \<not> prev < fst r) rows = rows" using le by (simp add: filter_id_conv not_less)
    ultimately show ?thesis using \<open>dups_ok (rows @ ?new)\<close>
      by (subst unwind_last_sorted) (auto simp: dups_ok_def)
  qed
  ultimately show ?thesis using ex by blast
qed

section \<open>Block hashes\<close>

lemma row_put_fold:
  assumes "dups_ok rows" "distinct (map fst rs)" "mset rs = mset src"
  shows "dups_ok (fold (\<lambda>(k, v). row_put k v) rs rows)"
    "map_of (fold (\<lambda>(k, v). row_put k v) rs rows) = map_of rows ++ map_of src"
proof -
  have "distinct (map fst src)" using assms(2,3) by (metis mset_map mset_eq_imp_distinct_iff)
  then have "map_of rs = map_of src" using map_of_inject_set [OF assms(2)] mset_eq_setD [OF assms(3)] by simp
  then show "dups_ok (fold (\<lambda>(k, v). row_put k v) rs rows)"
    "map_of (fold (\<lambda>(k, v). row_put k v) rs rows) = map_of rows ++ map_of src"
    using row_put_all [OF assms(1,2)] by auto
qed

lemma header_number_codec: "codec_ok encode_h256 decode_h256 encode_u64 decode_u64 r"
proof -
  have "to_be_bytes (fst r) \<noteq> []" by (metis length_0_conv length_to_be_bytes zero_neq_numeral)
  then show ?thesis by (simp add: codec_ok_def encode_h256_def encode_u64_def u64_be_value)
qed

lemma delete_found_exact:
  assumes "dups_ok rows" "map_of rows h \<noteq> None"
  shows "delete_found h rows = row_delete h rows"
  using assms seek_entry [OF assms(1), of h] by (auto simp: delete_found_def)

lemma delete_all_found:
  assumes "dups_ok rows" "\<And>h. h \<in> set hs \<Longrightarrow> map_of rows h \<noteq> None" "distinct hs"
  shows "dups_ok (fold delete_found hs rows)" "map_of (fold delete_found hs rows) = (\<lambda>h. if h \<in> set hs then None else map_of rows h)"
proof -
  have "dups_ok (fold delete_found hs rows) \<and> map_of (fold delete_found hs rows) = (\<lambda>h. if h \<in> set hs then None else map_of rows h)"
    using assms
  proof (induction hs arbitrary: rows)
    case (Cons h hs)
    have d: "delete_found h rows = row_delete h rows" using Cons.prems by (intro delete_found_exact) auto
    have "dups_ok (row_delete h rows)" using Cons.prems(1) by (rule row_delete_ok)
    moreover have "map_of (row_delete h rows) i \<noteq> None" if "i \<in> set hs" for i
      using Cons.prems(2) [of i] Cons.prems(3) that by (auto simp: row_delete_ok(2))
    ultimately show ?case using Cons.IH [of "row_delete h rows"] Cons.prems(3) by (auto simp: d row_delete_ok(2) fun_eq_iff)
  qed simp
  then show "dups_ok (fold delete_found hs rows)" "map_of (fold delete_found hs rows) = (\<lambda>h. if h \<in> set hs then None else map_of rows h)"
    by auto
qed

lemma block_hashes_executed:
  assumes "dups_ok (sd_header_number d)" "dups_ok (sd_canonical_header d)" "distinct (map snd (sd_canonical_header d))"
    "si_stage_progress input = Some prev" "prev < - 1"
  shows "\<exists>n rows. block_hashes_execute d input = Some (Inr (ExecProgress n True, d\<lparr>sd_header_number := rows\<rparr>))
    \<and> dups_ok rows \<and> map_of rows = map_of (sd_header_number d) ++
        map_of (map (\<lambda>(n, h). (h, n)) (filter (\<lambda>r. prev < fst r) (sd_canonical_header d)))"
proof -
  have w: "walk (sd_canonical_header d) (Some (prev + 1)) = filter (\<lambda>r. prev < fst r) (sd_canonical_header d)"
    using assms(2) block_after_iff [OF assms(5)] by (subst walk_sorted) (auto simp: dups_ok_def)
  define src where "src = map (\<lambda>(n, h). (h, n)) (filter (\<lambda>r. prev < fst r) (sd_canonical_header d))"
  obtain rs where rs: "mset rs = mset src"
    "Option.bind (push_all encode_h256 encode_u64 src (Collector_new OPTIMAL_BUFFER_CAPACITY))
       (\<lambda>c. collector_load (put_encoded decode_h256 decode_u64 row_put) c (sd_header_number d))
         = Some (Inr (fold (\<lambda>(k, v). row_put k v) rs (sd_header_number d)))"
    using load_typed [where rows = src and put = row_put and t = "sd_header_number d"] header_number_codec by blast
  have "map fst src = map snd (filter (\<lambda>r. prev < fst r) (sd_canonical_header d))" by (auto simp: src_def)
  then have "distinct (map fst src)" using assms(3) distinct_map_filter by metis
  then have "distinct (map fst rs)" using rs(1) by (metis mset_map mset_eq_imp_distinct_iff)
  note p = row_put_fold [OF assms(1) this rs(1)]
  show ?thesis
    using rs(2) p assms(4) unfolding block_hashes_execute_def Let_def
    by (auto simp: w src_def [symmetric] bind_eq_Some_conv split: sum.splits)
qed

section \<open>Properties\<close>

text \<open>C23: The gas index holds running totals: extending it from a block to a later one appends, for every block between, the
  total of the gas used since, and unwinding to the first block gives the index back.\<close>

theorem total_gas_index_exact:
  assumes "dups_ok (sd_total_gas d)" "sd_total_gas d \<noteq> []" "last (sd_total_gas d) = (prev, acc)" "prev < max_block"
    "\<And>b. prev < b \<Longrightarrow> b \<le> max_block \<Longrightarrow> block_gas_used d b = Some (gas b)"
    "si_stage_progress input = Some prev" "si_previous_stage input = Some (previous, max_block)"
  shows "\<exists>rows. total_gas_index_execute d input = Some (Inr (ExecProgress max_block True, d\<lparr>sd_total_gas := rows\<rparr>))
    \<and> (\<forall>b. prev < b \<and> b \<le> max_block \<longrightarrow> map_of rows b = Some (acc + sum_list (map gas (blocks_from (prev + 1) b))))
    \<and> total_gas_index_unwind (d\<lparr>sd_total_gas := rows\<rparr>) \<lparr>ui_stage_progress = max_block, ui_unwind_to = prev\<rparr> = (d, prev)"
proof -
  obtain new where "cumulative_execute (block_gas_used d) (sd_total_gas d) input = Some (Inr (max_block, sd_total_gas d @ new))"
    "\<forall>b. prev < b \<and> b \<le> max_block \<longrightarrow> map_of (sd_total_gas d @ new) b = Some (acc + sum_list (map gas (blocks_from (prev + 1) b)))"
    "unwind_last (\<lambda>n. n > prev) (sd_total_gas d @ new) = sd_total_gas d"
    using cumulative_exact [where amount = "block_gas_used d" and f = gas, OF assms] by blast
  then show ?thesis
    by (intro exI [of _ "sd_total_gas d @ new"]) (auto simp: total_gas_index_execute_def total_gas_index_unwind_def)
qed

definition gas_sample :: StageDb where
  "gas_sample = (unwind_sample [])\<lparr>sd_total_gas := [(0, 100)], sd_canonical_header := [(0, 10), (1, 11), (2, 12)],
     sd_header := (\<lambda>_. Some (sample_block_header\<lparr>bh_gas_used := 21000\<rparr>))\<rparr>"

theorem total_gas_index_exact_witness:
  "\<exists>rows. total_gas_index_execute gas_sample \<lparr>si_restarted = False, si_first_started_at = None,
       si_previous_stage = Some (''Headers'', 2), si_stage_progress = Some 0\<rparr>
     = Some (Inr (ExecProgress 2 True, gas_sample\<lparr>sd_total_gas := rows\<rparr>)) \<and> map_of rows 2 = Some 42100"
proof -
  have g: "block_gas_used gas_sample b = Some 21000" if "0 < b" "b \<le> 2" for b
  proof -
    have "unat b \<le> 2" using that(2) by (simp add: word_le_nat_alt)
    then have "b = 0 \<or> b = 1 \<or> b = 2" by (auto simp: word_unat_eq_iff)
    then show ?thesis using that(1) by (auto simp: block_gas_used_def gas_sample_def seek_exact_def)
  qed
  let ?input = "\<lparr>si_restarted = False, si_first_started_at = None,
       si_previous_stage = Some (''Headers'', 2), si_stage_progress = Some 0\<rparr> :: StageInput"
  have total_gas: "100 + sum_list (map (\<lambda>_. 21000) (blocks_from (0 + 1) 2)) = (42100 :: u64)" by (simp add: blocks_from_simps)
  have "dups_ok (sd_total_gas gas_sample)" "sd_total_gas gas_sample \<noteq> []" "last (sd_total_gas gas_sample) = (0, 100)"
    by (simp_all add: gas_sample_def dups_ok_def)
  note exact = total_gas_index_exact [OF this, where max_block = 2 and gas = "\<lambda>_. 21000"
      and previous = "''Headers''" and input = ?input]
  obtain rows where ex: "total_gas_index_execute gas_sample ?input
      = Some (Inr (ExecProgress 2 True, gas_sample\<lparr>sd_total_gas := rows\<rparr>))"
    and at: "\<forall>b. 0 < b \<and> b \<le> 2 \<longrightarrow> map_of rows b = Some (100 + sum_list (map (\<lambda>_. 21000) (blocks_from (0 + 1) b)))"
    using exact [OF _ g] by (auto simp del: map_replicate_const)
  have "map_of rows 2 = Some (100 + sum_list (map (\<lambda>_. 21000) (blocks_from (0 + 1) 2)))" using spec [OF at, of 2] by (simp del: map_replicate_const)
  then have "map_of rows 2 = Some 42100" unfolding total_gas .
  with ex show ?thesis by blast
qed

text \<open>After the block hash stage every canonical block is found under its hash, and unwinding it gives the table back.\<close>

theorem block_hashes_roundtrip:
  assumes "dups_ok (sd_header_number d)" "dups_ok (sd_canonical_header d)" "distinct (map snd (sd_canonical_header d))"
    "si_stage_progress input = Some prev" "prev < - 1"
    "\<And>n h. (n, h) \<in> set (sd_canonical_header d) \<Longrightarrow> prev < n \<Longrightarrow> map_of (sd_header_number d) h = None"
  shows "\<exists>n rows. block_hashes_execute d input = Some (Inr (ExecProgress n True, d\<lparr>sd_header_number := rows\<rparr>))
    \<and> (\<forall>n h. (n, h) \<in> set (sd_canonical_header d) \<and> prev < n \<longrightarrow> map_of rows h = Some n)
    \<and> block_hashes_unwind (d\<lparr>sd_header_number := rows\<rparr>) \<lparr>ui_stage_progress = n, ui_unwind_to = prev\<rparr> = (d, prev)"
proof -
  define new where "new = filter (\<lambda>r. prev < fst r) (sd_canonical_header d)"
  obtain n rows where ex: "block_hashes_execute d input = Some (Inr (ExecProgress n True, d\<lparr>sd_header_number := rows\<rparr>))"
    "dups_ok rows" "map_of rows = map_of (sd_header_number d) ++ map_of (map (\<lambda>(n, h). (h, n)) new)"
    using block_hashes_executed [OF assms(1-5)] by (auto simp: new_def)
  have dist: "distinct (map snd new)" using assms(3) by (simp add: new_def distinct_map_filter)
  have m: "map_of (map (\<lambda>(n, h). (h, n)) new) h = Some m \<longleftrightarrow> (m, h) \<in> set new" for h m
    using dist by (subst map_of_eq_Some_iff) (force simp: comp_def case_prod_unfold)+
  have found: "map_of rows h = Some m" if "(m, h) \<in> set new" for m h using m that by (simp add: ex(3))
  let ?hs = "map snd (rev new)"
  have "fold (\<lambda>(_, h). delete_found h) (rev new) rows = fold delete_found ?hs rows"
    by (simp add: fold_map comp_def case_prod_unfold)
  moreover have "dups_ok (fold delete_found ?hs rows)"
    "map_of (fold delete_found ?hs rows) = (\<lambda>h. if h \<in> set ?hs then None else map_of rows h)"
    using delete_all_found [OF ex(2), of ?hs] found dist by (fastforce simp: rev_map [symmetric])+
  moreover have "(if h \<in> set ?hs then None else map_of rows h) = map_of (sd_header_number d) h" for h
    using assms(6) m by (auto simp: ex(3) map_add_def new_def image_iff split: option.splits)
  ultimately have "fold (\<lambda>(_, h). delete_found h) (rev new) rows = sd_header_number d"
    using assms(1) by (auto intro: dups_ok_unique)
  then show ?thesis
    using ex(1) found assms(2) takeWhile_back [of "sd_canonical_header d" "\<lambda>n. n > prev"]
    by (auto simp: block_hashes_unwind_def new_def dups_ok_def case_prod_unfold)
qed

definition hashes_sample :: StageDb where
  "hashes_sample = (unwind_sample [])\<lparr>sd_header_number := [(10, 0)], sd_canonical_header := [(0, 10), (1, 12), (2, 11)]\<rparr>"

theorem block_hashes_roundtrip_witness:
  "\<exists>n rows. block_hashes_execute hashes_sample \<lparr>si_restarted = False, si_first_started_at = None,
       si_previous_stage = Some (''Headers'', 2), si_stage_progress = Some 0\<rparr>
     = Some (Inr (ExecProgress n True, hashes_sample\<lparr>sd_header_number := rows\<rparr>)) \<and> map_of rows 11 = Some 2"
proof -
  let ?input = "\<lparr>si_restarted = False, si_first_started_at = None,
       si_previous_stage = Some (''Headers'', 2), si_stage_progress = Some 0\<rparr> :: StageInput"
  have ok: "dups_ok (sd_header_number hashes_sample)" "dups_ok (sd_canonical_header hashes_sample)"
    "distinct (map snd (sd_canonical_header hashes_sample))"
    and m: "(2, 11) \<in> set (sd_canonical_header hashes_sample)"
    and free: "\<And>n h. (n, h) \<in> set (sd_canonical_header hashes_sample) \<Longrightarrow> 0 < n \<Longrightarrow> map_of (sd_header_number hashes_sample) h = None"
    by (auto simp: hashes_sample_def dups_ok_def)
  have pos: "(0 :: u64) < - 1" by (simp add: word_neq_0_conv [symmetric])
  obtain n rows where "block_hashes_execute hashes_sample ?input
      = Some (Inr (ExecProgress n True, hashes_sample\<lparr>sd_header_number := rows\<rparr>))"
    and at: "\<forall>n h. (n, h) \<in> set (sd_canonical_header hashes_sample) \<and> 0 < n \<longrightarrow> map_of rows h = Some n"
    using block_hashes_roundtrip [OF ok, of ?input 0] free pos by auto
  moreover have "map_of rows 11 = Some 2" using spec [OF spec [OF at, of 2], of 11] m by simp
  ultimately show ?thesis by blast
qed

end
