(* ===== verification/StagedSync.thy ===== *)
theory StagedSync
  imports StageIndices
begin

text \<open>
  The driver of the stages, \<open>src/stagedsync/mod.rs\<close>, with the progress of a stage kept in the table
  \<open>SyncStage\<close> (\<open>src/stagedsync/stages.rs\<close>).

  A stage is a record of its name and its two operations, which return no value when they panic. A run
  works on a transaction: the model passes the tables as the transaction sees them and, beside them, the
  tables as last committed, which are what an aborted transaction leaves. The loops that run a stage until
  it is done, or unwind it until it is below the unwind point, need not end, and the one that starts the
  next round is not meant to. Logging, timing and the delay between two rounds are left out.
\<close>

section \<open>Stages and their progress\<close>

record Stage =
  sg_id :: string
  sg_execute :: "StageDb \<Rightarrow> StageInput \<Rightarrow> (StageError + ExecOutput \<times> StageDb) option"
  sg_unwind :: "StageDb \<Rightarrow> UnwindInput \<Rightarrow> (StageError + StageDb \<times> u64) option"

definition get_progress :: "string \<Rightarrow> StageDb \<Rightarrow> u64 option" where
  "get_progress s tx = sd_sync_stage tx s"

definition save_progress :: "string \<Rightarrow> u64 \<Rightarrow> StageDb \<Rightarrow> StageDb" where
  "save_progress s n tx = tx\<lparr>sd_sync_stage := (sd_sync_stage tx)(s \<mapsto> n)\<rparr>"

definition unwrap_or_default :: "u64 option \<Rightarrow> u64" where
  "unwrap_or_default n = (case n of Some n \<Rightarrow> n | None \<Rightarrow> 0)"

section \<open>Unwinding\<close>

partial_function (option) unwind_loop :: "Stage \<Rightarrow> u64 \<Rightarrow> u64 \<Rightarrow> StageDb \<Rightarrow> (StageError + StageDb) option" where
  "unwind_loop stage to_block stage_progress tx =
     (if stage_progress > to_block then
        Option.bind (sg_unwind stage tx \<lparr>ui_stage_progress = stage_progress, ui_unwind_to = to_block\<rparr>) (\<lambda>r.
          case r of
            Inl e \<Rightarrow> Some (Inl e)
          | Inr (tx, stage_progress) \<Rightarrow>
              unwind_loop stage to_block stage_progress (save_progress (sg_id stage) stage_progress tx))
      else Some (Inr tx))"

definition unwind_stage :: "Stage \<Rightarrow> u64 \<Rightarrow> StageDb \<Rightarrow> (StageError + StageDb) option" where
  "unwind_stage stage to_block tx = unwind_loop stage to_block (unwrap_or_default (get_progress (sg_id stage) tx)) tx"

fun unwind_each :: "Stage list \<Rightarrow> u64 \<Rightarrow> StageDb \<Rightarrow> (StageError + StageDb) option" where
  "unwind_each [] to_block tx = Some (Inr tx)"
| "unwind_each (stage # stages) to_block tx = do {
     r \<leftarrow> unwind_stage stage to_block tx;
     try_then r (unwind_each stages to_block) }"

definition unwind_stages :: "Stage list \<Rightarrow> u64 \<Rightarrow> StageDb \<Rightarrow> (StageError + StageDb) option" where
  "unwind_stages stages to_block tx = unwind_each (rev stages) to_block tx"

section \<open>Running\<close>

record StagedSync =
  ss_stages :: "Stage list"
  ss_min_progress_to_commit_after_stage :: u64
  ss_max_block :: "u64 option"
  ss_exit_after_sync :: bool
  ss_delay_after_sync :: "nat option"

definition StagedSync_new :: StagedSync where
  "StagedSync_new = \<lparr>ss_stages = [], ss_min_progress_to_commit_after_stage = 0, ss_max_block = None,
     ss_exit_after_sync = False, ss_delay_after_sync = None\<rparr>"

definition push_stage :: "Stage \<Rightarrow> StagedSync \<Rightarrow> StagedSync" where
  "push_stage stage ss = ss\<lparr>ss_stages := ss_stages ss @ [stage]\<rparr>"

definition set_min_progress_to_commit_after_stage :: "u64 \<Rightarrow> StagedSync \<Rightarrow> StagedSync" where
  "set_min_progress_to_commit_after_stage v ss = ss\<lparr>ss_min_progress_to_commit_after_stage := v\<rparr>"

definition set_max_block :: "u64 option \<Rightarrow> StagedSync \<Rightarrow> StagedSync" where
  "set_max_block v ss = ss\<lparr>ss_max_block := v\<rparr>"

definition set_exit_after_sync :: "bool \<Rightarrow> StagedSync \<Rightarrow> StagedSync" where
  "set_exit_after_sync v ss = ss\<lparr>ss_exit_after_sync := v\<rparr>"

definition set_delay_after_sync :: "nat option \<Rightarrow> StagedSync \<Rightarrow> StagedSync" where
  "set_delay_after_sync v ss = ss\<lparr>ss_delay_after_sync := v\<rparr>"

text \<open>
  Where a run stands: the tables as committed, the tables as the transaction sees them, and the least
  progress that a stage has reported in the round.
\<close>

record Round =
  rd_committed :: StageDb
  rd_tx :: StageDb
  rd_minimum_progress :: "u64 option"

datatype 'a outcome =
    Completed 'a Round
  | UnwindRequested u64 StageDb
  | StageFailed StageError StageDb

definition note_progress :: "StagedSync \<Rightarrow> Stage \<Rightarrow> u64 option \<Rightarrow> u64 \<Rightarrow> StageDb \<Rightarrow> Round \<Rightarrow> Round" where
  "note_progress ss stage start_progress stage_progress tx rd =
     (let tx = save_progress (sg_id stage) stage_progress tx;
          minimum_progress = (case rd_minimum_progress rd of Some m \<Rightarrow> min m stage_progress | None \<Rightarrow> stage_progress);
          since = (if stage_progress \<ge> unwrap_or_default start_progress then stage_progress - unwrap_or_default start_progress else 0)
      in \<lparr>rd_committed = (if since \<ge> ss_min_progress_to_commit_after_stage ss then tx else rd_committed rd),
          rd_tx = tx, rd_minimum_progress = Some minimum_progress\<rparr>)"

partial_function (option) stage_loop ::
  "StagedSync \<Rightarrow> Stage \<Rightarrow> u64 option \<Rightarrow> (string \<times> u64) option \<Rightarrow> bool \<Rightarrow> Round \<Rightarrow> u64 outcome option" where
  "stage_loop ss stage start_progress previous_stage restarted rd =
     Option.bind (sg_execute stage (rd_tx rd) \<lparr>si_restarted = restarted, si_first_started_at = start_progress,
         si_previous_stage = previous_stage, si_stage_progress = get_progress (sg_id stage) (rd_tx rd)\<rparr>) (\<lambda>r.
       case r of
         Inl e \<Rightarrow> Some (StageFailed e (rd_committed rd))
       | Inr (output, tx) \<Rightarrow>
           (case output of
              ExecProgress stage_progress done \<Rightarrow>
                (if done then Some (Completed stage_progress (note_progress ss stage start_progress stage_progress tx rd))
                 else stage_loop ss stage start_progress previous_stage True
                        (note_progress ss stage start_progress stage_progress tx rd))
            | ExecUnwind to_block \<Rightarrow> Some (UnwindRequested to_block (rd_committed rd))))"

fun run_stages :: "StagedSync \<Rightarrow> Stage list \<Rightarrow> (string \<times> u64) option \<Rightarrow> Round \<Rightarrow> unit outcome option" where
  "run_stages ss [] previous_stage rd = Some (Completed () (rd\<lparr>rd_committed := rd_tx rd\<rparr>))"
| "run_stages ss (stage # stages) previous_stage rd = do {
     r \<leftarrow> stage_loop ss stage (get_progress (sg_id stage) (rd_tx rd)) previous_stage False rd;
     case r of
       Completed done_progress rd \<Rightarrow> run_stages ss stages (Some (sg_id stage, done_progress)) rd
     | UnwindRequested to_block db \<Rightarrow> Some (UnwindRequested to_block db)
     | StageFailed e db \<Rightarrow> Some (StageFailed e db) }"

text \<open>One turn of \<open>'run_loop\<close>: the unwind point of the next turn, or that the run is over.\<close>

datatype turn =
    NextTurn "u64 option" StageDb
  | RunReturns StageDb
  | RunFails StageError StageDb

definition run_turn :: "StagedSync \<Rightarrow> u64 option \<Rightarrow> StageDb \<Rightarrow> turn option" where
  "run_turn ss unwind_to db = (case unwind_to of
       Some to_block \<Rightarrow> do {
         r \<leftarrow> unwind_stages (ss_stages ss) to_block db;
         Some (case r of Inl e \<Rightarrow> RunFails e db | Inr tx \<Rightarrow> NextTurn None tx) }
     | None \<Rightarrow> do {
         r \<leftarrow> run_stages ss (ss_stages ss) None \<lparr>rd_committed = db, rd_tx = db, rd_minimum_progress = None\<rparr>;
         Some (case r of
             Completed _ rd \<Rightarrow>
               if rd_minimum_progress rd \<noteq> None \<and> rd_minimum_progress rd = ss_max_block ss then RunReturns (rd_committed rd)
               else NextTurn None (rd_committed rd)
           | UnwindRequested to_block db \<Rightarrow> NextTurn (Some to_block) db
           | StageFailed e db \<Rightarrow> RunFails e db) })"

partial_function (option) run_loop :: "StagedSync \<Rightarrow> u64 option \<Rightarrow> StageDb \<Rightarrow> (StageError option \<times> StageDb) option" where
  "run_loop ss unwind_to db =
     Option.bind (run_turn ss unwind_to db) (\<lambda>t. case t of
         NextTurn unwind_to db \<Rightarrow> run_loop ss unwind_to db
       | RunReturns db \<Rightarrow> Some (None, db)
       | RunFails e db \<Rightarrow> Some (Some e, db))"

definition run :: "StagedSync \<Rightarrow> StageDb \<Rightarrow> (StageError option \<times> StageDb) option" where
  "run ss db = run_loop ss None db"

section \<open>The stages\<close>

definition total_gas_index_stage :: Stage where
  "total_gas_index_stage = \<lparr>sg_id = ''TotalGasIndex'', sg_execute = total_gas_index_execute,
     sg_unwind = (\<lambda>tx input. Some (Inr (total_gas_index_unwind tx input)))\<rparr>"

definition block_hashes_stage :: Stage where
  "block_hashes_stage = \<lparr>sg_id = ''BlockHashes'', sg_execute = block_hashes_execute,
     sg_unwind = (\<lambda>tx input. Some (Inr (block_hashes_unwind tx input)))\<rparr>"

definition total_tx_index_stage :: Stage where
  "total_tx_index_stage = \<lparr>sg_id = ''TotalTxIndex'', sg_execute = total_tx_index_execute,
     sg_unwind = (\<lambda>tx input. Some (Inr (total_tx_index_unwind tx input)))\<rparr>"

text \<open>The execution of the blocks themselves is a parameter here.\<close>

definition execution_stage ::
  "(StageDb \<Rightarrow> StageInput \<Rightarrow> (StageError + ExecOutput \<times> StageDb) option) \<Rightarrow> Stage" where
  "execution_stage execute = \<lparr>sg_id = ''Execution'', sg_execute = execute,
     sg_unwind = (\<lambda>tx input. Some (Inr (execution_unwind tx input)))\<rparr>"

definition hash_state_stage :: "lib \<Rightarrow> u64 \<Rightarrow> Stage" where
  "hash_state_stage L clean_promotion_threshold = \<lparr>sg_id = ''HashState'', sg_execute = hash_state_execute L clean_promotion_threshold,
     sg_unwind = (\<lambda>tx input. Some (Inr (hash_state_unwind L tx input)))\<rparr>"

text \<open>Of the next two stages, the unwinding is modelled; their execution is a parameter.\<close>

definition sender_recovery_unwind :: "StageDb \<Rightarrow> UnwindInput \<Rightarrow> StageDb \<times> u64" where
  "sender_recovery_unwind tx input =
     (tx\<lparr>sd_tx_sender := unwind_last (\<lambda>k. fst k > ui_unwind_to input) (sd_tx_sender tx)\<rparr>, ui_unwind_to input)"

definition sender_recovery_stage ::
  "(StageDb \<Rightarrow> StageInput \<Rightarrow> (StageError + ExecOutput \<times> StageDb) option) \<Rightarrow> Stage" where
  "sender_recovery_stage execute = \<lparr>sg_id = ''SenderRecovery'', sg_execute = execute,
     sg_unwind = (\<lambda>tx input. Some (Inr (sender_recovery_unwind tx input)))\<rparr>"

text \<open>The intermediate hashes are dropped altogether: the stage starts over from block zero.\<close>

definition interhashes_unwind :: "StageDb \<Rightarrow> UnwindInput \<Rightarrow> StageDb \<times> u64" where
  "interhashes_unwind tx input = (tx\<lparr>sd_trie_account := [], sd_trie_storage := []\<rparr>, 0)"

definition interhashes_stage ::
  "(StageDb \<Rightarrow> StageInput \<Rightarrow> (StageError + ExecOutput \<times> StageDb) option) \<Rightarrow> Stage" where
  "interhashes_stage execute = \<lparr>sg_id = ''IntermediateHashes'', sg_execute = execute,
     sg_unwind = (\<lambda>tx input. Some (Inr (interhashes_unwind tx input)))\<rparr>"

definition finish_execute :: "StageDb \<Rightarrow> StageInput \<Rightarrow> (StageError + ExecOutput \<times> StageDb) option" where
  "finish_execute tx input =
     Some (Inr (ExecProgress (case si_previous_stage input of Some (_, b) \<Rightarrow> b | None \<Rightarrow> 0) True, tx))"

definition finish_stage :: Stage where
  "finish_stage = \<lparr>sg_id = ''Finish'', sg_execute = finish_execute,
     sg_unwind = (\<lambda>tx input. Some (Inr (tx, ui_unwind_to input)))\<rparr>"

section \<open>Stages that go back\<close>

lemma progress_simps [simp]:
  "get_progress s (save_progress s n tx) = Some n"
  "s \<noteq> i \<Longrightarrow> get_progress i (save_progress s n tx) = get_progress i tx"
  by (auto simp: get_progress_def save_progress_def)

text \<open>
  What the driver relies on: unwinding a stage that is above the unwind point succeeds, brings it down,
  and leaves the progress of the stages to the driver.
\<close>

locale unwind_descends =
  fixes unwind :: "StageDb \<Rightarrow> UnwindInput \<Rightarrow> (StageError + StageDb \<times> u64) option"
  assumes goes_back: "to_block < p \<Longrightarrow> \<exists>tx' p'. unwind tx \<lparr>ui_stage_progress = p, ui_unwind_to = to_block\<rparr> = Some (Inr (tx', p'))
    \<and> p' < p \<and> sd_sync_stage tx' = sd_sync_stage tx"
begin

lemma loop_descends:
  assumes "sg_unwind stage = unwind"
  shows "\<exists>tx' q. unwind_loop stage to_block p tx = Some (Inr tx') \<and> q \<le> to_block
    \<and> sd_sync_stage tx' = (if to_block < p then (sd_sync_stage tx)(sg_id stage \<mapsto> q) else sd_sync_stage tx)"
proof (induction "unat p" arbitrary: p tx rule: less_induct)
  case less
  show ?case
  proof (cases "to_block < p")
    case True
    then obtain tx' p' where u: "unwind tx \<lparr>ui_stage_progress = p, ui_unwind_to = to_block\<rparr> = Some (Inr (tx', p'))"
      "p' < p" "sd_sync_stage tx' = sd_sync_stage tx" using goes_back by blast
    have "unat p' < unat p" using u(2) by (simp add: word_less_nat_alt)
    then obtain tx1 q where r: "unwind_loop stage to_block p' (save_progress (sg_id stage) p' tx') = Some (Inr tx1)" "q \<le> to_block"
      "sd_sync_stage tx1 = (if to_block < p' then (sd_sync_stage (save_progress (sg_id stage) p' tx'))(sg_id stage \<mapsto> q)
         else sd_sync_stage (save_progress (sg_id stage) p' tx'))" using less by blast
    then show ?thesis using True u
      by (subst unwind_loop.simps) (cases "to_block < p'"; auto simp: assms save_progress_def not_less)
  next
    case False
    then show ?thesis by (subst unwind_loop.simps) (auto intro: exI [of _ to_block])
  qed
qed

end

text \<open>A stage that does not pass the point either ends exactly there.\<close>

locale unwind_contract = unwind_descends +
  assumes stops: "to_block < p \<Longrightarrow> unwind tx \<lparr>ui_stage_progress = p, ui_unwind_to = to_block\<rparr> = Some (Inr (tx', p')) \<Longrightarrow> to_block \<le> p'"
begin

lemma loop_returns:
  assumes "sg_unwind stage = unwind"
  shows "\<exists>tx'. unwind_loop stage to_block p tx = Some (Inr tx')
    \<and> sd_sync_stage tx' = (if to_block < p then (sd_sync_stage tx)(sg_id stage \<mapsto> to_block) else sd_sync_stage tx)"
proof (induction "unat p" arbitrary: p tx rule: less_induct)
  case less
  show ?case
  proof (cases "to_block < p")
    case True
    then obtain tx' p' where u: "unwind tx \<lparr>ui_stage_progress = p, ui_unwind_to = to_block\<rparr> = Some (Inr (tx', p'))"
      "p' < p" "sd_sync_stage tx' = sd_sync_stage tx" using goes_back by blast
    note le = stops [OF True u(1)]
    have "unat p' < unat p" using u(2) by (simp add: word_less_nat_alt)
    from less [OF this, of "save_progress (sg_id stage) p' tx'"]
    show ?thesis using True u le by (subst unwind_loop.simps) (auto simp: assms save_progress_def)
  next
    case False
    then show ?thesis by (subst unwind_loop.simps) simp
  qed
qed

end

text \<open>Where the stage \<open>s\<close> stands once it has been unwound from the tables \<open>tx\<close> to the tables \<open>tx'\<close>.\<close>

definition unwound :: "u64 \<Rightarrow> Stage \<Rightarrow> StageDb \<Rightarrow> StageDb \<Rightarrow> bool" where
  "unwound to_block s tx tx' \<longleftrightarrow>
     (if to_block < unwrap_or_default (get_progress (sg_id s) tx)
      then \<exists>p \<le> to_block. get_progress (sg_id s) tx' = Some p \<and> (unwind_contract (sg_unwind s) \<longrightarrow> p = to_block)
      else get_progress (sg_id s) tx' = get_progress (sg_id s) tx)"

lemma unwind_stage_descends:
  assumes "unwind_descends (sg_unwind s)"
  shows "\<exists>tx'. unwind_stage s to_block tx = Some (Inr tx') \<and> unwound to_block s tx tx'
    \<and> (\<forall>i. i \<noteq> sg_id s \<longrightarrow> get_progress i tx' = get_progress i tx)"
proof -
  let ?p = "unwrap_or_default (get_progress (sg_id s) tx)"
  obtain tx' q where 1: "unwind_stage s to_block tx = Some (Inr tx')" "q \<le> to_block"
    "sd_sync_stage tx' = (if to_block < ?p then (sd_sync_stage tx)(sg_id s \<mapsto> q) else sd_sync_stage tx)"
    using unwind_descends.loop_descends [OF assms refl, of to_block ?p tx] by (auto simp: unwind_stage_def)
  moreover have "sd_sync_stage tx' = (if to_block < ?p then (sd_sync_stage tx)(sg_id s \<mapsto> to_block) else sd_sync_stage tx)"
    if "unwind_contract (sg_unwind s)"
    using unwind_contract.loop_returns [OF that refl, of to_block ?p tx] 1(1) by (auto simp: unwind_stage_def)
  ultimately show ?thesis by (auto simp: unwound_def get_progress_def dest: map_upd_eqD1)
qed

lemma unwind_each_returns:
  assumes "\<And>s. s \<in> set stages \<Longrightarrow> unwind_descends (sg_unwind s)" "distinct (map sg_id stages)"
  shows "\<exists>tx'. unwind_each stages to_block tx = Some (Inr tx') \<and> (\<forall>s \<in> set stages. unwound to_block s tx tx')
    \<and> (\<forall>i. i \<notin> sg_id ` set stages \<longrightarrow> get_progress i tx' = get_progress i tx)"
  using assms
proof (induction stages arbitrary: tx)
  case (Cons s stages)
  obtain tx1 where 1: "unwind_stage s to_block tx = Some (Inr tx1)" "unwound to_block s tx tx1"
    "\<forall>i. i \<noteq> sg_id s \<longrightarrow> get_progress i tx1 = get_progress i tx"
    using unwind_stage_descends [OF Cons.prems(1) [of s], of to_block tx] by auto
  obtain tx2 where 2: "unwind_each stages to_block tx1 = Some (Inr tx2)" "\<forall>s \<in> set stages. unwound to_block s tx1 tx2"
    "\<forall>i. i \<notin> sg_id ` set stages \<longrightarrow> get_progress i tx2 = get_progress i tx1"
    using Cons.IH [of tx1] Cons.prems by auto
  have "sg_id s \<notin> sg_id ` set stages" using Cons.prems(2) by simp
  moreover from this have "\<forall>r \<in> set stages. sg_id r \<noteq> sg_id s" by (metis imageI)
  ultimately show ?case using 1 2 by (auto simp: unwound_def try_then_def)
qed (auto simp: get_progress_def)

text \<open>Stages that unwind at once.\<close>

lemma unwind_at_once:
  assumes "\<And>tx input. snd (f tx input) = ui_unwind_to input" "\<And>tx input. sd_sync_stage (fst (f tx input)) = sd_sync_stage tx"
  shows "unwind_contract (\<lambda>tx input. Some (Inr (f tx input)))"
proof
  fix to_block p tx assume "to_block < (p :: u64)"
  let ?i = "\<lparr>ui_stage_progress = p, ui_unwind_to = to_block\<rparr>"
  have f: "f tx ?i = (fst (f tx ?i), to_block)" using assms(1) [of tx ?i] by (simp add: prod_eq_iff)
  then show "\<exists>tx' p'. Some (Inr (f tx ?i)) = Some (Inr (tx', p')) \<and> p' < p \<and> sd_sync_stage tx' = sd_sync_stage tx"
    using assms(2) [of tx ?i] \<open>to_block < p\<close> by fastforce
next
  fix to_block p tx tx' p'
  assume "Some (Inr (f tx \<lparr>ui_stage_progress = p, ui_unwind_to = to_block\<rparr>)) = Some (Inr (tx', p'))"
  then show "to_block \<le> p'" using assms(1) [of tx "\<lparr>ui_stage_progress = p, ui_unwind_to = to_block\<rparr>"] by simp
qed

interpretation total_gas: unwind_contract "sg_unwind total_gas_index_stage"
  unfolding total_gas_index_stage_def Stage.simps by (rule unwind_at_once) (simp_all add: total_gas_index_unwind_def)

interpretation total_tx: unwind_contract "sg_unwind total_tx_index_stage"
  unfolding total_tx_index_stage_def Stage.simps by (rule unwind_at_once) (simp_all add: total_tx_index_unwind_def)

interpretation block_hashes: unwind_contract "sg_unwind block_hashes_stage"
  unfolding block_hashes_stage_def Stage.simps by (rule unwind_at_once) (simp_all add: block_hashes_unwind_def)

interpretation senders: unwind_contract "sg_unwind (sender_recovery_stage execute)"
  unfolding sender_recovery_stage_def Stage.simps by (rule unwind_at_once) (simp_all add: sender_recovery_unwind_def)

interpretation execution: unwind_contract "sg_unwind (execution_stage execute)"
  unfolding execution_stage_def Stage.simps
  by (rule unwind_at_once) (simp_all add: execution_unwind_def Let_def split: prod.splits)

interpretation hash_state: unwind_contract "sg_unwind (hash_state_stage L threshold)"
  unfolding hash_state_stage_def Stage.simps by (rule unwind_at_once) (simp_all add: hash_state_unwind_def Let_def)

interpretation finish: unwind_contract "sg_unwind finish_stage"
  unfolding finish_stage_def Stage.simps by (rule unwind_at_once [where f = "\<lambda>tx input. (tx, ui_unwind_to input)"]) simp_all

interpretation interhashes: unwind_descends "sg_unwind (interhashes_stage execute)"
proof
  fix to_block p tx assume "to_block < (p :: u64)"
  then have "0 < p" by (auto simp: word_less_nat_alt)
  then show "\<exists>tx' p'. sg_unwind (interhashes_stage execute) tx \<lparr>ui_stage_progress = p, ui_unwind_to = to_block\<rparr> = Some (Inr (tx', p'))
      \<and> p' < p \<and> sd_sync_stage tx' = sd_sync_stage tx"
    by (simp add: interhashes_stage_def interhashes_unwind_def)
qed

lemma unwind_stage_once:
  assumes "get_progress (sg_id s) tx = Some p" "to_block < p"
    "sg_unwind s tx \<lparr>ui_stage_progress = p, ui_unwind_to = to_block\<rparr> = Some (Inr (tx', to_block))"
  shows "unwind_stage s to_block tx = Some (Inr (save_progress (sg_id s) to_block tx'))"
  using assms unfolding unwind_stage_def unwrap_or_default_def
  by (simp add: unwind_loop.simps [of _ _ p]) (simp add: unwind_loop.simps)

section \<open>Properties\<close>

text \<open>C15: A turn of the run that unwinds ends, without an error, and leaves no stage above the unwind point: for
  stages whose unwinding goes down (\<open>unwind_descends\<close>), the loops over the stages, and over the steps of each of
  them, end; a stage that was above the point is at or below it, and exactly at it when its unwinding does not pass
  the point (\<open>unwind_contract\<close>); the progress of the other stages is as it was. The stages TotalGasIndex, BlockHashes,
  TotalTxIndex, SenderRecovery, Execution, HashState and Finish end exactly at the point; IntermediateHashes, which
  drops its tables, starts over from block zero.\<close>

theorem unwind_reaches_point:
  assumes "\<And>s. s \<in> set (ss_stages ss) \<Longrightarrow> unwind_descends (sg_unwind s)" "distinct (map sg_id (ss_stages ss))"
  shows "\<exists>db'. run_turn ss (Some to_block) db = Some (NextTurn None db')
    \<and> (\<forall>s \<in> set (ss_stages ss).
         if to_block < unwrap_or_default (get_progress (sg_id s) db)
         then \<exists>p \<le> to_block. get_progress (sg_id s) db' = Some p \<and> (unwind_contract (sg_unwind s) \<longrightarrow> p = to_block)
         else get_progress (sg_id s) db' = get_progress (sg_id s) db)
    \<and> (\<forall>i. i \<notin> sg_id ` set (ss_stages ss) \<longrightarrow> get_progress i db' = get_progress i db)"
proof -
  obtain db' where "unwind_each (rev (ss_stages ss)) to_block db = Some (Inr db')" "\<forall>s \<in> set (ss_stages ss). unwound to_block s db db'"
    "\<forall>i. i \<notin> sg_id ` set (ss_stages ss) \<longrightarrow> get_progress i db' = get_progress i db"
    using unwind_each_returns [of "rev (ss_stages ss)" to_block db] assms by (auto simp: rev_map [symmetric])
  then show ?thesis by (intro exI [of _ db']) (simp add: run_turn_def unwind_stages_def unwound_def)
qed

text \<open>The stages of the node that are modelled, in the order in which it pushes them.\<close>

definition sample_sync :: StagedSync where
  "sample_sync = fold push_stage [total_gas_index_stage, block_hashes_stage, total_tx_index_stage, sender_recovery_stage (\<lambda>_ _. None),
     execution_stage (\<lambda>_ _. None), hash_state_stage sample_lib 0, interhashes_stage (\<lambda>_ _. None), finish_stage] StagedSync_new"

lemmas stage_defs = total_gas_index_stage_def block_hashes_stage_def total_tx_index_stage_def sender_recovery_stage_def
  execution_stage_def hash_state_stage_def interhashes_stage_def finish_stage_def

theorem unwind_reaches_point_witness:
  "\<exists>db. run_turn sample_sync (Some 4) (save_progress ''TotalGasIndex'' 7 (save_progress ''BlockHashes'' 3
         (save_progress ''IntermediateHashes'' 7 gas_sample))) = Some (NextTurn None db)
     \<and> get_progress ''TotalGasIndex'' db = Some 4 \<and> get_progress ''BlockHashes'' db = Some 3
     \<and> (\<exists>p \<le> 4. get_progress ''IntermediateHashes'' db = Some p)"
proof -
  let ?db = "save_progress ''TotalGasIndex'' 7 (save_progress ''BlockHashes'' 3 (save_progress ''IntermediateHashes'' 7 gas_sample))"
  have st: "ss_stages sample_sync = [total_gas_index_stage, block_hashes_stage, total_tx_index_stage, sender_recovery_stage (\<lambda>_ _. None),
      execution_stage (\<lambda>_ _. None), hash_state_stage sample_lib 0, interhashes_stage (\<lambda>_ _. None), finish_stage]"
    by (simp add: sample_sync_def push_stage_def StagedSync_new_def)
  have "unwind_descends (sg_unwind s)" if "s \<in> set (ss_stages sample_sync)" for s
    using that total_gas.unwind_descends_axioms block_hashes.unwind_descends_axioms hash_state.unwind_descends_axioms
      total_tx.unwind_descends_axioms senders.unwind_descends_axioms execution.unwind_descends_axioms
      interhashes.unwind_descends_axioms finish.unwind_descends_axioms by (auto simp: st)
  moreover have "distinct (map sg_id (ss_stages sample_sync))" by (simp add: st stage_defs)
  ultimately obtain db where r: "run_turn sample_sync (Some 4) ?db = Some (NextTurn None db)" and
    s: "\<forall>s \<in> set (ss_stages sample_sync).
         if 4 < unwrap_or_default (get_progress (sg_id s) ?db)
         then \<exists>p \<le> 4. get_progress (sg_id s) db = Some p \<and> (unwind_contract (sg_unwind s) \<longrightarrow> p = 4)
         else get_progress (sg_id s) db = get_progress (sg_id s) ?db"
    using unwind_reaches_point [of sample_sync 4 ?db] by blast
  have ids: "sg_id total_gas_index_stage = ''TotalGasIndex''" "sg_id block_hashes_stage = ''BlockHashes''"
      "sg_id (interhashes_stage (\<lambda>_ _. None)) = ''IntermediateHashes''"
    by (simp_all add: stage_defs)
  have "get_progress ''TotalGasIndex'' db = Some 4"
    using s [rule_format, of total_gas_index_stage] total_gas.unwind_contract_axioms by (auto simp: st ids unwrap_or_default_def)
  moreover have "get_progress ''BlockHashes'' db = Some 3"
    using s [rule_format, of block_hashes_stage] by (simp add: st ids unwrap_or_default_def)
  moreover have "\<exists>p \<le> 4. get_progress ''IntermediateHashes'' db = Some p"
    using s [rule_format, of "interhashes_stage (\<lambda>_ _. None)"] by (auto simp: st ids unwrap_or_default_def)
  ultimately show ?thesis using r by blast
qed

text \<open>C14: Unwinding the state and its hashed copy through the driver restores both: since the stages are unwound in reverse
  order, the hashed copy is unwound while the change sets are still there, and accounts, storage and their hashed
  copies are those of the unwind point. This holds for every history that the change sets record in which no block
  above the point records as absent an account that is still absent after the block (undoing such a record deletes
  another account), and for hashes without collisions.\<close>

theorem unwind_restores_state_and_hashes:
  assumes "collision_free L" "state_recorded d h g t" "n < t"
    "\<And>b a. (b, a, None) \<in> set (sd_account_change_set d) \<Longrightarrow> n < b \<Longrightarrow> h b a \<noteq> None"
    "hashed_accounts L (h t) (sd_hashed_account d)" "hashed_slots L (g t) (sd_hashed_storage d)"
    "get_progress ''Execution'' d = Some t" "get_progress ''HashState'' d = Some t"
  shows "\<exists>d'. unwind_stages [execution_stage execute, hash_state_stage L threshold] n d = Some (Inr d')
    \<and> map_of (sd_account d') = h n \<and> (\<forall>a l. map_of (sd_storage d' a) l = g n (a, l))
    \<and> hashed_accounts L (h n) (sd_hashed_account d') \<and> hashed_slots L (g n) (sd_hashed_storage d')
    \<and> get_progress ''Execution'' d' = Some n \<and> get_progress ''HashState'' d' = Some n"
proof -
  have le: "n \<le> t" using assms(3) by simp
  obtain x y where x: "hash_state_unwind L d \<lparr>ui_stage_progress = t, ui_unwind_to = n\<rparr>
      = (d\<lparr>sd_hashed_account := x, sd_hashed_storage := y\<rparr>, n)" "hashed_accounts L (h n) x" "hashed_slots L (g n) y"
    using hash_state_unwound [OF assms(1,2) le assms(4-6)] by blast
  define d1 where "d1 = save_progress ''HashState'' n (d\<lparr>sd_hashed_account := x, sd_hashed_storage := y\<rparr>)"
  have 1: "unwind_stage (hash_state_stage L threshold) n d = Some (Inr d1)"
    using unwind_stage_once [of "hash_state_stage L threshold" d t n] assms(3,8) x(1) by (simp add: hash_state_stage_def d1_def)
  have "state_recorded d1 h g t" "sd_account_change_set d1 = sd_account_change_set d"
    using assms(2) by (simp_all add: d1_def save_progress_def state_recorded_def)
  then obtain d2 where d2: "execution_unwind d1 \<lparr>ui_stage_progress = t, ui_unwind_to = n\<rparr> = (d2, n)"
    "map_of (sd_account d2) = h n" "\<forall>a l. map_of (sd_storage d2 a) l = g n (a, l)"
    using execution_unwound [of d1 h g t "\<lparr>ui_stage_progress = t, ui_unwind_to = n\<rparr>"] le assms(4) by auto
  have 2: "unwind_stage (execution_stage execute) n d1 = Some (Inr (save_progress ''Execution'' n d2))"
    using unwind_stage_once [of "execution_stage execute" d1 t n d2] assms(3,7) d2(1)
    by (simp add: execution_stage_def d1_def get_progress_def save_progress_def)
  have "sd_hashed_account d2 = x" "sd_hashed_storage d2 = y" "sd_sync_stage d2 = sd_sync_stage d1"
    using d2(1) by (auto simp: execution_unwind_def Let_def d1_def save_progress_def split: prod.splits)
  then show ?thesis using 1 2 x d2
    by (auto simp: unwind_stages_def save_progress_def get_progress_def d1_def)
qed

definition hashed_sample :: StageDb where
  "hashed_sample = (unwind_sample [(1, 9, None)])\<lparr>sd_hashed_account := [(9, account_numbered 1)],
     sd_hashed_storage := (\<lambda>_. [])(9 := [(5, 3)]), sd_sync_stage := [''Execution'' \<mapsto> 1, ''HashState'' \<mapsto> 1]\<rparr>"

theorem unwind_restores_state_and_hashes_witness:
  "\<exists>d. unwind_stages [execution_stage (\<lambda>_ _. None), hash_state_stage sample_lib 0] 0 hashed_sample = Some (Inr d)
     \<and> map_of (sd_account d) = Map.empty \<and> map_of (sd_storage d 9) 5 = None
     \<and> hashed_accounts sample_lib Map.empty (sd_hashed_account d)"
proof -
  define h :: "u64 \<Rightarrow> address \<rightharpoonup> Account" where "h n = (if n = 0 then Map.empty else [9 \<mapsto> account_numbered 1])" for n
  define g :: "u64 \<Rightarrow> address \<times> u256 \<rightharpoonup> u256" where "g n = (if n = 0 then Map.empty else [(9, 5) \<mapsto> 3])" for n
  have "records_history [(1, 9, None)] h 1" "records_history [(1, (9, 5), None)] g 1"
    by (auto simp: records_history_def history_ok_def h_def g_def word_eq_1)
  then have rec: "state_recorded hashed_sample h g 1"
    by (auto simp: state_recorded_def hashed_sample_def unwind_sample_def dups_ok_def h_def g_def slot_change_def)
  have nine: "ucast a = (9 :: h256) \<longleftrightarrow> a = 9" for a :: address
  proof -
    have "ucast (9 :: address) = (9 :: h256)" by simp
    then show ?thesis using sample_lib_collision_free unfolding collision_free_def inj_def sample_lib_hashes by metis
  qed
  have copy: "hashed_accounts sample_lib (h 1) (sd_hashed_account hashed_sample)"
    "hashed_slots sample_lib (g 1) (sd_hashed_storage hashed_sample)"
    by (auto simp: hashed_accounts_def hashed_slots_def sample_lib_hashes h_def g_def dups_ok_def hashed_sample_def nine image_iff)
  have progress: "get_progress ''Execution'' hashed_sample = Some 1" "get_progress ''HashState'' hashed_sample = Some 1"
    by (simp_all add: hashed_sample_def get_progress_def)
  have born: "h b a \<noteq> None" if "(b, a, None) \<in> set (sd_account_change_set hashed_sample)" "0 < b" for b a
    using that by (simp add: hashed_sample_def unwind_sample_def h_def)
  obtain d where "unwind_stages [execution_stage (\<lambda>_ _. None), hash_state_stage sample_lib 0] 0 hashed_sample = Some (Inr d)"
    "map_of (sd_account d) = h 0" "\<forall>a l. map_of (sd_storage d a) l = g 0 (a, l)" "hashed_accounts sample_lib (h 0) (sd_hashed_account d)"
    using unwind_restores_state_and_hashes [OF sample_lib_collision_free rec _ born copy progress,
        where execute = "\<lambda>_ _. None" and threshold = 0] by auto
  then show ?thesis by (intro exI [of _ d]) (simp add: h_def g_def)
qed

end
