(* ===== verification/Trie.thy ===== *)
theory Trie
  imports TableCodec "HOL-Library.Sublist"
begin

text \<open>
  The Merkle Patricia trie: \<open>src/trie/hash_builder.rs\<close>, \<open>node.rs\<close>, \<open>prefix_set.rs\<close> and \<open>util.rs\<close>.

  The RLP encoding of a list (crate \<open>rlp\<close>) is a parameter: a stream is the list of the items appended to
  it, byte strings that it encodes and raw bytes that it takes over. The node collector, a callback, is the
  list of its calls, or none where the builder has no collector. The buffer that the builder keeps for the
  encoding of a node is not part of its state here, since it is overwritten before it is read.
\<close>

section \<open>Nibbles\<close>

type_synonym nibbles = "byte list"

text \<open>\<open>util.rs\<close>.\<close>

fun prefix_length :: "byte list \<Rightarrow> byte list \<Rightarrow> nat" where
  "prefix_length (a # as) (b # bs) = (if a \<noteq> b then 0 else Suc (prefix_length as bs))"
| "prefix_length _ _ = 0"

definition has_prefix :: "byte list \<Rightarrow> byte list \<Rightarrow> bool" where
  "has_prefix s p \<longleftrightarrow> take (length p) s = p"

definition assert_subset :: "16 word \<Rightarrow> 16 word \<Rightarrow> bool" where
  "assert_subset small big \<longleftrightarrow> and small big = small"

definition count_ones :: "16 word \<Rightarrow> nat" where
  "count_ones w = length (filter (bit w) [0..<16])"

definition digit_bit :: "byte \<Rightarrow> 16 word" where
  "digit_bit d = push_bit (unat d mod 16) 1"

fun pack_pairs :: "nibbles \<Rightarrow> byte list" where
  "pack_pairs (a # b # ns) = (push_bit 4 a + b) # pack_pairs ns"
| "pack_pairs [a] = [push_bit 4 a]"
| "pack_pairs [] = []"

definition pack_nibbles :: "nibbles \<Rightarrow> byte list" where
  "pack_nibbles ns = pack_pairs ns"

definition unpack_nibbles :: "byte list \<Rightarrow> nibbles" where
  "unpack_nibbles packed = concat (map (\<lambda>b. [drop_bit 4 b, and b 0x0F]) packed)"

definition encode_path :: "nibbles \<Rightarrow> bool \<Rightarrow> byte list" where
  "encode_path ns terminating =
     (let flag = (if terminating then 0x20 else 0) + (if odd (length ns) then 0x10 else 0)
      in if odd (length ns) then or flag (hd ns) # pack_pairs (tl ns) else flag # pack_pairs ns)"

section \<open>Nodes\<close>

record Node =
  nd_state_mask :: "16 word"
  nd_tree_mask :: "16 word"
  nd_hash_mask :: "16 word"
  nd_hashes :: "h256 list"
  nd_root_hash :: "h256 option"

definition Node_new :: "16 word \<Rightarrow> 16 word \<Rightarrow> 16 word \<Rightarrow> h256 list \<Rightarrow> h256 option \<Rightarrow> Node option" where
  "Node_new state_mask tree_mask hash_mask hashes root_hash =
     (if assert_subset tree_mask state_mask \<and> assert_subset hash_mask state_mask \<and> count_ones hash_mask = length hashes
      then Some \<lparr>nd_state_mask = state_mask, nd_tree_mask = tree_mask, nd_hash_mask = hash_mask, nd_hashes = hashes,
        nd_root_hash = root_hash\<rparr>
      else None)"

definition u16_to_be_bytes :: "16 word \<Rightarrow> byte list" where
  "u16_to_be_bytes w = [ucast (drop_bit 8 w), ucast w]"

definition u16_from_be_bytes :: "byte list \<Rightarrow> 16 word" where
  "u16_from_be_bytes bs = or (push_bit 8 (ucast (bs ! 0))) (ucast (bs ! 1))"

definition marshal_node :: "Node \<Rightarrow> byte list" where
  "marshal_node n = u16_to_be_bytes (nd_state_mask n) @ u16_to_be_bytes (nd_tree_mask n) @ u16_to_be_bytes (nd_hash_mask n)
     @ (case nd_root_hash n of Some h \<Rightarrow> to_be_bytes h | None \<Rightarrow> []) @ concat (map to_be_bytes (nd_hashes n))"

text \<open>The hashes in a slice whose length is a multiple of the length of a hash.\<close>

fun hashes_of :: "nat \<Rightarrow> byte list \<Rightarrow> h256 list" where
  "hashes_of 0 bs = []"
| "hashes_of (Suc n) bs = from_be_bytes (take 32 bs) # hashes_of n (drop 32 bs)"

text \<open>\<open>Some None\<close> is the \<open>None\<close> that the code returns; \<open>None\<close> is a panic.\<close>

definition unmarshal_node :: "byte list \<Rightarrow> Node option option" where
  "unmarshal_node v =
     (if length v < 6 then Some None
      else if (length v - 6) mod 32 \<noteq> 0 then Some None
      else
        let state_mask = u16_from_be_bytes (take 2 v);
            tree_mask = u16_from_be_bytes (take 2 (drop 2 v));
            hash_mask = u16_from_be_bytes (take 2 (drop 4 v));
            rest = drop 6 v;
            (root_hash, rest) = (if count_ones hash_mask + 1 = length rest div 32
               then (Some (from_be_bytes (take 32 rest)), drop 32 rest) else (None, rest))
        in map_option Some (Node_new state_mask tree_mask hash_mask (hashes_of (length rest div 32) rest) root_hash))"

section \<open>Prefix sets\<close>

text \<open>A set of byte strings, as the increasing list of them.\<close>

type_synonym PrefixSet = "byte list list"

definition prefix_set_contains :: "PrefixSet \<Rightarrow> byte list \<Rightarrow> bool" where
  "prefix_set_contains ps p = (case dropWhile (\<lambda>s. s < p) ps of s # _ \<Rightarrow> has_prefix s p | [] \<Rightarrow> False)"

definition prefix_set_insert :: "byte list \<Rightarrow> PrefixSet \<Rightarrow> PrefixSet" where
  "prefix_set_insert key ps = (if key \<in> set ps then ps else insort key ps)"

section \<open>The hash builder\<close>

datatype rlp_item = RlpData "byte list" | RlpRaw "byte list"

record trie_lib =
  tl_keccak256 :: "byte list \<Rightarrow> h256"
  tl_rlp_list :: "rlp_item list \<Rightarrow> byte list"

definition EMPTY_ROOT :: h256 where
  "EMPTY_ROOT = 0x56e81f171bcc55a6ff8345e692c0f86e5b48e01b996cadc001622fb5e363b421"

definition wrap_hash :: "h256 \<Rightarrow> byte list" where
  "wrap_hash h = 0xA0 # to_be_bytes h"

definition node_ref :: "trie_lib \<Rightarrow> byte list \<Rightarrow> byte list" where
  "node_ref L rlp = (if length rlp < KECCAK_LENGTH then rlp else wrap_hash (tl_keccak256 L rlp))"

definition leaf_node_rlp :: "trie_lib \<Rightarrow> nibbles \<Rightarrow> byte list \<Rightarrow> byte list" where
  "leaf_node_rlp L p v = tl_rlp_list L [RlpData (encode_path p True), RlpData v]"

definition extension_node_rlp :: "trie_lib \<Rightarrow> nibbles \<Rightarrow> byte list \<Rightarrow> byte list" where
  "extension_node_rlp L p child_ref = tl_rlp_list L [RlpData (encode_path p False), RlpRaw child_ref]"

datatype HashBuilderValue = HbBytes "byte list" | HbHash h256

record HashBuilder =
  hb_node_collector :: "(nibbles \<times> Node) list option"
  hb_key :: nibbles
  hb_value :: HashBuilderValue
  hb_is_in_db_trie :: bool
  hb_groups :: "16 word list"
  hb_tree_masks :: "16 word list"
  hb_hash_masks :: "16 word list"
  hb_stack :: "byte list list"

definition HashBuilder_new :: HashBuilder where
  "HashBuilder_new = \<lparr>hb_node_collector = None, hb_key = [], hb_value = HbBytes [], hb_is_in_db_trie = False,
     hb_groups = [], hb_tree_masks = [], hb_hash_masks = [], hb_stack = []\<rparr>"

definition vec_resize :: "nat \<Rightarrow> 'a \<Rightarrow> 'a list \<Rightarrow> 'a list" where
  "vec_resize n x xs = take n xs @ replicate (n - length xs) x"

text \<open>An update in place panics outside the vector.\<close>

definition vec_update :: "nat \<Rightarrow> ('a \<Rightarrow> 'a) \<Rightarrow> 'a list \<Rightarrow> 'a list option" where
  "vec_update i f xs = (if i < length xs then Some (xs[i := f (xs ! i)]) else None)"

definition vec_get :: "nat \<Rightarrow> 'a list \<Rightarrow> 'a option" where
  "vec_get i xs = (if i < length xs then Some (xs ! i) else None)"

text \<open>The children of a branch node, taken from the stack for the digits of the mask.\<close>

fun branch_items :: "16 word \<Rightarrow> 16 word \<Rightarrow> nat list \<Rightarrow> byte list list \<Rightarrow> rlp_item list \<times> byte list list" where
  "branch_items state_mask hash_mask [] children = ([], [])"
| "branch_items state_mask hash_mask (d # ds) children =
     (if bit state_mask d then
        let (items, hashes) = branch_items state_mask hash_mask ds (tl children)
        in (RlpRaw (hd children) # items, if bit hash_mask d then hd children # hashes else hashes)
      else
        let (items, hashes) = branch_items state_mask hash_mask ds children
        in (RlpData [] # items, hashes))"

definition branch_ref :: "trie_lib \<Rightarrow> 16 word \<Rightarrow> 16 word \<Rightarrow> HashBuilder \<Rightarrow> (byte list list \<times> HashBuilder) option" where
  "branch_ref L state_mask hash_mask hb =
     (if \<not> assert_subset hash_mask state_mask \<or> length (hb_stack hb) < count_ones state_mask then None
      else
        let first_child_idx = length (hb_stack hb) - count_ones state_mask;
            (items, child_hashes) = branch_items state_mask hash_mask [0..<16] (drop first_child_idx (hb_stack hb))
        in Some (child_hashes, hb\<lparr>hb_stack := take first_child_idx (hb_stack hb)
             @ [node_ref L (tl_rlp_list L (items @ [RlpData []]))]\<rparr>))"

definition builder_root :: "trie_lib \<Rightarrow> HashBuilder \<Rightarrow> h256" where
  "builder_root L hb =
     (if hb_stack hb = [] then EMPTY_ROOT
      else
        let r = last (hb_stack hb)
        in if length r = KECCAK_LENGTH + 1 then from_be_bytes (drop 1 r) else tl_keccak256 L r)"

text \<open>The parts of a turn of the loop in \<open>gen_struct_step\<close>: the value is pushed, an extension is built, a branch is closed.\<close>

definition push_value :: "trie_lib \<Rightarrow> nibbles \<Rightarrow> nibbles \<Rightarrow> HashBuilder \<Rightarrow> (bool \<times> HashBuilder) option" where
  "push_value L current short_node_key hb = (case hb_value hb of
       HbBytes leaf_value \<Rightarrow>
         Some (False, hb\<lparr>hb_stack := hb_stack hb @ [node_ref L (leaf_node_rlp L short_node_key leaf_value)]\<rparr>)
     | HbHash h \<Rightarrow>
         let hb = hb\<lparr>hb_stack := hb_stack hb @ [wrap_hash h]\<rparr>
         in if hb_node_collector hb \<noteq> None then do {
              tree_masks \<leftarrow> (if hb_is_in_db_trie hb
                then vec_update (length current - 1) (\<lambda>m. or m (digit_bit (last current))) (hb_tree_masks hb)
                else Some (hb_tree_masks hb));
              hash_masks \<leftarrow> vec_update (length current - 1) (\<lambda>m. or m (digit_bit (last current))) (hb_hash_masks hb);
              Some (True, hb\<lparr>hb_tree_masks := tree_masks, hb_hash_masks := hash_masks\<rparr>) }
            else Some (True, hb))"

definition build_extension :: "trie_lib \<Rightarrow> nibbles \<Rightarrow> nat \<Rightarrow> HashBuilder \<Rightarrow> HashBuilder option" where
  "build_extension L current len_from hb = do {
     (tree_masks, hash_masks) \<leftarrow>
       (if hb_node_collector hb \<noteq> None \<and> len_from > 0 then do {
          let flag = digit_bit (current ! (len_from - 1));
          hash_masks \<leftarrow> vec_update (len_from - 1) (\<lambda>m. and m (not flag)) (hb_hash_masks hb);
          m \<leftarrow> vec_get (length current - 1) (hb_tree_masks hb);
          tree_masks \<leftarrow> (if m \<noteq> 0 then vec_update (len_from - 1) (\<lambda>m. or m flag) (hb_tree_masks hb) else Some (hb_tree_masks hb));
          Some (tree_masks, hash_masks) }
        else Some (hb_tree_masks hb, hb_hash_masks hb));
     if hb_stack hb = [] then None
     else Some (hb\<lparr>hb_stack := butlast (hb_stack hb)
         @ [node_ref L (extension_node_rlp L (drop len_from current) (last (hb_stack hb)))],
       hb_hash_masks := vec_resize len_from 0 hash_masks, hb_tree_masks := vec_resize len_from 0 tree_masks\<rparr>) }"

definition close_branch :: "trie_lib \<Rightarrow> nibbles \<Rightarrow> nat \<Rightarrow> HashBuilder \<Rightarrow> HashBuilder option" where
  "close_branch L current len hb = do {
     group \<leftarrow> vec_get len (hb_groups hb);
     hash_mask \<leftarrow> vec_get len (hb_hash_masks hb);
     (child_hashes, hb) \<leftarrow> branch_ref L group hash_mask hb;
     case hb_node_collector hb of
       None \<Rightarrow> Some hb
     | Some collected \<Rightarrow> do {
         hash_masks \<leftarrow> (if len > 0 then vec_update (len - 1) (\<lambda>m. or m (digit_bit (current ! (len - 1)))) (hb_hash_masks hb)
           else Some (hb_hash_masks hb));
         let hb = hb\<lparr>hb_hash_masks := hash_masks\<rparr>;
         tree_mask \<leftarrow> vec_get len (hb_tree_masks hb);
         hash_mask \<leftarrow> vec_get len (hb_hash_masks hb);
         if tree_mask \<noteq> 0 \<or> hash_mask \<noteq> 0 then do {
           tree_masks \<leftarrow> (if len > 0 then vec_update (len - 1) (\<lambda>m. or m (digit_bit (current ! (len - 1)))) (hb_tree_masks hb)
             else Some (hb_tree_masks hb));
           let hb = hb\<lparr>hb_tree_masks := tree_masks\<rparr>;
           if \<exists>h \<in> set child_hashes. length h \<noteq> KECCAK_LENGTH + 1 then None
           else do {
             n \<leftarrow> Node_new group (hb_tree_masks hb ! len) (hb_hash_masks hb ! len) (map (\<lambda>h. from_be_bytes (drop 1 h)) child_hashes) None;
             let n = (if len = 0 then n\<lparr>nd_root_hash := Some (builder_root L hb)\<rparr> else n);
             Some (hb\<lparr>hb_node_collector := Some (collected @ [(take len current, n)])\<rparr>) } }
         else Some hb } }"

definition pop_zeros :: "16 word list \<Rightarrow> 16 word list" where
  "pop_zeros groups = rev (dropWhile (\<lambda>g. g = 0) (rev groups))"

function gen_struct_loop :: "trie_lib \<Rightarrow> nibbles \<Rightarrow> bool \<Rightarrow> nibbles \<Rightarrow> HashBuilder \<Rightarrow> HashBuilder option" where
  "gen_struct_loop L succeeding build_extensions current hb =
     (let preceding_exists = hb_groups hb \<noteq> [];
          preceding_len = length (hb_groups hb) - 1;
          common_prefix_len = prefix_length succeeding current;
          len = max preceding_len common_prefix_len
      in if \<not> len < length current then None
      else
        let groups = (if length (hb_groups hb) \<le> len then vec_resize (len + 1) 0 (hb_groups hb) else hb_groups hb);
            hb = hb\<lparr>hb_groups := groups[len := or (groups ! len) (digit_bit (current ! len))]\<rparr>;
            hb = (if length (hb_tree_masks hb) < length current
              then hb\<lparr>hb_tree_masks := vec_resize (length current) 0 (hb_tree_masks hb),
                hb_hash_masks := vec_resize (length current) 0 (hb_hash_masks hb)\<rparr> else hb);
            closing = (succeeding \<noteq> [] \<or> preceding_exists);
            len_from = (if closing then len + 1 else len);
            short_node_key = drop len_from current
        in do {
          (build_extensions, hb) \<leftarrow>
            (if build_extensions then Some (True, hb) else push_value L current short_node_key hb);
          hb \<leftarrow> (if build_extensions \<and> short_node_key \<noteq> [] then build_extension L current len_from hb else Some hb);
          if preceding_len \<le> common_prefix_len \<and> succeeding \<noteq> [] then Some hb
          else do {
            hb \<leftarrow> (if closing then close_branch L current len hb else Some hb);
            let hb = hb\<lparr>hb_groups := vec_resize len 0 (hb_groups hb), hb_tree_masks := vec_resize len 0 (hb_tree_masks hb),
              hb_hash_masks := vec_resize len 0 (hb_hash_masks hb)\<rparr>;
            if preceding_len = 0 then Some hb
            else gen_struct_loop L succeeding True (take preceding_len current) (hb\<lparr>hb_groups := pop_zeros (hb_groups hb)\<rparr>) } })"
  by pat_completeness auto
termination
  by (relation "measure (\<lambda>(_, _, _, current, _). length current)") (auto simp: Let_def)

declare gen_struct_loop.simps [simp del]

definition gen_struct_step :: "trie_lib \<Rightarrow> nibbles \<Rightarrow> nibbles \<Rightarrow> HashBuilder \<Rightarrow> HashBuilder option" where
  "gen_struct_step L current succeeding hb = gen_struct_loop L succeeding False current hb"

definition add_leaf :: "trie_lib \<Rightarrow> nibbles \<Rightarrow> byte list \<Rightarrow> HashBuilder \<Rightarrow> HashBuilder option" where
  "add_leaf L key v hb =
     (if \<not> hb_key hb < key then None
      else do {
        hb \<leftarrow> (if hb_key hb \<noteq> [] then gen_struct_step L (hb_key hb) key hb else Some hb);
        Some (hb\<lparr>hb_key := key, hb_value := HbBytes v\<rparr>) })"

definition add_branch_node :: "trie_lib \<Rightarrow> nibbles \<Rightarrow> h256 \<Rightarrow> bool \<Rightarrow> HashBuilder \<Rightarrow> HashBuilder option" where
  "add_branch_node L key h is_in_db_trie hb =
     (if \<not> (hb_key hb < key \<or> hb_key hb = [] \<and> key = []) then None
      else do {
        hb \<leftarrow> (if hb_key hb \<noteq> [] then gen_struct_step L (hb_key hb) key hb
          else if key = [] then Some (hb\<lparr>hb_stack := hb_stack hb @ [wrap_hash h]\<rparr>) else Some hb);
        Some (hb\<lparr>hb_key := key, hb_value := HbHash h, hb_is_in_db_trie := is_in_db_trie\<rparr>) })"

definition hb_finalize :: "trie_lib \<Rightarrow> HashBuilder \<Rightarrow> HashBuilder option" where
  "hb_finalize L hb =
     (if hb_key hb \<noteq> [] then do {
        hb \<leftarrow> gen_struct_step L (hb_key hb) [] hb;
        Some (hb\<lparr>hb_key := [], hb_value := HbBytes []\<rparr>) }
      else Some hb)"

definition root_hash :: "trie_lib \<Rightarrow> HashBuilder \<Rightarrow> (h256 \<times> HashBuilder) option" where
  "root_hash L hb = do { hb \<leftarrow> hb_finalize L hb; Some (builder_root L hb, hb) }"

fun add_leaves :: "trie_lib \<Rightarrow> (nibbles \<times> byte list) list \<Rightarrow> HashBuilder \<Rightarrow> HashBuilder option" where
  "add_leaves L [] hb = Some hb"
| "add_leaves L ((k, v) # es) hb = Option.bind (add_leaf L k v hb) (add_leaves L es)"

section \<open>The trie of a set of entries\<close>

text \<open>
  The reference definition, after the appendix of the yellow paper: one entry is a leaf with what is left of
  its key; several entries with a common prefix are an extension; otherwise they are a branch with a child
  for every first digit.
\<close>

type_synonym trie_leaves = "(nibbles \<times> byte list) list"

fun common_prefix :: "trie_leaves \<Rightarrow> nibbles" where
  "common_prefix [] = []"
| "common_prefix [(k, v)] = k"
| "common_prefix ((k, v) # es) = longest_common_prefix k (common_prefix es)"

definition child :: "byte \<Rightarrow> trie_leaves \<Rightarrow> trie_leaves" where
  "child d es = map (\<lambda>(k, v). (tl k, v)) (filter (\<lambda>(k, v). k \<noteq> [] \<and> hd k = d) es)"

definition drop_keys :: "nat \<Rightarrow> trie_leaves \<Rightarrow> trie_leaves" where
  "drop_keys n es = map (\<lambda>(k, v). (drop n k, v)) es"

lemma child_smaller: "child d es \<noteq> [] \<Longrightarrow> sum_list (map (Suc \<circ> length \<circ> fst) (child d es)) < sum_list (map (Suc \<circ> length \<circ> fst) es)"
proof -
  have le: "sum_list (map (Suc \<circ> length \<circ> fst) (child d xs)) \<le> sum_list (map (Suc \<circ> length \<circ> fst) xs)" for xs
    by (induction xs) (auto simp: child_def)
  show "child d es \<noteq> [] \<Longrightarrow> sum_list (map (Suc \<circ> length \<circ> fst) (child d es)) < sum_list (map (Suc \<circ> length \<circ> fst) es)"
  proof (induction es)
    case (Cons e es)
    show ?case
    proof (cases "fst e \<noteq> [] \<and> hd (fst e) = d")
      case True
      then have "length (tl (fst e)) < length (fst e)" by simp
      then show ?thesis using True le [of es] by (cases e) (simp add: child_def comp_def)
    next
      case False
      then show ?thesis using Cons by (cases e) (auto simp: child_def)
    qed
  qed (simp add: child_def)
qed

lemma common_prefix_le: "e \<in> set es \<Longrightarrow> prefix (common_prefix es) (fst e)"
proof (induction es rule: common_prefix.induct)
  case (3 k v e' es)
  then show ?case by (auto intro: prefix_order.trans [OF longest_common_prefix_prefix2] longest_common_prefix_prefix1)
qed auto

lemma drop_smaller:
  assumes "es \<noteq> []" "common_prefix es \<noteq> []"
  shows "sum_list (map (Suc \<circ> length \<circ> fst) (drop_keys (length (common_prefix es)) es)) < sum_list (map (Suc \<circ> length \<circ> fst) es)"
proof -
  have le: "sum_list (map (Suc \<circ> length \<circ> fst) (drop_keys n xs)) \<le> sum_list (map (Suc \<circ> length \<circ> fst) xs)" for n xs
    by (induction xs) (auto simp: drop_keys_def)
  obtain k v es' where es: "es = (k, v) # es'" using assms(1) by (cases es) auto
  have "length (drop (length (common_prefix es)) k) < length k"
    using assms(2) common_prefix_le [of "(k, v)" es] by (cases k) (auto simp: es)
  then show ?thesis using le [of "length (common_prefix es)" es'] by (simp add: es drop_keys_def)
qed

function trie_node :: "trie_lib \<Rightarrow> trie_leaves \<Rightarrow> byte list" where
  "trie_node L es =
     (if es = [] then []
      else if length es = 1 then leaf_node_rlp L (fst (hd es)) (snd (hd es))
      else if common_prefix es \<noteq> [] then
        extension_node_rlp L (common_prefix es) (node_ref L (trie_node L (drop_keys (length (common_prefix es)) es)))
      else tl_rlp_list L (map (\<lambda>d. if child (of_nat d) es \<noteq> [] then RlpRaw (node_ref L (trie_node L (child (of_nat d) es))) else RlpData [])
        [0..<16] @ [RlpData []]))"
  by pat_completeness auto
termination
  by (relation "measure (\<lambda>(_, es). sum_list (map (Suc \<circ> length \<circ> fst) es))") (use child_smaller drop_smaller in \<open>auto simp: comp_def\<close>)

declare trie_node.simps [simp del]

definition trie_root :: "trie_lib \<Rightarrow> trie_leaves \<Rightarrow> h256" where
  "trie_root L es = (if es = [] then EMPTY_ROOT else tl_keccak256 L (trie_node L es))"

end
