(* ===== verification/TrieRoot.thy ===== *)
theory TrieRoot
  imports Trie
begin

text \<open>
  The hash builder computes the root of the trie. Along the key that is pending, the builder keeps for
  every level the digits of the finished subtries to its left, and on its stack their references; a step to
  the next key closes the branches that the two keys do not share.
\<close>

section \<open>Entries below a path\<close>

definition sub_entries :: "trie_leaves \<Rightarrow> nibbles \<Rightarrow> trie_leaves" where
  "sub_entries es p = map (\<lambda>(k, v). (drop (length p) k, v)) (filter (\<lambda>(k, v). prefix p k) es)"

definition left_of :: "nibbles \<Rightarrow> nibbles \<Rightarrow> bool" where
  "left_of k p \<longleftrightarrow> (\<exists>i. i < length k \<and> i < length p \<and> take i k = take i p \<and> k ! i < p ! i)"

definition below :: "trie_leaves \<Rightarrow> nibbles \<Rightarrow> bool" where
  "below es p \<longleftrightarrow> (\<forall>(k, v) \<in> set es. prefix p k \<or> left_of k p)"

definition digits_ok :: "trie_leaves \<Rightarrow> bool" where
  "digits_ok es \<longleftrightarrow> (\<forall>(k, v) \<in> set es. \<forall>d \<in> set k. unat d < 16)"

definition level_digits :: "trie_leaves \<Rightarrow> nibbles \<Rightarrow> nat \<Rightarrow> nat list" where
  "level_digits es p i = filter (\<lambda>d. of_nat d \<noteq> p ! i \<and> sub_entries es (take i p @ [of_nat d]) \<noteq> []) [0..<16]"

definition level_refs :: "trie_lib \<Rightarrow> trie_leaves \<Rightarrow> nibbles \<Rightarrow> nat \<Rightarrow> byte list list" where
  "level_refs L es p i = map (\<lambda>d. node_ref L (trie_node L (sub_entries es (take i p @ [of_nat d])))) (level_digits es p i)"

definition mask_of :: "nat list \<Rightarrow> 16 word" where
  "mask_of ds = fold (\<lambda>d m. or m (push_bit d 1)) ds 0"

definition level_masks :: "trie_leaves \<Rightarrow> nibbles \<Rightarrow> 16 word list" where
  "level_masks es p = map (\<lambda>i. mask_of (level_digits es p i)) [0..<length p]"

definition stack_to :: "trie_lib \<Rightarrow> trie_leaves \<Rightarrow> nibbles \<Rightarrow> nat \<Rightarrow> byte list list" where
  "stack_to L es p n = concat (map (level_refs L es p) [0..<n])"

lemma bit_digit: "bit (push_bit d (1 :: 16 word)) n \<longleftrightarrow> n = d \<and> n < 16"
  by (auto simp: bit_push_bit_iff bit_1_iff simp del: push_bit_of_1)

lemma bit_mask_of: "bit (mask_of ds) n \<longleftrightarrow> n \<in> set ds \<and> n < 16"
proof -
  have "bit (fold (\<lambda>d m. or m (push_bit d 1)) ds m) n \<longleftrightarrow> bit m n \<or> n \<in> set ds \<and> n < 16" for m :: "16 word"
    by (induction ds arbitrary: m) (auto simp: bit_or_iff bit_digit simp del: push_bit_of_1)
  then show ?thesis by (simp add: mask_of_def)
qed

lemma mask_of_eq_0: "(\<forall>d \<in> set ds. d < 16) \<Longrightarrow> mask_of ds = 0 \<longleftrightarrow> ds = []"
proof
  assume "\<forall>d \<in> set ds. d < 16" "mask_of ds = 0"
  then have "\<not> (n \<in> set ds \<and> n < 16)" for n by (metis bit_0_eq bit_mask_of bot_apply bot_bool_def)
  then show "ds = []" using \<open>\<forall>d \<in> set ds. d < 16\<close> by (cases ds) auto
qed (simp add: mask_of_def)

lemma mask_of_snoc: "mask_of (ds @ [d]) = or (mask_of ds) (push_bit d 1)"
  by (simp add: mask_of_def)

lemma count_ones_mask:
  assumes "sorted ds" "distinct ds" "\<forall>d \<in> set ds. d < 16"
  shows "filter (bit (mask_of ds)) [0..<16] = ds" "count_ones (mask_of ds) = length ds"
proof -
  show f: "filter (bit (mask_of ds)) [0..<16] = ds"
  proof (rule sorted_distinct_set_unique)
    show "sorted (filter (bit (mask_of ds)) [0..<16])" by (rule sorted_wrt_filter) simp
    show "set (filter (bit (mask_of ds)) [0..<16]) = set ds" using assms(3) by (auto simp: bit_mask_of)
  qed (use assms in auto)
  then show "count_ones (mask_of ds) = length ds" by (simp add: count_ones_def)
qed

lemma digit_bit_eq: "unat d < 16 \<Longrightarrow> digit_bit d = push_bit (unat d) 1"
  by (simp add: digit_bit_def)

lemma sub_entries_simps [simp]:
  "sub_entries es [] = es"
  "sub_entries (es @ fs) p = sub_entries es p @ sub_entries fs p"
  "sub_entries [] p = []"
  by (simp_all add: sub_entries_def case_prod_unfold)

lemma sub_entries_Nil: "sub_entries es p = [] \<longleftrightarrow> (\<forall>(k, v) \<in> set es. \<not> prefix p k)"
  by (auto simp: sub_entries_def filter_empty_conv)

lemma child_sub: "child d (sub_entries es p) = sub_entries es (p @ [d])"
proof (induction es)
  case (Cons e es)
  obtain k v where e: "e = (k, v)" by fastforce
  show ?case
  proof (cases "prefix p k")
    case True
    then obtain r where k: "k = p @ r" by (auto simp: prefix_def)
    have "prefix (p @ [d]) k \<longleftrightarrow> r \<noteq> [] \<and> hd r = d" by (cases r) (auto simp: k)
    then show ?thesis using Cons by (cases r) (auto simp: e k sub_entries_def child_def)
  next
    case False
    then have "\<not> prefix (p @ [d]) k" by (meson append_prefixD)
    then show ?thesis using False Cons by (auto simp: e sub_entries_def child_def)
  qed
qed (simp add: sub_entries_def child_def)

lemma prefix_snoc_iff: "prefix (q @ [d]) k \<longleftrightarrow> prefix q k \<and> length q < length k \<and> k ! length q = d"
proof (cases "prefix q k")
  case True
  then obtain r where "k = q @ r" by (auto elim: prefixE)
  then show ?thesis by (cases r) auto
next
  case False
  then show ?thesis by (meson append_prefixD)
qed

lemmas prefix_take_snoc = prefix_snoc_iff [of "take i p" for i p]

lemma prefix_take: "i \<le> length p \<Longrightarrow> prefix (take i p) k \<longleftrightarrow> take i k = take i p"
  by (auto simp: prefix_def) (metis append_eq_conv_conj length_take min.absorb2 append_take_drop_id)+

text \<open>Where an entry leaves the path, its digit is on that level.\<close>

lemma leaving_digit:
  assumes "digits_ok es" "(k, v) \<in> set es" "i < length k" "i < length p" "take i k = take i p" "k ! i \<noteq> p ! i"
  shows "unat (k ! i) \<in> set (level_digits es p i)"
proof -
  have "unat (k ! i) < 16" using assms(1-3) by (auto simp: digits_ok_def)
  moreover have "prefix (take i p @ [k ! i]) k" using assms(3-5) by (auto simp: prefix_take_snoc prefix_take)
  then have "sub_entries es (take i p @ [k ! i]) \<noteq> []" using assms(2) by (auto simp: sub_entries_Nil)
  ultimately show ?thesis using assms(6) by (simp add: level_digits_def)
qed

lemma quiet_levels:
  assumes "below es p" "digits_ok es" "m \<le> length p" "\<And>i. m \<le> i \<Longrightarrow> i < length p \<Longrightarrow> level_digits es p i = []"
    "(k, v) \<in> set es" "prefix (take m p) k"
  shows "prefix p k"
proof (rule ccontr)
  assume "\<not> prefix p k"
  then obtain i where i: "i < length k" "i < length p" "take i k = take i p" "k ! i < p ! i"
    using assms(1,5) by (auto simp: below_def left_of_def)
  have "m \<le> i"
  proof (rule ccontr)
    assume "\<not> m \<le> i"
    then have "k ! i = p ! i" using assms(3,6) i(1,2) by (auto simp: prefix_def nth_append)
    then show False using i(4) by simp
  qed
  moreover have "k ! i \<noteq> p ! i" using i(4) by (metis order.irrefl)
  ultimately show False using leaving_digit [OF assms(2,5) i(1-3)] assms(4) [of i] i(2) by simp
qed

definition prepend :: "nibbles \<Rightarrow> trie_leaves \<Rightarrow> trie_leaves" where
  "prepend p es = map (\<lambda>(k, v). (p @ k, v)) es"

lemma sub_entries_quiet:
  assumes "below es p" "digits_ok es" "m \<le> length p" "\<And>i. m \<le> i \<Longrightarrow> i < length p \<Longrightarrow> level_digits es p i = []"
  shows "sub_entries es (take m p) = prepend (drop m p) (sub_entries es p)"
proof -
  have "filter (\<lambda>(k, v). prefix (take m p) k) es = filter (\<lambda>(k, v). prefix p k) es"
  proof (rule filter_cong)
    fix e assume e: "e \<in> set es"
    have "prefix p (fst e) \<Longrightarrow> prefix (take m p) (fst e)" using take_is_prefix by (rule prefix_order.trans)
    then have "prefix (take m p) (fst e) \<longleftrightarrow> prefix p (fst e)"
      using quiet_levels [OF assms, of "fst e" "snd e"] e by auto
    then show "(case e of (k, v) \<Rightarrow> prefix (take m p) k) = (case e of (k, v) \<Rightarrow> prefix p k)"
      by (simp add: case_prod_unfold)
  qed simp
  moreover have "map (\<lambda>(k, v). (drop m k, v)) (filter (\<lambda>(k, v). prefix p k) es)
      = map (\<lambda>(k, v). (drop m p @ drop (length p) k, v)) (filter (\<lambda>(k, v). prefix p k) es)"
    using assms(3) by (intro map_cong) (auto simp: prefix_def)
  ultimately show ?thesis using assms(3) by (simp add: sub_entries_def prepend_def case_prod_unfold comp_def min_absorb2)
qed

section \<open>Nodes of entries with a common prefix\<close>

definition branching :: "trie_leaves \<Rightarrow> bool" where
  "branching es \<longleftrightarrow> 1 < length es \<and> common_prefix es = []"

lemma lcp_append: "longest_common_prefix (p @ xs) (p @ ys) = p @ longest_common_prefix xs ys"
  by (induction p) auto

lemma common_prefix_prepend: "es \<noteq> [] \<Longrightarrow> common_prefix (prepend p es) = p @ common_prefix es"
  by (induction es rule: common_prefix.induct) (auto simp: prepend_def lcp_append)

lemma drop_keys_prepend: "drop_keys (length p) (prepend p es) = es"
  by (induction es) (auto simp: drop_keys_def prepend_def)

lemma trie_node_prepend:
  assumes "branching es" "p \<noteq> []"
  shows "trie_node L (prepend p es) = extension_node_rlp L p (node_ref L (trie_node L es))"
proof -
  have "es \<noteq> []" using assms(1) by (auto simp: branching_def)
  then have "common_prefix (prepend p es) = p" "length (prepend p es) = length es"
    using assms(1) common_prefix_prepend [of es p] by (auto simp: branching_def prepend_def)
  then show ?thesis using assms drop_keys_prepend [of p es]
    by (subst trie_node.simps) (auto simp: branching_def)
qed

lemma prepend_Nil [simp]: "prepend [] es = es"
  by (simp add: prepend_def)

lemma trie_node_single: "trie_node L [(k, v)] = leaf_node_rlp L k v"
  by (subst trie_node.simps) simp

lemma trie_node_branch:
  assumes "branching es"
  shows "trie_node L es = tl_rlp_list L (map (\<lambda>d. if child (of_nat d) es \<noteq> []
      then RlpRaw (node_ref L (trie_node L (child (of_nat d) es))) else RlpData []) [0..<16] @ [RlpData []])"
  using assms by (subst trie_node.simps) (auto simp: branching_def)

text \<open>Two different first digits make a branch.\<close>

lemma branchingI:
  assumes "child a es \<noteq> []" "child b es \<noteq> []" "a \<noteq> b"
  shows "branching es"
proof -
  obtain k v l w where k: "(k, v) \<in> set es" "k \<noteq> []" "hd k = a" and l: "(l, w) \<in> set es" "l \<noteq> []" "hd l = b"
    using assms(1,2) by (fastforce simp: child_def filter_empty_conv)
  have "common_prefix es = []"
  proof (rule ccontr)
    assume "common_prefix es \<noteq> []"
    moreover have "prefix (common_prefix es) k" "prefix (common_prefix es) l"
      using common_prefix_le [OF k(1)] common_prefix_le [OF l(1)] by auto
    ultimately have "hd k = hd l" by (auto simp: prefix_def)
    then show False using k l assms(3) by simp
  qed
  moreover have "1 < length es"
  proof (rule ccontr)
    assume "\<not> 1 < length es"
    then have "(k, v) = (l, w)" using k(1) l(1) by (cases es) auto
    then show False using k(3) l(3) assms(3) by simp
  qed
  ultimately show ?thesis by (simp add: branching_def)
qed

section \<open>Levels\<close>

lemma level_digits_sorted: "sorted (level_digits es p i)" "distinct (level_digits es p i)" "\<forall>d \<in> set (level_digits es p i). d < 16"
  by (auto simp: level_digits_def intro: sorted_wrt_filter)

lemma level_digit_less:
  assumes "below es p" "i < length p" "d \<in> set (level_digits es p i)"
  shows "d < unat (p ! i)"
proof -
  have d: "d < 16" "of_nat d \<noteq> p ! i" "sub_entries es (take i p @ [of_nat d]) \<noteq> []" using assms(3) by (auto simp: level_digits_def)
  then obtain k v where k: "(k, v) \<in> set es" "prefix (take i p @ [of_nat d]) k" by (auto simp: sub_entries_Nil)
  have i: "i < length k" "take i k = take i p" "k ! i = of_nat d"
    using k(2) assms(2) by (auto simp: prefix_take_snoc prefix_take)
  have "\<not> prefix p k" using i d(2) assms(2) by (auto simp: prefix_def nth_append)
  then obtain j where j: "j < length k" "j < length p" "take j k = take j p" "k ! j < p ! j"
    using assms(1) k(1) by (auto simp: below_def left_of_def)
  have "j = i"
  proof (cases rule: linorder_cases [of j i])
    case less
    then have "k ! j = p ! j" using i(2) by (metis nth_take)
    then show ?thesis using j(4) by simp
  next
    case greater
    then have "k ! i = p ! i" using j(3) by (metis nth_take)
    then show ?thesis using i(3) d(2) by simp
  qed
  then have "of_nat d < p ! i" using j(4) i(3) by simp
  moreover have "unat (of_nat d :: byte) = d" using d(1) by (simp add: unat_of_nat)
  ultimately show ?thesis by (metis word_less_nat_alt)
qed

lemma filter_upt_snoc:
  assumes "\<And>d. d < n \<Longrightarrow> P' d \<longleftrightarrow> P d \<or> d = m" "\<And>d. d < n \<Longrightarrow> P d \<Longrightarrow> d < m" "m < n"
  shows "filter P' [0..<n] = filter P [0..<n] @ [m]"
proof (rule sorted_distinct_set_unique)
  show "sorted (filter P [0..<n] @ [m])"
    using assms(2) by (auto simp: sorted_append intro: sorted_wrt_filter less_imp_le)
  show "sorted (filter P' [0..<n])" by (rule sorted_wrt_filter) simp
  show "set (filter P' [0..<n]) = set (filter P [0..<n] @ [m])" using assms by auto
  show "distinct (filter P [0..<n] @ [m])" using assms(2) by auto
qed simp

lemma level_cong:
  assumes "take i p = take i q" "p ! i = q ! i"
  shows "level_digits es p i = level_digits es q i" "level_refs L es p i = level_refs L es q i"
  using assms by (simp_all add: level_digits_def level_refs_def)

lemma closing_digits:
  assumes "below es p" "i < length p" "unat (p ! i) < 16" "sub_entries es (take (Suc i) p) \<noteq> []"
  shows "filter (\<lambda>d. sub_entries es (take i p @ [of_nat d]) \<noteq> []) [0..<16] = level_digits es p i @ [unat (p ! i)]"
  unfolding level_digits_def
proof (rule filter_upt_snoc)
  fix d :: nat assume d: "d < 16"
  have "of_nat d = p ! i \<longleftrightarrow> d = unat (p ! i)" using d by (auto simp: word_unat_eq_iff unat_of_nat)
  then show "(sub_entries es (take i p @ [of_nat d]) \<noteq> []) \<longleftrightarrow>
      (of_nat d \<noteq> p ! i \<and> sub_entries es (take i p @ [of_nat d]) \<noteq> []) \<or> d = unat (p ! i)"
    using assms(2,4) by (auto simp: take_Suc_conv_app_nth)
next
  fix d :: nat assume "d < 16" "of_nat d \<noteq> p ! i \<and> sub_entries es (take i p @ [of_nat d]) \<noteq> []"
  then show "d < unat (p ! i)" using level_digit_less [OF assms(1,2), of d] by (simp add: level_digits_def)
qed (rule assms(3))

lemma sub_entries_mono: "sub_entries es (p @ r) \<noteq> [] \<Longrightarrow> sub_entries es p \<noteq> []"
  by (auto simp: sub_entries_Nil dest: append_prefixD)

lemma sub_entries_take: "sub_entries es p \<noteq> [] \<Longrightarrow> sub_entries es (take i p) \<noteq> []"
  by (metis append_take_drop_id sub_entries_mono)

text \<open>From a path to the next key: the subtrie of the path becomes the last digit of the level where they part.\<close>

lemma next_level:
  assumes "below es p" "below es s" "q < length p" "q < length s" "take q p = take q s" "p ! q < s ! q"
    "unat (p ! q) < 16" "sub_entries es p \<noteq> []"
  shows "level_digits es s q = level_digits es p q @ [unat (p ! q)]"
proof -
  have ne: "p ! q \<noteq> s ! q" using assms(6) by (metis order.irrefl)
  have "sub_entries es (take q p @ [s ! q]) = []"
  proof (rule ccontr)
    assume "sub_entries es (take q p @ [s ! q]) \<noteq> []"
    then obtain k v where k: "(k, v) \<in> set es" "prefix (take q p @ [s ! q]) k" by (auto simp: sub_entries_Nil)
    have i: "q < length k" "take q k = take q p" "k ! q = s ! q"
      using k(2) assms(3) by (auto simp: prefix_take_snoc prefix_take)
    have "\<not> prefix p k" using i ne assms(3) by (auto simp: prefix_def nth_append)
    then obtain j where j: "j < length k" "j < length p" "take j k = take j p" "k ! j < p ! j"
      using assms(1) k(1) by (auto simp: below_def left_of_def)
    show False
    proof (cases rule: linorder_cases [of j q])
      case less
      then have "k ! j = p ! j" using i(2) by (metis nth_take)
      then show ?thesis using j(4) by simp
    next
      case equal
      then show ?thesis using j(4) i(3) assms(6) by (metis order.asym)
    next
      case greater
      then have "k ! q = p ! q" using j(3) by (metis nth_take)
      then show ?thesis using i(3) ne by simp
    qed
  qed
  then have "level_digits es s q = filter (\<lambda>d. sub_entries es (take q p @ [of_nat d]) \<noteq> []) [0..<16]"
    unfolding level_digits_def using assms(5) by (intro filter_cong) auto
  then show ?thesis using closing_digits [OF assms(1,3,7) sub_entries_take [OF assms(8)]] by simp
qed

lemma later_levels:
  assumes "below es p" "q < length p" "q < length s" "take q p = take q s" "p ! q < s ! q" "q < i" "i < length s"
  shows "level_digits es s i = []"
proof (rule ccontr)
  assume "level_digits es s i \<noteq> []"
  then obtain d where "sub_entries es (take i s @ [of_nat d]) \<noteq> []"
    by (cases "level_digits es s i") (auto simp: level_digits_def filter_eq_Cons_iff)
  then obtain k v where k: "(k, v) \<in> set es" "prefix (take i s @ [of_nat d]) k" by (auto simp: sub_entries_Nil)
  have i: "i < length k" "take i k = take i s" using k(2) assms(7) by (auto simp: prefix_take_snoc prefix_take)
  have q: "k ! q = s ! q" "take q k = take q p"
    using i(2) assms(4,6) by (metis nth_take, metis take_take min.absorb1 less_imp_le)
  have "\<not> prefix p k" using q(1) assms(2,5) by (auto simp: prefix_def nth_append)
  then obtain j where j: "j < length k" "j < length p" "take j k = take j p" "k ! j < p ! j"
    using assms(1) k(1) by (auto simp: below_def left_of_def)
  show False
  proof (cases rule: linorder_cases [of j q])
    case less
    then have "k ! j = p ! j" using q(2) by (metis nth_take)
    then show ?thesis using j(4) by simp
  next
    case equal
    then show ?thesis using j(4) q(1) assms(5) by (metis order.asym)
  next
    case greater
    then have "k ! q = p ! q" using j(3) by (metis nth_take)
    then show ?thesis using q(1) assms(5) by simp
  qed
qed

section \<open>Groups\<close>

lemma pop_zeros_split: "\<exists>n. xs = pop_zeros xs @ replicate n 0"
proof -
  have "rev xs = takeWhile (\<lambda>g. g = 0) (rev xs) @ dropWhile (\<lambda>g. g = 0) (rev xs)" by simp
  then have "xs = pop_zeros xs @ rev (takeWhile (\<lambda>g. g = 0) (rev xs))"
    by (metis pop_zeros_def rev_append rev_rev_ident)
  moreover have "rev (takeWhile (\<lambda>g. g = 0) (rev xs)) = replicate (length (takeWhile (\<lambda>g. g = 0) (rev xs))) 0"
    by (rule replicate_eqI) (auto dest: set_takeWhileD)
  ultimately show ?thesis by metis
qed

lemma pop_zeros_last: "pop_zeros xs \<noteq> [] \<Longrightarrow> last (pop_zeros xs) \<noteq> 0"
  using hd_dropWhile [of "\<lambda>g. g = 0" "rev xs"] by (simp add: pop_zeros_def last_rev)

lemma pop_zeros_append: "x \<noteq> 0 \<Longrightarrow> pop_zeros (xs @ x # replicate n 0) = xs @ [x]"
  by (simp add: pop_zeros_def dropWhile_append)

lemma pop_zeros_levels:
  fixes es p
  defines "G \<equiv> pop_zeros (level_masks es p)"
  shows "length G \<le> length p"
    "\<And>i. length G \<le> i \<Longrightarrow> i < length p \<Longrightarrow> level_digits es p i = []"
    "\<And>i. i < length G \<Longrightarrow> G ! i = mask_of (level_digits es p i)"
    "G \<noteq> [] \<Longrightarrow> level_digits es p (length G - 1) \<noteq> []"
    "G = take (length G) (level_masks es p)"
proof -
  obtain n where n: "level_masks es p = G @ replicate n 0" using pop_zeros_split [of "level_masks es p"] by (auto simp: G_def)
  have len: "length (level_masks es p) = length p" by (simp add: level_masks_def)
  have nth: "level_masks es p ! i = mask_of (level_digits es p i)" if "i < length p" for i using that by (simp add: level_masks_def)
  show le: "length G \<le> length p" using n len by (metis length_append le_add1)
  show "level_digits es p i = []" if "length G \<le> i" "i < length p" for i
  proof -
    have "level_masks es p ! i = 0" using that n len by (auto simp: nth_append)
    then show ?thesis using nth [OF that(2)] mask_of_eq_0 [OF level_digits_sorted(3)] by simp
  qed
  show G: "G ! i = mask_of (level_digits es p i)" if "i < length G" for i
    using that nth [of i] le n by (simp add: nth_append)
  show "level_digits es p (length G - 1) \<noteq> []" if "G \<noteq> []"
  proof -
    have "last G \<noteq> 0" using that pop_zeros_last by (simp add: G_def)
    then have "G ! (length G - 1) \<noteq> 0" using that by (simp add: last_conv_nth)
    then have "mask_of (level_digits es p (length G - 1)) \<noteq> 0" using G [of "length G - 1"] that by simp
    then show ?thesis by (auto simp: mask_of_def)
  qed
  show "G = take (length G) (level_masks es p)" using n by simp
qed

lemma stack_to_Suc: "stack_to L es p (Suc n) = stack_to L es p n @ level_refs L es p n"
  by (simp add: stack_to_def)

lemma stack_to_quiet:
  "n \<le> m \<Longrightarrow> (\<And>i. n \<le> i \<Longrightarrow> i < m \<Longrightarrow> level_digits es p i = []) \<Longrightarrow> stack_to L es p m = stack_to L es p n"
proof (induction m)
  case (Suc m)
  then show ?case by (cases "n = Suc m") (auto simp: stack_to_Suc level_refs_def)
qed simp

lemma stack_to_cong:
  "(\<And>i. i < n \<Longrightarrow> take i p = take i q \<and> p ! i = q ! i) \<Longrightarrow> stack_to L es p n = stack_to L es q n"
  by (auto simp: stack_to_def intro!: arg_cong [where f = concat] level_cong(2))

lemma branch_items_filter:
  "branch_items m h ds (map f (filter (bit m) ds))
    = (map (\<lambda>d. if bit m d then RlpRaw (f d) else RlpData []) ds, map f (filter (\<lambda>d. bit m d \<and> bit h d) ds))"
  by (induction ds) auto

section \<open>One turn of the loop\<close>

definition masks_ok :: "HashBuilder \<Rightarrow> bool" where
  "masks_ok hb \<longleftrightarrow> hb_node_collector hb = None \<and> length (hb_tree_masks hb) = length (hb_hash_masks hb) \<and> set (hb_hash_masks hb) \<subseteq> {0}"

lemma resize_ok: "set xs \<subseteq> {0} \<Longrightarrow> set (vec_resize n 0 xs) \<subseteq> {0}" "length (vec_resize n x ys) = n"
  by (auto simp: vec_resize_def dest: in_set_takeD)

lemma node_pushed:
  assumes "masks_ok hb" "m \<le> length (hb_hash_masks hb)"
    "sub_entries es (take m p) = prepend (drop m p) (sub_entries es p)"
    "build \<Longrightarrow> branching (sub_entries es p) \<and> hb_stack hb = st @ [node_ref L (trie_node L (sub_entries es p))]"
    "\<not> build \<Longrightarrow> hb_value hb = HbBytes v \<and> sub_entries es p = [([], v)] \<and> hb_stack hb = st"
  shows "\<exists>b hb1 hb2. (if build then Some (True, hb) else push_value L p (drop m p) hb) = Some (b, hb1)
    \<and> (if b \<and> drop m p \<noteq> [] then build_extension L p m hb1 else Some hb1) = Some hb2
    \<and> hb_stack hb2 = st @ [node_ref L (trie_node L (sub_entries es (take m p)))]
    \<and> hb_groups hb2 = hb_groups hb \<and> masks_ok hb2 \<and> m \<le> length (hb_hash_masks hb2)"
proof (cases build)
  case True
  show ?thesis
  proof (cases "drop m p = []")
    case True
    then show ?thesis using \<open>build\<close> assms by (intro exI [of _ True] exI [of _ hb]) simp
  next
    case False
    have "trie_node L (sub_entries es (take m p)) = extension_node_rlp L (drop m p) (node_ref L (trie_node L (sub_entries es p)))"
      using trie_node_prepend [OF _ False] assms(3,4) True by simp
    moreover define hb2 where "hb2 = hb\<lparr>hb_stack := st @ [node_ref L (extension_node_rlp L (drop m p) (node_ref L (trie_node L (sub_entries es p))))],
        hb_hash_masks := vec_resize m 0 (hb_hash_masks hb), hb_tree_masks := vec_resize m 0 (hb_tree_masks hb)\<rparr>"
    moreover have "build_extension L p m hb = Some hb2" using True assms(1,4) by (simp add: build_extension_def masks_ok_def hb2_def)
    moreover have "masks_ok hb2" using assms(1) resize_ok(1) by (auto simp: masks_ok_def hb2_def resize_ok(2))
    ultimately show ?thesis using \<open>build\<close> False by (auto simp: resize_ok(2))
  qed
next
  case False
  then have "sub_entries es (take m p) = [(drop m p, v)]" using assms(3,5) by (simp add: prepend_def)
  then have "trie_node L (sub_entries es (take m p)) = leaf_node_rlp L (drop m p) v" by (simp add: trie_node_single)
  then show ?thesis using False assms(1,2,5)
    by (intro exI [of _ False] exI [of _ "hb\<lparr>hb_stack := st @ [node_ref L (leaf_node_rlp L (drop m p) v)]\<rparr>"])
      (simp add: push_value_def masks_ok_def)
qed

lemma branch_closed:
  assumes "below es p" "len < length p" "unat (p ! len) < 16" "sub_entries es p \<noteq> []" "level_digits es p len \<noteq> []"
    "masks_ok hb" "len < length (hb_groups hb)" "len < length (hb_hash_masks hb)"
    "hb_groups hb ! len = mask_of (level_digits es p len @ [unat (p ! len)])"
    "hb_stack hb = st @ level_refs L es p len @ [node_ref L (trie_node L (sub_entries es (take (Suc len) p)))]"
  shows "branching (sub_entries es (take len p))"
    "close_branch L p len hb = Some (hb\<lparr>hb_stack := st @ [node_ref L (trie_node L (sub_entries es (take len p)))]\<rparr>)"
proof -
  let ?ds = "level_digits es p len @ [unat (p ! len)]" and ?sub = "sub_entries es (take len p)"
  have ds: "filter (\<lambda>d. sub_entries es (take len p @ [of_nat d]) \<noteq> []) [0..<16] = ?ds"
    by (rule closing_digits [OF assms(1-3) sub_entries_take [OF assms(4)]])
  have "sorted ?ds" "distinct ?ds" "\<forall>d \<in> set ?ds. d < 16" unfolding ds [symmetric] by (auto intro: sorted_wrt_filter)
  note mask = count_ones_mask [OF this]
  have snoc: "take (Suc len) p = take len p @ [of_nat (unat (p ! len))]" using assms(2) by (simp add: take_Suc_conv_app_nth)
  obtain d where d: "d \<in> set (level_digits es p len)" using assms(5) by (cases "level_digits es p len") auto
  show branching: "branching ?sub"
  proof (rule branchingI [of "of_nat d" _ "p ! len"])
    show "child (of_nat d) ?sub \<noteq> []" "of_nat d \<noteq> p ! len" using d by (auto simp: child_sub level_digits_def)
    show "child (p ! len) ?sub \<noteq> []"
      using sub_entries_take [OF assms(4), of "Suc len"] assms(2) by (simp add: child_sub take_Suc_conv_app_nth)
  qed
  let ?f = "\<lambda>d. node_ref L (trie_node L (sub_entries es (take len p @ [of_nat d])))"
  have kids: "level_refs L es p len @ [node_ref L (trie_node L (sub_entries es (take (Suc len) p)))]
      = map ?f (filter (bit (mask_of ?ds)) [0..<16])"
    unfolding mask(1) by (simp add: level_refs_def snoc)
  have "bit (mask_of ?ds) d \<longleftrightarrow> child (of_nat d) ?sub \<noteq> []" if "d < 16" for d
  proof -
    have "bit (mask_of ?ds) d \<longleftrightarrow> d \<in> set ?ds" using that by (simp add: bit_mask_of)
    also have "\<dots> \<longleftrightarrow> sub_entries es (take len p @ [of_nat d]) \<noteq> []" unfolding ds [symmetric] using that by simp
    finally show ?thesis by (simp add: child_sub)
  qed
  then have "tl_rlp_list L (map (\<lambda>d. if bit (mask_of ?ds) d then RlpRaw (?f d) else RlpData []) [0..<16] @ [RlpData []]) = trie_node L ?sub"
    unfolding trie_node_branch [OF branching] child_sub
    by (intro arg_cong [where f = "tl_rlp_list L"] arg_cong2 [where f = append] map_cong) auto
  moreover have "hb_hash_masks hb ! len = 0" using assms(6) nth_mem [OF assms(8)] by (auto simp: masks_ok_def)
  moreover have "length (hb_stack hb) = length st + count_ones (mask_of ?ds)"
    "drop (length st) (hb_stack hb) = map ?f (filter (bit (mask_of ?ds)) [0..<16])"
    unfolding assms(10) kids by (simp_all add: count_ones_def)
  moreover have "take (length st) (hb_stack hb) = st" by (simp add: assms(10))
  ultimately have "branch_ref L (mask_of ?ds) (hb_hash_masks hb ! len) hb
      = Some ([], hb\<lparr>hb_stack := st @ [node_ref L (trie_node L ?sub)]\<rparr>)"
    by (simp add: branch_ref_def assert_subset_def branch_items_filter)
  then show "close_branch L p len hb = Some (hb\<lparr>hb_stack := st @ [node_ref L (trie_node L ?sub)]\<rparr>)"
    using assms(6-9) by (simp add: close_branch_def vec_get_def masks_ok_def)
qed

lemma prefix_length_eq:
  "q < length a \<Longrightarrow> q < length b \<Longrightarrow> take q a = take q b \<Longrightarrow> a ! q \<noteq> b ! q \<Longrightarrow> prefix_length a b = q"
proof (induction a b arbitrary: q rule: prefix_length.induct)
  case (1 a as b bs)
  then show ?case by (cases q) auto
qed auto

lemma prefix_length_Nil [simp]: "prefix_length [] b = 0"
  by simp

text \<open>The groups with the digit of the path, and the masks made long enough.\<close>

definition entered :: "nibbles \<Rightarrow> nat \<Rightarrow> 16 word list \<Rightarrow> HashBuilder \<Rightarrow> HashBuilder" where
  "entered p len gs hb = (let hb = hb\<lparr>hb_groups := gs\<rparr>
     in if length (hb_tree_masks hb) < length p
        then hb\<lparr>hb_tree_masks := vec_resize (length p) 0 (hb_tree_masks hb), hb_hash_masks := vec_resize (length p) 0 (hb_hash_masks hb)\<rparr>
        else hb)"

lemma entered_simps:
  "hb_groups (entered p len gs hb) = gs" "hb_stack (entered p len gs hb) = hb_stack hb" "hb_value (entered p len gs hb) = hb_value hb"
  "masks_ok hb \<Longrightarrow> masks_ok (entered p len gs hb)" "masks_ok hb \<Longrightarrow> length p \<le> length (hb_hash_masks (entered p len gs hb))"
  using resize_ok(1) by (auto simp: entered_def Let_def masks_ok_def resize_ok(2))

lemma loop_turn:
  assumes "len = max (length (hb_groups hb) - 1) (prefix_length s p)" "len < length p"
    "gs = (if length (hb_groups hb) \<le> len then vec_resize (len + 1) 0 (hb_groups hb) else hb_groups hb)"
    "closing = (s \<noteq> [] \<or> hb_groups hb \<noteq> [])" "m = (if closing then len + 1 else len)"
    "(if build then Some (True, entered p len (gs[len := or (gs ! len) (digit_bit (p ! len))]) hb)
      else push_value L p (drop m p) (entered p len (gs[len := or (gs ! len) (digit_bit (p ! len))]) hb)) = Some (b, hb1)"
    "(if b \<and> drop m p \<noteq> [] then build_extension L p m hb1 else Some hb1) = Some hb2"
  shows "gen_struct_loop L s build p hb =
    (if length (hb_groups hb) - 1 \<le> prefix_length s p \<and> s \<noteq> [] then Some hb2
     else Option.bind (if closing then close_branch L p len hb2 else Some hb2) (\<lambda>hb3.
       let hb4 = hb3\<lparr>hb_groups := vec_resize len 0 (hb_groups hb3), hb_tree_masks := vec_resize len 0 (hb_tree_masks hb3),
             hb_hash_masks := vec_resize len 0 (hb_hash_masks hb3)\<rparr>
       in if length (hb_groups hb) - 1 = 0 then Some hb4
          else gen_struct_loop L s True (take (length (hb_groups hb) - 1) p) (hb4\<lparr>hb_groups := pop_zeros (hb_groups hb4)\<rparr>)))"
proof -
  have e: "entered p len gs' hb = (if length (hb_tree_masks (hb\<lparr>hb_groups := gs'\<rparr>)) < length p
      then hb\<lparr>hb_groups := gs', hb_tree_masks := vec_resize (length p) 0 (hb_tree_masks (hb\<lparr>hb_groups := gs'\<rparr>)),
        hb_hash_masks := vec_resize (length p) 0 (hb_hash_masks (hb\<lparr>hb_groups := gs'\<rparr>))\<rparr>
      else hb\<lparr>hb_groups := gs'\<rparr>)" for gs' by (simp add: entered_def)
  show ?thesis
    unfolding gen_struct_loop.simps [of L s build p hb] Let_def
    by (simp only: assms(1) [symmetric] assms(2) assms(3) [symmetric] assms(4) [symmetric] assms(5) [symmetric] e [symmetric]
        assms(6,7) Option.bind.simps prod.case not_True_eq_False if_False)
qed

lemma entered_groups:
  assumes "below es p" "len < length p" "unat (p ! len) < 16" "G = pop_zeros (level_masks es p)" "length G - 1 \<le> len"
    "gs = (if length G \<le> len then vec_resize (len + 1) 0 G else G)"
  shows "gs[len := or (gs ! len) (digit_bit (p ! len))] = take len (level_masks es p) @ [mask_of (level_digits es p len @ [unat (p ! len)])]"
proof -
  note lv = pop_zeros_levels [where es = es and p = p, folded assms(4)]
  have len: "length (level_masks es p) = length p" by (simp add: level_masks_def)
  have nth: "level_masks es p ! i = mask_of (level_digits es p i)" if "i < length p" for i using that by (simp add: level_masks_def)
  have z: "level_masks es p ! i = 0" if "length G \<le> i" "i < length p" for i
    using lv(2) [OF that] nth [OF that(2)] by (simp add: mask_of_def)
  have gs: "gs = take (Suc len) (level_masks es p)"
  proof (cases "length G \<le> len")
    case True
    show ?thesis
    proof (rule nth_equalityI)
      show "length gs = length (take (Suc len) (level_masks es p))" using True assms(2,6) len by (simp add: resize_ok(2))
      fix i assume "i < length gs"
      then have i: "i \<le> len" using True by (simp add: assms(6) resize_ok(2))
      show "gs ! i = take (Suc len) (level_masks es p) ! i"
        using i True z [of i] lv(3) [of i] nth [of i] assms(2)
        by (auto simp: assms(6) vec_resize_def nth_append not_less)
    qed
  next
    case False
    then have "length G = Suc len" using assms(5) by simp
    then show ?thesis using False lv(5) by (simp add: assms(6))
  qed
  have "gs ! len = mask_of (level_digits es p len)" using gs nth [OF assms(2)] len assms(2) by simp
  then show ?thesis
    using assms(2,3) len by (simp add: gs take_Suc_conv_app_nth mask_of_snoc digit_bit_eq list_update_append)
qed

text \<open>What the loop starts from: the levels of a path, and its own subtrie, pushed or still to be pushed.\<close>

definition at_path :: "trie_lib \<Rightarrow> trie_leaves \<Rightarrow> nibbles \<Rightarrow> bool \<Rightarrow> HashBuilder \<Rightarrow> bool" where
  "at_path L es p build hb \<longleftrightarrow> below es p \<and> digits_ok es \<and> (\<forall>d \<in> set p. unat d < 16) \<and> p \<noteq> [] \<and> sub_entries es p \<noteq> []
     \<and> masks_ok hb \<and> hb_groups hb = pop_zeros (level_masks es p)
     \<and> (if build then branching (sub_entries es p) \<and> hb_stack hb = stack_to L es p (length p) @ [node_ref L (trie_node L (sub_entries es p))]
        else (\<exists>v. hb_value hb = HbBytes v \<and> sub_entries es p = [([], v)]) \<and> hb_stack hb = stack_to L es p (length p))"

definition before_key :: "trie_lib \<Rightarrow> trie_leaves \<Rightarrow> nibbles \<Rightarrow> HashBuilder \<Rightarrow> bool" where
  "before_key L es s hb \<longleftrightarrow> masks_ok hb \<and>
     (if s = [] then hb_groups hb = [] \<and> hb_stack hb = [node_ref L (trie_node L es)]
      else hb_groups hb = pop_zeros (level_masks es s) \<and> hb_stack hb = stack_to L es s (length s))"

lemma levels_to_next:
  assumes "below es p" "below es s" "q < length p" "q < length s" "take q p = take q s" "p ! q < s ! q"
    "unat (p ! q) < 16" "sub_entries es p \<noteq> []"
  shows "pop_zeros (level_masks es s) = take q (level_masks es p) @ [mask_of (level_digits es p q @ [unat (p ! q)])]"
    "stack_to L es s (length s) = stack_to L es p (Suc q) @ [node_ref L (trie_node L (sub_entries es (take (Suc q) p)))]"
proof -
  have same: "take i p = take i s \<and> p ! i = s ! i" if "i < q" for i
    using that assms(5) by (metis less_imp_le min.absorb1 nth_take take_take)
  note nl = next_level [OF assms]
  have quiet: "level_digits es s i = []" if "q < i" "i < length s" for i using later_levels [OF assms(1,3-6)] that by blast
  have "[0..<length s] = [0..<q] @ [q..<length s]" using upt_add_eq_append [of 0 q "length s - q"] assms(4) by simp
  also have "[q..<length s] = q # [Suc q..<length s]" using assms(4) by (rule upt_conv_Cons)
  finally have "level_masks es s = map (\<lambda>i. mask_of (level_digits es s i)) ([0..<q] @ q # [Suc q..<length s])"
    unfolding level_masks_def by (rule arg_cong)
  also have "\<dots> = take q (level_masks es p) @ mask_of (level_digits es p q @ [unat (p ! q)]) # replicate (length s - Suc q) 0"
  proof -
    have "level_digits es s i = level_digits es p i" if "i < q" for i using level_cong(1) [of i p s es] same [OF that] by simp
    then have "map (\<lambda>i. mask_of (level_digits es s i)) [0..<q] = map (\<lambda>i. mask_of (level_digits es p i)) [0..<q]" by simp
    then have "map (\<lambda>i. mask_of (level_digits es s i)) [0..<q] = take q (level_masks es p)"
      using assms(3) by (simp add: level_masks_def take_map)
    moreover have "map (\<lambda>i. mask_of (level_digits es s i)) [Suc q..<length s] = replicate (length s - Suc q) 0"
      using quiet by (intro replicate_eqI) (auto simp: mask_of_def)
    ultimately show ?thesis by (simp add: nl)
  qed
  finally have masks: "level_masks es s = take q (level_masks es p) @ mask_of (level_digits es p q @ [unat (p ! q)]) # replicate (length s - Suc q) 0" .
  have "mask_of (level_digits es p q @ [unat (p ! q)]) \<noteq> 0"
    using mask_of_eq_0 [of "level_digits es p q @ [unat (p ! q)]"] level_digits_sorted(3) [of es p q] assms(7) by auto
  then show "pop_zeros (level_masks es s) = take q (level_masks es p) @ [mask_of (level_digits es p q @ [unat (p ! q)])]"
    unfolding masks by (rule pop_zeros_append)
  have "stack_to L es s (length s) = stack_to L es s (Suc q)" using assms(4) quiet by (intro stack_to_quiet) auto
  also have "\<dots> = stack_to L es p q @ level_refs L es s q" using stack_to_cong [of q p s] same by (simp add: stack_to_Suc)
  also have "level_refs L es s q = level_refs L es p q @ [node_ref L (trie_node L (sub_entries es (take (Suc q) p)))]"
    using nl assms(3,5) by (simp add: level_refs_def take_Suc_conv_app_nth)
  finally show "stack_to L es s (length s) = stack_to L es p (Suc q) @ [node_ref L (trie_node L (sub_entries es (take (Suc q) p)))]"
    by (simp add: stack_to_Suc)
qed

lemma below_take: "below es p \<Longrightarrow> below es (take n p)"
proof -
  assume b: "below es p"
  have "prefix (take n p) k \<or> left_of k (take n p)" if kv: "(k, v) \<in> set es" for k v
  proof (cases "prefix p k")
    case True
    then show ?thesis using take_is_prefix [of n p] prefix_order.trans by blast
  next
    case False
    then obtain i where i: "i < length k" "i < length p" "take i k = take i p" "k ! i < p ! i"
      using b kv by (auto simp: below_def left_of_def)
    show ?thesis
    proof (cases "i < n")
      case True
      then have "left_of k (take n p)" using i by (auto simp: left_of_def min_absorb1 intro!: exI [of _ i])
      then show ?thesis ..
    next
      case False
      then have "take n k = take n p" using i(3) by (metis min.absorb1 not_less take_take)
      then have "prefix (take n p) k" by (metis take_is_prefix)
      then show ?thesis ..
    qed
  qed
  then show ?thesis by (auto simp: below_def)
qed

lemma level_masks_take: "n \<le> length p \<Longrightarrow> level_masks es (take n p) = take n (level_masks es p)"
proof -
  assume "n \<le> length p"
  then have "map (\<lambda>i. mask_of (level_digits es (take n p) i)) [0..<n] = map (\<lambda>i. mask_of (level_digits es p i)) [0..<n]"
    using level_cong(1) [of _ "take n p" p es] by (intro map_cong) (auto simp: min_absorb1)
  then show ?thesis using \<open>n \<le> length p\<close> by (simp add: level_masks_def take_map)
qed

lemma left_of_take: "left_of p s \<Longrightarrow> prefix_length s p < n \<Longrightarrow> left_of (take n p) s"
proof -
  assume "left_of p s" "prefix_length s p < n"
  then obtain q where q: "q < length p" "q < length s" "take q p = take q s" "p ! q < s ! q" by (auto simp: left_of_def)
  moreover have "prefix_length s p = q" using q by (intro prefix_length_eq) auto
  ultimately show ?thesis using \<open>prefix_length s p < n\<close> by (auto simp: left_of_def min_absorb1 intro!: exI [of _ q])
qed

lemma loop_correct:
  assumes "at_path L es p build hb" "s \<noteq> [] \<Longrightarrow> below es s \<and> left_of p s"
  shows "\<exists>hb'. gen_struct_loop L s build p hb = Some hb' \<and> before_key L es s hb'"
  using assms
proof (induction "length p" arbitrary: p build hb rule: less_induct)
  case less
  define G where "G = hb_groups hb"
  define q where "q = prefix_length s p"
  define len where "len = max (length G - 1) q"
  define closing where "closing = (s \<noteq> [] \<or> G \<noteq> [])"
  define m where "m = (if closing then len + 1 else len)"
  define gs where "gs = (if length G \<le> len then vec_resize (len + 1) 0 G else G)"
  define hb0 where "hb0 = entered p len (gs[len := or (gs ! len) (digit_bit (p ! len))]) hb"
  have b: "below es p" "digits_ok es" "\<forall>d \<in> set p. unat d < 16" "p \<noteq> []" "sub_entries es p \<noteq> []" "masks_ok hb" "G = pop_zeros (level_masks es p)"
    using less.prems(1) by (auto simp: at_path_def G_def)
  note lv = pop_zeros_levels [where es = es and p = p, folded b(7)]
  have parts: "q < length p \<and> q < length s \<and> take q p = take q s \<and> p ! q < s ! q \<and> below es s" if ne: "s \<noteq> []"
  proof -
    obtain i where i: "i < length p" "i < length s" "take i p = take i s" "p ! i < s ! i"
      using less.prems(2) ne by (auto simp: left_of_def)
    then have "prefix_length s p = i" by (intro prefix_length_eq) auto
    then show ?thesis using i less.prems(2) ne by (simp add: q_def)
  qed
  have q0: "q = 0" if "s = []" using that by (simp add: q_def)
  have "length G - 1 < length p" using lv(1) b(4) by (cases G) auto
  then have len: "len < length p" using parts q0 b(4) by (cases "s = []") (auto simp: len_def)
  have d16: "unat (p ! len) < 16" using b(3) len by simp
  have quiet: "level_digits es p i = []" if "m \<le> i" "i < length p" for i
    using lv(2) [of i] that by (auto simp: m_def len_def closing_def split: if_splits)
  have m_le: "m \<le> length p" using len by (simp add: m_def)
  have gs: "gs[len := or (gs ! len) (digit_bit (p ! len))] = take len (level_masks es p) @ [mask_of (level_digits es p len @ [unat (p ! len)])]"
    using entered_groups [OF b(1) len d16 b(7) _ gs_def] by (simp add: len_def)
  have mlen: "length (level_masks es p) = length p" by (simp add: level_masks_def)
  obtain v where v: "if build then branching (sub_entries es p) \<and> hb_stack hb = stack_to L es p (length p) @ [node_ref L (trie_node L (sub_entries es p))]
        else hb_value hb = HbBytes v \<and> sub_entries es p = [([], v)] \<and> hb_stack hb = stack_to L es p (length p)"
    using less.prems(1) by (auto simp: at_path_def split: if_splits)
  obtain f hb1 hb2 where hb2: "(if build then Some (True, hb0) else push_value L p (drop m p) hb0) = Some (f, hb1)"
    "(if f \<and> drop m p \<noteq> [] then build_extension L p m hb1 else Some hb1) = Some hb2"
    "hb_stack hb2 = stack_to L es p (length p) @ [node_ref L (trie_node L (sub_entries es (take m p)))]"
    "hb_groups hb2 = hb_groups hb0" "masks_ok hb2" "m \<le> length (hb_hash_masks hb2)"
  proof -
    have ok: "masks_ok hb0" "m \<le> length (hb_hash_masks hb0)"
      using entered_simps(4,5) [OF b(6)] m_le by (auto simp: hb0_def intro: order.trans)
    have sub: "sub_entries es (take m p) = prepend (drop m p) (sub_entries es p)"
      using b(1,2) m_le quiet by (rule sub_entries_quiet)
    have "hb_stack hb0 = hb_stack hb" "hb_value hb0 = hb_value hb" by (simp_all add: hb0_def entered_simps)
    then have "build \<Longrightarrow> branching (sub_entries es p) \<and> hb_stack hb0 = stack_to L es p (length p) @ [node_ref L (trie_node L (sub_entries es p))]"
      "\<not> build \<Longrightarrow> hb_value hb0 = HbBytes v \<and> sub_entries es p = [([], v)] \<and> hb_stack hb0 = stack_to L es p (length p)"
      using v by simp_all
    from node_pushed [OF ok sub this] show thesis using that by blast
  qed
  have groups: "hb_groups hb2 = take len (level_masks es p) @ [mask_of (level_digits es p len @ [unat (p ! len)])]"
    using hb2(4) gs by (simp add: hb0_def entered_simps)
  note turn = loop_turn [where hb = hb and s = s and p = p and build = build and L = L, folded G_def, folded q_def,
      OF len_def len gs_def closing_def m_def hb2(1) [unfolded hb0_def] hb2(2)]
  show ?case
  proof (cases "length G - 1 \<le> q \<and> s \<noteq> []")
    case True
    then have "len = q" "m = Suc q" by (auto simp: len_def m_def closing_def)
    have "stack_to L es p (length p) = stack_to L es p (Suc q)"
      using len quiet \<open>m = Suc q\<close> \<open>len = q\<close> by (intro stack_to_quiet) auto
    moreover have "q < length p" "q < length s" "take q p = take q s" "p ! q < s ! q" "below es s" using parts True by auto
    ultimately have "before_key L es s hb2"
      using levels_to_next [OF b(1) \<open>below es s\<close> \<open>q < length p\<close> \<open>q < length s\<close> \<open>take q p = take q s\<close> \<open>p ! q < s ! q\<close> _ b(5)]
        True d16 hb2(3,5) groups \<open>len = q\<close> \<open>m = Suc q\<close> by (simp add: before_key_def)
    then show ?thesis using True turn by simp
  next
    case False
    then have "s \<noteq> [] \<Longrightarrow> q < length G - 1" by linarith
    then have q: "q \<le> length G - 1" "s \<noteq> [] \<Longrightarrow> G \<noteq> []" using q0 by (cases "s = []", simp, simp, cases G, simp, simp)
    have G: "len = length G - 1" "closing \<longleftrightarrow> G \<noteq> []" using q(1) unfolding len_def closing_def by (simp add: max_absorb1) (use q(2) in blast)
    define p' where "p' = take (length G - 1) p"
    define hb3 where "hb3 = (if closing then hb2\<lparr>hb_stack := stack_to L es p len @ [node_ref L (trie_node L (sub_entries es (take len p)))]\<rparr> else hb2)"
    define hb4 where "hb4 = hb3\<lparr>hb_groups := vec_resize len 0 (hb_groups hb3), hb_tree_masks := vec_resize len 0 (hb_tree_masks hb3),
        hb_hash_masks := vec_resize len 0 (hb_hash_masks hb3)\<rparr>"
    have closed: "closing \<Longrightarrow> branching (sub_entries es (take len p))"
      "(if closing then close_branch L p len hb2 else Some hb2) = Some hb3"
    proof -
      have st: "stack_to L es p (length p) = stack_to L es p len @ level_refs L es p len" if closing
        using that len quiet by (subst stack_to_quiet [of "Suc len"]) (auto simp: m_def stack_to_Suc)
      have "level_digits es p len \<noteq> []" if closing using that lv(4) G by simp
      moreover have "len < length (hb_hash_masks hb2)" if closing using that hb2(6) by (simp add: m_def)
      moreover have "len < length (hb_groups hb2)" "hb_groups hb2 ! len = mask_of (level_digits es p len @ [unat (p ! len)])"
        using groups mlen len by (simp_all add: nth_append)
      ultimately show "closing \<Longrightarrow> branching (sub_entries es (take len p))"
        "(if closing then close_branch L p len hb2 else Some hb2) = Some hb3"
        using branch_closed [OF b(1) len d16 b(5) _ hb2(5), of "stack_to L es p len" L] hb2(3) st by (auto simp: hb3_def m_def)
    qed
    have "masks_ok hb4" using hb2(5) resize_ok(1) by (auto simp: masks_ok_def hb4_def hb3_def resize_ok(2))
    have groups4: "hb_groups hb4 = take len (level_masks es p)"
      using groups mlen len by (simp add: hb4_def hb3_def vec_resize_def)
    show ?thesis
    proof (cases "length G - 1 = 0")
      case True
      then have "s = []" using False by auto
      have "hb_stack hb4 = [node_ref L (trie_node L es)]"
      proof (cases closing)
        case True
        then show ?thesis using \<open>length G - 1 = 0\<close> G(1) by (simp add: hb4_def hb3_def stack_to_def)
      next
        case False
        then have "m = 0" "stack_to L es p (length p) = []"
          using G True stack_to_quiet [of 0 "length p" es p L] quiet by (auto simp: m_def stack_to_def)
        then show ?thesis using False hb2(3) by (simp add: hb4_def hb3_def)
      qed
      then have "before_key L es s hb4"
        using \<open>s = []\<close> \<open>masks_ok hb4\<close> groups4 True G(1) by (simp add: before_key_def)
      then show ?thesis using turn False True closed(2) by (simp add: hb4_def)
    next
      case pos: False
      then have closing: closing "G \<noteq> []" using G by auto
      have p': "p' = take len p" "length p' = len" "len > 0" using G pos len by (auto simp: p'_def)
      have "at_path L es p' True (hb4\<lparr>hb_groups := pop_zeros (hb_groups hb4)\<rparr>)"
        unfolding at_path_def
      proof (intro conjI)
        show "below es p'" using below_take [OF b(1)] by (simp add: p')
        show "\<forall>d \<in> set p'. unat d < 16" using b(3) by (auto simp: p' dest: in_set_takeD)
        show "p' \<noteq> []" using p' by auto
        show "sub_entries es p' \<noteq> []" using sub_entries_take [OF b(5)] by (simp add: p')
        show "masks_ok (hb4\<lparr>hb_groups := pop_zeros (hb_groups hb4)\<rparr>)" using \<open>masks_ok hb4\<close> by (simp add: masks_ok_def)
        show "hb_groups (hb4\<lparr>hb_groups := pop_zeros (hb_groups hb4)\<rparr>) = pop_zeros (level_masks es p')"
          using groups4 level_masks_take [of len p es] len by (simp add: p')
        have "stack_to L es p len = stack_to L es p' len"
          by (rule stack_to_cong) (auto simp: p' min_absorb1)
        then show "if True then branching (sub_entries es p') \<and> hb_stack (hb4\<lparr>hb_groups := pop_zeros (hb_groups hb4)\<rparr>)
              = stack_to L es p' (length p') @ [node_ref L (trie_node L (sub_entries es p'))]
            else (\<exists>v. hb_value (hb4\<lparr>hb_groups := pop_zeros (hb_groups hb4)\<rparr>) = HbBytes v \<and> sub_entries es p' = [([], v)])
              \<and> hb_stack (hb4\<lparr>hb_groups := pop_zeros (hb_groups hb4)\<rparr>) = stack_to L es p' (length p')"
          using closed(1) closing(1) p' by (simp add: hb4_def hb3_def)
      qed (rule b(2))
      moreover have "left_of p' s" if "s \<noteq> []"
        using less.prems(2) [OF that] left_of_take [of p s len] False that by (auto simp: p' q_def len_def)
      ultimately have "\<exists>hb'. gen_struct_loop L s True p' (hb4\<lparr>hb_groups := pop_zeros (hb_groups hb4)\<rparr>) = Some hb' \<and> before_key L es s hb'"
        using less.prems(2) p' len by (intro less.hyps) auto
      moreover have "gen_struct_loop L s build p hb = gen_struct_loop L s True p' (hb4\<lparr>hb_groups := pop_zeros (hb_groups hb4)\<rparr>)"
        unfolding turn if_not_P [OF False] closed(2) Option.bind.simps Let_def if_not_P [OF pos] hb4_def p'_def by (rule refl)
      ultimately show ?thesis by simp
    qed
  qed
qed

section \<open>Adding leaves\<close>

lemma less_left_of:
  "(a :: nibbles) < b \<Longrightarrow> \<not> prefix a b \<Longrightarrow> left_of a b"
proof (induction a arbitrary: b)
  case (Cons x a)
  then obtain y c where b: "b = y # c" by (cases b) auto
  show ?case
  proof (cases "x = y")
    case True
    then have "a < c" "\<not> prefix a c" using Cons.prems by (auto simp: b)
    then obtain i where "i < length a" "i < length c" "take i a = take i c" "a ! i < c ! i"
      using Cons.IH by (auto simp: left_of_def)
    then show ?thesis using True by (auto simp: left_of_def b intro!: exI [of _ "Suc i"])
  next
    case False
    then have "x < y" using Cons.prems(1) by (simp add: b)
    then show ?thesis by (auto simp: left_of_def b intro!: exI [of _ 0])
  qed
qed simp

text \<open>Entries in the order of their keys, none of which is a prefix of another, with digits for nibbles.\<close>

definition trie_entries :: "trie_leaves \<Rightarrow> bool" where
  "trie_entries es \<longleftrightarrow> sorted_wrt (\<lambda>e f. fst e < fst f \<and> \<not> prefix (fst e) (fst f)) es \<and> digits_ok es \<and> [] \<notin> fst ` set es"

definition pending :: "trie_lib \<Rightarrow> trie_leaves \<Rightarrow> nibbles \<Rightarrow> byte list \<Rightarrow> HashBuilder \<Rightarrow> bool" where
  "pending L es k v hb \<longleftrightarrow> hb_key hb = k \<and> hb_value hb = HbBytes v \<and> k \<noteq> [] \<and> before_key L es k hb"

lemma trie_entries_append:
  assumes "trie_entries (es @ (k, v) # fs)"
  shows "trie_entries es" "below es k" "\<forall>d \<in> set k. unat d < 16" "k \<noteq> []" "digits_ok (es @ [(k, v)])"
    "\<And>l w. (l, w) \<in> set es \<Longrightarrow> \<not> prefix k l"
proof -
  have e: "l < k \<and> \<not> prefix l k" if "(l, w) \<in> set es" for l w using assms that by (force simp: trie_entries_def sorted_wrt_append)
  show "trie_entries es" "\<forall>d \<in> set k. unat d < 16" "k \<noteq> []" "digits_ok (es @ [(k, v)])"
    using assms by (auto simp: trie_entries_def sorted_wrt_append digits_ok_def)
  show "below es k" using e less_left_of by (auto simp: below_def)
  show "\<not> prefix k l" if "(l, w) \<in> set es" for l w
  proof
    assume "prefix k l"
    have "left_of l k" using e [OF that] less_left_of by blast
    then show False using \<open>prefix k l\<close> by (auto simp: left_of_def prefix_def nth_append)
  qed
qed

lemma pending_at_path:
  assumes "trie_entries (es @ (k, v) # fs)" "pending L es k v hb"
  shows "at_path L (es @ [(k, v)]) k False hb"
proof -
  note t = trie_entries_append [OF assms(1)]
  have sub: "sub_entries (es @ [(k, v)]) k = [([], v)]"
  proof -
    have "sub_entries es k = []" using t(6) by (auto simp: sub_entries_Nil)
    then show ?thesis by (simp add: sub_entries_def)
  qed
  have other: "sub_entries (es @ [(k, v)]) (take i k @ [d]) = sub_entries es (take i k @ [d])" if "i < length k" "d \<noteq> k ! i" for i d
  proof -
    have "\<not> prefix (take i k @ [d]) k" using that by (auto simp: prefix_take_snoc)
    then show ?thesis by (simp add: sub_entries_def)
  qed
  have digits: "level_digits (es @ [(k, v)]) k i = level_digits es k i" if "i < length k" for i
    unfolding level_digits_def using other [OF that] by (intro filter_cong) auto
  have refs: "level_refs L (es @ [(k, v)]) k i = level_refs L es k i" if "i < length k" for i
    unfolding level_refs_def digits [OF that] using other [OF that] by (intro map_cong) (auto simp: level_digits_def)
  have "level_masks (es @ [(k, v)]) k = level_masks es k" using digits by (simp add: level_masks_def)
  moreover have "stack_to L (es @ [(k, v)]) k (length k) = stack_to L es k (length k)"
    unfolding stack_to_def using refs by (intro arg_cong [where f = concat] map_cong) auto
  moreover have "below (es @ [(k, v)]) k" using t(2) by (auto simp: below_def)
  ultimately show ?thesis using assms(2) t sub by (auto simp: at_path_def pending_def before_key_def)
qed

lemma add_leaf_pending:
  assumes "trie_entries (es @ (k, v) # (l, w) # fs)" "pending L es k v hb"
  shows "\<exists>hb'. add_leaf L l w hb = Some hb' \<and> pending L (es @ [(k, v)]) l w hb'"
proof -
  have t: "below (es @ [(k, v)]) l" "l \<noteq> []" using trie_entries_append [of "es @ [(k, v)]" l w fs] assms(1) by auto
  have kl: "k < l" "\<not> prefix k l" using assms(1) by (auto simp: trie_entries_def sorted_wrt_append)
  then obtain hb1 where "gen_struct_loop L l False k hb = Some hb1" "before_key L (es @ [(k, v)]) l hb1"
    using loop_correct [OF pending_at_path [OF assms(1,2)], of l] t(1) less_left_of by blast
  then show ?thesis
    using assms(2) kl(1) t(2) by (auto simp: add_leaf_def pending_def gen_struct_step_def before_key_def masks_ok_def)
qed

lemma add_leaves_pending:
  assumes "trie_entries (es @ (k, v) # fs)" "pending L es k v hb"
  shows "\<exists>hb' l w. add_leaves L fs hb = Some hb' \<and> (\<exists>front. es @ (k, v) # fs = front @ [(l, w)] \<and> pending L front l w hb')"
  using assms
proof (induction fs arbitrary: es k v hb)
  case (Cons f fs)
  obtain l w where f: "f = (l, w)" by fastforce
  obtain hb1 where "add_leaf L l w hb = Some hb1" "pending L (es @ [(k, v)]) l w hb1"
    using add_leaf_pending Cons.prems f by blast
  then show ?case using Cons.IH [of "es @ [(k, v)]" l w hb1] Cons.prems(1) f by auto
qed auto

lemma root_of_ref: "builder_root L (hb\<lparr>hb_stack := [node_ref L r]\<rparr>) = tl_keccak256 L r"
  by (simp add: builder_root_def node_ref_def wrap_hash_def table_lengths)

section \<open>Property\<close>

text \<open>C16: The hash builder computes the root of the trie: fed with the entries in the order of their keys, it does not panic and
  returns the hash of the Merkle Patricia trie of the entries, for every hash function and every encoding of lists.\<close>

theorem hash_builder_root:
  assumes "sorted_wrt (<) (map fst es)" "\<And>k l. k \<in> fst ` set es \<Longrightarrow> l \<in> fst ` set es \<Longrightarrow> prefix k l \<Longrightarrow> k = l"
    "\<And>k d. k \<in> fst ` set es \<Longrightarrow> d \<in> set k \<Longrightarrow> d < 16" "[] \<notin> fst ` set es"
  shows "\<exists>hb. Option.bind (add_leaves L es HashBuilder_new) (root_hash L) = Some (trie_root L es, hb)"
proof (cases es)
  case Nil
  then show ?thesis by (simp add: root_hash_def hb_finalize_def HashBuilder_new_def builder_root_def trie_root_def)
next
  case (Cons e fs)
  obtain k v where e: "e = (k, v)" by fastforce
  have te: "trie_entries es"
    unfolding trie_entries_def
  proof (intro conjI)
    have imp: "fst a < fst b \<and> \<not> prefix (fst a) (fst b)" if "a \<in> set es" "b \<in> set es" "fst a < fst b" for a b
      using assms(2) [OF imageI imageI, OF that(1,2)] that(3) by (metis order.irrefl)
    have "sorted_wrt (\<lambda>e f. fst e < fst f) es" using assms(1) by (simp add: sorted_wrt_map)
    with imp show "sorted_wrt (\<lambda>e f. fst e < fst f \<and> \<not> prefix (fst e) (fst f)) es" by (rule sorted_wrt_mono_rel)
    have "unat d < 16" if "(k, v) \<in> set es" "d \<in> set k" for k v d
      using assms(3) [of k d] that by (force simp: word_less_nat_alt)
    then show "digits_ok es" by (auto simp: digits_ok_def)
  qed (rule assms(4))
  then have k: "k \<noteq> []" using Cons e by (auto simp: trie_entries_def)
  have "level_masks [] k = replicate (length k) 0" by (simp add: level_masks_def level_digits_def mask_of_def map_replicate_const)
  then have "pop_zeros (level_masks [] k) = []" by (simp add: pop_zeros_def)
  then have "pending L [] k v (HashBuilder_new\<lparr>hb_key := k, hb_value := HbBytes v\<rparr>)"
    using k by (auto simp: pending_def before_key_def HashBuilder_new_def masks_ok_def stack_to_def level_refs_def level_digits_def)
  moreover have "add_leaf L k v HashBuilder_new = Some (HashBuilder_new\<lparr>hb_key := k, hb_value := HbBytes v\<rparr>)"
    using k by (cases k) (auto simp: add_leaf_def HashBuilder_new_def)
  ultimately obtain hb front l w where hb: "add_leaves L es HashBuilder_new = Some hb" "es = front @ [(l, w)]" "pending L front l w hb"
    using add_leaves_pending [of "[]" k v fs L "HashBuilder_new\<lparr>hb_key := k, hb_value := HbBytes v\<rparr>"] te Cons e by auto
  have "at_path L es l False hb" using pending_at_path [of front l w "[]" L hb] te hb by simp
  then obtain hb1 where hb1: "gen_struct_loop L [] False l hb = Some hb1" "hb_stack hb1 = [node_ref L (trie_node L es)]"
    using loop_correct [of L es l False hb "[]"] by (auto simp: before_key_def)
  have "builder_root L (hb1\<lparr>hb_key := [], hb_value := HbBytes []\<rparr>) = tl_keccak256 L (trie_node L es)"
    using root_of_ref [where L = L and hb = hb1 and r = "trie_node L es"] hb1(2) by (simp add: builder_root_def)
  then show ?thesis
    using hb hb1(1) Cons by (simp add: root_hash_def hb_finalize_def pending_def gen_struct_step_def trie_root_def)
qed

text \<open>A hash that adds up the bytes, and lists written one after the other.\<close>

definition sample_trie_lib :: trie_lib where
  "sample_trie_lib = \<lparr>tl_keccak256 = (\<lambda>bs. sum_list (map ucast bs)),
     tl_rlp_list = (\<lambda>items. concat (map (\<lambda>i. case i of RlpData b \<Rightarrow> of_nat (length b) # b | RlpRaw b \<Rightarrow> b) items))\<rparr>"

theorem hash_builder_root_witness:
  "\<exists>hb. Option.bind (add_leaves sample_trie_lib [([1, 2], [9]), ([1, 3], [8]), ([4, 0], [7])] HashBuilder_new) (root_hash sample_trie_lib)
     = Some (trie_root sample_trie_lib [([1, 2], [9]), ([1, 3], [8]), ([4, 0], [7])], hb)"
  by (rule hash_builder_root) auto

section \<open>Nodes in the database\<close>

lemma u16_bytes_roundtrip: "u16_from_be_bytes (u16_to_be_bytes w) = w"
proof (rule bit_word_eqI)
  fix n assume "n < LENGTH(16)"
  then show "bit (u16_from_be_bytes (u16_to_be_bytes w)) n = bit w n"
    by (auto simp: u16_from_be_bytes_def u16_to_be_bytes_def bit_or_iff bit_push_bit_iff bit_ucast_iff bit_drop_bit_eq not_less)
qed

lemma length_concat_hashes: "length (concat (map to_be_bytes hs)) = 32 * length hs"
  by (induction hs) auto

lemma hashes_of_concat: "hashes_of (length hs) (concat (map to_be_bytes hs)) = hs"
  by (induction hs) auto

text \<open>C32: A node is read back from its bytes, for every node that can be made.\<close>

theorem node_marshalling_roundtrip:
  assumes "Node_new state_mask tree_mask hash_mask hashes root = Some n"
  shows "unmarshal_node (marshal_node n) = Some (Some n)"
proof -
  have n: "n = \<lparr>nd_state_mask = state_mask, nd_tree_mask = tree_mask, nd_hash_mask = hash_mask, nd_hashes = hashes, nd_root_hash = root\<rparr>"
    "count_ones hash_mask = length hashes"
    using assms by (auto simp: Node_new_def split: if_splits)
  define tail where "tail = (case root of Some h \<Rightarrow> to_be_bytes h | None \<Rightarrow> []) @ concat (map to_be_bytes hashes)"
  have len: "length (u16_to_be_bytes w) = 2" for w by (simp add: u16_to_be_bytes_def)
  have m: "marshal_node n = u16_to_be_bytes state_mask @ u16_to_be_bytes tree_mask @ u16_to_be_bytes hash_mask @ tail"
    by (simp add: marshal_node_def n(1) tail_def)
  have tail: "length tail = 32 * (length hashes + (if root = None then 0 else 1))"
    by (auto simp: tail_def length_concat_hashes split: option.splits)
  have "6 \<le> length (marshal_node n)" "(length (marshal_node n) - 6) mod 32 = 0" using tail by (simp_all add: m len)
  moreover have "take 2 (marshal_node n) = u16_to_be_bytes state_mask" "take 2 (drop 2 (marshal_node n)) = u16_to_be_bytes tree_mask"
    "take 2 (drop 4 (marshal_node n)) = u16_to_be_bytes hash_mask" "drop 6 (marshal_node n) = tail"
    by (simp_all add: m len)
  moreover have "(if count_ones hash_mask + 1 = length tail div 32 then (Some (from_be_bytes (take 32 tail)), drop 32 tail) else (None, tail))
      = (root, concat (map to_be_bytes hashes))"
    using tail n(2) by (cases root) (auto simp: tail_def)
  ultimately have "unmarshal_node (marshal_node n) = map_option Some (Node_new state_mask tree_mask hash_mask
      (hashes_of (length (concat (map to_be_bytes hashes)) div 32) (concat (map to_be_bytes hashes))) root)"
    unfolding unmarshal_node_def Let_def by (simp only: u16_bytes_roundtrip prod.case) simp
  then show ?thesis using assms by (simp add: length_concat_hashes hashes_of_concat)
qed

theorem node_marshalling_roundtrip_witness:
  "\<exists>n. Node_new 7 5 1 [3] (Some 4) = Some n \<and> unmarshal_node (marshal_node n) = Some (Some n)"
proof -
  have "count_ones 1 = 1" unfolding count_ones_def by (simp add: upt_rec numeral_eq_Suc bit_1_iff)
  then obtain n where "Node_new 7 5 1 [3] (Some 4) = Some n" by (simp add: Node_new_def assert_subset_def)
  then show ?thesis using node_marshalling_roundtrip by blast
qed

section \<open>Prefix sets\<close>

lemma has_prefix_iff: "has_prefix s p \<longleftrightarrow> prefix p s"
  by (metis append_eq_conv_conj append_take_drop_id has_prefix_def prefix_def)

lemma prefix_le: "prefix p s \<Longrightarrow> (p :: byte list) \<le> s"
proof (induction p arbitrary: s)
  case (Cons x p)
  then show ?case by (cases s) auto
qed simp

lemma prefix_between: "prefix p s \<Longrightarrow> p \<le> t \<Longrightarrow> t \<le> (s :: byte list) \<Longrightarrow> prefix p t"
proof (induction p arbitrary: s t)
  case (Cons x p)
  obtain s' where s: "s = x # s'" "prefix p s'" using Cons.prems(1) by (cases s) auto
  obtain y t' where t: "t = y # t'" using Cons.prems(2) by (cases t) auto
  have "y = x" using Cons.prems(2,3) by (auto simp: s t)
  then show ?case using Cons.IH [OF s(2), of t'] Cons.prems(2,3) by (simp add: s t)
qed simp

text \<open>A prefix set contains a prefix exactly when one of the inserted keys starts with it.\<close>

theorem prefix_set_exact:
  "prefix_set_contains (fold prefix_set_insert ks []) p \<longleftrightarrow> (\<exists>k \<in> set ks. prefix p k)"
proof -
  define ps where "ps = fold prefix_set_insert ks []"
  have "sorted (fold prefix_set_insert ks qs) \<and> set (fold prefix_set_insert ks qs) = set ks \<union> set qs" if "sorted qs" for qs
    using that by (induction ks arbitrary: qs) (auto simp: prefix_set_insert_def sorted_insort set_insort_key)
  from this [of "[]"] have ps: "sorted ps" "set ps = set ks" by (auto simp: ps_def)
  have "prefix_set_contains ps p \<longleftrightarrow> (\<exists>k \<in> set ps. prefix p k)"
    using ps(1)
  proof (induction ps)
    case (Cons s ps)
    show ?case
    proof (cases "s < p")
      case True
      then have "\<not> prefix p s" using prefix_le by (auto simp: not_le [symmetric])
      then show ?thesis using True Cons by (simp add: prefix_set_contains_def)
    next
      case False
      have "prefix p s" if "k \<in> set ps" "prefix p k" for k
        using that Cons.prems False by (intro prefix_between [of p k s]) (auto simp: not_less)
      then show ?thesis using False by (auto simp: prefix_set_contains_def has_prefix_iff)
    qed
  qed (simp add: prefix_set_contains_def)
  then show ?thesis using ps(2) by (simp add: ps_def)
qed

end
