(* ===== verification/Blockchain.thy ===== *)
theory Blockchain
  imports ProcessorSafety InMemoryState TableCodec Trie
begin

text \<open>
  The chain of the consensus tests, \<open>src/consensus/blockchain.rs\<close>: blocks are validated, executed on the
  state in memory and made canonical by total difficulty; a fork unwinds the state to the common ancestor
  and executes the blocks of the other branch. The state root of \<open>in_memory_state.rs\<close> is here too.

  The hash of a header, the recovery of senders, the roots of tries and the encodings are third-party code and
  the fields of \<open>chain_lib\<close>. What the code passes to a block's execution is put together by \<open>block_env\<close>.
\<close>

section \<open>Data\<close>

record 'c chain_lib =
  chl_lib :: lib
  chl_address_rlp :: "address \<Rightarrow> u64 \<Rightarrow> byte list"
  chl_lru :: "'c lru"
  chl_contracts :: "Contract list"
  chl_cache_default :: 'c
  chl_seal :: seal_lib
  chl_header_hash :: "BlockHeader \<Rightarrow> h256"
  chl_recover_sender :: "MessageWithSignature \<Rightarrow> string + address"
  chl_receipts_root :: "Receipt list \<Rightarrow> h256"
  chl_trie_root :: "(h256 \<times> byte list) list \<Rightarrow> h256"
  chl_account_rlp :: "u64 \<times> u256 \<times> h256 \<times> h256 \<Rightarrow> byte list"
  chl_bytes_rlp :: "byte list \<Rightarrow> byte list"

record BlockWithSenders =
  bs_header :: PartialHeader
  bs_transactions :: "MessageWithSender list"
  bs_ommers :: "BlockHeader list"

record Blockchain =
  bc_state :: InMemoryState
  bc_config :: ChainSpec
  bc_engine :: Ethash
  bc_bad_blocks :: "h256 \<rightharpoonup> ValidationError"
  bc_receipts :: "Receipt list"

text \<open>An error of the recovery of senders is the only one that is not a \<open>ValidationError\<close>.\<close>

datatype ChainError = Validation ValidationError | Recovery string

section \<open>The root of the state\<close>

definition account_storage_root :: "'c chain_lib \<Rightarrow> InMemoryState \<Rightarrow> address \<Rightarrow> h256" where
  "account_storage_root P d a = (case im_storage d a of
       Some st \<Rightarrow> if st \<noteq> Map.empty then chl_trie_root P (map (\<lambda>(location, v).
           (keccak256 (chl_lib P) (to_be_bytes location), chl_bytes_rlp P (zeroless_view (to_be_bytes v)))) (entries st))
         else EMPTY_ROOT
     | None \<Rightarrow> EMPTY_ROOT)"

definition state_root_hash :: "'c chain_lib \<Rightarrow> InMemoryState \<Rightarrow> h256" where
  "state_root_hash P d =
     (if im_accounts d = Map.empty then EMPTY_ROOT
      else chl_trie_root P (map (\<lambda>(a, account). (keccak256 (chl_lib P) (address_bytes a),
        chl_account_rlp P (acc_nonce account, acc_balance account, account_storage_root P d a, acc_code_hash account)))
        (entries (im_accounts d))))"

section \<open>Execution of a block\<close>

text \<open>The transaction of the environment is set for each transaction; before the first there is none to read.\<close>

definition no_txn :: MessageWithSender where
  "no_txn = \<lparr>tm_message = LegacyMessage None 0 0 0 ActionCreate 0 [], tm_sender = 0\<rparr>"

definition block_env :: "'c chain_lib \<Rightarrow> ChainSpec \<Rightarrow> InMemoryState \<Rightarrow> PartialHeader \<Rightarrow> 'c Env" where
  "block_env P config d header = \<lparr>env_db = database_of in_memory_ops d, env_lib = chl_lib P, env_rlp = chl_address_rlp P,
     env_lru = chl_lru P, env_contracts = chl_contracts P, env_header = header,
     env_spec = collect_block_spec config (ph_number header), env_txn = no_txn, env_beneficiary = ph_beneficiary header\<rparr>"

definition chain_execute_block ::
  "'c chain_lib \<Rightarrow> ChainSpec \<Rightarrow> BlockWithSenders \<Rightarrow> bool \<Rightarrow> InMemoryState \<Rightarrow> ((ValidationError + unit) \<times> InMemoryState) option" where
  "chain_execute_block P config block check_state_root d = do {
     let header = bs_header block;
     let body = \<lparr>bws_transactions = bs_transactions block, bws_ommers = bs_ommers block\<rparr>;
     r \<leftarrow> execute_and_write_block (chl_receipts_root P) (\<lambda>n s. write_to_db in_memory_ops s n d) (block_env P config d header) body
       (processor_new (chl_cache_default P));
     case r of
       Inl e \<Rightarrow> Some (Inl e, d)
     | Inr (_, d) \<Rightarrow>
         (if check_state_root \<and> state_root_hash P d \<noteq> ph_state_root header
          then Some (Inl (WrongStateRoot (ph_state_root header) (state_root_hash P d)), unwind_state_changes d (ph_number header))
          else Some (Inr (), d)) }"

section \<open>Walking along the chain\<close>

text \<open>The numbers after the first and up to the second.\<close>

definition blocks_after :: "u64 \<Rightarrow> u64 \<Rightarrow> u64 list" where
  "blocks_after lo hi = map of_nat [Suc (unat lo)..<Suc (unat hi)]"

definition unwind_last_changes :: "u64 \<Rightarrow> u64 \<Rightarrow> InMemoryState \<Rightarrow> InMemoryState option" where
  "unwind_last_changes ancestor tip d =
     (if ancestor \<le> tip then Some (fold (\<lambda>n d. unwind_state_changes d n) (rev (blocks_after ancestor tip)) d) else None)"

fun re_execute_loop ::
  "'c chain_lib \<Rightarrow> ChainSpec \<Rightarrow> u64 list \<Rightarrow> InMemoryState \<Rightarrow> ((ChainError + unit) \<times> InMemoryState) option" where
  "re_execute_loop P config [] d = Some (Inr (), d)"
| "re_execute_loop P config (n # ns) d = do {
     hash \<leftarrow> canonical_hash d n;
     case read_body_with_senders (chl_recover_sender P) d n hash of
       Inl e \<Rightarrow> Some (Inl (Recovery e), d)
     | Inr body \<Rightarrow> do {
         body \<leftarrow> body;
         header \<leftarrow> im_read_header d n hash;
         (r, d) \<leftarrow> chain_execute_block P config \<lparr>bs_header = to_partial_header header, bs_transactions = bws_transactions body,
           bs_ommers = bws_ommers body\<rparr> False d;
         case r of Inl _ \<Rightarrow> None | Inr _ \<Rightarrow> re_execute_loop P config ns d } }"

definition re_execute_canonical_chain ::
  "'c chain_lib \<Rightarrow> ChainSpec \<Rightarrow> u64 \<Rightarrow> u64 \<Rightarrow> InMemoryState \<Rightarrow> ((ChainError + unit) \<times> InMemoryState) option" where
  "re_execute_canonical_chain P config ancestor tip d =
     (if ancestor \<le> tip then re_execute_loop P config (blocks_after ancestor tip) d else None)"

text \<open>The blocks are read from the last one back.\<close>

fun intermediate_loop ::
  "'c chain_lib \<Rightarrow> InMemoryState \<Rightarrow> u64 list \<Rightarrow> h256 \<Rightarrow> (BlockWithSenders \<times> h256) list \<Rightarrow>
   (ChainError + (BlockWithSenders \<times> h256) list) option" where
  "intermediate_loop P d [] hash chain = Some (Inr chain)"
| "intermediate_loop P d (n # ns) hash chain =
     (case read_body_with_senders (chl_recover_sender P) d n hash of
        Inl e \<Rightarrow> Some (Inl (Recovery e))
      | Inr body \<Rightarrow> do {
          body \<leftarrow> body;
          header \<leftarrow> im_read_header d n hash;
          intermediate_loop P d ns (bh_parent_hash header)
            (chain @ [(\<lparr>bs_header = to_partial_header header, bs_transactions = bws_transactions body, bs_ommers = bws_ommers body\<rparr>, hash)]) })"

text \<open>
  The difference of the numbers is a capacity in elements of more than one byte, and a capacity of more than
  \<open>isize::MAX\<close> bytes panics.
\<close>

definition isize_max :: u64 where "isize_max = 2 ^ 63 - 1"

definition intermediate_chain ::
  "'c chain_lib \<Rightarrow> InMemoryState \<Rightarrow> u64 \<Rightarrow> h256 \<Rightarrow> u64 \<Rightarrow> (ChainError + (BlockWithSenders \<times> h256) list) option" where
  "intermediate_chain P d n hash canonical_ancestor =
     (if n - canonical_ancestor > isize_max then None
      else do {
        r \<leftarrow> intermediate_loop P d (rev (blocks_after canonical_ancestor n)) hash [];
        Some (case r of Inl e \<Rightarrow> Inl e | Inr chain \<Rightarrow> Inr (rev chain)) })"

partial_function (option) canonical_ancestor ::
  "InMemoryState \<Rightarrow> u64 \<Rightarrow> h256 \<Rightarrow> h256 \<Rightarrow> (ValidationError + u64) option" where
  "canonical_ancestor d n parent_hash hash =
     (if canonical_hash d n = Some hash then Some (Inr n)
      else case im_read_header d (n - 1) parent_hash of
          None \<Rightarrow> Some (Inl UnknownParent)
        | Some parent \<Rightarrow> canonical_ancestor d (bh_number parent) (bh_parent_hash parent) parent_hash)"

section \<open>Insertion of a block\<close>

definition new_with_consensus :: "'c chain_lib \<Rightarrow> InMemoryState \<Rightarrow> Ethash \<Rightarrow> ChainSpec \<Rightarrow> Block \<Rightarrow> Blockchain" where
  "new_with_consensus P d engine config genesis_block =
     (let hash = chl_header_hash P (blk_header genesis_block);
          n = bh_number (blk_header genesis_block);
          d = im_insert_block d genesis_block hash;
          d = canonize_block d n hash
      in \<lparr>bc_state = d, bc_config = config, bc_engine = engine, bc_bad_blocks = Map.empty, bc_receipts = []\<rparr>)"

definition Blockchain_new :: "'c chain_lib \<Rightarrow> InMemoryState \<Rightarrow> ChainSpec \<Rightarrow> Block \<Rightarrow> string + Blockchain" where
  "Blockchain_new P d config genesis_block = (case engine_factory config of
       Inl e \<Rightarrow> Inl e
     | Inr engine \<Rightarrow> Inr (new_with_consensus P d engine config genesis_block))"

text \<open>A block whose senders cannot be recovered panics.\<close>

definition block_with_senders :: "'c chain_lib \<Rightarrow> Block \<Rightarrow> BlockWithSenders option" where
  "block_with_senders P block = (case recover_senders (chl_recover_sender P) (blk_transactions block) of
       Inl _ \<Rightarrow> None
     | Inr txs \<Rightarrow> Some \<lparr>bs_header = to_partial_header (blk_header block), bs_transactions = txs, bs_ommers = blk_ommers block\<rparr>)"

definition state_chain_db :: "InMemoryState \<Rightarrow> chain_db" where
  "state_chain_db d = \<lparr>cdb_read_header = im_read_header d, cdb_read_body = im_read_body d\<rparr>"

text \<open>The blocks of a branch one after the other, with the number of the blocks executed.\<close>

fun execute_chain ::
  "'c chain_lib \<Rightarrow> ChainSpec \<Rightarrow> bool \<Rightarrow> (BlockWithSenders \<times> h256) list \<Rightarrow> u64 \<Rightarrow> InMemoryState \<Rightarrow>
   (ValidationError option \<times> u64 \<times> InMemoryState) option" where
  "execute_chain P config check_state_root [] executed d = Some (None, executed, d)"
| "execute_chain P config check_state_root ((b, _) # bs) executed d = do {
     (r, d) \<leftarrow> chain_execute_block P config b check_state_root d;
     case r of Inl e \<Rightarrow> Some (Some e, executed, d) | Inr _ \<Rightarrow> execute_chain P config check_state_root bs (executed + 1) d }"

definition return_to_canonical ::
  "'c chain_lib \<Rightarrow> ChainSpec \<Rightarrow> u64 \<Rightarrow> u64 \<Rightarrow> u64 \<Rightarrow> InMemoryState \<Rightarrow> ((ChainError + unit) \<times> InMemoryState) option" where
  "return_to_canonical P config ancestor executed tip d = do {
     d \<leftarrow> unwind_last_changes ancestor (ancestor + executed) d;
     re_execute_canonical_chain P config ancestor tip d }"

definition canonize_chain :: "u64 \<Rightarrow> u64 \<Rightarrow> (BlockWithSenders \<times> h256) list \<Rightarrow> InMemoryState \<Rightarrow> InMemoryState" where
  "canonize_chain ancestor tip chain d =
     fold (\<lambda>(b, hash) d. canonize_block d (ph_number (bs_header b)) hash) chain
       (fold (\<lambda>n d. decanonize_block d n) (rev (blocks_after ancestor tip)) d)"

text \<open>The parts of \<open>insert_block\<close>: what follows the execution, the execution, and the checks before it.\<close>

definition choose_chain ::
  "'c chain_lib \<Rightarrow> Block \<Rightarrow> h256 \<Rightarrow> u64 \<Rightarrow> u64 \<Rightarrow> (BlockWithSenders \<times> h256) list \<Rightarrow> u64 \<Rightarrow> InMemoryState \<Rightarrow> Blockchain \<Rightarrow>
   ((ChainError + unit) \<times> Blockchain) option" where
  "choose_chain P block hash ancestor current chain executed d bc = do {
     let d = im_insert_block d block hash;
     tip \<leftarrow> canonical_hash d current;
     current_total_difficulty \<leftarrow> im_total_difficulty d current tip;
     total_difficulty \<leftarrow> im_total_difficulty d (bh_number (blk_header block)) hash;
     if total_difficulty > current_total_difficulty
     then Some (Inr (), bc\<lparr>bc_state := canonize_chain ancestor current chain d\<rparr>)
     else do {
       (r, d) \<leftarrow> return_to_canonical P (bc_config bc) ancestor executed current d;
       Some (r, bc\<lparr>bc_state := d\<rparr>) } }"

definition attach_block ::
  "'c chain_lib \<Rightarrow> Block \<Rightarrow> h256 \<Rightarrow> BlockWithSenders \<Rightarrow> bool \<Rightarrow> Blockchain \<Rightarrow> ((ChainError + unit) \<times> Blockchain) option" where
  "attach_block P block hash b check_state_root bc = do {
     let header = blk_header block;
     r \<leftarrow> canonical_ancestor (bc_state bc) (bh_number header) (bh_parent_hash header) hash;
     case r of Inl e \<Rightarrow> Some (Inl (Validation e), bc) | Inr ancestor \<Rightarrow> do {
     let current = current_canonical_block (bc_state bc);
     d \<leftarrow> unwind_last_changes ancestor current (bc_state bc);
     r \<leftarrow> intermediate_chain P d (bh_number header - 1) (bh_parent_hash header) ancestor;
     case r of Inl e \<Rightarrow> Some (Inl e, bc\<lparr>bc_state := d\<rparr>) | Inr chain \<Rightarrow> do {
     let chain = chain @ [(b, hash)];
     (failed, executed, d) \<leftarrow> execute_chain P (bc_config bc) check_state_root chain 0 d;
     case failed of
       Some e \<Rightarrow> do {
         (r, d) \<leftarrow> return_to_canonical P (bc_config bc) ancestor executed current d;
         Some (case r of Inl e \<Rightarrow> Inl e | Inr _ \<Rightarrow> Inl (Validation e),
           bc\<lparr>bc_state := d, bc_bad_blocks := (bc_bad_blocks bc)(hash \<mapsto> e)\<rparr>) }
     | None \<Rightarrow> choose_chain P block hash ancestor current chain executed d bc } } }"

definition bc_insert_block ::
  "'c chain_lib \<Rightarrow> u64 \<Rightarrow> Block \<Rightarrow> bool \<Rightarrow> Blockchain \<Rightarrow> ((ChainError + unit) \<times> Blockchain) option" where
  "bc_insert_block P now block check_state_root bc = do {
     let header = blk_header block;
     let db = state_chain_db (bc_state bc);
     r \<leftarrow> ethash_validate_block_header (bc_engine bc) db header (Some now);
     case r of Inl e \<Rightarrow> Some (Inl (Validation e), bc) | Inr _ \<Rightarrow> do {
     r \<leftarrow> base_pre_validate_block (chl_seal P) (eth_base (bc_engine bc)) db block;
     case r of Inl e \<Rightarrow> Some (Inl (Validation e), bc) | Inr _ \<Rightarrow> do {
     let hash = chl_header_hash P header;
     case bc_bad_blocks bc hash of Some e \<Rightarrow> Some (Inl (Validation e), bc) | None \<Rightarrow> do {
     b \<leftarrow> block_with_senders P block;
     attach_block P block hash b check_state_root bc } } } }"

end
