(* ===== verification/BlockchainRun.thy ===== *)
theory BlockchainRun
  imports Blockchain
begin

text \<open>
  Properties of the chain: what executing and unwinding leave alone, the tree of the blocks in the store, the
  branch from a block to its canonical ancestor, and the fork choice.
\<close>

section \<open>The blocks of the store\<close>

text \<open>Execution and unwinding change the accounts and their history, never the blocks.\<close>

definition same_chain :: "InMemoryState \<Rightarrow> InMemoryState \<Rightarrow> bool" where
  "same_chain d e \<longleftrightarrow> im_headers e = im_headers d \<and> im_bodies e = im_bodies d \<and> im_difficulty e = im_difficulty d
     \<and> im_canonical_hashes e = im_canonical_hashes d"

lemma same_chain_refl [simp]: "same_chain d d"
  by (simp add: same_chain_def)

lemma same_chain_trans: "same_chain d e \<Longrightarrow> same_chain e f \<Longrightarrow> same_chain d f"
  by (simp add: same_chain_def)

lemma same_chain_reads:
  assumes "same_chain d e"
  shows "im_read_header e = im_read_header d" "im_read_body e = im_read_body d" "im_total_difficulty e = im_total_difficulty d"
    "canonical_hash e = canonical_hash d" "current_canonical_block e = current_canonical_block d"
    "read_body_with_senders recover e = read_body_with_senders recover d"
  using assms by (simp_all add: same_chain_def im_read_header_def im_read_body_def im_total_difficulty_def canonical_hash_def
      current_canonical_block_def read_body_with_senders_def fun_eq_iff)

lemma same_chain_ops [simp]:
  "same_chain d (im_begin_block e n) = same_chain d e" "same_chain d (im_erase_storage e a) = same_chain d e"
  "same_chain d (im_update_account e a old acc) = same_chain d e" "same_chain d (im_update_code e h bs) = same_chain d e"
  "same_chain d (im_update_storage e a k w v) = same_chain d e" "same_chain d (e\<lparr>im_accounts := x1\<rparr>) = same_chain d e"
  "same_chain d (e\<lparr>im_storage := x2\<rparr>) = same_chain d e" "same_chain d (e\<lparr>im_account_changes := x3\<rparr>) = same_chain d e"
  "same_chain d (e\<lparr>im_storage_changes := x4\<rparr>) = same_chain d e"
  by (simp_all add: same_chain_def im_defs Let_def)

lemma unwind_same_chain [simp]: "same_chain d (unwind_state_changes d n)"
proof -
  have "same_chain d (unwind_accounts d n)"
    unfolding unwind_accounts_def by (rule fold_invariant_list) (auto split: prod.splits)
  moreover have "same_chain e (unwind_storage e n)" for e
    unfolding unwind_storage_def by (rule fold_invariant_list) (auto split: prod.splits intro: fold_invariant_list)
  ultimately show ?thesis unfolding unwind_state_changes_def by (rule same_chain_trans)
qed

lemma write_same_chain: "same_chain d (write_to_db in_memory_ops s n d)"
proof -
  have st: "same_chain d (write_storage in_memory_ops s x e)" if "same_chain d e" for x e
  proof (cases x)
    case (Pair a st)
    have "same_chain d (fold (\<lambda>(k, v) d. im_update_storage d a k (cv_initial v) (cv_original v)) (entries (st_committed st)) e)"
      by (rule fold_invariant_list [where P = "same_chain d", OF that]) auto
    then show ?thesis using that by (auto simp: Pair write_storage_def in_memory_ops_sel split: option.splits)
  qed
  show ?thesis
    unfolding write_to_db_def Let_def in_memory_ops_sel
    by (intro fold_invariant_list [where P = "same_chain d"]) (auto intro: st)
qed

lemma execute_and_write_writes:
  assumes "execute_and_write_block root w env body p = Some (Inr (rs, f))"
  obtains n s where "f = w n s"
proof -
  obtain r q where r: "execute_block_no_post_validation env body p = Some (r, q)"
    using assms by (auto simp: execute_and_write_block_def Option.bind_eq_Some_conv)
  obtain receipts where "r = Inr receipts"
    using assms r by (cases r) (simp_all add: execute_and_write_block_def try_then_def)
  then have "f = w (ph_number (env_header env)) (pr_state q)"
    using assms r by (simp add: execute_and_write_block_def try_then_def Let_def split: if_splits)
  then show thesis by (rule that)
qed

lemma execute_block_same_chain:
  assumes "chain_execute_block P config b check d = Some (r, e)"
  shows "same_chain d e"
proof -
  obtain x where x: "execute_and_write_block (chl_receipts_root P) (\<lambda>n s. write_to_db in_memory_ops s n d) (block_env P config d (bs_header b))
      \<lparr>bws_transactions = bs_transactions b, bws_ommers = bs_ommers b\<rparr> (processor_new (chl_cache_default P)) = Some x"
    using assms by (auto simp: chain_execute_block_def Let_def split: Option.bind_splits)
  have w: "same_chain d f" if inr: "x = Inr (rs, f)" for rs f
  proof -
    obtain n s where "f = write_to_db in_memory_ops s n d" using execute_and_write_writes [OF x [unfolded inr]] by blast
    then show ?thesis by (simp add: write_same_chain)
  qed
  show ?thesis
  proof (cases x)
    case (Inl e')
    then show ?thesis using assms x by (simp add: chain_execute_block_def Let_def)
  next
    case (Inr y)
    obtain rs f where y: "y = (rs, f)" by fastforce
    have "same_chain d f" using w Inr y by simp
    moreover have "e = f \<or> e = unwind_state_changes f (ph_number (bs_header b))"
      using assms x by (auto simp: chain_execute_block_def Let_def Inr y split: if_splits)
    ultimately show ?thesis by (auto intro: same_chain_trans)
  qed
qed

lemma failed_execution_state:
  assumes "chain_execute_block P config b check d = Some (Inl e, f)"
  shows "f = d \<or> (\<exists>x y. e = WrongStateRoot x y)"
proof -
  obtain x where x: "execute_and_write_block (chl_receipts_root P) (\<lambda>n s. write_to_db in_memory_ops s n d) (block_env P config d (bs_header b))
      \<lparr>bws_transactions = bs_transactions b, bws_ommers = bs_ommers b\<rparr> (processor_new (chl_cache_default P)) = Some x"
    using assms by (auto simp: chain_execute_block_def Let_def split: Option.bind_splits)
  then show ?thesis using assms by (cases x) (auto simp: chain_execute_block_def Let_def split: if_splits)
qed

lemma unwind_last_same_chain: "unwind_last_changes a t d = Some e \<Longrightarrow> same_chain d e"
  by (auto simp: unwind_last_changes_def split: if_splits intro!: fold_invariant_list [where P = "same_chain d"] intro: same_chain_trans [OF _ unwind_same_chain])

lemma re_execute_same_chain: "re_execute_loop P config ns d = Some (r, e) \<Longrightarrow> same_chain d e"
proof (induction ns arbitrary: d)
  case (Cons n ns)
  obtain hash where hash: "canonical_hash d n = Some hash" using Cons.prems by (auto simp: Option.bind_eq_Some_conv)
  consider "e = d" | d' b where "chain_execute_block P config b False d = Some (Inr (), d')" "re_execute_loop P config ns d' = Some (r, e)"
  proof (cases "read_body_with_senders (chl_recover_sender P) d n hash")
    case (Inr body)
    then obtain b x d' where "chain_execute_block P config b False d = Some (x, d')"
      "(case x of Inl _ \<Rightarrow> None | Inr _ \<Rightarrow> re_execute_loop P config ns d') = Some (r, e)"
      using Cons.prems hash by (auto simp: Option.bind_eq_Some_conv)
    then show ?thesis using that(2) by (cases x) auto
  qed (use Cons.prems hash that(1) in simp)
  then show ?case
  proof cases
    case 2
    then show ?thesis using Cons.IH execute_block_same_chain by (blast intro: same_chain_trans)
  qed simp
qed simp

lemma return_same_chain: "return_to_canonical P config a x t d = Some (r, e) \<Longrightarrow> same_chain d e"
  by (auto simp: return_to_canonical_def re_execute_canonical_chain_def Option.bind_eq_Some_conv split: if_splits
      dest!: unwind_last_same_chain re_execute_same_chain intro: same_chain_trans)

lemma execute_chain_same_chain: "execute_chain P config check bs x d = Some (r, y, e) \<Longrightarrow> same_chain d e"
proof (induction bs arbitrary: d x)
  case (Cons bh bs)
  obtain b h where bh: "bh = (b, h)" by fastforce
  obtain q d' where q: "chain_execute_block P config b check d = Some (q, d')"
    "(case q of Inl e \<Rightarrow> Some (Some e, x, d') | Inr _ \<Rightarrow> execute_chain P config check bs (x + 1) d') = Some (r, y, e)"
    using Cons.prems by (auto simp: bh Option.bind_eq_Some_conv)
  have "same_chain d' e" using q(2) Cons.IH by (auto split: sum.splits)
  with execute_block_same_chain [OF q(1)] show ?case by (rule same_chain_trans)
qed simp

section \<open>Reading an inserted block\<close>

lemma get_put:
  "Option.bind (get_at (put_at xs (unat n) k v) m) (\<lambda>f. f j) =
    (if m = n \<and> j = k then Some v else Option.bind (get_at xs m) (\<lambda>f. f j))"
proof -
  have u: "unat n = unat m \<longleftrightarrow> n = m" by (simp add: word_unat_eq_iff)
  show ?thesis
    by (auto simp: put_at_def grow_def resize_def get_at_def Let_def nth_list_update nth_append u not_less)
qed

lemma inserted_header:
  "im_read_header (im_insert_block d b h) m k = (if m = bh_number (blk_header b) \<and> k = h then Some (blk_header b) else im_read_header d m k)"
  by (simp add: im_read_header_def im_insert_block_def Let_def get_put)

lemma inserted_body:
  "im_read_body (im_insert_block d b h) m k = (if m = bh_number (blk_header b) \<and> k = h
     then Some \<lparr>bb_transactions = blk_transactions b, bb_ommers = blk_ommers b\<rparr> else im_read_body d m k)"
  by (simp add: im_read_body_def im_insert_block_def Let_def get_put)

lemma inserted_canonical [simp]: "im_canonical_hashes (im_insert_block d b h) = im_canonical_hashes d"
  by (simp add: im_insert_block_def Let_def)

lemma inserted_genesis_difficulty:
  assumes "bh_number (blk_header b) = 0"
  shows "im_total_difficulty (im_insert_block d b h) m k = (if m = 0 \<and> k = h then Some (bh_difficulty (blk_header b)) else im_total_difficulty d m k)"
proof -
  have "im_difficulty (im_insert_block d b h) = put_at (im_difficulty d) (unat (0 :: u64)) h (bh_difficulty (blk_header b))"
    by (simp add: im_insert_block_def Let_def assms put_at_def)
  then show ?thesis unfolding im_total_difficulty_def by (simp only: get_put)
qed

lemma inserted_difficulty:
  assumes "bh_number (blk_header b) = n" "n \<noteq> 0" "im_total_difficulty d (n - 1) (bh_parent_hash (blk_header b)) = Some td"
  shows "im_total_difficulty (im_insert_block d b h) m k =
    (if m = n \<and> k = h then Some (td + bh_difficulty (blk_header b)) else im_total_difficulty d m k)"
proof -
  let ?n = "unat n" and ?p = "bh_parent_hash (blk_header b)"
  have n: "unat (n - 1) = ?n - 1" "?n \<noteq> 0" using assms(2) by (simp_all add: unat_minus_one unat_eq_0)
  have p: "?n - 1 < length (im_difficulty d)" "(im_difficulty d ! (?n - 1)) ?p = Some td"
    using assms(3) by (auto simp: im_total_difficulty_def get_at_def n split: if_splits)
  have g: "grow (im_difficulty d) ?n Map.empty ! (?n - 1) = im_difficulty d ! (?n - 1)"
    using p(1) by (auto simp: grow_def resize_def nth_append)
  let ?ds = "grow (im_difficulty d) ?n Map.empty"
  have "?ds[?n - 1 := (?ds ! (?n - 1))(?p \<mapsto> td)] = ?ds"
    unfolding g using p(2) by (metis fun_upd_triv g list_update_id)
  then have "im_difficulty (im_insert_block d b h) = put_at (im_difficulty d) ?n h (td + bh_difficulty (blk_header b))"
    using p(2) n(2) by (simp add: im_insert_block_def Let_def assms(1) g [unfolded One_nat_def] or_default_def put_at_def)
  then show ?thesis by (simp add: im_total_difficulty_def get_put)
qed

section \<open>The tree of blocks and the canonical chain\<close>

text \<open>Every block of the store has its hash, its body, its parent, and the total difficulty of its parent with its own on top.\<close>

definition tree_ok :: "'c chain_lib \<Rightarrow> BlockHeader set \<Rightarrow> InMemoryState \<Rightarrow> bool" where
  "tree_ok P H d \<longleftrightarrow> (\<forall>n h hdr. im_read_header d n h = Some hdr \<longrightarrow>
     hdr \<in> H \<and> chl_header_hash P hdr = h \<and> bh_number hdr = n \<and> im_read_body d n h \<noteq> None
     \<and> (n = 0 \<longrightarrow> canonical_hash d 0 = Some h \<and> im_total_difficulty d 0 h \<noteq> None)
     \<and> (n \<noteq> 0 \<longrightarrow> im_read_header d (n - 1) (bh_parent_hash hdr) \<noteq> None
          \<and> (\<exists>td. im_total_difficulty d (n - 1) (bh_parent_hash hdr) = Some td
               \<and> im_total_difficulty d n h = Some (td + bh_difficulty hdr))))"

lemma tree_okD:
  assumes "tree_ok P H d" "im_read_header d n h = Some hdr"
  shows "hdr \<in> H" "chl_header_hash P hdr = h" "bh_number hdr = n" "im_read_body d n h \<noteq> None"
    "n \<noteq> 0 \<Longrightarrow> \<exists>td. im_total_difficulty d (n - 1) (bh_parent_hash hdr) = Some td \<and> im_total_difficulty d n h = Some (td + bh_difficulty hdr)"
  using assms unfolding tree_ok_def by blast+

definition canonical_ok :: "InMemoryState \<Rightarrow> bool" where
  "canonical_ok d \<longleftrightarrow> im_canonical_hashes d \<noteq> [] \<and> length (im_canonical_hashes d) \<le> 2 ^ 64
     \<and> (\<forall>i < length (im_canonical_hashes d). \<exists>hdr. im_read_header d (of_nat i) (im_canonical_hashes d ! i) = Some hdr
          \<and> (i > 0 \<longrightarrow> bh_parent_hash hdr = im_canonical_hashes d ! (i - 1)))"

definition tip_best :: "InMemoryState \<Rightarrow> bool" where
  "tip_best d \<longleftrightarrow> (\<exists>best. im_total_difficulty d (of_nat (length (im_canonical_hashes d) - 1)) (last (im_canonical_hashes d)) = Some best
     \<and> (\<forall>n h hdr td. im_read_header d n h = Some hdr \<longrightarrow> im_total_difficulty d n h = Some td \<longrightarrow> td \<le> best))"

definition chain_inv :: "'c chain_lib \<Rightarrow> BlockHeader set \<Rightarrow> InMemoryState \<Rightarrow> bool" where
  "chain_inv P H d \<longleftrightarrow> tree_ok P H d \<and> canonical_ok d \<and> tip_best d"

lemma same_chain_inv: "same_chain d e \<Longrightarrow> chain_inv P H d \<Longrightarrow> chain_inv P H e"
  using same_chain_reads [of d e] by (auto simp: chain_inv_def tree_ok_def canonical_ok_def tip_best_def same_chain_def)

lemma canonical_hash_nth:
  assumes "length (im_canonical_hashes d) \<le> 2 ^ 64" "i < length (im_canonical_hashes d)"
  shows "canonical_hash d (of_nat i) = Some (im_canonical_hashes d ! i)"
  using assms by (simp add: canonical_hash_def get_at_def u64_of_nat)

section \<open>Branches\<close>

text \<open>Blocks of the store with their hashes, each the child of the one before; the first is a child of the given hash.\<close>

fun linked :: "InMemoryState \<Rightarrow> nat \<Rightarrow> h256 \<Rightarrow> (BlockWithSenders \<times> h256) list \<Rightarrow> bool" where
  "linked d i g [] = True"
| "linked d i g ((b, h) # bs) = (ph_number (bs_header b) = of_nat (Suc i)
     \<and> (\<exists>hdr. im_read_header d (of_nat (Suc i)) h = Some hdr \<and> bh_parent_hash hdr = g) \<and> linked d (Suc i) h bs)"

definition end_hash :: "h256 \<Rightarrow> (BlockWithSenders \<times> h256) list \<Rightarrow> h256" where
  "end_hash g bs = (if bs = [] then g else snd (last bs))"

lemma linked_append: "linked d i g (bs @ cs) \<longleftrightarrow> linked d i g bs \<and> linked d (i + length bs) (end_hash g bs) cs"
  by (induction bs arbitrary: i g) (auto simp: end_hash_def)

lemma blocks_after_Suc:
  assumes "a \<le> m" "Suc m < 2 ^ 64"
  shows "blocks_after (of_nat a) (of_nat (Suc m)) = blocks_after (of_nat a) (of_nat m) @ [of_nat (Suc m)]"
proof -
  have "unat (of_nat a :: u64) = a" "unat (of_nat m :: u64) = m" "unat (of_nat (Suc m) :: u64) = Suc m"
    using assms by (simp_all add: u64_of_nat del: of_nat_Suc)
  then show ?thesis using assms(1) by (simp add: blocks_after_def)
qed

lemma body_with_senders:
  assumes "im_read_body d n h \<noteq> None"
  obtains e where "read_body_with_senders rec d n h = Inl e" | body where "read_body_with_senders rec d n h = Inr (Some body)"
proof -
  obtain body where body: "Option.bind (get_at (im_bodies d) n) (\<lambda>m. m h) = Some body" using assms by (auto simp: im_read_body_def)
  show thesis
    using that by (cases "recover_senders rec (bb_transactions body)") (simp_all add: read_body_with_senders_def body)
qed

text \<open>
  From every block of the store the search finds the last canonical block on the way back, and the blocks
  after it are a branch that ends in the block.
\<close>

definition branch_found :: "'c chain_lib \<Rightarrow> InMemoryState \<Rightarrow> nat \<Rightarrow> h256 \<Rightarrow> nat \<Rightarrow> bool" where
  "branch_found P d n h a \<longleftrightarrow> a \<le> n \<and> a < length (im_canonical_hashes d)
     \<and> (\<forall>acc. (\<exists>e. intermediate_loop P d (rev (blocks_after (of_nat a) (of_nat n))) h acc = Some (Inl e))
         \<or> (\<exists>bs. intermediate_loop P d (rev (blocks_after (of_nat a) (of_nat n))) h acc = Some (Inr (acc @ rev bs))
              \<and> linked d a (im_canonical_hashes d ! a) bs \<and> length bs = n - a \<and> end_hash (im_canonical_hashes d ! a) bs = h))"

lemma branch_exists:
  assumes "tree_ok P H d" "canonical_ok d" "n < 2 ^ 64" "im_read_header d (of_nat n) h = Some hdr"
  shows "\<exists>a. canonical_ancestor d (of_nat n) (bh_parent_hash hdr) h = Some (Inr (of_nat a)) \<and> branch_found P d n h a"
  using assms(3,4)
proof (induction n arbitrary: h hdr)
  case 0
  then have "canonical_hash d 0 = Some h" using assms(1) by (auto simp: tree_ok_def)
  moreover from this have "im_canonical_hashes d ! 0 = h" "im_canonical_hashes d \<noteq> []"
    by (auto simp: canonical_hash_def get_at_def split: if_splits)
  ultimately have "canonical_ancestor d 0 (bh_parent_hash hdr) h = Some (Inr 0)" "branch_found P d 0 h 0"
    by (simp_all add: canonical_ancestor.simps branch_found_def blocks_after_def end_hash_def)
  then show ?case by (intro exI [of _ 0]) simp
next
  case (Suc m)
  let ?n = "of_nat (Suc m) :: u64"
  show ?case
  proof (cases "canonical_hash d ?n = Some h")
    case True
    then have "im_canonical_hashes d ! Suc m = h" "Suc m < length (im_canonical_hashes d)"
      using Suc.prems(1) by (auto simp: canonical_hash_def get_at_def u64_of_nat simp del: of_nat_Suc split: if_splits)
    then have "branch_found P d (Suc m) h (Suc m)" by (simp add: branch_found_def blocks_after_def end_hash_def del: of_nat_Suc)
    moreover have "canonical_ancestor d ?n (bh_parent_hash hdr) h = Some (Inr ?n)" using True by (simp add: canonical_ancestor.simps)
    ultimately show ?thesis by blast
  next
    case False
    have "unat ?n = Suc m" using Suc.prems(1) by (rule u64_of_nat)
    then have n: "?n \<noteq> 0" "?n - 1 = of_nat m" by (auto simp del: of_nat_Suc) simp
    have t: "bh_number hdr = ?n" "im_read_body d ?n h \<noteq> None" "im_read_header d (?n - 1) (bh_parent_hash hdr) \<noteq> None"
      using assms(1) Suc.prems(2) n(1) unfolding tree_ok_def by blast+
    then obtain p where p: "im_read_header d (of_nat m) (bh_parent_hash hdr) = Some p" using n(2) by auto
    then have pn: "bh_number p = of_nat m" using assms(1) by (auto simp: tree_ok_def)
    obtain a where a: "canonical_ancestor d (of_nat m) (bh_parent_hash p) (bh_parent_hash hdr) = Some (Inr (of_nat a))"
      "branch_found P d m (bh_parent_hash hdr) a"
      using Suc.IH [OF _ p] Suc.prems(1) by auto
    have am: "a \<le> m" "a < length (im_canonical_hashes d)" using a(2) by (auto simp: branch_found_def)
    have anc: "canonical_ancestor d ?n (bh_parent_hash hdr) h = Some (Inr (of_nat a))"
      using False p n(2) pn a(1) by (subst canonical_ancestor.simps) simp
    have "branch_found P d (Suc m) h a"
      unfolding branch_found_def
    proof (intro conjI allI)
      fix acc
      have r: "rev (blocks_after (of_nat a) ?n) = ?n # rev (blocks_after (of_nat a) (of_nat m))"
        using blocks_after_Suc [OF am(1) Suc.prems(1)] by simp
      from t(2) show "(\<exists>e. intermediate_loop P d (rev (blocks_after (of_nat a) ?n)) h acc = Some (Inl e))
         \<or> (\<exists>bs. intermediate_loop P d (rev (blocks_after (of_nat a) ?n)) h acc = Some (Inr (acc @ rev bs))
              \<and> linked d a (im_canonical_hashes d ! a) bs \<and> length bs = Suc m - a \<and> end_hash (im_canonical_hashes d ! a) bs = h)"
      proof (rule body_with_senders [where rec = "chl_recover_sender P"], goal_cases)
        case (2 body)
        let ?b = "(\<lparr>bs_header = to_partial_header hdr, bs_transactions = bws_transactions body, bs_ommers = bws_ommers body\<rparr>, h)"
        have l: "intermediate_loop P d (rev (blocks_after (of_nat a) ?n)) h acc
            = intermediate_loop P d (rev (blocks_after (of_nat a) (of_nat m))) (bh_parent_hash hdr) (acc @ [?b])"
          using 2 Suc.prems(2) by (simp add: r del: of_nat_Suc)
        from a(2) consider e where "intermediate_loop P d (rev (blocks_after (of_nat a) (of_nat m))) (bh_parent_hash hdr) (acc @ [?b]) = Some (Inl e)"
          | bs where "intermediate_loop P d (rev (blocks_after (of_nat a) (of_nat m))) (bh_parent_hash hdr) (acc @ [?b]) = Some (Inr ((acc @ [?b]) @ rev bs))"
            "linked d a (im_canonical_hashes d ! a) bs" "length bs = m - a" "end_hash (im_canonical_hashes d ! a) bs = bh_parent_hash hdr"
          unfolding branch_found_def by blast
        then show ?case
        proof cases
          case (2 bs)
          then have "linked d a (im_canonical_hashes d ! a) (bs @ [?b])"
            using Suc.prems(2) am(1) t(1) by (simp add: linked_append to_partial_header_def)
          then show ?thesis using 2 l am(1) by (intro disjI2 exI [of _ "bs @ [?b]"]) (simp add: end_hash_def)
        qed (use l in auto)
      qed (simp add: r del: of_nat_Suc)
    qed (use am in auto)
    then show ?thesis using anc by blast
  qed
qed

section \<open>Inserting into the tree\<close>

lemma inserted_old_difficulty:
  assumes "tree_ok P H d" "blk_header b \<in> H" "inj_on (chl_header_hash P) H" "bh_number (blk_header b) = n" "n \<noteq> 0"
    "chl_header_hash P (blk_header b) = h" "im_total_difficulty d (n - 1) (bh_parent_hash (blk_header b)) = Some td"
    "im_read_header d m k \<noteq> None"
  shows "im_total_difficulty (im_insert_block d b h) m k = im_total_difficulty d m k"
proof (cases "m = n \<and> k = h")
  case True
  then obtain hdr where hdr: "im_read_header d n h = Some hdr" using assms(8) by auto
  then have t: "hdr \<in> H" "chl_header_hash P hdr = h"
    "\<exists>td. im_total_difficulty d (n - 1) (bh_parent_hash hdr) = Some td \<and> im_total_difficulty d n h = Some (td + bh_difficulty hdr)"
    using assms(1,5) unfolding tree_ok_def by blast+
  then have "hdr = blk_header b" using assms(2,3,6) by (auto dest: inj_onD)
  then show ?thesis using t(3) True assms(4,7) inserted_difficulty [OF assms(4,5,7)] by auto
qed (use inserted_difficulty [OF assms(4,5,7)] in auto)

lemma inserted_tree_ok:
  assumes "tree_ok P H d" "blk_header b \<in> H" "inj_on (chl_header_hash P) H" "bh_number (blk_header b) = n" "n \<noteq> 0"
    "chl_header_hash P (blk_header b) = h" "im_read_header d (n - 1) (bh_parent_hash (blk_header b)) \<noteq> None"
    "im_total_difficulty d (n - 1) (bh_parent_hash (blk_header b)) = Some td"
  shows "tree_ok P H (im_insert_block d b h)"
  unfolding tree_ok_def
proof (intro allI impI)
  let ?e = "im_insert_block d b h"
  note old = inserted_old_difficulty [OF assms(1-6,8)]
  have can: "canonical_hash ?e = canonical_hash d" by (simp add: canonical_hash_def fun_eq_iff)
  fix m k hdr assume hdr: "im_read_header ?e m k = Some hdr"
  show "hdr \<in> H \<and> chl_header_hash P hdr = k \<and> bh_number hdr = m \<and> im_read_body ?e m k \<noteq> None
     \<and> (m = 0 \<longrightarrow> canonical_hash ?e 0 = Some k \<and> im_total_difficulty ?e 0 k \<noteq> None)
     \<and> (m \<noteq> 0 \<longrightarrow> im_read_header ?e (m - 1) (bh_parent_hash hdr) \<noteq> None
          \<and> (\<exists>td. im_total_difficulty ?e (m - 1) (bh_parent_hash hdr) = Some td
               \<and> im_total_difficulty ?e m k = Some (td + bh_difficulty hdr)))"
  proof (cases "m = n \<and> k = h")
    case True
    then have "hdr = blk_header b" using hdr assms(4) by (simp add: inserted_header)
    then show ?thesis
      using True assms(2,4-8) old [OF assms(7)] inserted_difficulty [OF assms(4,5,8)] by (simp add: inserted_header inserted_body)
  next
    case False
    then have o: "im_read_header d m k = Some hdr" using hdr assms(4) by (auto simp: inserted_header split: if_splits)
    then have t: "hdr \<in> H \<and> chl_header_hash P hdr = k \<and> bh_number hdr = m \<and> im_read_body d m k \<noteq> None"
      "m = 0 \<Longrightarrow> canonical_hash d 0 = Some k \<and> im_total_difficulty d 0 k \<noteq> None"
      "m \<noteq> 0 \<Longrightarrow> im_read_header d (m - 1) (bh_parent_hash hdr) \<noteq> None"
      "m \<noteq> 0 \<Longrightarrow> \<exists>td. im_total_difficulty d (m - 1) (bh_parent_hash hdr) = Some td \<and> im_total_difficulty d m k = Some (td + bh_difficulty hdr)"
      using assms(1) unfolding tree_ok_def by blast+
    have e: "im_total_difficulty ?e m k = im_total_difficulty d m k" using old [of m k] o by simp
    show ?thesis
    proof (cases "m = 0")
      case True
      then show ?thesis using t(1,2) e by (simp add: inserted_body can)
    next
      case False
      then show ?thesis using t(1) t(3,4) [OF False] e old [OF t(3) [OF False]] by (auto simp: inserted_body inserted_header)
    qed
  qed
qed

section \<open>Canonical chains\<close>

lemma linked_cong: "im_read_header e = im_read_header d \<Longrightarrow> linked e i g bs = linked d i g bs"
  by (induction bs arbitrary: i g) auto

lemma linked_mono:
  assumes "\<And>n k hdr. im_read_header d n k = Some hdr \<Longrightarrow> im_read_header e n k = Some hdr" "linked d i g bs"
  shows "linked e i g bs"
  using assms(2)
proof (induction bs arbitrary: i g)
  case (Cons bh bs)
  obtain b h where bh: "bh = (b, h)" by fastforce
  obtain hdr where "im_read_header d (of_nat (Suc i)) h = Some hdr" "bh_parent_hash hdr = g" using Cons.prems by (auto simp: bh)
  then have "im_read_header e (of_nat (Suc i)) h = Some hdr" "bh_parent_hash hdr = g" using assms(1) by blast+
  then show ?case using Cons.IH Cons.prems by (simp add: bh)
qed simp

definition canonical_list :: "InMemoryState \<Rightarrow> h256 list \<Rightarrow> bool" where
  "canonical_list d cs \<longleftrightarrow> (\<forall>i < length cs. \<exists>hdr. im_read_header d (of_nat i) (cs ! i) = Some hdr \<and> (i > 0 \<longrightarrow> bh_parent_hash hdr = cs ! (i - 1)))"

lemma canonical_list_append:
  assumes "canonical_list d cs" "cs \<noteq> []" "linked d (length cs - 1) (last cs) bs"
  shows "canonical_list d (cs @ map snd bs)"
  using assms
proof (induction bs arbitrary: cs)
  case (Cons bh bs)
  obtain b h where bh: "bh = (b, h)" by fastforce
  have "canonical_list d (cs @ [h])"
    using Cons.prems by (auto simp: bh canonical_list_def nth_append less_Suc_eq last_conv_nth)
  then show ?case using Cons.IH [of "cs @ [h]"] Cons.prems by (simp add: bh)
qed simp

lemma canonical_list_take: "canonical_list d cs \<Longrightarrow> canonical_list d (take k cs)"
  by (auto simp: canonical_list_def)

lemma decanonize_all:
  assumes "a \<le> t" "t < 2 ^ 64" "length (im_canonical_hashes d) = Suc t"
  shows "fold (\<lambda>n d. decanonize_block d n) (rev (blocks_after (of_nat a) (of_nat t))) d
    = d\<lparr>im_canonical_hashes := take (Suc a) (im_canonical_hashes d)\<rparr>"
  using assms
proof (induction t arbitrary: d rule: dec_induct)
  case base
  then show ?case by (simp add: blocks_after_def)
next
  case (step t)
  have "decanonize_block d (of_nat (Suc t)) = d\<lparr>im_canonical_hashes := take (Suc t) (im_canonical_hashes d)\<rparr>"
    using step.prems by (simp add: decanonize_block_def u64_of_nat del: of_nat_Suc)
  then show ?case
    using step blocks_after_Suc [of a t] by (simp add: min_absorb1 del: of_nat_Suc)
qed

lemma canonize_all:
  assumes "linked d a g bs" "length (im_canonical_hashes d) = Suc a" "a + length bs < 2 ^ 64"
  shows "fold (\<lambda>(b, hash) d. canonize_block d (ph_number (bs_header b)) hash) bs d
    = d\<lparr>im_canonical_hashes := im_canonical_hashes d @ map snd bs\<rparr>"
  using assms
proof (induction bs arbitrary: a g d)
  case (Cons bh bs)
  obtain b h where bh: "bh = (b, h)" by fastforce
  have "unat (of_nat (Suc a) :: u64) = Suc a" using Cons.prems(3) by (intro u64_of_nat) simp
  then have c: "canonize_block d (ph_number (bs_header b)) h = d\<lparr>im_canonical_hashes := im_canonical_hashes d @ [h]\<rparr>"
    using Cons.prems(1,2) by (simp add: bh canonize_block_def grow_def resize_def list_update_append del: of_nat_Suc)
  have "linked (d\<lparr>im_canonical_hashes := im_canonical_hashes d @ [h]\<rparr>) (Suc a) h bs"
    using Cons.prems(1) by (subst linked_cong [where d = d]) (simp_all add: bh im_read_header_def fun_eq_iff)
  then show ?case using Cons.IH [of "d\<lparr>im_canonical_hashes := im_canonical_hashes d @ [h]\<rparr>" "Suc a" h] Cons.prems(2,3) c by (simp add: bh)
qed simp

lemma canonize_chain_hashes:
  assumes "linked d a (im_canonical_hashes d ! a) bs" "a < length (im_canonical_hashes d)" "a + length bs < 2 ^ 64"
    "length (im_canonical_hashes d) \<le> 2 ^ 64"
  shows "canonize_chain (of_nat a) (current_canonical_block d) bs d
    = d\<lparr>im_canonical_hashes := take (Suc a) (im_canonical_hashes d) @ map snd bs\<rparr>"
proof -
  define t where "t = length (im_canonical_hashes d) - 1"
  have t: "length (im_canonical_hashes d) = Suc t" "a \<le> t" "t < 2 ^ 64" using assms(2,4) by (auto simp: t_def)
  have c: "current_canonical_block d = of_nat t" by (simp add: current_canonical_block_def t(1))
  let ?d = "d\<lparr>im_canonical_hashes := take (Suc a) (im_canonical_hashes d)\<rparr>"
  have "linked ?d a (im_canonical_hashes d ! a) bs" using assms(1) by (subst linked_cong [where d = d]) (simp_all add: im_read_header_def fun_eq_iff)
  then show ?thesis
    unfolding canonize_chain_def c decanonize_all [OF t(2,3,1)] by (subst canonize_all) (use assms t in auto)
qed

section \<open>What an insertion does to the chain\<close>

lemma intermediate_loop_cong: "same_chain d e \<Longrightarrow> intermediate_loop P e ns h acc = intermediate_loop P d ns h acc"
  by (induction ns arbitrary: h acc) (simp_all add: same_chain_reads [of d e] cong: sum.case_cong)

lemma intermediate_chain_cong: "same_chain d e \<Longrightarrow> intermediate_chain P e n h a = intermediate_chain P d n h a"
  by (simp add: intermediate_chain_def intermediate_loop_cong)

lemma validated_parent:
  assumes "ethash_validate_block_header eth (state_chain_db d) header now = Some (Inr ())"
  shows "bh_number header \<noteq> 0" "im_read_header d (bh_number header - 1) (bh_parent_hash header) \<noteq> None"
  using assms by (auto simp: ethash_validate_block_header_def get_parent_header_def state_chain_db_def split: option.splits if_splits)

lemma choose_chain_cases:
  assumes "choose_chain P block hash a current chain x d bc = Some (r, bc')"
  obtains tip best total where "canonical_hash (im_insert_block d block hash) current = Some tip"
    "im_total_difficulty (im_insert_block d block hash) current tip = Some best"
    "im_total_difficulty (im_insert_block d block hash) (bh_number (blk_header block)) hash = Some total"
    "if total > best then bc_state bc' = canonize_chain a current chain (im_insert_block d block hash)
     else same_chain (im_insert_block d block hash) (bc_state bc')"
proof -
  let ?e = "im_insert_block d block hash"
  obtain tip best total where td: "canonical_hash ?e current = Some tip" "im_total_difficulty ?e current tip = Some best"
    "im_total_difficulty ?e (bh_number (blk_header block)) hash = Some total"
    and fin: "(if total > best then Some (Inr (), bc\<lparr>bc_state := canonize_chain a current chain ?e\<rparr>)
      else do { (r, d) \<leftarrow> return_to_canonical P (bc_config bc) a x current ?e; Some (r, bc\<lparr>bc_state := d\<rparr>) }) = Some (r, bc')"
    using assms by (auto simp: choose_chain_def Let_def Option.bind_eq_Some_conv)
  have "if total > best then bc_state bc' = canonize_chain a current chain ?e else same_chain ?e (bc_state bc')"
    using fin by (auto simp: Option.bind_eq_Some_conv split: if_splits dest: return_same_chain)
  with td show thesis by (rule that)
qed

lemma attach_block_cases:
  assumes "attach_block P block hash b check bc = Some (r, bc')"
  obtains "same_chain (bc_state bc) (bc_state bc')"
  | a chain x d r where "canonical_ancestor (bc_state bc) (bh_number (blk_header block)) (bh_parent_hash (blk_header block)) hash = Some (Inr a)"
    "intermediate_chain P (bc_state bc) (bh_number (blk_header block) - 1) (bh_parent_hash (blk_header block)) a = Some (Inr chain)"
    "same_chain (bc_state bc) d"
    "choose_chain P block hash a (current_canonical_block (bc_state bc)) (chain @ [(b, hash)]) x d bc = Some (r, bc')"
proof -
  let ?d = "bc_state bc" and ?header = "blk_header block"
  let ?n = "bh_number ?header" and ?tip = "current_canonical_block ?d"
  note def = assms [unfolded attach_block_def Let_def]
  obtain a' where a': "canonical_ancestor ?d ?n (bh_parent_hash ?header) hash = Some a'"
    using def by (cases "canonical_ancestor ?d ?n (bh_parent_hash ?header) hash") auto
  show thesis
  proof (cases a')
    case (Inl e)
    then show ?thesis using def a' that(1) by simp
  next
    case (Inr a)
    note def = def [unfolded a' Inr Option.bind.simps sum.case]
    obtain d1 c where d1: "unwind_last_changes a ?tip ?d = Some d1"
      and c: "intermediate_chain P d1 (?n - 1) (bh_parent_hash ?header) a = Some c"
      using def by (auto simp: Option.bind_eq_Some_conv)
    note s1 = unwind_last_same_chain [OF d1]
    show ?thesis
    proof (cases c)
      case (Inl e)
      then show ?thesis using def d1 c s1 that(1) by auto
    next
      case chain: (Inr chain)
      note def = def [unfolded d1 c chain Option.bind.simps sum.case]
      obtain failed x d2 where d2: "execute_chain P (bc_config bc) check (chain @ [(b, hash)]) 0 d1 = Some (failed, x, d2)"
        using def by (auto simp: Option.bind_eq_Some_conv)
      note s2 = same_chain_trans [OF s1 execute_chain_same_chain [OF d2]]
      note def = def [unfolded d2 Option.bind.simps prod.case]
      show ?thesis
      proof (cases failed)
        case (Some e)
        then show ?thesis using def that(1) [OF same_chain_trans [OF s2]]
          by (auto simp: Option.bind_eq_Some_conv dest!: return_same_chain)
      next
        case None
        have "intermediate_chain P ?d (?n - 1) (bh_parent_hash ?header) a = Some (Inr chain)"
          using c chain intermediate_chain_cong [OF s1, of P] by simp
        with None show ?thesis using that(2) [of a chain d2 x r] def a' Inr s2 by simp
      qed
    qed
  qed
qed

lemma insert_block_attaches:
  assumes "bc_insert_block P now block check bc = Some (r, bc')"
  obtains "bc' = bc" | b where "bh_number (blk_header block) \<noteq> 0"
    "im_read_header (bc_state bc) (bh_number (blk_header block) - 1) (bh_parent_hash (blk_header block)) \<noteq> None"
    "ph_number (bs_header b) = bh_number (blk_header block)"
    "attach_block P block (chl_header_hash P (blk_header block)) b check bc = Some (r, bc')"
proof -
  let ?db = "state_chain_db (bc_state bc)" and ?header = "blk_header block"
  note def = assms [unfolded bc_insert_block_def Let_def]
  obtain r1 where r1: "ethash_validate_block_header (bc_engine bc) ?db ?header (Some now) = Some r1"
    using def by (auto simp: Option.bind_eq_Some_conv)
  show thesis
  proof (cases r1)
    case (Inl e)
    then show ?thesis using def r1 that(1) by simp
  next
    case (Inr u)
    note def = def [unfolded r1 Inr Option.bind.simps sum.case]
    obtain r2 where r2: "base_pre_validate_block (chl_seal P) (eth_base (bc_engine bc)) ?db block = Some r2"
      using def by (auto simp: Option.bind_eq_Some_conv)
    show ?thesis
    proof (cases "(\<exists>e. r2 = Inl e) \<or> bc_bad_blocks bc (chl_header_hash P ?header) \<noteq> None")
      case True
      then show ?thesis using def r2 that(1) by (auto split: sum.splits option.splits)
    next
      case False
      then obtain b where b: "block_with_senders P block = Some b"
        "attach_block P block (chl_header_hash P ?header) b check bc = Some (r, bc')"
        using def r2 by (auto simp: Option.bind_eq_Some_conv split: sum.splits)
      then have "ph_number (bs_header b) = bh_number ?header"
        by (auto simp: block_with_senders_def to_partial_header_def split: sum.splits)
      then show ?thesis using that(2) b(2) validated_parent [of "bc_engine bc" "bc_state bc"] r1 Inr by simp
    qed
  qed
qed

section \<open>The invariant of the chain\<close>

lemma canonical_list_ok:
  "canonical_ok d \<longleftrightarrow> im_canonical_hashes d \<noteq> [] \<and> length (im_canonical_hashes d) \<le> 2 ^ 64 \<and> canonical_list d (im_canonical_hashes d)"
  by (simp add: canonical_ok_def canonical_list_def)

lemma canonical_list_mono:
  assumes "canonical_list d cs" "\<And>n k hdr. im_read_header d n k = Some hdr \<Longrightarrow> im_read_header e n k = Some hdr"
  shows "canonical_list e cs"
  using assms unfolding canonical_list_def by blast

lemma tree_ok_rehash:
  assumes "tree_ok P H e" "take 1 cs = take 1 (im_canonical_hashes e)"
  shows "tree_ok P H (e\<lparr>im_canonical_hashes := cs\<rparr>)"
proof -
  have "canonical_hash (e\<lparr>im_canonical_hashes := cs\<rparr>) 0 = canonical_hash e 0"
    using assms(2) by (cases cs; cases "im_canonical_hashes e") (auto simp: canonical_hash_def get_at_def)
  then show ?thesis using assms(1)
    by (simp add: tree_ok_def im_read_header_def im_read_body_def im_total_difficulty_def)
qed

lemma new_branch:
  assumes "chain_inv P H d" "bh_number header = n" "n \<noteq> 0" "im_read_header d (n - 1) (bh_parent_hash header) \<noteq> None"
    "canonical_ancestor d n (bh_parent_hash header) hash = Some (Inr a)"
    "intermediate_chain P d (n - 1) (bh_parent_hash header) a = Some (Inr chain)"
  obtains i where "a = of_nat i" "i < length (im_canonical_hashes d)" "i + length chain + 1 = unat n"
    "linked d i (im_canonical_hashes d ! i) chain" "end_hash (im_canonical_hashes d ! i) chain = bh_parent_hash header"
proof -
  define m where "m = unat n - 1"
  have m: "unat n = Suc m" using assms(3) unat_eq_0 [of n] by (simp add: m_def)
  then have "n = of_nat (Suc m)" by (rule u64_eqI)
  then have m: "n - 1 = of_nat m" "unat n = Suc m" "m < 2 ^ 64" using m unat_u64 [of n] by simp_all
  have "canonical_hash d n \<noteq> Some hash"
  proof
    assume "canonical_hash d n = Some hash"
    then have "a = n" using assms(5) by (simp add: canonical_ancestor.simps)
    then show False using assms(6) by (simp add: intermediate_chain_def isize_max_def)
  qed
  moreover obtain parent where p: "im_read_header d (of_nat m) (bh_parent_hash header) = Some parent" using assms(4) m(1) by auto
  moreover have "bh_number parent = of_nat m" using p assms(1) by (auto simp: chain_inv_def tree_ok_def)
  ultimately have a: "canonical_ancestor d (of_nat m) (bh_parent_hash parent) (bh_parent_hash header) = Some (Inr a)"
    using assms(5) m(1) by (simp add: canonical_ancestor.simps [of d n])
  obtain i where i: "a = of_nat i" "branch_found P d m (bh_parent_hash header) i"
    using branch_exists [OF _ _ m(3) p, of P H] a assms(1) by (auto simp: chain_inv_def)
  have "\<exists>e. intermediate_loop P d (rev (blocks_after (of_nat i) (of_nat m))) (bh_parent_hash header) [] = Some (Inr e) \<and> chain = rev e"
    using assms(6)
    by (cases "intermediate_loop P d (rev (blocks_after (of_nat i) (of_nat m))) (bh_parent_hash header) []")
      (auto simp: intermediate_chain_def m(1) i(1) split: if_splits sum.splits)
  then have "linked d i (im_canonical_hashes d ! i) chain \<and> length chain = m - i \<and> end_hash (im_canonical_hashes d ! i) chain = bh_parent_hash header"
    using i(2) unfolding branch_found_def by (metis append_Nil option.inject rev_rev_ident sum.distinct(1) sum.inject(2))
  then show thesis using that [of i] i m(2) by (auto simp: branch_found_def)
qed

lemma inserted_keeps:
  assumes "tree_ok P H d" "blk_header b \<in> H" "inj_on (chl_header_hash P) H" "im_read_header d m k = Some hdr"
  shows "im_read_header (im_insert_block d b (chl_header_hash P (blk_header b))) m k = Some hdr"
proof -
  have "hdr \<in> H" "chl_header_hash P hdr = k" using assms(1,4) by (auto simp: tree_ok_def)
  then show ?thesis using assms(2-4) by (auto simp: inserted_header dest: inj_onD)
qed

lemma tip_number:
  assumes "canonical_ok d"
  shows "current_canonical_block d = of_nat (length (im_canonical_hashes d) - 1)"
    "canonical_hash d (current_canonical_block d) = Some (last (im_canonical_hashes d))"
proof -
  have c: "im_canonical_hashes d \<noteq> []" "length (im_canonical_hashes d) \<le> 2 ^ 64" using assms by (simp_all add: canonical_ok_def)
  then show t: "current_canonical_block d = of_nat (length (im_canonical_hashes d) - 1)"
    by (cases "length (im_canonical_hashes d)") (auto simp: current_canonical_block_def)
  show "canonical_hash d (current_canonical_block d) = Some (last (im_canonical_hashes d))"
    unfolding t using canonical_hash_nth [OF c(2), of "length (im_canonical_hashes d) - 1"] c(1) by (simp add: last_conv_nth)
qed

text \<open>A block that is stored beside the canonical chain, and one that becomes its tip.\<close>

lemma stored_inv:
  assumes inv: "chain_inv P H d" and new: "blk_header block \<in> H" "inj_on (chl_header_hash P) H" "bh_number (blk_header block) = n" "n \<noteq> 0"
    "im_read_header d (n - 1) (bh_parent_hash (blk_header block)) \<noteq> None" "chl_header_hash P (blk_header block) = hash"
    and e: "e = im_insert_block d block hash"
  obtains best total where "tree_ok P H e" "canonical_ok e"
    "im_total_difficulty e (current_canonical_block d) (last (im_canonical_hashes d)) = Some best"
    "im_total_difficulty e n hash = Some total"
    "\<And>m k hdr td. im_read_header e m k = Some hdr \<Longrightarrow> im_total_difficulty e m k = Some td \<Longrightarrow> td \<le> max best total"
proof -
  have ok: "tree_ok P H d" "canonical_ok d" "tip_best d" using inv by (simp_all add: chain_inv_def)
  obtain p where p: "im_read_header d (n - 1) (bh_parent_hash (blk_header block)) = Some p" using new(5) by auto
  then obtain ptd where ptd: "im_total_difficulty d (n - 1) (bh_parent_hash (blk_header block)) = Some ptd"
    using ok(1) unfolding tree_ok_def by (cases "n - 1 = 0") force+
  note old = inserted_old_difficulty [OF ok(1) new(1-4,6) ptd]
  have tree: "tree_ok P H e" unfolding e by (rule inserted_tree_ok [OF ok(1) new(1-4,6,5) ptd])
  have "canonical_list e (im_canonical_hashes d)"
    using ok(2) inserted_keeps [OF ok(1) new(1,2)] unfolding e new(6) [symmetric] canonical_list_ok by (blast intro: canonical_list_mono)
  then have can: "canonical_ok e" using ok(2) by (simp add: canonical_list_ok e)
  obtain best where best: "im_total_difficulty d (current_canonical_block d) (last (im_canonical_hashes d)) = Some best"
    "\<And>m k hdr td. im_read_header d m k = Some hdr \<Longrightarrow> im_total_difficulty d m k = Some td \<Longrightarrow> td \<le> best"
    using ok(3) tip_number(1) [OF ok(2)] unfolding tip_best_def by metis
  obtain tip where "im_read_header d (current_canonical_block d) (last (im_canonical_hashes d)) = Some tip"
    using ok(2) tip_number(1) [OF ok(2)] unfolding canonical_ok_def by (metis diff_less last_conv_nth length_greater_0_conv zero_less_one)
  then have 1: "im_total_difficulty e (current_canonical_block d) (last (im_canonical_hashes d)) = Some best"
    using best(1) old by (simp add: e)
  have 2: "im_total_difficulty e n hash = Some (ptd + bh_difficulty (blk_header block))"
    using inserted_difficulty [OF new(3,4) ptd] by (simp add: e)
  have "td \<le> max best (ptd + bh_difficulty (blk_header block))"
    if "im_read_header e m k = Some hdr" "im_total_difficulty e m k = Some td" for m k hdr td
  proof (cases "im_read_header d m k")
    case None
    then have "m = n \<and> k = hash" using that(1) new(3) by (auto simp: e inserted_header split: if_splits)
    then show ?thesis using that(2) 2 by simp
  next
    case (Some hdr')
    then show ?thesis using old [of m k] that(2) best(2) [of m k hdr' td] by (simp add: e le_max_iff_disj)
  qed
  with tree can 1 2 show thesis by (rule that)
qed

lemma extended_inv:
  assumes "tree_ok P H e" "canonical_ok e" "i < length (im_canonical_hashes e)" "bs \<noteq> []" "linked e i (im_canonical_hashes e ! i) bs"
    "i + length bs < 2 ^ 64" "im_total_difficulty e (of_nat (i + length bs)) (snd (last bs)) = Some t"
    "\<And>m k hdr td. im_read_header e m k = Some hdr \<Longrightarrow> im_total_difficulty e m k = Some td \<Longrightarrow> td \<le> t"
  shows "chain_inv P H (e\<lparr>im_canonical_hashes := take (Suc i) (im_canonical_hashes e) @ map snd bs\<rparr>)"
proof -
  let ?cs = "take (Suc i) (im_canonical_hashes e)" and ?f = "e\<lparr>im_canonical_hashes := take (Suc i) (im_canonical_hashes e) @ map snd bs\<rparr>"
  have reads: "im_read_header ?f = im_read_header e" "im_total_difficulty ?f = im_total_difficulty e"
    by (simp_all add: im_read_header_def im_total_difficulty_def fun_eq_iff)
  have cs: "?cs \<noteq> []" "length ?cs = Suc i" "last ?cs = im_canonical_hashes e ! i"
    using assms(3) by (auto simp: take_Suc_conv_app_nth min_absorb2)
  have "canonical_list e ?cs" using assms(2) by (auto simp: canonical_list_ok intro: canonical_list_take)
  then have "canonical_list e (?cs @ map snd bs)" using cs assms(5) by (intro canonical_list_append) simp_all
  then have "canonical_ok ?f" using cs assms(6) by (simp add: canonical_list_ok) (simp add: canonical_list_def reads)
  moreover have "take 1 (?cs @ map snd bs) = take 1 (im_canonical_hashes e)" using assms(3) by (cases "im_canonical_hashes e") auto
  then have "tree_ok P H ?f" by (rule tree_ok_rehash [OF assms(1)])
  moreover have "tip_best ?f"
    using assms(4,7,8) cs by (auto simp: tip_best_def reads last_map)
  ultimately show ?thesis by (simp add: chain_inv_def)
qed

lemma attach_inv:
  assumes inv: "chain_inv P H (bc_state bc)" and new: "blk_header block \<in> H" "inj_on (chl_header_hash P) H"
    "bh_number (blk_header block) = n" "n \<noteq> 0" "im_read_header (bc_state bc) (n - 1) (bh_parent_hash (blk_header block)) \<noteq> None"
    "chl_header_hash P (blk_header block) = hash" "ph_number (bs_header b) = n"
    and run: "attach_block P block hash b check bc = Some (r, bc')"
  shows "chain_inv P H (bc_state bc')"
  using run
proof (cases rule: attach_block_cases)
  case 1
  then show ?thesis using inv by (rule same_chain_inv)
next
  case (2 a chain x d r')
  define e where "e = im_insert_block d block hash"
  have inv_d: "chain_inv P H d" using 2(3) inv by (rule same_chain_inv)
  note same = same_chain_reads [OF 2(3)]
  obtain best total where st: "tree_ok P H e" "canonical_ok e"
    "im_total_difficulty e (current_canonical_block d) (last (im_canonical_hashes d)) = Some best" "im_total_difficulty e n hash = Some total"
    "\<And>m k hdr td. im_read_header e m k = Some hdr \<Longrightarrow> im_total_difficulty e m k = Some td \<Longrightarrow> td \<le> max best total"
    using stored_inv [OF inv_d new(1-4) _ new(6) e_def] new(5) by (auto simp: same)
  have cs: "im_canonical_hashes e = im_canonical_hashes d" by (simp add: e_def)
  then have tip: "current_canonical_block e = current_canonical_block d" by (simp add: current_canonical_block_def)
  have fin: "if total > best then bc_state bc' = canonize_chain a (current_canonical_block e) (chain @ [(b, hash)]) e else same_chain e (bc_state bc')"
    using 2(4) st(3,4) tip_number(2) [OF st(2)] same(5)
    by (elim choose_chain_cases) (simp add: e_def [symmetric] new(3) tip cs cong: if_cong)
  show ?thesis
  proof (cases "total > best")
    case False
    then have "tip_best e" using st(3,5) tip_number(1) [OF st(2)] by (auto simp: tip_best_def tip cs)
    then have "chain_inv P H e" using st(1,2) by (simp add: chain_inv_def)
    then show ?thesis using fin False same_chain_inv by auto
  next
    case True
    have cs0: "im_canonical_hashes d = im_canonical_hashes (bc_state bc)" using 2(3) by (simp add: same_chain_def)
    obtain i where i: "a = of_nat i" "i < length (im_canonical_hashes d)" "i + length chain + 1 = unat n"
      "linked d i (im_canonical_hashes d ! i) chain" "end_hash (im_canonical_hashes d ! i) chain = bh_parent_hash (blk_header block)"
      using new_branch [OF inv new(3-5), of hash a chain] 2(1,2) linked_cong [OF same(1)] by (auto simp: new(3) cs0)
    let ?bs = "chain @ [(b, hash)]"
    have n: "of_nat (Suc (i + length chain)) = n" using i(3) u64_eqI [of n] by (metis Suc_eq_plus1)
    then have l: "linked e i (im_canonical_hashes d ! i) ?bs"
      using linked_mono [OF inserted_keeps [OF _ new(1,2)] i(4)] inv_d new(3,7) i(5)
      by (auto simp: chain_inv_def linked_append e_def new(6) inserted_header)
    have len: "length (im_canonical_hashes e) \<le> 2 ^ 64" "i + length ?bs < 2 ^ 64"
      using st(2) i(3) unat_u64 [of n] by (simp_all add: canonical_ok_def)
    let ?cs = "take (Suc i) (im_canonical_hashes d) @ map snd ?bs"
    have f: "bc_state bc' = e\<lparr>im_canonical_hashes := ?cs\<rparr>"
      using fin True canonize_chain_hashes [of e i ?bs] l i(1,2) len by (simp add: cs)
    have "im_total_difficulty e (of_nat (i + length ?bs)) (snd (last ?bs)) = Some total" using st(4) n by simp
    moreover have "td \<le> total" if "im_read_header e m k = Some hdr" "im_total_difficulty e m k = Some td" for m k hdr td
      using st(5) [OF that] True by (simp add: max_def split: if_splits)
    ultimately show ?thesis
      using extended_inv [OF st(1,2), of i ?bs total] i(2) l len(2) unfolding f cs by simp
  qed
qed

lemma genesis_inv:
  assumes "im_headers d = []" "im_bodies d = []" "im_difficulty d = []" "im_canonical_hashes d = []"
    "blk_header genesis \<in> H" "bh_number (blk_header genesis) = 0"
  shows "chain_inv P H (bc_state (new_with_consensus P d engine config genesis))"
proof -
  let ?h = "chl_header_hash P (blk_header genesis)"
  let ?e = "canonize_block (im_insert_block d genesis ?h) 0 ?h"
  have empty: "im_read_header d m k = None" "im_read_body d m k = None" "im_total_difficulty d m k = None" for m k
    using assms(1-3) by (simp_all add: im_read_header_def im_read_body_def im_total_difficulty_def get_at_def)
  have cs: "im_canonical_hashes ?e = [?h]" using assms(4) by (simp add: canonize_block_def grow_def resize_def)
  have same: "im_read_header ?e = im_read_header (im_insert_block d genesis ?h)" "im_read_body ?e = im_read_body (im_insert_block d genesis ?h)"
    "im_total_difficulty ?e = im_total_difficulty (im_insert_block d genesis ?h)"
    by (simp_all add: canonize_block_def im_read_header_def im_read_body_def im_total_difficulty_def fun_eq_iff)
  note reads = same inserted_header inserted_body inserted_genesis_difficulty [OF assms(6)] empty assms(6)
  have "tree_ok P H ?e" using assms(5) cs by (auto simp: tree_ok_def reads canonical_hash_def get_at_def split: if_splits)
  moreover have "canonical_ok ?e" by (simp add: canonical_ok_def cs reads)
  moreover have "tip_best ?e" by (auto simp: tip_best_def cs reads)
  ultimately show ?thesis by (simp add: chain_inv_def new_with_consensus_def Let_def assms(6))
qed

section \<open>Properties\<close>

text \<open>The chains that insertions reach, whatever the blocks of a set, their order, the clock and the results.\<close>

inductive chain_run :: "'c chain_lib \<Rightarrow> Block set \<Rightarrow> Blockchain \<Rightarrow> Blockchain \<Rightarrow> bool" for P B bc0 where
  start: "chain_run P B bc0 bc0"
| insert: "chain_run P B bc0 bc \<Longrightarrow> block \<in> B \<Longrightarrow> bc_insert_block P now block check bc = Some (r, bc') \<Longrightarrow> chain_run P B bc0 bc'"

lemma chain_run_inv:
  assumes "chain_run P B bc0 bc" "chain_inv P (blk_header ` B) (bc_state bc0)" "inj_on (chl_header_hash P) (blk_header ` B)"
  shows "chain_inv P (blk_header ` B) (bc_state bc)"
  using assms(1)
proof induction
  case (insert bc block now check r bc')
  from insert(3) show ?case
  proof (cases rule: insert_block_attaches)
    case (2 b)
    then show ?thesis using attach_inv [OF insert.IH _ assms(3) refl 2(1,2) refl] insert.hyps(2) by auto
  qed (use insert.IH in simp)
qed (rule assms(2))

lemma canonize_chain_reads: "im_read_header (canonize_chain a t bs d) = im_read_header d"
proof -
  have 1: "im_headers (fold (\<lambda>(b, hash) d. canonize_block d (ph_number (bs_header b)) hash) bs d) = im_headers d"
    for bs :: "(BlockWithSenders \<times> h256) list" and d :: InMemoryState
    by (induction bs arbitrary: d) (auto simp: canonize_block_def)
  have "im_headers (fold (\<lambda>n d. decanonize_block d n) ns d) = im_headers d" for ns and d :: InMemoryState
    by (induction ns arbitrary: d) (auto simp: decanonize_block_def)
  with 1 show ?thesis by (simp add: canonize_chain_def im_read_header_def fun_eq_iff)
qed

lemma insert_block_keeps:
  assumes "bc_insert_block P now block check bc = Some (r, bc')" "im_read_header (bc_state bc) m k \<noteq> None"
  shows "im_read_header (bc_state bc') m k \<noteq> None"
  using assms(1)
proof (cases rule: insert_block_attaches)
  case (2 b)
  from 2(4) show ?thesis
  proof (cases rule: attach_block_cases)
    case 1
    then show ?thesis using assms(2) by (simp add: same_chain_reads)
  next
    case (2 a chain x d r)
    from 2(4) show ?thesis
      by (rule choose_chain_cases)
        (use assms(2) same_chain_reads(1) [OF 2(3)] in \<open>auto simp: canonize_chain_reads inserted_header same_chain_reads(1) split: if_splits\<close>)
  qed
qed (use assms(2) in simp)

lemma chain_run_keeps: "chain_run P B bc0 bc \<Longrightarrow> im_read_header (bc_state bc0) m k \<noteq> None \<Longrightarrow> im_read_header (bc_state bc) m k \<noteq> None"
proof (induction rule: chain_run.induct)
  case (insert bc block now check r bc')
  then show ?case using insert_block_keeps [OF insert.hyps(3)] by simp
qed

text \<open>C7: The fork choice. Whatever blocks are inserted in whatever order, accepted or rejected, and however often the chain
  is reorganised: the canonical chain starts with the genesis block, every block of it is the parent of the next,
  the total difficulty of a stored block is that of its parent and its own difficulty, and no stored block has
  a higher total difficulty than the tip of the canonical chain. The hash of headers must not collide on the blocks inserted.\<close>

theorem fork_choice:
  assumes "chain_run P B (new_with_consensus P d0 engine config genesis) bc" "genesis \<in> B" "bh_number (blk_header genesis) = 0"
    "im_headers d0 = []" "im_bodies d0 = []" "im_difficulty d0 = []" "im_canonical_hashes d0 = []"
    "inj_on (chl_header_hash P) (blk_header ` B)"
  shows "\<exists>tip best. let d = bc_state bc; current = current_canonical_block d in
    canonical_hash d 0 = Some (chl_header_hash P (blk_header genesis))
    \<and> (\<forall>n. 0 < n \<and> n \<le> current \<longrightarrow> (\<exists>h header. canonical_hash d n = Some h \<and> im_read_header d n h = Some header
         \<and> canonical_hash d (n - 1) = Some (bh_parent_hash header)))
    \<and> (\<forall>n h header. 0 < n \<and> im_read_header d n h = Some header \<longrightarrow>
         (\<exists>td. im_total_difficulty d (n - 1) (bh_parent_hash header) = Some td \<and> im_total_difficulty d n h = Some (td + bh_difficulty header)))
    \<and> canonical_hash d current = Some tip \<and> im_total_difficulty d current tip = Some best
    \<and> (\<forall>n h header. im_read_header d n h = Some header \<longrightarrow> (\<exists>td. im_total_difficulty d n h = Some td \<and> td \<le> best))"
proof -
  let ?d = "bc_state bc" and ?g = "chl_header_hash P (blk_header genesis)"
  let ?cs = "im_canonical_hashes ?d" and ?current = "current_canonical_block ?d"
  have inv: "chain_inv P (blk_header ` B) ?d"
    using assms by (intro chain_run_inv [OF assms(1)] genesis_inv) auto
  then have ok: "tree_ok P (blk_header ` B) ?d" "canonical_ok ?d" "tip_best ?d" by (simp_all add: chain_inv_def)
  obtain best where best: "im_total_difficulty ?d ?current (last ?cs) = Some best"
    "\<And>m k hdr td. im_read_header ?d m k = Some hdr \<Longrightarrow> im_total_difficulty ?d m k = Some td \<Longrightarrow> td \<le> best"
    using ok(3) tip_number(1) [OF ok(2)] unfolding tip_best_def by metis
  have td: "\<exists>td. im_total_difficulty ?d n h = Some td" if "im_read_header ?d n h = Some header" for n h header
    using ok(1) that unfolding tree_ok_def by (cases "n = 0") force+
  have link: "\<exists>h header. canonical_hash ?d n = Some h \<and> im_read_header ?d n h = Some header \<and> canonical_hash ?d (n - 1) = Some (bh_parent_hash header)"
    if "0 < n" "n \<le> ?current" for n
  proof -
    have len: "length ?cs \<le> 2 ^ 64" "?cs \<noteq> []" using ok(2) by (simp_all add: canonical_ok_def)
    have "unat ?current = length ?cs - 1" using len by (subst tip_number(1) [OF ok(2)], intro u64_of_nat) (cases ?cs; simp)
    then have "unat n \<le> length ?cs - 1" using that(2) by (simp add: word_le_nat_alt)
    moreover have "0 < unat n" using that(1) by (simp add: word_less_nat_alt)
    moreover have "unat (n - 1) = unat n - 1" using that(1) by (intro unat_minus_one) auto
    ultimately have n: "unat n < length ?cs" "0 < unat n" "unat (n - 1) = unat n - 1" using len(2) by (cases ?cs; simp)+
    then have "canonical_hash ?d n = Some (?cs ! unat n)" "canonical_hash ?d (n - 1) = Some (?cs ! (unat n - 1))"
      by (simp_all add: canonical_hash_def get_at_def)
    moreover obtain header where "im_read_header ?d n (?cs ! unat n) = Some header" "bh_parent_hash header = ?cs ! (unat n - 1)"
      using ok(2) n(1,2) unfolding canonical_ok_def by (metis u64_eqI)
    ultimately show ?thesis by auto
  qed
  have "im_read_header (bc_state (new_with_consensus P d0 engine config genesis)) 0 ?g \<noteq> None"
    by (simp add: new_with_consensus_def Let_def assms(3) inserted_header [unfolded im_read_header_def] canonize_block_def im_read_header_def)
  then have "im_read_header ?d 0 ?g \<noteq> None" by (rule chain_run_keeps [OF assms(1)])
  then have g: "canonical_hash ?d 0 = Some ?g" using ok(1) unfolding tree_ok_def by blast
  have parent: "\<exists>td. im_total_difficulty ?d (n - 1) (bh_parent_hash header) = Some td \<and> im_total_difficulty ?d n h = Some (td + bh_difficulty header)"
    if "0 < n" "im_read_header ?d n h = Some header" for n h header
    using tree_okD(5) [OF ok(1) that(2)] that(1) by (simp add: word_gt_0)
  show ?thesis
    unfolding Let_def
  proof (rule exI [of _ "last ?cs"], rule exI [of _ best], intro conjI allI impI)
    fix n h header assume h: "im_read_header ?d n h = Some header"
    with td obtain x where "im_total_difficulty ?d n h = Some x" by blast
    with best(2) [OF h] show "\<exists>td. im_total_difficulty ?d n h = Some td \<and> td \<le> best" by blast
  qed (use g best(1) tip_number(2) [OF ok(2)] link parent in \<open>simp_all\<close>)
qed


lemma insert_failed_extension:
  assumes "ethash_validate_block_header (bc_engine bc) (state_chain_db (bc_state bc)) (blk_header block) (Some now) = Some (Inr ())"
    "base_pre_validate_block (chl_seal P) (eth_base (bc_engine bc)) (state_chain_db (bc_state bc)) block = Some (Inr ())"
    "bc_bad_blocks bc (chl_header_hash P (blk_header block)) = None" "block_with_senders P block = Some b"
    "im_read_header (bc_state bc) (n - 1) (bh_parent_hash (blk_header block)) = Some parent" "bh_number parent = n - 1"
    "canonical_hash (bc_state bc) (n - 1) = Some (bh_parent_hash (blk_header block))" "canonical_hash (bc_state bc) n = None"
    "current_canonical_block (bc_state bc) = n - 1" "bh_number (blk_header block) = n"
    "chain_execute_block P (bc_config bc) b check (bc_state bc) = Some (Inl e, d)"
  shows "bc_insert_block P now block check bc = Some (Inl (Validation e),
    bc\<lparr>bc_state := d, bc_bad_blocks := (bc_bad_blocks bc)(chl_header_hash P (blk_header block) \<mapsto> e)\<rparr>)"
proof -
  let ?d = "bc_state bc" and ?hash = "chl_header_hash P (blk_header block)"
  let ?bc = "bc\<lparr>bc_state := d, bc_bad_blocks := (bc_bad_blocks bc)(?hash \<mapsto> e)\<rparr>"
  have ancestor: "canonical_ancestor ?d n (bh_parent_hash (blk_header block)) ?hash = Some (Inr (n - 1))"
    using assms(5-8) by (simp add: canonical_ancestor.simps [of ?d n] canonical_ancestor.simps [of ?d "n - 1"])
  have none: "blocks_after x x = []" for x by (simp add: blocks_after_def)
  have "attach_block P block ?hash b check bc = Some (Inl (Validation e), ?bc)"
    by (simp add: attach_block_def assms(9-11) ancestor Let_def unwind_last_changes_def none intermediate_chain_def isize_max_def
        return_to_canonical_def re_execute_canonical_chain_def)
  then show ?thesis using assms(1-4) by (simp add: bc_insert_block_def Let_def)
qed

text \<open>A block on top of the canonical chain that fails to execute: the insertion returns its error, the blocks and the canonical
  chain are what they were, and so is the whole state unless the failure is a wrong state root; the hash is remembered
  with the error, and inserting the block again returns that error without executing anything.\<close>

theorem failed_extension_restores:
  assumes "ethash_validate_block_header (bc_engine bc) (state_chain_db (bc_state bc)) (blk_header block) (Some now) = Some (Inr ())"
    "base_pre_validate_block (chl_seal P) (eth_base (bc_engine bc)) (state_chain_db (bc_state bc)) block = Some (Inr ())"
    "bc_bad_blocks bc (chl_header_hash P (blk_header block)) = None" "block_with_senders P block = Some b"
    "im_read_header (bc_state bc) (n - 1) (bh_parent_hash (blk_header block)) = Some parent" "bh_number parent = n - 1"
    "canonical_hash (bc_state bc) (n - 1) = Some (bh_parent_hash (blk_header block))" "canonical_hash (bc_state bc) n = None"
    "current_canonical_block (bc_state bc) = n - 1" "bh_number (blk_header block) = n"
    "chain_execute_block P (bc_config bc) b check (bc_state bc) = Some (Inl e, d)"
  shows "\<exists>bc'. bc_insert_block P now block check bc = Some (Inl (Validation e), bc')
    \<and> bc' = bc\<lparr>bc_state := d, bc_bad_blocks := (bc_bad_blocks bc)(chl_header_hash P (blk_header block) \<mapsto> e)\<rparr>
    \<and> same_chain (bc_state bc) d \<and> ((\<forall>x y. e \<noteq> WrongStateRoot x y) \<longrightarrow> d = bc_state bc)
    \<and> bc_insert_block P now block check bc' = Some (Inl (Validation e), bc')"
proof -
  let ?d = "bc_state bc" and ?hash = "chl_header_hash P (blk_header block)"
  let ?bc = "bc\<lparr>bc_state := d, bc_bad_blocks := (bc_bad_blocks bc)(?hash \<mapsto> e)\<rparr>"
  have same: "same_chain ?d d" using assms(11) by (rule execute_block_same_chain)
  have exact: "d = ?d" if "\<forall>x y. e \<noteq> WrongStateRoot x y"
    using failed_execution_state [OF assms(11)] that by blast
  note 1 = insert_failed_extension [OF assms]
  have "state_chain_db d = state_chain_db ?d" by (simp add: state_chain_db_def same_chain_reads [OF same])
  then have "bc_insert_block P now block check ?bc = Some (Inl (Validation e), ?bc)"
    using assms(1,2) by (simp add: bc_insert_block_def Let_def)
  with 1 same exact show ?thesis by blast
qed

text \<open>C38: A canonical block cannot be inserted again: once it has passed validation, the insertion panics, because the number
  of blocks between its parent and itself as its own ancestor underflows.\<close>

theorem canonical_block_reinsertion_panics:
  assumes "ethash_validate_block_header (bc_engine bc) (state_chain_db (bc_state bc)) (blk_header block) (Some now) = Some (Inr ())"
    "base_pre_validate_block (chl_seal P) (eth_base (bc_engine bc)) (state_chain_db (bc_state bc)) block = Some (Inr ())"
    "bc_bad_blocks bc (chl_header_hash P (blk_header block)) = None"
    "canonical_hash (bc_state bc) (bh_number (blk_header block)) = Some (chl_header_hash P (blk_header block))"
  shows "bc_insert_block P now block check bc = None"
proof -
  let ?n = "bh_number (blk_header block)"
  have "?n - 1 - ?n > isize_max" by (simp add: isize_max_def)
  then have "intermediate_chain P d (?n - 1) h ?n = None" for d h by (simp add: intermediate_chain_def)
  then have "attach_block P block (chl_header_hash P (blk_header block)) b check bc = None" for b
    using assms(4) by (simp add: attach_block_def canonical_ancestor.simps Let_def)
  then show ?thesis using assms(1-3) by (simp add: bc_insert_block_def Let_def)
qed

section \<open>A sample chain\<close>

text \<open>A genesis block and a block on top of it that claims gas no transaction has used.\<close>

definition sample_chain_lib :: "(h256 \<rightharpoonup> AnalyzedCode) chain_lib" where
  "sample_chain_lib = \<lparr>chl_lib = sample_lib, chl_address_rlp = (\<lambda>_ _. []), chl_lru = sample_lru, chl_contracts = CONTRACTS sample_lib sample_crypto,
     chl_cache_default = Map.empty, chl_seal = \<lparr>ommers_hash = (\<lambda>_. EMPTY_LIST_HASH), transactions_root = (\<lambda>_. 0),
       hashimoto = (\<lambda>_ _. (0, 0)), cross_boundary = (\<lambda>_. 0)\<rparr>, chl_header_hash = (\<lambda>h. ucast (bh_number h)),
     chl_recover_sender = (\<lambda>_. Inr 0), chl_receipts_root = (\<lambda>_. 0), chl_trie_root = (\<lambda>_. 0), chl_account_rlp = (\<lambda>_. []), chl_bytes_rlp = id\<rparr>"

definition sample_engine :: Ethash where
  "sample_engine = \<lparr>eth_base = \<lparr>eng_chain_id = 1, eng_eip1559_block = None\<rparr>, eth_duration_limit = 13, eth_block_reward = [],
     eth_homestead_formula = None, eth_byzantium_formula = None, eth_difficulty_bomb = None, eth_skip_pow_verification = True\<rparr>"

definition sample_genesis :: Block where
  "sample_genesis = \<lparr>blk_header = sample_block_header\<lparr>bh_number := 0, bh_base_fee_per_gas := None\<rparr>, blk_transactions = [], blk_ommers = []\<rparr>"

definition sample_child :: Block where
  "sample_child = \<lparr>blk_header = sample_block_header\<lparr>bh_number := 1, bh_timestamp := 110, bh_difficulty := 1000488, bh_base_fee_per_gas := None\<rparr>,
     blk_transactions = [], blk_ommers = []\<rparr>"

definition sample_blockchain :: Blockchain where
  "sample_blockchain = new_with_consensus sample_chain_lib InMemoryState_new sample_engine sample_chain sample_genesis"

lemma sample_reads:
  "im_read_header (bc_state sample_blockchain) n h = (if n = 0 \<and> h = 0 then Some (blk_header sample_genesis) else None)"
  "canonical_hash (bc_state sample_blockchain) n = (if n = 0 then Some 0 else None)"
  "bc_engine sample_blockchain = sample_engine" "bc_config sample_blockchain = sample_chain" "bc_bad_blocks sample_blockchain = Map.empty"
  "current_canonical_block (bc_state sample_blockchain) = 0"
proof -
  have g: "bh_number (blk_header sample_genesis) = 0" by (simp add: sample_genesis_def)
  have h: "chl_header_hash sample_chain_lib (blk_header sample_genesis) = 0" by (simp add: sample_chain_lib_def g)
  let ?d = "im_insert_block InMemoryState_new sample_genesis 0"
  have d: "bc_state sample_blockchain = canonize_block ?d 0 0" by (simp add: sample_blockchain_def new_with_consensus_def g h Let_def)
  have cs: "im_canonical_hashes (canonize_block ?d 0 0) = [0]" by (simp add: canonize_block_def InMemoryState_new_def grow_def resize_def)
  have "im_read_header (canonize_block ?d 0 0) = im_read_header ?d" by (simp add: im_read_header_def canonize_block_def fun_eq_iff)
  then show "im_read_header (bc_state sample_blockchain) n h = (if n = 0 \<and> h = 0 then Some (blk_header sample_genesis) else None)"
    unfolding d by (simp add: inserted_header g) (simp add: im_read_header_def InMemoryState_new_def get_at_def)
  show "canonical_hash (bc_state sample_blockchain) n = (if n = 0 then Some 0 else None)"
    "current_canonical_block (bc_state sample_blockchain) = 0"
    unfolding d by (simp_all add: canonical_hash_def current_canonical_block_def cs get_at_def unat_eq_0)
  show "bc_engine sample_blockchain = sample_engine" "bc_config sample_blockchain = sample_chain" "bc_bad_blocks sample_blockchain = Map.empty"
    by (simp_all add: sample_blockchain_def new_with_consensus_def Let_def)
qed

lemma sample_child_valid:
  assumes "\<And>n h. im_read_header d n h = (if n = 0 \<and> h = 0 then Some (blk_header sample_genesis) else m n h)"
  shows "ethash_validate_block_header sample_engine (state_chain_db d) (blk_header sample_child) (Some 200) = Some (Inr ())"
    "base_pre_validate_block (chl_seal sample_chain_lib) (eth_base sample_engine) (state_chain_db d) sample_child = Some (Inr ())"
proof -
  have p: "get_parent_header (state_chain_db d) (blk_header sample_child) = Some (blk_header sample_genesis)"
    using assms by (simp add: get_parent_header_def state_chain_db_def sample_child_def sample_block_header_def)
  have "base_validate_block_header (eth_base sample_engine) (blk_header sample_child) (blk_header sample_genesis) (Some 200) = Some (Inr ())"
    by (simp add: base_validate_block_header_def sample_child_def sample_genesis_def sample_block_header_def sample_engine_def Let_def
        expected_base_fee_per_gas_def)
  moreover have "canonical_difficulty 1 110 1000000 100 False False False None = Some 1000488"
    by (simp add: canonical_difficulty_def adjusted_difficulty_def MIN_DIFFICULTY_def Let_def)
  ultimately show "ethash_validate_block_header sample_engine (state_chain_db d) (blk_header sample_child) (Some 200) = Some (Inr ())"
    by (simp add: ethash_validate_block_header_def p try_then_def)
      (simp add: sample_child_def sample_genesis_def sample_block_header_def sample_engine_def switch_is_active_def word_order.extremum_unique)
  show "base_pre_validate_block (chl_seal sample_chain_lib) (eth_base sample_engine) (state_chain_db d) sample_child = Some (Inr ())"
    by (simp add: base_pre_validate_block_def p Let_def) (simp add: sample_child_def sample_block_header_def sample_chain_lib_def try_then_def)
qed

definition sample_child_senders :: BlockWithSenders where
  "sample_child_senders = \<lparr>bs_header = to_partial_header (blk_header sample_child), bs_transactions = [], bs_ommers = []\<rparr>"

lemma sample_child_fails:
  "chain_execute_block sample_chain_lib sample_chain sample_child_senders True (bc_state sample_blockchain)
    = Some (Inl (WrongBlockGas 20000000 0 []), bc_state sample_blockchain)"
proof -
  let ?env = "block_env sample_chain_lib sample_chain (bc_state sample_blockchain) (bs_header sample_child_senders)"
  let ?p = "processor_new (chl_cache_default sample_chain_lib)"
  have h: "env_header ?env = to_partial_header (blk_header sample_child)" by (simp add: block_env_def sample_child_senders_def)
  have "bs_balance_changes (env_spec ?env) = Map.empty"
    by (simp add: block_env_def collect_block_spec_def sample_chain_def split: prod.splits)
  then have b: "balance_list (bs_balance_changes (env_spec ?env)) = []" by (simp add: balance_list_def)
  have "\<exists>t. add_to_balance db t0 a x = Some t" for db t0 a x
    using ensure_object_live [of db t0 a] by (auto simp: add_to_balance_def update_balance_def get_or_create_object_def Let_def)
  then have "\<exists>s. apply_changes (env_db ?env) [Reward a x] (pr_state ?p) = Some s" for a x
    unfolding apply_changes.simps apply_change_def FinalizationChange.case by (metis Option.bind.simps(2))
  then obtain s where s: "apply_changes (env_db ?env) (finalize (env_header ?env) [] (env_revision ?env)) (pr_state ?p) = Some s"
    by (auto simp: finalize_def Let_def)
  have "execute_block_no_post_validation ?env \<lparr>bws_transactions = [], bws_ommers = []\<rparr> ?p = Some (Inr [], with_state ?p s)"
    using s by (simp add: execute_block_no_post_validation_def b Let_def try_host_def with_state_def)
  then have "execute_and_write_block root w ?env \<lparr>bws_transactions = [], bws_ommers = []\<rparr> ?p = Some (Inl (WrongBlockGas 20000000 0 []))"
    for root and w :: "u64 \<Rightarrow> IntraBlockState \<Rightarrow> InMemoryState"
    by (simp add: execute_and_write_block_def try_then_def h)
      (simp add: to_partial_header_def sample_child_def sample_block_header_def)
  then show ?thesis by (simp add: chain_execute_block_def sample_child_senders_def Let_def)
qed

lemma sample_child_blocks:
  "block_with_senders sample_chain_lib sample_child = Some sample_child_senders" "bh_number (blk_header sample_child) = 1"
  "chl_header_hash sample_chain_lib (blk_header sample_child) = 1" "bh_parent_hash (blk_header sample_child) = 0"
  "chl_header_hash sample_chain_lib (blk_header sample_genesis) = 0" "bh_number (blk_header sample_genesis) = 0"
  by (simp_all add: block_with_senders_def sample_child_def sample_genesis_def sample_child_senders_def sample_chain_lib_def sample_block_header_def)

lemma sample_child_chain:
  "ethash_validate_block_header (bc_engine sample_blockchain) (state_chain_db (bc_state sample_blockchain)) (blk_header sample_child) (Some 200) = Some (Inr ())"
  "base_pre_validate_block (chl_seal sample_chain_lib) (eth_base (bc_engine sample_blockchain)) (state_chain_db (bc_state sample_blockchain)) sample_child
     = Some (Inr ())"
  "bc_bad_blocks sample_blockchain (chl_header_hash sample_chain_lib (blk_header sample_child)) = None"
  "block_with_senders sample_chain_lib sample_child = Some sample_child_senders"
  "im_read_header (bc_state sample_blockchain) (1 - 1) (bh_parent_hash (blk_header sample_child)) = Some (blk_header sample_genesis)"
  "bh_number (blk_header sample_genesis) = 1 - 1"
  "canonical_hash (bc_state sample_blockchain) (1 - 1) = Some (bh_parent_hash (blk_header sample_child))"
  "canonical_hash (bc_state sample_blockchain) 1 = None" "current_canonical_block (bc_state sample_blockchain) = 1 - 1"
  "bh_number (blk_header sample_child) = 1"
  "chain_execute_block sample_chain_lib (bc_config sample_blockchain) sample_child_senders True (bc_state sample_blockchain)
     = Some (Inl (WrongBlockGas 20000000 0 []), bc_state sample_blockchain)"
  using sample_child_valid [where d = "bc_state sample_blockchain" and m = "\<lambda>_ _. None", OF sample_reads(1)] sample_child_fails
  by (simp_all add: sample_reads sample_child_blocks)

theorem failed_extension_restores_witness:
  "\<exists>bc'. bc_insert_block sample_chain_lib 200 sample_child True sample_blockchain = Some (Inl (Validation (WrongBlockGas 20000000 0 [])), bc')
    \<and> bc_state bc' = bc_state sample_blockchain
    \<and> bc_insert_block sample_chain_lib 200 sample_child True bc' = Some (Inl (Validation (WrongBlockGas 20000000 0 [])), bc')"
  using failed_extension_restores [OF sample_child_chain] by auto

theorem fork_choice_witness:
  "\<exists>bc tip. bc_bad_blocks bc 1 \<noteq> None \<and> chain_run sample_chain_lib {sample_genesis, sample_child} sample_blockchain bc
     \<and> canonical_hash (bc_state bc) (current_canonical_block (bc_state bc)) = Some tip
     \<and> (\<exists>best. im_total_difficulty (bc_state bc) (current_canonical_block (bc_state bc)) tip = Some best)"
proof -
  define bc where "bc = sample_blockchain\<lparr>bc_bad_blocks := [1 \<mapsto> WrongBlockGas 20000000 0 []]\<rparr>"
  have "bc_insert_block sample_chain_lib 200 sample_child True sample_blockchain = Some (Inl (Validation (WrongBlockGas 20000000 0 [])), bc)"
    using insert_failed_extension [OF sample_child_chain] by (simp add: bc_def sample_reads sample_child_blocks)
  then have run: "chain_run sample_chain_lib {sample_genesis, sample_child} sample_blockchain bc"
    by (intro chain_run.insert [OF chain_run.start]) auto
  have "inj_on (chl_header_hash sample_chain_lib) (blk_header ` {sample_genesis, sample_child})"
    by (auto simp: inj_on_def sample_child_blocks)
  then obtain tip best where "canonical_hash (bc_state bc) (current_canonical_block (bc_state bc)) = Some tip"
    "im_total_difficulty (bc_state bc) (current_canonical_block (bc_state bc)) tip = Some best"
    using fork_choice [OF run [unfolded sample_blockchain_def]] by (auto simp: sample_child_blocks InMemoryState_new_def Let_def)
  moreover have "bc_bad_blocks bc 1 \<noteq> None" by (simp add: bc_def)
  ultimately show ?thesis using run by blast
qed

text \<open>The sample chain with the child in place.\<close>

definition sample_grown :: Blockchain where
  "sample_grown = sample_blockchain\<lparr>bc_state := canonize_block (im_insert_block (bc_state sample_blockchain) sample_child 1) 1 1\<rparr>"

theorem canonical_block_reinsertion_panics_witness:
  "bc_insert_block sample_chain_lib 200 sample_child True sample_grown = None"
proof -
  let ?m = "\<lambda>n h. if n = 1 \<and> h = 1 then Some (blk_header sample_child) else None"
  have r: "im_read_header (bc_state sample_grown) n h = (if n = 0 \<and> h = 0 then Some (blk_header sample_genesis) else ?m n h)" for n h
  proof -
    have "im_read_header (bc_state sample_grown) = im_read_header (im_insert_block (bc_state sample_blockchain) sample_child 1)"
      by (simp add: sample_grown_def canonize_block_def im_read_header_def fun_eq_iff)
    then show ?thesis by (simp add: inserted_header sample_child_blocks sample_reads)
  qed
  have "canonical_hash (bc_state sample_grown) 1 = Some 1"
    by (simp add: sample_grown_def canonize_block_def canonical_hash_def get_at_def grow_def resize_def)
  then show ?thesis
    using canonical_block_reinsertion_panics [of sample_grown sample_child 200 sample_chain_lib True]
      sample_child_valid [where d = "bc_state sample_grown" and m = ?m, OF r]
    by (simp add: sample_child_blocks) (simp add: sample_grown_def sample_reads)
qed

end
