(* ===== verification/SliceWindow.thy ===== *)
theory SliceWindow
  imports ConsensusRules
begin

text \<open>
  The window of header slices of the header downloader,
  \<open>src/downloader/headers_downloader/headers/header_slices.rs\<close>, and headers with their cached hashes
  (\<open>headers/header.rs\<close>).

  A slice behind a lock is its position in the window. The counters are the \<open>AtomicUsize\<close> of the status
  watches; the channels that wake waiting stages up are not modelled. The RLP encoding of a header and the size
  of one in memory are parameters; an instant is a number of seconds.
\<close>

section \<open>Headers\<close>

type_synonym PeerId = "512 word"

record SliceHeader =
  sh_header :: BlockHeader
  sh_rlp_repr_cached :: "byte list option"
  sh_hash_cached :: "h256 option"

record header_lib =
  hl_rlp :: "BlockHeader \<Rightarrow> byte list"
  hl_keccak256 :: "byte list \<Rightarrow> h256"

definition SliceHeader_new :: "BlockHeader \<Rightarrow> h256 \<Rightarrow> SliceHeader" where
  "SliceHeader_new header known_hash = \<lparr>sh_header = header, sh_rlp_repr_cached = None, sh_hash_cached = Some known_hash\<rparr>"

definition SliceHeader_from :: "BlockHeader \<Rightarrow> SliceHeader" where
  "SliceHeader_from header = \<lparr>sh_header = header, sh_rlp_repr_cached = None, sh_hash_cached = None\<rparr>"

abbreviation sh_number :: "SliceHeader \<Rightarrow> u64" where
  "sh_number h \<equiv> bh_number (sh_header h)"

definition rlp_repr :: "header_lib \<Rightarrow> SliceHeader \<Rightarrow> byte list" where
  "rlp_repr L h = (case sh_rlp_repr_cached h of Some r \<Rightarrow> r | None \<Rightarrow> hl_rlp L (sh_header h))"

definition rlp_repr_prepare :: "header_lib \<Rightarrow> SliceHeader \<Rightarrow> SliceHeader" where
  "rlp_repr_prepare L h = h\<lparr>sh_rlp_repr_cached := Some (hl_rlp L (sh_header h))\<rparr>"

definition hash_prepare :: "header_lib \<Rightarrow> SliceHeader \<Rightarrow> SliceHeader" where
  "hash_prepare L h =
     (let h = (if sh_rlp_repr_cached h = None then rlp_repr_prepare L h else h)
      in h\<lparr>sh_hash_cached := Some (hl_keccak256 L (the (sh_rlp_repr_cached h)))\<rparr>)"

definition sh_hash :: "header_lib \<Rightarrow> SliceHeader \<Rightarrow> h256" where
  "sh_hash L h = (case sh_hash_cached h of Some x \<Rightarrow> x | None \<Rightarrow> hl_keccak256 L (rlp_repr L h))"

section \<open>Slices\<close>

datatype HeaderSliceStatus =
    SliceEmpty | SliceWaiting | SliceDownloaded | SliceVerifiedInternally | SliceVerified | SliceInvalid | SliceFork | SliceSaved

record HeaderSlice =
  sl_start_block_num :: u64
  sl_status :: HeaderSliceStatus
  sl_headers :: "SliceHeader list option"
  sl_from_peer_id :: "PeerId option"
  sl_request_time :: "nat option"
  sl_request_attempt :: "16 word"
  sl_refetch_attempt :: "16 word"

definition HeaderSlice_default :: HeaderSlice where
  "HeaderSlice_default = \<lparr>sl_start_block_num = 0, sl_status = SliceEmpty, sl_headers = None, sl_from_peer_id = None,
     sl_request_time = None, sl_request_attempt = 0, sl_refetch_attempt = 0\<rparr>"

definition empty_slice :: "u64 \<Rightarrow> HeaderSlice" where
  "empty_slice n = HeaderSlice_default\<lparr>sl_start_block_num := n\<rparr>"

definition slice_len :: "HeaderSlice \<Rightarrow> nat" where
  "slice_len s = (case sl_headers s of Some hs \<Rightarrow> length hs | None \<Rightarrow> 0)"

text \<open>A range of block numbers, with its end excluded.\<close>

type_synonym block_range = "u64 \<times> u64"

definition range_contains :: "block_range \<Rightarrow> u64 \<Rightarrow> bool" where
  "range_contains r n \<longleftrightarrow> fst r \<le> n \<and> n < snd r"

definition block_num_range :: "HeaderSlice \<Rightarrow> block_range" where
  "block_num_range s = (sl_start_block_num s, sl_start_block_num s + of_nat (slice_len s))"

section \<open>The window\<close>

definition HEADER_SLICE_SIZE :: nat where "HEADER_SLICE_SIZE = 192"

definition align_block_num_to_slice_start :: "u64 \<Rightarrow> u64" where
  "align_block_num_to_slice_start n = n div of_nat HEADER_SLICE_SIZE * of_nat HEADER_SLICE_SIZE"

definition is_block_num_aligned_to_slice_start :: "u64 \<Rightarrow> bool" where
  "is_block_num_aligned_to_slice_start n \<longleftrightarrow> n mod of_nat HEADER_SLICE_SIZE = 0"

definition estimate_max_slices_for_mem_limit :: "nat \<Rightarrow> nat \<Rightarrow> nat" where
  "estimate_max_slices_for_mem_limit header_size mem_limit = mem_limit div header_size div HEADER_SLICE_SIZE"

record HeaderSlices =
  hs_slices :: "HeaderSlice list"
  hs_max_slices :: nat
  hs_max_block_num :: u64
  hs_final_block_num :: u64
  hs_counts :: "HeaderSliceStatus \<Rightarrow> u64"

definition make_state_watches_from_slices :: "HeaderSlice list \<Rightarrow> HeaderSliceStatus \<Rightarrow> u64" where
  "make_state_watches_from_slices slices = fold (\<lambda>s counts. counts(sl_status s := counts (sl_status s) + 1)) slices (\<lambda>_. 0)"

text \<open>A start or an end that is not at a slice boundary panics.\<close>

definition from_slices_vec ::
  "HeaderSlice list \<Rightarrow> u64 option \<Rightarrow> nat option \<Rightarrow> u64 option \<Rightarrow> HeaderSlices option" where
  "from_slices_vec slices start_block_num_opt max_slices_opt final_block_num_opt =
     (let slices_count = length slices;
          start_block_num = (if slices_count > 0 then sl_start_block_num (slices ! 0) else case start_block_num_opt of Some n \<Rightarrow> n | None \<Rightarrow> 0);
          max_slices = (case max_slices_opt of Some n \<Rightarrow> n | None \<Rightarrow> slices_count);
          slices = take max_slices slices
            @ map (\<lambda>i. empty_slice (start_block_num + of_nat (i * HEADER_SLICE_SIZE))) [slices_count..<max_slices];
          max_block_num = start_block_num + of_nat (max_slices * HEADER_SLICE_SIZE);
          final_block_num = (case final_block_num_opt of Some n \<Rightarrow> n | None \<Rightarrow> max_block_num)
      in if \<not> is_block_num_aligned_to_slice_start start_block_num \<or> \<not> is_block_num_aligned_to_slice_start final_block_num then None
         else Some \<lparr>hs_slices = slices, hs_max_slices = max_slices, hs_max_block_num = max_block_num, hs_final_block_num = final_block_num,
           hs_counts = make_state_watches_from_slices slices\<rparr>)"

definition HeaderSlices_new :: "nat \<Rightarrow> nat \<Rightarrow> u64 \<Rightarrow> u64 \<Rightarrow> HeaderSlices option" where
  "HeaderSlices_new header_size mem_limit start_block_num final_block_num =
     (let total_block_num = unat (final_block_num - start_block_num);
          max_slices = min (estimate_max_slices_for_mem_limit header_size mem_limit)
            ((total_block_num + HEADER_SLICE_SIZE - 1) div HEADER_SLICE_SIZE)
      in from_slices_vec [] (Some start_block_num) (Some max_slices) (Some final_block_num))"

definition HeaderSlices_empty :: "nat \<Rightarrow> HeaderSlices" where
  "HeaderSlices_empty max_slices = \<lparr>hs_slices = [], hs_max_slices = max_slices, hs_max_block_num = 0, hs_final_block_num = 0,
     hs_counts = make_state_watches_from_slices []\<rparr>"

subsection \<open>Searching\<close>

text \<open>The position of the first slice with a property.\<close>

fun find_slice :: "(HeaderSlice \<Rightarrow> bool) \<Rightarrow> HeaderSlice list \<Rightarrow> nat option" where
  "find_slice p [] = None"
| "find_slice p (s # ss) = (if p s then Some 0 else map_option Suc (find_slice p ss))"

definition find_by_start_block_num :: "HeaderSlices \<Rightarrow> u64 \<Rightarrow> nat option" where
  "find_by_start_block_num w n = find_slice (\<lambda>s. sl_start_block_num s = n) (hs_slices w)"

definition find_by_block_num :: "HeaderSlices \<Rightarrow> u64 \<Rightarrow> nat option" where
  "find_by_block_num w n = (case find_by_start_block_num w (align_block_num_to_slice_start n) of
       Some i \<Rightarrow> if range_contains (block_num_range (hs_slices w ! i)) n then Some i else None
     | None \<Rightarrow> None)"

definition find_by_status :: "HeaderSlices \<Rightarrow> HeaderSliceStatus \<Rightarrow> nat option" where
  "find_by_status w st = find_slice (\<lambda>s. sl_status s = st) (hs_slices w)"

text \<open>A batch of size zero takes every slice: its length is compared after a slice is pushed.\<close>

definition find_batch_by_status :: "HeaderSlices \<Rightarrow> HeaderSliceStatus \<Rightarrow> nat \<Rightarrow> nat list" where
  "find_batch_by_status w st batch_size =
     (let found = filter (\<lambda>i. sl_status (hs_slices w ! i) = st) [0..<length (hs_slices w)]
      in if batch_size = 0 then found else take batch_size found)"

definition clone_statuses :: "HeaderSlices \<Rightarrow> HeaderSliceStatus list" where
  "clone_statuses w = map sl_status (hs_slices w)"

subsection \<open>Changing\<close>

definition count_add :: "HeaderSliceStatus \<Rightarrow> u64 \<Rightarrow> HeaderSlices \<Rightarrow> HeaderSlices" where
  "count_add st n w = w\<lparr>hs_counts := (hs_counts w)(st := hs_counts w st + n)\<rparr>"

definition count_sub :: "HeaderSliceStatus \<Rightarrow> u64 \<Rightarrow> HeaderSlices \<Rightarrow> HeaderSlices" where
  "count_sub st n w = w\<lparr>hs_counts := (hs_counts w)(st := hs_counts w st - n)\<rparr>"

definition update_slice :: "nat \<Rightarrow> (HeaderSlice \<Rightarrow> HeaderSlice) \<Rightarrow> HeaderSlices \<Rightarrow> HeaderSlices" where
  "update_slice i f w = w\<lparr>hs_slices := (hs_slices w)[i := f (hs_slices w ! i)]\<rparr>"

definition slices_remove :: "HeaderSliceStatus \<Rightarrow> HeaderSlices \<Rightarrow> HeaderSlices" where
  "slices_remove st w =
     (let kept = filter (\<lambda>s. sl_status s \<noteq> st) (hs_slices w)
      in count_sub st (of_nat (length (hs_slices w) - length kept)) (w\<lparr>hs_slices := kept\<rparr>))"

fun refill_loop :: "nat \<Rightarrow> HeaderSlices \<Rightarrow> u64 \<Rightarrow> HeaderSlices \<times> u64" where
  "refill_loop 0 w count = (w, count)"
| "refill_loop (Suc n) w count =
     (if hs_max_block_num w \<ge> hs_final_block_num w then (w, count)
      else refill_loop n (w\<lparr>hs_slices := hs_slices w @ [empty_slice (hs_max_block_num w)],
        hs_max_block_num := hs_max_block_num w + of_nat HEADER_SLICE_SIZE\<rparr>) (count + 1))"

definition slices_refill :: "HeaderSlices \<Rightarrow> HeaderSlices" where
  "slices_refill w = (case refill_loop (hs_max_slices w - length (hs_slices w)) w 0 of (w, count) \<Rightarrow> count_add SliceEmpty count w)"

definition slices_clear :: "HeaderSlices \<Rightarrow> HeaderSlices" where
  "slices_clear w = w\<lparr>hs_slices := [], hs_max_block_num := 0, hs_counts := (\<lambda>_. 0)\<rparr>"

definition reset_to_single_slice :: "HeaderSlice \<Rightarrow> HeaderSlices \<Rightarrow> HeaderSlices" where
  "reset_to_single_slice s w = w\<lparr>hs_slices := [s], hs_max_block_num := sl_start_block_num s + of_nat HEADER_SLICE_SIZE,
     hs_counts := (\<lambda>_. 0)(sl_status s := 1)\<rparr>"

definition prepend_slice :: "HeaderSlices \<Rightarrow> string + HeaderSlices" where
  "prepend_slice w =
     (if length (hs_slices w) \<ge> hs_max_slices w then Inl ''can't prepend: max_slices limit reached''
      else case hs_slices w of
          [] \<Rightarrow> Inl ''can't prepend if empty''
        | first # _ \<Rightarrow>
            (if sl_start_block_num first < of_nat HEADER_SLICE_SIZE then Inl ''can't prepend before block''
             else Inr (count_add SliceEmpty 1
               (w\<lparr>hs_slices := empty_slice (sl_start_block_num first - of_nat HEADER_SLICE_SIZE) # hs_slices w\<rparr>))))"

definition append_slice :: "HeaderSlices \<Rightarrow> HeaderSlices" where
  "append_slice w = count_add SliceEmpty 1 (w\<lparr>hs_slices := hs_slices w @ [empty_slice (hs_max_block_num w)],
     hs_max_block_num := hs_max_block_num w + of_nat HEADER_SLICE_SIZE\<rparr>)"

fun trim_loop :: "HeaderSlice list \<Rightarrow> HeaderSlices \<Rightarrow> HeaderSlices" where
  "trim_loop [] w = w"
| "trim_loop (s # ss) w =
     (if length (s # ss) > hs_max_slices w then trim_loop ss (count_sub (sl_status s) 1 (w\<lparr>hs_slices := ss\<rparr>)) else w)"

definition trim_start_to_fit_max_slices :: "HeaderSlices \<Rightarrow> HeaderSlices" where
  "trim_start_to_fit_max_slices w = trim_loop (hs_slices w) w"

definition set_slice_status :: "nat \<Rightarrow> HeaderSliceStatus \<Rightarrow> HeaderSlices \<Rightarrow> HeaderSlices" where
  "set_slice_status i st w =
     (let old_status = sl_status (hs_slices w ! i)
      in if st = old_status then w
         else count_add st 1 (count_sub old_status 1 (update_slice i (\<lambda>s. s\<lparr>sl_status := st\<rparr>) w)))"

subsection \<open>Reading\<close>

definition count_slices_in_status :: "HeaderSlices \<Rightarrow> HeaderSliceStatus \<Rightarrow> u64" where
  "count_slices_in_status w st = hs_counts w st"

definition contains_status :: "HeaderSlices \<Rightarrow> HeaderSliceStatus \<Rightarrow> bool" where
  "contains_status w st \<longleftrightarrow> count_slices_in_status w st > 0"

definition has_one_of_statuses :: "HeaderSlices \<Rightarrow> HeaderSliceStatus list \<Rightarrow> bool" where
  "has_one_of_statuses w sts \<longleftrightarrow> list_ex (contains_status w) sts"

definition min_block_num :: "HeaderSlices \<Rightarrow> u64" where
  "min_block_num w = (case hs_slices w of s # _ \<Rightarrow> sl_start_block_num s | [] \<Rightarrow> hs_max_block_num w)"

definition is_empty_at_final_position :: "HeaderSlices \<Rightarrow> bool" where
  "is_empty_at_final_position w \<longleftrightarrow> hs_max_block_num w \<ge> hs_final_block_num w \<and> hs_slices w = []"

definition all_in_status :: "HeaderSlices \<Rightarrow> HeaderSliceStatus \<Rightarrow> bool" where
  "all_in_status w st \<longleftrightarrow> count_slices_in_status w st = of_nat (length (hs_slices w))"

text \<open>The characters of the statuses.\<close>

definition status_char :: "HeaderSliceStatus \<Rightarrow> char" where
  "status_char st = (case st of SliceEmpty \<Rightarrow> CHR ''-'' | SliceWaiting \<Rightarrow> CHR ''<'' | SliceDownloaded \<Rightarrow> CHR ''.''
     | SliceVerifiedInternally \<Rightarrow> CHR ''='' | SliceVerified \<Rightarrow> CHR ''#'' | SliceInvalid \<Rightarrow> CHR ''x'' | SliceFork \<Rightarrow> CHR ''Y''
     | SliceSaved \<Rightarrow> CHR ''+'')"

definition status_from_char :: "char \<Rightarrow> string + HeaderSliceStatus" where
  "status_from_char c =
     (if c = CHR ''-'' then Inr SliceEmpty else if c = CHR ''<'' then Inr SliceWaiting else if c = CHR ''.'' then Inr SliceDownloaded
      else if c = CHR ''='' then Inr SliceVerifiedInternally else if c = CHR ''#'' then Inr SliceVerified
      else if c = CHR ''x'' then Inr SliceInvalid else if c = CHR ''Y'' then Inr SliceFork else if c = CHR ''+'' then Inr SliceSaved
      else Inl ''unrecognized status code'')"

end
