(* ===== verification/HeaderStages.thy ===== *)
theory HeaderStages
  imports SliceWindow "HOL-Library.AList"
begin

text \<open>
  Verification of header slices and the stages that move slices from one status to the next:
  \<open>verification/header_slice_verifier.rs\<close> and \<open>stages\<close> of \<open>src/downloader/headers_downloader\<close>.

  A stage waits until slices are in its status and then executes; waiting only delays an execution, and the
  model has the executions. What the network answers, the clock and the batch size are arguments. The tables of the
  database are maps. An error of the network ends the loop of the stages and is the left side of a sum.
\<close>

section \<open>Verification\<close>

text \<open>The trait \<open>HeaderSliceVerifier\<close>. A difficulty that cannot be computed panics.\<close>

record HeaderSliceVerifier =
  vf_verify_link :: "header_lib \<Rightarrow> SliceHeader \<Rightarrow> SliceHeader \<Rightarrow> ChainSpec \<Rightarrow> bool option"
  vf_verify_slice :: "header_lib \<Rightarrow> SliceHeader list \<Rightarrow> u64 \<Rightarrow> u64 \<Rightarrow> ChainSpec \<Rightarrow> bool option"

definition verify_link_by_parent_hash :: "header_lib \<Rightarrow> SliceHeader \<Rightarrow> SliceHeader \<Rightarrow> bool" where
  "verify_link_by_parent_hash L child parent \<longleftrightarrow> bh_parent_hash (sh_header child) = sh_hash L parent"

definition verify_link_block_nums :: "SliceHeader \<Rightarrow> SliceHeader \<Rightarrow> bool" where
  "verify_link_block_nums child parent \<longleftrightarrow> sh_number child = sh_number parent + 1"

definition verify_link_timestamps :: "SliceHeader \<Rightarrow> SliceHeader \<Rightarrow> bool" where
  "verify_link_timestamps child parent \<longleftrightarrow> bh_timestamp (sh_header parent) < bh_timestamp (sh_header child)"

definition verify_link_difficulties :: "SliceHeader \<Rightarrow> SliceHeader \<Rightarrow> ChainSpec \<Rightarrow> bool option" where
  "verify_link_difficulties child parent chain_spec = (case seal_verification (cs_consensus chain_spec) of
       EthashParams _ _ homestead_formula byzantium_formula difficulty_bomb _ \<Rightarrow> do {
         let c = sh_header child;
         let p = sh_header parent;
         expected \<leftarrow> canonical_difficulty (bh_number c) (bh_timestamp c) (bh_difficulty p) (bh_timestamp p)
           (bh_ommers_hash p \<noteq> EMPTY_LIST_HASH) (switch_is_active byzantium_formula (bh_number c))
           (switch_is_active homestead_formula (bh_number c)) (map_option (\<lambda>bomb. get_delay_to bomb (bh_number c)) difficulty_bomb);
         Some (bh_difficulty c = expected) }
     | CliqueParams _ _ \<Rightarrow> None)"

text \<open>\<open>all\<close> over the pairs of neighbours, which stops at the first that fails.\<close>

fun all_pairs :: "(SliceHeader \<Rightarrow> SliceHeader \<Rightarrow> bool) \<Rightarrow> SliceHeader list \<Rightarrow> bool" where
  "all_pairs f (parent # child # hs) = (f child parent \<and> all_pairs f (child # hs))"
| "all_pairs f _ = True"

fun all_pairs_or_panic :: "(SliceHeader \<Rightarrow> SliceHeader \<Rightarrow> bool option) \<Rightarrow> SliceHeader list \<Rightarrow> bool option" where
  "all_pairs_or_panic f (parent # child # hs) = do { b \<leftarrow> f child parent; if b then all_pairs_or_panic f (child # hs) else Some False }"
| "all_pairs_or_panic f _ = Some True"

definition verify_slice_is_linked_by_parent_hash :: "header_lib \<Rightarrow> SliceHeader list \<Rightarrow> bool" where
  "verify_slice_is_linked_by_parent_hash L headers = all_pairs (verify_link_by_parent_hash L) headers"

definition verify_slice_block_nums :: "SliceHeader list \<Rightarrow> u64 \<Rightarrow> bool" where
  "verify_slice_block_nums headers start_block_num \<longleftrightarrow>
     headers = [] \<or> all_pairs verify_link_block_nums headers \<and> sh_number (hd headers) = start_block_num"

definition verify_slice_timestamps :: "SliceHeader list \<Rightarrow> u64 \<Rightarrow> bool" where
  "verify_slice_timestamps headers max_timestamp \<longleftrightarrow>
     headers = [] \<or> all_pairs verify_link_timestamps headers \<and> bh_timestamp (sh_header (last headers)) < max_timestamp"

definition verify_slice_difficulties :: "SliceHeader list \<Rightarrow> ChainSpec \<Rightarrow> bool option" where
  "verify_slice_difficulties headers chain_spec = all_pairs_or_panic (\<lambda>child parent. verify_link_difficulties child parent chain_spec) headers"

text \<open>The proof of work is not checked: \<open>verify_link_pow\<close> and \<open>verify_slice_pow\<close> return true.\<close>

definition make_ethash_verifier :: HeaderSliceVerifier where
  "make_ethash_verifier = \<lparr>
     vf_verify_link = (\<lambda>L child parent chain_spec.
       if verify_link_by_parent_hash L child parent \<and> verify_link_block_nums child parent \<and> verify_link_timestamps child parent
       then verify_link_difficulties child parent chain_spec else Some False),
     vf_verify_slice = (\<lambda>L headers start_block_num max_timestamp chain_spec.
       if verify_slice_is_linked_by_parent_hash L headers \<and> verify_slice_block_nums headers start_block_num
         \<and> verify_slice_timestamps headers max_timestamp
       then verify_slice_difficulties headers chain_spec else Some False)\<rparr>"

section \<open>Requesting and receiving\<close>

datatype SendResult = SendOk | SendQueueFull | SendFailed

fun request_loop ::
  "(u64 \<Rightarrow> u64 \<Rightarrow> u64 \<Rightarrow> SendResult) \<Rightarrow> nat \<Rightarrow> nat \<Rightarrow> nat list \<Rightarrow> u64 \<Rightarrow> HeaderSlices \<Rightarrow> (unit + unit) \<times> u64 \<times> HeaderSlices" where
  "request_loop send slice_size now [] request_id w = (Inr (), request_id, w)"
| "request_loop send slice_size now (i # is) request_id w =
     (if sl_status (hs_slices w ! i) = SliceEmpty then
        (case send request_id (sl_start_block_num (hs_slices w ! i)) (of_nat slice_size) of
           SendQueueFull \<Rightarrow> (Inr (), request_id + 1, w)
         | SendFailed \<Rightarrow> (Inl (), request_id + 1, w)
         | SendOk \<Rightarrow> request_loop send slice_size now is (request_id + 1)
             (set_slice_status i SliceWaiting (update_slice i (\<lambda>s. s\<lparr>sl_request_time := Some now\<rparr>) w)))
      else request_loop send slice_size now is request_id w)"

definition request_pending ::
  "(u64 \<Rightarrow> u64 \<Rightarrow> u64 \<Rightarrow> SendResult) \<Rightarrow> nat \<Rightarrow> nat \<Rightarrow> u64 \<Rightarrow> HeaderSlices \<Rightarrow> (unit + unit) \<times> u64 \<times> HeaderSlices" where
  "request_pending send slice_size now last_request_id w = request_loop send slice_size now [0..<length (hs_slices w)] last_request_id w"

definition on_headers_message :: "BlockHeader list \<Rightarrow> PeerId option \<Rightarrow> HeaderSlices \<Rightarrow> HeaderSlices" where
  "on_headers_message headers from_peer_id w = (case headers of
       [] \<Rightarrow> w
     | first # _ \<Rightarrow> (case find_by_start_block_num w (bh_number first) of
           Some i \<Rightarrow>
             (if sl_status (hs_slices w ! i) = SliceWaiting
              then set_slice_status i SliceDownloaded (update_slice i (\<lambda>s. s\<lparr>sl_headers := Some (map SliceHeader_from headers),
                sl_from_peer_id := from_peer_id\<rparr>) w)
              else w)
         | None \<Rightarrow> w))"

definition timeout_for_attempt :: "16 word \<Rightarrow> nat" where
  "timeout_for_attempt attempt = (if attempt = 0 then 5 else if attempt = 1 then 10 else if attempt = 2 then 15 else 30)"

definition is_waiting_timeout_expired :: "nat \<Rightarrow> HeaderSlice \<Rightarrow> bool" where
  "is_waiting_timeout_expired now s = (case sl_request_time s of
       Some request_time \<Rightarrow> now - request_time > timeout_for_attempt (sl_request_attempt s)
     | None \<Rightarrow> False)"

definition retry_slice :: "nat \<Rightarrow> nat \<Rightarrow> HeaderSlices \<Rightarrow> HeaderSlices" where
  "retry_slice now i w =
     (if sl_status (hs_slices w ! i) = SliceWaiting \<and> is_waiting_timeout_expired now (hs_slices w ! i)
      then set_slice_status i SliceEmpty (update_slice i (\<lambda>s. s\<lparr>sl_request_time := None, sl_request_attempt := sl_request_attempt s + 1\<rparr>) w)
      else w)"

definition retry_pending :: "nat \<Rightarrow> HeaderSlices \<Rightarrow> HeaderSlices" where
  "retry_pending now w = fold (retry_slice now) [0..<length (hs_slices w)] w"

section \<open>Verifying slices\<close>

definition prepare_slice_hashes :: "header_lib \<Rightarrow> nat \<Rightarrow> HeaderSlices \<Rightarrow> HeaderSlices" where
  "prepare_slice_hashes L i = update_slice i (\<lambda>s. s\<lparr>sl_headers := map_option (map (hash_prepare L)) (sl_headers s)\<rparr>)"

fun check_slices :: "(HeaderSlice \<Rightarrow> bool option) \<Rightarrow> HeaderSlice list \<Rightarrow> bool list option" where
  "check_slices check [] = Some []"
| "check_slices check (s # ss) = do { b \<leftarrow> check s; bs \<leftarrow> check_slices check ss; Some (b # bs) }"

text \<open>The loop of both verifying stages: batches of downloaded slices, until there are none.\<close>

definition verify_batch ::
  "header_lib \<Rightarrow> (HeaderSlice \<Rightarrow> bool option) \<Rightarrow> HeaderSliceStatus \<Rightarrow> nat list \<Rightarrow> HeaderSlices \<Rightarrow> HeaderSlices option" where
  "verify_batch L check verified batch w = do {
     let w = fold (prepare_slice_hashes L) batch w;
     results \<leftarrow> check_slices check (map (\<lambda>i. hs_slices w ! i) batch);
     Some (fold (\<lambda>(i, is_verified). set_slice_status i (if is_verified then verified else SliceInvalid)) (zip batch results) w) }"

partial_function (option) verify_pending_loop ::
  "header_lib \<Rightarrow> (HeaderSlice \<Rightarrow> bool option) \<Rightarrow> HeaderSliceStatus \<Rightarrow> nat \<Rightarrow> HeaderSlices \<Rightarrow> HeaderSlices option" where
  "verify_pending_loop L check verified num_cpus w =
     (let batch = find_batch_by_status w SliceDownloaded num_cpus
      in if batch = [] then Some w
         else do { w \<leftarrow> verify_batch L check verified batch w; verify_pending_loop L check verified num_cpus w })"

text \<open>\<open>VerifyPreverifiedStage\<close>: both ends of a slice have preverified hashes.\<close>

definition preverified_hash :: "h256 list \<Rightarrow> u64 \<Rightarrow> h256 option" where
  "preverified_hash hashes n =
     (if n mod of_nat HEADER_SLICE_SIZE \<noteq> 0 then None
      else let index = unat (n div of_nat HEADER_SLICE_SIZE) in if index < length hashes then Some (hashes ! index) else None)"

definition preverified_verify_slice :: "header_lib \<Rightarrow> h256 list \<Rightarrow> HeaderSlice \<Rightarrow> bool" where
  "preverified_verify_slice L hashes s = (case sl_headers s of
       None \<Rightarrow> False
     | Some headers \<Rightarrow>
         headers \<noteq> []
         \<and> preverified_hash hashes (sl_start_block_num s) = Some (sh_hash L (hd headers))
         \<and> preverified_hash hashes (sl_start_block_num s + of_nat (length headers) - 1) = Some (sh_hash L (last headers))
         \<and> verify_slice_is_linked_by_parent_hash L headers)"

definition verify_preverified_pending :: "header_lib \<Rightarrow> h256 list \<Rightarrow> nat \<Rightarrow> HeaderSlices \<Rightarrow> HeaderSlices option" where
  "verify_preverified_pending L hashes num_cpus w =
     verify_pending_loop L (\<lambda>s. Some (preverified_verify_slice L hashes s)) SliceVerified num_cpus w"

text \<open>\<open>VerifySlicesStage\<close>: the rules within a slice.\<close>

definition slices_verify_slice :: "header_lib \<Rightarrow> HeaderSliceVerifier \<Rightarrow> ChainSpec \<Rightarrow> u64 \<Rightarrow> HeaderSlice \<Rightarrow> bool option" where
  "slices_verify_slice L vf chain_spec now s = (case sl_headers s of
       None \<Rightarrow> Some False
     | Some headers \<Rightarrow> vf_verify_slice vf L headers (sl_start_block_num s) now chain_spec)"

definition verify_slices_pending ::
  "header_lib \<Rightarrow> HeaderSliceVerifier \<Rightarrow> ChainSpec \<Rightarrow> u64 \<Rightarrow> nat \<Rightarrow> HeaderSlices \<Rightarrow> HeaderSlices option" where
  "verify_slices_pending L vf chain_spec now num_cpus w =
     verify_pending_loop L (slices_verify_slice L vf chain_spec now) SliceVerifiedInternally num_cpus w"

section \<open>Linking slices\<close>

text \<open>The fields of \<open>VerifyLinkLinearStage\<close> that do not change are arguments; the trusted hash is that of the genesis block.\<close>

record chain_rules =
  cr_lib :: header_lib
  cr_verifier :: HeaderSliceVerifier
  cr_chain_spec :: ChainSpec
  cr_genesis_block_hash :: h256

record VerifyLinkLinearStage =
  vl_invalid_status :: HeaderSliceStatus
  vl_last_verified_header :: "SliceHeader option"
  vl_remaining_count :: nat

definition is_canonical_slice_status :: "HeaderSliceStatus \<Rightarrow> bool" where
  "is_canonical_slice_status st \<longleftrightarrow> st = SliceVerified \<or> st = SliceSaved"

definition find_last_verified_header :: "HeaderSlices \<Rightarrow> SliceHeader option" where
  "find_last_verified_header w =
     (let verified = takeWhile (\<lambda>s. is_canonical_slice_status (sl_status s)) (hs_slices w)
      in if verified = [] then None
         else case sl_headers (last verified) of Some headers \<Rightarrow> if headers = [] then None else Some (last headers) | None \<Rightarrow> None)"

text \<open>The trusted header is the one before the window, or the assertion fails.\<close>

definition VerifyLinkLinearStage_new :: "HeaderSlices \<Rightarrow> SliceHeader option \<Rightarrow> HeaderSliceStatus \<Rightarrow> VerifyLinkLinearStage option" where
  "VerifyLinkLinearStage_new w last_verified_header invalid_status =
     (if (case last_verified_header of Some h \<Rightarrow> sh_number h + 1 \<noteq> min_block_num w | None \<Rightarrow> False) then None
      else Some \<lparr>vl_invalid_status = invalid_status,
        vl_last_verified_header = (case find_last_verified_header w of Some h \<Rightarrow> Some h | None \<Rightarrow> last_verified_header),
        vl_remaining_count = 0\<rparr>)"

definition link_find_next_pending :: "HeaderSlices \<Rightarrow> nat option" where
  "link_find_next_pending w = (case find_slice (\<lambda>s. \<not> is_canonical_slice_status (sl_status s)) (hs_slices w) of
       Some i \<Rightarrow> if sl_status (hs_slices w ! i) = SliceVerifiedInternally then Some i else None
     | None \<Rightarrow> None)"

definition verify_slice_link :: "chain_rules \<Rightarrow> HeaderSlice \<Rightarrow> SliceHeader option \<Rightarrow> bool option" where
  "verify_slice_link R s parent = (case sl_headers s of
       None \<Rightarrow> Some False
     | Some headers \<Rightarrow>
         if headers = [] then Some False
         else if length headers \<noteq> HEADER_SLICE_SIZE then Some False
         else if sh_number (hd headers) = 0 then Some (sh_hash (cr_lib R) (hd headers) = cr_genesis_block_hash R)
         else case parent of
             None \<Rightarrow> Some False
           | Some parent \<Rightarrow> vf_verify_link (cr_verifier R) (cr_lib R) (hd headers) parent (cr_chain_spec R))"

definition verify_pending_slice ::
  "chain_rules \<Rightarrow> nat \<Rightarrow> VerifyLinkLinearStage \<times> HeaderSlices \<Rightarrow> (bool \<times> VerifyLinkLinearStage \<times> HeaderSlices) option" where
  "verify_pending_slice R i = (\<lambda>(v, w). do {
     is_verified \<leftarrow> verify_slice_link R (hs_slices w ! i) (vl_last_verified_header v);
     if is_verified then do {
       let w = set_slice_status i SliceVerified w;
       headers \<leftarrow> sl_headers (hs_slices w ! i);
       Some (True, if headers = [] then v else v\<lparr>vl_last_verified_header := Some (last headers)\<rparr>, w) }
     else Some (False, v, set_slice_status i (vl_invalid_status v) w) })"

fun link_pending_monotonic ::
  "chain_rules \<Rightarrow> nat \<Rightarrow> VerifyLinkLinearStage \<times> HeaderSlices \<Rightarrow> (nat \<times> VerifyLinkLinearStage \<times> HeaderSlices) option" where
  "link_pending_monotonic R 0 vw = Some (0, vw)"
| "link_pending_monotonic R (Suc n) vw = (case link_find_next_pending (snd vw) of
       None \<Rightarrow> Some (0, vw)
     | Some i \<Rightarrow> do {
         (is_verified, vw) \<leftarrow> verify_pending_slice R i vw;
         if is_verified then do { (k, vw) \<leftarrow> link_pending_monotonic R n vw; Some (Suc k, vw) } else Some (1, vw) })"

definition link_execute ::
  "chain_rules \<Rightarrow> VerifyLinkLinearStage \<times> HeaderSlices \<Rightarrow> (VerifyLinkLinearStage \<times> HeaderSlices) option" where
  "link_execute R vw = do {
     let pending_count = unat (count_slices_in_status (snd vw) SliceVerifiedInternally);
     (updated_count, v, w) \<leftarrow> link_pending_monotonic R pending_count vw;
     Some (v\<lparr>vl_remaining_count := pending_count - updated_count\<rparr>, w) }"

section \<open>Penalizing\<close>

definition collect_bad_peers :: "HeaderSlices \<Rightarrow> PeerId set" where
  "collect_bad_peers w = set (List.map_filter (\<lambda>s. if sl_status s = SliceInvalid then sl_from_peer_id s else None) (hs_slices w))"

definition reset_slice :: "nat \<Rightarrow> HeaderSlices \<Rightarrow> HeaderSlices" where
  "reset_slice i w =
     (if sl_status (hs_slices w ! i) = SliceInvalid
      then update_slice i (\<lambda>s. s\<lparr>sl_headers := None\<rparr>) (set_slice_status i SliceEmpty w) else w)"

definition penalize_execute :: "(PeerId \<Rightarrow> bool) \<Rightarrow> HeaderSlices \<Rightarrow> (unit + unit) \<times> HeaderSlices" where
  "penalize_execute penalize_peer w =
     (if \<forall>p \<in> collect_bad_peers w. penalize_peer p then (Inr (), fold reset_slice [0..<length (hs_slices w)] w) else (Inl (), w))"

section \<open>Saving\<close>

record HeaderDb =
  hd_canonical_header :: "u64 \<rightharpoonup> h256"
  hd_last_header :: "h256 option"
  hd_headers_total_difficulty :: "u64 \<times> h256 \<rightharpoonup> u256"
  hd_header :: "u64 \<times> h256 \<rightharpoonup> BlockHeader"
  hd_header_number :: "h256 \<rightharpoonup> u64"

definition read_parent_header_total_difficulty :: "SliceHeader \<Rightarrow> HeaderDb \<Rightarrow> u256 option" where
  "read_parent_header_total_difficulty child db =
     (if sh_number child = 0 then Some 0
      else hd_headers_total_difficulty db (sh_number child - 1, bh_parent_hash (sh_header child)))"

definition header_total_difficulty :: "SliceHeader \<Rightarrow> HeaderDb \<Rightarrow> u256 option" where
  "header_total_difficulty h db = map_option (\<lambda>d. d + bh_difficulty (sh_header h)) (read_parent_header_total_difficulty h db)"

definition load_canonical_header_by_num :: "u64 \<Rightarrow> HeaderDb \<Rightarrow> SliceHeader option" where
  "load_canonical_header_by_num n db = do {
     header_hash \<leftarrow> hd_canonical_header db n;
     header \<leftarrow> hd_header db (n, header_hash);
     Some (SliceHeader_new header header_hash) }"

definition update_canonical_chain_header :: "header_lib \<Rightarrow> SliceHeader \<Rightarrow> HeaderDb \<Rightarrow> HeaderDb" where
  "update_canonical_chain_header L h db =
     (let n = sh_number h; header_hash = sh_hash L h;
          db = db\<lparr>hd_canonical_header := (hd_canonical_header db)(n \<mapsto> header_hash), hd_last_header := Some header_hash\<rparr>
      in case header_total_difficulty h db of
           Some d \<Rightarrow> db\<lparr>hd_headers_total_difficulty := (hd_headers_total_difficulty db)((n, header_hash) \<mapsto> d)\<rparr>
         | None \<Rightarrow> db)"

definition save_header :: "header_lib \<Rightarrow> bool \<Rightarrow> SliceHeader \<Rightarrow> HeaderDb \<Rightarrow> HeaderDb" where
  "save_header L is_canonical_chain h db =
     (let n = sh_number h; header_hash = sh_hash L h;
          db = (if is_canonical_chain then update_canonical_chain_header L h db else db)
      in db\<lparr>hd_header := (hd_header db)((n, header_hash) \<mapsto> sh_header h), hd_header_number := (hd_header_number db)(header_hash \<mapsto> n)\<rparr>)"

definition save_headers :: "header_lib \<Rightarrow> bool \<Rightarrow> SliceHeader list \<Rightarrow> HeaderDb \<Rightarrow> HeaderDb" where
  "save_headers L is_canonical_chain headers db = fold (save_header L is_canonical_chain) headers db"

text \<open>The headers are taken out while they are saved and put back; a slice without headers is an error.\<close>

definition save_slice ::
  "header_lib \<Rightarrow> bool \<Rightarrow> nat \<Rightarrow> HeaderDb \<times> HeaderSlices \<Rightarrow> (string + unit) \<times> HeaderDb \<times> HeaderSlices" where
  "save_slice L is_canonical_chain i = (\<lambda>(db, w). case sl_headers (hs_slices w ! i) of
       None \<Rightarrow> (Inl ''SaveStage: inconsistent state - Verified slice has no headers'', db, w)
     | Some headers \<Rightarrow> (Inr (), save_headers L is_canonical_chain headers db, set_slice_status i SliceSaved w))"

definition save_find_next_pending :: "HeaderSlices \<Rightarrow> nat option" where
  "save_find_next_pending w = (case find_slice (\<lambda>s. sl_status s \<noteq> SliceSaved) (hs_slices w) of
       Some i \<Rightarrow> if sl_status (hs_slices w ! i) = SliceVerified then Some i else None
     | None \<Rightarrow> None)"

text \<open>One loop for both orders; they differ in how the next slice is found.\<close>

fun save_pending_loop ::
  "header_lib \<Rightarrow> bool \<Rightarrow> (HeaderSlices \<Rightarrow> nat option) \<Rightarrow> nat \<Rightarrow> HeaderDb \<times> HeaderSlices \<Rightarrow> (string + nat) \<times> HeaderDb \<times> HeaderSlices" where
  "save_pending_loop L is_canonical_chain next 0 dw = (Inr 0, dw)"
| "save_pending_loop L is_canonical_chain next (Suc n) dw = (case next (snd dw) of
       None \<Rightarrow> (Inr 0, dw)
     | Some i \<Rightarrow> (case save_slice L is_canonical_chain i dw of
           (Inl e, dw) \<Rightarrow> (Inl e, dw)
         | (Inr _, dw) \<Rightarrow> (case save_pending_loop L is_canonical_chain next n dw of (r, dw) \<Rightarrow> (map_sum id Suc r, dw))))"

datatype SaveOrder = SaveMonotonic | SaveRandom

definition save_pending :: "SaveOrder \<Rightarrow> HeaderSlices \<Rightarrow> nat option" where
  "save_pending order w = (case order of SaveMonotonic \<Rightarrow> save_find_next_pending w | SaveRandom \<Rightarrow> find_by_status w SliceVerified)"

definition save_execute ::
  "header_lib \<Rightarrow> SaveOrder \<Rightarrow> bool \<Rightarrow> HeaderDb \<times> HeaderSlices \<Rightarrow> (string + nat) \<times> HeaderDb \<times> HeaderSlices" where
  "save_execute L order is_canonical_chain dw =
     (let pending_count = unat (count_slices_in_status (snd dw) SliceVerified)
      in case save_pending_loop L is_canonical_chain (save_pending order) pending_count dw of
           (r, dw) \<Rightarrow> (map_sum id (\<lambda>saved_count. pending_count - saved_count) r, dw))"

text \<open>\<open>SaveStage::unwind\<close>: canonical hashes are deleted up to the first that is missing.\<close>

partial_function (option) unwind_canonical :: "u64 \<Rightarrow> HeaderDb \<Rightarrow> HeaderDb option" where
  "unwind_canonical n db =
     (if hd_canonical_header db n = None then Some db
      else unwind_canonical (n + 1) (db\<lparr>hd_canonical_header := (hd_canonical_header db)(n := None)\<rparr>))"

definition save_unwind :: "u64 \<Rightarrow> HeaderDb \<Rightarrow> ((string + unit) \<times> HeaderDb) option" where
  "save_unwind unwind_to db = do {
     db \<leftarrow> unwind_canonical (unwind_to + 1) db;
     Some (case hd_canonical_header db unwind_to of
         Some hash \<Rightarrow> (Inr (), db\<lparr>hd_last_header := Some hash\<rparr>)
       | None \<Rightarrow> (Inl ''unwind: not found header hash of the top block after unwind'', db)) }"

section \<open>Refilling, extending and the top block\<close>

definition refill_pending :: "HeaderSlices \<Rightarrow> HeaderSlices" where
  "refill_pending w = slices_refill (slices_remove SliceSaved w)"

definition extend_execute :: "HeaderSlices \<Rightarrow> HeaderSlices" where
  "extend_execute w = (if all_in_status w SliceSaved then append_slice w else w)"

text \<open>The top block of each peer that has announced one.\<close>

definition on_block_hashes_message :: "u64 list \<Rightarrow> PeerId option \<Rightarrow> (PeerId \<times> u64) list \<Rightarrow> (PeerId \<times> u64) list" where
  "on_block_hashes_message block_nums from_peer_id peer_top_blocks =
     (if block_nums = [] then peer_top_blocks
      else case from_peer_id of
          None \<Rightarrow> peer_top_blocks
        | Some p \<Rightarrow>
            (let block_nums = block_nums @ (case map_of peer_top_blocks p of Some n \<Rightarrow> [n] | None \<Rightarrow> [])
             in AList.update p (fold max block_nums 0) peer_top_blocks))"

definition average_peer_block_num :: "(PeerId \<times> u64) list \<Rightarrow> u64 option" where
  "average_peer_block_num peer_blocks =
     (if peer_blocks = [] then None
      else Some (sum_list (map snd peer_blocks) div of_nat (length peer_blocks)))"

end
