(* ===== verification/HeaderWindow.thy ===== *)
theory HeaderWindow
  imports HeaderStages
begin

text \<open>
  What the stages of the header downloader keep of the window of slices. The counters of the statuses are exact, and
  the stages before linking only touch slices that are not part of the canonical chain yet.
\<close>

section \<open>Counters\<close>

definition slices_in :: "HeaderSliceStatus \<Rightarrow> HeaderSlice list \<Rightarrow> nat" where
  "slices_in st slices = length (filter (\<lambda>s. sl_status s = st) slices)"

definition counts_ok :: "HeaderSlices \<Rightarrow> bool" where
  "counts_ok w \<longleftrightarrow> hs_counts w = (\<lambda>st. of_nat (slices_in st (hs_slices w)))"

lemma counts_okI: "(\<And>st. hs_counts w st = of_nat (slices_in st (hs_slices w))) \<Longrightarrow> counts_ok w"
  by (auto simp: counts_ok_def)

lemma counts_okD: "counts_ok w \<Longrightarrow> hs_counts w st = of_nat (slices_in st (hs_slices w))"
  by (simp add: counts_ok_def)

lemma slices_in_simps [simp]:
  "slices_in st [] = 0"
  "slices_in st (s # ss) = (if sl_status s = st then 1 else 0) + slices_in st ss"
  "slices_in st (ss @ ss') = slices_in st ss + slices_in st ss'"
  by (simp_all add: slices_in_def)

lemma slices_in_le: "slices_in st ss \<le> length ss"
  by (simp add: slices_in_def)

lemma slices_in_pos: "0 < slices_in st ss \<longleftrightarrow> (\<exists>s \<in> set ss. sl_status s = st)"
  by (induction ss) auto

lemma slices_in_update:
  "i < length ss \<Longrightarrow> slices_in st (ss[i := s]) + (if sl_status (ss ! i) = st then 1 else 0)
     = slices_in st ss + (if sl_status s = st then 1 else 0)"
proof (induction ss arbitrary: i)
  case (Cons a ss)
  show ?case
  proof (cases i)
    case 0
    then show ?thesis by simp
  next
    case (Suc j)
    with Cons.IH [of j] Cons.prems show ?thesis by simp
  qed
qed simp

lemma slices_in_update_same:
  "sl_status s = sl_status (ss ! i) \<Longrightarrow> slices_in st (ss[i := s]) = slices_in st ss"
  by (cases "i < length ss") (use slices_in_update [of i ss st s] in \<open>auto simp: list_update_beyond\<close>)

lemma make_state_watches_exact:
  "make_state_watches_from_slices ss = (\<lambda>st. of_nat (slices_in st ss))"
proof -
  have "fold (\<lambda>s counts. counts(sl_status s := counts (sl_status s) + 1)) ss c = (\<lambda>st. c st + of_nat (slices_in st ss))" for c :: "HeaderSliceStatus \<Rightarrow> u64"
    by (induction ss arbitrary: c) (auto simp: fun_eq_iff)
  then show ?thesis by (simp add: make_state_watches_from_slices_def)
qed

subsection \<open>Every operation on the window keeps the counters exact\<close>

lemma hs_slices_set_status [simp]:
  "hs_slices (set_slice_status i st w) = (hs_slices w)[i := (hs_slices w ! i)\<lparr>sl_status := st\<rparr>]"
proof -
  have "(hs_slices w ! i)\<lparr>sl_status := sl_status (hs_slices w ! i)\<rparr> = hs_slices w ! i" by simp
  then show ?thesis
    by (auto simp: set_slice_status_def Let_def count_add_def count_sub_def update_slice_def)
qed

lemma window_fields_set_status [simp]:
  "hs_max_slices (set_slice_status i st w) = hs_max_slices w"
  "hs_max_block_num (set_slice_status i st w) = hs_max_block_num w"
  "hs_final_block_num (set_slice_status i st w) = hs_final_block_num w"
  by (simp_all add: set_slice_status_def Let_def count_add_def count_sub_def update_slice_def)

lemma window_fields_update [simp]:
  "hs_slices (update_slice i f w) = (hs_slices w)[i := f (hs_slices w ! i)]"
  "hs_max_slices (update_slice i f w) = hs_max_slices w"
  "hs_max_block_num (update_slice i f w) = hs_max_block_num w"
  "hs_final_block_num (update_slice i f w) = hs_final_block_num w"
  "hs_counts (update_slice i f w) = hs_counts w"
  by (simp_all add: update_slice_def)

lemma counts_ok_set_status:
  assumes "counts_ok w" "i < length (hs_slices w)"
  shows "counts_ok (set_slice_status i st w)"
proof (rule counts_okI)
  fix st'
  let ?ss = "hs_slices w" and ?s = "(hs_slices w ! i)\<lparr>sl_status := st\<rparr>"
  have "of_nat (slices_in st' (?ss[i := ?s])) + (if sl_status (?ss ! i) = st' then 1 else 0 :: u64)
      = of_nat (slices_in st' ?ss) + (if st = st' then 1 else 0)"
    using arg_cong [OF slices_in_update [OF assms(2), of st' ?s], of "of_nat :: nat \<Rightarrow> u64"] by (simp split: if_splits)
  then show "hs_counts (set_slice_status i st w) st' = of_nat (slices_in st' (hs_slices (set_slice_status i st w)))"
    using counts_okD [OF assms(1), of st']
    by (auto simp: set_slice_status_def Let_def count_add_def count_sub_def algebra_simps split: if_splits)
qed

lemma counts_ok_update:
  "counts_ok w \<Longrightarrow> sl_status (f (hs_slices w ! i)) = sl_status (hs_slices w ! i) \<Longrightarrow> counts_ok (update_slice i f w)"
  by (simp add: counts_ok_def slices_in_update_same)

lemma counts_ok_from_slices: "from_slices_vec ss a b c = Some w \<Longrightarrow> counts_ok w"
  by (auto simp: from_slices_vec_def Let_def counts_ok_def make_state_watches_exact split: if_splits)

lemma slices_in_removed:
  "slices_in st (filter (\<lambda>s. sl_status s \<noteq> st') ss) = (if st = st' then 0 else slices_in st ss)"
  by (induction ss) auto

lemma slices_in_kept: "length ss - length (filter (\<lambda>s. sl_status s \<noteq> st) ss) = slices_in st ss"
  using sum_length_filter_compl [of "\<lambda>s. sl_status s = st" ss] by (simp add: slices_in_def)

lemma counts_ok_remove: "counts_ok w \<Longrightarrow> counts_ok (slices_remove st w)"
  by (auto simp: slices_remove_def Let_def count_sub_def slices_in_kept slices_in_removed counts_ok_def)

lemma refill_loop_cases:
  assumes "refill_loop n w c = (w', c')"
  obtains k where "k \<le> n" "w' = w\<lparr>hs_slices := hs_slices w @ map (\<lambda>j. empty_slice (hs_max_block_num w + of_nat (j * HEADER_SLICE_SIZE))) [0..<k],
      hs_max_block_num := hs_max_block_num w + of_nat (k * HEADER_SLICE_SIZE)\<rparr>" "c' = c + of_nat k"
    "\<And>j. j < k \<Longrightarrow> hs_max_block_num w + of_nat (j * HEADER_SLICE_SIZE) < hs_final_block_num w"
proof -
  have "\<exists>k \<le> n. w' = w\<lparr>hs_slices := hs_slices w @ map (\<lambda>j. empty_slice (hs_max_block_num w + of_nat (j * HEADER_SLICE_SIZE))) [0..<k],
      hs_max_block_num := hs_max_block_num w + of_nat (k * HEADER_SLICE_SIZE)\<rparr> \<and> c' = c + of_nat k
      \<and> (\<forall>j < k. hs_max_block_num w + of_nat (j * HEADER_SLICE_SIZE) < hs_final_block_num w)"
    using assms
  proof (induction n arbitrary: w c)
    case 0
    then show ?case by (intro exI [of _ 0]) simp
  next
    case (Suc n)
    show ?case
    proof (cases "hs_max_block_num w \<ge> hs_final_block_num w")
      case True
      with Suc.prems show ?thesis by (intro exI [of _ 0]) simp
    next
      case False
      let ?w = "w\<lparr>hs_slices := hs_slices w @ [empty_slice (hs_max_block_num w)], hs_max_block_num := hs_max_block_num w + of_nat HEADER_SLICE_SIZE\<rparr>"
      from False Suc.prems have "refill_loop n ?w (c + 1) = (w', c')" by simp
      from Suc.IH [OF this] obtain k where k: "k \<le> n"
        "w' = ?w\<lparr>hs_slices := hs_slices ?w @ map (\<lambda>j. empty_slice (hs_max_block_num ?w + of_nat (j * HEADER_SLICE_SIZE))) [0..<k],
          hs_max_block_num := hs_max_block_num ?w + of_nat (k * HEADER_SLICE_SIZE)\<rparr>"
        "c' = c + 1 + of_nat k"
        "\<And>j. j < k \<Longrightarrow> hs_max_block_num ?w + of_nat (j * HEADER_SLICE_SIZE) < hs_final_block_num w"
        by auto
      have shift: "hs_max_block_num w + of_nat HEADER_SLICE_SIZE + of_nat (j * HEADER_SLICE_SIZE)
          = hs_max_block_num w + of_nat (Suc j * HEADER_SLICE_SIZE)" for j
        by (simp add: algebra_simps)
      have upt: "map f [0..<Suc k] = f 0 # map (\<lambda>j. f (Suc j)) [0..<k]" for f :: "nat \<Rightarrow> HeaderSlice"
        by (simp add: upt_conv_Cons map_Suc_upt [symmetric] del: upt_Suc)
      have last: "hs_max_block_num w + of_nat (j * HEADER_SLICE_SIZE) < hs_final_block_num w" if "j < Suc k" for j
        using k(4) [of "j - 1"] that False shift [of "j - 1"] by (cases j) (auto simp: not_le add.assoc)
      show ?thesis
        using k(1-3) last
        by (intro exI [of _ "Suc k"]) (simp add: shift upt del: upt_Suc of_nat_mult mult_Suc)
    qed
  qed
  then show thesis using that by blast
qed

lemma slices_in_empty: "slices_in st (map (\<lambda>j. empty_slice (f j)) js) = (if st = SliceEmpty then length js else 0)"
  by (induction js) (auto simp: empty_slice_def HeaderSlice_default_def)

lemma counts_ok_refill:
  assumes ok: "counts_ok w"
  shows "counts_ok (slices_refill w)"
proof -
  obtain w' c where r: "refill_loop (hs_max_slices w - length (hs_slices w)) w 0 = (w', c)" by fastforce
  from r show ?thesis
  proof (rule refill_loop_cases)
    fix k
    assume "w' = w\<lparr>hs_slices := hs_slices w @ map (\<lambda>j. empty_slice (hs_max_block_num w + of_nat (j * HEADER_SLICE_SIZE))) [0..<k],
      hs_max_block_num := hs_max_block_num w + of_nat (k * HEADER_SLICE_SIZE)\<rparr>" "c = 0 + of_nat k"
    with ok r show ?thesis
      by (simp add: slices_refill_def count_add_def counts_ok_def slices_in_empty fun_eq_iff del: of_nat_mult)
  qed
qed

lemma counts_ok_append: "counts_ok w \<Longrightarrow> counts_ok (append_slice w)"
  by (auto simp: append_slice_def count_add_def counts_ok_def empty_slice_def HeaderSlice_default_def)

lemma counts_ok_prepend:
  assumes "counts_ok w" "prepend_slice w = Inr w'"
  shows "counts_ok w'"
proof -
  from assms(2) obtain n where w': "w' = count_add SliceEmpty 1 (w\<lparr>hs_slices := empty_slice n # hs_slices w\<rparr>)"
    by (auto simp: prepend_slice_def split: if_splits list.splits)
  have "sl_status (empty_slice n) = SliceEmpty" by (simp add: empty_slice_def HeaderSlice_default_def)
  with assms(1) show ?thesis unfolding w' by (auto simp: counts_ok_def count_add_def)
qed

lemma counts_ok_clear: "counts_ok (slices_clear w)" "counts_ok (HeaderSlices_empty n)" "counts_ok (reset_to_single_slice s w)"
  by (auto simp: slices_clear_def HeaderSlices_empty_def reset_to_single_slice_def counts_ok_def make_state_watches_exact)

lemma counts_ok_trim:
  assumes "counts_ok w"
  shows "counts_ok (trim_start_to_fit_max_slices w)" "length (hs_slices (trim_start_to_fit_max_slices w)) = min (length (hs_slices w)) (hs_max_slices w)"
proof -
  have "counts_ok (trim_loop ss w) \<and> length (hs_slices (trim_loop ss w)) = min (length ss) (hs_max_slices w)"
    if "counts_ok w" "ss = hs_slices w" for ss w
    using that
  proof (induction ss arbitrary: w)
    case (Cons s ss)
    let ?w = "count_sub (sl_status s) 1 (w\<lparr>hs_slices := ss\<rparr>)"
    have "counts_ok ?w" using Cons.prems(1) by (auto simp: counts_ok_def count_sub_def fun_eq_iff Cons.prems(2) [symmetric])
    from Cons.IH [OF this] show ?case using Cons.prems(1) by (auto simp: count_sub_def min_def Cons.prems(2) [symmetric])
  qed auto
  from this [OF assms refl] show "counts_ok (trim_start_to_fit_max_slices w)"
    "length (hs_slices (trim_start_to_fit_max_slices w)) = min (length (hs_slices w)) (hs_max_slices w)"
    by (auto simp: trim_start_to_fit_max_slices_def)
qed

lemma contains_status_exact:
  assumes "counts_ok w" "length (hs_slices w) < 2 ^ 64"
  shows "contains_status w st \<longleftrightarrow> (\<exists>s \<in> set (hs_slices w). sl_status s = st)"
proof -
  have "slices_in st (hs_slices w) < 2 ^ 64" using slices_in_le [of st] assms(2) by (rule le_less_trans)
  then have "unat (hs_counts w st) = slices_in st (hs_slices w)" using assms(1) by (simp add: counts_okD u64_of_nat)
  then show ?thesis
    by (simp add: contains_status_def count_slices_in_status_def slices_in_pos [symmetric] word_neq_0_conv [symmetric] unat_gt_0 [symmetric])
qed

section \<open>Stages that do not touch the canonical chain\<close>

text \<open>The hashes in the caches are those of the header.\<close>

definition header_hash_of :: "header_lib \<Rightarrow> BlockHeader \<Rightarrow> h256" where
  "header_hash_of L h = hl_keccak256 L (hl_rlp L h)"

definition caches_ok :: "header_lib \<Rightarrow> SliceHeader \<Rightarrow> bool" where
  "caches_ok L h \<longleftrightarrow> (\<forall>r. sh_rlp_repr_cached h = Some r \<longrightarrow> r = hl_rlp L (sh_header h))
     \<and> (\<forall>x. sh_hash_cached h = Some x \<longrightarrow> x = header_hash_of L (sh_header h))"

lemma sh_hash_ok: "caches_ok L h \<Longrightarrow> sh_hash L h = header_hash_of L (sh_header h)"
  by (auto simp: caches_ok_def sh_hash_def rlp_repr_def header_hash_of_def split: option.splits)

lemma caches_ok_from: "caches_ok L (SliceHeader_from h)"
  by (simp add: caches_ok_def SliceHeader_from_def)

lemma caches_ok_prepare: "caches_ok L h \<Longrightarrow> caches_ok L (hash_prepare L h)"
  by (auto simp: caches_ok_def hash_prepare_def rlp_repr_prepare_def header_hash_of_def Let_def)

lemma sh_header_prepare [simp]: "sh_header (hash_prepare L h) = sh_header h"
  by (simp add: hash_prepare_def rlp_repr_prepare_def Let_def)

text \<open>A slice verified internally is numbered from its start and linked by parent hashes.\<close>

definition run_ok :: "header_lib \<Rightarrow> u64 \<Rightarrow> SliceHeader list \<Rightarrow> bool" where
  "run_ok L start headers \<longleftrightarrow>
     verify_slice_is_linked_by_parent_hash L headers \<and> verify_slice_block_nums headers start"

definition slice_ok :: "header_lib \<Rightarrow> HeaderSlice \<Rightarrow> bool" where
  "slice_ok L s \<longleftrightarrow> (\<forall>headers. sl_headers s = Some headers \<longrightarrow> list_all (caches_ok L) headers)
     \<and> (sl_status s = SliceVerifiedInternally \<longrightarrow> (\<forall>headers. sl_headers s = Some headers \<longrightarrow> run_ok L (sl_start_block_num s) headers))"

text \<open>A change that is calm: the canonical slices stay, the others stay where they are and stay right.\<close>

definition calm_slice :: "header_lib \<Rightarrow> HeaderSlice \<Rightarrow> HeaderSlice \<Rightarrow> bool" where
  "calm_slice L s s' \<longleftrightarrow> s' = s
     \<or> \<not> is_canonical_slice_status (sl_status s) \<and> \<not> is_canonical_slice_status (sl_status s')
       \<and> sl_start_block_num s' = sl_start_block_num s \<and> (slice_ok L s \<longrightarrow> slice_ok L s')"

definition calm :: "header_lib \<Rightarrow> HeaderSlices \<Rightarrow> HeaderSlices \<Rightarrow> bool" where
  "calm L w w' \<longleftrightarrow> list_all2 (calm_slice L) (hs_slices w) (hs_slices w')
     \<and> hs_max_slices w' = hs_max_slices w \<and> hs_max_block_num w' = hs_max_block_num w
     \<and> hs_final_block_num w' = hs_final_block_num w \<and> (counts_ok w \<longrightarrow> counts_ok w')"

lemma calm_slice_refl [simp]: "calm_slice L s s"
  by (simp add: calm_slice_def)

lemma calm_slice_trans: "calm_slice L s s' \<Longrightarrow> calm_slice L s' s'' \<Longrightarrow> calm_slice L s s''"
  by (auto simp: calm_slice_def)

lemma calm_refl [simp]: "calm L w w"
  by (simp add: calm_def list_all2_refl)

lemma calm_trans [trans]: "calm L w w' \<Longrightarrow> calm L w' w'' \<Longrightarrow> calm L w w''"
  by (auto simp: calm_def intro: list_all2_trans [of "calm_slice L" "calm_slice L" "calm_slice L"] calm_slice_trans)

lemma calm_length: "calm L w w' \<Longrightarrow> length (hs_slices w') = length (hs_slices w)"
  by (auto simp: calm_def dest: list_all2_lengthD)

lemma calm_fold:
  assumes "\<And>i w'. i \<in> set is \<Longrightarrow> length (hs_slices w') = length (hs_slices w) \<Longrightarrow> calm L w' (f i w')"
  shows "calm L w (fold f is w)"
  using assms
proof (induction "is" arbitrary: w)
  case (Cons i "is")
  have step: "calm L w (f i w)" by (simp add: Cons.prems)
  have "calm L (f i w) (fold f is (f i w))"
    by (rule Cons.IH) (use Cons.prems calm_length [OF step] in auto)
  with step show ?case by (auto intro: calm_trans)
qed simp

lemma list_all2_update:
  "calm_slice L (ss ! i) s \<Longrightarrow> list_all2 (calm_slice L) ss (ss[i := s])"
  by (cases "i < length ss") (auto simp: list_all2_conv_all_nth nth_list_update list_update_beyond)

text \<open>The shape of every change the stages make to a slice: fields other than the status, then the status.\<close>

lemma calm_move:
  assumes "i < length (hs_slices w)"
    and "\<And>s. sl_status (f s) = sl_status s"
    and "calm_slice L (hs_slices w ! i) ((f (hs_slices w ! i))\<lparr>sl_status := st\<rparr>)"
  shows "calm L w (set_slice_status i st (update_slice i f w))"
proof -
  have "counts_ok (set_slice_status i st (update_slice i f w))" if "counts_ok w"
    using that assms(1,2) by (intro counts_ok_set_status counts_ok_update) simp_all
  with assms show ?thesis by (simp add: calm_def list_all2_update)
qed

lemma calm_status:
  assumes "i < length (hs_slices w)" "calm_slice L (hs_slices w ! i) ((hs_slices w ! i)\<lparr>sl_status := st\<rparr>)"
  shows "calm L w (set_slice_status i st w)"
  using assms by (simp add: calm_def list_all2_update counts_ok_set_status)

lemma find_slice_Some:
  "find_slice p ss = Some i \<Longrightarrow> i < length ss \<and> p (ss ! i) \<and> (\<forall>j < i. \<not> p (ss ! j))"
  by (induction ss arbitrary: i) (auto simp: nth_Cons' less_Suc_eq_0_disj split: if_splits)

lemma find_slice_None: "find_slice p ss = None \<longleftrightarrow> (\<forall>s \<in> set ss. \<not> p s)"
  by (induction ss) auto

subsection \<open>The stages\<close>

lemma calm_sliceI:
  "\<not> is_canonical_slice_status (sl_status s) \<Longrightarrow> \<not> is_canonical_slice_status (sl_status s') \<Longrightarrow>
   sl_start_block_num s' = sl_start_block_num s \<Longrightarrow> (slice_ok L s \<Longrightarrow> slice_ok L s') \<Longrightarrow> calm_slice L s s'"
  by (simp add: calm_slice_def)

lemma calm_request_loop:
  assumes "set is \<subseteq> {..<length (hs_slices w)}"
  shows "calm L w (snd (snd (request_loop send n now is rid w)))"
  using assms
proof (induction "is" arbitrary: rid w)
  case (Cons i "is")
  show ?case
  proof (cases "sl_status (hs_slices w ! i) = SliceEmpty \<and> send rid (sl_start_block_num (hs_slices w ! i)) (of_nat n) = SendOk")
    case True
    let ?w = "set_slice_status i SliceWaiting (update_slice i (\<lambda>s. s\<lparr>sl_request_time := Some now\<rparr>) w)"
    have step: "calm L w ?w"
      by (rule calm_move) (use Cons.prems True in \<open>auto intro!: calm_sliceI simp: is_canonical_slice_status_def slice_ok_def\<close>)
    have "calm L ?w (snd (snd (request_loop send n now is (rid + 1) ?w)))"
      by (rule Cons.IH) (use Cons.prems in simp)
    with step True show ?thesis by (auto intro: calm_trans)
  next
    case False
    with Cons show ?thesis by (auto split: SendResult.splits)
  qed
qed simp

lemma calm_request: "calm L w (snd (snd (request_pending send n now rid w)))"
  unfolding request_pending_def by (rule calm_request_loop) auto

lemma calm_receive: "calm L w (on_headers_message headers peer w)"
proof (cases "\<exists>first rest i. headers = first # rest \<and> find_by_start_block_num w (bh_number first) = Some i \<and> sl_status (hs_slices w ! i) = SliceWaiting")
  case True
  then obtain first rest i where q: "headers = first # rest" "find_by_start_block_num w (bh_number first) = Some i"
    "sl_status (hs_slices w ! i) = SliceWaiting" by auto
  have "i < length (hs_slices w)" using q(2) by (simp add: find_by_start_block_num_def find_slice_Some)
  then have "calm L w (set_slice_status i SliceDownloaded (update_slice i (\<lambda>s. s\<lparr>sl_headers := Some (map SliceHeader_from headers),
      sl_from_peer_id := peer\<rparr>) w))"
    by (rule calm_move)
      (use q(3) in \<open>auto intro!: calm_sliceI simp: is_canonical_slice_status_def slice_ok_def list_all_iff caches_ok_from\<close>)
  with q show ?thesis by (simp add: on_headers_message_def)
next
  case False
  then show ?thesis by (auto simp: on_headers_message_def split: list.splits option.splits)
qed

lemma calm_retry: "calm L w (retry_pending now w)"
  unfolding retry_pending_def
proof (rule calm_fold)
  fix i and w' :: HeaderSlices
  assume i: "i \<in> set [0..<length (hs_slices w)]" "length (hs_slices w') = length (hs_slices w)"
  show "calm L w' (retry_slice now i w')"
  proof (cases "sl_status (hs_slices w' ! i) = SliceWaiting \<and> is_waiting_timeout_expired now (hs_slices w' ! i)")
    case True
    have "calm L w' (set_slice_status i SliceEmpty (update_slice i
        (\<lambda>s. s\<lparr>sl_request_time := None, sl_request_attempt := sl_request_attempt s + 1\<rparr>) w'))"
      by (rule calm_move) (use i True in \<open>auto intro!: calm_sliceI simp: is_canonical_slice_status_def slice_ok_def\<close>)
    with True show ?thesis by (simp add: retry_slice_def)
  qed (auto simp: retry_slice_def)
qed

lemma calm_reset_slice:
  assumes "i < length (hs_slices w)"
  shows "calm L w (reset_slice i w)"
proof (cases "sl_status (hs_slices w ! i) = SliceInvalid")
  case True
  have "calm L w (set_slice_status i SliceEmpty w)"
    by (rule calm_status) (use assms True in \<open>auto intro!: calm_sliceI simp: is_canonical_slice_status_def slice_ok_def\<close>)
  moreover have "calm L (set_slice_status i SliceEmpty w) (update_slice i (\<lambda>s. s\<lparr>sl_headers := None\<rparr>) (set_slice_status i SliceEmpty w))"
    (is "calm L ?w (update_slice i ?f ?w)")
  proof -
    have "calm_slice L (hs_slices ?w ! i) (?f (hs_slices ?w ! i))"
      using assms by (auto intro!: calm_sliceI simp: is_canonical_slice_status_def slice_ok_def)
    then have "list_all2 (calm_slice L) (hs_slices ?w) ((hs_slices ?w)[i := ?f (hs_slices ?w ! i)])" by (rule list_all2_update)
    moreover have "counts_ok (update_slice i ?f ?w)" if "counts_ok ?w" using that by (rule counts_ok_update) simp
    ultimately show ?thesis unfolding calm_def by (intro conjI impI) (simp_all only: window_fields_update window_fields_set_status)
  qed
  ultimately show ?thesis using True by (auto simp: reset_slice_def intro: calm_trans)
qed (simp add: reset_slice_def)

lemma calm_penalize: "calm L w (snd (penalize_execute p w))"
  by (auto simp: penalize_execute_def intro!: calm_fold calm_reset_slice)

end
