(* ===== verification/VerifyLoop.thy ===== *)
theory VerifyLoop
  imports HeaderWindow
begin

text \<open>
  The loop of the two verifying stages: it ends, it leaves no downloaded slice behind, and the slices it accepts have passed
  the check. The contract of a header verifier and its proof for the Ethash verifier.
\<close>

section \<open>A batch\<close>

lemma check_slices_results:
  "check_slices check ss = Some bs \<Longrightarrow> list_all2 (\<lambda>s b. check s = Some b) ss bs"
  by (induction ss arbitrary: bs) (auto simp: Option.bind_eq_Some_conv)

lemma check_slices_returns:
  "(\<And>s. s \<in> set ss \<Longrightarrow> check s \<noteq> None) \<Longrightarrow> \<exists>bs. check_slices check ss = Some bs"
  by (induction ss) (auto simp: Option.bind_eq_Some_conv)

lemma batch_slices:
  "i \<in> set (find_batch_by_status w st n) \<Longrightarrow> i < length (hs_slices w) \<and> sl_status (hs_slices w ! i) = st"
  "distinct (find_batch_by_status w st n)"
  by (auto simp: find_batch_by_status_def Let_def dest: in_set_takeD split: if_splits)

lemma batch_empty: "find_batch_by_status w st n = [] \<longleftrightarrow> slices_in st (hs_slices w) = 0"
proof -
  have "(filter (\<lambda>i. sl_status (hs_slices w ! i) = st) [0..<length (hs_slices w)] = []) = (\<forall>s \<in> set (hs_slices w). sl_status s \<noteq> st)"
    by (auto simp: filter_empty_conv all_set_conv_all_nth)
  then show ?thesis using slices_in_pos [of st "hs_slices w"]
    by (auto simp: find_batch_by_status_def Let_def)
qed

lemma prepare_status [simp]: "map sl_status (hs_slices (prepare_slice_hashes L i w)) = map sl_status (hs_slices w)"
  by (cases "i < length (hs_slices w)") (simp_all add: prepare_slice_hashes_def map_update list_update_beyond list_update_same_conv)

lemma prepare_batch_status: "map sl_status (hs_slices (fold (prepare_slice_hashes L) batch w)) = map sl_status (hs_slices w)"
  by (induction batch arbitrary: w) simp_all

lemma status_nth:
  "map sl_status ss = map sl_status ss' \<Longrightarrow> i < length ss \<Longrightarrow> sl_status (ss ! i) = sl_status (ss' ! i)"
  by (metis length_map nth_map)

lemma slices_in_status: "map sl_status ss = map sl_status ss' \<Longrightarrow> slices_in st ss = slices_in st ss'"
proof -
  have "slices_in st ss = length (filter (\<lambda>x. x = st) (map sl_status ss))" for ss
    by (simp add: slices_in_def filter_map comp_def)
  then show "map sl_status ss = map sl_status ss' \<Longrightarrow> ?thesis" by metis
qed

lemma calm_prepare:
  assumes "i < length (hs_slices w)" "sl_status (hs_slices w ! i) = SliceDownloaded"
  shows "calm L w (prepare_slice_hashes L i w)"
proof -
  let ?f = "\<lambda>s. s\<lparr>sl_headers := map_option (map (hash_prepare L)) (sl_headers s)\<rparr>"
  have "calm_slice L (hs_slices w ! i) (?f (hs_slices w ! i))"
    using assms(2) by (auto intro!: calm_sliceI simp: is_canonical_slice_status_def slice_ok_def list_all_iff caches_ok_prepare)
  moreover have "counts_ok (update_slice i ?f w)" if "counts_ok w" using that by (rule counts_ok_update) simp
  ultimately show ?thesis by (simp add: calm_def prepare_slice_hashes_def list_all2_update)
qed

lemma calm_prepare_batch:
  assumes "\<And>i. i \<in> set batch \<Longrightarrow> i < length (hs_slices w) \<and> sl_status (hs_slices w ! i) = SliceDownloaded"
  shows "calm L w (fold (prepare_slice_hashes L) batch w)"
  using assms
proof (induction batch arbitrary: w)
  case (Cons i batch)
  have step: "calm L w (prepare_slice_hashes L i w)" by (rule calm_prepare) (use Cons.prems in auto)
  have "calm L (prepare_slice_hashes L i w) (fold (prepare_slice_hashes L) batch (prepare_slice_hashes L i w))"
    by (rule Cons.IH) (use Cons.prems calm_length [OF step] status_nth [OF prepare_status] in auto)
  with step show ?case by (auto intro: calm_trans)
qed simp

text \<open>Marking the slices of a batch.\<close>

abbreviation mark_slices :: "HeaderSliceStatus \<Rightarrow> (nat \<times> bool) list \<Rightarrow> HeaderSlices \<Rightarrow> HeaderSlices" where
  "mark_slices verified \<equiv> fold (\<lambda>(i, is_verified). set_slice_status i (if is_verified then verified else SliceInvalid))"

lemma calm_mark_slices:
  assumes "distinct (map fst ms)"
    and "\<And>i b. (i, b) \<in> set ms \<Longrightarrow> i < length (hs_slices w) \<and> sl_status (hs_slices w ! i) = SliceDownloaded
      \<and> (b \<longrightarrow> (\<forall>headers. sl_headers (hs_slices w ! i) = Some headers \<longrightarrow> run_ok L (sl_start_block_num (hs_slices w ! i)) headers))"
  shows "calm L w (mark_slices SliceVerifiedInternally ms w)"
  using assms
proof (induction ms arbitrary: w)
  case (Cons m ms)
  obtain i b where m: "m = (i, b)" by fastforce
  let ?w = "set_slice_status i (if b then SliceVerifiedInternally else SliceInvalid) w"
  have i: "i < length (hs_slices w)" "sl_status (hs_slices w ! i) = SliceDownloaded"
    "b \<Longrightarrow> (\<forall>headers. sl_headers (hs_slices w ! i) = Some headers \<longrightarrow> run_ok L (sl_start_block_num (hs_slices w ! i)) headers)"
    using Cons.prems(2) [of i b] m by auto
  have step: "calm L w ?w"
    by (rule calm_status [OF i(1)], rule calm_sliceI) (use i in \<open>auto simp: is_canonical_slice_status_def slice_ok_def\<close>)
  have "calm L ?w (mark_slices SliceVerifiedInternally ms ?w)"
  proof (rule Cons.IH)
    show "distinct (map fst ms)" using Cons.prems(1) by simp
    fix j c
    assume j: "(j, c) \<in> set ms"
    then have "j \<noteq> i" using Cons.prems(1) m by force
    then have "hs_slices ?w ! j = hs_slices w ! j" by simp
    then show "j < length (hs_slices ?w) \<and> sl_status (hs_slices ?w ! j) = SliceDownloaded
      \<and> (c \<longrightarrow> (\<forall>headers. sl_headers (hs_slices ?w ! j) = Some headers \<longrightarrow> run_ok L (sl_start_block_num (hs_slices ?w ! j)) headers))"
      using Cons.prems(2) [of j c] j by simp
  qed
  with step m show ?case by (auto intro: calm_trans)
qed simp

lemma mark_slices_count:
  assumes "distinct (map fst ms)" "st \<noteq> SliceDownloaded"
    and "\<And>i b. (i, b) \<in> set ms \<Longrightarrow> i < length (hs_slices w) \<and> sl_status (hs_slices w ! i) = SliceDownloaded"
  shows "slices_in SliceDownloaded (hs_slices (mark_slices st ms w)) + length ms = slices_in SliceDownloaded (hs_slices w)"
  using assms
proof (induction ms arbitrary: w)
  case (Cons m ms)
  obtain i b where m: "m = (i, b)" by fastforce
  let ?st = "if b then st else SliceInvalid"
  let ?w = "set_slice_status i ?st w"
  have i: "i < length (hs_slices w)" "sl_status (hs_slices w ! i) = SliceDownloaded" using Cons.prems(3) [of i b] m by auto
  have "slices_in SliceDownloaded (hs_slices ?w) + 1 = slices_in SliceDownloaded (hs_slices w)"
    using slices_in_update [OF i(1), of SliceDownloaded "(hs_slices w ! i)\<lparr>sl_status := ?st\<rparr>"] i(2) Cons.prems(2) by simp
  moreover have "slices_in SliceDownloaded (hs_slices (mark_slices st ms ?w)) + length ms = slices_in SliceDownloaded (hs_slices ?w)"
  proof (rule Cons.IH)
    show "distinct (map fst ms)" "st \<noteq> SliceDownloaded" using Cons.prems by simp_all
    fix j c
    assume j: "(j, c) \<in> set ms"
    then have "j \<noteq> i" using Cons.prems(1) m by force
    then show "j < length (hs_slices ?w) \<and> sl_status (hs_slices ?w ! j) = SliceDownloaded" using Cons.prems(3) [of j c] j by simp
  qed
  ultimately show ?case using m by simp
qed simp

text \<open>A whole batch: what its results are and what they do.\<close>

lemma verify_batch_cases:
  assumes "verify_batch L check st batch w = Some w'" "batch = find_batch_by_status w SliceDownloaded n"
  obtains wp ms where "wp = fold (prepare_slice_hashes L) batch w" "calm L w wp" "w' = mark_slices st ms wp" "distinct (map fst ms)"
    "length ms = length batch" "map sl_status (hs_slices wp) = map sl_status (hs_slices w)"
    "\<And>i b. (i, b) \<in> set ms \<Longrightarrow> i < length (hs_slices wp) \<and> sl_status (hs_slices wp ! i) = SliceDownloaded \<and> check (hs_slices wp ! i) = Some b"
proof -
  define wp where "wp = fold (prepare_slice_hashes L) batch w"
  from assms(1) obtain bs where bs: "check_slices check (map (\<lambda>i. hs_slices wp ! i) batch) = Some bs"
    "w' = mark_slices st (zip batch bs) wp"
    by (auto simp: verify_batch_def wp_def Let_def Option.bind_eq_Some_conv)
  note res = check_slices_results [OF bs(1)]
  then have len: "length bs = length batch" by (auto dest: list_all2_lengthD)
  have q: "calm L w wp" unfolding wp_def by (rule calm_prepare_batch) (use batch_slices(1) assms(2) in blast)
  have st: "map sl_status (hs_slices wp) = map sl_status (hs_slices w)" unfolding wp_def by (rule prepare_batch_status)
  have "i < length (hs_slices wp) \<and> sl_status (hs_slices wp ! i) = SliceDownloaded \<and> check (hs_slices wp ! i) = Some b"
    if ib: "(i, b) \<in> set (zip batch bs)" for i b
  proof -
    have "i \<in> set batch" using ib by (rule set_zip_leftD)
    then have "i < length (hs_slices w)" "sl_status (hs_slices w ! i) = SliceDownloaded" using batch_slices(1) assms(2) by blast+
    moreover have "check (hs_slices wp ! i) = Some b"
      using res ib len by (auto simp: list_all2_conv_all_nth in_set_zip)
    ultimately show ?thesis using calm_length [OF q] status_nth [OF st, of i] by simp
  qed
  moreover have "distinct (map fst (zip batch bs))" using len batch_slices(2) assms(2) by simp
  ultimately show thesis using that [OF wp_def q bs(2)] len st by simp
qed

section \<open>The loop\<close>

lemma verify_pending_loop_unfold:
  "verify_pending_loop L check st n w =
     (if find_batch_by_status w SliceDownloaded n = [] then Some w
      else do { w \<leftarrow> verify_batch L check st (find_batch_by_status w SliceDownloaded n) w; verify_pending_loop L check st n w })"
  by (subst verify_pending_loop.simps) (simp add: Let_def)

lemma verify_batch_count:
  assumes "verify_batch L check st (find_batch_by_status w SliceDownloaded n) w = Some w'" "st \<noteq> SliceDownloaded"
  shows "slices_in SliceDownloaded (hs_slices w') + length (find_batch_by_status w SliceDownloaded n) = slices_in SliceDownloaded (hs_slices w)"
  using assms(1) refl
proof (rule verify_batch_cases)
  fix wp ms
  assume q: "w' = mark_slices st ms wp" "distinct (map fst ms)" "length ms = length (find_batch_by_status w SliceDownloaded n)"
    "map sl_status (hs_slices wp) = map sl_status (hs_slices w)"
    "\<And>i b. (i, b) \<in> set ms \<Longrightarrow> i < length (hs_slices wp) \<and> sl_status (hs_slices wp ! i) = SliceDownloaded \<and> check (hs_slices wp ! i) = Some b"
  have "slices_in SliceDownloaded (hs_slices w') + length ms = slices_in SliceDownloaded (hs_slices wp)"
    unfolding q(1) by (rule mark_slices_count [OF q(2) assms(2)]) (use q(5) in blast)
  then show ?thesis using q(3) slices_in_status [OF q(4)] by simp
qed

lemma verify_batch_returns:
  "(\<And>s. check s \<noteq> None) \<Longrightarrow> \<exists>w'. verify_batch L check st batch w = Some w'"
  using check_slices_returns [of "map (\<lambda>i. hs_slices (fold (prepare_slice_hashes L) batch w) ! i) batch" check]
  by (auto simp: verify_batch_def Let_def Option.bind_eq_Some_conv)

lemma verify_pending_loop_returns:
  assumes "\<And>s. check s \<noteq> None" "st \<noteq> SliceDownloaded"
  shows "\<exists>w'. verify_pending_loop L check st n w = Some w' \<and> slices_in SliceDownloaded (hs_slices w') = 0"
proof (induction "slices_in SliceDownloaded (hs_slices w)" arbitrary: w rule: less_induct)
  case less
  let ?batch = "find_batch_by_status w SliceDownloaded n"
  show ?case
  proof (cases "?batch = []")
    case True
    then show ?thesis by (simp add: verify_pending_loop_unfold batch_empty)
  next
    case False
    obtain w' where w': "verify_batch L check st ?batch w = Some w'" using verify_batch_returns [of check L st ?batch w] assms(1) by blast
    have "slices_in SliceDownloaded (hs_slices w') < slices_in SliceDownloaded (hs_slices w)"
      using verify_batch_count [OF w' assms(2)] False by (cases ?batch) auto
    from less [OF this] w' False show ?thesis by (subst verify_pending_loop_unfold) simp
  qed
qed

lemma verify_pending_loop_invariant:
  assumes "verify_pending_loop L check st n w = Some w'" "P w"
    and "\<And>w w'. verify_batch L check st (find_batch_by_status w SliceDownloaded n) w = Some w' \<Longrightarrow> P w \<Longrightarrow> P w'"
  shows "P w'"
proof -
  have "P w \<longrightarrow> (\<forall>w w'. verify_batch L check st (find_batch_by_status w SliceDownloaded n) w = Some w' \<longrightarrow> P w \<longrightarrow> P w') \<longrightarrow> P w'"
    using assms(1)
    by (rule verify_pending_loop.raw_induct [rotated]) (auto simp: Let_def Option.bind_eq_Some_conv split: if_splits)
  with assms(2,3) show ?thesis by blast
qed

section \<open>Verifiers\<close>

locale slice_verifier =
  fixes vf :: HeaderSliceVerifier
  assumes link: "vf_verify_link vf L child parent spec = Some True \<Longrightarrow>
      bh_parent_hash (sh_header child) = sh_hash L parent \<and> sh_number child = sh_number parent + 1"
    and slice: "vf_verify_slice vf L headers start t spec = Some True \<Longrightarrow> run_ok L start headers"
begin

lemma verified_batch_quiet:
  assumes "verify_batch L (slices_verify_slice L vf spec t) SliceVerifiedInternally (find_batch_by_status w SliceDownloaded n) w = Some w'"
  shows "calm L w w'"
  using assms refl
proof (rule verify_batch_cases)
  fix wp ms
  assume q: "calm L w wp" "w' = mark_slices SliceVerifiedInternally ms wp" "distinct (map fst ms)"
    "\<And>i b. (i, b) \<in> set ms \<Longrightarrow> i < length (hs_slices wp) \<and> sl_status (hs_slices wp ! i) = SliceDownloaded
      \<and> slices_verify_slice L vf spec t (hs_slices wp ! i) = Some b"
  have "calm L wp w'" unfolding q(2)
    by (rule calm_mark_slices [OF q(3)]) (use q(4) slice in \<open>fastforce simp: slices_verify_slice_def\<close>)
  with q(1) show ?thesis by (rule calm_trans)
qed

lemma calm_verify_slices:
  assumes "verify_slices_pending L vf spec t n w = Some w'"
  shows "calm L w w'"
  using assms unfolding verify_slices_pending_def
  by (rule verify_pending_loop_invariant) (auto intro: calm_trans verified_batch_quiet)

end

interpretation ethash_verifier: slice_verifier make_ethash_verifier
  by unfold_locales
    (auto simp: make_ethash_verifier_def verify_link_by_parent_hash_def verify_link_block_nums_def run_ok_def split: if_splits)

end
