(* ===== verification/HeaderChain.thy ===== *)
theory HeaderChain
  imports VerifyLoop
begin

text \<open>
  Chains of headers, in memory and in the database, and what saving and unwinding headers does to the chain in the database.
\<close>

section \<open>Chains in memory\<close>

text \<open>Headers numbered from \<open>n\<close>, each with the hash of the one before it as its parent hash; \<open>prev\<close> is the hash before the first,
  and the block number zero is the genesis block.\<close>

fun chained :: "header_lib \<Rightarrow> h256 \<Rightarrow> h256 option \<Rightarrow> nat \<Rightarrow> SliceHeader list \<Rightarrow> bool" where
  "chained L genesis prev n [] = True"
| "chained L genesis prev n (h # hs) =
     (unat (sh_number h) = n \<and> caches_ok L h
      \<and> (if n = 0 then sh_hash L h = genesis else prev = Some (bh_parent_hash (sh_header h)))
      \<and> chained L genesis (Some (sh_hash L h)) (Suc n) hs)"

definition last_hash :: "header_lib \<Rightarrow> h256 option \<Rightarrow> SliceHeader list \<Rightarrow> h256 option" where
  "last_hash L prev hs = (if hs = [] then prev else Some (sh_hash L (last hs)))"

lemma last_hash_simps [simp]:
  "last_hash L prev [] = prev"
  "last_hash L prev (h # hs) = last_hash L (Some (sh_hash L h)) hs"
  "last_hash L prev (hs @ hs') = last_hash L (last_hash L prev hs) hs'"
  by (simp_all add: last_hash_def)

lemma chained_append [simp]:
  "chained L genesis prev n (hs @ hs') \<longleftrightarrow>
     chained L genesis prev n hs \<and> chained L genesis (last_hash L prev hs) (n + length hs) hs'"
  by (induction hs arbitrary: prev n) auto

lemma chained_last_number:
  "chained L genesis prev n hs \<Longrightarrow> hs \<noteq> [] \<Longrightarrow> Suc (unat (sh_number (last hs))) = n + length hs"
proof (induction hs arbitrary: prev n)
  case (Cons h hs)
  then show ?case by (cases "hs = []") fastforce+
qed simp

text \<open>A slice that has been verified internally is a chain as soon as its first header is linked.\<close>

lemma run_ok_chained:
  assumes "run_ok L start hs" "list_all (caches_ok L) hs" "unat start + length hs \<le> 2 ^ 64"
    and "hs \<noteq> [] \<Longrightarrow> if unat start = 0 then sh_hash L (hd hs) = genesis else prev = Some (bh_parent_hash (sh_header (hd hs)))"
  shows "chained L genesis prev (unat start) hs"
  using assms
proof (induction hs arbitrary: start prev)
  case (Cons h hs)
  have h: "sh_number h = start" "caches_ok L h" "list_all (caches_ok L) hs"
    using Cons.prems by (auto simp: run_ok_def verify_slice_block_nums_def)
  have "chained L genesis (Some (sh_hash L h)) (Suc (unat start)) hs"
  proof (cases hs)
    case (Cons c cs)
    have n: "Suc (unat start) < 2 ^ 64" using Cons.prems(3) \<open>hs = c # cs\<close> by simp
    then have next_num: "unat (start + 1) = Suc (unat start)" by (simp add: unat_word_ariths)
    have "run_ok L (start + 1) hs" "bh_parent_hash (sh_header c) = sh_hash L h"
      using Cons.prems(1) h(1) \<open>hs = c # cs\<close>
      by (auto simp: run_ok_def verify_slice_is_linked_by_parent_hash_def verify_slice_block_nums_def
          verify_link_block_nums_def verify_link_by_parent_hash_def)
    then have "chained L genesis (Some (sh_hash L h)) (unat (start + 1)) hs"
      by (intro Cons.IH) (use h(3) Cons.prems(3) next_num \<open>hs = c # cs\<close> in auto)
    then show ?thesis by (simp only: next_num)
  qed simp
  with h Cons.prems(4) show ?case by (auto split: if_splits)
qed simp

section \<open>Chains in the database\<close>

text \<open>From \<open>lo\<close> below \<open>hi\<close>: a canonical hash of every number, the header under it with that number and that hash, its
  parent hash the canonical hash below, and its total difficulty that of its parent plus its own when the parent has one.\<close>

definition canonical_at :: "HeaderDb \<Rightarrow> nat \<Rightarrow> h256 option" where
  "canonical_at db n = hd_canonical_header db (of_nat n)"

definition saved_at :: "header_lib \<Rightarrow> h256 \<Rightarrow> HeaderDb \<Rightarrow> nat \<Rightarrow> bool" where
  "saved_at L genesis db n \<longleftrightarrow> (case canonical_at db n of
       None \<Rightarrow> False
     | Some hash \<Rightarrow> (case hd_header db (of_nat n, hash) of
           None \<Rightarrow> False
         | Some header \<Rightarrow>
             unat (bh_number header) = n \<and> hash = header_hash_of L header
             \<and> (if n = 0 then hash = genesis else canonical_at db (n - 1) = Some (bh_parent_hash header))
             \<and> (\<forall>d. (if n = 0 then Some 0 else hd_headers_total_difficulty db (of_nat (n - 1), bh_parent_hash header)) = Some d
                 \<longrightarrow> hd_headers_total_difficulty db (of_nat n, hash) = Some (d + bh_difficulty header))))"

definition saved_chain :: "header_lib \<Rightarrow> h256 \<Rightarrow> nat \<Rightarrow> nat \<Rightarrow> HeaderDb \<Rightarrow> bool" where
  "saved_chain L genesis lo hi db \<longleftrightarrow> (\<forall>n \<in> {lo..<hi}. saved_at L genesis db n)"

lemma save_header_other:
  assumes "k \<noteq> sh_number h"
  shows "hd_canonical_header (save_header L b h db) k = hd_canonical_header db k"
    "hd_header (save_header L b h db) (k, x) = hd_header db (k, x)"
    "hd_headers_total_difficulty (save_header L b h db) (k, x) = hd_headers_total_difficulty db (k, x)"
  using assms by (auto simp: save_header_def update_canonical_chain_header_def Let_def split: option.splits)

lemma save_header_same:
  "hd_canonical_header (save_header L True h db) (sh_number h) = Some (sh_hash L h)"
  "hd_header (save_header L b h db) (sh_number h, sh_hash L h) = Some (sh_header h)"
  "hd_last_header (save_header L True h db) = Some (sh_hash L h)"
  "hd_header_number (save_header L b h db) = (hd_header_number db)(sh_hash L h \<mapsto> sh_number h)"
  by (auto simp: save_header_def update_canonical_chain_header_def Let_def split: option.splits)

lemma save_header_difficulty:
  "read_parent_header_total_difficulty h db = Some d \<Longrightarrow>
   hd_headers_total_difficulty (save_header L True h db) (sh_number h, sh_hash L h) = Some (d + bh_difficulty (sh_header h))"
  by (auto simp: save_header_def update_canonical_chain_header_def header_total_difficulty_def
      read_parent_header_total_difficulty_def Let_def split: option.splits)

lemma saved_at_cong:
  assumes "\<And>k. k \<le> n \<Longrightarrow> hd_canonical_header db' (of_nat k) = hd_canonical_header db (of_nat k)"
    "\<And>x. hd_header db' (of_nat n, x) = hd_header db (of_nat n, x)"
    "\<And>k x. k \<le> n \<Longrightarrow> hd_headers_total_difficulty db' (of_nat k, x) = hd_headers_total_difficulty db (of_nat k, x)"
  shows "saved_at L genesis db' n = saved_at L genesis db n"
  unfolding saved_at_def canonical_at_def
  by (simp only: assms(2) assms(1) [OF order.refl] assms(1) [OF diff_le_self] assms(3) [OF order.refl] assms(3) [OF diff_le_self])

lemma below_number: "k < unat (n :: u64) \<Longrightarrow> of_nat k \<noteq> n"
  using unat_u64 [of n] by (metis less_irrefl order.strict_trans u64_of_nat)

lemma saved_at_save_below:
  assumes "n < unat (sh_number h)"
  shows "saved_at L genesis (save_header L' b h db) n = saved_at L genesis db n"
  by (rule saved_at_cong; intro save_header_other below_number) (use assms in auto)

lemma saved_at_save:
  assumes n: "unat (sh_number h) = n" and ok: "caches_ok L h"
    and link: "if n = 0 then sh_hash L h = genesis else canonical_at db (n - 1) = Some (bh_parent_hash (sh_header h))"
  shows "saved_at L genesis (save_header L True h db) n"
proof -
  let ?db = "save_header L True h db"
  have num: "of_nat n = sh_number h" using n by auto
  have below: "of_nat (n - 1) \<noteq> sh_number h" if "n \<noteq> 0" using that n by (intro below_number) simp
  have td: "hd_headers_total_difficulty ?db (of_nat n, sh_hash L h) = Some (d + bh_difficulty (sh_header h))"
    if "(if n = 0 then Some 0 else hd_headers_total_difficulty ?db (of_nat (n - 1), bh_parent_hash (sh_header h))) = Some d" for d
  proof -
    have "read_parent_header_total_difficulty h db = Some d"
    proof (cases "n = 0")
      case True
      then show ?thesis using that n by (simp add: read_parent_header_total_difficulty_def unat_eq_zero)
    next
      case False
      then have "sh_number h \<noteq> 0" "sh_number h - 1 = of_nat (n - 1)" using n num by auto
      then show ?thesis using that False save_header_other(3) [OF below] by (simp add: read_parent_header_total_difficulty_def)
    qed
    then show ?thesis unfolding num by (rule save_header_difficulty)
  qed
  have "canonical_at ?db n = Some (sh_hash L h)" "hd_header ?db (of_nat n, sh_hash L h) = Some (sh_header h)"
    unfolding canonical_at_def num by (rule save_header_same)+
  moreover have "n \<noteq> 0 \<Longrightarrow> canonical_at ?db (n - 1) = canonical_at db (n - 1)"
    unfolding canonical_at_def by (rule save_header_other) (rule below)
  ultimately show ?thesis using n link td sh_hash_ok [OF ok] by (auto simp: saved_at_def)
qed

lemma save_headers_chain:
  assumes "chained L genesis (canonical_at db (n - 1)) n hs" "saved_chain L genesis lo n db" "lo \<le> n"
  shows "saved_chain L genesis lo (n + length hs) (save_headers L True hs db)
    \<and> canonical_at (save_headers L True hs db) (n + length hs - 1) = last_hash L (canonical_at db (n - 1)) hs"
  using assms
proof (induction hs arbitrary: db n)
  case Nil
  then show ?case by (simp add: save_headers_def)
next
  case (Cons h hs)
  let ?db = "save_header L True h db"
  have n: "unat (sh_number h) = n" using Cons.prems(1) by simp
  have c: "canonical_at ?db n = Some (sh_hash L h)" using n save_header_same(1) [of L h db] by (auto simp: canonical_at_def)
  have "saved_at L genesis ?db n" using Cons.prems(1) by (intro saved_at_save) auto
  moreover have "saved_at L genesis ?db k" if "lo \<le> k" "k < n" for k
    using that Cons.prems(2) saved_at_save_below [of k h] n by (simp add: saved_chain_def)
  ultimately have "saved_chain L genesis lo (Suc n) ?db" unfolding saved_chain_def
    by (metis atLeastLessThan_iff less_Suc_eq)
  then have "saved_chain L genesis lo (Suc n + length hs) (save_headers L True hs ?db)
    \<and> canonical_at (save_headers L True hs ?db) (Suc n + length hs - 1) = last_hash L (canonical_at ?db (Suc n - 1)) hs"
    by (intro Cons.IH) (use Cons.prems c in simp_all)
  then show ?case using c by (simp add: save_headers_def)
qed

section \<open>Unwinding\<close>

lemma unwind_canonical_run:
  assumes "a \<le> b" "b < 2 ^ 64" "\<And>k. a \<le> k \<Longrightarrow> k < b \<Longrightarrow> canonical_at db k \<noteq> None" "canonical_at db b = None"
  shows "unwind_canonical (of_nat a) db
    = Some (db\<lparr>hd_canonical_header := (\<lambda>n. if a \<le> unat n \<and> unat n < b then None else hd_canonical_header db n)\<rparr>)"
  using assms
proof (induction "b - a" arbitrary: a db)
  case 0
  then have "a = b" by simp
  then have "(\<lambda>n. if a \<le> unat n \<and> unat n < b then None else hd_canonical_header db n) = hd_canonical_header db" by (auto simp: fun_eq_iff)
  then show ?case using 0 \<open>a = b\<close> by (subst unwind_canonical.simps) (simp add: canonical_at_def)
next
  case (Suc d)
  let ?db = "db\<lparr>hd_canonical_header := (hd_canonical_header db)(of_nat a := None)\<rparr>"
  have a: "a < b" using Suc.hyps(2) by simp
  have other: "k = a" if "(of_nat k :: u64) = of_nat a" "k \<le> b" for k
    using that a Suc.prems(2) by (metis le_less_trans order.strict_trans u64_of_nat)
  have "unwind_canonical (of_nat (Suc a)) ?db
    = Some (?db\<lparr>hd_canonical_header := (\<lambda>n. if Suc a \<le> unat n \<and> unat n < b then None else hd_canonical_header ?db n)\<rparr>)"
  proof (rule Suc.hyps(1))
    show "d = b - Suc a" "Suc a \<le> b" "b < 2 ^ 64" using Suc.hyps(2) Suc.prems(2) by simp_all
    show "canonical_at ?db k \<noteq> None" if "Suc a \<le> k" "k < b" for k
      using Suc.prems(3) [of k] that other [of k] by (auto simp: canonical_at_def)
    show "canonical_at ?db b = None" using Suc.prems(4) by (simp add: canonical_at_def)
  qed
  moreover have "(\<lambda>n. if Suc a \<le> unat n \<and> unat n < b then None else hd_canonical_header ?db n)
      = (\<lambda>n. if a \<le> unat n \<and> unat n < b then None else hd_canonical_header db n)"
    using a Suc.prems(2) by (auto simp: fun_eq_iff u64_of_nat dest: le_antisym)
  moreover have "hd_canonical_header db (of_nat a) \<noteq> None" using Suc.prems(3) [of a] a by (simp add: canonical_at_def)
  ultimately show ?case by (subst unwind_canonical.simps) (auto simp: add.commute)
qed

lemma saved_chain_canonical: "saved_chain L genesis lo hi db \<Longrightarrow> lo \<le> n \<Longrightarrow> n < hi \<Longrightarrow> canonical_at db n \<noteq> None"
  by (force simp: saved_chain_def saved_at_def split: option.splits)

lemma save_unwind_chain:
  assumes chain: "saved_chain L genesis lo hi db" and top: "canonical_at db hi = None" and range: "lo \<le> u" "u < hi" "hi < 2 ^ 64"
  obtains db' where "save_unwind (of_nat u) db = Some (Inr (), db')" "saved_chain L genesis lo (Suc u) db'"
    "\<And>k. u < k \<Longrightarrow> k \<le> hi \<Longrightarrow> canonical_at db' k = None" "hd_last_header db' = canonical_at db' u" "canonical_at db' u = canonical_at db u"
proof -
  let ?c = "\<lambda>n. if Suc u \<le> unat n \<and> unat n < hi then None else hd_canonical_header db n"
  let ?db = "db\<lparr>hd_canonical_header := ?c\<rparr>"
  have keep: "hd_canonical_header ?db (of_nat k) = hd_canonical_header db (of_nat k)" if "k \<le> u" for k
    using that range by (simp add: u64_of_nat)
  have "unwind_canonical (of_nat (Suc u)) db = Some ?db"
    by (rule unwind_canonical_run) (use range top saved_chain_canonical [OF chain] in auto)
  moreover obtain hash where hash: "hd_canonical_header db (of_nat u) = Some hash"
    using saved_chain_canonical [OF chain range(1,2)] by (auto simp: canonical_at_def)
  ultimately have r: "save_unwind (of_nat u) db = Some (Inr (), ?db\<lparr>hd_last_header := Some hash\<rparr>)" (is "_ = Some (_, ?db')")
    using keep [of u] by (simp add: save_unwind_def add.commute)
  have "saved_at L genesis ?db' k" if k: "lo \<le> k" "k < Suc u" for k
  proof -
    have "saved_at L genesis ?db' k = saved_at L genesis db k" by (rule saved_at_cong) (use keep k in auto)
    then show ?thesis using chain k range by (simp add: saved_chain_def)
  qed
  then have "saved_chain L genesis lo (Suc u) ?db'" by (simp add: saved_chain_def)
  moreover have "canonical_at ?db' k = None" if "u < k" "k \<le> hi" for k
    using that top range by (cases "k = hi") (auto simp: canonical_at_def u64_of_nat)
  moreover have "canonical_at ?db' u = canonical_at db u" "hd_last_header ?db' = canonical_at ?db' u"
    using keep [of u] hash by (simp_all add: canonical_at_def)
  ultimately show thesis using that r by blast
qed

end
