(* ===== verification/LinearDownload.thy ===== *)
theory LinearDownload
  imports HeaderChain
begin

text \<open>
  The linear header downloader, \<open>downloader_linear.rs\<close>: its set-up, its stages as steps that run in any order, and the
  proof that the chain it has saved is numbered without gaps and linked by hashes whatever the peers send.
\<close>

section \<open>The downloader\<close>

record linear_state =
  ln_window :: HeaderSlices
  ln_link :: VerifyLinkLinearStage
  ln_request_id :: u64
  ln_db :: HeaderDb

record DownloaderLinearReport =
  dl_loaded_count :: nat
  dl_final_block_num :: u64
  dl_target_final_block_num :: u64
  dl_estimated_top_block_num :: u64

definition trusted_len :: u64 where "trusted_len = 90000"

definition linear_target_final_block_num :: "u64 \<Rightarrow> u64" where
  "linear_target_final_block_num estimated_top_block_num =
     (if estimated_top_block_num > trusted_len then align_block_num_to_slice_start (estimated_top_block_num - trusted_len) else 0)"

definition limited_final_block_num :: "u64 \<Rightarrow> u64 \<Rightarrow> nat \<Rightarrow> u64" where
  "limited_final_block_num target start_block_num max_blocks_count =
     min target (align_block_num_to_slice_start (start_block_num + of_nat max_blocks_count))"

text \<open>\<open>DownloaderLinear::run\<close> up to its loop: an error, a report when there is nothing to do, or the state the loop starts from.\<close>

definition DownloaderLinear_begin ::
  "nat \<Rightarrow> nat \<Rightarrow> u64 \<Rightarrow> nat \<Rightarrow> u64 \<Rightarrow> HeaderDb \<Rightarrow> (string + (DownloaderLinearReport + linear_state)) option" where
  "DownloaderLinear_begin header_size mem_limit start_block_num max_blocks_count estimated_top_block_num db =
     (if \<not> is_block_num_aligned_to_slice_start start_block_num then Some (Inl ''expected an aligned start block'')
      else
        let target_final_block_num = linear_target_final_block_num estimated_top_block_num;
            final_block_num = limited_final_block_num target_final_block_num start_block_num max_blocks_count;
            parent = (if start_block_num > 0 then load_canonical_header_by_num (start_block_num - 1) db else None)
        in if start_block_num \<ge> final_block_num
           then Some (Inr (Inl \<lparr>dl_loaded_count = 0, dl_final_block_num = start_block_num,
             dl_target_final_block_num = target_final_block_num, dl_estimated_top_block_num = estimated_top_block_num\<rparr>))
           else if start_block_num > 0 \<and> parent = None then Some (Inl ''expected a saved parent header'')
           else do {
             w \<leftarrow> HeaderSlices_new header_size mem_limit start_block_num final_block_num;
             v \<leftarrow> VerifyLinkLinearStage_new w parent SliceInvalid;
             Some (Inr (Inr \<lparr>ln_window = w, ln_link = v, ln_request_id = 0, ln_db = db\<rparr>)) })"

definition DownloaderLinear_report :: "u64 \<Rightarrow> u64 \<Rightarrow> linear_state \<Rightarrow> DownloaderLinearReport" where
  "DownloaderLinear_report start_block_num estimated_top_block_num x = \<lparr>
     dl_loaded_count = unat (min_block_num (ln_window x) - start_block_num),
     dl_final_block_num = min_block_num (ln_window x),
     dl_target_final_block_num = linear_target_final_block_num estimated_top_block_num,
     dl_estimated_top_block_num = estimated_top_block_num\<rparr>"

text \<open>One execution of one of the stages. The stages run in parallel, so any may be next.\<close>

inductive linear_step :: "chain_rules \<Rightarrow> linear_state \<Rightarrow> linear_state \<Rightarrow> bool" for R where
  FetchRequest: "request_pending send HEADER_SLICE_SIZE now (ln_request_id x) (ln_window x) = (r, request_id, w) \<Longrightarrow>
    linear_step R x (x\<lparr>ln_window := w, ln_request_id := request_id\<rparr>)"
| FetchReceive: "linear_step R x (x\<lparr>ln_window := on_headers_message headers peer (ln_window x)\<rparr>)"
| Retry: "linear_step R x (x\<lparr>ln_window := retry_pending now (ln_window x)\<rparr>)"
| VerifySlices: "verify_slices_pending (cr_lib R) (cr_verifier R) (cr_chain_spec R) time num_cpus (ln_window x) = Some w \<Longrightarrow>
    linear_step R x (x\<lparr>ln_window := w\<rparr>)"
| VerifyLink: "link_execute R (ln_link x, ln_window x) = Some (v, w) \<Longrightarrow> linear_step R x (x\<lparr>ln_window := w, ln_link := v\<rparr>)"
| Penalize: "penalize_execute penalize_peer (ln_window x) = (q, w) \<Longrightarrow> linear_step R x (x\<lparr>ln_window := w\<rparr>)"
| Save: "save_execute (cr_lib R) SaveMonotonic True (ln_db x, ln_window x) = (s, db, w) \<Longrightarrow>
    linear_step R x (x\<lparr>ln_window := w, ln_db := db\<rparr>)"
| Refill: "linear_step R x (x\<lparr>ln_window := refill_pending (ln_window x)\<rparr>)"

definition ethash_rules :: "header_lib \<Rightarrow> ChainSpec \<Rightarrow> h256 \<Rightarrow> chain_rules" where
  "ethash_rules L spec genesis =
     \<lparr>cr_lib = L, cr_verifier = make_ethash_verifier, cr_chain_spec = spec, cr_genesis_block_hash = genesis\<rparr>"

section \<open>The window during the download\<close>

fun slices_at :: "nat \<Rightarrow> HeaderSlice list \<Rightarrow> bool" where
  "slices_at n [] = True"
| "slices_at n (s # ss) = (unat (sl_start_block_num s) = n \<and> slices_at (n + HEADER_SLICE_SIZE) ss)"

lemma slices_at_append [simp]:
  "slices_at n (ss @ ss') \<longleftrightarrow> slices_at n ss \<and> slices_at (n + HEADER_SLICE_SIZE * length ss) ss'"
  by (induction ss arbitrary: n) (auto simp: algebra_simps)

lemma slices_at_map:
  "(\<And>i. i < k \<Longrightarrow> unat (f i) = n + i * HEADER_SLICE_SIZE) \<Longrightarrow> slices_at n (map (\<lambda>i. empty_slice (f i)) [0..<k])"
  by (induction k) (auto simp: empty_slice_def algebra_simps)

lemma slices_at_starts:
  "map sl_start_block_num ss = map sl_start_block_num ss' \<Longrightarrow> slices_at n ss = slices_at n ss'"
proof (induction ss arbitrary: n ss')
  case (Cons s ss)
  then obtain s' ss'' where "ss' = s' # ss''" by (cases ss') auto
  with Cons show ?case by auto
qed auto

definition slice_headers :: "HeaderSlice \<Rightarrow> SliceHeader list" where
  "slice_headers s = (case sl_headers s of Some headers \<Rightarrow> headers | None \<Rightarrow> [])"

definition full_slice :: "HeaderSlice \<Rightarrow> bool" where
  "full_slice s \<longleftrightarrow> sl_headers s \<noteq> None \<and> length (slice_headers s) = HEADER_SLICE_SIZE"

definition unsaved_headers :: "HeaderSlice list \<Rightarrow> SliceHeader list" where
  "unsaved_headers vs = concat (map slice_headers vs)"

lemma unsaved_headers_simps [simp]:
  "unsaved_headers [] = []"
  "unsaved_headers (s # vs) = slice_headers s @ unsaved_headers vs"
  "unsaved_headers (vs @ vs') = unsaved_headers vs @ unsaved_headers vs'"
  by (simp_all add: unsaved_headers_def)

lemma length_unsaved: "\<forall>s \<in> set vs. full_slice s \<Longrightarrow> length (unsaved_headers vs) = HEADER_SLICE_SIZE * length vs"
  by (induction vs) (auto simp: full_slice_def)

text \<open>The window from block \<open>base\<close>: saved slices, then linked ones, then all the others.\<close>

definition window_ok ::
  "header_lib \<Rightarrow> u64 \<Rightarrow> nat \<Rightarrow> HeaderSlice list \<Rightarrow> HeaderSlice list \<Rightarrow> HeaderSlice list \<Rightarrow> HeaderSlices \<Rightarrow> bool" where
  "window_ok L fin base ss vs us w \<longleftrightarrow> hs_slices w = ss @ vs @ us
     \<and> (\<forall>s \<in> set ss. sl_status s = SliceSaved)
     \<and> (\<forall>s \<in> set vs. sl_status s = SliceVerified \<and> full_slice s)
     \<and> (\<forall>s \<in> set us. \<not> is_canonical_slice_status (sl_status s) \<and> slice_ok L s)
     \<and> slices_at base (hs_slices w) \<and> base + HEADER_SLICE_SIZE * length (hs_slices w) = unat (hs_max_block_num w)
     \<and> unat (hs_max_block_num w) \<le> unat (hs_final_block_num w)
     \<and> HEADER_SLICE_SIZE dvd unat (hs_max_block_num w) \<and> HEADER_SLICE_SIZE dvd unat (hs_final_block_num w) \<and> counts_ok w
     \<and> hs_final_block_num w = fin"

text \<open>The chain from \<open>lo\<close>: saved below \<open>m\<close>, linked in memory from there, with the stage that links slices at its tip.\<close>

definition tip_ok :: "header_lib \<Rightarrow> h256 option \<Rightarrow> nat \<Rightarrow> SliceHeader list \<Rightarrow> VerifyLinkLinearStage \<Rightarrow> bool" where
  "tip_ok L prev m hs v \<longleftrightarrow> m + length hs = 0
     \<or> (\<exists>h. vl_last_verified_header v = Some h \<and> Suc (unat (sh_number h)) = m + length hs \<and> last_hash L prev hs = Some (sh_hash L h))"

definition chain_ok ::
  "header_lib \<Rightarrow> h256 \<Rightarrow> nat \<Rightarrow> HeaderDb \<Rightarrow> nat \<Rightarrow> HeaderSlice list \<Rightarrow> VerifyLinkLinearStage \<Rightarrow> HeaderDb \<Rightarrow> bool" where
  "chain_ok L genesis lo db0 m vs v db \<longleftrightarrow> lo \<le> m \<and> saved_chain L genesis lo m db
     \<and> (\<forall>k < lo. canonical_at db k = canonical_at db0 k)
     \<and> chained L genesis (canonical_at db (m - 1)) m (unsaved_headers vs)
     \<and> tip_ok L (canonical_at db (m - 1)) m (unsaved_headers vs) v \<and> vl_invalid_status v = SliceInvalid"

definition linear_inv :: "chain_rules \<Rightarrow> u64 \<Rightarrow> nat \<Rightarrow> HeaderDb \<Rightarrow> linear_state \<Rightarrow> bool" where
  "linear_inv R fin lo db0 x \<longleftrightarrow> (\<exists>base ss vs us. window_ok (cr_lib R) fin base ss vs us (ln_window x) \<and> lo \<le> base
     \<and> chain_ok (cr_lib R) (cr_genesis_block_hash R) lo db0 (base + HEADER_SLICE_SIZE * length ss) vs (ln_link x) (ln_db x))"

lemma linear_invI:
  "window_ok (cr_lib R) fin base ss vs us (ln_window x) \<Longrightarrow> lo \<le> base \<Longrightarrow>
   chain_ok (cr_lib R) (cr_genesis_block_hash R) lo db0 (base + HEADER_SLICE_SIZE * length ss) vs (ln_link x) (ln_db x) \<Longrightarrow>
   linear_inv R fin lo db0 x"
  by (auto simp: linear_inv_def)

lemma window_okD:
  assumes "window_ok L fin base ss vs us w"
  shows "hs_slices w = ss @ vs @ us" "\<And>s. s \<in> set ss \<Longrightarrow> sl_status s = SliceSaved"
    "\<And>s. s \<in> set vs \<Longrightarrow> sl_status s = SliceVerified \<and> full_slice s"
    "\<And>s. s \<in> set us \<Longrightarrow> \<not> is_canonical_slice_status (sl_status s) \<and> slice_ok L s"
    "slices_at base (ss @ vs @ us)" "base + HEADER_SLICE_SIZE * length (ss @ vs @ us) = unat (hs_max_block_num w)"
    "unat (hs_max_block_num w) \<le> unat (hs_final_block_num w)"
    "HEADER_SLICE_SIZE dvd unat (hs_max_block_num w)" "HEADER_SLICE_SIZE dvd unat (hs_final_block_num w)" "counts_ok w"
    "hs_final_block_num w = fin"
  using assms by (auto simp: window_ok_def)

lemma window_ok_min: "window_ok L fin base ss vs us w \<Longrightarrow> unat (min_block_num w) = base"
proof -
  assume "window_ok L fin base ss vs us w"
  then have "slices_at base (hs_slices w)" "base + HEADER_SLICE_SIZE * length (hs_slices w) = unat (hs_max_block_num w)"
    unfolding window_ok_def by blast+
  then show ?thesis by (cases "hs_slices w") (simp_all add: min_block_num_def)
qed

subsection \<open>Stages before linking\<close>

lemma calm_canonical:
  "list_all2 (calm_slice L) ss ss' \<Longrightarrow> \<forall>s \<in> set ss. is_canonical_slice_status (sl_status s) \<Longrightarrow> ss' = ss"
  by (induction rule: list_all2_induct) (auto simp: calm_slice_def)

lemma calm_slice_other:
  "calm_slice L s s' \<Longrightarrow> \<not> is_canonical_slice_status (sl_status s) \<and> slice_ok L s \<Longrightarrow>
   (\<not> is_canonical_slice_status (sl_status s') \<and> slice_ok L s') \<and> sl_start_block_num s' = sl_start_block_num s"
  unfolding calm_slice_def by blast

lemma calm_others:
  assumes "list_all2 (calm_slice L) us us'" "\<forall>s \<in> set us. \<not> is_canonical_slice_status (sl_status s) \<and> slice_ok L s"
  shows "(\<forall>s \<in> set us'. \<not> is_canonical_slice_status (sl_status s) \<and> slice_ok L s)
   \<and> map sl_start_block_num us' = map sl_start_block_num us"
  using assms
proof (induction us us' rule: list_all2_induct)
  case (Cons s us s' us')
  have us: "\<forall>s \<in> set us. \<not> is_canonical_slice_status (sl_status s) \<and> slice_ok L s" using Cons.prems by simp
  have s: "\<not> is_canonical_slice_status (sl_status s) \<and> slice_ok L s" using Cons.prems by simp
  show ?case using Cons.IH [OF us] calm_slice_other [OF Cons.hyps(1) s] by simp
qed simp

lemma window_ok_quiet:
  assumes "window_ok L fin base ss vs us w" "calm L w w'"
  shows "\<exists>us'. window_ok L fin base ss vs us' w'"
proof -
  note w = window_okD [OF assms(1)]
  from assms(2) have q: "list_all2 (calm_slice L) ((ss @ vs) @ us) (hs_slices w')" "hs_max_slices w' = hs_max_slices w"
    "hs_max_block_num w' = hs_max_block_num w" "hs_final_block_num w' = hs_final_block_num w" "counts_ok w'"
    using w(10) by (auto simp: calm_def w(1))
  from q(1) obtain cs us' where s: "hs_slices w' = cs @ us'" "list_all2 (calm_slice L) (ss @ vs) cs" "list_all2 (calm_slice L) us us'"
    unfolding list_all2_append1 by auto
  have cs: "cs = ss @ vs" by (rule calm_canonical [OF s(2)]) (use w(2,3) in \<open>auto simp: is_canonical_slice_status_def\<close>)
  have us: "\<forall>s \<in> set us'. \<not> is_canonical_slice_status (sl_status s) \<and> slice_ok L s" "map sl_start_block_num us' = map sl_start_block_num us"
    using calm_others [OF s(3)] w(4) by auto
  have "slices_at base (ss @ vs @ us')" "length us' = length us"
    using w(5) slices_at_starts [OF us(2)] list_all2_lengthD [OF s(3)] by simp_all
  then have "window_ok L fin base ss vs us' w'"
    using w q us(1) s(1) cs unfolding window_ok_def by simp
  then show ?thesis by blast
qed

lemma linear_inv_quiet:
  assumes "linear_inv R fin lo db0 x" "calm (cr_lib R) (ln_window x) w"
  shows "linear_inv R fin lo db0 (x\<lparr>ln_window := w\<rparr>)"
proof -
  from assms(1) obtain base ss vs us where i: "window_ok (cr_lib R) fin base ss vs us (ln_window x)" "lo \<le> base"
    "chain_ok (cr_lib R) (cr_genesis_block_hash R) lo db0 (base + HEADER_SLICE_SIZE * length ss) vs (ln_link x) (ln_db x)"
    by (auto simp: linear_inv_def)
  from window_ok_quiet [OF i(1) assms(2)] obtain us' where "window_ok (cr_lib R) fin base ss vs us' w" by blast
  with i(2,3) show ?thesis by (intro linear_invI [of R fin base ss vs us']) simp_all
qed

subsection \<open>Linking\<close>

lemma find_slice_skip:
  "\<forall>s \<in> set xs. \<not> p s \<Longrightarrow> find_slice p (xs @ ys) = map_option ((+) (length xs)) (find_slice p ys)"
  by (induction xs; cases "find_slice p ys") simp_all

lemma link_next:
  assumes "window_ok L fin base ss vs us w" "link_find_next_pending w = Some i"
  obtains s us' where "us = s # us'" "i = length (ss @ vs)" "sl_status s = SliceVerifiedInternally" "hs_slices w ! i = s"
proof -
  note w = window_okD [OF assms(1)]
  have "find_slice (\<lambda>s. \<not> is_canonical_slice_status (sl_status s)) (hs_slices w)
      = map_option ((+) (length (ss @ vs))) (find_slice (\<lambda>s. \<not> is_canonical_slice_status (sl_status s)) us)"
    unfolding w(1) append_assoc [symmetric] by (rule find_slice_skip) (use w(2,3) in \<open>auto simp: is_canonical_slice_status_def\<close>)
  moreover obtain s us' where us: "us = s # us'" using calculation assms(2) by (cases us) (auto simp: link_find_next_pending_def)
  moreover have "\<not> is_canonical_slice_status (sl_status s)" using w(4) us by simp
  ultimately have "i = length (ss @ vs)" "sl_status (hs_slices w ! i) = SliceVerifiedInternally"
    using assms(2) by (auto simp: link_find_next_pending_def split: if_splits)
  moreover have "hs_slices w ! length (ss @ vs) = s" using w(1) us by (simp add: nth_append)
  ultimately show thesis using that us by simp
qed

lemma window_ok_start:
  assumes "window_ok L fin base ss vs (s # us) w"
  shows "unat (sl_start_block_num s) = base + HEADER_SLICE_SIZE * length ss + length (unsaved_headers vs)"
    "unat (sl_start_block_num s) + HEADER_SLICE_SIZE \<le> 2 ^ 64"
proof -
  note w = window_okD [OF assms]
  have len: "length (unsaved_headers vs) = HEADER_SLICE_SIZE * length vs" using w(3) by (intro length_unsaved) blast
  show start: "unat (sl_start_block_num s) = base + HEADER_SLICE_SIZE * length ss + length (unsaved_headers vs)"
    using w(5) len by simp
  show "unat (sl_start_block_num s) + HEADER_SLICE_SIZE \<le> 2 ^ 64"
    using w(6) unat_u64 [of "hs_max_block_num w"] start len by (simp add: algebra_simps)
qed

lemma window_ok_linked:
  assumes "window_ok L fin base ss vs (s # us) w" "full_slice s"
  shows "window_ok L fin base ss (vs @ [s\<lparr>sl_status := SliceVerified\<rparr>]) us (set_slice_status (length (ss @ vs)) SliceVerified w)"
proof -
  note w = window_okD [OF assms(1)]
  have "length (ss @ vs) < length (hs_slices w)" using w(1) by simp
  then have c: "counts_ok (set_slice_status (length (ss @ vs)) SliceVerified w)" by (rule counts_ok_set_status [OF w(10)])
  have sl: "hs_slices (set_slice_status (length (ss @ vs)) SliceVerified w) = ss @ (vs @ [s\<lparr>sl_status := SliceVerified\<rparr>]) @ us"
    using w(1) by (simp add: nth_append list_update_append)
  have at: "slices_at base (ss @ (vs @ [s\<lparr>sl_status := SliceVerified\<rparr>]) @ us)" using w(5) by simp
  have full: "full_slice (s\<lparr>sl_status := SliceVerified\<rparr>)" using assms(2) by (simp add: full_slice_def slice_headers_def)
  show ?thesis
    unfolding window_ok_def sl using w(2-4,6-9,11) c at full by auto
qed

lemma linked_slice_chained:
  assumes "window_ok L fin base ss vs (s # us) w" "chain_ok L genesis lo db0 (base + HEADER_SLICE_SIZE * length ss) vs v db"
    and "sl_headers s = Some hs" "length hs = HEADER_SLICE_SIZE" "sl_status s = SliceVerifiedInternally"
    and "sh_number (hd hs) = 0 \<Longrightarrow> sh_hash L (hd hs) = genesis"
    and "\<And>h. sh_number (hd hs) \<noteq> 0 \<Longrightarrow> vl_last_verified_header v = Some h \<Longrightarrow> bh_parent_hash (sh_header (hd hs)) = sh_hash L h"
  shows "chain_ok L genesis lo db0 (base + HEADER_SLICE_SIZE * length ss) (vs @ [s\<lparr>sl_status := SliceVerified\<rparr>])
    (v\<lparr>vl_last_verified_header := Some (last hs)\<rparr>) db"
proof -
  let ?m = "base + HEADER_SLICE_SIZE * length ss" and ?U = "unsaved_headers vs"
  let ?prev = "canonical_at db (?m - 1)"
  note start = window_ok_start [OF assms(1)]
  have ok: "slice_ok L s" using window_okD(4) [OF assms(1)] by simp
  then have run: "run_ok L (sl_start_block_num s) hs" and caches: "list_all (caches_ok L) hs"
    using assms(3,5) by (auto simp: slice_ok_def)
  have ne: "hs \<noteq> []" using assms(4) by (auto simp: HEADER_SLICE_SIZE_def)
  then have num: "sh_number (hd hs) = sl_start_block_num s" using run by (simp add: run_ok_def verify_slice_block_nums_def)
  have tip: "tip_ok L ?prev ?m ?U v" and U: "chained L genesis ?prev ?m ?U" using assms(2) by (simp_all add: chain_ok_def)
  have first: "if unat (sl_start_block_num s) = 0 then sh_hash L (hd hs) = genesis
      else last_hash L ?prev ?U = Some (bh_parent_hash (sh_header (hd hs)))"
  proof (cases "unat (sl_start_block_num s) = 0")
    case True
    with assms(6) num show ?thesis by (simp add: unat_eq_zero)
  next
    case False
    with tip start(1) obtain h where "vl_last_verified_header v = Some h" "last_hash L ?prev ?U = Some (sh_hash L h)"
      by (auto simp: tip_ok_def)
    with assms(7) num False show ?thesis by (simp add: unat_eq_zero)
  qed
  have "chained L genesis (last_hash L ?prev ?U) (unat (sl_start_block_num s)) hs"
    by (rule run_ok_chained [OF run caches]) (use first start(2) assms(4) in auto)
  then have chained: "chained L genesis ?prev ?m (?U @ hs)" using U start(1) by simp
  then have "Suc (unat (sh_number (last hs))) = ?m + length (?U @ hs)" using chained_last_number [OF chained] ne by simp
  moreover have "last_hash L ?prev (?U @ hs) = Some (sh_hash L (last hs))" using ne by (simp add: last_hash_def)
  moreover have "slice_headers (s\<lparr>sl_status := SliceVerified\<rparr>) = hs" using assms(3) by (simp add: slice_headers_def)
  ultimately show ?thesis using assms(2) chained by (simp add: chain_ok_def tip_ok_def)
qed

context slice_verifier
begin

lemma link_slice:
  assumes w: "window_ok (cr_lib R) fin base ss vs us w"
    and c: "chain_ok (cr_lib R) (cr_genesis_block_hash R) lo db0 (base + HEADER_SLICE_SIZE * length ss) vs v db"
    and "link_find_next_pending w = Some i" "verify_pending_slice R i (v, w) = Some (b, v', w')" "cr_verifier R = vf"
  shows "\<exists>vs' us'. window_ok (cr_lib R) fin base ss vs' us' w'
    \<and> chain_ok (cr_lib R) (cr_genesis_block_hash R) lo db0 (base + HEADER_SLICE_SIZE * length ss) vs' v' db"
proof -
  from w assms(3) obtain s us' where s: "us = s # us'" "i = length (ss @ vs)" "sl_status s = SliceVerifiedInternally" "hs_slices w ! i = s"
    by (rule link_next)
  from assms(4) obtain ok where ok: "verify_slice_link R s (vl_last_verified_header v) = Some ok"
    using s(4) by (auto simp: verify_pending_slice_def Option.bind_eq_Some_conv)
  show ?thesis
  proof (cases ok)
    case True
    with ok obtain hs where hs: "sl_headers s = Some hs" "hs \<noteq> []" "length hs = HEADER_SLICE_SIZE"
      "sh_number (hd hs) = 0 \<Longrightarrow> sh_hash (cr_lib R) (hd hs) = cr_genesis_block_hash R"
      "\<And>h. sh_number (hd hs) \<noteq> 0 \<Longrightarrow> vl_last_verified_header v = Some h \<Longrightarrow>
        vf_verify_link vf (cr_lib R) (hd hs) h (cr_chain_spec R) = Some True"
      using assms(5) by (auto simp: verify_slice_link_def split: option.splits if_splits)
    have "full_slice s" using hs by (simp add: full_slice_def slice_headers_def)
    from window_ok_linked [OF w [unfolded s(1)] this]
    have w': "window_ok (cr_lib R) fin base ss (vs @ [s\<lparr>sl_status := SliceVerified\<rparr>]) us' (set_slice_status i SliceVerified w)"
      by (simp only: s(2))
    have i: "i < length (hs_slices w)" using s(1,2) window_okD(1) [OF w] by simp
    have "v' = v\<lparr>vl_last_verified_header := Some (last hs)\<rparr>" "w' = set_slice_status i SliceVerified w"
      using assms(4) ok True s(4) hs(1,2) i by (auto simp: verify_pending_slice_def Let_def Option.bind_eq_Some_conv)
    moreover have "chain_ok (cr_lib R) (cr_genesis_block_hash R) lo db0 (base + HEADER_SLICE_SIZE * length ss)
        (vs @ [s\<lparr>sl_status := SliceVerified\<rparr>]) (v\<lparr>vl_last_verified_header := Some (last hs)\<rparr>) db"
    proof (rule linked_slice_chained [OF w [unfolded s(1)] c hs(1,3) s(3) hs(4)])
      fix h
      assume "sh_number (hd hs) \<noteq> 0" "vl_last_verified_header v = Some h"
      then have "vf_verify_link vf (cr_lib R) (hd hs) h (cr_chain_spec R) = Some True" by (rule hs(5))
      from link [OF this] show "bh_parent_hash (sh_header (hd hs)) = sh_hash (cr_lib R) h" by simp
    qed
    ultimately show ?thesis using w' by auto
  next
    case False
    have i: "i < length (hs_slices w)" using s(1,2) window_okD(1) [OF w] by simp
    have inv: "vl_invalid_status v = SliceInvalid" using c by (simp add: chain_ok_def)
    have "v' = v" "w' = set_slice_status i SliceInvalid w"
      using assms(4) ok False s(4) inv by (auto simp: verify_pending_slice_def Let_def Option.bind_eq_Some_conv)
    moreover have "calm (cr_lib R) w (set_slice_status i SliceInvalid w)"
      by (rule calm_status [OF i]) (use s(3,4) in \<open>auto intro!: calm_sliceI simp: is_canonical_slice_status_def slice_ok_def\<close>)
    ultimately show ?thesis using window_ok_quiet [OF w] c by blast
  qed
qed

lemma link_monotonic:
  assumes "link_pending_monotonic R n (v, w) = Some (k, v', w')" "cr_verifier R = vf"
    and "window_ok (cr_lib R) fin base ss vs us w"
    and "chain_ok (cr_lib R) (cr_genesis_block_hash R) lo db0 (base + HEADER_SLICE_SIZE * length ss) vs v db"
  shows "\<exists>vs' us'. window_ok (cr_lib R) fin base ss vs' us' w'
    \<and> chain_ok (cr_lib R) (cr_genesis_block_hash R) lo db0 (base + HEADER_SLICE_SIZE * length ss) vs' v' db"
  using assms(1,3,4)
proof (induction n arbitrary: v w vs us k)
  case 0
  then show ?case by auto
next
  case (Suc n)
  show ?case
  proof (cases "link_find_next_pending w")
    case None
    with Suc.prems show ?thesis by auto
  next
    case (Some i)
    with Suc.prems(1) obtain b v1 w1 where p: "verify_pending_slice R i (v, w) = Some (b, v1, w1)"
      by (auto simp: Option.bind_eq_Some_conv)
    from link_slice [OF Suc.prems(2,3) Some p assms(2)] obtain vs1 us1 where
      i: "window_ok (cr_lib R) fin base ss vs1 us1 w1"
        "chain_ok (cr_lib R) (cr_genesis_block_hash R) lo db0 (base + HEADER_SLICE_SIZE * length ss) vs1 v1 db"
      by blast
    show ?thesis
    proof (cases b)
      case True
      with Suc.prems(1) Some p obtain k' where "link_pending_monotonic R n (v1, w1) = Some (k', v', w')"
        by (auto simp: Option.bind_eq_Some_conv)
      from Suc.IH [OF this i] show ?thesis .
    next
      case False
      with Suc.prems(1) Some p i show ?thesis by auto
    qed
  qed
qed

lemma link_keeps:
  assumes "linear_inv R fin lo db0 x" "link_execute R (ln_link x, ln_window x) = Some (v, w)" "cr_verifier R = vf"
  shows "linear_inv R fin lo db0 (x\<lparr>ln_window := w, ln_link := v\<rparr>)"
proof -
  from assms(1) obtain base ss vs us where i: "window_ok (cr_lib R) fin base ss vs us (ln_window x)" "lo \<le> base"
    "chain_ok (cr_lib R) (cr_genesis_block_hash R) lo db0 (base + HEADER_SLICE_SIZE * length ss) vs (ln_link x) (ln_db x)"
    by (auto simp: linear_inv_def)
  from assms(2) obtain n k v1 where l: "link_pending_monotonic R n (ln_link x, ln_window x) = Some (k, v1, w)"
    "v = v1\<lparr>vl_remaining_count := n - k\<rparr>"
    by (auto simp: link_execute_def Let_def Option.bind_eq_Some_conv)
  from link_monotonic [OF l(1) assms(3) i(1,3)] obtain vs' us' where
    "window_ok (cr_lib R) fin base ss vs' us' w"
    "chain_ok (cr_lib R) (cr_genesis_block_hash R) lo db0 (base + HEADER_SLICE_SIZE * length ss) vs' v1 (ln_db x)" by blast
  then show ?thesis using i(2) l(2)
    by (intro linear_invI [of R fin base ss vs' us']) (simp_all add: chain_ok_def tip_ok_def)
qed

end

subsection \<open>Saving\<close>

lemma save_next:
  assumes "window_ok L fin base ss vs us w" "save_find_next_pending w = Some i"
  obtains s vs' where "vs = s # vs'" "i = length ss" "hs_slices w ! i = s"
proof -
  note w = window_okD [OF assms(1)]
  have f: "find_slice (\<lambda>s. sl_status s \<noteq> SliceSaved) (hs_slices w)
      = map_option ((+) (length ss)) (find_slice (\<lambda>s. sl_status s \<noteq> SliceSaved) (vs @ us))"
    unfolding w(1) by (rule find_slice_skip) (use w(2) in auto)
  have "vs \<noteq> []"
  proof
    assume vs: "vs = []"
    obtain j where "find_slice (\<lambda>s. sl_status s \<noteq> SliceSaved) us = Some j" "sl_status (hs_slices w ! (length ss + j)) = SliceVerified"
      using f assms(2) vs by (auto simp: save_find_next_pending_def split: option.splits if_splits)
    then have "j < length us" "sl_status (us ! j) = SliceVerified" using find_slice_Some w(1) vs by (auto simp: nth_append)
    then show False using w(4) [of "us ! j"] by (auto simp: is_canonical_slice_status_def)
  qed
  then obtain s vs' where vs: "vs = s # vs'" by (cases vs) auto
  then have "sl_status s = SliceVerified" using w(3) by simp
  then have "i = length ss" using f assms(2) vs by (auto simp: save_find_next_pending_def split: if_splits)
  then show thesis using that vs w(1) by simp
qed

lemma save_headers_below:
  "chained L genesis prev n hs \<Longrightarrow> k < n \<Longrightarrow> canonical_at (save_headers L b hs db) k = canonical_at db k"
proof (induction hs arbitrary: prev n db)
  case (Cons h hs)
  have "canonical_at (save_headers L b hs (save_header L b h db)) k = canonical_at (save_header L b h db) k"
    by (rule Cons.IH [of "Some (sh_hash L h)" "Suc n"]) (use Cons.prems in simp_all)
  also have "\<dots> = canonical_at db k"
    unfolding canonical_at_def by (rule save_header_other, rule below_number) (use Cons.prems in simp)
  finally show ?case by (simp add: save_headers_def)
qed (simp add: save_headers_def)

lemma window_ok_saved:
  assumes "window_ok L fin base ss (s # vs) us w"
  shows "window_ok L fin base (ss @ [s\<lparr>sl_status := SliceSaved\<rparr>]) vs us (set_slice_status (length ss) SliceSaved w)"
proof -
  note w = window_okD [OF assms]
  have "length ss < length (hs_slices w)" using w(1) by simp
  then have c: "counts_ok (set_slice_status (length ss) SliceSaved w)" by (rule counts_ok_set_status [OF w(10)])
  have sl: "hs_slices (set_slice_status (length ss) SliceSaved w) = (ss @ [s\<lparr>sl_status := SliceSaved\<rparr>]) @ vs @ us"
    using w(1) by simp
  have at: "slices_at base ((ss @ [s\<lparr>sl_status := SliceSaved\<rparr>]) @ vs @ us)" using w(5) by simp
  show ?thesis unfolding window_ok_def sl using w(2-4,6-9,11) c at by auto
qed

lemma chain_ok_saved:
  assumes "chain_ok L genesis lo db0 m (s # vs) v db" "sl_headers s = Some hs"
  shows "chain_ok L genesis lo db0 (m + length hs) vs v (save_headers L True hs db)"
proof -
  let ?prev = "canonical_at db (m - 1)" and ?db = "save_headers L True hs db"
  have c: "lo \<le> m" "saved_chain L genesis lo m db" "chained L genesis ?prev m hs"
    "chained L genesis (last_hash L ?prev hs) (m + length hs) (unsaved_headers vs)"
    "tip_ok L ?prev m (hs @ unsaved_headers vs) v" "vl_invalid_status v = SliceInvalid"
    "\<And>k. k < lo \<Longrightarrow> canonical_at db k = canonical_at db0 k"
    using assms by (auto simp: chain_ok_def slice_headers_def)
  note saved = save_headers_chain [OF c(3,2,1)]
  have "canonical_at ?db k = canonical_at db0 k" if "k < lo" for k
    using save_headers_below [OF c(3), of k] c(1,7) that by simp
  then show ?thesis using c saved by (simp add: chain_ok_def tip_ok_def add.assoc)
qed

lemma save_monotonic:
  assumes "save_pending_loop L True save_find_next_pending n (db, w) = (r, db', w')"
    and "window_ok L fin base ss vs us w" "chain_ok L genesis lo db0 (base + HEADER_SLICE_SIZE * length ss) vs v db"
  shows "\<exists>ss' vs'. window_ok L fin base ss' vs' us w' \<and> chain_ok L genesis lo db0 (base + HEADER_SLICE_SIZE * length ss') vs' v db'"
  using assms
proof (induction n arbitrary: db w ss vs r)
  case (Suc n)
  show ?case
  proof (cases "save_find_next_pending w")
    case None
    with Suc.prems show ?thesis by auto
  next
    case (Some i)
    from Suc.prems(2) Some obtain s vs' where s: "vs = s # vs'" "i = length ss" "hs_slices w ! i = s" by (rule save_next)
    have "full_slice s" using window_okD(3) [OF Suc.prems(2), of s] s(1) by simp
    then obtain hs where hs: "sl_headers s = Some hs" "length hs = HEADER_SLICE_SIZE"
      by (auto simp: full_slice_def slice_headers_def)
    let ?db = "save_headers L True hs db" and ?w = "set_slice_status i SliceSaved w" and ?s = "s\<lparr>sl_status := SliceSaved\<rparr>"
    obtain r' where rec: "save_pending_loop L True save_find_next_pending n (?db, ?w) = (r', db', w')"
      using Suc.prems(1) Some s(3) hs(1) by (auto simp: save_slice_def split: prod.splits)
    have "window_ok L fin base (ss @ [?s]) vs' us ?w" using window_ok_saved Suc.prems(2) s(1,2) by simp
    moreover have "chain_ok L genesis lo db0 (base + HEADER_SLICE_SIZE * length (ss @ [?s])) vs' v ?db"
      using chain_ok_saved [OF Suc.prems(3) [unfolded s(1)] hs(1)] hs(2) by (simp add: algebra_simps)
    ultimately show ?thesis by (rule Suc.IH [OF rec])
  qed
qed auto

lemma save_keeps:
  assumes "linear_inv R fin lo db0 x" "save_execute (cr_lib R) SaveMonotonic True (ln_db x, ln_window x) = (r, db, w)"
  shows "linear_inv R fin lo db0 (x\<lparr>ln_window := w, ln_db := db\<rparr>)"
proof -
  from assms(1) obtain base ss vs us where i: "window_ok (cr_lib R) fin base ss vs us (ln_window x)" "lo \<le> base"
    "chain_ok (cr_lib R) (cr_genesis_block_hash R) lo db0 (base + HEADER_SLICE_SIZE * length ss) vs (ln_link x) (ln_db x)"
    by (auto simp: linear_inv_def)
  have "save_pending SaveMonotonic = save_find_next_pending" by (simp add: save_pending_def fun_eq_iff)
  with assms(2) obtain n r' where "save_pending_loop (cr_lib R) True save_find_next_pending n (ln_db x, ln_window x) = (r', db, w)"
    by (auto simp: save_execute_def Let_def split: prod.splits)
  from save_monotonic [OF this i(1,3)] obtain ss' vs' where "window_ok (cr_lib R) fin base ss' vs' us w"
    "chain_ok (cr_lib R) (cr_genesis_block_hash R) lo db0 (base + HEADER_SLICE_SIZE * length ss') vs' (ln_link x) db" by blast
  then show ?thesis using i(2) by (intro linear_invI [of R fin base ss' vs' us]) simp_all
qed

subsection \<open>Refilling\<close>

lemma window_ok_removed:
  assumes "window_ok L fin base ss vs us w"
  shows "window_ok L fin (base + HEADER_SLICE_SIZE * length ss) [] vs us (slices_remove SliceSaved w)"
proof -
  note w = window_okD [OF assms]
  have kept: "filter (\<lambda>s. sl_status s \<noteq> SliceSaved) (ss @ vs @ us) = vs @ us"
    using w(2-4) by (auto simp: filter_empty_conv is_canonical_slice_status_def intro!: filter_True)
  have c: "counts_ok (slices_remove SliceSaved w)" by (rule counts_ok_remove [OF w(10)])
  have f: "hs_slices (slices_remove SliceSaved w) = vs @ us" "hs_max_block_num (slices_remove SliceSaved w) = hs_max_block_num w"
    "hs_final_block_num (slices_remove SliceSaved w) = hs_final_block_num w"
    using w(1) kept by (simp_all add: slices_remove_def Let_def count_sub_def)
  have at: "slices_at (base + HEADER_SLICE_SIZE * length ss) (vs @ us)"
    "base + HEADER_SLICE_SIZE * length ss + HEADER_SLICE_SIZE * length (vs @ us) = unat (hs_max_block_num w)"
    using w(5,6) by (simp_all add: algebra_simps)
  show ?thesis unfolding window_ok_def f using w(3,4,7-9,11) c at by simp
qed

lemma multiple_less:
  assumes "d dvd m" "d dvd n" "m < (n :: nat)"
  shows "m + d \<le> n"
proof -
  from assms(1,2) obtain a b where "m = d * a" "n = d * b" by (auto elim!: dvdE)
  with assms(3) have "a < b" by auto
  then have "d * Suc a \<le> d * b" by (intro mult_le_mono) simp_all
  then show ?thesis using \<open>m = d * a\<close> \<open>n = d * b\<close> by simp
qed

lemma refill_bounds:
  assumes "HEADER_SLICE_SIZE dvd unat a" "HEADER_SLICE_SIZE dvd unat f" "unat a \<le> unat f"
    and "\<And>j. j < k \<Longrightarrow> a + of_nat (j * HEADER_SLICE_SIZE) < f"
  shows "j \<le> k \<Longrightarrow> unat (a + of_nat (j * HEADER_SLICE_SIZE) :: u64) = unat a + j * HEADER_SLICE_SIZE
    \<and> unat a + j * HEADER_SLICE_SIZE \<le> unat f"
proof (induction j)
  case (Suc j)
  then have IH: "unat (a + of_nat (j * HEADER_SLICE_SIZE)) = unat a + j * HEADER_SLICE_SIZE" by simp
  have "unat a + j * HEADER_SLICE_SIZE < unat f"
    using assms(4) [of j] Suc.prems unfolding word_less_nat_alt IH by simp
  moreover have "HEADER_SLICE_SIZE dvd unat a + j * HEADER_SLICE_SIZE" using assms(1) by simp
  ultimately have "unat a + j * HEADER_SLICE_SIZE + HEADER_SLICE_SIZE \<le> unat f" using assms(2) by (intro multiple_less)
  then have le: "unat a + Suc j * HEADER_SLICE_SIZE \<le> unat f" by simp
  have "a + of_nat (Suc j * HEADER_SLICE_SIZE) = of_nat (unat a + Suc j * HEADER_SLICE_SIZE)" by simp
  moreover have "unat (of_nat (unat a + Suc j * HEADER_SLICE_SIZE) :: u64) = unat a + Suc j * HEADER_SLICE_SIZE"
    by (rule u64_of_nat) (use le unat_u64 [of f] in simp)
  ultimately show ?case using le by metis
qed (use assms(3) in simp)

lemma empty_slice_ok: "\<not> is_canonical_slice_status (sl_status (empty_slice n)) \<and> slice_ok L (empty_slice n)"
  by (simp add: empty_slice_def HeaderSlice_default_def is_canonical_slice_status_def slice_ok_def)

lemma window_ok_refilled:
  assumes "window_ok L fin base [] vs us w"
  shows "\<exists>us'. window_ok L fin base [] vs us' (slices_refill w)"
proof -
  note w = window_okD [OF assms]
  obtain w' c where r: "refill_loop (hs_max_slices w - length (hs_slices w)) w 0 = (w', c)" by fastforce
  then obtain k where k: "w' = w\<lparr>hs_slices := hs_slices w @ map (\<lambda>j. empty_slice (hs_max_block_num w + of_nat (j * HEADER_SLICE_SIZE))) [0..<k],
      hs_max_block_num := hs_max_block_num w + of_nat (k * HEADER_SLICE_SIZE)\<rparr>"
    "\<And>j. j < k \<Longrightarrow> hs_max_block_num w + of_nat (j * HEADER_SLICE_SIZE) < hs_final_block_num w"
    by (rule refill_loop_cases) blast
  note bounds = refill_bounds [OF w(8,9,7) k(2)]
  let ?new = "map (\<lambda>j. empty_slice (hs_max_block_num w + of_nat (j * HEADER_SLICE_SIZE))) [0..<k]"
  have f: "hs_slices (slices_refill w) = vs @ us @ ?new"
    "hs_max_block_num (slices_refill w) = hs_max_block_num w + of_nat (k * HEADER_SLICE_SIZE)"
    "hs_final_block_num (slices_refill w) = hs_final_block_num w"
    using r k(1) w(1) by (simp_all add: slices_refill_def count_add_def)
  have "slices_at (unat (hs_max_block_num w)) ?new" by (rule slices_at_map) (use bounds [of k] in simp)
  then have at: "slices_at base (vs @ us @ ?new)" using w(5,6) by (simp add: algebra_simps)
  have b: "unat (hs_max_block_num w + of_nat (k * HEADER_SLICE_SIZE)) = unat (hs_max_block_num w) + k * HEADER_SLICE_SIZE"
    "unat (hs_max_block_num w) + k * HEADER_SLICE_SIZE \<le> unat (hs_final_block_num w)"
    using bounds [of k k] by blast+
  have "base + HEADER_SLICE_SIZE * length (vs @ us @ ?new) = unat (hs_max_block_num w + of_nat (k * HEADER_SLICE_SIZE))"
    "unat (hs_max_block_num w + of_nat (k * HEADER_SLICE_SIZE)) \<le> unat (hs_final_block_num w)"
    "HEADER_SLICE_SIZE dvd unat (hs_max_block_num w + of_nat (k * HEADER_SLICE_SIZE))"
    unfolding b(1) using b(2) w(6,8) by (simp_all add: algebra_simps)
  moreover have "\<forall>s \<in> set (us @ ?new). \<not> is_canonical_slice_status (sl_status s) \<and> slice_ok L s"
    using w(4) empty_slice_ok by auto
  ultimately have "window_ok L fin base [] vs (us @ ?new) (slices_refill w)"
    unfolding window_ok_def f using w(3,9,11) at counts_ok_refill [OF w(10)] by simp
  then show ?thesis by blast
qed

lemma refill_keeps:
  assumes "linear_inv R fin lo db0 x"
  shows "linear_inv R fin lo db0 (x\<lparr>ln_window := refill_pending (ln_window x)\<rparr>)"
proof -
  from assms obtain base ss vs us where i: "window_ok (cr_lib R) fin base ss vs us (ln_window x)" "lo \<le> base"
    "chain_ok (cr_lib R) (cr_genesis_block_hash R) lo db0 (base + HEADER_SLICE_SIZE * length ss) vs (ln_link x) (ln_db x)"
    by (auto simp: linear_inv_def)
  from window_ok_refilled [OF window_ok_removed [OF i(1)]] obtain us' where
    "window_ok (cr_lib R) fin (base + HEADER_SLICE_SIZE * length ss) [] vs us' (refill_pending (ln_window x))"
    by (auto simp: refill_pending_def)
  then show ?thesis using i(2,3) by (intro linear_invI [of R fin "base + HEADER_SLICE_SIZE * length ss" "[]" vs us']) simp_all
qed

end
