(* ===== verification/LinearSafety.thy ===== *)
theory LinearSafety
  imports LinearDownload
begin

text \<open>
  The invariant of the linear downloader holds in the state its loop starts from and is kept by every stage.
\<close>

section \<open>Every stage keeps the invariant\<close>

context slice_verifier
begin

lemma step_keeps:
  assumes "linear_step R x y" "linear_inv R fin lo db0 x" "cr_verifier R = vf"
  shows "linear_inv R fin lo db0 y"
  using assms
proof (induction rule: linear_step.induct)
  case (FetchRequest send now x r request_id w)
  then have "calm (cr_lib R) (ln_window x) w"
    using calm_request [of "cr_lib R" "ln_window x" send HEADER_SLICE_SIZE now "ln_request_id x"] by simp
  with FetchRequest.prems(1) have "linear_inv R fin lo db0 (x\<lparr>ln_window := w\<rparr>)" by (rule linear_inv_quiet)
  then show ?case using FetchRequest by (simp add: linear_inv_def)
next
  case (Penalize penalize_peer x q w)
  then show ?case using calm_penalize [of "cr_lib R" "ln_window x" penalize_peer] by (auto intro: linear_inv_quiet)
next
  case (VerifySlices time n x w)
  then show ?case by (auto intro!: linear_inv_quiet calm_verify_slices)
qed (auto intro: linear_inv_quiet calm_receive calm_retry link_keeps save_keeps refill_keeps)

lemma steps_keep:
  assumes "(linear_step R)\<^sup>*\<^sup>* x y" "linear_inv R fin lo db0 x" "cr_verifier R = vf"
  shows "linear_inv R fin lo db0 y"
  using assms by (induction rule: rtranclp_induct) (auto intro: step_keeps)

end

section \<open>The state the loop starts from\<close>

lemma aligned_dvd: "is_block_num_aligned_to_slice_start n \<longleftrightarrow> HEADER_SLICE_SIZE dvd unat n"
proof -
  have "is_block_num_aligned_to_slice_start n \<longleftrightarrow> unat (n mod 192) = 0"
    by (simp only: is_block_num_aligned_to_slice_start_def HEADER_SLICE_SIZE_def unat_eq_zero of_nat_numeral)
  then show ?thesis by (simp add: unat_mod HEADER_SLICE_SIZE_def dvd_eq_mod_eq_0)
qed

lemma empty_window:
  assumes "HeaderSlices_new header_size mem_limit start fin = Some w" "start < fin" "is_block_num_aligned_to_slice_start start"
  shows "\<exists>us. window_ok L fin (unat start) [] [] us w" "find_last_verified_header w = None"
    "s \<in> set (hs_slices w) \<Longrightarrow> sl_status s = SliceEmpty"
proof -
  define k where "k = min (estimate_max_slices_for_mem_limit header_size mem_limit)
    ((unat (fin - start) + HEADER_SLICE_SIZE - 1) div HEADER_SLICE_SIZE)"
  let ?us = "map (\<lambda>i. empty_slice (start + of_nat (i * HEADER_SLICE_SIZE))) [0..<k]"
  have new: "from_slices_vec [] (Some start) (Some k) (Some fin) = Some w" using assms(1) by (simp add: HeaderSlices_new_def Let_def k_def)
  have f: "hs_slices w = ?us" "hs_max_block_num w = start + of_nat (k * HEADER_SLICE_SIZE)" "hs_final_block_num w = fin"
    "is_block_num_aligned_to_slice_start fin"
    using new by (auto simp: from_slices_vec_def Let_def split: if_splits)
  have c: "counts_ok w" using new by (rule counts_ok_from_slices)
  have lt: "unat start < unat fin" using assms(2) by (simp add: word_less_nat_alt)
  have d: "HEADER_SLICE_SIZE dvd unat start" "HEADER_SLICE_SIZE dvd unat fin" using assms(3) f(4) by (simp_all add: aligned_dvd)
  have "unat (fin - start) = unat fin - unat start" using assms(2) by (intro unat_sub) simp
  then obtain q where q: "unat (fin - start) = HEADER_SLICE_SIZE * q" using d by (metis dvd_diff_nat dvdE)
  have "k \<le> q" unfolding k_def q by (simp add: HEADER_SLICE_SIZE_def)
  then have "k * HEADER_SLICE_SIZE \<le> unat fin - unat start"
    using q \<open>unat (fin - start) = unat fin - unat start\<close> by (simp add: mult.commute)
  then have le: "unat start + k * HEADER_SLICE_SIZE \<le> unat fin" using lt by simp
  have u: "unat (start + of_nat (j * HEADER_SLICE_SIZE)) = unat start + j * HEADER_SLICE_SIZE" if "j \<le> k" for j
  proof -
    have "unat start + j * HEADER_SLICE_SIZE \<le> unat fin" using le mult_le_mono1 [OF that, of HEADER_SLICE_SIZE] by linarith
    then have "unat start + j * HEADER_SLICE_SIZE < 2 ^ 64" using unat_u64 [of fin] by simp
    then have "unat (of_nat (unat start + j * HEADER_SLICE_SIZE) :: u64) = unat start + j * HEADER_SLICE_SIZE" by (rule u64_of_nat)
    then show ?thesis by simp
  qed
  have at: "slices_at (unat start) ?us" by (rule slices_at_map) (use u in simp)
  have us: "\<forall>s \<in> set ?us. \<not> is_canonical_slice_status (sl_status s) \<and> slice_ok L s" using empty_slice_ok by auto
  have "window_ok L fin (unat start) [] [] ?us w"
    unfolding window_ok_def f(1-3) u [OF order.refl] using at us le d c by (simp add: mult.commute)
  then show "\<exists>us. window_ok L fin (unat start) [] [] us w" by blast
  have "takeWhile (\<lambda>s. is_canonical_slice_status (sl_status s)) (hs_slices w) = []"
    unfolding f(1) takeWhile_eq_Nil_iff using empty_slice_ok by (cases k) (auto simp: upt_conv_Cons simp del: upt_Suc)
  then show "find_last_verified_header w = None" by (simp add: find_last_verified_header_def)
  show "s \<in> set (hs_slices w) \<Longrightarrow> sl_status s = SliceEmpty" by (auto simp: f(1) empty_slice_def HeaderSlice_default_def)
qed

lemma begin_state:
  assumes "DownloaderLinear_begin header_size mem_limit start max_blocks_count best db = Some (Inr (Inr x))"
  defines "fin \<equiv> limited_final_block_num (linear_target_final_block_num best) start max_blocks_count"
    and "parent \<equiv> (if start > 0 then load_canonical_header_by_num (start - 1) db else None)"
  shows "start < fin" "start > 0 \<Longrightarrow> parent \<noteq> None" "\<exists>us. window_ok L fin (unat start) [] [] us (ln_window x)"
    "vl_invalid_status (ln_link x) = SliceInvalid" "vl_last_verified_header (ln_link x) = parent"
    "parent = Some h \<Longrightarrow> sh_number h + 1 = min_block_num (ln_window x)" "ln_request_id x = 0" "ln_db x = db"
    "s \<in> set (hs_slices (ln_window x)) \<Longrightarrow> sl_status s = SliceEmpty"
proof -
  from assms obtain w v where b: "is_block_num_aligned_to_slice_start start" "start < fin" "start > 0 \<Longrightarrow> parent \<noteq> None"
    "HeaderSlices_new header_size mem_limit start fin = Some w" "VerifyLinkLinearStage_new w parent SliceInvalid = Some v"
    "x = \<lparr>ln_window = w, ln_link = v, ln_request_id = 0, ln_db = db\<rparr>"
    by (auto simp: DownloaderLinear_begin_def Let_def Option.bind_eq_Some_conv not_le split: if_splits)
  note e = empty_window [OF b(4,2,1)]
  show "start < fin" "start > 0 \<Longrightarrow> parent \<noteq> None" "ln_request_id x = 0" "ln_db x = db" using b by simp_all
  show "\<exists>us. window_ok L fin (unat start) [] [] us (ln_window x)"
    "s \<in> set (hs_slices (ln_window x)) \<Longrightarrow> sl_status s = SliceEmpty" using b(6) e(1,3) by simp_all
  show "vl_invalid_status (ln_link x) = SliceInvalid" "vl_last_verified_header (ln_link x) = parent"
    "parent = Some h \<Longrightarrow> sh_number h + 1 = min_block_num (ln_window x)"
    using b(5,6) e(2) by (auto simp: VerifyLinkLinearStage_new_def split: if_splits option.splits)
qed

lemma begin_inv:
  assumes "DownloaderLinear_begin header_size mem_limit start max_blocks_count best db = Some (Inr (Inr x))"
  shows "linear_inv R (limited_final_block_num (linear_target_final_block_num best) start max_blocks_count) (unat start) db x"
proof -
  let ?fin = "limited_final_block_num (linear_target_final_block_num best) start max_blocks_count" and ?v = "ln_link x"
  define parent where "parent = (if start > 0 then load_canonical_header_by_num (start - 1) db else None)"
  note b = begin_state [OF assms, folded parent_def]
  from b(3) obtain us where w: "window_ok (cr_lib R) ?fin (unat start) [] [] us (ln_window x)" by blast
  have "tip_ok (cr_lib R) (canonical_at db (unat start - 1)) (unat start) [] ?v"
  proof (cases "start = 0")
    case False
    then obtain h where h: "parent = Some h" using b(2) by (auto simp: word_neq_0_conv)
    have n: "unat start = Suc (unat (start - 1))" using False by (simp add: unat_minus_one unat_gt_0)
    have "sh_number h + 1 = start" using b(6) [OF h] window_ok_min [OF w] by (simp add: word_unat_eq_iff)
    then have "Suc (unat (sh_number h)) = unat start" using n by auto
    moreover have "canonical_at db (unat start - 1) = Some (sh_hash (cr_lib R) h)"
      using h n by (auto simp: parent_def load_canonical_header_by_num_def canonical_at_def Option.bind_eq_Some_conv
          SliceHeader_new_def sh_hash_def split: if_splits)
    ultimately show ?thesis using h b(5) by (simp add: tip_ok_def)
  qed (simp add: tip_ok_def)
  then have "chain_ok (cr_lib R) (cr_genesis_block_hash R) (unat start) db (unat start) [] ?v db"
    using b(4) by (simp add: chain_ok_def saved_chain_def)
  then show "linear_inv R ?fin (unat start) db x"
    using w b(8) by (intro linear_invI [of R ?fin "unat start" "[]" "[]" us]) simp_all
qed

section \<open>Reachable states\<close>

lemma linear_reachable_inv:
  assumes "DownloaderLinear_begin header_size mem_limit start max_blocks_count best db0 = Some (Inr (Inr x))"
    and "(linear_step (ethash_rules L spec genesis))\<^sup>*\<^sup>* x y"
  shows "linear_inv (ethash_rules L spec genesis) (limited_final_block_num (linear_target_final_block_num best) start max_blocks_count)
    (unat start) db0 y"
  using assms(2) begin_inv [OF assms(1)] by (rule ethash_verifier.steps_keep) (simp add: ethash_rules_def)

lemma chain_ok_base:
  assumes "chain_ok L genesis lo db0 (base + k) vs v db"
  shows "saved_chain L genesis lo base db" "\<forall>n < lo. canonical_at db n = canonical_at db0 n"
  using assms by (auto simp: chain_ok_def saved_chain_def)

end
