(* ===== verification/LinearProgress.thy ===== *)
theory LinearProgress
  imports LinearSafety
begin

text \<open>
  A peer that answers the first request with valid headers moves the linear downloader forward.
\<close>

section \<open>One slice through the stages\<close>

text \<open>A window whose first slice is on its way, while nothing else has been requested.\<close>

definition front :: "nat \<times> u64 \<times> u64 \<Rightarrow> HeaderSlice \<Rightarrow> HeaderSlice list \<Rightarrow> HeaderSlices \<Rightarrow> bool" where
  "front b s rest w \<longleftrightarrow> hs_slices w = s # rest \<and> (\<forall>s \<in> set rest. sl_status s = SliceEmpty) \<and> counts_ok w
     \<and> b = (hs_max_slices w, hs_max_block_num w, hs_final_block_num w)"

lemma frontD: "front b s rest w \<Longrightarrow> hs_slices w = s # rest" "front b s rest w \<Longrightarrow> t \<in> set rest \<Longrightarrow> sl_status t = SliceEmpty"
  "front b s rest w \<Longrightarrow> counts_ok w" "front b s rest w \<Longrightarrow> b = (hs_max_slices w, hs_max_block_num w, hs_final_block_num w)"
  by (auto simp: front_def)

lemma front_nth:
  assumes "front b s rest w" "0 < i" "i < Suc (length rest)"
  shows "sl_status (hs_slices w ! i) = SliceEmpty"
proof -
  have "hs_slices w ! i = rest ! (i - 1)" using frontD(1) [OF assms(1)] assms(2) by (simp add: nth_Cons')
  moreover have "i - 1 < length rest" using assms(2,3) by simp
  ultimately show ?thesis using frontD(2) [OF assms(1), of "rest ! (i - 1)"] by simp
qed

lemma front_count:
  assumes "front b s rest w" "sl_status s = st" "st \<noteq> SliceEmpty"
  shows "unat (count_slices_in_status w st) = 1"
proof -
  have "slices_in st rest = 0" using assms(3) frontD(2) [OF assms(1)] slices_in_pos [of st rest] by auto
  then have "slices_in st (hs_slices w) = 1" using assms(2) frontD(1) [OF assms(1)] by simp
  then show ?thesis using counts_okD [OF frontD(3) [OF assms(1)]] by (simp add: count_slices_in_status_def)
qed

lemma front_set:
  assumes "front b s rest w" "sl_status (f s) = sl_status s"
  shows "front b ((f s)\<lparr>sl_status := st\<rparr>) rest (set_slice_status 0 st (update_slice 0 f w))"
proof -
  have "counts_ok (set_slice_status 0 st (update_slice 0 f w))"
    by (rule counts_ok_set_status, rule counts_ok_update) (use frontD [OF assms(1)] assms(2) in simp_all)
  then show ?thesis using frontD [OF assms(1)] by (simp add: front_def)
qed

lemma front_status: "front b s rest w \<Longrightarrow> front b (s\<lparr>sl_status := st\<rparr>) rest (set_slice_status 0 st w)"
  using front_set [of b s rest w "\<lambda>s. s" st] by (simp add: update_slice_def)

text \<open>The send queue takes one request.\<close>

lemma front_request:
  assumes "front b s rest w" "sl_status s = SliceEmpty"
  shows "\<exists>r rid w'. request_pending (\<lambda>rid _ _. if rid = 0 then SendOk else SendQueueFull) n now 0 w = (r, rid, w')
    \<and> front b (s\<lparr>sl_request_time := Some now, sl_status := SliceWaiting\<rparr>) rest w'"
proof -
  let ?send = "\<lambda>rid _ _. if rid = (0 :: u64) then SendOk else SendQueueFull"
  let ?w = "set_slice_status 0 SliceWaiting (update_slice 0 (\<lambda>s. s\<lparr>sl_request_time := Some now\<rparr>) w)"
  have sl: "hs_slices w = s # rest" by (rule frontD(1) [OF assms(1)])
  have w': "front b (s\<lparr>sl_request_time := Some now, sl_status := SliceWaiting\<rparr>) rest ?w"
    using front_set [OF assms(1), of "\<lambda>s. s\<lparr>sl_request_time := Some now\<rparr>"] by simp
  have up: "[0..<length (hs_slices w)] = 0 # [1..<Suc (length rest)]" unfolding sl by (simp add: upt_conv_Cons del: upt_Suc)
  have full: "request_loop ?send n now is 1 v = (Inr (), if is = [] then 1 else 2, v)"
    if "\<forall>i \<in> set is. sl_status (hs_slices v ! i) = SliceEmpty" for "is" v
    using that by (cases "is") auto
  have "\<forall>i \<in> set [1..<Suc (length rest)]. sl_status (hs_slices ?w ! i) = SliceEmpty"
    by (intro ballI front_nth [OF w']) auto
  then have "request_loop ?send n now [1..<Suc (length rest)] 1 ?w = (Inr (), if [1..<Suc (length rest)] = [] then 1 else 2, ?w)"
    by (rule full)
  then have "request_pending ?send n now 0 w = (Inr (), if [1..<Suc (length rest)] = [] then 1 else 2, ?w)"
    unfolding request_pending_def up using assms(2) sl by (simp del: upt_Suc)
  with w' show ?thesis by blast
qed

lemma front_receive:
  assumes "front b s rest w" "sl_status s = SliceWaiting" "headers \<noteq> []" "bh_number (hd headers) = sl_start_block_num s"
  shows "front b (s\<lparr>sl_headers := Some (map SliceHeader_from headers), sl_from_peer_id := peer, sl_status := SliceDownloaded\<rparr>) rest
    (on_headers_message headers peer w)"
proof -
  have "find_by_start_block_num w (bh_number (hd headers)) = Some 0"
    using frontD(1) [OF assms(1)] assms(4) by (simp add: find_by_start_block_num_def)
  then have "on_headers_message headers peer w = set_slice_status 0 SliceDownloaded
      (update_slice 0 (\<lambda>s. s\<lparr>sl_headers := Some (map SliceHeader_from headers), sl_from_peer_id := peer\<rparr>) w)"
    using assms(2,3) frontD(1) [OF assms(1)] by (cases headers) (auto simp: on_headers_message_def)
  then show ?thesis using front_set [OF assms(1), of "\<lambda>s. s\<lparr>sl_headers := Some (map SliceHeader_from headers), sl_from_peer_id := peer\<rparr>"]
    by simp
qed

lemma front_batch:
  assumes "front b s rest w"
  shows "find_batch_by_status w SliceDownloaded 1 = (if sl_status s = SliceDownloaded then [0] else [])"
proof -
  have "filter (\<lambda>i. sl_status (hs_slices w ! i) = SliceDownloaded) [1..<length (hs_slices w)] = []"
    using front_nth [OF assms] frontD(1) [OF assms] by (auto simp: filter_empty_conv simp del: upt_Suc)
  moreover have "[0..<length (hs_slices w)] = 0 # [1..<length (hs_slices w)]"
    using frontD(1) [OF assms] by (simp add: upt_conv_Cons del: upt_Suc)
  ultimately show ?thesis using frontD(1) [OF assms] by (simp add: find_batch_by_status_def Let_def del: upt_Suc)
qed

lemma front_verify_loop:
  assumes "front b s rest w" "sl_status s = SliceDownloaded" "st \<noteq> SliceDownloaded" "sl_headers s = Some hs"
    and "check (s\<lparr>sl_headers := Some (map (hash_prepare L) hs)\<rparr>) = Some True"
  shows "\<exists>w'. verify_pending_loop L check st 1 w = Some w' \<and> front b (s\<lparr>sl_headers := Some (map (hash_prepare L) hs), sl_status := st\<rparr>) rest w'"
proof -
  let ?f = "\<lambda>s. s\<lparr>sl_headers := map_option (map (hash_prepare L)) (sl_headers s)\<rparr>"
  let ?w = "set_slice_status 0 st (update_slice 0 ?f w)"
  have sl: "hs_slices w = s # rest" by (rule frontD(1) [OF assms(1)])
  have w': "front b (s\<lparr>sl_headers := Some (map (hash_prepare L) hs), sl_status := st\<rparr>) rest ?w"
    using front_set [OF assms(1), of ?f] assms(4) by simp
  have "verify_batch L check st [0] w = Some ?w"
    using sl assms(4,5) by (simp add: verify_batch_def prepare_slice_hashes_def Let_def)
  moreover have "verify_pending_loop L check st 1 ?w = Some ?w"
    by (subst verify_pending_loop_unfold) (simp add: front_batch [OF w', simplified] assms(3))
  ultimately have "verify_pending_loop L check st 1 w = Some ?w"
    by (subst verify_pending_loop_unfold) (simp add: front_batch [OF assms(1), simplified] assms(2))
  with w' show ?thesis by blast
qed

lemma front_link:
  assumes "front b s rest w" "sl_status s = SliceVerifiedInternally" "sl_headers s = Some hs" "hs \<noteq> []"
    and "verify_slice_link R s (vl_last_verified_header v) = Some True"
  shows "\<exists>v' w'. link_execute R (v, w) = Some (v', w') \<and> front b (s\<lparr>sl_status := SliceVerified\<rparr>) rest w'"
proof -
  let ?w = "set_slice_status 0 SliceVerified w"
  have sl: "hs_slices w = s # rest" by (rule frontD(1) [OF assms(1)])
  have "link_find_next_pending w = Some 0"
    using sl assms(2) by (simp add: link_find_next_pending_def is_canonical_slice_status_def)
  then show ?thesis
    using front_count [OF assms(1,2)] front_status [OF assms(1), of SliceVerified] assms(3-5) sl
    by (simp add: link_execute_def verify_pending_slice_def Let_def)
qed

lemma front_save:
  assumes "front b s rest w" "sl_status s = SliceVerified" "sl_headers s = Some hs"
  shows "\<exists>r w'. save_execute L SaveMonotonic True (db, w) = (r, save_headers L True hs db, w') \<and> front b (s\<lparr>sl_status := SliceSaved\<rparr>) rest w'"
proof -
  have sl: "hs_slices w = s # rest" by (rule frontD(1) [OF assms(1)])
  have "save_pending SaveMonotonic w = Some 0" using sl assms(2) by (simp add: save_pending_def save_find_next_pending_def)
  then show ?thesis
    using front_count [OF assms(1,2)] front_status [OF assms(1), of SliceSaved] assms(3) sl
    by (simp add: save_execute_def save_slice_def Let_def)
qed

lemma front_saved_window:
  assumes "front b s rest w" "sl_status s = SliceSaved" "window_ok L fin base ss vs us w"
  shows "ss = [s]"
proof -
  note w = window_okD [OF assms(3)]
  have sl: "s # rest = ss @ vs @ us" using frontD(1) [OF assms(1)] w(1) by simp
  have "ss \<noteq> []"
  proof
    assume "ss = []"
    then have "s \<in> set vs \<or> s \<in> set us" using sl by (cases vs) (auto simp: Cons_eq_append_conv)
    then show False using w(3,4) assms(2) by (auto simp: is_canonical_slice_status_def)
  qed
  then obtain ss' where ss: "ss = s # ss'" "rest = ss' @ vs @ us" using sl by (cases ss) auto
  have "ss' = []"
  proof (rule ccontr)
    assume "ss' \<noteq> []"
    then obtain t where "t \<in> set ss'" by (cases ss') auto
    then show False using w(2) [of t] frontD(2) [OF assms(1), of t] ss by auto
  qed
  with ss show ?thesis by simp
qed

lemma save_headers_canonical:
  assumes "chained L genesis prev n hs" "i < length hs"
  shows "canonical_at (save_headers L True hs db) (n + i) = Some (sh_hash L (hs ! i))"
  using assms
proof (induction hs arbitrary: prev n i db)
  case (Cons h hs)
  let ?db = "save_header L True h db"
  have rest: "chained L genesis (Some (sh_hash L h)) (Suc n) hs" using Cons.prems(1) by simp
  show ?case
  proof (cases i)
    case 0
    have "canonical_at (save_headers L True hs ?db) n = canonical_at ?db n" by (rule save_headers_below [OF rest]) simp
    then show ?thesis using 0 Cons.prems(1) save_header_same(1) [of L h db] by (auto simp: save_headers_def canonical_at_def)
  next
    case (Suc j)
    with Cons.IH [OF rest, of j ?db] Cons.prems(2) show ?thesis by (simp add: save_headers_def)
  qed
qed simp

lemma header_prepared:
  "caches_ok L (hash_prepare L (SliceHeader_from h))" "sh_hash L (hash_prepare L (SliceHeader_from h)) = header_hash_of L h"
  "sh_header (SliceHeader_from h) = h"
  using caches_ok_prepare [OF caches_ok_from] sh_hash_ok [OF caches_ok_prepare [OF caches_ok_from]]
  by (simp_all add: SliceHeader_from_def)

text \<open>The stages in turn, from a window whose first slice is empty.\<close>

lemma honest_slice:
  assumes w: "front b s rest (ln_window x)" "sl_status s = SliceEmpty" and id: "ln_request_id x = 0"
    and headers: "length headers = HEADER_SLICE_SIZE" "bh_number (hd headers) = sl_start_block_num s"
    and hs: "hs = map (\<lambda>h. hash_prepare (cr_lib R) (SliceHeader_from h)) headers"
    and slice: "vf_verify_slice (cr_verifier R) (cr_lib R) hs (sl_start_block_num s) time (cr_chain_spec R) = Some True"
    and link: "\<And>s. sl_headers s = Some hs \<Longrightarrow> verify_slice_link R s (vl_last_verified_header (ln_link x)) = Some True"
  shows "\<exists>y s'. (linear_step R)\<^sup>*\<^sup>* x y \<and> front b s' rest (ln_window y) \<and> sl_status s' = SliceSaved
    \<and> sl_start_block_num s' = sl_start_block_num s \<and> ln_db y = save_headers (cr_lib R) True hs (ln_db x)"
proof -
  have ne: "headers \<noteq> []" using headers(1) by (auto simp: HEADER_SLICE_SIZE_def)
  let ?s1 = "s\<lparr>sl_request_time := Some 0, sl_status := SliceWaiting\<rparr>"
  obtain r rid w1 where r: "request_pending (\<lambda>rid _ _. if rid = 0 then SendOk else SendQueueFull) HEADER_SLICE_SIZE 0 0 (ln_window x) = (r, rid, w1)"
    and f1: "front b ?s1 rest w1" using front_request [OF w] by blast
  let ?x1 = "x\<lparr>ln_window := w1, ln_request_id := rid\<rparr>"
  have "linear_step R x ?x1" using r id by (intro FetchRequest) simp
  moreover
  let ?w2 = "on_headers_message headers None w1"
  let ?s2 = "?s1\<lparr>sl_headers := Some (map SliceHeader_from headers), sl_from_peer_id := None, sl_status := SliceDownloaded\<rparr>"
  have f2: "front b ?s2 rest ?w2" by (rule front_receive [OF f1]) (use ne headers(2) in simp_all)
  have "linear_step R ?x1 (?x1\<lparr>ln_window := ?w2\<rparr>)" using FetchReceive [of R ?x1 headers None] by simp
  moreover
  let ?s3 = "?s2\<lparr>sl_headers := Some hs, sl_status := SliceVerifiedInternally\<rparr>"
  obtain w3 where v: "verify_slices_pending (cr_lib R) (cr_verifier R) (cr_chain_spec R) time 1 ?w2 = Some w3" and f3: "front b ?s3 rest w3"
    using front_verify_loop [OF f2, of SliceVerifiedInternally "map SliceHeader_from headers"
        "slices_verify_slice (cr_lib R) (cr_verifier R) (cr_chain_spec R) time" "cr_lib R"] slice
    by (auto simp: hs comp_def slices_verify_slice_def verify_slices_pending_def)
  have "linear_step R (?x1\<lparr>ln_window := ?w2\<rparr>) (?x1\<lparr>ln_window := w3\<rparr>)"
    using VerifySlices [of R time 1 "?x1\<lparr>ln_window := ?w2\<rparr>" w3] v by simp
  moreover
  obtain v4 w4 where l: "link_execute R (ln_link x, w3) = Some (v4, w4)" and f4: "front b (?s3\<lparr>sl_status := SliceVerified\<rparr>) rest w4"
    using front_link [OF f3, of hs R "ln_link x"] link [of ?s3] ne by (auto simp: hs)
  have "linear_step R (?x1\<lparr>ln_window := w3\<rparr>) (?x1\<lparr>ln_window := w4, ln_link := v4\<rparr>)"
    using VerifyLink [of R "?x1\<lparr>ln_window := w3\<rparr>" v4 w4] l by simp
  moreover
  let ?s5 = "?s3\<lparr>sl_status := SliceSaved\<rparr>" and ?db = "save_headers (cr_lib R) True hs (ln_db x)"
  obtain r5 w5 where sv: "save_execute (cr_lib R) SaveMonotonic True (ln_db x, w4) = (r5, ?db, w5)" and f5: "front b ?s5 rest w5"
    using front_save [OF f4, of hs "cr_lib R" "ln_db x"] by auto
  have "linear_step R (?x1\<lparr>ln_window := w4, ln_link := v4\<rparr>) (?x1\<lparr>ln_link := v4, ln_window := w5, ln_db := ?db\<rparr>)"
    using Save [of R "?x1\<lparr>ln_window := w4, ln_link := v4\<rparr>" r5 ?db w5] sv by simp
  ultimately have "(linear_step R)\<^sup>*\<^sup>* x (?x1\<lparr>ln_link := v4, ln_window := w5, ln_db := ?db\<rparr>)"
    by (meson converse_rtranclp_into_rtranclp rtranclp.rtrancl_refl)
  with f5 show ?thesis by (intro exI [of _ "?x1\<lparr>ln_link := v4, ln_window := w5, ln_db := ?db\<rparr>"] exI [of _ ?s5]) simp
qed

lemma honest_peer_progress:
  assumes start: "DownloaderLinear_begin header_size mem_limit start max_blocks_count best db0 = Some (Inr (Inr x))"
    and "hs_slices (ln_window x) \<noteq> []" and len: "length headers = HEADER_SLICE_SIZE"
    and slice: "vf_verify_slice make_ethash_verifier L (map (\<lambda>h. hash_prepare L (SliceHeader_from h)) headers) start time spec = Some True"
    and genesis: "start = 0 \<Longrightarrow> header_hash_of L (hd headers) = genesis"
    and parent: "\<And>h. start \<noteq> 0 \<Longrightarrow> load_canonical_header_by_num (start - 1) db0 = Some h \<Longrightarrow>
      vf_verify_link make_ethash_verifier L (hash_prepare L (SliceHeader_from (hd headers))) h spec = Some True"
  shows "\<exists>y. (linear_step (ethash_rules L spec genesis))\<^sup>*\<^sup>* x y
    \<and> dl_loaded_count (DownloaderLinear_report start best y) = HEADER_SLICE_SIZE
    \<and> (\<forall>i < HEADER_SLICE_SIZE. canonical_at (ln_db y) (unat start + i) = Some (header_hash_of L (headers ! i)))"
proof -
  let ?R = "ethash_rules L spec genesis" and ?hs = "map (\<lambda>h. hash_prepare L (SliceHeader_from h)) headers"
  note st = begin_state [OF start]
  obtain s rest where sl: "hs_slices (ln_window x) = s # rest" using assms(2) by (cases "hs_slices (ln_window x)") auto
  obtain fin us where w: "window_ok L fin (unat start) [] [] us (ln_window x)" using st(3) by blast
  define b where "b = (hs_max_slices (ln_window x), hs_max_block_num (ln_window x), hs_final_block_num (ln_window x))"
  have f: "front b s rest (ln_window x)" "sl_status s = SliceEmpty" using sl st(9) window_okD(10) [OF w] by (auto simp: front_def b_def)
  have s: "sl_start_block_num s = start" using window_ok_min [OF w] sl by (simp add: min_block_num_def word_unat_eq_iff)
  have ne: "headers \<noteq> []" using len by (auto simp: HEADER_SLICE_SIZE_def)
  have run: "run_ok L start ?hs" by (rule ethash_verifier.slice [OF slice])
  then have first: "bh_number (hd headers) = start"
    using ne by (simp add: run_ok_def verify_slice_block_nums_def hd_map header_prepared(3))
  have link: "verify_slice_link ?R t (vl_last_verified_header (ln_link x)) = Some True" if t: "sl_headers t = Some ?hs" for t
  proof (cases "start = 0")
    case True
    then show ?thesis using t ne len first genesis
      by (simp add: verify_slice_link_def ethash_rules_def hd_map header_prepared(2,3))
  next
    case False
    then obtain h where h: "load_canonical_header_by_num (start - 1) db0 = Some h" using st(2) by (auto simp: word_neq_0_conv)
    then have "vl_last_verified_header (ln_link x) = Some h" using st(5) False by (simp add: word_neq_0_conv)
    then show ?thesis using t ne len first parent [OF False h] False
      by (simp add: verify_slice_link_def ethash_rules_def hd_map header_prepared(3))
  qed
  have "\<exists>y s'. (linear_step ?R)\<^sup>*\<^sup>* x y \<and> front b s' rest (ln_window y) \<and> sl_status s' = SliceSaved
    \<and> sl_start_block_num s' = sl_start_block_num s \<and> ln_db y = save_headers (cr_lib ?R) True ?hs (ln_db x)"
    by (rule honest_slice [OF f st(7) len, where time = time])
      (use s first slice link in \<open>simp_all add: ethash_rules_def\<close>)
  then obtain y s' where y: "(linear_step ?R)\<^sup>*\<^sup>* x y" "front b s' rest (ln_window y)" "sl_status s' = SliceSaved"
    "sl_start_block_num s' = start" "ln_db y = save_headers L True ?hs db0"
    using st(8) s by (auto simp: ethash_rules_def)
  let ?z = "y\<lparr>ln_window := refill_pending (ln_window y)\<rparr>"
  have z: "(linear_step ?R)\<^sup>*\<^sup>* x ?z" using y(1) by (rule rtranclp.rtrancl_into_rtrancl) (rule Refill)
  from linear_reachable_inv [OF start y(1)] obtain fin base ss vs us where v: "window_ok L fin base ss vs us (ln_window y)"
    by (auto simp: linear_inv_def ethash_rules_def)
  have base: "base = unat start" using window_ok_min [OF v] frontD(1) [OF y(2)] y(4) by (simp add: min_block_num_def)
  from window_ok_refilled [OF window_ok_removed [OF v]] obtain us' where
    z': "window_ok L fin (unat start + HEADER_SLICE_SIZE) [] vs us' (ln_window ?z)"
    using front_saved_window [OF y(2,3) v] base by (auto simp: refill_pending_def)
  have "unat (min_block_num (ln_window ?z) - start) = HEADER_SLICE_SIZE"
    using window_ok_min [OF z'] by (simp add: unat_sub word_le_nat_alt)
  moreover have "chained L (header_hash_of L (hd headers)) (Some (bh_parent_hash (hd headers))) (unat start) ?hs"
  proof (rule run_ok_chained [OF run])
    show "list_all (caches_ok L) ?hs" by (simp add: list_all_iff header_prepared(1))
    show "unat start + length ?hs \<le> 2 ^ 64" using window_ok_min [OF z'] unat_u64 [of "min_block_num (ln_window ?z)"] len by simp
  qed (use ne in \<open>simp add: hd_map header_prepared(2,3)\<close>)
  then have "\<forall>i < HEADER_SLICE_SIZE. canonical_at (ln_db ?z) (unat start + i) = Some (header_hash_of L (headers ! i))"
    using save_headers_canonical [where hs = ?hs] y(5) len by (simp add: header_prepared(2))
  ultimately show ?thesis using z by (intro exI [of _ ?z]) (simp add: DownloaderLinear_report_def)
qed

end
