(* ===== verification/LinearTheorems.thy ===== *)
theory LinearTheorems
  imports LinearProgress
begin

text \<open>
  What the linear header downloader guarantees: the chain it saves is right whatever the peers send, honest answers move it forward,
  and unwinding leaves the lower part of a saved chain.
\<close>

section \<open>A sample download\<close>

text \<open>A chain of headers 13 seconds apart, all of the least difficulty, with a hash function that is constant.\<close>

definition sample_header_lib :: header_lib where
  "sample_header_lib = \<lparr>hl_rlp = (\<lambda>_. []), hl_keccak256 = (\<lambda>_. 5)\<rparr>"

definition sample_frontier_chain :: ChainSpec where
  "sample_frontier_chain = sample_chain\<lparr>cs_consensus := \<lparr>seal_verification = EthashParams 13 [] None None None False, eip1559_block = None\<rparr>\<rparr>"

definition sample_chain_header :: "nat \<Rightarrow> BlockHeader" where
  "sample_chain_header n = sample_block_header\<lparr>bh_parent_hash := 5, bh_number := of_nat n, bh_timestamp := of_nat (13 * n), bh_difficulty := 131072\<rparr>"

definition sample_headers :: "BlockHeader list" where
  "sample_headers = map sample_chain_header [0..<HEADER_SLICE_SIZE]"

definition empty_header_db :: HeaderDb where
  "empty_header_db = \<lparr>hd_canonical_header = (\<lambda>_. None), hd_last_header = None, hd_headers_total_difficulty = (\<lambda>_. None),
     hd_header = (\<lambda>_. None), hd_header_number = (\<lambda>_. None)\<rparr>"

definition sample_linear_state :: linear_state where
  "sample_linear_state = \<lparr>
     ln_window = \<lparr>hs_slices = [empty_slice 0], hs_max_slices = 1, hs_max_block_num = 192, hs_final_block_num = 192,
       hs_counts = make_state_watches_from_slices [empty_slice 0]\<rparr>,
     ln_link = \<lparr>vl_invalid_status = SliceInvalid, vl_last_verified_header = None, vl_remaining_count = 0\<rparr>,
     ln_request_id = 0, ln_db = empty_header_db\<rparr>"

lemma sample_begin:
  "DownloaderLinear_begin 1 192 0 192 90192 empty_header_db = Some (Inr (Inr sample_linear_state))"
  by (simp add: DownloaderLinear_begin_def linear_target_final_block_num_def limited_final_block_num_def trusted_len_def
      is_block_num_aligned_to_slice_start_def align_block_num_to_slice_start_def HEADER_SLICE_SIZE_def HeaderSlices_new_def
      from_slices_vec_def estimate_max_slices_for_mem_limit_def VerifyLinkLinearStage_new_def find_last_verified_header_def
      is_canonical_slice_status_def empty_slice_def HeaderSlice_default_def sample_linear_state_def Let_def)

lemma all_pairs_map:
  "(\<And>i. a \<le> i \<Longrightarrow> Suc i < b \<Longrightarrow> f (g (Suc i)) (g i)) \<Longrightarrow> all_pairs f (map g [a..<b])"
proof (induction "b - a" arbitrary: a)
  case (Suc n)
  then have "[a..<b] = a # [Suc a..<b]" by (simp add: upt_conv_Cons)
  moreover have "all_pairs f (map g [Suc a..<b])" using Suc by auto
  ultimately show ?case using Suc.prems [of a] by (cases "Suc a < b") (auto simp: upt_conv_Cons)
qed simp

lemma all_pairs_or_panic_map:
  "(\<And>i. a \<le> i \<Longrightarrow> Suc i < b \<Longrightarrow> f (g (Suc i)) (g i) = Some True) \<Longrightarrow> all_pairs_or_panic f (map g [a..<b]) = Some True"
proof (induction "b - a" arbitrary: a)
  case (Suc n)
  then have "[a..<b] = a # [Suc a..<b]" by (simp add: upt_conv_Cons)
  moreover have "all_pairs_or_panic f (map g [Suc a..<b]) = Some True" using Suc by auto
  ultimately show ?case using Suc.prems [of a] by (cases "Suc a < b") (auto simp: upt_conv_Cons)
qed simp

lemma sample_verified:
  "vf_verify_slice make_ethash_verifier sample_header_lib
     (map (\<lambda>h. hash_prepare sample_header_lib (SliceHeader_from h)) sample_headers) 0 10000 sample_frontier_chain = Some True"
proof -
  let ?g = "\<lambda>n. hash_prepare sample_header_lib (SliceHeader_from (sample_chain_header n))"
  have hs: "map (\<lambda>h. hash_prepare sample_header_lib (SliceHeader_from h)) sample_headers = map ?g [0..<192]"
    by (simp add: sample_headers_def HEADER_SLICE_SIZE_def comp_def)
  have "all_pairs (verify_link_by_parent_hash sample_header_lib) (map ?g [0..<192])"
    by (rule all_pairs_map) (simp add: verify_link_by_parent_hash_def header_prepared(2,3) sample_chain_header_def
        header_hash_of_def sample_header_lib_def)
  moreover have "all_pairs verify_link_block_nums (map ?g [0..<192])"
    by (rule all_pairs_map) (simp add: verify_link_block_nums_def header_prepared(3) sample_chain_header_def)
  moreover have ts: "(of_nat (13 * i) :: u64) < of_nat (13 * Suc i)" if "Suc i < 192" for i
  proof -
    have u: "unat (of_nat (13 * j) :: u64) = 13 * j" if "j < 192" for j by (rule u64_of_nat) (use that in simp)
    have "i < 192" using that by simp
    then show ?thesis unfolding word_less_nat_alt u [OF that] u [OF \<open>i < 192\<close>] by simp
  qed
  then have "all_pairs verify_link_timestamps (map ?g [0..<192])"
    by (intro all_pairs_map) (simp add: verify_link_timestamps_def header_prepared(3) sample_chain_header_def del: of_nat_mult of_nat_Suc)
  moreover have d: "canonical_difficulty (of_nat (Suc i)) (of_nat (13 * Suc i)) 131072 (of_nat (13 * i)) b False False None = Some 131072" for i b
  proof -
    have "(of_nat (13 * Suc i) :: u64) - of_nat (13 * i) = 13" by (simp add: algebra_simps)
    then show ?thesis unfolding canonical_difficulty_def adjusted_difficulty_def Let_def MIN_DIFFICULTY_def by simp
  qed
  then have "all_pairs_or_panic (\<lambda>child parent. verify_link_difficulties child parent sample_frontier_chain) (map ?g [0..<192]) = Some True"
  proof (intro all_pairs_or_panic_map)
    fix i :: nat
    assume i: "Suc i < 192"
    have m: "unat (-1 :: u64) = 18446744073709551615" by (simp add: unsigned_minus_1_eq_mask mask_eq_exp_minus_1)
    have "unat (of_nat (Suc i) :: u64) = Suc i" by (rule u64_of_nat) (use i in simp)
    then have "\<not> (-1 :: u64) \<le> of_nat (Suc i)" using i m unfolding word_le_nat_alt by linarith
    with d show "verify_link_difficulties (?g (Suc i)) (?g i) sample_frontier_chain = Some True"
      by (simp add: verify_link_difficulties_def header_prepared(3) sample_chain_header_def sample_frontier_chain_def switch_is_active_def
          del: of_nat_mult of_nat_Suc)
  qed
  moreover have "sh_number (hd (map ?g [0..<192])) = 0" "bh_timestamp (sh_header (last (map ?g [0..<192]))) < 10000"
    by (simp_all add: hd_map last_map header_prepared(3) sample_chain_header_def)
  ultimately show ?thesis unfolding hs
    by (simp add: make_ethash_verifier_def verify_slice_is_linked_by_parent_hash_def verify_slice_block_nums_def
        verify_slice_timestamps_def verify_slice_difficulties_def)
qed

lemma sample_progress:
  "\<exists>y. (linear_step (ethash_rules sample_header_lib sample_frontier_chain 5))\<^sup>*\<^sup>* sample_linear_state y
    \<and> dl_loaded_count (DownloaderLinear_report 0 90192 y) = HEADER_SLICE_SIZE
    \<and> (\<forall>i < HEADER_SLICE_SIZE. canonical_at (ln_db y) (unat (0 :: u64) + i) = Some (header_hash_of sample_header_lib (sample_headers ! i)))"
  by (rule honest_peer_progress [OF sample_begin _ _ sample_verified])
    (simp_all add: sample_linear_state_def sample_headers_def header_hash_of_def sample_header_lib_def)

section \<open>Guarantees\<close>

text \<open>C18: Whatever the peers send, and in whatever order the stages of the linear downloader run, every header from its start to the
  lower end of its window is saved: it is canonical, has its number and its hash, its parent hash is the canonical hash below it (the
  first one continues the chain that was in the database, block 0 is the genesis block), and its total difficulty is its parent's plus its own.
  The canonical chain below the start is not touched, and when the downloader is over its report ends at the block it was given.\<close>

theorem linear_download_chain:
  assumes "DownloaderLinear_begin header_size mem_limit start max_blocks_count best db0 = Some (Inr (Inr x))"
    and "(linear_step (ethash_rules L spec genesis))\<^sup>*\<^sup>* x y"
  shows "saved_chain L genesis (unat start) (unat (dl_final_block_num (DownloaderLinear_report start best y))) (ln_db y)
    \<and> (\<forall>n < unat start. canonical_at (ln_db y) n = canonical_at db0 n)
    \<and> (is_empty_at_final_position (ln_window y) \<longrightarrow>
        dl_final_block_num (DownloaderLinear_report start best y) = limited_final_block_num (linear_target_final_block_num best) start max_blocks_count)"
proof -
  let ?R = "ethash_rules L spec genesis" and ?fin = "limited_final_block_num (linear_target_final_block_num best) start max_blocks_count"
  from linear_reachable_inv [OF assms] obtain base ss vs us where w: "window_ok L ?fin base ss vs us (ln_window y)" "unat start \<le> base"
    and c: "chain_ok L genesis (unat start) db0 (base + HEADER_SLICE_SIZE * length ss) vs (ln_link y) (ln_db y)"
    by (auto simp: linear_inv_def ethash_rules_def)
  have base: "unat (dl_final_block_num (DownloaderLinear_report start best y)) = base"
    using window_ok_min [OF w(1)] by (simp add: DownloaderLinear_report_def)
  have "min_block_num (ln_window y) = ?fin" if "is_empty_at_final_position (ln_window y)"
    using that window_okD(7,11) [OF w(1)]
    by (auto simp: is_empty_at_final_position_def min_block_num_def word_le_nat_alt intro: word_unat_eq_iff [THEN iffD2])
  then show ?thesis unfolding base using chain_ok_base [OF c] by (simp add: DownloaderLinear_report_def)
qed

theorem linear_download_chain_witness:
  "\<exists>y. (linear_step (ethash_rules sample_header_lib sample_frontier_chain 5))\<^sup>*\<^sup>* sample_linear_state y
    \<and> saved_chain sample_header_lib 5 0 192 (ln_db y)"
proof -
  from sample_progress obtain y where y: "(linear_step (ethash_rules sample_header_lib sample_frontier_chain 5))\<^sup>*\<^sup>* sample_linear_state y"
    "dl_loaded_count (DownloaderLinear_report 0 90192 y) = HEADER_SLICE_SIZE" by blast
  then have "unat (dl_final_block_num (DownloaderLinear_report 0 90192 y)) = 192"
    by (simp add: DownloaderLinear_report_def HEADER_SLICE_SIZE_def)
  with linear_download_chain [OF sample_begin y(1)] y(1) show ?thesis by auto
qed

text \<open>The counters of the statuses are exact in every state the linear downloader can reach: a stage that asks whether a slice
  is in its status gets the right answer.\<close>

theorem linear_status_counters:
  assumes "DownloaderLinear_begin header_size mem_limit start max_blocks_count best db0 = Some (Inr (Inr x))"
    and "(linear_step (ethash_rules L spec genesis))\<^sup>*\<^sup>* x y"
  shows "count_slices_in_status (ln_window y) st = of_nat (slices_in st (hs_slices (ln_window y)))
    \<and> (contains_status (ln_window y) st \<longleftrightarrow> (\<exists>s \<in> set (hs_slices (ln_window y)). sl_status s = st))"
proof -
  from linear_reachable_inv [OF assms] obtain fin base ss vs us where w: "window_ok L fin base ss vs us (ln_window y)"
    by (auto simp: linear_inv_def ethash_rules_def)
  note w = window_okD [OF this]
  have "length (hs_slices (ln_window y)) \<le> HEADER_SLICE_SIZE * length (hs_slices (ln_window y))" by (simp add: HEADER_SLICE_SIZE_def)
  also have "\<dots> < 2 ^ 64" using w(1,6) unat_u64 [of "hs_max_block_num (ln_window y)"] by simp
  finally show ?thesis using contains_status_exact [OF w(10)] counts_okD [OF w(10)] by (simp add: count_slices_in_status_def)
qed


theorem linear_status_counters_witness:
  "\<exists>y. (linear_step (ethash_rules sample_header_lib sample_frontier_chain 5))\<^sup>*\<^sup>* sample_linear_state y
    \<and> (\<forall>i < HEADER_SLICE_SIZE. canonical_at (ln_db y) i \<noteq> None)
    \<and> count_slices_in_status (ln_window y) SliceSaved = of_nat (slices_in SliceSaved (hs_slices (ln_window y)))"
proof -
  from sample_progress obtain y where y: "(linear_step (ethash_rules sample_header_lib sample_frontier_chain 5))\<^sup>*\<^sup>* sample_linear_state y"
    "\<forall>i < HEADER_SLICE_SIZE. canonical_at (ln_db y) i \<noteq> None" by auto
  with linear_status_counters [OF sample_begin y(1), of SliceSaved] show ?thesis by blast
qed

text \<open>C19: A peer that answers the first request of the linear downloader with 192 headers that are valid and link to the saved chain
  moves it forward: the stages can reach a state that has saved these headers and reports them as loaded.\<close>

theorem linear_download_progress:
  assumes start: "DownloaderLinear_begin header_size mem_limit start max_blocks_count best db0 = Some (Inr (Inr x))"
    and "hs_slices (ln_window x) \<noteq> []" and len: "length headers = HEADER_SLICE_SIZE"
    and slice: "vf_verify_slice make_ethash_verifier L (map (\<lambda>h. hash_prepare L (SliceHeader_from h)) headers) start time spec = Some True"
    and genesis: "start = 0 \<Longrightarrow> header_hash_of L (hd headers) = genesis"
    and parent: "\<And>h. start \<noteq> 0 \<Longrightarrow> load_canonical_header_by_num (start - 1) db0 = Some h \<Longrightarrow>
      vf_verify_link make_ethash_verifier L (hash_prepare L (SliceHeader_from (hd headers))) h spec = Some True"
  shows "\<exists>y. (linear_step (ethash_rules L spec genesis))\<^sup>*\<^sup>* x y
    \<and> dl_loaded_count (DownloaderLinear_report start best y) = HEADER_SLICE_SIZE
    \<and> (\<forall>i < HEADER_SLICE_SIZE. canonical_at (ln_db y) (unat start + i) = Some (header_hash_of L (headers ! i)))"
  using assms by (rule honest_peer_progress)

theorem linear_download_progress_witness:
  "\<exists>y. (linear_step (ethash_rules sample_header_lib sample_frontier_chain 5))\<^sup>*\<^sup>* sample_linear_state y
    \<and> dl_loaded_count (DownloaderLinear_report 0 90192 y) = 192"
proof -
  have "\<exists>y. (linear_step (ethash_rules sample_header_lib sample_frontier_chain 5))\<^sup>*\<^sup>* sample_linear_state y
    \<and> dl_loaded_count (DownloaderLinear_report 0 90192 y) = HEADER_SLICE_SIZE
    \<and> (\<forall>i < HEADER_SLICE_SIZE. canonical_at (ln_db y) (unat (0 :: u64) + i) = Some (header_hash_of sample_header_lib (sample_headers ! i)))"
    by (rule linear_download_progress [OF sample_begin _ _ sample_verified])
      (simp_all add: sample_linear_state_def sample_headers_def header_hash_of_def sample_header_lib_def)
  then show ?thesis by (auto simp: HEADER_SLICE_SIZE_def)
qed

text \<open>Unwinding a saved chain to a block of it succeeds: the chain up to that block stays as it was, no number above it has a canonical hash,
  and the last header is the one unwound to.\<close>

theorem header_unwind_chain:
  assumes "saved_chain L genesis lo hi db" "canonical_at db hi = None" "lo \<le> u" "u < hi" "hi < 2 ^ 64"
  shows "\<exists>db'. save_unwind (of_nat u) db = Some (Inr (), db') \<and> saved_chain L genesis lo (Suc u) db'
    \<and> (\<forall>k \<in> {u<..hi}. canonical_at db' k = None) \<and> hd_last_header db' = canonical_at db' u \<and> canonical_at db' u = canonical_at db u"
  using assms by (rule save_unwind_chain) auto

definition sample_header_db :: HeaderDb where
  "sample_header_db = save_headers sample_header_lib True (map (\<lambda>n. SliceHeader_from (sample_chain_header n)) [0, 1, 2]) empty_header_db"

theorem header_unwind_chain_witness:
  "\<exists>db'. save_unwind 1 sample_header_db = Some (Inr (), db') \<and> saved_chain sample_header_lib 5 0 2 db' \<and> canonical_at db' 2 = None"
proof -
  have "chained sample_header_lib 5 (canonical_at empty_header_db (0 - 1)) 0 (map (\<lambda>n. SliceHeader_from (sample_chain_header n)) [0, 1, 2])"
    using caches_ok_from [of sample_header_lib]
    by (simp add: header_prepared(3) sample_chain_header_def sh_hash_ok header_hash_of_def sample_header_lib_def)
  from save_headers_chain [OF this] have "saved_chain sample_header_lib 5 0 3 sample_header_db"
    by (simp add: saved_chain_def sample_header_db_def)
  moreover have "canonical_at sample_header_db 3 = None"
    by (simp add: sample_header_db_def canonical_at_def save_headers_def save_header_other header_prepared(3) sample_chain_header_def
        empty_header_db_def)
  ultimately obtain db' where r: "save_unwind (of_nat 1) sample_header_db = Some (Inr (), db')" "saved_chain sample_header_lib 5 0 (Suc 1) db'"
    "\<forall>k \<in> {1<..3}. canonical_at db' k = None"
    using header_unwind_chain [of sample_header_lib 5 0 3 sample_header_db 1] by auto
  then have "canonical_at db' 2 = None" by simp
  with r(1) r(2) [unfolded Suc_1] show ?thesis by simp
qed

end
