(* ===== verification/PreverifiedDownload.thy ===== *)
theory PreverifiedDownload
  imports LinearTheorems
begin

text \<open>
  The downloader that checks slices against known hashes, \<open>downloader_preverified.rs\<close>. What it accepts is a piece of the known chain;
  a piece of one header is accepted where 193 were asked for.
\<close>

section \<open>The downloader\<close>

record preverified_state =
  pv_window :: HeaderSlices
  pv_request_id :: u64
  pv_db :: HeaderDb
  pv_peer_top_blocks :: "(PeerId \<times> u64) list"

record DownloaderPreverifiedReport =
  dp_loaded_count :: nat
  dp_final_block_num :: u64
  dp_target_final_block_num :: u64
  dp_estimated_top_block_num :: "u64 option"

definition preverified_target_final_block_num :: "h256 list \<Rightarrow> u64" where
  "preverified_target_final_block_num hashes = (if hashes = [] then 0 else (of_nat (length hashes) - 1) * of_nat HEADER_SLICE_SIZE)"

text \<open>\<open>DownloaderPreverified::run\<close> up to its loop.\<close>

definition DownloaderPreverified_begin ::
  "nat \<Rightarrow> nat \<Rightarrow> h256 list \<Rightarrow> u64 \<Rightarrow> nat \<Rightarrow> HeaderDb \<Rightarrow> (DownloaderPreverifiedReport + preverified_state) option" where
  "DownloaderPreverified_begin header_size mem_limit hashes start_block_num max_blocks_count db =
     (let start_block_num = align_block_num_to_slice_start start_block_num;
          target_final_block_num = preverified_target_final_block_num hashes;
          final_block_num = limited_final_block_num target_final_block_num start_block_num max_blocks_count
      in if start_block_num \<ge> final_block_num
         then Some (Inl \<lparr>dp_loaded_count = 0, dp_final_block_num = start_block_num,
           dp_target_final_block_num = target_final_block_num, dp_estimated_top_block_num = None\<rparr>)
         else do {
           w \<leftarrow> HeaderSlices_new header_size mem_limit start_block_num final_block_num;
           Some (Inr \<lparr>pv_window = w, pv_request_id = 0, pv_db = db, pv_peer_top_blocks = []\<rparr>) })"

definition DownloaderPreverified_report :: "h256 list \<Rightarrow> u64 \<Rightarrow> preverified_state \<Rightarrow> DownloaderPreverifiedReport" where
  "DownloaderPreverified_report hashes start_block_num x = \<lparr>
     dp_loaded_count = unat (min_block_num (pv_window x) - align_block_num_to_slice_start start_block_num),
     dp_final_block_num = min_block_num (pv_window x),
     dp_target_final_block_num = preverified_target_final_block_num hashes,
     dp_estimated_top_block_num = average_peer_block_num (pv_peer_top_blocks x)\<rparr>"

inductive preverified_step :: "header_lib \<Rightarrow> h256 list \<Rightarrow> preverified_state \<Rightarrow> preverified_state \<Rightarrow> bool" for L hashes where
  PFetchRequest: "request_pending send (HEADER_SLICE_SIZE + 1) now (pv_request_id x) (pv_window x) = (r, request_id, w) \<Longrightarrow>
    preverified_step L hashes x (x\<lparr>pv_window := w, pv_request_id := request_id\<rparr>)"
| PFetchReceive: "preverified_step L hashes x (x\<lparr>pv_window := on_headers_message headers peer (pv_window x)\<rparr>)"
| PRetry: "preverified_step L hashes x (x\<lparr>pv_window := retry_pending now (pv_window x)\<rparr>)"
| PVerify: "verify_preverified_pending L hashes num_cpus (pv_window x) = Some w \<Longrightarrow>
    preverified_step L hashes x (x\<lparr>pv_window := w\<rparr>)"
| PPenalize: "penalize_execute penalize_peer (pv_window x) = (q, w) \<Longrightarrow> preverified_step L hashes x (x\<lparr>pv_window := w\<rparr>)"
| PSave: "save_execute L SaveMonotonic True (pv_db x, pv_window x) = (s, db, w) \<Longrightarrow>
    preverified_step L hashes x (x\<lparr>pv_window := w, pv_db := db\<rparr>)"
| PRefill: "preverified_step L hashes x (x\<lparr>pv_window := refill_pending (pv_window x)\<rparr>)"
| PTopBlock: "preverified_step L hashes x (x\<lparr>pv_peer_top_blocks := on_block_hashes_message block_nums peer (pv_peer_top_blocks x)\<rparr>)"

section \<open>What is accepted\<close>

lemma linked_slice_genuine:
  assumes "verify_slice_is_linked_by_parent_hash L headers" "list_all (caches_ok L) headers" "headers \<noteq> []"
    and "sh_hash L (last headers) = header_hash_of L (T (n + length headers - 1))"
    and "\<And>m. n \<le> m \<Longrightarrow> Suc m < n + length headers \<Longrightarrow> bh_parent_hash (T (Suc m)) = header_hash_of L (T m)"
    and "inj_on (header_hash_of L) (sh_header ` set headers \<union> T ` {n..<n + length headers})"
  shows "map sh_header headers = map T [n..<n + length headers]"
  using assms
proof (induction headers arbitrary: n)
  case (Cons h hs)
  have inj: "sh_header h = T n" if "header_hash_of L (sh_header h) = header_hash_of L (T n)"
    using inj_onD [OF Cons.prems(6) that] by auto
  show ?case
  proof (cases hs)
    case Nil
    then have "sh_header h = T n" using Cons.prems(2,4) sh_hash_ok [of L h] by (intro inj) simp
    then show ?thesis using Nil by simp
  next
    case (Cons c cs)
    have "map sh_header hs = map T [Suc n..<Suc n + length hs]"
    proof (rule Cons.IH)
      show "verify_slice_is_linked_by_parent_hash L hs" using Cons.prems(1) Cons by (simp add: verify_slice_is_linked_by_parent_hash_def)
      show "inj_on (header_hash_of L) (sh_header ` set hs \<union> T ` {Suc n..<Suc n + length hs})" by (rule inj_on_subset [OF Cons.prems(6)]) auto
    qed (use Cons.prems Cons in auto)
    moreover from this have c: "sh_header c = T (Suc n)" using Cons by (simp add: upt_conv_Cons del: upt_Suc)
    have "bh_parent_hash (sh_header c) = sh_hash L h"
      using Cons.prems(1) Cons by (simp add: verify_slice_is_linked_by_parent_hash_def verify_link_by_parent_hash_def)
    then have "header_hash_of L (sh_header h) = header_hash_of L (T n)" using c Cons.prems(2) Cons.prems(5) [of n] Cons sh_hash_ok [of L h] by simp
    then have "sh_header h = T n" by (rule inj)
    ultimately show ?thesis by (simp add: upt_conv_Cons del: upt_Suc)
  qed
qed simp

lemma genuine_slice_linked:
  assumes "map sh_header headers = map T [n..<n + length headers]" "list_all (caches_ok L) headers"
    and "\<And>m. n \<le> m \<Longrightarrow> Suc m < n + length headers \<Longrightarrow> bh_parent_hash (T (Suc m)) = header_hash_of L (T m)"
  shows "verify_slice_is_linked_by_parent_hash L headers"
  using assms unfolding verify_slice_is_linked_by_parent_hash_def
proof (induction headers arbitrary: n)
  case (Cons h hs)
  show ?case
  proof (cases hs)
    case (Cons c cs)
    have hs: "sh_header h = T n" "map sh_header hs = map T [Suc n..<Suc n + length hs]"
      using Cons.prems(1) by (simp_all add: upt_conv_Cons del: upt_Suc)
    then have "sh_header c = T (Suc n)" using Cons by (simp add: upt_conv_Cons del: upt_Suc)
    then have "verify_link_by_parent_hash L c h"
      using hs(1) Cons Cons.prems(2) Cons.prems(3) [of n] sh_hash_ok [of L h] by (simp add: verify_link_by_parent_hash_def)
    moreover have "all_pairs (verify_link_by_parent_hash L) hs" by (rule Cons.IH [OF hs(2)]) (use Cons.prems in auto)
    ultimately show ?thesis using Cons by simp
  qed simp
qed simp

lemma preverified_hash_exact:
  assumes "\<And>k. k < length hashes \<Longrightarrow> hashes ! k = header_hash_of L (T (HEADER_SLICE_SIZE * k))"
  shows "preverified_hash hashes n = Some x \<longleftrightarrow>
    HEADER_SLICE_SIZE dvd unat n \<and> unat n div HEADER_SLICE_SIZE < length hashes \<and> x = header_hash_of L (T (unat n))"
proof -
  have "n mod 192 = 0 \<longleftrightarrow> unat (n mod 192) = 0" by (simp only: unat_eq_0)
  then have m: "n mod 192 = 0 \<longleftrightarrow> 192 dvd unat n" by (simp add: unat_mod dvd_eq_mod_eq_0)
  have d: "unat (n div 192) = unat n div 192" by (simp add: unat_div)
  show ?thesis using assms [of "unat n div 192"] m d
    by (auto simp: preverified_hash_def HEADER_SLICE_SIZE_def Let_def dvd_mult_div_cancel)
qed

text \<open>C26: When the preverified hashes are those of every 192nd header of a chain, the preverified stage accepts a slice exactly when its
  headers are, one by one, those of the chain from the start of the slice on, and the first and the last of them have numbers that are
  multiples of 192 and have a preverified hash. (Hashes of the headers in question are taken to be different.) Nothing asks for the
  193 headers that were requested: the first header alone is such a slice.\<close>

theorem preverified_slice_exact:
  assumes "sl_headers s = Some headers" "list_all (caches_ok L) headers"
    and len: "unat (sl_start_block_num s) + length headers \<le> 2 ^ 64"
    and hashes: "\<And>k. k < length hashes \<Longrightarrow> hashes ! k = header_hash_of L (T (HEADER_SLICE_SIZE * k))"
    and chain: "\<And>m. Suc m < unat (sl_start_block_num s) + length headers \<Longrightarrow> bh_parent_hash (T (Suc m)) = header_hash_of L (T m)"
    and inj: "inj_on (header_hash_of L) (sh_header ` set headers \<union> T ` {unat (sl_start_block_num s)..<unat (sl_start_block_num s) + length headers})"
  shows "preverified_verify_slice L hashes s \<longleftrightarrow> headers \<noteq> []
    \<and> map sh_header headers = map T [unat (sl_start_block_num s)..<unat (sl_start_block_num s) + length headers]
    \<and> HEADER_SLICE_SIZE dvd unat (sl_start_block_num s) \<and> HEADER_SLICE_SIZE dvd unat (sl_start_block_num s) + length headers - 1
    \<and> (unat (sl_start_block_num s) + length headers - 1) div HEADER_SLICE_SIZE < length hashes"
proof (cases "headers = []")
  case True
  with assms(1) show ?thesis by (simp add: preverified_verify_slice_def)
next
  case False
  let ?n = "unat (sl_start_block_num s)" and ?e = "sl_start_block_num s + of_nat (length headers) - 1"
  have "?e = of_nat (?n + length headers - 1)" using False by (cases headers) simp_all
  moreover have "?n + length headers - 1 < 2 ^ 64" using len False by (cases headers) simp_all
  ultimately have e: "unat ?e = ?n + length headers - 1" using u64_of_nat by metis
  have c: "caches_ok L (hd headers)" "caches_ok L (last headers)" using assms(2) False by (simp_all add: list_all_iff)
  note P = preverified_hash_exact [of hashes L T, OF hashes]
  have code: "preverified_verify_slice L hashes s \<longleftrightarrow>
      HEADER_SLICE_SIZE dvd ?n \<and> ?n div HEADER_SLICE_SIZE < length hashes \<and> header_hash_of L (sh_header (hd headers)) = header_hash_of L (T ?n)
    \<and> HEADER_SLICE_SIZE dvd ?n + length headers - 1 \<and> (?n + length headers - 1) div HEADER_SLICE_SIZE < length hashes
    \<and> header_hash_of L (sh_header (last headers)) = header_hash_of L (T (?n + length headers - 1))
    \<and> verify_slice_is_linked_by_parent_hash L headers"
    using assms(1) False by (simp add: preverified_verify_slice_def P e sh_hash_ok [OF c(1)] sh_hash_ok [OF c(2)])
  have ends: "sh_header (hd headers) = T ?n" "sh_header (last headers) = T (?n + length headers - 1)"
    if "map sh_header headers = map T [?n..<?n + length headers]"
    using arg_cong [OF that, of hd] arg_cong [OF that, of last] False by (simp_all add: hd_map last_map)
  have le: "?n div HEADER_SLICE_SIZE \<le> (?n + length headers - 1) div HEADER_SLICE_SIZE" using False by (intro div_le_mono) (cases headers; simp)
  show ?thesis unfolding code
  proof (intro iffI conjI; elim conjE)
    assume "verify_slice_is_linked_by_parent_hash L headers"
      "header_hash_of L (sh_header (last headers)) = header_hash_of L (T (?n + length headers - 1))"
    then show "map sh_header headers = map T [?n..<?n + length headers]"
      using linked_slice_genuine [OF _ assms(2) False _ chain inj] sh_hash_ok [OF c(2)] by simp
  next
    assume "map sh_header headers = map T [?n..<?n + length headers]"
    then show "verify_slice_is_linked_by_parent_hash L headers" using genuine_slice_linked [of headers T ?n L] assms(2) chain by blast
  qed (use False ends le in auto)
qed

definition numbered_header_lib :: header_lib where
  "numbered_header_lib = \<lparr>hl_rlp = (\<lambda>h. replicate (unat (bh_number h)) 0), hl_keccak256 = (\<lambda>bytes. of_nat (length bytes))\<rparr>"

definition numbered_header :: "nat \<Rightarrow> BlockHeader" where
  "numbered_header n = sample_block_header\<lparr>bh_number := of_nat n, bh_parent_hash := of_nat (n - 1)\<rparr>"

lemma numbered_header_hash: "n < 1000 \<Longrightarrow> header_hash_of numbered_header_lib (numbered_header n) = of_nat n"
  by (simp add: header_hash_of_def numbered_header_lib_def numbered_header_def u64_of_nat)

theorem preverified_slice_exact_witness:
  "preverified_verify_slice numbered_header_lib [0, 192]
     ((empty_slice 0)\<lparr>sl_headers := Some (map (\<lambda>n. SliceHeader_from (numbered_header n)) [0..<193])\<rparr>)"
proof -
  let ?L = numbered_header_lib and ?hs = "map (\<lambda>n. SliceHeader_from (numbered_header n)) [0..<193]"
  let ?s = "(empty_slice 0)\<lparr>sl_headers := Some ?hs\<rparr>"
  have parent: "bh_parent_hash (numbered_header (Suc n)) = of_nat n" for n by (simp add: numbered_header_def)
  have "inj_on (header_hash_of ?L) (sh_header ` set ?hs \<union> numbered_header ` {0..<193})"
  proof -
    have "(of_nat i :: h256) = of_nat j \<Longrightarrow> i = j" if "i < 193" "j < 193" for i j
      using that by (simp add: word_of_nat_eq_iff take_bit_nat_eq_self)
    then have "inj_on (header_hash_of ?L) (numbered_header ` {0..<193})" by (auto simp: inj_on_def numbered_header_hash intro!: arg_cong [of _ _ numbered_header])
    moreover have "sh_header ` set ?hs \<union> numbered_header ` {0..<193} = numbered_header ` {0..<193}"
      by (auto simp: header_prepared(3))
    ultimately show ?thesis by (simp only:)
  qed
  moreover have "[0, 192] ! k = header_hash_of ?L (numbered_header (HEADER_SLICE_SIZE * k))" if "k < length [0 :: h256, 192]" for k
    using that numbered_header_hash [of 0] numbered_header_hash [of 192] by (auto simp: less_Suc_eq HEADER_SLICE_SIZE_def)
  moreover have "bh_parent_hash (numbered_header (Suc m)) = header_hash_of ?L (numbered_header m)" if "Suc m < 193" for m
    using that by (simp add: parent numbered_header_hash)
  ultimately show ?thesis
    using preverified_slice_exact [of ?s ?hs ?L "[0, 192]" numbered_header]
    by (simp add: list_all_iff caches_ok_from empty_slice_def HeaderSlice_default_def comp_def header_prepared(3) HEADER_SLICE_SIZE_def)
qed

section \<open>What is skipped\<close>

text \<open>A slice whose only header is the first of the slice passes: its first and its last header are the same preverified one.\<close>

lemma single_header_accepted:
  assumes "sl_headers s = Some [h]" "caches_ok L h" "preverified_hash hashes (sl_start_block_num s) = Some (header_hash_of L (sh_header h))"
  shows "preverified_verify_slice L hashes s"
  using assms sh_hash_ok [OF assms(2)] by (simp add: preverified_verify_slice_def verify_slice_is_linked_by_parent_hash_def)

definition single_slice_window :: HeaderSlices where
  "single_slice_window = \<lparr>hs_slices = [empty_slice 0], hs_max_slices = 1, hs_max_block_num = 192, hs_final_block_num = 192,
     hs_counts = make_state_watches_from_slices [empty_slice 0]\<rparr>"

lemma single_slice_begin:
  "DownloaderPreverified_begin 1 192 [a, b] 0 192 db = Some (Inr
     \<lparr>pv_window = single_slice_window, pv_request_id = 0, pv_db = db, pv_peer_top_blocks = []\<rparr>)"
  by (simp add: DownloaderPreverified_begin_def preverified_target_final_block_num_def limited_final_block_num_def
      is_block_num_aligned_to_slice_start_def align_block_num_to_slice_start_def HEADER_SLICE_SIZE_def HeaderSlices_new_def
      from_slices_vec_def estimate_max_slices_for_mem_limit_def single_slice_window_def Let_def)

lemma front_refilled:
  assumes "front (1, 192, 192) s [] w" "sl_status s = SliceSaved"
  shows "hs_slices (refill_pending w) = []" "hs_max_block_num (refill_pending w) = 192" "hs_final_block_num (refill_pending w) = 192"
proof -
  have w: "hs_slices w = [s]" "hs_max_slices w = Suc 0" "hs_max_block_num w = 192" "hs_final_block_num w = 192"
    using frontD(1,4) [OF assms(1)] by simp_all
  show "hs_slices (refill_pending w) = []" "hs_max_block_num (refill_pending w) = 192" "hs_final_block_num (refill_pending w) = 192"
    using assms(2) by (simp_all add: refill_pending_def slices_refill_def slices_remove_def count_sub_def count_add_def Let_def w)
qed

text \<open>The preverified downloader can come to its end with 191 of 192 headers missing. For every genesis header there is a run in which a peer
  answers the request for a slice with the first header alone; the run ends at the final block and reports 192 headers as loaded,
  and no number but zero has a canonical header.\<close>

theorem preverified_skips_headers:
  assumes "bh_number h = 0"
  shows "\<exists>x y. DownloaderPreverified_begin 1 192 [header_hash_of L h, a] 0 192 empty_header_db = Some (Inr x)
    \<and> (preverified_step L [header_hash_of L h, a])\<^sup>*\<^sup>* x y \<and> is_empty_at_final_position (pv_window y)
    \<and> dp_loaded_count (DownloaderPreverified_report [header_hash_of L h, a] 0 y) = 192
    \<and> hd_canonical_header (pv_db y) = [0 \<mapsto> header_hash_of L h]"
proof -
  let ?hashes = "[header_hash_of L h, a]" and ?B = "(1, 192, 192)"
  define x where "x = \<lparr>pv_window = single_slice_window, pv_request_id = 0, pv_db = empty_header_db, pv_peer_top_blocks = []\<rparr>"
  have f: "front ?B (empty_slice 0) [] (pv_window x)" and e: "sl_status (empty_slice 0) = SliceEmpty"
    by (simp_all add: x_def single_slice_window_def front_def counts_ok_def make_state_watches_exact empty_slice_def HeaderSlice_default_def)
  let ?s1 = "(empty_slice 0)\<lparr>sl_request_time := Some 0, sl_status := SliceWaiting\<rparr>"
  obtain r rid w1 where r: "request_pending (\<lambda>rid _ _. if rid = 0 then SendOk else SendQueueFull) (HEADER_SLICE_SIZE + 1) 0 0 (pv_window x) = (r, rid, w1)"
    and f1: "front ?B ?s1 [] w1" using front_request [OF f e] by blast
  let ?x1 = "x\<lparr>pv_window := w1, pv_request_id := rid\<rparr>"
  have "preverified_step L ?hashes x ?x1" using r by (intro PFetchRequest) (simp add: x_def)
  moreover
  let ?w2 = "on_headers_message [h] None w1"
  let ?s2 = "?s1\<lparr>sl_headers := Some (map SliceHeader_from [h]), sl_from_peer_id := None, sl_status := SliceDownloaded\<rparr>"
  have f2: "front ?B ?s2 [] ?w2"
    by (rule front_receive [OF f1]) (use assms in \<open>simp_all add: empty_slice_def HeaderSlice_default_def\<close>)
  have "preverified_step L ?hashes ?x1 (?x1\<lparr>pv_window := ?w2\<rparr>)" using PFetchReceive [of L ?hashes ?x1 "[h]" None] by simp
  moreover
  let ?h = "hash_prepare L (SliceHeader_from h)"
  let ?s3 = "?s2\<lparr>sl_headers := Some [?h], sl_status := SliceVerified\<rparr>"
  have "preverified_verify_slice L ?hashes (?s2\<lparr>sl_headers := Some [?h]\<rparr>)"
  proof (rule single_header_accepted)
    show "caches_ok L ?h" by (rule header_prepared)
    show "preverified_hash ?hashes (sl_start_block_num (?s2\<lparr>sl_headers := Some [?h]\<rparr>)) = Some (header_hash_of L (sh_header ?h))"
      by (simp add: header_prepared(3) preverified_hash_def empty_slice_def HeaderSlice_default_def)
  qed simp
  then obtain w3 where v: "verify_preverified_pending L ?hashes 1 ?w2 = Some w3" and f3: "front ?B ?s3 [] w3"
    using front_verify_loop [OF f2, of SliceVerified "map SliceHeader_from [h]" "\<lambda>s. Some (preverified_verify_slice L ?hashes s)" L]
    by (auto simp: verify_preverified_pending_def)
  have "preverified_step L ?hashes (?x1\<lparr>pv_window := ?w2\<rparr>) (?x1\<lparr>pv_window := w3\<rparr>)"
    using PVerify [of L ?hashes 1 "?x1\<lparr>pv_window := ?w2\<rparr>" w3] v by simp
  moreover
  let ?s4 = "?s3\<lparr>sl_status := SliceSaved\<rparr>" and ?db = "save_headers L True [?h] empty_header_db"
  obtain r4 w4 where sv: "save_execute L SaveMonotonic True (empty_header_db, w3) = (r4, ?db, w4)" and f4: "front ?B ?s4 [] w4"
    using front_save [OF f3, of "[?h]" L empty_header_db] by auto
  have "preverified_step L ?hashes (?x1\<lparr>pv_window := w3\<rparr>) (?x1\<lparr>pv_window := w4, pv_db := ?db\<rparr>)"
    using PSave [of L "?x1\<lparr>pv_window := w3\<rparr>" r4 ?db w4 ?hashes] sv by (simp add: x_def)
  moreover
  let ?y = "?x1\<lparr>pv_window := refill_pending w4, pv_db := ?db\<rparr>"
  have "preverified_step L ?hashes (?x1\<lparr>pv_window := w4, pv_db := ?db\<rparr>) ?y"
    using PRefill [of L ?hashes "?x1\<lparr>pv_window := w4, pv_db := ?db\<rparr>"] by (simp add: x_def)
  ultimately have "(preverified_step L ?hashes)\<^sup>*\<^sup>* x ?y"
    by (meson converse_rtranclp_into_rtranclp rtranclp.rtrancl_refl)
  moreover have "is_empty_at_final_position (pv_window ?y)" "dp_loaded_count (DownloaderPreverified_report ?hashes 0 ?y) = 192"
    using front_refilled [OF f4]
    by (simp_all add: is_empty_at_final_position_def DownloaderPreverified_report_def min_block_num_def align_block_num_to_slice_start_def)
  moreover have "hd_canonical_header (pv_db ?y) = [0 \<mapsto> header_hash_of L h]"
    using assms by (simp add: save_headers_def save_header_def update_canonical_chain_header_def header_prepared empty_header_db_def Let_def
        split: option.split)
  ultimately show ?thesis using single_slice_begin x_def by blast
qed

theorem preverified_skips_headers_witness:
  "\<exists>x y. (preverified_step numbered_header_lib [0, 192])\<^sup>*\<^sup>* x y \<and> is_empty_at_final_position (pv_window y)
    \<and> hd_canonical_header (pv_db y) 191 = None"
proof -
  have "header_hash_of numbered_header_lib (numbered_header 0) = 0" using numbered_header_hash [of 0] by simp
  with preverified_skips_headers [of "numbered_header 0" numbered_header_lib 192] obtain x y where
    "(preverified_step numbered_header_lib [0, 192])\<^sup>*\<^sup>* x y" "is_empty_at_final_position (pv_window y)"
    "hd_canonical_header (pv_db y) = [0 \<mapsto> 0]"
    by (auto simp: numbered_header_def)
  then show ?thesis by (intro exI [of _ x] exI [of _ y]) simp
qed

text \<open>The loop of the stage that checks preverified hashes ends, whatever has been downloaded, and leaves no slice in the status it takes.\<close>

theorem verify_preverified_returns:
  "\<exists>w'. verify_preverified_pending L hashes num_cpus w = Some w' \<and> slices_in SliceDownloaded (hs_slices w') = 0"
  unfolding verify_preverified_pending_def by (rule verify_pending_loop_returns) simp_all

end
