(* ===== verification/ForkMode.thy ===== *)
theory ForkMode
  imports HeaderStages
begin

text \<open>
  Forks near the tip of the chain: \<open>stages/fork_mode_stage.rs\<close>, \<open>stages/fork_switch_command.rs\<close>,
  and \<open>stages/verify_link_forky_stage.rs\<close> of \<open>src/downloader/headers_downloader\<close>.

  The two windows that the stages share are arguments; a slice behind a lock is its position in its window. An \<open>unwrap\<close> of a
  missing slice and a failed assertion panic, as \<open>None\<close>; a loop that does not end is \<open>None\<close> too.
\<close>

section \<open>Ranges\<close>

record ForkSwitchCommand =
  fc_canonical_range :: block_range
  fc_fork_range :: block_range
  fc_connection_block_num :: u64

record ForkModeStage =
  fm_canonical_range :: block_range
  fm_fork_range :: block_range
  fm_pending_switch_to_fork_command :: "ForkSwitchCommand option"
  fm_remaining_count :: nat
  fm_fork_remaining_count :: nat

definition range_is_empty :: "block_range \<Rightarrow> bool" where
  "range_is_empty r \<longleftrightarrow> \<not> fst r < snd r"

fun canonical_range_loop :: "HeaderSlice list \<Rightarrow> block_range \<Rightarrow> block_range" where
  "canonical_range_loop [] r = r"
| "canonical_range_loop (s # ss) r =
     (let r = (if fst r = 0 \<and> range_is_empty r then (sl_start_block_num s, sl_start_block_num s) else r)
      in if is_canonical_slice_status (sl_status s) then canonical_range_loop ss (fst r, snd (block_num_range s)) else r)"

definition find_canonical_range :: "HeaderSlices \<Rightarrow> block_range" where
  "find_canonical_range w = canonical_range_loop (hs_slices w) (0, 0)"

fun fork_range_loop :: "HeaderSlice list \<Rightarrow> block_range \<Rightarrow> block_range" where
  "fork_range_loop [] r = r"
| "fork_range_loop (s # ss) r =
     (let r = (if fst r = 0 \<and> range_is_empty r then (snd (block_num_range s), snd (block_num_range s)) else r)
      in if is_canonical_slice_status (sl_status s) then fork_range_loop ss (sl_start_block_num s, snd r) else r)"

definition find_fork_range :: "HeaderSlices \<Rightarrow> block_range" where
  "find_fork_range w = fork_range_loop (rev (hs_slices w)) (0, 0)"

definition ForkModeStage_new :: "HeaderSlices \<Rightarrow> HeaderSlices \<Rightarrow> ForkModeStage" where
  "ForkModeStage_new w fw = \<lparr>fm_canonical_range = find_canonical_range w, fm_fork_range = find_fork_range fw,
     fm_pending_switch_to_fork_command = None, fm_remaining_count = 0, fm_fork_remaining_count = 0\<rparr>"

section \<open>Slices at the ends of the two chains\<close>

definition find_canonical_continuation_slice :: "ForkModeStage \<Rightarrow> HeaderSlices \<Rightarrow> nat option" where
  "find_canonical_continuation_slice st w = find_by_block_num w (snd (fm_canonical_range st))"

definition find_fork_continuation_slice :: "ForkModeStage \<Rightarrow> HeaderSlices \<Rightarrow> nat option" where
  "find_fork_continuation_slice st fw =
     (if fst (fm_fork_range st) = 0 then None else find_by_block_num fw (fst (fm_fork_range st) - 1))"

definition find_canonical_last_slice :: "ForkModeStage \<Rightarrow> HeaderSlices \<Rightarrow> nat option" where
  "find_canonical_last_slice st w =
     (if snd (fm_canonical_range st) = 0 then None else find_by_block_num w (snd (fm_canonical_range st) - 1))"

definition find_fork_first_slice :: "ForkModeStage \<Rightarrow> HeaderSlices \<Rightarrow> nat option" where
  "find_fork_first_slice st fw = find_by_block_num fw (fst (fm_fork_range st))"

definition refetch_slice :: "nat \<Rightarrow> HeaderSlices \<Rightarrow> HeaderSlices" where
  "refetch_slice i w = update_slice i (\<lambda>s. s\<lparr>sl_headers := None, sl_refetch_attempt := sl_refetch_attempt s + 1\<rparr>) (set_slice_status i SliceEmpty w)"

definition verify_slices_link :: "chain_rules \<Rightarrow> HeaderSlice \<Rightarrow> HeaderSlice \<Rightarrow> bool option" where
  "verify_slices_link R child_slice parent_slice = (case (sl_headers child_slice, sl_headers parent_slice) of
       (Some (child # _), Some (p # ps)) \<Rightarrow> vf_verify_link (cr_verifier R) (cr_lib R) child (last (p # ps)) (cr_chain_spec R)
     | _ \<Rightarrow> Some False)"

definition try_extend_canonical ::
  "chain_rules \<Rightarrow> nat \<Rightarrow> ForkModeStage \<times> HeaderSlices \<Rightarrow> (bool \<times> ForkModeStage \<times> HeaderSlices) option" where
  "try_extend_canonical R i = (\<lambda>(st, w). case find_canonical_last_slice st w of
       None \<Rightarrow> Some (False, st, w)
     | Some j \<Rightarrow> do {
         linked \<leftarrow> verify_slices_link R (hs_slices w ! i) (hs_slices w ! j);
         Some (if linked then
           (let w = update_slice i (\<lambda>s. s\<lparr>sl_refetch_attempt := 0\<rparr>) (set_slice_status i SliceVerified w)
            in (True, st\<lparr>fm_canonical_range := (fst (fm_canonical_range st), snd (block_num_range (hs_slices w ! i)))\<rparr>, w))
           else (False, st, w)) })"

definition try_extend_fork ::
  "chain_rules \<Rightarrow> nat \<Rightarrow> ForkModeStage \<times> HeaderSlices \<Rightarrow> (bool \<times> ForkModeStage \<times> HeaderSlices) option" where
  "try_extend_fork R i = (\<lambda>(st, fw). case find_fork_first_slice st fw of
       None \<Rightarrow> Some (False, st, fw)
     | Some j \<Rightarrow> do {
         linked \<leftarrow> verify_slices_link R (hs_slices fw ! j) (hs_slices fw ! i);
         Some (if linked then
           (let fw = update_slice i (\<lambda>s. s\<lparr>sl_refetch_attempt := 0\<rparr>) (set_slice_status i SliceVerified fw)
            in (True, st\<lparr>fm_fork_range := (fst (block_num_range (hs_slices fw ! i)), snd (fm_fork_range st))\<rparr>, fw))
           else (False, st, fw)) })"

section \<open>Comparing the chains\<close>

text \<open>The last position at which the first slice of the fork has the header of the canonical chain.\<close>

definition find_fork_connection_block_num :: "header_lib \<Rightarrow> ForkModeStage \<Rightarrow> HeaderSlices \<Rightarrow> HeaderSlices \<Rightarrow> u64 option" where
  "find_fork_connection_block_num L st w fw = do {
     i \<leftarrow> find_fork_first_slice st fw;
     j \<leftarrow> find_by_start_block_num w (sl_start_block_num (hs_slices fw ! i));
     canonical_headers \<leftarrow> sl_headers (hs_slices w ! j);
     fork_headers \<leftarrow> sl_headers (hs_slices fw ! i);
     map_option (\<lambda>(header, _). sh_number header)
       (find (\<lambda>(header, fork_header). sh_hash L header = sh_hash L fork_header) (rev (zip canonical_headers fork_headers))) }"

fun difficulty_of_headers :: "SliceHeader list \<Rightarrow> block_range \<Rightarrow> u64 \<times> u256 \<Rightarrow> u64 \<times> u256" where
  "difficulty_of_headers [] r nd = nd"
| "difficulty_of_headers (h # hs) r (num, difficulty) =
     (if range_contains r num then difficulty_of_headers hs r (num + 1, difficulty + bh_difficulty (sh_header h)) else (num, difficulty))"

partial_function (option) range_difficulty_loop :: "HeaderSlices \<Rightarrow> block_range \<Rightarrow> u64 \<Rightarrow> u256 \<Rightarrow> u256 option" where
  "range_difficulty_loop w r num difficulty =
     (if \<not> range_contains r num then Some difficulty
      else case find_by_block_num w num of
          None \<Rightarrow> Some difficulty
        | Some i \<Rightarrow>
            (let s = hs_slices w ! i
             in if \<not> is_canonical_slice_status (sl_status s) then Some difficulty
                else case sl_headers s of
                    None \<Rightarrow> Some difficulty
                  | Some headers \<Rightarrow>
                      (case difficulty_of_headers (drop (unat (num - sl_start_block_num s)) headers) r (num, difficulty) of
                         (num, difficulty) \<Rightarrow> range_difficulty_loop w r num difficulty)))"

definition range_difficulty :: "HeaderSlices \<Rightarrow> block_range \<Rightarrow> u64 \<Rightarrow> u256 option" where
  "range_difficulty w r connection_block_num = range_difficulty_loop w r (connection_block_num + 1) 0"

section \<open>The stage\<close>

definition discard_fork :: "ForkModeStage \<times> HeaderSlices \<Rightarrow> ForkModeStage \<times> HeaderSlices" where
  "discard_fork = (\<lambda>(st, fw). (st\<lparr>fm_fork_range := (snd (fm_fork_range st), snd (fm_fork_range st))\<rparr>, slices_clear fw))"

definition request_switch_to_fork :: "u64 \<Rightarrow> ForkModeStage \<Rightarrow> ForkModeStage" where
  "request_switch_to_fork connection_block_num st = st\<lparr>fm_pending_switch_to_fork_command := Some
     \<lparr>fc_canonical_range = fm_canonical_range st, fc_fork_range = fm_fork_range st, fc_connection_block_num = connection_block_num\<rparr>\<rparr>"

type_synonym fork_state = "ForkModeStage \<times> HeaderSlices \<times> HeaderSlices"

text \<open>\<open>setup\<close>: the slice that did not link becomes the fork, its place in the canonical chain is fetched again.\<close>

definition fork_setup :: "fork_state \<Rightarrow> (string + unit) \<times> fork_state" where
  "fork_setup = (\<lambda>(st, w, fw). case find_canonical_continuation_slice st w of
       None \<Rightarrow> (Inl ''ForkModeStage.setup: initial fork slice not found'', st, w, fw)
     | Some i \<Rightarrow>
         (let s = hs_slices w ! i
          in if sl_status s \<noteq> SliceFork then (Inl ''ForkModeStage.setup: initial fork slice invalid status'', st, w, fw)
             else
               let w = refetch_slice i w;
                   fork_initial_slice = HeaderSlice_default\<lparr>sl_start_block_num := sl_start_block_num s, sl_status := SliceVerified,
                     sl_headers := sl_headers s, sl_from_peer_id := sl_from_peer_id s\<rparr>;
                   fw = reset_to_single_slice fork_initial_slice fw;
                   st = st\<lparr>fm_fork_range := block_num_range fork_initial_slice\<rparr>
               in case prepend_slice fw of
                    Inl e \<Rightarrow> (Inl e, st, w, fw)
                  | Inr fw \<Rightarrow> (Inr (), st, w, fw)))"

text \<open>The first part of \<open>process_pending\<close>: a continuation that has been verified internally is linked, or fetched again.\<close>

definition extend_canonical_pending ::
  "chain_rules \<Rightarrow> nat \<Rightarrow> ForkModeStage \<times> HeaderSlices \<Rightarrow> ((bool \<times> nat) \<times> ForkModeStage \<times> HeaderSlices) option" where
  "extend_canonical_pending R pending_count = (\<lambda>(st, w). case find_canonical_continuation_slice st w of
       Some i \<Rightarrow>
         (if sl_status (hs_slices w ! i) = SliceVerifiedInternally \<and> 0 < pending_count then do {
            (did_extend, st, w) \<leftarrow> try_extend_canonical R i (st, w);
            Some ((did_extend, 1), st, if did_extend then w else refetch_slice i w) }
          else Some ((False, 0), st, w))
     | None \<Rightarrow> Some ((False, 0), st, w))"

definition extend_fork_pending ::
  "chain_rules \<Rightarrow> nat \<Rightarrow> ForkModeStage \<times> HeaderSlices \<Rightarrow> ((bool \<times> nat) \<times> ForkModeStage \<times> HeaderSlices) option" where
  "extend_fork_pending R fork_pending_count = (\<lambda>(st, fw). case find_fork_continuation_slice st fw of
       Some i \<Rightarrow>
         (if sl_status (hs_slices fw ! i) = SliceVerifiedInternally \<and> 0 < fork_pending_count then do {
            (did_extend, st, fw) \<leftarrow> try_extend_fork R i (st, fw);
            Some ((did_extend, 1), st, if did_extend then fw else refetch_slice i fw) }
          else Some ((False, 0), st, fw))
     | None \<Rightarrow> Some ((False, 0), st, fw))"

text \<open>Where the fork meets the canonical chain the heavier one wins; a fork that reaches the start of the window is dropped.\<close>

definition decide_fork :: "header_lib \<Rightarrow> fork_state \<Rightarrow> (bool \<times> fork_state) option" where
  "decide_fork L = (\<lambda>(st, w, fw). case find_fork_connection_block_num L st w fw of
       Some connection_block_num \<Rightarrow> do {
         fork_range_difficulty \<leftarrow> range_difficulty fw (fm_fork_range st) connection_block_num;
         canonical_range_difficulty \<leftarrow> range_difficulty w (fm_canonical_range st) connection_block_num;
         Some (True, if fork_range_difficulty > canonical_range_difficulty then (request_switch_to_fork connection_block_num st, w, fw)
           else (case discard_fork (st, fw) of (st, fw) \<Rightarrow> (st, w, fw))) }
     | None \<Rightarrow>
         Some (if fst (fm_fork_range st) = fst (fm_canonical_range st)
               then (True, case discard_fork (st, fw) of (st, fw) \<Rightarrow> (st, w, fw)) else (False, st, w, fw)))"

definition continue_canonical :: "nat \<Rightarrow> nat \<Rightarrow> ForkModeStage \<times> HeaderSlices \<Rightarrow> nat \<times> HeaderSlices" where
  "continue_canonical pending_count updated_count = (\<lambda>(st, w). case find_canonical_continuation_slice st w of
       Some i \<Rightarrow>
         (if sl_status (hs_slices w ! i) = SliceVerifiedInternally \<and> updated_count < pending_count then updated_count + 1 else updated_count,
          refetch_slice i w)
     | None \<Rightarrow> (updated_count, w))"

definition process_pending ::
  "chain_rules \<Rightarrow> nat \<Rightarrow> nat \<Rightarrow> fork_state \<Rightarrow> ((string + nat \<times> nat) \<times> fork_state) option" where
  "process_pending R pending_count fork_pending_count = (\<lambda>(st, w, fw). do {
     ((did_extend_canonical, updated_count), st, w) \<leftarrow> extend_canonical_pending R pending_count (st, w);
     ((did_extend_fork, fork_updated_count), st, fw) \<leftarrow> extend_fork_pending R fork_pending_count (st, fw);
     (terminated, st, w, fw) \<leftarrow> (if did_extend_fork then decide_fork (cr_lib R) (st, w, fw) else Some (False, st, w, fw));
     if terminated then Some (Inr (updated_count, fork_updated_count), st, w, fw)
     else
       let (updated_count, w) = (if did_extend_canonical then continue_canonical pending_count updated_count (st, w) else (updated_count, w))
       in Some (if did_extend_fork then
           (case prepend_slice fw of
              Inl e \<Rightarrow> (Inl e, st, w, fw)
            | Inr fw \<Rightarrow> (Inr (updated_count, fork_updated_count), st, w, fw))
         else (Inr (updated_count, fork_updated_count), st, w, fw)) })"

definition fork_mode_execute :: "chain_rules \<Rightarrow> fork_state \<Rightarrow> ((string + unit) \<times> fork_state) option" where
  "fork_mode_execute R = (\<lambda>(st, w, fw). do {
     let pending_count = unat (count_slices_in_status w SliceVerifiedInternally);
     let fork_pending_count = unat (count_slices_in_status fw SliceVerifiedInternally);
     (r, st, w, fw) \<leftarrow> process_pending R pending_count fork_pending_count (st, w, fw);
     Some (case r of
         Inl e \<Rightarrow> (Inl e, st, w, fw)
       | Inr (updated_count, fork_updated_count) \<Rightarrow>
           (Inr (), st\<lparr>fm_remaining_count := pending_count - updated_count, fm_fork_remaining_count := fork_pending_count - fork_updated_count\<rparr>, w, fw)) })"

definition fork_mode_is_done :: "HeaderSlices \<Rightarrow> bool" where
  "fork_mode_is_done fw \<longleftrightarrow> hs_slices fw = []"

definition fork_mode_is_over :: "ForkModeStage \<Rightarrow> bool" where
  "fork_mode_is_over st \<longleftrightarrow> fm_pending_switch_to_fork_command st \<noteq> None"

definition adjust_fork_slices_after_header_slices_trim :: "HeaderSlices \<Rightarrow> HeaderSlices \<Rightarrow> HeaderSlices" where
  "adjust_fork_slices_after_header_slices_trim fw w = (if min_block_num fw \<le> min_block_num w then slices_clear fw else fw)"

section \<open>Switching to the fork\<close>

definition promote_slice :: "HeaderSlice \<Rightarrow> HeaderSlice \<Rightarrow> HeaderSlice" where
  "promote_slice fork_slice s = s\<lparr>sl_headers := sl_headers fork_slice, sl_refetch_attempt := 0\<rparr>"

partial_function (option) promote_fork :: "u64 \<Rightarrow> u64 \<Rightarrow> HeaderSlices \<times> HeaderSlices \<Rightarrow> (u64 \<times> HeaderSlices \<times> HeaderSlices) option" where
  "promote_fork num fork_end ww =
     (if \<not> num < fork_end then Some (num, ww)
      else do {
        i \<leftarrow> find_by_start_block_num (fst ww) num;
        j \<leftarrow> find_by_start_block_num (snd ww) num;
        let fork_slice = hs_slices (snd ww) ! j;
        let w = update_slice i (promote_slice fork_slice) (set_slice_status i (sl_status fork_slice) (fst ww));
        let fw = update_slice j (\<lambda>s. s\<lparr>sl_headers := None\<rparr>) (snd ww);
        promote_fork (num + of_nat (slice_len (hs_slices w ! i))) fork_end (w, fw) })"

partial_function (option) discard_canonical :: "u64 \<Rightarrow> u64 \<Rightarrow> HeaderSlices \<Rightarrow> HeaderSlices option" where
  "discard_canonical num canonical_end w =
     (if \<not> num < canonical_end then Some w
      else do {
        i \<leftarrow> find_by_start_block_num w num;
        let s = hs_slices w ! i;
        if is_canonical_slice_status (sl_status s) \<and> slice_len s > 0
        then discard_canonical (num + of_nat (slice_len s)) canonical_end
          (update_slice i (\<lambda>s. s\<lparr>sl_headers := None, sl_refetch_attempt := 0\<rparr>) (set_slice_status i SliceEmpty w))
        else None })"

definition switch_to_fork :: "ForkSwitchCommand \<Rightarrow> HeaderSlices \<times> HeaderSlices \<Rightarrow> (HeaderSlices \<times> HeaderSlices) option" where
  "switch_to_fork c ww = do {
     (num, w, fw) \<leftarrow> promote_fork (fst (fc_fork_range c)) (snd (fc_fork_range c)) ww;
     let num = align_block_num_to_slice_start (num + of_nat HEADER_SLICE_SIZE - 1);
     w \<leftarrow> discard_canonical num (snd (fc_canonical_range c)) w;
     Some (w, slices_clear fw) }"

text \<open>Headers that were saved with the fork become canonical; the others are saved later by the save stage.\<close>

partial_function (option) update_canonical_chain_loop :: "header_lib \<Rightarrow> u64 \<Rightarrow> u64 \<Rightarrow> u64 \<Rightarrow> HeaderSlices \<Rightarrow> HeaderDb \<Rightarrow> HeaderDb option" where
  "update_canonical_chain_loop L connection num fork_end w db =
     (if \<not> num < fork_end then Some db
      else do {
        i \<leftarrow> find_by_start_block_num w num;
        let s = hs_slices w ! i;
        let headers = (if sl_status s = SliceSaved then (case sl_headers s of Some headers \<Rightarrow> headers | None \<Rightarrow> []) else []);
        update_canonical_chain_loop L connection (num + of_nat (slice_len s)) fork_end w
          (fold (update_canonical_chain_header L) (filter (\<lambda>h. sh_number h > connection) headers) db) })"

definition fork_switch_execute ::
  "header_lib \<Rightarrow> ForkSwitchCommand \<Rightarrow> HeaderSlices \<times> HeaderSlices \<times> HeaderDb \<Rightarrow> (HeaderSlices \<times> HeaderSlices \<times> HeaderDb) option" where
  "fork_switch_execute L c = (\<lambda>(w, fw, db). do {
     (w, fw) \<leftarrow> switch_to_fork c (w, fw);
     db \<leftarrow> update_canonical_chain_loop L (fc_connection_block_num c) (fst (fc_fork_range c)) (snd (fc_fork_range c)) w db;
     Some (w, fw, db) })"

section \<open>The linking stage near the tip\<close>

datatype ForkyMode = LinearMode VerifyLinkLinearStage | ForkingMode ForkModeStage

record VerifyLinkForkyStage =
  vfk_last_verified_header :: "SliceHeader option"
  vfk_start_block_num :: u64
  vfk_mode :: ForkyMode
  vfk_termination_command :: "ForkSwitchCommand option"

definition VerifyLinkForkyStage_new :: "HeaderSlices \<Rightarrow> HeaderSlices \<Rightarrow> SliceHeader option \<Rightarrow> VerifyLinkForkyStage option" where
  "VerifyLinkForkyStage_new w fw last_verified_header = do {
     mode \<leftarrow> (if hs_slices fw = [] then map_option LinearMode (VerifyLinkLinearStage_new w last_verified_header SliceFork)
       else Some (ForkingMode (ForkModeStage_new w fw)));
     Some \<lparr>vfk_last_verified_header = last_verified_header,
       vfk_start_block_num = (case last_verified_header of Some h \<Rightarrow> sh_number h + 1 | None \<Rightarrow> 0),
       vfk_mode = mode, vfk_termination_command = None\<rparr> }"

definition after_linear_mode :: "VerifyLinkForkyStage \<times> HeaderSlices \<times> HeaderSlices \<Rightarrow> (string + unit) \<times> VerifyLinkForkyStage \<times> HeaderSlices \<times> HeaderSlices" where
  "after_linear_mode = (\<lambda>(v, w, fw). case find_by_status w SliceFork of
       None \<Rightarrow> (Inr (), v, w, fw)
     | Some i \<Rightarrow>
         (if sl_start_block_num (hs_slices w ! i) = vfk_start_block_num v then (Inr (), v, set_slice_status i SliceInvalid w, fw)
          else case fork_setup (ForkModeStage_new w fw, w, fw) of
              (Inl e, st, w, fw) \<Rightarrow> (Inl e, v, w, fw)
            | (Inr _, st, w, fw) \<Rightarrow> (Inr (), v\<lparr>vfk_mode := ForkingMode st\<rparr>, w, fw)))"

definition after_fork_mode :: "ForkModeStage \<Rightarrow> VerifyLinkForkyStage \<times> HeaderSlices \<times> HeaderSlices \<Rightarrow> (VerifyLinkForkyStage \<times> HeaderSlices \<times> HeaderSlices) option" where
  "after_fork_mode st = (\<lambda>(v, w, fw).
     if fork_mode_is_over st then
       Some (v\<lparr>vfk_mode := ForkingMode (st\<lparr>fm_pending_switch_to_fork_command := None\<rparr>),
         vfk_termination_command := fm_pending_switch_to_fork_command st\<rparr>, w, fw)
     else if fork_mode_is_done fw then do {
       linear \<leftarrow> VerifyLinkLinearStage_new w (vfk_last_verified_header v) SliceFork;
       Some (v\<lparr>vfk_mode := LinearMode linear\<rparr>, w, fw) }
     else Some (v\<lparr>vfk_mode := ForkingMode st\<rparr>, w, fw))"

definition verify_link_forky_execute ::
  "chain_rules \<Rightarrow> VerifyLinkForkyStage \<times> HeaderSlices \<times> HeaderSlices \<Rightarrow> ((string + unit) \<times> VerifyLinkForkyStage \<times> HeaderSlices \<times> HeaderSlices) option" where
  "verify_link_forky_execute R = (\<lambda>(v, w, fw). case vfk_mode v of
       LinearMode linear \<Rightarrow> do {
         (linear, w) \<leftarrow> link_execute R (linear, w);
         Some (after_linear_mode (v\<lparr>vfk_mode := LinearMode linear\<rparr>, w, fw)) }
     | ForkingMode st \<Rightarrow> do {
         (r, st, w, fw) \<leftarrow> fork_mode_execute R (st, w, fw);
         case r of
           Inl e \<Rightarrow> Some (Inl e, v\<lparr>vfk_mode := ForkingMode st\<rparr>, w, fw)
         | Inr _ \<Rightarrow> do { vww \<leftarrow> after_fork_mode st (v\<lparr>vfk_mode := ForkingMode st\<rparr>, w, fw); Some (Inr (), vww) } })"

end
