(* ===== verification/ForkSafety.thy ===== *)
theory ForkSafety
  imports ForkMode LinearDownload
begin

text \<open>
  The decision between the canonical chain and a fork, and the switch to a fork.
\<close>

section \<open>Chains in a window\<close>

text \<open>A run of canonical slices, all full but the last, in a window of slices that follow each other.\<close>

definition nonempty_slice :: "HeaderSlice \<Rightarrow> bool" where
  "nonempty_slice s \<longleftrightarrow> sl_headers s \<noteq> None \<and> 0 < length (slice_headers s) \<and> length (slice_headers s) \<le> HEADER_SLICE_SIZE"

fun chain_slices :: "HeaderSlice list \<Rightarrow> bool" where
  "chain_slices [] = True"
| "chain_slices [s] = (is_canonical_slice_status (sl_status s) \<and> nonempty_slice s)"
| "chain_slices (s # ss) = (is_canonical_slice_status (sl_status s) \<and> full_slice s \<and> chain_slices ss)"

definition chain_window :: "HeaderSlice list \<Rightarrow> nat \<Rightarrow> HeaderSlice list \<Rightarrow> HeaderSlice list \<Rightarrow> HeaderSlices \<Rightarrow> bool" where
  "chain_window pre base cs post w \<longleftrightarrow> hs_slices w = pre @ cs @ post \<and> chain_slices cs
     \<and> slices_at (base - HEADER_SLICE_SIZE * length pre) (hs_slices w) \<and> HEADER_SLICE_SIZE * length pre \<le> base
     \<and> HEADER_SLICE_SIZE dvd base \<and> base + HEADER_SLICE_SIZE * length (cs @ post) < 2 ^ 64"

lemma chain_slices_append:
  "chain_slices (xs @ ys) \<Longrightarrow> ys \<noteq> [] \<Longrightarrow> (\<forall>s \<in> set xs. is_canonical_slice_status (sl_status s) \<and> full_slice s) \<and> chain_slices ys"
proof (induction xs)
  case (Cons x xs)
  then show ?case by (cases "xs @ ys") auto
qed simp

lemma full_nonempty: "full_slice s \<Longrightarrow> nonempty_slice s"
  by (simp add: full_slice_def nonempty_slice_def HEADER_SLICE_SIZE_def)

lemma chain_slices_Cons: "chain_slices (s # ss) \<Longrightarrow> is_canonical_slice_status (sl_status s) \<and> nonempty_slice s \<and> chain_slices ss"
  by (cases ss) (auto intro: full_nonempty)

lemma chain_slices_length: "chain_slices cs \<Longrightarrow> length (unsaved_headers cs) \<le> HEADER_SLICE_SIZE * length cs"
  by (induction cs rule: chain_slices.induct) (auto simp: nonempty_slice_def full_slice_def)

lemma slices_at_start:
  "slices_at n ss \<Longrightarrow> i < length ss \<Longrightarrow> unat (sl_start_block_num (ss ! i)) = n + HEADER_SLICE_SIZE * i"
proof (induction ss arbitrary: n i)
  case (Cons s ss)
  then show ?case by (cases i) auto
qed simp

lemma find_by_start_at:
  assumes "slices_at n (hs_slices w)" "i < length (hs_slices w)" "unat b = n + HEADER_SLICE_SIZE * i"
  shows "find_by_start_block_num w b = Some i"
proof -
  have hit: "sl_start_block_num (hs_slices w ! i) = b" using slices_at_start [OF assms(1,2)] assms(3) by (simp add: word_unat_eq_iff)
  have "find_slice (\<lambda>s. sl_start_block_num s = b) (hs_slices w) \<noteq> None"
    using hit nth_mem [OF assms(2)] by (auto simp: find_slice_None)
  then obtain j where j: "find_by_start_block_num w b = Some j" "j < length (hs_slices w)" "sl_start_block_num (hs_slices w ! j) = b"
    using find_slice_Some by (auto simp: find_by_start_block_num_def)
  then have "n + HEADER_SLICE_SIZE * j = n + HEADER_SLICE_SIZE * i" using slices_at_start [OF assms(1) j(2)] j(3) assms(3) by auto
  then have "j = i" by (simp add: HEADER_SLICE_SIZE_def)
  then show ?thesis using j(1) by simp
qed

lemma unat_align: "unat (align_block_num_to_slice_start n) = unat n div HEADER_SLICE_SIZE * HEADER_SLICE_SIZE"
proof -
  have "align_block_num_to_slice_start n = n div 192 * 192" by (simp add: align_block_num_to_slice_start_def HEADER_SLICE_SIZE_def)
  moreover have "unat (n div 192) * 192 < 2 ^ 64" using unat_u64 [of n] by (simp add: unat_div)
  ultimately have "unat (align_block_num_to_slice_start n) = unat (n div 192) * 192" by (simp add: unat_mult_lem [THEN iffD1])
  then show ?thesis by (simp add: unat_div HEADER_SLICE_SIZE_def)
qed

lemma chain_lookup:
  assumes w: "chain_window pre base (xs @ s # ys) post w" and off: "off < length (slice_headers s)"
    and num: "unat num = base + HEADER_SLICE_SIZE * length xs + off"
  shows "find_by_block_num w num = Some (length (pre @ xs))" "hs_slices w ! length (pre @ xs) = s"
    "is_canonical_slice_status (sl_status s)" "sl_headers s = Some (slice_headers s)" "unat (num - sl_start_block_num s) = off"
proof -
  from w have c: "hs_slices w = pre @ (xs @ s # ys) @ post" "chain_slices (xs @ s # ys)"
    "slices_at (base - HEADER_SLICE_SIZE * length pre) (hs_slices w)" "HEADER_SLICE_SIZE * length pre \<le> base" "HEADER_SLICE_SIZE dvd base"
    "base + HEADER_SLICE_SIZE * length ((xs @ s # ys) @ post) < 2 ^ 64"
    unfolding chain_window_def by blast+
  let ?i = "length (pre @ xs)" and ?b = "base + HEADER_SLICE_SIZE * length xs"
  show at: "hs_slices w ! ?i = s" unfolding c(1) by (simp add: nth_append)
  have s: "is_canonical_slice_status (sl_status s)" "nonempty_slice s"
    using chain_slices_append [OF c(2)] chain_slices_Cons [of s ys] by auto
  then show "is_canonical_slice_status (sl_status s)" "sl_headers s = Some (slice_headers s)"
    by (auto simp: nonempty_slice_def slice_headers_def)
  have len: "off < HEADER_SLICE_SIZE" "length (slice_headers s) \<le> HEADER_SLICE_SIZE" using s(2) off by (auto simp: nonempty_slice_def)
  have i: "?i < length (hs_slices w)" unfolding c(1) by simp
  have start: "unat (sl_start_block_num s) = ?b"
    using slices_at_start [OF c(3) i] c(4) unfolding at by (simp add: algebra_simps)
  obtain q where q: "base = HEADER_SLICE_SIZE * q" using c(5) by (auto elim: dvdE)
  have "unat num div HEADER_SLICE_SIZE = q + length xs" unfolding num q using len(1) by (simp add: HEADER_SLICE_SIZE_def)
  then have al: "unat (align_block_num_to_slice_start num) = ?b" by (simp add: unat_align q algebra_simps)
  have f: "find_by_start_block_num w (align_block_num_to_slice_start num) = Some ?i"
    by (rule find_by_start_at [OF c(3) i]) (use al c(4) in \<open>simp add: algebra_simps\<close>)
  have le: "sl_start_block_num s \<le> num" using start num by (simp add: word_le_nat_alt)
  then show "unat (num - sl_start_block_num s) = off" using start num by (simp add: unat_sub)
  have "?b + length (slice_headers s) < 2 ^ 64" using c(6) len(2) by (simp add: algebra_simps)
  then have "unat (of_nat (?b + length (slice_headers s)) :: u64) = ?b + length (slice_headers s)" by (rule u64_of_nat)
  moreover have "sl_start_block_num s + of_nat (length (slice_headers s)) = of_nat (?b + length (slice_headers s))"
    using u64_eqI [OF start] by simp
  ultimately have "num < sl_start_block_num s + of_nat (slice_len s)"
    using num off unfolding word_less_nat_alt by (simp add: slice_len_def slice_headers_def split: option.splits)
  then have "range_contains (block_num_range s) num" using le by (simp add: range_contains_def block_num_range_def)
  then show "find_by_block_num w num = Some ?i" unfolding find_by_block_num_def f using at by simp
qed

section \<open>Total difficulties\<close>

definition headers_total :: "SliceHeader list \<Rightarrow> u256" where
  "headers_total hs = sum_list (map (\<lambda>h. bh_difficulty (sh_header h)) hs)"

lemma headers_total_simps [simp]: "headers_total [] = 0" "headers_total (h # hs) = bh_difficulty (sh_header h) + headers_total hs" "headers_total (hs @ hs') = headers_total hs + headers_total hs'"
  by (simp_all add: headers_total_def)

lemma difficulty_of_headers_all:
  assumes "unat (fst r) \<le> unat num" "unat num + length hs \<le> unat (snd r)"
  shows "difficulty_of_headers hs r (num, d) = (num + of_nat (length hs), d + headers_total hs)"
  using assms
proof (induction hs arbitrary: num d)
  case (Cons h hs)
  have "unat num + 1 < 2 ^ 64" using Cons.prems(2) unat_u64 [of "snd r"] by simp
  then have n: "unat (num + 1) = Suc (unat num)" by (simp add: unat_word_ariths)
  have "range_contains r num" using Cons.prems by (simp add: range_contains_def word_le_nat_alt word_less_nat_alt)
  then show ?case using Cons.IH [of "num + 1" "d + bh_difficulty (sh_header h)"] Cons.prems n by (simp add: algebra_simps)
qed simp

text \<open>Every header of the chain is in one of its slices.\<close>

lemma locate_header:
  assumes "chain_slices cs" "k < length (unsaved_headers cs)"
  shows "\<exists>xs s ys off. cs = xs @ s # ys \<and> k = HEADER_SLICE_SIZE * length xs + off \<and> off < length (slice_headers s)"
  using assms
proof (induction cs arbitrary: k)
  case (Cons s cs)
  show ?case
  proof (cases "k < length (slice_headers s)")
    case True
    then show ?thesis by (intro exI [of _ "[]"] exI [of _ s] exI [of _ cs] exI [of _ k]) simp
  next
    case False
    then have "cs \<noteq> []" using Cons.prems(2) by auto
    then have full: "length (slice_headers s) = HEADER_SLICE_SIZE" "chain_slices cs"
      using Cons.prems(1) by (cases cs; simp add: full_slice_def)+
    then obtain xs t ys off where "cs = xs @ t # ys" "k - HEADER_SLICE_SIZE = HEADER_SLICE_SIZE * length xs + off" "off < length (slice_headers t)"
      using Cons.IH [OF full(2), of "k - HEADER_SLICE_SIZE"] Cons.prems(2) False by (auto simp: less_diff_conv2)
    then show ?thesis using False full(1) by (intro exI [of _ "s # xs"] exI [of _ t] exI [of _ ys] exI [of _ off]) simp
  qed
qed simp

text \<open>The loop adds up the difficulties from a block to the end of the chain.\<close>

lemma range_difficulty_loop_total:
  assumes w: "chain_window pre base cs post w" and r: "unat (fst r) \<le> base" "unat (snd r) = base + length (unsaved_headers cs)"
    and "k \<le> length (unsaved_headers cs)" "unat num = base + k"
  shows "range_difficulty_loop w r num d = Some (d + headers_total (drop k (unsaved_headers cs)))"
  using assms(4,5)
proof (induction "length (unsaved_headers cs) - k" arbitrary: k num d rule: less_induct)
  case less
  let ?H = "unsaved_headers cs"
  show ?case
  proof (cases "k = length ?H")
    case True
    then have "\<not> range_contains r num" using less.prems(2) r(2) by (simp add: range_contains_def word_less_nat_alt)
    then show ?thesis using True by (subst range_difficulty_loop.simps) simp
  next
    case False
    then have k: "k < length ?H" using less.prems(1) by simp
    have cs: "chain_slices cs" using w by (simp add: chain_window_def)
    obtain xs s ys off where x: "cs = xs @ s # ys" "k = HEADER_SLICE_SIZE * length xs + off" "off < length (slice_headers s)"
      using locate_header [OF cs k] by blast
    note l = chain_lookup [OF w [unfolded x(1)] x(3)]
    have num: "unat num = base + HEADER_SLICE_SIZE * length xs + off" using less.prems(2) x(2) by simp
    note l = l [OF num, unfolded length_append]
    have xs: "length (unsaved_headers xs) = HEADER_SLICE_SIZE * length xs"
      by (rule length_unsaved) (use chain_slices_append [of xs "s # ys"] cs x(1) in auto)
    let ?hs = "drop off (slice_headers s)" and ?k = "k + length (drop off (slice_headers s))"
    have kH: "?k \<le> length ?H" "drop k ?H = ?hs @ drop ?k ?H" using x xs by (simp_all add: drop_append)
    have c: "range_contains r num" using k less.prems(2) r by (simp add: range_contains_def word_le_nat_alt word_less_nat_alt)
    have d: "difficulty_of_headers ?hs r (num, d) = (num + of_nat (length ?hs), d + headers_total ?hs)"
      by (rule difficulty_of_headers_all) (use less.prems(2) r kH(1) in simp_all)
    have n: "unat (num + of_nat (length ?hs)) = base + ?k"
    proof -
      have "base + ?k < 2 ^ 64" using kH(1) r(2) unat_u64 [of "snd r"] by linarith
      then have "unat (of_nat (base + ?k) :: u64) = base + ?k" by (rule u64_of_nat)
      moreover have "num + of_nat (length ?hs) = of_nat (base + ?k)" using less.prems(2) u64_eqI [OF refl, of num] by simp
      ultimately show ?thesis by metis
    qed
    have "length ?H - ?k < length ?H - k" using k x(3) by simp
    from less.hyps [OF this kH(1) n, of "d + headers_total ?hs"]
    have "range_difficulty_loop w r (num + of_nat (length ?hs)) (d + headers_total ?hs) = Some (d + headers_total ?hs + headers_total (drop ?k ?H))" .
    then show ?thesis
      unfolding kH(2) by (subst range_difficulty_loop.simps) (simp add: c l d Let_def add.assoc del: length_drop)
  qed
qed

lemma range_difficulty_total:
  assumes "chain_window pre base cs post w" "unat (fst r) \<le> base" "unat (snd r) = base + length (unsaved_headers cs)"
    and "base \<le> Suc (unat c)" "Suc (unat c) \<le> base + length (unsaved_headers cs)"
  shows "range_difficulty w r c = Some (headers_total (drop (Suc (unat c) - base) (unsaved_headers cs)))"
proof -
  have "Suc (unat c) < 2 ^ 64" using assms(3,5) unat_u64 [of "snd r"] by simp
  then have n: "unat (c + 1) = Suc (unat c)" by (simp add: unat_word_ariths)
  have "range_difficulty_loop w r (c + 1) 0 = Some (0 + headers_total (drop (Suc (unat c) - base) (unsaved_headers cs)))"
    by (rule range_difficulty_loop_total [OF assms(1-3)]) (use assms(4,5) n in simp_all)
  then show ?thesis by (simp add: range_difficulty_def)
qed

section \<open>Where the chains meet\<close>

lemma chained_nth_number:
  "chained L genesis prev n hs \<Longrightarrow> i < length hs \<Longrightarrow> unat (sh_number (hs ! i)) = n + i"
proof (induction hs arbitrary: prev n i)
  case (Cons h hs)
  have rest: "chained L genesis (Some (sh_hash L h)) (Suc n) hs" using Cons.prems(1) by simp
  show ?case
  proof (cases i)
    case 0
    then show ?thesis using Cons.prems(1) by simp
  next
    case (Suc j)
    then show ?thesis using Cons.IH [OF rest, of j] Cons.prems(2) by simp
  qed
qed simp

lemma nth_unsaved:
  assumes "\<forall>s \<in> set xs. full_slice s" "m < length (slice_headers s)"
  shows "unsaved_headers (xs @ s # ys) ! (HEADER_SLICE_SIZE * length xs + m) = slice_headers s ! m"
  using length_unsaved [OF assms(1)] assms(2) by (simp add: nth_append)

lemma find_rev_zip:
  assumes "find P (rev (zip xs ys)) = Some (x, y)"
  obtains m where "m < length xs" "m < length ys" "x = xs ! m" "y = ys ! m" "P (x, y)"
proof -
  from assms obtain i where "P (x, y)" "i < length (rev (zip xs ys))" "(x, y) = rev (zip xs ys) ! i"
    unfolding find_Some_iff by auto
  then have "(x, y) \<in> set (zip xs ys)" "P (x, y)" using nth_mem [of i "rev (zip xs ys)"] by simp_all
  then obtain m where "m < length (zip xs ys)" "zip xs ys ! m = (x, y)" "P (x, y)" unfolding in_set_conv_nth by blast
  then show thesis by (intro that [of m]) simp_all
qed

text \<open>The canonical chain from \<open>base\<close> in one window and a fork from \<open>fbase\<close> in the other, with the ranges the stage keeps of them.\<close>

definition chain_and_fork ::
  "header_lib \<Rightarrow> h256 \<Rightarrow> fork_state \<Rightarrow> nat \<Rightarrow> HeaderSlice list \<Rightarrow> nat \<Rightarrow> HeaderSlice list \<Rightarrow> bool" where
  "chain_and_fork L genesis = (\<lambda>(st, w, fw) base cs fbase fs.
     (\<exists>pre post prev. chain_window pre base cs post w \<and> chained L genesis prev base (unsaved_headers cs))
     \<and> (\<exists>pre post prev. chain_window pre fbase fs post fw \<and> chained L genesis prev fbase (unsaved_headers fs))
     \<and> unat (fst (fm_canonical_range st)) = base \<and> unat (snd (fm_canonical_range st)) = base + length (unsaved_headers cs)
     \<and> unat (fst (fm_fork_range st)) = fbase \<and> unat (snd (fm_fork_range st)) = fbase + length (unsaved_headers fs)
     \<and> fs \<noteq> [] \<and> base \<le> fbase \<and> fbase < base + length (unsaved_headers cs))"

lemma fork_first_slice:
  assumes fork: "chain_window fpre fbase fs fpost fw" "fs \<noteq> []" "unat (fst (fm_fork_range st)) = fbase"
  shows "find_fork_first_slice st fw = Some (length fpre)" "hs_slices fw ! length fpre = hd fs"
  "sl_headers (hd fs) = Some (slice_headers (hd fs))" "unat (sl_start_block_num (hd fs)) = fbase" "slice_headers (hd fs) \<noteq> []"
proof -
  obtain f0 ft where fs: "fs = [] @ f0 # ft" using fork(2) by (cases fs) auto
  have "chain_slices (hd fs # tl fs)" using fork(1,2) by (simp add: chain_window_def)
  then have "nonempty_slice (hd fs)" using chain_slices_Cons by blast
  then have ne: "0 < length (slice_headers (hd fs))" by (simp add: nonempty_slice_def)
  then show "slice_headers (hd fs) \<noteq> []" by simp
  note l = chain_lookup [OF fork(1) [unfolded fs], of 0 "fst (fm_fork_range st)"]
  have hd: "hd fs = f0" using fs by simp
  show "find_fork_first_slice st fw = Some (length fpre)" "hs_slices fw ! length fpre = hd fs"
    "sl_headers (hd fs) = Some (slice_headers (hd fs))"
    using l(1,2,4) ne fork(3) unfolding hd by (simp_all add: find_fork_first_slice_def)
  have at: "slices_at (fbase - HEADER_SLICE_SIZE * length fpre) (hs_slices fw)" "HEADER_SLICE_SIZE * length fpre \<le> fbase"
    "length fpre < length (hs_slices fw)" using fork(1,2) unfolding chain_window_def by auto
  show "unat (sl_start_block_num (hd fs)) = fbase"
    using slices_at_start [OF at(1,3)] at(2) l(2) ne fork(3) unfolding hd by simp
qed

lemma canonical_slice_at_fork:
  assumes canonical: "chain_window pre base cs post w" and start: "unat start = fbase" "HEADER_SLICE_SIZE dvd fbase"
    and overlap: "base \<le> fbase" "fbase < base + length (unsaved_headers cs)"
  obtains xs s ys where "cs = xs @ s # ys" "fbase = base + HEADER_SLICE_SIZE * length xs" "\<forall>s \<in> set xs. full_slice s"
    "find_by_start_block_num w start = Some (length (pre @ xs))"
    "hs_slices w ! length (pre @ xs) = s" "sl_headers s = Some (slice_headers s)"
proof -
  have cs: "chain_slices cs" using canonical by (simp add: chain_window_def)
  have "fbase - base < length (unsaved_headers cs)" using overlap by simp
  from locate_header [OF cs this] obtain xs s ys off where x: "cs = xs @ s # ys" "fbase - base = HEADER_SLICE_SIZE * length xs + off"
    "off < length (slice_headers s)" by blast
  have full: "\<forall>s \<in> set xs. full_slice s" "nonempty_slice s"
    using chain_slices_append [of xs "s # ys"] chain_slices_Cons [of s ys] cs x(1) by auto
  have c: "HEADER_SLICE_SIZE dvd base" "HEADER_SLICE_SIZE dvd fbase" "slices_at (base - HEADER_SLICE_SIZE * length pre) (hs_slices w)"
    "HEADER_SLICE_SIZE * length pre \<le> base" "hs_slices w = pre @ cs @ post"
    using canonical start(2) unfolding chain_window_def by blast+
  have "HEADER_SLICE_SIZE dvd HEADER_SLICE_SIZE * length xs + off" using c(1,2) x(2) by (metis dvd_diff_nat)
  moreover have "off < HEADER_SLICE_SIZE" using x(3) full(2) by (simp add: nonempty_slice_def)
  ultimately have "off = 0" by (metis dvd_add_triv_left_iff dvd_triv_left dvd_add_right_iff nat_dvd_not_less neq0_conv)
  then have fb: "fbase = base + HEADER_SLICE_SIZE * length xs" using x(2) overlap(1) by simp
  have i: "length (pre @ xs) < length (hs_slices w)" using c(5) x(1) by simp
  have "find_by_start_block_num w start = Some (length (pre @ xs))"
    by (rule find_by_start_at [OF c(3) i]) (use fb start(1) c(4) in \<open>simp add: algebra_simps\<close>)
  moreover have "hs_slices w ! length (pre @ xs) = s" using c(5) x(1) by (simp add: nth_append)
  moreover have "sl_headers s = Some (slice_headers s)" using full(2) by (auto simp: nonempty_slice_def slice_headers_def)
  ultimately show thesis using that x(1) fb full(1) by blast
qed

lemma fork_connection:
  assumes both: "chain_and_fork L genesis (st, w, fw) base cs fbase fs" and "find_fork_connection_block_num L st w fw = Some c"
  shows "fbase \<le> unat c" "unat c < base + length (unsaved_headers cs)" "unat c < fbase + length (unsaved_headers fs)"
    "sh_hash L (unsaved_headers cs ! (unat c - base)) = sh_hash L (unsaved_headers fs ! (unat c - fbase))"
proof -
  from both obtain pre post prev fpre fpost fprev where
    canonical: "chain_window pre base cs post w" "chained L genesis prev base (unsaved_headers cs)"
    and fork: "chain_window fpre fbase fs fpost fw" "fs \<noteq> []" "unat (fst (fm_fork_range st)) = fbase"
    and overlap: "base \<le> fbase" "fbase < base + length (unsaved_headers cs)"
    by (auto simp: chain_and_fork_def)
  note f = fork_first_slice [OF fork]
  have "HEADER_SLICE_SIZE dvd fbase" using fork(1) by (simp add: chain_window_def)
  from canonical(1) f(4) this overlap
  obtain xs s ys where x: "cs = xs @ s # ys" "fbase = base + HEADER_SLICE_SIZE * length xs" "\<forall>s \<in> set xs. full_slice s"
    "find_by_start_block_num w (sl_start_block_num (hd fs)) = Some (length (pre @ xs))"
    "hs_slices w ! length (pre @ xs) = s" "sl_headers s = Some (slice_headers s)" by (rule canonical_slice_at_fork)
  from assms(2) obtain h k where find: "find (\<lambda>(header, fork_header). sh_hash L header = sh_hash L fork_header)
      (rev (zip (slice_headers s) (slice_headers (hd fs)))) = Some (h, k)" and c: "c = sh_number h"
    using x(4-6) f(1-3) by (auto simp: find_fork_connection_block_num_def Option.bind_eq_Some_conv)
  from find obtain m where m: "m < length (slice_headers s)" "m < length (slice_headers (hd fs))"
    "h = slice_headers s ! m" "k = slice_headers (hd fs) ! m" "sh_hash L h = sh_hash L k" by (rule find_rev_zip) auto
  have xs: "length (unsaved_headers xs) = HEADER_SLICE_SIZE * length xs" by (rule length_unsaved [OF x(3)])
  have h: "unsaved_headers cs ! (HEADER_SLICE_SIZE * length xs + m) = h" unfolding x(1) m(3) by (rule nth_unsaved [OF x(3) m(1)])
  have k: "unsaved_headers fs ! m = k" using nth_unsaved [of "[]" m "hd fs" "tl fs"] m(2,4) fork(2) by simp
  have "HEADER_SLICE_SIZE * length xs + m < length (unsaved_headers cs)" using m(1) xs x(1) by simp
  from chained_nth_number [OF canonical(2) this] have n: "unat c = fbase + m" unfolding h c using x(2) by simp
  moreover have "m < length (unsaved_headers fs)" using m(2) fork(2) by (cases fs) simp_all
  ultimately show "fbase \<le> unat c" "unat c < base + length (unsaved_headers cs)" "unat c < fbase + length (unsaved_headers fs)"
    "sh_hash L (unsaved_headers cs ! (unat c - base)) = sh_hash L (unsaved_headers fs ! (unat c - fbase))"
    using m(1,5) xs x(1,2) h k by simp_all
qed

lemma fork_decision:
  assumes both: "chain_and_fork L genesis (st, w, fw) base cs fbase fs" and c: "find_fork_connection_block_num L st w fw = Some c"
  shows "decide_fork L (st, w, fw) = Some (True,
    if headers_total (drop (Suc (unat c) - fbase) (unsaved_headers fs)) > headers_total (drop (Suc (unat c) - base) (unsaved_headers cs))
    then (request_switch_to_fork c st, w, fw) else (case discard_fork (st, fw) of (st, fw) \<Rightarrow> (st, w, fw)))"
proof -
  note n = fork_connection [OF both c]
  from both obtain pre post fpre fpost where
    canonical: "chain_window pre base cs post w" "unat (fst (fm_canonical_range st)) = base"
      "unat (snd (fm_canonical_range st)) = base + length (unsaved_headers cs)"
    and fork: "chain_window fpre fbase fs fpost fw" "unat (fst (fm_fork_range st)) = fbase"
      "unat (snd (fm_fork_range st)) = fbase + length (unsaved_headers fs)"
    and overlap: "base \<le> fbase"
    by (auto simp: chain_and_fork_def)
  have "range_difficulty fw (fm_fork_range st) c = Some (headers_total (drop (Suc (unat c) - fbase) (unsaved_headers fs)))"
    by (rule range_difficulty_total [OF fork(1)]) (use fork(2,3) n in simp_all)
  moreover have "range_difficulty w (fm_canonical_range st) c = Some (headers_total (drop (Suc (unat c) - base) (unsaved_headers cs)))"
    by (rule range_difficulty_total [OF canonical(1)]) (use canonical(2,3) n overlap in simp_all)
  ultimately show ?thesis using c by (simp add: decide_fork_def)
qed

end
