(* ===== verification/Spec2Isabelle.thy ===== *)
theory Spec2Isabelle
  imports BlockSafety StorageRefund ConsensusRules InMemoryState Buffer TableCodec StagedSync TrieRoot BlockchainRun
    PreverifiedDownload ForkSafety
begin

text \<open>
  \<^bold>\<open>Martinez: the execution layer of an Ethereum node.\<close>

  Martinez executes blocks. A block reaches the \<^emph>\<open>processor\<close>, which validates each transaction, buys
  its gas, runs it and pays the miner; the run is an \<^emph>\<open>EVM\<close> frame that calls its \<^emph>\<open>host\<close> for
  everything outside the frame; the host works on the \<^emph>\<open>journaled state\<close> of the block and starts
  frames of its own for calls and creations; at the end of the block the \<^emph>\<open>consensus engine\<close> hands out
  rewards and the journaled state is committed to a \<^emph>\<open>store\<close>: one in memory, or a buffer that is
  flushed to the tables of a database. The theories follow this order. Paths below are under
  \<open>src/src\<close>.

  \<^bold>\<open>Conventions\<close> (\<open>Prelude\<close>).
  \<^item> A Rust \<open>Err\<close> is the left side of a sum. A panic (a failed \<open>unwrap\<close>, an index out of range, a
    failed assertion) is \<open>None\<close> of an option around everything else, so "does not panic" is a theorem.
  \<^item> \<open>U256\<close>, \<open>u64\<close>, \<open>u128\<close>, addresses and hashes are words of their width and wrap around as in the
    release build. The gas counter is an \<open>i64\<close>, an integer with the wrap-around \<open>i64\<close> written out.
    \<open>usize\<close> is \<open>nat\<close>, with the wrap-around written where a sum can exceed 64 bits.
  \<^item> A hash map is a map; a loop over one goes through its entries in increasing order of the keys
    (\<open>StateStore.entries\<close>), one of the orders the source may take.
  \<^item> Third-party code is a parameter or data: Keccak-256 and the signed arithmetic of the crate
    \<open>i256\<close> (record \<open>lib\<close>), the hash and curve functions of the precompiled contracts (record
    \<open>crypto_lib\<close>), the LRU cache, the RLP encoding of a new contract's address, the proof-of-work check
    of \<open>ethash\<close>, and the roots of the tries. What the proofs need of them is a named hypothesis
    (\<open>lru_ok\<close>, \<open>crypto_ok\<close>, \<open>bigint_ok\<close>), and every property with such a hypothesis has a witness.
  \<^item> Reads and writes of a database succeed; a table is the map of its contents.

  \<^bold>\<open>The EVM\<close> (\<open>execution/evm\<close>).
  \<^item> \<open>Revision\<close>: \<open>models/revision.rs\<close>, with the linear order the enum derives.
  \<^item> \<open>EvmStack\<close>, \<open>EvmTypes\<close>: the operand stack, memory, messages, status codes, the frame
    (\<open>ExecutionState\<close>) and the trait \<open>Host\<close> as a record of functions on a host state.
  \<^item> \<open>Opcode\<close>: the opcodes and the tables of gas costs and stack properties per revision.
  \<^item> \<open>InstrCompute\<close>, \<open>InstrMemory\<close>, \<open>InstrExternal\<close>, \<open>InstrCall\<close>: every instruction, with the lemmas on
    its arithmetic, its gas, its copying and its memory growth.
  \<^item> \<open>Interpreter\<close>: code analysis, the requirements of an instruction, the dispatch and the loop. The
    loop is a \<open>partial_function\<close> into \<open>option\<close>, so that running forever is \<open>None\<close> as a panic is.
  \<^item> \<open>InterpreterSafety\<close>: the jump table and the padding of analyzed code are exact; the locale
    \<open>host_contract\<close> states what a frame relies on, and in it every frame returns with gas between
    zero and what it was given, and relates the host state before and after.

  \<^bold>\<open>The journaled state\<close> (\<open>state/intra_block_state.rs\<close>, \<open>delta.rs\<close>, \<open>object.rs\<close>).
  \<^item> \<open>IntraBlockState\<close>: every operation, its journal, snapshots and reverts. Reverting restores every
    observation; the invariant \<open>ibs_ok\<close> is kept by every operation.
  \<^item> \<open>StateEffects\<close>: what each operation does to accounts and to the sum of balances, in the form the
    host uses.

  \<^bold>\<open>The host\<close> (\<open>execution/evmglue.rs\<close>, \<open>address.rs\<close>, \<open>analysis_cache.rs\<close>, \<open>precompiled.rs\<close>).
  \<^item> \<open>Util\<close>, \<open>Blake2\<close>, \<open>Precompiled\<close>: the precompiled contracts, their prices and results on every
    input, and their table \<open>CONTRACTS\<close>. Modular exponentiation returns the power, and does not panic below an
    exponent of \<open>2 ^ 61\<close> bytes that has been paid for.
  \<^item> \<open>EvmGlue\<close>: calls, creations and the host operations. A frame runs on the host of the next depth;
    \<open>evm_host\<close> takes the number of nested frames still allowed, and starts from \<open>CALL_LIMIT\<close>, the
    limit of 1024 that the instructions check before they call.
  \<^item> \<open>EvmGlueSafety\<close>: \<open>evm_host\<close> satisfies \<open>host_contract\<close> at every depth, for every table of contracts that
    return once their price is paid (\<open>precompiles_ok\<close>).
  \<^item> \<open>ContractTable\<close>: the source's table is not such a table from Byzantium on, because the price of modular
    exponentiation wraps around; a transaction can panic the node (\<open>expmod_transaction_panics\<close>). The \<open>guarded\<close> table, in
    which the contract fails on an exponent of \<open>2 ^ 61\<close> bytes or more where the source's panics, is one; and the
    execution on the source's table gives what the execution on the guarded one gives, or panics (the locale
    \<open>host_refinement\<close>). So, in every revision and on the source's own table (\<open>source_evm\<close>), a
    transaction's execution returns but for that panic, makes no ether, restores the state when it fails and leaves it
    alone when it is static.
  \<^item> \<open>StorageRefund\<close>: the refund counter of net gas metering, against a closed form of the refunds of the EIPs in the integers.

  \<^bold>\<open>Blocks\<close> (\<open>models\<close>, \<open>chain\<close>, \<open>consensus\<close>, \<open>execution/processor.rs\<close>).
  \<^item> \<open>Models\<close>, \<open>ChainSpec\<close>: transactions, headers, and the revision and parameters collected for a block.
  \<^item> \<open>Consensus\<close>, \<open>ConsensusRules\<close>: header and block validation, base fee, difficulty, ommers and
    rewards, and the formulas in the integers that the wrapping code computes.
  \<^item> \<open>Processor\<close>, \<open>ProcessorSafety\<close>: a transaction and a block, with intrinsic gas, gas purchase and
    refund, the bloom filter and the receipts, on every table of contracts that return once paid for.
  \<^item> \<open>BlockSafety\<close>: the same on the source's table, by way of the guarded one. What validation accepts runs
    without another panic than that of modular exponentiation, the gas stays within the limit of the block,
    and only the rewards make ether.

  \<^bold>\<open>Stores\<close> (\<open>state\<close>, \<open>accessors/state.rs\<close>).
  \<^item> \<open>StateStore\<close>: the trait \<open>State\<close> as a record of operations and \<open>write_to_db\<close>, which commits a block.
    The locale \<open>state_store\<close> has the laws of a store; in it, \<open>write_to_db\<close> refines the abstract commit
    \<open>committed_db\<close>.
  \<^item> \<open>InMemoryState\<close>: the store in memory and the initial state of the genesis block; it interprets
    \<open>state_store\<close>. What unwinding a committed block gives is stated exactly: the state before it, but for the
    storage of contracts that the block destroyed and created again.
  \<^item> \<open>Tables\<close>, \<open>Buffer\<close>: the tables of the state, the cursor operations on them and the historical
    reads; the buffer interprets \<open>state_store\<close> over any tables, and flushing it leaves tables that
    read as the buffer did.

  \<^bold>\<open>The chain\<close> (\<open>consensus/blockchain.rs\<close>).
  \<^item> \<open>Blockchain\<close>: the chain of the consensus tests. A block is validated, the state in memory is unwound to
    the last canonical ancestor, the branch is executed, and the longer chain by total difficulty becomes
    canonical; otherwise the canonical blocks are executed again. The search for the ancestor is a
    \<open>partial_function\<close>.
  \<^item> \<open>BlockchainRun\<close>: the fork choice as an invariant of all chains that insertions reach (\<open>chain_run\<close>),
    failed blocks, and the panic on a canonical block that is inserted again.

  \<^bold>\<open>The database\<close> (\<open>kv/tables.rs\<close>, \<open>models/account.rs\<close>, \<open>bitmapdb\<close>, \<open>etl\<close>).
  \<^item> \<open>TableCodec\<close>: the bytes of keys and values. The locales \<open>table_object\<close>, \<open>table_key\<close> and \<open>dup_value\<close>
    state that an object is decoded from its bytes and that bytes are ordered as keys are; with their
    interpretations, seeking among bytes is the seeking among keys that the other theories use.
  \<^item> \<open>BitmapDb\<close>: sets of block numbers cut into chunks, and the exactness of historical reads through
    them, but for the ends of chunks, at which every read gives the present value.
  \<^item> \<open>Etl\<close>: the collector that sorts through temporary files, a file being its bytes; it sorts.

  \<^bold>\<open>Stages\<close> (\<open>stages\<close>, \<open>stagedsync\<close>).
  \<^item> \<open>StageTables\<close>: the tables of the stages as lists of rows, the cursor operations on them, and the
    inputs and outputs of a stage.
  \<^item> \<open>StageState\<close>: the unwinding of the execution stage restores the state that the change sets record.
  \<^item> \<open>HashState\<close>: the hashed copy of the state; promoting changes gives what hashing everything anew gives.
  \<^item> \<open>StageIndices\<close>: the cumulative indices of gas and transactions, and the numbers of block hashes.
  \<^item> \<open>StagedSync\<close>: the driver, and the unwinding of the senders, of the intermediate hashes and of the last stage. The locale
    \<open>unwind_descends\<close> is what the driver relies on when it unwinds a stage, and \<open>unwind_contract\<close> adds that the stage does not pass
    the unwind point. Every modelled stage interprets the second, but for the intermediate hashes, which start over from block
    zero and interpret the first. The loops that need not end are \<open>partial_function\<close>s into \<open>option\<close>, and that unwinding ends
    is a theorem. Executing blocks, recovering senders and computing the intermediate hashes are parameters of their stages.

  \<^bold>\<open>The header downloader\<close> (\<open>downloader/headers_downloader\<close>).
  \<^item> \<open>SliceWindow\<close>: headers with their cached hashes, slices of 192 headers, and the window of slices with the counters of
    their statuses. A slice behind a lock is its position in the window; the channels that wake stages are left out.
  \<^item> \<open>HeaderStages\<close>: the verifier of headers and the stages that request, receive, retry, verify, link, save, refill and
    penalise. What the network answers, the clock and the number of processors are arguments. \<open>HeaderWindow\<close> and
    \<open>VerifyLoop\<close> show what the stages keep of the window, that their loops end, and what a verified slice has passed (the
    locale \<open>slice_verifier\<close>, interpreted on the verifier of the source).
  \<^item> \<open>HeaderChain\<close>: chains of headers in memory and in the tables, saving and unwinding them.
  \<^item> \<open>LinearDownload\<close>, \<open>LinearSafety\<close>, \<open>LinearProgress\<close>, \<open>LinearTheorems\<close>: the linear downloader as a step relation, its stages
    in any order. Whatever the peers send, what is saved is a chain; and honest answers move it forward.
  \<^item> \<open>PreverifiedDownload\<close>: the downloader that compares slices with known hashes, and what exactly it accepts.
  \<^item> \<open>ForkMode\<close>, \<open>ForkSafety\<close>: forks near the tip, and the choice of the branch with the higher difficulty.

  \<^bold>\<open>Tries\<close> (\<open>trie/hash_builder.rs\<close>, \<open>trie/node.rs\<close>, \<open>trie/prefix_set.rs\<close>, \<open>trie/util.rs\<close>).
  \<^item> \<open>Trie\<close>: nibbles and paths, the nodes of the trie tables and their bytes, prefix sets, and the
    builder that hashes a trie from its entries in the order of their keys, with the callback that
    collects its branch nodes. The hash and the RLP encoding of a list are parameters (record
    \<open>trie_lib\<close>). \<open>trie_root\<close> is the recursive definition of the yellow paper.
  \<^item> \<open>TrieRoot\<close>: the builder computes \<open>trie_root\<close>, by an invariant that reads its stack and its
    digit masks as the open branches on the path to the last key. The encoders of single nodes
    (\<open>leaf_node_rlp\<close>, \<open>extension_node_rlp\<close>, \<open>encode_path\<close>, \<open>node_ref\<close>) are those of the code in both: the theorem is about the
    structure of the trie, not about them.

  \<^bold>\<open>Not modelled.\<close> The callbacks of tracers, which only observe; the network (\<open>sentry\<close>, and of the
  \<open>downloader\<close> the exchange of messages and the loop of the downloader that follows forks), the RPC services and the binaries, which are asynchronous input and output; the
  MDBX bindings below the cursors (\<open>kv\<close>) and the objects that third-party codecs encode (SCALE, RON,
  Roaring); the stages that look transactions up and index call traces, and the forward
  halves of those that recover senders and build the trie of the state (\<open>trie/intermediate_hashes.rs\<close>); the commitment prototype (\<open>commitment\<close>); RLP encodings; and the stale copies of the code
  above that the crate does not compile (\<open>execution/martinez-evm\<close>, \<open>execution/evm.rs\<close>,
  \<open>chain/blockchain.rs\<close> and others).
\<close>

end
